(* ===== verification/Prelude.thy ===== *)
theory Prelude
  imports Main "HOL-Library.Multiset" "HOL-Library.AList"
begin

text \<open>
  Shared vocabulary of the development: the results of operations that can raise, the integer
  helpers of \<open>utils/misc.py\<close>, the pop of a minimal element that \<open>heapq\<close> provides to the
  caches, and lemmas on lists and association lists that several components use.
\<close>

section \<open>Results\<close>

text \<open>A raise or a failed \<open>assert\<close> of the source is the left value of a sum.\<close>

datatype py_error =
    AssertionError
  | RuntimeError
  | ValueError
  | KeyError
  | IndexError
  | NotImplementedError
  | TypeError
  | KeyboardInterrupt
  | AttributeError
  | OverflowError
  | SyntaxError

type_synonym 'a result = "py_error + 'a"

definition rbind :: "'a result \<Rightarrow> ('a \<Rightarrow> 'b result) \<Rightarrow> 'b result" where
  "rbind r f = (case r of Inl e \<Rightarrow> Inl e | Inr x \<Rightarrow> f x)"

definition py_assert :: "bool \<Rightarrow> 'a result \<Rightarrow> 'a result" where
  "py_assert b r = (if b then r else Inl AssertionError)"

fun is_ok :: "'a result \<Rightarrow> bool" where
  "is_ok (Inl _) = False"
| "is_ok (Inr _) = True"

lemma rbind_simps [simp]:
  "rbind (Inl e) f = Inl e"
  "rbind (Inr x) f = f x"
  by (simp_all add: rbind_def)

lemma rbind_Inr_conv: "rbind r f = Inr y \<longleftrightarrow> (\<exists>x. r = Inr x \<and> f x = Inr y)"
  by (cases r) auto

lemma rbind_cong [fundef_cong]:
  assumes "r = r'" and "\<And>x. r' = Inr x \<Longrightarrow> f x = f' x"
  shows "rbind r f = rbind r' f'"
  using assms by (cases r') auto

lemma py_assert_Inr_conv: "py_assert b r = Inr y \<longleftrightarrow> b \<and> r = Inr y"
  by (simp add: py_assert_def)

lemma is_ok_conv: "is_ok r \<longleftrightarrow> (\<exists>x. r = Inr x)"
  by (cases r) auto

lemmas result_convs = rbind_Inr_conv py_assert_Inr_conv is_ok_conv

section \<open>Integer helpers (utils/misc.py)\<close>

text \<open>
  Python's \<open>//\<close> on integers is \<open>div\<close> on \<open>int\<close> (both round down). The helpers are used on
  lengths (\<open>nat\<close>) and on differences that can be negative (\<open>int\<close>), so they are polymorphic.
\<close>

definition align_down :: "'a::{divide,times} \<Rightarrow> 'a \<Rightarrow> 'a" where
  "align_down a b = (a div b) * b"

definition div_ceil :: "'a::{divide,plus,minus,one} \<Rightarrow> 'a \<Rightarrow> 'a" where
  "div_ceil a b = (a + b - 1) div b"

definition align_ceil :: "'a::{divide,times,plus,minus,one} \<Rightarrow> 'a \<Rightarrow> 'a" where
  "align_ceil a b = div_ceil a b * b"

definition div_even :: "int \<Rightarrow> int \<Rightarrow> bool \<Rightarrow> int result" where
  "div_even a b allow_replicate =
     (if allow_replicate \<and> b > a then py_assert (b mod a = 0) (Inr 1)
      else py_assert (a mod b = 0) (Inr (a div b)))"

lemma align_down_le [simp]: "align_down a b \<le> (a::nat)"
  by (simp add: align_down_def)

lemma align_down_dvd [simp]: "b dvd align_down a (b::nat)"
  by (simp add: align_down_def)

lemma align_down_dvd_id: "b dvd (a::nat) \<Longrightarrow> align_down a b = a"
  by (simp add: align_down_def)

lemma align_down_gt: "0 < b \<Longrightarrow> a < align_down a b + (b::nat)"
  unfolding align_down_def by (metis add.commute dividend_less_div_times)

lemma align_down_mono: "a \<le> c \<Longrightarrow> align_down a b \<le> align_down c (b::nat)"
  by (simp add: align_down_def div_le_mono)

lemma align_down_add_dvd: "b dvd (a::nat) \<Longrightarrow> align_down (a + c) b = a + align_down c b"
  by (cases "b = 0") (auto simp: align_down_def div_plus_div_distrib_dvd_left algebra_simps elim!: dvdE)

lemma align_down_greatest: "b dvd c \<Longrightarrow> c \<le> a \<Longrightarrow> c \<le> align_down a (b::nat)"
  using align_down_mono [of c a b] align_down_dvd_id [of b c] by simp

lemma div_ceil_ge: "0 < b \<Longrightarrow> a \<le> div_ceil a b * (b::nat)"
proof -
  assume b: "0 < b"
  have "a + b - 1 < (a + b - 1) div b * b + b"
    using b by (metis add.commute dividend_less_div_times)
  with b show ?thesis unfolding div_ceil_def by linarith
qed

lemma div_ceil_lt: "0 < b \<Longrightarrow> div_ceil a b * b < a + (b::nat)"
proof -
  assume b: "0 < b"
  have "(a + b - 1) div b * b \<le> a + b - 1" by simp
  with b show ?thesis unfolding div_ceil_def by linarith
qed

lemma div_ceil_mono: "a \<le> c \<Longrightarrow> div_ceil a b \<le> div_ceil c (b::nat)"
  by (simp add: div_ceil_def div_le_mono)

lemma div_ceil_mult: "0 < b \<Longrightarrow> div_ceil (b * k) b = (k::nat)"
proof -
  assume b: "0 < b"
  have "b * k + b - 1 = (b - 1) + b * k" using b by simp
  then have "(b * k + b - 1) div b = (b - 1) div b + k"
    using b div_mult_self2 [of b "b - 1" k] by simp
  with b show ?thesis by (simp add: div_ceil_def)
qed

lemma div_ceil_dvd: "0 < b \<Longrightarrow> b dvd a \<Longrightarrow> div_ceil a b * b = (a::nat)"
  by (auto simp: div_ceil_mult elim: dvdE)

end
