(* ===== verification/Radix_Tree.thy ===== *)
theory Radix_Tree
  imports Prelude
begin

text \<open>
  The radix tree shared by the three prefix caches (\<open>RadixTreeNode\<close> of
  \<open>kvcache/radix_cache.py\<close>): node data, \<open>split_at\<close>, the descent \<open>_tree_walk\<close>, the walk up
  the parent pointers, and the collection of leaves.

  The source links nodes by references. Here a tree is a value: a node owns its children, and the
  reference a cache handle keeps is the node's \<open>uuid\<close>, which the source also assigns to every
  node from a global counter and never changes. The parent chain \<open>node, node.parent, ..., root\<close>
  that the loops of the source follow is \<open>chain\<close>. A dictionary of children is an association
  list in insertion order; updating an existing key keeps its place, as Python's dictionaries do.
\<close>

section \<open>Node data\<close>

type_synonym token = int
type_synonym slot = nat

record ndata =
  uuid :: nat
  nkey :: "token list"
  nval :: "slot list"
  ref_count :: int
  timestamp :: int
  mamba_value :: "nat option"
  mamba_ref_count :: int
  swa_tombstone :: bool
  swa_ref_count :: int
  swa_uuid :: "nat option"

datatype rtree = RNode (rdata: ndata) (rkids: "(token list \<times> rtree) list")

abbreviation node_len :: "ndata \<Rightarrow> nat" where
  "node_len d \<equiv> length (nkey d)"

text \<open>\<open>RadixTreeNode.__init__\<close> followed by \<open>set_key_value\<close>: \<open>tic or time.monotonic_ns()\<close>
  takes the clock reading when the given timestamp is 0.\<close>

definition new_node :: "nat \<Rightarrow> int \<Rightarrow> int \<Rightarrow> token list \<Rightarrow> slot list \<Rightarrow> ndata" where
  "new_node fresh tic now k v =
     \<lparr>uuid = fresh, nkey = k, nval = v, ref_count = 0,
      timestamp = (if tic = 0 then now else tic),
      mamba_value = None, mamba_ref_count = 0,
      swa_tombstone = False, swa_ref_count = 0, swa_uuid = None\<rparr>"

text \<open>\<open>key_fn\<close>: the first page of a key. The source returns an int when the page size is 1
  and a tuple otherwise; both are the list of the first \<open>page_size\<close> tokens here.\<close>

definition key_fn :: "nat \<Rightarrow> token list \<Rightarrow> token list" where
  "key_fn ps x = take ps x"

text \<open>\<open>fast_compare_key\<close> (\<open>kernel/csrc/src/radix.cpp\<close>): the first position where the two
  arrays differ, bounded by the shorter one.\<close>

fun fast_compare_key :: "token list \<Rightarrow> token list \<Rightarrow> nat" where
  "fast_compare_key (x # xs) (y # ys) = (if x = y then Suc (fast_compare_key xs ys) else 0)"
| "fast_compare_key _ _ = 0"

definition get_match_len :: "rtree \<Rightarrow> token list \<Rightarrow> nat" where
  "get_match_len n ids = fast_compare_key (nkey (rdata n)) ids"

section \<open>Node operations\<close>

text \<open>\<open>split_at\<close>: a new node takes the first \<open>pos\<close> tokens and adopts the old node as its
  only child; the old node keeps its identity, its children and its snapshot. The caller puts the
  returned node in the parent's dictionary (\<open>new_node.set_parent(parent)\<close>).\<close>

definition split_front :: "nat \<Rightarrow> int \<Rightarrow> nat \<Rightarrow> ndata \<Rightarrow> ndata" where
  "split_front fresh now pos d =
     (new_node fresh (timestamp d) now (take pos (nkey d)) (take pos (nval d)))
       \<lparr>ref_count := ref_count d, swa_ref_count := swa_ref_count d,
        swa_tombstone := swa_tombstone d, swa_uuid := swa_uuid d\<rparr>"

definition split_back :: "nat \<Rightarrow> ndata \<Rightarrow> ndata" where
  "split_back pos d = d\<lparr>swa_uuid := None, nkey := drop pos (nkey d), nval := drop pos (nval d)\<rparr>"

fun split_at :: "nat \<Rightarrow> nat \<Rightarrow> int \<Rightarrow> nat \<Rightarrow> rtree \<Rightarrow> rtree result" where
  "split_at ps fresh now pos (RNode d cs) =
     py_assert (0 < pos \<and> pos < node_len d)
       (Inr (RNode (split_front fresh now pos d)
               [(key_fn ps (nkey (split_back pos d)), RNode (split_back pos d) cs)]))"

definition touch :: "int \<Rightarrow> rtree \<Rightarrow> rtree" where
  "touch tic n = RNode ((rdata n)\<lparr>timestamp := tic\<rparr>) (rkids n)"

text \<open>\<open>node.children[key_fn(child._key)] = child\<close>\<close>

definition set_child :: "token list \<Rightarrow> rtree \<Rightarrow> (token list \<times> rtree) list \<Rightarrow> (token list \<times> rtree) list" where
  "set_child k c cs = AList.update k c cs"

fun tsize :: "rtree \<Rightarrow> nat" where
  "tsize (RNode d cs) = Suc (sum_list (map (\<lambda>kc. tsize (snd kc)) cs))"

lemma tsize_child: "map_of cs k = Some c \<Longrightarrow> tsize c < tsize (RNode d cs)"
proof -
  assume "map_of cs k = Some c"
  then have "(k, c) \<in> set cs" by (rule map_of_SomeD)
  then have "tsize c \<in> set (map (\<lambda>kc. tsize (snd kc)) cs)" by force
  then have "tsize c \<le> sum_list (map (\<lambda>kc. tsize (snd kc)) cs)" by (simp add: member_le_sum_list)
  then show ?thesis by simp
qed

lemma tsize_touch [simp]: "tsize (touch tic n) = tsize n"
  by (cases n) (simp add: touch_def)

section \<open>The descent (\_tree\_walk)\<close>

text \<open>
  \<open>walk ps tic fresh node ids\<close> descends from \<open>node\<close> along \<open>ids\<close>, stamps what it passes
  with \<open>tic\<close>, and splits the last node when only a part of its key matches. It returns the new
  tree, the node it stopped at, the number of matched tokens, and the node counter. The position
  \<open>prefix_len\<close> of the source is implicit: \<open>ids\<close> is the rest of the sequence.
\<close>

function walk :: "nat \<Rightarrow> int \<Rightarrow> nat \<Rightarrow> rtree \<Rightarrow> token list \<Rightarrow> (rtree \<times> nat \<times> nat \<times> nat) result" where
  "walk ps tic fresh (RNode d cs) ids =
     (if ids = [] then Inr (RNode d cs, uuid d, 0, fresh)
      else case map_of cs (key_fn ps ids) of
        None \<Rightarrow> Inr (RNode d cs, uuid d, 0, fresh)
      | Some c \<Rightarrow>
          (let m = align_down (get_match_len c ids) ps in
           if m \<noteq> node_len (rdata c) then
             rbind (split_at ps fresh tic m c)
               (\<lambda>c'. Inr (RNode d (set_child (key_fn ps ids) (touch tic c') cs), fresh, m, Suc fresh))
           else
             rbind (walk ps tic fresh (touch tic c) (drop m ids))
               (\<lambda>(c', u, n, fresh'). Inr (RNode d (set_child (key_fn ps ids) c' cs), u, m + n, fresh'))))"
  by pat_completeness auto
termination
  by (relation "measure (\<lambda>(ps, tic, fresh, t, ids). tsize t)") (auto dest: tsize_child)

declare walk.simps [simp del]

section \<open>The walk up\<close>

text \<open>\<open>chain u t\<close>: the data of \<open>u\<close>, of its parent, and so on up to the root of \<open>t\<close>; empty
  when \<open>u\<close> is not a node of \<open>t\<close>. The loops \<open>while not node.is_root()\<close> visit
  \<open>up_path u t\<close>.\<close>

fun chain :: "nat \<Rightarrow> rtree \<Rightarrow> ndata list"
  and chains :: "nat \<Rightarrow> (token list \<times> rtree) list \<Rightarrow> ndata list" where
  "chain u (RNode d cs) =
     (if uuid d = u then [d] else if chains u cs = [] then [] else chains u cs @ [d])"
| "chains u [] = []"
| "chains u ((k, c) # cs) = (if chain u c = [] then chains u cs else chain u c)"

definition up_path :: "nat \<Rightarrow> rtree \<Rightarrow> ndata list" where
  "up_path u t = butlast (chain u t)"

text \<open>All nodes, root first.\<close>

fun all_nodes :: "rtree \<Rightarrow> ndata list" where
  "all_nodes (RNode d cs) = d # concat (map (\<lambda>kc. all_nodes (snd kc)) cs)"

definition inner_nodes :: "rtree \<Rightarrow> ndata list" where
  "inner_nodes t = tl (all_nodes t)"

text \<open>Updates: of the data of every node, of the data of node \<open>u\<close>, and of the subtree at
  \<open>u\<close>.\<close>

fun map_nodes :: "(ndata \<Rightarrow> ndata) \<Rightarrow> rtree \<Rightarrow> rtree" where
  "map_nodes f (RNode d cs) = RNode (f d) (map (\<lambda>kc. (fst kc, map_nodes f (snd kc))) cs)"

definition upd_node :: "nat \<Rightarrow> (ndata \<Rightarrow> ndata) \<Rightarrow> rtree \<Rightarrow> rtree" where
  "upd_node u f t = map_nodes (\<lambda>d. if uuid d = u then f d else d) t"

fun modify :: "nat \<Rightarrow> (rtree \<Rightarrow> rtree) \<Rightarrow> rtree \<Rightarrow> rtree" where
  "modify u F (RNode d cs) =
     (if uuid d = u then F (RNode d cs)
      else RNode d (map (\<lambda>kc. (fst kc, modify u F (snd kc))) cs))"

text \<open>\<open>new_node.set_parent(node)\<close> for a node without children.\<close>

definition add_child :: "nat \<Rightarrow> nat \<Rightarrow> ndata \<Rightarrow> rtree \<Rightarrow> rtree" where
  "add_child ps u n t =
     modify u (\<lambda>p. RNode (rdata p) (set_child (key_fn ps (nkey n)) (RNode n []) (rkids p))) t"

text \<open>\<open>parent = node.parent; del parent.children[key_fn(node._key)]\<close>: the node and what is
  below it leave the tree. A node without a parent stays.\<close>

definition unlink :: "nat \<Rightarrow> nat \<Rightarrow> rtree \<Rightarrow> rtree" where
  "unlink ps u t =
     (case chain u t of
        d # p # _ \<Rightarrow>
          modify (uuid p) (\<lambda>q. RNode (rdata q) (AList.delete (key_fn ps (nkey d)) (rkids q))) t
      | _ \<Rightarrow> t)"

definition parent_of :: "nat \<Rightarrow> rtree \<Rightarrow> ndata option" where
  "parent_of u t = (case chain u t of d # p # _ \<Rightarrow> Some p | _ \<Rightarrow> None)"

text \<open>The subtree at node \<open>u\<close>.\<close>

fun subtree :: "nat \<Rightarrow> rtree \<Rightarrow> rtree option"
  and subtrees :: "nat \<Rightarrow> (token list \<times> rtree) list \<Rightarrow> rtree option" where
  "subtree u (RNode d cs) = (if uuid d = u then Some (RNode d cs) else subtrees u cs)"
| "subtrees u [] = None"
| "subtrees u ((k, c) # cs) = (case subtree u c of None \<Rightarrow> subtrees u cs | Some t \<Rightarrow> Some t)"

definition is_leaf :: "rtree \<Rightarrow> bool" where
  "is_leaf n \<longleftrightarrow> rkids n = []"

text \<open>Depth-first collection of the leaves below \<open>t\<close> (the stack loops of the source pop the
  last child first).\<close>

fun leaf_nodes :: "rtree \<Rightarrow> ndata list" where
  "leaf_nodes (RNode d cs) =
     (if cs = [] then [d] else concat (map (\<lambda>kc. leaf_nodes (snd kc)) (rev cs)))"

end
