(* ===== verification/Radix_Facts.thy ===== *)
theory Radix_Facts
  imports Radix_Tree
begin

text \<open>
  Facts about radix trees shared by the caches: the well-formedness of keys and children, the
  content of a tree as the longest cached prefix of a token sequence (\<open>mtch\<close>), the
  correspondence between reference counts and the locked handles below a node
  (\<open>refs_below\<close>), and what the descent, the attachment of a child and the removal of a leaf do to
  each of them.
\<close>

section \<open>Common prefixes\<close>

lemma cmp_le: "fast_compare_key a b \<le> length a" "fast_compare_key a b \<le> length b"
  by (induction a b rule: fast_compare_key.induct) auto

lemma cmp_take: "n \<le> fast_compare_key a b \<Longrightarrow> take n a = take n b"
proof (induction a b arbitrary: n rule: fast_compare_key.induct)
  case (1 x xs y ys)
  then show ?case by (cases n) (auto split: if_splits)
qed auto

lemma cmp_greatest: "take n a = take n b \<Longrightarrow> n \<le> length a \<Longrightarrow> n \<le> length b \<Longrightarrow> n \<le> fast_compare_key a b"
proof (induction a b arbitrary: n rule: fast_compare_key.induct)
  case (1 x xs y ys)
  then show ?case by (cases n) auto
qed auto

lemma cmp_self [simp]: "fast_compare_key a a = length a"
  by (induction a) auto

lemma cmp_commute: "fast_compare_key a b = fast_compare_key b a"
  by (induction a b rule: fast_compare_key.induct) auto

lemma cmp_append: "fast_compare_key (p @ a) (p @ b) = length p + fast_compare_key a b"
  by (induction p) auto

lemma cmp_take_min: "fast_compare_key (take m a) b = min m (fast_compare_key a b)"
proof (induction a b arbitrary: m rule: fast_compare_key.induct)
  case (1 x xs y ys)
  then show ?case by (cases m) auto
qed auto

lemma cmp_drop:
  assumes "m \<le> fast_compare_key a b"
  shows "fast_compare_key a b = m + fast_compare_key (drop m a) (drop m b)"
proof -
  have "take m b @ drop m a = a" using cmp_take [OF assms] by (metis append_take_drop_id)
  moreover have "length (take m b) = m" using assms cmp_le(2) [of a b] by simp
  ultimately show ?thesis using cmp_append [of "take m b" "drop m a" "drop m b"] by simp
qed

section \<open>Association lists of children\<close>

lemma kids_split:
  assumes "map_of cs k = Some c"
  obtains pre post where "cs = pre @ (k, c) # post" "k \<notin> fst ` set pre"
  using assms
proof (induction cs arbitrary: thesis)
  case (Cons a cs)
  show ?case
  proof (cases "fst a = k")
    case True
    with Cons.prems(2) have "a = (k, c)" by (cases a) auto
    then show ?thesis using Cons.prems(1) [of "[]" cs] by simp
  next
    case False
    with Cons.prems(2) have "map_of cs k = Some c" by (cases a) auto
    with Cons.IH obtain pre post where "cs = pre @ (k, c) # post" "k \<notin> fst ` set pre" by blast
    with False show ?thesis using Cons.prems(1) [of "a # pre" post] by simp
  qed
qed simp

lemma set_child_split:
  "k \<notin> fst ` set pre \<Longrightarrow> set_child k c' (pre @ (k, c) # post) = pre @ (k, c') # post"
  by (induction pre) (auto simp: set_child_def)

lemma set_child_new: "k \<notin> fst ` set cs \<Longrightarrow> set_child k c cs = cs @ [(k, c)]"
  by (induction cs) (auto simp: set_child_def)

lemma delete_kid_split:
  "k \<notin> fst ` set pre \<Longrightarrow> k \<notin> fst ` set post \<Longrightarrow>
   AList.delete k (pre @ (k, c) # post) = pre @ post"
  by (force simp: AList.delete_eq intro!: arg_cong2 [where f = append] filter_True)

section \<open>Nodes and identities\<close>

definition uuids :: "rtree \<Rightarrow> nat list" where
  "uuids t = map uuid (all_nodes t)"

definition uniq :: "rtree \<Rightarrow> bool" where
  "uniq t \<longleftrightarrow> distinct (uuids t)"

lemma uuids_RNode [simp]:
  "uuids (RNode d cs) = uuid d # concat (map (\<lambda>kc. uuids (snd kc)) cs)"
  by (simp add: uuids_def map_concat comp_def)

lemma all_nodes_map_nodes [simp]: "all_nodes (map_nodes f t) = map f (all_nodes t)"
  by (induction t rule: all_nodes.induct) (simp add: map_concat comp_def cong: map_cong)

lemma rdata_in_all: "rdata t \<in> set (all_nodes t)"
  by (cases t) simp

lemma uuid_root_in [simp]: "uuid (rdata t) \<in> set (uuids t)"
  by (cases t) simp

lemma all_nodes_eq: "all_nodes t = rdata t # inner_nodes t"
  by (cases t) (simp add: inner_nodes_def)

lemma inner_nodes_RNode [simp]:
  "inner_nodes (RNode d cs) = concat (map (\<lambda>kc. all_nodes (snd kc)) cs)"
  by (simp add: inner_nodes_def)

lemma uniq_kids:
  assumes "uniq (RNode d (pre @ (k, c) # post))"
  shows "uniq c"
    and "u \<in> set (uuids c) \<Longrightarrow> u \<noteq> uuid d"
    and "u \<in> set (uuids c) \<Longrightarrow> kc \<in> set pre \<union> set post \<Longrightarrow> u \<notin> set (uuids (snd kc))"
  using assms by (auto simp: uniq_def)

text \<open>The parent chain.\<close>

lemma chain_nonempty: "chain u t \<noteq> [] \<longleftrightarrow> u \<in> set (uuids t)"
  and chains_nonempty: "chains u cs \<noteq> [] \<longleftrightarrow> (\<exists>kc \<in> set cs. u \<in> set (uuids (snd kc)))"
  by (induction u t and u cs rule: chain_chains.induct) (auto split: if_splits)

lemma chain_Nil: "u \<notin> set (uuids t) \<Longrightarrow> chain u t = []"
  using chain_nonempty by blast

lemma chain_here [simp]: "uuid d = u \<Longrightarrow> chain u (RNode d cs) = [d]"
  by simp

lemma chains_unique:
  assumes "u \<in> set (uuids c)" and "\<And>kc. kc \<in> set pre \<Longrightarrow> u \<notin> set (uuids (snd kc))"
  shows "chains u (pre @ (k, c) # post) = chain u c"
  using assms(2)
proof (induction pre)
  case Nil
  from assms(1) have "chain u c \<noteq> []" by (simp add: chain_nonempty)
  then show ?case by (auto split: list.splits)
next
  case (Cons kc pre)
  then have "chain u (snd kc) = []" by (simp add: chain_Nil)
  with Cons show ?case by (cases kc) simp
qed

lemma chain_below:
  assumes "uniq (RNode d (pre @ (k, c) # post))" and "u \<in> set (uuids c)"
  shows "chain u (RNode d (pre @ (k, c) # post)) = chain u c @ [d]"
proof -
  have "uuid d \<noteq> u" using uniq_kids(2) [OF assms] by simp
  moreover have "chains u (pre @ (k, c) # post) = chain u c"
    by (rule chains_unique) (use assms uniq_kids(3) [OF assms] in auto)
  moreover have "chain u c \<noteq> []" using assms(2) by (simp add: chain_nonempty)
  ultimately show ?thesis by (auto split: list.splits)
qed

lemma chain_last: "chain u t \<noteq> [] \<Longrightarrow> last (chain u t) = rdata t"
  by (cases t) (auto split: list.splits)

lemma chain_hd: "chain u t \<noteq> [] \<Longrightarrow> uuid (hd (chain u t)) = u"
  and chains_hd: "chains u cs \<noteq> [] \<Longrightarrow> uuid (hd (chains u cs)) = u"
  by (induction u t and u cs rule: chain_chains.induct) (auto split: if_splits)

lemma chain_set: "set (chain u t) \<subseteq> set (all_nodes t)"
  and chains_set: "set (chains u cs) \<subseteq> (\<Union>kc \<in> set cs. set (all_nodes (snd kc)))"
  by (induction u t and u cs rule: chain_chains.induct) (auto split: if_splits)

lemma chain_map_nodes:
  assumes f: "\<And>d. uuid (f d) = uuid d"
  shows "chain u (map_nodes f t) = map f (chain u t)"
    and "chains u (map (\<lambda>kc. (fst kc, map_nodes f (snd kc))) cs) = map f (chains u cs)"
  by (induction u t and u cs rule: chain_chains.induct) (auto simp: f split: list.splits)

lemma uuids_map_nodes: "(\<And>d. uuid (f d) = uuid d) \<Longrightarrow> uuids (map_nodes f t) = uuids t"
  by (simp add: uuids_def)

text \<open>What the nodes from the root to \<open>u\<close> carry: their slots, their tokens.\<close>

definition path_of :: "(ndata \<Rightarrow> 'a list) \<Rightarrow> nat \<Rightarrow> rtree \<Rightarrow> 'a list" where
  "path_of f u t = concat (map f (rev (up_path u t)))"

abbreviation path_vals :: "nat \<Rightarrow> rtree \<Rightarrow> slot list" where
  "path_vals \<equiv> path_of nval"

abbreviation path_key :: "nat \<Rightarrow> rtree \<Rightarrow> token list" where
  "path_key \<equiv> path_of nkey"

lemma up_path_root [simp]: "up_path (uuid (rdata t)) t = []"
  by (cases t) (simp add: up_path_def)

lemma up_path_below:
  assumes "uniq (RNode d (pre @ (k, c) # post))" and "u \<in> set (uuids c)"
  shows "up_path u (RNode d (pre @ (k, c) # post)) = up_path u c @ [rdata c]"
proof -
  have "chain u c \<noteq> []" using assms(2) by (simp add: chain_nonempty)
  then have "chain u c = up_path u c @ [rdata c]"
    using append_butlast_last_id [of "chain u c"] chain_last [of u c] by (simp add: up_path_def)
  then show ?thesis using chain_below [OF assms] by (simp add: up_path_def)
qed

lemma path_below:
  assumes "uniq (RNode d (pre @ (k, c) # post))" and "u \<in> set (uuids c)"
  shows "path_of f u (RNode d (pre @ (k, c) # post)) = f (rdata c) @ path_of f u c"
  by (simp add: path_of_def up_path_below [OF assms])

lemma path_root [simp]: "path_of f (uuid (rdata t)) t = []"
  by (simp add: path_of_def)

lemma path_here [simp]: "path_of f (uuid d) (RNode d cs) = []"
  using path_root [of f "RNode d cs"] by simp

section \<open>Well-formed trees\<close>

definition wf_data :: "nat \<Rightarrow> ndata \<Rightarrow> bool" where
  "wf_data ps d \<longleftrightarrow> length (nval d) = node_len d \<and> 0 < node_len d \<and> ps dvd node_len d"

definition wf_kid :: "nat \<Rightarrow> token list \<Rightarrow> ndata \<Rightarrow> bool" where
  "wf_kid ps k d \<longleftrightarrow> k = key_fn ps (nkey d) \<and> wf_data ps d"

fun wf_below :: "nat \<Rightarrow> rtree \<Rightarrow> bool" where
  "wf_below ps (RNode d cs) \<longleftrightarrow>
     distinct (map fst cs) \<and>
     (\<forall>kc \<in> set cs. wf_kid ps (fst kc) (rdata (snd kc)) \<and> wf_below ps (snd kc))"

lemma wf_data_ge: "wf_data ps d \<Longrightarrow> ps \<le> node_len d"
  by (auto simp: wf_data_def dest: dvd_imp_le)

lemma wf_below_touch [simp]: "wf_below ps (touch tic c) = wf_below ps c"
  by (cases c) (simp add: touch_def)

lemma rdata_touch [simp]: "rdata (touch tic c) = (rdata c)\<lparr>timestamp := tic\<rparr>"
  by (simp add: touch_def)

lemma rkids_touch [simp]: "rkids (touch tic c) = rkids c"
  by (simp add: touch_def)

lemma uuids_touch [simp]: "uuids (touch tic c) = uuids c"
  by (cases c) (simp add: touch_def)

lemma uniq_touch [simp]: "uniq (touch tic c) = uniq c"
  by (simp add: uniq_def)

lemma inner_nodes_touch [simp]: "inner_nodes (touch tic c) = inner_nodes c"
  by (cases c) (simp add: touch_def)

lemma touch_RNode [simp]: "touch tic (RNode d cs) = RNode (d\<lparr>timestamp := tic\<rparr>) cs"
  by (simp add: touch_def)

lemma wf_data_timestamp [simp]: "wf_data ps (d\<lparr>timestamp := tic\<rparr>) = wf_data ps d"
  by (simp add: wf_data_def)

text \<open>The child reached under a page key agrees with the sequence on that page at least.\<close>

lemma child_page:
  assumes wf: "wf_data ps e" and ps: "0 < ps" and k: "key_fn ps ids = key_fn ps (nkey e)"
  shows "ps \<le> fast_compare_key (nkey e) ids" "ps \<le> length ids"
proof -
  have l: "ps \<le> length (nkey e)" using wf_data_ge [OF wf] .
  then have "length (take ps ids) = ps" using k by (metis key_fn_def length_take min_absorb2)
  then show "ps \<le> length ids" by simp
  with l k show "ps \<le> fast_compare_key (nkey e) ids"
    by (intro cmp_greatest) (simp_all add: key_fn_def)
qed

lemma child_match_pos:
  assumes "wf_data ps e" and "0 < ps" and "key_fn ps ids = key_fn ps (nkey e)"
  shows "ps \<le> align_down (fast_compare_key (nkey e) ids) ps"
  by (rule align_down_greatest) (use child_page [OF assms] in simp_all)

section \<open>The content of a tree\<close>

text \<open>\<open>mtch ps t ids\<close>: the slots of the longest cached prefix of \<open>ids\<close>. It reads the tree
  without stamping or splitting; it is the abstraction the cache operations are specified with.\<close>

function mtch :: "nat \<Rightarrow> rtree \<Rightarrow> token list \<Rightarrow> slot list" where
  "mtch ps (RNode d cs) ids =
     (if ids = [] then [] else case map_of cs (key_fn ps ids) of
        None \<Rightarrow> []
      | Some c \<Rightarrow>
          (let m = align_down (get_match_len c ids) ps in
           if m \<noteq> node_len (rdata c) then take m (nval (rdata c))
           else nval (rdata c) @ mtch ps c (drop m ids)))"
  by pat_completeness auto
termination
  by (relation "measure (\<lambda>(ps, t, ids). tsize t)") (auto dest: tsize_child)

declare mtch.simps [simp del]

definition mtch_in :: "nat \<Rightarrow> rtree \<Rightarrow> token list \<Rightarrow> slot list" where
  "mtch_in ps c ids =
     (let m = align_down (get_match_len c ids) ps in
      if m \<noteq> node_len (rdata c) then take m (nval (rdata c))
      else nval (rdata c) @ mtch ps c (drop m ids))"

lemma mtch_Nil [simp]: "mtch ps t [] = []"
  by (cases t) (simp add: mtch.simps)

lemma mtch_step:
  "ids \<noteq> [] \<Longrightarrow> mtch ps (RNode d cs) ids =
     (case map_of cs (key_fn ps ids) of None \<Rightarrow> [] | Some c \<Rightarrow> mtch_in ps c ids)"
  by (simp add: mtch.simps mtch_in_def Let_def cong: option.case_cong)

lemma mtch_kids: "rkids t = rkids t' \<Longrightarrow> mtch ps t ids = mtch ps t' ids"
  by (cases t; cases t') (simp add: mtch.simps)

lemma mtch_touch [simp]: "mtch ps (touch tic c) ids = mtch ps c ids"
  by (rule mtch_kids) simp

lemma mtch_in_cong:
  assumes "nkey (rdata c) = nkey (rdata c')" and "nval (rdata c) = nval (rdata c')"
    and "\<And>x. mtch ps c x = mtch ps c' x"
  shows "mtch_in ps c ids = mtch_in ps c' ids"
  using assms by (simp add: mtch_in_def get_match_len_def Let_def)

lemma mtch_no_child: "map_of cs (key_fn ps ids) = None \<Longrightarrow> mtch ps (RNode d cs) ids = []"
  by (cases "ids = []") (simp_all add: mtch_step)

lemma mtch_child:
  assumes "cs = pre @ (k, c) # post" and "k \<notin> fst ` set pre" and "k = key_fn ps ids" and "ids \<noteq> []"
  shows "mtch ps (RNode d cs) ids = mtch_in ps c ids"
proof -
  have "map_of pre k = None" using assms(2) by (auto simp: map_of_eq_None_iff)
  then have "map_of cs k = Some c" using assms(1) by (simp add: map_add_def)
  then show ?thesis using assms(3,4) by (simp add: mtch_step)
qed

text \<open>Splitting a child does not change what is matched below it.\<close>

lemma mtch_in_back:
  assumes m: "m < node_len e"
    and m2: "align_down (fast_compare_key (nkey e) x) ps =
       m + align_down (fast_compare_key (drop m (nkey e)) (drop m x)) ps"
  shows "take m (nval e) @ mtch_in ps (RNode (split_back m e) es) (drop m x) = mtch_in ps (RNode e es) x"
proof -
  let ?a = "align_down (fast_compare_key (drop m (nkey e)) (drop m x)) ps"
  have kids: "mtch ps (RNode (split_back m e) es) y = mtch ps (RNode e es) y" for y
    by (rule mtch_kids) simp
  have "take m (nval e) @ take ?a (drop m (nval e)) = take (m + ?a) (nval e)"
    by (simp add: take_add)
  then show ?thesis using m
    by (auto simp: mtch_in_def get_match_len_def split_back_def kids [unfolded split_back_def] m2
        Let_def add.commute)
qed

lemma mtch_in_split:
  assumes wf: "wf_data ps e" and ps: "0 < ps" and m: "0 < m" "m < node_len e" "ps dvd m"
  shows "mtch_in ps (RNode ((split_front fresh now m e)\<lparr>timestamp := tic\<rparr>)
            [(key_fn ps (nkey (split_back m e)), RNode (split_back m e) es)]) x
       = mtch_in ps (RNode e es) x"
    (is "mtch_in ps ?front x = _")
proof -
  let ?K = "nkey e" and ?V = "nval e" and ?n = "fast_compare_key (nkey e) x"
  let ?m2 = "align_down ?n ps"
  have front: "get_match_len ?front x = min m ?n" "nval (rdata ?front) = take m ?V"
    "node_len (rdata ?front) = m"
    using m(2) by (simp_all add: split_front_def new_node_def get_match_len_def cmp_take_min)
  have kb: "nkey (split_back m e) = drop m ?K" by (simp add: split_back_def)
  have al: "align_down (min m ?n) ps = min m ?m2"
    using m(3) align_down_mono [of m ?n ps] align_down_mono [of ?n m ps] align_down_dvd_id [OF m(3)]
    by (cases "m \<le> ?n") (simp_all add: min_def)
  show ?thesis
  proof (cases "m \<le> ?m2")
    case False
    then show ?thesis using front al m(2) by (simp add: mtch_in_def get_match_len_def min_def Let_def)
  next
    case ge: True
    then have mn: "m \<le> ?n" using align_down_le [of ?n ps] by linarith
    then have m2: "?m2 = m + align_down (fast_compare_key (drop m ?K) (drop m x)) ps"
      using align_down_add_dvd [OF m(3)] cmp_drop [OF mn] by metis
    have lhs: "mtch_in ps ?front x = take m ?V @ mtch ps ?front (drop m x)"
      using front al ge by (simp add: mtch_in_def min_def Let_def)
    show ?thesis
    proof (cases "drop m x \<noteq> [] \<and> key_fn ps (drop m x) = key_fn ps (drop m ?K)")
      case True
      then have "mtch ps ?front (drop m x) = mtch_in ps (RNode (split_back m e) es) (drop m x)"
        using kb by (simp add: mtch_step)
      then show ?thesis using lhs mtch_in_back [OF m(2) m2] by simp
    next
      case False
      then have "\<not> ps \<le> fast_compare_key (drop m ?K) (drop m x)"
        using cmp_take [of ps "drop m ?K" "drop m x"] cmp_le(2) [of "drop m ?K" "drop m x"] ps
        by (auto simp: key_fn_def)
      then have "?m2 = m" using m2 by (simp add: align_down_def)
      moreover have "mtch ps ?front (drop m x) = []"
        using False kb mtch_no_child by (cases "drop m x = []") auto
      ultimately show ?thesis using lhs m(2) by (simp add: mtch_in_def get_match_len_def)
    qed
  qed
qed

section \<open>Reference counts and locked handles\<close>

text \<open>\<open>L\<close> is the multiset of the nodes that the locked handles point to. The reference count of
  every node but the root is the number of locked handles at it or below it.\<close>

definition locks_in :: "nat multiset \<Rightarrow> rtree \<Rightarrow> nat" where
  "locks_in L t = size (filter_mset (\<lambda>h. h \<in> set (uuids t)) L)"

fun refs_below :: "nat multiset \<Rightarrow> rtree \<Rightarrow> bool" where
  "refs_below L (RNode d cs) \<longleftrightarrow>
     (\<forall>kc \<in> set cs. ref_count (rdata (snd kc)) = int (locks_in L (snd kc)) \<and> refs_below L (snd kc))"

lemma locks_in_cong:
  "set (uuids t) \<inter> set_mset L = set (uuids t') \<inter> set_mset L \<Longrightarrow> locks_in L t = locks_in L t'"
  unfolding locks_in_def by (rule arg_cong [where f = size], rule filter_mset_cong) auto

lemma locks_in_touch [simp]: "locks_in L (touch tic c) = locks_in L c"
  by (simp add: locks_in_def)

lemma refs_below_touch [simp]: "refs_below L (touch tic c) = refs_below L c"
  by (cases c) simp

lemma locks_in_kid: "(k, c) \<in> set cs \<Longrightarrow> locks_in L c \<le> locks_in L (RNode d cs)"
  unfolding locks_in_def by (rule size_mset_mono, rule filter_mset_mono_strong) force+

lemma refs_below_nonneg: "refs_below L t \<Longrightarrow> d \<in> set (inner_nodes t) \<Longrightarrow> 0 \<le> ref_count d"
proof (induction t)
  case (RNode e cs)
  then obtain kc where kc: "kc \<in> set cs" "d \<in> set (all_nodes (snd kc))" by auto
  show ?case
  proof (cases "d = rdata (snd kc)")
    case True
    with RNode.prems(1) kc show ?thesis by auto
  next
    case False
    with kc have "d \<in> set (inner_nodes (snd kc))" by (simp add: all_nodes_eq)
    with RNode kc show ?thesis by (metis prod.collapse refs_below.simps snds.intros)
  qed
qed

text \<open>Below an unlocked node everything is unlocked.\<close>

lemma unlocked_below:
  "refs_below L t \<Longrightarrow> locks_in L t = 0 \<Longrightarrow> d \<in> set (inner_nodes t) \<Longrightarrow> ref_count d = 0"
proof (induction t)
  case (RNode e cs)
  then obtain kc where kc: "kc \<in> set cs" "d \<in> set (all_nodes (snd kc))" by auto
  have zero: "locks_in L (snd kc) = 0"
    using locks_in_kid [of "fst kc" "snd kc" cs L e] kc(1) RNode.prems(2) by simp
  show ?case
  proof (cases "d = rdata (snd kc)")
    case True
    with RNode.prems(1) kc zero show ?thesis by auto
  next
    case False
    with kc have "d \<in> set (inner_nodes (snd kc))" by (simp add: all_nodes_eq)
    with RNode kc zero show ?thesis by (metis prod.collapse refs_below.simps snds.intros)
  qed
qed

section \<open>What a descent does\<close>

text \<open>The descent on a well-formed tree as a relation: one rule per way it ends, one for passing
  a fully matched child. The facts about \<open>walk\<close> are rule inductions over it.\<close>

inductive walks :: "nat \<Rightarrow> int \<Rightarrow> nat \<Rightarrow> rtree \<Rightarrow> token list \<Rightarrow> rtree \<Rightarrow> nat \<Rightarrow> nat \<Rightarrow> nat \<Rightarrow> bool"
  for ps tic fresh where
  stop: "ids = [] \<or> map_of cs (key_fn ps ids) = None \<Longrightarrow>
     walks ps tic fresh (RNode d cs) ids (RNode d cs) (uuid d) 0 fresh"
| split: "\<lbrakk>ids \<noteq> []; cs = pre @ (key_fn ps ids, RNode e es) # post; key_fn ps ids \<notin> fst ` set pre;
      m = align_down (fast_compare_key (nkey e) ids) ps; 0 < m; m < node_len e; wf_data ps e\<rbrakk> \<Longrightarrow>
     walks ps tic fresh (RNode d cs) ids
       (RNode d (pre @ (key_fn ps ids,
          RNode ((split_front fresh tic m e)\<lparr>timestamp := tic\<rparr>)
            [(key_fn ps (nkey (split_back m e)), RNode (split_back m e) es)]) # post))
       fresh m (Suc fresh)"
| descend: "\<lbrakk>ids \<noteq> []; cs = pre @ (key_fn ps ids, c) # post; key_fn ps ids \<notin> fst ` set pre;
      m = align_down (fast_compare_key (nkey (rdata c)) ids) ps; 0 < m; m = node_len (rdata c);
      wf_data ps (rdata c); walks ps tic fresh (touch tic c) (drop m ids) c' u n fresh'\<rbrakk> \<Longrightarrow>
     walks ps tic fresh (RNode d cs) ids (RNode d (pre @ (key_fn ps ids, c') # post)) u (m + n) fresh'"

lemma walk_ok:
  assumes "wf_below ps t" and "0 < ps"
  shows "\<exists>t' u n fresh'. walk ps tic fresh t ids = Inr (t', u, n, fresh') \<and> walks ps tic fresh t ids t' u n fresh'"
  using assms
proof (induction ps tic fresh t ids rule: walk.induct)
  case (1 ps tic fresh d cs ids)
  show ?case
  proof (cases "ids = [] \<or> map_of cs (key_fn ps ids) = None")
    case True
    then show ?thesis by (auto simp: walk.simps intro: walks.stop)
  next
    case False
    then obtain c where ids: "ids \<noteq> []" and c: "map_of cs (key_fn ps ids) = Some c" by auto
    from c obtain pre post where cs: "cs = pre @ (key_fn ps ids, c) # post"
      and fresh_key: "key_fn ps ids \<notin> fst ` set pre" by (rule kids_split)
    obtain e es where ce: "c = RNode e es" by (cases c)
    have wfc: "wf_data ps (rdata c)" "wf_below ps c" "key_fn ps ids = key_fn ps (nkey (rdata c))"
      using 1(2) cs by (auto simp: wf_kid_def)
    let ?m = "align_down (fast_compare_key (nkey (rdata c)) ids) ps"
    have pos: "0 < ?m" using child_match_pos [OF wfc(1) \<open>0 < ps\<close> wfc(3)] \<open>0 < ps\<close> by simp
    have le: "?m \<le> node_len (rdata c)"
      using align_down_le cmp_le(1) le_trans by blast
    show ?thesis
    proof (cases "?m = node_len (rdata c)")
      case True
      have "wf_below ps (touch tic c)" using wfc by simp
      with "1.IH" [OF ids c refl] True \<open>0 < ps\<close> obtain c' u n fresh' where
        w: "walk ps tic fresh (touch tic c) (drop ?m ids) = Inr (c', u, n, fresh')"
        "walks ps tic fresh (touch tic c) (drop ?m ids) c' u n fresh'"
        by (auto simp: get_match_len_def)
      show ?thesis
        using w ids c True walks.descend [OF ids cs fresh_key refl pos True wfc(1) w(2)]
        by (simp add: walk.simps get_match_len_def cs set_child_split [OF fresh_key])
    next
      case False
      then have lt: "?m < node_len e" using le ce by simp
      show ?thesis
        using ids c False pos lt walks.split [OF ids _ fresh_key refl, of cs e es post tic fresh d] wfc(1) ce
        by (simp add: walk.simps get_match_len_def cs set_child_split [OF fresh_key] py_assert_def Let_def)
    qed
  qed
qed

end
