(* ===== verification/Radix_Walk.thy ===== *)
theory Radix_Walk
  imports Radix_Facts
begin

text \<open>
  What the descent \<open>walk\<close> keeps and computes, by rule induction over \<open>walks\<close>: identities,
  well-formedness, content, the path of every node, reference counts, and every additive measure of
  the nodes (token counts, numbers of snapshots).
\<close>

lemma walks_rdata: "walks ps tic fresh t ids t' u n fresh' \<Longrightarrow> rdata t' = rdata t"
  by (induction rule: walks.induct) auto

lemma walks_fresh: "walks ps tic fresh t ids t' u n fresh' \<Longrightarrow> fresh' = fresh \<or> fresh' = Suc fresh"
  by (induction rule: walks.induct) auto

lemma uuid_split [simp]: "uuid (split_front fresh tic m e) = fresh" "uuid (split_back m e) = uuid e"
  by (simp_all add: split_front_def split_back_def new_node_def)

lemma walks_uuids:
  "walks ps tic fresh t ids t' u n fresh' \<Longrightarrow>
   mset (uuids t') = mset (uuids t) + (if fresh' = fresh then {#} else {#fresh#})"
  by (induction rule: walks.induct) auto

lemma walks_uuids_set:
  "walks ps tic fresh t ids t' u n fresh' \<Longrightarrow>
   set (uuids t') = set (uuids t) \<union> (if fresh' = fresh then {} else {fresh})"
  by (drule walks_uuids) (simp add: set_mset_mset [symmetric] del: set_mset_mset)

lemma walks_uniq:
  assumes "walks ps tic fresh t ids t' u n fresh'" and "uniq t" and "fresh \<notin> set (uuids t)"
  shows "uniq t'"
proof -
  have "mset (uuids t') = mset (if fresh' = fresh then uuids t else fresh # uuids t)"
    using walks_uuids [OF assms(1)] by simp
  then show ?thesis using assms(2,3) unfolding uniq_def
    by (metis distinct.simps(2) mset_eq_imp_distinct_iff)
qed

lemma walks_node: "walks ps tic fresh t ids t' u n fresh' \<Longrightarrow> u \<in> set (uuids t')"
  by (induction rule: walks.induct) auto

lemma walks_len: "walks ps tic fresh t ids t' u n fresh' \<Longrightarrow> n \<le> length ids"
proof (induction rule: walks.induct)
  case (split ids cs pre e es post m d)
  then show ?case using cmp_le(2) [of "nkey e" ids] align_down_le le_trans by blast
next
  case (descend ids cs pre c post m c' u n fresh' d)
  have "m \<le> length ids"
    using descend.hyps(4) cmp_le(2) [of "nkey (rdata c)" ids] align_down_le le_trans by blast
  with descend.IH show ?case by simp
qed simp

lemma wf_replace:
  "wf_below ps (RNode d (pre @ (k, c) # post)) \<Longrightarrow> wf_kid ps k (rdata c') \<Longrightarrow>
   wf_below ps c' \<Longrightarrow> wf_below ps (RNode d' (pre @ (k, c') # post))"
  by simp

lemma wf_split:
  assumes "wf_data ps e" and "0 < m" and "m < node_len e" and "ps dvd m"
  shows "wf_data ps (split_front fresh tic m e)" and "wf_data ps (split_back m e)"
    and "key_fn ps (nkey (split_front fresh tic m e)) = key_fn ps (nkey e)"
proof -
  have "ps \<le> m" using assms(2,4) by (simp add: dvd_imp_le)
  then show "key_fn ps (nkey (split_front fresh tic m e)) = key_fn ps (nkey e)"
    by (simp add: key_fn_def split_front_def new_node_def min_def)
qed (use assms in \<open>auto simp: wf_data_def split_front_def split_back_def new_node_def\<close>)

lemma walks_wf:
  "walks ps tic fresh t ids t' u n fresh' \<Longrightarrow> 0 < ps \<Longrightarrow> wf_below ps t \<Longrightarrow> wf_below ps t'"
proof (induction rule: walks.induct)
  case (split ids cs pre e es post m d)
  have dvd: "ps dvd m" using split.hyps(4) by simp
  have k: "key_fn ps ids = key_fn ps (nkey e)" and es: "wf_below ps (RNode e es)"
    using split.prems(2) split.hyps(2) by (auto simp: wf_kid_def)
  note ws = wf_split [OF split.hyps(7,5,6) dvd]
  show ?case
  proof (rule wf_replace)
    show "wf_below ps (RNode d (pre @ (key_fn ps ids, RNode e es) # post))"
      using split.prems(2) split.hyps(2) by simp
  qed (use k ws es in \<open>simp_all add: wf_kid_def\<close>)
next
  case (descend ids cs pre c post m c' u n fresh' d)
  have c': "rdata c' = (rdata c)\<lparr>timestamp := tic\<rparr>"
    using walks_rdata [OF descend.hyps(8)] by simp
  show ?case
  proof (rule wf_replace)
    show "wf_below ps (RNode d (pre @ (key_fn ps ids, c) # post))"
      using descend.prems(2) descend.hyps(2) by simp
  qed (use descend c' in \<open>simp_all add: wf_kid_def\<close>)
qed simp

lemma walks_mtch:
  "walks ps tic fresh t ids t' u n fresh' \<Longrightarrow> 0 < ps \<Longrightarrow> wf_below ps t \<Longrightarrow> mtch ps t' x = mtch ps t x"
proof (induction arbitrary: x rule: walks.induct)
  case (split ids cs pre e es post m d)
  have dvd: "ps dvd m" using split.hyps(4) by simp
  show ?case
  proof (cases "x = []")
    case False
    then show ?thesis
      using mtch_in_split [OF split.hyps(7) \<open>0 < ps\<close> split.hyps(5,6) dvd]
      by (simp add: mtch_step split.hyps(2) map_add_def split: option.splits)
  qed simp
next
  case (descend ids cs pre c post m c' u n fresh' d)
  have wf: "wf_below ps (touch tic c)" using descend by simp
  have c': "rdata c' = (rdata c)\<lparr>timestamp := tic\<rparr>"
    using walks_rdata [OF descend.hyps(8)] by simp
  have "mtch_in ps c' y = mtch_in ps c y" for y
    by (rule mtch_in_cong) (simp_all add: c' descend.IH [OF \<open>0 < ps\<close> wf])
  then show ?case
    by (cases "x = []") (simp_all add: mtch_step descend.hyps(2) map_add_def split: option.splits)
qed simp

text \<open>The slots on the path to the node the descent returns are the longest cached prefix.\<close>

lemma path_split:
  "uniq (RNode f [(k, b)]) \<Longrightarrow> h \<in> set (uuids b) \<Longrightarrow>
   path_of g h (RNode f [(k, b)]) = g (rdata b) @ path_of g h b"
  using path_below [of f "[]" k b "[]" h] by simp

lemma walks_result:
  "walks ps tic fresh t ids t' u n fresh' \<Longrightarrow> 0 < ps \<Longrightarrow> wf_below ps t \<Longrightarrow> uniq t \<Longrightarrow>
   fresh \<notin> set (uuids t) \<Longrightarrow>
   path_vals u t' = mtch ps t ids \<and> path_key u t' = take n ids \<and> n = length (mtch ps t ids)"
proof (induction rule: walks.induct)
  case (stop ids cs d)
  have "mtch ps (RNode d cs) ids = []" using stop.hyps mtch_no_child by auto
  then show ?case by simp
next
  case (split ids cs pre e es post m d)
  let ?F = "(split_front fresh tic m e)\<lparr>timestamp := tic\<rparr>"
  let ?c = "RNode ?F [(key_fn ps (nkey (split_back m e)), RNode (split_back m e) es)]"
  let ?t' = "RNode d (pre @ (key_fn ps ids, ?c) # post)"
  have w: "walks ps tic fresh (RNode d cs) ids ?t' fresh m (Suc fresh)"
    using split.hyps by (rule walks.split)
  have u: "uniq ?t'" by (rule walks_uniq [OF w split.prems(3,4)])
  have F: "fresh \<in> set (uuids ?c)" by simp
  have root: "path_vals fresh ?c = []" "path_key fresh ?c = []"
    using path_root [of nval ?c] path_root [of nkey ?c] by simp_all
  have lenV: "length (nval e) = node_len e" using split.hyps(7) by (simp add: wf_data_def)
  have "take m (nkey e) = take m ids"
    by (rule cmp_take) (simp add: split.hyps(4))
  moreover have "mtch ps (RNode d cs) ids = take m (nval e)"
    using split.hyps mtch_child [OF split.hyps(2,3) refl split.hyps(1)]
    by (simp add: mtch_in_def get_match_len_def)
  ultimately show ?case
    using path_below [where f = nval, OF u F] path_below [where f = nkey, OF u F] root split.hyps(6) lenV by (simp add: split_front_def new_node_def)
next
  case (descend ids cs pre c post m c' u n fresh' d)
  let ?t' = "RNode d (pre @ (key_fn ps ids, c') # post)"
  have w: "walks ps tic fresh (RNode d cs) ids ?t' u (m + n) fresh'"
    using descend.hyps by (rule walks.descend)
  have un: "uniq ?t'" by (rule walks_uniq [OF w descend.prems(3,4)])
  have uin: "u \<in> set (uuids c')" by (rule walks_node [OF descend.hyps(8)])
  have c': "rdata c' = (rdata c)\<lparr>timestamp := tic\<rparr>"
    using walks_rdata [OF descend.hyps(8)] by simp
  have uq: "uniq c" using uniq_kids(1) [of d pre _ c post] descend.prems(3) descend.hyps(2) by simp
  have IH: "path_vals u c' = mtch ps c (drop m ids)" "path_key u c' = take n (drop m ids)"
    "n = length (mtch ps c (drop m ids))"
    using descend.IH descend.prems descend.hyps(2) uq by simp_all
  have "take m (nkey (rdata c)) = take m ids"
    by (rule cmp_take) (simp add: descend.hyps(4))
  then have key: "nkey (rdata c) = take m ids" using descend.hyps(6) by simp
  have "mtch ps (RNode d cs) ids = nval (rdata c) @ mtch ps c (drop m ids)"
    using descend.hyps(4,6) mtch_child [OF descend.hyps(2,3) refl descend.hyps(1)]
    by (simp add: mtch_in_def get_match_len_def)
  moreover have "length (nval (rdata c)) = m"
    using descend.hyps(6,7) by (simp add: wf_data_def)
  ultimately show ?case using path_below [where f = nval, OF un uin] path_below [where f = nkey, OF un uin] IH c' key by (simp add: take_add)
qed

text \<open>Where the descent ends there is no child for the rest of the sequence.\<close>

lemma subtree_absent: "u \<notin> set (uuids t) \<Longrightarrow> subtree u t = None"
  and subtrees_absent: "(\<And>kc. kc \<in> set cs \<Longrightarrow> u \<notin> set (uuids (snd kc))) \<Longrightarrow> subtrees u cs = None"
  by (induction u t and u cs rule: subtree_subtrees.induct) (auto, force+)

lemma subtree_below:
  assumes "uniq (RNode d (pre @ (k, c) # post))" and "u \<in> set (uuids c)"
  shows "subtree u (RNode d (pre @ (k, c) # post)) = subtree u c"
proof -
  have "u \<noteq> uuid d" by (rule uniq_kids(2) [OF assms])
  moreover have "subtrees u (pre @ (k, c) # post) = subtree u c"
    if "\<And>kc. kc \<in> set pre \<union> set post \<Longrightarrow> u \<notin> set (uuids (snd kc))"
    using that
  proof (induction pre)
    case Nil
    then show ?case using subtrees_absent [of post u] by (auto split: option.splits)
  next
    case (Cons kc pre)
    then have "subtree u (snd kc) = None" by (simp add: subtree_absent)
    with Cons show ?case by (cases kc) simp
  qed
  ultimately show ?thesis using uniq_kids(3) [OF assms] by auto
qed

definition no_kid :: "nat \<Rightarrow> token list \<Rightarrow> rtree \<Rightarrow> bool" where
  "no_kid u k t \<longleftrightarrow> (\<forall>s. subtree u t = Some s \<longrightarrow> k \<notin> fst ` set (rkids s))"

lemma walks_no_kid:
  "walks ps tic fresh t ids t' u n fresh' \<Longrightarrow> 0 < ps \<Longrightarrow> wf_below ps t \<Longrightarrow> uniq t \<Longrightarrow>
   fresh \<notin> set (uuids t) \<Longrightarrow> drop n ids \<noteq> [] \<Longrightarrow> ps dvd length ids \<Longrightarrow>
   no_kid u (key_fn ps (drop n ids)) t'"
proof (induction rule: walks.induct)
  case (stop ids cs d)
  then show ?case by (auto simp: no_kid_def map_of_eq_None_iff)
next
  case (split ids cs pre e es post m d)
  let ?c = "RNode ((split_front fresh tic m e)\<lparr>timestamp := tic\<rparr>)
              [(key_fn ps (nkey (split_back m e)), RNode (split_back m e) es)]"
  have w: "walks ps tic fresh (RNode d cs) ids (RNode d (pre @ (key_fn ps ids, ?c) # post)) fresh m (Suc fresh)"
    using split.hyps by (rule walks.split)
  have u: "uniq (RNode d (pre @ (key_fn ps ids, ?c) # post))"
    by (rule walks_uniq [OF w split.prems(3,4)])
  have dvd: "ps dvd m" using split.hyps(4) by simp
  have "key_fn ps (drop m (nkey e)) \<noteq> key_fn ps (drop m ids)"
  proof
    assume eq: "key_fn ps (drop m (nkey e)) = key_fn ps (drop m ids)"
    have "ps dvd length (drop m ids)" using split.prems(6) dvd by simp
    then have 1: "ps \<le> length (drop m ids)" using split.prems(5) by (intro dvd_imp_le) auto
    have "ps dvd length (drop m (nkey e))" using split.hyps(7) dvd by (simp add: wf_data_def)
    then have 2: "ps \<le> length (drop m (nkey e))" using split.hyps(6) by (intro dvd_imp_le) auto
    have le: "m \<le> fast_compare_key (nkey e) ids" by (simp add: split.hyps(4))
    from eq 1 2 have "ps \<le> fast_compare_key (drop m (nkey e)) (drop m ids)"
      by (intro cmp_greatest) (simp_all add: key_fn_def)
    then have "m + ps \<le> fast_compare_key (nkey e) ids" using cmp_drop [OF le] by linarith
    then have "m + ps \<le> m"
      unfolding split.hyps(4) using dvd split.hyps(4) by (intro align_down_greatest) simp_all
    then show False using split.prems(1) by simp
  qed
  then have "no_kid fresh (key_fn ps (drop m ids)) ?c"
    by (simp add: no_kid_def split_back_def)
  then show ?case using subtree_below [OF u, of fresh] by (simp add: no_kid_def)
next
  case (descend ids cs pre c post m c' u n fresh' d)
  have w: "walks ps tic fresh (RNode d cs) ids (RNode d (pre @ (key_fn ps ids, c') # post)) u (m + n) fresh'"
    using descend.hyps by (rule walks.descend)
  have un: "uniq (RNode d (pre @ (key_fn ps ids, c') # post))"
    by (rule walks_uniq [OF w descend.prems(3,4)])
  have "m \<le> length ids" using walks_len [OF w] by simp
  moreover have "ps dvd m" using descend.hyps(4) by simp
  ultimately have "ps dvd length (drop m ids)" using descend.prems(6) by simp
  moreover have "uniq c" using uniq_kids(1) [of d pre _ c post] descend.prems(3) descend.hyps(2) by simp
  ultimately have "no_kid u (key_fn ps (drop n (drop m ids))) c'"
    using descend.IH descend.prems descend.hyps(2) by (simp add: add.commute)
  then show ?case using subtree_below [OF un walks_node [OF descend.hyps(8)]]
    by (simp add: no_kid_def add.commute)
qed

text \<open>The path of every node that was there before is unchanged.\<close>

lemma path_in:
  assumes "uniq (RNode d cs)" and "(k, c) \<in> set cs" and "h \<in> set (uuids c)"
  shows "path_of f h (RNode d cs) = f (rdata c) @ path_of f h c"
proof -
  from assms(2) obtain pre post where cs: "cs = pre @ (k, c) # post" by (meson split_list)
  show "path_of f h (RNode d cs) = f (rdata c) @ path_of f h c"
    using path_below [where f = f, of d pre k c post h] assms cs by auto
qed

lemma path_replace:
  assumes u: "uniq (RNode d (pre @ (k, c) # post))" "uniq (RNode d' (pre @ (k', c') # post))"
    and "uuid d' = uuid d" and "h \<in> set (uuids (RNode d (pre @ (k, c) # post)))"
    and c: "h \<in> set (uuids c) \<Longrightarrow>
        h \<in> set (uuids c') \<and> f (rdata c') @ path_of f h c' = f (rdata c) @ path_of f h c"
  shows "path_of f h (RNode d' (pre @ (k', c') # post)) = path_of f h (RNode d (pre @ (k, c) # post))"
proof -
  consider "h = uuid d" | "h \<in> set (uuids c)"
    | kc where "kc \<in> set pre \<union> set post" "h \<in> set (uuids (snd kc))"
    using assms(4) by auto
  then show ?thesis
  proof cases
    case 1
    then show ?thesis using assms(3) path_here [of f d'] by simp
  next
    case 2
    then show ?thesis using path_below [where f = f, OF u(1)] path_below [where f = f, OF u(2)] c by simp
  next
    case 3
    then show ?thesis using path_in [where f = f, OF u(1), of "fst kc" "snd kc"] path_in [where f = f, OF u(2), of "fst kc" "snd kc"]
      by auto
  qed
qed

text \<open>Lists that splitting a node cuts in two.\<close>

definition cuts :: "(ndata \<Rightarrow> 'a list) \<Rightarrow> bool" where
  "cuts f \<longleftrightarrow> (\<forall>d tic. f (d\<lparr>timestamp := tic\<rparr>) = f d) \<and>
     (\<forall>d fresh now m. f (split_front fresh now m d) @ f (split_back m d) = f d)"

lemma cuts_fields: "cuts nval" "cuts nkey"
  by (simp_all add: cuts_def split_front_def split_back_def new_node_def)

lemma walks_path:
  "walks ps tic fresh t ids t' u n fresh' \<Longrightarrow> cuts f \<Longrightarrow> uniq t \<Longrightarrow> fresh \<notin> set (uuids t) \<Longrightarrow>
   h \<in> set (uuids t) \<Longrightarrow> path_of f h t' = path_of f h t"
proof (induction rule: walks.induct)
  case (split ids cs pre e es post m d)
  let ?c = "RNode ((split_front fresh tic m e)\<lparr>timestamp := tic\<rparr>)
              [(key_fn ps (nkey (split_back m e)), RNode (split_back m e) es)]"
  have w: "walks ps tic fresh (RNode d cs) ids (RNode d (pre @ (key_fn ps ids, ?c) # post)) fresh m (Suc fresh)"
    using split.hyps by (rule walks.split)
  have u: "uniq (RNode d (pre @ (key_fn ps ids, ?c) # post))"
    by (rule walks_uniq [OF w split.prems(2,3)])
  have t: "uniq (RNode d (pre @ (key_fn ps ids, RNode e es) # post))"
    using split.prems(2) split.hyps(2) by simp
  have uc: "uniq ?c" by (rule uniq_kids(1) [OF u])
  have ue: "uniq (RNode e es)" "uniq (RNode (split_back m e) es)"
    using uniq_kids(1) [OF t] by (simp_all add: uniq_def)
  have "path_of f h (RNode (split_back m e) es) = path_of f h (RNode e es)"
  proof (cases "\<exists>kc \<in> set es. h \<in> set (uuids (snd kc))")
    case True
    then show ?thesis using path_in [where f = f, OF ue(1), of "fst kc" "snd kc" for kc]
        path_in [where f = f, OF ue(2), of "fst kc" "snd kc" for kc] by force
  next
    case False
    then show ?thesis by (auto simp: path_of_def up_path_def chain_Nil chains_nonempty [THEN iffD1])
  qed
  then have "h \<in> set (uuids (RNode e es)) \<Longrightarrow>
      h \<in> set (uuids ?c) \<and> f (rdata ?c) @ path_of f h ?c = f e @ path_of f h (RNode e es)"
    using path_split [where g = f, OF uc, of h] split.prems(1) by (simp add: cuts_def flip: append_assoc)
  then show ?case
    using path_replace [where f = f, OF t u refl, of h] split.prems(4) split.hyps(2) by simp
next
  case (descend ids cs pre c post m c' u n fresh' d)
  have w: "walks ps tic fresh (RNode d cs) ids (RNode d (pre @ (key_fn ps ids, c') # post)) u (m + n) fresh'"
    using descend.hyps by (rule walks.descend)
  have un: "uniq (RNode d (pre @ (key_fn ps ids, c') # post))"
    by (rule walks_uniq [OF w descend.prems(2,3)])
  have t: "uniq (RNode d (pre @ (key_fn ps ids, c) # post))"
    using descend.prems(2) descend.hyps(2) by simp
  have c': "f (rdata c') = f (rdata c)" and rc': "rdata c' = (rdata c)\<lparr>timestamp := tic\<rparr>"
    using walks_rdata [OF descend.hyps(8)] descend.prems(1) by (simp_all add: cuts_def)
  have touch: "path_of f h (touch tic c) = path_of f h c"
    by (cases c) (simp add: path_of_def up_path_def)
  have "h \<in> set (uuids c) \<Longrightarrow>
      h \<in> set (uuids c') \<and> f (rdata c') @ path_of f h c' = f (rdata c) @ path_of f h c"
    using descend.IH descend.prems descend.hyps(2) uniq_kids(1) [OF t] touch c'
      walks_uuids_set [OF descend.hyps(8)] by auto
  then show ?case
    using path_replace [where f = f, OF t un refl, of h] descend.prems(4) descend.hyps(2) by simp
qed simp

text \<open>Reference counts keep counting the locked handles; additive measures are unchanged.\<close>

lemma refs_replace:
  "refs_below L (RNode d (pre @ (k, c) # post)) \<Longrightarrow> ref_count (rdata c') = int (locks_in L c') \<Longrightarrow>
   refs_below L c' \<Longrightarrow> refs_below L (RNode d' (pre @ (k', c') # post))"
  by simp

lemma walks_refs:
  "walks ps tic fresh t ids t' u n fresh' \<Longrightarrow> refs_below L t \<Longrightarrow> fresh \<notin># L \<Longrightarrow> refs_below L t'"
proof (induction rule: walks.induct)
  case (split ids cs pre e es post m d)
  let ?b = "RNode (split_back m e) es"
  let ?c = "RNode ((split_front fresh tic m e)\<lparr>timestamp := tic\<rparr>) [(key_fn ps (nkey (split_back m e)), ?b)]"
  have e: "ref_count e = int (locks_in L (RNode e es))" "refs_below L (RNode e es)"
    using split.prems(1) split.hyps(2) by simp_all
  have lk: "locks_in L ?c = locks_in L (RNode e es)" "locks_in L ?b = locks_in L (RNode e es)"
    by (rule locks_in_cong, use split.prems(2) in auto)+
  have rc: "ref_count (rdata ?c) = ref_count e" "ref_count (rdata ?b) = ref_count e"
    by (simp_all add: split_front_def split_back_def new_node_def)
  have rl: "ref_count (rdata ?c) = int (locks_in L ?c)" "ref_count (rdata ?b) = int (locks_in L ?b)"
    unfolding rc lk by (rule e(1))+
  then have c: "refs_below L ?c" using e(2) by simp
  show ?case by (rule refs_replace [OF split.prems(1) [unfolded split.hyps(2)] rl(1) c])
next
  case (descend ids cs pre c post m c' u n fresh' d)
  have "rdata c' = (rdata c)\<lparr>timestamp := tic\<rparr>"
    using walks_rdata [OF descend.hyps(8)] by simp
  moreover have "locks_in L c' = locks_in L c"
    using walks_uuids_set [OF descend.hyps(8)] descend.prems(2) by (intro locks_in_cong) auto
  ultimately show ?case using descend.prems descend.hyps(2) descend.IH
    by (intro refs_replace [of L d pre "key_fn ps ids" c post c' d]) simp_all
qed simp

definition weigh :: "(ndata \<Rightarrow> int) \<Rightarrow> rtree \<Rightarrow> int" where
  "weigh f t = sum_list (map f (inner_nodes t))"

definition additive :: "(ndata \<Rightarrow> int) \<Rightarrow> bool" where
  "additive f \<longleftrightarrow> (\<forall>d tic. f (d\<lparr>timestamp := tic\<rparr>) = f d) \<and>
     (\<forall>d fresh now m. 0 < m \<and> m < node_len d \<longrightarrow> f (split_front fresh now m d) + f (split_back m d) = f d)"

lemma weigh_kids: "weigh f (RNode d cs) = sum_list (map (\<lambda>kc. f (rdata (snd kc)) + weigh f (snd kc)) cs)"
  by (induction cs) (simp_all add: weigh_def all_nodes_eq)

lemma walks_weigh:
  "walks ps tic fresh t ids t' u n fresh' \<Longrightarrow> additive f \<Longrightarrow> weigh f t' = weigh f t"
proof (induction rule: walks.induct)
  case (split ids cs pre e es post m d)
  have "f ((split_front fresh tic m e)\<lparr>timestamp := tic\<rparr>) + f (split_back m e) = f e"
    using split.prems split.hyps(5,6) by (simp add: additive_def)
  then show ?case using split.hyps(2) by (simp add: weigh_kids)
next
  case (descend ids cs pre c post m c' u n fresh' d)
  have "rdata c' = (rdata c)\<lparr>timestamp := tic\<rparr>"
    using walks_rdata [OF descend.hyps(8)] by simp
  moreover have "weigh f (touch tic c) = weigh f c" by (simp add: weigh_def)
  ultimately show ?case using descend.prems descend.IH descend.hyps(2)
    by (simp add: weigh_kids additive_def)
qed simp

end
