(* ===== verification/Radix_Edit.thy ===== *)
theory Radix_Edit
  imports Radix_Walk "HOL-Library.Sublist"
begin

text \<open>
  Edits at one node: attaching a child, removing a leaf, and changing the data along the path from
  a node to the root. \<open>focus u t s\<close> says that \<open>s\<close> is the subtree of \<open>t\<close> at the only
  node with identity \<open>u\<close>; the effect of \<open>modify u\<close> is read off by induction over it.
\<close>

section \<open>Focusing on a node\<close>

inductive focus :: "nat \<Rightarrow> rtree \<Rightarrow> rtree \<Rightarrow> bool" for u where
  here: "uuid (rdata s) = u \<Longrightarrow> focus u s s"
| below: "\<lbrakk>focus u c s; u \<noteq> uuid d; \<forall>kc \<in> set pre \<union> set post. u \<notin> set (uuids (snd kc))\<rbrakk> \<Longrightarrow>
     focus u (RNode d (pre @ (k, c) # post)) s"

lemma focus_in: "focus u t s \<Longrightarrow> u \<in> set (uuids t)"
  by (induction rule: focus.induct) auto

lemma focus_uuid: "focus u t s \<Longrightarrow> uuid (rdata s) = u"
  by (induction rule: focus.induct) auto

lemma focus_ex:
  assumes "uniq t" and "u \<in> set (uuids t)"
  shows "\<exists>s. focus u t s"
  using assms
proof (induction t)
  case (RNode d cs)
  show ?case
  proof (cases "uuid d = u")
    case True
    then have "focus u (RNode d cs) (RNode d cs)" by (intro focus.here) simp
    then show ?thesis by blast
  next
    case False
    with RNode.prems(2) obtain k c where kc: "(k, c) \<in> set cs" "u \<in> set (uuids c)" by auto
    then obtain pre post where cs: "cs = pre @ (k, c) # post" by (meson split_list)
    have uq: "uniq (RNode d (pre @ (k, c) # post))" using RNode.prems(1) cs by simp
    obtain s where "focus u c s"
      using RNode.IH [OF kc(1), of c] uniq_kids(1) [OF uq] kc(2) by auto
    moreover have "\<forall>kc \<in> set pre \<union> set post. u \<notin> set (uuids (snd kc))"
      using uniq_kids(3) [OF uq kc(2)] by blast
    ultimately show ?thesis using False unfolding cs by (blast intro: focus.below)
  qed
qed

lemma focus_subtree: "focus u t s \<Longrightarrow> uniq t \<Longrightarrow> subtree u t = Some s"
proof (induction rule: focus.induct)
  case (here s)
  then show ?case by (cases s) auto
next
  case (below c s d pre post k)
  then show ?case using subtree_below [of d pre k c post u] uniq_kids(1) focus_in by metis
qed

lemma subtree_focus: "subtree u t = Some s \<Longrightarrow> uniq t \<Longrightarrow> focus u t s"
  by (metis focus_ex focus_subtree option.inject subtree_absent option.distinct(1))

lemma modify_absent: "u \<notin> set (uuids t) \<Longrightarrow> modify u F t = t"
  by (induction t) (auto intro!: map_idI simp: prod_eq_iff)

lemma modify_below:
  assumes "u \<noteq> uuid d" and "\<forall>kc \<in> set pre \<union> set post. u \<notin> set (uuids (snd kc))"
  shows "modify u F (RNode d (pre @ (k, c) # post)) = RNode d (pre @ (k, modify u F c) # post)"
proof -
  have "map (\<lambda>kc. (fst kc, modify u F (snd kc))) l = l" if "set l \<subseteq> set pre \<union> set post" for l
  proof (rule map_idI)
    fix kc
    assume "kc \<in> set l"
    then have "u \<notin> set (uuids (snd kc))" using assms(2) that by blast
    then show "(fst kc, modify u F (snd kc)) = kc" by (simp add: modify_absent)
  qed
  then show ?thesis using assms(1) by simp
qed

lemma modify_here [simp]: "uuid (rdata s) = u \<Longrightarrow> modify u F s = F s"
  by (cases s) simp

declare modify.simps [simp del]

text \<open>\<open>F\<close> is the edit at the focus; it keeps the identity of the node.\<close>

lemma modify_uuids:
  "focus u t s \<Longrightarrow> mset (uuids (modify u F t)) + mset (uuids s) = mset (uuids t) + mset (uuids (F s))"
proof (induction rule: focus.induct)
  case (below c s d pre post k)
  show ?case unfolding modify_below [OF below.hyps(2,3)] using below.IH by (simp add: ac_simps)
qed (simp add: ac_simps)

lemma modify_weigh:
  assumes "focus u t s" and "rdata (F s) = rdata s"
  shows "weigh f (modify u F t) = weigh f t + weigh f (F s) - weigh f s
     \<and> rdata (modify u F t) = rdata t"
  using assms
proof (induction rule: focus.induct)
  case (below c s d pre post k)
  then show ?case by (simp add: modify_below weigh_kids)
qed simp

lemma modify_rdata: "focus u t s \<Longrightarrow> rdata (F s) = rdata s \<Longrightarrow> rdata (modify u F t) = rdata t"
  using modify_weigh by blast

lemma modify_wf:
  assumes "focus u t s" and "rdata (F s) = rdata s" and "wf_below ps t"
    and "wf_below ps s \<Longrightarrow> wf_below ps (F s)"
  shows "wf_below ps (modify u F t)"
  using assms
proof (induction rule: focus.induct)
  case (below c s d pre post k)
  have "rdata (modify u F c) = rdata c" by (rule modify_rdata) (use below in simp_all)
  with below show ?case by (simp add: modify_below)
qed simp

lemma focus_wf: "focus u t s \<Longrightarrow> wf_below ps t \<Longrightarrow> wf_below ps s"
  by (induction rule: focus.induct) auto

lemma focus_refs: "focus u t s \<Longrightarrow> refs_below L t \<Longrightarrow> refs_below L s"
  by (induction rule: focus.induct) auto

lemma focus_uniq: "focus u t s \<Longrightarrow> uniq t \<Longrightarrow> uniq s"
  by (induction rule: focus.induct) (auto dest: uniq_kids(1))

lemma focus_nodes: "focus u t s \<Longrightarrow> set (inner_nodes s) \<subseteq> set (inner_nodes t)"
  by (induction rule: focus.induct) (auto simp: all_nodes_eq)

lemma modify_locks_in:
  assumes "focus u t s"
    and "set (uuids (F s)) \<inter> set_mset L = set (uuids s) \<inter> set_mset L"
  shows "set (uuids (modify u F t)) \<inter> set_mset L = set (uuids t) \<inter> set_mset L"
  using assms
proof (induction rule: focus.induct)
  case (below c s d pre post k)
  then show ?case unfolding modify_below [OF below.hyps(2,3)] by auto
qed simp

lemma modify_refs:
  assumes "focus u t s" and "rdata (F s) = rdata s" and "refs_below L t"
    and "set (uuids (F s)) \<inter> set_mset L = set (uuids s) \<inter> set_mset L"
    and "refs_below L s \<Longrightarrow> refs_below L (F s)"
  shows "refs_below L (modify u F t)"
  using assms
proof (induction rule: focus.induct)
  case (below c s d pre post k)
  have "rdata (modify u F c) = rdata c" by (rule modify_rdata) (use below in simp_all)
  moreover have "locks_in L (modify u F c) = locks_in L c"
    by (rule locks_in_cong, rule modify_locks_in) (use below in simp_all)
  ultimately show ?case unfolding modify_below [OF below.hyps(2,3)]
    by (intro refs_replace [OF below.prems(2)]) (use below in simp_all)
qed simp

text \<open>Paths of nodes that the edit keeps.\<close>

lemma modify_path:
  assumes "focus u t s" and "rdata (F s) = rdata s" and "uniq t" and "uniq (modify u F t)"
    and "h \<in> set (uuids t)" and "h \<in> set (uuids s) \<Longrightarrow> h \<in> set (uuids (F s))"
    and "h \<in> set (uuids s) \<Longrightarrow> path_of f h (F s) = path_of f h s"
  shows "path_of f h (modify u F t) = path_of f h t \<and> h \<in> set (uuids (modify u F t))"
  using assms
proof (induction rule: focus.induct)
  case (below c s d pre post k)
  let ?c' = "modify u F c"
  have m: "modify u F (RNode d (pre @ (k, c) # post)) = RNode d (pre @ (k, ?c') # post)"
    using below.hyps by (simp add: modify_below)
  have u': "uniq (RNode d (pre @ (k, ?c') # post))" using below.prems(3) m by simp
  have "rdata ?c' = rdata c" by (rule modify_rdata) (use below in simp_all)
  moreover have "h \<in> set (uuids c) \<Longrightarrow> path_of f h ?c' = path_of f h c \<and> h \<in> set (uuids ?c')"
    using below uniq_kids(1) [OF below.prems(2)] uniq_kids(1) [OF u'] by blast
  ultimately show ?case
    using path_replace [where f = f, OF below.prems(2) u' refl below.prems(4)] below.prems(4) m by auto
qed simp

lemma modify_path_at:
  assumes "focus u t s" and "rdata (F s) = rdata s" and "uniq t" and "uniq (modify u F t)"
    and "h \<in> set (uuids (F s))"
  shows "path_of f h (modify u F t) = path_of f u t @ path_of f h (F s)"
  using assms
proof (induction rule: focus.induct)
  case (here s)
  then show ?case using path_root [of f s] by simp
next
  case (below c s d pre post k)
  let ?c' = "modify u F c"
  have m: "modify u F (RNode d (pre @ (k, c) # post)) = RNode d (pre @ (k, ?c') # post)"
    using below.hyps by (simp add: modify_below)
  have u': "uniq (RNode d (pre @ (k, ?c') # post))" using below.prems(3) m by simp
  have "mset (uuids ?c') + mset (uuids s) = mset (uuids c) + mset (uuids (F s))"
    by (rule modify_uuids [OF below.hyps(1)])
  have rd: "rdata ?c' = rdata c" by (rule modify_rdata) (use below in simp_all)
  have "h \<in> set (uuids ?c')"
    using below.hyps(1) below.prems(4)
  proof (induction rule: focus.induct)
    case (below c s d pre post k)
    then show ?case unfolding modify_below [OF below.hyps(2,3)] by simp
  qed simp
  then show ?case
    using path_below [where f = f, OF u'] path_below [where f = f, OF below.prems(2) focus_in [OF below.hyps(1)]] m rd
      below uniq_kids(1) [OF below.prems(2)] uniq_kids(1) [OF u'] by simp
qed

section \<open>Attaching a child\<close>

text \<open>What holds when a cache attaches the new node \<open>n\<close> at \<open>u\<close>, the end of a descent: the page
  of its key is free there and its identity is new.\<close>

definition attachable :: "nat \<Rightarrow> nat \<Rightarrow> ndata \<Rightarrow> rtree \<Rightarrow> rtree \<Rightarrow> bool" where
  "attachable ps u n t s \<longleftrightarrow> 0 < ps \<and> uniq t \<and> wf_below ps t \<and> focus u t s \<and>
     key_fn ps (nkey n) \<notin> fst ` set (rkids s) \<and> uuid n \<notin> set (uuids t) \<and> wf_data ps n"

abbreviation plus_kid :: "nat \<Rightarrow> ndata \<Rightarrow> rtree \<Rightarrow> rtree" where
  "plus_kid ps n \<equiv> \<lambda>p. RNode (rdata p) (set_child (key_fn ps (nkey n)) (RNode n []) (rkids p))"

lemma attachableD:
  assumes "attachable ps u n t s"
  shows "0 < ps" "uniq t" "wf_below ps t" "focus u t s" "key_fn ps (nkey n) \<notin> fst ` set (rkids s)"
    "uuid n \<notin> set (uuids t)" "wf_data ps n" "uuid n \<notin> set (uuids s)" "uniq s"
    "plus_kid ps n s = RNode (rdata s) (rkids s @ [(key_fn ps (nkey n), RNode n [])])"
proof -
  have "set (uuids s) \<subseteq> set (uuids t)" if "focus u t s"
    using that by (induction rule: focus.induct) auto
  then show "0 < ps" "uniq t" "wf_below ps t" "focus u t s" "key_fn ps (nkey n) \<notin> fst ` set (rkids s)"
    "uuid n \<notin> set (uuids t)" "wf_data ps n" "uuid n \<notin> set (uuids s)" "uniq s"
    "plus_kid ps n s = RNode (rdata s) (rkids s @ [(key_fn ps (nkey n), RNode n [])])"
    using assms focus_uniq [of u t s] by (auto simp: attachable_def set_child_new)
qed

lemma plus_kid_uniq: "attachable ps u n t s \<Longrightarrow> uniq (plus_kid ps n s)"
  unfolding attachableD(10)
  using attachableD(8,9) [of ps u n t s] by (cases s) (auto simp: uniq_def)

lemma add_child_uuids:
  assumes "attachable ps u n t s"
  shows "mset (uuids (add_child ps u n t)) = add_mset (uuid n) (mset (uuids t))"
proof -
  have "mset (uuids (plus_kid ps n s)) = add_mset (uuid n) (mset (uuids s))"
    unfolding attachableD(10) [OF assms] by (cases s) simp
  then show ?thesis using modify_uuids [OF attachableD(4) [OF assms], of "plus_kid ps n"]
    unfolding add_child_def by (metis add_right_cancel union_mset_add_mset_left union_mset_add_mset_right)
qed

lemma add_child_uniq: "attachable ps u n t s \<Longrightarrow> uniq (add_child ps u n t)"
  using attachableD(2,6) [of ps u n t s] unfolding uniq_def
  by (metis add_child_uuids distinct.simps(2) mset.simps(2) mset_eq_imp_distinct_iff)

lemma add_child_set:
  "attachable ps u n t s \<Longrightarrow> set (uuids (add_child ps u n t)) = insert (uuid n) (set (uuids t))"
  using arg_cong [OF add_child_uuids, of ps u n t s set_mset] by simp

lemma add_child_rdata: "attachable ps u n t s \<Longrightarrow> rdata (add_child ps u n t) = rdata t"
  unfolding add_child_def by (rule modify_rdata [OF attachableD(4)]) simp_all

lemma add_child_wf:
  assumes "attachable ps u n t s"
  shows "wf_below ps (add_child ps u n t)"
  unfolding add_child_def
proof (rule modify_wf [OF attachableD(4) [OF assms] _ attachableD(3) [OF assms]])
  assume "wf_below ps s"
  then show "wf_below ps (plus_kid ps n s)" unfolding attachableD(10) [OF assms]
    using attachableD(5,7) [OF assms] by (cases s) (auto simp: wf_kid_def)
qed simp

lemma add_child_weigh:
  assumes "attachable ps u n t s"
  shows "weigh f (add_child ps u n t) = weigh f t + f n"
proof -
  have "weigh f (plus_kid ps n s) = weigh f s + f n"
    unfolding attachableD(10) [OF assms] by (cases s) (simp add: weigh_def)
  then show ?thesis using modify_weigh [OF attachableD(4) [OF assms], of "plus_kid ps n" f]
    by (simp add: add_child_def)
qed

lemma add_child_refs:
  assumes a: "attachable ps u n t s" and "refs_below L t" and "uuid n \<notin># L" and "ref_count n = 0"
  shows "refs_below L (add_child ps u n t)"
  unfolding add_child_def
proof (rule modify_refs [OF attachableD(4) [OF a] _ assms(2)])
  show "set (uuids (plus_kid ps n s)) \<inter> set_mset L = set (uuids s) \<inter> set_mset L"
    unfolding attachableD(10) [OF a] using assms(3) by (cases s) auto
  assume "refs_below L s"
  moreover have "locks_in L (RNode n []) = 0"
    using assms(3) by (auto simp: locks_in_def filter_mset_eq_conv)
  ultimately show "refs_below L (plus_kid ps n s)"
    unfolding attachableD(10) [OF a] using assms(4) by (cases s) auto
qed simp

lemma plus_kid_paths:
  assumes a: "attachable ps u n t s" and h: "h \<in> set (uuids s)"
  shows "h \<in> set (uuids (plus_kid ps n s))" and "path_of f h (plus_kid ps n s) = path_of f h s"
proof -
  obtain d cs where s: "s = RNode d cs" by (cases s)
  note F = attachableD(10) [OF a] and uF = plus_kid_uniq [OF a]
  show "h \<in> set (uuids (plus_kid ps n s))" unfolding F using h s by auto
  show "path_of f h (plus_kid ps n s) = path_of f h s"
  proof (cases "h = uuid d")
    case True
    then show ?thesis using path_root [of f "plus_kid ps n s"] path_root [of f s] s by simp
  next
    case False
    then obtain kc where "kc \<in> set cs" "h \<in> set (uuids (snd kc))" using h s by auto
    then show ?thesis
      using path_in [where f = f, of d cs "fst kc" "snd kc" h] attachableD(9) [OF a] s
        path_in [where f = f, OF uF [unfolded F], of "fst kc" "snd kc" h] F by auto
  qed
qed

lemma add_child_path:
  assumes a: "attachable ps u n t s" and h: "h \<in> set (uuids t)"
  shows "path_of f h (add_child ps u n t) = path_of f h t"
  using modify_path [where f = f, OF attachableD(4) [OF a], of "plus_kid ps n" h] plus_kid_paths(1) [OF a, of h] plus_kid_paths(2) [where f = f, OF a, of h]
    attachableD(2) [OF a] add_child_uniq [OF a] h by (simp add: add_child_def)

lemma add_child_new_path:
  assumes a: "attachable ps u n t s"
  shows "path_of f (uuid n) (add_child ps u n t) = path_of f u t @ f n"
proof -
  note F = attachableD(10) [OF a]
  have "path_of f (uuid n) (plus_kid ps n s) = f n"
    using path_in [where f = f, OF plus_kid_uniq [OF a, unfolded F], of "key_fn ps (nkey n)" "RNode n []" "uuid n"]
      path_root [of _ "RNode n []"] by (simp add: F del: path_root)
  moreover have "uuid n \<in> set (uuids (plus_kid ps n s))" unfolding F by (cases s) simp
  ultimately show ?thesis
    using modify_path_at [where f = f, OF attachableD(4) [OF a], of "plus_kid ps n" "uuid n"] attachableD(2) [OF a]
      add_child_uniq [OF a] by (simp add: add_child_def)
qed

text \<open>The content after attaching the missing tail of a sequence.\<close>

definition extend_match :: "nat \<Rightarrow> slot list \<Rightarrow> token list \<Rightarrow> slot list \<Rightarrow> token list \<Rightarrow> slot list" where
  "extend_match ps old ids vals x =
     (let j = align_down (fast_compare_key x ids) ps in if length old < j then take j vals else old)"

lemma mtch_new_kid:
  assumes ps: "0 < ps" and wfn: "wf_data ps n" and free: "key_fn ps (nkey n) \<notin> fst ` set cs"
  shows "mtch ps (RNode d (cs @ [(key_fn ps (nkey n), RNode n [])])) x =
     extend_match ps (mtch ps (RNode d cs) x) (nkey n) (nval n) x"
proof (cases "x = []")
  case False
  let ?j = "align_down (fast_compare_key x (nkey n)) ps"
  have ge: "ps \<le> node_len n" by (rule wf_data_ge [OF wfn])
  show ?thesis
  proof (cases "key_fn ps x = key_fn ps (nkey n)")
    case True
    then have none: "map_of cs (key_fn ps x) = None" using free by (simp add: map_of_eq_None_iff)
    then have old: "mtch ps (RNode d cs) x = []" by (rule mtch_no_child)
    have "ps \<le> ?j" using child_match_pos [OF wfn ps True] by (simp add: cmp_commute)
    moreover have "mtch ps (RNode n []) y = []" for y by (rule mtch_no_child) simp
    ultimately show ?thesis using False none True old wfn ps
      by (auto simp: mtch_step map_add_def mtch_in_def get_match_len_def cmp_commute extend_match_def
          wf_data_def Let_def)
  next
    case neq: False
    have "\<not> ps \<le> fast_compare_key x (nkey n)"
      using neq cmp_take [of ps x "nkey n"] by (auto simp: key_fn_def)
    then have "?j = 0" by (simp add: align_down_def)
    moreover have "map_of (cs @ [(key_fn ps (nkey n), RNode n [])]) (key_fn ps x) = map_of cs (key_fn ps x)"
      using neq by (simp add: map_add_def split: option.splits)
    ultimately show ?thesis using False by (simp add: mtch_step extend_match_def)
  qed
qed (simp add: extend_match_def align_down_def)

lemma extend_match_other_page:
  "key_fn ps x \<noteq> key_fn ps ids \<Longrightarrow> extend_match ps old ids vals x = old"
proof -
  assume "key_fn ps x \<noteq> key_fn ps ids"
  then have "\<not> ps \<le> fast_compare_key x ids" using cmp_take [of ps x ids] by (auto simp: key_fn_def)
  then show ?thesis by (simp add: align_down_def extend_match_def)
qed

lemma mtch_lift:
  assumes rd: "rdata c' = rdata c" and wf: "wf_data ps (rdata c)"
    and IH: "\<And>y. mtch ps c' y = extend_match ps (mtch ps c y) r w y"
  shows "mtch_in ps c' x = extend_match ps (mtch_in ps c x) (nkey (rdata c) @ r) (nval (rdata c) @ w) x"
proof -
  let ?K = "nkey (rdata c)" and ?V = "nval (rdata c)"
  let ?m = "align_down (fast_compare_key ?K x) ps"
  have V: "length ?V = length ?K" and dvd: "ps dvd length ?K" using wf by (simp_all add: wf_data_def)
  show ?thesis
  proof (cases "fast_compare_key ?K x = length ?K")
    case True
    have K: "take (length ?K) x = ?K" using cmp_take [of "length ?K" ?K x] True by simp
    let ?y = "drop (length ?K) x"
    have x: "x = ?K @ ?y" using K by (metis append_take_drop_id)
    have "fast_compare_key x (?K @ r) = length ?K + fast_compare_key ?y r"
      using cmp_append [of ?K ?y r] x by simp
    then have "align_down (fast_compare_key x (?K @ r)) ps = length ?K + align_down (fast_compare_key ?y r) ps"
      using align_down_add_dvd [OF dvd] by simp
    moreover have "?m = length ?K" using True dvd by (simp add: align_down_dvd_id)
    ultimately show ?thesis using V rd IH [of ?y]
      by (simp add: mtch_in_def get_match_len_def extend_match_def Let_def)
  next
    case False
    then have lt: "fast_compare_key ?K x < length ?K" using cmp_le(1) [of ?K x] by simp
    then have m: "?m \<noteq> length ?K" "?m \<le> length ?K" using align_down_le [of "fast_compare_key ?K x" ps] by linarith+
    have "fast_compare_key ?K x = min (length ?K) (fast_compare_key (?K @ r) x)"
      using cmp_take_min [of "length ?K" "?K @ r" x] by simp
    then have "fast_compare_key x (?K @ r) = fast_compare_key ?K x"
      using lt by (simp add: cmp_commute)
    then show ?thesis using m V rd
      by (simp add: mtch_in_def get_match_len_def extend_match_def Let_def min_def)
  qed
qed

lemma add_child_mtch_focus:
  assumes "focus u t s" and "0 < ps" and "wf_below ps t" and "uniq t"
    and "key_fn ps (nkey n) \<notin> fst ` set (rkids s)" and "wf_data ps n"
  shows "mtch ps (modify u (plus_kid ps n) t) x =
     extend_match ps (mtch ps t x) (path_key u t @ nkey n) (path_vals u t @ nval n) x"
  using assms
proof (induction arbitrary: x rule: focus.induct)
  case (here s)
  then show ?case using path_root [of nval s] path_root [of nkey s] mtch_new_kid [of ps n "rkids s" "rdata s" x]
    by (simp add: set_child_new)
next
  case (below c s d pre post k)
  let ?c' = "modify u (plus_kid ps n) c"
  let ?ids = "path_key u c @ nkey n" and ?vals = "path_vals u c @ nval n"
  have m: "modify u (plus_kid ps n) (RNode d (pre @ (k, c) # post)) = RNode d (pre @ (k, ?c') # post)"
    by (rule modify_below) (use below.hyps in simp_all)
  have uc: "u \<in> set (uuids c)" by (rule focus_in [OF below.hyps(1)])
  have wfc: "wf_data ps (rdata c)" "k = key_fn ps (nkey (rdata c))" "wf_below ps c"
    using below.prems(2) by (auto simp: wf_kid_def)
  have k: "k \<notin> fst ` set pre" "map_of pre k = None"
    using below.prems(2) by (auto simp: map_of_eq_None_iff)
  have rd: "rdata ?c' = rdata c" by (rule modify_rdata [OF below.hyps(1)]) simp
  have IH: "mtch ps ?c' y = extend_match ps (mtch ps c y) ?ids ?vals y" for y
    by (rule below.IH) (use below.prems wfc uniq_kids(1) [OF below.prems(3)] in simp_all)
  have path: "path_key u (RNode d (pre @ (k, c) # post)) @ nkey n = nkey (rdata c) @ ?ids"
    "path_vals u (RNode d (pre @ (k, c) # post)) @ nval n = nval (rdata c) @ ?vals"
    using path_below [where f = nval, OF below.prems(3) uc] path_below [where f = nkey, OF below.prems(3) uc] by simp_all
  show ?case
  proof (cases "key_fn ps x = k \<and> x \<noteq> []")
    case True
    then have "mtch ps (RNode d (pre @ (k, e) # post)) x = mtch_in ps e x" for e
      by (intro mtch_child [OF refl k(1)]) simp_all
    then show ?thesis unfolding m path using mtch_lift [OF rd wfc(1) IH] by simp
  next
    case False
    have "ps \<le> node_len (rdata c)" by (rule wf_data_ge [OF wfc(1)])
    then have "key_fn ps (nkey (rdata c) @ ?ids) = k" using wfc(2) by (simp add: key_fn_def)
    moreover have "mtch ps (RNode d (pre @ (k, ?c') # post)) x = mtch ps (RNode d (pre @ (k, c) # post)) x"
      using False by (cases "x = []") (auto simp: mtch_step map_add_def split: option.splits)
    ultimately show ?thesis unfolding m path using False extend_match_other_page [of ps x]
      by (cases "x = []") (auto simp: extend_match_def align_down_def)
  qed
qed

lemma add_child_mtch:
  assumes "attachable ps u n t s"
  shows "mtch ps (add_child ps u n t) x =
     extend_match ps (mtch ps t x) (path_key u t @ nkey n) (path_vals u t @ nval n) x"
  unfolding add_child_def by (rule add_child_mtch_focus) (use attachableD [OF assms] in simp_all)

text \<open>A node's own path is matched in full.\<close>

lemma mtch_path:
  assumes "u \<in> set (uuids t)" and "uniq t" and "wf_below ps t" and "0 < ps"
  shows "mtch ps t (path_key u t @ x) = path_vals u t @ (if subtree u t = None then [] else mtch ps (the (subtree u t)) x)"
proof -
  obtain s where f: "focus u t s" using focus_ex [OF assms(2,1)] by blast
  then have "subtree u t = Some s" by (rule focus_subtree [OF _ assms(2)])
  moreover have "mtch ps t (path_key u t @ x) = path_vals u t @ mtch ps s x"
    using f assms(2,3)
  proof (induction rule: focus.induct)
    case (here s)
    then show ?case using path_root [of nval s] path_root [of nkey s] by simp
  next
    case (below c s d pre post k)
    have uc: "u \<in> set (uuids c)" by (rule focus_in [OF below.hyps(1)])
    have wfc: "wf_data ps (rdata c)" "k = key_fn ps (nkey (rdata c))" "wf_below ps c"
      using below.prems(2) by (auto simp: wf_kid_def)
    have kpre: "k \<notin> fst ` set pre" using below.prems(2) by simp
    let ?y = "nkey (rdata c) @ path_key u c @ x"
    have ne: "?y \<noteq> []" using wfc(1) by (auto simp: wf_data_def)
    have key: "k = key_fn ps ?y" using wfc(2) wf_data_ge [OF wfc(1)] by (simp add: key_fn_def)
    have "mtch ps (RNode d (pre @ (k, c) # post)) ?y = mtch_in ps c ?y"
      by (rule mtch_child [OF refl kpre key ne])
    also have "\<dots> = nval (rdata c) @ mtch ps c (path_key u c @ x)"
      using cmp_append [of "nkey (rdata c)" "[]" "path_key u c @ x"] wfc(1)
      by (simp add: mtch_in_def get_match_len_def wf_data_def align_down_dvd_id)
    finally show ?case
      using path_below [where f = nval, OF below.prems(1) uc] path_below [where f = nkey, OF below.prems(1) uc] below.IH uniq_kids(1) [OF below.prems(1)] wfc(3) by simp
  qed
  ultimately show ?thesis by simp
qed

end
