(* ===== verification/Radix_Remove.thy ===== *)
theory Radix_Remove
  imports Radix_Edit
begin

text \<open>
  Removing a leaf (\<open>unlink\<close>) and changing the data of the nodes between a node and the root
  (the lock loops): effect on identities, counts, paths and content.
\<close>

section \<open>Removing a leaf\<close>

lemma chain_focus:
  "chain v t = d # p # r \<Longrightarrow> uniq t \<Longrightarrow>
   \<exists>pre k es post. focus (uuid p) t (RNode p (pre @ (k, RNode d es) # post))"
proof (induction t arbitrary: r)
  case (RNode e cs)
  then have v: "uuid e \<noteq> v" by auto
  have "chains v cs \<noteq> []" using RNode.prems(1) v by (auto split: if_splits)
  then obtain k c where kc: "(k, c) \<in> set cs" "v \<in> set (uuids c)" using chains_nonempty by force
  then obtain pre post where cs: "cs = pre @ (k, c) # post" by (meson split_list)
  have uq: "uniq (RNode e (pre @ (k, c) # post))" using RNode.prems(2) cs by simp
  have ch: "chain v c @ [e] = d # p # r" using RNode.prems(1) chain_below [OF uq kc(2)] cs by simp
  show ?case
  proof (cases "tl (chain v c)")
    case Nil
    with ch have "chain v c = [d]" "p = e" by (cases "chain v c"; simp)+
    then have "rdata c = d" using chain_last [of v c] by simp
    then obtain es where "c = RNode d es" by (cases c) simp
    moreover have "focus (uuid p) (RNode e cs) (RNode p cs)"
      using \<open>p = e\<close> by (auto intro: focus.here)
    ultimately show ?thesis using cs by blast
  next
    case (Cons q r')
    then obtain r'' where "chain v c = d # p # r''" using ch by (cases "chain v c") auto
    with RNode.IH [OF kc(1), of c] uniq_kids(1) [OF uq] obtain pre' k' es post' where
      f: "focus (uuid p) c (RNode p (pre' @ (k', RNode d es) # post'))" by auto
    have pin: "uuid p \<in> set (uuids c)" by (rule focus_in [OF f])
    have "focus (uuid p) (RNode e (pre @ (k, c) # post)) (RNode p (pre' @ (k', RNode d es) # post'))"
      by (rule focus.below [OF f uniq_kids(2) [OF uq pin]]) (use uniq_kids(3) [OF uq pin] in blast)
    then show ?thesis unfolding cs by blast
  qed
qed

lemma focus_trans:
  "focus p t s \<Longrightarrow> focus v s s' \<Longrightarrow> uniq t \<Longrightarrow> focus v t s'"
proof (induction rule: focus.induct)
  case (below c s d pre post k)
  have f: "focus v c s'" by (rule below.IH [OF below.prems(1) uniq_kids(1) [OF below.prems(2)]])
  have vin: "v \<in> set (uuids c)" by (rule focus_in [OF f])
  show ?case
    by (rule focus.below [OF f uniq_kids(2) [OF below.prems(2) vin]])
       (use uniq_kids(3) [OF below.prems(2) vin] in blast)
qed

text \<open>\<open>leaf_at ps v t d p pre post\<close>: \<open>v\<close> is a leaf of \<open>t\<close> with data \<open>d\<close> whose parent has data
  \<open>p\<close> and the other children \<open>pre @ post\<close>.\<close>

definition leaf_at :: "nat \<Rightarrow> nat \<Rightarrow> rtree \<Rightarrow> ndata \<Rightarrow> ndata \<Rightarrow> (token list \<times> rtree) list \<Rightarrow>
    (token list \<times> rtree) list \<Rightarrow> bool" where
  "leaf_at ps v t d p pre post \<longleftrightarrow> uniq t \<and> wf_below ps t \<and> uuid d = v \<and>
     focus (uuid p) t (RNode p (pre @ (key_fn ps (nkey d), RNode d []) # post)) \<and>
     (\<exists>r. chain v t = d # p # r)"

lemma leaf_atD:
  assumes "leaf_at ps v t d p pre post"
  shows "uniq t" "wf_below ps t" "uuid d = v"
    "focus (uuid p) t (RNode p (pre @ (key_fn ps (nkey d), RNode d []) # post))"
    "unlink ps v t = modify (uuid p) (\<lambda>q. RNode (rdata q) (AList.delete (key_fn ps (nkey d)) (rkids q))) t"
    "AList.delete (key_fn ps (nkey d)) (pre @ (key_fn ps (nkey d), RNode d []) # post) = pre @ post"
    "uniq (RNode p (pre @ (key_fn ps (nkey d), RNode d []) # post))"
    "wf_below ps (RNode p (pre @ (key_fn ps (nkey d), RNode d []) # post))"
proof -
  show "uniq t" "wf_below ps t" "uuid d = v"
    and f: "focus (uuid p) t (RNode p (pre @ (key_fn ps (nkey d), RNode d []) # post))"
    using assms by (simp_all add: leaf_at_def)
  then show wf: "wf_below ps (RNode p (pre @ (key_fn ps (nkey d), RNode d []) # post))"
    and "uniq (RNode p (pre @ (key_fn ps (nkey d), RNode d []) # post))"
    using focus_wf focus_uniq by blast+
  show "AList.delete (key_fn ps (nkey d)) (pre @ (key_fn ps (nkey d), RNode d []) # post) = pre @ post"
    by (rule delete_kid_split) (use wf in auto)
  show "unlink ps v t = modify (uuid p) (\<lambda>q. RNode (rdata q) (AList.delete (key_fn ps (nkey d)) (rkids q))) t"
    using assms by (auto simp: leaf_at_def unlink_def)
qed

lemma leaf_at_ex:
  assumes "uniq t" and "wf_below ps t" and "subtree v t = Some (RNode d [])" and "v \<noteq> uuid (rdata t)"
  shows "\<exists>p pre post. leaf_at ps v t d p pre post"
proof -
  have f: "focus v t (RNode d [])" by (rule subtree_focus [OF assms(3,1)])
  have v: "uuid d = v" using focus_uuid [OF f] by simp
  have "chain v t \<noteq> []" using focus_in [OF f] by (simp add: chain_nonempty)
  moreover have "chain v t \<noteq> [x]" for x
  proof
    assume "chain v t = [x]"
    then show False using chain_last [of v t] chain_hd [of v t] assms(4) by simp
  qed
  ultimately obtain d' p r where c: "chain v t = d' # p # r"
    by (cases "chain v t"; cases "tl (chain v t)") auto
  obtain pre k es post where fp: "focus (uuid p) t (RNode p (pre @ (k, RNode d' es) # post))"
    using chain_focus [OF c assms(1)] by blast
  have wf: "wf_below ps (RNode p (pre @ (k, RNode d' es) # post))"
    and uq: "uniq (RNode p (pre @ (k, RNode d' es) # post))"
    using focus_wf [OF fp assms(2)] focus_uniq [OF fp assms(1)] .
  have d': "uuid d' = v" using chain_hd [of v t] c by simp
  have "v \<in> set (uuids (RNode d' es))" using d' by simp
  then have "focus v (RNode p (pre @ (k, RNode d' es) # post)) (RNode d' es)"
    using uniq_kids(2,3) [OF uq] d' by (intro focus.below [OF focus.here]) auto
  then have "subtree v t = Some (RNode d' es)"
    using focus_trans [OF fp] assms(1) focus_subtree by blast
  then have "d' = d" "es = []" using assms(3) by simp_all
  then show ?thesis using assms(1,2) v fp c wf by (auto simp: leaf_at_def wf_kid_def)
qed

lemma unlink_uuids:
  assumes a: "leaf_at ps v t d p pre post"
  shows "mset (uuids t) = add_mset v (mset (uuids (unlink ps v t)))"
  using modify_uuids [OF leaf_atD(4) [OF a], of "\<lambda>q. RNode (rdata q) (AList.delete (key_fn ps (nkey d)) (rkids q))"]
  by (simp add: leaf_atD(5) [OF a] leaf_atD(6) [OF a] leaf_atD(3) [OF a])

lemma unlink_uniq: "leaf_at ps v t d p pre post \<Longrightarrow> uniq (unlink ps v t)"
  using leaf_atD(1) [of ps v t d p pre post] unlink_uuids [of ps v t d p pre post]
  unfolding uniq_def by (metis distinct.simps(2) mset.simps(2) mset_eq_imp_distinct_iff)

lemma unlink_set:
  assumes "leaf_at ps v t d p pre post"
  shows "set (uuids (unlink ps v t)) = set (uuids t) - {v}"
proof -
  have "v \<notin># mset (uuids (unlink ps v t))"
    using leaf_atD(1) [OF assms] unlink_uuids [OF assms] unfolding uniq_def
    by (metis distinct.simps(2) mset.simps(2) mset_eq_imp_distinct_iff set_mset_mset)
  moreover have "set (uuids t) = insert v (set (uuids (unlink ps v t)))"
    using arg_cong [OF unlink_uuids [OF assms], of set_mset] by simp
  ultimately show ?thesis by auto
qed

lemma unlink_rdata: "leaf_at ps v t d p pre post \<Longrightarrow> rdata (unlink ps v t) = rdata t"
  unfolding leaf_atD(5) by (rule modify_rdata [OF leaf_atD(4)]) simp_all

lemma unlink_wf:
  assumes a: "leaf_at ps v t d p pre post"
  shows "wf_below ps (unlink ps v t)"
  unfolding leaf_atD(5) [OF a]
  by (rule modify_wf [OF leaf_atD(4) [OF a] _ leaf_atD(2) [OF a]])
     (use leaf_atD(6,8) [OF a] in auto)

lemma unlink_weigh:
  assumes a: "leaf_at ps v t d p pre post"
  shows "weigh f (unlink ps v t) = weigh f t - f d"
  unfolding leaf_atD(5) [OF a]
  using modify_weigh [OF leaf_atD(4) [OF a], of "\<lambda>q. RNode (rdata q) (AList.delete (key_fn ps (nkey d)) (rkids q))" f]
  by (simp add: leaf_atD(6) [OF a] weigh_kids)

lemma unlink_refs:
  assumes a: "leaf_at ps v t d p pre post" and r: "refs_below L t" and v: "v \<notin># L"
  shows "refs_below L (unlink ps v t)"
  unfolding leaf_atD(5) [OF a]
  by (rule modify_refs [OF leaf_atD(4) [OF a] _ r]) (use leaf_atD(3,6) [OF a] v in auto)

lemma unlink_path:
  assumes a: "leaf_at ps v t d p pre post" and h: "h \<in> set (uuids t)" "h \<noteq> v"
  shows "path_of f h (unlink ps v t) = path_of f h t"
proof -
  let ?G = "\<lambda>q. RNode (rdata q) (AList.delete (key_fn ps (nkey d)) (rkids q))"
  let ?s = "RNode p (pre @ (key_fn ps (nkey d), RNode d []) # post)"
  have G: "?G ?s = RNode p (pre @ post)" using leaf_atD(6) [OF a] by simp
  have uG: "uniq (RNode p (pre @ post))" using leaf_atD(7) [OF a] by (auto simp: uniq_def)
  have "h \<in> set (uuids (?G ?s)) \<and> path_of f h (?G ?s) = path_of f h ?s" if "h \<in> set (uuids ?s)"
  proof (cases "h = uuid p")
    case True
    then show ?thesis unfolding G by simp
  next
    case False
    with that h(2) leaf_atD(3) [OF a] obtain kc where
      kc: "kc \<in> set (pre @ post)" "h \<in> set (uuids (snd kc))" by auto
    then show ?thesis unfolding G
      using path_in [where f = f, OF uG, of "fst kc" "snd kc" h] path_in [where f = f, OF leaf_atD(7) [OF a], of "fst kc" "snd kc" h]
      by auto
  qed
  then show ?thesis
    using modify_path [where f = f, OF leaf_atD(4) [OF a], of ?G h] leaf_atD(1,5) [OF a] unlink_uniq [OF a] h(1)
    by auto
qed

text \<open>What is still cached was cached before, with the same slots.\<close>

lemma mtch_modify_prefix:
  assumes "focus u t s" and "rdata (F s) = rdata s" and "wf_below ps t"
    and "\<And>x. prefix (mtch ps (F s) x) (mtch ps s x)"
  shows "prefix (mtch ps (modify u F t) x) (mtch ps t x)"
  using assms
proof (induction arbitrary: x rule: focus.induct)
  case (below c s d pre post k)
  have rd: "rdata (modify u F c) = rdata c" by (rule modify_rdata) (use below in simp_all)
  have "prefix (mtch ps (modify u F c) y) (mtch ps c y)" for y
    using below.IH below.prems by simp
  then have "prefix (mtch_in ps (modify u F c) y) (mtch_in ps c y)" for y
    by (simp add: mtch_in_def get_match_len_def rd Let_def)
  then show ?case unfolding modify_below [OF below.hyps(2,3)]
    by (cases "x = []") (auto simp: mtch_step map_add_def split: option.splits)
qed simp

lemma unlink_mtch:
  assumes a: "leaf_at ps v t d p pre post"
  shows "prefix (mtch ps (unlink ps v t) x) (mtch ps t x)"
  unfolding leaf_atD(5) [OF a]
proof (rule mtch_modify_prefix [OF leaf_atD(4) [OF a] _ leaf_atD(2) [OF a]])
  let ?k = "key_fn ps (nkey d)"
  have "?k \<notin> fst ` set pre" "?k \<notin> fst ` set post" using leaf_atD(8) [OF a] by auto
  then have "map_of pre ?k = None" "map_of post ?k = None" by (simp_all add: map_of_eq_None_iff)
  then have "map_of (pre @ post) k' = (if k' = ?k then None else map_of (pre @ (?k, RNode d []) # post) k')" for k'
    by (simp add: map_add_def split: option.splits)
  then show "prefix (mtch ps (RNode (rdata (RNode p (pre @ (?k, RNode d []) # post)))
       (AList.delete ?k (rkids (RNode p (pre @ (?k, RNode d []) # post))))) y)
     (mtch ps (RNode p (pre @ (?k, RNode d []) # post)) y)" for y
    using leaf_atD(6) [OF a] by (cases "y = []") (auto simp: mtch_step split: option.splits)
qed simp

text \<open>The leaves after a removal: the removed one is gone, its parent may have become one.\<close>

lemma modify_leaves:
  "focus u t s \<Longrightarrow>
   mset (leaf_nodes (modify u F t)) + mset (leaf_nodes s) = mset (leaf_nodes t) + mset (leaf_nodes (F s))"
proof (induction rule: focus.induct)
  case (below c s d pre post k)
  show ?case unfolding modify_below [OF below.hyps(2,3)] using below.IH by (simp add: ac_simps)
qed (simp add: ac_simps)

lemma unlink_leaves:
  assumes a: "leaf_at ps v t d p pre post"
  shows "add_mset d (mset (leaf_nodes (unlink ps v t))) =
     mset (leaf_nodes t) + (if pre @ post = [] then {#p#} else {#})"
  using modify_leaves [OF leaf_atD(4) [OF a], of "\<lambda>q. RNode (rdata q) (AList.delete (key_fn ps (nkey d)) (rkids q))"]
  unfolding leaf_atD(5) [OF a] using leaf_atD(6) [OF a]
  by (cases "pre @ post = []") (auto simp: ac_simps)

section \<open>Changing the data of nodes\<close>

lemma map_nodes_cong:
  "(\<And>d. d \<in> set (all_nodes t) \<Longrightarrow> f d = g d) \<Longrightarrow> map_nodes f t = map_nodes g t"
  by (induction t) fastforce

lemma map_nodes_idle: "(\<And>d. d \<in> set (all_nodes t) \<Longrightarrow> f d = d) \<Longrightarrow> map_nodes f t = t"
proof (induction t)
  case (RNode d cs)
  have "map (\<lambda>kc. (fst kc, map_nodes f (snd kc))) cs = cs"
    using RNode by (intro map_idI) (force simp: prod_eq_iff)
  then show ?case using RNode.prems by simp
qed

lemma up_path_absent: "u \<notin> set (uuids t) \<Longrightarrow> up_path u t = []"
  by (simp add: up_path_def chain_Nil)

lemma up_path_trivial:
  assumes "\<not> (u \<in> set (uuids t) \<and> u \<noteq> uuid (rdata t))"
  shows "up_path u t = []"
  using assms by (cases "u = uuid (rdata t)") (auto intro: up_path_absent)

text \<open>Maps that keep identity, key and slots keep everything that is read through them.\<close>

definition keeps_shape :: "(ndata \<Rightarrow> ndata) \<Rightarrow> bool" where
  "keeps_shape f \<longleftrightarrow> (\<forall>d. uuid (f d) = uuid d \<and> nkey (f d) = nkey d \<and> nval (f d) = nval d)"

lemma keeps_shapeD:
  assumes "keeps_shape f"
  shows "uuid (f d) = uuid d" "nkey (f d) = nkey d" "nval (f d) = nval d" "wf_data ps (f d) = wf_data ps d"
    "wf_kid ps k (f d) = wf_kid ps k d"
  using assms by (auto simp: keeps_shape_def wf_data_def wf_kid_def)

lemma rdata_map_nodes [simp]: "rdata (map_nodes f t) = f (rdata t)"
  by (cases t) simp

lemma shape_uuids: "keeps_shape f \<Longrightarrow> uuids (map_nodes f t) = uuids t"
  by (rule uuids_map_nodes) (simp add: keeps_shapeD)

lemma shape_uniq: "keeps_shape f \<Longrightarrow> uniq (map_nodes f t) = uniq t"
  by (simp add: uniq_def shape_uuids)

lemma shape_wf: "keeps_shape f \<Longrightarrow> wf_below ps (map_nodes f t) = wf_below ps t"
  by (induction t) (auto simp: keeps_shapeD comp_def)

lemma shape_mtch: "keeps_shape f \<Longrightarrow> mtch ps (map_nodes f t) x = mtch ps t x"
proof (induction t arbitrary: x)
  case (RNode d cs)
  have map_of_map: "map_of (map (\<lambda>kc. (fst kc, map_nodes f (snd kc))) l) k = map_option (map_nodes f) (map_of l k)" for l k
    by (induction l) auto
  have "mtch_in ps (map_nodes f c) y = mtch_in ps c y" if "(k, c) \<in> set cs" for k c y
    using RNode that by (intro mtch_in_cong) (auto simp: keeps_shapeD)
  then show ?case
    by (cases "x = []") (auto simp: mtch_step map_of_map split: option.splits dest: map_of_SomeD)
qed

lemma shape_up_path: "keeps_shape f \<Longrightarrow> up_path u (map_nodes f t) = map f (up_path u t)"
  by (simp add: up_path_def chain_map_nodes(1) keeps_shapeD map_butlast)

lemma shape_path_vals: "keeps_shape f \<Longrightarrow> path_vals u (map_nodes f t) = path_vals u t"
  by (simp add: path_of_def shape_up_path rev_map [symmetric] comp_def keeps_shapeD)

lemma shape_path_key: "keeps_shape f \<Longrightarrow> path_key u (map_nodes f t) = path_key u t"
  by (simp add: path_of_def shape_up_path rev_map [symmetric] comp_def keeps_shapeD)

lemma inner_map_nodes: "inner_nodes (map_nodes f t) = map f (inner_nodes t)"
  by (cases t) (simp add: inner_nodes_def map_concat comp_def)

section \<open>The nodes between a node and the root\<close>

definition on_path :: "nat \<Rightarrow> rtree \<Rightarrow> nat set" where
  "on_path u t = uuid ` set (up_path u t)"

lemma on_path_inner:
  assumes "uniq t"
  shows "set (up_path u t) \<subseteq> set (inner_nodes t)"
  using assms
proof (induction t)
  case (RNode d cs)
  show ?case
  proof (cases "u \<in> set (uuids (RNode d cs)) \<and> u \<noteq> uuid d")
    case True
    then obtain k c where kc: "(k, c) \<in> set cs" "u \<in> set (uuids c)" by auto
    then obtain pre post where cs: "cs = pre @ (k, c) # post" by (meson split_list)
    have uq: "uniq (RNode d (pre @ (k, c) # post))" using RNode.prems cs by simp
    have "set (up_path u c) \<subseteq> set (inner_nodes c)"
      using RNode.IH [OF kc(1), of c] uniq_kids(1) [OF uq] by simp
    then show ?thesis unfolding cs using up_path_below [OF uq kc(2)] by (auto simp: all_nodes_eq)
  next
    case False
    then have "up_path u (RNode d cs) = []" by (intro up_path_trivial) simp
    then show ?thesis by simp
  qed
qed

lemma root_off_path: "uniq t \<Longrightarrow> uuid (rdata t) \<notin> on_path u t"
proof -
  assume u: "uniq t"
  then have "uuid (rdata t) \<notin> uuid ` set (inner_nodes t)"
    by (simp add: uniq_def uuids_def all_nodes_eq)
  then show ?thesis using on_path_inner [OF u, of u] by (auto simp: on_path_def)
qed

lemma on_path_uuids: "on_path u t \<subseteq> set (uuids t)"
  using chain_set [of u t] in_set_butlastD by (fastforce simp: on_path_def up_path_def uuids_def)

text \<open>Of two children only the one that holds \<open>u\<close> lies on its path.\<close>

lemma on_path_kid:
  assumes uq: "uniq (RNode d cs)" and kc: "(k, c) \<in> set cs"
  shows "u \<in> set (uuids c) \<Longrightarrow> on_path u (RNode d cs) = insert (uuid (rdata c)) (on_path u c)"
    and "u \<notin> set (uuids c) \<Longrightarrow> on_path u (RNode d cs) \<inter> set (uuids c) = {}"
proof -
  from kc obtain pre post where cs: "cs = pre @ (k, c) # post" by (meson split_list)
  have uq': "uniq (RNode d (pre @ (k, c) # post))" using uq cs by simp
  show "on_path u (RNode d cs) = insert (uuid (rdata c)) (on_path u c)" if "u \<in> set (uuids c)"
    using up_path_below [OF uq' that] cs by (simp add: on_path_def)
  show "on_path u (RNode d cs) \<inter> set (uuids c) = {}" if "u \<notin> set (uuids c)"
  proof (cases "u \<in> set (uuids (RNode d cs)) \<and> u \<noteq> uuid d")
    case True
    then obtain k2 c2 where kc2: "(k2, c2) \<in> set cs" "u \<in> set (uuids c2)" by auto
    then obtain pre2 post2 where cs2: "cs = pre2 @ (k2, c2) # post2" by (meson split_list)
    have uq2: "uniq (RNode d (pre2 @ (k2, c2) # post2))" using uq cs2 by simp
    have "(k, c) \<in> set pre2 \<union> set post2" using kc cs2 that kc2 by auto
    then have "w \<notin> set (uuids c)" if "w \<in> set (uuids c2)" for w
      using uniq_kids(3) [OF uq2 that] by fastforce
    moreover have "on_path u (RNode d cs) \<subseteq> set (uuids c2)"
      using up_path_below [OF uq2 kc2(2)] cs2 on_path_uuids [of u c2] by (auto simp: on_path_def)
    ultimately show ?thesis by auto
  next
    case False
    then have "up_path u (RNode d cs) = []" by (intro up_path_trivial) simp
    then show ?thesis by (simp add: on_path_def)
  qed
qed

definition path_map :: "(ndata \<Rightarrow> ndata) \<Rightarrow> nat \<Rightarrow> rtree \<Rightarrow> rtree" where
  "path_map g u t = map_nodes (\<lambda>d. if uuid d \<in> on_path u t then g d else d) t"

lemma root_uuid_fresh: "uniq t \<Longrightarrow> d \<in> set (inner_nodes t) \<Longrightarrow> uuid d \<noteq> uuid (rdata t)"
  unfolding uniq_def uuids_def all_nodes_eq by (metis distinct.simps(2) image_eqI list.map(2) list.set_map)

lemma path_map_kid:
  assumes uq: "uniq (RNode d cs)" and kc: "(k, c) \<in> set cs"
  shows "map_nodes (\<lambda>d'. if uuid d' \<in> on_path u (RNode d cs) then g d' else d') c =
     (if u \<in> set (uuids c) then RNode (g (rdata c)) (rkids (path_map g u c)) else c)"
proof (cases "u \<in> set (uuids c)")
  case True
  obtain e es where c: "c = RNode e es" by (cases c)
  let ?f = "\<lambda>d'. if uuid d' \<in> on_path u (RNode d cs) then g d' else d'"
    and ?f' = "\<lambda>d'. if uuid d' \<in> on_path u c then g d' else d'"
  from kc obtain pre post where cs: "cs = pre @ (k, c) # post" by (meson split_list)
  have uc: "uniq c" using uniq_kids(1) [of d pre k c post] uq cs by simp
  have on: "on_path u (RNode d cs) = insert (uuid e) (on_path u c)"
    using on_path_kid(1) [OF uq kc True] c by simp
  have same: "map_nodes ?f (snd kc') = map_nodes ?f' (snd kc')" if "kc' \<in> set es" for kc'
  proof (rule map_nodes_cong)
    fix d'
    assume "d' \<in> set (all_nodes (snd kc'))"
    then have "uuid d' \<noteq> uuid e" using root_uuid_fresh [OF uc] c that by auto
    then have "uuid d' \<in> on_path u (RNode d cs) \<longleftrightarrow> uuid d' \<in> on_path u c" unfolding on by blast
    then show "?f d' = ?f' d'" by presburger
  qed
  have "map (\<lambda>kc'. (fst kc', map_nodes ?f (snd kc'))) es = map (\<lambda>kc'. (fst kc', map_nodes ?f' (snd kc'))) es"
    by (rule map_cong [OF refl]) (simp only: same)
  moreover have "?f e = g e" using on by simp
  ultimately have "map_nodes ?f c = RNode (g e) (map (\<lambda>kc'. (fst kc', map_nodes ?f' (snd kc'))) es)"
    unfolding c map_nodes.simps by (rule arg_cong2 [where f = RNode, rotated])
  moreover have "rkids (path_map g u c) = map (\<lambda>kc'. (fst kc', map_nodes ?f' (snd kc'))) es"
    by (cases c) (use c in \<open>simp add: path_map_def\<close>)
  moreover have "rdata c = e" using c by simp
  ultimately show ?thesis using True by presburger
next
  case False
  have "map_nodes (\<lambda>d'. if uuid d' \<in> on_path u (RNode d cs) then g d' else d') c = c"
  proof (rule map_nodes_idle)
    fix d'
    assume "d' \<in> set (all_nodes c)"
    then have "uuid d' \<in> set (uuids c)" by (simp add: uuids_def)
    then have "uuid d' \<notin> on_path u (RNode d cs)" using on_path_kid(2) [OF uq kc False] by blast
    then show "(if uuid d' \<in> on_path u (RNode d cs) then g d' else d') = d'" by simp
  qed
  then show ?thesis using False by simp
qed

lemma path_map_step:
  assumes uq: "uniq (RNode d cs)"
  shows "path_map g u (RNode d cs) =
     RNode d (map (\<lambda>kc. (fst kc, if u \<in> set (uuids (snd kc))
        then RNode (g (rdata (snd kc))) (rkids (path_map g u (snd kc))) else snd kc)) cs)"
  using root_off_path [OF uq, of u] path_map_kid [OF uq, of _ _ u g]
  by (auto simp: path_map_def)

text \<open>Locking and unlocking: \<open>\<delta>\<close> is the change of every reference count on the path.\<close>

lemma refs_below_kids: "rkids t = rkids t' \<Longrightarrow> refs_below L t = refs_below L t'"
  by (cases t; cases t') simp

lemma refs_below_other: "(\<And>h. h \<in> set (uuids t) \<Longrightarrow> count L h = count L' h) \<Longrightarrow> refs_below L t = refs_below L' t"
proof (induction t)
  case (RNode d cs)
  have "locks_in L c = locks_in L' c \<and> refs_below L c = refs_below L' c" if kc: "(k, c) \<in> set cs" for k c
  proof
    have same: "count L h = count L' h" if "h \<in> set (uuids c)" for h
      using RNode.prems [of h] kc that by force
    then have "filter_mset (\<lambda>h. h \<in> set (uuids c)) L = filter_mset (\<lambda>h. h \<in> set (uuids c)) L'"
      by (intro multiset_eqI) simp
    then show "locks_in L c = locks_in L' c" by (simp add: locks_in_def)
    show "refs_below L c = refs_below L' c" using RNode.IH [OF kc, of c] same by simp
  qed
  then show ?case by fastforce
qed

lemma path_map_refs:
  assumes g: "\<And>d. ref_count (g d) = ref_count d + \<delta>" "keeps_shape g"
    and L: "\<And>h. h \<noteq> u \<Longrightarrow> count L' h = count L h" "int (count L' u) = int (count L u) + \<delta>"
    and "uniq t" "refs_below L t"
  shows "refs_below L' (path_map g u t)"
  using assms(5,6)
proof (induction t)
  case (RNode d cs)
  have size: "int (locks_in L' c) = int (locks_in L c) + \<delta>" if "u \<in> set (uuids c)" for c
  proof -
    have "size (filter_mset (\<lambda>h. h \<in> set (uuids c)) M) =
        size (filter_mset (\<lambda>h. h \<in> set (uuids c) \<and> h \<noteq> u) M) + count M u" for M :: "nat multiset"
      by (induction M) (use that in auto)
    moreover have "filter_mset (\<lambda>h. h \<in> set (uuids c) \<and> h \<noteq> u) L' =
        filter_mset (\<lambda>h. h \<in> set (uuids c) \<and> h \<noteq> u) L"
      using L(1) by (intro multiset_eqI) simp
    ultimately show ?thesis using L(2) by (simp add: locks_in_def)
  qed
  show ?case unfolding path_map_step [OF RNode.prems(1)] refs_below.simps
  proof (intro ballI)
    fix kc
    assume "kc \<in> set (map (\<lambda>kc. (fst kc, if u \<in> set (uuids (snd kc))
        then RNode (g (rdata (snd kc))) (rkids (path_map g u (snd kc))) else snd kc)) cs)"
    then obtain k c where kc: "(k, c) \<in> set cs" "snd kc = (if u \<in> set (uuids c)
        then RNode (g (rdata c)) (rkids (path_map g u c)) else c)" by auto
    from kc(1) obtain pre post where cs: "cs = pre @ (k, c) # post" by (meson split_list)
    have uc: "uniq c" using uniq_kids(1) [of d pre k c post] RNode.prems(1) cs by simp
    have rc: "ref_count (rdata c) = int (locks_in L c)" "refs_below L c" using RNode.prems(2) kc(1) by auto
    show "ref_count (rdata (snd kc)) = int (locks_in L' (snd kc)) \<and> refs_below L' (snd kc)"
    proof (cases "u \<in> set (uuids c)")
      case True
      let ?c = "RNode (g (rdata c)) (rkids (path_map g u c))"
      have "uuids ?c = uuids c"
        using shape_uuids [of "\<lambda>d. if uuid d \<in> on_path u c then g d else d" c] g(2)
        by (cases c) (simp add: path_map_def keeps_shape_def)
      then have "locks_in L' ?c = locks_in L' c" by (simp add: locks_in_def)
      moreover have "refs_below L' ?c"
        using RNode.IH [OF kc(1), of c] uc rc(2) refs_below_kids [of ?c "path_map g u c" L'] by simp
      ultimately show ?thesis using True kc(2) rc(1) g(1) size [OF True] by simp
    next
      case False
      then have same: "count L h = count L' h" if "h \<in> set (uuids c)" for h using L(1) that by metis
      then have "filter_mset (\<lambda>h. h \<in> set (uuids c)) L = filter_mset (\<lambda>h. h \<in> set (uuids c)) L'"
        by (intro multiset_eqI) simp
      then have "locks_in L c = locks_in L' c" by (simp add: locks_in_def)
      then show ?thesis using False kc(2) rc refs_below_other [OF same] by simp
    qed
  qed
qed

text \<open>Measures under a change along the path.\<close>

lemma up_path_distinct: "uniq t \<Longrightarrow> distinct (map uuid (up_path u t))"
proof (induction t)
  case (RNode d cs)
  show ?case
  proof (cases "u \<in> set (uuids (RNode d cs)) \<and> u \<noteq> uuid d")
    case True
    then obtain k c where kc: "(k, c) \<in> set cs" "u \<in> set (uuids c)" by auto
    then obtain pre post where cs: "cs = pre @ (k, c) # post" by (meson split_list)
    have uq: "uniq (RNode d (pre @ (k, c) # post))" using RNode.prems cs by simp
    have uc: "uniq c" by (rule uniq_kids(1) [OF uq])
    show ?thesis unfolding cs up_path_below [OF uq kc(2)]
      using RNode.IH [OF kc(1), of c] uc root_off_path [OF uc, of u] by (simp add: on_path_def)
  next
    case False
    then have "up_path u (RNode d cs) = []" by (intro up_path_trivial) simp
    then show ?thesis by simp
  qed
qed

lemma path_map_weigh:
  assumes u: "uniq t"
  shows "weigh h (path_map g u t) = weigh h t + (\<Sum>d\<leftarrow>up_path u t. h (g d) - h d)"
proof -
  let ?I = "inner_nodes t" and ?P = "\<lambda>d. uuid d \<in> on_path u t"
  have dist: "distinct (map uuid ?I)"
    using u by (simp add: uniq_def uuids_def all_nodes_eq)
  have "d \<in> set (up_path u t)" if d: "d \<in> set ?I" and on: "uuid d \<in> on_path u t" for d
  proof -
    obtain d' where d': "d' \<in> set (up_path u t)" "uuid d' = uuid d" using on by (auto simp: on_path_def)
    then have "d' \<in> set ?I" using on_path_inner [OF u, of u] by blast
    then have "d' = d" using dist d'(2) d by (simp add: distinct_map inj_on_def)
    then show ?thesis using d'(1) by simp
  qed
  then have "set (filter ?P ?I) = set (up_path u t)"
    using on_path_inner [OF u, of u] by (auto simp: on_path_def)
  moreover have "distinct (filter ?P ?I)" "distinct (up_path u t)"
    using up_path_distinct [OF u, of u] dist by (simp_all add: distinct_map)
  ultimately have perm: "mset (filter ?P ?I) = mset (up_path u t)"
    using set_eq_iff_mset_eq_distinct by blast
  have sums: "(\<Sum>d\<leftarrow>xs. h (if ?P d then g d else d)) = (\<Sum>d\<leftarrow>xs. h d) + (\<Sum>d\<leftarrow>filter ?P xs. h (g d) - h d)" for xs
    by (induction xs) auto
  have "weigh h (path_map g u t) = (\<Sum>d\<leftarrow>?I. h d) + (\<Sum>d\<leftarrow>filter ?P ?I. h (g d) - h d)"
    unfolding path_map_def weigh_def inner_map_nodes map_map comp_def by (rule sums)
  also have "(\<Sum>d\<leftarrow>filter ?P ?I. h (g d) - h d) = (\<Sum>d\<leftarrow>up_path u t. h (g d) - h d)"
    unfolding sum_mset_sum_list [symmetric] mset_map perm ..
  finally show ?thesis by (simp only: weigh_def)
qed

end
