(* ===== verification/Heap_Queue.thy ===== *)
theory Heap_Queue
  imports Prelude
begin

text \<open>
  The heap the evictions of the caches use (\<open>heapq\<close>): the interface \<open>priority_queue\<close> with what
  the callers rely on, and a list with \<open>pop_min\<close> that provides it. Elements compare by a key, as
  \<open>RadixTreeNode.__lt__\<close> compares timestamps; among equal keys the first of the list comes out.
\<close>

fun pop_min :: "('a \<Rightarrow> int) \<Rightarrow> 'a list \<Rightarrow> ('a \<times> 'a list) option" where
  "pop_min key [] = None"
| "pop_min key (x # xs) =
     (case pop_min key xs of
        None \<Rightarrow> Some (x, [])
      | Some (y, ys) \<Rightarrow> if key y < key x then Some (y, x # ys) else Some (x, xs))"

definition push :: "'a \<Rightarrow> 'a list \<Rightarrow> 'a list" where
  "push x h = h @ [x]"

lemma pop_min_None: "pop_min key h = None \<longleftrightarrow> h = []"
  by (cases h) (auto split: option.splits)

lemma pop_min_mset: "pop_min key h = Some (x, h') \<Longrightarrow> mset h = add_mset x (mset h')"
  by (induction h arbitrary: x h') (auto split: option.splits if_splits simp: pop_min_None)

lemma pop_min_least: "pop_min key h = Some (x, h') \<Longrightarrow> y \<in> set h \<Longrightarrow> key x \<le> key y"
  by (induction h arbitrary: x h') (fastforce split: option.splits if_splits simp: pop_min_None)+

lemma pop_min_len: "pop_min key h = Some (x, h') \<Longrightarrow> length h = Suc (length h')"
  using arg_cong [OF pop_min_mset, of key h x h' size] by simp

lemma pop_min_set: "pop_min key h = Some (x, h') \<Longrightarrow> set h = insert x (set h')"
  using arg_cong [OF pop_min_mset, of key h x h' set_mset] by simp

locale priority_queue =
  fixes elems :: "'q \<Rightarrow> 'a multiset" and key :: "'a \<Rightarrow> int"
    and enq :: "'a \<Rightarrow> 'q \<Rightarrow> 'q" and deq :: "'q \<Rightarrow> ('a \<times> 'q) option"
  assumes enq_elems: "elems (enq x q) = add_mset x (elems q)"
    and deq_empty: "deq q = None \<longleftrightarrow> elems q = {#}"
    and deq_elems: "deq q = Some (x, q') \<Longrightarrow> elems q = add_mset x (elems q')"
    and deq_least: "deq q = Some (x, q') \<Longrightarrow> y \<in># elems q \<Longrightarrow> key x \<le> key y"
begin

lemma deq_Some: "x \<in># elems q \<Longrightarrow> \<exists>y q'. deq q = Some (y, q')"
  using deq_empty [of q] by (cases "deq q") auto

lemma deq_enq_smaller:
  assumes "\<forall>y \<in># elems q. key x < key y"
  shows "\<exists>q'. deq (enq x q) = Some (x, q') \<and> elems q' = elems q"
proof -
  obtain y q' where d: "deq (enq x q) = Some (y, q')" using deq_Some [of x "enq x q"] enq_elems by auto
  have e: "add_mset x (elems q) = add_mset y (elems q')" using deq_elems [OF d] enq_elems by simp
  have "key y \<le> key x" using deq_least [OF d, of x] enq_elems by simp
  moreover have "y = x \<or> y \<in># elems q" using e by (metis insert_noteq_member)
  ultimately have "y = x" using assms by fastforce
  with e d show ?thesis by simp
qed

text \<open>Elements come out in key order when nothing is added.\<close>

lemma deq_deq_mono:
  assumes "deq q = Some (x, q')" and "deq q' = Some (y, q'')"
  shows "key x \<le> key y"
  using assms deq_elems [OF assms(1)] deq_elems [OF assms(2)] deq_least [OF assms(1), of y] by simp

end

interpretation list_heap: priority_queue mset key push "pop_min key" for key :: "'a \<Rightarrow> int"
proof
  show "mset (push x q) = add_mset x (mset q)" for x :: 'a and q by (simp add: push_def)
  show "pop_min key q = None \<longleftrightarrow> mset q = {#}" for q by (simp add: pop_min_None)
  show "pop_min key q = Some (x, q') \<Longrightarrow> mset q = add_mset x (mset q')" for q x q' by (rule pop_min_mset)
  show "pop_min key q = Some (x, q') \<Longrightarrow> y \<in># mset q \<Longrightarrow> key x \<le> key y" for q x q' y
    using pop_min_least [of key q x q' y] by simp
qed

end
