(* ===== verification/Pages.thy ===== *)
theory Pages
  imports Prelude
begin

text \<open>
  Pages of KV slots (\<open>scheduler/cache.py\<close>): a page is named by its first slot, a multiple of the page
  size; \<open>page_to_token\<close> lists the slots of pages, \<open>every ps\<close> is the slice \<open>[::ps]\<close> that goes back
  from slots to pages, and \<open>paged\<close> holds of the lists of whole pages, on which the two are inverse.
\<close>

text \<open>\<open>CacheManager._page_to_token\<close>\<close>

definition page_to_token :: "nat \<Rightarrow> nat list \<Rightarrow> nat list" where
  "page_to_token ps pages =
     (if ps = 1 then pages else concat (map (\<lambda>p. map (\<lambda>i. p + i) [0..<ps]) pages))"

definition every :: "nat \<Rightarrow> 'a list \<Rightarrow> 'a list" where
  "every ps v = map (\<lambda>i. v ! (i * ps)) [0..<div_ceil (length v) ps]"

definition paged :: "nat \<Rightarrow> nat list \<Rightarrow> bool" where
  "paged ps v \<longleftrightarrow> v = page_to_token ps (every ps v) \<and> list_all (\<lambda>b. ps dvd b) (every ps v)"

lemma page_to_token_eq: "page_to_token ps bs = concat (map (\<lambda>p. map (\<lambda>i. p + i) [0..<ps]) bs)"
  by (induction bs) (auto simp: page_to_token_def)

lemma page_to_token_simps [simp]:
  "page_to_token ps [] = []"
  "page_to_token ps (b # bs) = map (\<lambda>i. b + i) [0..<ps] @ page_to_token ps bs"
  "page_to_token ps (bs @ cs) = page_to_token ps bs @ page_to_token ps cs"
  "length (page_to_token ps bs) = length bs * ps"
  by (induction bs) (simp_all add: page_to_token_eq)

lemma page_to_token_take: "take (m * ps) (page_to_token ps bs) = page_to_token ps (take m bs)"
proof (induction bs arbitrary: m)
  case (Cons b bs)
  then show ?case by (cases m) simp_all
qed simp

lemma page_to_token_drop: "drop (m * ps) (page_to_token ps bs) = page_to_token ps (drop m bs)"
proof (induction bs arbitrary: m)
  case (Cons b bs)
  then show ?case by (cases m) simp_all
qed simp

lemma nth_page_to_token: "0 < ps \<Longrightarrow> i < length bs \<Longrightarrow> page_to_token ps bs ! (i * ps) = bs ! i"
proof (induction bs arbitrary: i)
  case (Cons b bs)
  then show ?case by (cases i) (simp_all add: nth_append)
qed simp

lemma every_page_to_token [simp]: "0 < ps \<Longrightarrow> every ps (page_to_token ps bs) = bs"
  by (rule nth_equalityI)
     (simp_all add: every_def div_ceil_mult [of ps "length bs", unfolded mult.commute [of ps]] nth_page_to_token)

lemma paged_iff: "0 < ps \<Longrightarrow> paged ps v \<longleftrightarrow> (\<exists>bs. v = page_to_token ps bs \<and> (\<forall>b \<in> set bs. ps dvd b))"
  by (auto simp: paged_def list_all_iff)

lemma paged_length: "paged ps v \<Longrightarrow> ps dvd length v"
  unfolding paged_def by (metis dvd_triv_right page_to_token_simps(4))

lemma pagedD: "paged ps v \<Longrightarrow> page_to_token ps (every ps v) = v"
  by (simp add: paged_def)

lemma paged_Nil [simp]: "paged ps []"
  by (cases "ps = 0") (simp_all add: paged_def every_def div_ceil_def)

lemma paged_one [simp]: "paged (Suc 0) v"
  by (subst paged_iff) (auto simp: page_to_token_def)

lemma paged_pages: "0 < ps \<Longrightarrow> \<forall>b \<in> set bs. ps dvd b \<Longrightarrow> paged ps (page_to_token ps bs)"
  by (auto simp: paged_iff)

lemma paged_append: "0 < ps \<Longrightarrow> paged ps v \<Longrightarrow> paged ps w \<Longrightarrow> paged ps (v @ w)"
proof -
  assume ps: "0 < ps" and "paged ps v" "paged ps w"
  then obtain b c where "v = page_to_token ps b" "\<forall>x \<in> set b. ps dvd x" "w = page_to_token ps c" "\<forall>x \<in> set c. ps dvd x"
    by (auto simp: paged_iff)
  then have "v @ w = page_to_token ps (b @ c) \<and> (\<forall>x \<in> set (b @ c). ps dvd x)" by auto
  then show ?thesis using ps paged_iff by blast
qed

lemma paged_cut:
  assumes "0 < ps" and "paged ps v" and "ps dvd m"
  shows "paged ps (take m v)" and "paged ps (drop m v)"
proof -
  obtain b where b: "v = page_to_token ps b" "\<forall>x \<in> set b. ps dvd x" using assms by (auto simp: paged_iff)
  obtain k where k: "m = k * ps" using assms(3) by (metis dvd_def mult.commute)
  have "take m v = page_to_token ps (take k b)" "drop m v = page_to_token ps (drop k b)"
    unfolding k b(1) by (rule page_to_token_take page_to_token_drop)+
  then show "paged ps (take m v)" "paged ps (drop m v)"
    using b(2) assms(1) by (auto simp: paged_iff dest: in_set_takeD in_set_dropD)
qed

lemma every_append: "0 < ps \<Longrightarrow> paged ps v \<Longrightarrow> paged ps w \<Longrightarrow> every ps (v @ w) = every ps v @ every ps w"
proof -
  assume ps: "0 < ps" and v: "paged ps v" and w: "paged ps w"
  have "v @ w = page_to_token ps (every ps v @ every ps w)" using pagedD [OF v] pagedD [OF w] by simp
  then show ?thesis using every_page_to_token [OF ps] by metis
qed

lemma every_length: "0 < ps \<Longrightarrow> paged ps v \<Longrightarrow> length v = length (every ps v) * ps"
  by (metis pagedD page_to_token_simps(4))

text \<open>The slice of a list that ends inside a page still names that page.\<close>

lemma every_take_ceil:
  assumes "0 < ps" and "n \<le> length v"
  shows "every ps (take n v) = take (div_ceil n ps) (every ps v)"
proof -
  have lt: "i * ps < n" if "i < div_ceil n ps" for i
  proof (rule ccontr)
    assume "\<not> i * ps < n"
    then have "div_ceil n ps * ps < i * ps + ps" using div_ceil_lt [OF assms(1), of n] by linarith
    then have "div_ceil n ps < Suc i" using assms(1) by (metis add.commute mult_Suc mult_less_cancel2)
    then show False using that by simp
  qed
  have "div_ceil n ps \<le> div_ceil (length v) ps" by (rule div_ceil_mono [OF assms(2)])
  then show ?thesis using assms(2) lt
    by (auto simp: every_def min_def take_map intro!: nth_equalityI)
qed

end
