(* ===== verification/Radix_Lock.thy ===== *)
theory Radix_Lock
  imports Radix_Remove Heap_Queue Pages
begin

text \<open>
  Pieces the three caches share on top of the tree: the deletion \<open>del parent.children[...]\<close> with
  its errors, updates along the walk to the root, the slots a tree holds, and the counts of tokens
  in unlocked and in locked nodes.
\<close>

section \<open>Deletion of a node\<close>

text \<open>\<open>parent = node.parent; del parent.children[key_fn(node._key)]\<close>: a node without parent
  fails the assertion of the property \<open>parent\<close>, a missing key raises \<open>KeyError\<close>.\<close>

definition has_kid :: "nat \<Rightarrow> token list \<Rightarrow> rtree \<Rightarrow> bool" where
  "has_kid p k t = (case subtree p t of None \<Rightarrow> False | Some q \<Rightarrow> k \<in> fst ` set (rkids q))"

definition remove_node :: "nat \<Rightarrow> nat \<Rightarrow> rtree \<Rightarrow> (nat \<times> rtree) result" where
  "remove_node ps u t =
     (case chain u t of
        d # p # _ \<Rightarrow>
          if has_kid (uuid p) (key_fn ps (nkey d)) t then Inr (uuid p, unlink ps u t) else Inl KeyError
      | _ \<Rightarrow> Inl AssertionError)"

definition node_at :: "nat \<Rightarrow> rtree \<Rightarrow> ndata option" where
  "node_at u t = map_option rdata (subtree u t)"

definition leaf_here :: "nat \<Rightarrow> rtree \<Rightarrow> bool" where
  "leaf_here u t = (case subtree u t of None \<Rightarrow> False | Some s \<Rightarrow> is_leaf s)"

lemma tsize_sum: "tsize (RNode d cs) = Suc (sum_list (map (\<lambda>kc. tsize (snd kc)) cs))"
  by simp

lemma tsize_map_nodes [simp]: "tsize (map_nodes f t) = tsize t"
proof (induction t)
  case (RNode d cs)
  then have "map (\<lambda>kc. tsize (map_nodes f (snd kc))) cs = map (\<lambda>kc. tsize (snd kc)) cs"
    by (auto intro!: map_cong simp: snds.simps)
  then show ?case by (simp add: comp_def del: map_eq_conv)
qed

lemma tsize_pos: "0 < tsize t"
  by (cases t) simp

lemma modify_tsize_le:
  assumes "\<And>q. tsize (F q) \<le> tsize q"
  shows "tsize (modify u F t) \<le> tsize t"
proof (induction t)
  case (RNode d cs)
  have "(\<Sum>kc\<leftarrow>cs. tsize (modify u F (snd kc))) \<le> (\<Sum>kc\<leftarrow>cs. tsize (snd kc))"
    by (rule sum_list_mono) (use RNode in \<open>metis prod.collapse snds.intros\<close>)
  then show ?case using assms [of "RNode d cs"] by (simp add: modify.simps comp_def)
qed

lemma modify_tsize_less:
  assumes le: "\<And>q. tsize (F q) \<le> tsize q"
  shows "subtree u t = Some s \<Longrightarrow> tsize (F s) < tsize s \<Longrightarrow> tsize (modify u F t) < tsize t"
    and "subtrees u cs = Some s \<Longrightarrow> tsize (F s) < tsize s \<Longrightarrow>
      (\<Sum>kc\<leftarrow>cs. tsize (modify u F (snd kc))) < (\<Sum>kc\<leftarrow>cs. tsize (snd kc))"
proof (induction u t and u cs rule: subtree_subtrees.induct)
  case (1 u d cs)
  then show ?case by (auto simp: modify.simps comp_def split: if_splits)
next
  case (3 u k c cs)
  have rest: "(\<Sum>kc\<leftarrow>cs. tsize (modify u F (snd kc))) \<le> (\<Sum>kc\<leftarrow>cs. tsize (snd kc))"
    by (rule sum_list_mono) (rule modify_tsize_le [OF le])
  show ?case
  proof (cases "subtree u c")
    case None
    then show ?thesis using 3 modify_tsize_le [OF le, of u c] by fastforce
  next
    case (Some s')
    then show ?thesis using 3 rest by simp
  qed
qed simp

lemma tsize_delete_le: "tsize (RNode d (AList.delete k cs)) \<le> tsize (RNode d cs)"
  by (induction cs) (auto simp: AList.delete_eq)

lemma tsize_delete_less: "k \<in> fst ` set cs \<Longrightarrow> tsize (RNode d (AList.delete k cs)) < tsize (RNode d cs)"
proof (induction cs)
  case (Cons kc cs)
  show ?case
  proof (cases "fst kc = k")
    case True
    then show ?thesis using tsize_delete_le [of d k cs] tsize_pos [of "snd kc"]
      by (cases kc) (simp add: AList.delete_eq)
  next
    case False
    with Cons show ?thesis by (auto simp: AList.delete_eq)
  qed
qed simp

text \<open>Every removal makes the tree smaller, so the eviction loops end.\<close>

lemma remove_node_tsize: "remove_node ps u t = Inr (p, t') \<Longrightarrow> tsize t' < tsize t"
proof -
  assume "remove_node ps u t = Inr (p, t')"
  then obtain d q r s where c: "chain u t = d # q # r" and s: "subtree (uuid q) t = Some s"
      and k: "key_fn ps (nkey d) \<in> fst ` set (rkids s)" and t': "t' = unlink ps u t"
    by (auto simp: remove_node_def has_kid_def split: list.splits option.splits if_splits)
  let ?F = "\<lambda>q. RNode (rdata q) (AList.delete (key_fn ps (nkey d)) (rkids q))"
  have "tsize (?F q) \<le> tsize q" for q
    using tsize_delete_le [of "rdata q" _ "rkids q"] by (cases q) simp
  moreover have "tsize (?F s) < tsize s"
    using tsize_delete_less [OF k, of "rdata s"] by (cases s) simp
  ultimately have "tsize (modify (uuid q) ?F t) < tsize t" by (intro modify_tsize_less(1) [OF _ s])
  then show ?thesis using c t' by (simp add: unlink_def)
qed

lemma remove_leaf:
  assumes a: "leaf_at ps v t d p pre post"
  shows "remove_node ps v t = Inr (uuid p, unlink ps v t)"
proof -
  have "subtree (uuid p) t = Some (RNode p (pre @ (key_fn ps (nkey d), RNode d []) # post))"
    by (rule focus_subtree [OF leaf_atD(4,1) [OF a]])
  moreover obtain r where "chain v t = d # p # r" using a by (auto simp: leaf_at_def)
  ultimately show ?thesis by (simp add: remove_node_def has_kid_def)
qed

lemma unlink_subtree:
  assumes a: "leaf_at ps v t d p pre post"
  shows "subtree (uuid p) (unlink ps v t) = Some (RNode p (pre @ post))"
proof -
  let ?F = "\<lambda>q. RNode (rdata q) (AList.delete (key_fn ps (nkey d)) (rkids q))"
  have "focus u t s \<Longrightarrow> rdata (F s) = rdata s \<Longrightarrow> uniq (modify u F t) \<Longrightarrow> subtree u (modify u F t) = Some (F s)"
    for u t s F
  proof (induction rule: focus.induct)
    case (here s)
    then show ?case by (cases "F s") auto
  next
    case (below c s d pre post k)
    have m: "modify u F (RNode d (pre @ (k, c) # post)) = RNode d (pre @ (k, modify u F c) # post)"
      by (rule modify_below [OF below.hyps(2,3)])
    have uq: "uniq (RNode d (pre @ (k, modify u F c) # post))" using below.prems(2) m by simp
    have IH: "subtree u (modify u F c) = Some (F s)" by (rule below.IH [OF below.prems(1) uniq_kids(1) [OF uq]])
    then have "u \<in> set (uuids (modify u F c))" using subtree_absent by fastforce
    then show ?case using IH subtree_below [OF uq] m by simp
  qed
  from this [OF leaf_atD(4) [OF a], of ?F] show ?thesis
    using leaf_atD(5,6) [OF a] unlink_uniq [OF a] by simp
qed

section \<open>Updates along the way to the root\<close>

lemma upd_node_uuids [simp]: "(\<And>d. uuid (f d) = uuid d) \<Longrightarrow> uuids (upd_node u f t) = uuids t"
  by (simp add: upd_node_def uuids_map_nodes)

lemma map_nodes_map_nodes: "map_nodes f (map_nodes g t) = map_nodes (\<lambda>d. f (g d)) t"
  by (induction t) (auto simp: comp_def)

lemma fold_upd:
  assumes "distinct (map uuid ds)" and g: "\<And>d. uuid (g d) = uuid d"
  shows "fold (\<lambda>d. upd_node (uuid d) g) ds t = map_nodes (\<lambda>d. if uuid d \<in> uuid ` set ds then g d else d) t"
  using assms(1)
proof (induction ds arbitrary: t)
  case Nil
  show ?case by (simp add: map_nodes_idle)
next
  case (Cons d ds)
  show ?case using Cons
    by (auto simp: upd_node_def map_nodes_map_nodes g intro!: map_nodes_cong)
qed

lemma fold_upd_path:
  assumes "uniq t" and "\<And>d. uuid (g d) = uuid d"
  shows "fold (\<lambda>d. upd_node (uuid d) g) (up_path u t) t = path_map g u t"
  using fold_upd [OF up_path_distinct [OF assms(1)] assms(2), of u t]
  by (simp add: path_map_def on_path_def)

lemma path_map_shape: "keeps_shape g \<Longrightarrow> keeps_shape (\<lambda>d. if uuid d \<in> on_path u t then g d else d)"
  by (simp add: keeps_shape_def)

lemma shape_on_path: "keeps_shape f \<Longrightarrow> on_path u (map_nodes f t) = on_path u t"
  by (simp add: on_path_def shape_up_path image_image keeps_shapeD)

lemma path_map_keeps:
  assumes g: "keeps_shape g"
  shows "uuids (path_map g u t) = uuids t" "uniq (path_map g u t) = uniq t"
    "wf_below ps (path_map g u t) = wf_below ps t" "mtch ps (path_map g u t) x = mtch ps t x"
    "path_vals h (path_map g u t) = path_vals h t" "path_key h (path_map g u t) = path_key h t"
    "uniq t \<Longrightarrow> rdata (path_map g u t) = rdata t"
  using path_map_shape [OF g, of u t] root_off_path [of t u]
  by (simp_all add: path_map_def shape_uuids shape_uniq shape_wf shape_mtch shape_path_vals shape_path_key)

section \<open>A property of every node\<close>

text \<open>Properties of nodes that the operations keep: stamping and splitting (at a page boundary)
  keep them, a new node has it.\<close>

definition every_node :: "(ndata \<Rightarrow> bool) \<Rightarrow> rtree \<Rightarrow> bool" where
  "every_node P t \<longleftrightarrow> (\<forall>d \<in> set (inner_nodes t). P d)"

definition inherited :: "nat \<Rightarrow> (ndata \<Rightarrow> bool) \<Rightarrow> bool" where
  "inherited ps P \<longleftrightarrow> (\<forall>d tic. P (d\<lparr>timestamp := tic\<rparr>) = P d) \<and>
     (\<forall>d fresh now m. P d \<longrightarrow> wf_data ps d \<longrightarrow> 0 < m \<longrightarrow> m < node_len d \<longrightarrow> ps dvd m \<longrightarrow>
        P (split_front fresh now m d) \<and> P (split_back m d))"

lemma every_node_kids: "every_node P (RNode d cs) \<longleftrightarrow> (\<forall>kc \<in> set cs. P (rdata (snd kc)) \<and> every_node P (snd kc))"
  by (auto simp: every_node_def all_nodes_eq)

lemma walks_every_node:
  "walks ps tic fresh t ids t' u n fresh' \<Longrightarrow> inherited ps P \<Longrightarrow> every_node P t \<Longrightarrow> every_node P t'"
proof (induction rule: walks.induct)
  case (split ids cs pre e es post m d)
  have "ps dvd m" using split.hyps(4) by simp
  then have "P (split_front fresh tic m e) \<and> P (split_back m e)"
    using split by (simp add: inherited_def every_node_kids)
  then show ?case using split.prems split.hyps(2) by (auto simp: every_node_kids inherited_def)
next
  case (descend ids cs pre c post m c' u n fresh' d)
  have "rdata c' = (rdata c)\<lparr>timestamp := tic\<rparr>" using walks_rdata [OF descend.hyps(8)] by simp
  moreover have "every_node P (touch tic c)" "P (rdata c)"
    using descend.prems(2) descend.hyps(2) by (simp_all add: every_node_kids) (simp add: every_node_def)
  ultimately show ?case using descend.prems descend.hyps(2) descend.IH
    by (simp add: every_node_kids inherited_def)
qed simp

lemma modify_every_node:
  "focus u t s \<Longrightarrow> rdata (F s) = rdata s \<Longrightarrow> every_node P t \<Longrightarrow> (every_node P s \<Longrightarrow> every_node P (F s)) \<Longrightarrow>
   every_node P (modify u F t)"
proof (induction rule: focus.induct)
  case (below c s d pre post k)
  have "rdata (modify u F c) = rdata c" by (rule modify_rdata [where F = F, OF below.hyps(1) below.prems(1)])
  then show ?case unfolding modify_below [OF below.hyps(2,3)] using below by (simp add: every_node_kids)
qed simp

lemma add_child_every_node:
  assumes a: "attachable ps u n t s" and "every_node P t" and "P n"
  shows "every_node P (add_child ps u n t)"
  unfolding add_child_def
proof (rule modify_every_node [OF attachableD(4) [OF a] _ assms(2)])
  assume "every_node P s"
  then show "every_node P (plus_kid ps n s)" unfolding attachableD(10) [OF a]
    using assms(3) by (cases s) (auto simp: every_node_kids every_node_def)
qed simp

lemma unlink_every_node:
  assumes a: "leaf_at ps v t d p pre post" and "every_node P t"
  shows "every_node P (unlink ps v t)"
  unfolding leaf_atD(5) [OF a]
  by (rule modify_every_node [OF leaf_atD(4) [OF a] _ assms(2)])
     (use leaf_atD(6) [OF a] in \<open>simp_all add: every_node_kids\<close>)

lemma map_every_node:
  "(\<And>d. P (f d) = P d) \<Longrightarrow> every_node P (map_nodes f t) = every_node P t"
  by (auto simp: every_node_def inner_map_nodes)

lemma inherited_paged: "0 < ps \<Longrightarrow> inherited ps (\<lambda>d. paged ps (nval d))"
  by (auto simp: inherited_def paged_cut split_front_def split_back_def new_node_def)

section \<open>Slots and token counts\<close>

definition tree_slots :: "rtree \<Rightarrow> slot list" where
  "tree_slots t = concat (map nval (inner_nodes t))"

definition occ :: "slot \<Rightarrow> ndata \<Rightarrow> int" where
  "occ x d = int (count (mset (nval d)) x)"

definition free_tokens :: "ndata \<Rightarrow> int" where
  "free_tokens d = (if ref_count d = 0 then int (node_len d) else 0)"

definition held_tokens :: "ndata \<Rightarrow> int" where
  "held_tokens d = (if ref_count d = 0 then 0 else int (node_len d))"

lemma tree_slots_count: "int (count (mset (tree_slots t)) x) = weigh (occ x) t"
proof -
  have "int (count (mset (concat (map nval ds))) x) = (\<Sum>d\<leftarrow>ds. occ x d)" for ds
    by (induction ds) (auto simp: occ_def)
  then show ?thesis by (simp add: tree_slots_def weigh_def)
qed

lemma tree_slots_eqI:
  "(\<And>x. weigh (occ x) t = weigh (occ x) t' + int (count (mset xs) x)) \<Longrightarrow>
   mset (tree_slots t) = mset (tree_slots t') + mset xs"
  by (rule multiset_eqI) (metis count_union of_nat_add of_nat_eq_iff tree_slots_count)

lemma split_fields [simp]:
  "ref_count (split_front fresh now m d) = ref_count d" "ref_count (split_back m d) = ref_count d"
  "nkey (split_front fresh now m d) = take m (nkey d)" "nkey (split_back m d) = drop m (nkey d)"
  "nval (split_front fresh now m d) = take m (nval d)" "nval (split_back m d) = drop m (nval d)"
  by (simp_all add: split_front_def split_back_def new_node_def)

lemma additive_occ: "additive (occ x)"
proof -
  have "count (mset (take m v)) x + count (mset (drop m v)) x = count (mset v) x" for m v
    by (metis append_take_drop_id count_union mset_append)
  then show ?thesis by (simp add: additive_def occ_def flip: of_nat_add)
qed

lemma additive_tokens: "additive free_tokens" "additive held_tokens"
  by (auto simp: additive_def free_tokens_def held_tokens_def)

lemma weigh_nonneg: "(\<And>d. d \<in> set (inner_nodes t) \<Longrightarrow> 0 \<le> f d) \<Longrightarrow> 0 \<le> weigh f t"
  unfolding weigh_def by (rule sum_list_nonneg) auto

lemma weigh_add: "weigh f t + weigh g t = weigh (\<lambda>d. f d + g d) t"
  by (simp add: weigh_def sum_list_addf)

lemma weigh_cong: "(\<And>d. d \<in> set (inner_nodes t) \<Longrightarrow> f d = g d) \<Longrightarrow> weigh f t = weigh g t"
  unfolding weigh_def by (rule arg_cong [where f = sum_list]) simp

text \<open>The tokens of a tree, locked or not, are as many as its slots.\<close>

lemma wf_inner: "wf_below ps t \<Longrightarrow> d \<in> set (inner_nodes t) \<Longrightarrow> wf_data ps d"
proof (induction t)
  case (RNode e cs)
  then obtain k c where kc: "(k, c) \<in> set cs" "d \<in> set (all_nodes c)" by auto
  then show ?case using RNode.IH [OF kc(1), of c] RNode.prems(1)
    by (auto simp: all_nodes_eq wf_kid_def)
qed

lemma tokens_slots:
  assumes "wf_below ps t"
  shows "weigh free_tokens t + weigh held_tokens t = int (length (tree_slots t))"
proof -
  have len: "(\<Sum>d\<leftarrow>ds. int (length (nval d))) = int (length (concat (map nval ds)))" for ds
    by (induction ds) simp_all
  have "weigh (\<lambda>d. free_tokens d + held_tokens d) t = (\<Sum>d\<leftarrow>inner_nodes t. int (length (nval d)))"
    unfolding weigh_def
    by (rule arg_cong [where f = sum_list], rule map_cong [OF refl])
       (use wf_inner [OF assms] in \<open>auto simp: free_tokens_def held_tokens_def wf_data_def\<close>)
  also have "\<dots> = int (length (tree_slots t))"
    unfolding tree_slots_def by (rule len)
  finally show ?thesis by (simp add: weigh_add)
qed

end
