(* ===== verification/Radix_Cache.thy ===== *)
theory Radix_Cache
  imports Radix_Lock
begin

text \<open>
  \<open>RadixPrefixCache\<close> (\<open>kvcache/radix_cache.py\<close>): the prefix cache of uniform KV pools. The state
  is \<open>rcache\<close>, one definition per method, and \<open>rc_ok L\<close> is its invariant for a multiset \<open>L\<close> of
  nodes that handles have locked. \<open>rc_content\<close> is what the cache promises: for every token
  sequence the slots of its longest cached prefix.
\<close>

section \<open>State and operations\<close>

record rcache =
  page_size :: nat
  root_node :: rtree
  evictable_size :: int
  protected_size :: int
  node_counter :: nat

record rhandle =
  cached_len :: nat
  hnode :: nat

definition new_rcache :: "nat \<Rightarrow> nat \<Rightarrow> int \<Rightarrow> rcache" where
  "new_rcache ps counter now =
     \<lparr>page_size = ps, root_node = RNode ((new_node counter 0 now [] [])\<lparr>ref_count := 1\<rparr>) [],
      evictable_size = 0, protected_size = 0, node_counter = Suc counter\<rparr>"

text \<open>\<open>RadixCacheHandle.get_matched_indices\<close>; \<open>torch.cat\<close> of an empty list raises.\<close>

definition get_matched_indices :: "rhandle \<Rightarrow> rcache \<Rightarrow> slot list result" where
  "get_matched_indices h s =
     (let value_list = rev (map nval (up_path (hnode h) (root_node s))) in
      if value_list = [] then Inl RuntimeError else Inr (concat value_list))"

text \<open>\<open>lock_handle\<close>: the two loops over the nodes from the handle's node to the root.\<close>

definition bump :: "int \<Rightarrow> ndata \<Rightarrow> ndata" where
  "bump \<delta> d = d\<lparr>ref_count := ref_count d + \<delta>\<rparr>"

fun lock_loop :: "ndata list \<Rightarrow> rcache \<Rightarrow> rcache" where
  "lock_loop [] s = s"
| "lock_loop (d # ds) s =
     (let s1 = (if ref_count d = 0
                then s\<lparr>evictable_size := evictable_size s - int (node_len d),
                       protected_size := protected_size s + int (node_len d)\<rparr> else s)
      in lock_loop ds (s1\<lparr>root_node := upd_node (uuid d) (bump 1) (root_node s1)\<rparr>))"

fun unlock_loop :: "ndata list \<Rightarrow> rcache \<Rightarrow> rcache result" where
  "unlock_loop [] s = Inr s"
| "unlock_loop (d # ds) s =
     (let s1 = s\<lparr>root_node := upd_node (uuid d) (bump (- 1)) (root_node s)\<rparr>; rc = ref_count d - 1 in
      py_assert (0 \<le> rc)
        (unlock_loop ds (if rc = 0
           then s1\<lparr>evictable_size := evictable_size s1 + int (node_len d),
                   protected_size := protected_size s1 - int (node_len d)\<rparr> else s1)))"

definition lock_handle :: "rhandle \<Rightarrow> bool \<Rightarrow> rcache \<Rightarrow> rcache result" where
  "lock_handle h unlock s =
     (let path = up_path (hnode h) (root_node s) in
      if unlock then unlock_loop path s else Inr (lock_loop path s))"

text \<open>\<open>_tree_walk\<close> on the cache; \<open>tic\<close> is the clock reading it stamps nodes with.\<close>

definition tree_walk :: "int \<Rightarrow> token list \<Rightarrow> rcache \<Rightarrow> (nat \<times> nat \<times> rcache) result" where
  "tree_walk tic ids s =
     rbind (walk (page_size s) tic (node_counter s) (root_node s) ids)
       (\<lambda>(t, u, n, c). Inr (u, n, s\<lparr>root_node := t, node_counter := c\<rparr>))"

definition match_prefix :: "int \<Rightarrow> token list \<Rightarrow> rcache \<Rightarrow> (rhandle \<times> rcache) result" where
  "match_prefix tic ids s =
     rbind (tree_walk tic ids s) (\<lambda>(u, n, s'). Inr (\<lparr>cached_len = n, hnode = u\<rparr>, s'))"

text \<open>\<open>insert_prefix\<close> returns the length found in the cache and the handle of the whole prefix.
  \<open>now\<close> is the clock reading of the new node.\<close>

definition insert_prefix ::
    "int \<Rightarrow> int \<Rightarrow> token list \<Rightarrow> slot list \<Rightarrow> rcache \<Rightarrow> (nat \<times> rhandle \<times> rcache) result" where
  "insert_prefix tic now input_ids indices s =
     (let insert_len = align_down (length input_ids) (page_size s);
          ids = take insert_len input_ids; vals = take insert_len indices in
      rbind (tree_walk tic ids s) (\<lambda>(u, prefix_len, s1).
        if prefix_len \<noteq> insert_len then
          let n = new_node (node_counter s1) 0 now (drop prefix_len ids) (drop prefix_len vals) in
          py_assert (length (nkey n) = length (nval n))
            (Inr (prefix_len, \<lparr>cached_len = insert_len, hnode = uuid n\<rparr>,
               s1\<lparr>root_node := add_child (page_size s1) u n (root_node s1),
                  evictable_size := evictable_size s1 + int (node_len n),
                  node_counter := Suc (node_counter s1)\<rparr>))
        else Inr (prefix_len, \<lparr>cached_len = insert_len, hnode = u\<rparr>, s1)))"

definition collect_leave_nodes_for_evict :: "rcache \<Rightarrow> ndata list" where
  "collect_leave_nodes_for_evict s = filter (\<lambda>d. ref_count d = 0) (leaf_nodes (root_node s))"

text \<open>The loop of \<open>evict\<close>: pop the least recently used leaf, drop it, and offer its parent when
  that became an unlocked leaf.\<close>

definition offer_parent :: "nat \<Rightarrow> rtree \<Rightarrow> ndata list \<Rightarrow> ndata list" where
  "offer_parent p t heap =
     (case subtree p t of
        Some q \<Rightarrow> if is_leaf q \<and> ref_count (rdata q) = 0 then push (rdata q) heap else heap
      | None \<Rightarrow> heap)"

function evict_loop :: "nat \<Rightarrow> ndata list \<Rightarrow> nat \<Rightarrow> slot list \<Rightarrow> rcache \<Rightarrow> (slot list \<times> rcache) result" where
  "evict_loop need leave_nodes evicted_size evicted_indices s =
     (if need \<le> evicted_size then Inr (evicted_indices, s)
      else case pop_min timestamp leave_nodes of
        None \<Rightarrow> Inl AssertionError
      | Some (node, heap) \<Rightarrow>
          py_assert (ref_count node = 0 \<and> leaf_here (uuid node) (root_node s) \<and>
                     uuid node \<noteq> uuid (rdata (root_node s)))
            (case remove_node (page_size s) (uuid node) (root_node s) of
               Inl e \<Rightarrow> Inl e
             | Inr (p, t) \<Rightarrow>
                 evict_loop need (offer_parent p t heap) (evicted_size + node_len node)
                   (evicted_indices @ nval node)
                   (s\<lparr>root_node := t, evictable_size := evictable_size s - int (node_len node)\<rparr>)))"
  by pat_completeness auto
termination
  by (relation "measure (\<lambda>(_, _, _, _, s). tsize (root_node s))") (auto dest: remove_node_tsize)

declare evict_loop.simps [simp del]

definition evict :: "nat \<Rightarrow> rcache \<Rightarrow> (slot list \<times> rcache) result" where
  "evict need s =
     (if need = 0 then Inr ([], s)
      else py_assert (int need \<le> evictable_size s)
        (evict_loop need (collect_leave_nodes_for_evict s) 0 [] s))"

definition size_info :: "rcache \<Rightarrow> int \<times> int" where
  "size_info s = (evictable_size s, protected_size s)"

definition total_size :: "int \<times> int \<Rightarrow> int" where
  "total_size i = fst i + snd i"

section \<open>Invariant and contract\<close>

definition rc_content :: "rcache \<Rightarrow> token list \<Rightarrow> slot list" where
  "rc_content s ids = mtch (page_size s) (root_node s) ids"

definition rc_slots :: "rcache \<Rightarrow> slot multiset" where
  "rc_slots s = mset (tree_slots (root_node s))"

definition rc_path :: "nat \<Rightarrow> rcache \<Rightarrow> slot list" where
  "rc_path h s = path_vals h (root_node s)"

definition rc_key :: "nat \<Rightarrow> rcache \<Rightarrow> token list" where
  "rc_key h s = path_key h (root_node s)"

definition rc_paged :: "rcache \<Rightarrow> bool" where
  "rc_paged s \<longleftrightarrow> every_node (\<lambda>d. paged (page_size s) (nval d)) (root_node s)"

definition rc_nodes :: "rcache \<Rightarrow> nat set" where
  "rc_nodes s = set (uuids (root_node s))"

definition rc_root :: "rcache \<Rightarrow> nat" where
  "rc_root s = uuid (rdata (root_node s))"

definition rc_ok :: "nat multiset \<Rightarrow> rcache \<Rightarrow> bool" where
  "rc_ok L s \<longleftrightarrow>
     0 < page_size s \<and> uniq (root_node s) \<and> wf_below (page_size s) (root_node s) \<and>
     (\<forall>u \<in> rc_nodes s. u < node_counter s) \<and> set_mset L \<subseteq> rc_nodes s \<and>
     refs_below L (root_node s) \<and> ref_count (rdata (root_node s)) = 1 \<and>
     evictable_size s = weigh free_tokens (root_node s) \<and>
     protected_size s = weigh held_tokens (root_node s)"

lemma rc_okD:
  assumes "rc_ok L s"
  shows "0 < page_size s" "uniq (root_node s)" "wf_below (page_size s) (root_node s)"
    "\<And>u. u \<in> set (uuids (root_node s)) \<Longrightarrow> u < node_counter s" "set_mset L \<subseteq> set (uuids (root_node s))"
    "refs_below L (root_node s)" "ref_count (rdata (root_node s)) = 1"
    "evictable_size s = weigh free_tokens (root_node s)"
    "protected_size s = weigh held_tokens (root_node s)"
    "node_counter s \<notin> set (uuids (root_node s))" "node_counter s \<notin># L"
  using assms by (auto simp: rc_ok_def rc_nodes_def)

lemma rc_sizes:
  assumes "rc_ok L s"
  shows "0 \<le> evictable_size s" "0 \<le> protected_size s"
    "total_size (size_info s) = int (size (rc_slots s))"
proof -
  show "0 \<le> evictable_size s" "0 \<le> protected_size s"
    unfolding rc_okD(8,9) [OF assms] by (auto intro!: weigh_nonneg simp: free_tokens_def held_tokens_def)
  show "total_size (size_info s) = int (size (rc_slots s))"
    using rc_okD(8,9) [OF assms] tokens_slots [OF rc_okD(3) [OF assms]]
    by (simp add: total_size_def size_info_def rc_slots_def)
qed

section \<open>The descent\<close>

lemma tree_walk_ok:
  assumes "rc_ok L s"
  obtains t u n c where "walks (page_size s) tic (node_counter s) (root_node s) ids t u n c"
    "tree_walk tic ids s = Inr (u, n, s\<lparr>root_node := t, node_counter := c\<rparr>)"
  using walk_ok [OF rc_okD(3,1) [OF assms], of tic "node_counter s" ids]
  by (auto simp: tree_walk_def)

lemma walks_rc_ok:
  assumes ok: "rc_ok L s"
    and w: "walks (page_size s) tic (node_counter s) (root_node s) ids t u n c"
  shows "rc_ok L (s\<lparr>root_node := t, node_counter := c\<rparr>)"
proof -
  note D = rc_okD [OF ok]
  have "v < c" if "v \<in> set (uuids t)" for v
    using that walks_uuids_set [OF w] walks_fresh [OF w] D(4) [of v] by (auto split: if_splits)
  then show ?thesis
    using D walks_uniq [OF w] walks_wf [OF w] walks_refs [OF w] walks_uuids_set [OF w] walks_rdata [OF w]
      walks_weigh [OF w] additive_tokens
    by (auto simp: rc_ok_def rc_nodes_def)
qed

text \<open>What a descent leaves as it was.\<close>

definition rc_same :: "rcache \<Rightarrow> rcache \<Rightarrow> bool" where
  "rc_same s s' \<longleftrightarrow> rc_root s' = rc_root s \<and> page_size s' = page_size s \<and> rc_content s' = rc_content s \<and>
     rc_slots s' = rc_slots s \<and> size_info s' = size_info s \<and> rc_nodes s \<subseteq> rc_nodes s' \<and> (rc_paged s \<longrightarrow> rc_paged s') \<and>
     (\<forall>h \<in> rc_nodes s. rc_path h s' = rc_path h s \<and> rc_key h s' = rc_key h s)"

lemma walks_same:
  assumes ok: "rc_ok L s"
    and w: "walks (page_size s) tic (node_counter s) (root_node s) ids t u n c"
  shows "rc_same s (s\<lparr>root_node := t, node_counter := c\<rparr>)"
proof -
  note D = rc_okD [OF ok]
  have "mset (tree_slots t) = mset (tree_slots (root_node s))"
    using tree_slots_eqI [of t "root_node s" "[]"] walks_weigh [OF w additive_occ] by simp
  then show ?thesis
    using walks_mtch [OF w D(1,3)] walks_path [OF w cuts_fields(1) D(2,10)] walks_path [OF w cuts_fields(2) D(2,10)]
      walks_uuids_set [OF w] walks_every_node [OF w inherited_paged [OF D(1)]] walks_rdata [OF w]
    by (auto simp: rc_root_def rc_key_def rc_paged_def rc_same_def rc_content_def rc_slots_def rc_nodes_def rc_path_def size_info_def)
qed

lemma walks_found:
  assumes ok: "rc_ok L s"
    and w: "walks (page_size s) tic (node_counter s) (root_node s) ids t u n c"
  shows "path_vals u t = rc_content s ids" "path_key u t = take n ids"
    "n = length (rc_content s ids)" "u \<in> set (uuids t)"
  using walks_result [OF w] rc_okD [OF ok] walks_node [OF w] by (auto simp: rc_content_def)

section \<open>Locking\<close>

lemma keeps_bump: "keeps_shape (bump \<delta>)"
  by (simp add: keeps_shape_def bump_def)

lemma bump_simps [simp]: "uuid (bump \<delta> d) = uuid d" "ref_count (bump \<delta> d) = ref_count d + \<delta>"
  "nkey (bump \<delta> d) = nkey d" "nval (bump \<delta> d) = nval d"
  by (simp_all add: bump_def)

lemma lock_loop_root:
  "root_node (lock_loop ds s) = fold (\<lambda>d. upd_node (uuid d) (bump 1)) ds (root_node s)"
  "page_size (lock_loop ds s) = page_size s" "node_counter (lock_loop ds s) = node_counter s"
  by (induction ds arbitrary: s) (simp_all add: Let_def)

lemma lock_loop_sizes:
  "evictable_size (lock_loop ds s) = evictable_size s - (\<Sum>d\<leftarrow>ds. free_tokens d)"
  "protected_size (lock_loop ds s) = protected_size s + (\<Sum>d\<leftarrow>ds. free_tokens d)"
  by (induction ds arbitrary: s) (simp_all add: free_tokens_def Let_def)

lemma unlock_loop_ok:
  "(\<And>d. d \<in> set ds \<Longrightarrow> 0 < ref_count d) \<Longrightarrow>
   \<exists>s'. unlock_loop ds s = Inr s' \<and>
     root_node s' = fold (\<lambda>d. upd_node (uuid d) (bump (- 1))) ds (root_node s) \<and>
     page_size s' = page_size s \<and> node_counter s' = node_counter s \<and>
     evictable_size s' = evictable_size s + (\<Sum>d\<leftarrow>ds. free_tokens (bump (- 1) d)) \<and>
     protected_size s' = protected_size s - (\<Sum>d\<leftarrow>ds. free_tokens (bump (- 1) d))"
proof (induction ds arbitrary: s)
  case (Cons d ds)
  have "0 < ref_count d" using Cons.prems by simp
  then show ?case using Cons.IH [of "if ref_count d - 1 = 0
      then s\<lparr>root_node := upd_node (uuid d) (bump (- 1)) (root_node s),
             evictable_size := evictable_size s + int (node_len d),
             protected_size := protected_size s - int (node_len d)\<rparr>
      else s\<lparr>root_node := upd_node (uuid d) (bump (- 1)) (root_node s)\<rparr>"] Cons.prems
    by (auto simp: py_assert_def free_tokens_def Let_def split: if_splits)
qed simp

text \<open>Every node on the way from a locked node to the root counts that lock.\<close>

lemma path_locked:
  assumes "refs_below L t" and "uniq t" and "u \<in># L" and "d \<in> set (up_path u t)"
  shows "0 < ref_count d"
  using assms
proof (induction t)
  case (RNode e cs)
  have "u \<in> set (uuids (RNode e cs)) \<and> u \<noteq> uuid e"
    using RNode.prems(4) up_path_trivial [of u "RNode e cs"] by (metis list.set(1) empty_iff rtree.sel(1))
  then obtain k c where kc: "(k, c) \<in> set cs" "u \<in> set (uuids c)" by auto
  then obtain pre post where cs: "cs = pre @ (k, c) # post" by (meson split_list)
  have uq: "uniq (RNode e (pre @ (k, c) # post))" using RNode.prems(2) cs by simp
  have "u \<in># filter_mset (\<lambda>h. h \<in> set (uuids c)) L" using kc(2) RNode.prems(3) by simp
  then have "0 < locks_in L c" unfolding locks_in_def by (metis size_eq_0_iff_empty empty_not_add_mset multi_member_split gr0I)
  moreover have "d = rdata c \<or> d \<in> set (up_path u c)"
    using RNode.prems(4) up_path_below [OF uq kc(2)] cs by auto
  ultimately show ?case
    using RNode.IH [OF kc(1), of c] RNode.prems(1,3) kc(1) uniq_kids(1) [OF uq] by auto
qed

text \<open>A change of the reference counts along one path; \<open>\<delta>\<close> is 1 or -1.\<close>

lemma path_bump_rc_ok:
  assumes ok: "rc_ok L s" and L': "set_mset L' \<subseteq> rc_nodes s"
    and cnt: "\<And>h. h \<noteq> u \<Longrightarrow> count L' h = count L h" "int (count L' u) = int (count L u) + \<delta>"
    and t': "t' = path_map (bump \<delta>) u (root_node s)"
    and ev: "ev = evictable_size s + (\<Sum>d\<leftarrow>up_path u (root_node s). free_tokens (bump \<delta> d) - free_tokens d)"
    and pr: "pr = protected_size s + (\<Sum>d\<leftarrow>up_path u (root_node s). held_tokens (bump \<delta> d) - held_tokens d)"
  shows "rc_ok L' (s\<lparr>root_node := t', evictable_size := ev, protected_size := pr\<rparr>)"
    and "total_size (ev, pr) = total_size (size_info s)"
proof -
  note D = rc_okD [OF ok]
  note K = path_map_keeps [OF keeps_bump]
  have "refs_below L' t'" unfolding t'
    by (rule path_map_refs [OF _ keeps_bump cnt D(2,6)]) simp
  then show "rc_ok L' (s\<lparr>root_node := t', evictable_size := ev, protected_size := pr\<rparr>)"
    using D K L' path_map_weigh [OF D(2), of free_tokens "bump \<delta>" u]
      path_map_weigh [OF D(2), of held_tokens "bump \<delta>" u]
    by (simp add: rc_ok_def rc_nodes_def t' ev pr)
  have "free_tokens (bump \<delta> d) - free_tokens d + (held_tokens (bump \<delta> d) - held_tokens d) = 0" for d
    by (simp add: free_tokens_def held_tokens_def)
  then show "total_size (ev, pr) = total_size (size_info s)"
    by (simp add: ev pr total_size_def size_info_def flip: sum_list_addf)
qed

definition rc_locks :: "rcache \<Rightarrow> rcache \<Rightarrow> bool" where
  "rc_locks s s' \<longleftrightarrow> rc_root s' = rc_root s \<and> page_size s' = page_size s \<and> rc_content s' = rc_content s \<and>
     rc_slots s' = rc_slots s \<and> total_size (size_info s') = total_size (size_info s) \<and>
     rc_nodes s' = rc_nodes s \<and> (\<forall>h. rc_path h s' = rc_path h s \<and> rc_key h s' = rc_key h s) \<and> (rc_paged s \<longrightarrow> rc_paged s')"

lemma path_bump_same:
  assumes "uniq (root_node s)" and "root_node s' = path_map (bump \<delta>) u (root_node s)" and "page_size s' = page_size s"
    and "total_size (size_info s') = total_size (size_info s)"
  shows "rc_locks s s'"
proof -
  have "weigh (occ x) (path_map (bump \<delta>) u (root_node s)) = weigh (occ x) (root_node s)" for x
    using path_map_weigh [OF assms(1), of "occ x" "bump \<delta>" u] by (simp add: occ_def)
  then have "mset (tree_slots (root_node s')) = mset (tree_slots (root_node s))"
    using tree_slots_eqI [of "root_node s'" "root_node s" "[]"] assms(2) by simp
  moreover have "rc_paged s \<longrightarrow> rc_paged s'"
    using assms(2,3) by (simp add: rc_paged_def path_map_def map_every_node)
  ultimately show ?thesis using assms path_map_keeps [OF keeps_bump]
    by (auto simp: rc_root_def rc_key_def rc_locks_def rc_content_def rc_slots_def rc_nodes_def rc_path_def)
qed

lemma lock_spec:
  assumes ok: "rc_ok L s" and u: "hnode h \<in> rc_nodes s"
  shows "\<exists>s'. lock_handle h False s = Inr s' \<and> rc_ok (add_mset (hnode h) L) s' \<and> rc_locks s s'"
proof -
  let ?u = "hnode h" and ?p = "up_path (hnode h) (root_node s)" and ?s' = "lock_loop (up_path (hnode h) (root_node s)) s"
  note D = rc_okD [OF ok]
  have root: "root_node ?s' = path_map (bump 1) ?u (root_node s)"
    using lock_loop_root(1) fold_upd_path [OF D(2), of "bump 1" ?u] by simp
  have nonneg: "0 \<le> ref_count d" if "d \<in> set ?p" for d
    using refs_below_nonneg [OF D(6)] on_path_inner [OF D(2)] that by blast
  then have f: "free_tokens (bump 1 d) - free_tokens d = - free_tokens d"
    "held_tokens (bump 1 d) - held_tokens d = free_tokens d" if "d \<in> set ?p" for d
    using that by (force simp: free_tokens_def held_tokens_def)+
  have ev: "evictable_size ?s' = evictable_size s + (\<Sum>d\<leftarrow>?p. free_tokens (bump 1 d) - free_tokens d)"
    and pr: "protected_size ?s' = protected_size s + (\<Sum>d\<leftarrow>?p. held_tokens (bump 1 d) - held_tokens d)"
    unfolding lock_loop_sizes using f
    by (simp_all add: uminus_sum_list_map [unfolded comp_def] cong: map_cong)
  have s': "?s' = s\<lparr>root_node := root_node ?s', evictable_size := evictable_size ?s', protected_size := protected_size ?s'\<rparr>"
    using lock_loop_root(2,3) by simp
  have L': "set_mset (add_mset ?u L) \<subseteq> rc_nodes s" using D(5) u by (simp add: rc_nodes_def)
  have cnt: "int (count (add_mset ?u L) ?u) = int (count L ?u) + 1" by simp
  note B = path_bump_rc_ok [OF ok L' _ cnt root ev pr]
  have ok': "rc_ok (add_mset ?u L) ?s'" using B(1) by (subst s') auto
  have tot: "total_size (size_info ?s') = total_size (size_info s)"
    using B(2) by (simp add: size_info_def)
  show ?thesis using path_bump_same [OF D(2) root lock_loop_root(2) tot] ok' by (simp add: lock_handle_def Let_def)
qed

lemma unlock_spec:
  assumes ok: "rc_ok (add_mset (hnode h) L) s"
  shows "\<exists>s'. lock_handle h True s = Inr s' \<and> rc_ok L s' \<and> rc_locks s s'"
proof -
  let ?u = "hnode h" and ?p = "up_path (hnode h) (root_node s)"
  note D = rc_okD [OF ok]
  have pos: "0 < ref_count d" if "d \<in> set ?p" for d
    by (rule path_locked [OF D(6,2) _ that]) simp
  obtain s' where s': "unlock_loop ?p s = Inr s'" "root_node s' = fold (\<lambda>d. upd_node (uuid d) (bump (- 1))) ?p (root_node s)"
     "page_size s' = page_size s" "node_counter s' = node_counter s"
     "evictable_size s' = evictable_size s + (\<Sum>d\<leftarrow>?p. free_tokens (bump (- 1) d))"
     "protected_size s' = protected_size s - (\<Sum>d\<leftarrow>?p. free_tokens (bump (- 1) d))"
    using unlock_loop_ok [of ?p s] pos by blast
  have root: "root_node s' = path_map (bump (- 1)) ?u (root_node s)"
    using s'(2) fold_upd_path [OF D(2), of "bump (- 1)" ?u] by simp
  have f: "free_tokens (bump (- 1) d) - free_tokens d = free_tokens (bump (- 1) d)"
    "held_tokens (bump (- 1) d) - held_tokens d = - free_tokens (bump (- 1) d)" if "d \<in> set ?p" for d
    using pos [OF that] by (auto simp: free_tokens_def held_tokens_def)
  have ev: "evictable_size s' = evictable_size s + (\<Sum>d\<leftarrow>?p. free_tokens (bump (- 1) d) - free_tokens d)"
    and pr: "protected_size s' = protected_size s + (\<Sum>d\<leftarrow>?p. held_tokens (bump (- 1) d) - held_tokens d)"
    unfolding s'(5,6) using f by (simp_all add: uminus_sum_list_map [unfolded comp_def] cong: map_cong)
  have L': "set_mset L \<subseteq> rc_nodes s" using D(5) by (simp add: rc_nodes_def)
  have cnt: "int (count L ?u) = int (count (add_mset ?u L) ?u) + - 1" by simp
  note B = path_bump_rc_ok [OF ok L' _ cnt root ev pr]
  have "s' = s\<lparr>root_node := root_node s', evictable_size := evictable_size s', protected_size := protected_size s'\<rparr>"
    using s'(3,4) by simp
  then have ok': "rc_ok L s'" using B(1) by (metis count_add_mset)
  have tot: "total_size (size_info s') = total_size (size_info s)"
    using B(2) by (simp add: size_info_def)
  show ?thesis using path_bump_same [OF D(2) root s'(3) tot] ok' s'(1) by (auto simp: lock_handle_def Let_def)
qed

section \<open>Matching and inserting\<close>

lemma match_spec:
  assumes ok: "rc_ok L s"
  shows "\<exists>h s'. match_prefix tic ids s = Inr (h, s') \<and> rc_ok L s' \<and> rc_same s s' \<and>
     hnode h \<in> rc_nodes s' \<and> rc_path (hnode h) s' = rc_content s ids \<and>
     cached_len h = length (rc_content s ids)"
proof -
  obtain t u n c where w: "walks (page_size s) tic (node_counter s) (root_node s) ids t u n c"
    and tw: "tree_walk tic ids s = Inr (u, n, s\<lparr>root_node := t, node_counter := c\<rparr>)"
    using tree_walk_ok [OF ok] by metis
  show ?thesis
    using walks_found [OF ok w] walks_rc_ok [OF ok w] walks_same [OF ok w] tw
    by (simp add: match_prefix_def rc_path_def rc_nodes_def)
qed

text \<open>Matching is compatible with cutting the sequence at a page boundary.\<close>

lemma mtch_take:
  assumes "wf_below ps t" and "0 < ps" and "ps dvd j"
  shows "mtch ps t (take j x) = take j (mtch ps t x)"
  using assms
proof (induction ps t x arbitrary: j rule: mtch.induct)
  case (1 ps d cs ids)
  show ?case
  proof (cases "j = 0 \<or> ids = []")
    case False
    then have "ps \<le> j" using "1.prems" by (auto dest: dvd_imp_le)
    then have key: "key_fn ps (take j ids) = key_fn ps ids" by (simp add: key_fn_def min_def)
    have ne: "take j ids \<noteq> []" "ids \<noteq> []" using False by simp_all
    show ?thesis
    proof (cases "map_of cs (key_fn ps ids)")
      case None
      then show ?thesis using ne by (simp add: mtch_step key)
    next
      case (Some c)
      then have "(key_fn ps ids, c) \<in> set cs" by (rule map_of_SomeD)
      then have wfc: "wf_data ps (rdata c)" "wf_below ps c" using "1.prems"(1) by (auto simp: wf_kid_def)
      let ?m = "align_down (get_match_len c ids) ps"
      have "get_match_len c (take j ids) = min j (get_match_len c ids)"
        using cmp_take_min [of j ids "nkey (rdata c)"] by (simp add: get_match_len_def cmp_commute)
      then have m: "align_down (get_match_len c (take j ids)) ps = min j ?m"
        using align_down_mono [of j "get_match_len c ids" ps] align_down_mono [of "get_match_len c ids" j ps]
          align_down_dvd_id [OF "1.prems"(3)] by (cases "j \<le> get_match_len c ids") (simp_all add: min_def)
      have le: "?m \<le> node_len (rdata c)"
        using align_down_le cmp_le(1) le_trans unfolding get_match_len_def by blast
      have len: "length (nval (rdata c)) = node_len (rdata c)" using wfc by (simp add: wf_data_def)
      have IH: "mtch ps c (take i (drop ?m ids)) = take i (mtch ps c (drop ?m ids))"
        if "?m = node_len (rdata c)" "ps dvd i" for i
        using "1.IH" [OF ne(2) Some refl] that wfc(2) "1.prems"(2) by simp
      have "mtch_in ps c (take j ids) = take j (mtch_in ps c ids)"
      proof (cases "j < ?m")
        case True
        then show ?thesis using m le len by (auto simp: mtch_in_def Let_def)
      next
        case False
        moreover have "ps dvd j - ?m" using "1.prems"(3) by (simp add: dvd_diff_nat)
        moreover have "drop ?m (take j ids) = take (j - ?m) (drop ?m ids)" by (rule drop_take)
        ultimately show ?thesis using m le len IH [of "j - ?m"]
          by (cases "?m = node_len (rdata c)") (simp_all add: mtch_in_def Let_def min_def)
      qed
      then show ?thesis using ne Some by (simp add: mtch_step key)
    qed
  qed auto
qed

lemma extend_cached:
  assumes "wf_below ps t" and "0 < ps" and "length (mtch ps t ids) = length ids"
  shows "extend_match ps (mtch ps t x) ids vals x = mtch ps t x"
proof -
  let ?j = "align_down (fast_compare_key x ids) ps"
  have j: "?j \<le> fast_compare_key x ids" by simp
  have "take ?j (mtch ps t x) = take ?j (mtch ps t ids)"
    using mtch_take [OF assms(1,2), of ?j] cmp_take [OF j] by (metis align_down_dvd)
  moreover have "?j \<le> length ids" using j cmp_le(2) le_trans by blast
  ultimately have "?j \<le> length (mtch ps t x)"
    using assms(3) by (metis length_take min.absorb_iff2 min.commute)
  then show ?thesis by (simp add: extend_match_def Let_def)
qed

text \<open>What an insertion of \<open>ids\<close> with slots \<open>vals\<close> does; \<open>new\<close> are the slots the tree takes over.\<close>

definition rc_inserts :: "token list \<Rightarrow> slot list \<Rightarrow> rcache \<Rightarrow> rcache \<Rightarrow> bool" where
  "rc_inserts ids new s s' \<longleftrightarrow> rc_root s' = rc_root s \<and> page_size s' = page_size s \<and>
     (\<forall>x. rc_content s' x = extend_match (page_size s) (rc_content s x) ids (rc_content s ids @ new) x) \<and>
     rc_slots s' = rc_slots s + mset new \<and>
     size_info s' = (evictable_size s + int (length new), protected_size s) \<and>
     rc_nodes s \<subseteq> rc_nodes s' \<and>
     (rc_paged s \<longrightarrow> paged (page_size s) new \<longrightarrow> rc_paged s') \<and> (\<forall>h \<in> rc_nodes s. rc_path h s' = rc_path h s \<and> rc_key h s' = rc_key h s)"

lemma walks_dvd: "walks ps tic fresh t ids t' u n fresh' \<Longrightarrow> ps dvd n"
  by (induction rule: walks.induct) auto

lemma attach_after_walk:
  assumes ok: "rc_ok L s" and w: "walks (page_size s) tic (node_counter s) (root_node s) ids t u n c"
    and dvd: "page_size s dvd length ids" and n: "n < length ids" and d: "nkey d = drop n ids"
    "length (nval d) = length (nkey d)" "uuid d = c"
  obtains q where "attachable (page_size s) u d t q"
proof -
  note D = rc_okD [OF ok] and D' = rc_okD [OF walks_rc_ok [OF ok w]]
  have nk: "no_kid u (key_fn (page_size s) (drop n ids)) t"
    using walks_no_kid [OF w D(1,3,2,10) _ dvd] n by simp
  obtain q where f: "focus u t q" using focus_ex [of t u] D'(2) walks_node [OF w] by auto
  then have q: "key_fn (page_size s) (drop n ids) \<notin> fst ` set (rkids q)"
    using nk focus_subtree [OF f] D'(2) by (simp add: no_kid_def)
  have "page_size s dvd n" by (rule walks_dvd [OF w])
  then have "wf_data (page_size s) d" using d n dvd by (simp add: wf_data_def dvd_diff_nat)
  then have "attachable (page_size s) u d t q"
    using D(1) D'(2,3,10) f q d by (simp add: attachable_def)
  then show ?thesis by (rule that)
qed

lemma insert_new_ok:
  assumes ok: "rc_ok L s" and a: "attachable (page_size s) u d (root_node s) q"
    and d: "ref_count d = 0" "uuid d = node_counter s"
  shows "rc_ok L (s\<lparr>root_node := add_child (page_size s) u d (root_node s),
     evictable_size := evictable_size s + int (node_len d), node_counter := Suc (node_counter s)\<rparr>)"
proof -
  note D = rc_okD [OF ok]
  have "refs_below L (add_child (page_size s) u d (root_node s))"
    by (rule add_child_refs [OF a D(6)]) (use D(11) d in simp_all)
  then show ?thesis
    using D add_child_uniq [OF a] add_child_wf [OF a] add_child_set [OF a] add_child_rdata [OF a]
      add_child_weigh [OF a] d
    by (auto simp: rc_ok_def rc_nodes_def free_tokens_def held_tokens_def less_SucI)
qed

lemma insert_new_effect:
  assumes ok: "rc_ok L s" and a: "attachable (page_size s) u d (root_node s) q"
    and s': "s' = s\<lparr>root_node := add_child (page_size s) u d (root_node s),
     evictable_size := evictable_size s + int (node_len d), node_counter := Suc (node_counter s)\<rparr>"
    and ids: "path_key u (root_node s) @ nkey d = ids" "path_vals u (root_node s) = rc_content s ids"
  shows "rc_inserts ids (nval d) s s'" "rc_path (uuid d) s' = rc_content s ids @ nval d" "uuid d \<in> rc_nodes s'"
    "rc_key (uuid d) s' = ids"
proof -
  have "mset (tree_slots (root_node s')) = rc_slots s + mset (nval d)" unfolding rc_slots_def
    by (rule tree_slots_eqI) (simp add: s' add_child_weigh [OF a] occ_def)
  then show "rc_inserts ids (nval d) s s'"
    using add_child_mtch [OF a] add_child_set [OF a] add_child_path [where f = nval, OF a] add_child_path [where f = nkey, OF a]
      add_child_rdata [OF a] add_child_every_node [OF a, of "\<lambda>d. paged (page_size s) (nval d)"] attachableD(7) [OF a] ids
    by (auto simp: rc_root_def rc_key_def rc_paged_def rc_inserts_def s' rc_slots_def rc_content_def rc_nodes_def rc_path_def size_info_def wf_data_def)
  show "rc_path (uuid d) s' = rc_content s ids @ nval d" "uuid d \<in> rc_nodes s'" "rc_key (uuid d) s' = ids"
    using add_child_new_path [where f = nval, OF a] add_child_new_path [where f = nkey, OF a]
      add_child_set [OF a] ids by (simp_all add: rc_path_def rc_key_def rc_nodes_def s')
qed

lemma same_inserts:
  assumes "rc_same s s1" and "rc_inserts ids new s1 s'"
  shows "rc_inserts ids new s s'"
  using assms by (auto simp: rc_same_def rc_inserts_def size_info_def)

lemma insert_spec:
  assumes ok: "rc_ok L s" and len: "length indices = length input_ids"
    and il: "il = align_down (length input_ids) (page_size s)" and ids: "ids = take il input_ids"
    and n: "n = length (rc_content s ids)" and new: "new = drop n (take il indices)"
  shows "\<exists>h s'. insert_prefix tic now input_ids indices s = Inr (n, h, s') \<and> rc_ok L s' \<and>
     rc_inserts ids new s s' \<and> cached_len h = il \<and> hnode h \<in> rc_nodes s' \<and>
     rc_path (hnode h) s' = rc_content s ids @ new \<and> rc_key (hnode h) s' = ids"
proof -
  note D = rc_okD [OF ok]
  obtain t u m c where w: "walks (page_size s) tic (node_counter s) (root_node s) ids t u m c"
    and tw: "tree_walk tic ids s = Inr (u, m, s\<lparr>root_node := t, node_counter := c\<rparr>)"
    using tree_walk_ok [OF ok] by metis
  note F = walks_found [OF ok w]
  have mn: "m = n" using F(3) n by simp
  let ?s1 = "s\<lparr>root_node := t, node_counter := c\<rparr>"
  have ok1: "rc_ok L ?s1" by (rule walks_rc_ok [OF ok w])
  have same: "rc_same s ?s1" by (rule walks_same [OF ok w])
  have c1: "rc_content ?s1 = rc_content s" using same by (simp add: rc_same_def)
  have lids: "length ids = il" unfolding ids il by simp
  have nle: "n \<le> il" using walks_len [OF w] mn lids by simp
  have lnew: "length new = il - n" using new len il by simp
  show ?thesis
  proof (cases "n = il")
    case True
    then have "new = []" using lnew by simp
    moreover have "rc_content s x = extend_match (page_size s) (rc_content s x) ids (rc_content s ids @ new) x" for x
      using extend_cached [OF D(3,1), of ids x "rc_content s ids @ new"] True n lids by (simp add: rc_content_def)
    ultimately have "rc_inserts ids new s ?s1"
      using same by (simp add: rc_inserts_def rc_same_def size_info_def)
    then show ?thesis using True mn tw F ok1 \<open>new = []\<close> il ids
      by (simp add: rc_key_def insert_prefix_def Let_def rc_path_def rc_nodes_def)
  next
    case False
    let ?d = "new_node c 0 now (drop n ids) new"
    have d: "nkey ?d = drop m ids" "nval ?d = new" "uuid ?d = c" "ref_count ?d = 0"
      using mn by (simp_all add: new_node_def)
    obtain q where "attachable (page_size s) u ?d t q"
      by (rule attach_after_walk [OF ok w, of ?d]) (use d lnew lids nle False mn il in auto)
    then have a: "attachable (page_size ?s1) u ?d (root_node ?s1) q" by simp
    let ?s' = "?s1\<lparr>root_node := add_child (page_size ?s1) u ?d (root_node ?s1),
       evictable_size := evictable_size ?s1 + int (node_len ?d), node_counter := Suc (node_counter ?s1)\<rparr>"
    have "path_key u (root_node ?s1) @ nkey ?d = ids" "path_vals u (root_node ?s1) = rc_content ?s1 ids"
      using F(1,2) d(1) c1 by simp_all
    note E = insert_new_effect [OF ok1 a refl this]
    have "rc_ok L ?s'" by (rule insert_new_ok [OF ok1 a]) (use d in simp_all)
    moreover have "insert_prefix tic now input_ids indices s = Inr (n, \<lparr>cached_len = il, hnode = c\<rparr>, ?s')"
      using tw False mn lnew lids new il ids d by (simp add: insert_prefix_def Let_def py_assert_def)
    ultimately show ?thesis using E same_inserts [OF same] d c1 by auto
  qed
qed

section \<open>Eviction\<close>

text \<open>What an eviction of the slots \<open>out\<close> may do to the cache.\<close>

definition rc_evicts :: "nat multiset \<Rightarrow> slot list \<Rightarrow> rcache \<Rightarrow> rcache \<Rightarrow> bool" where
  "rc_evicts L out s s' \<longleftrightarrow> rc_root s' = rc_root s \<and> rc_ok L s' \<and> page_size s' = page_size s \<and>
     size_info s' = (evictable_size s - int (length out), protected_size s) \<and>
     rc_slots s = rc_slots s' + mset out \<and>
     (\<forall>x. prefix (rc_content s' x) (rc_content s x)) \<and>
     rc_nodes s' \<subseteq> rc_nodes s \<and> (\<forall>h \<in> rc_nodes s'. rc_path h s' = rc_path h s \<and> rc_key h s' = rc_key h s) \<and>
     (rc_paged s \<longrightarrow> rc_paged s' \<and> paged (page_size s) out)"

lemma rc_evicts_refl: "rc_ok L s \<Longrightarrow> rc_evicts L [] s s"
  by (simp add: rc_evicts_def size_info_def)

lemma rc_evicts_trans:
  assumes "rc_evicts L o1 s s1" and "rc_evicts L o2 s1 s2"
  shows "rc_evicts L (o1 @ o2) s s2"
proof -
  have "0 < page_size s" using assms(1) rc_okD(1) [of L s1] by (simp add: rc_evicts_def)
  then show ?thesis using assms
    by (auto simp: rc_evicts_def size_info_def subset_iff intro: prefix_order.trans paged_append)
qed

lemma leaf_nodes_in: "d \<in> set (leaf_nodes t) \<Longrightarrow> d \<in> set (all_nodes t)"
proof (induction t)
  case (RNode e cs)
  show ?case
  proof (cases "cs = []")
    case False
    then obtain k c where "(k, c) \<in> set cs" "d \<in> set (leaf_nodes c)" using RNode.prems by auto
    then show ?thesis using RNode.IH [of "(k, c)" c] by force
  qed (use RNode.prems in simp)
qed

lemma leaf_subtree: "d \<in> set (leaf_nodes t) \<Longrightarrow> uniq t \<Longrightarrow> subtree (uuid d) t = Some (RNode d [])"
proof (induction t)
  case (RNode e cs)
  show ?case
  proof (cases "cs = []")
    case False
    then obtain k c where kc: "(k, c) \<in> set cs" "d \<in> set (leaf_nodes c)" using RNode.prems(1) by auto
    then obtain pre post where cs: "cs = pre @ (k, c) # post" by (meson split_list)
    have uq: "uniq (RNode e (pre @ (k, c) # post))" using RNode.prems(2) cs by simp
    have "uuid d \<in> set (uuids c)" using leaf_nodes_in [OF kc(2)] by (simp add: uuids_def)
    then show ?thesis unfolding cs subtree_below [OF uq \<open>uuid d \<in> set (uuids c)\<close>]
      using RNode.IH [OF kc(1), of c] kc(2) uniq_kids(1) [OF uq] by simp
  qed (use RNode.prems in simp)
qed

lemma leaf_nodes_nonempty: "leaf_nodes t \<noteq> []"
proof (induction t)
  case (RNode e cs)
  show ?case
  proof (cases cs)
    case (Cons kc cs')
    then have "leaf_nodes (snd kc) \<noteq> []" using RNode.IH [of kc "snd kc"] by (simp add: snds.intros)
    then show ?thesis using Cons by simp
  qed simp
qed

text \<open>An unlocked node has an unlocked leaf at it or below it.\<close>

lemma unlocked_leaf:
  assumes "refs_below L t" and "d \<in> set (inner_nodes t)" and "ref_count d = 0"
  shows "\<exists>l \<in> set (leaf_nodes t). ref_count l = 0"
  using assms
proof (induction t)
  case (RNode e cs)
  obtain k c where kc: "(k, c) \<in> set cs" "d \<in> set (all_nodes c)" using RNode.prems(2) by auto
  have sub: "set (leaf_nodes c) \<subseteq> set (leaf_nodes (RNode e cs))" using kc(1) by auto
  have rc: "ref_count (rdata c) = int (locks_in L c)" "refs_below L c" using RNode.prems(1) kc(1) by auto
  show ?case
  proof (cases "d \<in> set (inner_nodes c)")
    case True
    then have "\<exists>l \<in> set (leaf_nodes c). ref_count l = 0" using RNode.IH [OF kc(1), of c] rc(2) RNode.prems(3) by simp
    then show ?thesis using sub by blast
  next
    case False
    then have "ref_count (rdata c) = 0" using kc(2) RNode.prems(3) by (simp add: all_nodes_eq)
    moreover from this have "locks_in L c = 0" using rc(1) by simp
    ultimately have z: "ref_count l = 0" if "l \<in> set (all_nodes c)" for l
      using that unlocked_below [OF rc(2)] by (auto simp: all_nodes_eq)
    obtain l where l: "l \<in> set (leaf_nodes c)" using leaf_nodes_nonempty [of c] by (cases "leaf_nodes c") auto
    then show ?thesis using z leaf_nodes_in sub by blast
  qed
qed

lemma leaf_removable:
  assumes ok: "rc_ok L s" and d: "d \<in> set (leaf_nodes (root_node s))" "ref_count d = 0"
  shows "\<exists>p pre post. leaf_at (page_size s) (uuid d) (root_node s) d p pre post"
    and "uuid d \<noteq> uuid (rdata (root_node s))" and "leaf_here (uuid d) (root_node s)"
    and "d \<in> set (inner_nodes (root_node s))"
proof -
  note D = rc_okD [OF ok]
  have sub: "subtree (uuid d) (root_node s) = Some (RNode d [])" by (rule leaf_subtree [OF d(1) D(2)])
  then show "leaf_here (uuid d) (root_node s)" by (simp add: leaf_here_def is_leaf_def)
  have "rdata (root_node s) \<noteq> d" using D(7) d(2) by auto
  then show inner: "d \<in> set (inner_nodes (root_node s))"
    using leaf_nodes_in [OF d(1)] by (simp add: all_nodes_eq)
  then show nr: "uuid d \<noteq> uuid (rdata (root_node s))" by (rule root_uuid_fresh [OF D(2)])
  show "\<exists>p pre post. leaf_at (page_size s) (uuid d) (root_node s) d p pre post"
    by (rule leaf_at_ex [OF D(2,3) sub nr])
qed

text \<open>A leaf without a reference is not locked.\<close>

lemma unlocked_not_held:
  assumes "refs_below L t" and "uniq t" and "d \<in> set (inner_nodes t)" and "ref_count d = 0"
  shows "uuid d \<notin># L"
proof
  assume "uuid d \<in># L"
  moreover have "d \<in> set (up_path (uuid d) t)"
    using assms(2,3)
  proof (induction t)
    case (RNode e cs)
    then obtain k c where kc: "(k, c) \<in> set cs" "d \<in> set (all_nodes c)" by auto
    then obtain pre post where cs: "cs = pre @ (k, c) # post" by (meson split_list)
    have uq: "uniq (RNode e (pre @ (k, c) # post))" using RNode.prems(1) cs by simp
    have "uuid d \<in> set (uuids c)" using kc(2) by (simp add: uuids_def)
    from up_path_below [OF uq this] show ?case
      using RNode.IH [OF kc(1), of c] kc(2) uniq_kids(1) [OF uq] cs by (auto simp: all_nodes_eq)
  qed
  ultimately show False using path_locked [OF assms(1,2)] assms(4) by fastforce
qed

lemma evict_step:
  assumes ok: "rc_ok L s" and d: "d \<in> set (leaf_nodes (root_node s))" "ref_count d = 0"
  obtains p pre post where "leaf_at (page_size s) (uuid d) (root_node s) d p pre post"
    and "rc_evicts L (nval d) s (s\<lparr>root_node := unlink (page_size s) (uuid d) (root_node s),
           evictable_size := evictable_size s - int (node_len d)\<rparr>)"
    and "uuid d \<notin># L"
proof -
  note D = rc_okD [OF ok] and R = leaf_removable [OF ok d]
  obtain p pre post where a: "leaf_at (page_size s) (uuid d) (root_node s) d p pre post" using R(1) by blast
  let ?t = "unlink (page_size s) (uuid d) (root_node s)"
  have nl: "uuid d \<notin># L" by (rule unlocked_not_held [OF D(6,2) R(4) d(2)])
  have wfd: "wf_data (page_size s) d" by (rule wf_inner [OF D(3) R(4)])
  have "mset (tree_slots (root_node s)) = mset (tree_slots ?t) + mset (nval d)"
    by (rule tree_slots_eqI) (simp add: unlink_weigh [OF a] occ_def)
  moreover have "rc_ok L (s\<lparr>root_node := ?t, evictable_size := evictable_size s - int (node_len d)\<rparr>)"
    using D unlink_uniq [OF a] unlink_wf [OF a] unlink_set [OF a] unlink_refs [OF a D(6) nl]
      unlink_rdata [OF a] unlink_weigh [OF a] nl d(2)
    by (auto simp: rc_ok_def rc_nodes_def free_tokens_def held_tokens_def)
  ultimately have "rc_evicts L (nval d) s (s\<lparr>root_node := ?t, evictable_size := evictable_size s - int (node_len d)\<rparr>)"
    using unlink_mtch [OF a] unlink_set [OF a] unlink_path [where f = nval, OF a] unlink_path [where f = nkey, OF a] wfd
      unlink_rdata [OF a] unlink_every_node [OF a, of "\<lambda>d. paged (page_size s) (nval d)"] R(4)
    by (auto simp: rc_root_def every_node_def rc_key_def rc_paged_def rc_evicts_def rc_content_def rc_slots_def rc_nodes_def rc_path_def size_info_def wf_data_def)
  then show ?thesis using that a nl by blast
qed

definition unlocked_leaves :: "rtree \<Rightarrow> ndata multiset" where
  "unlocked_leaves t = filter_mset (\<lambda>d. ref_count d = 0) (mset (leaf_nodes t))"

text \<open>The heap holds exactly the unlocked leaves, before and after every round.\<close>

lemma heap_step:
  assumes a: "leaf_at ps v t d p pre post" and d: "ref_count d = 0"
    and h: "add_mset d (mset heap) = unlocked_leaves t"
  shows "mset (offer_parent (uuid p) (unlink ps v t) heap) = unlocked_leaves (unlink ps v t)"
proof -
  let ?P = "\<lambda>d. ref_count d = 0"
  have "add_mset d (unlocked_leaves (unlink ps v t)) =
      filter_mset ?P (add_mset d (mset (leaf_nodes (unlink ps v t))))"
    using d by (simp add: unlocked_leaves_def)
  also have "\<dots> = unlocked_leaves t + filter_mset ?P (if pre @ post = [] then {#p#} else {#})"
    unfolding unlink_leaves [OF a] by (simp add: unlocked_leaves_def)
  also have "\<dots> = add_mset d (mset heap + filter_mset ?P (if pre @ post = [] then {#p#} else {#}))"
    using h by simp
  finally have "unlocked_leaves (unlink ps v t) = mset heap + filter_mset ?P (if pre @ post = [] then {#p#} else {#})"
    by simp
  then show ?thesis
    using unlink_subtree [OF a] by (simp add: offer_parent_def is_leaf_def push_def)
qed

lemma free_token_leaf:
  assumes ok: "rc_ok L s" and "0 < evictable_size s"
  shows "unlocked_leaves (root_node s) \<noteq> {#}"
proof -
  have "\<exists>d \<in> set (inner_nodes (root_node s)). ref_count d = 0"
  proof (rule ccontr)
    assume "\<not> ?thesis"
    then have "weigh free_tokens (root_node s) = weigh (\<lambda>_. 0) (root_node s)"
      by (intro weigh_cong) (simp add: free_tokens_def)
    then show False using assms(2) rc_okD(8) [OF ok] by (simp add: weigh_def)
  qed
  then obtain l where "l \<in> set (leaf_nodes (root_node s))" "ref_count l = 0"
    using unlocked_leaf [OF rc_okD(6) [OF ok]] by blast
  then show ?thesis by (auto simp: unlocked_leaves_def filter_mset_eq_conv)
qed

lemma evict_loop_spec:
  assumes "rc_ok L s" and "mset heap = unlocked_leaves (root_node s)"
    and "int need \<le> int got + evictable_size s"
  shows "\<exists>out s'. evict_loop need heap got acc s = Inr (acc @ out, s') \<and> rc_evicts L out s s' \<and>
     need \<le> got + length out"
  using assms
proof (induction need heap got acc s rule: evict_loop.induct)
  case (1 need heap got acc s)
  show ?case
  proof (cases "need \<le> got")
    case True
    then show ?thesis using rc_evicts_refl [OF 1(2)] by (auto simp: evict_loop.simps)
  next
    case False
    then have "0 < evictable_size s" using 1(4) by simp
    then have "heap \<noteq> []" using free_token_leaf [OF 1(2)] 1(3) by auto
    then obtain d heap' where pop: "pop_min timestamp heap = Some (d, heap')"
      using pop_min_None by (cases "pop_min timestamp heap") auto
    have h: "add_mset d (mset heap') = unlocked_leaves (root_node s)"
      using list_heap.deq_elems [OF pop] 1(3) by simp
    then have "d \<in># unlocked_leaves (root_node s)" by (metis union_single_eq_member)
    then have d: "d \<in> set (leaf_nodes (root_node s))" "ref_count d = 0" by (simp_all add: unlocked_leaves_def)
    obtain p pre post where a: "leaf_at (page_size s) (uuid d) (root_node s) d p pre post"
      and ev: "rc_evicts L (nval d) s (s\<lparr>root_node := unlink (page_size s) (uuid d) (root_node s),
           evictable_size := evictable_size s - int (node_len d)\<rparr>)" (is "rc_evicts L _ s ?s1")
      by (rule evict_step [OF 1(2) d])
    have len: "length (nval d) = node_len d"
      using wf_inner [OF rc_okD(3) [OF 1(2)] leaf_removable(4) [OF 1(2) d]] by (simp add: wf_data_def)
    have round: "evict_loop need heap got acc s =
       evict_loop need (offer_parent (uuid p) (root_node ?s1) heap') (got + node_len d) (acc @ nval d) ?s1"
      using False pop d(2) leaf_removable(2,3) [OF 1(2) d] remove_leaf [OF a]
      by (simp add: evict_loop.simps [of need heap] py_assert_def)
    have "\<exists>out s'. evict_loop need (offer_parent (uuid p) (root_node ?s1) heap') (got + node_len d) (acc @ nval d) ?s1
        = Inr ((acc @ nval d) @ out, s') \<and> rc_evicts L out ?s1 s' \<and> need \<le> got + node_len d + length out"
      using 1(1) [OF False pop refl remove_leaf [OF a] refl] heap_step [OF a d(2) h] ev 1(4)
      by (simp add: rc_evicts_def)
    then show ?thesis unfolding round using rc_evicts_trans [OF ev] len by fastforce
  qed
qed

lemma evict_spec:
  assumes "rc_ok L s" and "int need \<le> evictable_size s"
  shows "\<exists>out s'. evict need s = Inr (out, s') \<and> rc_evicts L out s s' \<and> need \<le> length out"
proof (cases "need = 0")
  case True
  then show ?thesis using rc_evicts_refl [OF assms(1)] by (auto simp: evict_def)
next
  case False
  have "mset (collect_leave_nodes_for_evict s) = unlocked_leaves (root_node s)"
    by (simp add: collect_leave_nodes_for_evict_def unlocked_leaves_def)
  from evict_loop_spec [OF assms(1) this, of need 0 "[]"] assms(2) False show ?thesis
    by (simp add: evict_def py_assert_def)
qed

end
