(* ===== verification/Prefix_Cache.thy ===== *)
theory Prefix_Cache
  imports Radix_Cache
begin

text \<open>
  The interface \<open>BasePrefixCache\<close> (\<open>kvcache/base.py\<close>) as a record of operations, its contract as
  the locale \<open>prefix_cache\<close>, \<open>NaivePrefixCache\<close> (\<open>kvcache/naive_cache.py\<close>), and the
  interpretations of the contract on the naive and on the radix cache. The cache manager calls
  the operations of the record, and its lemmas are proved under the contract.
\<close>

section \<open>The interface\<close>

record ('c, 'h) pc_ops =
  pc_match :: "int \<Rightarrow> token list \<Rightarrow> 'c \<Rightarrow> ('h \<times> 'c) result"
  pc_insert :: "int \<Rightarrow> int \<Rightarrow> token list \<Rightarrow> slot list \<Rightarrow> 'c \<Rightarrow> (nat \<times> 'h \<times> 'c) result"
  pc_lock :: "'h \<Rightarrow> bool \<Rightarrow> 'c \<Rightarrow> 'c result"
  pc_evict :: "nat \<Rightarrow> 'c \<Rightarrow> (slot list \<times> 'c) result"
  pc_size_info :: "'c \<Rightarrow> int \<times> int"
  pc_cached_len :: "'h \<Rightarrow> nat"
  pc_indices :: "'h \<Rightarrow> 'c \<Rightarrow> slot list result"

text \<open>What the contract reads of a cache: its invariant for a page size and a multiset of locked
  targets, the target of a handle, and per target the cached tokens and their slots.\<close>

record ('c, 'h) pc_view =
  v_ok :: "nat \<Rightarrow> nat multiset \<Rightarrow> 'c \<Rightarrow> bool"
  v_target :: "'h \<Rightarrow> nat"
  v_root :: "'c \<Rightarrow> nat"
  v_nodes :: "'c \<Rightarrow> nat set"
  v_path :: "nat \<Rightarrow> 'c \<Rightarrow> slot list"
  v_key :: "nat \<Rightarrow> 'c \<Rightarrow> token list"
  v_content :: "'c \<Rightarrow> token list \<Rightarrow> slot list"
  v_slots :: "'c \<Rightarrow> slot multiset"

text \<open>Nothing is lost: targets, their keys and slots stay.\<close>

definition v_keeps :: "('c, 'h) pc_view \<Rightarrow> 'c \<Rightarrow> 'c \<Rightarrow> bool" where
  "v_keeps V s s' \<longleftrightarrow> v_root V s' = v_root V s \<and> v_nodes V s \<subseteq> v_nodes V s' \<and>
     (\<forall>h \<in> v_nodes V s. v_path V h s' = v_path V h s \<and> v_key V h s' = v_key V h s)"

locale prefix_cache =
  fixes ops :: "('c, 'h) pc_ops" and V :: "('c, 'h) pc_view"
  assumes ok_nodes: "v_ok V ps L s \<Longrightarrow> 0 < ps \<and> set_mset L \<subseteq> v_nodes V s \<and> v_root V s \<in> v_nodes V s"
    and ok_sizes: "v_ok V ps L s \<Longrightarrow> 0 \<le> fst (pc_size_info ops s) \<and>
      fst (pc_size_info ops s) + snd (pc_size_info ops s) = int (size (v_slots V s))"
    and ok_pages: "v_ok V ps L s \<Longrightarrow> int ps dvd fst (pc_size_info ops s)"
    and reach: "v_ok V ps L s \<Longrightarrow> u \<in> v_nodes V s \<Longrightarrow>
      length (v_path V u s) = length (v_key V u s) \<and> ps dvd length (v_key V u s) \<and>
      prefix (v_path V u s) (v_content V s (v_key V u s @ x))"
    and root_path: "v_ok V ps L s \<Longrightarrow> v_path V (v_root V s) s = []"
    and matching: "v_ok V ps L s \<Longrightarrow>
      \<exists>h s'. pc_match ops tic ids s = Inr (h, s') \<and> v_ok V ps L s' \<and> v_keeps V s s' \<and>
        v_content V s' = v_content V s \<and> v_slots V s' = v_slots V s \<and>
        pc_size_info ops s' = pc_size_info ops s \<and> v_target V h \<in> v_nodes V s' \<and>
        v_path V (v_target V h) s' = v_content V s ids \<and>
        pc_cached_len ops h = length (v_content V s ids) \<and>
        v_key V (v_target V h) s' = take (pc_cached_len ops h) ids"
    and inserting: "v_ok V ps L s \<Longrightarrow> length indices = length ids \<Longrightarrow>
      ids' = take (align_down (length ids) ps) ids \<Longrightarrow> n = length (v_content V s ids') \<Longrightarrow>
      paged ps (drop n (take (length ids') indices)) \<Longrightarrow>
      \<exists>h s'. pc_insert ops tic now ids indices s = Inr (n, h, s') \<and> v_ok V ps L s' \<and> v_keeps V s s' \<and>
        v_slots V s' = v_slots V s + mset (drop n (take (pc_cached_len ops h) indices)) \<and>
        n \<le> pc_cached_len ops h \<and> pc_cached_len ops h \<le> length ids' \<and>
        v_target V h \<in> v_nodes V s' \<and>
        v_path V (v_target V h) s' = v_content V s ids' @ drop n (take (pc_cached_len ops h) indices) \<and>
        v_key V (v_target V h) s' = take (pc_cached_len ops h) ids"
    and locking: "v_ok V ps L s \<Longrightarrow> v_target V h \<in> v_nodes V s \<Longrightarrow>
      \<exists>s'. pc_lock ops h False s = Inr s' \<and> v_ok V ps (add_mset (v_target V h) L) s' \<and> v_keeps V s s' \<and>
        v_nodes V s' = v_nodes V s \<and> v_content V s' = v_content V s \<and> v_slots V s' = v_slots V s"
    and unlocking: "v_ok V ps (add_mset (v_target V h) L) s \<Longrightarrow>
      \<exists>s'. pc_lock ops h True s = Inr s' \<and> v_ok V ps L s' \<and> v_keeps V s s' \<and>
        v_nodes V s' = v_nodes V s \<and> v_content V s' = v_content V s \<and> v_slots V s' = v_slots V s"
    and evicting: "v_ok V ps L s \<Longrightarrow> int need \<le> fst (pc_size_info ops s) \<Longrightarrow>
      \<exists>out s'. pc_evict ops need s = Inr (out, s') \<and> need \<le> length out \<and> paged ps out \<and>
        v_ok V ps L s' \<and> v_slots V s = v_slots V s' + mset out \<and>
        v_root V s' = v_root V s \<and> v_nodes V s' \<subseteq> v_nodes V s \<and>
        (\<forall>u \<in> v_nodes V s'. v_path V u s' = v_path V u s \<and> v_key V u s' = v_key V u s) \<and>
        pc_size_info ops s' =
          (fst (pc_size_info ops s) - int (length out), snd (pc_size_info ops s))"
    and indices: "v_ok V ps L s \<Longrightarrow> v_target V h \<in> v_nodes V s \<Longrightarrow> v_path V (v_target V h) s \<noteq> [] \<Longrightarrow>
      pc_indices ops h s = Inr (v_path V (v_target V h) s)"

section \<open>The naive cache\<close>

datatype naive_cache = NaivePrefixCache
datatype naive_handle = NaiveCacheHandle

text \<open>\<open>NaivePrefixCache\<close> keeps nothing; \<open>evict\<close> of more than 0 raises.\<close>

definition naive_match_prefix :: "int \<Rightarrow> token list \<Rightarrow> naive_cache \<Rightarrow> (naive_handle \<times> naive_cache) result" where
  "naive_match_prefix tic ids s = Inr (NaiveCacheHandle, s)"

definition naive_insert_prefix ::
    "int \<Rightarrow> int \<Rightarrow> token list \<Rightarrow> slot list \<Rightarrow> naive_cache \<Rightarrow> (nat \<times> naive_handle \<times> naive_cache) result" where
  "naive_insert_prefix tic now ids indices s = Inr (0, NaiveCacheHandle, s)"

definition naive_lock_handle :: "naive_handle \<Rightarrow> bool \<Rightarrow> naive_cache \<Rightarrow> naive_cache result" where
  "naive_lock_handle h unlock s = Inr s"

definition naive_evict :: "nat \<Rightarrow> naive_cache \<Rightarrow> (slot list \<times> naive_cache) result" where
  "naive_evict need s = (if need = 0 then Inr ([], s) else Inl NotImplementedError)"

definition naive_size_info :: "naive_cache \<Rightarrow> int \<times> int" where
  "naive_size_info s = (0, 0)"

definition naive_get_matched_indices :: "naive_handle \<Rightarrow> naive_cache \<Rightarrow> slot list result" where
  "naive_get_matched_indices h s = Inr []"

definition naive_ops :: "(naive_cache, naive_handle) pc_ops" where
  "naive_ops = \<lparr>pc_match = naive_match_prefix, pc_insert = naive_insert_prefix,
     pc_lock = naive_lock_handle, pc_evict = naive_evict, pc_size_info = naive_size_info,
     pc_cached_len = (\<lambda>h. 0), pc_indices = naive_get_matched_indices\<rparr>"

definition naive_view :: "(naive_cache, naive_handle) pc_view" where
  "naive_view = \<lparr>v_ok = (\<lambda>ps L s. 0 < ps \<and> set_mset L \<subseteq> {0}), v_target = (\<lambda>h. 0), v_root = (\<lambda>s. 0),
     v_nodes = (\<lambda>s. {0}), v_path = (\<lambda>h s. []), v_key = (\<lambda>h s. []), v_content = (\<lambda>s ids. []),
     v_slots = (\<lambda>s. {#})\<rparr>"

interpretation naive_pc: prefix_cache naive_ops naive_view
  by unfold_locales
     (auto simp: naive_ops_def naive_view_def naive_match_prefix_def naive_insert_prefix_def
       naive_lock_handle_def naive_evict_def naive_size_info_def naive_get_matched_indices_def
       v_keeps_def)

section \<open>The radix cache\<close>

definition radix_ops :: "(rcache, rhandle) pc_ops" where
  "radix_ops = \<lparr>pc_match = match_prefix, pc_insert = insert_prefix, pc_lock = lock_handle,
     pc_evict = evict, pc_size_info = size_info, pc_cached_len = cached_len,
     pc_indices = get_matched_indices\<rparr>"

definition radix_view :: "(rcache, rhandle) pc_view" where
  "radix_view = \<lparr>v_ok = (\<lambda>ps L s. rc_ok L s \<and> page_size s = ps \<and> rc_paged s),
     v_target = hnode, v_root = rc_root, v_nodes = rc_nodes, v_path = rc_path, v_key = rc_key,
     v_content = rc_content, v_slots = rc_slots\<rparr>"

text \<open>A node of the cache is reached by its own key.\<close>

lemma up_path_wf:
  assumes "wf_below ps t" and "uniq t" and "d \<in> set (up_path u t)"
  shows "wf_data ps d"
  using wf_inner [OF assms(1)] on_path_inner [OF assms(2)] assms(3) by blast

lemma rc_reach:
  assumes ok: "rc_ok L s" and h: "h \<in> rc_nodes s"
  shows "length (rc_path h s) = length (rc_key h s)" "page_size s dvd length (rc_key h s)"
    "prefix (rc_path h s) (rc_content s (rc_key h s @ x))"
proof -
  note D = rc_okD [OF ok]
  have W: "wf_data (page_size s) d" if "d \<in> set (rev (up_path h (root_node s)))" for d
    using up_path_wf [OF D(3,2)] that by simp
  have "length (concat (map nval ds)) = length (concat (map nkey ds)) \<and> p dvd length (concat (map nkey ds))"
    if "\<And>d. d \<in> set ds \<Longrightarrow> wf_data p d" for ds p
    using that by (induction ds) (auto simp: wf_data_def)
  then have "length (concat (map nval (rev (up_path h (root_node s))))) = length (concat (map nkey (rev (up_path h (root_node s))))) \<and>
     page_size s dvd length (concat (map nkey (rev (up_path h (root_node s)))))" using W by metis
  then show "length (rc_path h s) = length (rc_key h s)" "page_size s dvd length (rc_key h s)"
    by (simp_all add: rc_path_def rc_key_def path_of_def)
  show "prefix (rc_path h s) (rc_content s (rc_key h s @ x))"
    using mtch_path [of h "root_node s" "page_size s" x] D h
    by (simp add: rc_path_def rc_key_def rc_content_def rc_nodes_def)
qed

lemma rc_evictable_pages:
  assumes "rc_ok L s"
  shows "int (page_size s) dvd evictable_size s"
proof -
  have "int (page_size s) dvd (\<Sum>d\<leftarrow>ds. free_tokens d)" if "\<And>d. d \<in> set ds \<Longrightarrow> wf_data (page_size s) d" for ds
    using that by (induction ds) (auto simp: free_tokens_def wf_data_def)
  then show ?thesis using rc_okD(3,8) [OF assms] wf_inner by (simp add: weigh_def)
qed

lemma rc_paged_empty: "rc_ok L s \<Longrightarrow> 0 < page_size s"
  by (rule rc_okD(1))

lemma rc_root_node: "rc_root s \<in> rc_nodes s"
  by (simp add: rc_root_def rc_nodes_def)

lemma radix_matching:
  assumes ok: "rc_ok L s" and p: "rc_paged s"
  shows "\<exists>h s'. match_prefix tic ids s = Inr (h, s') \<and> rc_ok L s' \<and> page_size s' = page_size s \<and> rc_paged s' \<and>
     v_keeps radix_view s s' \<and> rc_content s' = rc_content s \<and> rc_slots s' = rc_slots s \<and>
     size_info s' = size_info s \<and> hnode h \<in> rc_nodes s' \<and> rc_path (hnode h) s' = rc_content s ids \<and>
     cached_len h = length (rc_content s ids) \<and> rc_key (hnode h) s' = take (cached_len h) ids"
proof -
  obtain t u n c where w: "walks (page_size s) tic (node_counter s) (root_node s) ids t u n c"
    and tw: "tree_walk tic ids s = Inr (u, n, s\<lparr>root_node := t, node_counter := c\<rparr>)"
    using tree_walk_ok [OF ok] by metis
  note F = walks_found [OF ok w] and S = walks_same [OF ok w] and O = walks_rc_ok [OF ok w]
  have m: "match_prefix tic ids s = Inr (\<lparr>cached_len = n, hnode = u\<rparr>, s\<lparr>root_node := t, node_counter := c\<rparr>)"
    using tw by (simp add: match_prefix_def)
  show ?thesis
    by (rule exI [of _ "\<lparr>cached_len = n, hnode = u\<rparr>"], rule exI [of _ "s\<lparr>root_node := t, node_counter := c\<rparr>"])
       (use F O S m p in \<open>simp add: rc_same_def v_keeps_def radix_view_def rc_path_def rc_key_def rc_nodes_def\<close>)
qed

lemma radix_inserting:
  assumes ok: "rc_ok L s" and p: "rc_paged s" and len: "length indices = length ids"
    and ids': "ids' = take (align_down (length ids) (page_size s)) ids" and n: "n = length (rc_content s ids')"
    and new: "paged (page_size s) (drop n (take (length ids') indices))"
  shows "\<exists>h s'. insert_prefix tic now ids indices s = Inr (n, h, s') \<and> rc_ok L s' \<and> page_size s' = page_size s \<and>
     rc_paged s' \<and> v_keeps radix_view s s' \<and> rc_slots s' = rc_slots s + mset (drop n (take (cached_len h) indices)) \<and>
     n \<le> cached_len h \<and> cached_len h \<le> length ids' \<and> hnode h \<in> rc_nodes s' \<and>
     rc_path (hnode h) s' = rc_content s ids' @ drop n (take (cached_len h) indices) \<and>
     rc_key (hnode h) s' = take (cached_len h) ids"
proof -
  let ?il = "align_down (length ids) (page_size s)"
  have l: "length ids' = ?il" using ids' by simp
  obtain t u m c where w: "walks (page_size s) 0 (node_counter s) (root_node s) ids' t u m c"
    using tree_walk_ok [OF ok] by metis
  have nle: "n \<le> ?il" using walks_len [OF w] walks_found(3) [OF ok w] n l by simp
  obtain h s' where h: "insert_prefix tic now ids indices s = Inr (n, h, s')" "rc_ok L s'"
     "rc_inserts ids' (drop n (take ?il indices)) s s'" "cached_len h = ?il" "hnode h \<in> rc_nodes s'"
     "rc_path (hnode h) s' = rc_content s ids' @ drop n (take ?il indices)" "rc_key (hnode h) s' = ids'"
    using insert_spec [OF ok len refl ids' n refl, of tic now] by auto
  show ?thesis
    by (rule exI [of _ h], rule exI [of _ s'])
       (use h nle new p l ids' in \<open>simp add: rc_inserts_def v_keeps_def radix_view_def\<close>)
qed

lemma radix_keeps: "rc_locks s s' \<Longrightarrow> v_keeps radix_view s s'"
  by (simp add: rc_locks_def v_keeps_def radix_view_def)

interpretation radix_pc: prefix_cache radix_ops radix_view
proof (unfold_locales, unfold radix_view_def radix_ops_def pc_view.simps pc_ops.simps, goal_cases)
  case (1 ps L s)
  then show ?case using rc_okD(1,5) rc_root_node by (auto simp: rc_nodes_def)
next
  case (2 ps L s)
  then show ?case using rc_sizes [of L s] by (auto simp: total_size_def size_info_def)
next
  case (3 ps L s)
  then show ?case using rc_evictable_pages [of L s] by (auto simp: size_info_def)
next
  case (4 ps L s u x)
  then show ?case using rc_reach(1,2) [of L s u] rc_reach(3) [of L s u x] by auto
next
  case (5 ps L s)
  then show ?case by (simp add: rc_path_def rc_root_def)
next
  case (6 ps L s tic ids)
  then show ?case using radix_matching [of L s tic ids] by (auto simp: radix_view_def)
next
  case (7 ps L s indices ids ids' n tic now)
  then show ?case using radix_inserting [of L s indices ids ids' n tic now] by (auto simp: radix_view_def)
next
  case (8 ps L s h)
  then show ?case using lock_spec [of L s h] radix_keeps by (fastforce simp: radix_view_def rc_locks_def)
next
  case (9 ps h L s)
  then show ?case using unlock_spec [of h L s] radix_keeps by (fastforce simp: radix_view_def rc_locks_def)
next
  case (10 ps L s need)
  then have "rc_ok L s" "int need \<le> evictable_size s" "rc_paged s" "page_size s = ps"
    by (auto simp: size_info_def)
  then show ?case using evict_spec [of L s need] by (fastforce simp: rc_evicts_def size_info_def)
next
  case (11 ps L s h)
  then show ?case
    by (auto simp: get_matched_indices_def rc_path_def path_of_def rev_map Let_def)
qed

end
