(* ===== verification/Core.thy ===== *)
theory Core
  imports Complex_Main Prelude
begin

text \<open>
  Requests and batches (\<open>core.py\<close>): \<open>SamplingParams\<close> with its validation, \<open>Req\<close> with its
  length bookkeeping (\<open>cached_len < device_len \<le> max_device_len\<close>), \<open>ChunkedReq\<close> of
  \<open>scheduler/prefill.py\<close> as the flag \<open>chunked\<close>, \<open>Batch\<close>, and the slot of the active batch in
  \<open>Context\<close>. Tensors of tokens are lists; an optional tensor that is only tested for presence is a
  bool. \<open>table_idx = -1\<close> marks a request whose resources were freed.
\<close>

section \<open>Sampling parameters\<close>

text \<open>A Python float, as far as comparisons and \<open>isfinite\<close> see it.\<close>

datatype py_float = Finite rat | Infinite bool | NaN

fun isfinite :: "py_float \<Rightarrow> bool" where
  "isfinite (Finite _) = True"
| "isfinite _ = False"

fun float_le :: "py_float \<Rightarrow> py_float \<Rightarrow> bool" where
  "float_le (Finite a) (Finite b) = (a \<le> b)"
| "float_le NaN _ = False"
| "float_le _ NaN = False"
| "float_le (Infinite pos) (Infinite pos') = (\<not> pos \<or> pos')"
| "float_le (Infinite pos) (Finite _) = (\<not> pos)"
| "float_le (Finite _) (Infinite pos) = pos"

record sampling_params =
  temperature :: py_float
  top_k :: int
  top_p :: py_float
  ignore_eos :: bool
  max_tokens :: nat
  stop_strs :: "string list"
  presence_penalty :: py_float
  frequency_penalty :: py_float

definition penalty_ok :: "py_float \<Rightarrow> bool" where
  "penalty_ok v \<longleftrightarrow> isfinite v \<and> float_le (Finite (- 2)) v \<and> float_le v (Finite 2)"

definition sampling_post_init :: "sampling_params \<Rightarrow> sampling_params result" where
  "sampling_post_init p =
     (if \<not> penalty_ok (presence_penalty p) then Inl ValueError
      else if \<not> penalty_ok (frequency_penalty p) then Inl ValueError
      else Inr p)"

definition is_greedy :: "sampling_params \<Rightarrow> bool" where
  "is_greedy p \<longleftrightarrow> float_le (temperature p) (Finite 0) \<or> top_k p = 1"

section \<open>Requests\<close>

record 'h req =
  input_ids :: "int list"
  table_idx :: int
  req_cached_len :: nat
  output_len :: nat
  uid :: nat
  sampling :: sampling_params
  cache_handle :: 'h
  mm_embeds :: bool
  linear_slot_idx :: "nat option"
  mamba_ping_pong :: "(nat \<times> nat) option"
  mamba_next_track_idx :: nat
  mamba_last_track_seqlen :: "nat option"
  mamba_restore_src :: "nat option"
  swa_evicted_seqlen :: int
  decode_batch_idx :: nat
  toolcall_anchor_len :: "nat option"
  aborted :: bool
  device_len :: nat
  max_device_len :: nat
  chunked :: bool

text \<open>\<open>Req(...)\<close> and \<open>ChunkedReq(...)\<close>: the constructor with \<open>__post_init__\<close>.\<close>

definition new_req :: "int list \<Rightarrow> int \<Rightarrow> nat \<Rightarrow> nat \<Rightarrow> nat \<Rightarrow> sampling_params \<Rightarrow> 'h \<Rightarrow> bool \<Rightarrow> bool \<Rightarrow> 'h req result" where
  "new_req ids ti cl ol u sp h mm is_chunked =
     py_assert (cl < length ids \<and> length ids \<le> length ids + ol)
       (Inr \<lparr>input_ids = ids, table_idx = ti, req_cached_len = cl, output_len = ol, uid = u,
          sampling = sp, cache_handle = h, mm_embeds = mm, linear_slot_idx = None,
          mamba_ping_pong = None, mamba_next_track_idx = 0, mamba_last_track_seqlen = None,
          mamba_restore_src = None, swa_evicted_seqlen = 0, decode_batch_idx = 0,
          toolcall_anchor_len = None, aborted = False, device_len = length ids,
          max_device_len = length ids + ol, chunked = is_chunked\<rparr>)"

definition remain_len :: "'h req \<Rightarrow> int" where
  "remain_len r = int (max_device_len r) - int (device_len r)"

definition extend_len :: "'h req \<Rightarrow> int" where
  "extend_len r = int (device_len r) - int (req_cached_len r)"

definition complete_one :: "'h req \<Rightarrow> 'h req" where
  "complete_one r = r\<lparr>req_cached_len := device_len r, device_len := device_len r + 1\<rparr>"

definition append_host :: "int list \<Rightarrow> 'h req \<Rightarrow> 'h req result" where
  "append_host toks r =
     (if chunked r then Inl NotImplementedError
      else py_assert (length (input_ids r) + length toks \<le> max_device_len r)
        (Inr (r\<lparr>input_ids := input_ids r @ toks\<rparr>)))"

definition can_decode :: "'h req \<Rightarrow> bool" where
  "can_decode r \<longleftrightarrow> \<not> chunked r \<and> 0 < remain_len r"

section \<open>Batches and the active batch\<close>

datatype phase = Prefill | Decode

record 'h batch =
  reqs :: "'h req list"
  phase :: phase
  log_new_tokens :: int
  log_cached_tokens :: nat
  prompt_admissions :: "(nat \<times> nat \<times> nat) list"

definition new_batch :: "'h req list \<Rightarrow> phase \<Rightarrow> 'h batch" where
  "new_batch rs p = \<lparr>reqs = rs, phase = p, log_new_tokens = 0, log_cached_tokens = 0, prompt_admissions = []\<rparr>"

definition is_prefill :: "'h batch \<Rightarrow> bool" where
  "is_prefill b \<longleftrightarrow> phase b = Prefill"

definition is_decode :: "'h batch \<Rightarrow> bool" where
  "is_decode b \<longleftrightarrow> phase b = Decode"

text \<open>\<open>Context.batch\<close> and \<open>Context.forward_batch\<close>: the body runs with the batch set, and the
  slot is cleared whether the body raises or not.\<close>

definition ctx_batch :: "'b option \<Rightarrow> 'b result" where
  "ctx_batch active = (case active of None \<Rightarrow> Inl AssertionError | Some b \<Rightarrow> Inr b)"

definition forward_batch :: "'b \<Rightarrow> ('b option \<Rightarrow> 'r result) \<Rightarrow> 'b option \<Rightarrow> 'r result \<times> 'b option" where
  "forward_batch b body active =
     (if active \<noteq> None then (Inl AssertionError, active) else (body (Some b), None))"

section \<open>Request length bookkeeping\<close>

text \<open>What every live request satisfies between the engine's steps: the step advances
  \<open>device_len\<close> by the token it samples, and under overlap the host list may lag by the tokens in
  flight.\<close>

definition req_ok :: "'h req \<Rightarrow> bool" where
  "req_ok r \<longleftrightarrow> req_cached_len r < device_len r \<and> length (input_ids r) \<le> max_device_len r"

lemma new_req_ok:
  "new_req ids ti cl ol u sp h mm c = Inr r \<Longrightarrow>
   req_ok r \<and> device_len r = length ids \<and> max_device_len r = length ids + ol \<and> 0 < extend_len r \<and>
   remain_len r = int ol"
  by (auto simp: new_req_def result_convs req_ok_def extend_len_def remain_len_def)

lemma complete_one_ok: "req_ok r \<Longrightarrow> req_ok (complete_one r)"
  by (simp add: req_ok_def complete_one_def)

lemma append_host_ok: "req_ok r \<Longrightarrow> append_host toks r = Inr r' \<Longrightarrow> req_ok r'"
  by (auto simp: req_ok_def append_host_def result_convs split: if_splits)

text \<open>A request decodes at most \<open>output_len\<close> tokens: after \<open>n\<close> steps it can decode when the
  budget is not used up.\<close>

lemma decode_budget:
  assumes "new_req ids ti cl ol u sp h mm False = Inr r"
  shows "can_decode ((complete_one ^^ n) r) \<longleftrightarrow> n < ol"
proof -
  have "device_len ((complete_one ^^ n) r) = length ids + n \<and>
      max_device_len ((complete_one ^^ n) r) = length ids + ol \<and> \<not> chunked ((complete_one ^^ n) r)"
    by (induction n) (use assms in \<open>auto simp: new_req_def result_convs complete_one_def\<close>)
  then show ?thesis by (auto simp: can_decode_def remain_len_def)
qed

text \<open>A concrete request, for the cases the properties are evaluated on.\<close>

definition demo_params :: sampling_params where
  "demo_params = \<lparr>temperature = Finite 0, top_k = - 1, top_p = Finite 1, ignore_eos = False, max_tokens = 3,
     stop_strs = [], presence_penalty = Finite 0, frequency_penalty = Finite 0\<rparr>"

definition demo_request :: "nat \<Rightarrow> nat req" where
  "demo_request u = (case new_req [1, 2] 0 0 3 u demo_params 0 False False of Inr r \<Rightarrow> r)"

end
