(* ===== verification/Cache_Manager.thy ===== *)
theory Cache_Manager
  imports Prefix_Cache Core
begin

text \<open>
  \<open>CacheManager\<close> (\<open>scheduler/cache.py\<close>) on the plain paths (\<open>cache_type\<close> naive or radix): the free
  pages, the prefix cache behind its interface, and the page table with one row of slots per
  request. The invariant \<open>cm_ok\<close> is page conservation: the free pages, the slots of the tree and
  the slots the requests own are together exactly the slots of the pool, each once.
\<close>

section \<open>State\<close>

record 'c cmgr =
  free_slots :: "nat list"
  lazy_free_list :: "nat list option"
  prefix_cache :: 'c
  num_pages :: nat
  cm_page_size :: nat
  page_table :: "slot list list"

text \<open>\<open>torch.arange(num_pages) * page_size\<close>\<close>

definition all_pages :: "nat \<Rightarrow> nat \<Rightarrow> nat list" where
  "all_pages n ps = map (\<lambda>i. i * ps) [0..<n]"

definition new_cmgr :: "nat \<Rightarrow> nat \<Rightarrow> slot list list \<Rightarrow> 'c \<Rightarrow> 'c cmgr" where
  "new_cmgr n ps table cache =
     \<lparr>free_slots = all_pages n ps, lazy_free_list = None, prefix_cache = cache, num_pages = n,
      cm_page_size = ps, page_table = table\<rparr>"

text \<open>A slice \<open>xs[a:b]\<close>, a row of the page table (a negative index counts from the end), and the
  assignment of a list to a slice of a row.\<close>

definition slice :: "nat \<Rightarrow> nat \<Rightarrow> 'a list \<Rightarrow> 'a list" where
  "slice a b xs = drop a (take b xs)"

definition row_index :: "int \<Rightarrow> 'a list \<Rightarrow> nat result" where
  "row_index i rows =
     (if 0 \<le> i \<and> i < int (length rows) then Inr (nat i)
      else if i < 0 \<and> - i \<le> int (length rows) then Inr (nat (int (length rows) + i))
      else Inl IndexError)"

definition put_slice :: "nat \<Rightarrow> 'a list \<Rightarrow> 'a list \<Rightarrow> 'a list" where
  "put_slice a vals xs = take a xs @ vals @ drop (a + length vals) xs"

section \<open>Operations\<close>

text \<open>\<open>_free\<close>, outside and inside \<open>lazy_free_region\<close>, and the region's entry and exit.\<close>

definition cm_free :: "slot list \<Rightarrow> 'c cmgr \<Rightarrow> 'c cmgr" where
  "cm_free indices m =
     (case lazy_free_list m of
        None \<Rightarrow> if 0 < length indices
          then m\<lparr>free_slots := free_slots m @ every (cm_page_size m) indices\<rparr> else m
      | Some l \<Rightarrow> m\<lparr>lazy_free_list := Some (l @ every (cm_page_size m) indices)\<rparr>)"

definition enter_lazy :: "'c cmgr \<Rightarrow> 'c cmgr" where
  "enter_lazy m = m\<lparr>lazy_free_list := Some []\<rparr>"

definition exit_lazy :: "'c cmgr \<Rightarrow> 'c cmgr" where
  "exit_lazy m =
     m\<lparr>lazy_free_list := None,
       free_slots := free_slots m @ (case lazy_free_list m of None \<Rightarrow> [] | Some l \<Rightarrow> l)\<rparr>"

definition cm_allocate :: "('c, 'h) pc_ops \<Rightarrow> nat \<Rightarrow> 'c cmgr \<Rightarrow> (nat list \<times> 'c cmgr) result" where
  "cm_allocate ops needed_pages m =
     rbind
       (if length (free_slots m) < needed_pages then
          let need = (needed_pages - length (free_slots m)) * cm_page_size m in
          rbind (pc_evict ops need (prefix_cache m)) (\<lambda>(evicted, c).
            let m' = m\<lparr>prefix_cache := c, free_slots := free_slots m @ every (cm_page_size m) evicted\<rparr> in
            py_assert (needed_pages \<le> length (free_slots m')) (Inr m'))
        else Inr m)
       (\<lambda>m. Inr (take needed_pages (free_slots m), m\<lparr>free_slots := drop needed_pages (free_slots m)\<rparr>))"

text \<open>\<open>allocate_paged\<close>: the page ranges the requests need, then \<open>_write_page_table\<close>.\<close>

definition page_range :: "nat \<Rightarrow> 'h req \<Rightarrow> nat \<times> nat" where
  "page_range ps r = (div_ceil (req_cached_len r) ps, div_ceil (device_len r) ps)"

definition allocation_info :: "nat \<Rightarrow> 'h req list \<Rightarrow> (int \<times> nat \<times> nat) list" where
  "allocation_info ps rs =
     map (\<lambda>r. (table_idx r, page_range ps r)) (filter (\<lambda>r. fst (page_range ps r) < snd (page_range ps r)) rs)"

definition needed_pages :: "(int \<times> nat \<times> nat) list \<Rightarrow> nat" where
  "needed_pages info = sum_list (map (\<lambda>(_, first_page, last_page). last_page - first_page) info)"

fun write_page_table :: "slot list list \<Rightarrow> slot list \<Rightarrow> (int \<times> nat \<times> nat) list \<Rightarrow> nat \<Rightarrow> slot list list result" where
  "write_page_table table allocated [] ps = py_assert (allocated = []) (Inr table)"
| "write_page_table table allocated ((ti, first_page, last_page) # info) ps =
     (let first_pos = first_page * ps; last_pos = last_page * ps; len = last_pos - first_pos in
      rbind (row_index ti table) (\<lambda>i.
        if last_pos \<le> length (table ! i)
        then write_page_table (table[i := put_slice first_pos (take len allocated) (table ! i)])
               (drop len allocated) info ps
        else Inl IndexError))"

definition allocate_paged :: "('c, 'h) pc_ops \<Rightarrow> 'h req list \<Rightarrow> 'c cmgr \<Rightarrow> 'c cmgr result" where
  "allocate_paged ops rs m =
     (let info = allocation_info (cm_page_size m) rs in
      if 0 < needed_pages info then
        rbind (cm_allocate ops (needed_pages info) m) (\<lambda>(pages, m').
          rbind (write_page_table (page_table m') (page_to_token (cm_page_size m) pages) info (cm_page_size m))
            (\<lambda>table. Inr (m'\<lparr>page_table := table\<rparr>)))
      else Inr m)"

text \<open>\<open>match_req\<close>: at least the last token is computed again, and a request with images never
  reuses a prefix.\<close>

definition match_req :: "('c, 'h) pc_ops \<Rightarrow> int \<Rightarrow> int list \<Rightarrow> bool \<Rightarrow> 'c cmgr \<Rightarrow> ('h \<times> 'c cmgr) result" where
  "match_req ops tic ids mm m =
     py_assert (0 < length ids)
       (rbind (pc_match ops tic (if mm then [] else take (length ids - 1) ids) (prefix_cache m))
          (\<lambda>(h, c). Inr (h, m\<lparr>prefix_cache := c\<rparr>)))"

definition cm_lock :: "('c, 'h) pc_ops \<Rightarrow> 'h \<Rightarrow> 'c cmgr \<Rightarrow> 'c cmgr result" where
  "cm_lock ops h m = rbind (pc_lock ops h False (prefix_cache m)) (\<lambda>c. Inr (m\<lparr>prefix_cache := c\<rparr>))"

definition cm_unlock :: "('c, 'h) pc_ops \<Rightarrow> 'h \<Rightarrow> 'c cmgr \<Rightarrow> 'c cmgr result" where
  "cm_unlock ops h m = rbind (pc_lock ops h True (prefix_cache m)) (\<lambda>c. Inr (m\<lparr>prefix_cache := c\<rparr>))"

definition available_size :: "('c, 'h) pc_ops \<Rightarrow> 'c cmgr \<Rightarrow> int" where
  "available_size ops m =
     fst (pc_size_info ops (prefix_cache m)) + int (length (free_slots m) * cm_page_size m)"

definition page_usage :: "('c, 'h) pc_ops \<Rightarrow> 'c cmgr \<Rightarrow> int \<times> nat" where
  "page_usage ops m =
     (int (num_pages m) - int (length (free_slots m)) -
        fst (pc_size_info ops (prefix_cache m)) div int (cm_page_size m), num_pages m)"

definition padded_tail :: "'h req \<Rightarrow> nat \<Rightarrow> 'c cmgr \<Rightarrow> slot list result" where
  "padded_tail r start m =
     rbind (row_index (table_idx r) (page_table m)) (\<lambda>i.
       Inr (slice start (div_ceil (req_cached_len r) (cm_page_size m) * cm_page_size m) (page_table m ! i)))"

text \<open>\<open>cache_req\<close>: commit the computed prefix of a request to the cache, free what the cache
  already had, and at the end of the request free its tail; otherwise move the request's handle to
  the committed prefix and point its row at the cached pages.\<close>

definition cache_req ::
    "('c, 'h) pc_ops \<Rightarrow> int \<Rightarrow> int \<Rightarrow> 'h req \<Rightarrow> bool \<Rightarrow> 'c cmgr \<Rightarrow> ('h req \<times> 'c cmgr) result" where
  "cache_req ops tic now r finished m =
     rbind (row_index (table_idx r) (page_table m)) (\<lambda>i.
       let page_indices = take (req_cached_len r) (page_table m ! i);
           old = cache_handle r; old_len = pc_cached_len ops old in
       if mm_embeds r then
         rbind (cm_unlock ops old m) (\<lambda>m1.
           if finished then rbind (padded_tail r old_len m1) (\<lambda>tail. Inr (r, cm_free tail m1))
           else Inr (r, m1))
       else
         rbind (pc_insert ops tic now (take (req_cached_len r) (input_ids r)) page_indices (prefix_cache m))
           (\<lambda>(cached_len, new_handle, c).
             rbind (cm_unlock ops old (m\<lparr>prefix_cache := c\<rparr>)) (\<lambda>m1.
               let m2 = cm_free (slice old_len cached_len page_indices) m1 in
               if finished then
                 rbind (padded_tail r (pc_cached_len ops new_handle) m2) (\<lambda>tail. Inr (r, cm_free tail m2))
               else
                 rbind (if old_len < cached_len then
                          rbind (pc_indices ops new_handle (prefix_cache m2)) (\<lambda>canonical.
                            Inr (m2\<lparr>page_table := (page_table m2)[i :=
                              put_slice old_len (slice old_len cached_len canonical) (page_table m2 ! i)]\<rparr>))
                        else Inr m2)
                   (\<lambda>m3. rbind (cm_lock ops new_handle m3) (\<lambda>m4. Inr (r\<lparr>cache_handle := new_handle\<rparr>, m4))))))"

definition check_integrity :: "('c, 'h) pc_ops \<Rightarrow> 'c cmgr \<Rightarrow> unit result" where
  "check_integrity ops m =
     (let cache_pages = total_size (pc_size_info ops (prefix_cache m)) div int (cm_page_size m) in
      if int (length (free_slots m)) + cache_pages \<noteq> int (num_pages m) then Inl RuntimeError
      else if 1 < cm_page_size m then py_assert (list_all (\<lambda>x. x mod cm_page_size m = 0) (free_slots m)) (Inr ())
      else Inr ())"

text \<open>\<open>rebuild\<close>: a fresh cache over a new table; all pages are free.\<close>

definition cm_rebuild :: "nat \<Rightarrow> slot list list \<Rightarrow> 'c \<Rightarrow> 'c cmgr \<Rightarrow> 'c cmgr" where
  "cm_rebuild n table fresh_cache m =
     m\<lparr>num_pages := n, page_table := table, free_slots := all_pages n (cm_page_size m),
       prefix_cache := fresh_cache\<rparr>"

end
