(* ===== verification/Page_Conservation.thy ===== *)
theory Page_Conservation
  imports Cache_Manager
begin

text \<open>
  Page conservation of the cache manager, proved once under the contract of the prefix cache.
  \<open>H\<close> gives for every row of the page table the interval of positions whose slots its request owns;
  \<open>cm_ok L H\<close> says that the free pages, the slots of the tree and the owned slots are the slots of
  the pool, each exactly once, so nothing leaks and nothing is freed twice.
\<close>

section \<open>Slices and holdings\<close>

lemma slice_append: "a \<le> b \<Longrightarrow> b \<le> c \<Longrightarrow> slice a b xs @ slice b c xs = slice a c xs"
proof -
  assume ab: "a \<le> b" and bc: "b \<le> c"
  have "drop a (take c xs) = drop a (take b xs @ drop b (take c xs))"
    using bc by (metis append_take_drop_id min.absorb2 take_take min.commute)
  also have "\<dots> = drop a (take b xs) @ drop b (take c xs)"
    by (cases "a \<le> length (take b xs)") (use ab bc in \<open>auto simp: min_def split: if_splits\<close>)
  finally show ?thesis by (simp add: slice_def)
qed

lemma slice_alt: "slice a b xs = take (b - a) (drop a xs)"
  by (simp add: slice_def drop_take)

lemma slice_length: "b \<le> length xs \<Longrightarrow> length (slice a b xs) = b - a"
  by (simp add: slice_def)

lemma slice_take: "b \<le> n \<Longrightarrow> slice a b (take n xs) = slice a b xs"
  by (simp add: slice_def min_def)

lemma slice_Nil [simp]: "slice a a xs = []"
  by (simp add: slice_def)

lemma slice_tail: "length C = n \<Longrightarrow> slice n c (C @ slice n c row) = slice n c row"
  by (simp add: slice_alt)

lemma put_slice_length: "a + length v \<le> length xs \<Longrightarrow> length (put_slice a v xs) = length xs"
  by (simp add: put_slice_def)

lemma put_slice_before: "b \<le> a \<Longrightarrow> a \<le> length xs \<Longrightarrow> take b (put_slice a v xs) = take b xs"
  by (simp add: put_slice_def min_def)

lemma put_slice_here: "a \<le> length xs \<Longrightarrow> b = a + length v \<Longrightarrow> slice a b (put_slice a v xs) = v"
  by (simp add: put_slice_def slice_def)

lemma put_slice_after:
  assumes "a + length v \<le> c" and "a + length v \<le> length xs"
  shows "slice c d (put_slice a v xs) = slice c d xs"
proof -
  have "drop c (put_slice a v xs) = drop c xs" using assms by (simp add: put_slice_def min_def)
  then show ?thesis by (simp only: slice_alt)
qed

lemma paged_slice:
  assumes "0 < ps" and "paged ps (slice lo hi row)" and "hi \<le> length row"
    and "ps dvd lo" "ps dvd a" "ps dvd b" and "lo \<le> a" "a \<le> b" "b \<le> hi"
  shows "paged ps (slice a b row)"
proof -
  have "slice a b row = drop (a - lo) (take (b - lo) (slice lo hi row))"
    using assms(7-9) by (simp add: slice_alt drop_take min_def)
  moreover have "ps dvd a - lo" "ps dvd b - lo" using assms by (simp_all add: dvd_diff_nat)
  ultimately show ?thesis using paged_cut [OF assms(1)] assms(2) by simp
qed

definition held :: "(nat \<times> nat) list \<Rightarrow> slot list list \<Rightarrow> slot list" where
  "held H table = concat (map2 (\<lambda>(lo, hi) row. slice lo hi row) H table)"

lemma held_update:
  assumes "length H = length table" and "i < length H"
  shows "mset (held (H[i := (lo, hi)]) (table[i := row])) + mset (slice (fst (H ! i)) (snd (H ! i)) (table ! i))
       = mset (held H table) + mset (slice lo hi row)"
  using assms
proof (induction H table arbitrary: i rule: list_induct2)
  case (Cons e H row0 table)
  then show ?case
  proof (cases i)
    case (Suc j)
    then show ?thesis using Cons.IH [of j] Cons.prems
      by (auto simp: held_def ac_simps split: prod.splits)
  qed (auto simp: held_def ac_simps split: prod.splits)
qed simp

lemma held_empty: "\<forall>e \<in> set H. fst e = snd e \<Longrightarrow> held H table = []"
proof (induction H arbitrary: table)
  case (Cons e H)
  then show ?case by (cases table) (auto simp: held_def split: prod.splits)
qed (simp add: held_def)

lemma held_none:
  assumes "length H = length T" and "\<forall>i < length H. fst (H ! i) \<le> snd (H ! i) \<and> snd (H ! i) \<le> length (T ! i)"
  shows "held H T = [] \<longleftrightarrow> (\<forall>e \<in> set H. fst e = snd e)"
  using assms
proof (induction H T rule: list_induct2)
  case (Cons e H row T)
  have e: "fst e \<le> snd e" "snd e \<le> length row" using Cons.prems by (auto dest: spec [of _ 0])
  have "held H T = [] \<longleftrightarrow> (\<forall>e \<in> set H. fst e = snd e)" by (rule Cons.IH) (use Cons.prems in fastforce)
  moreover have "slice (fst e) (snd e) row = [] \<longleftrightarrow> fst e = snd e" using e by (auto simp: slice_def)
  moreover have "held (e # H) (row # T) = slice (fst e) (snd e) row @ held H T" by (simp add: held_def case_prod_beta)
  ultimately show ?case by simp
qed (simp add: held_def)

definition total_free :: "'c cmgr \<Rightarrow> nat list" where
  "total_free m = free_slots m @ (case lazy_free_list m of None \<Rightarrow> [] | Some l \<Rightarrow> l)"

definition holding_ok :: "nat \<Rightarrow> nat \<times> nat \<Rightarrow> slot list \<Rightarrow> bool" where
  "holding_ok ps e row \<longleftrightarrow> fst e \<le> snd e \<and> ps dvd fst e \<and> ps dvd snd e \<and> snd e \<le> length row \<and>
     paged ps (slice (fst e) (snd e) row)"

definition cm_ok :: "('c, 'h) pc_view \<Rightarrow> nat multiset \<Rightarrow> (nat \<times> nat) list \<Rightarrow> 'c cmgr \<Rightarrow> bool" where
  "cm_ok V L H m \<longleftrightarrow> v_ok V (cm_page_size m) L (prefix_cache m) \<and>
     length H = length (page_table m) \<and>
     (\<forall>i < length H. holding_ok (cm_page_size m) (H ! i) (page_table m ! i)) \<and>
     (\<forall>b \<in> set (total_free m). cm_page_size m dvd b) \<and>
     mset (page_to_token (cm_page_size m) (total_free m)) + v_slots V (prefix_cache m) +
       mset (held H (page_table m)) = mset [0..<num_pages m * cm_page_size m]"

lemma cm_okD:
  assumes "cm_ok V L H m"
  shows "v_ok V (cm_page_size m) L (prefix_cache m)" "length H = length (page_table m)"
    "\<And>i. i < length H \<Longrightarrow> holding_ok (cm_page_size m) (H ! i) (page_table m ! i)"
    "\<And>b. b \<in> set (total_free m) \<Longrightarrow> cm_page_size m dvd b"
    "mset (page_to_token (cm_page_size m) (total_free m)) + v_slots V (prefix_cache m) +
       mset (held H (page_table m)) = mset [0..<num_pages m * cm_page_size m]"
  using assms by (auto simp: cm_ok_def)

lemma page_to_token_append: "page_to_token ps (a @ b) = page_to_token ps a @ page_to_token ps b"
  by simp

lemma every_Nil [simp]: "every ps [] = []"
  by (cases ps) (simp_all add: every_def div_ceil_def)

lemma total_free_cm_free: "mset (total_free (cm_free v m)) = mset (total_free m) + mset (every (cm_page_size m) v)"
  by (auto simp: total_free_def cm_free_def split: option.splits)

lemma cm_free_fields [simp]:
  "prefix_cache (cm_free v m) = prefix_cache m" "page_table (cm_free v m) = page_table m"
  "cm_page_size (cm_free v m) = cm_page_size m" "num_pages (cm_free v m) = num_pages m"
  by (simp_all add: cm_free_def split: option.splits)

lemma mset_page_to_token:
  assumes "mset a = mset b"
  shows "mset (page_to_token ps a) = mset (page_to_token ps b)"
proof -
  have "mset (page_to_token ps xs) = (\<Sum>p \<in># mset xs. mset (map (\<lambda>i. p + i) [0..<ps]))" for xs
    by (induction xs) simp_all
  then show ?thesis using assms by metis
qed

lemma cm_free_tokens:
  assumes "paged (cm_page_size m) v"
  shows "mset (page_to_token (cm_page_size m) (total_free (cm_free v m))) =
     mset (page_to_token (cm_page_size m) (total_free m)) + mset v"
proof -
  have "mset (total_free (cm_free v m)) = mset (total_free m @ every (cm_page_size m) v)"
    by (simp add: total_free_cm_free)
  from mset_page_to_token [OF this] show ?thesis using pagedD [OF assms] by simp
qed

lemma cm_free_dvd:
  assumes "paged (cm_page_size m) v" and "\<forall>b \<in> set (total_free m). cm_page_size m dvd b"
  shows "\<forall>b \<in> set (total_free (cm_free v m)). cm_page_size m dvd b"
proof -
  have "set (total_free (cm_free v m)) = set (total_free m) \<union> set (every (cm_page_size m) v)"
    using arg_cong [OF total_free_cm_free, of set_mset v m] by simp
  then show ?thesis using assms by (auto simp: paged_def list_all_iff)
qed

section \<open>Writing allocated pages into the table\<close>

text \<open>\<open>grow\<close>: every request in the list now owns its row up to the end of its last page.\<close>

fun grow :: "nat \<Rightarrow> (nat \<times> nat \<times> nat) list \<Rightarrow> (nat \<times> nat) list \<Rightarrow> (nat \<times> nat) list" where
  "grow ps [] H = H"
| "grow ps ((i, f, l) # info) H = grow ps info (H[i := (fst (H ! i), l * ps)])"

definition table_ok :: "nat \<Rightarrow> (nat \<times> nat) list \<Rightarrow> slot list list \<Rightarrow> bool" where
  "table_ok ps H table \<longleftrightarrow> length H = length table \<and> (\<forall>i < length H. holding_ok ps (H ! i) (table ! i))"

definition can_write :: "nat \<Rightarrow> (nat \<times> nat) list \<Rightarrow> slot list list \<Rightarrow> nat \<times> nat \<times> nat \<Rightarrow> bool" where
  "can_write ps H table = (\<lambda>(i, f, l). i < length H \<and> snd (H ! i) = f * ps \<and> f \<le> l \<and> l * ps \<le> length (table ! i))"

lemma row_index_nat: "i < length rows \<Longrightarrow> row_index (int i) rows = Inr i"
  by (simp add: row_index_def)

lemma put_slice_take: "a \<le> length xs \<Longrightarrow> take a (put_slice a v xs) = take a xs"
  by (simp add: put_slice_def)

lemma write_one:
  assumes ps: "0 < ps" and t: "table_ok ps H table" and w: "can_write ps H table (i, f, l)"
    and v: "paged ps v" "length v = (l - f) * ps"
  shows "table_ok ps (H[i := (fst (H ! i), l * ps)]) (table[i := put_slice (f * ps) v (table ! i)])"
    and "mset (held (H[i := (fst (H ! i), l * ps)]) (table[i := put_slice (f * ps) v (table ! i)])) =
         mset (held H table) + mset v"
proof -
  let ?row = "table ! i" and ?row' = "put_slice (f * ps) v (table ! i)" and ?lo = "fst (H ! i)"
  have i: "i < length H" "length H = length table" and H: "H ! i = (?lo, f * ps)"
    and fl: "f \<le> l" "l * ps \<le> length ?row" "f * ps \<le> l * ps"
    using t w by (auto simp: table_ok_def can_write_def prod_eq_iff)
  have ho: "holding_ok ps (H ! i) ?row" using t i by (simp add: table_ok_def)
  then have h: "?lo \<le> f * ps" "ps dvd ?lo" "paged ps (slice ?lo (f * ps) ?row)"
    using H by (metis holding_ok_def fst_conv snd_conv)+
  have vl: "f * ps + length v = l * ps" using v(2) fl(1,3) by (simp add: diff_mult_distrib)
  have len': "length ?row' = length ?row" using put_slice_length [of "f * ps" v ?row] vl fl by simp
  have fr: "f * ps \<le> length ?row" using fl by linarith
  have s1: "slice ?lo (f * ps) ?row' = slice ?lo (f * ps) ?row"
    unfolding slice_def using put_slice_take [OF fr] by simp
  have s2: "slice (f * ps) (l * ps) ?row' = v" by (rule put_slice_here [OF fr vl [symmetric]])
  have sp: "slice ?lo (l * ps) ?row' = slice ?lo (f * ps) ?row @ v"
    using slice_append [OF h(1) fl(3), of ?row'] s1 s2 by simp
  have new: "holding_ok ps (?lo, l * ps) ?row'"
    using h(1,2) le_trans [OF h(1) fl(3)] fl(2) len' sp paged_append [OF ps h(3) v(1)] by (simp add: holding_ok_def)
  then show "table_ok ps (H[i := (?lo, l * ps)]) (table[i := ?row'])"
    using t i by (auto simp: table_ok_def nth_list_update)
  have "mset (held (H[i := (?lo, l * ps)]) (table[i := ?row'])) + mset (slice ?lo (f * ps) ?row) =
     mset (held H table) + (mset (slice ?lo (f * ps) ?row) + mset v)"
    using held_update [OF i(2,1), of ?lo "l * ps" ?row'] H sp by (metis fst_conv mset_append snd_conv)
  then show "mset (held (H[i := (?lo, l * ps)]) (table[i := ?row'])) = mset (held H table) + mset v"
    by (simp add: ac_simps)
qed

lemma write_page_table_ok:
  assumes "0 < ps" and "table_ok ps H table" and "\<forall>e \<in> set info. can_write ps H table e"
    and "distinct (map fst info)" and "paged ps allocated"
    and "length allocated = needed_pages info' * ps" and "info' = map (\<lambda>(i, fl). (int i, fl)) info"
  shows "\<exists>table'. write_page_table table allocated info' ps = Inr table' \<and>
     table_ok ps (grow ps info H) table' \<and> mset (held (grow ps info H) table') = mset (held H table) + mset allocated \<and>
     (\<forall>i < length table. length (table' ! i) = length (table ! i) \<and> take (snd (H ! i)) (table' ! i) = take (snd (H ! i)) (table ! i))"
  using assms
proof (induction info arbitrary: H table allocated info')
  case Nil
  then show ?case by (simp add: needed_pages_def py_assert_def)
next
  case (Cons e info)
  obtain i f l where e: "e = (i, f, l)" by (cases e)
  let ?v = "take ((l - f) * ps) allocated" and ?a = "drop ((l - f) * ps) allocated"
  let ?H = "H[i := (fst (H ! i), l * ps)]" and ?T = "table[i := put_slice (f * ps) ?v (table ! i)]"
  let ?info' = "map (\<lambda>(i, fl). (int i, fl)) info"
  have w: "can_write ps H table (i, f, l)" using Cons.prems(3) e by simp
  have i: "i < length H" "i < length table" and fl: "f \<le> l" "l * ps \<le> length (table ! i)" "snd (H ! i) = f * ps"
    using w Cons.prems(2) by (auto simp: can_write_def table_ok_def)
  have need: "needed_pages info' * ps = (l - f) * ps + needed_pages ?info' * ps"
    using Cons.prems(7) e by (simp add: needed_pages_def add_mult_distrib)
  have lv: "length ?v = (l - f) * ps" and la: "length ?a = needed_pages ?info' * ps"
    using Cons.prems(6) need by simp_all
  have pv: "paged ps ?v" "paged ps ?a" using paged_cut [OF Cons.prems(1,5), of "(l - f) * ps"] by simp_all
  note W = write_one [OF Cons.prems(1,2) w pv(1) lv]
  have "f * ps + length ?v = l * ps" using lv fl(1) by (simp add: diff_mult_distrib)
  then have len: "length (put_slice (f * ps) ?v (table ! i)) = length (table ! i)"
    using put_slice_length [of "f * ps" ?v "table ! i"] fl by simp
  have rest: "\<forall>e \<in> set info. can_write ps ?H ?T e"
    using Cons.prems(3,4) e len by (force simp: can_write_def nth_list_update)
  have d: "distinct (map fst info)" using Cons.prems(4) by simp
  obtain T' where T': "write_page_table ?T ?a ?info' ps = Inr T'" "table_ok ps (grow ps info ?H) T'"
     "mset (held (grow ps info ?H) T') = mset (held ?H ?T) + mset ?a"
     "\<forall>j < length ?T. length (T' ! j) = length (?T ! j) \<and> take (snd (?H ! j)) (T' ! j) = take (snd (?H ! j)) (?T ! j)"
    using Cons.IH [OF Cons.prems(1) W(1) rest d pv(2) la refl] by blast
  have run: "write_page_table table allocated info' ps = Inr T'"
    using T'(1) i(2) fl(2) Cons.prems(7) e
    by (simp add: Let_def row_index_nat diff_mult_distrib)
  have "length (T' ! j) = length (table ! j) \<and> take (snd (H ! j)) (T' ! j) = take (snd (H ! j)) (table ! j)"
    if "j < length table" for j
  proof (cases "j = i")
    case True
    have "take (l * ps) (T' ! i) = take (l * ps) (put_slice (f * ps) ?v (table ! i))"
      "length (T' ! i) = length (table ! i)"
      using T'(4) i len by auto
    moreover have "f * ps \<le> l * ps" using fl(1) by simp
    ultimately have "take (f * ps) (T' ! i) = take (f * ps) (put_slice (f * ps) ?v (table ! i))"
      by (metis min.absorb1 take_take)
    then show ?thesis using True fl \<open>length (T' ! i) = length (table ! i)\<close> \<open>f * ps \<le> l * ps\<close>
      put_slice_take [of "f * ps" "table ! i" ?v] by simp
  next
    case False
    then have "?H ! j = H ! j" "?T ! j = table ! j" by simp_all
    moreover have "length (T' ! j) = length (?T ! j) \<and> take (snd (?H ! j)) (T' ! j) = take (snd (?H ! j)) (?T ! j)"
      using T'(4) that by (simp del: nth_list_update_eq nth_list_update)
    ultimately show ?thesis by metis
  qed
  moreover have "mset (held (grow ps (e # info) H) T') = mset (held H table) + mset allocated"
    using T'(3) W(2) e by (simp flip: mset_append)
  ultimately show ?case using run T'(2) e by simp
qed

definition grown :: "nat \<Rightarrow> 'r req list \<Rightarrow> (nat \<times> nat \<times> nat) list" where
  "grown ps rs = map (\<lambda>r. (nat (table_idx r), page_range ps r))
     (filter (\<lambda>r. fst (page_range ps r) < snd (page_range ps r)) rs)"

text \<open>A batch that may be allocated: different rows, each filled up to the page of its cached
  length and long enough for the new tokens.\<close>

definition batch_ok :: "(nat \<times> nat) list \<Rightarrow> 'r req list \<Rightarrow> 'c cmgr \<Rightarrow> bool" where
  "batch_ok H rs m \<longleftrightarrow> distinct (map table_idx rs) \<and>
     (\<forall>r \<in> set rs. \<exists>i < length H. table_idx r = int i \<and>
        snd (H ! i) = div_ceil (req_cached_len r) (cm_page_size m) * cm_page_size m \<and>
        div_ceil (device_len r) (cm_page_size m) * cm_page_size m \<le> length (page_table m ! i))"

section \<open>Under the contract of the prefix cache\<close>

context prefix_cache
begin

text \<open>A request gives up a part of what it holds.\<close>

lemma cm_ok_free:
  assumes ok: "cm_ok V L H m" and i: "i < length H" and H: "H ! i = (lo, hi)"
    and v: "v = slice lo a (page_table m ! i)" and a: "lo \<le> a" "a \<le> hi" "cm_page_size m dvd a"
  shows "cm_ok V L (H[i := (a, hi)]) (cm_free v m)"
proof -
  note D = cm_okD [OF ok]
  have h: "lo \<le> hi" "cm_page_size m dvd lo" "cm_page_size m dvd hi" "hi \<le> length (page_table m ! i)"
    "paged (cm_page_size m) (slice lo hi (page_table m ! i))"
    using D(3) [OF i] H by (simp_all add: holding_ok_def)
  have ps: "0 < cm_page_size m" using ok_nodes [OF D(1)] by simp
  let ?row = "page_table m ! i"
  have pv: "paged (cm_page_size m) v" unfolding v
    by (rule paged_slice [OF ps h(5,4,2,2) a(3) order_refl a(1,2)])
  have pr: "paged (cm_page_size m) (slice a hi ?row)"
    by (rule paged_slice [OF ps h(5,4,2) a(3) h(3) a(1,2) order_refl])
  have hold: "holding_ok (cm_page_size m) (H[i := (a, hi)] ! j) (page_table m ! j)" if "j < length H" for j
    using D(3) [OF that] that a h pr by (cases "j = i") (simp_all add: holding_ok_def)
  have sp: "mset (slice lo hi ?row) = mset v + mset (slice a hi ?row)"
    unfolding v using slice_append [OF a(1,2), of ?row] by (metis mset_append)
  have "mset (held (H[i := (a, hi)]) (page_table m)) + mset (slice lo hi ?row) = mset (held H (page_table m)) + mset (slice a hi ?row)"
    using held_update [OF D(2) i, of a hi ?row] H by simp
  then have "mset (held H (page_table m)) = mset (held (H[i := (a, hi)]) (page_table m)) + mset v"
    unfolding sp by (simp add: ac_simps)
  then show ?thesis
    using D(1,2) hold cm_free_dvd [OF pv] D(4,5) cm_free_tokens [OF pv] by (simp add: cm_ok_def ac_simps)
qed

lemma cm_ok_adopt:
  assumes ok: "cm_ok V L H m" and i: "i < length H" and H: "H ! i = (lo, hi)"
    and a: "lo \<le> a" "a \<le> hi" "cm_page_size m dvd a"
    and s: "v_ok V (cm_page_size m) L' c"
      "v_slots V c = v_slots V (prefix_cache m) + mset (slice lo a (page_table m ! i))"
  shows "cm_ok V L' (H[i := (a, hi)]) (m\<lparr>prefix_cache := c\<rparr>)"
proof -
  note D = cm_okD [OF ok]
  let ?row = "page_table m ! i"
  have h: "lo \<le> hi" "cm_page_size m dvd lo" "cm_page_size m dvd hi" "hi \<le> length ?row"
    "paged (cm_page_size m) (slice lo hi ?row)"
    using D(3) [OF i] H by (simp_all add: holding_ok_def)
  have ps: "0 < cm_page_size m" using ok_nodes [OF D(1)] by simp
  have pr: "paged (cm_page_size m) (slice a hi ?row)"
    by (rule paged_slice [OF ps h(5,4,2) a(3) h(3) a(1,2) order_refl])
  have hold: "holding_ok (cm_page_size m) (H[i := (a, hi)] ! j) (page_table m ! j)" if "j < length H" for j
    using D(3) [OF that] that a h pr by (cases "j = i") (simp_all add: holding_ok_def)
  have sp: "mset (slice lo hi ?row) = mset (slice lo a ?row) + mset (slice a hi ?row)"
    using slice_append [OF a(1,2), of ?row] by (metis mset_append)
  have "mset (held (H[i := (a, hi)]) (page_table m)) + mset (slice lo hi ?row) = mset (held H (page_table m)) + mset (slice a hi ?row)"
    using held_update [OF D(2) i, of a hi ?row] H by simp
  then have "mset (held H (page_table m)) = mset (held (H[i := (a, hi)]) (page_table m)) + mset (slice lo a ?row)"
    unfolding sp by (simp add: ac_simps)
  then show ?thesis using D(2,4,5) hold s by (simp add: cm_ok_def total_free_def ac_simps)
qed

text \<open>An empty interval may be anywhere.\<close>

lemma cm_ok_empty:
  assumes ok: "cm_ok V L H m" and i: "i < length H" and H: "H ! i = (hi, hi)"
  shows "cm_ok V L (H[i := (0, 0)]) m"
proof -
  note D = cm_okD [OF ok]
  have ps: "0 < cm_page_size m" using ok_nodes [OF D(1)] by simp
  have "mset (held (H[i := (0, 0)]) (page_table m)) = mset (held H (page_table m))"
    using held_update [OF D(2) i, of 0 0 "page_table m ! i"] H by simp
  moreover have "holding_ok (cm_page_size m) (H[i := (0, 0)] ! j) (page_table m ! j)" if "j < length H" for j
    using D(3) [OF that] that by (cases "j = i") (simp_all add: holding_ok_def)
  ultimately show ?thesis using D by (simp add: cm_ok_def)
qed

lemma content_pages: "v_ok V ps L s \<Longrightarrow> ps dvd length (v_content V s ids)"
  using matching [of ps L s 0 ids] reach by (metis (no_types, lifting))

lemma cm_free_prefix_cache: "cm_free v (m\<lparr>prefix_cache := c\<rparr>) = (cm_free v m)\<lparr>prefix_cache := c\<rparr>"
  by (simp add: cm_free_def split: option.splits)

text \<open>The state after the insertion, the release of the old handle and the return of the slots the
  tree had already: the request holds the part behind the committed prefix.\<close>

lemma commit_prefix:
  assumes ok: "cm_ok V (add_mset (v_target V old) L) H m" and i: "i < length H" and H: "H ! i = (lo, hi)"
    and old: "pc_cached_len ops old = lo" "v_key V (v_target V old) (prefix_cache m) = take lo ids"
    and cl: "lo \<le> cl" "cl \<le> hi" "cl \<le> length ids"
  obtains n new c d where
    "pc_insert ops tic now (take cl ids) (take cl (page_table m ! i)) (prefix_cache m) = Inr (n, new, c)"
    "pc_lock ops old True c = Inr d" "v_ok V (cm_page_size m) L d"
    "cm_ok V L (H[i := (pc_cached_len ops new, hi)]) (cm_free (slice lo n (page_table m ! i)) (m\<lparr>prefix_cache := d\<rparr>))"
    "lo \<le> n" "n \<le> pc_cached_len ops new" "pc_cached_len ops new \<le> cl" "cm_page_size m dvd pc_cached_len ops new"
    "v_target V new \<in> v_nodes V d" "v_key V (v_target V new) d = take (pc_cached_len ops new) ids"
    "prefix (v_path V (v_target V old) (prefix_cache m)) (v_path V (v_target V new) d)"
    "slice n (pc_cached_len ops new) (v_path V (v_target V new) d) = slice n (pc_cached_len ops new) (page_table m ! i)"
    "length (v_path V (v_target V new) d) = pc_cached_len ops new"
    "v_root V d = v_root V (prefix_cache m)"
proof -
  note D = cm_okD [OF ok]
  let ?ps = "cm_page_size m" and ?row = "page_table m ! i" and ?s = "prefix_cache m"
  let ?ids' = "take (align_down (length (take cl ids)) ?ps) (take cl ids)" and ?il = "align_down cl ?ps"
  let ?C = "v_content V ?s ?ids'"
  let ?n = "length ?C"
  have ps: "0 < ?ps" and tin: "v_target V old \<in> v_nodes V ?s" using ok_nodes [OF D(1)] by auto
  have h: "lo \<le> hi" "?ps dvd lo" "?ps dvd hi" "hi \<le> length ?row" "paged ?ps (slice lo hi ?row)"
    using D(3) [OF i] H by (simp_all add: holding_ok_def)
  have lenc: "length (take cl ids) = cl" "length (take cl ?row) = cl" using cl h by simp_all
  have loil: "lo \<le> ?il" using align_down_greatest [OF h(2) cl(1)] .
  have ilcl: "?il \<le> cl" by simp
  have ids': "?ids' = take ?il ids" using lenc ilcl by (simp add: min_def)
  have R: "length (v_path V (v_target V old) ?s) = lo"
    using reach [OF D(1) tin, of "[]"] old(2) cl by simp
  have "?ids' = v_key V (v_target V old) ?s @ drop lo ?ids'"
    unfolding ids' old(2) using loil by (metis append_take_drop_id min.absorb2 min.commute take_take)
  then have pre: "prefix (v_path V (v_target V old) ?s) ?C" using reach [OF D(1) tin] by metis
  then have lon: "lo \<le> ?n" using R prefix_length_le by fastforce
  have dn: "?ps dvd ?n" by (rule content_pages [OF D(1)])
  obtain h0 s0 where "v_path V (v_target V h0) s0 = ?C" "v_target V h0 \<in> v_nodes V s0" "v_ok V ?ps (add_mset (v_target V old) L) s0"
     "v_key V (v_target V h0) s0 = take (pc_cached_len ops h0) ?ids'"
    using matching [OF D(1), of 0 ?ids'] by auto
  then have nil: "?n \<le> ?il" using reach [of ?ps "add_mset (v_target V old) L" s0 "v_target V h0" "[]"] lenc
    by (metis length_take min.bounded_iff order_refl ids' min.cobounded1 min.coboundedI1 le_trans)
  have il_hi: "?il \<le> hi" using ilcl cl(2) by linarith
  have new_eq: "drop ?n (take b (take cl ?row)) = slice ?n b ?row" if "b \<le> cl" for b
    using that by (simp add: slice_def min_def)
  have "?il \<le> length ids" using ilcl cl(3) by (rule le_trans)
  then have "length ?ids' = ?il" unfolding ids' by simp
  then have pg: "paged ?ps (drop ?n (take (length ?ids') (take cl ?row)))"
    using new_eq [OF ilcl] paged_slice [OF ps h(5,4,2) dn _ lon nil il_hi] by simp
  have lens: "length (take cl ?row) = length (take cl ids)" using lenc by simp
  obtain new c where ins: "pc_insert ops tic now (take cl ids) (take cl ?row) ?s = Inr (?n, new, c)"
     "v_ok V ?ps (add_mset (v_target V old) L) c" "v_keeps V ?s c"
     "v_slots V c = v_slots V ?s + mset (drop ?n (take (pc_cached_len ops new) (take cl ?row)))"
     "?n \<le> pc_cached_len ops new" "pc_cached_len ops new \<le> length ?ids'" "v_target V new \<in> v_nodes V c"
     "v_path V (v_target V new) c = ?C @ drop ?n (take (pc_cached_len ops new) (take cl ?row))"
     "v_key V (v_target V new) c = take (pc_cached_len ops new) (take cl ids)"
    using inserting [OF D(1) lens refl refl pg, of tic now] by metis
  let ?c = "pc_cached_len ops new"
  have c_il: "?c \<le> ?il" using ins(6) unfolding \<open>length ?ids' = ?il\<close> .
  then have c_cl: "?c \<le> cl" using ilcl by linarith
  obtain d where un: "pc_lock ops old True c = Inr d" "v_ok V ?ps L d" "v_keeps V c d" "v_nodes V d = v_nodes V c"
     "v_slots V d = v_slots V c"
    using unlocking [OF ins(2)] by metis
  have path_d: "v_path V (v_target V new) d = ?C @ slice ?n ?c ?row"
    and key_d: "v_key V (v_target V new) d = take ?c ids"
    using un(3) ins(7,8,9) new_eq [OF c_cl] c_cl by (simp_all add: v_keeps_def min_def)
  have Rn: "?ps dvd ?c" "length (v_path V (v_target V new) d) = ?c"
    using reach [OF un(2), of "v_target V new" "[]"] un(4) ins(7) key_d c_cl cl(3) by simp_all
  have free: "cm_ok V (add_mset (v_target V old) L) (H[i := (?n, hi)]) (cm_free (slice lo ?n ?row) m)"
    by (rule cm_ok_free [OF ok i H refl lon _ dn]) (use nil il_hi in linarith)
  have "cm_ok V L (H[i := (?n, hi), i := (?c, hi)]) ((cm_free (slice lo ?n ?row) m)\<lparr>prefix_cache := d\<rparr>)"
    by (rule cm_ok_adopt [OF free, of i ?n hi ?c])
       (use i ins(4,5) c_il il_hi Rn(1) un(2,5) new_eq [OF c_cl] in simp_all)
  then have fin: "cm_ok V L (H[i := (?c, hi)]) (cm_free (slice lo ?n ?row) (m\<lparr>prefix_cache := d\<rparr>))"
    by (simp add: cm_free_prefix_cache)
  have sl: "slice ?n ?c (v_path V (v_target V new) d) = slice ?n ?c ?row"
    unfolding path_d by (rule slice_tail [OF refl])
  have pre_d: "prefix (v_path V (v_target V old) ?s) (v_path V (v_target V new) d)"
    unfolding path_d using pre by (rule prefix_prefix)
  have "v_root V d = v_root V ?s" using ins(3) un(3) by (simp add: v_keeps_def)
  with that [OF ins(1) un(1,2) fin lon ins(5) c_cl Rn(1) _ key_d pre_d sl Rn(2)] un(4) ins(7)
  show ?thesis by simp
qed

text \<open>The end of a request: everything it held is free or in the tree.\<close>

lemma cache_req_finished:
  assumes ok: "cm_ok V (add_mset (v_target V (cache_handle r)) L) H m"
    and i: "row_index (table_idx r) (page_table m) = Inr i" and H: "H ! i = (lo, hi)"
    and old: "pc_cached_len ops (cache_handle r) = lo"
      "v_key V (v_target V (cache_handle r)) (prefix_cache m) = take lo (input_ids r)"
    and cl: "lo \<le> req_cached_len r" "req_cached_len r \<le> length (input_ids r)"
      "hi = div_ceil (req_cached_len r) (cm_page_size m) * cm_page_size m" and mm: "\<not> mm_embeds r"
  shows "\<exists>m'. cache_req ops tic now r True m = Inr (r, m') \<and> cm_ok V L (H[i := (0, 0)]) m' \<and>
     page_table m' = page_table m"
proof -
  let ?cl = "req_cached_len r" and ?row = "page_table m ! i" and ?ps = "cm_page_size m"
  have il: "i < length H" using i cm_okD(2) [OF ok] by (auto simp: row_index_def split: if_splits)
  have ps: "0 < ?ps" using ok_nodes [OF cm_okD(1) [OF ok]] by simp
  have clhi: "?cl \<le> hi" using cl(3) div_ceil_ge [OF ps] by simp
  obtain n new c d where
    ins: "pc_insert ops tic now (take ?cl (input_ids r)) (take ?cl ?row) (prefix_cache m) = Inr (n, new, c)"
    and un: "pc_lock ops (cache_handle r) True c = Inr d"
    and ok1: "cm_ok V L (H[i := (pc_cached_len ops new, hi)]) (cm_free (slice lo n ?row) (m\<lparr>prefix_cache := d\<rparr>))"
    and le: "lo \<le> n" "n \<le> pc_cached_len ops new" "pc_cached_len ops new \<le> ?cl"
    by (rule commit_prefix [OF ok il H old cl(1) clhi cl(2), of tic now])
  let ?c = "pc_cached_len ops new" and ?m2 = "cm_free (slice lo n ?row) (m\<lparr>prefix_cache := d\<rparr>)"
  have "cm_ok V L (H[i := (?c, hi), i := (hi, hi)]) (cm_free (slice ?c hi ?row) ?m2)"
    by (rule cm_ok_free [OF ok1, of i ?c hi _ hi]) (use il le clhi cl(3) in simp_all)
  then have "cm_ok V L (H[i := (hi, hi), i := (0, 0)]) (cm_free (slice ?c hi ?row) ?m2)"
    using cm_ok_empty [of L "H[i := (hi, hi)]" "cm_free (slice ?c hi ?row) ?m2" i hi] il by simp
  moreover have "cache_req ops tic now r True m = Inr (r, cm_free (slice ?c hi ?row) ?m2)"
    using ins un i mm old(1) cl(3) le
    by (simp add: cache_req_def Let_def cm_unlock_def padded_tail_def slice_take)
  ultimately show ?thesis by simp
qed

text \<open>A commit in the middle of a request: the row shows the cached slots up to the new handle.\<close>

lemma cm_ok_row:
  assumes ok: "cm_ok V L H m" and i: "i < length H" and H: "H ! i = (lo, hi)"
    and row: "length row = length (page_table m ! i)" "slice lo hi row = slice lo hi (page_table m ! i)"
  shows "cm_ok V L H (m\<lparr>page_table := (page_table m)[i := row]\<rparr>)"
proof -
  note D = cm_okD [OF ok]
  have "holding_ok (cm_page_size m) (H ! j) ((page_table m)[i := row] ! j)" if "j < length H" for j
    using D(3) [OF that] that H row D(2) by (cases "j = i") (simp_all add: holding_ok_def)
  moreover have "mset (held H ((page_table m)[i := row])) = mset (held H (page_table m))"
    using held_update [OF D(2) i, of lo hi row] H row by (metis add_right_imp_eq fst_conv list_update_id snd_conv)
  ultimately show ?thesis using D by (simp add: cm_ok_def total_free_def)
qed

lemma cm_ok_lock:
  assumes ok: "cm_ok V L H m" and h: "v_target V h \<in> v_nodes V (prefix_cache m)"
  obtains c where "cm_lock ops h m = Inr (m\<lparr>prefix_cache := c\<rparr>)" "v_keeps V (prefix_cache m) c"
    "cm_ok V (add_mset (v_target V h) L) H (m\<lparr>prefix_cache := c\<rparr>)"
    "v_nodes V c = v_nodes V (prefix_cache m)"
proof -
  obtain c where c: "pc_lock ops h False (prefix_cache m) = Inr c"
      "v_ok V (cm_page_size m) (add_mset (v_target V h) L) c" "v_keeps V (prefix_cache m) c"
      "v_nodes V c = v_nodes V (prefix_cache m)" "v_slots V c = v_slots V (prefix_cache m)"
    using locking [OF cm_okD(1) [OF ok] h] by metis
  have "cm_ok V (add_mset (v_target V h) L) H (m\<lparr>prefix_cache := c\<rparr>)"
    using cm_okD [OF ok] c by (simp add: cm_ok_def total_free_def)
  then show ?thesis using that c by (simp add: cm_lock_def)
qed

lemma cache_req_unfinished:
  assumes ok: "cm_ok V (add_mset (v_target V (cache_handle r)) L) H m"
    and i: "row_index (table_idx r) (page_table m) = Inr i" and H: "H ! i = (lo, hi)"
    and old: "pc_cached_len ops (cache_handle r) = lo"
      "v_key V (v_target V (cache_handle r)) (prefix_cache m) = take lo (input_ids r)"
    and row: "take lo (page_table m ! i) = v_path V (v_target V (cache_handle r)) (prefix_cache m)"
    and cl: "lo \<le> req_cached_len r" "req_cached_len r \<le> length (input_ids r)" "req_cached_len r \<le> hi"
    and mm: "\<not> mm_embeds r"
  shows "\<exists>h c m'. cache_req ops tic now r False m = Inr (r\<lparr>cache_handle := h\<rparr>, m') \<and>
     c = pc_cached_len ops h \<and> lo \<le> c \<and> c \<le> req_cached_len r \<and>
     cm_ok V (add_mset (v_target V h) L) (H[i := (c, hi)]) m' \<and>
     v_key V (v_target V h) (prefix_cache m') = take c (input_ids r) \<and>
     take c (page_table m' ! i) = v_path V (v_target V h) (prefix_cache m') \<and>
     drop c (page_table m' ! i) = drop c (page_table m ! i)"
proof -
  let ?cl = "req_cached_len r" and ?row = "page_table m ! i" and ?ps = "cm_page_size m"
  have il: "i < length H" using i cm_okD(2) [OF ok] by (auto simp: row_index_def split: if_splits)
  have it: "i < length (page_table m)" using il cm_okD(2) [OF ok] by simp
  have hirow: "hi \<le> length ?row" using cm_okD(3) [OF ok il] H by (simp add: holding_ok_def)
  obtain n new c d where
    ins: "pc_insert ops tic now (take ?cl (input_ids r)) (take ?cl ?row) (prefix_cache m) = Inr (n, new, c)"
    and un: "pc_lock ops (cache_handle r) True c = Inr d" "v_ok V ?ps L d"
    and ok1: "cm_ok V L (H[i := (pc_cached_len ops new, hi)]) (cm_free (slice lo n ?row) (m\<lparr>prefix_cache := d\<rparr>))"
    and le: "lo \<le> n" "n \<le> pc_cached_len ops new" "pc_cached_len ops new \<le> ?cl"
    and new: "v_target V new \<in> v_nodes V d" "v_key V (v_target V new) d = take (pc_cached_len ops new) (input_ids r)"
      "prefix (v_path V (v_target V (cache_handle r)) (prefix_cache m)) (v_path V (v_target V new) d)"
      "slice n (pc_cached_len ops new) (v_path V (v_target V new) d) = slice n (pc_cached_len ops new) ?row"
      "length (v_path V (v_target V new) d) = pc_cached_len ops new"
    by (rule commit_prefix [OF ok il H old cl(1,3,2), of tic now])
  let ?c = "pc_cached_len ops new" and ?m2 = "cm_free (slice lo n ?row) (m\<lparr>prefix_cache := d\<rparr>)"
  let ?P = "v_path V (v_target V new) d"
  let ?row' = "if lo < n then put_slice lo (slice lo n ?P) ?row else ?row"
  let ?m3 = "if lo < n then ?m2\<lparr>page_table := (page_table ?m2)[i := ?row']\<rparr> else ?m2"
  have lsl: "length (slice lo n ?P) = n - lo" by (rule slice_length) (use new(5) le in simp)
  have c_row: "?c \<le> length ?row" using le cl hirow by linarith
  have put: "length ?row' = length ?row" "slice ?c hi ?row' = slice ?c hi ?row" "drop ?c ?row' = drop ?c ?row"
    using lsl le c_row put_slice_length [of lo "slice lo n ?P" ?row] put_slice_after [of lo "slice lo n ?P" ?c ?row hi]
    by (auto simp: put_slice_def)
  have ok3: "cm_ok V L (H[i := (?c, hi)]) ?m3"
    using cm_ok_row [OF ok1, of i ?c hi ?row'] il put ok1 by auto
  have P_lo: "take lo ?P = take lo ?row"
  proof -
    have "length (v_path V (v_target V (cache_handle r)) (prefix_cache m)) = lo"
      using row le c_row by (metis length_take min.absorb2 le_trans)
    then show ?thesis using new(3) row by (auto simp: prefix_def)
  qed
  have row_c: "take ?c ?row' = ?P"
  proof -
    have three: "take ?c xs = take lo xs @ slice lo n xs @ slice n ?c xs" for xs :: "slot list"
      using slice_append [OF le(1,2), of xs] slice_append [of 0 lo ?c xs] le by (simp add: slice_def)
    have "take lo ?row' = take lo ?P" "slice n ?c ?row' = slice n ?c ?P"
      using P_lo new(4) lsl le c_row put_slice_after [of lo "slice lo n ?P" n ?row ?c]
        put_slice_before [of lo lo ?row "slice lo n ?P"] by auto
    moreover have "slice lo n ?row' = slice lo n ?P"
      using lsl le c_row put_slice_here [of lo ?row n "slice lo n ?P"] by (cases "lo = n") auto
    ultimately have "take ?c ?row' = take ?c ?P" using three [of ?row'] three [of ?P] by simp
    then show ?thesis using new(5) by simp
  qed
  have pc3: "prefix_cache ?m3 = d" by simp
  obtain e where lk: "cm_lock ops new ?m3 = Inr (?m3\<lparr>prefix_cache := e\<rparr>)" "v_keeps V (prefix_cache ?m3) e"
    "cm_ok V (add_mset (v_target V new) L) (H[i := (?c, hi)]) (?m3\<lparr>prefix_cache := e\<rparr>)"
    by (rule cm_ok_lock [OF ok3, of new]) (use new(1) pc3 in \<open>simp_all only:\<close>)
  have keep: "v_path V (v_target V new) e = ?P" "v_key V (v_target V new) e = take ?c (input_ids r)"
    using lk(2) new(1,2) unfolding pc3 by (simp_all add: v_keeps_def)
  have idx: "pc_indices ops new d = Inr ?P" if "lo < n"
    by (rule indices [OF un(2) new(1)]) (use that new(5) le in auto)
  have run: "cache_req ops tic now r False m = Inr (r\<lparr>cache_handle := new\<rparr>, ?m3\<lparr>prefix_cache := e\<rparr>)"
    using ins un(1) i mm old(1) le lk(1) idx
    by (auto simp: cache_req_def Let_def cm_unlock_def slice_take)
  have "page_table ?m3 ! i = ?row'" using it by simp
  then show ?thesis using run le lk(3) keep row_c put(3)
    by (intro exI [of _ new] exI [of _ ?c] exI [of _ "?m3\<lparr>prefix_cache := e\<rparr>"]) simp
qed

section \<open>Allocation\<close>

text \<open>Allocation succeeds as soon as free and evictable tokens cover it; locked handles keep
  their slots.\<close>

lemma cm_allocate_ok:
  assumes ok: "cm_ok V L H m" and lazy: "lazy_free_list m = None"
    and av: "int (n * cm_page_size m) \<le> available_size ops m"
  shows "\<exists>pages m'. cm_allocate ops n m = Inr (pages, m') \<and> length pages = n \<and>
     (\<forall>b \<in> set pages. cm_page_size m dvd b) \<and> page_table m' = page_table m \<and>
     cm_page_size m' = cm_page_size m \<and> num_pages m' = num_pages m \<and> lazy_free_list m' = None \<and>
     v_ok V (cm_page_size m) L (prefix_cache m') \<and> (\<forall>b \<in> set (total_free m'). cm_page_size m dvd b) \<and>
     mset (page_to_token (cm_page_size m) (total_free m')) + v_slots V (prefix_cache m') +
       mset (page_to_token (cm_page_size m) pages) + mset (held H (page_table m)) = mset [0..<num_pages m * cm_page_size m] \<and>
     (\<forall>u \<in># L. v_path V u (prefix_cache m') = v_path V u (prefix_cache m) \<and>
        v_key V u (prefix_cache m') = v_key V u (prefix_cache m))"
proof -
  note D = cm_okD [OF ok]
  let ?ps = "cm_page_size m"
  have ps: "0 < ?ps" using ok_nodes [OF D(1)] by simp
  have tf: "total_free m = free_slots m" using lazy by (simp add: total_free_def)
  define R where "R = (if length (free_slots m) < n then
          let need = (n - length (free_slots m)) * ?ps in
          rbind (pc_evict ops need (prefix_cache m)) (\<lambda>(evicted, c).
            let m' = m\<lparr>prefix_cache := c, free_slots := free_slots m @ every ?ps evicted\<rparr> in
            py_assert (n \<le> length (free_slots m')) (Inr m'))
        else Inr m)"
  have "\<exists>m1. R = Inr m1 \<and> n \<le> length (free_slots m1) \<and> page_table m1 = page_table m \<and> cm_page_size m1 = ?ps \<and>
      num_pages m1 = num_pages m \<and> lazy_free_list m1 = None \<and> v_ok V ?ps L (prefix_cache m1) \<and>
      (\<forall>b \<in> set (free_slots m1). ?ps dvd b) \<and>
      mset (page_to_token ?ps (free_slots m1)) + v_slots V (prefix_cache m1) =
        mset (page_to_token ?ps (free_slots m)) + v_slots V (prefix_cache m) \<and>
      (\<forall>u \<in># L. v_path V u (prefix_cache m1) = v_path V u (prefix_cache m) \<and>
         v_key V u (prefix_cache m1) = v_key V u (prefix_cache m))"
  proof (cases "length (free_slots m) < n")
    case False
    then show ?thesis using D lazy tf by (simp add: R_def)
  next
    case True
    let ?need = "(n - length (free_slots m)) * ?ps"
    have "int ?need \<le> fst (pc_size_info ops (prefix_cache m))"
    proof -
      have "int n * int ?ps = int ?need + int (length (free_slots m)) * int ?ps"
        using True by (metis add.commute add_mult_distrib le_add_diff_inverse nat_less_le of_nat_add of_nat_mult)
      then show ?thesis using av by (simp add: available_size_def)
    qed
    then obtain out c where e: "pc_evict ops ?need (prefix_cache m) = Inr (out, c)" "?need \<le> length out"
       "paged ?ps out" "v_ok V ?ps L c" "v_slots V (prefix_cache m) = v_slots V c + mset out"
       "\<forall>u \<in> v_nodes V c. v_path V u c = v_path V u (prefix_cache m) \<and> v_key V u c = v_key V u (prefix_cache m)"
      using evicting [OF D(1)] by metis
    have "?need \<le> length (every ?ps out) * ?ps" using e(2) every_length [OF ps e(3)] by simp
    then have "n - length (free_slots m) \<le> length (every ?ps out)" using ps by simp
    then have "n \<le> length (free_slots m @ every ?ps out)" by simp
    moreover have "\<forall>b \<in> set (every ?ps out). ?ps dvd b" using e(3) by (simp add: paged_def list_all_iff)
    ultimately have R: "R = Inr (m\<lparr>prefix_cache := c, free_slots := free_slots m @ every ?ps out\<rparr>)"
      and dvd: "\<forall>b \<in> set (free_slots m @ every ?ps out). ?ps dvd b"
      and len: "n \<le> length (free_slots m @ every ?ps out)"
      using True e(1) D(4) tf by (auto simp: R_def Let_def py_assert_def)
    have "set_mset L \<subseteq> v_nodes V c" using ok_nodes [OF e(4)] by simp
    then have locked: "\<forall>u \<in># L. v_path V u c = v_path V u (prefix_cache m) \<and> v_key V u c = v_key V u (prefix_cache m)"
      using e(6) by blast
    have "mset (page_to_token ?ps (free_slots m @ every ?ps out)) + v_slots V c =
        mset (page_to_token ?ps (free_slots m)) + v_slots V (prefix_cache m)"
      using e(5) pagedD [OF e(3)] by (simp add: ac_simps)
    then show ?thesis unfolding R using dvd len locked e(4) lazy by (intro exI [of _ "m\<lparr>prefix_cache := c,
      free_slots := free_slots m @ every ?ps out\<rparr>"]) simp
  qed
  then obtain m1 where m1: "R = Inr m1" "n \<le> length (free_slots m1)" "page_table m1 = page_table m" "cm_page_size m1 = ?ps"
      "num_pages m1 = num_pages m" "lazy_free_list m1 = None" "v_ok V ?ps L (prefix_cache m1)"
      "\<forall>b \<in> set (free_slots m1). ?ps dvd b"
      "mset (page_to_token ?ps (free_slots m1)) + v_slots V (prefix_cache m1) =
        mset (page_to_token ?ps (free_slots m)) + v_slots V (prefix_cache m)"
      "\<forall>u \<in># L. v_path V u (prefix_cache m1) = v_path V u (prefix_cache m) \<and>
         v_key V u (prefix_cache m1) = v_key V u (prefix_cache m)" by blast
  let ?m' = "m1\<lparr>free_slots := drop n (free_slots m1)\<rparr>"
  have run: "cm_allocate ops n m = Inr (take n (free_slots m1), ?m')"
    using m1(1) by (simp add: cm_allocate_def R_def [symmetric])
  have "mset (page_to_token ?ps (free_slots m1)) =
      mset (page_to_token ?ps (drop n (free_slots m1))) + mset (page_to_token ?ps (take n (free_slots m1)))"
    by (metis append_take_drop_id mset_append page_to_token_append add.commute)
  moreover have "total_free ?m' = drop n (free_slots m1)" using m1(6) by (simp add: total_free_def)
  ultimately have "mset (page_to_token ?ps (total_free ?m')) + v_slots V (prefix_cache m1) +
      mset (page_to_token ?ps (take n (free_slots m1))) + mset (held H (page_table m)) =
      (mset (page_to_token ?ps (free_slots m)) + v_slots V (prefix_cache m)) + mset (held H (page_table m))"
    unfolding m1(9) [symmetric] by (simp only: ac_simps)
  also have "\<dots> = mset [0..<num_pages m * ?ps]" using D(5) unfolding tf .
  finally have total: "mset (page_to_token ?ps (total_free ?m')) + v_slots V (prefix_cache m1) +
      mset (page_to_token ?ps (take n (free_slots m1))) + mset (held H (page_table m)) = mset [0..<num_pages m * ?ps]" .
  show ?thesis using run m1 total by (intro exI [of _ "take n (free_slots m1)"] exI [of _ ?m'])
     (auto simp: total_free_def dest: in_set_takeD in_set_dropD)
qed

lemma allocate_paged_ok:
  assumes ok: "cm_ok V L H m" and lazy: "lazy_free_list m = None" and rs: "batch_ok H rs m"
    and av: "int (needed_pages (allocation_info (cm_page_size m) rs) * cm_page_size m) \<le> available_size ops m"
  shows "\<exists>m'. allocate_paged ops rs m = Inr m' \<and> cm_ok V L (grow (cm_page_size m) (grown (cm_page_size m) rs) H) m' \<and>
     lazy_free_list m' = None \<and>
     (\<forall>i < length H. take (snd (H ! i)) (page_table m' ! i) = take (snd (H ! i)) (page_table m ! i))"
proof -
  note D = cm_okD [OF ok]
  let ?ps = "cm_page_size m" and ?g = "grown (cm_page_size m) rs" and ?info = "allocation_info (cm_page_size m) rs"
  let ?fs = "filter (\<lambda>r. fst (page_range ?ps r) < snd (page_range ?ps r)) rs"
  have ps: "0 < ?ps" using ok_nodes [OF D(1)] by simp
  have info: "?info = map (\<lambda>(i, fl). (int i, fl)) ?g"
    using rs by (auto simp: allocation_info_def grown_def batch_ok_def)
  have t: "table_ok ?ps H (page_table m)" using D(2,3) by (simp add: table_ok_def)
  have w: "\<forall>e \<in> set ?g. can_write ?ps H (page_table m) e"
    using rs by (fastforce simp: grown_def can_write_def batch_ok_def page_range_def)
  have inj: "inj_on (\<lambda>r. nat (table_idx r)) (set rs)" and dr: "distinct rs"
    using rs by (auto simp: batch_ok_def distinct_map inj_on_def) (metis nat_int)
  have "distinct (map (\<lambda>r. nat (table_idx r)) ?fs)"
    using inj dr by (auto simp: distinct_map inj_on_def)
  then have d: "distinct (map fst ?g)" by (simp add: grown_def comp_def)
  show ?thesis
  proof (cases "0 < needed_pages ?info")
    case True
    obtain pages m1 where a: "cm_allocate ops (needed_pages ?info) m = Inr (pages, m1)" "length pages = needed_pages ?info"
       "\<forall>b \<in> set pages. ?ps dvd b" "page_table m1 = page_table m" "cm_page_size m1 = ?ps" "num_pages m1 = num_pages m"
       "lazy_free_list m1 = None" "v_ok V ?ps L (prefix_cache m1)" "\<forall>b \<in> set (total_free m1). ?ps dvd b"
       "mset (page_to_token ?ps (total_free m1)) + v_slots V (prefix_cache m1) +
          mset (page_to_token ?ps pages) + mset (held H (page_table m)) = mset [0..<num_pages m * ?ps]"
      using cm_allocate_ok [OF ok lazy av] by metis
    obtain T where T: "write_page_table (page_table m) (page_to_token ?ps pages) ?info ?ps = Inr T"
       "table_ok ?ps (grow ?ps ?g H) T" "mset (held (grow ?ps ?g H) T) = mset (held H (page_table m)) + mset (page_to_token ?ps pages)"
       "\<forall>i < length (page_table m). length (T ! i) = length (page_table m ! i) \<and>
          take (snd (H ! i)) (T ! i) = take (snd (H ! i)) (page_table m ! i)"
      using write_page_table_ok [OF ps t w d paged_pages [OF ps a(3)] _ info] a(2) by auto
    have "cm_ok V L (grow ?ps ?g H) (m1\<lparr>page_table := T\<rparr>)"
      using T(2,3) a(5,6,8,9,10) by (simp add: cm_ok_def table_ok_def total_free_def ac_simps)
    then show ?thesis using True a T D(2) by (simp add: allocate_paged_def Let_def)
  next
    case False
    have "?g = []"
    proof (rule ccontr)
      assume "?g \<noteq> []"
      then obtain r where "r \<in> set ?fs" by (cases ?fs) (auto simp: grown_def)
      then have "(table_idx r, page_range ?ps r) \<in> set ?info" and lt: "fst (page_range ?ps r) < snd (page_range ?ps r)"
        by (auto simp: allocation_info_def)
      then have "snd (page_range ?ps r) - fst (page_range ?ps r) \<le> needed_pages ?info"
        unfolding needed_pages_def by (intro member_le_sum_list) (force split: prod.splits, simp)
      then have "0 < needed_pages ?info" using lt by linarith
      then show False using False by simp
    qed
    then show ?thesis using False ok lazy by (simp add: allocate_paged_def)
  qed
qed

section \<open>The idle state\<close>

lemma cache_pages:
  assumes ok: "cm_ok V L H m" and lazy: "lazy_free_list m = None"
  shows "total_size (pc_size_info ops (prefix_cache m)) div int (cm_page_size m) \<le> int (num_pages m) - int (length (free_slots m))"
    and "total_size (pc_size_info ops (prefix_cache m)) div int (cm_page_size m) = int (num_pages m) - int (length (free_slots m)) \<longleftrightarrow>
      (\<forall>e \<in> set H. fst e = snd e)"
proof -
  note D = cm_okD [OF ok]
  let ?ps = "cm_page_size m" and ?h = "held H (page_table m)"
  let ?n = "int (num_pages m) - int (length (free_slots m))"
  have ps: "0 < ?ps" using ok_nodes [OF D(1)] by simp
  have tf: "total_free m = free_slots m" using lazy by (simp add: total_free_def)
  have "size (mset (page_to_token ?ps (free_slots m)) + v_slots V (prefix_cache m) + mset ?h) = num_pages m * ?ps"
    using D(5) unfolding tf by (metis size_mset length_upt diff_zero)
  then have "length (free_slots m) * ?ps + size (v_slots V (prefix_cache m)) + length ?h = num_pages m * ?ps" by simp
  then have "int (size (v_slots V (prefix_cache m))) = ?n * int ?ps - int (length ?h)"
    unfolding left_diff_distrib of_nat_mult [symmetric] by linarith
  moreover have "total_size (pc_size_info ops (prefix_cache m)) = int (size (v_slots V (prefix_cache m)))"
    using ok_sizes [OF D(1)] by (simp add: total_size_def)
  ultimately have t: "total_size (pc_size_info ops (prefix_cache m)) = ?n * int ?ps - int (length ?h)" by simp
  have h: "?h = [] \<longleftrightarrow> (\<forall>e \<in> set H. fst e = snd e)" by (rule held_none) (use D(2,3) in \<open>auto simp: holding_ok_def\<close>)
  have "(?n * int ?ps - int (length ?h)) div int ?ps \<le> ?n * int ?ps div int ?ps" by (rule zdiv_mono1) (use ps in simp_all)
  then show "total_size (pc_size_info ops (prefix_cache m)) div int ?ps \<le> ?n" using t ps by simp
  have "(?n * int ?ps - int (length ?h)) div int ?ps < ?n" if "?h \<noteq> []"
  proof -
    have "?n * int ?ps - int (length ?h) < ?n * int ?ps" using that by (cases ?h) simp_all
    moreover have "x div int ?ps * int ?ps \<le> x" for x using pos_mod_sign [of "int ?ps" x] div_mult_mod_eq [of x "int ?ps"] ps by linarith
    ultimately have "(?n * int ?ps - int (length ?h)) div int ?ps * int ?ps < ?n * int ?ps" using order.strict_trans1 by blast
    then show ?thesis using ps by (simp only: mult_less_cancel_right)
  qed
  then show "total_size (pc_size_info ops (prefix_cache m)) div int ?ps = ?n \<longleftrightarrow> (\<forall>e \<in> set H. fst e = snd e)"
    using t ps unfolding h [symmetric] by (cases "?h = []") auto
qed

text \<open>The idle check of a conserved pool, and of one whose free list has been replaced.\<close>

lemma integrity_exact:
  assumes ok: "cm_ok V L H m" and lazy: "lazy_free_list m = None"
  shows "check_integrity ops m = (if \<forall>e \<in> set H. fst e = snd e then Inr () else Inl RuntimeError)"
  using cache_pages [OF assms] cm_okD(4) [OF ok] lazy
  by (auto simp: check_integrity_def Let_def py_assert_def list_all_iff total_free_def)

lemma integrity_of_free_list:
  assumes ok: "cm_ok V L H m" and lazy: "lazy_free_list m = None" and idle: "\<forall>e \<in> set H. fst e = snd e"
  shows "check_integrity ops (m\<lparr>free_slots := fs\<rparr>) =
    (if length fs \<noteq> length (free_slots m) then Inl RuntimeError
     else if \<exists>b \<in> set fs. \<not> cm_page_size m dvd b then Inl AssertionError else Inr ())"
proof -
  have "1 < cm_page_size m \<or> cm_page_size m = 1" using ok_nodes [OF cm_okD(1) [OF ok]] by linarith
  then show ?thesis using cache_pages(2) [OF ok lazy] idle
    by (auto simp: check_integrity_def Let_def py_assert_def list_all_iff)
qed

lemma new_cmgr_ok:
  assumes "v_ok V ps {#} c" and "v_slots V c = {#}"
  shows "cm_ok V {#} (replicate (length table) (0, 0)) (new_cmgr n ps table c)"
proof -
  have ps: "0 < ps" using ok_nodes [OF assms(1)] by simp
  have pages: "page_to_token ps (all_pages n ps) = [0..<n * ps]"
  proof (induction n)
    case (Suc n)
    have "map (\<lambda>i. n * ps + i) [0..<ps] = [n * ps..<n * ps + ps]"
      by (rule nth_equalityI) simp_all
    moreover have "[0..<Suc n * ps] = [0..<n * ps] @ [n * ps..<n * ps + ps]"
      using upt_add_eq_append [of 0 "n * ps" ps] by (simp add: add.commute)
    moreover have "all_pages (Suc n) ps = all_pages n ps @ [n * ps]" by (simp add: all_pages_def)
    ultimately show ?case using Suc by simp
  qed (simp add: all_pages_def)
  have "held (replicate k (0, 0)) T = []" for k T
    by (rule held_empty) (simp add: in_set_replicate)
  then show ?thesis using assms pages
    by (simp add: cm_ok_def new_cmgr_def total_free_def holding_ok_def all_pages_def)
qed

end

end
