(* ===== verification/Radix_Properties.thy ===== *)
theory Radix_Properties
  imports Prefix_Cache
begin

text \<open>
  What \<open>RadixPrefixCache\<close> guarantees, stated for every state its operations can build (\<open>rc_ok L\<close>,
  with \<open>L\<close> the multiset of locked nodes), and the same statements evaluated on a concrete cache.
\<close>

section \<open>A concrete cache\<close>

text \<open>Two sequences that share a page of two tokens; the first one is locked.\<close>

definition demo_empty :: rcache where
  "demo_empty = new_rcache 2 0 1"

definition demo_insert :: "int \<Rightarrow> token list \<Rightarrow> slot list \<Rightarrow> rcache \<Rightarrow> rcache" where
  "demo_insert now ids vals s = (case insert_prefix now now ids vals s of Inl e \<Rightarrow> s | Inr (_, _, s') \<Rightarrow> s')"

definition demo_two :: rcache where
  "demo_two = demo_insert 3 [1, 2, 5, 6] [20, 21, 30, 31] (demo_insert 2 [1, 2, 3, 4] [20, 21, 22, 23] demo_empty)"

definition demo_handle :: rhandle where
  "demo_handle = (case match_prefix 4 [1, 2, 3, 4] demo_two of Inl e \<Rightarrow> \<lparr>cached_len = 0, hnode = 0\<rparr> | Inr (h, s') \<Rightarrow> h)"

definition demo_locked :: rcache where
  "demo_locked = (case lock_handle demo_handle False demo_two of Inl e \<Rightarrow> demo_two | Inr s \<Rightarrow> s)"

lemma new_rcache_ok: "0 < ps \<Longrightarrow> rc_ok {#} (new_rcache ps c now) \<and> rc_paged (new_rcache ps c now) \<and> rc_slots (new_rcache ps c now) = {#}"
  by (simp add: rc_ok_def new_rcache_def rc_nodes_def uniq_def weigh_def inner_nodes_def rc_paged_def
      every_node_def rc_slots_def tree_slots_def new_node_def)

lemma demo_two_ok: "rc_ok {#} demo_two"
  by code_simp

lemma demo_locked_ok: "rc_ok {#hnode demo_handle#} demo_locked"
  by code_simp

lemma demo_two_len: "length (rc_content demo_two [1, 2, 5]) = 2 \<and> evictable_size demo_two = 6"
  by code_simp

section \<open>Matching\<close>

text \<open>C15. \<open>match_prefix\<close> never raises on a cache its operations built; the handle it returns spans the
  longest cached prefix of the sequence, its node carries exactly the slots of that prefix, and the
  content of the cache, the path of every other node and the sizes stay as they were, although
  nodes may be split and stamped.\<close>

theorem match_prefix_longest:
  assumes "rc_ok L s"
  shows "\<exists>h s'. match_prefix tic ids s = Inr (h, s') \<and> rc_ok L s' \<and> rc_same s s' \<and>
     hnode h \<in> rc_nodes s' \<and> cached_len h = length (rc_content s ids) \<and>
     rc_path (hnode h) s' = rc_content s ids"
  using match_spec [OF assms, of tic ids] by auto

lemma match_prefix_longest_witness:
  "\<exists>h s'. match_prefix 9 [1, 2, 5] demo_two = Inr (h, s') \<and> cached_len h = 2"
  using match_prefix_longest [OF demo_two_ok, of 9 "[1, 2, 5]"] demo_two_len by auto

section \<open>Inserting\<close>

text \<open>C16. \<open>insert_prefix\<close> takes the whole pages of the sequence: it returns the length the cache
  had, adopts exactly the slots behind it, raises the evictable size by their number, and afterwards
  every sequence \<open>x\<close> matches what it matched before or, where it agrees with the inserted
  sequence for longer, that many of the inserted slots. No other path changes.\<close>

theorem insert_prefix_content:
  assumes "rc_ok L s" and "length indices = length input_ids"
    and "ids = take (align_down (length input_ids) (page_size s)) input_ids"
    and "n = length (rc_content s ids)" and "new = drop n (take (length ids) indices)"
  shows "\<exists>h s'. insert_prefix tic now input_ids indices s = Inr (n, h, s') \<and> rc_ok L s' \<and>
     rc_inserts ids new s s' \<and> cached_len h = length ids \<and> hnode h \<in> rc_nodes s' \<and>
     rc_path (hnode h) s' = rc_content s ids @ new"
proof -
  have "length ids = align_down (length input_ids) (page_size s)" using assms(3) by simp
  then show ?thesis
    using insert_spec [OF assms(1,2) refl assms(3,4), of new tic now] assms(5) by auto
qed

lemma insert_prefix_content_witness:
  "\<exists>h s'. insert_prefix 9 9 [1, 2, 3, 4, 7] [20, 21, 40, 41, 42] demo_two = Inr (4, h, s') \<and> cached_len h = 4"
proof -
  have "align_down (length [1, 2, 3, 4, 7::int]) (page_size demo_two) = 4" by code_simp
  moreover have "length (rc_content demo_two [1, 2, 3, 4]) = 4" by code_simp
  ultimately show ?thesis
    using insert_prefix_content [OF demo_two_ok, of "[20, 21, 40, 41, 42]" "[1, 2, 3, 4, 7]" "[1, 2, 3, 4]" 4 "[]" 9 9]
    by (auto simp: eval_nat_numeral)
qed

text \<open>What was inserted is found again: after \<open>insert_prefix\<close> a match of the sequence returns
  all its whole pages, first the slots the cache had, then the inserted ones.\<close>

theorem insert_then_match:
  assumes "rc_ok L s" and "length indices = length input_ids"
    and "insert_prefix tic now input_ids indices s = Inr (n, h, s')"
  shows "\<exists>h' s''. match_prefix tic' input_ids s' = Inr (h', s'') \<and>
     cached_len h' = align_down (length input_ids) (page_size s) \<and>
     rc_path (hnode h') s'' = take n (rc_content s input_ids) @
       drop n (take (align_down (length input_ids) (page_size s)) indices)"
proof -
  let ?il = "align_down (length input_ids) (page_size s)"
  let ?ids = "take (align_down (length input_ids) (page_size s)) input_ids"
  let ?C = "rc_content s ?ids"
  note D = rc_okD [OF assms(1)]
  obtain s1 where I: "n = length ?C" "rc_ok L s'" "rc_inserts ?ids (drop n (take ?il indices)) s s'"
    using insert_spec [OF assms(1,2) refl refl refl refl, of tic now] assms(3) by auto
  have pre: "take ?il (rc_content s input_ids) = ?C"
    using mtch_take [OF D(3,1), of ?il input_ids] by (simp add: rc_content_def)
  then have nil: "n \<le> ?il" and C: "?C = take n (rc_content s input_ids)"
    using I(1) by (metis length_take min.cobounded2, metis length_take min_def take_all_iff nle_le)
  let ?V = "?C @ drop n (take ?il indices)"
  have V: "length ?V = ?il" using I(1) nil assms(2) by simp
  have cmp: "align_down (fast_compare_key input_ids ?ids) (page_size s) = ?il"
  proof -
    have "fast_compare_key input_ids ?ids = min ?il (fast_compare_key input_ids input_ids)"
      using cmp_take_min [of ?il input_ids input_ids] by (metis cmp_commute)
    then show ?thesis by (simp add: min_def align_down_dvd_id)
  qed
  have "rc_content s' input_ids = extend_match (page_size s) (rc_content s input_ids) ?ids ?V input_ids"
    using I(3) by (simp add: rc_inserts_def)
  also have "\<dots> = ?V"
  proof (cases "length (rc_content s input_ids) < ?il")
    case True
    then show ?thesis using cmp V by (simp add: extend_match_def Let_def)
  next
    case False
    obtain t u m c where w: "walks (page_size s) 0 (node_counter s) (root_node s) input_ids t u m c"
      by (rule tree_walk_ok [OF assms(1)])
    have "length (rc_content s input_ids) \<le> length input_ids \<and> page_size s dvd length (rc_content s input_ids)"
      using walks_found(3) [OF assms(1) w] walks_len [OF w] walks_dvd [OF w] by simp
    then have "length (rc_content s input_ids) = ?il"
      using False align_down_greatest [of "page_size s" "length (rc_content s input_ids)" "length input_ids"] by simp
    then show ?thesis using cmp pre I(1) assms(2) by (simp add: extend_match_def Let_def)
  qed
  finally have new: "rc_content s' input_ids = ?V" .
  from match_spec [OF I(2), of tic' input_ids] show ?thesis
    using new V C by auto
qed

lemma insert_then_match_witness:
  "\<exists>h s'. match_prefix 9 [1, 2, 5, 6] demo_two = Inr (h, s') \<and> cached_len h = 4"
proof -
  let ?s = "demo_insert 2 [1, 2, 3, 4] [20, 21, 22, 23] demo_empty"
  have ok: "rc_ok {#} ?s" by code_simp
  have "insert_prefix 3 3 [1, 2, 5, 6] [20, 21, 30, 31] ?s = Inr (2, \<lparr>cached_len = 4, hnode = 3\<rparr>, demo_two)"
    by code_simp
  moreover have "align_down (length [1, 2, 5, 6::int]) (page_size ?s) = 4" by code_simp
  ultimately show ?thesis
    using insert_then_match [OF ok, of "[20, 21, 30, 31]" "[1, 2, 5, 6]" 3 3 2 _ demo_two 9] by auto
qed

section \<open>Locking\<close>

text \<open>C22. Locking the node of a handle never raises and only changes the size info: the content, the
  slots, the paths and the total size stay, and afterwards the node counts as locked. Unlocking it
  again restores the very same cache.\<close>

theorem lock_unlock_inverse:
  assumes "rc_ok L s" and "hnode h \<in> rc_nodes s"
  shows "\<exists>s'. lock_handle h False s = Inr s' \<and> rc_ok (add_mset (hnode h) L) s' \<and> rc_locks s s' \<and>
     lock_handle h True s' = Inr s"
proof -
  let ?u = "hnode h"
  note D = rc_okD [OF assms(1)]
  obtain s' where s': "lock_handle h False s = Inr s'" "rc_ok (add_mset ?u L) s'" "rc_locks s s'"
    using lock_spec [OF assms] by blast
  obtain s'' where s'': "lock_handle h True s' = Inr s''" "rc_ok L s''" "rc_locks s' s''"
    using unlock_spec [OF s'(2)] by blast
  have eq': "s' = lock_loop (up_path ?u (root_node s)) s" using s'(1) by (simp add: lock_handle_def Let_def)
  have root': "root_node s' = path_map (bump 1) ?u (root_node s)"
    unfolding eq' lock_loop_root using fold_upd_path [OF D(2), of "bump 1" ?u] by simp
  have cnt': "node_counter s' = node_counter s" "page_size s' = page_size s" unfolding eq' lock_loop_root by simp_all
  have pos: "0 < ref_count d" if "d \<in> set (up_path ?u (root_node s'))" for d
    by (rule path_locked [OF rc_okD(6,2) [OF s'(2)] _ that]) simp
  have root'': "root_node s'' = path_map (bump (- 1)) ?u (root_node s')"
    and cnt'': "node_counter s'' = node_counter s'" "page_size s'' = page_size s'"
    using unlock_loop_ok [of "up_path ?u (root_node s')" s'] pos s''(1)
      fold_upd_path [OF rc_okD(2) [OF s'(2)], of "bump (- 1)" ?u]
    by (auto simp: lock_handle_def Let_def)
  have on: "on_path ?u (root_node s') = on_path ?u (root_node s)"
    unfolding root' path_map_def by (rule shape_on_path [OF path_map_shape [OF keeps_bump]])
  have "root_node s'' = root_node s"
    unfolding root'' path_map_def on unfolding root' path_map_def map_nodes_map_nodes
    by (rule map_nodes_idle) (simp add: bump_def)
  then have "s'' = s" using cnt' cnt'' rc_okD(8,9) [OF s''(2)] D(8,9) by simp
  then show ?thesis using s' s'' by blast
qed

lemma lock_unlock_inverse_witness:
  "\<exists>s'. lock_handle demo_handle False demo_two = Inr s' \<and> lock_handle demo_handle True s' = Inr demo_two"
proof -
  have "hnode demo_handle \<in> rc_nodes demo_two" by code_simp
  from lock_unlock_inverse [OF demo_two_ok this] show ?thesis by blast
qed

section \<open>Evicting\<close>

text \<open>C11. \<open>evict\<close> succeeds for every amount up to the evictable size, its internal assertions never
  fail: at least that many slots come back, they are exactly the slots that left the tree, every
  locked node keeps its slots and stays in the tree, and what is still cached is a prefix of what
  was cached.\<close>

theorem evict_frees_enough:
  assumes "rc_ok L s" and "int need \<le> evictable_size s"
  shows "\<exists>out s'. evict need s = Inr (out, s') \<and> need \<le> length out \<and> rc_evicts L out s s' \<and>
     (\<forall>h \<in># L. h \<in> rc_nodes s' \<and> rc_path h s' = rc_path h s \<and>
        prefix (rc_path h s) (rc_content s' (rc_key h s)))"
proof -
  obtain out s' where e: "evict need s = Inr (out, s')" "rc_evicts L out s s'" "need \<le> length out"
    using evict_spec [OF assms] by blast
  have ok: "rc_ok L s'" using e(2) by (simp add: rc_evicts_def)
  have "h \<in> rc_nodes s' \<and> rc_path h s' = rc_path h s \<and> prefix (rc_path h s) (rc_content s' (rc_key h s))"
    if "h \<in># L" for h
  proof -
    have h: "h \<in> rc_nodes s'" using rc_okD(5) [OF ok] that by (auto simp: rc_nodes_def)
    then have "rc_path h s' = rc_path h s" "rc_key h s' = rc_key h s" using e(2) by (auto simp: rc_evicts_def)
    then show ?thesis using h rc_reach(3) [OF ok h, of "[]"] by simp
  qed
  then show ?thesis using e by blast
qed

lemma evict_frees_enough_witness:
  "\<exists>out s'. evict 1 demo_locked = Inr (out, s') \<and> 1 \<le> length out \<and> hnode demo_handle \<in> rc_nodes s'"
proof -
  have "int 1 \<le> evictable_size demo_locked" by code_simp
  from evict_frees_enough [OF demo_locked_ok this] show ?thesis by auto
qed

text \<open>C23. Eviction is least recently used first: for an amount up to the evictable size, the first slots that come back are
  those of an unlocked leaf whose timestamp is minimal among the unlocked leaves, and when that leaf is enough nothing else
  is evicted.\<close>

theorem evict_least_recent:
  assumes ok: "rc_ok L s" and need: "0 < need" "int need \<le> evictable_size s"
  shows "\<exists>d rest s'. evict need s = Inr (nval d @ rest, s') \<and> d \<in># unlocked_leaves (root_node s) \<and>
     (\<forall>d' \<in># unlocked_leaves (root_node s). timestamp d \<le> timestamp d') \<and>
     (need \<le> node_len d \<longrightarrow> rest = [])"
proof -
  let ?heap = "collect_leave_nodes_for_evict s"
  have heap: "mset ?heap = unlocked_leaves (root_node s)"
    by (simp add: collect_leave_nodes_for_evict_def unlocked_leaves_def)
  have "?heap \<noteq> []" using free_token_leaf [OF ok] need heap by auto
  then obtain d heap' where pop: "pop_min timestamp ?heap = Some (d, heap')"
    using pop_min_None by (cases "pop_min timestamp ?heap") auto
  have least: "\<forall>d' \<in># unlocked_leaves (root_node s). timestamp d \<le> timestamp d'"
    using pop_min_least [OF pop] heap by (metis set_mset_mset)
  have h: "add_mset d (mset heap') = unlocked_leaves (root_node s)"
    using list_heap.deq_elems [OF pop] heap by simp
  then have du: "d \<in># unlocked_leaves (root_node s)" by (metis union_single_eq_member)
  then have d: "d \<in> set (leaf_nodes (root_node s))" "ref_count d = 0" by (simp_all add: unlocked_leaves_def)
  obtain p pre post where a: "leaf_at (page_size s) (uuid d) (root_node s) d p pre post"
    and ev: "rc_evicts L (nval d) s (s\<lparr>root_node := unlink (page_size s) (uuid d) (root_node s),
         evictable_size := evictable_size s - int (node_len d)\<rparr>)" (is "rc_evicts L _ s ?s1")
    by (rule evict_step [OF ok d])
  have len: "length (nval d) = node_len d"
    using wf_inner [OF rc_okD(3) [OF ok] leaf_removable(4) [OF ok d]] by (simp add: wf_data_def)
  have run: "evict need s =
     evict_loop need (offer_parent (uuid p) (root_node ?s1) heap') (node_len d) (nval d) ?s1"
    using need pop d(2) leaf_removable(2,3) [OF ok d] remove_leaf [OF a]
    by (simp add: evict_def py_assert_def evict_loop.simps [of need ?heap])
  have ok1: "rc_ok L ?s1" using ev by (simp add: rc_evicts_def)
  have "mset (offer_parent (uuid p) (root_node ?s1) heap') = unlocked_leaves (root_node ?s1)"
    using heap_step [OF a d(2) h] by simp
  from evict_loop_spec [OF ok1 this, of need "node_len d" "nval d"] need
  obtain rest s' where r: "evict need s = Inr (nval d @ rest, s')" by (auto simp: run)
  have "rest = []" if "need \<le> node_len d"
    using r that by (simp add: run evict_loop.simps [of need])
  then show ?thesis using r du least by blast
qed

lemma evict_least_recent_witness:
  "\<exists>d rest s'. evict 2 demo_two = Inr (nval d @ rest, s') \<and> d \<in># unlocked_leaves (root_node demo_two)"
proof -
  have need: "0 < (2::nat)" "int 2 \<le> evictable_size demo_two" using demo_two_len by simp_all
  show ?thesis using evict_least_recent [OF demo_two_ok need] by fast
qed

text \<open>The ends of the range: nothing is evicted for 0, and more than the evictable size fails the assertion, not with the
  \<open>RuntimeError\<close> that the interface names.\<close>

lemma evict_ends:
  assumes "rc_ok L s"
  shows "evict 0 s = Inr ([], s)" and "evictable_size s < int need \<Longrightarrow> evict need s = Inl AssertionError"
  using rc_sizes(1) [OF assms] by (simp_all add: evict_def py_assert_def)

end
