(* ===== verification/Manager_Properties.thy ===== *)
theory Manager_Properties
  imports Page_Conservation Radix_Properties
begin

text \<open>
  Page conservation on the two plain cache types, as instances of the lemmas of
  \<open>Page_Conservation\<close> through the interpretations of the cache interface, with one request on a pool
  of six pages as the concrete case.
\<close>

section \<open>A concrete pool\<close>

definition demo_pool :: "rcache cmgr" where
  "demo_pool = new_cmgr 6 2 (replicate 2 (replicate 8 0)) (new_rcache 2 0 1)"

definition demo_req :: "rhandle req" where
  "demo_req = (case new_req [1, 2, 3, 4, 5] 0 0 3 7 demo_params \<lparr>cached_len = 0, hnode = 0\<rparr> False False of
     Inr r \<Rightarrow> r)"

definition demo_alloc :: "rcache cmgr" where
  "demo_alloc = (case allocate_paged radix_ops [demo_req] demo_pool of Inl e \<Rightarrow> demo_pool | Inr m \<Rightarrow> m)"

definition demo_held :: "rcache cmgr" where
  "demo_held = (case cm_lock radix_ops \<lparr>cached_len = 0, hnode = 0\<rparr> demo_alloc of Inl e \<Rightarrow> demo_alloc | Inr m \<Rightarrow> m)"

lemma demo_pool_ok: "cm_ok radix_view {#} [(0, 0), (0, 0)] demo_pool"
proof -
  have "v_ok radix_view 2 {#} (new_rcache 2 0 1) \<and> v_slots radix_view (new_rcache 2 0 1) = {#}"
    using new_rcache_ok [of 2 0 1] by (simp add: radix_view_def new_rcache_def)
  then show ?thesis
    using radix_pc.new_cmgr_ok [of 2 "new_rcache 2 0 1" "replicate 2 (replicate 8 0)" 6]
    by (simp add: demo_pool_def numeral_2_eq_2)
qed

lemma demo_facts:
  "lazy_free_list demo_pool = None" "batch_ok [(0, 0), (0, 0)] [demo_req] demo_pool"
  "int (needed_pages (allocation_info (cm_page_size demo_pool) [demo_req]) * cm_page_size demo_pool) \<le>
     available_size radix_ops demo_pool"
  "allocate_paged radix_ops [demo_req] demo_pool = Inr demo_alloc"
  "grow (cm_page_size demo_pool) (grown (cm_page_size demo_pool) [demo_req]) [(0, 0), (0, 0)] = [(0, 6), (0, 0)]"
  "v_target radix_view \<lparr>cached_len = 0, hnode = 0\<rparr> \<in> v_nodes radix_view (prefix_cache demo_alloc)"
  "cm_lock radix_ops \<lparr>cached_len = 0, hnode = 0\<rparr> demo_alloc = Inr demo_held"
  by code_simp+

section \<open>Allocation\<close>

text \<open>C4. \<open>allocate_paged\<close> succeeds for a batch whose pages fit in the available size, evicting
  from the tree as far as it must: every request of the batch then owns its row up to the end of its
  last page, nothing else moves, and every slot of the pool is still accounted for exactly once.\<close>

theorem allocate_paged_conserves:
  assumes "cm_ok radix_view L H m" and "lazy_free_list m = None" and "batch_ok H rs m"
    and "int (needed_pages (allocation_info (cm_page_size m) rs) * cm_page_size m) \<le> available_size radix_ops m"
  shows "\<exists>m'. allocate_paged radix_ops rs m = Inr m' \<and>
     cm_ok radix_view L (grow (cm_page_size m) (grown (cm_page_size m) rs) H) m' \<and> lazy_free_list m' = None \<and>
     (\<forall>i < length H. take (snd (H ! i)) (page_table m' ! i) = take (snd (H ! i)) (page_table m ! i))"
  by (rule radix_pc.allocate_paged_ok [OF assms])

lemma allocate_paged_conserves_witness:
  "allocate_paged radix_ops [demo_req] demo_pool = Inr demo_alloc \<and> cm_ok radix_view {#} [(0, 6), (0, 0)] demo_alloc"
  using allocate_paged_conserves [OF demo_pool_ok demo_facts(1-3)] demo_facts(4,5) by auto

lemma demo_held_ok: "cm_ok radix_view {#0#} [(0, 6), (0, 0)] demo_held"
proof -
  have "cm_ok radix_view {#} [(0, 6), (0, 0)] demo_alloc"
    using radix_pc.allocate_paged_ok [OF demo_pool_ok demo_facts(1-3)] demo_facts(4,5) by auto
  from radix_pc.cm_ok_lock [OF this demo_facts(6)] demo_facts(7) show ?thesis
    by (auto simp: radix_view_def)
qed

section \<open>Commits\<close>

text \<open>C2. At the end of a request \<open>cache_req\<close> frees every slot the request owned or hands it to the
  tree: its row owns nothing afterwards, its lock is gone, and free pages, tree and the other
  requests hold every slot of the pool exactly once, so no page leaks and none is freed twice.\<close>

theorem cache_req_finish_conserves:
  assumes "cm_ok radix_view (add_mset (hnode (cache_handle r)) L) H m"
    and "row_index (table_idx r) (page_table m) = Inr i" and "H ! i = (cached_len (cache_handle r), hi)"
    and "rc_key (hnode (cache_handle r)) (prefix_cache m) = take (cached_len (cache_handle r)) (input_ids r)"
    and "cached_len (cache_handle r) \<le> req_cached_len r" and "req_cached_len r \<le> length (input_ids r)"
    and "hi = div_ceil (req_cached_len r) (cm_page_size m) * cm_page_size m" and "\<not> mm_embeds r"
  shows "\<exists>m'. cache_req radix_ops tic now r True m = Inr (r, m') \<and> cm_ok radix_view L (H[i := (0, 0)]) m' \<and>
     page_table m' = page_table m"
  using radix_pc.cache_req_finished [of r L H m i "cached_len (cache_handle r)" hi tic now] assms
  by (simp add: radix_view_def radix_ops_def)

definition demo_done :: "rhandle req" where
  "demo_done = complete_one demo_req"

lemma demo_done_facts:
  "row_index (table_idx demo_done) (page_table demo_held) = Inr 0"
  "[(0, 6), (0, 0)] ! 0 = (cached_len (cache_handle demo_done), 6::nat)"
  "rc_key (hnode (cache_handle demo_done)) (prefix_cache demo_held) =
     take (cached_len (cache_handle demo_done)) (input_ids demo_done)"
  "cached_len (cache_handle demo_done) \<le> req_cached_len demo_done"
  "req_cached_len demo_done \<le> length (input_ids demo_done)"
  "6 = div_ceil (req_cached_len demo_done) (cm_page_size demo_held) * cm_page_size demo_held"
  "\<not> mm_embeds demo_done" "hnode (cache_handle demo_done) = 0"
  by code_simp+

lemma cache_req_finish_conserves_witness:
  "\<exists>m'. cache_req radix_ops 5 6 demo_done True demo_held = Inr (demo_done, m') \<and>
     cm_ok radix_view {#} [(0, 0), (0, 0)] m'"
proof -
  have ok: "cm_ok radix_view (add_mset (hnode (cache_handle demo_done)) {#}) [(0, 6), (0, 0)] demo_held"
    using demo_held_ok demo_done_facts(8) by simp
  from cache_req_finish_conserves [OF ok demo_done_facts(1-7)] show ?thesis by auto
qed

text \<open>C3. When the prefill of a request is committed, \<open>cache_req\<close> moves the request's handle to the
  committed whole pages and returns the slots the tree already had: the request owns exactly the rest
  of its row, the row shows the tree's slots up to the new handle and is unchanged behind it, the
  new handle is locked instead of the old one, and every slot of the pool is accounted for once.\<close>

theorem cache_req_commit_conserves:
  assumes "cm_ok radix_view (add_mset (hnode (cache_handle r)) L) H m"
    and "row_index (table_idx r) (page_table m) = Inr i" and "H ! i = (cached_len (cache_handle r), hi)"
    and "rc_key (hnode (cache_handle r)) (prefix_cache m) = take (cached_len (cache_handle r)) (input_ids r)"
    and "take (cached_len (cache_handle r)) (page_table m ! i) = rc_path (hnode (cache_handle r)) (prefix_cache m)"
    and "cached_len (cache_handle r) \<le> req_cached_len r" and "req_cached_len r \<le> length (input_ids r)"
    and "req_cached_len r \<le> hi" and "\<not> mm_embeds r"
  shows "\<exists>h m'. cache_req radix_ops tic now r False m = Inr (r\<lparr>cache_handle := h\<rparr>, m') \<and>
     cached_len (cache_handle r) \<le> cached_len h \<and> cached_len h \<le> req_cached_len r \<and>
     cm_ok radix_view (add_mset (hnode h) L) (H[i := (cached_len h, hi)]) m' \<and>
     rc_key (hnode h) (prefix_cache m') = take (cached_len h) (input_ids r) \<and>
     take (cached_len h) (page_table m' ! i) = rc_path (hnode h) (prefix_cache m') \<and>
     drop (cached_len h) (page_table m' ! i) = drop (cached_len h) (page_table m ! i)"
  using radix_pc.cache_req_unfinished [of r L H m i "cached_len (cache_handle r)" hi tic now] assms
  by (auto simp: radix_view_def radix_ops_def)

lemma cache_req_commit_conserves_witness:
  "\<exists>h m'. cache_req radix_ops 5 6 demo_done False demo_held = Inr (demo_done\<lparr>cache_handle := h\<rparr>, m') \<and>
     cm_ok radix_view {#hnode h#} [(cached_len h, 6), (0, 0)] m'"
proof -
  have ok: "cm_ok radix_view (add_mset (hnode (cache_handle demo_done)) {#}) [(0, 6), (0, 0)] demo_held"
    using demo_held_ok demo_done_facts(8) by simp
  have "take (cached_len (cache_handle demo_done)) (page_table demo_held ! 0) =
      rc_path (hnode (cache_handle demo_done)) (prefix_cache demo_held)" "req_cached_len demo_done \<le> 6"
    by code_simp+
  from cache_req_commit_conserves [OF ok demo_done_facts(1-3) this(1) demo_done_facts(4,5) this(2) demo_done_facts(7), of 5 6]
  show ?thesis by auto
qed

section \<open>The idle check\<close>

text \<open>C24. The idle check \<open>check_integrity\<close> is exact, for both plain cache types and every page size. On a conserved pool with
  no free pending, it passes when no request owns slots beyond its cached prefix and raises RuntimeError otherwise. On a pool
  that is idle, it raises RuntimeError for every free list with a page too few (a leak) or too many (a double free), AssertionError
  for one of the right length with an entry that is not the first slot of a page, and accepts every other.\<close>

theorem idle_check_exact:
  assumes "cm_ok radix_view L H m" and "lazy_free_list m = None"
    and "cm_ok naive_view L' H' m'" and "lazy_free_list m' = None"
  shows "check_integrity radix_ops m = (if \<forall>e \<in> set H. fst e = snd e then Inr () else Inl RuntimeError) \<and>
    check_integrity naive_ops m' = (if \<forall>e \<in> set H'. fst e = snd e then Inr () else Inl RuntimeError) \<and>
    ((\<forall>e \<in> set H. fst e = snd e) \<longrightarrow> check_integrity radix_ops (m\<lparr>free_slots := fs\<rparr>) =
      (if length fs \<noteq> length (free_slots m) then Inl RuntimeError
       else if \<exists>b \<in> set fs. \<not> cm_page_size m dvd b then Inl AssertionError else Inr ())) \<and>
    ((\<forall>e \<in> set H'. fst e = snd e) \<longrightarrow> check_integrity naive_ops (m'\<lparr>free_slots := fs\<rparr>) =
      (if length fs \<noteq> length (free_slots m') then Inl RuntimeError
       else if \<exists>b \<in> set fs. \<not> cm_page_size m' dvd b then Inl AssertionError else Inr ()))"
  using radix_pc.integrity_exact [OF assms(1,2)] naive_pc.integrity_exact [OF assms(3,4)]
    radix_pc.integrity_of_free_list [OF assms(1,2)] naive_pc.integrity_of_free_list [OF assms(3,4)] by blast

lemma idle_check_exact_witness:
  "check_integrity radix_ops demo_pool = Inr () \<and>
   check_integrity radix_ops (demo_pool\<lparr>free_slots := [2, 4, 6, 8, 10]\<rparr>) = Inl RuntimeError \<and>
   check_integrity radix_ops (demo_pool\<lparr>free_slots := [0, 2, 4, 6, 8, 9]\<rparr>) = Inl AssertionError \<and>
   check_integrity naive_ops (new_cmgr 6 2 (replicate 2 (replicate 8 0)) NaivePrefixCache) = Inr ()"
proof -
  let ?n = "new_cmgr 6 2 (replicate 2 (replicate 8 0)) NaivePrefixCache"
  have n: "cm_ok naive_view {#} [(0, 0), (0, 0)] ?n" "lazy_free_list ?n = None"
    using naive_pc.new_cmgr_ok [of 2 NaivePrefixCache "replicate 2 (replicate 8 0)" 6]
    by (simp_all add: naive_view_def numeral_2_eq_2 new_cmgr_def)
  have d: "length (free_slots demo_pool) = 6" "cm_page_size demo_pool = 2" by code_simp+
  note all = idle_check_exact [OF demo_pool_ok demo_facts(1) n]
  show ?thesis using all [of "[2, 4, 6, 8, 10]"] all [of "[0, 2, 4, 6, 8, 9]"] by (simp add: d)
qed

end
