(* ===== verification/Sched_Tables.thy ===== *)
theory Sched_Tables
  imports Core Cache_Manager
begin

text \<open>
  The small managers of the scheduler: \<open>TableManager\<close> (\<open>scheduler/table.py\<close>), which hands out the rows
  of the page table, \<open>DecodeManager\<close> (\<open>scheduler/decode.py\<close>), which holds the requests that decode,
  and \<open>PendingReq\<close> (\<open>scheduler/utils.py\<close>). A set of request objects is a list without two
  requests of the same uid; requests are objects the forward updates in place, so adding a request
  replaces the older value of the same object.
\<close>

section \<open>Rows\<close>

record tmgr =
  max_running_reqs :: nat
  tm_free_slots :: "nat list"
  token_pool :: "int list list"

definition new_tmgr :: "nat \<Rightarrow> 'a list list \<Rightarrow> tmgr" where
  "new_tmgr n table =
     \<lparr>max_running_reqs = n, tm_free_slots = [0..<n], token_pool = map (\<lambda>row. replicate (length row) 0) table\<rparr>"

definition tm_available_size :: "tmgr \<Rightarrow> nat" where
  "tm_available_size t = length (tm_free_slots t)"

text \<open>\<open>list.pop\<close> takes the last element and raises on an empty list.\<close>

definition tm_allocate :: "tmgr \<Rightarrow> (nat \<times> tmgr) result" where
  "tm_allocate t =
     (if tm_free_slots t = [] then Inl IndexError
      else Inr (last (tm_free_slots t), t\<lparr>tm_free_slots := butlast (tm_free_slots t)\<rparr>))"

definition tm_free :: "nat \<Rightarrow> tmgr \<Rightarrow> tmgr" where
  "tm_free s t = t\<lparr>tm_free_slots := tm_free_slots t @ [s]\<rparr>"

definition tm_rebuild :: "'a list list \<Rightarrow> tmgr \<Rightarrow> tmgr" where
  "tm_rebuild table t =
     t\<lparr>token_pool := map (\<lambda>row. replicate (length row) 0) table, tm_free_slots := [0..<max_running_reqs t]\<rparr>"

text \<open>Every row is free or used by one request.\<close>

definition tm_ok :: "nat list \<Rightarrow> tmgr \<Rightarrow> bool" where
  "tm_ok used t \<longleftrightarrow> mset (tm_free_slots t) + mset used = mset [0..<max_running_reqs t]"

lemma new_tmgr_ok: "tm_ok [] (new_tmgr n table)"
  by (simp add: tm_ok_def new_tmgr_def)

lemma tm_allocate_ok:
  assumes "tm_ok used t" and "tm_allocate t = Inr (s, t')"
  shows "tm_ok (s # used) t' \<and> s < max_running_reqs t \<and> s \<notin> set used"
proof -
  have ne: "tm_free_slots t \<noteq> []" and s: "s = last (tm_free_slots t)"
    and t': "t' = t\<lparr>tm_free_slots := butlast (tm_free_slots t)\<rparr>"
    using assms(2) by (auto simp: tm_allocate_def split: if_splits)
  have "mset (tm_free_slots t) = add_mset s (mset (butlast (tm_free_slots t)))"
    using append_butlast_last_id [OF ne] s by (metis add_mset_add_single mset.simps mset_append)
  then have m: "mset (butlast (tm_free_slots t)) + mset (s # used) = mset [0..<max_running_reqs t]"
    using assms(1) by (simp add: tm_ok_def)
  then have "distinct (butlast (tm_free_slots t) @ s # used)"
    by (metis distinct_upt mset_append mset_eq_imp_distinct_iff)
  moreover have "s \<in># mset [0..<max_running_reqs t]" using m by (metis UnI2 list.set_intros(1) set_mset_mset set_mset_union)
  ultimately show ?thesis using m t' by (simp add: tm_ok_def)
qed

lemma tm_free_ok: "tm_ok (s # used) t \<Longrightarrow> tm_ok used (tm_free s t)"
  by (simp add: tm_ok_def tm_free_def)

section \<open>Decoding requests\<close>

record 'h dmgr =
  dm_page_size :: nat
  running_reqs :: "'h req list"

definition put_req :: "'h req \<Rightarrow> 'h req list \<Rightarrow> 'h req list" where
  "put_req r rs = (if uid r \<in> uid ` set rs then map (\<lambda>x. if uid x = uid r then r else x) rs else rs @ [r])"

definition filter_reqs :: "'h req list \<Rightarrow> 'h dmgr \<Rightarrow> 'h dmgr" where
  "filter_reqs rs d = d\<lparr>running_reqs := filter can_decode (fold put_req rs (running_reqs d))\<rparr>"

definition remove_req :: "'h req \<Rightarrow> 'h dmgr \<Rightarrow> 'h dmgr" where
  "remove_req r d = d\<lparr>running_reqs := filter (\<lambda>x. uid x \<noteq> uid r) (running_reqs d)\<rparr>"

definition dm_abort_req :: "nat \<Rightarrow> 'h dmgr \<Rightarrow> 'h req option \<times> 'h dmgr" where
  "dm_abort_req u d =
     (case find (\<lambda>r. uid r = u) (running_reqs d) of
        None \<Rightarrow> (None, d)
      | Some r \<Rightarrow> (Some r, d\<lparr>running_reqs := remove1 r (running_reqs d)\<rparr>))"

definition inflight_tokens :: "'h dmgr \<Rightarrow> int" where
  "inflight_tokens d =
     sum_list (map remain_len (running_reqs d)) +
       (int (dm_page_size d) - 1) * int (length (running_reqs d))"

definition dm_runnable :: "'h dmgr \<Rightarrow> bool" where
  "dm_runnable d \<longleftrightarrow> 0 < length (running_reqs d)"

definition dm_schedule_next_batch :: "'h dmgr \<Rightarrow> 'h batch option" where
  "dm_schedule_next_batch d =
     (if \<not> dm_runnable d then None else Some (new_batch (sort_key uid (running_reqs d)) Decode))"

text \<open>The running set: one value per request, each with output budget left.\<close>

definition dm_ok :: "'h dmgr \<Rightarrow> bool" where
  "dm_ok d \<longleftrightarrow> 0 < dm_page_size d \<and> distinct (map uid (running_reqs d)) \<and> (\<forall>r \<in> set (running_reqs d). can_decode r)"

lemma put_req_uids: "uid ` set (put_req r rs) = insert (uid r) (uid ` set rs)"
  by (auto simp: put_req_def image_iff)

lemma put_req_distinct: "distinct (map uid rs) \<Longrightarrow> distinct (map uid (put_req r rs))"
proof -
  have "map uid (map (\<lambda>x. if uid x = uid r then r else x) rs) = map uid rs"
    by (induction rs) auto
  then show "distinct (map uid rs) \<Longrightarrow> ?thesis" unfolding put_req_def by (auto simp del: map_map)
qed

lemma fold_put_distinct: "distinct (map uid xs) \<Longrightarrow> distinct (map uid (fold put_req rs xs))"
  by (induction rs arbitrary: xs) (simp_all add: put_req_distinct)

lemma fold_put_uids: "uid ` set (fold put_req rs xs) = uid ` set rs \<union> uid ` set xs"
  by (induction rs arbitrary: xs) (auto simp: put_req_uids)

lemma distinct_uid_filter: "distinct (map uid rs) \<Longrightarrow> distinct (map uid (filter P rs))"
  by (induction rs) auto

lemma filter_reqs_ok: "dm_ok d \<Longrightarrow> dm_ok (filter_reqs rs d)"
  using fold_put_distinct [of "running_reqs d" rs] by (simp add: dm_ok_def filter_reqs_def distinct_uid_filter)

lemma remove_req_ok: "dm_ok d \<Longrightarrow> dm_ok (remove_req r d) \<and> uid r \<notin> uid ` set (running_reqs (remove_req r d))"
  by (auto simp: dm_ok_def remove_req_def distinct_uid_filter)

lemma remove1_uids: "distinct (map uid rs) \<Longrightarrow> r \<in> set rs \<Longrightarrow>
   distinct (map uid (remove1 r rs)) \<and> set (remove1 r rs) = {x \<in> set rs. uid x \<noteq> uid r}"
  by (induction rs) (auto simp: image_iff)

lemma inflight_nonneg: "dm_ok d \<Longrightarrow> 0 \<le> inflight_tokens d"
proof -
  assume ok: "dm_ok d"
  have "0 \<le> sum_list (map remain_len (running_reqs d))"
    by (rule sum_list_nonneg) (use ok in \<open>auto simp: dm_ok_def can_decode_def\<close>)
  moreover have "0 \<le> (int (dm_page_size d) - 1) * int (length (running_reqs d))"
    using ok by (simp add: dm_ok_def)
  ultimately show ?thesis by (simp add: inflight_tokens_def)
qed

text \<open>The decode batch holds every running request exactly once, in the order of the uids, which
  makes it the same on every tensor-parallel rank, and there is no batch exactly when nothing runs.\<close>

theorem decode_batch_sorted:
  assumes "dm_ok d"
  shows "case dm_schedule_next_batch d of
       None \<Rightarrow> running_reqs d = []
     | Some b \<Rightarrow> mset (reqs b) = mset (running_reqs d) \<and> sorted_wrt (\<lambda>a b. uid a < uid b) (reqs b) \<and>
         is_decode b \<and> (\<forall>r \<in> set (reqs b). can_decode r)"
proof (cases "running_reqs d = []")
  case False
  let ?rs = "sort_key uid (running_reqs d)"
  have "distinct (map uid ?rs)"
    using assms unfolding dm_ok_def by (metis mset_eq_imp_distinct_iff mset_map mset_sort)
  moreover have "sorted (map uid ?rs)" by simp
  ultimately have "sorted_wrt (<) (map uid ?rs)" by (simp add: strict_sorted_iff)
  then have "sorted_wrt (\<lambda>a b. uid a < uid b) ?rs" by (simp add: sorted_wrt_map)
  then show ?thesis using False assms
    by (simp add: dm_schedule_next_batch_def dm_runnable_def new_batch_def is_decode_def dm_ok_def)
qed (simp add: dm_schedule_next_batch_def dm_runnable_def)

lemma decode_batch_sorted_witness:
  "\<exists>b. dm_schedule_next_batch \<lparr>dm_page_size = 1, running_reqs = [demo_request 5, demo_request 3]\<rparr> = Some b \<and>
     is_decode b \<and> sorted_wrt (\<lambda>a b. uid a < uid b) (reqs b)"
proof -
  have "dm_ok \<lparr>dm_page_size = 1, running_reqs = [demo_request 5, demo_request 3]\<rparr>" by code_simp
  from decode_batch_sorted [OF this] show ?thesis by (auto split: option.splits)
qed

section \<open>Pending requests\<close>

record 'h pending_req =
  p_uid :: nat
  p_input_ids :: "int list"
  p_sampling :: sampling_params
  p_chunked_req :: "'h req option"
  p_mm_embeds :: bool

definition p_input_len :: "'h pending_req \<Rightarrow> nat" where
  "p_input_len p = length (p_input_ids p)"

definition p_output_len :: "'h pending_req \<Rightarrow> nat" where
  "p_output_len p = max_tokens (p_sampling p)"

end
