(* ===== verification/Prefill.thy ===== *)
theory Prefill
  imports Sched_Tables
begin

text \<open>
  \<open>PrefillAdder\<close> and \<open>PrefillManager\<close> (\<open>scheduler/prefill.py\<close>): admission of pending requests into
  a prefill batch under a token budget and under the reservations for the requests in flight. The
  code reads the cache manager through its attributes and capability hooks; \<open>mgr_ops\<close> lists them,
  so that the same definitions serve the plain, the hybrid and the sliding-window managers.
\<close>

section \<open>What the admission reads of the cache manager\<close>

record ('m, 'h) mgr_ops =
  mo_page_size :: "'m \<Rightarrow> nat"
  mo_available_size :: "'m \<Rightarrow> int"
  mo_match_req :: "int list \<Rightarrow> bool \<Rightarrow> 'm \<Rightarrow> ('h \<times> nat option \<times> 'm) result"
  mo_lock :: "'h \<Rightarrow> 'm \<Rightarrow> ('h \<times> 'm) result"
  mo_unlock :: "'h \<Rightarrow> 'm \<Rightarrow> 'm result"
  mo_cached_len :: "'h \<Rightarrow> nat"
  mo_matched_indices :: "'h \<Rightarrow> 'm \<Rightarrow> slot list result"
  mo_put_row :: "nat \<Rightarrow> nat \<Rightarrow> slot list \<Rightarrow> 'm \<Rightarrow> 'm result"
  mo_chunk_align :: "'m \<Rightarrow> nat"
  mo_is_hybrid :: "'m \<Rightarrow> bool"
  mo_num_free_states :: "'m \<Rightarrow> nat"
  mo_ensure_states :: "nat \<Rightarrow> 'm \<Rightarrow> 'm result"
  mo_alloc_states :: "nat \<Rightarrow> 'm \<Rightarrow> (nat list \<times> 'm) result"
  mo_free_states :: "nat list \<Rightarrow> 'm \<Rightarrow> 'm"
  mo_swa_paged :: "'m \<Rightarrow> bool"
  mo_window :: "'m \<Rightarrow> nat"
  mo_swa_available :: "'m \<Rightarrow> int"

record 'm adder =
  token_budget :: int
  reserved_size :: int
  reserved_swa :: int
  ad_mgr :: 'm
  ad_tm :: tmgr

definition kv_reservation_size :: "nat \<Rightarrow> nat \<Rightarrow> nat \<Rightarrow> int" where
  "kv_reservation_size ps total_len cached = (int (div_ceil total_len ps) - int (div_ceil cached ps)) * int ps"

text \<open>\<open>self.table_manager.token_pool[table_idx][a : a + len(ids)].copy_(ids)\<close>\<close>

definition put_tokens :: "nat \<Rightarrow> nat \<Rightarrow> int list \<Rightarrow> tmgr \<Rightarrow> tmgr result" where
  "put_tokens ti a ids t =
     (if ti < length (token_pool t) \<and> a + length ids \<le> length (token_pool t ! ti)
      then Inr (t\<lparr>token_pool := (token_pool t)[ti := put_slice a ids (token_pool t ! ti)]\<rparr>)
      else Inl RuntimeError)"

text \<open>The resources of a fresh admission: handle, row, live state, ping-pong pair, restore source.\<close>

type_synonym 'h resource = "'h \<times> nat \<times> nat option \<times> (nat \<times> nat) option \<times> nat option"

definition refuse :: "('m, 'h) mgr_ops \<Rightarrow> 'h \<Rightarrow> 'm adder \<Rightarrow> ('h resource option \<times> 'm adder) result" where
  "refuse M h a = rbind (mo_unlock M h (ad_mgr a)) (\<lambda>m. Inr (None, a\<lparr>ad_mgr := m\<rparr>))"

definition need_swa :: "('m, 'h) mgr_ops \<Rightarrow> int \<Rightarrow> 'm \<Rightarrow> int" where
  "need_swa M ext m =
     (let ps = int (mo_page_size M m) in
      (div_ceil (min (max ext 1) (int (mo_window M m)) + 1) ps) * ps)"

definition take_row ::
    "('m, 'h) mgr_ops \<Rightarrow> 'h pending_req \<Rightarrow> 'h \<Rightarrow> nat option \<Rightarrow> 'm adder \<Rightarrow> ('h resource option \<times> 'm adder) result" where
  "take_row M p h mamba a =
     (let cached = mo_cached_len M h in
      rbind (tm_allocate (ad_tm a)) (\<lambda>(ti, t1).
      rbind
        (if 0 < cached then
           rbind (put_tokens ti 0 (take cached (p_input_ids p)) t1) (\<lambda>t2.
           rbind (mo_matched_indices M h (ad_mgr a)) (\<lambda>matched.
             if length matched \<le> cached then
               rbind (mo_put_row M ti (cached - length matched) matched (ad_mgr a)) (\<lambda>m. Inr (t2, m))
             else Inl RuntimeError))
         else Inr (t1, ad_mgr a))
        (\<lambda>(t2, m).
          if mo_is_hybrid M m then
            rbind (mo_alloc_states M 1 m) (\<lambda>(live, m1).
            rbind (mo_alloc_states M 2 m1) (\<lambda>(pair, m2).
              Inr (Some (h, ti, Some (live ! 0), Some (pair ! 0, pair ! 1), mamba), a\<lparr>ad_mgr := m2, ad_tm := t2\<rparr>)))
          else Inr (Some (h, ti, None, None, mamba), a\<lparr>ad_mgr := m, ad_tm := t2\<rparr>))))"

definition try_allocate_one ::
    "('m, 'h) mgr_ops \<Rightarrow> 'h pending_req \<Rightarrow> 'm adder \<Rightarrow> ('h resource option \<times> 'm adder) result" where
  "try_allocate_one M p a =
     (if tm_available_size (ad_tm a) = 0 then Inr (None, a)
      else rbind (mo_match_req M (p_input_ids p) (p_mm_embeds p) (ad_mgr a)) (\<lambda>(h, mamba, m).
        let cached = mo_cached_len M h;
            ext = int (p_input_len p) - int cached;
            estimated = kv_reservation_size (mo_page_size M m) (p_input_len p + p_output_len p) cached;
            a1 = a\<lparr>ad_mgr := m\<rparr> in
        if estimated + reserved_size a > mo_available_size M m then Inr (None, a1)
        else rbind (mo_lock M h m) (\<lambda>(h, m).
          let a2 = a\<lparr>ad_mgr := m\<rparr> in
          if estimated + reserved_size a > mo_available_size M m then refuse M h a2
          else rbind
            (if mo_is_hybrid M m then
               rbind (if mo_num_free_states M m < 3 then mo_ensure_states M 3 m else Inr m) (\<lambda>m.
                 Inr (mo_num_free_states M m < 3, m))
             else Inr (False, m))
            (\<lambda>(short, m).
              let a3 = a\<lparr>ad_mgr := m\<rparr> in
              if short then refuse M h a3
              else if mo_swa_paged M m \<and> mo_swa_available M m - reserved_swa a < need_swa M ext m
                then refuse M h a3
              else take_row M p h mamba a3))))"

text \<open>The size of a chunk: the token budget, the sliding-window pool, and the alignment of a chunk
  that does not end the prompt. \<open>None\<close> is the early return that waits for the next pass.\<close>

definition swa_chunk :: "('m, 'h) mgr_ops \<Rightarrow> 'h \<Rightarrow> nat \<Rightarrow> int \<Rightarrow> int \<Rightarrow> int \<Rightarrow> 'm adder \<Rightarrow> int option" where
  "swa_chunk M h cached evicted remain chunk a =
     (let m = ad_mgr a; ps = int (mo_page_size M m); floor = int (mo_cached_len M h);
          new_evicted = align_down (int cached - int (mo_window M m) - ps) ps;
          self_reclaim = max 0 (new_evicted - max evicted floor);
          swa_budget = mo_swa_available M m + self_reclaim - reserved_swa a;
          max_end = (div_ceil (int cached) ps + max swa_budget 0 div ps) * ps;
          chunk = min chunk (max (max_end - int cached) 0) in
      if 0 < chunk \<and> chunk < remain then
        (let aligned = align_down (int cached + chunk) ps - int cached in
         if aligned \<le> 0 then None else Some aligned)
      else Some chunk)"

definition swa_charge :: "('m, 'h) mgr_ops \<Rightarrow> nat \<Rightarrow> int \<Rightarrow> 'm adder \<Rightarrow> int" where
  "swa_charge M cached chunk a =
     (let ps = int (mo_page_size M (ad_mgr a)) in
      (div_ceil (int cached + chunk) ps - div_ceil (int cached) ps) * ps)"

definition align_chunk :: "nat \<Rightarrow> nat \<Rightarrow> int \<Rightarrow> int \<Rightarrow> int" where
  "align_chunk align cached remain chunk =
     (if 1 < align \<and> 0 < chunk \<and> chunk < remain then
        let aligned = align_down (int cached + chunk) (int align) - int cached in
        if 0 < aligned then aligned else chunk
      else chunk)"

definition add_one_req ::
    "('m, 'h) mgr_ops \<Rightarrow> 'h pending_req \<Rightarrow> 'h \<Rightarrow> nat \<Rightarrow> nat \<Rightarrow> nat option \<Rightarrow> (nat \<times> nat) option \<Rightarrow> nat \<Rightarrow>
     nat option \<Rightarrow> int \<Rightarrow> 'm adder \<Rightarrow> ('h req option \<times> 'm adder) result" where
  "add_one_req M p h ti cached live pair track restore evicted a =
     (let m = ad_mgr a;
          remain = int (p_input_len p) - int cached;
          chunk0 = min (token_budget a) remain in
      case (if mo_swa_paged M m then swa_chunk M h cached evicted remain chunk0 a else Some chunk0) of
        None \<Rightarrow> Inr (None, a)
      | Some chunk1 \<Rightarrow>
          let a1 = (if mo_swa_paged M m
                    then a\<lparr>reserved_swa := reserved_swa a + swa_charge M cached chunk1 a\<rparr> else a);
              chunk = align_chunk (mo_chunk_align M m) cached remain chunk1;
              is_chunked = (chunk < remain);
              a2 = a1\<lparr>token_budget := token_budget a1 - chunk,
                      reserved_size := reserved_size a1 +
                        kv_reservation_size (mo_page_size M m) (p_input_len p + p_output_len p) cached\<rparr> in
          rbind (put_tokens ti cached (slice cached (nat (int cached + chunk)) (p_input_ids p)) (ad_tm a2)) (\<lambda>t.
            if is_chunked \<and> p_mm_embeds p then Inl NotImplementedError
            else rbind (new_req (take (nat (int cached + chunk)) (p_input_ids p)) (int ti) cached (p_output_len p)
                          (p_uid p) (p_sampling p) h (p_mm_embeds p) is_chunked) (\<lambda>r.
              Inr (Some (r\<lparr>linear_slot_idx := live, mamba_ping_pong := pair, mamba_next_track_idx := track,
                           mamba_restore_src := restore, swa_evicted_seqlen := evicted\<rparr>),
                   a2\<lparr>ad_tm := t\<rparr>))))"

definition try_add_one ::
    "('m, 'h) mgr_ops \<Rightarrow> 'h pending_req \<Rightarrow> 'm adder \<Rightarrow> ('h req option \<times> 'm adder) result" where
  "try_add_one M p a =
     (if token_budget a \<le> 0 then Inr (None, a)
      else case p_chunked_req p of
        Some c \<Rightarrow> add_one_req M p (cache_handle c) (nat (table_idx c)) (req_cached_len c) (linear_slot_idx c)
                    (mamba_ping_pong c) (mamba_next_track_idx c) None (swa_evicted_seqlen c) a
      | None \<Rightarrow>
          rbind (try_allocate_one M p a) (\<lambda>(res, a1).
            case res of
              None \<Rightarrow> Inr (None, a1)
            | Some (h, ti, live, pair, restore) \<Rightarrow>
                rbind (add_one_req M p h ti (mo_cached_len M h) live pair 0 restore 0 a1) (\<lambda>(r, a2).
                  case r of
                    Some r \<Rightarrow> Inr (Some r, a2)
                  | None \<Rightarrow>
                      rbind (mo_unlock M h (ad_mgr a2)) (\<lambda>m.
                        let m' = (case (live, pair) of
                                    (Some s, Some (x, y)) \<Rightarrow> mo_free_states M [s, x, y] m
                                  | _ \<Rightarrow> m) in
                        Inr (None, a2\<lparr>ad_mgr := m', ad_tm := tm_free ti (ad_tm a2)\<rparr>)))))"

section \<open>The prefill manager\<close>

text \<open>The loop of \<open>schedule_next_batch\<close> over the pending requests: it stops at the first one that
  cannot be added. It returns the requests of the batch, the pending requests that continue, the
  prompt admissions and the two log counters.\<close>

record 'h pass =
  ps_reqs :: "'h req list"
  ps_chunked :: "'h pending_req list"
  ps_admissions :: "(nat \<times> nat \<times> nat) list"
  ps_new_tokens :: int
  ps_cached_tokens :: nat

fun add_loop ::
    "('m, 'h) mgr_ops \<Rightarrow> 'h pending_req list \<Rightarrow> 'h pass \<Rightarrow> 'm adder \<Rightarrow> ('h pass \<times> 'm adder) result" where
  "add_loop M [] s a = Inr (s, a)"
| "add_loop M (p # ps) s a =
     rbind (try_add_one M p a) (\<lambda>(r, a1).
       case r of
         None \<Rightarrow> Inr (s, a1)
       | Some r \<Rightarrow>
           let fresh = (p_chunked_req p = None) in
           add_loop M ps
             (s\<lparr>ps_reqs := ps_reqs s @ [r],
               ps_chunked := ps_chunked s @ (if chunked r then [p\<lparr>p_chunked_req := Some r\<rparr>] else []),
               ps_admissions := ps_admissions s @
                 (if fresh then [(uid r, p_input_len p, mo_cached_len M (cache_handle r))] else []),
               ps_new_tokens := ps_new_tokens s + extend_len r,
               ps_cached_tokens := ps_cached_tokens s + (if fresh then mo_cached_len M (cache_handle r) else 0)\<rparr>)
             a1)"

definition empty_pass :: "'h pass" where
  "empty_pass = \<lparr>ps_reqs = [], ps_chunked = [], ps_admissions = [], ps_new_tokens = 0, ps_cached_tokens = 0\<rparr>"

definition new_adder :: "int \<Rightarrow> 'h dmgr \<Rightarrow> 'm \<Rightarrow> tmgr \<Rightarrow> 'm adder" where
  "new_adder budget d m t =
     \<lparr>token_budget = budget, reserved_size = inflight_tokens d, reserved_swa = 0, ad_mgr = m, ad_tm = t\<rparr>"

definition pm_schedule_next_batch ::
    "('m, 'h) mgr_ops \<Rightarrow> int \<Rightarrow> 'h dmgr \<Rightarrow> 'h pending_req list \<Rightarrow> 'm \<Rightarrow> tmgr \<Rightarrow>
     ('h batch option \<times> 'h pending_req list \<times> 'm \<times> tmgr) result" where
  "pm_schedule_next_batch M budget d pending m t =
     (if pending = [] then Inr (None, pending, m, t)
      else rbind (add_loop M pending empty_pass (new_adder budget d m t)) (\<lambda>(s, a).
        if ps_reqs s = [] then Inr (None, pending, ad_mgr a, ad_tm a)
        else Inr
          (Some ((new_batch (ps_reqs s) Prefill)
             \<lparr>log_new_tokens := ps_new_tokens s, log_cached_tokens := ps_cached_tokens s,
              prompt_admissions := ps_admissions s\<rparr>),
           ps_chunked s @ drop (length (ps_reqs s)) pending, ad_mgr a, ad_tm a)))"

definition pm_add_one_req :: "'h pending_req \<Rightarrow> 'h pending_req list \<Rightarrow> 'h pending_req list" where
  "pm_add_one_req p pending = pending @ [p]"

fun pm_abort_req :: "nat \<Rightarrow> 'h pending_req list \<Rightarrow> 'h req option \<times> 'h pending_req list" where
  "pm_abort_req u [] = (None, [])"
| "pm_abort_req u (p # ps) =
     (if p_uid p = u then (p_chunked_req p, ps)
      else (let (r, ps') = pm_abort_req u ps in (r, p # ps')))"

section \<open>The plain cache manager behind the hooks\<close>

definition put_row :: "nat \<Rightarrow> nat \<Rightarrow> slot list \<Rightarrow> 'c cmgr \<Rightarrow> 'c cmgr result" where
  "put_row ti a vals m =
     (if ti < length (page_table m) \<and> a + length vals \<le> length (page_table m ! ti)
      then Inr (m\<lparr>page_table := (page_table m)[ti := put_slice a vals (page_table m ! ti)]\<rparr>)
      else Inl RuntimeError)"

definition plain_ops :: "('c, 'h) pc_ops \<Rightarrow> int \<Rightarrow> ('c cmgr, 'h) mgr_ops" where
  "plain_ops ops tic =
     \<lparr>mo_page_size = cm_page_size, mo_available_size = available_size ops,
      mo_match_req = (\<lambda>ids mm m. rbind (match_req ops tic ids mm m) (\<lambda>(h, m). Inr (h, None, m))),
      mo_lock = (\<lambda>h m. rbind (cm_lock ops h m) (\<lambda>m. Inr (h, m))), mo_unlock = cm_unlock ops,
      mo_cached_len = pc_cached_len ops, mo_matched_indices = (\<lambda>h m. pc_indices ops h (prefix_cache m)),
      mo_put_row = put_row, mo_chunk_align = (\<lambda>m. 1), mo_is_hybrid = (\<lambda>m. False),
      mo_num_free_states = (\<lambda>m. 0), mo_ensure_states = (\<lambda>n m. Inr m),
      mo_alloc_states = (\<lambda>n m. Inl RuntimeError), mo_free_states = (\<lambda>s m. m),
      mo_swa_paged = (\<lambda>m. False), mo_window = (\<lambda>m. 0), mo_swa_available = (\<lambda>m. 0)\<rparr>"

end
