(* ===== verification/Prefill_Properties.thy ===== *)
theory Prefill_Properties
  imports Prefill
begin

text \<open>
  What a prefill pass guarantees for every cache manager: the token budget, the order of the pending
  requests, and that the chunks of a prompt follow each other without gap or overlap.
\<close>

section \<open>The size of a chunk\<close>

lemma align_down_int: "0 < b \<Longrightarrow> align_down a b \<le> (a::int)"
  unfolding align_down_def using div_mult_mod_eq [of a b] pos_mod_sign [of b a] by linarith

lemma align_down_int_le: "0 \<le> b \<Longrightarrow> 0 \<le> a \<Longrightarrow> align_down a b \<le> (a::int)"
  by (cases "b = 0") (simp add: align_down_def, rule align_down_int, simp)

lemma swa_chunk_le:
  assumes "swa_chunk M h cached evicted remain chunk a = Some c"
  shows "c \<le> chunk"
proof -
  let ?ps = "int (mo_page_size M (ad_mgr a))"
  obtain c' where c': "c' \<le> chunk" and "(if 0 < c' \<and> c' < remain
      then if align_down (int cached + c') ?ps - int cached \<le> 0 then None
           else Some (align_down (int cached + c') ?ps - int cached) else Some c') = Some c"
    using assms by (simp only: swa_chunk_def Let_def) (metis min.cobounded1)
  then show ?thesis using align_down_int_le [of ?ps "int cached + c'"] by (auto split: if_splits)
qed

lemma align_chunk_le: "align_chunk align cached remain chunk \<le> chunk"
  using align_down_int [of "int align" "int cached + chunk"] by (auto simp: align_chunk_def Let_def)

text \<open>What \<open>_add_one_req\<close> adds: the next tokens of the prompt, at most the budget.\<close>

lemma add_one_req_adds:
  assumes "add_one_req M p h ti cached live pair track restore evicted a = Inr (Some r, a')"
  shows "0 < extend_len r \<and> extend_len r \<le> token_budget a \<and> token_budget a' = token_budget a - extend_len r \<and>
     uid r = p_uid p \<and> req_cached_len r = cached \<and> device_len r \<le> p_input_len p \<and>
     input_ids r = take (device_len r) (p_input_ids p) \<and> (chunked r \<longleftrightarrow> device_len r < p_input_len p) \<and>
     cache_handle r = h \<and> table_idx r = int ti \<and> req_ok r"
proof -
  let ?m = "ad_mgr a" and ?remain = "int (p_input_len p) - int cached"
  let ?base = "min (token_budget a) ?remain"
  obtain c1 where c1: "(if mo_swa_paged M ?m then swa_chunk M h cached evicted ?remain ?base a else Some ?base) = Some c1"
    using assms by (auto simp: add_one_req_def Let_def split: option.splits)
  let ?c = "align_chunk (mo_chunk_align M ?m) cached ?remain c1"
  have "c1 \<le> ?base" using c1 swa_chunk_le [of M h cached evicted ?remain ?base a c1] by (auto split: if_splits)
  then have le: "?c \<le> token_budget a" "?c \<le> ?remain" using align_chunk_le [of "mo_chunk_align M ?m" cached ?remain c1] by linarith+
  let ?ids = "take (nat (int cached + ?c)) (p_input_ids p)"
  obtain r0 where r0: "new_req ?ids (int ti) cached (p_output_len p) (p_uid p) (p_sampling p) h (p_mm_embeds p) (?c < ?remain) = Inr r0"
    and r: "r = r0\<lparr>linear_slot_idx := live, mamba_ping_pong := pair, mamba_next_track_idx := track,
                   mamba_restore_src := restore, swa_evicted_seqlen := evicted\<rparr>"
    and a': "token_budget a' = token_budget a - ?c"
    using assms c1 by (auto simp: add_one_req_def Let_def result_convs split: option.splits if_splits)
  have cl: "cached < length ?ids" using r0 by (auto simp: new_req_def result_convs)
  then have pos: "0 < ?c" by auto
  have "nat (int cached + ?c) \<le> length (p_input_ids p)" using le(2) pos unfolding p_input_len_def by linarith
  then have len: "length ?ids = nat (int cached + ?c)" by simp
  have dl: "device_len r = length ?ids" "req_cached_len r = cached" "uid r = p_uid p" "chunked r = (?c < ?remain)"
    "input_ids r = ?ids" "cache_handle r = h" "table_idx r = int ti" "req_ok r"
    using r0 by (auto simp: r new_req_def result_convs req_ok_def)
  have "extend_len r = ?c" using dl(1,2) len pos by (simp add: extend_len_def)
  moreover have "device_len r \<le> p_input_len p" using dl(1) by (simp add: p_input_len_def)
  moreover have "input_ids r = take (device_len r) (p_input_ids p)" using dl(1,5) len by simp
  moreover have "chunked r \<longleftrightarrow> device_len r < p_input_len p" using dl(1,4) len pos by auto
  ultimately show ?thesis using pos le(1) a' dl by simp
qed

definition start_len :: "('m, 'h) mgr_ops \<Rightarrow> 'h pending_req \<Rightarrow> 'h req \<Rightarrow> nat" where
  "start_len M p r = (case p_chunked_req p of Some c \<Rightarrow> req_cached_len c | None \<Rightarrow> mo_cached_len M (cache_handle r))"

text \<open>The request a pending request turns into in this pass.\<close>

definition continues :: "('m, 'h) mgr_ops \<Rightarrow> 'h pending_req \<Rightarrow> 'h req \<Rightarrow> bool" where
  "continues M p r \<longleftrightarrow> 0 < extend_len r \<and> uid r = p_uid p \<and> req_cached_len r = start_len M p r \<and>
     device_len r \<le> p_input_len p \<and> input_ids r = take (device_len r) (p_input_ids p) \<and>
     (chunked r \<longleftrightarrow> device_len r < p_input_len p)"

text \<open>A refused admission leaves the budget.\<close>

lemma refuse_budget: "refuse M h a = Inr (x, a') \<Longrightarrow> token_budget a' = token_budget a"
  by (auto simp: refuse_def result_convs)

lemma take_row_budget: "take_row M p h mamba a = Inr (x, a') \<Longrightarrow> token_budget a' = token_budget a"
  by (auto simp: take_row_def result_convs Let_def split: if_splits)

lemma try_allocate_budget:
  assumes "try_allocate_one M p a = Inr (x, a')"
  shows "token_budget a' = token_budget a"
proof (cases "tm_available_size (ad_tm a) = 0")
  case False
  note A = assms [unfolded try_allocate_one_def if_not_P [OF False] rbind_Inr_conv]
  then obtain h mamba m where "mo_match_req M (p_input_ids p) (p_mm_embeds p) (ad_mgr a) = Inr (h, mamba, m)" by auto
  with A show ?thesis
    by (auto simp: Let_def rbind_Inr_conv dest!: refuse_budget take_row_budget split: if_splits)
qed (use assms in \<open>simp add: try_allocate_one_def\<close>)

lemma add_one_req_refused: "add_one_req M p h ti cached live pair track restore evicted a = Inr (None, a') \<Longrightarrow> a' = a"
  by (auto simp: add_one_req_def Let_def result_convs split: option.splits if_splits)

lemma try_add_one_refused:
  assumes "try_add_one M p a = Inr (None, a')"
  shows "token_budget a' = token_budget a"
proof (cases "token_budget a \<le> 0 \<or> p_chunked_req p \<noteq> None")
  case True
  then show ?thesis using assms by (auto simp: try_add_one_def dest: add_one_req_refused split: if_splits)
next
  case False
  then obtain res a1 where t: "try_allocate_one M p a = Inr (res, a1)"
    using assms by (auto simp: try_add_one_def rbind_Inr_conv)
  show ?thesis
  proof (cases res)
    case None
    then show ?thesis using assms False t try_allocate_budget [OF t] by (simp add: try_add_one_def)
  next
    case (Some rs)
    obtain h ti live pair restore where rs: "rs = (h, ti, live, pair, restore)" by (cases rs)
    obtain r a2 where ad: "add_one_req M p h ti (mo_cached_len M h) live pair 0 restore 0 a1 = Inr (r, a2)"
      using assms False t Some rs by (auto simp: try_add_one_def rbind_Inr_conv)
    have r: "r = None" using assms False t Some rs ad by (cases r) (auto simp: try_add_one_def)
    then obtain m where "a' = a2\<lparr>ad_mgr := m, ad_tm := tm_free ti (ad_tm a2)\<rparr>"
      using assms False t Some rs ad by (auto simp: try_add_one_def rbind_Inr_conv Let_def)
    then show ?thesis using add_one_req_refused [OF ad [unfolded r]] try_allocate_budget [OF t] by simp
  qed
qed

lemma try_add_one_adds:
  assumes "try_add_one M p a = Inr (Some r, a')"
  shows "continues M p r \<and> extend_len r \<le> token_budget a \<and> token_budget a' = token_budget a - extend_len r"
proof (cases "p_chunked_req p")
  case (Some c)
  then have "add_one_req M p (cache_handle c) (nat (table_idx c)) (req_cached_len c) (linear_slot_idx c)
                    (mamba_ping_pong c) (mamba_next_track_idx c) None (swa_evicted_seqlen c) a = Inr (Some r, a')"
    using assms by (auto simp: try_add_one_def split: if_splits)
  from add_one_req_adds [OF this] Some show ?thesis by (auto simp: continues_def start_len_def)
next
  case None
  then obtain h ti live pair restore a1 where t: "try_allocate_one M p a = Inr (Some (h, ti, live, pair, restore), a1)"
    and ad: "add_one_req M p h ti (mo_cached_len M h) live pair 0 restore 0 a1 = Inr (Some r, a')"
    using assms by (auto simp: try_add_one_def result_convs split: if_splits option.splits)
  have "token_budget a1 = token_budget a" by (rule try_allocate_budget [OF t])
  with add_one_req_adds [OF ad] None show ?thesis by (auto simp: continues_def start_len_def)
qed

definition pass_step :: "('m, 'h) mgr_ops \<Rightarrow> 'h pending_req list \<Rightarrow> 'h pass \<Rightarrow> bool" where
  "pass_step M seen s \<longleftrightarrow> list_all2 (continues M) seen (ps_reqs s) \<and>
     ps_chunked s = map (\<lambda>(p, r). p\<lparr>p_chunked_req := Some r\<rparr>) (filter (\<lambda>(p, r). chunked r) (zip seen (ps_reqs s))) \<and>
     ps_new_tokens s = sum_list (map extend_len (ps_reqs s))"

lemma add_loop_pass:
  assumes "add_loop M ps s a = Inr (s', a')" and "pass_step M seen s"
    and "0 \<le> token_budget a \<or> ps_reqs s = []" 
  shows "\<exists>n \<le> length ps. pass_step M (seen @ take n ps) s' \<and>
     ps_new_tokens s' - ps_new_tokens s = token_budget a - token_budget a' \<and>
     (0 \<le> token_budget a' \<or> ps_reqs s' = [])"
  using assms
proof (induction ps arbitrary: s a seen)
  case Nil
  then show ?case by auto
next
  case (Cons p ps)
  obtain r a1 where t: "try_add_one M p a = Inr (r, a1)"
    using Cons.prems(1) by (auto simp: result_convs)
  show ?case
  proof (cases r)
    case None
    have "token_budget a1 = token_budget a"
      using try_add_one_refused t None by blast
    then show ?thesis using Cons.prems t None by (intro exI [of _ 0]) auto
  next
    case (Some r')
    note A = try_add_one_adds [OF t [unfolded Some]]
    let ?s = "s\<lparr>ps_reqs := ps_reqs s @ [r'],
               ps_chunked := ps_chunked s @ (if chunked r' then [p\<lparr>p_chunked_req := Some r'\<rparr>] else []),
               ps_admissions := ps_admissions s @
                 (if p_chunked_req p = None then [(uid r', p_input_len p, mo_cached_len M (cache_handle r'))] else []),
               ps_new_tokens := ps_new_tokens s + extend_len r',
               ps_cached_tokens := ps_cached_tokens s + (if p_chunked_req p = None then mo_cached_len M (cache_handle r') else 0)\<rparr>"
    have run: "add_loop M ps ?s a1 = Inr (s', a')" using Cons.prems(1) t Some by (simp add: Let_def)
    have "length seen = length (ps_reqs s)" using Cons.prems(2) by (auto simp: pass_step_def list_all2_lengthD)
    then have "pass_step M (seen @ [p]) ?s"
      using Cons.prems(2) A by (auto simp: pass_step_def list_all2_appendI zip_append)
    moreover have "0 \<le> token_budget a1" using A by linarith
    ultimately obtain n where "n \<le> length ps" "pass_step M ((seen @ [p]) @ take n ps) s'"
       "ps_new_tokens s' - ps_new_tokens ?s = token_budget a1 - token_budget a'" "0 \<le> token_budget a' \<or> ps_reqs s' = []"
      using Cons.IH [OF run] by blast
    then show ?thesis using A by (intro exI [of _ "Suc n"]) auto
  qed
qed

section \<open>A concrete pass\<close>

text \<open>Two pending prompts of three and four tokens and a budget of five: the second one is cut.\<close>

definition demo_pending :: "nat \<Rightarrow> int list \<Rightarrow> naive_handle pending_req" where
  "demo_pending u ids = \<lparr>p_uid = u, p_input_ids = ids, p_sampling = demo_params, p_chunked_req = None, p_mm_embeds = False\<rparr>"

definition demo_pass where
  "demo_pass = pm_schedule_next_batch (plain_ops naive_ops 1) 5 \<lparr>dm_page_size = 2, running_reqs = []\<rparr>
     [demo_pending 1 [10, 11, 12], demo_pending 2 [20, 21, 22, 23]]
     (new_cmgr 8 2 (replicate 2 (replicate 8 0)) NaivePrefixCache) (new_tmgr 2 (replicate 2 (replicate 8 (0::nat))))"

lemma demo_pass_batch:
  obtains b pending' m' t' where "demo_pass = Inr (Some b, pending', m', t')" "length (reqs b) = 2"
proof -
  have "case demo_pass of Inr (Some b, x) \<Rightarrow> length (reqs b) = 2 | _ \<Rightarrow> False" by code_simp
  then show ?thesis using that by (auto split: sum.splits option.splits prod.splits)
qed

section \<open>The batch\<close>

text \<open>C25. A prefill batch never exceeds the token budget: the tokens its requests compute sum up to the
  logged count, which is at most the budget, and every request of the batch computes at least one.\<close>

theorem prefill_budget:
  assumes "pm_schedule_next_batch M budget d pending m t = Inr (Some b, pending', m', t')"
  shows "(\<forall>r \<in> set (reqs b). 0 < extend_len r) \<and> sum_list (map extend_len (reqs b)) = log_new_tokens b \<and>
     log_new_tokens b \<le> budget"
proof -
  obtain s a where l: "add_loop M pending empty_pass (new_adder budget d m t) = Inr (s, a)" and ne: "ps_reqs s \<noteq> []"
    and b: "reqs b = ps_reqs s" "log_new_tokens b = ps_new_tokens s"
    using assms by (auto simp: pm_schedule_next_batch_def result_convs new_batch_def split: if_splits)
  have "pass_step M [] empty_pass" by (simp add: pass_step_def empty_pass_def)
  from add_loop_pass [OF l this] obtain n where n: "pass_step M (take n pending) s"
    "ps_new_tokens s = budget - token_budget a" "0 \<le> token_budget a \<or> ps_reqs s = []"
    by (auto simp: empty_pass_def new_adder_def)
  have "list_all2 (continues M) (take n pending) (ps_reqs s)" using n(1) by (simp add: pass_step_def)
  then have "\<forall>r \<in> set (ps_reqs s). 0 < extend_len r"
    unfolding continues_def by (induction rule: list_all2_induct) auto
  then show ?thesis using n ne b by (simp add: pass_step_def)
qed

lemma prefill_budget_witness:
  "\<exists>b x. demo_pass = Inr (Some b, x) \<and> log_new_tokens b \<le> 5 \<and> sum_list (map extend_len (reqs b)) = log_new_tokens b"
proof -
  obtain b pending' m' t' where b: "demo_pass = Inr (Some b, pending', m', t')" by (rule demo_pass_batch)
  from prefill_budget [OF b [unfolded demo_pass_def]] b show ?thesis by auto
qed

text \<open>C19. A prefill pass takes the pending requests in order and loses none: the batch is made of the
  first \<open>n\<close> pending requests, each request computes the part of its prompt that follows what was cached
  or computed before and ends at its device length, exactly those that do not reach the end of their
  prompt stay pending, in order and ahead of the untouched rest, and carry their continuation.\<close>

theorem prefill_pass_fifo:
  assumes "pm_schedule_next_batch M budget d pending m t = Inr (Some b, pending', m', t')"
  shows "let n = length (reqs b); front = zip (take n pending) (reqs b) in
     n \<le> length pending \<and> list_all2 (continues M) (take n pending) (reqs b) \<and>
     pending' = map (\<lambda>(p, r). p\<lparr>p_chunked_req := Some r\<rparr>)
        (filter (\<lambda>(p, r). device_len r < p_input_len p) front) @ drop n pending"
proof -
  obtain s a where l: "add_loop M pending empty_pass (new_adder budget d m t) = Inr (s, a)"
    and b: "reqs b = ps_reqs s" "pending' = ps_chunked s @ drop (length (ps_reqs s)) pending"
    using assms by (auto simp: pm_schedule_next_batch_def result_convs new_batch_def split: if_splits)
  have "pass_step M [] empty_pass" by (simp add: pass_step_def empty_pass_def)
  from add_loop_pass [OF l this] obtain n where n: "n \<le> length pending" "pass_step M (take n pending) s"
    by (auto simp: empty_pass_def)
  then have all: "list_all2 (continues M) (take n pending) (ps_reqs s)" by (simp add: pass_step_def)
  then have len: "length (ps_reqs s) = n" using n(1) by (auto dest: list_all2_lengthD)
  have "filter (\<lambda>(p, r). chunked r) (zip (take n pending) (ps_reqs s)) =
      filter (\<lambda>(p, r). device_len r < p_input_len p) (zip (take n pending) (ps_reqs s))"
    using all by (intro filter_cong) (auto simp: list_all2_iff continues_def)
  then show ?thesis using n all len b by (simp add: pass_step_def Let_def)
qed

lemma prefill_pass_fifo_witness:
  "\<exists>b pending' x. demo_pass = Inr (Some b, pending', x) \<and>
     list_all2 (continues (plain_ops naive_ops 1)) [demo_pending 1 [10, 11, 12], demo_pending 2 [20, 21, 22, 23]] (reqs b)"
proof -
  obtain b pending' m' t' where b: "demo_pass = Inr (Some b, pending', m', t')" "length (reqs b) = 2"
    by (rule demo_pass_batch)
  from prefill_pass_fifo [OF b(1) [unfolded demo_pass_def]] b show ?thesis by (auto simp: Let_def)
qed

end
