(* ===== verification/Hybrid_Radix.thy ===== *)
theory Hybrid_Radix
  imports Radix_Cache
begin

text \<open>
  \<open>HybridRadixCache\<close> (\<open>kvcache/hybrid_radix_cache.py\<close>): the prefix cache of models that mix full
  attention with a recurrent state. The radix tree of the KV pages carries a second currency: a node
  may own a snapshot of the recurrent state at its end (\<open>mamba_value\<close>, a slot of the state pool).
  Tree, page size and the counters \<open>full_evictable\<close>, \<open>full_protected\<close> are the \<open>rcache\<close> \<open>kv\<close> of
  the state, so that the facts about the KV currency carry over; the counters of the snapshots are
  its other two fields.
\<close>

section \<open>State and operations\<close>

record hcache =
  kv :: rcache
  mamba_evictable :: int
  mamba_protected :: int

record hmatch =
  hm_indices :: "slot list"
  hm_len :: nat
  hm_mamba :: "nat option"
  hm_node :: nat

text \<open>\<open>kernel/fla/chunk.py\<close>: \<open>CHUNK_SIZE = 64\<close>.\<close>

definition fla_chunk_size :: nat where
  "fla_chunk_size = 64"

definition new_hcache :: "nat \<Rightarrow> nat \<Rightarrow> int \<Rightarrow> hcache result" where
  "new_hcache ps counter now =
     py_assert (fla_chunk_size mod ps = 0)
       (Inr \<lparr>kv = new_rcache ps counter now, mamba_evictable = 0, mamba_protected = 0\<rparr>)"

abbreviation htree :: "hcache \<Rightarrow> rtree" where
  "htree s \<equiv> root_node (kv s)"

abbreviation set_htree :: "rtree \<Rightarrow> hcache \<Rightarrow> hcache" where
  "set_htree t s \<equiv> s\<lparr>kv := (kv s)\<lparr>root_node := t\<rparr>\<rparr>"

definition path_len :: "nat \<Rightarrow> rtree \<Rightarrow> nat" where
  "path_len u t = sum_list (map node_len (up_path u t))"

text \<open>The walk up to the deepest node with a live snapshot, with the length of its path.\<close>

fun live_end :: "ndata list \<Rightarrow> nat \<Rightarrow> (ndata \<times> nat) option" where
  "live_end [] end_len = None"
| "live_end (cur # ds) end_len =
     (if mamba_value cur \<noteq> None then Some (cur, end_len) else live_end ds (end_len - node_len cur))"

definition h_match_prefix :: "int \<Rightarrow> token list \<Rightarrow> hcache \<Rightarrow> (hmatch \<times> hcache) result" where
  "h_match_prefix tic ids s =
     rbind (tree_walk tic ids (kv s)) (\<lambda>(u, _, c).
       case live_end (up_path u (root_node c)) (path_len u (root_node c)) of
         Some (cur, end_len) \<Rightarrow>
           Inr (\<lparr>hm_indices = path_vals (uuid cur) (root_node c), hm_len = end_len,
                 hm_mamba = mamba_value cur, hm_node = uuid cur\<rparr>, s\<lparr>kv := c\<rparr>)
       | None \<Rightarrow>
           Inr (\<lparr>hm_indices = [], hm_len = 0, hm_mamba = None, hm_node = uuid (rdata (root_node c))\<rparr>,
                s\<lparr>kv := c\<rparr>))"

text \<open>\<open>insert\<close> attaches the missing tail and donates the snapshot to the end node; it reports
  \<open>True\<close> when the caller keeps the snapshot.\<close>

definition donate :: "nat \<Rightarrow> nat \<Rightarrow> hcache \<Rightarrow> bool \<times> hcache" where
  "donate u v s =
     (case node_at u (htree s) of
        None \<Rightarrow> (True, s)
      | Some d \<Rightarrow>
          if u = uuid (rdata (htree s)) then (True, s)
          else if mamba_value d \<noteq> None then (True, s)
          else (False,
            (if mamba_ref_count d = 0 then s\<lparr>mamba_evictable := mamba_evictable s + 1\<rparr> else s)
              \<lparr>kv := (kv s)\<lparr>root_node := upd_node u (\<lambda>d. d\<lparr>mamba_value := Some v\<rparr>) (htree s)\<rparr>\<rparr>))"

definition h_insert ::
    "int \<Rightarrow> int \<Rightarrow> token list \<Rightarrow> slot list \<Rightarrow> nat \<Rightarrow> hcache \<Rightarrow> (nat \<times> bool \<times> hcache) result" where
  "h_insert tic now input_ids indices v s =
     rbind (insert_prefix tic now input_ids indices (kv s)) (\<lambda>(prefix_len, h, c).
       let (ex, s') = donate (hnode h) v (s\<lparr>kv := c\<rparr>) in Inr (prefix_len, ex, s'))"

text \<open>\<open>inc_lock\<close>, \<open>dec_lock\<close>: the snapshot reference of the node itself, then the KV references
  of the path to the root.\<close>

definition mbump :: "int \<Rightarrow> ndata \<Rightarrow> ndata" where
  "mbump \<delta> d = d\<lparr>mamba_ref_count := mamba_ref_count d + \<delta>\<rparr>"

definition inc_lock :: "nat \<Rightarrow> hcache \<Rightarrow> hcache" where
  "inc_lock u s =
     (let s1 = (case node_at u (htree s) of
          None \<Rightarrow> s
        | Some d \<Rightarrow>
            if mamba_value d \<noteq> None then
              (if mamba_ref_count d = 0
               then s\<lparr>mamba_evictable := mamba_evictable s - 1, mamba_protected := mamba_protected s + 1\<rparr>
               else s)\<lparr>kv := (kv s)\<lparr>root_node := upd_node u (mbump 1) (htree s)\<rparr>\<rparr>
            else s)
      in s1\<lparr>kv := lock_loop (up_path u (htree s1)) (kv s1)\<rparr>)"

definition dec_lock :: "nat \<Rightarrow> hcache \<Rightarrow> hcache result" where
  "dec_lock u s =
     (let s1 = (case node_at u (htree s) of
          None \<Rightarrow> s
        | Some d \<Rightarrow>
            if mamba_value d \<noteq> None \<and> 0 < mamba_ref_count d then
              (if mamba_ref_count d - 1 = 0
               then s\<lparr>mamba_evictable := mamba_evictable s + 1, mamba_protected := mamba_protected s - 1\<rparr>
               else s)\<lparr>kv := (kv s)\<lparr>root_node := upd_node u (mbump (- 1)) (htree s)\<rparr>\<rparr>
            else s)
      in rbind (unlock_loop (up_path u (htree s1)) (kv s1)) (\<lambda>c. Inr (s1\<lparr>kv := c\<rparr>)))"

text \<open>Eviction. \<open>free_node_mamba\<close> takes the snapshot of a node away; the cascade drops the nodes
  above a removed leaf that became leaves without a snapshot.\<close>

definition free_node_mamba :: "ndata \<Rightarrow> nat list \<Rightarrow> hcache \<Rightarrow> nat list \<times> hcache" where
  "free_node_mamba d out s =
     (case mamba_value d of
        None \<Rightarrow> (out, s)
      | Some v \<Rightarrow>
          (out @ [v],
           (if mamba_ref_count d = 0 then s\<lparr>mamba_evictable := mamba_evictable s - 1\<rparr> else s)
             \<lparr>kv := (kv s)\<lparr>root_node := upd_node (uuid d) (\<lambda>d. d\<lparr>mamba_value := None\<rparr>) (htree s)\<rparr>\<rparr>))"

function cascade_tombstone_leaves ::
    "nat \<Rightarrow> slot list \<Rightarrow> nat \<Rightarrow> rcache \<Rightarrow> (nat \<times> slot list \<times> nat \<times> rcache) result" where
  "cascade_tombstone_leaves p kv_out freed c =
     (case subtree p (root_node c) of
        None \<Rightarrow> Inl AssertionError
      | Some q \<Rightarrow>
          if mamba_value (rdata q) = None \<and> is_leaf q \<and> ref_count (rdata q) = 0 \<and>
             p \<noteq> uuid (rdata (root_node c)) then
            (case remove_node (page_size c) p (root_node c) of
               Inl e \<Rightarrow> Inl e
             | Inr (p', t) \<Rightarrow>
                 cascade_tombstone_leaves p' (kv_out @ nval (rdata q)) (freed + node_len (rdata q))
                   (c\<lparr>root_node := t, evictable_size := evictable_size c - int (node_len (rdata q))\<rparr>))
          else Inr (p, kv_out, freed, c))"
  by pat_completeness auto
termination
  by (relation "measure (\<lambda>(_, _, _, c). tsize (root_node c))") (auto dest: remove_node_tsize)

declare cascade_tombstone_leaves.simps [simp del]

lemma cascade_tsize:
  "cascade_tombstone_leaves p kv_out freed c = Inr (p', kv', f', c') \<Longrightarrow> tsize (root_node c') \<le> tsize (root_node c)"
proof (induction p kv_out freed c rule: cascade_tombstone_leaves.induct)
  case (1 p kv_out freed c)
  show ?case
  proof (cases "\<exists>q t p1. subtree p (root_node c) = Some q \<and> mamba_value (rdata q) = None \<and> is_leaf q \<and>
      ref_count (rdata q) = 0 \<and> p \<noteq> uuid (rdata (root_node c)) \<and>
      remove_node (page_size c) p (root_node c) = Inr (p1, t)")
    case True
    then obtain q t p1 where q: "subtree p (root_node c) = Some q" "mamba_value (rdata q) = None \<and> is_leaf q \<and>
      ref_count (rdata q) = 0 \<and> p \<noteq> uuid (rdata (root_node c))"
      and t: "remove_node (page_size c) p (root_node c) = Inr (p1, t)" by blast
    from 1(1) [OF q t refl] 1(2) q t remove_node_tsize [OF t] show ?thesis
      by (subst (asm) (2) cascade_tombstone_leaves.simps) simp
  next
    case False
    then show ?thesis using 1(2)
      by (subst (asm) cascade_tombstone_leaves.simps) (auto split: option.splits if_splits sum.splits)
  qed
qed

text \<open>Taking a leaf out: its KV, its snapshot, the node, and the cascade above it. The result is
  the KV and the snapshots given back so far, the tokens freed, the surviving parent and the state.\<close>

definition drop_leaf ::
    "ndata \<Rightarrow> slot list \<Rightarrow> nat list \<Rightarrow> hcache \<Rightarrow> (slot list \<times> nat list \<times> nat \<times> nat \<times> hcache) result" where
  "drop_leaf d kv_out mamba s =
     (let s1 = s\<lparr>kv := (kv s)\<lparr>evictable_size := evictable_size (kv s) - int (node_len d)\<rparr>\<rparr>;
          (mamba', s2) = free_node_mamba d mamba s1 in
      case remove_node (page_size (kv s2)) (uuid d) (htree s2) of
        Inl e \<Rightarrow> Inl e
      | Inr (p, t) \<Rightarrow>
          rbind (cascade_tombstone_leaves p (kv_out @ nval d) 0 ((kv s2)\<lparr>root_node := t\<rparr>)) (\<lambda>(p', kv', casc, c).
            Inr (kv', mamba', node_len d + casc, p', s2\<lparr>kv := c\<rparr>)))"

lemma drop_leaf_tsize:
  "drop_leaf d kv_out mamba s = Inr (kv', mamba', n, p, s') \<Longrightarrow> tsize (htree s') < tsize (htree s)"
  by (fastforce simp: drop_leaf_def Let_def free_node_mamba_def rbind_Inr_conv upd_node_def
      split: sum.splits prod.splits option.splits if_splits dest!: cascade_tsize remove_node_tsize)

definition h_leaves :: "hcache \<Rightarrow> ndata list" where
  "h_leaves s = filter (\<lambda>d. uuid d \<noteq> uuid (rdata (htree s))) (leaf_nodes (htree s))"

definition h_offer_parent :: "nat \<Rightarrow> hcache \<Rightarrow> ndata list \<Rightarrow> ndata list" where
  "h_offer_parent p s heap =
     (case subtree p (htree s) of
        Some q \<Rightarrow> if is_leaf q \<and> ref_count (rdata q) = 0 \<and> p \<noteq> uuid (rdata (htree s))
                  then push (rdata q) heap else heap
      | None \<Rightarrow> heap)"

function evict_full_loop ::
    "nat \<Rightarrow> ndata list \<Rightarrow> slot list \<Rightarrow> nat list \<Rightarrow> nat \<Rightarrow> hcache \<Rightarrow> (slot list \<times> nat list \<times> hcache) result" where
  "evict_full_loop need leaves kv_out mamba freed s =
     (if need \<le> freed then Inr (kv_out, mamba, s)
      else case pop_min timestamp leaves of
        None \<Rightarrow> Inr (kv_out, mamba, s)
      | Some (d, heap) \<Rightarrow>
          if ref_count d \<noteq> 0 \<or> \<not> leaf_here (uuid d) (htree s) \<or> uuid d = uuid (rdata (htree s))
          then evict_full_loop need heap kv_out mamba freed s
          else (case drop_leaf d kv_out mamba s of
             Inl e \<Rightarrow> Inl e
           | Inr (kv', mamba', n, p, s') \<Rightarrow>
               evict_full_loop need (h_offer_parent p s' heap) kv' mamba' (freed + n) s'))"
  by pat_completeness auto
termination
  by (relation "measures [\<lambda>(_, _, _, _, _, s). tsize (htree s), \<lambda>(_, heap, _, _, _, _). length heap]")
    (auto dest: drop_leaf_tsize pop_min_len)

declare evict_full_loop.simps [simp del]

definition evict_full :: "nat \<Rightarrow> hcache \<Rightarrow> (slot list \<times> nat list \<times> hcache) result" where
  "evict_full need s = evict_full_loop need (filter (\<lambda>d. ref_count d = 0) (h_leaves s)) [] [] 0 s"

text \<open>\<open>_snapshot_nodes\<close>: the nodes with a live snapshot, the root apart. The eviction of snapshots
  drops unlocked leaves and turns the other nodes into tombstones.\<close>

fun snap_nodes :: "rtree \<Rightarrow> ndata list" where
  "snap_nodes (RNode d cs) =
     (if mamba_value d \<noteq> None then [d] else []) @ concat (map (\<lambda>kc. snap_nodes (snd kc)) (rev cs))"

definition snapshot_nodes :: "hcache \<Rightarrow> ndata list" where
  "snapshot_nodes s = filter (\<lambda>d. uuid d \<noteq> uuid (rdata (htree s))) (snap_nodes (htree s))"

function evict_mamba_loop ::
    "nat \<Rightarrow> ndata list \<Rightarrow> slot list \<Rightarrow> nat list \<Rightarrow> nat \<Rightarrow> hcache \<Rightarrow> (slot list \<times> nat list \<times> hcache) result" where
  "evict_mamba_loop num cands kv_out mamba freed s =
     (if num \<le> freed then Inr (kv_out, mamba, s)
      else case pop_min timestamp cands of
        None \<Rightarrow> Inr (kv_out, mamba, s)
      | Some (d, cands') \<Rightarrow>
          if mamba_value d = None \<or> mamba_ref_count d \<noteq> 0 \<or> uuid d = uuid (rdata (htree s))
          then evict_mamba_loop num cands' kv_out mamba freed s
          else if leaf_here (uuid d) (htree s) \<and> ref_count d = 0 then
            (case drop_leaf d kv_out mamba s of
               Inl e \<Rightarrow> Inl e
             | Inr (kv', mamba', _, _, s') \<Rightarrow> evict_mamba_loop num cands' kv' mamba' (freed + 1) s')
          else (case free_node_mamba d mamba s of
                  (mamba', s') \<Rightarrow> evict_mamba_loop num cands' kv_out mamba' (freed + 1) s'))"
  by pat_completeness auto
termination
  by (relation "measure (\<lambda>(_, cands, _, _, _, _). length cands)") (auto dest: pop_min_len)

declare evict_mamba_loop.simps [simp del]

definition evict_mamba :: "nat \<Rightarrow> hcache \<Rightarrow> (slot list \<times> nat list \<times> hcache) result" where
  "evict_mamba num s =
     (let cands = filter (\<lambda>d. mamba_ref_count d = 0) (snapshot_nodes s) in
      evict_mamba_loop num cands [] [] 0 s)"

definition h_size_info :: "hcache \<Rightarrow> int \<times> int" where
  "h_size_info s = size_info (kv s)"

definition h_check_integrity :: "hcache \<Rightarrow> unit result" where
  "h_check_integrity s =
     py_assert (list_all (\<lambda>d. mamba_value d \<noteq> None \<and> 0 \<le> mamba_ref_count d \<and> 0 \<le> ref_count d) (snapshot_nodes s))
       (Inr ())"

end
