(* ===== verification/Hybrid_Facts.thy ===== *)
theory Hybrid_Facts
  imports Hybrid_Radix
begin

text \<open>
  The invariant \<open>hc_ok\<close> of the hybrid radix cache: the KV currency is a valid radix cache, the
  reference count of a snapshot is the number of handles locked at its node (so a KV path is
  referenced at least as often as a snapshot on it), locks are taken at nodes with a snapshot or at
  the root, a leaf always carries a snapshot, and the two counters count the unlocked and the locked
  snapshots.
\<close>

section \<open>Changes that touch the second currency only\<close>

definition tweak :: "(ndata \<Rightarrow> ndata) \<Rightarrow> bool" where
  "tweak g \<longleftrightarrow> keeps_shape g \<and> (\<forall>d. ref_count (g d) = ref_count d)"

lemma leaf_nodes_map [simp]: "leaf_nodes (map_nodes f t) = map f (leaf_nodes t)"
proof (induction t)
  case (RNode d cs)
  then have "map (\<lambda>kc. leaf_nodes (map_nodes f (snd kc))) (rev cs) = map (\<lambda>kc. map f (leaf_nodes (snd kc))) (rev cs)"
    by (auto intro!: map_cong simp: snds.simps)
  then show ?case by (simp add: comp_def map_concat rev_map del: map_eq_conv)
qed

lemma tweak_refs: "tweak g \<Longrightarrow> refs_below L (map_nodes g t) = refs_below L t"
proof (induction t)
  case (RNode d cs)
  then have "locks_in L (map_nodes g c) = locks_in L c" for c
    by (simp add: locks_in_def shape_uuids tweak_def)
  then show ?case using RNode by (auto simp: tweak_def snds.simps)
qed

lemma weigh_map: "weigh f (map_nodes g t) = weigh (\<lambda>d. f (g d)) t"
  by (simp add: weigh_def inner_map_nodes comp_def)

lemma tweak_ok:
  assumes g: "tweak g" and c': "c' = c\<lparr>root_node := map_nodes g (root_node c)\<rparr>"
  shows "rc_ok L c' = rc_ok L c" and "rc_locks c c'" and "size_info c' = size_info c"
proof -
  have k: "keeps_shape g" and r: "\<And>d. ref_count (g d) = ref_count d" using g by (simp_all add: tweak_def)
  note K = keeps_shapeD [OF k]
  have "free_tokens (g d) = free_tokens d" "held_tokens (g d) = held_tokens d" for d
    by (simp_all add: free_tokens_def held_tokens_def r K)
  then show "rc_ok L c' = rc_ok L c"
    by (simp add: rc_ok_def c' rc_nodes_def shape_uuids [OF k] shape_uniq [OF k] shape_wf [OF k]
        tweak_refs [OF g] weigh_map r)
  have "mset (tree_slots (map_nodes g (root_node c))) = mset (tree_slots (root_node c))"
    using tree_slots_eqI [of "map_nodes g (root_node c)" "root_node c" "[]"]
    by (simp add: weigh_map occ_def [abs_def] K)
  then show "rc_locks c c'"
    by (auto simp: rc_locks_def c' rc_root_def rc_content_def rc_slots_def rc_nodes_def rc_path_def rc_key_def
        rc_paged_def size_info_def shape_uuids [OF k] shape_mtch [OF k] shape_path_vals [OF k] shape_path_key [OF k]
        map_every_node K)
  show "size_info c' = size_info c" by (simp add: c' size_info_def)
qed

lemma upd_tweak: "tweak g \<Longrightarrow> tweak (\<lambda>d. if uuid d = u then g d else d)"
  by (simp add: tweak_def keeps_shape_def)

lemma tweaks: "tweak (mbump \<delta>)" "tweak (\<lambda>d. d\<lparr>mamba_value := v\<rparr>)"
  by (simp_all add: tweak_def keeps_shape_def mbump_def)

lemma sum_list_upd:
  fixes f :: "ndata \<Rightarrow> int"
  assumes "distinct (map uuid ds)" and "d \<in> set ds"
  shows "(\<Sum>x\<leftarrow>ds. f (if uuid x = uuid d then g x else x)) = (\<Sum>x\<leftarrow>ds. f x) + f (g d) - f d"
  using assms
proof (induction ds)
  case (Cons e ds)
  show ?case
  proof (cases "e = d")
    case True
    then have "(\<Sum>x\<leftarrow>ds. f (if uuid x = uuid d then g x else x)) = (\<Sum>x\<leftarrow>ds. f x)"
      using Cons.prems(1) by (intro arg_cong [where f = sum_list] map_cong) (auto simp: image_iff)
    then show ?thesis using True by simp
  next
    case False
    then have "uuid e \<noteq> uuid d" using Cons.prems by (auto simp: image_iff)
    then show ?thesis using Cons False by simp
  qed
qed simp

lemma inner_distinct: "uniq t \<Longrightarrow> distinct (map uuid (inner_nodes t))"
  by (simp add: uniq_def uuids_def all_nodes_eq)

lemma weigh_upd:
  assumes "uniq t" and "d \<in> set (inner_nodes t)"
  shows "weigh f (upd_node (uuid d) g t) = weigh f t + f (g d) - f d"
  using sum_list_upd [OF inner_distinct [OF assms(1)] assms(2)]
  by (simp add: weigh_def upd_node_def inner_map_nodes comp_def)

lemma inner_unique:
  "uniq t \<Longrightarrow> d \<in> set (inner_nodes t) \<Longrightarrow> e \<in> set (inner_nodes t) \<Longrightarrow> uuid d = uuid e \<Longrightarrow> d = e"
  using inner_distinct [of t] by (metis distinct_map inj_onD)

lemma node_at_inner:
  assumes "uniq t" and "d \<in> set (inner_nodes t)"
  shows "node_at (uuid d) t = Some d"
proof -
  have "uuid d \<in> set (uuids t)" using assms(2) by (simp add: uuids_def all_nodes_eq)
  then obtain s where f: "focus (uuid d) t s" using focus_ex [OF assms(1)] by blast
  have "rdata s \<in> set (all_nodes t)" using f
  proof (induction rule: focus.induct)
    case (below c s e pre post k) then show ?case by auto
  qed (simp add: rdata_in_all)
  moreover have "uuid (rdata s) = uuid d" by (rule focus_uuid [OF f])
  ultimately have "rdata s = d" using assms by (metis uniq_def uuids_def distinct_map inj_onD all_nodes_eq list.set_intros(2))
  then show ?thesis using focus_subtree [OF f assms(1)] by (simp add: node_at_def)
qed

lemma node_at_root: "node_at (uuid (rdata t)) t = Some (rdata t)"
  by (cases t) (simp add: node_at_def)

lemma inner_node:
  assumes "u \<in> set (uuids t)" and "u \<noteq> uuid (rdata t)"
  obtains d where "d \<in> set (inner_nodes t)" "uuid d = u"
  using assms by (auto simp: uuids_def all_nodes_eq)

section \<open>Snapshots\<close>

definition snap_free :: "ndata \<Rightarrow> int" where
  "snap_free d = (if mamba_value d \<noteq> None \<and> mamba_ref_count d = 0 then 1 else 0)"

definition snap_held :: "ndata \<Rightarrow> int" where
  "snap_held d = (if mamba_value d \<noteq> None \<and> mamba_ref_count d \<noteq> 0 then 1 else 0)"

definition snap_ind :: "nat \<Rightarrow> nat \<Rightarrow> ndata \<Rightarrow> int" where
  "snap_ind u v d = (if uuid d = u \<and> mamba_value d = Some v then 1 else 0)"

definition snap_occ :: "nat \<Rightarrow> ndata \<Rightarrow> int" where
  "snap_occ v d = (if mamba_value d = Some v then 1 else 0)"

text \<open>The snapshots by node and by token sequence, and the slots of the state pool the tree owns.\<close>

definition snap_at :: "hcache \<Rightarrow> nat \<Rightarrow> nat \<Rightarrow> bool" where
  "snap_at s u v \<longleftrightarrow> 0 < weigh (snap_ind u v) (htree s)"

definition snapshot :: "hcache \<Rightarrow> token list \<Rightarrow> nat \<Rightarrow> bool" where
  "snapshot s k v \<longleftrightarrow> (\<exists>u. snap_at s u v \<and> rc_key u (kv s) = k)"

definition snap_slots :: "hcache \<Rightarrow> nat multiset" where
  "snap_slots s = mset (List.map_filter mamba_value (inner_nodes (htree s)))"

lemma snap_slots_count: "int (count (snap_slots s) v) = weigh (snap_occ v) (htree s)"
proof -
  have "int (count (mset (List.map_filter mamba_value ds)) v) = (\<Sum>d\<leftarrow>ds. snap_occ v d)" for ds
    by (induction ds) (auto simp: snap_occ_def List.map_filter_simps split: option.splits)
  then show ?thesis by (simp add: snap_slots_def weigh_def)
qed

lemma snap_slots_eqI:
  assumes "\<And>v. weigh (snap_occ v) (htree s) = weigh (snap_occ v) (htree s') + int (count (mset vs) v)"
  shows "snap_slots s = snap_slots s' + mset vs"
proof (rule multiset_eqI)
  fix v
  show "count (snap_slots s) v = count (snap_slots s' + mset vs) v"
    using assms [of v] snap_slots_count [of s v] snap_slots_count [of s' v] by simp
qed

lemma sum_list_ge:
  fixes xs :: "int list"
  assumes "\<And>y. y \<in> set xs \<Longrightarrow> 0 \<le> y" and "x \<in> set xs"
  shows "x \<le> sum_list xs"
  using assms
proof (induction xs)
  case (Cons y ys)
  then have "0 \<le> sum_list ys" by (intro sum_list_nonneg) simp
  then show ?case using Cons by fastforce
qed simp

lemma snap_at_node:
  assumes "uniq (htree s)"
  shows "snap_at s u v \<longleftrightarrow> (\<exists>d \<in> set (inner_nodes (htree s)). uuid d = u \<and> mamba_value d = Some v)"
proof
  assume "snap_at s u v"
  show "\<exists>d \<in> set (inner_nodes (htree s)). uuid d = u \<and> mamba_value d = Some v"
  proof (rule ccontr)
    assume "\<not> ?thesis"
    then have "weigh (snap_ind u v) (htree s) = weigh (\<lambda>_. 0) (htree s)"
      by (intro weigh_cong) (simp add: snap_ind_def)
    then show False using \<open>snap_at s u v\<close> by (simp add: snap_at_def weigh_def)
  qed
next
  assume "\<exists>d \<in> set (inner_nodes (htree s)). uuid d = u \<and> mamba_value d = Some v"
  then obtain d where d: "d \<in> set (inner_nodes (htree s))" "snap_ind u v d = 1" by (auto simp: snap_ind_def)
  then have "1 \<in> set (map (snap_ind u v) (inner_nodes (htree s)))" by force
  moreover have "0 \<le> x" if "x \<in> set (map (snap_ind u v) (inner_nodes (htree s)))" for x
    using that by (auto simp: snap_ind_def)
  ultimately have "1 \<le> sum_list (map (snap_ind u v) (inner_nodes (htree s)))"
    using sum_list_ge [of "map (snap_ind u v) (inner_nodes (htree s))" 1] by blast
  then show "snap_at s u v" by (simp add: snap_at_def weigh_def)
qed

section \<open>The invariant\<close>

definition snap_locked :: "nat multiset \<Rightarrow> ndata \<Rightarrow> bool" where
  "snap_locked L d \<longleftrightarrow> mamba_ref_count d = int (count L (uuid d)) \<and> (uuid d \<in># L \<longrightarrow> mamba_value d \<noteq> None)"

definition live_leaf :: "nat \<Rightarrow> ndata \<Rightarrow> bool" where
  "live_leaf r d \<longleftrightarrow> uuid d = r \<or> mamba_value d \<noteq> None"

definition hc_ok :: "nat multiset \<Rightarrow> hcache \<Rightarrow> bool" where
  "hc_ok L s \<longleftrightarrow> rc_ok L (kv s) \<and> every_node (snap_locked L) (htree s) \<and>
     (\<forall>d \<in> set (leaf_nodes (htree s)). live_leaf (rc_root (kv s)) d) \<and>
     mamba_value (rdata (htree s)) = None \<and>
     mamba_evictable s = weigh snap_free (htree s) \<and> mamba_protected s = weigh snap_held (htree s)"

lemma hc_okD:
  assumes "hc_ok L s"
  shows "rc_ok L (kv s)" "every_node (snap_locked L) (htree s)"
    "\<And>d. d \<in> set (leaf_nodes (htree s)) \<Longrightarrow> live_leaf (rc_root (kv s)) d"
    "mamba_evictable s = weigh snap_free (htree s)" "mamba_protected s = weigh snap_held (htree s)"
    "uniq (htree s)" "mamba_value (rdata (htree s)) = None"
  using assms rc_okD(2) [of L "kv s"] by (simp_all add: hc_ok_def)

lemma additive_snaps: "additive snap_free" "additive snap_held" "additive (snap_ind u v)" "additive (snap_occ v)"
  by (simp_all add: additive_def snap_free_def snap_held_def snap_ind_def snap_occ_def split_front_def
      split_back_def new_node_def)

lemma snap_locked_timestamp [simp]: "snap_locked L (d\<lparr>timestamp := tic\<rparr>) = snap_locked L d"
  by (simp add: snap_locked_def)

lemma walks_snap_locked:
  "walks ps tic fresh t ids t' u n fresh' \<Longrightarrow> fresh \<notin># L \<Longrightarrow> every_node (snap_locked L) t \<Longrightarrow>
   every_node (snap_locked L) t'"
proof (induction rule: walks.induct)
  case (split ids cs pre e es post m d)
  have "snap_locked L (split_front fresh tic m e)" "snap_locked L e"
    using split.prems split.hyps(2)
    by (simp_all add: snap_locked_def split_front_def new_node_def not_in_iff every_node_kids)
  moreover from this have "snap_locked L (split_back m e)" by (simp add: snap_locked_def split_back_def)
  ultimately show ?case using split.prems split.hyps(2)
    by (auto simp: every_node_kids)
next
  case (descend ids cs pre c post m c' u n fresh' d)
  have "rdata c' = (rdata c)\<lparr>timestamp := tic\<rparr>" using walks_rdata [OF descend.hyps(8)] by simp
  moreover have "every_node (snap_locked L) (touch tic c)" "snap_locked L (rdata c)"
    using descend.prems(2) descend.hyps(2) by (simp_all add: every_node_kids) (simp add: every_node_def)
  ultimately show ?case using descend.IH descend.prems descend.hyps(2)
    by (auto simp: every_node_kids)
qed simp

lemma walks_leaves:
  "walks ps tic fresh t ids t' u n fresh' \<Longrightarrow> \<forall>d \<in> set (leaf_nodes t). live_leaf r d \<Longrightarrow>
   \<forall>d \<in> set (leaf_nodes t'). live_leaf r d"
proof (induction rule: walks.induct)
  case (split ids cs pre e es post m d)
  have "\<forall>x \<in> set (leaf_nodes (RNode e es)). live_leaf r x" using split.prems split.hyps(2) by auto
  then have "\<forall>x \<in> set (leaf_nodes (RNode (split_back m e) es)). live_leaf r x"
    by (cases "es = []") (auto simp: live_leaf_def split_back_def)
  then show ?case using split.prems split.hyps(2) by auto
next
  case (descend ids cs pre c post m c' u n fresh' d)
  have "\<forall>x \<in> set (leaf_nodes c). live_leaf r x" using descend.prems descend.hyps(2) by auto
  then have "\<forall>x \<in> set (leaf_nodes (touch tic c)). live_leaf r x"
    by (cases c; cases "rkids c = []") (auto simp: live_leaf_def)
  then show ?case using descend.IH descend.prems descend.hyps(2) by auto
qed simp

lemma walks_hc_ok:
  assumes ok: "hc_ok L s" and w: "walks (page_size (kv s)) tic (node_counter (kv s)) (htree s) ids t u n c"
    and s': "s' = s\<lparr>kv := (kv s)\<lparr>root_node := t, node_counter := c\<rparr>\<rparr>"
  shows "hc_ok L s'" and "rc_same (kv s) (kv s')" and "snap_at s' = snap_at s" and "snap_slots s' = snap_slots s"
proof -
  note D = hc_okD [OF ok]
  note W = walks_weigh [OF w]
  have "rc_root (kv s') = rc_root (kv s)" using walks_rdata [OF w] by (simp add: rc_root_def s')
  then show "hc_ok L s'"
    using walks_rc_ok [OF D(1) w] walks_snap_locked [OF w rc_okD(11) [OF D(1)] D(2)] walks_leaves [OF w] D(3-5,7)
      walks_rdata [OF w]
      W [OF additive_snaps(1)] W [OF additive_snaps(2)]
    by (simp add: hc_ok_def s')
  show "rc_same (kv s) (kv s')" using walks_same [OF D(1) w] by (simp add: s')
  show "snap_at s' = snap_at s" using W [OF additive_snaps(3)] by (intro ext) (simp add: snap_at_def s')
  show "snap_slots s' = snap_slots s"
    using W [OF additive_snaps(4)] snap_slots_eqI [of s' s "[]"] by (simp add: s')
qed

text \<open>A snapshot is found again after a change of the tree that keeps nodes, keys and snapshots.\<close>

lemma snapshot_same:
  assumes "snap_at s' = snap_at s" and "uniq (htree s)"
    and "\<And>h. h \<in> rc_nodes (kv s) \<Longrightarrow> rc_key h (kv s') = rc_key h (kv s)"
  shows "snapshot s' = snapshot s"
proof (intro ext)
  fix k v
  have "rc_key u (kv s') = rc_key u (kv s)" if "snap_at s u v" for u
    using that assms(3) [of u] by (auto simp: snap_at_node [OF assms(2)] rc_nodes_def uuids_def all_nodes_eq)
  then show "snapshot s' k v = snapshot s k v" using assms(1) by (auto simp: snapshot_def)
qed

section \<open>Matching\<close>

text \<open>Every node whose token sequence is a prefix of the sequence lies on the path of the descent.\<close>

lemma path_of_kid:
  assumes "uniq (RNode d cs)" and "h \<in> set (uuids (RNode d cs))" and "h \<noteq> uuid d"
  obtains k c where "(k, c) \<in> set cs" "h \<in> set (uuids c)" "path_key h (RNode d cs) = nkey (rdata c) @ path_key h c"
proof -
  obtain k c where kc: "(k, c) \<in> set cs" "h \<in> set (uuids c)" using assms(2,3) by auto
  then show ?thesis using that path_in [OF assms(1) kc, of nkey] by blast
qed

lemma kid_key:
  assumes wf: "wf_below ps (RNode d cs)" and kc: "(k, c) \<in> set cs" and pre: "prefix (nkey (rdata c)) ids"
  shows "k = key_fn ps ids" "ids \<noteq> []" "map_of cs (key_fn ps ids) = Some c"
proof -
  have w: "k = key_fn ps (nkey (rdata c))" "wf_data ps (rdata c)" "distinct (map fst cs)"
    using wf kc by (auto simp: wf_kid_def)
  have "ps \<le> length (nkey (rdata c))" by (rule wf_data_ge [OF w(2)])
  then show k: "k = key_fn ps ids" using w(1) pre by (auto simp: prefix_def key_fn_def)
  show "ids \<noteq> []" using pre w(2) by (auto simp: wf_data_def)
  show "map_of cs (key_fn ps ids) = Some c" using k kc w(3) by simp
qed

lemma prefix_cmp: "prefix a b \<Longrightarrow> fast_compare_key a b = length a"
  using cmp_greatest [of "length a" a b] cmp_le(1) [of a b] by (auto simp: prefix_def)

lemma on_path_intro:
  "uniq (RNode d cs) \<Longrightarrow> (k, c) \<in> set cs \<Longrightarrow> u \<in> set (uuids c) \<Longrightarrow>
   h \<in> on_path u c \<or> h = uuid (rdata c) \<Longrightarrow> h \<in> on_path u (RNode d cs)"
  using on_path_kid(1) by blast

lemma walks_on_path:
  "walks ps tic fresh t ids t' u n fresh' \<Longrightarrow> 0 < ps \<Longrightarrow> wf_below ps t \<Longrightarrow> uniq t \<Longrightarrow> fresh \<notin> set (uuids t) \<Longrightarrow>
   h \<in> set (uuids t) \<Longrightarrow> prefix (path_key h t) ids \<Longrightarrow> h = uuid (rdata t) \<or> h \<in> on_path u t'"
proof (induction arbitrary: h rule: walks.induct)
  case (stop ids cs d)
  show ?case
  proof (rule disjI1, rule ccontr)
    assume "h \<noteq> uuid (rdata (RNode d cs))"
    then obtain k c where "(k, c) \<in> set cs" "path_key h (RNode d cs) = nkey (rdata c) @ path_key h c"
      using path_of_kid [OF stop.prems(3,5)] by (metis rtree.sel(1))
    then show False using kid_key [OF stop.prems(2), of k c ids] stop.prems(6) stop.hyps
      by (auto simp: prefix_def)
  qed
next
  case (split ids cs pre e es post m d)
  show ?case
  proof (rule disjI1, rule ccontr)
    assume "h \<noteq> uuid (rdata (RNode d cs))"
    then obtain k c where kc: "(k, c) \<in> set cs" "path_key h (RNode d cs) = nkey (rdata c) @ path_key h c"
      using path_of_kid [OF split.prems(3,5)] by (metis rtree.sel(1))
    then have p: "prefix (nkey (rdata c)) ids" using split.prems(6) by (auto simp: prefix_def)
    have "map_of cs (key_fn ps ids) = Some (RNode e es)"
      using split.hyps(2,3) by (auto simp: map_add_def map_of_eq_None_iff [symmetric] split: option.splits)
    then have "c = RNode e es" using kid_key(3) [OF split.prems(2) kc(1) p] by simp
    then have "fast_compare_key (nkey e) ids = node_len e" using prefix_cmp p by simp
    then have "m = node_len e" using split.hyps(4,7) by (simp add: wf_data_def align_down_dvd_id)
    then show False using split.hyps(6) by simp
  qed
next
  case (descend ids cs pre c post m c' u n fresh' d)
  show ?case
  proof (cases "h = uuid d")
    case False
    let ?k = "key_fn ps ids"
    obtain k e where ke: "(k, e) \<in> set cs" "h \<in> set (uuids e)" "path_key h (RNode d cs) = nkey (rdata e) @ path_key h e"
      using path_of_kid [OF descend.prems(3,5) False] by blast
    then have p: "prefix (nkey (rdata e)) ids" using descend.prems(6) by (auto simp: prefix_def)
    have "map_of cs ?k = Some c"
      using descend.hyps(2,3) by (auto simp: map_add_def map_of_eq_None_iff [symmetric] split: option.splits)
    then have ec: "e = c" using kid_key(3) [OF descend.prems(2) ke(1) p] by simp
    have kc: "(?k, c) \<in> set cs" using descend.hyps(2) by simp
    have u1: "uniq c" using uniq_kids(1) [of d pre ?k c post] descend.prems(3) descend.hyps(2) by simp
    have nf: "fresh \<notin> set (uuids c)" using descend.prems(4) kc by auto
    have wfc: "wf_below ps c" using descend.prems(2) kc by auto
    have "prefix (path_key h c) (drop m ids)"
      using descend.prems(6) ke(3) ec descend.hyps(6) by (auto simp: prefix_def)
    moreover have "path_key h (touch tic c) = path_key h c" using kc by (cases c) (simp add: path_of_def up_path_def)
    ultimately have "h = uuid (rdata (touch tic c)) \<or> h \<in> on_path u c'"
      using descend.IH [of h] descend.prems(1) wfc u1 nf ke(2) ec by simp
    moreover have "uniq (RNode d (pre @ (?k, c') # post))"
      using walks_uniq [OF walks.descend [OF descend.hyps]] descend.prems(3,4) by blast
    moreover have "uuid (rdata c') = uuid (rdata c)" using walks_rdata [OF descend.hyps(8)] by simp
    ultimately show ?thesis
      using on_path_intro [of d "pre @ (?k, c') # post" ?k c' u h] walks_node [OF descend.hyps(8)] by auto
  qed simp
qed

lemma chain_suffix:
  "uniq t \<Longrightarrow> chain u t = a @ d # b \<Longrightarrow> chain (uuid d) t = d # b"
proof (induction t arbitrary: a b)
  case (RNode e cs)
  show ?case
  proof (cases "u \<in> set (uuids (RNode e cs)) \<and> u \<noteq> uuid e")
    case False
    then have "chain u (RNode e cs) = [e]"
      using RNode.prems(2) chain_Nil [of u "RNode e cs"] by (metis Nil_is_append_conv chain_here list.distinct(1))
    then show ?thesis using RNode.prems(2) by (cases a) simp_all
  next
    case True
    then obtain k c where kc: "(k, c) \<in> set cs" "u \<in> set (uuids c)" by auto
    then obtain pre post where cs: "cs = pre @ (k, c) # post" by (meson split_list)
    have uq: "uniq (RNode e (pre @ (k, c) # post))" using RNode.prems(1) cs by simp
    have ch: "chain u c @ [e] = a @ d # b" using RNode.prems(2) chain_below [OF uq kc(2)] cs by simp
    show ?thesis
    proof (cases "b = []")
      case True
      then have "d = e" using ch by simp
      then show ?thesis using True by simp
    next
      case False
      then obtain b' where b: "b = b' @ [e]" "chain u c = a @ d # b'" using ch
        by (metis append_Cons append_assoc butlast_append butlast_snoc last_appendR last_snoc list.distinct(1) snoc_eq_iff_butlast)
      have IH: "chain (uuid d) c = d # b'" using RNode.IH [OF kc(1), of c] uniq_kids(1) [OF uq] b(2) by simp
      then have "uuid d \<in> set (uuids c)" using chain_nonempty [of "uuid d" c] by simp
      then show ?thesis using chain_below [OF uq] IH b(1) cs by simp
    qed
  qed
qed

lemma up_path_suffix:
  assumes "uniq t" and "up_path u t = a @ d # b"
  shows "up_path (uuid d) t = d # b"
proof -
  have "chain u t \<noteq> []" using assms(2) by (auto simp: up_path_def)
  then have "chain u t = a @ d # b @ [last (chain u t)]"
    using assms(2) append_butlast_last_id [of "chain u t"] by (simp add: up_path_def)
  from chain_suffix [OF assms(1) this] show ?thesis by (simp add: up_path_def butlast_append)
qed

lemma live_end_Some:
  "live_end ds n = Some (cur, m) \<Longrightarrow> n = sum_list (map node_len ds) \<Longrightarrow>
   \<exists>pre post. ds = pre @ cur # post \<and> (\<forall>d \<in> set pre. mamba_value d = None) \<and> mamba_value cur \<noteq> None \<and>
     m = sum_list (map node_len (cur # post))"
proof (induction ds arbitrary: n)
  case (Cons d ds)
  show ?case
  proof (cases "mamba_value d \<noteq> None")
    case True
    then show ?thesis using Cons.prems by - (rule exI [of _ "[]"], rule exI [of _ ds], auto)
  next
    case False
    then obtain pre post where "ds = pre @ cur # post" "\<forall>d \<in> set pre. mamba_value d = None" "mamba_value cur \<noteq> None"
      "m = sum_list (map node_len (cur # post))" using Cons.IH [of "n - node_len d"] Cons.prems by auto
    then show ?thesis using False 
      by - (rule exI [of _ "d # pre"], rule exI [of _ post], simp)
  qed
qed simp

lemma live_end_None: "live_end ds n = None \<Longrightarrow> d \<in> set ds \<Longrightarrow> mamba_value d = None"
  by (induction ds arbitrary: n) (auto split: if_splits)

lemma path_len_key: "length (path_key u t) = sum_list (map node_len (up_path u t))"
  by (simp add: path_of_def length_concat rev_map comp_def flip: rev_map)

text \<open>What the match of a sequence promises.\<close>

definition hm_ok :: "hcache \<Rightarrow> token list \<Rightarrow> hmatch \<Rightarrow> bool" where
  "hm_ok s ids m \<longleftrightarrow> hm_indices m = take (hm_len m) (rc_content (kv s) ids) \<and>
     length (hm_indices m) = hm_len m \<and>
     (case hm_mamba m of None \<Rightarrow> hm_len m = 0 | Some v \<Rightarrow> snapshot s (take (hm_len m) ids) v) \<and>
     (\<forall>k v. snapshot s k v \<and> prefix k ids \<longrightarrow> hm_mamba m \<noteq> None \<and> length k \<le> hm_len m)"

lemma h_match_spec:
  assumes ok: "hc_ok L s"
  shows "\<exists>m s'. h_match_prefix tic ids s = Inr (m, s') \<and> hc_ok L s' \<and> rc_same (kv s) (kv s') \<and>
     snap_at s' = snap_at s \<and> snapshot s' = snapshot s \<and> snap_slots s' = snap_slots s \<and> hm_ok s ids m \<and>
     hm_node m \<in> rc_nodes (kv s') \<and> rc_path (hm_node m) (kv s') = hm_indices m \<and>
     rc_key (hm_node m) (kv s') = take (hm_len m) ids \<and>
     (case hm_mamba m of None \<Rightarrow> hm_node m = rc_root (kv s') | Some v \<Rightarrow> snap_at s' (hm_node m) v)"
proof -
  note D = hc_okD [OF ok] and R = rc_okD [OF hc_okD(1) [OF ok]]
  obtain t u n c where w: "walks (page_size (kv s)) tic (node_counter (kv s)) (htree s) ids t u n c"
    and tw: "tree_walk tic ids (kv s) = Inr (u, n, (kv s)\<lparr>root_node := t, node_counter := c\<rparr>)"
    using tree_walk_ok [OF D(1)] by metis
  let ?c = "(kv s)\<lparr>root_node := t, node_counter := c\<rparr>"
  let ?s' = "s\<lparr>kv := ?c\<rparr>"
  note W = walks_hc_ok [OF ok w refl]
  note F = walks_found [OF D(1) w]
  have uq: "uniq t" and wf: "wf_below (page_size (kv s)) t" using rc_okD(2,3) [OF hc_okD(1) [OF W(1)]] by simp_all
  have same: "snapshot ?s' = snapshot s"
    by (rule snapshot_same [OF W(3) D(6)]) (use W(2) in \<open>auto simp: rc_same_def\<close>)
  have on_way: "\<exists>e \<in> set (up_path u t). mamba_value e = Some v \<and> path_key (uuid e) t = k"
    if sn: "snapshot s k v" and p: "prefix k ids" for k v
  proof -
    obtain h where h: "snap_at s h v" "rc_key h (kv s) = k" using sn by (auto simp: snapshot_def)
    obtain e0 where e0: "e0 \<in> set (inner_nodes (htree s))" "uuid e0 = h" using h(1) snap_at_node [OF D(6)] by auto
    then have hin: "h \<in> set (uuids (htree s))" by (auto simp: uuids_def all_nodes_eq)
    have "h \<noteq> uuid (rdata (htree s))" using root_uuid_fresh [OF D(6) e0(1)] e0(2) by simp
    then have "h \<in> on_path u t"
      using walks_on_path [OF w R(1,3,2,10) hin] h(2) p by (auto simp: rc_key_def)
    then obtain e where e: "e \<in> set (up_path u t)" "uuid e = h" by (auto simp: on_path_def)
    obtain e1 where e1: "e1 \<in> set (inner_nodes t)" "uuid e1 = h" "mamba_value e1 = Some v"
      using h(1) W(3) snap_at_node [of ?s'] uq by auto
    have "e = e1" using inner_unique [OF uq, of e e1] on_path_inner [OF uq] e e1 by auto
    moreover have "path_key h t = k"
      using h(2) W(2) hin by (auto simp: rc_same_def rc_key_def rc_nodes_def)
    ultimately show ?thesis using e e1 by auto
  qed
  have keys: "path_key u t = take n ids" and vals: "path_vals u t = rc_content (kv s) ids" using F by simp_all
  show ?thesis
  proof (cases "live_end (up_path u t) (path_len u t)")
    case None
    let ?m = "\<lparr>hm_indices = [], hm_len = 0, hm_mamba = None, hm_node = uuid (rdata t)\<rparr>"
    have "h_match_prefix tic ids s = Inr (?m, ?s')" by (simp add: h_match_prefix_def tw None)
    moreover have "\<not> (snapshot s k v \<and> prefix k ids)" for k v using on_way live_end_None [OF None] by force
    then have "hm_ok s ids ?m" by (simp add: hm_ok_def)
    ultimately show ?thesis using W same by (simp add: rc_path_def rc_key_def rc_root_def rc_nodes_def)
  next
    case (Some cm)
    obtain cur m where cm: "cm = (cur, m)" by (cases cm)
    obtain pre post where P: "up_path u t = pre @ cur # post" "\<forall>d \<in> set pre. mamba_value d = None"
      "mamba_value cur \<noteq> None" "m = sum_list (map node_len (cur # post))"
      using live_end_Some [of "up_path u t" "path_len u t" cur m] Some cm by (auto simp: path_len_def)
    then obtain v where v: "mamba_value cur = Some v" by blast
    have up: "up_path (uuid cur) t = cur # post" by (rule up_path_suffix [OF uq P(1)])
    have inner: "cur \<in> set (inner_nodes t)" using on_path_inner [OF uq, of u] P(1) by auto
    have ci: "uuid cur \<in> set (uuids t)" using inner by (auto simp: uuids_def all_nodes_eq)
    have "prefix (path_key (uuid cur) t) (path_key u t)" "prefix (path_vals (uuid cur) t) (path_vals u t)"
      unfolding path_of_def up P(1) by simp_all
    moreover have lk: "length (path_key (uuid cur) t) = m" using path_len_key [of "uuid cur" t] up P(4) by simp
    moreover have "length (nval d) = node_len d" if "d \<in> set (cur # post)" for d
      using wf_inner [OF wf] on_path_inner [OF uq, of "uuid cur"] that up by (auto simp: wf_data_def)
    then have lv: "length (path_vals (uuid cur) t) = m"
      using P(4) by (simp add: path_of_def up length_concat rev_map comp_def flip: rev_map cong: map_cong)
    ultimately have kc: "path_key (uuid cur) t = take m ids" and vc: "path_vals (uuid cur) t = take m (rc_content (kv s) ids)"
      unfolding keys vals by (auto simp: prefix_def) (metis append_eq_conv_conj append_take_drop_id append.assoc)
    have sn: "snap_at ?s' (uuid cur) v" using snap_at_node [of ?s'] uq inner v by auto
    have "hm_ok s ids \<lparr>hm_indices = path_vals (uuid cur) t, hm_len = m, hm_mamba = mamba_value cur, hm_node = uuid cur\<rparr>"
    proof -
      have "rc_key (uuid cur) (kv ?s') = take m ids" by (simp add: rc_key_def kc)
      then have "snapshot s (take m ids) v" using sn same by (metis snapshot_def)
      moreover have "length k \<le> m" if kx: "snapshot s k x \<and> prefix k ids" for k x
      proof -
        obtain e where e: "e \<in> set (up_path u t)" "mamba_value e = Some x" "path_key (uuid e) t = k"
          using on_way kx by blast
        have "e \<in> set (cur # post)" using e(1,2) P(1,2) by auto
        then obtain q1 q2 where q: "cur # post = q1 @ e # q2" by (meson split_list)
        then have "length k = sum_list (map node_len (e # q2))"
          using up_path_suffix [OF uq, of "uuid cur" q1 e q2] up path_len_key [of "uuid e" t] e(3) by simp
        then show ?thesis unfolding P(4) q by simp
      qed
      ultimately show ?thesis using vc lv v by (auto simp: hm_ok_def)
    qed
    moreover have "h_match_prefix tic ids s =
        Inr (\<lparr>hm_indices = path_vals (uuid cur) t, hm_len = m, hm_mamba = mamba_value cur, hm_node = uuid cur\<rparr>, ?s')"
      using Some cm by (simp add: h_match_prefix_def tw)
    ultimately show ?thesis using W same ci kc sn v
      by (auto simp: rc_path_def rc_key_def rc_nodes_def)
  qed
qed

end
