(* ===== verification/Hybrid_Evict.thy ===== *)
theory Hybrid_Evict
  imports Hybrid_Facts
begin

text \<open>
  What insertion, locking and the two evictions of the hybrid radix cache do to both currencies.
  \<open>hc_but u L s\<close> is the invariant \<open>hc_ok\<close> except that the leaf \<open>u\<close> may lack a snapshot: it holds
  between the attachment of a node and the donation of its snapshot, and while the cascade of an
  eviction walks up.
\<close>

definition hc_but :: "nat \<Rightarrow> nat multiset \<Rightarrow> hcache \<Rightarrow> bool" where
  "hc_but u L s \<longleftrightarrow> rc_ok L (kv s) \<and> every_node (snap_locked L) (htree s) \<and>
     (\<forall>d \<in> set (leaf_nodes (htree s)). uuid d = u \<or> live_leaf (rc_root (kv s)) d) \<and>
     mamba_value (rdata (htree s)) = None \<and>
     mamba_evictable s = weigh snap_free (htree s) \<and> mamba_protected s = weigh snap_held (htree s)"

lemma hc_butD:
  assumes "hc_but u L s"
  shows "rc_ok L (kv s)" "every_node (snap_locked L) (htree s)"
    "\<And>d. d \<in> set (leaf_nodes (htree s)) \<Longrightarrow> uuid d = u \<or> live_leaf (rc_root (kv s)) d"
    "mamba_evictable s = weigh snap_free (htree s)" "mamba_protected s = weigh snap_held (htree s)"
    "uniq (htree s)" "mamba_value (rdata (htree s)) = None"
  using assms rc_okD(2) [of L "kv s"] by (simp_all add: hc_but_def)

lemma hc_ok_but: "hc_ok L s \<Longrightarrow> hc_but u L s"
  by (simp add: hc_ok_def hc_but_def)

lemma hc_but_ok: "hc_but u L s \<Longrightarrow> (\<And>d. d \<in> set (leaf_nodes (htree s)) \<Longrightarrow> uuid d = u \<Longrightarrow> live_leaf (rc_root (kv s)) d)
   \<Longrightarrow> hc_ok L s"
  by (auto simp: hc_ok_def hc_but_def)

section \<open>Donating a snapshot\<close>

lemma path_key_inj:
  "uniq t \<Longrightarrow> wf_below ps t \<Longrightarrow> h \<in> set (uuids t) \<Longrightarrow> g \<in> set (uuids t) \<Longrightarrow>
   path_key h t = path_key g t \<Longrightarrow> h = g"
proof (induction t)
  case (RNode d cs)
  have nz: "path_key x (RNode d cs) \<noteq> []" if x: "x \<in> set (uuids (RNode d cs))" "x \<noteq> uuid d" for x
  proof -
    obtain k c where kc: "(k, c) \<in> set cs" "path_key x (RNode d cs) = nkey (rdata c) @ path_key x c"
      using path_of_kid [OF RNode.prems(1) x] by blast
    then show ?thesis using RNode.prems(2) by (auto simp: wf_kid_def wf_data_def)
  qed
  show ?case
  proof (cases "h = uuid d \<or> g = uuid d")
    case True
    then show ?thesis using nz RNode.prems(3-5) by (metis path_here)
  next
    case False
    obtain k c where kc: "(k, c) \<in> set cs" "h \<in> set (uuids c)" "path_key h (RNode d cs) = nkey (rdata c) @ path_key h c"
      using path_of_kid [OF RNode.prems(1,3)] False by blast
    obtain k' c' where kc': "(k', c') \<in> set cs" "g \<in> set (uuids c')" "path_key g (RNode d cs) = nkey (rdata c') @ path_key g c'"
      using path_of_kid [OF RNode.prems(1,4)] False by blast
    have "prefix (nkey (rdata c)) (path_key h (RNode d cs))" "prefix (nkey (rdata c')) (path_key h (RNode d cs))"
      using kc(3) kc'(3) RNode.prems(5) by (simp, metis prefixI)
    then have "c = c'" using kid_key(3) [OF RNode.prems(2) kc(1)] kid_key(3) [OF RNode.prems(2) kc'(1)]
      by (metis option.inject)
    moreover obtain pre post where "cs = pre @ (k, c) # post" using kc(1) by (meson split_list)
    then have "uniq c" using uniq_kids(1) [of d pre k c post] RNode.prems(1) by simp
    moreover have "wf_below ps c" using RNode.prems(2) kc(1) by auto
    ultimately show ?thesis
      using RNode.IH [OF kc(1), of c] kc kc' RNode.prems(5) by simp
  qed
qed

lemma upd_every_node:
  "every_node P (upd_node u g t) \<longleftrightarrow> (\<forall>d \<in> set (inner_nodes t). P (if uuid d = u then g d else d))"
  by (auto simp: every_node_def upd_node_def inner_map_nodes)

lemma upd_rdata: "u \<noteq> uuid (rdata t) \<Longrightarrow> rdata (upd_node u g t) = rdata t"
  by (simp add: upd_node_def)

lemma upd_tweaks:
  assumes "tweak g" and "c' = c\<lparr>root_node := upd_node u g (root_node c)\<rparr>"
  shows "rc_ok L c' = rc_ok L c" and "rc_locks c c'" and "size_info c' = size_info c"
  using tweak_ok [OF upd_tweak [OF assms(1), of u], of c' c] assms(2) by (auto simp: upd_node_def)

lemma upd_leaves: "set (leaf_nodes (upd_node u g t)) = (\<lambda>d. if uuid d = u then g d else d) ` set (leaf_nodes t)"
  by (simp add: upd_node_def)

lemma upd_live:
  "(\<And>d. d \<in> set (leaf_nodes t) \<Longrightarrow> live_leaf r d) \<Longrightarrow> x \<in> set (leaf_nodes (upd_node u (mbump \<delta>) t)) \<Longrightarrow> live_leaf r x"
  by (fastforce simp: upd_leaves live_leaf_def mbump_def)

definition plus_snap :: "hcache \<Rightarrow> nat \<Rightarrow> nat \<Rightarrow> nat \<Rightarrow> nat \<Rightarrow> bool" where
  "plus_snap s u v = (\<lambda>x w. snap_at s x w \<or> x = u \<and> w = v)"

lemma donate_spec:
  assumes ok: "hc_but u L s" and u: "u \<in> rc_nodes (kv s)" and d: "donate u v s = (ex, s')"
  shows "hc_ok L s'" and "rc_locks (kv s) (kv s')" and "size_info (kv s') = size_info (kv s)"
    and "ex \<longleftrightarrow> u = rc_root (kv s) \<or> (\<exists>w. snap_at s u w)"
    and "snap_at s' = (if ex then snap_at s else plus_snap s u v)"
    and "snap_slots s' = snap_slots s + (if ex then {#} else {#v#})"
proof -
  note D = hc_butD [OF ok]
  have refl: "rc_locks (kv s) (kv s)" by (simp add: rc_locks_def)
  have thesis: "hc_ok L s' \<and> rc_locks (kv s) (kv s') \<and> size_info (kv s') = size_info (kv s) \<and>
     (ex \<longleftrightarrow> u = rc_root (kv s) \<or> (\<exists>w. snap_at s u w)) \<and>
     snap_at s' = (if ex then snap_at s else plus_snap s u v) \<and>
     snap_slots s' = snap_slots s + (if ex then {#} else {#v#})"
  proof (cases "u = uuid (rdata (htree s))")
    case True
    then have "ex \<and> s' = s" using d node_at_root [of "htree s"] by (simp add: donate_def)
    moreover have "hc_ok L s" by (rule hc_but_ok [OF ok]) (simp add: live_leaf_def rc_root_def True)
    ultimately show ?thesis using refl True by (simp add: rc_root_def)
  next
    case False
    obtain e where e: "e \<in> set (inner_nodes (htree s))" "uuid e = u"
      using inner_node [of u "htree s"] u False by (auto simp: rc_nodes_def)
    note at = node_at_inner [OF D(6) e(1), unfolded e(2)]
    have snap: "(\<exists>w. snap_at s u w) \<longleftrightarrow> mamba_value e \<noteq> None"
      unfolding snap_at_node [OF D(6)] using e inner_unique [OF D(6) e(1)] by (metis not_None_eq)
    show ?thesis
    proof (cases "mamba_value e")
      case (Some w)
      then have "ex \<and> s' = s" using d at False by (simp add: donate_def)
      moreover have "hc_ok L s"
      proof (rule hc_but_ok [OF ok])
        fix x assume x: "x \<in> set (leaf_nodes (htree s))" "uuid x = u"
        then have "x \<in> set (inner_nodes (htree s))" using leaf_nodes_in [OF x(1)] False by (auto simp: all_nodes_eq)
        then have "x = e" using inner_unique [OF D(6) _ e(1)] x e by simp
        then show "live_leaf (rc_root (kv s)) x" using Some by (simp add: live_leaf_def)
      qed
      ultimately show ?thesis using refl snap Some by simp
    next
      case None
      let ?g = "\<lambda>d. d\<lparr>mamba_value := Some v\<rparr>"
      let ?t = "upd_node u ?g (htree s)"
      have s': "\<not> ex" "kv s' = (kv s)\<lparr>root_node := ?t\<rparr>"
        "mamba_evictable s' = mamba_evictable s + (if mamba_ref_count e = 0 then 1 else 0)"
        "mamba_protected s' = mamba_protected s"
        using d at None False by (auto simp: donate_def split: if_splits)
      note T = upd_tweaks [OF tweaks(2) s'(2)]
      have uL: "u \<notin># L" "mamba_ref_count e = 0"
        using D(2) e None by (auto simp: every_node_def snap_locked_def not_in_iff)
      note W = weigh_upd [OF D(6) e(1), unfolded e(2), of _ ?g]
      have "every_node (snap_locked L) ?t"
        unfolding upd_every_node using D(2) uL by (auto simp: every_node_def snap_locked_def not_in_iff)
      moreover have "live_leaf (rc_root (kv s')) x" if "x \<in> set (leaf_nodes ?t)" for x
        using that D(3) T(2) by (auto simp: upd_leaves live_leaf_def rc_locks_def split: if_splits)
      ultimately have ok': "hc_ok L s'"
        using T(1) D False uL s' None by (simp add: hc_ok_def upd_rdata W snap_free_def snap_held_def)
      have "snap_at s' = plus_snap s u v"
      proof (intro ext)
        fix x w
        have "weigh (snap_ind x w) ?t = weigh (snap_ind x w) (htree s) + (if x = u \<and> w = v then 1 else 0)"
          using W [of "snap_ind x w"] None e by (auto simp: snap_ind_def)
        moreover have "0 \<le> weigh (snap_ind x w) (htree s)" by (rule weigh_nonneg) (simp add: snap_ind_def)
        ultimately show "snap_at s' x w = plus_snap s u v x w" by (auto simp: snap_at_def plus_snap_def s'(2))
      qed
      moreover have "snap_slots s' = snap_slots s + mset [v]"
        by (rule snap_slots_eqI) (use W None in \<open>auto simp: s'(2) snap_occ_def\<close>)
      ultimately show ?thesis using ok' T s' snap None False by (simp add: rc_root_def)
    qed
  qed
  then show "hc_ok L s'" "rc_locks (kv s) (kv s')" "size_info (kv s') = size_info (kv s)"
    "ex \<longleftrightarrow> u = rc_root (kv s) \<or> (\<exists>w. snap_at s u w)"
    "snap_at s' = (if ex then snap_at s else plus_snap s u v)"
    "snap_slots s' = snap_slots s + (if ex then {#} else {#v#})" by blast+
qed

section \<open>Insertion\<close>

lemma insert_shape:
  assumes ok: "rc_ok L c" and len: "length indices = length input_ids"
    and il: "il = align_down (length input_ids) (page_size c)" and ids: "ids = take il input_ids"
  obtains (found) t u cc where "walks (page_size c) tic (node_counter c) (root_node c) ids t u il cc"
      and "insert_prefix tic now input_ids indices c =
        Inr (il, \<lparr>cached_len = il, hnode = u\<rparr>, c\<lparr>root_node := t, node_counter := cc\<rparr>)"
  | (fresh) t u n cc d q where "walks (page_size c) tic (node_counter c) (root_node c) ids t u n cc"
      and "attachable (page_size c) u d t q" and "uuid d = cc" and "ref_count d = 0" and "mamba_value d = None"
      and "mamba_ref_count d = 0"
      and "insert_prefix tic now input_ids indices c = Inr (n, \<lparr>cached_len = il, hnode = cc\<rparr>,
        c\<lparr>root_node := add_child (page_size c) u d t, evictable_size := evictable_size c + int (node_len d),
          node_counter := Suc cc\<rparr>)"
proof -
  obtain t u n cc where w: "walks (page_size c) tic (node_counter c) (root_node c) ids t u n cc"
    and tw: "tree_walk tic ids c = Inr (u, n, c\<lparr>root_node := t, node_counter := cc\<rparr>)"
    using tree_walk_ok [OF ok] by metis
  have lids: "length ids = il" unfolding ids il by simp
  show ?thesis
  proof (cases "n = il")
    case True
    then show ?thesis using found w tw il ids by (auto simp: insert_prefix_def Let_def)
  next
    case False
    let ?d = "new_node cc 0 now (drop n ids) (drop n (take il indices))"
    have n: "n < length ids" using walks_len [OF w] False lids by simp
    have d: "nkey ?d = drop n ids" "length (nval ?d) = length (nkey ?d)" "uuid ?d = cc"
      using len il lids by (simp_all add: new_node_def)
    obtain q where a: "attachable (page_size c) u ?d t q"
      by (rule attach_after_walk [OF ok w, of ?d]) (use n d il ids in auto)
    have "insert_prefix tic now input_ids indices c = Inr (n, \<lparr>cached_len = il, hnode = cc\<rparr>,
        c\<lparr>root_node := add_child (page_size c) u ?d t, evictable_size := evictable_size c + int (node_len ?d),
          node_counter := Suc cc\<rparr>)"
      using tw False d il ids by (simp add: insert_prefix_def Let_def py_assert_def)
    then show ?thesis using fresh [OF w a d(3)] by (simp add: new_node_def)
  qed
qed

lemma add_child_leaves:
  assumes a: "attachable ps u n t q" and x: "x \<in> set (leaf_nodes (add_child ps u n t))"
  shows "x = n \<or> x \<in> set (leaf_nodes t)"
proof -
  note A = attachableD [OF a]
  have "mset (leaf_nodes (add_child ps u n t)) + mset (leaf_nodes q) = mset (leaf_nodes t) + mset (leaf_nodes (plus_kid ps n q))"
    unfolding add_child_def by (rule modify_leaves [OF A(4)])
  moreover have "mset (leaf_nodes (plus_kid ps n q)) = add_mset n (if rkids q = [] then {#} else mset (leaf_nodes q))"
    unfolding A(10) by (cases q) simp
  ultimately have "mset (leaf_nodes (add_child ps u n t)) \<subseteq># add_mset n (mset (leaf_nodes t))"
    by (simp add: subset_mset.le_iff_add split: if_splits) (metis add.right_neutral union_mset_add_mset_right)+
  then show ?thesis using x by (metis insert_iff mset_subset_eqD set_mset_add_mset_insert set_mset_mset)
qed

lemma h_insert_spec:
  assumes ok: "hc_ok L s" and len: "length indices = length input_ids"
    and il: "il = align_down (length input_ids) (page_size (kv s))" and ids: "ids = take il input_ids"
    and n: "n = length (rc_content (kv s) ids)" and new: "new = drop n (take il indices)"
  shows "\<exists>ex s'. h_insert tic now input_ids indices v s = Inr (n, ex, s') \<and> hc_ok L s' \<and>
     rc_inserts ids new (kv s) (kv s') \<and> (ex \<longleftrightarrow> ids = [] \<or> (\<exists>w. snapshot s ids w)) \<and>
     (\<forall>k w. snapshot s' k w \<longleftrightarrow> snapshot s k w \<or> \<not> ex \<and> k = ids \<and> w = v) \<and>
     snap_slots s' = snap_slots s + (if ex then {#} else {#v#})"
proof -
  note D = hc_okD [OF ok] and R = rc_okD [OF hc_okD(1) [OF ok]]
  obtain h c where ins: "insert_prefix tic now input_ids indices (kv s) = Inr (n, h, c)" and rc: "rc_ok L c"
    "rc_inserts ids new (kv s) c" "hnode h \<in> rc_nodes c" "rc_key (hnode h) c = ids"
    using insert_spec [OF D(1) len il ids n new] by metis
  let ?u = "hnode h" and ?s1 = "s\<lparr>kv := c\<rparr>"
  have mid: "hc_but ?u L ?s1 \<and> snap_at ?s1 = snap_at s \<and> snap_slots ?s1 = snap_slots s"
    using D(1) len il ids
  proof (cases rule: insert_shape [where tic = tic and now = now])
    case (found t u cc)
    then have e: "?s1 = s\<lparr>kv := (kv s)\<lparr>root_node := t, node_counter := cc\<rparr>\<rparr>" using ins by simp
    show ?thesis using walks_hc_ok [OF ok found(1) e] hc_ok_but by blast
  next
    case (fresh t u m cc d q)
    let ?s0 = "s\<lparr>kv := (kv s)\<lparr>root_node := t, node_counter := cc\<rparr>\<rparr>"
    note W = walks_hc_ok [OF ok fresh(1) refl] and D0 = hc_okD [OF walks_hc_ok(1) [OF ok fresh(1) refl]]
    have c: "c = (kv s)\<lparr>root_node := add_child (page_size (kv s)) u d t,
        evictable_size := evictable_size (kv s) + int (node_len d), node_counter := Suc cc\<rparr>" "?u = cc"
      using ins fresh(7) by auto
    note A = add_child_weigh [OF fresh(2)]
    have "cc \<notin># L" using rc_okD(11) [OF D0(1)] by simp
    moreover from this have "count L cc = 0" by (simp add: not_in_iff)
    ultimately have "snap_locked L d" using fresh(3,6) by (simp add: snap_locked_def)
    then have "every_node (snap_locked L) (htree ?s1)"
      using add_child_every_node [OF fresh(2), of "snap_locked L"] D0(2) c by simp
    moreover have "uuid x = ?u \<or> live_leaf (rc_root (kv ?s1)) x" if "x \<in> set (leaf_nodes (htree ?s1))" for x
      using add_child_leaves [OF fresh(2), of x] that D0(3) [of x] c fresh(3) add_child_rdata [OF fresh(2)]
      by (auto simp: rc_root_def)
    ultimately have "hc_but ?u L ?s1"
      using rc(1) D0(4,5,7) c A fresh(5) add_child_rdata [OF fresh(2)]
      by (simp add: hc_but_def snap_free_def snap_held_def)
    moreover have "weigh (snap_ind x w) (htree ?s1) = weigh (snap_ind x w) t" for x w
      using A c fresh(5) by (simp add: snap_ind_def)
    then have "snap_at ?s1 = snap_at s" unfolding W(3) [symmetric] by (intro ext) (simp add: snap_at_def)
    moreover have "snap_slots ?s1 = snap_slots ?s0 + mset []"
      by (rule snap_slots_eqI) (use A c fresh(5) in \<open>simp add: snap_occ_def\<close>)
    ultimately show ?thesis using W(4) by simp
  qed
  obtain ex s' where don: "donate ?u v ?s1 = (ex, s')" by (cases "donate ?u v ?s1")
  have "?u \<in> rc_nodes (kv ?s1)" using rc(3) by simp
  note N = donate_spec [OF conjunct1 [OF mid] this don]
  have uq: "uniq (root_node c)" and wf: "wf_below (page_size c) (root_node c)" using rc_okD(2,3) [OF rc(1)] by simp_all
  have at_key: "snap_at ?s1 x w \<Longrightarrow> x \<in> rc_nodes c" for x w
    using snap_at_node [of ?s1] uq by (auto simp: rc_nodes_def uuids_def all_nodes_eq)
  have at_old: "snap_at s x w \<Longrightarrow> rc_key x c = rc_key x (kv s)" for x w
  proof -
    assume "snap_at s x w"
    then have "x \<in> rc_nodes (kv s)" using snap_at_node [OF D(6)] by (auto simp: rc_nodes_def uuids_def all_nodes_eq)
    then show ?thesis using rc(2) by (simp add: rc_inserts_def)
  qed
  have old: "snapshot s k w \<longleftrightarrow> (\<exists>x. snap_at ?s1 x w \<and> rc_key x c = k)" for k w
    using mid at_old by (auto simp: snapshot_def)
  have inj: "x = ?u" if "x \<in> rc_nodes c" "rc_key x c = ids" for x
    using path_key_inj [OF uq wf, of x ?u] that rc(3,4) by (simp add: rc_key_def rc_nodes_def)
  have root: "?u = rc_root c \<longleftrightarrow> ids = []"
    using inj [of "rc_root c"] rc(4) by (auto simp: rc_root_def rc_key_def rc_nodes_def)
  have "(\<exists>w. snap_at ?s1 ?u w) \<longleftrightarrow> (\<exists>w. snapshot s ids w)"
    using old inj at_key rc(4) by blast
  then have ex: "ex \<longleftrightarrow> ids = [] \<or> (\<exists>w. snapshot s ids w)" using N(4) root by simp
  have kc: "rc_key x (kv s') = rc_key x c" for x using N(2) by (simp add: rc_locks_def)
  have "snapshot s' k w \<longleftrightarrow> snapshot s k w \<or> \<not> ex \<and> k = ids \<and> w = v" for k w
    using N(5) old rc(4) kc by (auto simp: snapshot_def plus_snap_def)
  moreover have "rc_inserts ids new (kv s) (kv s')"
    using rc(2) N(2,3) by (auto simp: rc_inserts_def rc_locks_def)
  moreover have "h_insert tic now input_ids indices v s = Inr (n, ex, s')" by (simp add: h_insert_def ins don)
  ultimately show ?thesis using N(1,6) ex mid by auto
qed

section \<open>Locking\<close>

lemma lock_handle_tree:
  assumes "uniq (root_node c)"
  shows "root_node (lock_loop (up_path u (root_node c)) c) = path_map (bump 1) u (root_node c)"
  using fold_upd_path [OF assms, of "bump 1" u] by (simp add: lock_loop_root)

lemma unlock_loop_tree:
  "unlock_loop ds c = Inr c' \<Longrightarrow> root_node c' = fold (\<lambda>d. upd_node (uuid d) (bump (- 1))) ds (root_node c)"
  by (induction ds arbitrary: c) (auto simp: Let_def py_assert_Inr_conv)

text \<open>A change of the reference counts of one path leaves the second currency alone.\<close>

lemma path_bump_snaps:
  assumes "uniq t"
  shows "weigh snap_free (path_map (bump \<delta>) u t) = weigh snap_free t"
    "weigh snap_held (path_map (bump \<delta>) u t) = weigh snap_held t"
    "weigh (snap_ind x w) (path_map (bump \<delta>) u t) = weigh (snap_ind x w) t"
    "weigh (snap_occ w) (path_map (bump \<delta>) u t) = weigh (snap_occ w) t"
    "every_node (snap_locked L) (path_map (bump \<delta>) u t) = every_node (snap_locked L) t"
    "(\<forall>d \<in> set (leaf_nodes (path_map (bump \<delta>) u t)). live_leaf r d) = (\<forall>d \<in> set (leaf_nodes t). live_leaf r d)"
    "rdata (path_map (bump \<delta>) u t) = rdata t"
proof -
  have P: "snap_locked L (bump \<delta> d) = snap_locked L d" "live_leaf r (bump \<delta> d) = live_leaf r d"
    "snap_free (bump \<delta> d) = snap_free d" "snap_held (bump \<delta> d) = snap_held d"
    "snap_ind x w (bump \<delta> d) = snap_ind x w d" "snap_occ w (bump \<delta> d) = snap_occ w d" for d
    by (simp_all add: snap_locked_def live_leaf_def snap_free_def snap_held_def snap_ind_def snap_occ_def bump_def)
  show "weigh snap_free (path_map (bump \<delta>) u t) = weigh snap_free t"
    "weigh snap_held (path_map (bump \<delta>) u t) = weigh snap_held t"
    "weigh (snap_ind x w) (path_map (bump \<delta>) u t) = weigh (snap_ind x w) t"
    "weigh (snap_occ w) (path_map (bump \<delta>) u t) = weigh (snap_occ w) t"
    using path_map_weigh [OF assms, of _ "bump \<delta>" u] by (simp_all add: P)
  show "every_node (snap_locked L) (path_map (bump \<delta>) u t) = every_node (snap_locked L) t"
    unfolding path_map_def by (rule map_every_node) (simp add: P)
  show "(\<forall>d \<in> set (leaf_nodes (path_map (bump \<delta>) u t)). live_leaf r d) = (\<forall>d \<in> set (leaf_nodes t). live_leaf r d)"
    unfolding path_map_def leaf_nodes_map set_map ball_simps by (simp add: P)
  show "rdata (path_map (bump \<delta>) u t) = rdata t" by (rule path_map_keeps(7) [OF keeps_bump assms])
qed

definition h_locks :: "hcache \<Rightarrow> hcache \<Rightarrow> bool" where
  "h_locks s s' \<longleftrightarrow> rc_locks (kv s) (kv s') \<and> snap_at s' = snap_at s \<and> snap_slots s' = snap_slots s \<and>
     mamba_evictable s' + mamba_protected s' = mamba_evictable s + mamba_protected s"

lemma inc_lock_spec:
  assumes ok: "hc_ok L s" and u: "u = rc_root (kv s) \<or> (\<exists>w. snap_at s u w)"
  shows "hc_ok (add_mset u L) (inc_lock u s)" and "h_locks s (inc_lock u s)"
proof -
  note D = hc_okD [OF ok]
  have "hc_ok (add_mset u L) (inc_lock u s) \<and> h_locks s (inc_lock u s)"
  proof (cases "u = uuid (rdata (htree s))")
    case True
    then have e: "inc_lock u s = s" using node_at_root [of "htree s"] D(7) by (simp add: inc_lock_def)
    have "rc_ok (add_mset u L) (lock_loop (up_path u (htree s)) (kv s))"
      using lock_spec [OF D(1), of "\<lparr>cached_len = 0, hnode = u\<rparr>"] True by (auto simp: lock_handle_def rc_nodes_def)
    then have "rc_ok (add_mset u L) (kv s)" using True by simp
    moreover have "every_node (snap_locked (add_mset u L)) (htree s)"
      unfolding every_node_def
    proof
      fix d assume d: "d \<in> set (inner_nodes (htree s))"
      then have "uuid d \<noteq> u" using root_uuid_fresh [OF D(6)] True by blast
      then show "snap_locked (add_mset u L) d" using D(2) d by (simp add: every_node_def snap_locked_def)
    qed
    ultimately have "hc_ok (add_mset u L) s" using D by (simp add: hc_ok_def)
    then show ?thesis by (simp add: e h_locks_def rc_locks_def)
  next
    case False
    then obtain e w where e: "e \<in> set (inner_nodes (htree s))" "uuid e = u" "mamba_value e = Some w"
      using u snap_at_node [OF D(6)] by (auto simp: rc_root_def)
    note at = node_at_inner [OF D(6) e(1), unfolded e(2)]
    let ?t = "upd_node u (mbump 1) (htree s)"
    let ?s1 = "(if mamba_ref_count e = 0
               then s\<lparr>mamba_evictable := mamba_evictable s - 1, mamba_protected := mamba_protected s + 1\<rparr>
               else s)\<lparr>kv := (kv s)\<lparr>root_node := ?t\<rparr>\<rparr>"
    note T = upd_tweaks [OF tweaks(1) [of 1], where c' = "kv ?s1" and c = "kv s" and u = u, simplified]
    have ok1: "rc_ok L (kv ?s1)" using T(1) D(1) by simp
    have inU: "u \<in> rc_nodes (kv ?s1)"
      using e T(2) by (auto simp: rc_locks_def rc_nodes_def uuids_def all_nodes_eq)
    let ?s' = "inc_lock u s"
    have s': "?s' = ?s1\<lparr>kv := lock_loop (up_path u (htree ?s1)) (kv ?s1)\<rparr>"
      using at e(3) by (simp add: inc_lock_def Let_def)
    have lk: "rc_ok (add_mset u L) (kv ?s')" "rc_locks (kv ?s1) (kv ?s')"
      using lock_spec [OF ok1, of "\<lparr>cached_len = 0, hnode = u\<rparr>"] inU unfolding s' by (simp_all add: lock_handle_def)
    have uq: "uniq ?t" using rc_okD(2) [OF ok1] by simp
    have tr: "htree ?s' = path_map (bump 1) u ?t" using lock_handle_tree [of "kv ?s1" u] uq unfolding s' by simp
    note B = path_bump_snaps [OF uq, where \<delta> = 1 and u = u]
    note W = weigh_upd [OF D(6) e(1), unfolded e(2), where g = "mbump 1"]
    have "every_node (snap_locked (add_mset u L)) ?t"
      unfolding upd_every_node using D(2) e by (auto simp: every_node_def snap_locked_def mbump_def
        dest: inner_unique [OF D(6) e(1)])
    moreover have "live_leaf (rc_root (kv ?s')) x" if "x \<in> set (leaf_nodes ?t)" for x
      using upd_live [OF _ that] D(3) T(2) lk(2) by (simp add: rc_locks_def)
    moreover have "0 \<le> mamba_ref_count e" using D(2) e(1) by (simp add: every_node_def snap_locked_def)
    ultimately have "hc_ok (add_mset u L) ?s'"
      using lk(1) D(4,5,7) False e(3) unfolding hc_ok_def tr B
      by (simp add: s' upd_rdata W snap_free_def snap_held_def mbump_def)
    moreover have "snap_at ?s' = snap_at s"
      by (intro ext) (simp add: snap_at_def tr B W snap_ind_def mbump_def)
    moreover have "snap_slots ?s' = snap_slots s + mset []"
      by (rule snap_slots_eqI) (simp add: tr B W snap_occ_def mbump_def)
    moreover have "rc_locks (kv s) (kv ?s')" using T(2) lk(2) by (auto simp: rc_locks_def)
    ultimately show ?thesis by (simp add: h_locks_def s')
  qed
  then show "hc_ok (add_mset u L) (inc_lock u s)" "h_locks s (inc_lock u s)" by simp_all
qed

lemma dec_lock_spec:
  assumes ok: "hc_ok (add_mset u L) s" and u: "u = rc_root (kv s) \<or> (\<exists>w. snap_at s u w)"
  shows "\<exists>s'. dec_lock u s = Inr s' \<and> hc_ok L s' \<and> h_locks s s'"
proof -
  note D = hc_okD [OF ok]
  show ?thesis
  proof (cases "u = uuid (rdata (htree s))")
    case True
    then have e: "dec_lock u s = Inr s" using node_at_root [of "htree s"] D(7) by (simp add: dec_lock_def)
    have "rc_ok L (kv s)"
      using unlock_spec [of "\<lparr>cached_len = 0, hnode = u\<rparr>" L "kv s"] D(1) True by (simp add: lock_handle_def)
    moreover have "every_node (snap_locked L) (htree s)"
      unfolding every_node_def
    proof
      fix d assume d: "d \<in> set (inner_nodes (htree s))"
      then have "uuid d \<noteq> u" using root_uuid_fresh [OF D(6)] True by blast
      then show "snap_locked L d" using D(2) d by (simp add: every_node_def snap_locked_def)
    qed
    ultimately have "hc_ok L s" using D by (simp add: hc_ok_def)
    then show ?thesis by (simp add: e h_locks_def rc_locks_def)
  next
    case False
    then obtain e w where e: "e \<in> set (inner_nodes (htree s))" "uuid e = u" "mamba_value e = Some w"
      using u snap_at_node [OF D(6)] by (auto simp: rc_root_def)
    note at = node_at_inner [OF D(6) e(1), unfolded e(2)]
    have ref: "0 < mamba_ref_count e" using D(2) e(1,2) by (simp add: every_node_def snap_locked_def)
    let ?t = "upd_node u (mbump (- 1)) (htree s)"
    let ?s1 = "(if mamba_ref_count e - 1 = 0
               then s\<lparr>mamba_evictable := mamba_evictable s + 1, mamba_protected := mamba_protected s - 1\<rparr>
               else s)\<lparr>kv := (kv s)\<lparr>root_node := ?t\<rparr>\<rparr>"
    note T = upd_tweaks [OF tweaks(1) [of "- 1"], where c' = "kv ?s1" and c = "kv s" and u = u, simplified]
    have ok1: "rc_ok (add_mset u L) (kv ?s1)" using T(1) D(1) by simp
    obtain c where c: "unlock_loop (up_path u (htree ?s1)) (kv ?s1) = Inr c" "rc_ok L c" "rc_locks (kv ?s1) c"
      using unlock_spec [of "\<lparr>cached_len = 0, hnode = u\<rparr>" L "kv ?s1"] ok1 by (auto simp: lock_handle_def)
    let ?s' = "?s1\<lparr>kv := c\<rparr>"
    have s': "dec_lock u s = Inr ?s'" using at e(3) ref c(1) by (simp add: dec_lock_def Let_def)
    have uq: "uniq ?t" using rc_okD(2) [OF ok1] by simp
    have tr: "htree ?s' = path_map (bump (- 1)) u ?t"
      using unlock_loop_tree [OF c(1)] fold_upd_path [OF uq, of "bump (- 1)" u] by simp
    note B = path_bump_snaps [OF uq, where \<delta> = "- 1" and u = u]
    note W = weigh_upd [OF D(6) e(1), unfolded e(2), of _ "mbump (- 1)"]
    have "every_node (snap_locked L) ?t"
      unfolding upd_every_node using D(2) e by (auto simp: every_node_def snap_locked_def mbump_def
        dest: inner_unique [OF D(6) e(1)])
    moreover have "live_leaf (rc_root (kv ?s')) x" if "x \<in> set (leaf_nodes ?t)" for x
      using upd_live [OF _ that] D(3) T(2) c(3) by (simp add: rc_locks_def)
    ultimately have "hc_ok L ?s'"
      using c(2) D(4,5,7) False e(3) ref unfolding hc_ok_def tr B
      by (simp add: upd_rdata W snap_free_def snap_held_def mbump_def)
    moreover have "snap_at ?s' = snap_at s"
      by (intro ext) (simp only: snap_at_def tr B W, simp add: snap_ind_def mbump_def)
    moreover have "snap_slots ?s' = snap_slots s + mset []"
      by (rule snap_slots_eqI) (simp only: tr B W, simp add: snap_occ_def mbump_def)
    moreover have "rc_locks (kv s) (kv ?s')" using T(2) c(3) by (auto simp: rc_locks_def)
    ultimately show ?thesis unfolding s' by (simp add: h_locks_def)
  qed
qed

end
