(* ===== verification/Hybrid_Properties.thy ===== *)
theory Hybrid_Properties
  imports Hybrid_Evict
begin

text \<open>
  The evictions of the hybrid radix cache, and the properties of the cache: what a match returns,
  what an insertion adds, that locking is undone by unlocking, and that the two evictions free what
  they are asked for, give back every slot exactly once and keep what is locked.
\<close>

section \<open>Taking a snapshot away\<close>

lemma free_mamba_spec:
  assumes ok: "hc_ok L s" and d: "d \<in> set (inner_nodes (htree s))" and m: "mamba_value d = Some v"
    and r: "mamba_ref_count d = 0" and f: "free_node_mamba d out s = (out', s')"
  shows "hc_but (uuid d) L s'" and "out' = out @ [v]" and "rc_locks (kv s) (kv s')"
    and "size_info (kv s') = size_info (kv s)"
    and "htree s' = upd_node (uuid d) (\<lambda>d. d\<lparr>mamba_value := None\<rparr>) (htree s)"
    and "snap_slots s = snap_slots s' + {#v#}" and "mamba_evictable s' = mamba_evictable s - 1"
    and "mamba_protected s' = mamba_protected s" and "kv s' = (kv s)\<lparr>root_node := htree s'\<rparr>"
    and "snap_at s' x w \<Longrightarrow> snap_at s x w"
proof -
  note D = hc_okD [OF ok]
  let ?g = "\<lambda>d. d\<lparr>mamba_value := None\<rparr>"
  let ?t = "upd_node (uuid d) ?g (htree s)"
  have s': "out' = out @ [v]" "kv s' = (kv s)\<lparr>root_node := ?t\<rparr>" "mamba_evictable s' = mamba_evictable s - 1"
    "mamba_protected s' = mamba_protected s"
    using f m r by (auto simp: free_node_mamba_def)
  note T = upd_tweaks [OF tweaks(2) s'(2)]
  note W = weigh_upd [OF D(6) d, where g = ?g]
  have nr: "uuid d \<noteq> uuid (rdata (htree s))" by (rule root_uuid_fresh [OF D(6) d])
  have uL: "uuid d \<notin># L" using D(2) d r by (auto simp: every_node_def snap_locked_def not_in_iff)
  have "every_node (snap_locked L) ?t"
    unfolding upd_every_node using D(2) uL by (auto simp: every_node_def snap_locked_def)
  moreover have "uuid x = uuid d \<or> live_leaf (rc_root (kv s')) x" if "x \<in> set (leaf_nodes ?t)" for x
    using that D(3) T(2) by (auto simp: upd_leaves rc_locks_def split: if_splits)
  ultimately show "hc_but (uuid d) L s'"
    using T(1) D m r s' nr by (simp add: hc_but_def upd_rdata W snap_free_def snap_held_def)
  have "snap_slots s = snap_slots s' + mset [v]"
    by (rule snap_slots_eqI) (use W m in \<open>auto simp: s'(2) snap_occ_def\<close>)
  then show "snap_slots s = snap_slots s' + {#v#}" by simp
  show "snap_at s x w" if "snap_at s' x w"
  proof -
    have "weigh (snap_ind x w) (htree s') \<le> weigh (snap_ind x w) (htree s)"
      using W [of "snap_ind x w"] by (simp add: s'(2) snap_ind_def)
    then show ?thesis using that by (simp add: snap_at_def)
  qed
  show "out' = out @ [v]" "rc_locks (kv s) (kv s')" "size_info (kv s') = size_info (kv s)" "htree s' = ?t"
    "mamba_evictable s' = mamba_evictable s - 1" "mamba_protected s' = mamba_protected s"
    "kv s' = (kv s)\<lparr>root_node := htree s'\<rparr>" using s' T by simp_all
qed

section \<open>Removing leaves\<close>

text \<open>What an eviction of the KV slots \<open>out\<close> and the snapshots \<open>ms\<close> does.\<close>

definition h_evicts :: "nat multiset \<Rightarrow> slot list \<Rightarrow> nat list \<Rightarrow> hcache \<Rightarrow> hcache \<Rightarrow> bool" where
  "h_evicts L out ms s s' \<longleftrightarrow> rc_evicts L out (kv s) (kv s') \<and>
     snap_slots s = snap_slots s' + mset ms \<and> mamba_protected s' = mamba_protected s \<and>
     mamba_evictable s' = mamba_evictable s - int (length ms) \<and> (\<forall>u w. snap_at s' u w \<longrightarrow> snap_at s u w)"

lemma h_evicts_refl: "hc_ok L s \<Longrightarrow> h_evicts L [] [] s s"
  by (simp add: h_evicts_def rc_evicts_refl hc_okD)

lemma h_evicts_trans: "h_evicts L o1 m1 s s1 \<Longrightarrow> h_evicts L o2 m2 s1 s2 \<Longrightarrow> h_evicts L (o1 @ o2) (m1 @ m2) s s2"
  by (auto simp: h_evicts_def intro: rc_evicts_trans)

text \<open>Removing an unlocked leaf without a snapshot; \<open>h\<close> is the queue of the eviction.\<close>

lemma remove_dead_leaf:
  assumes ok: "hc_but (uuid d) L s" and d: "d \<in> set (leaf_nodes (htree s))" "ref_count d = 0" "mamba_value d = None"
  obtains p t where "remove_node (page_size (kv s)) (uuid d) (htree s) = Inr (p, t)"
    and "hc_but p L (s\<lparr>kv := (kv s)\<lparr>root_node := t, evictable_size := evictable_size (kv s) - int (node_len d)\<rparr>\<rparr>)"
    and "h_evicts L (nval d) [] s (s\<lparr>kv := (kv s)\<lparr>root_node := t, evictable_size := evictable_size (kv s) - int (node_len d)\<rparr>\<rparr>)"
    and "p \<in> set (uuids t)" and "length (nval d) = node_len d"
    and "\<And>h. add_mset d (mset h) = unlocked_leaves (htree s) \<Longrightarrow> mset (offer_parent p t h) = unlocked_leaves t"
    and "mset (inner_nodes (htree s)) = add_mset d (mset (inner_nodes t))"
proof -
  note D = hc_butD [OF ok]
  obtain p pre post where a: "leaf_at (page_size (kv s)) (uuid d) (htree s) d p pre post"
    and ev: "rc_evicts L (nval d) (kv s) ((kv s)\<lparr>root_node := unlink (page_size (kv s)) (uuid d) (htree s),
           evictable_size := evictable_size (kv s) - int (node_len d)\<rparr>)" and nl: "uuid d \<notin># L"
    by (rule evict_step [OF D(1) d(1,2)])
  let ?t = "unlink (page_size (kv s)) (uuid d) (htree s)"
  let ?s' = "s\<lparr>kv := (kv s)\<lparr>root_node := ?t, evictable_size := evictable_size (kv s) - int (node_len d)\<rparr>\<rparr>"
  note W = unlink_weigh [OF a]
  have rm: "remove_node (page_size (kv s)) (uuid d) (htree s) = Inr (uuid p, ?t)" by (rule remove_leaf [OF a])
  have lv: "uuid x = uuid p \<or> live_leaf (rc_root (kv ?s')) x" if x: "x \<in> set (leaf_nodes ?t)" for x
  proof -
    have uqd: "distinct (map uuid (leaf_nodes ?t)) \<Longrightarrow> True" by simp
    have "uuid x \<in> set (uuids ?t)" using leaf_nodes_in [OF x] by (simp add: uuids_def)
    then have "uuid x \<noteq> uuid d" using unlink_set [OF a] by simp
    moreover have "x \<in># mset (leaf_nodes (htree s)) + (if pre @ post = [] then {#p#} else {#})"
      using x unlink_leaves [OF a] by (metis insert_iff set_mset_add_mset_insert set_mset_mset)
    ultimately show ?thesis using D(3) [of x] unlink_rdata [OF a] by (auto simp: rc_root_def split: if_splits)
  qed
  have but: "hc_but (uuid p) L ?s'"
    using ev lv D(4,5,7) unlink_every_node [OF a D(2)] d(3) unlink_rdata [OF a]
    by (simp add: hc_but_def rc_evicts_def W snap_free_def snap_held_def)
  have "weigh (snap_ind x w) ?t = weigh (snap_ind x w) (htree s)" for x w using W d(3) by (simp add: snap_ind_def)
  then have "snap_at ?s' = snap_at s" by (intro ext) (simp add: snap_at_def)
  moreover have "snap_slots s = snap_slots ?s' + mset []"
    by (rule snap_slots_eqI) (use W d(3) in \<open>simp add: snap_occ_def\<close>)
  ultimately have he: "h_evicts L (nval d) [] s ?s'" using ev by (simp add: h_evicts_def)
  have pin: "uuid p \<in> set (uuids ?t)"
    using unlink_subtree [OF a] subtree_absent [of "uuid p" ?t] by auto
  have len: "length (nval d) = node_len d"
    using wf_inner [OF rc_okD(3) [OF D(1)] leaf_removable(4) [OF D(1) d(1,2)]] by (simp add: wf_data_def)
  have "mset (inner_nodes (htree s)) = add_mset d (mset (inner_nodes ?t))"
  proof (rule multiset_eqI)
    fix x
    have cnt: "int (count (mset (inner_nodes t)) x) = weigh (\<lambda>y. if y = x then 1 else 0) t" for t
    proof -
      have "int (count (mset ds) x) = (\<Sum>y\<leftarrow>ds. if y = x then 1 else 0)" for ds :: "ndata list" by (induction ds) auto
      then show ?thesis by (simp add: weigh_def)
    qed
    show "count (mset (inner_nodes (htree s))) x = count (add_mset d (mset (inner_nodes ?t))) x"
      using cnt [of "htree s"] cnt [of ?t] W [of "\<lambda>y. if y = x then 1 else 0"] by (auto split: if_splits)
  qed
  then show ?thesis using that [OF rm but he pin len heap_step [OF a d(2)]] by blast
qed

lemma subtree_leaf:
  assumes "uniq t" and "subtree p t = Some q" and "is_leaf q"
  shows "rdata q \<in> set (leaf_nodes t)" "uuid (rdata q) = p"
proof -
  have f: "focus p t q" by (rule subtree_focus [OF assms(2,1)])
  then show "uuid (rdata q) = p" by (rule focus_uuid)
  from f assms(3) show "rdata q \<in> set (leaf_nodes t)"
  proof (induction rule: focus.induct)
    case (here s) then show ?case by (cases s) (auto simp: is_leaf_def)
  next
    case (below c s d pre post k) then show ?case by auto
  qed
qed

lemma leaf_ref:
  assumes ok: "rc_ok L c" and x: "x \<in> set (leaf_nodes (root_node c))" and nr: "uuid x \<noteq> uuid (rdata (root_node c))"
  shows "ref_count x = int (count L (uuid x))"
proof -
  note R = rc_okD [OF ok]
  obtain p pre post where a: "leaf_at (page_size c) (uuid x) (root_node c) x p pre post"
    using leaf_at_ex [OF R(2,3) leaf_subtree [OF x R(2)] nr] by blast
  have "refs_below L (RNode p (pre @ (key_fn (page_size c) (nkey x), RNode x []) # post))"
    by (rule focus_refs [OF leaf_atD(4) [OF a] R(6)])
  then have "ref_count x = int (locks_in L (RNode x []))" by simp
  then show ?thesis by (simp add: locks_in_def filter_eq_replicate_mset)
qed

lemma cascade_spec:
  "hc_but p L s \<Longrightarrow> kv s = c \<Longrightarrow> p \<in> set (uuids (htree s)) \<Longrightarrow>
   \<exists>p' out s'. cascade_tombstone_leaves p acc n c = Inr (p', acc @ out, n + length out, kv s') \<and>
     s' = s\<lparr>kv := kv s'\<rparr> \<and> hc_ok L s' \<and> h_evicts L out [] s s' \<and>
     (\<forall>h. mset (offer_parent p (htree s) h) = unlocked_leaves (htree s) \<longrightarrow>
        mset (offer_parent p' (htree s') h) = unlocked_leaves (htree s')) \<and>
     filter_mset (\<lambda>d. mamba_value d \<noteq> None) (mset (inner_nodes (htree s'))) =
       filter_mset (\<lambda>d. mamba_value d \<noteq> None) (mset (inner_nodes (htree s)))"
proof (induction p acc n c arbitrary: s rule: cascade_tombstone_leaves.induct)
  case (1 p acc n c)
  note D = hc_butD [OF 1(2)]
  obtain q where q: "subtree p (htree s) = Some q"
    using focus_ex [OF D(6) 1(4)] focus_subtree [OF _ D(6)] by blast
  have root1: "ref_count (rdata (htree s)) = 1" by (rule rc_okD(7) [OF D(1)])
  let ?go = "mamba_value (rdata q) = None \<and> is_leaf q \<and> ref_count (rdata q) = 0 \<and> p \<noteq> uuid (rdata (htree s))"
  show ?case
  proof (cases ?go)
    case False
    have "hc_ok L s"
    proof (rule hc_but_ok [OF 1(2)])
      fix x assume x: "x \<in> set (leaf_nodes (htree s))" "uuid x = p"
      have qx: "q = RNode x []" using leaf_subtree [OF x(1) D(6)] x(2) q by simp
      show "live_leaf (rc_root (kv s)) x"
      proof (rule ccontr)
        assume dead: "\<not> live_leaf (rc_root (kv s)) x"
        then have nz: "ref_count x \<noteq> 0" using False qx x(2) by (auto simp: live_leaf_def rc_root_def is_leaf_def)
        have nr: "p \<noteq> uuid (rdata (htree s))" using dead x(2) by (auto simp: live_leaf_def rc_root_def)
        have "ref_count x = int (count L p)" using leaf_ref [OF D(1) x(1)] nr x(2) by simp
        then have "p \<in># L" using nz by (metis not_in_iff of_nat_0)
        moreover have "x \<in> set (inner_nodes (htree s))"
          using leaf_nodes_in [OF x(1)] nr x(2) by (auto simp: all_nodes_eq)
        ultimately show False using D(2) dead x(2) by (auto simp: every_node_def snap_locked_def live_leaf_def)
      qed
    qed
    moreover have "cascade_tombstone_leaves p acc n c = Inr (p, acc, n, c)"
      using False q 1(3) by (subst cascade_tombstone_leaves.simps) auto
    ultimately show ?thesis using h_evicts_refl 1(3)
      by (intro exI [of _ p] exI [of _ "[]"] exI [of _ s]) auto
  next
    case True
    note go = this
    have L: "rdata q \<in> set (leaf_nodes (htree s))" "uuid (rdata q) = p"
      using subtree_leaf [OF D(6) q] True by auto
    let ?after = "\<lambda>t. s\<lparr>kv := (kv s)\<lparr>root_node := t, evictable_size := evictable_size (kv s) - int (node_len (rdata q))\<rparr>\<rparr>"
    obtain p1 t where t: "remove_node (page_size (kv s)) (uuid (rdata q)) (htree s) = Inr (p1, t)"
      and but: "hc_but p1 L (?after t)"
      and ev: "h_evicts L (nval (rdata q)) [] s (?after t)" and pin: "p1 \<in> set (uuids t)"
      and len: "length (nval (rdata q)) = node_len (rdata q)"
      and hs: "\<And>h. add_mset (rdata q) (mset h) = unlocked_leaves (htree s) \<Longrightarrow> mset (offer_parent p1 t h) = unlocked_leaves t"
      and inner: "mset (inner_nodes (htree s)) = add_mset (rdata q) (mset (inner_nodes t))"
      using remove_dead_leaf [of "rdata q" L s] 1(2) L True by metis
    let ?s1 = "?after t"
    have rec: "cascade_tombstone_leaves p acc n c =
        cascade_tombstone_leaves p1 (acc @ nval (rdata q)) (n + node_len (rdata q)) (kv ?s1)"
      using True q t L(2) 1(3) by (subst cascade_tombstone_leaves.simps) simp
    have "\<exists>p' out s'. cascade_tombstone_leaves p1 (acc @ nval (rdata q)) (n + node_len (rdata q)) (kv ?s1) =
          Inr (p', (acc @ nval (rdata q)) @ out, (n + node_len (rdata q)) + length out, kv s') \<and>
        s' = ?s1\<lparr>kv := kv s'\<rparr> \<and> hc_ok L s' \<and> h_evicts L out [] ?s1 s' \<and>
        (\<forall>h. mset (offer_parent p1 (htree ?s1) h) = unlocked_leaves (htree ?s1) \<longrightarrow>
          mset (offer_parent p' (htree s') h) = unlocked_leaves (htree s')) \<and>
        filter_mset (\<lambda>d. mamba_value d \<noteq> None) (mset (inner_nodes (htree s'))) =
          filter_mset (\<lambda>d. mamba_value d \<noteq> None) (mset (inner_nodes (htree ?s1)))"
      using 1(1) [of q "(p1, t)" p1 t ?s1] q True t L(2) but pin 1(3) by simp
    then obtain p' out s' where IH: "cascade_tombstone_leaves p1 (acc @ nval (rdata q)) (n + node_len (rdata q)) (kv ?s1) =
          Inr (p', (acc @ nval (rdata q)) @ out, (n + node_len (rdata q)) + length out, kv s')"
        "s' = ?s1\<lparr>kv := kv s'\<rparr>" "hc_ok L s'" "h_evicts L out [] ?s1 s'"
        "\<And>h. mset (offer_parent p1 (htree ?s1) h) = unlocked_leaves (htree ?s1) \<Longrightarrow>
          mset (offer_parent p' (htree s') h) = unlocked_leaves (htree s')"
        "filter_mset (\<lambda>d. mamba_value d \<noteq> None) (mset (inner_nodes (htree s'))) =
          filter_mset (\<lambda>d. mamba_value d \<noteq> None) (mset (inner_nodes (htree ?s1)))" by blast
    have "mset (offer_parent p' (htree s') h) = unlocked_leaves (htree s')"
      if "mset (offer_parent p (htree s) h) = unlocked_leaves (htree s)" for h
      using IH(5) [of h] hs [of h] that q go by (simp add: offer_parent_def push_def)
    moreover have "s' = s\<lparr>kv := kv s'\<rparr>" using IH(2) by simp
    moreover have "h_evicts L (nval (rdata q) @ out) ([] @ []) s s'" by (rule h_evicts_trans [OF ev IH(4)])
    ultimately show ?thesis using rec IH(1,3,6) len inner go
      by (intro exI [of _ p'] exI [of _ "nval (rdata q) @ out"] exI [of _ s']) (simp add: add.assoc)
  qed
qed

section \<open>Evicting a leaf\<close>

lemma leaf_nodes_sub: "mset (leaf_nodes t) \<subseteq># mset (all_nodes t)"
proof (induction t)
  case (RNode d cs)
  have "mset (concat (map (\<lambda>kc. leaf_nodes (snd kc)) xs)) \<subseteq># mset (concat (map (\<lambda>kc. all_nodes (snd kc)) xs))"
    if "set xs \<subseteq> set cs" for xs
    using that
  proof (induction xs)
    case (Cons kc xs)
    then show ?case using RNode.IH [of kc "snd kc"] by (auto intro!: subset_mset.add_mono simp: snds.simps)
  qed simp
  from this [of cs] have "mset (concat (map (\<lambda>kc. leaf_nodes (snd kc)) (rev cs))) \<subseteq># mset (concat (map (\<lambda>kc. all_nodes (snd kc)) cs))"
    by (simp add: mset_concat rev_map [symmetric])
  then show ?case by (auto intro: subset_mset.order_trans)
qed

lemma leaf_uuids_distinct:
  assumes "uniq t"
  shows "distinct (map uuid (leaf_nodes t))"
proof -
  have "mset (map uuid (leaf_nodes t)) \<subseteq># mset (uuids t)"
    using image_mset_subseteq_mono [OF leaf_nodes_sub, of uuid t] by (simp add: uuids_def)
  then obtain M where "mset (uuids t) = mset (map uuid (leaf_nodes t)) + M" by (auto simp: subset_mset.le_iff_add)
  moreover obtain zs where "mset zs = M" by (metis ex_mset)
  ultimately have "mset (uuids t) = mset (map uuid (leaf_nodes t) @ zs)" by simp
  then have "distinct (map uuid (leaf_nodes t) @ zs)" using assms mset_eq_imp_distinct_iff unfolding uniq_def by blast
  then show ?thesis by simp
qed

lemma image_upd:
  assumes "distinct (map uuid xs)" and "mset xs = add_mset d M"
  shows "image_mset (\<lambda>x. if uuid x = uuid d then g x else x) (mset xs) = add_mset (g d) M"
proof -
  obtain ys where ys: "mset ys = M" by (metis ex_mset)
  then have "mset (map uuid xs) = mset (map uuid (d # ys))" using assms(2) by simp
  then have "distinct (map uuid (d # ys))" using assms(1) mset_eq_imp_distinct_iff by blast
  then have "uuid x \<noteq> uuid d" if "x \<in># M" for x using that ys by (metis distinct.simps(2) image_eqI list.map(2) set_map set_mset_mset)
  then have "image_mset (\<lambda>x. if uuid x = uuid d then g x else x) M = image_mset (\<lambda>x. x) M"
    by (intro image_mset_cong) simp
  then show ?thesis using assms(2) by simp
qed

lemma drop_leaf_spec:
  assumes ok: "hc_ok L s" and d: "d \<in> set (leaf_nodes (htree s))" "ref_count d = 0"
  obtains out v p s' where "drop_leaf d acc m s = Inr (acc @ out, m @ [v], length out, p, s')"
    and "h_evicts L out [v] s s'" and "hc_ok L s'"
    and "\<And>h. add_mset d (mset h) = unlocked_leaves (htree s) \<Longrightarrow> mset (offer_parent p (htree s') h) = unlocked_leaves (htree s')"
    and "filter_mset (\<lambda>d. mamba_value d \<noteq> None) (mset (inner_nodes (htree s))) =
      add_mset d (filter_mset (\<lambda>d. mamba_value d \<noteq> None) (mset (inner_nodes (htree s'))))"
    and "mamba_ref_count d = 0"
proof -
  note D = hc_okD [OF ok]
  have inner: "d \<in> set (inner_nodes (htree s))" by (rule leaf_removable(4) [OF D(1) d])
  have nr: "uuid d \<noteq> uuid (rdata (htree s))" by (rule root_uuid_fresh [OF D(6) inner])
  obtain v where v: "mamba_value d = Some v" using D(3) [OF d(1)] nr by (auto simp: live_leaf_def rc_root_def)
  have "uuid d \<notin># L" by (rule unlocked_not_held [OF rc_okD(6) [OF D(1)] D(6) inner d(2)])
  then have r: "mamba_ref_count d = 0" using D(2) inner by (simp add: every_node_def snap_locked_def not_in_iff)
  let ?g = "\<lambda>d. d\<lparr>mamba_value := None\<rparr>" and ?live = "\<lambda>d. mamba_value d \<noteq> None"
  obtain m' s2 where f: "free_node_mamba d m s = (m', s2)" by (cases "free_node_mamba d m s")
  note F = free_mamba_spec [OF ok inner v r f]
  let ?d = "?g d"
  have dl: "?d \<in> set (leaf_nodes (htree s2))" unfolding F(5) upd_leaves using d(1) by force
  have "?d \<in> set (leaf_nodes (htree s2))" "ref_count ?d = 0" "mamba_value ?d = None" using dl d(2) by simp_all
  note R = remove_dead_leaf [of ?d L s2, OF _ this]
  have but2: "hc_but (uuid ?d) L s2" using F(1) by simp
  let ?after = "\<lambda>t. s2\<lparr>kv := (kv s2)\<lparr>root_node := t, evictable_size := evictable_size (kv s2) - int (node_len ?d)\<rparr>\<rparr>"
  obtain p1 t where t: "remove_node (page_size (kv s2)) (uuid ?d) (htree s2) = Inr (p1, t)"
    and but: "hc_but p1 L (?after t)" and ev: "h_evicts L (nval ?d) [] s2 (?after t)"
    and pin: "p1 \<in> set (uuids t)" and len: "length (nval ?d) = node_len ?d"
    and hs: "\<And>h. add_mset ?d (mset h) = unlocked_leaves (htree s2) \<Longrightarrow> mset (offer_parent p1 t h) = unlocked_leaves t"
    and inn: "mset (inner_nodes (htree s2)) = add_mset ?d (mset (inner_nodes t))"
    using R [OF but2] by metis
  let ?s3 = "?after t"
  obtain p' out s' where C: "cascade_tombstone_leaves p1 (acc @ nval d) 0 (kv ?s3) = Inr (p', (acc @ nval d) @ out, 0 + length out, kv s')"
      "s' = ?s3\<lparr>kv := kv s'\<rparr>" "hc_ok L s'" "h_evicts L out [] ?s3 s'"
      "\<And>h. mset (offer_parent p1 (htree ?s3) h) = unlocked_leaves (htree ?s3) \<Longrightarrow>
        mset (offer_parent p' (htree s') h) = unlocked_leaves (htree s')"
      "filter_mset ?live (mset (inner_nodes (htree s'))) = filter_mset ?live (mset (inner_nodes (htree ?s3)))"
    using cascade_spec [OF but refl, of "acc @ nval d" 0] pin by fastforce
  let ?s0 = "s\<lparr>kv := (kv s)\<lparr>evictable_size := evictable_size (kv s) - int (node_len d)\<rparr>\<rparr>"
  let ?s2 = "s2\<lparr>kv := (kv s2)\<lparr>evictable_size := evictable_size (kv s2) - int (node_len d)\<rparr>\<rparr>"
  have "free_node_mamba d m ?s0 = (m', ?s2)" using f v by (auto simp: free_node_mamba_def)
  moreover have sw: "(kv s2)\<lparr>evictable_size := x, root_node := t\<rparr> = (kv s2)\<lparr>root_node := t, evictable_size := x\<rparr>" for x
    by simp
  have "cascade_tombstone_leaves p1 (acc @ nval d) 0 ((kv ?s2)\<lparr>root_node := t\<rparr>) =
      Inr (p', acc @ nval d @ out, length out, kv s')"
    using C(1) by (simp add: sw del: rcache.update_convs)
  ultimately have "drop_leaf d acc m s = Inr (acc @ nval d @ out, m @ [v], length (nval d @ out), p', s')"
    using t C(2) F(2) len by (simp add: drop_leaf_def Let_def)
  moreover have "h_evicts L (nval d @ out) [v] s s'"
  proof -
    have "h_evicts L (nval ?d @ out) ([] @ []) s2 s'" by (rule h_evicts_trans [OF ev C(4)])
    then show ?thesis using F(3,4,6,7,8,10)
      by (auto simp: h_evicts_def rc_evicts_def rc_locks_def size_info_def)
  qed
  moreover have "mset (offer_parent p' (htree s') h) = unlocked_leaves (htree s')"
    if h: "add_mset d (mset h) = unlocked_leaves (htree s)" for h
  proof -
    let ?f = "\<lambda>x. if uuid x = uuid d then ?g x else x"
    let ?xs = "filter (\<lambda>d. ref_count d = 0) (leaf_nodes (htree s))"
    have "distinct (map uuid ?xs)" using leaf_uuids_distinct [OF D(6)] by (simp add: distinct_map_filter)
    moreover have "mset ?xs = add_mset d (mset h)" using h by (simp add: unlocked_leaves_def)
    ultimately have "image_mset ?f (mset ?xs) = add_mset ?d (mset h)" by (rule image_upd)
    moreover have "unlocked_leaves (htree s2) = image_mset ?f (mset ?xs)"
    proof -
      have "(\<lambda>x. ref_count (?f x) = 0) = (\<lambda>x. ref_count x = 0)" by auto
      then show ?thesis unfolding unlocked_leaves_def F(5) upd_node_def
        by (simp add: filter_mset_image_mset)
    qed
    ultimately show ?thesis using hs C(5) by simp
  qed
  moreover have "filter_mset ?live (mset (inner_nodes (htree s))) = add_mset d (filter_mset ?live (mset (inner_nodes (htree s'))))"
  proof -
    let ?f = "\<lambda>x. if uuid x = uuid d then ?g x else x"
    obtain M where M: "mset (inner_nodes (htree s)) = add_mset d M" using inner by (metis in_multiset_in_set mset_add)
    have "mset (inner_nodes (htree s2)) = image_mset ?f (mset (inner_nodes (htree s)))"
      unfolding F(5) upd_node_def by (simp add: inner_map_nodes)
    also have "\<dots> = add_mset ?d M" by (rule image_upd [OF inner_distinct [OF D(6)] M])
    finally have "mset (inner_nodes t) = M" using inn by simp
    then show ?thesis using C(6) M v by simp
  qed
  ultimately show ?thesis using C(3) r by (intro that [of "nval d @ out" v p' s']) simp_all
qed

section \<open>The two evictions\<close>

lemma h_offer_parent_eq: "rc_ok L (kv s) \<Longrightarrow> h_offer_parent p s h = offer_parent p (htree s) h"
proof -
  assume ok: "rc_ok L (kv s)"
  note R = rc_okD [OF ok]
  have "p \<noteq> uuid (rdata (htree s))" if "subtree p (htree s) = Some q" "ref_count (rdata q) = 0" for q
  proof
    assume "p = uuid (rdata (htree s))"
    then have "q = htree s" using that(1) by (cases "htree s") auto
    then show False using R(7) that(2) by simp
  qed
  then show ?thesis by (auto simp: h_offer_parent_def offer_parent_def split: option.splits)
qed

lemma evict_full_loop_spec:
  "hc_ok L s \<Longrightarrow> mset heap = unlocked_leaves (htree s) \<Longrightarrow>
   \<exists>out ms s'. evict_full_loop need heap acc m got s = Inr (acc @ out, m @ ms, s') \<and> h_evicts L out ms s s' \<and>
     hc_ok L s' \<and> (need \<le> got + length out \<or> evictable_size (kv s') = 0)"
proof (induction need heap acc m got s rule: evict_full_loop.induct)
  case (1 need heap acc m got s)
  note D = hc_okD [OF 1(3)]
  show ?case
  proof (cases "need \<le> got")
    case True
    then show ?thesis using h_evicts_refl [OF 1(3)] 1(3) by (subst evict_full_loop.simps) auto
  next
    case False
    show ?thesis
    proof (cases "pop_min timestamp heap")
      case None
      then have "\<not> 0 < evictable_size (kv s)" using free_token_leaf [OF D(1)] 1(4) by (auto simp: pop_min_None)
      then have "evictable_size (kv s) = 0" using rc_sizes(1) [OF D(1)] by simp
      then show ?thesis using None False h_evicts_refl [OF 1(3)] 1(3) by (subst evict_full_loop.simps) auto
    next
      case (Some p)
      obtain d heap' where pop: "pop_min timestamp heap = Some (d, heap')" using Some by (cases p) simp
      have h: "add_mset d (mset heap') = unlocked_leaves (htree s)" using list_heap.deq_elems [OF pop] 1(4) by simp
      then have "d \<in># unlocked_leaves (htree s)" by (metis union_single_eq_member)
      then have d: "d \<in> set (leaf_nodes (htree s))" "ref_count d = 0" by (simp_all add: unlocked_leaves_def)
      note R = leaf_removable [OF D(1) d]
      obtain out v p1 s1 where dl: "drop_leaf d acc m s = Inr (acc @ out, m @ [v], length out, p1, s1)"
        and ev: "h_evicts L out [v] s s1" and ok1: "hc_ok L s1"
        and hp: "mset (offer_parent p1 (htree s1) heap') = unlocked_leaves (htree s1)"
        using drop_leaf_spec [OF 1(3) d, of acc m] h by metis
      have go: "\<not> (ref_count d \<noteq> 0 \<or> \<not> leaf_here (uuid d) (htree s) \<or> uuid d = uuid (rdata (htree s)))"
        using d(2) R(2,3) by simp
      have hp': "mset (h_offer_parent p1 s1 heap') = unlocked_leaves (htree s1)"
        using hp h_offer_parent_eq [OF hc_okD(1) [OF ok1]] by simp
      obtain out' ms s' where IH: "evict_full_loop need (h_offer_parent p1 s1 heap') (acc @ out) (m @ [v]) (got + length out) s1 =
           Inr ((acc @ out) @ out', (m @ [v]) @ ms, s')" "h_evicts L out' ms s1 s'" "hc_ok L s'"
           "need \<le> got + length out + length out' \<or> evictable_size (kv s') = 0"
        using 1(2) [OF False pop refl go dl refl refl refl refl ok1 hp'] by blast
      have "evict_full_loop need heap acc m got s = Inr (acc @ out @ out', m @ v # ms, s')"
        using False pop go dl IH(1) by (subst evict_full_loop.simps) simp
      moreover have "h_evicts L (out @ out') (v # ms) s s'" using h_evicts_trans [OF ev IH(2)] by simp
      ultimately show ?thesis using IH(3,4)
        by (intro exI [of _ "out @ out'"] exI [of _ "v # ms"] exI [of _ s']) (simp add: add.assoc)
    qed
  qed
qed

abbreviation free_snap :: "ndata \<Rightarrow> bool" where
  "free_snap d \<equiv> mamba_value d \<noteq> None \<and> mamba_ref_count d = 0"

lemma free_snaps_size: "weigh snap_free t = int (size (filter_mset free_snap (mset (inner_nodes t))))"
proof -
  have "sum_list (map snap_free ds) = int (length (filter free_snap ds))" for ds
    by (induction ds) (auto simp: snap_free_def)
  then show ?thesis by (simp add: weigh_def flip: mset_filter)
qed

lemma evict_mamba_loop_spec:
  "hc_ok L s \<Longrightarrow> mset cands = filter_mset free_snap (mset (inner_nodes (htree s))) \<Longrightarrow>
   \<exists>out ms s'. evict_mamba_loop num cands acc m got s = Inr (acc @ out, m @ ms, s') \<and> h_evicts L out ms s s' \<and>
     hc_ok L s' \<and> length ms = min (num - got) (length cands)"
proof (induction num cands acc m got s rule: evict_mamba_loop.induct)
  case (1 num cands acc m got s)
  note D = hc_okD [OF 1(4)]
  show ?case
  proof (cases "num \<le> got \<or> cands = []")
    case True
    then have "evict_mamba_loop num cands acc m got s = Inr (acc, m, s)" by (subst evict_mamba_loop.simps) auto
    then show ?thesis using h_evicts_refl [OF 1(4)] 1(4) True by auto
  next
    case False
    then obtain d cands' where pop: "pop_min timestamp cands = Some (d, cands')"
      using pop_min_None by (cases "pop_min timestamp cands") auto
    have h: "add_mset d (mset cands') = filter_mset free_snap (mset (inner_nodes (htree s)))"
      using list_heap.deq_elems [OF pop] 1(5) by simp
    then have "d \<in># filter_mset free_snap (mset (inner_nodes (htree s)))" by (metis union_single_eq_member)
    then have inner: "d \<in> set (inner_nodes (htree s))" and fr: "mamba_value d \<noteq> None" "mamba_ref_count d = 0" by simp_all
    obtain v where v: "mamba_value d = Some v" using fr(1) by blast
    have nr: "uuid d \<noteq> uuid (rdata (htree s))" by (rule root_uuid_fresh [OF D(6) inner])
    have skip: "\<not> (mamba_value d = None \<or> mamba_ref_count d \<noteq> 0 \<or> uuid d = uuid (rdata (htree s)))" using fr nr by simp
    have nn: "\<not> num \<le> got" using False by simp
    obtain out s1 where round: "evict_mamba_loop num cands acc m got s = evict_mamba_loop num cands' (acc @ out) (m @ [v]) (got + 1) s1"
      and ev: "h_evicts L out [v] s s1" and ok1: "hc_ok L s1"
      and inv: "mset cands' = filter_mset free_snap (mset (inner_nodes (htree s1)))"
      and IH: "hc_ok L s1 \<Longrightarrow> mset cands' = filter_mset free_snap (mset (inner_nodes (htree s1))) \<Longrightarrow>
         \<exists>out' ms s'. evict_mamba_loop num cands' (acc @ out) (m @ [v]) (got + 1) s1 = Inr ((acc @ out) @ out', (m @ [v]) @ ms, s') \<and>
           h_evicts L out' ms s1 s' \<and> hc_ok L s' \<and> length ms = min (num - (got + 1)) (length cands')"
    proof (cases "leaf_here (uuid d) (htree s) \<and> ref_count d = 0")
      case True
      then obtain q where q: "subtree (uuid d) (htree s) = Some q" "is_leaf q" by (auto simp: leaf_here_def split: option.splits)
      have "rdata q = d" using node_at_inner [OF D(6) inner] q(1) by (simp add: node_at_def)
      then have dl: "d \<in> set (leaf_nodes (htree s))" using subtree_leaf(1) [OF D(6) q] by simp
      obtain out w p1 s1 where dr: "drop_leaf d acc m s = Inr (acc @ out, m @ [w], length out, p1, s1)"
        and ev: "h_evicts L out [w] s s1" and ok1: "hc_ok L s1"
        and sn: "filter_mset (\<lambda>d. mamba_value d \<noteq> None) (mset (inner_nodes (htree s))) =
          add_mset d (filter_mset (\<lambda>d. mamba_value d \<noteq> None) (mset (inner_nodes (htree s1))))"
        using drop_leaf_spec [OF 1(4) dl, of acc m] True by metis
      have w: "w = v"
        using dr v by (auto simp: drop_leaf_def free_node_mamba_def Let_def rbind_Inr_conv split: sum.splits prod.splits)
      have "filter_mset (\<lambda>d. mamba_ref_count d = 0) (filter_mset (\<lambda>d. mamba_value d \<noteq> None) M) = filter_mset free_snap M"
        for M by (simp add: filter_filter_mset conj_commute)
      then have "filter_mset free_snap (mset (inner_nodes (htree s))) = add_mset d (filter_mset free_snap (mset (inner_nodes (htree s1))))"
        using arg_cong [OF sn, of "filter_mset (\<lambda>d. mamba_ref_count d = 0)"] fr(2) by simp
      then have inv: "mset cands' = filter_mset free_snap (mset (inner_nodes (htree s1)))" using h by simp
      have "evict_mamba_loop num cands acc m got s = evict_mamba_loop num cands' (acc @ out) (m @ [v]) (got + 1) s1"
        using nn pop skip True dr w v by (subst evict_mamba_loop.simps) simp
      then show ?thesis
        using that [of out s1] ev ok1 inv w 1(2) [OF nn pop refl skip True dr refl refl refl refl] by blast
    next
      case tomb: False
      obtain m' s1 where f: "free_node_mamba d m s = (m', s1)" by (cases "free_node_mamba d m s")
      note F = free_mamba_spec [OF 1(4) inner v fr(2) f]
      have "uuid d \<notin># L" using D(2) inner fr(2) by (auto simp: every_node_def snap_locked_def not_in_iff)
      then have cnt: "count L (uuid d) = 0" by (simp add: not_in_iff)
      have nl: "x \<notin> set (leaf_nodes (htree s))" if "uuid x = uuid d" for x
      proof
        assume x: "x \<in> set (leaf_nodes (htree s))"
        then have "x \<in> set (inner_nodes (htree s))" using leaf_nodes_in [OF x] nr that by (auto simp: all_nodes_eq)
        then have "x = d" using inner_unique [OF D(6) _ inner] that by blast
        then have "leaf_here (uuid d) (htree s)" "ref_count d = 0"
          using leaf_subtree [OF x D(6)] leaf_ref [OF D(1) x] nr cnt by (auto simp: leaf_here_def is_leaf_def)
        then show False using tomb by simp
      qed
      have ok1: "hc_ok L s1"
        by (rule hc_but_ok [OF F(1)]) (use nl in \<open>auto simp: F(5) upd_leaves split: if_splits\<close>)
      have ev: "h_evicts L [] [v] s s1"
        using F(2-4,6-8,10) hc_okD(1) [OF ok1] by (auto simp: h_evicts_def rc_evicts_def rc_locks_def size_info_def)
      obtain M where M: "mset (inner_nodes (htree s)) = add_mset d M" using inner by (metis in_multiset_in_set mset_add)
      have "mset (inner_nodes (htree s1)) = add_mset (d\<lparr>mamba_value := None\<rparr>) M"
        unfolding F(5) upd_node_def using image_upd [OF inner_distinct [OF D(6)] M, of "\<lambda>d. d\<lparr>mamba_value := None\<rparr>"]
        by (simp add: inner_map_nodes)
      then have inv: "mset cands' = filter_mset free_snap (mset (inner_nodes (htree s1)))" using h M fr by simp
      have "evict_mamba_loop num cands acc m got s = evict_mamba_loop num cands' (acc @ []) (m @ [v]) (got + 1) s1"
        using nn pop skip tomb f F(2) by (subst evict_mamba_loop.simps) auto
      then show ?thesis
        using that [of "[]" s1] ev ok1 inv F(2) 1(3) [OF nn pop refl skip tomb f [symmetric, unfolded F(2)]]
        by auto
    qed
    then obtain out' ms s' where I: "evict_mamba_loop num cands' (acc @ out) (m @ [v]) (got + 1) s1 = Inr ((acc @ out) @ out', (m @ [v]) @ ms, s')"
      "h_evicts L out' ms s1 s'" "hc_ok L s'" "length ms = min (num - (got + 1)) (length cands')" by blast
    have "h_evicts L (out @ out') (v # ms) s s'" using h_evicts_trans [OF ev I(2)] by simp
    moreover have "length (v # ms) = min (num - got) (length cands)" using I(4) pop_min_len [OF pop] nn by simp
    ultimately show ?thesis using round I(1,3)
      by (intro exI [of _ "out @ out'"] exI [of _ "v # ms"] exI [of _ s']) simp
  qed
qed

lemma evict_full_heap: "rc_ok L (kv s) \<Longrightarrow> mset (filter (\<lambda>d. ref_count d = 0) (h_leaves s)) = unlocked_leaves (htree s)"
proof -
  assume ok: "rc_ok L (kv s)"
  note R = rc_okD [OF ok]
  have "uuid d \<noteq> uuid (rdata (htree s))" if "d \<in> set (leaf_nodes (htree s))" "ref_count d = 0" for d
    using root_uuid_fresh [OF R(2) leaf_removable(4) [OF ok that]] .
  then have "filter (\<lambda>d. ref_count d = 0) (h_leaves s) = filter (\<lambda>d. ref_count d = 0) (leaf_nodes (htree s))"
    unfolding h_leaves_def filter_filter by (intro filter_cong) auto
  then show ?thesis by (simp add: unlocked_leaves_def)
qed

lemma snap_nodes_mset: "mset (snap_nodes t) = filter_mset (\<lambda>d. mamba_value d \<noteq> None) (mset (all_nodes t))"
proof (induction t)
  case (RNode d cs)
  have "mset (concat (map (\<lambda>kc. snap_nodes (snd kc)) xs)) =
      filter_mset (\<lambda>d. mamba_value d \<noteq> None) (mset (concat (map (\<lambda>kc. all_nodes (snd kc)) xs)))"
    if "set xs \<subseteq> set cs" for xs
    using that
  proof (induction xs)
    case (Cons kc xs)
    then show ?case using RNode.IH [of kc "snd kc"] by (simp add: snds.simps)
  qed simp
  from this [of cs] have "mset (concat (map (\<lambda>kc. snap_nodes (snd kc)) (rev cs))) =
      filter_mset (\<lambda>d. mamba_value d \<noteq> None) (mset (concat (map (\<lambda>kc. all_nodes (snd kc)) cs)))"
    by (simp add: mset_concat rev_map [symmetric])
  then show ?case by simp
qed

lemma evict_mamba_cands:
  assumes ok: "hc_ok L s"
  shows "mset (filter (\<lambda>d. mamba_ref_count d = 0) (snapshot_nodes s)) = filter_mset free_snap (mset (inner_nodes (htree s)))"
proof -
  note D = hc_okD [OF ok]
  have "mset (filter (\<lambda>d. mamba_ref_count d = 0) (snapshot_nodes s)) =
      filter_mset (\<lambda>d. mamba_ref_count d = 0 \<and> uuid d \<noteq> uuid (rdata (htree s)) \<and> mamba_value d \<noteq> None) (mset (all_nodes (htree s)))"
    by (simp add: snapshot_nodes_def snap_nodes_mset filter_filter_mset conj_ac)
  also have "\<dots> = filter_mset free_snap (mset (inner_nodes (htree s)))"
    using root_uuid_fresh [OF D(6)] by (auto simp: all_nodes_eq intro: filter_mset_cong)
  finally show ?thesis .
qed

text \<open>Locked handles keep their path and their snapshot.\<close>

lemma evict_keeps_locked:
  assumes ok: "hc_ok L s" and ok': "hc_ok L s'" and ev: "h_evicts L out ms s s'" and u: "u \<in># L"
  shows "rc_path u (kv s') = rc_path u (kv s)" and "snap_at s u w \<Longrightarrow> snap_at s' u w"
proof -
  note D = hc_okD [OF ok] and D' = hc_okD [OF ok']
  have un: "u \<in> rc_nodes (kv s')" using rc_okD(5) [OF D'(1)] u by (auto simp: rc_nodes_def)
  then show "rc_path u (kv s') = rc_path u (kv s)" using ev by (simp add: h_evicts_def rc_evicts_def)
  assume sn: "snap_at s u w"
  then obtain d where d: "d \<in> set (inner_nodes (htree s))" "uuid d = u" "mamba_value d = Some w"
    using snap_at_node [OF D(6)] by blast
  have "u \<noteq> uuid (rdata (htree s'))"
    using root_uuid_fresh [OF D(6) d(1)] d(2) ev by (simp add: h_evicts_def rc_evicts_def rc_root_def)
  then obtain e where e: "e \<in> set (inner_nodes (htree s'))" "uuid e = u" using inner_node [of u "htree s'"] un by (auto simp: rc_nodes_def)
  then obtain x where x: "mamba_value e = Some x" using D'(2) u by (auto simp: every_node_def snap_locked_def)
  then have s1: "snap_at s' u x" using snap_at_node [OF D'(6)] e by blast
  then have "snap_at s u x" using ev by (simp add: h_evicts_def)
  then have "x = w" using snap_at_node [OF D(6)] d inner_unique [OF D(6) d(1)] by fastforce
  then show "snap_at s' u w" using s1 by simp
qed

section \<open>Properties\<close>

definition demo_hcache :: hcache where
  "demo_hcache =
     (case rbind (new_hcache 1 0 5) (\<lambda>s.
        rbind (h_insert 6 7 [1, 2, 3] [10, 11, 12] 4 s) (\<lambda>(_, _, s).
        rbind (h_insert 8 9 [1, 2, 5] [10, 11, 13] 5 s) (\<lambda>(_, _, s). Inr s))) of
        Inr s \<Rightarrow> s)"

lemma demo_hcache_ok: "hc_ok {#} demo_hcache"
  by code_simp

text \<open>C12. A match of the hybrid cache resumes at the longest cached prefix that ends at a live
  snapshot: the KV slots it returns are those of that prefix, the snapshot belongs to exactly these
  tokens, no longer prefix of the sequence has a snapshot, and the match changes neither the cached
  content nor the snapshots.\<close>

theorem hybrid_match_resumes:
  assumes "hc_ok L s"
  shows "\<exists>m s'. h_match_prefix tic ids s = Inr (m, s') \<and> hc_ok L s' \<and> rc_content (kv s') = rc_content (kv s) \<and>
     snapshot s' = snapshot s \<and> hm_indices m = take (hm_len m) (rc_content (kv s) ids) \<and>
     length (hm_indices m) = hm_len m \<and>
     (case hm_mamba m of None \<Rightarrow> hm_len m = 0 | Some v \<Rightarrow> snapshot s (take (hm_len m) ids) v) \<and>
     (\<forall>k v. snapshot s k v \<and> prefix k ids \<longrightarrow> hm_mamba m \<noteq> None \<and> length k \<le> hm_len m)"
  using h_match_spec [OF assms, of tic ids] by (auto simp: hm_ok_def rc_same_def)

lemma hybrid_match_resumes_witness:
  "\<exists>m s'. h_match_prefix 20 [1, 2, 3, 9] demo_hcache = Inr (m, s') \<and> hc_ok {#} s' \<and> hm_len m = 3 \<and> hm_mamba m = Some 4"
proof -
  have "case h_match_prefix 20 [1, 2, 3, 9] demo_hcache of Inr (m, _) \<Rightarrow> hm_len m = 3 \<and> hm_mamba m = Some 4 | _ \<Rightarrow> False"
    by code_simp
  with hybrid_match_resumes [OF demo_hcache_ok, of 20 "[1, 2, 3, 9]"] show ?thesis by (elim exE conjE) simp
qed

text \<open>C13. An insertion donates the snapshot to the committed sequence: afterwards the sequence (cut
  at a page boundary) is cached, the donated slot is the snapshot of exactly that sequence, and every
  older snapshot stays. The donation is refused, and the caller keeps the slot, exactly when the
  sequence is empty or has a snapshot already.\<close>

theorem hybrid_insert_donates:
  assumes "hc_ok L s" and "length indices = length input_ids"
    and "ids = take (align_down (length input_ids) (page_size (kv s))) input_ids"
  shows "\<exists>n ex s'. h_insert tic now input_ids indices v s = Inr (n, ex, s') \<and> hc_ok L s' \<and>
     n = length (rc_content (kv s) ids) \<and> length (rc_content (kv s') ids) = length ids \<and>
     (ex \<longleftrightarrow> ids = [] \<or> (\<exists>w. snapshot s ids w)) \<and>
     (\<forall>k w. snapshot s' k w \<longleftrightarrow> snapshot s k w \<or> \<not> ex \<and> k = ids \<and> w = v) \<and>
     snap_slots s' = snap_slots s + (if ex then {#} else {#v#})"
proof -
  let ?il = "align_down (length input_ids) (page_size (kv s))"
  let ?n = "length (rc_content (kv s) ids)" and ?ps = "page_size (kv s)"
  obtain ex s' where I: "h_insert tic now input_ids indices v s = Inr (?n, ex, s')" "hc_ok L s'"
     "rc_inserts ids (drop ?n (take ?il indices)) (kv s) (kv s')" "ex \<longleftrightarrow> ids = [] \<or> (\<exists>w. snapshot s ids w)"
     "\<And>k w. snapshot s' k w \<longleftrightarrow> snapshot s k w \<or> \<not> ex \<and> k = ids \<and> w = v"
     "snap_slots s' = snap_slots s + (if ex then {#} else {#v#})"
    using h_insert_spec [OF assms(1,2) refl assms(3) refl refl] by blast
  have li: "length ids = ?il" using assms(3) by simp
  have "?ps dvd length ids" using li by simp
  then have j: "align_down (fast_compare_key ids ids) ?ps = length ids" by (simp add: align_down_dvd_id)
  have "?n \<le> length ids"
  proof -
    obtain t u m c where w: "walks ?ps tic (node_counter (kv s)) (htree s) ids t u m c"
      using tree_walk_ok [OF hc_okD(1) [OF assms(1)]] by metis
    show ?thesis using walks_found(3) [OF hc_okD(1) [OF assms(1)] w] walks_len [OF w] by simp
  qed
  moreover have "rc_content (kv s') ids = extend_match ?ps (rc_content (kv s) ids) ids
      (rc_content (kv s) ids @ drop ?n (take ?il indices)) ids"
    using I(3) by (simp add: rc_inserts_def)
  moreover have "length (take ?il indices) = length ids" using li assms(2) by simp
  ultimately have "length (rc_content (kv s') ids) = length ids"
    unfolding extend_match_def Let_def j by (simp split: if_splits)
  then show ?thesis using I by blast
qed

lemma hybrid_insert_donates_witness:
  "\<exists>n ex s'. h_insert 20 21 [1, 2, 3, 9] [10, 11, 12, 14] 6 demo_hcache = Inr (n, ex, s') \<and> snapshot s' [1, 2, 3, 9] 6"
proof -
  have ps: "page_size (kv demo_hcache) = 1" by code_simp
  have "case h_insert 20 21 [1, 2, 3, 9] [10, 11, 12, 14] 6 demo_hcache of Inr (_, ex, _) \<Rightarrow> \<not> ex | _ \<Rightarrow> False"
    by code_simp
  with hybrid_insert_donates [OF demo_hcache_ok, of "[10, 11, 12, 14]" "[1, 2, 3, 9]" "[1, 2, 3, 9]" 20 21 6] ps
  show ?thesis by (auto simp: align_down_def)
qed

text \<open>C14. Evicting KV tokens from the hybrid cache frees at least what was asked for or leaves nothing
  evictable; every KV slot and every snapshot slot of the cache is afterwards in the cache or in
  exactly one of the two lists given back, and locked handles keep their KV path and their
  snapshot.\<close>

theorem hybrid_evict_full_conserves:
  assumes "hc_ok L s"
  shows "\<exists>out ms s'. evict_full need s = Inr (out, ms, s') \<and> hc_ok L s' \<and>
     rc_slots (kv s) = rc_slots (kv s') + mset out \<and> snap_slots s = snap_slots s' + mset ms \<and>
     (need \<le> length out \<or> evictable_size (kv s') = 0) \<and>
     (\<forall>u \<in># L. rc_path u (kv s') = rc_path u (kv s) \<and> (\<forall>w. snap_at s u w \<longrightarrow> snap_at s' u w))"
proof -
  obtain out ms s' where E: "evict_full need s = Inr (out, ms, s')" "h_evicts L out ms s s'" "hc_ok L s'"
    "need \<le> length out \<or> evictable_size (kv s') = 0"
    using evict_full_loop_spec [OF assms evict_full_heap [OF hc_okD(1) [OF assms]], of need "[]" "[]" 0]
    by (auto simp: evict_full_def)
  then show ?thesis using evict_keeps_locked [OF assms E(3,2)]
    by (auto simp: h_evicts_def rc_evicts_def intro!: exI [of _ out] exI [of _ ms] exI [of _ s'])
qed

lemma hybrid_evict_full_conserves_witness:
  "\<exists>out ms s'. evict_full 1 demo_hcache = Inr (out, ms, s') \<and> snap_slots demo_hcache = snap_slots s' + mset ms"
  using hybrid_evict_full_conserves [OF demo_hcache_ok, of 1] by blast

text \<open>C5. Evicting snapshots frees exactly as many as asked for, as far as there are unlocked ones,
  whether their nodes are leaves (which leave the tree, with the nodes that then carry nothing) or
  inner nodes (which stay as tombstones); slots are conserved in both currencies and locked handles
  keep their KV path and their snapshot.\<close>

theorem hybrid_evict_mamba_conserves:
  assumes "hc_ok L s"
  shows "\<exists>out ms s'. evict_mamba num s = Inr (out, ms, s') \<and> hc_ok L s' \<and>
     rc_slots (kv s) = rc_slots (kv s') + mset out \<and> snap_slots s = snap_slots s' + mset ms \<and>
     length ms = min num (nat (mamba_evictable s)) \<and>
     (\<forall>u \<in># L. rc_path u (kv s') = rc_path u (kv s) \<and> (\<forall>w. snap_at s u w \<longrightarrow> snap_at s' u w))"
proof -
  let ?cands = "filter (\<lambda>d. mamba_ref_count d = 0) (snapshot_nodes s)"
  note C = evict_mamba_cands [OF assms]
  have "mamba_evictable s = int (length ?cands)"
    using hc_okD(4) [OF assms] free_snaps_size [of "htree s"] C by (metis size_mset)
  moreover obtain out ms s' where E: "evict_mamba num s = Inr (out, ms, s')" "h_evicts L out ms s s'" "hc_ok L s'"
    "length ms = min num (length ?cands)"
    using evict_mamba_loop_spec [OF assms C, of num "[]" "[]" 0] by (auto simp: evict_mamba_def Let_def)
  ultimately show ?thesis using evict_keeps_locked [OF assms E(3,2)]
    by (auto simp: h_evicts_def rc_evicts_def intro!: exI [of _ out] exI [of _ ms] exI [of _ s'])
qed

lemma hybrid_evict_mamba_conserves_witness:
  "\<exists>out ms s'. evict_mamba 1 demo_hcache = Inr (out, ms, s') \<and> length ms = 1"
proof -
  have "mamba_evictable demo_hcache = 2" by code_simp
  with hybrid_evict_mamba_conserves [OF demo_hcache_ok, of 1] show ?thesis by (auto simp: min_def)
qed

end
