(* ===== verification/Messages.thy ===== *)
theory Messages
  imports Core
begin

text \<open>
  The messages of the scheduler (\<open>message/backend.py\<close>, \<open>message/tokenizer.py\<close>) as data: what the
  tokenizer workers send to it, and what it sends back. Embeddings of images are their presence.
\<close>

section \<open>Decimal numbers in texts\<close>

function dec :: "nat \<Rightarrow> string" where
  "dec n = (if n < 10 then [char_of (48 + n)] else dec (n div 10) @ [char_of (48 + n mod 10)])"
  by pat_completeness auto
termination by (relation "measure id") auto

declare dec.simps [simp del]

section \<open>To the scheduler\<close>

record user_msg =
  um_uid :: nat
  um_input_ids :: "int list"
  um_sampling :: sampling_params
  um_mm_embeds :: bool

record rebuild_msg =
  rb_request_id :: string
  rb_moe_cache_size :: "int option"
  rb_num_pages :: "int option"
  rb_num_mamba_slots :: "int option"
  rb_num_swa_pages :: "int option"
  rb_mode :: string

datatype backend_msg =
    BatchBackendMsg "backend_msg list"
  | ExitMsg
  | UserMsg user_msg
  | AbortBackendMsg nat
  | CacheRebuildBackendMsg rebuild_msg

section \<open>From the scheduler\<close>

record usage =
  kv_used_pages :: int
  kv_total_pages :: int
  mamba_used_slots :: int
  mamba_total_slots :: int
  swa_used_tokens :: int
  swa_total_tokens :: int

definition no_usage :: usage where
  "no_usage = \<lparr>kv_used_pages = 0, kv_total_pages = 0, mamba_used_slots = 0, mamba_total_slots = 0,
     swa_used_tokens = 0, swa_total_tokens = 0\<rparr>"

record detokenize_msg =
  dm_uid :: nat
  next_token :: int
  dm_finished :: bool
  finish_reason :: "string option"
  matched_stop :: "string option"
  dm_stop_strs :: "string list option"
  dm_usage :: usage
  gpu_mem_bytes :: int

record prompt_admitted_msg =
  pa_uid :: nat
  pa_prompt_tokens :: nat
  pa_cached_tokens :: nat

record error_reply_msg =
  er_uid :: nat
  er_error :: string
  er_code :: "string option"
  er_usage :: usage

record geometry =
  g_num_pages :: int
  g_moe_cache_size :: "int option"
  g_num_mamba_slots :: "int option"
  g_num_swa_pages :: "int option"

record rebuild_result_msg =
  rr_request_id :: string
  rr_status :: string
  rr_moe_cache_size :: int
  rr_num_pages :: int
  rr_mamba_slots :: int
  rr_num_swa_pages :: int
  rr_error :: "string option"

datatype reply =
    DetokenizeMsg detokenize_msg
  | PromptAdmittedMsg prompt_admitted_msg
  | ErrorReplyMsg error_reply_msg
  | CacheRebuildResultMsg rebuild_result_msg

text \<open>The request a reply is about, and whether it ends the stream of replies of that request.\<close>

fun reply_uid :: "reply \<Rightarrow> nat option" where
  "reply_uid (DetokenizeMsg d) = Some (dm_uid d)"
| "reply_uid (PromptAdmittedMsg p) = Some (pa_uid p)"
| "reply_uid (ErrorReplyMsg e) = Some (er_uid e)"
| "reply_uid (CacheRebuildResultMsg r) = None"

fun is_terminal :: "reply \<Rightarrow> bool" where
  "is_terminal (DetokenizeMsg d) \<longleftrightarrow> dm_finished d"
| "is_terminal (ErrorReplyMsg e) \<longleftrightarrow> True"
| "is_terminal _ \<longleftrightarrow> False"

end
