(* ===== verification/Py_Text.thy ===== *)
theory Py_Text
  imports Prelude "HOL-Library.Sublist"
begin

text \<open>
  Python strings as lists of code points, with the methods the parsers of the code use: searching,
  replacing, stripping and splitting, and the longest suffix of a text that a marker may continue.
\<close>

type_synonym utext = "nat list"

text \<open>An ASCII literal.\<close>

definition asc :: "string \<Rightarrow> utext" where
  "asc s = map of_char s"

section \<open>Searching\<close>

text \<open>\<open>text.find(sub)\<close>\<close>

definition find_sub :: "utext \<Rightarrow> utext \<Rightarrow> nat option" where
  "find_sub sub t = find (\<lambda>i. prefix sub (drop i t)) [0..<Suc (length t)]"

text \<open>\<open>text.find(sub, start)\<close>\<close>

definition find_from :: "utext \<Rightarrow> nat \<Rightarrow> utext \<Rightarrow> nat option" where
  "find_from sub i t = (if i \<le> length t then map_option ((+) i) (find_sub sub (drop i t)) else None)"

definition contains :: "utext \<Rightarrow> utext \<Rightarrow> bool" where
  "contains sub t \<longleftrightarrow> find_sub sub t \<noteq> None"

lemma find_sub_Some: "find_sub sub t = Some c \<Longrightarrow> prefix sub (drop c t) \<and> c \<le> length t"
  by (auto simp: find_sub_def find_Some_iff simp del: upt_Suc)

lemma find_sub_None: "find_sub sub t = None \<Longrightarrow> i \<le> length t \<Longrightarrow> \<not> prefix sub (drop i t)"
  by (auto simp: find_sub_def find_None_iff simp del: upt_Suc)

lemma find_sub_first: "find_sub sub t = Some c \<Longrightarrow> i < c \<Longrightarrow> \<not> prefix sub (drop i t)"
  by (auto simp: find_sub_def find_Some_iff simp del: upt_Suc)

lemma find_sub_split: "find_sub sub t = Some c \<Longrightarrow> t = take c t @ sub @ drop (c + length sub) t"
  using find_sub_Some [of sub t c] by (auto simp: prefix_def) (metis append_take_drop_id drop_drop append_eq_conv_conj add.commute)

lemma contains_iff: "contains sub t \<longleftrightarrow> sublist sub t"
proof
  assume "contains sub t"
  then obtain c where "find_sub sub t = Some c" by (auto simp: contains_def)
  from find_sub_split [OF this] show "sublist sub t" by (metis sublist_appendI)
next
  assume "sublist sub t"
  then obtain a b where t: "t = a @ sub @ b" by (auto simp: sublist_def)
  then have "prefix sub (drop (length a) t)" "length a \<le> length t" by simp_all
  then show "contains sub t" using find_sub_None [of sub t "length a"] by (auto simp: contains_def)
qed

text \<open>The first occurrence, as a decomposition of the text.\<close>

lemma find_sub_eqI:
  assumes "t = a @ sub @ b" and "\<And>i. i < length a \<Longrightarrow> \<not> prefix sub (drop i t)"
  shows "find_sub sub t = Some (length a)"
proof -
  have "prefix sub (drop (length a) t)" "length a \<le> length t" using assms(1) by simp_all
  then obtain c where c: "find_sub sub t = Some c" using find_sub_None [of sub t "length a"] by (cases "find_sub sub t") auto
  have "\<not> c < length a" using assms(2) find_sub_Some [OF c] by auto
  moreover have "\<not> length a < c" using find_sub_first [OF c, of "length a"] \<open>prefix sub (drop (length a) t)\<close> by auto
  ultimately show ?thesis using c by simp
qed

text \<open>The search from left to right, for evaluation.\<close>

lemma find_sub_code [code]:
  "find_sub sub [] = (if sub = [] then Some 0 else None)"
  "find_sub sub (c # cs) = (if prefix sub (c # cs) then Some 0 else map_option Suc (find_sub sub cs))"
proof -
  show "find_sub sub [] = (if sub = [] then Some 0 else None)" by (simp add: find_sub_def)
  show "find_sub sub (c # cs) = (if prefix sub (c # cs) then Some 0 else map_option Suc (find_sub sub cs))"
  proof (cases "prefix sub (c # cs)")
    case True
    then show ?thesis using find_sub_eqI [of "c # cs" "[]" sub] by (auto simp: prefix_def)
  next
    case no: False
    show ?thesis
    proof (cases "find_sub sub cs")
      case None
      have "find_sub sub (c # cs) = None"
      proof (rule ccontr)
        assume "find_sub sub (c # cs) \<noteq> None"
        then obtain i where i: "find_sub sub (c # cs) = Some i" by auto
        have "i \<noteq> 0" using find_sub_Some [OF i] no by (cases i) auto
        then show False using find_sub_Some [OF i] find_sub_None [OF None, of "i - 1"] by (cases i) auto
      qed
      then show ?thesis using None no by simp
    next
      case (Some d)
      have "find_sub sub (c # cs) = Some (length (c # take d cs))"
      proof (rule find_sub_eqI)
        show "c # cs = (c # take d cs) @ sub @ drop (d + length sub) cs" using find_sub_split [OF Some] by simp
        fix i assume "i < length (c # take d cs)"
        then show "\<not> prefix sub (drop i (c # cs))" using no find_sub_first [OF Some, of "i - 1"] by (cases i) auto
      qed
      then show ?thesis using Some no find_sub_Some [OF Some] by simp
    qed
  qed
qed

lemma find_from_ge: "find_from sub i t = Some c \<Longrightarrow> i \<le> c \<and> c + length sub \<le> length t"
  by (auto simp: find_from_def split: if_splits dest!: find_sub_Some prefix_length_le)

section \<open>Replacing, stripping, splitting\<close>

text \<open>\<open>text.replace(old, "")\<close> and \<open>text.replace(old, "", 1)\<close>\<close>

function remove_all :: "utext \<Rightarrow> utext \<Rightarrow> utext" where
  "remove_all old t =
     (case t of
        [] \<Rightarrow> []
      | c # cs \<Rightarrow> if old \<noteq> [] \<and> prefix old t then remove_all old (drop (length old) t) else c # remove_all old cs)"
  by pat_completeness auto
termination by (relation "measure (\<lambda>(old, t). length t)") auto

declare remove_all.simps [simp del]

definition remove_first :: "utext \<Rightarrow> utext \<Rightarrow> utext" where
  "remove_first old t = (case find_sub old t of None \<Rightarrow> t | Some i \<Rightarrow> take i t @ drop (i + length old) t)"

text \<open>\<open>str.isspace\<close> of one character\<close>

definition is_space :: "nat \<Rightarrow> bool" where
  "is_space c \<longleftrightarrow> (9 \<le> c \<and> c \<le> 13) \<or> (28 \<le> c \<and> c \<le> 32) \<or> c = 0x85 \<or> c = 0xA0 \<or> c = 0x1680 \<or>
     (0x2000 \<le> c \<and> c \<le> 0x200A) \<or> c = 0x2028 \<or> c = 0x2029 \<or> c = 0x202F \<or> c = 0x205F \<or> c = 0x3000"

definition lstrip :: "utext \<Rightarrow> utext" where
  "lstrip t = dropWhile is_space t"

definition rstrip :: "utext \<Rightarrow> utext" where
  "rstrip t = rev (dropWhile is_space (rev t))"

definition strip :: "utext \<Rightarrow> utext" where
  "strip t = lstrip (rstrip t)"

lemma rstrip_split: "t = rstrip t @ rev (takeWhile is_space (rev t))"
  unfolding rstrip_def by (metis rev_append rev_rev_ident takeWhile_dropWhile_id)

text \<open>\<open>text.partition(sep)\<close>, which also serves \<open>split(sep, 1)\<close>\<close>

definition partition :: "utext \<Rightarrow> utext \<Rightarrow> utext \<times> bool \<times> utext" where
  "partition sep t =
     (case find_sub sep t of None \<Rightarrow> (t, False, []) | Some i \<Rightarrow> (take i t, True, drop (i + length sep) t))"

text \<open>The first word of \<open>text.split()\<close>\<close>

definition first_word :: "utext \<Rightarrow> utext" where
  "first_word t = takeWhile (\<lambda>c. \<not> is_space c) (lstrip t)"

text \<open>\<open>text[-n:]\<close> and \<open>text[:-n]\<close> for a positive \<open>n\<close>\<close>

definition last_n :: "nat \<Rightarrow> 'a list \<Rightarrow> 'a list" where
  "last_n n t = drop (length t - n) t"

definition but_last_n :: "nat \<Rightarrow> 'a list \<Rightarrow> 'a list" where
  "but_last_n n t = take (length t - n) t"

lemma but_last_last [simp]: "but_last_n n t @ last_n n t = t"
  by (simp add: but_last_n_def last_n_def)

section \<open>The longest suffix a marker may continue\<close>

definition hold_marker :: "utext \<Rightarrow> utext \<Rightarrow> nat \<Rightarrow> nat" where
  "hold_marker t tok best =
     (case find (\<lambda>k. suffix (take k tok) t) (rev [Suc best..<Suc (min (length tok - 1) (length t))]) of
        Some k \<Rightarrow> k | None \<Rightarrow> best)"

definition longest_hold :: "utext \<Rightarrow> utext list \<Rightarrow> nat" where
  "longest_hold t toks = fold (hold_marker t) toks 0"

lemma find_mem: "find P xs = Some x \<Longrightarrow> x \<in> set xs \<and> P x"
  by (auto simp: find_Some_iff)

lemma find_greatest:
  "find P xs = Some k \<Longrightarrow> sorted_wrt (>) xs \<Longrightarrow> x \<in> set xs \<Longrightarrow> P x \<Longrightarrow> x \<le> (k :: nat)"
  by (induction xs) (auto split: if_splits)

lemma hold_marker_cases:
  "hold_marker t tok best = best \<or>
   best < hold_marker t tok best \<and> hold_marker t tok best \<le> min (length tok - 1) (length t) \<and>
   suffix (take (hold_marker t tok best) tok) t"
  unfolding hold_marker_def
  by (cases "find (\<lambda>k. suffix (take k tok) t) (rev [Suc best..<Suc (min (length tok - 1) (length t))])")
    (auto dest!: find_mem simp del: upt_Suc)

lemma hold_marker_ge: "best \<le> hold_marker t tok best"
  using hold_marker_cases [of t tok best] by linarith

lemma hold_marker_le: "best \<le> length t \<Longrightarrow> hold_marker t tok best \<le> length t"
  using hold_marker_cases [of t tok best] by linarith

lemma hold_marker_bound: "hold_marker t tok best \<le> max best (length tok - 1)"
  using hold_marker_cases [of t tok best] by linarith

lemma hold_marker_covers:
  assumes "strict_prefix s tok" and "suffix s t"
  shows "length s \<le> hold_marker t tok best"
proof (cases "length s \<le> best")
  case True
  then show ?thesis using hold_marker_ge [of best t tok] by simp
next
  case False
  let ?P = "\<lambda>k. suffix (take k tok) t" and ?ks = "rev [Suc best..<Suc (min (length tok - 1) (length t))]"
  have s: "take (length s) tok = s" "length s < length tok"
    using assms(1) by (auto simp: strict_prefix_def prefix_def)
  have "length s \<le> length t" using assms(2) by (rule suffix_length_le)
  then have mem: "length s \<in> set ?ks" using s False by auto
  have "?P (length s)" using s assms(2) by simp
  then have "find ?P ?ks \<noteq> None" unfolding find_None_iff using mem by blast
  then obtain k where k: "find ?P ?ks = Some k" by blast
  moreover have "sorted_wrt (>) ?ks" by (simp add: sorted_wrt_rev del: upt_Suc)
  ultimately have "length s \<le> k" using mem \<open>?P (length s)\<close> by (rule find_greatest)
  then show ?thesis using k by (simp add: hold_marker_def)
qed

lemma longest_hold_le: "longest_hold t toks \<le> length t"
proof -
  have "fold (hold_marker t) toks n \<le> length t" if "n \<le> length t" for n
    using that by (induction toks arbitrary: n) (auto intro: hold_marker_le)
  then show ?thesis by (simp add: longest_hold_def)
qed

lemma longest_hold_covers:
  assumes "tok \<in> set toks" and "strict_prefix s tok" and "suffix s t"
  shows "length s \<le> longest_hold t toks"
proof -
  have ge: "n \<le> fold (hold_marker t) ts n" for ts n
    by (induction ts arbitrary: n) (auto intro: order_trans [OF hold_marker_ge])
  have "length s \<le> fold (hold_marker t) toks n" for n using assms(1)
  proof (induction toks arbitrary: n)
    case (Cons a toks)
    show ?case
    proof (cases "tok = a")
      case True
      then have "length s \<le> hold_marker t a n" using hold_marker_covers [OF assms(2,3)] by simp
      also have "\<dots> \<le> fold (hold_marker t) toks (hold_marker t a n)" by (rule ge)
      finally show ?thesis by simp
    qed (use Cons in simp)
  qed simp
  then show ?thesis by (simp add: longest_hold_def)
qed

lemma longest_hold_bound: "(\<And>tok. tok \<in> set toks \<Longrightarrow> length tok \<le> Suc n) \<Longrightarrow> longest_hold t toks \<le> n"
proof -
  assume short: "\<And>tok. tok \<in> set toks \<Longrightarrow> length tok \<le> Suc n"
  have "fold (hold_marker t) toks m \<le> n" if "m \<le> n" "\<And>tok. tok \<in> set toks \<Longrightarrow> length tok \<le> Suc n" for m
    using that
  proof (induction toks arbitrary: m)
    case (Cons a toks)
    have "hold_marker t a m \<le> n" using hold_marker_bound [of t a m] Cons.prems(1) Cons.prems(2) [of a] by simp
    then show ?case using Cons by simp
  qed simp
  then show ?thesis using short by (simp add: longest_hold_def)
qed

end
