(* ===== verification/Scheduler.thy ===== *)
theory Scheduler
  imports Prefill Messages Py_Text
begin

text \<open>
  \<open>Scheduler\<close> (\<open>scheduler/scheduler.py\<close>): the messages, the scheduling of a batch, its forward and
  the drain of the previous one. A request is an object that the batch in flight, the running set
  and the pending list share, so that the requests live in a store \<open>objs\<close> and the rest of the state
  holds their numbers. The cache manager is behind the operations \<open>sched_ops\<close>; the engine is the
  function that gives the sampled tokens of a batch.
\<close>

section \<open>State\<close>

record ('m, 'h) sched_ops =
  so_adm :: "('m, 'h) mgr_ops"
  so_cache_req :: "'h req \<Rightarrow> bool \<Rightarrow> 'm \<Rightarrow> ('h req \<times> 'm) result"
  so_allocate :: "'h req list \<Rightarrow> 'm \<Rightarrow> 'm result"
  so_decode_free :: "'h req list \<Rightarrow> int \<Rightarrow> 'm \<Rightarrow> ('h req list \<times> 'm) result"
  so_extend_free :: "'h req list \<Rightarrow> 'm \<Rightarrow> ('h req list \<times> 'm) result"
  so_enter_lazy :: "'m \<Rightarrow> 'm"
  so_exit_lazy :: "'m \<Rightarrow> 'm"
  so_anchor :: "'h req list \<Rightarrow> 'm \<Rightarrow> ('h req list \<times> 'm) result"
  so_copy_state :: "nat \<Rightarrow> nat \<Rightarrow> 'm \<Rightarrow> 'm result"
  so_has_states :: "'m \<Rightarrow> bool"
  so_kv_usage :: "'m \<Rightarrow> int \<times> int"
  so_mamba_usage :: "'m \<Rightarrow> (int \<times> int) option"
  so_swa_usage :: "'m \<Rightarrow> (int \<times> int) option"
  so_check :: "'m \<Rightarrow> unit result"
  so_rebuild :: "nat \<Rightarrow> slot list list \<Rightarrow> 'm \<Rightarrow> 'm"
  so_supports_rebuild :: "'m \<Rightarrow> bool"
  so_chunk_budget :: "'m \<Rightarrow> int option"
  so_geometry :: "'m \<Rightarrow> geometry"

record sched_cfg =
  max_seq_len :: int
  eos_token_ids :: "int list"
  toolcall_anchor_id :: "int option"
  tp_size :: nat
  max_extend_tokens :: int
  tok_decode :: "int list \<Rightarrow> utext"
  gpu_mem :: int
  py_repr :: "string \<Rightarrow> string"

text \<open>\<open>tok_decode\<close> is the tokenizer's decoder, \<open>gpu_mem\<close> the reserved device memory, \<open>py_repr\<close> the
  printed form of a string.\<close>

text \<open>A batch in flight: the objects of its requests, its phase and the sampled tokens.\<close>

record flight =
  fl_objs :: "nat list"
  fl_phase :: phase
  fl_tokens :: "int list"

record ('m, 'h) sched =
  objs :: "'h req list"
  sc_mgr :: 'm
  sc_tabs :: tmgr
  sc_page_size :: nat
  running :: "nat list"
  pending :: "('h pending_req \<times> nat option) list"
  finished_reqs :: "nat list"
  pending_abort_acks :: "nat list"
  abort_tombstones :: "nat list"
  forward_iter :: nat
  last_flight :: "flight option"
  pending_rebuild :: "rebuild_msg option"
  prefill_budget :: int
  outbox :: "reply list"

definition chunk_cap_budget :: "sched_cfg \<Rightarrow> int option \<Rightarrow> int" where
  "chunk_cap_budget cfg cap =
     (case cap of Some c \<Rightarrow> if c \<noteq> 0 then min (max_extend_tokens cfg) c else max_extend_tokens cfg
      | None \<Rightarrow> max_extend_tokens cfg)"

definition new_sched :: "('m, 'h) sched_ops \<Rightarrow> sched_cfg \<Rightarrow> nat \<Rightarrow> tmgr \<Rightarrow> 'm \<Rightarrow> ('m, 'h) sched" where
  "new_sched ops cfg ps t m =
     \<lparr>objs = [], sc_mgr = m, sc_tabs = t, sc_page_size = ps, running = [], pending = [], finished_reqs = [],
      pending_abort_acks = [], abort_tombstones = [], forward_iter = 0, last_flight = None,
      pending_rebuild = None, prefill_budget = chunk_cap_budget cfg (so_chunk_budget ops m), outbox = []\<rparr>"

definition add_to_set :: "'a \<Rightarrow> 'a list \<Rightarrow> 'a list" where
  "add_to_set x xs = (if x \<in> set xs then xs else xs @ [x])"

definition set_obj :: "nat \<Rightarrow> 'h req \<Rightarrow> ('m, 'h) sched \<Rightarrow> ('m, 'h) sched" where
  "set_obj k r s = s\<lparr>objs := (objs s)[k := r]\<rparr>"

definition send_result :: "reply list \<Rightarrow> ('m, 'h) sched \<Rightarrow> ('m, 'h) sched" where
  "send_result rs s = s\<lparr>outbox := outbox s @ rs\<rparr>"

definition prefill_runnable :: "('m, 'h) sched \<Rightarrow> bool" where
  "prefill_runnable s \<longleftrightarrow> pending s \<noteq> []"

definition decode_runnable :: "('m, 'h) sched \<Rightarrow> bool" where
  "decode_runnable s \<longleftrightarrow> running s \<noteq> []"

section \<open>Pool usage\<close>

definition mamba_slot_usage :: "nat \<Rightarrow> int \<Rightarrow> int \<times> int" where
  "mamba_slot_usage num_slots available = (int num_slots - 1 - available, int num_slots - 1)"

definition swa_token_usage :: "nat \<Rightarrow> int \<Rightarrow> int \<times> int" where
  "swa_token_usage num_tokens available = (int num_tokens - 1 - available, int num_tokens - 1)"

definition usage_now :: "('m, 'h) sched_ops \<Rightarrow> ('m, 'h) sched \<Rightarrow> usage" where
  "usage_now ops s =
     (let (used, tot) = so_kv_usage ops (sc_mgr s);
          (mu, mt) = (case so_mamba_usage ops (sc_mgr s) of None \<Rightarrow> (0, 0) | Some p \<Rightarrow> p);
          (su, st) = (case so_swa_usage ops (sc_mgr s) of None \<Rightarrow> (0, 0) | Some p \<Rightarrow> p) in
      \<lparr>kv_used_pages = used, kv_total_pages = tot, mamba_used_slots = mu, mamba_total_slots = mt,
       swa_used_tokens = su, swa_total_tokens = st\<rparr>)"

section \<open>Freeing a request\<close>

text \<open>\<open>_free_req_resources\<close>: the row number -1 marks a request that was freed.\<close>

definition free_req_resources :: "('m, 'h) sched_ops \<Rightarrow> nat \<Rightarrow> ('m, 'h) sched \<Rightarrow> ('m, 'h) sched result" where
  "free_req_resources ops k s =
     (if table_idx (objs s ! k) = - 1 then Inr s
      else rbind (so_cache_req ops (objs s ! k) True (sc_mgr s)) (\<lambda>(r, m).
        Inr (set_obj k (r\<lparr>table_idx := - 1\<rparr>)
               (s\<lparr>sc_mgr := m, sc_tabs := tm_free (nat (table_idx r)) (sc_tabs s)\<rparr>))))"

section \<open>Messages\<close>

definition max_tombstones :: nat where
  "max_tombstones = 65536"

text \<open>Setting a key of a dict keeps its place; \<open>pop(next(iter(...)))\<close> drops the oldest.\<close>

definition add_tombstone :: "nat \<Rightarrow> nat list \<Rightarrow> nat list" where
  "add_tombstone u ts = (let ts' = add_to_set u ts in drop (length ts' - max_tombstones) ts')"

definition too_long_error :: "nat \<Rightarrow> nat \<Rightarrow> string" where
  "too_long_error input_len max_len =
     ''prompt is too long: '' @ dec input_len @ '' tokens > '' @ dec max_len @
     '' maximum (prompt + generation); shorten the prompt or increase the KV cache budget''"

definition process_user :: "sched_cfg \<Rightarrow> user_msg \<Rightarrow> ('m, 'h) sched \<Rightarrow> ('m, 'h) sched" where
  "process_user cfg msg s =
     (if um_uid msg \<in> set (abort_tombstones s)
      then s\<lparr>abort_tombstones := remove1 (um_uid msg) (abort_tombstones s)\<rparr>
      else
        let input_len = length (um_input_ids msg); max_output_len = max_seq_len cfg - int input_len in
        if max_output_len \<le> 0 then
          send_result [ErrorReplyMsg \<lparr>er_uid = um_uid msg, er_error = too_long_error input_len (nat (max_seq_len cfg)),
                         er_code = Some ''context_length_exceeded'', er_usage = no_usage\<rparr>] s
        else
          let sp = um_sampling msg;
              sp' = (if max_output_len < int (max_tokens sp) then sp\<lparr>max_tokens := nat max_output_len\<rparr> else sp) in
          s\<lparr>pending := pending s @ [(\<lparr>p_uid = um_uid msg, p_input_ids = um_input_ids msg, p_sampling = sp',
                                    p_chunked_req = None, p_mm_embeds = um_mm_embeds msg\<rparr>, None)]\<rparr>)"

fun abort_pending :: "nat \<Rightarrow> ('p pending_req \<times> nat option) list \<Rightarrow> nat option \<times> ('p pending_req \<times> nat option) list" where
  "abort_pending u [] = (None, [])"
| "abort_pending u ((p, link) # ps) =
     (if p_uid p = u then (link, ps) else (let (k, ps') = abort_pending u ps in (k, (p, link) # ps')))"

definition abort_running :: "nat \<Rightarrow> ('m, 'h) sched \<Rightarrow> nat option \<times> ('m, 'h) sched" where
  "abort_running u s =
     (case find (\<lambda>k. uid (objs s ! k) = u) (running s) of
        None \<Rightarrow> (None, s)
      | Some k \<Rightarrow> (Some k, s\<lparr>running := remove1 k (running s)\<rparr>))"

definition in_flight :: "nat \<Rightarrow> ('m, 'h) sched \<Rightarrow> bool" where
  "in_flight k s = (case last_flight s of None \<Rightarrow> False | Some f \<Rightarrow> k \<in> set (fl_objs f))"

definition process_abort :: "('m, 'h) sched_ops \<Rightarrow> nat \<Rightarrow> ('m, 'h) sched \<Rightarrow> ('m, 'h) sched result" where
  "process_abort ops u s =
     (let s1 = s\<lparr>abort_tombstones := add_tombstone u (abort_tombstones s)\<rparr>;
          (k1, ps) = abort_pending u (pending s1);
          s2 = s1\<lparr>pending := ps\<rparr>;
          (k2, s3) = (case k1 of Some k \<Rightarrow> (Some k, s2) | None \<Rightarrow> abort_running u s2) in
      rbind (case k2 of
               None \<Rightarrow> Inr s3
             | Some k \<Rightarrow>
                 if in_flight k s3 then Inr (set_obj k ((objs s3 ! k)\<lparr>aborted := True\<rparr>) s3)
                 else free_req_resources ops k s3)
        (\<lambda>s4. Inr (s4\<lparr>pending_abort_acks := add_to_set u (pending_abort_acks s4)\<rparr>)))"

definition rebuild_reply :: "string \<Rightarrow> string \<Rightarrow> string option \<Rightarrow> geometry \<Rightarrow> reply" where
  "rebuild_reply request_id status err geo =
     (let or0 = (\<lambda>x. case x of None \<Rightarrow> 0 | Some n \<Rightarrow> n) in
      CacheRebuildResultMsg \<lparr>rr_request_id = request_id, rr_status = status,
        rr_moe_cache_size = or0 (g_moe_cache_size geo), rr_num_pages = g_num_pages geo,
        rr_mamba_slots = or0 (g_num_mamba_slots geo), rr_num_swa_pages = or0 (g_num_swa_pages geo), rr_error = err\<rparr>)"

text \<open>Whether a rebuild request is answered at once, with which status and error.\<close>

definition rebuild_answer :: "('m, 'h) sched_ops \<Rightarrow> sched_cfg \<Rightarrow> rebuild_msg \<Rightarrow> ('m, 'h) sched \<Rightarrow> (string \<times> string option) option" where
  "rebuild_answer ops cfg msg s =
     (if \<not> so_supports_rebuild ops (sc_mgr s)
      then Some (''unsupported'', Some ''this model's cache does not support runtime rebuild'')
      else if rb_mode msg \<noteq> ''if_idle''
      then Some (''unsupported'', Some (''mode '' @ py_repr cfg (rb_mode msg) @ '' unsupported (use if_idle)''))
      else if 1 < tp_size cfg then Some (''unsupported'', Some ''runtime rebuild unsupported under TP > 1'')
      else if prefill_runnable s \<or> decode_runnable s then Some (''busy'', None)
      else None)"

definition process_rebuild :: "('m, 'h) sched_ops \<Rightarrow> sched_cfg \<Rightarrow> rebuild_msg \<Rightarrow> ('m, 'h) sched \<Rightarrow> ('m, 'h) sched" where
  "process_rebuild ops cfg msg s =
     (case rebuild_answer ops cfg msg s of
        Some (status, err) \<Rightarrow> send_result [rebuild_reply (rb_request_id msg) status err (so_geometry ops (sc_mgr s))] s
      | None \<Rightarrow> s\<lparr>pending_rebuild := Some msg\<rparr>)"

fun process_msg :: "('m, 'h) sched_ops \<Rightarrow> sched_cfg \<Rightarrow> backend_msg \<Rightarrow> ('m, 'h) sched \<Rightarrow> ('m, 'h) sched result"
  and process_msgs :: "('m, 'h) sched_ops \<Rightarrow> sched_cfg \<Rightarrow> backend_msg list \<Rightarrow> ('m, 'h) sched \<Rightarrow> ('m, 'h) sched result" where
  "process_msg ops cfg (BatchBackendMsg msgs) s = process_msgs ops cfg msgs s"
| "process_msg ops cfg ExitMsg s = Inl KeyboardInterrupt"
| "process_msg ops cfg (UserMsg msg) s = Inr (process_user cfg msg s)"
| "process_msg ops cfg (AbortBackendMsg u) s = process_abort ops u s"
| "process_msg ops cfg (CacheRebuildBackendMsg msg) s = Inr (process_rebuild ops cfg msg s)"
| "process_msgs ops cfg [] s = Inr s"
| "process_msgs ops cfg (msg # msgs) s = rbind (process_msg ops cfg msg s) (process_msgs ops cfg msgs)"

definition flush_abort_acks :: "('m, 'h) sched_ops \<Rightarrow> ('m, 'h) sched \<Rightarrow> ('m, 'h) sched" where
  "flush_abort_acks ops s =
     (if pending_abort_acks s = [] then s
      else send_result
        (map (\<lambda>u. ErrorReplyMsg \<lparr>er_uid = u, er_error = ''request aborted'', er_code = None, er_usage = usage_now ops s\<rparr>)
           (sort (pending_abort_acks s)))
        (s\<lparr>pending_abort_acks := []\<rparr>))"

section \<open>Draining a batch\<close>

text \<open>\<open>_match_stop_str\<close>: the first stop string that occurs in the decoded tail of the generated tokens.\<close>

definition match_stop_str :: "sched_cfg \<Rightarrow> 'h req \<Rightarrow> string option result" where
  "match_stop_str cfg r =
     (let stops = stop_strs (sampling r); prompt_len = max_device_len r - output_len r; n = length (input_ids r) in
      if n \<le> prompt_len then Inr None
      else if stops = [] then Inl ValueError
      else let max_chars = Max (length ` set stops);
               tail_start = max prompt_len (n - (max_chars + 1));
               tail = tok_decode cfg (drop tail_start (input_ids r)) in
           Inr (find (\<lambda>st. sublist (asc st) tail) stops))"

text \<open>Why a request ends with a token: an end token or a stop string win over the length.\<close>

definition finish_of :: "sched_cfg \<Rightarrow> int \<Rightarrow> 'h req \<Rightarrow> (bool \<times> string option \<times> string option) result" where
  "finish_of cfg tok r =
     (let hit_length = max_device_len r \<le> length (input_ids r);
          hit_eos = (\<not> ignore_eos (sampling r) \<and> tok \<in> set (eos_token_ids cfg)) in
      rbind (if \<not> hit_eos \<and> stop_strs (sampling r) \<noteq> [] then match_stop_str cfg r else Inr None) (\<lambda>matched.
        let fin = hit_length \<or> hit_eos \<or> matched \<noteq> None in
        Inr (fin, if fin then Some (if hit_eos \<or> matched \<noteq> None then ''stop'' else ''length'') else None, matched)))"

record ('m, 'h) drain =
  dr_sched :: "('m, 'h) sched"
  dr_reply :: "detokenize_msg list"
  dr_finished :: "nat list"

definition finish_req :: "('m, 'h) sched_ops \<Rightarrow> nat \<Rightarrow> ('m, 'h) drain \<Rightarrow> ('m, 'h) drain result" where
  "finish_req ops k d =
     (let s = dr_sched d in
      rbind (free_req_resources ops k (s\<lparr>running := filter (\<lambda>x. x \<noteq> k) (running s)\<rparr>)) (\<lambda>s'.
        Inr (d\<lparr>dr_sched := s', dr_finished := add_to_set k (dr_finished d)\<rparr>)))"

text \<open>A token for a live request: append it, reply, then free or commit.\<close>

definition drain_token ::
    "('m, 'h) sched_ops \<Rightarrow> sched_cfg \<Rightarrow> bool \<Rightarrow> nat \<Rightarrow> int \<Rightarrow> ('m, 'h) drain \<Rightarrow> ('m, 'h) drain result" where
  "drain_token ops cfg is_pre k tok d =
     (let s = dr_sched d in
      rbind (append_host [tok] (objs s ! k)) (\<lambda>r.
      rbind (finish_of cfg tok r) (\<lambda>(fin, reason, matched).
        let r' = (if toolcall_anchor_id cfg = Some tok \<and> toolcall_anchor_len r = None \<and> \<not> fin
                  then r\<lparr>toolcall_anchor_len := Some (length (input_ids r))\<rparr> else r);
            stops = stop_strs (sampling r);
            msg = \<lparr>dm_uid = uid r, next_token = tok, dm_finished = fin, finish_reason = reason, matched_stop = matched,
                   dm_stop_strs = (if stops = [] then None else Some stops), dm_usage = no_usage, gpu_mem_bytes = 0\<rparr>;
            d' = d\<lparr>dr_sched := set_obj k r' s, dr_reply := dr_reply d @ [msg]\<rparr> in
        if fin then finish_req ops k d'
        else if is_pre \<and> table_idx r' \<noteq> - 1 then
          rbind (so_cache_req ops r' False (sc_mgr (dr_sched d'))) (\<lambda>(r2, m).
            Inr (d'\<lparr>dr_sched := set_obj k r2 ((dr_sched d')\<lparr>sc_mgr := m\<rparr>)\<rparr>))
        else Inr d')))"

definition drain_one ::
    "('m, 'h) sched_ops \<Rightarrow> sched_cfg \<Rightarrow> bool \<Rightarrow> nat \<times> int \<Rightarrow> ('m, 'h) drain \<Rightarrow> ('m, 'h) drain result" where
  "drain_one ops cfg is_pre p d =
     (let (k, tok) = p; r = objs (dr_sched d) ! k in
      if chunked r then
        (if aborted r
         then rbind (free_req_resources ops k (dr_sched d)) (\<lambda>s. Inr (d\<lparr>dr_sched := s\<rparr>))
         else Inr d)
      else if aborted r then finish_req ops k d
      else if k \<in> set (finished_reqs (dr_sched d)) then Inr d
      else drain_token ops cfg is_pre k tok d)"

fun drain_loop ::
    "('m, 'h) sched_ops \<Rightarrow> sched_cfg \<Rightarrow> bool \<Rightarrow> (nat \<times> int) list \<Rightarrow> ('m, 'h) drain \<Rightarrow> ('m, 'h) drain result" where
  "drain_loop ops cfg is_pre [] d = Inr d"
| "drain_loop ops cfg is_pre (p # ps) d = rbind (drain_one ops cfg is_pre p d) (drain_loop ops cfg is_pre ps)"

definition process_last_data ::
    "('m, 'h) sched_ops \<Rightarrow> sched_cfg \<Rightarrow> flight option \<Rightarrow> ('m, 'h) sched \<Rightarrow> ('m, 'h) sched result" where
  "process_last_data ops cfg prior s =
     (case prior of
        None \<Rightarrow> Inr s
      | Some f \<Rightarrow>
          rbind (drain_loop ops cfg (fl_phase f = Prefill) (zip (fl_objs f) (fl_tokens f))
                  \<lparr>dr_sched = s\<lparr>sc_mgr := so_enter_lazy ops (sc_mgr s)\<rparr>, dr_reply = [], dr_finished = []\<rparr>) (\<lambda>d.
            let s1 = dr_sched d;
                s2 = s1\<lparr>sc_mgr := so_exit_lazy ops (sc_mgr s1), finished_reqs := dr_finished d\<rparr>;
                u = usage_now ops s2 in
            Inr (send_result (map (\<lambda>m. DetokenizeMsg (m\<lparr>dm_usage := u, gpu_mem_bytes := gpu_mem cfg\<rparr>)) (dr_reply d)) s2)))"

section \<open>Scheduling a batch\<close>

text \<open>The positions of a batch, and where its input tokens are read from and its sampled tokens
  written to in the token pool: column -1 is the last one.\<close>

definition make_positions :: "'h req list \<Rightarrow> nat list" where
  "make_positions rs = concat (map (\<lambda>r. [req_cached_len r..<device_len r]) rs)"

definition make_input_rows :: "'h req list \<Rightarrow> int list" where
  "make_input_rows rs = concat (map (\<lambda>r. replicate (nat (extend_len r)) (table_idx r)) rs)"

definition make_write_tuple :: "'h req list \<Rightarrow> (int \<times> int) list" where
  "make_write_tuple rs = map (\<lambda>r. (table_idx r, if can_decode r then int (device_len r) else - 1)) rs"

record forward_input =
  fi_objs :: "nat list"
  fi_phase :: phase
  fi_input :: "(int \<times> nat) list"
  fi_write :: "(int \<times> int) list"

fun set_objs :: "nat list \<Rightarrow> 'h req list \<Rightarrow> 'h req list \<Rightarrow> 'h req list" where
  "set_objs (k # ks) (r # rs) os = set_objs ks rs (os[k := r])"
| "set_objs _ _ os = os"

definition prepare_batch ::
    "('m, 'h) sched_ops \<Rightarrow> nat list \<Rightarrow> phase \<Rightarrow> ('m, 'h) sched \<Rightarrow> (forward_input \<times> ('m, 'h) sched) result" where
  "prepare_batch ops ks ph s =
     (let rs = map ((!) (objs s)) ks; n = forward_iter s + 1 in
      rbind (if ph = Decode
             then rbind (so_decode_free ops rs (int n) (sc_mgr s)) (\<lambda>(rs', m).
                    Inr (map (\<lambda>r. r\<lparr>decode_batch_idx := decode_batch_idx r + 1\<rparr>) rs', m))
             else so_extend_free ops rs (sc_mgr s)) (\<lambda>(rs', m).
      rbind (so_allocate ops rs' m) (\<lambda>m'.
        Inr (\<lparr>fi_objs = ks, fi_phase = ph, fi_input = zip (make_input_rows rs') (make_positions rs'),
              fi_write = make_write_tuple rs'\<rparr>,
             s\<lparr>forward_iter := n, objs := set_objs ks rs' (objs s), sc_mgr := m'\<rparr>))))"

definition report_prompt_admissions :: "(nat \<times> nat \<times> nat) list \<Rightarrow> ('m, 'h) sched \<Rightarrow> ('m, 'h) sched" where
  "report_prompt_admissions adm s =
     send_result (map (\<lambda>(u, n, c). PromptAdmittedMsg \<lparr>pa_uid = u, pa_prompt_tokens = n, pa_cached_tokens = c\<rparr>) adm) s"

text \<open>The admission pass over the pending requests: the new requests become objects, and a pending
  request that continues refers to the object of its chunk.\<close>

definition take_prefill ::
    "('m, 'h) sched_ops \<Rightarrow> ('m, 'h) sched \<Rightarrow> ((nat list \<times> (nat \<times> nat \<times> nat) list) option \<times> ('m, 'h) sched) result" where
  "take_prefill ops s =
     (let d = \<lparr>dm_page_size = sc_page_size s, running_reqs = map ((!) (objs s)) (running s)\<rparr>;
          ps = map (\<lambda>(p, link). p\<lparr>p_chunked_req := map_option ((!) (objs s)) link\<rparr>) (pending s) in
      rbind (pm_schedule_next_batch (so_adm ops) (prefill_budget s) d ps (sc_mgr s) (sc_tabs s)) (\<lambda>(b, ps', m, t).
        let s1 = s\<lparr>sc_mgr := m, sc_tabs := t\<rparr> in
        case b of
          None \<Rightarrow> Inr (None, s1)
        | Some b \<Rightarrow>
            let n = length (reqs b); ks = [length (objs s)..<length (objs s) + n];
                links = map Some (filter (\<lambda>k. chunked (reqs b ! (k - length (objs s)))) ks) @ drop n (map snd (pending s)) in
            Inr (Some (ks, prompt_admissions b),
                 s1\<lparr>objs := objs s @ reqs b, pending := zip (map (\<lambda>p. p\<lparr>p_chunked_req := None\<rparr>) ps') links\<rparr>)))"

definition take_decode :: "('m, 'h) sched \<Rightarrow> nat list option" where
  "take_decode s = (if running s = [] then None else Some (sort_key (\<lambda>k. uid (objs s ! k)) (running s)))"

definition schedule_next_batch ::
    "('m, 'h) sched_ops \<Rightarrow> ('m, 'h) sched \<Rightarrow> (forward_input option \<times> ('m, 'h) sched) result" where
  "schedule_next_batch ops s =
     rbind (take_prefill ops s) (\<lambda>(pre, s1).
       case pre of
         Some (ks, adm) \<Rightarrow>
           rbind (prepare_batch ops ks Prefill s1) (\<lambda>(fi, s2). Inr (Some fi, report_prompt_admissions adm s2))
       | None \<Rightarrow>
           (case take_decode s1 of
              None \<Rightarrow> Inr (None, s1)
            | Some ks \<Rightarrow> rbind (prepare_batch ops ks Decode s1) (\<lambda>(fi, s2). Inr (Some fi, s2))))"

section \<open>The forward\<close>

text \<open>\<open>_restore_linear_states\<close>: a prefix hit copies its snapshot into the live slot, once.\<close>

fun restore_states :: "('m, 'h) sched_ops \<Rightarrow> nat list \<Rightarrow> ('m, 'h) sched \<Rightarrow> ('m, 'h) sched result" where
  "restore_states ops [] s = Inr s"
| "restore_states ops (k # ks) s =
     (case mamba_restore_src (objs s ! k) of
        None \<Rightarrow> restore_states ops ks s
      | Some src \<Rightarrow>
          (case linear_slot_idx (objs s ! k) of
             None \<Rightarrow> Inl TypeError
           | Some live \<Rightarrow> rbind (so_copy_state ops src live (sc_mgr s)) (\<lambda>m.
               restore_states ops ks (set_obj k ((objs s ! k)\<lparr>mamba_restore_src := None\<rparr>) (s\<lparr>sc_mgr := m\<rparr>)))))"

definition restore_linear_states :: "('m, 'h) sched_ops \<Rightarrow> forward_input \<Rightarrow> ('m, 'h) sched \<Rightarrow> ('m, 'h) sched result" where
  "restore_linear_states ops fi s =
     (if \<not> so_has_states ops (sc_mgr s) \<or> fi_phase fi \<noteq> Prefill then Inr s else restore_states ops (fi_objs fi) s)"

fun read_pool :: "int list list \<Rightarrow> (int \<times> nat) list \<Rightarrow> int list result" where
  "read_pool pool [] = Inr []"
| "read_pool pool ((ti, pos) # input) =
     rbind (row_index ti pool) (\<lambda>i.
       if pos < length (pool ! i) then rbind (read_pool pool input) (\<lambda>toks. Inr (pool ! i ! pos # toks))
       else Inl IndexError)"

fun write_pool :: "(int \<times> int) list \<Rightarrow> int list \<Rightarrow> int list list \<Rightarrow> int list list result" where
  "write_pool ((ti, col) # ws) (tok # toks) pool =
     rbind (row_index ti pool) (\<lambda>i. rbind (row_index col (pool ! i)) (\<lambda>j.
       write_pool ws toks (pool[i := (pool ! i)[j := tok]])))"
| "write_pool _ _ pool = Inr pool"

text \<open>\<open>_forward\<close>: \<open>sample\<close> is the engine, which reads the input tokens and gives one token per request.\<close>

definition run_forward ::
    "('m, 'h) sched_ops \<Rightarrow> sched_cfg \<Rightarrow> ('h req list \<Rightarrow> int list \<Rightarrow> int list) \<Rightarrow> forward_input \<Rightarrow> ('m, 'h) sched \<Rightarrow>
     (flight \<times> ('m, 'h) sched) result" where
  "run_forward ops cfg sample fi s =
     rbind (read_pool (token_pool (sc_tabs s)) (fi_input fi)) (\<lambda>input.
     rbind (if toolcall_anchor_id cfg \<noteq> None \<and> fi_phase fi \<noteq> Prefill
            then so_anchor ops (map ((!) (objs s)) (fi_objs fi)) (sc_mgr s)
            else Inr (map ((!) (objs s)) (fi_objs fi), sc_mgr s)) (\<lambda>(rs, m).
       let toks = sample rs input; rs' = map complete_one rs; objs' = set_objs (fi_objs fi) rs' (objs s) in
     rbind (write_pool (fi_write fi) toks (token_pool (sc_tabs s))) (\<lambda>pool.
       Inr (\<lparr>fl_objs = fi_objs fi, fl_phase = fi_phase fi, fl_tokens = toks\<rparr>,
            s\<lparr>objs := objs', sc_mgr := m, sc_tabs := (sc_tabs s)\<lparr>token_pool := pool\<rparr>,
              running := filter (\<lambda>k. can_decode (objs' ! k)) (fold add_to_set (fi_objs fi) (running s))\<rparr>))))"

section \<open>Runtime rebuild and the loops\<close>

text \<open>\<open>engine_rebuild\<close> stands for the engine: it rejects a request with a reason, or it has resized the
  pools and gives the number of pages and the new page table.\<close>

definition rebuild_cache ::
    "('m, 'h) sched_ops \<Rightarrow> sched_cfg \<Rightarrow> (rebuild_msg \<Rightarrow> 'm \<Rightarrow> string + ('m \<times> nat \<times> slot list list)) \<Rightarrow> rebuild_msg \<Rightarrow>
     ('m, 'h) sched \<Rightarrow> (string option \<times> ('m, 'h) sched) result" where
  "rebuild_cache ops cfg engine_rebuild msg s =
     py_assert (\<not> prefill_runnable s) (py_assert (\<not> decode_runnable s)
       (case engine_rebuild msg (sc_mgr s) of
          Inl reason \<Rightarrow> Inr (Some reason, s)
        | Inr (m, n, table) \<Rightarrow>
            rbind (if rb_num_pages msg \<noteq> None \<or> rb_num_mamba_slots msg \<noteq> None \<or> rb_num_swa_pages msg \<noteq> None
                   then let m' = so_rebuild ops n table m;
                            s' = s\<lparr>sc_mgr := m',
                              sc_tabs := (if rb_num_pages msg \<noteq> None then tm_rebuild table (sc_tabs s) else sc_tabs s)\<rparr> in
                        rbind (so_check ops m') (\<lambda>_. Inr s')
                   else Inr (s\<lparr>sc_mgr := m\<rparr>)) (\<lambda>s'.
              Inr (None, s'\<lparr>prefill_budget := chunk_cap_budget cfg (so_chunk_budget ops (sc_mgr s'))\<rparr>))))"

definition execute_pending_rebuild ::
    "('m, 'h) sched_ops \<Rightarrow> sched_cfg \<Rightarrow> (rebuild_msg \<Rightarrow> 'm \<Rightarrow> string + ('m \<times> nat \<times> slot list list)) \<Rightarrow>
     ('m, 'h) sched \<Rightarrow> ('m, 'h) sched result" where
  "execute_pending_rebuild ops cfg engine_rebuild s =
     (case pending_rebuild s of
        None \<Rightarrow> Inl AssertionError
      | Some msg \<Rightarrow>
          rbind (rebuild_cache ops cfg engine_rebuild msg (s\<lparr>pending_rebuild := None\<rparr>)) (\<lambda>(rejected, s1).
            Inr (send_result
              [rebuild_reply (rb_request_id msg) (if rejected = None then ''ok'' else ''rejected'') rejected
                 (so_geometry ops (sc_mgr s1))] s1)))"

definition launch ::
    "('m, 'h) sched_ops \<Rightarrow> sched_cfg \<Rightarrow> ('h req list \<Rightarrow> int list \<Rightarrow> int list) \<Rightarrow> ('m, 'h) sched \<Rightarrow>
     (flight option \<times> ('m, 'h) sched) result" where
  "launch ops cfg sample s =
     rbind (schedule_next_batch ops s) (\<lambda>(fi, s1).
       case fi of
         None \<Rightarrow> Inr (None, s1)
       | Some fi \<Rightarrow>
           rbind (restore_linear_states ops fi s1) (\<lambda>s2.
           rbind (run_forward ops cfg sample fi s2) (\<lambda>(f, s3). Inr (Some f, s3))))"

definition overlap_loop ::
    "('m, 'h) sched_ops \<Rightarrow> sched_cfg \<Rightarrow> (rebuild_msg \<Rightarrow> 'm \<Rightarrow> string + ('m \<times> nat \<times> slot list list)) \<Rightarrow>
     ('h req list \<Rightarrow> int list \<Rightarrow> int list) \<Rightarrow> backend_msg list \<Rightarrow> flight option \<Rightarrow> ('m, 'h) sched \<Rightarrow>
     (flight option \<times> ('m, 'h) sched) result" where
  "overlap_loop ops cfg engine_rebuild sample msgs prior s =
     rbind (process_msgs ops cfg msgs (s\<lparr>last_flight := prior\<rparr>)) (\<lambda>s1.
     rbind (if pending_rebuild s1 \<noteq> None \<and> prior = None \<and> \<not> (prefill_runnable s1 \<or> decode_runnable s1)
            then execute_pending_rebuild ops cfg engine_rebuild s1 else Inr s1) (\<lambda>s2.
     rbind (launch ops cfg sample s2) (\<lambda>(ongoing, s3).
     rbind (process_last_data ops cfg prior s3) (\<lambda>s4.
       Inr (ongoing, flush_abort_acks ops s4)))))"

definition normal_loop ::
    "('m, 'h) sched_ops \<Rightarrow> sched_cfg \<Rightarrow> (rebuild_msg \<Rightarrow> 'm \<Rightarrow> string + ('m \<times> nat \<times> slot list list)) \<Rightarrow>
     ('h req list \<Rightarrow> int list \<Rightarrow> int list) \<Rightarrow> backend_msg list \<Rightarrow> ('m, 'h) sched \<Rightarrow> ('m, 'h) sched result" where
  "normal_loop ops cfg engine_rebuild sample msgs s =
     rbind (process_msgs ops cfg msgs s) (\<lambda>s1.
     rbind (if pending_rebuild s1 \<noteq> None \<and> \<not> (prefill_runnable s1 \<or> decode_runnable s1)
            then execute_pending_rebuild ops cfg engine_rebuild s1 else Inr s1) (\<lambda>s2.
     rbind (launch ops cfg sample s2) (\<lambda>(ongoing, s3).
     rbind (process_last_data ops cfg ongoing s3) (\<lambda>s4.
       Inr (flush_abort_acks ops s4)))))"

end
