(* ===== verification/Sched_Contract.thy ===== *)
theory Sched_Contract
  imports Scheduler Prefill_Properties
begin

text \<open>
  The contract between the scheduler and a cache manager: the operations may change the resources of a
  request, never who it is. Under it every step of the scheduler is followed on a view of its state:
  the identities of the request objects and the lists that refer to them.
\<close>

section \<open>The contract\<close>

definition same_req :: "'h req \<Rightarrow> 'h req \<Rightarrow> bool" where
  "same_req r r' \<longleftrightarrow> uid r' = uid r \<and> chunked r' = chunked r \<and> aborted r' = aborted r \<and> table_idx r' = table_idx r \<and>
     input_ids r' = input_ids r \<and> sampling r' = sampling r \<and> max_device_len r' = max_device_len r"

lemma same_req_refl [simp]: "same_req r r"
  by (simp add: same_req_def)

lemma same_req_all [simp]: "list_all2 same_req rs rs"
  by (simp add: list_all2_same)

locale sched_contract =
  fixes ops :: "('m, 'h) sched_ops"
  assumes cache_keeps: "so_cache_req ops r fin m = Inr (r', m') \<Longrightarrow> same_req r r'"
    and decode_keeps: "so_decode_free ops rs n m = Inr (rs', m') \<Longrightarrow> list_all2 same_req rs rs'"
    and extend_keeps: "so_extend_free ops rs m = Inr (rs', m') \<Longrightarrow> list_all2 same_req rs rs'"
    and anchor_keeps: "so_anchor ops rs m = Inr (rs', m') \<Longrightarrow> list_all2 same_req rs rs'"

section \<open>The view\<close>

definition ident :: "'h req \<Rightarrow> nat \<times> bool" where
  "ident r = (uid r, chunked r)"

definition ids_of :: "('m, 'h) sched \<Rightarrow> (nat \<times> bool) list" where
  "ids_of s = map ident (objs s)"

definition pend_of :: "('m, 'h) sched \<Rightarrow> nat list" where
  "pend_of s = map (\<lambda>p. p_uid (fst p)) (pending s)"

definition view where
  "view s = (ids_of s, running s, pend_of s, finished_reqs s, pending_abort_acks s, abort_tombstones s, outbox s)"

lemma view_eq:
  "view s' = view s \<longleftrightarrow> ids_of s' = ids_of s \<and> running s' = running s \<and> pend_of s' = pend_of s \<and>
     finished_reqs s' = finished_reqs s \<and> pending_abort_acks s' = pending_abort_acks s \<and>
     abort_tombstones s' = abort_tombstones s \<and> outbox s' = outbox s"
  by (auto simp: view_def)

lemma same_ident: "same_req r r' \<Longrightarrow> ident r' = ident r"
  by (simp add: same_req_def ident_def)

lemma ids_update: "ident r = ident (xs ! k) \<Longrightarrow> map ident (xs[k := r]) = map ident xs"
  by (cases "k < length xs") (simp_all add: map_update list_update_same_conv list_update_beyond)

lemma set_obj_view: "ident r = ident (objs s ! k) \<Longrightarrow> view (set_obj k r s) = view s"
  by (simp add: view_eq set_obj_def ids_of_def pend_of_def ids_update)

lemma set_objs_idents:
  "list_all2 (\<lambda>r r'. ident r' = ident r) (map ((!) os) ks) rs \<Longrightarrow> map ident (set_objs ks rs os) = map ident os"
proof (induction ks rs os rule: set_objs.induct)
  case (1 k ks r rs os)
  have "map ident (os[k := r]) = map ident os" using 1(2) by (intro ids_update) simp
  moreover have "ident (os[k := r] ! j) = ident (os ! j)" for j
    using 1(2) by (cases "j = k"; cases "j < length os") (auto simp: nth_list_update list_update_beyond)
  moreover have "list_all2 (\<lambda>r r'. ident r' = ident r) (map ((!) os) ks) rs" using 1(2) by simp
  ultimately have "list_all2 (\<lambda>r r'. ident r' = ident r) (map ((!) (os[k := r])) ks) rs"
    by (simp add: list_all2_conv_all_nth)
  then show ?case using 1(1) \<open>map ident (os[k := r]) = map ident os\<close> by simp
qed simp_all

context sched_contract begin

lemma keeps_idents: "list_all2 same_req rs rs' \<Longrightarrow> list_all2 (\<lambda>r r'. ident r' = ident r) rs rs'"
  by (auto simp: list_all2_conv_all_nth intro: same_ident)

lemma free_view:
  assumes "free_req_resources ops k s = Inr s'"
  shows "view s' = view s"
proof (cases "table_idx (objs s ! k) = - 1")
  case False
  then obtain r m where c: "so_cache_req ops (objs s ! k) True (sc_mgr s) = Inr (r, m)"
    and s': "s' = set_obj k (r\<lparr>table_idx := - 1\<rparr>) (s\<lparr>sc_mgr := m, sc_tabs := tm_free (nat (table_idx r)) (sc_tabs s)\<rparr>)"
    using assms by (auto simp: free_req_resources_def rbind_Inr_conv)
  have "ident (r\<lparr>table_idx := - 1\<rparr>) = ident (objs s ! k)"
    using cache_keeps [OF c] by (simp add: same_req_def ident_def)
  then show ?thesis unfolding s' by (subst set_obj_view) (simp_all add: view_eq ids_of_def pend_of_def)
qed (use assms in \<open>simp add: free_req_resources_def\<close>)

lemma prepare_view:
  assumes "prepare_batch ops ks ph s = Inr (fi, s')"
  shows "view s' = view s \<and> fi_objs fi = ks \<and> fi_phase fi = ph"
proof -
  let ?rs = "map ((!) (objs s)) ks"
  obtain rs' m m' where free: "(if ph = Decode
             then rbind (so_decode_free ops ?rs (int (Suc (forward_iter s))) (sc_mgr s)) (\<lambda>(rs', m).
                    Inr (map (\<lambda>r. r\<lparr>decode_batch_idx := decode_batch_idx r + 1\<rparr>) rs', m))
             else so_extend_free ops ?rs (sc_mgr s)) = Inr (rs', m)"
    and s': "s' = s\<lparr>forward_iter := Suc (forward_iter s), objs := set_objs ks rs' (objs s), sc_mgr := m'\<rparr>"
      "fi_objs fi = ks" "fi_phase fi = ph"
    using assms by (auto simp: prepare_batch_def Let_def rbind_Inr_conv simp del: of_nat_Suc)
  have "list_all2 (\<lambda>r r'. ident r' = ident r) ?rs rs'"
  proof (cases "ph = Decode")
    case True
    then obtain rs0 where "so_decode_free ops ?rs (int (Suc (forward_iter s))) (sc_mgr s) = Inr (rs0, m)"
      and rs': "rs' = map (\<lambda>r. r\<lparr>decode_batch_idx := decode_batch_idx r + 1\<rparr>) rs0"
      using free by (auto simp: rbind_Inr_conv)
    then have "list_all2 (\<lambda>r r'. ident r' = ident r) ?rs rs0" using decode_keeps keeps_idents by blast
    then show ?thesis unfolding rs' by (auto simp: list_all2_conv_all_nth ident_def)
  next
    case False
    then have "so_extend_free ops ?rs (sc_mgr s) = Inr (rs', m)" using free by simp
    then show ?thesis using extend_keeps keeps_idents by blast
  qed
  then show ?thesis using s' set_objs_idents by (simp add: view_eq ids_of_def pend_of_def)
qed

lemma restore_states_view: "restore_states ops ks s = Inr s' \<Longrightarrow> view s' = view s"
proof (induction ks arbitrary: s)
  case (Cons k ks)
  show ?case
  proof (cases "mamba_restore_src (objs s ! k)")
    case None
    then show ?thesis using Cons by simp
  next
    case (Some src)
    then obtain live m where "restore_states ops ks
        (set_obj k ((objs s ! k)\<lparr>mamba_restore_src := None\<rparr>) (s\<lparr>sc_mgr := m\<rparr>)) = Inr s'"
      using Cons.prems by (auto simp: rbind_Inr_conv split: option.splits)
    from Cons.IH [OF this] show ?thesis
      by (simp add: set_obj_view ident_def) (simp add: view_eq ids_of_def pend_of_def)
  qed
qed simp

lemma restore_view: "restore_linear_states ops fi s = Inr s' \<Longrightarrow> view s' = view s"
  by (auto simp: restore_linear_states_def dest: restore_states_view split: if_splits)

lemma forward_view:
  assumes "run_forward ops cfg sample fi s = Inr (f, s')"
  shows "fl_objs f = fi_objs fi \<and> fl_phase f = fi_phase fi \<and> ids_of s' = ids_of s \<and> pend_of s' = pend_of s \<and>
    finished_reqs s' = finished_reqs s \<and> pending_abort_acks s' = pending_abort_acks s \<and>
    abort_tombstones s' = abort_tombstones s \<and> outbox s' = outbox s \<and>
    running s' = filter (\<lambda>k. can_decode (objs s' ! k)) (fold add_to_set (fi_objs fi) (running s))"
proof -
  let ?rs = "map ((!) (objs s)) (fi_objs fi)"
  obtain rs m pool toks where anchor: "(if toolcall_anchor_id cfg \<noteq> None \<and> fi_phase fi \<noteq> Prefill
      then so_anchor ops ?rs (sc_mgr s) else Inr (?rs, sc_mgr s)) = Inr (rs, m)"
    and f: "fl_objs f = fi_objs fi" "fl_phase f = fi_phase fi"
    and s': "s' = s\<lparr>objs := set_objs (fi_objs fi) (map complete_one rs) (objs s), sc_mgr := m,
      sc_tabs := (sc_tabs s)\<lparr>token_pool := pool\<rparr>,
      running := filter (\<lambda>k. can_decode (set_objs (fi_objs fi) (map complete_one rs) (objs s) ! k))
        (fold add_to_set (fi_objs fi) (running s))\<rparr>"
    using assms by (auto simp: run_forward_def Let_def rbind_Inr_conv)
  have "list_all2 same_req ?rs rs" using anchor anchor_keeps by (auto split: if_splits)
  then have "list_all2 (\<lambda>r r'. ident r' = ident r) ?rs (map complete_one rs)"
    by (auto simp: list_all2_conv_all_nth complete_one_def ident_def same_req_def)
  then show ?thesis using s' f set_objs_idents by (simp add: ids_of_def pend_of_def)
qed

lemma rebuild_view: "rebuild_cache ops cfg er msg s = Inr (x, s') \<Longrightarrow> view s' = view s"
  by (auto simp: rebuild_cache_def py_assert_Inr_conv rbind_Inr_conv Let_def view_eq ids_of_def pend_of_def
      split: sum.splits if_splits)

end

text \<open>The admission pass on the view.\<close>

lemma take_prefill_view:
  assumes "take_prefill ops s = Inr (x, s')"
  shows "running s' = running s \<and> finished_reqs s' = finished_reqs s \<and> pending_abort_acks s' = pending_abort_acks s \<and>
    abort_tombstones s' = abort_tombstones s \<and> outbox s' = outbox s \<and>
    (case x of
       None \<Rightarrow> ids_of s' = ids_of s \<and> pend_of s' = pend_of s
     | Some (ks, adm) \<Rightarrow> \<exists>new n. n \<le> length (pend_of s) \<and> map fst new = take n (pend_of s) \<and>
         ids_of s' = ids_of s @ new \<and> ks = [length (ids_of s)..<length (ids_of s) + length new] \<and>
         pend_of s' = map fst (filter snd new) @ drop n (pend_of s))"
proof -
  define d where "d = \<lparr>dm_page_size = sc_page_size s, running_reqs = map ((!) (objs s)) (running s)\<rparr>"
  define ps where "ps = map (\<lambda>(p, link). p\<lparr>p_chunked_req := map_option ((!) (objs s)) link\<rparr>) (pending s)"
  have pu: "map p_uid ps = pend_of s" by (auto simp: ps_def pend_of_def)
  obtain b ps' m t where pm: "pm_schedule_next_batch (so_adm ops) (prefill_budget s) d ps (sc_mgr s) (sc_tabs s) = Inr (b, ps', m, t)"
    using assms by (auto simp: take_prefill_def Let_def rbind_Inr_conv d_def ps_def)
  note unf = assms [unfolded take_prefill_def Let_def, folded d_def ps_def, unfolded pm rbind_simps prod.case]
  show ?thesis
  proof (cases b)
    case None
    then show ?thesis using unf by (auto simp: ids_of_def pend_of_def)
  next
    case (Some b)
    let ?n = "length (reqs b)" and ?L = "length (objs s)"
    let ?ks = "[?L..<?L + ?n]"
    let ?links = "map Some (filter (\<lambda>k. chunked (reqs b ! (k - ?L))) ?ks) @ drop ?n (map snd (pending s))"
    have s': "s' = s\<lparr>sc_mgr := m, sc_tabs := t, objs := objs s @ reqs b,
        pending := zip (map (\<lambda>p. p\<lparr>p_chunked_req := None\<rparr>) ps') ?links\<rparr>"
      and x: "x = Some (?ks, prompt_admissions b)"
      using unf Some by simp_all
    obtain st a where l: "add_loop (so_adm ops) ps empty_pass (new_adder (prefill_budget s) d (sc_mgr s) (sc_tabs s)) = Inr (st, a)"
      and b: "reqs b = ps_reqs st" "ps' = ps_chunked st @ drop (length (ps_reqs st)) ps"
      using pm Some by (auto simp: pm_schedule_next_batch_def rbind_Inr_conv new_batch_def split: if_splits)
    have "pass_step (so_adm ops) [] empty_pass" by (simp add: pass_step_def empty_pass_def)
    from add_loop_pass [OF l this] obtain n where n: "n \<le> length ps" "pass_step (so_adm ops) (take n ps) st"
      by (auto simp: empty_pass_def)
    then have all: "list_all2 (continues (so_adm ops)) (take n ps) (reqs b)" using b by (simp add: pass_step_def)
    then have len: "?n = n" using n(1) by (auto dest: list_all2_lengthD)
    have uids: "map uid (reqs b) = map p_uid (take n ps)"
    proof -
      have "map uid rs = map p_uid qs" if "list_all2 (continues M) qs rs" for M and qs :: "'b pending_req list" and rs
        using that by (induction rule: list_all2_induct) (auto simp: continues_def)
      then show ?thesis using all by blast
    qed
    have ch: "map p_uid (ps_chunked st) = map fst (filter snd (map ident (reqs b)))"
    proof -
      have "map p_uid (map (\<lambda>(p, r). p\<lparr>p_chunked_req := Some r\<rparr>) (filter (\<lambda>(p, r). chunked r) (zip qs rs))) =
          map fst (filter snd (map ident rs))" if "list_all2 (continues M) qs rs" for M and qs :: "'b pending_req list" and rs
        using that by (induction rule: list_all2_induct) (auto simp: ident_def continues_def)
      then show ?thesis using n(2) all b by (auto simp: pass_step_def)
    qed
    have cnt: "length (filter (\<lambda>k. chunked (rs ! (k - L))) [L..<L + length rs]) = length (filter chunked rs)" for L and rs :: "'b req list"
    proof -
      have "map (\<lambda>k. rs ! (k - L)) [L..<L + length rs] = rs" by (rule nth_equalityI) auto
      then have "filter chunked rs = filter chunked (map (\<lambda>k. rs ! (k - L)) [L..<L + length rs])" by simp
      then show ?thesis by (simp add: filter_map o_def)
    qed
    have lens: "length ps' = length ?links"
    proof -
      have "length (ps_chunked st) = length (filter chunked (reqs b))"
        using arg_cong [OF ch, of length] by (simp add: filter_map o_def ident_def)
      moreover have "length (pending s) = length ps" by (simp add: ps_def)
      ultimately show ?thesis using b cnt [where L = ?L and rs = "reqs b"] by simp
    qed
    have "pend_of s' = map p_uid ps'"
    proof -
      let ?qs = "map (\<lambda>p. p\<lparr>p_chunked_req := None\<rparr>) ps'"
      have "pend_of s' = map p_uid (map fst (zip ?qs ?links))"
        unfolding s' pend_of_def by (simp add: o_def del: map_append)
      also have "map fst (zip ?qs ?links) = ?qs" using lens by (simp del: map_append)
      finally show ?thesis by simp
    qed
    then have "pend_of s' = map fst (filter snd (map ident (reqs b))) @ drop n (pend_of s)"
      using ch b(2) len b(1) unfolding pu [symmetric] by (simp add: drop_map)
    moreover have "map fst (map ident (reqs b)) = take n (pend_of s)"
      using uids unfolding pu [symmetric] by (simp add: ident_def o_def take_map)
    moreover have "n \<le> length (pend_of s)" using n(1) unfolding pu [symmetric] by simp
    moreover have "ids_of s' = ids_of s @ map ident (reqs b)" by (simp add: s' ids_of_def)
    moreover have "?ks = [length (ids_of s)..<length (ids_of s) + length (map ident (reqs b))]" by (simp add: ids_of_def)
    ultimately show ?thesis using x s' by (auto intro!: exI [of _ "map ident (reqs b)"] exI [of _ n])
  qed
qed

end
