(* ===== verification/Stream_Safety.thy ===== *)
theory Stream_Safety
  imports Sched_Contract
begin

text \<open>
  What a client sees over the whole life of the scheduler: after the terminal reply of a request, a
  finished token or an error, no token of it follows. The invariant speaks of the view of the state:
  who the objects are, which of them run, which uids are pending, and which uids are closed. \<open>U\<close> are
  the uids that user messages have named so far, \<open>A\<close> those that aborts have.
\<close>

section \<open>Replies\<close>

fun is_token :: "reply \<Rightarrow> bool" where
  "is_token (DetokenizeMsg d) \<longleftrightarrow> True"
| "is_token _ \<longleftrightarrow> False"

definition closed :: "reply list \<Rightarrow> nat set" where
  "closed out = {u. \<exists>r \<in> set out. is_terminal r \<and> reply_uid r = Some u}"

definition no_token_after_end :: "reply list \<Rightarrow> bool" where
  "no_token_after_end out \<longleftrightarrow> sorted_wrt (\<lambda>x y. is_terminal x \<longrightarrow> is_token y \<longrightarrow> reply_uid y \<noteq> reply_uid x) out"

lemma closed_append [simp]: "closed (xs @ ys) = closed xs \<union> closed ys"
  by (auto simp: closed_def)

lemma closed_Nil [simp]: "closed [] = {}"
  by (simp add: closed_def)

lemma terminal_uid: "is_terminal r \<Longrightarrow> \<exists>u. reply_uid r = Some u"
  by (cases r) auto

lemma no_token_append:
  "no_token_after_end xs \<Longrightarrow> no_token_after_end ys \<Longrightarrow>
   \<forall>y \<in> set ys. is_token y \<longrightarrow> (\<forall>u. reply_uid y = Some u \<longrightarrow> u \<notin> closed xs) \<Longrightarrow> no_token_after_end (xs @ ys)"
  unfolding no_token_after_end_def sorted_wrt_append closed_def using terminal_uid by fastforce

lemma no_token_quiet: "no_token_after_end xs \<Longrightarrow> \<forall>y \<in> set ys. \<not> is_token y \<Longrightarrow> no_token_after_end (xs @ ys)"
proof (rule no_token_append)
  assume "\<forall>y \<in> set ys. \<not> is_token y"
  then show "no_token_after_end ys" by (induction ys) (auto simp: no_token_after_end_def)
qed auto

section \<open>The invariant\<close>

definition live_ok :: "(nat \<times> bool) list \<Rightarrow> nat list \<Rightarrow> nat list \<Rightarrow> nat set \<Rightarrow> bool" where
  "live_ok I run pend C \<longleftrightarrow>
     (\<forall>k \<in> set run. k < length I \<and> \<not> snd (I ! k)) \<and> distinct (map (\<lambda>k. fst (I ! k)) run) \<and> distinct pend \<and>
     (\<forall>k \<in> set run. fst (I ! k) \<notin> set pend \<union> C) \<and> set pend \<inter> C = {}"

definition flight_ok :: "(nat \<times> bool) list \<Rightarrow> nat list \<Rightarrow> nat list \<Rightarrow> nat set \<Rightarrow> nat list \<Rightarrow> nat list \<Rightarrow> bool" where
  "flight_ok I run pend C fin ks \<longleftrightarrow>
     (\<forall>k \<in> set ks. k < length I) \<and> distinct (map (\<lambda>k. fst (I ! k)) ks) \<and>
     (\<forall>k \<in> set ks. \<not> snd (I ! k) \<longrightarrow> fst (I ! k) \<notin> set pend \<and>
        (\<forall>j \<in> set run. fst (I ! j) = fst (I ! k) \<longrightarrow> j = k) \<and> (fst (I ! k) \<in> C \<longrightarrow> k \<in> set fin))"

definition names_ok :: "nat set \<Rightarrow> nat set \<Rightarrow> (nat \<times> bool) list \<Rightarrow> nat list \<Rightarrow> nat set \<Rightarrow> nat list \<Rightarrow> bool" where
  "names_ok U A I pend C tombs \<longleftrightarrow> fst ` set I \<subseteq> U \<and> set pend \<subseteq> U \<and> C \<subseteq> U \<union> A \<and>
     set tombs \<subseteq> A \<and> distinct tombs \<and> A - U \<subseteq> set tombs \<and> finite A"

definition acks_ok :: "nat set \<Rightarrow> (nat \<times> bool) list \<Rightarrow> nat list \<Rightarrow> nat list \<Rightarrow> nat list \<Rightarrow> bool" where
  "acks_ok A I run pend acks \<longleftrightarrow> set acks \<subseteq> A \<and> set acks \<inter> set pend = {} \<and> (\<forall>k \<in> set run. fst (I ! k) \<notin> set acks)"

definition mid_ok :: "nat set \<Rightarrow> nat set \<Rightarrow> nat list \<Rightarrow> ('m, 'h) sched \<Rightarrow> bool" where
  "mid_ok U A prior s \<longleftrightarrow>
     live_ok (ids_of s) (running s) (pend_of s) (closed (outbox s)) \<and>
     flight_ok (ids_of s) (running s) (pend_of s) (closed (outbox s)) (finished_reqs s) prior \<and>
     names_ok U A (ids_of s) (pend_of s) (closed (outbox s)) (abort_tombstones s) \<and>
     acks_ok A (ids_of s) (running s) (pend_of s) (pending_abort_acks s) \<and> no_token_after_end (outbox s)"

definition flight_objs :: "flight option \<Rightarrow> nat list" where
  "flight_objs f = (case f of None \<Rightarrow> [] | Some f \<Rightarrow> fl_objs f)"

definition sched_inv :: "nat set \<Rightarrow> nat set \<Rightarrow> flight option \<Rightarrow> ('m, 'h) sched \<Rightarrow> bool" where
  "sched_inv U A prior s \<longleftrightarrow> mid_ok U A (flight_objs prior) s \<and> pending_abort_acks s = []"

lemma live_okI:
  assumes "\<And>k. k \<in> set run \<Longrightarrow> k < length I \<and> \<not> snd (I ! k)" and "distinct (map (\<lambda>k. fst (I ! k)) run)"
    and "distinct pend" and "\<And>k. k \<in> set run \<Longrightarrow> fst (I ! k) \<notin> set pend" and "\<And>k. k \<in> set run \<Longrightarrow> fst (I ! k) \<notin> C"
    and "set pend \<inter> C = {}"
  shows "live_ok I run pend C"
  using assms by (simp add: live_ok_def)

lemma live_okD:
  assumes "live_ok I run pend C"
  shows "k \<in> set run \<Longrightarrow> k < length I" "k \<in> set run \<Longrightarrow> \<not> snd (I ! k)" "k \<in> set run \<Longrightarrow> fst (I ! k) \<notin> set pend"
    "k \<in> set run \<Longrightarrow> fst (I ! k) \<notin> C" "distinct (map (\<lambda>k. fst (I ! k)) run)" "distinct pend" "set pend \<inter> C = {}"
    "k \<in> set run \<Longrightarrow> j \<in> set run \<Longrightarrow> fst (I ! k) = fst (I ! j) \<Longrightarrow> k = j"
  using assms by (auto simp: live_ok_def distinct_map inj_on_def)

lemma flight_okI:
  assumes "\<And>k. k \<in> set ks \<Longrightarrow> k < length I" and "distinct (map (\<lambda>k. fst (I ! k)) ks)"
    and "\<And>k. k \<in> set ks \<Longrightarrow> \<not> snd (I ! k) \<Longrightarrow> fst (I ! k) \<notin> set pend"
    and "\<And>k j. k \<in> set ks \<Longrightarrow> \<not> snd (I ! k) \<Longrightarrow> j \<in> set run \<Longrightarrow> fst (I ! j) = fst (I ! k) \<Longrightarrow> j = k"
    and "\<And>k. k \<in> set ks \<Longrightarrow> \<not> snd (I ! k) \<Longrightarrow> fst (I ! k) \<in> C \<Longrightarrow> k \<in> set fin"
  shows "flight_ok I run pend C fin ks"
  using assms by (simp add: flight_ok_def)

lemma flight_okD:
  assumes "flight_ok I run pend C fin ks"
  shows "k \<in> set ks \<Longrightarrow> k < length I" "distinct (map (\<lambda>k. fst (I ! k)) ks)"
    "k \<in> set ks \<Longrightarrow> \<not> snd (I ! k) \<Longrightarrow> fst (I ! k) \<notin> set pend"
    "k \<in> set ks \<Longrightarrow> \<not> snd (I ! k) \<Longrightarrow> j \<in> set run \<Longrightarrow> fst (I ! j) = fst (I ! k) \<Longrightarrow> j = k"
    "k \<in> set ks \<Longrightarrow> \<not> snd (I ! k) \<Longrightarrow> fst (I ! k) \<in> C \<Longrightarrow> k \<in> set fin"
    "k \<in> set ks \<Longrightarrow> j \<in> set ks \<Longrightarrow> fst (I ! k) = fst (I ! j) \<Longrightarrow> k = j"
  using assms by (auto simp: flight_ok_def distinct_map inj_on_def)

lemma mid_okD:
  assumes "mid_ok U A prior s"
  shows "live_ok (ids_of s) (running s) (pend_of s) (closed (outbox s))"
    and "flight_ok (ids_of s) (running s) (pend_of s) (closed (outbox s)) (finished_reqs s) prior"
    and "names_ok U A (ids_of s) (pend_of s) (closed (outbox s)) (abort_tombstones s)"
    and "acks_ok A (ids_of s) (running s) (pend_of s) (pending_abort_acks s)" and "no_token_after_end (outbox s)"
  using assms by (simp_all add: mid_ok_def)

lemma mid_view: "view s' = view s \<Longrightarrow> mid_ok U A prior s \<Longrightarrow> mid_ok U A prior s'"
  by (simp add: mid_ok_def view_eq)

lemma mid_quiet:
  assumes "mid_ok U A prior s" and "ids_of s' = ids_of s" and "running s' = running s" and "pend_of s' = pend_of s"
    and "finished_reqs s' = finished_reqs s" and "pending_abort_acks s' = pending_abort_acks s"
    and "abort_tombstones s' = abort_tombstones s" and "outbox s' = outbox s @ rs"
    and "\<forall>r \<in> set rs. \<not> is_token r \<and> \<not> is_terminal r"
  shows "mid_ok U A prior s'"
proof -
  have "closed rs = {}" using assms(9) by (auto simp: closed_def)
  then show ?thesis using assms by (simp add: mid_ok_def no_token_quiet)
qed

lemma new_sched_inv: "sched_inv {} {} None (new_sched ops cfg ps t m)"
  by (simp add: sched_inv_def mid_ok_def live_ok_def flight_ok_def names_ok_def acks_ok_def no_token_after_end_def
      new_sched_def ids_of_def pend_of_def flight_objs_def)

section \<open>Messages\<close>

fun users :: "backend_msg \<Rightarrow> nat list" and users_all :: "backend_msg list \<Rightarrow> nat list" where
  "users (BatchBackendMsg ms) = users_all ms"
| "users ExitMsg = []"
| "users (UserMsg m) = [um_uid m]"
| "users (AbortBackendMsg u) = []"
| "users (CacheRebuildBackendMsg m) = []"
| "users_all [] = []"
| "users_all (m # ms) = users m @ users_all ms"

fun aborts :: "backend_msg \<Rightarrow> nat list" and aborts_all :: "backend_msg list \<Rightarrow> nat list" where
  "aborts (BatchBackendMsg ms) = aborts_all ms"
| "aborts ExitMsg = []"
| "aborts (UserMsg m) = []"
| "aborts (AbortBackendMsg u) = [u]"
| "aborts (CacheRebuildBackendMsg m) = []"
| "aborts_all [] = []"
| "aborts_all (m # ms) = aborts m @ aborts_all ms"

lemma user_mid:
  assumes ok: "mid_ok U A prior s" and fresh: "um_uid msg \<notin> U"
  shows "mid_ok (insert (um_uid msg) U) A prior (process_user cfg msg s)"
proof -
  let ?u = "um_uid msg"
  note o = ok [unfolded mid_ok_def]
  have I: "fst ` set (ids_of s) \<subseteq> U" "set (pend_of s) \<subseteq> U" "closed (outbox s) \<subseteq> U \<union> A"
    using o by (simp_all add: names_ok_def)
  have id: "fst (ids_of s ! k) \<noteq> ?u" if "k < length (ids_of s)" for k
    using I(1) fresh that nth_mem by fastforce
  show ?thesis
  proof (cases "?u \<in> set (abort_tombstones s)")
    case True
    have "names_ok (insert ?u U) A (ids_of s) (pend_of s) (closed (outbox s)) (remove1 ?u (abort_tombstones s))"
      using o by (auto simp: names_ok_def)
    then show ?thesis using o True by (simp add: mid_ok_def process_user_def ids_of_def pend_of_def)
  next
    case False
    have nA: "?u \<notin> A" using False fresh o by (auto simp: names_ok_def)
    have nC: "?u \<notin> closed (outbox s)" using I(3) nA fresh by blast
    have nK: "?u \<notin> set (pending_abort_acks s)" using o nA by (auto simp: acks_ok_def)
    have nP: "?u \<notin> set (pend_of s)" using I(2) fresh by blast
    show ?thesis
    proof (cases "max_seq_len cfg - int (length (um_input_ids msg)) \<le> 0")
      case True
      let ?r = "ErrorReplyMsg \<lparr>er_uid = ?u, er_error = too_long_error (length (um_input_ids msg)) (nat (max_seq_len cfg)),
                         er_code = Some ''context_length_exceeded'', er_usage = no_usage\<rparr>"
      have s': "process_user cfg msg s = send_result [?r] s" using False True by (simp add: process_user_def Let_def)
      have C: "closed [?r] = {?u}" by (auto simp: closed_def)
      have "live_ok (ids_of s) (running s) (pend_of s) (closed (outbox s) \<union> {?u})"
        using o id nP by (auto simp: live_ok_def)
      moreover have "flight_ok (ids_of s) (running s) (pend_of s) (closed (outbox s) \<union> {?u}) (finished_reqs s) prior"
        using o id by (auto simp: flight_ok_def)
      moreover have "names_ok (insert ?u U) A (ids_of s) (pend_of s) (closed (outbox s) \<union> {?u}) (abort_tombstones s)"
        using o by (auto simp: names_ok_def)
      ultimately show ?thesis using o C
        by (simp add: mid_ok_def s' send_result_def ids_of_def pend_of_def no_token_quiet)
    next
      case ok: False
      obtain sp where s': "process_user cfg msg s = s\<lparr>pending := pending s @
          [(\<lparr>p_uid = ?u, p_input_ids = um_input_ids msg, p_sampling = sp, p_chunked_req = None, p_mm_embeds = um_mm_embeds msg\<rparr>, None)]\<rparr>"
        using False ok by (simp add: process_user_def Let_def)
      have "live_ok (ids_of s) (running s) (pend_of s @ [?u]) (closed (outbox s))"
        using o id nP nC by (auto simp: live_ok_def)
      moreover have "flight_ok (ids_of s) (running s) (pend_of s @ [?u]) (closed (outbox s)) (finished_reqs s) prior"
        using o id by (auto simp: flight_ok_def)
      moreover have "names_ok (insert ?u U) A (ids_of s) (pend_of s @ [?u]) (closed (outbox s)) (abort_tombstones s)"
        using o by (auto simp: names_ok_def)
      moreover have "acks_ok A (ids_of s) (running s) (pend_of s @ [?u]) (pending_abort_acks s)"
        using o nK by (auto simp: acks_ok_def)
      ultimately show ?thesis using o by (simp add: mid_ok_def s' ids_of_def pend_of_def)
    qed
  qed
qed

lemma abort_pending_uids:
  "abort_pending u ps = (k, ps') \<Longrightarrow>
   (\<exists>xs ys. map (\<lambda>p. p_uid (fst p)) ps = xs @ ys \<and> map (\<lambda>p. p_uid (fst p)) ps' = xs @ tl ys \<and>
     u \<notin> set xs \<and> (ys = [] \<or> hd ys = u)) \<and> (k \<noteq> None \<longrightarrow> u \<in> (\<lambda>p. p_uid (fst p)) ` set ps)"
proof (induction u ps arbitrary: k ps' rule: abort_pending.induct)
  case (2 u p link ps)
  show ?case
  proof (cases "p_uid p = u")
    case True
    have "map (\<lambda>p. p_uid (fst p)) ((p, link) # ps) = [] @ u # map (\<lambda>p. p_uid (fst p)) ps" using True by simp
    moreover have "map (\<lambda>p. p_uid (fst p)) ps' = [] @ tl (u # map (\<lambda>p. p_uid (fst p)) ps)" using 2(2) True by simp
    ultimately have "\<exists>xs ys. map (\<lambda>p. p_uid (fst p)) ((p, link) # ps) = xs @ ys \<and>
        map (\<lambda>p. p_uid (fst p)) ps' = xs @ tl ys \<and> u \<notin> set xs \<and> (ys = [] \<or> hd ys = u)"
      by (intro exI [of _ "[]"] exI [of _ "u # map (\<lambda>p. p_uid (fst p)) ps"]) simp
    then show ?thesis using True by simp
  next
    case False
    obtain k1 qs where r: "abort_pending u ps = (k1, qs)" by fastforce
    then have "k1 = k" "ps' = (p, link) # qs" using 2(2) False by auto
    obtain xs ys where e: "map (\<lambda>p. p_uid (fst p)) ps = xs @ ys" "map (\<lambda>p. p_uid (fst p)) qs = xs @ tl ys"
        "u \<notin> set xs" "ys = [] \<or> hd ys = u"
      using 2(1) [OF False r, THEN conjunct1] by (elim exE conjE) (rule that)
    note e5 = 2(1) [OF False r, THEN conjunct2]
    have "map (\<lambda>p. p_uid (fst p)) ((p, link) # ps) = (p_uid p # xs) @ ys" using e(1) by simp
    moreover have "map (\<lambda>p. p_uid (fst p)) ps' = (p_uid p # xs) @ tl ys" using e(2) \<open>ps' = _\<close> by simp
    moreover have "u \<notin> set (p_uid p # xs)" using e(3) False by simp
    ultimately have "\<exists>xs ys. map (\<lambda>p. p_uid (fst p)) ((p, link) # ps) = xs @ ys \<and>
        map (\<lambda>p. p_uid (fst p)) ps' = xs @ tl ys \<and> u \<notin> set xs \<and> (ys = [] \<or> hd ys = u)"
      using e(4) by (intro exI conjI)
    moreover have "k \<noteq> None \<longrightarrow> u \<in> (\<lambda>p. p_uid (fst p)) ` set ((p, link) # ps)" using e5 \<open>k1 = k\<close> by simp
    ultimately show ?thesis by (rule conjI)
  qed
qed auto

lemma abort_pending_set:
  assumes "abort_pending u ps = (k, ps')" and "distinct (map (\<lambda>p. p_uid (fst p)) ps)"
  shows "distinct (map (\<lambda>p. p_uid (fst p)) ps') \<and>
    set (map (\<lambda>p. p_uid (fst p)) ps') = set (map (\<lambda>p. p_uid (fst p)) ps) - {u}"
proof -
  obtain xs ys where e: "map (\<lambda>p. p_uid (fst p)) ps = xs @ ys" "map (\<lambda>p. p_uid (fst p)) ps' = xs @ tl ys"
    "u \<notin> set xs" "ys = [] \<or> hd ys = u"
    using abort_pending_uids [OF assms(1), THEN conjunct1] by (elim exE conjE) (rule that)
  show ?thesis unfolding e(1,2) using e(3,4) assms(2) unfolding e(1) by (cases ys) auto
qed

lemma add_to_set_set [simp]: "set (add_to_set x xs) = insert x (set xs)"
  by (auto simp: add_to_set_def)

lemma add_to_set_distinct: "distinct xs \<Longrightarrow> distinct (add_to_set x xs)"
  by (simp add: add_to_set_def)

lemma rebuild_cases:
  "(\<exists>a b. process_rebuild ops cfg m s = send_result [rebuild_reply (rb_request_id m) a b (so_geometry ops (sc_mgr s))] s) \<or>
   process_rebuild ops cfg m s = s\<lparr>pending_rebuild := Some m\<rparr>"
  by (cases "rebuild_answer ops cfg m s") (auto simp: process_rebuild_def)

lemma rebuild_reply_quiet: "\<not> is_token (rebuild_reply i a b g) \<and> \<not> is_terminal (rebuild_reply i a b g)"
  by (simp add: rebuild_reply_def Let_def)

lemma add_tombstone_facts:
  assumes "distinct ts" and "set ts \<subseteq> A" and "finite A" and "card (insert u A) \<le> max_tombstones"
  shows "add_tombstone u ts = add_to_set u ts"
proof -
  have "length (add_to_set u ts) = card (set (add_to_set u ts))"
    by (rule distinct_card [OF add_to_set_distinct [OF assms(1)], symmetric])
  also have "\<dots> \<le> card (insert u A)" using assms(2,3) by (intro card_mono) auto
  finally show ?thesis using assms(4) by (simp add: add_tombstone_def Let_def)
qed

context sched_contract begin

lemma abort_mid:
  assumes ok: "mid_ok U A prior s" and run: "process_abort ops u s = Inr s'" and card: "card (insert u A) \<le> max_tombstones"
  shows "mid_ok U (insert u A) prior s'"
proof -
  note o = ok [unfolded mid_ok_def]
  let ?I = "ids_of s"
  have tombs: "add_tombstone u (abort_tombstones s) = add_to_set u (abort_tombstones s)"
    using o card by (intro add_tombstone_facts [where A = A]) (auto simp: names_ok_def)
  obtain k1 ps where ap: "abort_pending u (pending s) = (k1, ps)" by fastforce
  have dp: "distinct (pend_of s)" using o by (simp add: live_ok_def)
  let ?P = "map (\<lambda>p. p_uid (fst p)) ps"
  have P: "distinct ?P" "set ?P = set (pend_of s) - {u}"
    using abort_pending_set [OF ap] dp by (simp_all add: pend_of_def)
  define s2 where "s2 = s\<lparr>abort_tombstones := add_to_set u (abort_tombstones s), pending := ps\<rparr>"
  define s3 where "s3 = (case k1 of Some k \<Rightarrow> s2 | None \<Rightarrow> snd (abort_running u s2))"
  have v2: "ids_of s2 = ?I" "running s2 = running s" "pend_of s2 = ?P" "finished_reqs s2 = finished_reqs s"
    "pending_abort_acks s2 = pending_abort_acks s" "abort_tombstones s2 = add_to_set u (abort_tombstones s)" "outbox s2 = outbox s"
    by (simp_all add: s2_def ids_of_def pend_of_def)
  have v3: "ids_of s3 = ?I" "pend_of s3 = ?P" "finished_reqs s3 = finished_reqs s"
    "pending_abort_acks s3 = pending_abort_acks s" "abort_tombstones s3 = add_to_set u (abort_tombstones s)" "outbox s3 = outbox s"
    using v2 by (auto simp: s3_def abort_running_def ids_of_def pend_of_def split: option.splits)
  have uidI: "fst (?I ! k) = uid (objs s ! k)" if "k \<in> set (running s)" for k
    using o that by (simp add: live_ok_def ids_of_def ident_def)
  have run3: "set (running s3) \<subseteq> set (running s) \<and> distinct (map (\<lambda>k. fst (?I ! k)) (running s3)) \<and>
      (\<forall>k \<in> set (running s3). fst (?I ! k) \<noteq> u)"
  proof (cases k1)
    case (Some k)
    then have "u \<in> set (pend_of s)" using abort_pending_uids [OF ap] by (auto simp: pend_of_def)
    then show ?thesis using o Some v2 by (auto simp: s3_def live_ok_def)
  next
    case None
    have dist: "distinct (map (\<lambda>k. fst (?I ! k)) (running s))" using o by (simp add: live_ok_def)
    show ?thesis
    proof (cases "find (\<lambda>k. uid (objs s2 ! k) = u) (running s2)")
      case n: None
      then have "\<forall>k \<in> set (running s). fst (?I ! k) \<noteq> u" using uidI by (auto simp: find_None_iff s2_def)
      then show ?thesis using None n dist v2 by (simp add: s3_def abort_running_def)
    next
      case (Some k)
      then have k: "k \<in> set (running s)" "uid (objs s ! k) = u" by (auto simp: find_Some_iff s2_def)
      have r3: "running s3 = remove1 k (running s)" using None Some v2 by (simp add: s3_def abort_running_def)
      have dr: "distinct (running s)" using dist by (simp add: distinct_map)
      have "fst (?I ! j) \<noteq> u" if "j \<in> set (remove1 k (running s))" for j
      proof -
        have "j \<in> set (running s)" "j \<noteq> k" using that dr by auto
        then show ?thesis using dist k uidI [OF k(1)] by (auto simp: distinct_map inj_on_def)
      qed
      moreover have "distinct (map (\<lambda>k. fst (?I ! k)) (remove1 k (running s)))"
        using dist by (auto simp: distinct_map intro: inj_on_subset dest: notin_set_remove1)
      ultimately show ?thesis using r3 set_remove1_subset by fastforce
    qed
  qed
  obtain s4 where s4: "view s4 = view s3" and s': "s' = s4\<lparr>pending_abort_acks := add_to_set u (pending_abort_acks s4)\<rparr>"
  proof -
    obtain k2 where k2: "(case k1 of Some k \<Rightarrow> (Some k, s2) | None \<Rightarrow> abort_running u s2) = (k2, s3)"
      by (cases k1; cases "abort_running u s2") (auto simp: s3_def)
    have r: "rbind (case k2 of None \<Rightarrow> Inr s3
             | Some k \<Rightarrow> if in_flight k s3 then Inr (set_obj k ((objs s3 ! k)\<lparr>aborted := True\<rparr>) s3)
                 else free_req_resources ops k s3)
        (\<lambda>s4. Inr (s4\<lparr>pending_abort_acks := add_to_set u (pending_abort_acks s4)\<rparr>)) = Inr s'"
      using run by (simp add: process_abort_def Let_def tombs ap k2 [unfolded s2_def])
    then obtain s4 where s4: "(case k2 of None \<Rightarrow> Inr s3
             | Some k \<Rightarrow> if in_flight k s3 then Inr (set_obj k ((objs s3 ! k)\<lparr>aborted := True\<rparr>) s3)
                 else free_req_resources ops k s3) = Inr s4"
      and s': "s' = s4\<lparr>pending_abort_acks := add_to_set u (pending_abort_acks s4)\<rparr>"
      by (auto simp: rbind_Inr_conv)
    have "view s4 = view s3"
      using s4 free_view by (auto simp: set_obj_view ident_def split: option.splits if_splits)
    then show ?thesis using that s' by blast
  qed
  have v: "ids_of s' = ?I" "pend_of s' = ?P" "running s' = running s3" "finished_reqs s' = finished_reqs s"
    "abort_tombstones s' = add_to_set u (abort_tombstones s)" "outbox s' = outbox s"
    "set (pending_abort_acks s') = insert u (set (pending_abort_acks s))"
    using s4 v3 unfolding s' by (simp_all add: view_eq ids_of_def pend_of_def)
  have "live_ok ?I (running s3) ?P (closed (outbox s))"
    using o P run3 by (auto simp: live_ok_def)
  moreover have "flight_ok ?I (running s3) ?P (closed (outbox s)) (finished_reqs s) prior"
    using o P run3 by (auto simp: flight_ok_def)
  moreover have "names_ok U (insert u A) ?I ?P (closed (outbox s)) (add_to_set u (abort_tombstones s))"
    using o P add_to_set_distinct by (auto simp: names_ok_def)
  moreover have "acks_ok (insert u A) ?I (running s3) ?P (pending_abort_acks s')"
    using o P run3 v(7) by (auto simp: acks_ok_def)
  ultimately show ?thesis using o v by (simp add: mid_ok_def)
qed

lemma msgs_mid:
  "mid_ok U A prior s \<Longrightarrow> process_msg ops cfg msg s = Inr s' \<Longrightarrow> distinct (users msg) \<Longrightarrow> set (users msg) \<inter> U = {} \<Longrightarrow>
     card (A \<union> set (aborts msg)) \<le> max_tombstones \<Longrightarrow>
     mid_ok (U \<union> set (users msg)) (A \<union> set (aborts msg)) prior s'"
  "mid_ok U A prior s \<Longrightarrow> process_msgs ops cfg msgs s = Inr s' \<Longrightarrow> distinct (users_all msgs) \<Longrightarrow>
     set (users_all msgs) \<inter> U = {} \<Longrightarrow> card (A \<union> set (aborts_all msgs)) \<le> max_tombstones \<Longrightarrow>
     mid_ok (U \<union> set (users_all msgs)) (A \<union> set (aborts_all msgs)) prior s'"
proof (induction msg and msgs arbitrary: U A s s' and U A s s' rule: users_users_all.induct)
  case (3 m)
  then show ?case by (auto intro: user_mid)
next
  case (4 u)
  then show ?case using abort_mid by simp
next
  case (5 m)
  have s': "s' = process_rebuild ops cfg m s" using 5(2) by simp
  show ?case using rebuild_cases [of ops cfg m s]
  proof
    assume "\<exists>a b. process_rebuild ops cfg m s = send_result [rebuild_reply (rb_request_id m) a b (so_geometry ops (sc_mgr s))] s"
    then obtain a b where "s' = send_result [rebuild_reply (rb_request_id m) a b (so_geometry ops (sc_mgr s))] s"
      using s' by blast
    then show ?thesis using rebuild_reply_quiet
      by (auto intro!: mid_quiet [OF 5(1)] simp: send_result_def ids_of_def pend_of_def)
  next
    assume "process_rebuild ops cfg m s = s\<lparr>pending_rebuild := Some m\<rparr>"
    then have "view s' = view s" using s' by (simp add: view_eq ids_of_def pend_of_def)
    then show ?thesis using mid_view 5(1) by auto
  qed
next
  case (7 m ms)
  obtain s1 where s1: "process_msg ops cfg m s = Inr s1" "process_msgs ops cfg ms s1 = Inr s'"
    using 7(4) by (auto simp: rbind_Inr_conv)
  have fin: "finite A" using 7(3) by (simp add: mid_ok_def names_ok_def)
  have "card (A \<union> set (aborts m)) \<le> card (A \<union> set (aborts_all (m # ms)))"
    using fin by (intro card_mono) auto
  then have "mid_ok (U \<union> set (users m)) (A \<union> set (aborts m)) prior s1"
    using 7(1) [OF 7(3) s1(1)] 7(5,6,7) by auto
  then have "mid_ok (U \<union> set (users m) \<union> set (users_all ms)) (A \<union> set (aborts m) \<union> set (aborts_all ms)) prior s'"
    by (rule 7(2) [OF _ s1(2)]) (use 7(5,6,7) in \<open>auto simp: Un_assoc\<close>)
  then show ?case by (simp add: Un_assoc)
qed auto

section \<open>Launching a batch\<close>

text \<open>The batch that was launched: its uids are neither closed nor about to be acknowledged as aborted,
  and it shares with the batch in flight only the same objects.\<close>

definition launched_ok :: "nat list \<Rightarrow> ('m, 'h) sched \<Rightarrow> nat list \<Rightarrow> bool" where
  "launched_ok prior s ks \<longleftrightarrow>
     (\<forall>k \<in> set ks. k < length (ids_of s)) \<and> distinct (map (\<lambda>k. fst (ids_of s ! k)) ks) \<and>
     (\<forall>k \<in> set ks. fst (ids_of s ! k) \<notin> closed (outbox s) \<union> set (pending_abort_acks s)) \<and>
     (\<forall>k \<in> set ks. \<not> snd (ids_of s ! k) \<longrightarrow> fst (ids_of s ! k) \<notin> set (pend_of s) \<and>
        (\<forall>j \<in> set (running s). fst (ids_of s ! j) = fst (ids_of s ! k) \<longrightarrow> j = k)) \<and>
     (\<forall>k \<in> set ks. \<forall>j \<in> set prior. \<not> snd (ids_of s ! j) \<longrightarrow> fst (ids_of s ! j) = fst (ids_of s ! k) \<longrightarrow> j = k)"

lemma launched_okD:
  assumes "launched_ok prior s ks"
  shows "k \<in> set ks \<Longrightarrow> k < length (ids_of s)" "distinct (map (\<lambda>k. fst (ids_of s ! k)) ks)"
    "k \<in> set ks \<Longrightarrow> fst (ids_of s ! k) \<notin> closed (outbox s)" "k \<in> set ks \<Longrightarrow> fst (ids_of s ! k) \<notin> set (pending_abort_acks s)"
    "k \<in> set ks \<Longrightarrow> \<not> snd (ids_of s ! k) \<Longrightarrow> fst (ids_of s ! k) \<notin> set (pend_of s)"
    "k \<in> set ks \<Longrightarrow> \<not> snd (ids_of s ! k) \<Longrightarrow> j \<in> set (running s) \<Longrightarrow> fst (ids_of s ! j) = fst (ids_of s ! k) \<Longrightarrow> j = k"
    "k \<in> set ks \<Longrightarrow> j \<in> set prior \<Longrightarrow> \<not> snd (ids_of s ! j) \<Longrightarrow> fst (ids_of s ! j) = fst (ids_of s ! k) \<Longrightarrow> j = k"
  using assms unfolding launched_ok_def by simp_all

lemma fold_add_set: "set (fold add_to_set xs ys) = set xs \<union> set ys"
  by (induction xs arbitrary: ys) auto

lemma distinct_uids_iff:
  "distinct ks \<Longrightarrow> distinct (map f ks) \<longleftrightarrow> inj_on f (set ks)"
  by (simp add: distinct_map)

lemma fold_add_distinct: "distinct ys \<Longrightarrow> distinct (fold add_to_set xs ys)"
  by (induction xs arbitrary: ys) (simp_all add: add_to_set_distinct)

lemma chunked_not_decode: "can_decode r \<Longrightarrow> \<not> chunked r"
  by (simp add: can_decode_def)

text \<open>The identities \<open>new\<close> that an admission pass makes of the first pending uids: what continues stays
  pending, in front of the rest.\<close>

lemma admitted_uids:
  assumes "distinct P" and "map fst new = take n P" and "i < length new"
  shows "fst (new ! i) \<in> set P" and "\<not> snd (new ! i) \<Longrightarrow> fst (new ! i) \<notin> set (map fst (filter snd new) @ drop n P)"
proof -
  have mem: "fst (new ! i) \<in> set (take n P)" unfolding assms(2) [symmetric] using assms(3) by simp
  then show "fst (new ! i) \<in> set P" by (rule in_set_takeD)
  have d: "distinct (take n P @ drop n P)" using assms(1) by simp
  then have dn: "distinct (map fst new)" unfolding assms(2) by simp
  assume ns: "\<not> snd (new ! i)"
  have "fst (new ! i) \<notin> fst ` set (filter snd new)"
  proof
    assume "fst (new ! i) \<in> fst ` set (filter snd new)"
    then obtain p where p: "p \<in> set new" "snd p" "fst p = fst (new ! i)" by auto
    moreover have "new ! i \<in> set new" using assms(3) by simp
    ultimately have "p = new ! i" using dn by (auto simp: distinct_map inj_on_def)
    then show False using p ns by simp
  qed
  moreover have "fst (new ! i) \<notin> set (drop n P)"
    using mem d [unfolded distinct_append] by blast
  ultimately show "fst (new ! i) \<notin> set (map fst (filter snd new) @ drop n P)" by auto
qed

lemma still_pending:
  assumes "distinct P" and "map fst new = take n P"
  shows "distinct (map fst (filter snd new) @ drop n P)" and "set (map fst (filter snd new) @ drop n P) \<subseteq> set P"
proof -
  have d: "distinct (take n P @ drop n P)" using assms(1) by simp
  have sub: "fst ` set (filter snd new) \<subseteq> set (take n P)" unfolding assms(2) [symmetric] by auto
  have "distinct (map fst new)" unfolding assms(2) using d by simp
  then have "distinct (map fst (filter snd new))" by (simp add: distinct_map_filter)
  then show "distinct (map fst (filter snd new) @ drop n P)"
    using d [unfolded distinct_append] sub unfolding distinct_append set_map by blast
  show "set (map fst (filter snd new) @ drop n P) \<subseteq> set P"
    using sub set_take_subset [of n P] set_drop_subset [of n P] by auto
qed

lemma admit_mid:
  assumes ok: "mid_ok U A prior s" and new: "map fst new = take n (pend_of s)" and I: "ids_of s1 = ids_of s @ new"
    and pend: "pend_of s1 = map fst (filter snd new) @ drop n (pend_of s)"
    and v: "running s1 = running s" "finished_reqs s1 = finished_reqs s" "pending_abort_acks s1 = pending_abort_acks s"
      "abort_tombstones s1 = abort_tombstones s" "outbox s1 = outbox s @ rs"
    and quiet: "\<forall>r \<in> set rs. \<not> is_token r \<and> \<not> is_terminal r"
  shows "mid_ok U A prior s1 \<and> closed (outbox s1) = closed (outbox s)"
proof -
  have C: "closed (outbox s1) = closed (outbox s)" using quiet unfolding v by (auto simp: closed_def)
  note live = live_okD [OF mid_okD(1) [OF ok]] and flight = flight_okD [OF mid_okD(2) [OF ok]]
  note sub = still_pending(2) [OF live(6) new, folded pend] and dist = still_pending(1) [OF live(6) new, folded pend]
  have old: "ids_of s1 ! k = ids_of s ! k" if "k < length (ids_of s)" for k using that I by (simp add: nth_append)
  have oldr: "ids_of s1 ! k = ids_of s ! k" if "k \<in> set (running s)" for k using old live(1) that by blast
  have oldp: "ids_of s1 ! k = ids_of s ! k" if "k \<in> set prior" for k using old flight(1) that by blast
  have len: "k < length (ids_of s) \<Longrightarrow> k < length (ids_of s1)" for k using I by simp
  have mr: "map (\<lambda>k. fst (ids_of s1 ! k)) (running s) = map (\<lambda>k. fst (ids_of s ! k)) (running s)"
    and mp: "map (\<lambda>k. fst (ids_of s1 ! k)) prior = map (\<lambda>k. fst (ids_of s ! k)) prior"
    using oldr oldp by simp_all
  have "live_ok (ids_of s1) (running s) (pend_of s1) (closed (outbox s))"
  proof (rule live_okI)
    show "distinct (map (\<lambda>k. fst (ids_of s1 ! k)) (running s))" unfolding mr by (rule live(5))
    show "set (pend_of s1) \<inter> closed (outbox s) = {}" using sub live(7) by blast
    show "fst (ids_of s1 ! k) \<notin> set (pend_of s1)" if "k \<in> set (running s)" for k
      using oldr [OF that] live(3) [OF that] sub by auto
  qed (use live oldr len dist in auto)
  moreover have "flight_ok (ids_of s1) (running s) (pend_of s1) (closed (outbox s)) (finished_reqs s) prior"
  proof (rule flight_okI)
    show "distinct (map (\<lambda>k. fst (ids_of s1 ! k)) prior)" unfolding mp by (rule flight(2))
    show "fst (ids_of s1 ! k) \<notin> set (pend_of s1)" if "k \<in> set prior" "\<not> snd (ids_of s1 ! k)" for k
      using oldp [OF that(1)] flight(3) that sub by auto
    show "j = k" if "k \<in> set prior" "\<not> snd (ids_of s1 ! k)" "j \<in> set (running s)" "fst (ids_of s1 ! j) = fst (ids_of s1 ! k)" for k j
      using flight(4) that oldp [OF that(1)] oldr [OF that(3)] by simp
    show "k \<in> set (finished_reqs s)" if "k \<in> set prior" "\<not> snd (ids_of s1 ! k)" "fst (ids_of s1 ! k) \<in> closed (outbox s)" for k
      using flight(5) that oldp [OF that(1)] by simp
  qed (use flight len in auto)
  moreover have "names_ok U A (ids_of s1) (pend_of s1) (closed (outbox s)) (abort_tombstones s)"
  proof -
    have "set (map fst new) \<subseteq> set (pend_of s)" unfolding new by (rule set_take_subset)
    then show ?thesis using mid_okD(3) [OF ok] sub I by (auto simp: names_ok_def)
  qed
  moreover have "acks_ok A (ids_of s1) (running s) (pend_of s1) (pending_abort_acks s)"
    using mid_okD(4) [OF ok] oldr sub by (auto simp: acks_ok_def)
  moreover have "no_token_after_end (outbox s1)" unfolding v using mid_okD(5) [OF ok] quiet by (intro no_token_quiet) auto
  ultimately show ?thesis using v C by (simp add: mid_ok_def)
qed

text \<open>The state after the forward of a batch \<open>ks\<close>, from the facts about the batch before it.\<close>

lemma forward_mid:
  assumes ok: "mid_ok U A prior s"
    and ks: "\<forall>k \<in> set ks. k < length (ids_of s)" "distinct (map (\<lambda>k. fst (ids_of s ! k)) ks)"
      "\<forall>k \<in> set ks. fst (ids_of s ! k) \<notin> closed (outbox s) \<union> set (pending_abort_acks s)"
      "\<forall>k \<in> set ks. \<not> snd (ids_of s ! k) \<longrightarrow> fst (ids_of s ! k) \<notin> set (pend_of s)"
      "\<forall>k \<in> set ks. \<forall>j \<in> set (running s). fst (ids_of s ! j) = fst (ids_of s ! k) \<longrightarrow> j = k"
      "\<forall>k \<in> set ks. \<forall>j \<in> set prior. \<not> snd (ids_of s ! j) \<longrightarrow> fst (ids_of s ! j) = fst (ids_of s ! k) \<longrightarrow> j = k"
    and fi: "fi_objs fi = ks"
    and fwd: "run_forward ops cfg sample fi s = Inr (f, s')"
  shows "mid_ok U A prior s' \<and> launched_ok prior s' ks \<and> fl_objs f = ks"
proof -
  let ?I = "ids_of s" and ?R = "fold add_to_set ks (running s)"
  note live = live_okD [OF mid_okD(1) [OF ok]] and flight = flight_okD [OF mid_okD(2) [OF ok]]
  note v = forward_view [OF fwd, unfolded fi]
  have sub: "j \<in> set ks \<or> j \<in> set (running s)" if "j \<in> set (running s')" for j
    using that v by (auto simp: fold_add_set)
  have bound: "j < length ?I" if "j \<in> set (running s')" for j using sub [OF that] ks(1) live(1) by blast
  have nch: "\<not> snd (?I ! j)" if "j \<in> set (running s')" for j
  proof -
    have "can_decode (objs s' ! j)" using that v by simp
    then have "\<not> chunked (objs s' ! j)" by (rule chunked_not_decode)
    moreover have e: "ids_of s' = ?I" using v by blast
    then have "j < length (objs s')" using bound [OF that] by (metis ids_of_def length_map)
    then have "ids_of s' ! j = ident (objs s' ! j)" by (simp add: ids_of_def)
    ultimately show ?thesis unfolding e by (simp add: ident_def)
  qed
  have inj: "j = k" if "j \<in> set ks \<or> j \<in> set (running s)" "k \<in> set ks \<or> k \<in> set (running s)" "fst (?I ! j) = fst (?I ! k)" for j k
  proof -
    have "j = k" if "j \<in> set ks" "k \<in> set ks" using that ks(2) \<open>fst (?I ! j) = _\<close> by (auto simp: distinct_map inj_on_def)
    then show ?thesis using that ks(5) live(8) by metis
  qed
  have dR: "distinct ?R" using live(5) by (intro fold_add_distinct) (simp add: distinct_map)
  have "distinct (running s')" using dR v by simp
  then have dist: "distinct (map (\<lambda>k. fst (?I ! k)) (running s'))"
    using inj sub unfolding distinct_map inj_on_def by blast
  have pend: "fst (?I ! j) \<notin> set (pend_of s)" "fst (?I ! j) \<notin> closed (outbox s)" "fst (?I ! j) \<notin> set (pending_abort_acks s)"
    if "j \<in> set (running s')" for j
    using sub [OF that] nch [OF that] ks(3,4) live(3,4) mid_okD(4) [OF ok] by (auto simp: acks_ok_def)
  have "live_ok ?I (running s') (pend_of s) (closed (outbox s))"
    using bound nch dist live(6,7) pend by (intro live_okI) auto
  moreover have "flight_ok ?I (running s') (pend_of s) (closed (outbox s)) (finished_reqs s) prior"
  proof (rule flight_okI)
    show "j = k" if "k \<in> set prior" "\<not> snd (?I ! k)" "j \<in> set (running s')" "fst (?I ! j) = fst (?I ! k)" for k j
      using sub [OF that(3)] that(1,2,4) ks(6) flight(4) by metis
  qed (use flight in auto)
  moreover have "acks_ok A ?I (running s') (pend_of s) (pending_abort_acks s)"
    using pend(3) mid_okD(4) [OF ok] by (simp add: acks_ok_def)
  moreover have "launched_ok prior s' ks"
    unfolding launched_ok_def using ks(1-4,6) v inj sub by simp
  ultimately show ?thesis using v mid_okD [OF ok] by (simp add: mid_ok_def)
qed

lemma launch_decode:
  assumes ok: "mid_ok U A prior s" and p: "prepare_batch ops (sort_key (\<lambda>k. uid (objs s ! k)) (running s)) Decode s = Inr (fi, s1)"
    and r: "restore_linear_states ops fi s1 = Inr s2" and w: "run_forward ops cfg sample fi s2 = Inr (f, s')"
  shows "mid_ok U A prior s' \<and> launched_ok prior s' (fl_objs f)"
proof -
  let ?ks = "sort_key (\<lambda>k. uid (objs s ! k)) (running s)"
  note live = live_okD [OF mid_okD(1) [OF ok]] and flight = flight_okD [OF mid_okD(2) [OF ok]]
  have v2: "view s2 = view s" and ks: "fi_objs fi = ?ks" using prepare_view [OF p] restore_view [OF r] by simp_all
  have e: "ids_of s2 = ids_of s" "running s2 = running s" "pend_of s2 = pend_of s" "outbox s2 = outbox s"
    "pending_abort_acks s2 = pending_abort_acks s" using v2 by (simp_all add: view_eq)
  have "mid_ok U A prior s' \<and> launched_ok prior s' ?ks \<and> fl_objs f = ?ks"
  proof (rule forward_mid [OF mid_view [OF v2 ok] _ _ _ _ _ _ ks w])
    have "mset (map (\<lambda>k. fst (ids_of s ! k)) ?ks) = mset (map (\<lambda>k. fst (ids_of s ! k)) (running s))" by simp
    then show "distinct (map (\<lambda>k. fst (ids_of s2 ! k)) ?ks)" unfolding e using live(5) by (metis mset_eq_imp_distinct_iff)
    show "\<forall>k \<in> set ?ks. fst (ids_of s2 ! k) \<notin> closed (outbox s2) \<union> set (pending_abort_acks s2)"
      unfolding e using live(4) mid_okD(4) [OF ok] by (auto simp: acks_ok_def)
    show "\<forall>k \<in> set ?ks. \<forall>j \<in> set prior. \<not> snd (ids_of s2 ! j) \<longrightarrow> fst (ids_of s2 ! j) = fst (ids_of s2 ! k) \<longrightarrow> j = k"
      unfolding e using flight(4) by (metis set_sort)
  qed (use live e in auto)
  then show ?thesis by simp
qed

lemma launch_prefill:
  assumes ok: "mid_ok U A prior s" and tp: "take_prefill ops s = Inr (Some (ks, adm), s0)"
    and p: "prepare_batch ops ks Prefill s0 = Inr (fi, s1)"
    and r: "restore_linear_states ops fi (report_prompt_admissions adm s1) = Inr s2"
    and w: "run_forward ops cfg sample fi s2 = Inr (f, s')"
  shows "mid_ok U A prior s' \<and> launched_ok prior s' (fl_objs f)"
proof -
  let ?s1 = "report_prompt_admissions adm s1" and ?P = "pend_of s" and ?L = "length (ids_of s)"
  note v0 = take_prefill_view [OF tp]
  obtain new n where n: "map fst new = take n ?P" and I0: "ids_of s0 = ids_of s @ new"
    and ks: "ks = [?L..<?L + length new]" and pend0: "pend_of s0 = map fst (filter snd new) @ drop n ?P"
    using v0 by auto
  have pv: "view s1 = view s0" and fk: "fi_objs fi = ks" using prepare_view [OF p] by simp_all
  have rec: "ids_of (s1\<lparr>outbox := z\<rparr>) = ids_of s1" "pend_of (s1\<lparr>outbox := z\<rparr>) = pend_of s1" for z
    by (simp_all add: ids_of_def pend_of_def)
  have v1: "ids_of ?s1 = ids_of s @ new" "pend_of ?s1 = map fst (filter snd new) @ drop n ?P" "running ?s1 = running s"
    "finished_reqs ?s1 = finished_reqs s" "pending_abort_acks ?s1 = pending_abort_acks s"
    "abort_tombstones ?s1 = abort_tombstones s"
    "outbox ?s1 = outbox s @ map (\<lambda>(u, n, c). PromptAdmittedMsg \<lparr>pa_uid = u, pa_prompt_tokens = n, pa_cached_tokens = c\<rparr>) adm"
    using pv v0 I0 pend0 by (simp_all add: view_eq report_prompt_admissions_def send_result_def rec)
  have quiet: "\<forall>x \<in> set (map (\<lambda>(u, n, c). PromptAdmittedMsg \<lparr>pa_uid = u, pa_prompt_tokens = n, pa_cached_tokens = c\<rparr>) adm).
      \<not> is_token x \<and> \<not> is_terminal x" by auto
  have ok1: "mid_ok U A prior ?s1" and C: "closed (outbox ?s1) = closed (outbox s)"
    using admit_mid [OF ok n v1(1,2,3,4,5,6,7) quiet] by simp_all
  note live = live_okD [OF mid_okD(1) [OF ok]] and flight = flight_okD [OF mid_okD(2) [OF ok]]
  have v2: "view s2 = view ?s1" by (rule restore_view [OF r])
  have e: "ids_of s2 = ids_of s @ new" "running s2 = running s" "pend_of s2 = map fst (filter snd new) @ drop n ?P"
    "closed (outbox s2) = closed (outbox s)" "pending_abort_acks s2 = pending_abort_acks s"
    using v2 v1 C by (simp_all add: view_eq)
  have idn: "\<exists>i < length new. (ids_of s @ new) ! k = new ! i" if kks: "k \<in> set ks" for k
  proof -
    obtain i where "k = ?L + i" "i < length new" using kks unfolding ks by (auto simp: le_iff_add)
    then show ?thesis by (auto simp: nth_append)
  qed
  have inpend: "fst ((ids_of s @ new) ! k) \<in> set ?P" if "k \<in> set ks" for k
    using idn [OF that] admitted_uids(1) [OF live(6) n] by metis
  have final: "fst ((ids_of s @ new) ! k) \<notin> set (map fst (filter snd new) @ drop n ?P)"
    if "k \<in> set ks" "\<not> snd ((ids_of s @ new) ! k)" for k
    using idn [OF that(1)] admitted_uids(2) [OF live(6) n] that(2) by metis
  have old: "(ids_of s @ new) ! j = ids_of s ! j" if "j < ?L" for j using that by (simp add: nth_append)
  have "mid_ok U A prior s' \<and> launched_ok prior s' ks \<and> fl_objs f = ks"
  proof (rule forward_mid [OF mid_view [OF v2 ok1] _ _ _ _ _ _ fk w])
    show "\<forall>k \<in> set ks. k < length (ids_of s2)" using ks e by auto
    have "map (\<lambda>k. fst ((ids_of s @ new) ! k)) ks = take n ?P"
      unfolding n [symmetric] ks by (rule nth_equalityI) (auto simp: nth_append)
    then show "distinct (map (\<lambda>k. fst (ids_of s2 ! k)) ks)" using live(6) unfolding e by simp
    show "\<forall>k \<in> set ks. fst (ids_of s2 ! k) \<notin> closed (outbox s2) \<union> set (pending_abort_acks s2)"
      using inpend live(7) mid_okD(4) [OF ok] unfolding e acks_ok_def by blast
    show "\<forall>k \<in> set ks. \<not> snd (ids_of s2 ! k) \<longrightarrow> fst (ids_of s2 ! k) \<notin> set (pend_of s2)"
      using final unfolding e by blast
    show "\<forall>k \<in> set ks. \<forall>j \<in> set (running s2). fst (ids_of s2 ! j) = fst (ids_of s2 ! k) \<longrightarrow> j = k"
    proof (intro ballI impI)
      fix k j assume a: "k \<in> set ks" "j \<in> set (running s2)" "fst (ids_of s2 ! j) = fst (ids_of s2 ! k)"
      then have "j \<in> set (running s)" using e by simp
      then show "j = k" using live(3) [of j] inpend [OF a(1)] old [OF live(1)] a(3) unfolding e by simp
    qed
    show "\<forall>k \<in> set ks. \<forall>j \<in> set prior. \<not> snd (ids_of s2 ! j) \<longrightarrow> fst (ids_of s2 ! j) = fst (ids_of s2 ! k) \<longrightarrow> j = k"
    proof (intro ballI impI)
      fix k j assume a: "k \<in> set ks" "j \<in> set prior" "\<not> snd (ids_of s2 ! j)" "fst (ids_of s2 ! j) = fst (ids_of s2 ! k)"
      show "j = k" using flight(3) [OF a(2)] inpend [OF a(1)] old [OF flight(1) [OF a(2)]] a(3,4) unfolding e by simp
    qed
  qed
  then show ?thesis by simp
qed

lemma launch_mid:
  assumes ok: "mid_ok U A prior s" and run: "launch ops cfg sample s = Inr (f, s')"
  shows "mid_ok U A prior s' \<and> launched_ok prior s' (flight_objs f)"
proof -
  obtain fi s1 where sch: "schedule_next_batch ops s = Inr (fi, s1)"
    using run by (auto simp: launch_def rbind_Inr_conv)
  obtain x s0 where tp: "take_prefill ops s = Inr (x, s0)"
    using sch by (auto simp: schedule_next_batch_def rbind_Inr_conv)
  note v0 = take_prefill_view [OF tp]
  show ?thesis
  proof (cases x)
    case None
    have v: "view s0 = view s" using v0 None by (simp add: view_eq)
    have ok0: "mid_ok U A prior s0" by (rule mid_view [OF v ok])
    show ?thesis
    proof (cases "running s0 = []")
      case True
      then have "fi = None" "s1 = s0" using sch tp None by (auto simp: schedule_next_batch_def take_decode_def)
      then have "f = None" "s' = s0" using run sch by (auto simp: launch_def)
      then show ?thesis using ok0 by (simp add: launched_ok_def flight_objs_def)
    next
      case False
      let ?ks = "sort_key (\<lambda>k. uid (objs s0 ! k)) (running s0)"
      obtain fi' where p: "prepare_batch ops ?ks Decode s0 = Inr (fi', s1)" and fi: "fi = Some fi'"
        using sch tp None False by (auto simp: schedule_next_batch_def take_decode_def rbind_Inr_conv)
      obtain s2 f' where r: "restore_linear_states ops fi' s1 = Inr s2" and w: "run_forward ops cfg sample fi' s2 = Inr (f', s')"
        and f: "f = Some f'"
        using run sch fi by (auto simp: launch_def rbind_Inr_conv)
      show ?thesis using launch_decode [OF ok0 p r w] f by (simp add: flight_objs_def)
    qed
  next
    case (Some p)
    obtain ks adm where p: "p = (ks, adm)" by fastforce
    obtain fi' s0' where pr: "prepare_batch ops ks Prefill s0 = Inr (fi', s0')" and fi: "fi = Some fi'"
      and s1: "s1 = report_prompt_admissions adm s0'"
      using sch tp Some p by (auto simp: schedule_next_batch_def rbind_Inr_conv)
    obtain s2 f' where r: "restore_linear_states ops fi' s1 = Inr s2" and w: "run_forward ops cfg sample fi' s2 = Inr (f', s')"
      and f: "f = Some f'"
      using run sch fi by (auto simp: launch_def rbind_Inr_conv)
    show ?thesis
      using launch_prefill [OF ok tp [unfolded Some p] pr r [unfolded s1] w] f by (simp add: flight_objs_def)
  qed
qed

text \<open>Draining a batch: the replies are about distinct requests of the batch that were not finished
  before, and a request with a terminal reply is finished and no longer runs.\<close>

definition drained :: "nat list \<Rightarrow> ('m, 'h) drain \<Rightarrow> ('m, 'h) drain \<Rightarrow> bool" where
  "drained ks d d' \<longleftrightarrow>
     (let I = ids_of (dr_sched d); s = dr_sched d; s' = dr_sched d' in
      ids_of s' = I \<and> pend_of s' = pend_of s \<and> finished_reqs s' = finished_reqs s \<and>
      pending_abort_acks s' = pending_abort_acks s \<and> abort_tombstones s' = abort_tombstones s \<and> outbox s' = outbox s \<and>
      (\<exists>F rs. running s' = filter (\<lambda>k. k \<notin> F) (running s) \<and> set (dr_finished d') = set (dr_finished d) \<union> F \<and>
         F \<subseteq> {k \<in> set ks. \<not> snd (I ! k)} \<and> dr_reply d' = dr_reply d @ rs \<and>
         subseq (map dm_uid rs) (map (\<lambda>k. fst (I ! k)) ks) \<and>
         (\<forall>m \<in> set rs. (\<exists>k \<in> set ks - set (finished_reqs s). \<not> snd (I ! k) \<and> fst (I ! k) = dm_uid m) \<and>
            (dm_finished m \<longrightarrow> (\<exists>k \<in> F. fst (I ! k) = dm_uid m)))))"

lemma drainedI:
  assumes "view (dr_sched d' \<lparr>running := running (dr_sched d)\<rparr>) = view (dr_sched d)"
    and "running (dr_sched d') = filter (\<lambda>k. k \<notin> F) (running (dr_sched d))"
    and "set (dr_finished d') = set (dr_finished d) \<union> F" and "F \<subseteq> {k \<in> set ks. \<not> snd (ids_of (dr_sched d) ! k)}"
    and "dr_reply d' = dr_reply d @ rs" and "subseq (map dm_uid rs) (map (\<lambda>k. fst (ids_of (dr_sched d) ! k)) ks)"
    and "\<And>m. m \<in> set rs \<Longrightarrow> \<exists>k \<in> set ks - set (finished_reqs (dr_sched d)).
           \<not> snd (ids_of (dr_sched d) ! k) \<and> fst (ids_of (dr_sched d) ! k) = dm_uid m"
    and "\<And>m. m \<in> set rs \<Longrightarrow> dm_finished m \<Longrightarrow> \<exists>k \<in> F. fst (ids_of (dr_sched d) ! k) = dm_uid m"
  shows "drained ks d d'"
proof -
  have "ids_of (dr_sched d' \<lparr>running := running (dr_sched d)\<rparr>) = ids_of (dr_sched d')"
    "pend_of (dr_sched d' \<lparr>running := running (dr_sched d)\<rparr>) = pend_of (dr_sched d')"
    by (simp_all add: ids_of_def pend_of_def)
  then show ?thesis using assms unfolding drained_def Let_def view_eq
    by (intro conjI exI [of _ F] exI [of _ rs]) simp_all
qed

lemma drained_nil: "drained [] d d"
  by (rule drainedI [where F = "{}" and rs = "[]"]) (simp_all add: view_eq ids_of_def pend_of_def)

lemma drained_trans:
  assumes a: "drained [k] d d1" and b: "drained ks d1 d2"
  shows "drained (k # ks) d d2"
proof -
  let ?I = "ids_of (dr_sched d)"
  obtain F rs where A: "running (dr_sched d1) = filter (\<lambda>k. k \<notin> F) (running (dr_sched d))"
      "set (dr_finished d1) = set (dr_finished d) \<union> F" "F \<subseteq> {j \<in> set [k]. \<not> snd (?I ! j)}" "dr_reply d1 = dr_reply d @ rs"
      "subseq (map dm_uid rs) (map (\<lambda>k. fst (?I ! k)) [k])"
      "\<forall>m \<in> set rs. (\<exists>j \<in> set [k] - set (finished_reqs (dr_sched d)). \<not> snd (?I ! j) \<and> fst (?I ! j) = dm_uid m) \<and>
         (dm_finished m \<longrightarrow> (\<exists>j \<in> F. fst (?I ! j) = dm_uid m))"
    and V: "ids_of (dr_sched d1) = ?I" "pend_of (dr_sched d1) = pend_of (dr_sched d)"
      "finished_reqs (dr_sched d1) = finished_reqs (dr_sched d)"
      "pending_abort_acks (dr_sched d1) = pending_abort_acks (dr_sched d)"
      "abort_tombstones (dr_sched d1) = abort_tombstones (dr_sched d)" "outbox (dr_sched d1) = outbox (dr_sched d)"
    using a unfolding drained_def Let_def by blast
  obtain G qs where B: "running (dr_sched d2) = filter (\<lambda>k. k \<notin> G) (running (dr_sched d1))"
      "set (dr_finished d2) = set (dr_finished d1) \<union> G" "G \<subseteq> {j \<in> set ks. \<not> snd (?I ! j)}" "dr_reply d2 = dr_reply d1 @ qs"
      "subseq (map dm_uid qs) (map (\<lambda>k. fst (?I ! k)) ks)"
      "\<forall>m \<in> set qs. (\<exists>j \<in> set ks - set (finished_reqs (dr_sched d)). \<not> snd (?I ! j) \<and> fst (?I ! j) = dm_uid m) \<and>
         (dm_finished m \<longrightarrow> (\<exists>j \<in> G. fst (?I ! j) = dm_uid m))"
    and W: "ids_of (dr_sched d2) = ?I" "pend_of (dr_sched d2) = pend_of (dr_sched d)"
      "finished_reqs (dr_sched d2) = finished_reqs (dr_sched d)"
      "pending_abort_acks (dr_sched d2) = pending_abort_acks (dr_sched d)"
      "abort_tombstones (dr_sched d2) = abort_tombstones (dr_sched d)" "outbox (dr_sched d2) = outbox (dr_sched d)"
    using b unfolding drained_def Let_def V by blast
  show ?thesis
  proof (rule drainedI [where F = "F \<union> G" and rs = "rs @ qs"])
    show "subseq (map dm_uid (rs @ qs)) (map (\<lambda>k. fst (?I ! k)) (k # ks))"
      using list_emb_append_mono [OF A(5) B(5)] by simp
    show "running (dr_sched d2) = filter (\<lambda>k. k \<notin> F \<union> G) (running (dr_sched d))"
      using A(1) B(1) by (auto intro!: filter_cong)
  qed (use A B V W in \<open>auto simp: view_eq ids_of_def pend_of_def\<close>)
qed

lemma finish_req_drained:
  assumes run: "finish_req ops k d1 = Inr d'" and v: "view (dr_sched d1) = view (dr_sched d)" "dr_finished d1 = dr_finished d"
    and k: "\<not> snd (ids_of (dr_sched d) ! k)" and rs: "dr_reply d1 = dr_reply d @ rs"
    and uids: "rs = [] \<or> (\<exists>m. rs = [m] \<and> dm_uid m = fst (ids_of (dr_sched d) ! k))"
    and new: "rs \<noteq> [] \<Longrightarrow> k \<notin> set (finished_reqs (dr_sched d))"
  shows "drained [k] d d'"
proof -
  let ?s = "dr_sched d1"
  obtain s' where f: "free_req_resources ops k (?s\<lparr>running := filter (\<lambda>x. x \<noteq> k) (running ?s)\<rparr>) = Inr s'"
    and d': "d' = d1\<lparr>dr_sched := s', dr_finished := add_to_set k (dr_finished d1)\<rparr>"
    using run by (auto simp: finish_req_def Let_def rbind_Inr_conv)
  have s': "view s' = view (?s\<lparr>running := filter (\<lambda>x. x \<noteq> k) (running ?s)\<rparr>)" by (rule free_view [OF f])
  show ?thesis
    by (rule drainedI [where F = "{k}" and rs = rs])
      (use s' v k rs uids new in \<open>auto simp: d' view_eq ids_of_def pend_of_def\<close>)
qed

lemma drain_token_drained:
  assumes run: "drain_token ops cfg is_pre k tok d = Inr d'" and k: "k < length (ids_of (dr_sched d))"
    and live: "\<not> snd (ids_of (dr_sched d) ! k)" "k \<notin> set (finished_reqs (dr_sched d))"
  shows "drained [k] d d'"
proof -
  let ?s = "dr_sched d" and ?u = "fst (ids_of (dr_sched d) ! k)"
  obtain r fin reason matched where ap: "append_host [tok] (objs ?s ! k) = Inr r"
    and fo: "finish_of cfg tok r = Inr (fin, reason, matched)"
    using run by (auto simp: drain_token_def Let_def rbind_Inr_conv)
  define r' where "r' = (if toolcall_anchor_id cfg = Some tok \<and> toolcall_anchor_len r = None \<and> \<not> fin
                  then r\<lparr>toolcall_anchor_len := Some (length (input_ids r))\<rparr> else r)"
  define msg where "msg = \<lparr>dm_uid = uid r, next_token = tok, dm_finished = fin, finish_reason = reason, matched_stop = matched,
                   dm_stop_strs = (if stop_strs (sampling r) = [] then None else Some (stop_strs (sampling r))),
                   dm_usage = no_usage, gpu_mem_bytes = 0\<rparr>"
  define d1 where "d1 = d\<lparr>dr_sched := set_obj k r' ?s, dr_reply := dr_reply d @ [msg]\<rparr>"
  have rest: "(if fin then finish_req ops k d1
        else if is_pre \<and> table_idx r' \<noteq> - 1 then
          rbind (so_cache_req ops r' False (sc_mgr (dr_sched d1))) (\<lambda>(r2, m).
            Inr (d1\<lparr>dr_sched := set_obj k r2 ((dr_sched d1)\<lparr>sc_mgr := m\<rparr>)\<rparr>))
        else Inr d1) = Inr d'"
    using run unfolding drain_token_def Let_def ap fo rbind_simps prod.case r'_def [symmetric] msg_def [symmetric] d1_def .
  have r: "ident r = ident (objs ?s ! k)" using ap by (auto simp: append_host_def py_assert_Inr_conv ident_def split: if_splits)
  then have r': "ident r' = ident (objs ?s ! k)" by (simp add: r'_def ident_def)
  have v1: "view (dr_sched d1) = view ?s" using r' by (simp add: d1_def set_obj_view)
  have u: "dm_uid msg = ?u" using r k by (simp add: msg_def ids_of_def ident_def)
  show ?thesis
  proof (cases fin)
    case True
    then show ?thesis using finish_req_drained [of k d1 d' d "[msg]"] rest v1 live u by (simp add: d1_def)
  next
    case False
    have v: "view (dr_sched d') = view ?s \<and> dr_finished d' = dr_finished d \<and> dr_reply d' = dr_reply d @ [msg]"
    proof (cases "is_pre \<and> table_idx r' \<noteq> - 1")
      case True
      obtain r2 m where c: "so_cache_req ops r' False (sc_mgr (dr_sched d1)) = Inr (r2, m)"
        and d': "d' = d1\<lparr>dr_sched := set_obj k r2 ((dr_sched d1)\<lparr>sc_mgr := m\<rparr>)\<rparr>"
        using rest False True by (auto simp: rbind_Inr_conv)
      have "ident r2 = ident r'" using cache_keeps [OF c] by (rule same_ident)
      moreover have "objs (dr_sched d1) ! k = r'" using k by (simp add: d1_def set_obj_def ids_of_def)
      ultimately have "view (set_obj k r2 ((dr_sched d1)\<lparr>sc_mgr := m\<rparr>)) = view ((dr_sched d1)\<lparr>sc_mgr := m\<rparr>)"
        by (simp add: set_obj_view)
      then show ?thesis using v1 by (simp add: d' view_eq ids_of_def pend_of_def) (simp add: d1_def)
    next
      case f: False
      then have "d' = d1" using rest False by (auto split: if_splits)
      then show ?thesis using v1 by (simp add: d1_def)
    qed
    have nf: "\<not> dm_finished msg" using False by (simp add: msg_def)
    show ?thesis
      by (rule drainedI [where F = "{}" and rs = "[msg]"])
        (use v live u nf in \<open>auto simp: view_eq ids_of_def pend_of_def\<close>)
  qed
qed

lemma drain_one_drained:
  assumes run: "drain_one ops cfg is_pre (k, tok) d = Inr d'" and k: "k < length (ids_of (dr_sched d))"
  shows "drained [k] d d'"
proof -
  let ?s = "dr_sched d" and ?r = "objs (dr_sched d) ! k"
  have ch: "snd (ids_of ?s ! k) \<longleftrightarrow> chunked ?r" using k by (simp add: ids_of_def ident_def)
  have same: "drained [k] d d1" if "view (dr_sched d1) = view ?s" "dr_finished d1 = dr_finished d" "dr_reply d1 = dr_reply d" for d1
    by (rule drainedI [where F = "{}" and rs = "[]"]) (use that in \<open>auto simp: view_eq ids_of_def pend_of_def\<close>)
  consider (chunk) "chunked ?r" | (abort) "\<not> chunked ?r" "aborted ?r" |
    (done_before) "\<not> chunked ?r" "\<not> aborted ?r" "k \<in> set (finished_reqs ?s)" |
    (token) "\<not> chunked ?r" "\<not> aborted ?r" "k \<notin> set (finished_reqs ?s)" by blast
  then show ?thesis
  proof cases
    case chunk
    then have "\<exists>s1. view s1 = view ?s \<and> (d' = d\<lparr>dr_sched := s1\<rparr> \<or> d' = d)"
      using run free_view by (auto simp: drain_one_def Let_def rbind_Inr_conv split: if_splits)
    then show ?thesis using same by auto
  next
    case abort
    then show ?thesis using run finish_req_drained [of k d d' d "[]"] ch by (simp add: drain_one_def Let_def)
  next
    case done_before
    then show ?thesis using run same by (simp add: drain_one_def Let_def)
  next
    case token
    then show ?thesis using run drain_token_drained [OF _ k] ch by (simp add: drain_one_def Let_def)
  qed
qed

lemma drain_loop_drained:
  "drain_loop ops cfg is_pre ps d = Inr d' \<Longrightarrow> \<forall>k \<in> set (map fst ps). k < length (ids_of (dr_sched d)) \<Longrightarrow>
   drained (map fst ps) d d'"
proof (induction ps arbitrary: d)
  case Nil
  then show ?case using drained_nil by simp
next
  case (Cons p ps)
  obtain k tok where p: "p = (k, tok)" by fastforce
  obtain d1 where d1: "drain_one ops cfg is_pre p d = Inr d1" "drain_loop ops cfg is_pre ps d1 = Inr d'"
    using Cons.prems(1) by (auto simp: rbind_Inr_conv)
  have s1: "drained [k] d d1" using drain_one_drained d1(1) Cons.prems(2) unfolding p by simp
  then have "ids_of (dr_sched d1) = ids_of (dr_sched d)" by (simp add: drained_def Let_def)
  then have "drained (map fst ps) d1 d'" using Cons.IH [OF d1(2)] Cons.prems(2) by simp
  then show ?case using drained_trans [OF s1] p by simp
qed

text \<open>Between the drain and the acknowledgements.\<close>

definition drained_ok :: "nat set \<Rightarrow> nat set \<Rightarrow> nat list \<Rightarrow> ('m, 'h) sched \<Rightarrow> bool" where
  "drained_ok U A ks s \<longleftrightarrow> mid_ok U A ks s \<and> (\<forall>k \<in> set ks. fst (ids_of s ! k) \<notin> set (pending_abort_acks s))"

lemma fresh_replies:
  assumes "subseq (map dm_uid rs) us" and "distinct us"
  shows "no_token_after_end (map (\<lambda>m. DetokenizeMsg (m\<lparr>dm_usage := u, gpu_mem_bytes := g\<rparr>)) rs)"
proof -
  have "distinct (map dm_uid rs)" using assms distinct_nthsI unfolding subseq_conv_nths by metis
  then show ?thesis
  proof (induction rs)
    case (Cons m rs)
    have "dm_uid x \<noteq> dm_uid m" if "x \<in> set rs" for x using Cons.prems that by (metis distinct.simps(2) image_eqI image_set list.simps(9))
    then show ?case using Cons by (auto simp: no_token_after_end_def)
  qed (simp add: no_token_after_end_def)
qed

lemma drained_mid:
  assumes ok: "mid_ok U A prior s" and la: "launched_ok prior s ks" and d: "drained qs d d'" and qs: "set qs \<subseteq> set prior" "distinct (map (\<lambda>k. fst (ids_of s ! k)) qs)"
    and v: "view (dr_sched d) = view s" "dr_reply d = []" "dr_finished d = []"
    and s': "ids_of s' = ids_of (dr_sched d')" "running s' = running (dr_sched d')" "pend_of s' = pend_of (dr_sched d')"
      "finished_reqs s' = dr_finished d'" "pending_abort_acks s' = pending_abort_acks (dr_sched d')"
      "abort_tombstones s' = abort_tombstones (dr_sched d')"
      "outbox s' = outbox (dr_sched d') @ map (\<lambda>m. DetokenizeMsg (m\<lparr>dm_usage := u, gpu_mem_bytes := g\<rparr>)) (dr_reply d')"
  shows "drained_ok U A ks s'"
proof -
  let ?I = "ids_of s" and ?tok = "\<lambda>m. DetokenizeMsg (m\<lparr>dm_usage := u, gpu_mem_bytes := g\<rparr>)"
  note L = launched_okD [OF la]
  note live = live_okD [OF mid_okD(1) [OF ok]] and flight = flight_okD [OF mid_okD(2) [OF ok]]
  have vs: "ids_of (dr_sched d) = ?I" "running (dr_sched d) = running s" "pend_of (dr_sched d) = pend_of s"
    "finished_reqs (dr_sched d) = finished_reqs s" "pending_abort_acks (dr_sched d) = pending_abort_acks s"
    "abort_tombstones (dr_sched d) = abort_tombstones s" "outbox (dr_sched d) = outbox s" using v(1) by (simp_all add: view_eq)
  obtain F rs where D: "running (dr_sched d') = filter (\<lambda>k. k \<notin> F) (running s)" "set (dr_finished d') = F"
      "F \<subseteq> {k \<in> set qs. \<not> snd (?I ! k)}" "dr_reply d' = rs" "subseq (map dm_uid rs) (map (\<lambda>k. fst (?I ! k)) qs)"
      "\<And>m. m \<in> set rs \<Longrightarrow> \<exists>k \<in> set qs - set (finished_reqs s). \<not> snd (?I ! k) \<and> fst (?I ! k) = dm_uid m"
      "\<And>m. m \<in> set rs \<Longrightarrow> dm_finished m \<Longrightarrow> \<exists>k \<in> F. fst (?I ! k) = dm_uid m"
    and V: "ids_of (dr_sched d') = ?I" "pend_of (dr_sched d') = pend_of s" "pending_abort_acks (dr_sched d') = pending_abort_acks s"
      "abort_tombstones (dr_sched d') = abort_tombstones s" "outbox (dr_sched d') = outbox s"
    using d unfolding drained_def Let_def vs v(2,3) by auto
  define C' where "C' = closed (outbox s')"
  have out: "outbox s' = outbox s @ map ?tok rs" using s' V D by simp
  have C': "w \<in> closed (outbox s) \<or> (\<exists>k \<in> F. fst (?I ! k) = w)" if "w \<in> C'" for w
  proof -
    have "w \<in> closed (outbox s) \<or> (\<exists>m \<in> set rs. dm_finished m \<and> dm_uid m = w)"
      using that unfolding C'_def out closed_append by (auto simp: closed_def)
    then show ?thesis using D(7) by blast
  qed
  have F: "k \<in> set prior" "\<not> snd (?I ! k)" if "k \<in> F" for k using D(3) that qs(1) by auto
  have dead: "fst (?I ! k) \<notin> C'" if k: "k \<in> set (running s)" "k \<notin> F" for k
  proof
    assume "fst (?I ! k) \<in> C'"
    then obtain j where j: "j \<in> F" "fst (?I ! j) = fst (?I ! k)" using C' live(4) [OF k(1)] by blast
    then have "k = j" using flight(4) [OF F(1) [OF j(1)] F(2) [OF j(1)] k(1)] by simp
    then show False using j k by simp
  qed
  have nopend: "set (pend_of s) \<inter> C' = {}" using C' live(7) flight(3) F by blast
  have next_end: "k \<in> F" if k: "k \<in> set ks" "fst (?I ! k) \<in> C'" for k
  proof -
    have "fst (?I ! k) \<notin> closed (outbox s)" using L(3) k by blast
    then obtain j where j: "j \<in> F" "fst (?I ! j) = fst (?I ! k)" using C' [OF k(2)] by blast
    then have "j = k" using L(7) [OF k(1) F(1) F(2)] by blast
    then show ?thesis using j by simp
  qed
  have run: "set (running (dr_sched d')) \<subseteq> set (running s)" unfolding D by auto
  have "live_ok ?I (running (dr_sched d')) (pend_of s) C'"
  proof (rule live_okI)
    show "distinct (map (\<lambda>k. fst (?I ! k)) (running (dr_sched d')))" unfolding D(1) using live(5) by (rule distinct_map_filter)
    show "fst (?I ! k) \<notin> C'" if "k \<in> set (running (dr_sched d'))" for k using that dead unfolding D(1) by simp
  qed (use run live nopend in auto)
  moreover have "flight_ok ?I (running (dr_sched d')) (pend_of s) C' (dr_finished d') ks"
    by (rule flight_okI) (use L run next_end D(2) in auto)
  moreover have "names_ok U A ?I (pend_of s) C' (abort_tombstones s)"
  proof -
    have N: "fst ` set ?I \<subseteq> U" "closed (outbox s) \<subseteq> U \<union> A" using mid_okD(3) [OF ok] by (simp_all add: names_ok_def)
    have "fst (?I ! k) \<in> U" if "k \<in> F" for k
      using N(1) nth_mem [OF flight(1) [OF F(1) [OF that]]] by blast
    then have "w \<in> U \<union> A" if "w \<in> C'" for w using C' [OF that] N(2) by blast
    then have "C' \<subseteq> U \<union> A" by (rule subsetI)
    then show ?thesis using mid_okD(3) [OF ok] by (simp add: names_ok_def)
  qed
  moreover have "acks_ok A ?I (running (dr_sched d')) (pend_of s) (pending_abort_acks s)"
    using mid_okD(4) [OF ok] run by (auto simp: acks_ok_def)
  moreover have "no_token_after_end (outbox s')" unfolding out
  proof (rule no_token_append [OF mid_okD(5) [OF ok] fresh_replies [OF D(5) qs(2)]], intro ballI impI allI)
    fix y w assume "y \<in> set (map ?tok rs)" "is_token y" "reply_uid y = Some w"
    then obtain m where m: "m \<in> set rs" "w = dm_uid m" by auto
    then obtain k where k: "k \<in> set qs" "k \<notin> set (finished_reqs s)" "\<not> snd (?I ! k)" "fst (?I ! k) = w"
      using D(6) [OF m(1)] by auto
    then have "k \<in> set prior" using qs(1) by blast
    then show "w \<notin> closed (outbox s)" using flight(5) [of k] k by blast
  qed
  moreover have "\<forall>k \<in> set ks. fst (?I ! k) \<notin> set (pending_abort_acks s)" using L(4) by blast
  moreover have e: "ids_of s' = ?I" "running s' = running (dr_sched d')" "pend_of s' = pend_of s" "finished_reqs s' = dr_finished d'"
    "abort_tombstones s' = abort_tombstones s" "pending_abort_acks s' = pending_abort_acks s" "closed (outbox s') = C'"
    using s' V C'_def by simp_all
  ultimately show ?thesis unfolding drained_ok_def mid_ok_def e by blast
qed

lemma process_last_data_mid:
  assumes ok: "mid_ok U A (flight_objs prior) s" and la: "launched_ok (flight_objs prior) s ks"
    and run: "process_last_data ops cfg prior s = Inr s'"
  shows "drained_ok U A ks s'"
proof (cases prior)
  case None
  then have s': "s' = s" using run by (simp add: process_last_data_def)
  have "flight_ok (ids_of s) (running s) (pend_of s) (closed (outbox s)) (finished_reqs s) ks"
    by (rule flight_okI) (use la in \<open>auto simp: launched_ok_def\<close>)
  then show ?thesis using ok la by (simp add: s' drained_ok_def mid_ok_def launched_ok_def)
next
  case (Some f)
  let ?z = "zip (fl_objs f) (fl_tokens f)"
  let ?d = "\<lparr>dr_sched = s\<lparr>sc_mgr := so_enter_lazy ops (sc_mgr s)\<rparr>, dr_reply = [], dr_finished = []\<rparr>"
  obtain d where d: "drain_loop ops cfg (fl_phase f = Prefill) ?z ?d = Inr d"
    and s': "s' = send_result (map (\<lambda>m. DetokenizeMsg (m\<lparr>dm_usage := usage_now ops ((dr_sched d)
         \<lparr>sc_mgr := so_exit_lazy ops (sc_mgr (dr_sched d)), finished_reqs := dr_finished d\<rparr>), gpu_mem_bytes := gpu_mem cfg\<rparr>)) (dr_reply d))
       ((dr_sched d)\<lparr>sc_mgr := so_exit_lazy ops (sc_mgr (dr_sched d)), finished_reqs := dr_finished d\<rparr>)"
    using run Some by (auto simp: process_last_data_def Let_def rbind_Inr_conv)
  note flight = flight_okD [OF mid_okD(2) [OF ok], unfolded Some flight_objs_def option.case]
  have z: "map fst ?z = take (length (fl_tokens f)) (fl_objs f)" by (simp add: map_fst_zip_take min_def)
  have sub: "set (map fst ?z) \<subseteq> set (flight_objs prior)" using set_take_subset unfolding z Some by (simp add: flight_objs_def)
  have v: "view (dr_sched ?d) = view s" by (simp add: view_eq ids_of_def pend_of_def)
  have dist: "distinct (map (\<lambda>k. fst (ids_of s ! k)) (map fst ?z))"
    unfolding z using flight(2) by (simp add: take_map [symmetric])
  have "\<forall>k \<in> set (map fst ?z). k < length (ids_of (dr_sched ?d))"
  proof
    fix k assume "k \<in> set (map fst ?z)"
    then have "k \<in> set (fl_objs f)" using sub Some by (auto simp: flight_objs_def)
    then show "k < length (ids_of (dr_sched ?d))" using flight(1) by (simp add: ids_of_def)
  qed
  then have dd: "drained (map fst ?z) ?d d" by (rule drain_loop_drained [OF d])
  let ?u = "usage_now ops ((dr_sched d)\<lparr>sc_mgr := so_exit_lazy ops (sc_mgr (dr_sched d)), finished_reqs := dr_finished d\<rparr>)"
  show ?thesis
    by (rule drained_mid [OF ok la dd sub dist v, where u = ?u and g = "gpu_mem cfg"])
      (simp_all add: s' send_result_def ids_of_def pend_of_def)
qed

lemma flush_inv:
  assumes ok: "drained_ok U A (flight_objs f) s"
  shows "sched_inv U A f (flush_abort_acks ops s)"
proof (cases "pending_abort_acks s = []")
  case True
  then show ?thesis using ok by (simp add: sched_inv_def drained_ok_def flush_abort_acks_def)
next
  case False
  let ?r = "\<lambda>u. ErrorReplyMsg \<lparr>er_uid = u, er_error = ''request aborted'', er_code = None, er_usage = usage_now ops s\<rparr>"
  let ?K = "set (pending_abort_acks s)" and ?C = "closed (outbox s)" and ?s = "flush_abort_acks ops s"
  have m: "mid_ok U A (flight_objs f) s" and k: "\<And>k. k \<in> set (flight_objs f) \<Longrightarrow> fst (ids_of s ! k) \<notin> ?K"
    using ok by (auto simp: drained_ok_def)
  note live = live_okD [OF mid_okD(1) [OF m]] and flight = flight_okD [OF mid_okD(2) [OF m]]
  have K: "?K \<subseteq> A" "?K \<inter> set (pend_of s) = {}" "\<And>k. k \<in> set (running s) \<Longrightarrow> fst (ids_of s ! k) \<notin> ?K"
    using mid_okD(4) [OF m] by (auto simp: acks_ok_def)
  have out: "outbox ?s = outbox s @ map ?r (sort (pending_abort_acks s))" using False by (simp add: flush_abort_acks_def send_result_def)
  have v: "ids_of ?s = ids_of s" "running ?s = running s" "pend_of ?s = pend_of s" "finished_reqs ?s = finished_reqs s"
    "abort_tombstones ?s = abort_tombstones s" "pending_abort_acks ?s = []"
    using False by (simp_all add: flush_abort_acks_def send_result_def ids_of_def pend_of_def)
  have "closed (map ?r (sort (pending_abort_acks s))) = ?K" by (auto simp: closed_def)
  then have C: "closed (outbox ?s) = ?C \<union> ?K" unfolding out closed_append by simp
  have "live_ok (ids_of s) (running s) (pend_of s) (?C \<union> ?K)"
    by (rule live_okI) (use live K in auto)
  moreover have "flight_ok (ids_of s) (running s) (pend_of s) (?C \<union> ?K) (finished_reqs s) (flight_objs f)"
    by (rule flight_okI) (use flight k in auto)
  moreover have "names_ok U A (ids_of s) (pend_of s) (?C \<union> ?K) (abort_tombstones s)"
    using mid_okD(3) [OF m] K by (auto simp: names_ok_def)
  moreover have "acks_ok A (ids_of s) (running s) (pend_of s) []" by (simp add: acks_ok_def)
  moreover have "no_token_after_end (outbox ?s)" unfolding out by (rule no_token_quiet [OF mid_okD(5) [OF m]]) auto
  ultimately show ?thesis by (simp add: sched_inv_def mid_ok_def v C)
qed

lemma execute_rebuild_mid:
  assumes ok: "mid_ok U A prior s" and run: "execute_pending_rebuild ops cfg er s = Inr s'"
  shows "mid_ok U A prior s'"
proof -
  obtain msg x s1 where r: "rebuild_cache ops cfg er msg (s\<lparr>pending_rebuild := None\<rparr>) = Inr (x, s1)"
    and s1: "s' = send_result [rebuild_reply (rb_request_id msg) (if x = None then ''ok'' else ''rejected'') x
                 (so_geometry ops (sc_mgr s1))] s1"
    using run by (auto simp: execute_pending_rebuild_def rbind_Inr_conv split: option.splits)
  then obtain y where y: "\<exists>i a b g. y = rebuild_reply i a b g" and s': "s' = s1\<lparr>outbox := outbox s1 @ [y]\<rparr>"
    unfolding send_result_def by blast
  have "view s1 = view s" using rebuild_view [OF r] by (simp add: view_eq ids_of_def pend_of_def)
  then have m: "mid_ok U A prior s1" by (rule mid_view [OF _ ok])
  have q: "\<forall>z \<in> set [y]. \<not> is_token z \<and> \<not> is_terminal z" using y rebuild_reply_quiet by auto
  show ?thesis
    by (rule mid_quiet [where s = s1 and rs = "[y]", OF m _ _ _ _ _ _ _ q]) (simp_all add: s' ids_of_def pend_of_def)
qed

lemma overlap_loop_inv:
  assumes inv: "sched_inv U A prior s" and run: "overlap_loop ops cfg er sample msgs prior s = Inr (f, s')"
    and fresh: "distinct (users_all msgs)" "set (users_all msgs) \<inter> U = {}"
    and card: "card (A \<union> set (aborts_all msgs)) \<le> max_tombstones"
  shows "sched_inv (U \<union> set (users_all msgs)) (A \<union> set (aborts_all msgs)) f s'"
proof -
  let ?U = "U \<union> set (users_all msgs)" and ?A = "A \<union> set (aborts_all msgs)" and ?p = "flight_objs prior"
  obtain s1 s2 s3 s4 where s1: "process_msgs ops cfg msgs (s\<lparr>last_flight := prior\<rparr>) = Inr s1"
    and s2: "(if pending_rebuild s1 \<noteq> None \<and> prior = None \<and> \<not> (prefill_runnable s1 \<or> decode_runnable s1)
            then execute_pending_rebuild ops cfg er s1 else Inr s1) = Inr s2"
    and s3: "launch ops cfg sample s2 = Inr (f, s3)" and s4: "process_last_data ops cfg prior s3 = Inr s4"
    and s': "s' = flush_abort_acks ops s4"
    using run by (auto simp: overlap_loop_def rbind_Inr_conv)
  have "mid_ok U A ?p (s\<lparr>last_flight := prior\<rparr>)"
    by (rule mid_view [where s = s]) (use inv in \<open>simp_all add: sched_inv_def view_eq ids_of_def pend_of_def\<close>)
  then have "mid_ok ?U ?A ?p s1" by (rule msgs_mid(2) [OF _ s1 fresh card])
  then have "mid_ok ?U ?A ?p s2" using s2 execute_rebuild_mid by (auto split: if_splits)
  from launch_mid [OF this s3] have "mid_ok ?U ?A ?p s3" "launched_ok ?p s3 (flight_objs f)" by simp_all
  then have "drained_ok ?U ?A (flight_objs f) s4" by (rule process_last_data_mid [OF _ _ s4])
  then show ?thesis unfolding s' by (rule flush_inv)
qed

end

section \<open>Runs\<close>

text \<open>The states the overlap loop reaches; \<open>ops t\<close> are the operations of the manager at time \<open>t\<close>. Each
  user message names a uid of its own, and no more uids are aborted than there are tombstones. The
  engine may answer differently in every iteration.\<close>

inductive sched_run ::
    "(int \<Rightarrow> ('m, 'h) sched_ops) \<Rightarrow> sched_cfg \<Rightarrow> nat set \<Rightarrow> nat set \<Rightarrow> flight option \<Rightarrow> ('m, 'h) sched \<Rightarrow> bool"
  for ops cfg where
  run_start: "sched_run ops cfg {} {} None (new_sched (ops t) cfg ps tabs m)"
| run_step: "sched_run ops cfg U A prior s \<Longrightarrow> overlap_loop (ops t) cfg er sample msgs prior s = Inr (f, s') \<Longrightarrow>
    distinct (users_all msgs) \<Longrightarrow> set (users_all msgs) \<inter> U = {} \<Longrightarrow> card (A \<union> set (aborts_all msgs)) \<le> max_tombstones \<Longrightarrow>
    sched_run ops cfg (U \<union> set (users_all msgs)) (A \<union> set (aborts_all msgs)) f s'"

lemma run_inv:
  assumes "\<And>t. sched_contract (ops t)" and "sched_run ops cfg U A f s"
  shows "sched_inv U A f s"
  using assms(2) by (induction rule: sched_run.induct)
    (auto intro: new_sched_inv sched_contract.overlap_loop_inv [OF assms(1)])

lemma run_safe: "(\<And>t. sched_contract (ops t)) \<Longrightarrow> sched_run ops cfg U A f s \<Longrightarrow> no_token_after_end (outbox s)"
  by (drule (1) run_inv) (simp add: sched_inv_def mid_ok_def)

end
