(* ===== verification/State_Pools.thy ===== *)
theory State_Pools
  imports Pages Prelude
begin

text \<open>
  The two pools of slots beside the KV pages: \<open>LinearStatePool\<close> (\<open>kvcache/linear_state_pool.py\<close>),
  whose slots hold the recurrent state of a sequence, and the sliding-window half of
  \<open>HybridSWAKVCache\<close> (\<open>kvcache/hybrid_swa_pool.py\<close>), which maps every slot of the full pool to a slot
  of a smaller pool. The state of a slot is an abstract value (conv, recurrent and declared sibling
  tensors together); sizes and the arithmetic of the budgets are as in the source.
\<close>

section \<open>Recurrent states\<close>

record 's lpool =
  lp_states :: "'s list"
  lp_zero :: 's
  lp_free_slots :: "nat list"

abbreviation lp_num_slots :: "'s lpool \<Rightarrow> nat" where
  "lp_num_slots p \<equiv> length (lp_states p)"

definition new_lpool :: "'s \<Rightarrow> nat \<Rightarrow> 's lpool" where
  "new_lpool zero n = \<lparr>lp_states = replicate n zero, lp_zero = zero, lp_free_slots = [1..<n]\<rparr>"

definition num_free_slots :: "'s lpool \<Rightarrow> nat" where
  "num_free_slots p = length (lp_free_slots p)"

text \<open>\<open>[self._free_slots.pop() for _ in range(n)]\<close>: the last slots first.\<close>

definition lp_alloc :: "nat \<Rightarrow> 's lpool \<Rightarrow> (nat list \<times> 's lpool) result" where
  "lp_alloc n p =
     (if n > length (lp_free_slots p) then Inl RuntimeError
      else Inr (take n (rev (lp_free_slots p)),
                p\<lparr>lp_free_slots := take (length (lp_free_slots p) - n) (lp_free_slots p)\<rparr>))"

definition lp_free :: "nat list \<Rightarrow> 's lpool \<Rightarrow> 's lpool" where
  "lp_free slots p = p\<lparr>lp_free_slots := lp_free_slots p @ slots\<rparr>"

definition reclaim_all_slots :: "'s lpool \<Rightarrow> 's lpool" where
  "reclaim_all_slots p = p\<lparr>lp_free_slots := [1..<lp_num_slots p]\<rparr>"

definition lp_rebuild :: "nat \<Rightarrow> 's lpool \<Rightarrow> 's lpool" where
  "lp_rebuild n p = p\<lparr>lp_states := replicate n (lp_zero p), lp_free_slots := [1..<n]\<rparr>"

definition clear_slots :: "nat list \<Rightarrow> 's lpool \<Rightarrow> 's lpool result" where
  "clear_slots slots p =
     (if list_all (\<lambda>i. i < lp_num_slots p) slots
      then Inr (p\<lparr>lp_states := fold (\<lambda>i ss. ss[i := lp_zero p]) slots (lp_states p)\<rparr>)
      else Inl IndexError)"

definition copy_from :: "nat \<Rightarrow> nat \<Rightarrow> 's lpool \<Rightarrow> 's lpool result" where
  "copy_from src dst p =
     (if src < lp_num_slots p \<and> dst < lp_num_slots p
      then Inr (p\<lparr>lp_states := (lp_states p)[dst := lp_states p ! src]\<rparr>)
      else Inl IndexError)"

definition lp_reset :: "nat \<Rightarrow> 's lpool \<Rightarrow> 's lpool result" where
  "lp_reset i p = (if i < lp_num_slots p then Inr (p\<lparr>lp_states := (lp_states p)[i := lp_zero p]\<rparr>) else Inl IndexError)"

text \<open>Every slot but the padding slot 0 is free or in use, once.\<close>

definition lp_ok :: "nat multiset \<Rightarrow> 's lpool \<Rightarrow> bool" where
  "lp_ok used p \<longleftrightarrow> mset (lp_free_slots p) + used = mset [1..<lp_num_slots p]"

lemma new_lpool_ok: "lp_ok {#} (new_lpool z n)"
  by (simp add: lp_ok_def new_lpool_def)

lemma lp_alloc_ok:
  assumes "lp_ok used p" and "lp_alloc n p = Inr (xs, p')"
  shows "lp_ok (used + mset xs) p'" and "length xs = n" and "num_free_slots p' + n = num_free_slots p"
    and "lp_states p' = lp_states p"
proof -
  have n: "n \<le> length (lp_free_slots p)" and xs: "xs = take n (rev (lp_free_slots p))"
    and p': "p' = p\<lparr>lp_free_slots := take (length (lp_free_slots p) - n) (lp_free_slots p)\<rparr>"
    using assms(2) by (auto simp: lp_alloc_def split: if_splits)
  have "mset (take (length l - n) l) + mset (take n (rev l)) = mset l" for l :: "nat list"
    by (metis append_take_drop_id mset_append mset_rev take_rev)
  then show "lp_ok (used + mset xs) p'" using assms(1) unfolding lp_ok_def xs p'
    by (simp add: add.assoc [symmetric]) (metis add.commute add.left_commute)
  show "length xs = n" "num_free_slots p' + n = num_free_slots p" "lp_states p' = lp_states p"
    using n by (simp_all add: xs p' num_free_slots_def)
qed

lemma lp_alloc_total: "n \<le> num_free_slots p \<Longrightarrow> \<exists>xs p'. lp_alloc n p = Inr (xs, p')"
  by (simp add: lp_alloc_def num_free_slots_def)

lemma lp_free_ok: "lp_ok (used + mset xs) p \<Longrightarrow> lp_ok used (lp_free xs p)"
  by (simp add: lp_ok_def lp_free_def ac_simps)

lemma lp_free_len [simp]: "num_free_slots (lp_free xs p) = num_free_slots p + length xs"
  by (simp add: num_free_slots_def lp_free_def)

lemma lp_free_states [simp]: "lp_states (lp_free xs p) = lp_states p"
  by (simp add: lp_free_def)

lemma copy_from_ok: "copy_from a b p = Inr p' \<Longrightarrow> lp_ok used p' = lp_ok used p \<and> num_free_slots p' = num_free_slots p"
  by (auto simp: copy_from_def lp_ok_def num_free_slots_def split: if_splits)

section \<open>Sizes of the recurrent-state pool\<close>

record gdn_group =
  gdn_layer_ids :: "nat list"
  num_key_heads :: int
  num_value_heads :: int
  key_head_dim :: int
  value_head_dim :: int
  conv_kernel_dim :: int

record slot_spec =
  ss_layer_ids :: "nat list"
  ss_shape :: "int list"
  ss_itemsize :: "int option"

definition linear_local_dims :: "gdn_group \<Rightarrow> int \<Rightarrow> (nat \<times> int \<times> int) result" where
  "linear_local_dims g tp =
     rbind (div_even (num_key_heads g) tp True) (\<lambda>local_k_heads.
     rbind (div_even (num_value_heads g) tp True) (\<lambda>local_v_heads.
       Inr (length (gdn_layer_ids g),
            2 * local_k_heads * key_head_dim g + local_v_heads * value_head_dim g, local_v_heads)))"

definition slot_spec_bytes :: "int \<Rightarrow> slot_spec \<Rightarrow> int" where
  "slot_spec_bytes itemsize sp =
     int (max 1 (length (ss_layer_ids sp))) * prod_list (ss_shape sp) *
     (case ss_itemsize sp of Some i \<Rightarrow> i | None \<Rightarrow> itemsize)"

definition linear_state_bytes_per_req :: "gdn_group \<Rightarrow> int \<Rightarrow> int \<Rightarrow> int \<Rightarrow> slot_spec list \<Rightarrow> int result" where
  "linear_state_bytes_per_req g tp itemsize ssm_itemsize specs =
     rbind (linear_local_dims g tp) (\<lambda>(n_layers, conv_dim, v_heads).
       let conv_elems = conv_dim * (conv_kernel_dim g - 1);
           rec_elems = v_heads * key_head_dim g * value_head_dim g in
       Inr (int n_layers * (conv_elems * itemsize + rec_elems * ssm_itemsize) +
            sum_list (map (slot_spec_bytes itemsize) specs)))"

text \<open>\<open>int(ratio * mr)\<close> is a product of floats cut to an integer; the model takes it as \<open>cached\<close>.\<close>

definition linear_pool_num_slots :: "bool \<Rightarrow> nat \<Rightarrow> (nat \<Rightarrow> int) \<Rightarrow> int" where
  "linear_pool_num_slots hybrid mr cached =
     (if \<not> hybrid then int mr + 1 else 4 * int mr + max 4 (cached mr) + 1)"

definition linear_pool_min_slots :: "bool \<Rightarrow> nat \<Rightarrow> int" where
  "linear_pool_min_slots hybrid mr = (if \<not> hybrid then int mr + 1 else 4 * int mr + 1)"

definition state_pool_bytes ::
    "gdn_group option \<Rightarrow> slot_spec list \<Rightarrow> int \<Rightarrow> int \<Rightarrow> int \<Rightarrow> int option \<Rightarrow> int \<Rightarrow> int result" where
  "state_pool_bytes grp specs tp itemsize ssm_itemsize num_slots default_slots =
     (case grp of
        None \<Rightarrow> if specs \<noteq> [] then Inl ValueError else Inr 0
      | Some g \<Rightarrow>
          rbind (linear_state_bytes_per_req g tp itemsize ssm_itemsize specs) (\<lambda>per_req.
            Inr (per_req * (case num_slots of Some n \<Rightarrow> n | None \<Rightarrow> default_slots))))"

section \<open>The sliding-window pool\<close>

text \<open>\<open>full_to_swa_index_mapping\<close> has an entry for every full slot, a page of padding, and a last
  entry -1; slot 0 of the window pool means that the full slot has no live window slot.\<close>

record swa_pool =
  sp_page_size :: nat
  swa_num_tokens :: nat
  full_to_swa :: "int list"
  swa_free :: "nat list"

definition new_swa_pool :: "nat \<Rightarrow> nat \<Rightarrow> nat option \<Rightarrow> swa_pool" where
  "new_swa_pool num_full_pages ps num_swa_tokens =
     (let full = num_full_pages * ps; n = (case num_swa_tokens of Some n \<Rightarrow> n | None \<Rightarrow> full) in
      \<lparr>sp_page_size = ps, swa_num_tokens = n, full_to_swa = replicate (full + ps) 0 @ [- 1],
       swa_free = [1..<n]\<rparr>)"

definition swa_rebuild :: "nat \<Rightarrow> nat option \<Rightarrow> swa_pool \<Rightarrow> swa_pool" where
  "swa_rebuild num_full_pages num_swa_tokens p = new_swa_pool num_full_pages (sp_page_size p) num_swa_tokens"

definition translate_loc :: "nat list \<Rightarrow> swa_pool \<Rightarrow> int list result" where
  "translate_loc locs p =
     (if list_all (\<lambda>i. i < length (full_to_swa p)) locs then Inr (map ((!) (full_to_swa p)) locs)
      else Inl IndexError)"

text \<open>Assignment at a list of indices: of a repeated index the last value stays.\<close>

definition assign_at :: "nat list \<Rightarrow> int list \<Rightarrow> int list \<Rightarrow> int list" where
  "assign_at is vs xs = fold (\<lambda>(i, v) xs. xs[i := v]) (zip is vs) xs"

definition alloc_swa :: "nat list \<Rightarrow> swa_pool \<Rightarrow> swa_pool result" where
  "alloc_swa full_indices p =
     (let n = length full_indices in
      if n = 0 then Inr p
      else if n > length (swa_free p) then Inl RuntimeError
      else if \<not> list_all (\<lambda>i. i < length (full_to_swa p)) full_indices then Inl IndexError
      else Inr (p\<lparr>swa_free := drop n (swa_free p),
                 full_to_swa := assign_at full_indices (map int (take n (swa_free p))) (full_to_swa p)\<rparr>))"

definition free_swa :: "nat list \<Rightarrow> swa_pool \<Rightarrow> swa_pool result" where
  "free_swa full_indices p =
     (if full_indices = [] then Inr p
      else rbind (translate_loc full_indices p) (\<lambda>swa.
        Inr (p\<lparr>swa_free := swa_free p @ map nat (filter (\<lambda>x. 0 < x) swa),
              full_to_swa := assign_at full_indices (replicate (length full_indices) 0) (full_to_swa p)\<rparr>)))"

definition swa_available_size :: "swa_pool \<Rightarrow> nat" where
  "swa_available_size p = length (swa_free p)"

text \<open>Pool sizing; \<open>ratio\<close> stands for \<open>int(swa_full_tokens_ratio * full_tokens)\<close>.\<close>

definition naive_swa_num_tokens :: "nat \<Rightarrow> nat \<Rightarrow> nat \<Rightarrow> nat" where
  "naive_swa_num_tokens window max_forward_len mr = (mr + 1) * align_ceil (window + max_forward_len + 1) 32"

definition swa_retain_gap :: nat where
  "swa_retain_gap = 16"

definition swa_per_req_swa_floor :: "nat \<Rightarrow> nat \<Rightarrow> nat \<Rightarrow> bool \<Rightarrow> nat" where
  "swa_per_req_swa_floor window ps interval special_token_ckpt =
     (let locked = ((window + swa_retain_gap + ps - 1) div ps) * ps;
          floor = locked + window + interval + 2 * ps in
      if special_token_ckpt then floor + (window + swa_retain_gap + interval) else floor)"

definition swa_pool_floor :: "nat \<Rightarrow> nat \<Rightarrow> nat \<Rightarrow> nat \<Rightarrow> bool \<Rightarrow> nat" where
  "swa_pool_floor mr window ps interval ckpt = mr * swa_per_req_swa_floor window ps interval ckpt"

definition swa_paged_num_tokens :: "nat \<Rightarrow> nat \<Rightarrow> nat \<Rightarrow> (nat \<Rightarrow> int) \<Rightarrow> nat option \<Rightarrow> nat option \<Rightarrow> int" where
  "swa_paged_num_tokens floor num_full_pages ps ratio num_swa_pages swa_override =
     (case (case num_swa_pages of Some n \<Rightarrow> Some n | None \<Rightarrow> swa_override) of
        Some n \<Rightarrow> int (max floor n) + 1
      | None \<Rightarrow> max (int floor) (ratio (num_full_pages * ps)) + 1)"

text \<open>Conservation: the free window slots and the mapped ones are together the slots 1, 2, ..., each
  once.\<close>

definition mapped :: "swa_pool \<Rightarrow> nat list" where
  "mapped p = map nat (filter (\<lambda>x. 0 < x) (full_to_swa p))"

definition swa_ok :: "swa_pool \<Rightarrow> bool" where
  "swa_ok p \<longleftrightarrow> mset (swa_free p) + mset (mapped p) = mset [1..<swa_num_tokens p]"

lemma new_swa_pool_ok: "swa_ok (new_swa_pool n ps k)"
  by (simp add: swa_ok_def new_swa_pool_def Let_def mapped_def)

lemma mset_update_mapped:
  "i < length xs \<Longrightarrow>
   mset (map nat (filter (\<lambda>x. 0 < x) (xs[i := v]))) + (if 0 < xs ! i then {#nat (xs ! i)#} else {#}) =
   mset (map nat (filter (\<lambda>x. 0 < x) xs)) + (if 0 < v then {#nat v#} else {#})"
proof (induction xs arbitrary: i)
  case (Cons x xs)
  show ?case
  proof (cases i)
    case (Suc j)
    then show ?thesis using Cons.IH [of j] Cons.prems by (auto split: if_splits)
  qed (use Cons.prems in simp)
qed simp

lemma assign_at_length [simp]: "length (assign_at is vs xs) = length xs"
proof -
  have "length (fold (\<lambda>(i, v) xs. xs[i := v]) ps xs) = length xs" for ps and xs :: "int list"
    by (induction ps arbitrary: xs) auto
  then show ?thesis by (simp add: assign_at_def)
qed

lemma assign_at_Cons: "assign_at (i # is) (v # vs) xs = assign_at is vs (xs[i := v])"
  by (simp add: assign_at_def)

lemma assign_at_other: "i \<notin> set is \<Longrightarrow> assign_at is vs xs ! i = xs ! i"
proof (induction "is" arbitrary: vs xs)
  case (Cons j js)
  then show ?case by (cases vs) (auto simp: assign_at_Cons, auto simp: assign_at_def)
qed (simp add: assign_at_def)

text \<open>Assigning window slots to full slots that have none.\<close>

lemma mapped_assign_fresh:
  "length vs = length is \<Longrightarrow> distinct is \<Longrightarrow> \<forall>i \<in> set is. i < length xs \<and> xs ! i = 0 \<Longrightarrow> \<forall>v \<in> set vs. 0 < v \<Longrightarrow>
   mset (map nat (filter (\<lambda>x. 0 < x) (assign_at is (map int vs) xs))) =
     mset (map nat (filter (\<lambda>x. 0 < x) xs)) + mset vs"
proof (induction "is" arbitrary: vs xs)
  case (Cons i js)
  obtain v vs' where vs: "vs = v # vs'" using Cons.prems(1) by (cases vs) auto
  have "\<forall>j \<in> set js. j < length (xs[i := int v]) \<and> xs[i := int v] ! j = 0"
    using Cons.prems(2,3) by (auto simp: nth_list_update)
  then show ?case
    using Cons.IH [of vs' "xs[i := int v]"] Cons.prems mset_update_mapped [of i xs "int v"] vs
    by (simp add: assign_at_Cons)
qed (simp add: assign_at_def)

lemma mapped_assign_zero:
  "distinct is \<Longrightarrow> \<forall>i \<in> set is. i < length xs \<Longrightarrow>
   mset (map nat (filter (\<lambda>x. 0 < x) (assign_at is (replicate (length is) 0) xs))) +
     mset (map nat (filter (\<lambda>x. 0 < x) (map ((!) xs) is))) = mset (map nat (filter (\<lambda>x. 0 < x) xs))"
proof (induction "is" arbitrary: xs)
  case (Cons i js)
  have "image_mset ((!) (xs[i := 0])) (mset js) = image_mset ((!) xs) (mset js)"
    by (rule image_mset_cong) (use Cons.prems(1) in \<open>auto intro!: nth_list_update_neq\<close>)
  then show ?case
    using Cons.IH [of "xs[i := 0]"] Cons.prems mset_update_mapped [of i xs 0]
    by (simp add: assign_at_Cons split: if_splits)
qed (simp add: assign_at_def)

lemma alloc_swa_ok:
  assumes ok: "swa_ok p" and d: "distinct is" "\<forall>i \<in> set is. i < length (full_to_swa p) \<and> full_to_swa p ! i = 0"
    and n: "length is \<le> swa_available_size p"
  shows "\<exists>p'. alloc_swa is p = Inr p' \<and> swa_ok p' \<and> swa_available_size p' + length is = swa_available_size p \<and>
     swa_num_tokens p' = swa_num_tokens p \<and> sp_page_size p' = sp_page_size p \<and>
     length (full_to_swa p') = length (full_to_swa p) \<and>
     (\<forall>i. i \<notin> set is \<longrightarrow> full_to_swa p' ! i = full_to_swa p ! i)"
proof (cases "is = []")
  case True
  then show ?thesis using ok by (simp add: alloc_swa_def)
next
  case False
  let ?p' = "p\<lparr>swa_free := drop (length is) (swa_free p),
     full_to_swa := assign_at is (map int (take (length is) (swa_free p))) (full_to_swa p)\<rparr>"
  have len: "length (take (length is) (swa_free p)) = length is" using n by (simp add: swa_available_size_def)
  have pos: "0 < v" if "v \<in> set (swa_free p)" for v
  proof -
    have "v \<in># mset [1..<swa_num_tokens p]" using ok that by (metis swa_ok_def set_mset_mset union_iff)
    then show ?thesis by simp
  qed
  have "\<forall>v \<in> set (take (length is) (swa_free p)). 0 < v" using pos by (meson in_set_takeD)
  note M = mapped_assign_fresh [OF len d this]
  have "mset (drop (length is) (swa_free p)) + mset (take (length is) (swa_free p)) = mset (swa_free p)"
    by (metis append_take_drop_id mset_append union_commute)
  then have "(mset (drop (length is) (swa_free p)) + mset (take (length is) (swa_free p))) + mset (mapped p) =
      mset [1..<swa_num_tokens p]" using ok by (simp add: swa_ok_def)
  moreover have mp: "mset (mapped ?p') = mset (mapped p) + mset (take (length is) (swa_free p))"
    using M by (simp add: mapped_def)
  ultimately have "swa_ok ?p'" unfolding swa_ok_def mp by (simp add: ac_simps)
  moreover have "alloc_swa is p = Inr ?p'" using False n d(2)
    by (simp add: alloc_swa_def Let_def swa_available_size_def list_all_iff)
  ultimately show ?thesis using n by (simp add: swa_available_size_def assign_at_other)
qed

lemma free_swa_ok:
  assumes ok: "swa_ok p" and d: "distinct is" "\<forall>i \<in> set is. i < length (full_to_swa p)"
  shows "\<exists>p'. free_swa is p = Inr p' \<and> swa_ok p' \<and> swa_num_tokens p' = swa_num_tokens p \<and>
     swa_available_size p' = swa_available_size p + length (filter (\<lambda>i. 0 < full_to_swa p ! i) is) \<and>
     length (full_to_swa p') = length (full_to_swa p) \<and>
     (\<forall>i. full_to_swa p' ! i = (if i \<in> set is then 0 else full_to_swa p ! i))"
proof (cases "is = []")
  case True
  then show ?thesis using ok by (simp add: free_swa_def)
next
  case False
  let ?p' = "p\<lparr>swa_free := swa_free p @ map nat (filter (\<lambda>x. 0 < x) (map ((!) (full_to_swa p)) is)),
     full_to_swa := assign_at is (replicate (length is) 0) (full_to_swa p)\<rparr>"
  have fr: "free_swa is p = Inr ?p'" using False d(2) by (simp add: free_swa_def translate_loc_def list_all_iff)
  have "mset (swa_free p) + mset (mapped p) = mset [1..<swa_num_tokens p]" using ok by (simp add: swa_ok_def)
  moreover have mp: "mset (mapped p) = mset (mapped ?p') + mset (map nat (filter (\<lambda>x. 0 < x) (map ((!) (full_to_swa p)) is)))"
    using mapped_assign_zero [OF d] by (simp add: mapped_def)
  ultimately have "swa_ok ?p'" unfolding swa_ok_def mp by (simp add: ac_simps)
  moreover have "assign_at is (replicate (length is) 0) xs ! i = 0"
    if "i \<in> set is" "\<forall>i \<in> set is. i < length xs" "distinct is" for i xs
    using that
  proof (induction "is" arbitrary: xs)
    case (Cons j js)
    show ?case
    proof (cases "i = j")
      case True
      then show ?thesis using Cons.prems assign_at_other [of i js] by (simp add: assign_at_Cons)
    next
      case False
      then show ?thesis using Cons.IH [of "xs[j := 0]"] Cons.prems by (simp add: assign_at_Cons)
    qed
  qed simp
  ultimately show ?thesis using fr d
    by (auto simp: swa_available_size_def assign_at_other filter_map comp_def)
qed

text \<open>Freeing what is free already changes nothing but the order of the free list.\<close>

lemma free_swa_idem:
  assumes "\<forall>i \<in> set is. i < length (full_to_swa p) \<and> full_to_swa p ! i = 0"
  shows "free_swa is p = Inr p"
proof -
  have "assign_at js (replicate (length js) 0) xs = xs" if "\<forall>i \<in> set js. i < length xs \<and> xs ! i = 0" for js and xs :: "int list"
    using that
  proof (induction js arbitrary: xs)
    case (Cons j js)
    then have "xs[j := 0] = xs" by (metis list.set_intros(1) list_update_id)
    then show ?case using Cons by (simp add: assign_at_Cons)
  qed (simp add: assign_at_def)
  moreover have "filter (\<lambda>x. 0 < x) (map ((!) (full_to_swa p)) is) = []"
    using assms by (auto simp: filter_empty_conv)
  ultimately show ?thesis using assms by (simp add: free_swa_def translate_loc_def list_all_iff)
qed

end
