(* ===== verification/Hybrid_Manager.thy ===== *)
theory Hybrid_Manager
  imports Hybrid_Properties Cache_Manager State_Pools
begin

text \<open>
  \<open>CacheManager\<close> (\<open>scheduler/cache.py\<close>) on the hybrid path (\<open>cache_type\<close> hybrid_radix): next to the
  KV pages it drives the slots of the recurrent-state pool. A slot is free, the live slot or one of
  the two ping-pong slots of a request, or the snapshot of a node of the tree.
\<close>

section \<open>State\<close>

record 's hmgr =
  core :: "hcache cmgr"
  state_pool :: "'s lpool"

record hhandle =
  hh_len :: nat
  hh_node :: nat
  hh_indices :: "slot list"

abbreviation hcache_of :: "'s hmgr \<Rightarrow> hcache" where
  "hcache_of m \<equiv> prefix_cache (core m)"

abbreviation set_hcache :: "hcache \<Rightarrow> 's hmgr \<Rightarrow> 's hmgr" where
  "set_hcache c m \<equiv> m\<lparr>core := (core m)\<lparr>prefix_cache := c\<rparr>\<rparr>"

definition hm_free :: "slot list \<Rightarrow> 's hmgr \<Rightarrow> 's hmgr" where
  "hm_free indices m = m\<lparr>core := cm_free indices (core m)\<rparr>"

definition pool_free :: "nat list \<Rightarrow> 's hmgr \<Rightarrow> 's hmgr" where
  "pool_free slots m = m\<lparr>state_pool := lp_free slots (state_pool m)\<rparr>"

section \<open>Admission\<close>

definition hm_match_req :: "int \<Rightarrow> int list \<Rightarrow> bool \<Rightarrow> 's hmgr \<Rightarrow> (hhandle \<times> nat option \<times> 's hmgr) result" where
  "hm_match_req tic ids mm m =
     py_assert (0 < length ids)
       (rbind (h_match_prefix tic (if mm then [] else take (length ids - 1) ids) (hcache_of m)) (\<lambda>(r, c).
          Inr (\<lparr>hh_len = hm_len r, hh_node = hm_node r, hh_indices = hm_indices r\<rparr>, hm_mamba r, set_hcache c m)))"

definition hm_lock :: "hhandle \<Rightarrow> 's hmgr \<Rightarrow> 's hmgr" where
  "hm_lock h m = set_hcache (inc_lock (hh_node h) (hcache_of m)) m"

definition hm_unlock :: "hhandle \<Rightarrow> 's hmgr \<Rightarrow> 's hmgr result" where
  "hm_unlock h m = rbind (dec_lock (hh_node h) (hcache_of m)) (\<lambda>c. Inr (set_hcache c m))"

definition hm_available_size :: "'s hmgr \<Rightarrow> int" where
  "hm_available_size m =
     evictable_size (kv (hcache_of m)) + int (length (free_slots (core m)) * cm_page_size (core m))"

definition mamba_available_size :: "'s hmgr \<Rightarrow> int" where
  "mamba_available_size m = int (num_free_slots (state_pool m)) + mamba_evictable (hcache_of m)"

text \<open>\<open>prefill_chunk_align\<close>\<close>

definition prefill_chunk_align :: "bool \<Rightarrow> nat \<Rightarrow> nat" where
  "prefill_chunk_align is_hybrid ps = (if is_hybrid then ps else 1)"

text \<open>\<open>ensure_mamba_slots\<close>: every round that goes on has freed at least one slot.\<close>

function ensure_mamba_slots :: "nat \<Rightarrow> 's hmgr \<Rightarrow> 's hmgr result" where
  "ensure_mamba_slots n m =
     (if num_free_slots (state_pool m) < n then
        (case evict_mamba (n - num_free_slots (state_pool m)) (hcache_of m) of
           Inl e \<Rightarrow> Inl e
         | Inr (kv_out, slots, c) \<Rightarrow>
             if slots = [] then Inr (set_hcache c m)
             else ensure_mamba_slots n (hm_free kv_out (pool_free slots (set_hcache c m))))
      else Inr m)"
  by pat_completeness auto
termination
  by (relation "measure (\<lambda>(n, m). n - num_free_slots (state_pool m))")
    (auto simp: pool_free_def hm_free_def num_free_slots_def lp_free_def neq_Nil_conv)

declare ensure_mamba_slots.simps [simp del]

section \<open>Allocation\<close>

definition hm_allocate :: "nat \<Rightarrow> 's hmgr \<Rightarrow> (nat list \<times> 's hmgr) result" where
  "hm_allocate needed m =
     rbind
       (if length (free_slots (core m)) < needed then
          let need = (needed - length (free_slots (core m))) * cm_page_size (core m) in
          rbind (evict_full need (hcache_of m)) (\<lambda>(evicted, slots, c).
            let m1 = (if slots \<noteq> [] then pool_free slots (set_hcache c m) else set_hcache c m);
                m2 = m1\<lparr>core := (core m1)\<lparr>free_slots := free_slots (core m1) @ every (cm_page_size (core m1)) evicted\<rparr>\<rparr> in
            py_assert (needed \<le> length (free_slots (core m2))) (Inr m2))
        else Inr m)
       (\<lambda>m. Inr (take needed (free_slots (core m)),
                 m\<lparr>core := (core m)\<lparr>free_slots := drop needed (free_slots (core m))\<rparr>\<rparr>))"

definition hm_allocate_paged :: "hhandle req list \<Rightarrow> 's hmgr \<Rightarrow> 's hmgr result" where
  "hm_allocate_paged rs m =
     (let ps = cm_page_size (core m); info = allocation_info ps rs in
      if 0 < needed_pages info then
        rbind (hm_allocate (needed_pages info) m) (\<lambda>(pages, m').
          rbind (write_page_table (page_table (core m')) (page_to_token ps pages) info ps)
            (\<lambda>table. Inr (m'\<lparr>core := (core m')\<lparr>page_table := table\<rparr>\<rparr>)))
      else Inr m)"

section \<open>Tool-call anchors\<close>

definition pick :: "nat \<Rightarrow> nat \<times> nat \<Rightarrow> nat result" where
  "pick i p = (if i = 0 then Inr (fst p) else if i = 1 then Inr (snd p) else Inl IndexError)"

definition put_pick :: "nat \<Rightarrow> nat \<Rightarrow> nat \<times> nat \<Rightarrow> nat \<times> nat" where
  "put_pick i v p = (if i = 0 then (v, snd p) else (fst p, v))"

text \<open>One request of \<open>snapshot_toolcall_anchor\<close>: its state is frozen into the idle ping-pong slot.
  A request with ping-pong slots has a live slot; without one the copy fails.\<close>

definition anchor_one :: "nat \<Rightarrow> hhandle req \<Rightarrow> 's lpool \<Rightarrow> (hhandle req \<times> 's lpool) result" where
  "anchor_one ps r p =
     (case (toolcall_anchor_len r, mamba_ping_pong r, mamba_last_track_seqlen r) of
        (Some a, Some pp, None) \<Rightarrow>
          if req_cached_len r \<noteq> a \<or> align_down a ps \<noteq> a then Inr (r, p)
          else rbind (pick (mamba_next_track_idx r) pp) (\<lambda>dst.
               case linear_slot_idx r of
                 None \<Rightarrow> Inl RuntimeError
               | Some live \<Rightarrow> rbind (copy_from live dst p) (\<lambda>p'.
                   Inr (r\<lparr>mamba_last_track_seqlen := Some a, mamba_next_track_idx := 1 - mamba_next_track_idx r\<rparr>, p')))
      | _ \<Rightarrow> Inr (r, p))"

fun anchor_loop :: "nat \<Rightarrow> hhandle req list \<Rightarrow> 's lpool \<Rightarrow> (hhandle req list \<times> 's lpool) result" where
  "anchor_loop ps [] p = Inr ([], p)"
| "anchor_loop ps (r # rs) p =
     rbind (anchor_one ps r p) (\<lambda>(r', p1). rbind (anchor_loop ps rs p1) (\<lambda>(rs', p2). Inr (r' # rs', p2)))"

definition snapshot_toolcall_anchor :: "hhandle req list \<Rightarrow> 's hmgr \<Rightarrow> (hhandle req list \<times> 's hmgr) result" where
  "snapshot_toolcall_anchor rs m =
     rbind (anchor_loop (cm_page_size (core m)) rs (state_pool m)) (\<lambda>(rs', p). Inr (rs', m\<lparr>state_pool := p\<rparr>))"

section \<open>Commit and finish\<close>

text \<open>\<open>_free_req_slots\<close> clears the references, so that a second call frees nothing.\<close>

definition free_req_slots :: "bool \<Rightarrow> hhandle req \<Rightarrow> 's hmgr \<Rightarrow> hhandle req \<times> 's hmgr" where
  "free_req_slots keep_live r m =
     (let slots = (case mamba_ping_pong r of None \<Rightarrow> [] | Some (a, b) \<Rightarrow> [a, b]) @
                  (case linear_slot_idx r of Some s \<Rightarrow> if keep_live then [] else [s] | None \<Rightarrow> []) in
      (r\<lparr>mamba_ping_pong := None, linear_slot_idx := None\<rparr>, if slots \<noteq> [] then pool_free slots m else m))"

text \<open>The pending freeze of a finishing request: the frozen snapshot goes to the tree at its boundary,
  both ping-pong slots are consumed. The result carries the position up to which the request no
  longer owns its slots.\<close>

definition finish_frozen ::
    "int \<Rightarrow> int \<Rightarrow> slot list \<Rightarrow> hhandle req \<Rightarrow> 's hmgr \<Rightarrow> (nat \<times> hhandle req \<times> 's hmgr) result" where
  "finish_frozen tic now page_indices r m =
     (let old_len = hh_len (cache_handle r) in
      case (mamba_last_track_seqlen r, mamba_ping_pong r) of
        (Some L, Some (a, b)) \<Rightarrow>
          if 0 < L \<and> L \<le> req_cached_len r \<and> align_down L (cm_page_size (core m)) = L then
            rbind (pick (1 - mamba_next_track_idx r) (a, b)) (\<lambda>frozen.
            rbind (h_insert tic now (take L (input_ids r)) (take L page_indices) frozen (hcache_of m))
              (\<lambda>(prefix_len, ex, c).
                let m1 = pool_free (filter (\<lambda>s. ex \<or> s \<noteq> frozen) [a, b]) (set_hcache c m);
                    m2 = hm_free (slice old_len (max old_len prefix_len) page_indices) m1 in
                Inr (max old_len L, r\<lparr>mamba_ping_pong := None\<rparr>, m2)))
          else Inr (old_len, r, m)
      | _ \<Rightarrow> Inr (old_len, r, m))"

text \<open>The live slot is donated at the end. The declared type of the donated slot is an int; the model
  stops when a request that finishes has none.\<close>

definition finish_live ::
    "int \<Rightarrow> int \<Rightarrow> slot list \<Rightarrow> nat \<Rightarrow> hhandle req \<Rightarrow> 's hmgr \<Rightarrow> (bool \<times> 's hmgr) result" where
  "finish_live tic now page_indices free_upto r m =
     (let insert_len = align_down (req_cached_len r) (cm_page_size (core m)) in
      if insert_len = req_cached_len r \<and> 0 < insert_len then
        (case linear_slot_idx r of
           None \<Rightarrow> Inl TypeError
         | Some live \<Rightarrow>
             rbind (h_insert tic now (take insert_len (input_ids r)) (take insert_len page_indices) live (hcache_of m))
               (\<lambda>(prefix_len, ex, c).
             rbind (hm_unlock (cache_handle r) (set_hcache c m)) (\<lambda>m1.
               Inr (\<not> ex, hm_free (slice free_upto (max free_upto prefix_len) page_indices) m1))))
      else
        rbind (hm_unlock (cache_handle r) m) (\<lambda>m1. Inr (False, hm_free (drop free_upto page_indices) m1)))"

definition commit_frozen ::
    "int \<Rightarrow> int \<Rightarrow> int \<Rightarrow> slot list \<Rightarrow> nat \<Rightarrow> nat \<Rightarrow> hhandle req \<Rightarrow> 's hmgr \<Rightarrow> (hhandle req \<times> 's hmgr) result" where
  "commit_frozen tic now tic2 page_indices i L r m =
     (case mamba_ping_pong r of
        None \<Rightarrow> Inl TypeError
      | Some pp \<Rightarrow>
          let frozen_idx = 1 - mamba_next_track_idx r; old_len = hh_len (cache_handle r) in
          rbind (pick frozen_idx pp) (\<lambda>frozen.
          rbind (h_insert tic now (take L (input_ids r)) (take L page_indices) frozen (hcache_of m))
            (\<lambda>(prefix_len, ex, c).
          rbind (hm_unlock (cache_handle r) (set_hcache c m)) (\<lambda>m1.
            let m2 = hm_free (slice old_len prefix_len page_indices) m1 in
          rbind (h_match_prefix tic2 (take L (input_ids r)) (hcache_of m2)) (\<lambda>(mt, c2).
            let m3 = set_hcache c2 m2;
                m4 = (if old_len < prefix_len then
                        m3\<lparr>core := (core m3)\<lparr>page_table := (page_table (core m3))[i :=
                          put_slice old_len (slice old_len prefix_len (hm_indices mt)) (page_table (core m3) ! i)]\<rparr>\<rparr>
                      else m3);
                h = \<lparr>hh_len = hm_len mt, hh_node = hm_node mt, hh_indices = hm_indices mt\<rparr>;
                r1 = r\<lparr>cache_handle := h\<rparr>; m5 = hm_lock h m4 in
            if ex then Inr (r1\<lparr>mamba_last_track_seqlen := None\<rparr>, m5)
            else
              rbind (ensure_mamba_slots 1 m5) (\<lambda>m6.
              rbind (lp_alloc 1 (state_pool m6)) (\<lambda>(xs, p).
                Inr (r1\<lparr>mamba_ping_pong := Some (put_pick frozen_idx (xs ! 0) pp), mamba_last_track_seqlen := None\<rparr>,
                     m6\<lparr>state_pool := p\<rparr>))))))))"

definition cache_req_hybrid ::
    "int \<Rightarrow> int \<Rightarrow> int \<Rightarrow> hhandle req \<Rightarrow> bool \<Rightarrow> 's hmgr \<Rightarrow> (hhandle req \<times> 's hmgr) result" where
  "cache_req_hybrid tic now tic2 r finished m =
     rbind (row_index (table_idx r) (page_table (core m))) (\<lambda>i.
       let page_indices = take (req_cached_len r) (page_table (core m) ! i);
           old_len = hh_len (cache_handle r) in
       if mm_embeds r then
         rbind (hm_unlock (cache_handle r) m) (\<lambda>m1.
           Inr (if finished then free_req_slots False r (hm_free (drop old_len page_indices) m1) else (r, m1)))
       else if finished then
         rbind (finish_frozen tic now page_indices r m) (\<lambda>(free_upto, r1, m1).
         rbind (finish_live tic2 now page_indices free_upto r1 m1) (\<lambda>(keep_live, m2).
           Inr (free_req_slots keep_live r1 m2)))
       else
         (case mamba_last_track_seqlen r of
            None \<Rightarrow> Inr (r, m)
          | Some L \<Rightarrow>
              if align_down L (cm_page_size (core m)) \<noteq> L then Inr (r\<lparr>mamba_last_track_seqlen := None\<rparr>, m)
              else commit_frozen tic now tic2 page_indices i L r m))"

section \<open>Integrity and rebuild\<close>

definition hm_check_integrity :: "'s hmgr \<Rightarrow> unit result" where
  "hm_check_integrity m =
     rbind (h_check_integrity (hcache_of m)) (\<lambda>_.
       let c = hcache_of m; p = state_pool m;
           cache_pages = (evictable_size (kv c) + protected_size (kv c)) div int (cm_page_size (core m));
           tree_slots = mamba_evictable c + mamba_protected c in
       py_assert (int (num_free_slots p) + tree_slots \<le> int (lp_num_slots p) - 1)
         (if int (length (free_slots (core m))) + cache_pages \<noteq> int (num_pages (core m)) then Inl RuntimeError
          else if 1 < cm_page_size (core m)
            then py_assert (list_all (\<lambda>x. x mod cm_page_size (core m) = 0) (free_slots (core m))) (Inr ())
          else Inr ()))"

definition hm_rebuild :: "nat \<Rightarrow> slot list list \<Rightarrow> hcache \<Rightarrow> 's hmgr \<Rightarrow> 's hmgr" where
  "hm_rebuild n table fresh_cache m =
     m\<lparr>core := cm_rebuild n table fresh_cache (core m), state_pool := reclaim_all_slots (state_pool m)\<rparr>"

end
