(* ===== verification/Swa_Radix.thy ===== *)
theory Swa_Radix
  imports Radix_Cache
begin

text \<open>
  \<open>SWARadixCache\<close> (\<open>kvcache/swa_radix_cache.py\<close>): the prefix cache of models with sliding-window
  layers. The second currency is a property of the node: it is live, or a tombstone whose window KV
  has been given back while its full KV stays. Tree, page size and \<open>full_evictable\<close>,
  \<open>full_protected\<close> are the \<open>rcache\<close> \<open>skv\<close>; access times come from a logical clock, and a handle
  remembers where its window lock ended by a number the boundary node carries.
\<close>

section \<open>State\<close>

record scache =
  skv :: rcache
  window :: nat
  swa_evictable :: int
  swa_protected :: int
  sclk :: int
  suuid :: nat
  revives :: nat

definition event_stride :: int where
  "event_stride = 2 ^ 24"

definition new_scache :: "nat \<Rightarrow> nat \<Rightarrow> nat \<Rightarrow> int \<Rightarrow> scache result" where
  "new_scache ps w counter now =
     py_assert (0 < w)
       (Inr \<lparr>skv = new_rcache ps counter now, window = w, swa_evictable = 0, swa_protected = 0,
             sclk = 0, suuid = 0, revives = 0\<rparr>)"

abbreviation stree :: "scache \<Rightarrow> rtree" where
  "stree s \<equiv> root_node (skv s)"

section \<open>Matching\<close>

text \<open>The run of live tokens since the last tombstone; \<open>None\<close> stands for \<open>float("inf")\<close>.\<close>

record swalk =
  sw_values :: "slot list list"
  sw_since :: "nat option"
  sw_best_len :: nat
  sw_best_node :: nat
  sw_node :: nat

definition covers :: "nat \<Rightarrow> nat option \<Rightarrow> bool" where
  "covers w since = (case since of None \<Rightarrow> True | Some n \<Rightarrow> w \<le> n)"

definition best_here :: "nat \<Rightarrow> swalk \<Rightarrow> swalk" where
  "best_here w a =
     (if covers w (sw_since a) then a\<lparr>sw_best_len := length (sw_values a), sw_best_node := sw_node a\<rparr> else a)"

definition at_tombstone :: "nat \<Rightarrow> ndata \<Rightarrow> swalk \<Rightarrow> swalk" where
  "at_tombstone w c a = (if swa_tombstone c then (best_here w a)\<lparr>sw_since := Some 0\<rparr> else a)"

definition pass_node :: "ndata \<Rightarrow> swalk \<Rightarrow> swalk" where
  "pass_node c a =
     a\<lparr>sw_values := sw_values a @ [nval c],
       sw_since := (if swa_tombstone c then sw_since a else map_option (\<lambda>n. n + node_len c) (sw_since a)),
       sw_node := uuid c\<rparr>"

function swa_walk ::
    "nat \<Rightarrow> nat \<Rightarrow> int \<Rightarrow> nat \<Rightarrow> rtree \<Rightarrow> token list \<Rightarrow> swalk \<Rightarrow> (rtree \<times> swalk \<times> nat) result" where
  "swa_walk ps w now fresh (RNode d cs) ids a =
     (if ids = [] then Inr (RNode d cs, a, fresh)
      else case map_of cs (key_fn ps ids) of
        None \<Rightarrow> Inr (RNode d cs, a, fresh)
      | Some c \<Rightarrow>
          (let a1 = at_tombstone w (rdata c) a; m = align_down (get_match_len c ids) ps in
           if m = 0 then Inr (RNode d cs, a1, fresh)
           else if m < node_len (rdata c) then
             rbind (split_at ps fresh now m c) (\<lambda>c'.
               Inr (RNode d (set_child (key_fn ps ids) c' cs), pass_node (rdata c') a1, Suc fresh))
           else
             rbind (swa_walk ps w now fresh c (drop m ids) (pass_node (rdata c) a1)) (\<lambda>(c', a', fresh').
               Inr (RNode d (set_child (key_fn ps ids) c' cs), a', fresh'))))"
  by pat_completeness auto
termination
  by (relation "measure (\<lambda>(ps, w, now, fresh, t, ids, a). tsize t)") (auto dest: tsize_child)

declare swa_walk.simps [simp del]

text \<open>\<open>_stamp_path\<close>: decreasing times towards the root.\<close>

fun stamp :: "int \<Rightarrow> ndata list \<Rightarrow> rtree \<Rightarrow> rtree" where
  "stamp t [] tr = tr"
| "stamp t (d # ds) tr = stamp (t - 1) ds (upd_node (uuid d) (\<lambda>e. e\<lparr>timestamp := t\<rparr>) tr)"

definition stamp_path :: "nat \<Rightarrow> scache \<Rightarrow> scache" where
  "stamp_path u s =
     (let clk = sclk s + 1 in
      s\<lparr>sclk := clk, skv := (skv s)\<lparr>root_node := stamp (clk * event_stride) (up_path u (stree s)) (stree s)\<rparr>\<rparr>)"

record smatch =
  sm_indices :: "slot list"
  sm_len :: nat
  sm_node :: nat

definition s_match_prefix :: "int \<Rightarrow> token list \<Rightarrow> scache \<Rightarrow> (smatch \<times> scache) result" where
  "s_match_prefix now ids s =
     (let root = uuid (rdata (stree s));
          start = \<lparr>sw_values = [], sw_since = None, sw_best_len = 0, sw_best_node = root, sw_node = root\<rparr> in
      rbind (swa_walk (page_size (skv s)) (window s) now (node_counter (skv s)) (stree s) ids start) (\<lambda>(t, a, c).
        let a' = best_here (window s) a;
            s1 = stamp_path (sw_best_node a') (s\<lparr>skv := (skv s)\<lparr>root_node := t, node_counter := c\<rparr>\<rparr>);
            kvs = concat (take (sw_best_len a') (sw_values a')) in
        Inr (\<lparr>sm_indices = kvs, sm_len = length kvs, sm_node = sw_best_node a'\<rparr>, s1)))"

section \<open>Insertion\<close>

text \<open>What an insertion carries along: the slots to give back, the growth of the two counters, the
  clock, the number of revived nodes and the node counter.\<close>

record sins =
  si_freed :: "slot list"
  si_full :: int
  si_swa :: int
  si_clk :: int
  si_revives :: nat
  si_fresh :: nat

definition s_tick :: "sins \<Rightarrow> int \<times> sins" where
  "s_tick a = ((si_clk a + 1) * event_stride, a\<lparr>si_clk := si_clk a + 1\<rparr>)"

text \<open>A tombstone adopts the slots \<open>vals\<close> of the request and is live again.\<close>

definition revive :: "slot list \<Rightarrow> rtree \<Rightarrow> sins \<Rightarrow> (rtree \<times> sins) result" where
  "revive vals c a =
     py_assert (length vals = node_len (rdata c))
       (let (t, a1) = s_tick a in
        Inr (RNode ((rdata c)\<lparr>nval := vals, swa_tombstone := False, timestamp := t\<rparr>) (rkids c),
             a1\<lparr>si_swa := si_swa a1 + int (node_len (rdata c)), si_revives := si_revives a1 + 1\<rparr>))"

text \<open>A matched node and the slots \<open>seg\<close> the request has for its span: the first component is the
  head split off in the second branch of the source.\<close>

definition reconcile ::
    "nat \<Rightarrow> int \<Rightarrow> int \<Rightarrow> nat \<Rightarrow> nat \<Rightarrow> slot list \<Rightarrow> rtree \<Rightarrow> sins \<Rightarrow> (ndata option \<times> rtree \<times> sins) result" where
  "reconcile ps now evicted upd_after pos seg c a =
     (let d = rdata c; m = node_len d; drop_dup = Inr (None, c, a\<lparr>si_freed := si_freed a @ seg\<rparr>) in
      if \<not> upd_after < pos + m then Inr (None, c, a)
      else if \<not> swa_tombstone d then drop_dup
      else py_assert (swa_ref_count d = 0)
        (if 0 < ref_count d then drop_dup
         else if evicted \<le> int pos then
           rbind (revive seg c (a\<lparr>si_freed := si_freed a @ nval d\<rparr>)) (\<lambda>(c', a'). Inr (None, c', a'))
         else if evicted < int (pos + m) then
           (let start = nat (evicted - int pos) in
            rbind (split_at ps (si_fresh a) now start c) (\<lambda>split.
              case rkids split of
                [(_, tail)] \<Rightarrow>
                  rbind (revive (drop start seg) tail
                          (a\<lparr>si_fresh := Suc (si_fresh a), si_freed := si_freed a @ nval (rdata tail) @ take start seg\<rparr>))
                    (\<lambda>(tail', a'). Inr (Some (rdata split), tail', a'))
              | _ \<Rightarrow> Inl AssertionError))
         else drop_dup))"

definition swa_new_node :: "int \<Rightarrow> token list \<Rightarrow> slot list \<Rightarrow> bool \<Rightarrow> sins \<Rightarrow> (ndata \<times> sins) result" where
  "swa_new_node now ids vals tombstone a =
     (let (t, a1) = s_tick a in
      py_assert (length ids = length vals)
        (Inr ((new_node (si_fresh a1) t now ids vals)\<lparr>swa_tombstone := tombstone\<rparr>,
              a1\<lparr>si_fresh := Suc (si_fresh a1), si_full := si_full a1 + int (length ids),
                 si_swa := si_swa a1 + (if tombstone then 0 else int (length ids))\<rparr>)))"

definition put_kid :: "nat \<Rightarrow> rtree \<Rightarrow> rtree \<Rightarrow> rtree" where
  "put_kid ps c t = RNode (rdata t) (set_child (key_fn ps (nkey (rdata c))) c (rkids t))"

definition add_suffix ::
    "nat \<Rightarrow> int \<Rightarrow> int \<Rightarrow> nat \<Rightarrow> rtree \<Rightarrow> token list \<Rightarrow> slot list \<Rightarrow> sins \<Rightarrow> (rtree \<times> sins) result" where
  "add_suffix ps now evicted pos t ids vals a =
     (let insert_len = pos + length ids;
          b0 = max 0 (min evicted (int insert_len) - int pos);
          boundary = nat (min b0 (max 0 (int (length ids) - int ps))) in
      if 0 < boundary then
        rbind (swa_new_node now (take boundary ids) (take boundary vals) True a) (\<lambda>(n1, a1).
          if drop boundary ids \<noteq> [] then
            rbind (swa_new_node now (drop boundary ids) (drop boundary vals) False a1) (\<lambda>(n2, a2).
              Inr (put_kid ps (put_kid ps (RNode n2 []) (RNode n1 [])) t, a2))
          else Inr (put_kid ps (RNode n1 []) t, a1))
      else if ids \<noteq> [] then
        rbind (swa_new_node now ids vals False a) (\<lambda>(n, a1). Inr (put_kid ps (RNode n []) t, a1))
      else Inr (t, a))"

function s_ins ::
    "nat \<Rightarrow> int \<Rightarrow> int \<Rightarrow> nat \<Rightarrow> nat \<Rightarrow> rtree \<Rightarrow> token list \<Rightarrow> slot list \<Rightarrow> sins \<Rightarrow> (rtree \<times> nat \<times> sins) result" where
  "s_ins ps now evicted upd pos (RNode d cs) ids vals a =
     (let stop = rbind (add_suffix ps now evicted pos (RNode d cs) ids vals a) (\<lambda>(t, a'). Inr (t, pos, a')) in
      if ids = [] then Inr (RNode d cs, pos, a)
      else case map_of cs (key_fn ps ids) of
        None \<Rightarrow> stop
      | Some child \<Rightarrow>
          (let m = align_down (get_match_len child ids) ps; partial = m < node_len (rdata child) in
           if m = 0 then stop
           else rbind (if partial
                       then rbind (split_at ps (si_fresh a) now m child) (\<lambda>c. Inr (c, a\<lparr>si_fresh := Suc (si_fresh a)\<rparr>))
                       else Inr (child, a)) (\<lambda>(c, a1).
             rbind (reconcile ps now evicted upd pos (take m vals) c a1) (\<lambda>(head, c2, a2).
               rbind (if partial
                      then rbind (add_suffix ps now evicted (pos + m) c2 (drop m ids) (drop m vals) a2)
                             (\<lambda>(t, a'). Inr (t, pos + m, a'))
                      else s_ins ps now evicted upd (pos + m) c2 (drop m ids) (drop m vals) a2) (\<lambda>(c3, tot, a3).
                 let c4 = (case head of None \<Rightarrow> c3 | Some h \<Rightarrow> RNode h [(key_fn ps (nkey (rdata c3)), c3)]) in
                 Inr (RNode d (set_child (key_fn ps ids) c4 cs), tot, a3))))))"
  by pat_completeness auto
termination
  by (relation "measure (\<lambda>(ps, now, evicted, upd, pos, t, ids, vals, a). length ids)") auto

declare s_ins.simps [simp del]

text \<open>\<open>insert\<close> returns the length found in the tree and the full slots to give back to both pools.\<close>

definition s_insert ::
    "int \<Rightarrow> token list \<Rightarrow> slot list \<Rightarrow> int \<Rightarrow> nat \<Rightarrow> scache \<Rightarrow> (nat \<times> slot list \<times> scache) result" where
  "s_insert now input_ids kv_indices evicted upd s =
     (let c = skv s; ps = page_size c; insert_len = align_down (length input_ids) ps;
          start = \<lparr>si_freed = [], si_full = 0, si_swa = 0, si_clk = sclk s, si_revives = revives s, si_fresh = node_counter c\<rparr> in
      rbind (s_ins ps now evicted upd 0 (root_node c) (take insert_len input_ids) (take insert_len kv_indices) start)
        (\<lambda>(t, pos, a).
          Inr (pos, si_freed a,
            s\<lparr>skv := c\<lparr>root_node := t, evictable_size := evictable_size c + si_full a, node_counter := si_fresh a\<rparr>,
              swa_evictable := swa_evictable s + si_swa a, sclk := si_clk a, revives := si_revives a\<rparr>)))"

section \<open>Locking\<close>

definition sbump :: "int \<Rightarrow> ndata \<Rightarrow> ndata" where
  "sbump \<delta> d = d\<lparr>swa_ref_count := swa_ref_count d + \<delta>\<rparr>"

abbreviation upd_tree :: "(rtree \<Rightarrow> rtree) \<Rightarrow> scache \<Rightarrow> scache" where
  "upd_tree f s \<equiv> s\<lparr>skv := (skv s)\<lparr>root_node := f (stree s)\<rparr>\<rparr>"

definition full_lock_one :: "ndata \<Rightarrow> scache \<Rightarrow> scache" where
  "full_lock_one d s =
     (let c = skv s;
          c1 = (if ref_count d = 0
                then c\<lparr>evictable_size := evictable_size c - int (node_len d),
                       protected_size := protected_size c + int (node_len d)\<rparr> else c) in
      s\<lparr>skv := c1\<lparr>root_node := upd_node (uuid d) (bump 1) (root_node c1)\<rparr>\<rparr>)"

definition swa_lock_one :: "ndata \<Rightarrow> scache \<Rightarrow> scache" where
  "swa_lock_one d s =
     upd_tree (upd_node (uuid d) (sbump 1))
       (if swa_ref_count d = 0
        then s\<lparr>swa_evictable := swa_evictable s - int (node_len d), swa_protected := swa_protected s + int (node_len d)\<rparr>
        else s)"

definition stamp_uuid :: "ndata \<Rightarrow> scache \<Rightarrow> nat \<times> scache" where
  "stamp_uuid d s =
     (case swa_uuid d of
        Some u \<Rightarrow> (u, s)
      | None \<Rightarrow> (suuid s + 1,
          upd_tree (upd_node (uuid d) (\<lambda>e. e\<lparr>swa_uuid := Some (suuid s + 1)\<rparr>)) (s\<lparr>suuid := suuid s + 1\<rparr>)))"

fun s_lock_loop :: "ndata list \<Rightarrow> nat \<Rightarrow> nat option \<Rightarrow> scache \<Rightarrow> nat option \<times> scache" where
  "s_lock_loop [] locked mark s = (mark, s)"
| "s_lock_loop (d # ds) locked mark s =
     (let s1 = full_lock_one d s in
      if locked < window s \<and> \<not> swa_tombstone d then
        let s2 = swa_lock_one d s1; locked' = locked + node_len d in
        if window s \<le> locked' then let (u, s3) = stamp_uuid d s2 in s_lock_loop ds locked' (Some u) s3
        else s_lock_loop ds locked' mark s2
      else s_lock_loop ds locked mark s1)"

definition s_inc_lock :: "nat \<Rightarrow> scache \<Rightarrow> nat option \<times> scache" where
  "s_inc_lock u s = s_lock_loop (up_path u (stree s)) 0 None s"

definition full_unlock_one :: "ndata \<Rightarrow> scache \<Rightarrow> scache result" where
  "full_unlock_one d s =
     (let rc = ref_count d - 1; c = (skv s)\<lparr>root_node := upd_node (uuid d) (bump (- 1)) (stree s)\<rparr> in
      py_assert (0 \<le> rc)
        (Inr (s\<lparr>skv := (if rc = 0 then c\<lparr>evictable_size := evictable_size c + int (node_len d),
                                         protected_size := protected_size c - int (node_len d)\<rparr> else c)\<rparr>)))"

definition swa_unlock_one :: "ndata \<Rightarrow> scache \<Rightarrow> scache" where
  "swa_unlock_one d s =
     upd_tree (upd_node (uuid d) (sbump (- 1)))
       (if swa_ref_count d - 1 = 0
        then s\<lparr>swa_evictable := swa_evictable s + int (node_len d), swa_protected := swa_protected s - int (node_len d)\<rparr>
        else s)"

fun s_unlock_loop :: "ndata list \<Rightarrow> bool \<Rightarrow> nat option \<Rightarrow> scache \<Rightarrow> scache result" where
  "s_unlock_loop [] dec_swa mark s = Inr s"
| "s_unlock_loop (d # ds) dec_swa mark s =
     rbind (full_unlock_one d s) (\<lambda>s1.
       if dec_swa \<and> \<not> swa_tombstone d \<and> 0 < swa_ref_count d
       then s_unlock_loop ds (\<not> (mark \<noteq> None \<and> swa_uuid d = mark)) mark (swa_unlock_one d s1)
       else s_unlock_loop ds dec_swa mark s1)"

definition s_dec_lock :: "nat \<Rightarrow> nat option \<Rightarrow> bool \<Rightarrow> scache \<Rightarrow> scache result" where
  "s_dec_lock u mark skip_swa s = s_unlock_loop (up_path u (stree s)) (\<not> skip_swa) mark s"

section \<open>Eviction\<close>

function s_cascade :: "nat \<Rightarrow> slot list \<Rightarrow> nat \<Rightarrow> rcache \<Rightarrow> (nat \<times> slot list \<times> nat \<times> rcache) result" where
  "s_cascade p kv_out freed c =
     (case subtree p (root_node c) of
        None \<Rightarrow> Inl AssertionError
      | Some q \<Rightarrow>
          if swa_tombstone (rdata q) \<and> is_leaf q \<and> ref_count (rdata q) = 0 \<and> p \<noteq> uuid (rdata (root_node c)) then
            (case remove_node (page_size c) p (root_node c) of
               Inl e \<Rightarrow> Inl e
             | Inr (p', t) \<Rightarrow>
                 s_cascade p' (kv_out @ nval (rdata q)) (freed + node_len (rdata q))
                   (c\<lparr>root_node := t, evictable_size := evictable_size c - int (node_len (rdata q))\<rparr>))
          else Inr (p, kv_out, freed, c))"
  by pat_completeness auto
termination
  by (relation "measure (\<lambda>(_, _, _, c). tsize (root_node c))") (auto dest: remove_node_tsize)

declare s_cascade.simps [simp del]

lemma s_cascade_tsize:
  "s_cascade p kv_out freed c = Inr (p', kv', f', c') \<Longrightarrow> tsize (root_node c') \<le> tsize (root_node c)"
proof (induction p kv_out freed c rule: s_cascade.induct)
  case (1 p kv_out freed c)
  show ?case
  proof (cases "\<exists>q t p1. subtree p (root_node c) = Some q \<and> swa_tombstone (rdata q) \<and> is_leaf q \<and>
      ref_count (rdata q) = 0 \<and> p \<noteq> uuid (rdata (root_node c)) \<and>
      remove_node (page_size c) p (root_node c) = Inr (p1, t)")
    case True
    then obtain q t p1 where q: "subtree p (root_node c) = Some q" "swa_tombstone (rdata q) \<and> is_leaf q \<and>
      ref_count (rdata q) = 0 \<and> p \<noteq> uuid (rdata (root_node c))"
      and t: "remove_node (page_size c) p (root_node c) = Inr (p1, t)" by blast
    from 1(1) [OF q t refl] 1(2) q t remove_node_tsize [OF t] show ?thesis
      by (subst (asm) (2) s_cascade.simps) simp
  next
    case False
    then show ?thesis using 1(2)
      by (subst (asm) s_cascade.simps) (auto split: option.splits if_splits sum.splits)
  qed
qed

text \<open>Taking an unlocked leaf out of the tree, and the cascade above it.\<close>

definition s_drop_leaf :: "ndata \<Rightarrow> slot list \<Rightarrow> scache \<Rightarrow> (slot list \<times> nat \<times> nat \<times> scache) result" where
  "s_drop_leaf d kv_out s =
     (case remove_node (page_size (skv s)) (uuid d) (stree s) of
        Inl e \<Rightarrow> Inl e
      | Inr (p, t) \<Rightarrow>
          rbind (s_cascade p (kv_out @ nval d) 0
              ((skv s)\<lparr>root_node := t, evictable_size := evictable_size (skv s) - int (node_len d)\<rparr>))
            (\<lambda>(p', kv', casc, c). Inr (kv', node_len d + casc, p', s\<lparr>skv := c\<rparr>)))"

lemma s_drop_leaf_tsize:
  "s_drop_leaf d kv_out s = Inr (kv', n, p, s') \<Longrightarrow> tsize (stree s') < tsize (stree s)"
  by (fastforce simp: s_drop_leaf_def rbind_Inr_conv split: sum.splits prod.splits
      dest!: s_cascade_tsize remove_node_tsize)

definition lose_swa :: "ndata \<Rightarrow> scache \<Rightarrow> scache" where
  "lose_swa d s = s\<lparr>swa_evictable := swa_evictable s - int (node_len d)\<rparr>"

definition s_leaves :: "scache \<Rightarrow> ndata list" where
  "s_leaves s = filter (\<lambda>d. uuid d \<noteq> uuid (rdata (stree s))) (leaf_nodes (stree s))"

definition s_offer_parent :: "nat \<Rightarrow> scache \<Rightarrow> ndata list \<Rightarrow> ndata list" where
  "s_offer_parent p s heap =
     (case subtree p (stree s) of
        Some q \<Rightarrow> if is_leaf q \<and> ref_count (rdata q) = 0 \<and> p \<noteq> uuid (rdata (stree s))
                  then push (rdata q) heap else heap
      | None \<Rightarrow> heap)"

lemma stree_lose_swa [simp]: "stree (lose_swa d s) = stree s"
  by (simp add: lose_swa_def)

lemma stree_if_lose [simp]: "stree (if b then s else lose_swa d s) = stree s"
  by simp

function s_evict_full_loop ::
    "nat \<Rightarrow> ndata list \<Rightarrow> slot list \<Rightarrow> slot list \<Rightarrow> nat \<Rightarrow> scache \<Rightarrow> (slot list \<times> slot list \<times> scache) result" where
  "s_evict_full_loop need leaves kv_out swa_out freed s =
     (if need \<le> freed then Inr (kv_out, swa_out, s)
      else case pop_min timestamp leaves of
        None \<Rightarrow> Inr (kv_out, swa_out, s)
      | Some (d, heap) \<Rightarrow>
          if ref_count d \<noteq> 0 \<or> \<not> leaf_here (uuid d) (stree s) \<or> uuid d = uuid (rdata (stree s))
          then s_evict_full_loop need heap kv_out swa_out freed s
          else (case s_drop_leaf d kv_out (if swa_tombstone d then s else lose_swa d s) of
             Inl e \<Rightarrow> Inl e
           | Inr (kv', n, p, s') \<Rightarrow>
               s_evict_full_loop need (s_offer_parent p s' heap) kv'
                 (if swa_tombstone d then swa_out else swa_out @ nval d) (freed + n) s'))"
  by pat_completeness auto
termination
  by (relation "measures [\<lambda>(_, _, _, _, _, s). tsize (stree s), \<lambda>(_, heap, _, _, _, _). length heap]")
    (auto dest!: s_drop_leaf_tsize pop_min_len simp: lose_swa_def)

declare s_evict_full_loop.simps [simp del]

definition s_evict_full :: "nat \<Rightarrow> scache \<Rightarrow> (slot list \<times> slot list \<times> scache) result" where
  "s_evict_full need s = s_evict_full_loop need (filter (\<lambda>d. ref_count d = 0) (s_leaves s)) [] [] 0 s"

fun pre_nodes :: "rtree \<Rightarrow> ndata list" where
  "pre_nodes (RNode d cs) = d # concat (map (\<lambda>kc. pre_nodes (snd kc)) (rev cs))"

definition swa_nodes :: "scache \<Rightarrow> ndata list" where
  "swa_nodes s = filter (\<lambda>d. uuid d \<noteq> uuid (rdata (stree s)) \<and> \<not> swa_tombstone d) (pre_nodes (stree s))"

function s_evict_swa_loop ::
    "nat \<Rightarrow> ndata list \<Rightarrow> slot list \<Rightarrow> slot list \<Rightarrow> nat \<Rightarrow> scache \<Rightarrow> (slot list \<times> slot list \<times> scache) result" where
  "s_evict_swa_loop need cands kv_out swa_out freed s =
     (if need \<le> freed then Inr (kv_out, swa_out, s)
      else case pop_min timestamp cands of
        None \<Rightarrow> Inr (kv_out, swa_out, s)
      | Some (d, cands') \<Rightarrow>
          if swa_tombstone d \<or> swa_ref_count d \<noteq> 0 \<or> uuid d = uuid (rdata (stree s))
          then s_evict_swa_loop need cands' kv_out swa_out freed s
          else if leaf_here (uuid d) (stree s) \<and> ref_count d = 0 then
            (case s_drop_leaf d kv_out (lose_swa d s) of
               Inl e \<Rightarrow> Inl e
             | Inr (kv', n, p, s') \<Rightarrow>
                 s_evict_swa_loop need cands' kv' (swa_out @ nval d) (freed + node_len d) s')
          else s_evict_swa_loop need cands' kv_out (swa_out @ nval d) (freed + node_len d)
                 (upd_tree (upd_node (uuid d) (\<lambda>e. e\<lparr>swa_tombstone := True\<rparr>)) (lose_swa d s)))"
  by pat_completeness auto
termination
  by (relation "measure (\<lambda>(_, cands, _, _, _, _). length cands)") (auto dest: pop_min_len)

declare s_evict_swa_loop.simps [simp del]

definition s_evict_swa :: "nat \<Rightarrow> scache \<Rightarrow> (slot list \<times> slot list \<times> scache) result" where
  "s_evict_swa need s = s_evict_swa_loop need (filter (\<lambda>d. swa_ref_count d = 0) (swa_nodes s)) [] [] 0 s"

text \<open>\<open>trim_head_swa\<close>: the descent that turns the unlocked inner nodes below \<open>keep_from\<close> into
  tombstones. The key of an empty rest raises when the page size is 1.\<close>

function trim_walk ::
    "nat \<Rightarrow> nat \<Rightarrow> nat \<Rightarrow> rtree \<Rightarrow> token list \<Rightarrow> (slot list \<times> int \<times> rtree) result" where
  "trim_walk ps keep pos (RNode d cs) ids =
     (if \<not> pos < keep then Inr ([], 0, RNode d cs)
      else if ids = [] \<and> ps = 1 then Inl IndexError
      else case map_of cs (key_fn ps ids) of
        None \<Rightarrow> Inr ([], 0, RNode d cs)
      | Some c \<Rightarrow>
          if keep < pos + node_len (rdata c) then Inr ([], 0, RNode d cs)
          else
            rbind (trim_walk ps keep (pos + node_len (rdata c)) c (drop (node_len (rdata c)) ids)) (\<lambda>(freed, n, c').
              let cut = \<not> swa_tombstone (rdata c) \<and> swa_ref_count (rdata c) = 0 \<and> \<not> is_leaf c;
                  c2 = (if cut then RNode ((rdata c')\<lparr>swa_tombstone := True\<rparr>) (rkids c') else c') in
              Inr ((if cut then nval (rdata c) else []) @ freed,
                   (if cut then int (node_len (rdata c)) else 0) + n,
                   RNode d (set_child (key_fn ps ids) c2 cs))))"
  by pat_completeness auto
termination
  by (relation "measure (\<lambda>(ps, keep, pos, t, ids). tsize t)") (auto dest: tsize_child)

declare trim_walk.simps [simp del]

definition trim_head_swa :: "int \<Rightarrow> token list \<Rightarrow> nat \<Rightarrow> scache \<Rightarrow> (slot list \<times> scache) result" where
  "trim_head_swa now ids keep s =
     (if keep = 0 then Inr ([], s)
      else rbind (s_match_prefix now (take keep ids) s) (\<lambda>(_, s1).
           rbind (trim_walk (page_size (skv s1)) keep 0 (stree s1) ids) (\<lambda>(freed, n, t).
             Inr (freed, s1\<lparr>skv := (skv s1)\<lparr>root_node := t\<rparr>, swa_evictable := swa_evictable s1 - n\<rparr>))))"

definition s_size_info :: "scache \<Rightarrow> int \<times> int" where
  "s_size_info s = size_info (skv s)"

definition s_check_integrity :: "scache \<Rightarrow> unit result" where
  "s_check_integrity s =
     py_assert (list_all (\<lambda>d. 0 \<le> ref_count d \<and> 0 \<le> swa_ref_count d \<and> swa_ref_count d \<le> ref_count d \<and>
         (swa_tombstone d \<longrightarrow> swa_ref_count d = 0))
       (filter (\<lambda>d. uuid d \<noteq> uuid (rdata (stree s))) (pre_nodes (stree s)))) (Inr ())"

end
