(* ===== verification/Swa_Manager.thy ===== *)
theory Swa_Manager
  imports Swa_Radix Cache_Manager State_Pools
begin

text \<open>
  \<open>CacheManager\<close> (\<open>scheduler/cache.py\<close>) when it drives a sliding-window pool: with the
  \<open>SWARadixCache\<close> (\<open>cache_type\<close> swa_radix), and with the naive cache over a paged window pool. Next
  to the full KV pages every token needs a window slot, which comes back as soon as the token has
  left the window of its request.
\<close>

section \<open>State\<close>

record 'c smgr =
  score :: "'c cmgr"
  swin :: swa_pool
  sliding_window :: nat

record shandle =
  sh_len :: nat
  sh_node :: nat
  sh_indices :: "slot list"
  sh_uuid :: "nat option"

abbreviation scache_of :: "scache smgr \<Rightarrow> scache" where
  "scache_of m \<equiv> prefix_cache (score m)"

abbreviation set_scache :: "scache \<Rightarrow> scache smgr \<Rightarrow> scache smgr" where
  "set_scache s m \<equiv> m\<lparr>score := (score m)\<lparr>prefix_cache := s\<rparr>\<rparr>"

abbreviation sm_ps :: "'c smgr \<Rightarrow> nat" where
  "sm_ps m \<equiv> cm_page_size (score m)"

text \<open>\<open>_swa_eviction_interval\<close>: \<open>raw\<close> is the environment variable, \<open>int_of\<close> the conversion
  \<open>int(raw)\<close>, which fails on a string that is no integer.\<close>

definition swa_eviction_interval :: "(string \<Rightarrow> int option) \<Rightarrow> string option \<Rightarrow> int result" where
  "swa_eviction_interval int_of raw =
     (case int_of (case raw of None \<Rightarrow> ''128'' | Some s \<Rightarrow> s) of
        Some n \<Rightarrow> Inr (max 1 n) | None \<Rightarrow> Inl ValueError)"

definition sm_free :: "slot list \<Rightarrow> 'c smgr \<Rightarrow> 'c smgr" where
  "sm_free indices m = m\<lparr>score := cm_free indices (score m)\<rparr>"

text \<open>\<open>_free_swa\<close>\<close>

definition sm_free_swa :: "slot list \<Rightarrow> 'c smgr \<Rightarrow> 'c smgr result" where
  "sm_free_swa indices m =
     (if 0 < length indices then rbind (free_swa indices (swin m)) (\<lambda>p. Inr (m\<lparr>swin := p\<rparr>)) else Inr m)"

text \<open>The window slots first, then the pages: how a finish or a duplicate gives slots back.\<close>

definition free_both :: "slot list \<Rightarrow> 'c smgr \<Rightarrow> 'c smgr result" where
  "free_both indices m = rbind (sm_free_swa indices m) (\<lambda>m1. Inr (sm_free indices m1))"

section \<open>Admission\<close>

definition sm_match_req :: "int \<Rightarrow> int list \<Rightarrow> bool \<Rightarrow> scache smgr \<Rightarrow> (shandle \<times> scache smgr) result" where
  "sm_match_req now ids mm m =
     py_assert (0 < length ids)
       (rbind (s_match_prefix now (if mm then [] else take (length ids - 1) ids) (scache_of m)) (\<lambda>(r, s).
          Inr (\<lparr>sh_len = sm_len r, sh_node = sm_node r, sh_indices = sm_indices r, sh_uuid = None\<rparr>, set_scache s m)))"

definition sm_lock :: "shandle \<Rightarrow> scache smgr \<Rightarrow> shandle \<times> scache smgr" where
  "sm_lock h m = (let (mark, s) = s_inc_lock (sh_node h) (scache_of m) in (h\<lparr>sh_uuid := mark\<rparr>, set_scache s m))"

definition sm_unlock :: "shandle \<Rightarrow> scache smgr \<Rightarrow> scache smgr result" where
  "sm_unlock h m =
     rbind (s_dec_lock (sh_node h) (sh_uuid h) False (scache_of m)) (\<lambda>s. Inr (set_scache s m))"

definition sm_available_size :: "scache smgr \<Rightarrow> int" where
  "sm_available_size m = evictable_size (skv (scache_of m)) + int (length (free_slots (score m)) * sm_ps m)"

text \<open>\<open>swa_available_size\<close>: the naive cache has no tree.\<close>

definition radix_swa_available_size :: "scache smgr \<Rightarrow> int" where
  "radix_swa_available_size m = int (swa_available_size (swin m)) + swa_evictable (scache_of m)"

definition naive_swa_available_size :: "'c smgr \<Rightarrow> int" where
  "naive_swa_available_size m = int (swa_available_size (swin m))"

section \<open>Allocation\<close>

text \<open>\<open>ensure_swa_slots\<close>. The loop ends when enough slots are free or the tree has nothing to give;
  it would not end if the tree kept handing out slots without a window slot, so that its value is
  an option.\<close>

partial_function (option) ensure_swa_slots :: "nat \<Rightarrow> scache smgr \<Rightarrow> scache smgr result option" where
  "ensure_swa_slots n m =
     (if swa_available_size (swin m) < n then
        (case s_evict_swa (n - swa_available_size (swin m)) (scache_of m) of
           Inl e \<Rightarrow> Some (Inl e)
         | Inr (kv_out, swa_out, s) \<Rightarrow>
             if swa_out = [] then Some (Inr (set_scache s m))
             else (case free_swa swa_out (swin m) of
                 Inl e \<Rightarrow> Some (Inl e)
               | Inr p \<Rightarrow>
                   ensure_swa_slots n
                     (if kv_out \<noteq> [] then sm_free kv_out ((set_scache s m)\<lparr>swin := p\<rparr>) else (set_scache s m)\<lparr>swin := p\<rparr>)))
      else Some (Inr m))"

definition sm_allocate :: "nat \<Rightarrow> scache smgr \<Rightarrow> (nat list \<times> scache smgr) result" where
  "sm_allocate needed m =
     rbind
       (if length (free_slots (score m)) < needed then
          let need = (needed - length (free_slots (score m))) * sm_ps m in
          rbind (s_evict_full need (scache_of m)) (\<lambda>(evicted, swa_out, s).
          rbind (sm_free_swa swa_out (set_scache s m)) (\<lambda>m1.
            let m2 = m1\<lparr>score := (score m1)\<lparr>free_slots := free_slots (score m1) @ every (sm_ps m1) evicted\<rparr>\<rparr> in
            py_assert (needed \<le> length (free_slots (score m2))) (Inr m2)))
        else Inr m)
       (\<lambda>m. Inr (take needed (free_slots (score m)),
                 m\<lparr>score := (score m)\<lparr>free_slots := drop needed (free_slots (score m))\<rparr>\<rparr>))"

definition write_rows :: "slot list \<Rightarrow> (int \<times> nat \<times> nat) list \<Rightarrow> 'c smgr \<Rightarrow> 'c smgr result" where
  "write_rows allocated info m =
     rbind (write_page_table (page_table (score m)) allocated info (sm_ps m))
       (\<lambda>table. Inr (m\<lparr>score := (score m)\<lparr>page_table := table\<rparr>\<rparr>))"

definition sm_allocate_paged :: "'h req list \<Rightarrow> scache smgr \<Rightarrow> scache smgr result option" where
  "sm_allocate_paged rs m =
     (let info = allocation_info (sm_ps m) rs in
      if 0 < needed_pages info then
        (case sm_allocate (needed_pages info) m of
           Inl e \<Rightarrow> Some (Inl e)
         | Inr (pages, m1) \<Rightarrow>
             let allocated = page_to_token (sm_ps m) pages in
             map_option (\<lambda>r. rbind r (\<lambda>m2. rbind (alloc_swa allocated (swin m2)) (\<lambda>p.
                 write_rows allocated info (m2\<lparr>swin := p\<rparr>))))
               (ensure_swa_slots (length allocated) m1))
      else Some (Inr m))"

text \<open>The naive cache over a paged window pool.\<close>

definition naive_allocate_paged :: "('c, 'h) pc_ops \<Rightarrow> 'h req list \<Rightarrow> 'c smgr \<Rightarrow> 'c smgr result" where
  "naive_allocate_paged ops rs m =
     (let info = allocation_info (sm_ps m) rs in
      if 0 < needed_pages info then
        rbind (cm_allocate ops (needed_pages info) (score m)) (\<lambda>(pages, c).
          let allocated = page_to_token (sm_ps m) pages in
          rbind (alloc_swa allocated (swin m)) (\<lambda>p.
            write_rows allocated info (m\<lparr>score := c, swin := p\<rparr>)))
      else Inr m)"

section \<open>Out of the window\<close>

text \<open>The frontier a decoding request may free up to, and its anchor: an anchor the decode has run
  far past is dropped. The interval test and the naive and radix handles share this step.\<close>

definition decode_threshold :: "nat \<Rightarrow> nat \<Rightarrow> 'h req \<Rightarrow> int \<times> nat option" where
  "decode_threshold w ps r =
     (let threshold = int (device_len r) - 1 - int w - int ps in
      case toolcall_anchor_len r of
        None \<Rightarrow> (threshold, None)
      | Some a \<Rightarrow>
          let cap = int a - int w - int swa_retain_gap in
          if int w + int swa_retain_gap < threshold - cap then (threshold, None)
          else (min threshold cap, Some a))"

text \<open>Free the row of a request from its frontier, or from the reused prefix, up to \<open>new_evicted\<close>.\<close>

definition free_span :: "int \<Rightarrow> nat \<Rightarrow> 'h req \<Rightarrow> 'c smgr \<Rightarrow> ('h req \<times> 'c smgr) result" where
  "free_span new_evicted reused r m =
     (let start = max (swa_evicted_seqlen r) (int reused) in
      if start < new_evicted then
        rbind (row_index (table_idx r) (page_table (score m))) (\<lambda>i.
        rbind (sm_free_swa (slice (nat start) (nat new_evicted) (page_table (score m) ! i)) m) (\<lambda>m1.
          Inr (r\<lparr>swa_evicted_seqlen := new_evicted\<rparr>, m1)))
      else Inr (r, m))"

definition free_decode_one :: "('h \<Rightarrow> nat) \<Rightarrow> 'h req \<Rightarrow> 'c smgr \<Rightarrow> ('h req \<times> 'c smgr) result" where
  "free_decode_one hlen r m =
     (if decode_batch_idx r < 1 then Inr (r, m)
      else let (threshold, anchor) = decode_threshold (sliding_window m) (sm_ps m) r in
        free_span (align_down threshold (int (sm_ps m))) (hlen (cache_handle r)) (r\<lparr>toolcall_anchor_len := anchor\<rparr>) m)"

definition free_extend_one :: "('h \<Rightarrow> nat) \<Rightarrow> 'h req \<Rightarrow> 'c smgr \<Rightarrow> ('h req \<times> 'c smgr) result" where
  "free_extend_one hlen r m =
     free_span (align_down (int (req_cached_len r) - int (sliding_window m) - int (sm_ps m)) (int (sm_ps m)))
       (hlen (cache_handle r)) r m"

fun each_req :: "('r \<Rightarrow> 'm \<Rightarrow> ('r \<times> 'm) result) \<Rightarrow> 'r list \<Rightarrow> 'm \<Rightarrow> ('r list \<times> 'm) result" where
  "each_req f [] m = Inr ([], m)"
| "each_req f (r # rs) m =
     rbind (f r m) (\<lambda>(r', m1). rbind (each_req f rs m1) (\<lambda>(rs', m2). Inr (r' # rs', m2)))"

definition maybe_free_swa_out_of_window ::
    "int \<Rightarrow> ('h \<Rightarrow> nat) \<Rightarrow> 'h req list \<Rightarrow> int \<Rightarrow> 'c smgr \<Rightarrow> ('h req list \<times> 'c smgr) result" where
  "maybe_free_swa_out_of_window interval hlen rs forward_iter m =
     (if forward_iter mod interval \<noteq> 0 then Inr (rs, m) else each_req (free_decode_one hlen) rs m)"

definition free_swa_out_of_window_extend ::
    "('h \<Rightarrow> nat) \<Rightarrow> 'h req list \<Rightarrow> 'c smgr \<Rightarrow> ('h req list \<times> 'c smgr) result" where
  "free_swa_out_of_window_extend hlen rs m = each_req (free_extend_one hlen) rs m"

section \<open>Commit and finish\<close>

text \<open>\<open>_cache_req_swa\<close>. A finish trims the window slots of the prompt's head and touches the rest;
  a commit forces a node boundary a window back, then moves the request to the tree's slots.\<close>

definition sm_padded_tail :: "'h req \<Rightarrow> nat \<Rightarrow> 'c smgr \<Rightarrow> slot list result" where
  "sm_padded_tail r start m = padded_tail r start (score m)"

definition finish_swa :: "int \<Rightarrow> nat \<Rightarrow> 'h req \<Rightarrow> scache smgr \<Rightarrow> scache smgr result" where
  "finish_swa now insert_len r m =
     rbind (sm_padded_tail r insert_len m) (\<lambda>tail.
     rbind (free_both tail m) (\<lambda>m1.
       let ps = sm_ps m; prompt_len = align_down (max_device_len r - output_len r) ps in
       if 0 < prompt_len then
         let keep_from = align_down (prompt_len - sliding_window m - swa_retain_gap) ps;
             prompt = take prompt_len (input_ids r) in
         rbind (if 0 < keep_from then
                  rbind (trim_head_swa now prompt keep_from (scache_of m1)) (\<lambda>(freed, s).
                    sm_free_swa freed (set_scache s m1))
                else Inr m1) (\<lambda>m2.
         rbind (s_match_prefix now prompt (scache_of m2)) (\<lambda>(_, s). Inr (set_scache s m2)))
       else Inr m1))"

definition commit_swa :: "int \<Rightarrow> nat \<Rightarrow> nat \<Rightarrow> shandle req \<Rightarrow> scache smgr \<Rightarrow> (shandle req \<times> scache smgr) result" where
  "commit_swa now i insert_len r m =
     (let keep_from = align_down (insert_len - sliding_window m - swa_retain_gap) (sm_ps m) in
      rbind (if 0 < keep_from
             then rbind (s_match_prefix now (take keep_from (input_ids r)) (scache_of m)) (\<lambda>(_, s). Inr (set_scache s m))
             else Inr m) (\<lambda>m1.
      rbind (s_match_prefix now (take insert_len (input_ids r)) (scache_of m1)) (\<lambda>(mt, s).
        let m2 = set_scache s m1;
            m3 = (if 0 < sm_len mt
                  then m2\<lparr>score := (score m2)\<lparr>page_table := (page_table (score m2))[i :=
                         put_slice 0 (sm_indices mt) (page_table (score m2) ! i)]\<rparr>\<rparr>
                  else m2);
            (h, m4) = sm_lock \<lparr>sh_len = sm_len mt, sh_node = sm_node mt, sh_indices = sm_indices mt, sh_uuid = None\<rparr> m3 in
        Inr (r\<lparr>cache_handle := h\<rparr>, m4))))"

definition cache_req_swa ::
    "int \<Rightarrow> shandle req \<Rightarrow> bool \<Rightarrow> scache smgr \<Rightarrow> (shandle req \<times> scache smgr) result" where
  "cache_req_swa now r finished m =
     rbind (row_index (table_idx r) (page_table (score m))) (\<lambda>i.
       let page_indices = take (req_cached_len r) (page_table (score m) ! i);
           old = cache_handle r; insert_len = align_down (req_cached_len r) (sm_ps m) in
       if mm_embeds r then
         rbind (sm_unlock old m) (\<lambda>m1.
           if finished
           then rbind (sm_padded_tail r (sh_len old) m1) (\<lambda>tail. rbind (free_both tail m1) (\<lambda>m2. Inr (r, m2)))
           else Inr (r, m1))
       else
         rbind (if 0 < insert_len
                then rbind (s_insert now (take insert_len (input_ids r)) (take insert_len page_indices)
                         (swa_evicted_seqlen r) (sh_len old) (scache_of m))
                       (\<lambda>(_, freed, s). Inr (freed, set_scache s m))
                else Inr ([], m)) (\<lambda>(freed, m1).
         rbind (sm_unlock old m1) (\<lambda>m2.
         rbind (free_both freed m2) (\<lambda>m3.
           if finished then rbind (finish_swa now insert_len r m3) (\<lambda>m4. Inr (r, m4))
           else commit_swa now i insert_len r m3))))"

text \<open>\<open>cache_req\<close> of the naive cache over a paged window pool.\<close>

definition naive_swa_cache_req ::
    "('c, 'h) pc_ops \<Rightarrow> int \<Rightarrow> int \<Rightarrow> 'h req \<Rightarrow> bool \<Rightarrow> 'c smgr \<Rightarrow> ('h req \<times> 'c smgr) result" where
  "naive_swa_cache_req ops tic now r finished m =
     rbind (row_index (table_idx r) (page_table (score m))) (\<lambda>i.
       let page_indices = take (req_cached_len r) (page_table (score m) ! i);
           old = cache_handle r; old_len = pc_cached_len ops old;
           unlocked = (\<lambda>c. rbind (cm_unlock ops old c) (\<lambda>c'. Inr (m\<lparr>score := c'\<rparr>))) in
       if mm_embeds r then
         rbind (unlocked (score m)) (\<lambda>m1.
           if finished
           then rbind (sm_padded_tail r old_len m1) (\<lambda>tail. rbind (free_both tail m1) (\<lambda>m2. Inr (r, m2)))
           else Inr (r, m1))
       else
         rbind (pc_insert ops tic now (take (req_cached_len r) (input_ids r)) page_indices (prefix_cache (score m)))
           (\<lambda>(cached_len, new_handle, c).
         rbind (unlocked ((score m)\<lparr>prefix_cache := c\<rparr>)) (\<lambda>m1.
         rbind (free_both (slice old_len cached_len page_indices) m1) (\<lambda>m2.
           if finished then
             rbind (sm_padded_tail r (pc_cached_len ops new_handle) m2) (\<lambda>tail.
             rbind (free_both tail m2) (\<lambda>m3. Inr (r, m3)))
           else
             rbind (if old_len < cached_len then
                      rbind (pc_indices ops new_handle (prefix_cache (score m2))) (\<lambda>canonical.
                        Inr (m2\<lparr>score := (score m2)\<lparr>page_table := (page_table (score m2))[i :=
                          put_slice old_len (slice old_len cached_len canonical) (page_table (score m2) ! i)]\<rparr>\<rparr>))
                    else Inr m2) (\<lambda>m3.
             rbind (cm_lock ops new_handle (score m3)) (\<lambda>c'. Inr (r\<lparr>cache_handle := new_handle\<rparr>, m3\<lparr>score := c'\<rparr>)))))))"

section \<open>Integrity and rebuild\<close>

definition sm_check_integrity :: "scache smgr \<Rightarrow> unit result" where
  "sm_check_integrity m =
     rbind (s_check_integrity (scache_of m)) (\<lambda>_.
       let c = scache_of m; p = swin m;
           cache_pages = (evictable_size (skv c) + protected_size (skv c)) div int (sm_ps m) in
       py_assert (int (swa_available_size p) + (swa_evictable c + swa_protected c) = int (swa_num_tokens p) - 1)
         (if int (length (free_slots (score m))) + cache_pages \<noteq> int (num_pages (score m)) then Inl RuntimeError
          else if 1 < sm_ps m then py_assert (list_all (\<lambda>x. x mod sm_ps m = 0) (free_slots (score m))) (Inr ())
          else Inr ()))"

definition sm_rebuild :: "nat \<Rightarrow> slot list list \<Rightarrow> 'c \<Rightarrow> 'c smgr \<Rightarrow> 'c smgr" where
  "sm_rebuild n table fresh_cache m = m\<lparr>score := cm_rebuild n table fresh_cache (score m)\<rparr>"

end
