(* ===== verification/Sched_Managers.thy ===== *)
theory Sched_Managers
  imports Stream_Safety Hybrid_Manager Swa_Manager
begin

text \<open>
  The cache managers behind the operations of the scheduler: the plain manager (naive or radix
  cache), the hybrid manager, and the naive cache over a paged window pool. Each keeps the contract
  \<open>sched_contract\<close>. \<open>tic\<close> and \<open>now\<close> are the readings of the clock, \<open>moe\<close> the size of the engine's
  expert cache, \<open>fresh\<close> what \<open>_make_prefix_cache\<close> makes.
\<close>

section \<open>All results of a computation\<close>

definition all_results :: "('a \<Rightarrow> bool) \<Rightarrow> 'a result \<Rightarrow> bool" where
  "all_results P x \<longleftrightarrow> (\<forall>y. x = Inr y \<longrightarrow> P y)"

lemma all_resultsD: "all_results P x \<Longrightarrow> x = Inr y \<Longrightarrow> P y"
  by (simp add: all_results_def)

lemma all_results_intros:
  "P y \<Longrightarrow> all_results P (Inr y)" "all_results P (Inl e)" "(\<And>a. all_results P (f a)) \<Longrightarrow> all_results P (rbind x f)"
  "(b \<Longrightarrow> all_results P x1) \<Longrightarrow> (\<not> b \<Longrightarrow> all_results P x2) \<Longrightarrow> all_results P (if b then x1 else x2)"
  "all_results P x1 \<Longrightarrow> (\<And>a. all_results P (f a)) \<Longrightarrow> all_results P (case opt of None \<Rightarrow> x1 | Some a \<Rightarrow> f a)"
  "(\<And>a b. all_results P (g a b)) \<Longrightarrow> all_results P (case p of (a, b) \<Rightarrow> g a b)"
  "all_results P (f v) \<Longrightarrow> all_results P (Let v f)"
  by (auto simp: all_results_def rbind_Inr_conv split: option.splits prod.splits)

definition plain_geometry :: "int option \<Rightarrow> 'c cmgr \<Rightarrow> geometry" where
  "plain_geometry moe m =
     \<lparr>g_num_pages = int (num_pages m), g_moe_cache_size = moe, g_num_mamba_slots = None, g_num_swa_pages = None\<rparr>"

section \<open>The plain manager\<close>

definition plain_sched :: "('c, 'h) pc_ops \<Rightarrow> 'c \<Rightarrow> int option \<Rightarrow> int \<Rightarrow> ('c cmgr, 'h) sched_ops" where
  "plain_sched ops fresh moe tic =
     \<lparr>so_adm = plain_ops ops tic, so_cache_req = cache_req ops tic tic, so_allocate = allocate_paged ops,
      so_decode_free = (\<lambda>rs n m. Inr (rs, m)), so_extend_free = (\<lambda>rs m. Inr (rs, m)),
      so_enter_lazy = enter_lazy, so_exit_lazy = exit_lazy, so_anchor = (\<lambda>rs m. Inr (rs, m)),
      so_copy_state = (\<lambda>src dst m. Inl AttributeError), so_has_states = (\<lambda>m. False),
      so_kv_usage = (\<lambda>m. let (used, n) = page_usage ops m in (used, int n)),
      so_mamba_usage = (\<lambda>m. None), so_swa_usage = (\<lambda>m. None), so_check = check_integrity ops,
      so_rebuild = (\<lambda>n table m. cm_rebuild n table fresh m), so_supports_rebuild = (\<lambda>m. True),
      so_chunk_budget = (\<lambda>m. None), so_geometry = plain_geometry moe\<rparr>"

lemma cache_req_same: "cache_req ops tic now r fin m = Inr (r', m') \<Longrightarrow> same_req r r'"
proof -
  have "all_results (\<lambda>(r', m'). same_req r r') (cache_req ops tic now r fin m)"
    unfolding cache_req_def by (intro all_results_intros) (simp_all add: same_req_def)
  then show "cache_req ops tic now r fin m = Inr (r', m') \<Longrightarrow> same_req r r'" by (auto dest: all_resultsD)
qed

interpretation plain_mgr: sched_contract "plain_sched ops fresh moe tic"
  by unfold_locales (auto simp: plain_sched_def intro: cache_req_same)

section \<open>The hybrid manager\<close>

definition hybrid_adm :: "int \<Rightarrow> ('s hmgr, hhandle) mgr_ops" where
  "hybrid_adm tic =
     \<lparr>mo_page_size = (\<lambda>m. cm_page_size (core m)), mo_available_size = hm_available_size,
      mo_match_req = hm_match_req tic, mo_lock = (\<lambda>h m. Inr (h, hm_lock h m)), mo_unlock = hm_unlock,
      mo_cached_len = hh_len, mo_matched_indices = (\<lambda>h m. Inr (hh_indices h)),
      mo_put_row = (\<lambda>ti a vals m. rbind (put_row ti a vals (core m)) (\<lambda>c. Inr (m\<lparr>core := c\<rparr>))),
      mo_chunk_align = (\<lambda>m. prefill_chunk_align True (cm_page_size (core m))), mo_is_hybrid = (\<lambda>m. True),
      mo_num_free_states = (\<lambda>m. num_free_slots (state_pool m)), mo_ensure_states = ensure_mamba_slots,
      mo_alloc_states = (\<lambda>n m. rbind (lp_alloc n (state_pool m)) (\<lambda>(xs, p). Inr (xs, m\<lparr>state_pool := p\<rparr>))),
      mo_free_states = pool_free, mo_swa_paged = (\<lambda>m. False), mo_window = (\<lambda>m. 0), mo_swa_available = (\<lambda>m. 0)\<rparr>"

definition hybrid_sched :: "hcache \<Rightarrow> int option \<Rightarrow> int \<Rightarrow> ('s hmgr, hhandle) sched_ops" where
  "hybrid_sched fresh moe tic =
     \<lparr>so_adm = hybrid_adm tic, so_cache_req = cache_req_hybrid tic tic tic, so_allocate = hm_allocate_paged,
      so_decode_free = (\<lambda>rs n m. Inr (rs, m)), so_extend_free = (\<lambda>rs m. Inr (rs, m)),
      so_enter_lazy = (\<lambda>m. m\<lparr>core := enter_lazy (core m)\<rparr>), so_exit_lazy = (\<lambda>m. m\<lparr>core := exit_lazy (core m)\<rparr>),
      so_anchor = snapshot_toolcall_anchor,
      so_copy_state = (\<lambda>src dst m. rbind (copy_from src dst (state_pool m)) (\<lambda>p. Inr (m\<lparr>state_pool := p\<rparr>))),
      so_has_states = (\<lambda>m. True),
      so_kv_usage = (\<lambda>m. (int (num_pages (core m)) - int (length (free_slots (core m))) -
          evictable_size (kv (hcache_of m)) div int (cm_page_size (core m)), int (num_pages (core m)))),
      so_mamba_usage = (\<lambda>m. Some (mamba_slot_usage (lp_num_slots (state_pool m)) (mamba_available_size m))),
      so_swa_usage = (\<lambda>m. None), so_check = hm_check_integrity,
      so_rebuild = (\<lambda>n table m. hm_rebuild n table fresh m), so_supports_rebuild = (\<lambda>m. True),
      so_chunk_budget = (\<lambda>m. None),
      so_geometry = (\<lambda>m. (plain_geometry moe (core m))\<lparr>g_num_mamba_slots := Some (int (lp_num_slots (state_pool m)) - 1)\<rparr>)\<rparr>"

lemma free_req_slots_same: "same_req r r0 \<Longrightarrow> same_req r (fst (free_req_slots keep r0 m))"
  by (simp add: free_req_slots_def same_req_def Let_def)

lemma finish_frozen_same: "finish_frozen tic now pis r m = Inr (n, r', m') \<Longrightarrow> same_req r r'"
proof -
  have "all_results (\<lambda>(n, r', m'). same_req r r') (finish_frozen tic now pis r m)"
    unfolding finish_frozen_def by (intro all_results_intros) (simp_all add: same_req_def)
  then show "finish_frozen tic now pis r m = Inr (n, r', m') \<Longrightarrow> same_req r r'" by (auto dest: all_resultsD)
qed

lemma commit_frozen_same: "all_results (\<lambda>(r', m'). same_req r r') (commit_frozen tic now tic2 pis i L r m)"
  unfolding commit_frozen_def by (intro all_results_intros) (simp_all add: same_req_def)

lemma cache_req_hybrid_same:
  assumes run: "cache_req_hybrid tic now tic2 r fin m = Inr (r', m')"
  shows "same_req r r'"
proof (cases "\<not> mm_embeds r \<and> fin")
  case True
  then obtain i n r1 m1 keep m2 where "finish_frozen tic now (take (req_cached_len r) (page_table (core m) ! i)) r m = Inr (n, r1, m1)"
    and "free_req_slots keep r1 m2 = (r', m')"
    using run by (auto simp: cache_req_hybrid_def Let_def rbind_Inr_conv)
  then show ?thesis using free_req_slots_same [OF finish_frozen_same] by (metis fst_conv)
next
  case False
  have "all_results (\<lambda>(r', m'). same_req r r') (cache_req_hybrid tic now tic2 r fin m)"
    unfolding cache_req_hybrid_def using False
    by (intro all_results_intros commit_frozen_same)
      (auto simp: case_prod_beta free_req_slots_def Let_def same_req_def split: if_splits)
  then show ?thesis using run by (auto dest: all_resultsD)
qed

lemma anchor_loop_same: "anchor_loop ps rs p = Inr (rs', p') \<Longrightarrow> list_all2 same_req rs rs'"
proof (induction rs arbitrary: p rs' p')
  case (Cons r rs)
  obtain r1 p1 rs2 where a: "anchor_one ps r p = Inr (r1, p1)" "anchor_loop ps rs p1 = Inr (rs2, p')" "rs' = r1 # rs2"
    using Cons.prems by (auto simp: rbind_Inr_conv)
  have "same_req r r1" using a(1)
    by (auto simp: anchor_one_def rbind_Inr_conv same_req_def split: option.splits if_splits)
  then show ?case using Cons.IH [OF a(2)] a(3) by simp
qed simp

interpretation hybrid_mgr: sched_contract "hybrid_sched fresh moe tic"
  by unfold_locales
    (auto simp: hybrid_sched_def snapshot_toolcall_anchor_def rbind_Inr_conv intro: cache_req_hybrid_same anchor_loop_same)

section \<open>The naive cache over a paged window pool\<close>

definition window_adm :: "('c, 'h) pc_ops \<Rightarrow> int \<Rightarrow> ('c smgr, 'h) mgr_ops" where
  "window_adm ops tic =
     \<lparr>mo_page_size = sm_ps, mo_available_size = (\<lambda>m. available_size ops (score m)),
      mo_match_req = (\<lambda>ids mm m. rbind (match_req ops tic ids mm (score m)) (\<lambda>(h, c). Inr (h, None, m\<lparr>score := c\<rparr>))),
      mo_lock = (\<lambda>h m. rbind (cm_lock ops h (score m)) (\<lambda>c. Inr (h, m\<lparr>score := c\<rparr>))),
      mo_unlock = (\<lambda>h m. rbind (cm_unlock ops h (score m)) (\<lambda>c. Inr (m\<lparr>score := c\<rparr>))),
      mo_cached_len = pc_cached_len ops, mo_matched_indices = (\<lambda>h m. pc_indices ops h (prefix_cache (score m))),
      mo_put_row = (\<lambda>ti a vals m. rbind (put_row ti a vals (score m)) (\<lambda>c. Inr (m\<lparr>score := c\<rparr>))),
      mo_chunk_align = (\<lambda>m. prefill_chunk_align False (sm_ps m)), mo_is_hybrid = (\<lambda>m. False),
      mo_num_free_states = (\<lambda>m. 0), mo_ensure_states = (\<lambda>n m. Inr m),
      mo_alloc_states = (\<lambda>n m. Inl RuntimeError), mo_free_states = (\<lambda>s m. m),
      mo_swa_paged = (\<lambda>m. True), mo_window = sliding_window, mo_swa_available = naive_swa_available_size\<rparr>"

definition window_sched :: "('c, 'h) pc_ops \<Rightarrow> 'c \<Rightarrow> int option \<Rightarrow> int \<Rightarrow> int \<Rightarrow> ('c smgr, 'h) sched_ops" where
  "window_sched ops fresh moe interval tic =
     \<lparr>so_adm = window_adm ops tic, so_cache_req = naive_swa_cache_req ops tic tic, so_allocate = naive_allocate_paged ops,
      so_decode_free = maybe_free_swa_out_of_window interval (pc_cached_len ops),
      so_extend_free = free_swa_out_of_window_extend (pc_cached_len ops),
      so_enter_lazy = (\<lambda>m. m\<lparr>score := enter_lazy (score m)\<rparr>), so_exit_lazy = (\<lambda>m. m\<lparr>score := exit_lazy (score m)\<rparr>),
      so_anchor = (\<lambda>rs m. Inr (rs, m)), so_copy_state = (\<lambda>src dst m. Inl AttributeError), so_has_states = (\<lambda>m. False),
      so_kv_usage = (\<lambda>m. let (used, n) = page_usage ops (score m) in (used, int n)), so_mamba_usage = (\<lambda>m. None),
      so_swa_usage = (\<lambda>m. Some (swa_token_usage (swa_num_tokens (swin m)) (naive_swa_available_size m))),
      so_check = (\<lambda>m. check_integrity ops (score m)), so_rebuild = (\<lambda>n table m. sm_rebuild n table fresh m),
      so_supports_rebuild = (\<lambda>m. True), so_chunk_budget = (\<lambda>m. None), so_geometry = (\<lambda>m. plain_geometry moe (score m))\<rparr>"

lemma naive_swa_cache_req_same: "naive_swa_cache_req ops tic now r fin m = Inr (r', m') \<Longrightarrow> same_req r r'"
proof -
  have "all_results (\<lambda>(r', m'). same_req r r') (naive_swa_cache_req ops tic now r fin m)"
    unfolding naive_swa_cache_req_def by (intro all_results_intros) (simp_all add: same_req_def)
  then show "naive_swa_cache_req ops tic now r fin m = Inr (r', m') \<Longrightarrow> same_req r r'" by (auto dest: all_resultsD)
qed

lemma free_span_same: "free_span t n r m = Inr (r', m') \<Longrightarrow> same_req r r'"
  by (auto simp: free_span_def Let_def rbind_Inr_conv same_req_def split: if_splits)

lemma each_req_same:
  "each_req f rs m = Inr (rs', m') \<Longrightarrow> (\<And>r m r' m'. f r m = Inr (r', m') \<Longrightarrow> same_req r r') \<Longrightarrow> list_all2 same_req rs rs'"
  by (induction rs arbitrary: m rs') (auto simp: rbind_Inr_conv)

lemma decode_one_same: "free_decode_one hlen r m = Inr (r', m') \<Longrightarrow> same_req r r'"
  by (auto simp: free_decode_one_def Let_def same_req_def dest!: free_span_same split: if_splits prod.splits)

lemma extend_one_same: "free_extend_one hlen r m = Inr (r', m') \<Longrightarrow> same_req r r'"
  by (auto simp: free_extend_one_def Let_def dest: free_span_same)

interpretation window_mgr: sched_contract "window_sched ops fresh moe interval tic"
  by unfold_locales
    (auto simp: window_sched_def maybe_free_swa_out_of_window_def free_swa_out_of_window_extend_def
      intro: naive_swa_cache_req_same decode_one_same extend_one_same dest!: each_req_same split: if_splits)

section \<open>The sliding-window radix cache\<close>

text \<open>The allocation always returns (\<open>Swa_Termination\<close>), so that the option is taken off.\<close>

definition swa_adm :: "int \<Rightarrow> (scache smgr, shandle) mgr_ops" where
  "swa_adm tic =
     \<lparr>mo_page_size = sm_ps, mo_available_size = sm_available_size,
      mo_match_req = (\<lambda>ids mm m. rbind (sm_match_req tic ids mm m) (\<lambda>(h, m). Inr (h, None, m))),
      mo_lock = (\<lambda>h m. Inr (sm_lock h m)), mo_unlock = sm_unlock, mo_cached_len = sh_len,
      mo_matched_indices = (\<lambda>h m. Inr (sh_indices h)),
      mo_put_row = (\<lambda>ti a vals m. rbind (put_row ti a vals (score m)) (\<lambda>c. Inr (m\<lparr>score := c\<rparr>))),
      mo_chunk_align = (\<lambda>m. prefill_chunk_align False (sm_ps m)), mo_is_hybrid = (\<lambda>m. False),
      mo_num_free_states = (\<lambda>m. 0), mo_ensure_states = (\<lambda>n m. Inr m),
      mo_alloc_states = (\<lambda>n m. Inl RuntimeError), mo_free_states = (\<lambda>s m. m),
      mo_swa_paged = (\<lambda>m. True), mo_window = sliding_window, mo_swa_available = radix_swa_available_size\<rparr>"

definition swa_sched :: "scache \<Rightarrow> int option \<Rightarrow> int \<Rightarrow> int \<Rightarrow> (scache smgr, shandle) sched_ops" where
  "swa_sched fresh moe interval tic =
     \<lparr>so_adm = swa_adm tic, so_cache_req = cache_req_swa tic, so_allocate = (\<lambda>rs m. the (sm_allocate_paged rs m)),
      so_decode_free = maybe_free_swa_out_of_window interval sh_len, so_extend_free = free_swa_out_of_window_extend sh_len,
      so_enter_lazy = (\<lambda>m. m\<lparr>score := enter_lazy (score m)\<rparr>), so_exit_lazy = (\<lambda>m. m\<lparr>score := exit_lazy (score m)\<rparr>),
      so_anchor = (\<lambda>rs m. Inr (rs, m)), so_copy_state = (\<lambda>src dst m. Inl AttributeError), so_has_states = (\<lambda>m. False),
      so_kv_usage = (\<lambda>m. (int (num_pages (score m)) - int (length (free_slots (score m))) -
          evictable_size (skv (scache_of m)) div int (sm_ps m), int (num_pages (score m)))),
      so_mamba_usage = (\<lambda>m. None),
      so_swa_usage = (\<lambda>m. Some (swa_token_usage (swa_num_tokens (swin m)) (radix_swa_available_size m))),
      so_check = sm_check_integrity, so_rebuild = (\<lambda>n table m. sm_rebuild n table fresh m),
      so_supports_rebuild = (\<lambda>m. True), so_chunk_budget = (\<lambda>m. None),
      so_geometry = (\<lambda>m. (plain_geometry moe (score m))\<lparr>g_num_swa_pages := Some (max 0 (int (swa_num_tokens (swin m)) - 1))\<rparr>)\<rparr>"

lemma commit_swa_same: "all_results (\<lambda>(r', m'). same_req r r') (commit_swa now i n r m)"
  unfolding commit_swa_def by (intro all_results_intros) (simp_all add: same_req_def)

lemma cache_req_swa_same:
  assumes "cache_req_swa now r fin m = Inr (r', m')"
  shows "same_req r r'"
proof -
  have "all_results (\<lambda>(r', m'). same_req r r') (cache_req_swa now r fin m)"
    unfolding cache_req_swa_def by (intro all_results_intros commit_swa_same) simp_all
  then show ?thesis using assms by (auto dest: all_resultsD)
qed

interpretation swa_mgr: sched_contract "swa_sched fresh moe interval tic"
  by unfold_locales
    (auto simp: swa_sched_def maybe_free_swa_out_of_window_def free_swa_out_of_window_extend_def
      intro: cache_req_swa_same decode_one_same extend_one_same dest!: each_req_same split: if_splits)

end
