(* ===== verification/Byte_Text.thy ===== *)
theory Byte_Text
  imports Py_Text
begin

text \<open>
  Texts out of bytes, as the decoders of byte-level tokenizers give them: every token stands for some bytes, which need not be
  whole characters, and a sequence of tokens is read as the UTF-8 text of its bytes, with U+FFFD for what is not UTF-8
  (\<open>bytes.decode("utf-8", errors="replace")\<close>). What the detokenizer and the stop test rely on is stated as the locale
  \<open>incremental_decoder\<close>.
\<close>

section \<open>UTF-8\<close>

abbreviation replacement :: nat where
  "replacement \<equiv> 0xFFFD"

text \<open>A character that has begun: the range of its next byte, how many bytes are still to come, and its bits so far.\<close>

datatype pending = Pending (p_low: nat) (p_high: nat) (p_rest: nat) (p_value: nat)

definition utf8_start :: "nat \<Rightarrow> utext \<times> pending option" where
  "utf8_start b =
     (if b < 0x80 then ([b], None)
      else if 0xC2 \<le> b \<and> b \<le> 0xDF then ([], Some (Pending 0x80 0xBF 1 (b - 0xC0)))
      else if b = 0xE0 then ([], Some (Pending 0xA0 0xBF 2 0))
      else if b = 0xED then ([], Some (Pending 0x80 0x9F 2 0xD))
      else if 0xE1 \<le> b \<and> b \<le> 0xEF then ([], Some (Pending 0x80 0xBF 2 (b - 0xE0)))
      else if b = 0xF0 then ([], Some (Pending 0x90 0xBF 3 0))
      else if 0xF1 \<le> b \<and> b \<le> 0xF3 then ([], Some (Pending 0x80 0xBF 3 (b - 0xF0)))
      else if b = 0xF4 then ([], Some (Pending 0x80 0x8F 3 4))
      else ([replacement], None))"

fun utf8_step :: "pending option \<Rightarrow> nat \<Rightarrow> utext \<times> pending option" where
  "utf8_step None b = utf8_start b"
| "utf8_step (Some (Pending lo hi n v)) b =
     (if lo \<le> b \<and> b \<le> hi
      then if n \<le> 1 then ([v * 64 + (b - 0x80)], None) else ([], Some (Pending 0x80 0xBF (n - 1) (v * 64 + (b - 0x80))))
      else let (t, p) = utf8_start b in (replacement # t, p))"

fun utf8_run :: "pending option \<Rightarrow> nat list \<Rightarrow> utext \<times> pending option" where
  "utf8_run p [] = ([], p)"
| "utf8_run p (b # bs) = (let (t, q) = utf8_step p b; (u, r) = utf8_run q bs in (t @ u, r))"

definition utf8_flush :: "pending option \<Rightarrow> utext" where
  "utf8_flush p = (if p = None then [] else [replacement])"

definition utf8 :: "nat list \<Rightarrow> utext" where
  "utf8 bs = (let (t, p) = utf8_run None bs in t @ utf8_flush p)"

lemma utf8_run_append:
  "utf8_run p (a @ b) = (fst (utf8_run p a) @ fst (utf8_run (snd (utf8_run p a)) b), snd (utf8_run (snd (utf8_run p a)) b))"
  by (induction a arbitrary: p) (auto simp: case_prod_beta Let_def)

lemma utf8_parts: "utf8 bs = fst (utf8_run None bs) @ utf8_flush (snd (utf8_run None bs))"
  by (simp add: utf8_def case_prod_beta)

lemma utf8_Nil [simp]: "utf8 [] = []"
  by (simp add: utf8_def utf8_flush_def)

text \<open>What has been read of whole characters stays.\<close>

lemma utf8_grows: "prefix (fst (utf8_run None a)) (utf8 (a @ b))"
  by (simp add: utf8_parts utf8_run_append)

definition whole :: "utext \<Rightarrow> utext" where
  "whole t = rev (dropWhile (\<lambda>c. c = replacement) (rev t))"

definition steady :: "utext \<Rightarrow> bool" where
  "steady t \<longleftrightarrow> t = [] \<or> last t \<noteq> replacement"

lemma steady_append: "steady t \<Longrightarrow> steady u \<Longrightarrow> steady (t @ u)"
  by (cases "u = []") (auto simp: steady_def)

lemma whole_append_flush: "whole (t @ utf8_flush p) = whole t"
  by (simp add: whole_def utf8_flush_def)

lemma whole_prefix: "prefix (whole t) t"
  unfolding whole_def by (metis rev_rev_ident suffix_dropWhile suffix_to_prefix)

lemma whole_steady: "steady t \<Longrightarrow> whole t = t"
  by (cases t rule: rev_cases) (auto simp: whole_def steady_def)

lemma steady_whole: "steady (whole t)"
proof (cases "dropWhile (\<lambda>c. c = replacement) (rev t)")
  case (Cons c cs)
  then have "c \<noteq> replacement" using hd_dropWhile [of "\<lambda>c. c = replacement" "rev t"] by simp
  then show ?thesis by (simp add: steady_def whole_def Cons)
qed (simp add: steady_def whole_def)

lemma whole_append: "steady a \<Longrightarrow> whole (a @ b) = a @ whole b"
proof (cases "dropWhile (\<lambda>c. c = replacement) (rev b) = []")
  case True
  assume "steady a"
  then have "rev (dropWhile (\<lambda>c. c = replacement) (rev a)) = a" using whole_steady [of a] by (simp add: whole_def)
  then show ?thesis using True by (auto simp: whole_def dropWhile_append dropWhile_eq_Nil_conv)
next
  case False
  then show ?thesis by (auto simp: whole_def dropWhile_append dropWhile_eq_Nil_conv)
qed

lemma prefix_whole: "prefix p t \<Longrightarrow> steady p \<Longrightarrow> prefix p (whole t)"
proof -
  assume p: "prefix p t" "steady p"
  then obtain x where "t = p @ x" by (auto elim: prefixE)
  then show ?thesis using whole_append [OF p(2)] by simp
qed

lemma steady_complete: "steady (utf8 a) \<Longrightarrow> snd (utf8_run None a) = None"
  unfolding utf8_parts utf8_flush_def steady_def by (cases "snd (utf8_run None a)") simp_all

lemma utf8_append:
  assumes "steady (utf8 a)"
  shows "utf8 (a @ b) = utf8 a @ utf8 b"
proof -
  have "snd (utf8_run None a) = None" using steady_complete [OF assms] .
  then show ?thesis unfolding utf8_parts utf8_run_append by (simp add: utf8_flush_def)
qed

section \<open>ASCII in a text of bytes\<close>

text \<open>A character that has begun will be no ASCII character: overlong forms are refused.\<close>

definition wide :: "pending option \<Rightarrow> bool" where
  "wide p \<longleftrightarrow> (case p of None \<Rightarrow> True
     | Some (Pending lo hi n v) \<Rightarrow> 0x80 \<le> lo \<and> 1 \<le> n \<and> 0x80 \<le> (v * 64 + (lo - 0x80)) * 64 ^ (n - 1))"

lemma wide_None [simp]: "wide None"
  by (simp add: wide_def)

lemma start_wide:
  "wide (snd (utf8_start b))" "b < 0x80 \<Longrightarrow> utf8_start b = ([b], None)" "0x80 \<le> b \<Longrightarrow> \<forall>c \<in> set (fst (utf8_start b)). 0x80 \<le> c"
  "fst (utf8_start b) = [] \<Longrightarrow> snd (utf8_start b) \<noteq> None"
proof -
  show "wide (snd (utf8_start b))" by (auto simp: utf8_start_def wide_def)
  show "b < 0x80 \<Longrightarrow> utf8_start b = ([b], None)" by (simp add: utf8_start_def)
  show "0x80 \<le> b \<Longrightarrow> \<forall>c \<in> set (fst (utf8_start b)). 0x80 \<le> c" by (auto simp: utf8_start_def)
  show "fst (utf8_start b) = [] \<Longrightarrow> snd (utf8_start b) \<noteq> None" by (simp add: utf8_start_def split: if_splits)
qed

lemma pending_step:
  assumes "wide (Some (Pending lo hi n v))"
  shows "wide (snd (utf8_step (Some (Pending lo hi n v)) b)) \<and> (b < 0x80 \<longrightarrow> utf8_step (Some (Pending lo hi n v)) b = ([replacement, b], None)) \<and>
    (0x80 \<le> b \<longrightarrow> (\<forall>c \<in> set (fst (utf8_step (Some (Pending lo hi n v)) b)). 0x80 \<le> c)) \<and>
    (fst (utf8_step (Some (Pending lo hi n v)) b) = [] \<longrightarrow> snd (utf8_step (Some (Pending lo hi n v)) b) \<noteq> None) \<and>
    (fst (utf8_step (Some (Pending lo hi n v)) b) \<noteq> [] \<longrightarrow> 0x80 \<le> hd (fst (utf8_step (Some (Pending lo hi n v)) b)))"
proof -
  have w: "0x80 \<le> lo" "1 \<le> n" "0x80 \<le> (v * 64 + (lo - 0x80)) * 64 ^ (n - 1)"
    using assms unfolding wide_def option.case pending.case by blast+
  show ?thesis
  proof (cases "lo \<le> b \<and> b \<le> hi")
    case True
    then have b: "\<not> b < 0x80" using w(1) by simp
    have "(v * 64 + (lo - 0x80)) * 64 ^ (n - 1) \<le> (v * 64 + (b - 0x80)) * 64 ^ (n - 1)"
      using True by (intro mult_right_mono add_left_mono diff_le_mono) simp_all
    then have big: "0x80 \<le> (v * 64 + (b - 0x80)) * 64 ^ (n - 1)" using w(3) by linarith
    show ?thesis
    proof (cases "n \<le> 1")
      case one: True
      then have n: "n = 1" using w(2) by simp
      have "0x80 \<le> v * 64 + (b - 0x80)" using big unfolding n diff_self_eq_0 power_0 mult_1_right .
      moreover have "utf8_step (Some (Pending lo hi n v)) b = ([v * 64 + (b - 0x80)], None)" using True one by simp
      ultimately show ?thesis using b by simp
    next
      case False
      then obtain m where m: "n = Suc (Suc m)" by (metis One_nat_def Suc_leI not_le less_imp_Suc_add add_Suc_right plus_1_eq_Suc)
      have "64 ^ (n - 1) = 64 * (64::nat) ^ (n - 1 - 1)" by (simp add: m)
      then have "0x80 \<le> (v * 64 + (b - 0x80)) * 64 * 64 ^ (n - 1 - 1)" using big by (simp only: mult.assoc)
      moreover have "0x80 - 0x80 = (0::nat)" "(1::nat) \<le> n - 1" using m by simp_all
      ultimately have "wide (Some (Pending 0x80 0xBF (n - 1) (v * 64 + (b - 0x80))))"
        unfolding wide_def option.case pending.case by (simp only: add_0_right order_refl simp_thms)
      moreover have "utf8_step (Some (Pending lo hi n v)) b = ([], Some (Pending 0x80 0xBF (n - 1) (v * 64 + (b - 0x80))))"
        using True False by simp
      ultimately show ?thesis using b by simp
    qed
  next
    case False
    have e: "utf8_step (Some (Pending lo hi n v)) b = (replacement # fst (utf8_start b), snd (utf8_start b))"
      using False by (auto simp: case_prod_beta Let_def)
    show ?thesis unfolding e using start_wide [of b] by auto
  qed
qed

lemma step_wide:
  assumes "wide p"
  shows "wide (snd (utf8_step p b))" "b < 0x80 \<Longrightarrow> utf8_step p b = (utf8_flush p @ [b], None)"
    "0x80 \<le> b \<Longrightarrow> c \<in> set (fst (utf8_step p b)) \<Longrightarrow> 0x80 \<le> c" "fst (utf8_step p b) = [] \<Longrightarrow> snd (utf8_step p b) \<noteq> None"
    "p \<noteq> None \<Longrightarrow> fst (utf8_step p b) \<noteq> [] \<Longrightarrow> 0x80 \<le> hd (fst (utf8_step p b))"
proof -
  have all: "wide (snd (utf8_step p b)) \<and> (b < 0x80 \<longrightarrow> utf8_step p b = (utf8_flush p @ [b], None)) \<and>
      (0x80 \<le> b \<longrightarrow> (\<forall>c \<in> set (fst (utf8_step p b)). 0x80 \<le> c)) \<and> (fst (utf8_step p b) = [] \<longrightarrow> snd (utf8_step p b) \<noteq> None) \<and>
      (p \<noteq> None \<longrightarrow> fst (utf8_step p b) \<noteq> [] \<longrightarrow> 0x80 \<le> hd (fst (utf8_step p b)))"
  proof (cases p)
    case None
    then show ?thesis using start_wide [of b] by (simp add: utf8_flush_def)
  next
    case (Some q)
    obtain lo hi n v where q: "q = Pending lo hi n v" by (cases q)
    have "wide (Some (Pending lo hi n v))" using assms Some q by simp
    from pending_step [OF this, of b] show ?thesis unfolding Some q by (simp add: utf8_flush_def)
  qed
  then show "wide (snd (utf8_step p b))" "b < 0x80 \<Longrightarrow> utf8_step p b = (utf8_flush p @ [b], None)"
    "0x80 \<le> b \<Longrightarrow> c \<in> set (fst (utf8_step p b)) \<Longrightarrow> 0x80 \<le> c" "fst (utf8_step p b) = [] \<Longrightarrow> snd (utf8_step p b) \<noteq> None"
    "p \<noteq> None \<Longrightarrow> fst (utf8_step p b) \<noteq> [] \<Longrightarrow> 0x80 \<le> hd (fst (utf8_step p b))" by blast+
qed

definition utf8_from :: "pending option \<Rightarrow> nat list \<Rightarrow> utext" where
  "utf8_from p bs = fst (utf8_run p bs) @ utf8_flush (snd (utf8_run p bs))"

lemma from_simps:
  "utf8 bs = utf8_from None bs" "utf8_from p [] = utf8_flush p"
  "utf8_from p (b # bs) = fst (utf8_step p b) @ utf8_from (snd (utf8_step p b)) bs"
  by (simp_all add: utf8_from_def utf8_parts case_prod_beta Let_def)

lemma run_wide: "wide p \<Longrightarrow> wide (snd (utf8_run p bs))"
  by (induction bs arbitrary: p) (simp_all add: case_prod_beta Let_def step_wide(1))

lemma from_pending: "wide p \<Longrightarrow> p \<noteq> None \<Longrightarrow> utf8_from p bs \<noteq> [] \<and> 0x80 \<le> hd (utf8_from p bs)"
proof (induction bs arbitrary: p)
  case Nil
  then show ?case by (simp add: from_simps utf8_flush_def)
next
  case (Cons b bs)
  show ?case
  proof (cases "fst (utf8_step p b) = []")
    case True
    then show ?thesis using Cons.IH [OF step_wide(1) [OF Cons.prems(1)] step_wide(4) [OF Cons.prems(1) True]] by (simp add: from_simps)
  qed (use step_wide(5) [OF Cons.prems] in \<open>simp add: from_simps\<close>)
qed

lemma utf8_empty: "utf8 bs = [] \<longleftrightarrow> bs = []"
proof (cases bs)
  case (Cons b cs)
  show ?thesis
  proof (cases "fst (utf8_step None b) = []")
    case True
    then show ?thesis using from_pending [OF step_wide(1) step_wide(4), of None b cs] Cons by (simp add: from_simps)
  qed (simp add: Cons from_simps)
qed simp

definition ascii :: "utext \<Rightarrow> bool" where
  "ascii s \<longleftrightarrow> list_all (\<lambda>c. c < 0x80) s"

lemma ascii_run: "wide p \<Longrightarrow> ascii s \<Longrightarrow> s \<noteq> [] \<Longrightarrow> utf8_run p s = (utf8_flush p @ s, None)"
proof (induction s arbitrary: p)
  case (Cons c s)
  then show ?case using step_wide(2) [OF Cons.prems(1), of c] Cons.IH [of None]
    by (cases "s = []") (simp_all add: ascii_def utf8_flush_def)
qed simp

lemma ascii_starts: "ascii s \<Longrightarrow> prefix s (utf8_from None bs) \<Longrightarrow> prefix s bs"
proof (induction s arbitrary: bs)
  case (Cons c s)
  obtain b cs where bs: "bs = b # cs" using Cons.prems(2) by (cases bs) (simp_all add: from_simps utf8_flush_def)
  show ?case
  proof (cases "b < 0x80")
    case True
    then show ?thesis using Cons step_wide(2) [of None b] bs by (simp add: from_simps ascii_def utf8_flush_def)
  next
    case False
    have "0x80 \<le> hd (utf8_from None bs)"
    proof (cases "fst (utf8_step None b) = []")
      case True
      then show ?thesis using from_pending [OF step_wide(1) step_wide(4), of None b cs] bs by (simp add: from_simps)
    next
      case ne: False
      then show ?thesis using step_wide(3) [of None b "hd (fst (utf8_step None b))"] bs False by (simp add: from_simps)
    qed
    then show ?thesis using Cons.prems by (auto simp: ascii_def prefix_def)
  qed
qed simp

lemma sublist_starts: "sublist s t \<longleftrightarrow> (\<exists>u. suffix u t \<and> prefix s u)"
  by (auto simp: sublist_altdef')

lemma ascii_inside:
  assumes "ascii s" and "s \<noteq> []"
  shows "wide p \<Longrightarrow> sublist s (utf8_from p bs) \<Longrightarrow> sublist s bs"
proof (induction bs arbitrary: p)
  case Nil
  obtain c s' where s: "s = c # s'" using assms(2) by (cases s) auto
  then have "c \<in> set (utf8_flush p)" using Nil.prems(2) by (auto simp: from_simps sublist_def)
  then show ?case using assms(1) s by (auto simp: utf8_flush_def ascii_def split: if_splits)
next
  case (Cons b bs)
  obtain c s' where s: "s = c # s'" using assms(2) by (cases s) auto
  let ?t = "fst (utf8_step p b)" and ?q = "snd (utf8_step p b)"
  note IH = Cons.IH [OF step_wide(1) [OF Cons.prems(1), of b]]
  obtain u where u: "suffix u (?t @ utf8_from ?q bs)" "prefix s u"
    using Cons.prems(2) unfolding from_simps sublist_starts by blast
  have "suffix u (utf8_from ?q bs) \<or> (\<exists>t'. u = t' @ utf8_from ?q bs \<and> suffix t' ?t)" using u(1) unfolding suffix_append .
  then consider "suffix u (utf8_from ?q bs)" | t' where "t' \<noteq> []" "suffix t' ?t" "u = t' @ utf8_from ?q bs"
    by (metis append_Nil suffix_order.refl)
  then show ?case
  proof cases
    case 1
    then have "sublist s bs" using IH u(2) sublist_starts by blast
    then show ?thesis by (metis sublist_Cons_right)
  next
    case 2
    then have hd: "c = hd t'" "hd t' \<in> set ?t" using u(2) s by (cases t'; auto simp: suffix_def)+
    have c: "c < 0x80" using assms(1) s by (simp add: ascii_def)
    have b: "b < 0x80" using step_wide(3) [OF Cons.prems(1), of b c] hd c by (meson not_le)
    have t: "?t = utf8_flush p @ [b]" "?q = None" using step_wide(2) [OF Cons.prems(1) b] by simp_all
    have "t' = [b]"
    proof (rule ccontr)
      assume "t' \<noteq> [b]"
      then have "t' = [replacement, b]" using 2(1,2) t by (auto simp: utf8_flush_def suffix_Cons split: if_splits)
      then show False using hd(1) c by simp
    qed
    then have "c = b" "prefix s' (utf8_from None bs)" using u(2) 2(3) s t(2) by simp_all
    then have "prefix s (b # bs)" using ascii_starts [of s' bs] assms(1) s by (simp add: ascii_def)
    then show ?thesis by (rule prefix_imp_sublist)
  qed
qed

lemma ascii_sublist:
  assumes "ascii s"
  shows "sublist s (utf8 bs) \<longleftrightarrow> sublist s bs"
proof (cases "s = []")
  case False
  have "sublist s (utf8 bs)" if s: "sublist s bs"
  proof -
    obtain a y where bs: "bs = a @ s @ y" using s unfolding sublist_def by blast
    have "utf8_run (snd (utf8_run None a)) s = (utf8_flush (snd (utf8_run None a)) @ s, None)"
      by (rule ascii_run [OF run_wide assms False]) simp
    then have "utf8 bs = (fst (utf8_run None a) @ utf8_flush (snd (utf8_run None a))) @ s @ utf8 y"
      unfolding bs utf8_parts utf8_run_append by simp
    then show ?thesis using sublist_appendI by metis
  qed
  moreover have "sublist s bs" if "sublist s (utf8 bs)" using ascii_inside [OF assms False, of None bs] that by (simp add: from_simps)
  ultimately show ?thesis by blast
qed simp

section \<open>Decoders of byte tokens\<close>

text \<open>The decoder of a byte-level tokenizer: the text of the tokens' bytes, without its one leading space when \<open>lead\<close> says so.\<close>

definition stripl :: "bool \<Rightarrow> utext \<Rightarrow> utext" where
  "stripl lead t = (if lead \<and> t \<noteq> [] \<and> hd t = 32 then tl t else t)"

definition byte_text :: "bool \<Rightarrow> ('t \<Rightarrow> nat list) \<Rightarrow> 't list \<Rightarrow> utext" where
  "byte_text lead tok ids = stripl lead (utf8 (concat (map tok ids)))"

lemma stripl_Nil [simp]: "stripl lead [] = []"
  by (simp add: stripl_def)

lemma stripl_append: "t \<noteq> [] \<Longrightarrow> stripl lead (t @ u) = stripl lead t @ u"
  by (simp add: stripl_def)

lemma length_stripl: "length t - 1 \<le> length (stripl lead t)" "length (stripl lead t) \<le> length t"
  by (simp_all add: stripl_def)

lemma stripl_steady: "steady (stripl lead t) \<longleftrightarrow> steady t"
  by (cases t) (auto simp: stripl_def steady_def)

lemma stripl_utf8: "stripl lead (utf8 bs) = utf8 (stripl lead bs)"
proof (cases "bs \<noteq> [] \<and> hd bs = 32")
  case True
  then have "bs = 32 # tl bs" by (cases bs) auto
  moreover have "utf8 (32 # tl bs) = 32 # utf8 (tl bs)" by (simp add: from_simps utf8_start_def)
  ultimately show ?thesis by (metis list.sel(1,3) list.distinct(1) stripl_def)
next
  case False
  then have "\<not> prefix [32] bs" by (cases bs) auto
  then have "\<not> prefix [32] (utf8 bs)" using ascii_starts [of "[32]" bs] by (auto simp: ascii_def from_simps)
  then show ?thesis using False by (cases "utf8 bs") (auto simp: stripl_def)
qed

lemma byte_text_ascii: "ascii s \<Longrightarrow> sublist s (byte_text lead tok ids) \<longleftrightarrow> sublist s (stripl lead (concat (map tok ids)))"
  by (simp add: byte_text_def stripl_utf8 ascii_sublist)

lemma byte_text_prefix: "prefix (whole (byte_text lead tok a)) (byte_text lead tok (a @ b))"
proof -
  let ?A = "concat (map tok a)" and ?B = "concat (map tok b)"
  let ?T = "fst (utf8_run None ?A)"
  obtain w where U: "utf8 (?A @ ?B) = ?T @ w" using utf8_grows [of ?A ?B] by (auto elim: prefixE)
  show ?thesis
  proof (cases "?T = []")
    case True
    then have "stripl lead (utf8 ?A) = utf8_flush (snd (utf8_run None ?A))" by (simp add: utf8_parts utf8_flush_def stripl_def)
    then have "whole (byte_text lead tok a) = whole ([] @ utf8_flush (snd (utf8_run None ?A)))" by (simp add: byte_text_def)
    also have "\<dots> = []" unfolding whole_append_flush by (simp add: whole_def)
    finally show ?thesis by simp
  next
    case False
    then have "byte_text lead tok (a @ b) = stripl lead ?T @ w" by (simp add: byte_text_def U stripl_append)
    moreover have "whole (byte_text lead tok a) = whole (stripl lead ?T)"
      using False by (simp add: byte_text_def utf8_parts stripl_append whole_append_flush)
    ultimately show ?thesis using prefix_order.trans [OF whole_prefix prefixI [OF refl]] by simp
  qed
qed

lemma byte_text_window:
  assumes "steady (byte_text lead tok a)" and "steady (byte_text lead tok (a @ b))"
    and "a = [] \<or> byte_text lead tok (a @ b) \<noteq> byte_text lead tok a"
  shows "byte_text lead tok (a @ b @ c) =
    byte_text lead tok (a @ b) @ drop (length (byte_text lead tok b)) (byte_text lead tok (b @ c))"
proof -
  let ?u = "\<lambda>xs. utf8 (concat (map tok xs))"
  have st: "steady (?u a)" "steady (?u (a @ b))" using assms by (simp_all add: byte_text_def stripl_steady)
  have ab: "?u (a @ b) = ?u a @ ?u b" using utf8_append [OF st(1)] by simp
  have abc: "?u (a @ b @ c) = ?u (a @ b) @ ?u c" using utf8_append [OF st(2), of "concat (map tok c)"] by simp
  have "steady (?u b)" using st(2) ab by (cases "?u b = []") (auto simp: steady_def)
  then have bc: "?u (b @ c) = ?u b @ ?u c" using utf8_append by simp
  show ?thesis
  proof (cases "?u b = []")
    case True
    then have "a = []" using assms(3) ab by (auto simp: byte_text_def)
    then show ?thesis using True bc by (simp add: byte_text_def)
  next
    case False
    then have "?u (a @ b) \<noteq> []" using ab by simp
    then show ?thesis unfolding byte_text_def abc bc stripl_append [OF False] stripl_append [OF \<open>?u (a @ b) \<noteq> []\<close>] by simp
  qed
qed

text \<open>An ASCII string in a window of the tokens is in their text, and a window that holds as many tokens before the newest one as
  the string has characters holds the string that the newest token completes.\<close>

lemma stripl_suffix: "suffix (stripl lead t) t"
  by (cases t) (auto simp: stripl_def suffix_Cons)

lemma byte_text_drop:
  assumes "ascii s" and "sublist s (byte_text lead tok (drop k ids))"
  shows "sublist s (byte_text lead tok ids)"
proof -
  let ?B = "\<lambda>xs. concat (map tok xs)"
  have split: "?B ids = ?B (take k ids) @ ?B (drop k ids)" by (metis append_take_drop_id concat_append map_append)
  have sub: "sublist s (stripl lead (?B (drop k ids)))" using assms by (simp add: byte_text_ascii)
  have "sublist s (stripl lead (?B ids))"
  proof (cases "?B (take k ids) = []")
    case False
    have "suffix (stripl lead (?B (drop k ids))) (stripl lead (?B ids))"
      unfolding split stripl_append [OF False] by (intro suffix_appendI stripl_suffix)
    then show ?thesis using sub suffix_imp_sublist sublist_order.order.trans by blast
  next
    case True
    then show ?thesis using sub unfolding split True by simp
  qed
  then show ?thesis using assms(1) by (simp add: byte_text_ascii)
qed

lemma byte_text_tail:
  assumes a: "ascii s" and pos: "\<forall>i \<in> set gen. tok i \<noteq> []"
    and occ: "sublist s (byte_text lead tok (gen @ [t]))" and new: "\<not> sublist s (byte_text lead tok gen)"
    and k: "k = 0 \<or> length s \<le> length gen - k"
  shows "sublist s (byte_text lead tok (drop k (gen @ [t])))"
proof (cases "k = 0")
  case False
  let ?B = "\<lambda>xs. concat (map tok xs)" and ?w = "drop k gen"
  have "s \<noteq> []" using new by auto
  then have kl: "k < length gen" "length s \<le> length gen - k" "?w \<noteq> []" "take k gen \<noteq> []" using k False by (cases s; auto)+
  have full: "length xs \<le> length (?B xs)" if "set xs \<subseteq> set gen" for xs
    using that
  proof (induction xs)
    case (Cons x xs)
    then have "1 \<le> length (tok x)" using pos by (cases "tok x") auto
    then show ?case using Cons by (simp del: length_greater_0_conv)
  qed simp
  have ne: "?B xs \<noteq> []" if "xs \<noteq> []" "set xs \<subseteq> set gen" for xs using full [OF that(2)] that(1) by (metis le_zero_eq length_0_conv)
  have sets: "set ?w \<subseteq> set gen" "set (take k gen) \<subseteq> set gen" by (rule set_drop_subset set_take_subset)+
  let ?G = "stripl lead (?B gen)" and ?W = "stripl lead (?B ?w)"
  have split: "?B gen = ?B (take k gen) @ ?B ?w" by (metis append_take_drop_id concat_append map_append)
  have gne: "?B gen \<noteq> []" using ne [of gen] kl by fastforce
  have "suffix ?W ?G" unfolding split stripl_append [OF ne [OF kl(4) sets(2)]] by (intro suffix_appendI stripl_suffix)
  then obtain x where G: "?G = x @ ?W" by (auto elim: suffixE)
  have W: "length s - 1 \<le> length ?W" using length_stripl(1) [of "?B ?w" lead] full [OF sets(1)] kl(2) by simp
  have g: "stripl lead (?B (gen @ [t])) = ?G @ tok t" using stripl_append [OF gne] by simp
  have "sublist s (?G @ tok t)" using occ unfolding byte_text_ascii [OF a] g .
  then obtain u v where occ': "?G @ tok t = u @ s @ v" unfolding sublist_def by blast
  have "length ?G < length (u @ s)"
  proof (rule ccontr)
    assume "\<not> length ?G < length (u @ s)"
    then have "prefix (u @ s) ?G" using occ' by (metis append.assoc not_less prefixI prefix_length_prefix)
    then show False using new unfolding byte_text_ascii [OF a] by (metis append.assoc prefix_def sublist_appendI)
  qed
  then have "length x \<le> length u" using W G by simp
  have "x @ (?W @ tok t) = u @ (s @ v)" using occ' unfolding G append.assoc .
  then have "?W @ tok t = drop (length x) (u @ s @ v)" unfolding append_eq_conv_conj by (rule conjunct2)
  then have "?W @ tok t = drop (length x) u @ s @ v" using \<open>length x \<le> length u\<close> unfolding drop_append by simp
  moreover have "stripl lead (?B (drop k (gen @ [t]))) = ?W @ tok t"
    using kl(1) stripl_append [OF ne [OF kl(3) sets(1)]] by simp
  ultimately show ?thesis unfolding byte_text_ascii [OF a] by (metis sublist_appendI)
qed (use occ in simp)

text \<open>What incremental detokenization needs of a decoder: whole characters stay once they are read, and the text of more
  tokens can be continued from a window that begins where the text was whole and something of it is in the window.\<close>

locale incremental_decoder =
  fixes decode :: "int list \<Rightarrow> utext"
  assumes decode_Nil: "decode [] = []"
    and decode_prefix: "prefix (whole (decode a)) (decode (a @ b))"
    and decode_window: "steady (decode a) \<Longrightarrow> steady (decode (a @ b)) \<Longrightarrow> a = [] \<or> decode (a @ b) \<noteq> decode a \<Longrightarrow>
      decode (a @ b @ c) = decode (a @ b) @ drop (length (decode b)) (decode (b @ c))"
begin

lemma whole_grows: "prefix (whole (decode a)) (whole (decode (a @ b)))"
  by (rule prefix_whole [OF decode_prefix steady_whole])

lemma steady_grows: "steady (decode a) \<Longrightarrow> prefix (decode a) (whole (decode (a @ b)))"
  using whole_grows [of a b] by (simp add: whole_steady)

end

interpretation byte_decoder: incremental_decoder "byte_text lead tok" for lead tok
proof
  show "byte_text lead tok [] = []" by (simp add: byte_text_def)
qed (rule byte_text_prefix byte_text_window; assumption)+

end
