(* ===== verification/Sched_Properties.thy ===== *)
theory Sched_Properties
  imports Sched_Managers Byte_Text
begin

text \<open>
  Properties of the scheduler with the cache managers of the code behind it: what a client sees of a
  request, and that an abort is acknowledged in the iteration that receives it.
\<close>

section \<open>A run\<close>

text \<open>The bound on the tombstones in binary, for evaluation.\<close>

lemma add_tombstone_int [code]:
  "add_tombstone u ts = (let ts' = add_to_set u ts in drop (nat (int (length ts') - 65536)) ts')"
proof -
  have "length xs - max_tombstones = nat (int (length xs) - 65536)" for xs :: "nat list"
    unfolding max_tombstones_def by linarith
  then show ?thesis by (simp add: add_tombstone_def Let_def)
qed

definition demo_cfg :: sched_cfg where
  "demo_cfg = \<lparr>max_seq_len = 16, eos_token_ids = [99], toolcall_anchor_id = None, tp_size = 1, max_extend_tokens = 8,
     tok_decode = byte_text False (\<lambda>t. [nat t]), gpu_mem = 0, py_repr = id\<rparr>"

definition demo_ops :: "int \<Rightarrow> (naive_cache cmgr, naive_handle) sched_ops" where
  "demo_ops = plain_sched naive_ops NaivePrefixCache None"

definition demo_start :: "(naive_cache cmgr, naive_handle) sched" where
  "demo_start = new_sched (demo_ops 1) demo_cfg 2 (new_tmgr 2 (replicate 3 (replicate 16 (0::nat))))
     (new_cmgr 8 2 (replicate 3 (replicate 16 0)) NaivePrefixCache)"

definition demo_user :: backend_msg where
  "demo_user = UserMsg \<lparr>um_uid = 5, um_input_ids = [65, 66, 67], um_sampling = demo_params\<lparr>max_tokens := 2\<rparr>, um_mm_embeds = False\<rparr>"

definition demo_engine :: "naive_handle req list \<Rightarrow> int list \<Rightarrow> int list" where
  "demo_engine rs input = map (\<lambda>r. 70) rs"

definition demo_step :: "backend_msg list \<Rightarrow> flight option \<Rightarrow> (naive_cache cmgr, naive_handle) sched \<Rightarrow>
    (flight option \<times> (naive_cache cmgr, naive_handle) sched) result" where
  "demo_step msgs f s = overlap_loop (demo_ops 1) demo_cfg (\<lambda>msg m. Inl []) demo_engine msgs f s"

fun demo_steps where
  "demo_steps [] f s = Inr (f, s)"
| "demo_steps (msgs # rest) f s = rbind (demo_step msgs f s) (\<lambda>(f', s'). demo_steps rest f' s')"

text \<open>The user message, then an abort of another request; the tokens and the end follow.\<close>

lemma demo_outbox:
  "case demo_steps [[demo_user], [AbortBackendMsg 3], []] None demo_start of
     Inr (f, s) \<Rightarrow> map (\<lambda>r. (reply_uid r, is_token r, is_terminal r)) (outbox s) =
       [(Some 5, False, False), (Some 5, True, False), (Some 3, False, True), (Some 5, True, True)]
   | Inl e \<Rightarrow> False"
  by code_simp

section \<open>The end of a stream\<close>

text \<open>C1. After the reply that ends a request, a finished token or an error, no token of the request is
  ever sent: in every run of the overlap loop from its start, with the plain, the hybrid, the naive
  window and the window radix manager, whatever the engine samples and whatever is aborted when, as long
  as each user message has a uid of its own.\<close>

theorem no_token_after_terminal_reply:
  "(sched_run (plain_sched ops fresh moe) cfg U A f s \<longrightarrow> no_token_after_end (outbox s)) \<and>
   (sched_run (hybrid_sched hfresh moe) cfg U A f hs \<longrightarrow> no_token_after_end (outbox hs)) \<and>
   (sched_run (window_sched ops fresh moe interval) cfg U A f ws \<longrightarrow> no_token_after_end (outbox ws)) \<and>
   (sched_run (swa_sched sfresh moe interval) cfg U A f ss \<longrightarrow> no_token_after_end (outbox ss))"
proof (intro conjI impI)
  show "no_token_after_end (outbox s)" if "sched_run (plain_sched ops fresh moe) cfg U A f s"
    by (rule run_safe [OF plain_mgr.sched_contract_axioms that])
  show "no_token_after_end (outbox hs)" if "sched_run (hybrid_sched hfresh moe) cfg U A f hs"
    by (rule run_safe [OF hybrid_mgr.sched_contract_axioms that])
  show "no_token_after_end (outbox ws)" if "sched_run (window_sched ops fresh moe interval) cfg U A f ws"
    by (rule run_safe [OF window_mgr.sched_contract_axioms that])
  show "no_token_after_end (outbox ss)" if "sched_run (swa_sched sfresh moe interval) cfg U A f ss"
    by (rule run_safe [OF swa_mgr.sched_contract_axioms that])
qed

lemma demo_run_steps:
  "sched_run demo_ops demo_cfg U A f s \<Longrightarrow> demo_steps msgss f s = Inr (f', s') \<Longrightarrow>
   distinct (concat (map users_all msgss)) \<Longrightarrow> set (concat (map users_all msgss)) \<inter> U = {} \<Longrightarrow>
   card (A \<union> set (concat (map aborts_all msgss))) \<le> max_tombstones \<Longrightarrow> finite A \<Longrightarrow>
   sched_run demo_ops demo_cfg (U \<union> set (concat (map users_all msgss))) (A \<union> set (concat (map aborts_all msgss))) f' s'"
proof (induction msgss arbitrary: U A f s)
  case (Cons msgs msgss)
  obtain f1 s1 where step: "demo_step msgs f s = Inr (f1, s1)" and rest: "demo_steps msgss f1 s1 = Inr (f', s')"
    using Cons.prems(2) by (auto simp: rbind_Inr_conv)
  have "card (A \<union> set (aborts_all msgs)) \<le> card (A \<union> set (concat (map aborts_all (msgs # msgss))))"
    using Cons.prems(6) by (intro card_mono) auto
  then have "sched_run demo_ops demo_cfg (U \<union> set (users_all msgs)) (A \<union> set (aborts_all msgs)) f1 s1"
    using Cons.prems by (intro run_step [OF Cons.prems(1) step [unfolded demo_step_def]]) auto
  from Cons.IH [OF this rest] show ?case using Cons.prems by (auto simp: Un_assoc Int_Un_distrib Int_Un_distrib2 Int_commute)
qed auto

lemma demo_run:
  obtains U A f s where "sched_run demo_ops demo_cfg U A f s"
    and "map (\<lambda>r. (reply_uid r, is_token r, is_terminal r)) (outbox s) =
       [(Some 5, False, False), (Some 5, True, False), (Some 3, False, True), (Some 5, True, True)]"
proof -
  obtain f s where steps: "demo_steps [[demo_user], [AbortBackendMsg 3], []] None demo_start = Inr (f, s)"
    and out: "map (\<lambda>r. (reply_uid r, is_token r, is_terminal r)) (outbox s) =
       [(Some 5, False, False), (Some 5, True, False), (Some 3, False, True), (Some 5, True, True)]"
    using demo_outbox by (auto split: sum.splits)
  have "sched_run demo_ops demo_cfg {} {} None demo_start" unfolding demo_start_def by (rule run_start)
  from demo_run_steps [OF this steps] show ?thesis using out that
    by (auto simp: demo_user_def max_tombstones_def)
qed

lemma no_token_after_terminal_reply_witness:
  "\<exists>U A f s. sched_run demo_ops demo_cfg U A f s \<and> no_token_after_end (outbox s) \<and> length (outbox s) = 4"
proof -
  obtain U A f s where r: "sched_run demo_ops demo_cfg U A f s"
    and "map (\<lambda>r. (reply_uid r, is_token r, is_terminal r)) (outbox s) =
       [(Some 5, False, False), (Some 5, True, False), (Some 3, False, True), (Some 5, True, True)]"
    by (rule demo_run)
  moreover from this have "length (outbox s) = 4" by (auto dest: arg_cong [of _ _ length])
  ultimately show ?thesis
    using no_token_after_terminal_reply [THEN conjunct1, rule_format, OF r [unfolded demo_ops_def]] by blast
qed

section \<open>Acknowledging aborts\<close>

text \<open>What the steps of an iteration do to the replies and to the aborts that await an answer.\<close>

definition only_replies :: "('m, 'h) sched \<Rightarrow> ('m, 'h) sched \<Rightarrow> bool" where
  "only_replies s s' \<longleftrightarrow> prefix (outbox s) (outbox s') \<and> pending_abort_acks s' = pending_abort_acks s"

lemma only_replies_trans [trans]: "only_replies s s1 \<Longrightarrow> only_replies s1 s2 \<Longrightarrow> only_replies s s2"
  by (auto simp: only_replies_def)

lemma only_replies_view: "view s' = view s \<Longrightarrow> only_replies s s'"
  by (simp add: only_replies_def view_eq)

lemma only_replies_send: "only_replies s s1 \<Longrightarrow> only_replies s (send_result rs s1)"
  by (auto simp: only_replies_def send_result_def)

context sched_contract begin

lemma abort_acks:
  assumes "process_abort ops u s = Inr s'"
  shows "prefix (outbox s) (outbox s') \<and> pending_abort_acks s' = add_to_set u (pending_abort_acks s)"
proof -
  define s1 where "s1 = s\<lparr>abort_tombstones := add_tombstone u (abort_tombstones s)\<rparr>"
  obtain k1 ps where ap: "abort_pending u (pending s) = (k1, ps)" by fastforce
  obtain k2 s3 where k2: "(case k1 of Some k \<Rightarrow> (Some k, s1\<lparr>pending := ps\<rparr>) | None \<Rightarrow> abort_running u (s1\<lparr>pending := ps\<rparr>)) = (k2, s3)"
    by fastforce
  have v3: "outbox s3 = outbox s" "pending_abort_acks s3 = pending_abort_acks s"
    using k2 by (auto simp: s1_def abort_running_def split: option.splits)
  have "rbind (case k2 of None \<Rightarrow> Inr s3
       | Some k \<Rightarrow> if in_flight k s3 then Inr (set_obj k ((objs s3 ! k)\<lparr>aborted := True\<rparr>) s3)
           else free_req_resources ops k s3)
      (\<lambda>s4. Inr (s4\<lparr>pending_abort_acks := add_to_set u (pending_abort_acks s4)\<rparr>)) = Inr s'"
    using assms by (simp add: process_abort_def Let_def ap k2 [unfolded s1_def])
  then obtain s4 where s4: "(case k2 of None \<Rightarrow> Inr s3
       | Some k \<Rightarrow> if in_flight k s3 then Inr (set_obj k ((objs s3 ! k)\<lparr>aborted := True\<rparr>) s3)
           else free_req_resources ops k s3) = Inr s4"
    and s': "s' = s4\<lparr>pending_abort_acks := add_to_set u (pending_abort_acks s4)\<rparr>"
    by (auto simp: rbind_Inr_conv)
  have "view s4 = view s3"
    using s4 free_view by (auto simp: set_obj_view ident_def split: option.splits if_splits)
  then show ?thesis using v3 s' by (simp add: view_eq)
qed

lemma msgs_acks:
  "process_msg ops cfg msg s = Inr s' \<Longrightarrow>
     prefix (outbox s) (outbox s') \<and> pending_abort_acks s' = fold add_to_set (aborts msg) (pending_abort_acks s)"
  "process_msgs ops cfg msgs s = Inr s' \<Longrightarrow>
     prefix (outbox s) (outbox s') \<and> pending_abort_acks s' = fold add_to_set (aborts_all msgs) (pending_abort_acks s)"
proof (induction msg and msgs arbitrary: s s' and s s' rule: aborts_aborts_all.induct)
  case (3 m)
  then show ?case by (auto simp: process_user_def send_result_def Let_def)
next
  case (4 u)
  then show ?case using abort_acks by simp
next
  case (5 m)
  then show ?case by (auto simp: process_rebuild_def send_result_def split: option.splits)
next
  case (7 m ms)
  then show ?case by (fastforce simp: rbind_Inr_conv dest: prefix_order.trans)
qed auto

lemma launch_replies:
  assumes run: "launch ops cfg sample s = Inr (f, s')"
  shows "only_replies s s'"
proof -
  obtain fi s1 where sch: "schedule_next_batch ops s = Inr (fi, s1)"
    and rest: "(case fi of None \<Rightarrow> Inr (None, s1)
       | Some fi \<Rightarrow> rbind (restore_linear_states ops fi s1) (\<lambda>s2.
           rbind (run_forward ops cfg sample fi s2) (\<lambda>(f, s3). Inr (Some f, s3)))) = Inr (f, s')"
    using run by (auto simp: launch_def rbind_Inr_conv)
  obtain x s0 where tp: "take_prefill ops s = Inr (x, s0)"
    using sch by (auto simp: schedule_next_batch_def rbind_Inr_conv)
  have "only_replies s s0" using take_prefill_view [OF tp] by (simp add: only_replies_def)
  also have "only_replies s0 s1"
  proof (cases x)
    case None
    then show ?thesis using sch tp
      by (auto simp: schedule_next_batch_def rbind_Inr_conv split: option.splits dest!: prepare_view intro: only_replies_view)
  next
    case (Some p)
    then obtain ks adm fi' s0' where pr: "prepare_batch ops ks Prefill s0 = Inr (fi', s0')"
      and s1: "s1 = report_prompt_admissions adm s0'"
      using sch tp by (cases p) (auto simp: schedule_next_batch_def rbind_Inr_conv)
    have "only_replies s0 s0'" using prepare_view [OF pr] by (simp add: only_replies_view)
    then show ?thesis unfolding s1 report_prompt_admissions_def by (rule only_replies_send)
  qed
  also have "only_replies s1 s'"
  proof (cases fi)
    case None
    then show ?thesis using rest by (simp add: only_replies_view)
  next
    case (Some fi)
    then obtain s2 f' where r: "restore_linear_states ops fi s1 = Inr s2" and w: "run_forward ops cfg sample fi s2 = Inr (f', s')"
      using rest by (auto simp: rbind_Inr_conv)
    have "only_replies s1 s2" by (rule only_replies_view [OF restore_view [OF r]])
    also have "only_replies s2 s'" using forward_view [OF w] by (simp add: only_replies_def)
    finally show ?thesis .
  qed
  finally show ?thesis .
qed

lemma last_data_replies:
  assumes run: "process_last_data ops cfg prior s = Inr s'" and bound: "\<forall>k \<in> set (flight_objs prior). k < length (ids_of s)"
  shows "only_replies s s'"
proof (cases prior)
  case None
  then show ?thesis using run by (simp add: process_last_data_def only_replies_view)
next
  case (Some f)
  let ?z = "zip (fl_objs f) (fl_tokens f)"
  let ?d = "\<lparr>dr_sched = s\<lparr>sc_mgr := so_enter_lazy ops (sc_mgr s)\<rparr>, dr_reply = [], dr_finished = []\<rparr>"
  obtain d where d: "drain_loop ops cfg (fl_phase f = Prefill) ?z ?d = Inr d"
    and s': "\<exists>rs. s' = send_result rs ((dr_sched d)\<lparr>sc_mgr := so_exit_lazy ops (sc_mgr (dr_sched d)), finished_reqs := dr_finished d\<rparr>)"
    using run Some by (auto simp: process_last_data_def Let_def rbind_Inr_conv)
  have "\<forall>k \<in> set (map fst ?z). k < length (ids_of (dr_sched ?d))"
    using bound Some by (auto simp: flight_objs_def ids_of_def dest: set_zip_leftD)
  from drain_loop_drained [OF d this] have "outbox (dr_sched d) = outbox s" "pending_abort_acks (dr_sched d) = pending_abort_acks s"
    by (simp_all add: drained_def Let_def)
  then show ?thesis using s' by (auto simp: only_replies_def send_result_def)
qed

lemma rebuild_replies:
  assumes "execute_pending_rebuild ops cfg er s = Inr s'"
  shows "only_replies s s'"
proof -
  obtain rs x s1 where r: "rebuild_cache ops cfg er (the (pending_rebuild s)) (s\<lparr>pending_rebuild := None\<rparr>) = Inr (x, s1)"
    and s': "s' = send_result rs s1"
    using assms by (auto simp: execute_pending_rebuild_def rbind_Inr_conv split: option.splits)
  have "only_replies s (s\<lparr>pending_rebuild := None\<rparr>)" by (simp add: only_replies_def)
  also have "only_replies (s\<lparr>pending_rebuild := None\<rparr>) s1" by (rule only_replies_view [OF rebuild_view [OF r]])
  finally show ?thesis unfolding s' by (rule only_replies_send)
qed

lemma sorted_acks: "sort (fold add_to_set xs []) = sorted_list_of_set (set xs)"
proof -
  have "distinct (fold add_to_set xs [])" by (rule fold_add_distinct) simp
  then show ?thesis using fold_add_set [of xs "[]"]
    by (metis distinct_remdups_id sorted_list_of_set_sort_remdups sup_bot.right_neutral list.set(1))
qed

lemma aborts_answered:
  assumes inv: "sched_inv U A prior s" and run: "overlap_loop ops cfg er sample msgs prior s = Inr (f, s')"
    and fresh: "distinct (users_all msgs)" "set (users_all msgs) \<inter> U = {}"
    and card: "card (A \<union> set (aborts_all msgs)) \<le> max_tombstones"
  shows "\<exists>front use. outbox s' = outbox s @ front @ map (\<lambda>u. ErrorReplyMsg
       \<lparr>er_uid = u, er_error = ''request aborted'', er_code = None, er_usage = use\<rparr>) (sorted_list_of_set (set (aborts_all msgs)))"
proof -
  let ?ack = "\<lambda>use u. ErrorReplyMsg \<lparr>er_uid = u, er_error = ''request aborted'', er_code = None, er_usage = use\<rparr>"
  let ?U = "U \<union> set (users_all msgs)" and ?A = "A \<union> set (aborts_all msgs)" and ?p = "flight_objs prior"
  obtain s1 s2 s3 s4 where s1: "process_msgs ops cfg msgs (s\<lparr>last_flight := prior\<rparr>) = Inr s1"
    and s2: "(if pending_rebuild s1 \<noteq> None \<and> prior = None \<and> \<not> (prefill_runnable s1 \<or> decode_runnable s1)
            then execute_pending_rebuild ops cfg er s1 else Inr s1) = Inr s2"
    and s3: "launch ops cfg sample s2 = Inr (f, s3)" and s4: "process_last_data ops cfg prior s3 = Inr s4"
    and s': "s' = flush_abort_acks ops s4"
    using run by (auto simp: overlap_loop_def rbind_Inr_conv)
  have "mid_ok U A ?p (s\<lparr>last_flight := prior\<rparr>)"
    by (rule mid_view [where s = s]) (use inv in \<open>simp_all add: sched_inv_def view_eq ids_of_def pend_of_def\<close>)
  then have "mid_ok ?U ?A ?p s1" by (rule msgs_mid(2) [OF _ s1 fresh card])
  then have "mid_ok ?U ?A ?p s2" using s2 execute_rebuild_mid by (auto split: if_splits)
  from launch_mid [OF this s3] have m3: "mid_ok ?U ?A ?p s3" by simp
  have A1: "prefix (outbox s) (outbox s1)" "pending_abort_acks s1 = fold add_to_set (aborts_all msgs) []"
    using msgs_acks(2) [OF s1] inv by (simp_all add: sched_inv_def)
  have "only_replies s1 s2" using s2 rebuild_replies by (auto simp: only_replies_view split: if_splits)
  also have "only_replies s2 s3" by (rule launch_replies [OF s3])
  also have "only_replies s3 s4"
    by (rule last_data_replies [OF s4]) (use flight_okD(1) [OF mid_okD(2) [OF m3]] in blast)
  finally have "prefix (outbox s) (outbox s4)" "pending_abort_acks s4 = fold add_to_set (aborts_all msgs) []"
    using A1 by (auto simp: only_replies_def)
  then obtain front where front: "outbox s4 = outbox s @ front" by (auto simp: prefix_def)
  have sorted: "sort (pending_abort_acks s4) = sorted_list_of_set (set (aborts_all msgs))"
    using \<open>pending_abort_acks s4 = _\<close> sorted_acks by simp
  show ?thesis
  proof (cases "pending_abort_acks s4 = []")
    case True
    then have "sorted_list_of_set (set (aborts_all msgs)) = []" using sorted by simp
    then show ?thesis using True front by (auto simp: s' flush_abort_acks_def)
  next
    case False
    then have "outbox s' = outbox s @ front @ map (?ack (usage_now ops s4)) (sorted_list_of_set (set (aborts_all msgs)))"
      using sorted front by (simp add: s' flush_abort_acks_def send_result_def)
    then show ?thesis by blast
  qed
qed

end

text \<open>C17. An abort is answered in the iteration that receives it: the iteration ends with one
  acknowledgement per aborted request, each once and in the order of the uids, after every other reply
  of the iteration.\<close>

theorem aborts_acknowledged:
  assumes "sched_run (plain_sched ops fresh moe) cfg U A prior s"
    and "overlap_loop (plain_sched ops fresh moe t) cfg er sample msgs prior s = Inr (f, s')"
    and "distinct (users_all msgs)" and "set (users_all msgs) \<inter> U = {}"
    and "card (A \<union> set (aborts_all msgs)) \<le> max_tombstones"
  shows "\<exists>front use. outbox s' = outbox s @ front @ map (\<lambda>u. ErrorReplyMsg
       \<lparr>er_uid = u, er_error = ''request aborted'', er_code = None, er_usage = use\<rparr>) (sorted_list_of_set (set (aborts_all msgs)))"
  using run_inv [OF plain_mgr.sched_contract_axioms assms(1)] assms(2-5) by (rule plain_mgr.aborts_answered)

lemma aborts_acknowledged_witness:
  "\<exists>f s f' s' front use. demo_steps [[demo_user]] None demo_start = Inr (f, s) \<and>
     demo_step [AbortBackendMsg 5, AbortBackendMsg 3] f s = Inr (f', s') \<and>
     outbox s' = outbox s @ front @
       [ErrorReplyMsg \<lparr>er_uid = 3, er_error = ''request aborted'', er_code = None, er_usage = use\<rparr>,
        ErrorReplyMsg \<lparr>er_uid = 5, er_error = ''request aborted'', er_code = None, er_usage = use\<rparr>]"
proof -
  have "case demo_steps [[demo_user]] None demo_start of Inl e \<Rightarrow> False | Inr (f, s) \<Rightarrow>
      is_ok (demo_step [AbortBackendMsg 5, AbortBackendMsg 3] f s)" by code_simp
  then obtain f s f' s' where 1: "demo_steps [[demo_user]] None demo_start = Inr (f, s)"
    and 2: "demo_step [AbortBackendMsg 5, AbortBackendMsg 3] f s = Inr (f', s')"
    by (auto simp: is_ok_conv split: sum.splits)
  have "sched_run demo_ops demo_cfg {} {} None demo_start" unfolding demo_start_def by (rule run_start)
  from demo_run_steps [OF this 1] have "sched_run demo_ops demo_cfg {5} {} f s"
    by (simp add: demo_user_def max_tombstones_def)
  from aborts_acknowledged [OF this [unfolded demo_ops_def] 2 [unfolded demo_step_def demo_ops_def]]
  obtain front use where "outbox s' = outbox s @ front @ map (\<lambda>u. ErrorReplyMsg
       \<lparr>er_uid = u, er_error = ''request aborted'', er_code = None, er_usage = use\<rparr>)
       (sorted_list_of_set (set (aborts_all [AbortBackendMsg 5, AbortBackendMsg 3])))"
    by (auto simp: max_tombstones_def)
  moreover have "sorted_list_of_set (set (aborts_all [AbortBackendMsg 5, AbortBackendMsg 3])) = [3, 5]" by code_simp
  ultimately show ?thesis using 1 2 by auto
qed

section \<open>Stop strings\<close>

text \<open>C18. The stop test misses no ASCII stop string of a byte-level tokenizer: the decoder gives the UTF-8 text of the tokens'
  bytes (possibly without one leading space), every generated token stands for at least one byte, and the stop strings of the
  request are ASCII. Then, when the text generated so far, with the newest token, holds a stop string for the first time, the bounded
  window of tokens that is decoded holds one, and the string it reports is a stop string of the request that occurs in the
  generated text. A stop string with other characters, which take several bytes and perhaps as many tokens, can be missed.\<close>

theorem stop_string_found:
  assumes dec: "\<And>ids. tok_decode cfg ids = byte_text lead tok ids" and pos: "\<forall>i \<in> set gen. tok i \<noteq> []"
    and ids: "input_ids r = prompt @ gen @ [t]" and prompt: "length prompt = max_device_len r - output_len r"
    and ascii: "\<forall>st \<in> set (stop_strs (sampling r)). ascii (asc st)"
    and occ: "st \<in> set (stop_strs (sampling r))" "sublist (asc st) (tok_decode cfg (gen @ [t]))"
    and new: "\<forall>st \<in> set (stop_strs (sampling r)). \<not> sublist (asc st) (tok_decode cfg gen)"
  shows "\<exists>st'. match_stop_str cfg r = Inr (Some st') \<and> st' \<in> set (stop_strs (sampling r)) \<and>
     sublist (asc st') (tok_decode cfg (gen @ [t]))"
proof -
  let ?stops = "stop_strs (sampling r)" and ?g = "gen @ [t]"
  let ?m = "Max (length ` set ?stops)"
  define k where "k = length gen - ?m"
  have m: "length (asc st) \<le> ?m" using occ(1) by (simp add: asc_def)
  have "max (length prompt) (length (prompt @ ?g) - (?m + 1)) = length prompt + k" by (simp add: k_def)
  then have tail: "drop (max (length prompt) (length (prompt @ ?g) - (?m + 1))) (prompt @ ?g) = drop k ?g" by simp
  have run: "match_stop_str cfg r = Inr (find (\<lambda>st. sublist (asc st) (tok_decode cfg (drop k ?g))) ?stops)"
    using occ(1) tail unfolding match_stop_str_def Let_def ids prompt [symmetric] by auto
  have "k = 0 \<or> length (asc st) \<le> length gen - k" using m unfolding k_def by linarith
  then have "sublist (asc st) (tok_decode cfg (drop k ?g))"
    unfolding dec by (intro byte_text_tail) (use ascii pos occ new in \<open>simp_all add: dec\<close>)
  then obtain st' where f: "find (\<lambda>st. sublist (asc st) (tok_decode cfg (drop k ?g))) ?stops = Some st'"
    using occ(1) by (cases "find (\<lambda>st. sublist (asc st) (tok_decode cfg (drop k ?g))) ?stops") (auto simp: find_None_iff)
  then have st': "st' \<in> set ?stops" "sublist (asc st') (tok_decode cfg (drop k ?g))" by (auto simp: find_Some_iff)
  then have "sublist (asc st') (tok_decode cfg ?g)" unfolding dec using ascii byte_text_drop by blast
  then show ?thesis using run f st'(1) by simp
qed

definition demo_stop_req :: "naive_handle req" where
  "demo_stop_req = \<lparr>input_ids = [65, 66, 67, 68, 69], table_idx = 0, req_cached_len = 4, output_len = 4, uid = 5,
     sampling = demo_params\<lparr>stop_strs := [''xy'', ''DE'']\<rparr>, cache_handle = NaiveCacheHandle, mm_embeds = False,
     linear_slot_idx = None, mamba_ping_pong = None, mamba_next_track_idx = 0, mamba_last_track_seqlen = None,
     mamba_restore_src = None, swa_evicted_seqlen = 0, decode_batch_idx = 0, toolcall_anchor_len = None,
     aborted = False, device_len = 5, max_device_len = 6, chunked = False\<rparr>"

lemma stop_string_found_witness:
  "\<exists>st. match_stop_str demo_cfg demo_stop_req = Inr (Some st) \<and> sublist (asc st) (asc ''CDE'')"
proof -
  have dec: "tok_decode demo_cfg ids = byte_text False (\<lambda>t. [nat t]) ids" for ids by (simp add: demo_cfg_def)
  have shown: "byte_text False (\<lambda>t. [nat t]) [67, 68, 69] = asc ''CDE''" "byte_text False (\<lambda>t. [nat t]) [67, 68] = asc ''CD''"
    by (simp_all add: byte_text_def stripl_def utf8_def utf8_start_def utf8_flush_def asc_def)
  have "\<forall>st \<in> set (stop_strs (sampling demo_stop_req)). ascii (asc st)" "''DE'' \<in> set (stop_strs (sampling demo_stop_req))"
    "sublist (asc ''DE'') (asc ''CDE'')" "\<forall>st \<in> set (stop_strs (sampling demo_stop_req)). \<not> sublist (asc st) (asc ''CD'')"
    "length [65, 66 :: int] = max_device_len demo_stop_req - output_len demo_stop_req" by code_simp+
  then have "\<exists>st. match_stop_str demo_cfg demo_stop_req = Inr (Some st) \<and> st \<in> set (stop_strs (sampling demo_stop_req)) \<and>
     sublist (asc st) (tok_decode demo_cfg ([67, 68] @ [69]))"
    by (intro stop_string_found [OF dec, where prompt = "[65, 66]" and st = "''DE''"])
      (simp_all add: dec shown, simp add: demo_stop_req_def)
  then show ?thesis by (auto simp: dec shown)
qed

text \<open>Two characters of two bytes each, every byte a token of its own: the window of three tokens misses them.\<close>

lemma stop_string_missed:
  assumes "r = demo_stop_req\<lparr>input_ids := [65, 66, 0xC3, 0xA9, 0xC3, 0xA9], max_device_len := 7, output_len := 5,
    sampling := demo_params\<lparr>stop_strs := [[CHR 0xE9, CHR 0xE9]]\<rparr>\<rparr>"
  shows "match_stop_str demo_cfg r = Inr None \<and> tok_decode demo_cfg [0xC3, 0xA9, 0xC3, 0xA9] = asc [CHR 0xE9, CHR 0xE9]"
  by (simp add: assms match_stop_str_def demo_cfg_def demo_stop_req_def byte_text_def stripl_def utf8_def utf8_start_def
      utf8_flush_def asc_def sublist_Cons_right)

end
