(* ===== verification/Swa_Termination.thy ===== *)
theory Swa_Termination
  imports Swa_Manager
begin

text \<open>
  The loop of \<open>ensure_swa_slots\<close> (\<open>scheduler/cache.py\<close>) ends: a round of evictions that hands out a
  window slot has removed a node of the tree or turned a live one into a tombstone. The order on
  trees is lexicographic: their size, then the number of their live nodes.
\<close>

definition live_count :: "rtree \<Rightarrow> nat" where
  "live_count t = length (filter (\<lambda>d. \<not> swa_tombstone d) (pre_nodes t))"

definition shrinks :: "scache \<Rightarrow> scache \<Rightarrow> bool" where
  "shrinks s s' \<longleftrightarrow> tsize (stree s') < tsize (stree s) \<or>
     tsize (stree s') = tsize (stree s) \<and> live_count (stree s') < live_count (stree s)"

definition not_grown :: "scache \<Rightarrow> scache \<Rightarrow> bool" where
  "not_grown s s' \<longleftrightarrow> shrinks s s' \<or> stree s' = stree s \<or>
     tsize (stree s') = tsize (stree s) \<and> live_count (stree s') = live_count (stree s)"

lemma not_grown_refl: "stree s' = stree s \<Longrightarrow> not_grown s s'"
  by (simp add: not_grown_def)

lemma not_grown_shrinks: "not_grown s s1 \<Longrightarrow> shrinks s1 s2 \<Longrightarrow> shrinks s s2"
  by (auto simp: not_grown_def shrinks_def)

lemma shrinks_not_grown: "shrinks s s1 \<Longrightarrow> not_grown s1 s2 \<Longrightarrow> shrinks s s2"
  by (auto simp: not_grown_def shrinks_def)

lemma not_grown_trans: "not_grown s s1 \<Longrightarrow> not_grown s1 s2 \<Longrightarrow> not_grown s s2"
  by (auto simp: not_grown_def shrinks_def)

lemma pre_nodes_map: "pre_nodes (map_nodes f t) = map f (pre_nodes t)"
proof (induction t)
  case (RNode d cs)
  have "map (\<lambda>kc. pre_nodes (map_nodes f (snd kc))) (rev cs) = map (\<lambda>kc. map f (pre_nodes (snd kc))) (rev cs)"
    using RNode by (intro map_cong) (auto simp: snds.simps)
  then have "concat (map (\<lambda>kc. pre_nodes (map_nodes f (snd kc))) (rev cs)) = concat (map (\<lambda>kc. map f (pre_nodes (snd kc))) (rev cs))"
    by (rule arg_cong)
  then show ?case by (simp add: map_concat o_def rev_map del: map_eq_conv)
qed

lemma filter_le: "(\<And>x. x \<in> set xs \<Longrightarrow> Q x \<Longrightarrow> P x) \<Longrightarrow> length (filter Q xs) \<le> length (filter P xs)"
proof (induction xs)
  case (Cons x xs)
  then have "length (filter Q xs) \<le> length (filter P xs)" by simp
  then show ?case using Cons.prems by (simp add: le_SucI)
qed simp

lemma filter_less:
  "(\<And>x. x \<in> set xs \<Longrightarrow> Q x \<Longrightarrow> P x) \<Longrightarrow> \<exists>x \<in> set xs. P x \<and> \<not> Q x \<Longrightarrow> length (filter Q xs) < length (filter P xs)"
proof (induction xs)
  case (Cons x xs)
  have le: "length (filter Q xs) \<le> length (filter P xs)" using Cons.prems(1) by (intro filter_le) simp
  show ?case
  proof (cases "P x \<and> \<not> Q x")
    case True
    then show ?thesis using le by simp
  next
    case False
    then have "length (filter Q xs) < length (filter P xs)" using Cons.prems by (intro Cons.IH) auto
    then show ?thesis using False Cons.prems(1) [of x] by auto
  qed
qed simp

lemma tombstone_count:
  "live_count (upd_node u (\<lambda>e. e\<lparr>swa_tombstone := True\<rparr>) t) \<le> live_count t"
  "\<exists>d \<in> set (pre_nodes t). uuid d = u \<and> \<not> swa_tombstone d \<Longrightarrow>
   live_count (upd_node u (\<lambda>e. e\<lparr>swa_tombstone := True\<rparr>) t) < live_count t"
  unfolding live_count_def upd_node_def pre_nodes_map filter_map length_map
  by (rule filter_le; simp split: if_splits) (rule filter_less; auto split: if_splits)

lemma tombstone_not_grown:
  "not_grown s (upd_tree (upd_node u (\<lambda>e. e\<lparr>swa_tombstone := True\<rparr>)) (lose_swa d s))"
  using tombstone_count(1) [of u "stree s"]
  by (auto simp: not_grown_def shrinks_def lose_swa_def upd_node_def)

text \<open>The next candidate that takes effect is still in the tree as long as nothing has shrunk.\<close>

lemma evict_swa_shrinks:
  "s_evict_swa_loop need cands kv_out swa_out freed s = Inr (kv', swa', s') \<Longrightarrow>
   not_grown s s' \<and> (swa_out = [] \<longrightarrow> swa' \<noteq> [] \<longrightarrow> set cands \<subseteq> set (swa_nodes s) \<longrightarrow> shrinks s s')"
proof (induction need cands kv_out swa_out freed s arbitrary: kv' swa' s' rule: s_evict_swa_loop.induct)
  case (1 need cands kv_out swa_out freed s)
  show ?case
  proof (cases "need \<le> freed \<or> pop_min timestamp cands = None")
    case True
    then have "s' = s" "swa' = swa_out"
      using 1(4) s_evict_swa_loop.simps [of need cands kv_out swa_out freed s] by (auto split: if_splits)
    then show ?thesis by (simp add: not_grown_refl)
  next
    case False
    then obtain d cands' where pop: "pop_min timestamp cands = Some (d, cands')" and nf: "\<not> need \<le> freed" by auto
    have mem: "set cands = insert d (set cands')" using pop_min_mset [OF pop] by (metis set_mset_add_mset_insert set_mset_mset)
    have step: "(if swa_tombstone d \<or> swa_ref_count d \<noteq> 0 \<or> uuid d = uuid (rdata (stree s))
          then s_evict_swa_loop need cands' kv_out swa_out freed s
          else if leaf_here (uuid d) (stree s) \<and> ref_count d = 0 then
            (case s_drop_leaf d kv_out (lose_swa d s) of
               Inl e \<Rightarrow> Inl e
             | Inr (kv', n, p, s') \<Rightarrow>
                 s_evict_swa_loop need cands' kv' (swa_out @ nval d) (freed + node_len d) s')
          else s_evict_swa_loop need cands' kv_out (swa_out @ nval d) (freed + node_len d)
                 (upd_tree (upd_node (uuid d) (\<lambda>e. e\<lparr>swa_tombstone := True\<rparr>)) (lose_swa d s))) = Inr (kv', swa', s')"
      using 1(4) nf unfolding s_evict_swa_loop.simps [of need cands kv_out swa_out freed s] pop by (simp only: if_False option.case prod.case)
    show ?thesis
    proof (cases "swa_tombstone d \<or> swa_ref_count d \<noteq> 0 \<or> uuid d = uuid (rdata (stree s))")
      case True
      then have "s_evict_swa_loop need cands' kv_out swa_out freed s = Inr (kv', swa', s')" using step by simp
      from 1(1) [OF nf pop refl True this] show ?thesis using mem by auto
    next
      case live: False
      show ?thesis
      proof (cases "leaf_here (uuid d) (stree s) \<and> ref_count d = 0")
        case True
        then obtain kv1 n p s1 where drop: "s_drop_leaf d kv_out (lose_swa d s) = Inr (kv1, n, p, s1)"
          and rest: "s_evict_swa_loop need cands' kv1 (swa_out @ nval d) (freed + node_len d) s1 = Inr (kv', swa', s')"
          using step live by (auto split: sum.splits)
        have "shrinks s s1" using s_drop_leaf_tsize [OF drop] by (simp add: shrinks_def)
        moreover have "not_grown s1 s'" using 1(2) [OF nf pop refl live True drop refl refl refl rest] by blast
        ultimately have "shrinks s s'" by (rule shrinks_not_grown)
        then show ?thesis by (simp add: not_grown_def)
      next
        case False
        let ?s = "upd_tree (upd_node (uuid d) (\<lambda>e. e\<lparr>swa_tombstone := True\<rparr>)) (lose_swa d s)"
        have rest: "s_evict_swa_loop need cands' kv_out (swa_out @ nval d) (freed + node_len d) ?s = Inr (kv', swa', s')"
          using step by (simp only: live False if_False)
        have ng: "not_grown ?s s'" using 1(3) [OF nf pop refl live False rest] by blast
        have "not_grown s ?s" by (rule tombstone_not_grown)
        then have "not_grown s s'" using ng by (rule not_grown_trans)
        moreover have "shrinks s s'" if "set cands \<subseteq> set (swa_nodes s)"
        proof -
          have "d \<in> set (swa_nodes s)" using that mem by simp
          then have "\<exists>e \<in> set (pre_nodes (stree s)). uuid e = uuid d \<and> \<not> swa_tombstone e" by (auto simp: swa_nodes_def)
          then have "shrinks s ?s" using tombstone_count(2) [of "stree s" "uuid d"]
            by (simp add: shrinks_def lose_swa_def upd_node_def)
          then show ?thesis using ng by (rule shrinks_not_grown)
        qed
        ultimately show ?thesis by blast
      qed
    qed
  qed
qed

lemma evict_round_shrinks:
  assumes "s_evict_swa need s = Inr (kv', swa', s')" and "swa' \<noteq> []"
  shows "shrinks s s'"
proof -
  have "set (filter (\<lambda>d. swa_ref_count d = 0) (swa_nodes s)) \<subseteq> set (swa_nodes s)" by auto
  then show ?thesis using evict_swa_shrinks [OF assms(1) [unfolded s_evict_swa_def]] assms(2) by blast
qed

lemma ensure_total: "\<exists>r. ensure_swa_slots n m = Some r"
proof -
  define R :: "(scache smgr \<times> scache smgr) set" where
    "R = measures [\<lambda>m. tsize (stree (scache_of m)), \<lambda>m. live_count (stree (scache_of m))]"
  have "wf R" by (simp add: R_def)
  then show ?thesis
  proof (induction m rule: wf_induct_rule)
    case (less m)
    show ?case
    proof (cases "swa_available_size (swin m) < n")
      case False
      then show ?thesis by (simp add: ensure_swa_slots.simps)
    next
      case True
      show ?thesis
      proof (cases "s_evict_swa (n - swa_available_size (swin m)) (scache_of m)")
        case (Inl e)
        then show ?thesis using True by (simp add: ensure_swa_slots.simps)
      next
        case (Inr x)
        obtain kv swa s where x: "x = (kv, swa, s)" by (cases x)
        show ?thesis
        proof (cases "swa = []")
          case e: True
          then show ?thesis using True Inr x by (simp add: ensure_swa_slots.simps [of n m])
        next
          case ne: False
          have sh: "shrinks (scache_of m) s" by (rule evict_round_shrinks [OF Inr [unfolded x] ne])
          have rec: "\<exists>r. ensure_swa_slots n m' = Some r" if "scache_of m' = s" for m'
            by (rule less) (use sh that in \<open>simp add: R_def shrinks_def\<close>)
          show ?thesis
          proof (cases "free_swa swa (swin m)")
            case (Inl e)
            then show ?thesis using True Inr x ne by (simp add: ensure_swa_slots.simps [of n m])
          next
            case p: (Inr p)
            let ?m = "(set_scache s m)\<lparr>swin := p\<rparr>"
            have "scache_of (if kv \<noteq> [] then sm_free kv ?m else ?m) = s"
              by (simp add: sm_free_def cm_free_def split: option.splits)
            from rec [OF this] show ?thesis using True Inr x ne p by (simp add: ensure_swa_slots.simps [of n m])
          qed
        qed
      qed
    qed
  qed
qed

text \<open>C29. Allocating pages over a sliding-window cache always returns, whatever the state of the tree and
  of the pools: the loop that frees window slots first ends with enough slots free, with nothing left to
  evict, or with an error.\<close>

theorem swa_allocation_returns:
  "(\<exists>r. ensure_swa_slots n m = Some r) \<and> (\<exists>r. sm_allocate_paged rs m = Some r)"
proof
  show "\<exists>r. ensure_swa_slots n m = Some r" by (rule ensure_total)
  show "\<exists>r. sm_allocate_paged rs m = Some r"
    using ensure_total by (auto simp: sm_allocate_paged_def Let_def split: sum.splits)
qed

end
