(* ===== verification/Wire.thy ===== *)
theory Wire
  imports Prelude
begin

text \<open>
  The wire format of the messages between the processes (\<open>message/utils.py\<close>): messages, tensors and
  the client's free-form dictionaries become plain dictionaries tagged with the class name, and back.
  \<open>pyval\<close> are the Python values that occur: a dictionary is an association list in insertion order,
  an object its class and its \<open>__dict__\<close>, a tensor its number of dimensions, its \<open>dtype\<close> and its bytes;
  floats are a type parameter.
\<close>

section \<open>Values\<close>

datatype 'f pyval =
    PNone
  | PBool bool
  | PInt int
  | PFloat 'f
  | PStr string
  | PBytes "nat list"
  | PList "'f pyval list"
  | PTuple "'f pyval list"
  | PDict "(string \<times> 'f pyval) list"
  | PTensor nat string "nat list"
  | PObj string "(string \<times> 'f pyval) list"

definition type_key :: string where
  "type_key = ''__type__''"

definition raw_dict_key :: string where
  "raw_dict_key = ''__raw_dict__''"

text \<open>\<open>d[k] = v\<close>\<close>

fun dict_put :: "string \<Rightarrow> 'v \<Rightarrow> (string \<times> 'v) list \<Rightarrow> (string \<times> 'v) list" where
  "dict_put k v [] = [(k, v)]"
| "dict_put k v ((k', v') # d) = (if k' = k then (k, v) # d else (k', v') # dict_put k v d)"

definition has_key :: "string \<Rightarrow> (string \<times> 'v) list \<Rightarrow> bool" where
  "has_key k d \<longleftrightarrow> k \<in> fst ` set d"

section \<open>Encoding\<close>

text \<open>\<open>np\<close> tells which dtypes numpy has; a tensor of another one has no \<open>numpy()\<close>.\<close>

fun serialize_any :: "(string \<Rightarrow> bool) \<Rightarrow> 'f pyval \<Rightarrow> 'f pyval result"
  and serialize_list :: "(string \<Rightarrow> bool) \<Rightarrow> 'f pyval list \<Rightarrow> 'f pyval list result"
  and serialize_fields :: "(string \<Rightarrow> bool) \<Rightarrow> (string \<times> 'f pyval) list \<Rightarrow> (string \<times> 'f pyval) list result" where
  "serialize_any np (PDict d) =
     rbind (serialize_fields np d) (\<lambda>encoded.
       if has_key type_key encoded \<or> has_key raw_dict_key encoded
       then Inr (PDict [(raw_dict_key, PDict encoded)]) else Inr (PDict encoded))"
| "serialize_any np (PList xs) = rbind (serialize_list np xs) (\<lambda>ys. Inr (PList ys))"
| "serialize_any np (PTuple xs) = rbind (serialize_list np xs) (\<lambda>ys. Inr (PTuple ys))"
| "serialize_any np (PTensor dims dtype bytes) =
     py_assert (dims = 1)
       (if np dtype then Inr (PDict [(type_key, PStr ''Tensor''), (''buffer'', PBytes bytes), (''dtype'', PStr dtype)])
        else Inl TypeError)"
| "serialize_any np (PObj cls fields) =
     rbind (serialize_fields np fields) (\<lambda>encoded.
       Inr (PDict (fold (\<lambda>(k, v) d. dict_put k v d) encoded [(type_key, PStr cls)])))"
| "serialize_any np v = Inr v"
| "serialize_list np [] = Inr []"
| "serialize_list np (x # xs) =
     rbind (serialize_any np x) (\<lambda>y. rbind (serialize_list np xs) (\<lambda>ys. Inr (y # ys)))"
| "serialize_fields np [] = Inr []"
| "serialize_fields np ((k, v) # d) =
     rbind (serialize_any np v) (\<lambda>w. rbind (serialize_fields np d) (\<lambda>e. Inr ((k, w) # e)))"

text \<open>\<open>serialize_type\<close>, the encoder of the message classes, is called on objects and tensors.\<close>

definition serialize_type :: "(string \<Rightarrow> bool) \<Rightarrow> 'f pyval \<Rightarrow> 'f pyval result" where
  "serialize_type np v = serialize_any np v"

section \<open>Decoding\<close>

text \<open>A class of the map is its fields with their defaults; \<open>cls(**kwargs)\<close> takes known keywords and
  needs those without a default.\<close>

type_synonym 'f class_map = "string \<Rightarrow> (string \<times> 'f pyval option) list option"

definition construct :: "string \<Rightarrow> (string \<times> 'f pyval option) list \<Rightarrow> (string \<times> 'f pyval) list \<Rightarrow> 'f pyval result" where
  "construct cls fields kwargs =
     (if list_all (\<lambda>(k, _). has_key k fields) kwargs \<and> list_all (\<lambda>(k, dflt). has_key k kwargs \<or> dflt \<noteq> None) fields
      then Inr (PObj cls (map (\<lambda>(k, dflt). (k, case map_of kwargs k of Some v \<Rightarrow> v | None \<Rightarrow> the dflt)) fields))
      else Inl TypeError)"

definition strip_torch :: "string \<Rightarrow> string" where
  "strip_torch s = (if take 6 s = ''torch.'' then drop 6 s else s)"

definition decode_tensor :: "(string \<Rightarrow> bool) \<Rightarrow> (string \<times> 'f pyval) list \<Rightarrow> 'f pyval result" where
  "decode_tensor np d =
     (case (map_of d ''buffer'', map_of d ''dtype'') of
        (None, _) \<Rightarrow> Inl KeyError
      | (Some _, None) \<Rightarrow> Inl KeyError
      | (Some b, Some (PStr dtype)) \<Rightarrow>
          if \<not> np (''torch.'' @ strip_torch dtype) then Inl AttributeError
          else (case b of PBytes bytes \<Rightarrow> Inr (PTensor 1 (''torch.'' @ strip_torch dtype) bytes) | _ \<Rightarrow> Inl AssertionError)
      | (Some _, Some _) \<Rightarrow> Inl AttributeError)"

text \<open>\<open>cls_map.get(type_name)\<close>\<close>

definition class_of :: "'f class_map \<Rightarrow> 'f pyval \<Rightarrow> (string \<times> (string \<times> 'f pyval option) list) option" where
  "class_of cls tag = (case tag of PStr name \<Rightarrow> map_option (Pair name) (cls name) | _ \<Rightarrow> None)"

text \<open>In the fields of an object the tag is skipped.\<close>

fun deserialize_any :: "(string \<Rightarrow> bool) \<Rightarrow> 'f class_map \<Rightarrow> 'f pyval \<Rightarrow> 'f pyval result"
  and deserialize_inner :: "(string \<Rightarrow> bool) \<Rightarrow> 'f class_map \<Rightarrow> 'f pyval \<Rightarrow> 'f pyval result"
  and deserialize_raw :: "(string \<Rightarrow> bool) \<Rightarrow> 'f class_map \<Rightarrow> (string \<times> 'f pyval) list \<Rightarrow> 'f pyval result"
  and deserialize_list :: "(string \<Rightarrow> bool) \<Rightarrow> 'f class_map \<Rightarrow> 'f pyval list \<Rightarrow> 'f pyval list result"
  and deserialize_fields :: "bool \<Rightarrow> (string \<Rightarrow> bool) \<Rightarrow> 'f class_map \<Rightarrow> (string \<times> 'f pyval) list \<Rightarrow> (string \<times> 'f pyval) list result" where
  "deserialize_any np cls (PDict d) =
     (if length d = 1 \<and> has_key raw_dict_key d then deserialize_raw np cls d
      else case map_of d type_key of
        None \<Rightarrow> rbind (deserialize_fields False np cls d) (\<lambda>e. Inr (PDict e))
      | Some tag \<Rightarrow>
          if tag = PStr ''Tensor'' then decode_tensor np d
          else (case class_of cls tag of
            None \<Rightarrow> Inl ValueError
          | Some (name, fields) \<Rightarrow> rbind (deserialize_fields True np cls d) (construct name fields)))"
| "deserialize_any np cls (PList xs) = rbind (deserialize_list np cls xs) (\<lambda>ys. Inr (PList ys))"
| "deserialize_any np cls (PTuple xs) = rbind (deserialize_list np cls xs) (\<lambda>ys. Inr (PTuple ys))"
| "deserialize_any np cls (PTensor _ _ _) = Inl ValueError"
| "deserialize_any np cls (PObj _ _) = Inl ValueError"
| "deserialize_any np cls v = Inr v"
| "deserialize_inner np cls (PDict inner) = rbind (deserialize_fields False np cls inner) (\<lambda>e. Inr (PDict e))"
| "deserialize_inner np cls _ = Inl AttributeError"
| "deserialize_raw np cls [] = Inl KeyError"
| "deserialize_raw np cls ((k, v) # d) = deserialize_inner np cls v"
| "deserialize_list np cls [] = Inr []"
| "deserialize_list np cls (x # xs) =
     rbind (deserialize_any np cls x) (\<lambda>y. rbind (deserialize_list np cls xs) (\<lambda>ys. Inr (y # ys)))"
| "deserialize_fields skip np cls [] = Inr []"
| "deserialize_fields skip np cls ((k, v) # d) =
     (if skip \<and> k = type_key then deserialize_fields skip np cls d
      else rbind (deserialize_any np cls v) (\<lambda>w. rbind (deserialize_fields skip np cls d) (\<lambda>e. Inr ((k, w) # e))))"

section \<open>Round trip\<close>

text \<open>The values a message may hold: dictionaries without a repeated key, one-dimensional tensors of a
  numpy dtype, and objects of known classes with exactly the fields of the class.\<close>

fun wire_ok :: "(string \<Rightarrow> bool) \<Rightarrow> 'f class_map \<Rightarrow> 'f pyval \<Rightarrow> bool"
  and wire_list_ok :: "(string \<Rightarrow> bool) \<Rightarrow> 'f class_map \<Rightarrow> 'f pyval list \<Rightarrow> bool"
  and wire_fields_ok :: "(string \<Rightarrow> bool) \<Rightarrow> 'f class_map \<Rightarrow> (string \<times> 'f pyval) list \<Rightarrow> bool" where
  "wire_ok np cls (PDict d) \<longleftrightarrow> distinct (map fst d) \<and> wire_fields_ok np cls d"
| "wire_ok np cls (PList xs) \<longleftrightarrow> wire_list_ok np cls xs"
| "wire_ok np cls (PTuple xs) \<longleftrightarrow> wire_list_ok np cls xs"
| "wire_ok np cls (PTensor dims dtype bytes) \<longleftrightarrow> dims = 1 \<and> np dtype \<and> take 6 dtype = ''torch.''"
| "wire_ok np cls (PObj c fields) \<longleftrightarrow> distinct (map fst fields) \<and> type_key \<notin> fst ` set fields \<and> c \<noteq> ''Tensor'' \<and>
     (case cls c of Some fs \<Rightarrow> map fst fs = map fst fields | None \<Rightarrow> False) \<and> wire_fields_ok np cls fields"
| "wire_ok np cls v \<longleftrightarrow> True"
| "wire_list_ok np cls [] \<longleftrightarrow> True"
| "wire_list_ok np cls (x # xs) \<longleftrightarrow> wire_ok np cls x \<and> wire_list_ok np cls xs"
| "wire_fields_ok np cls [] \<longleftrightarrow> True"
| "wire_fields_ok np cls ((k, v) # d) \<longleftrightarrow> wire_ok np cls v \<and> wire_fields_ok np cls d"

lemma dict_put_new: "k \<notin> fst ` set d \<Longrightarrow> dict_put k v d = d @ [(k, v)]"
  by (induction k v d rule: dict_put.induct) auto

lemma fold_dict_put:
  "distinct (map fst e) \<Longrightarrow> fst ` set e \<inter> fst ` set d = {} \<Longrightarrow> fold (\<lambda>(k, v) d. dict_put k v d) e d = d @ e"
proof (induction e arbitrary: d)
  case (Cons p e)
  obtain k v where p: "p = (k, v)" by fastforce
  have "fold (\<lambda>(k, v) d. dict_put k v d) e (d @ [(k, v)]) = (d @ [(k, v)]) @ e"
    by (rule Cons.IH) (use Cons.prems p in \<open>auto simp: disjoint_iff\<close>)
  then show ?case using Cons.prems p by (simp add: dict_put_new)
qed simp

lemma keys_of_map: "map fst e = map fst d \<Longrightarrow> fst ` set e = fst ` set d"
  by (metis list.set_map)

lemma construct_same:
  assumes "distinct (map fst fields)" and "map fst fs = map fst fields"
  shows "construct c fs fields = Inr (PObj c fields)"
proof -
  have keys: "fst ` set fs = fst ` set fields" using assms(2) by (rule keys_of_map)
  have "map (\<lambda>(k, dflt). (k, case map_of fields k of Some v \<Rightarrow> v | None \<Rightarrow> the dflt)) fs =
      map (\<lambda>k. (k, the (map_of fields k))) (map fst fs)"
    using keys by (auto simp: map_of_eq_None_iff [symmetric] split: option.splits) (metis domI domIff dom_map_of_conv_image_fst fst_conv image_eqI)
  also have "\<dots> = fields"
    unfolding assms(2) using assms(1) by (auto simp: o_def intro!: map_idI)
  finally have "map (\<lambda>(k, dflt). (k, case map_of fields k of Some v \<Rightarrow> v | None \<Rightarrow> the dflt)) fs = fields" .
  moreover have "list_all (\<lambda>(k, _). has_key k fs) fields"
    unfolding has_key_def keys by (auto simp: list_all_iff rev_image_eqI)
  moreover have "list_all (\<lambda>(k, dflt). has_key k fields \<or> dflt \<noteq> None) fs"
    unfolding has_key_def keys [symmetric] by (auto simp: list_all_iff rev_image_eqI)
  ultimately show ?thesis by (simp add: construct_def)
qed

lemma no_tag_dict:
  assumes "type_key \<notin> fst ` set e" and "raw_dict_key \<notin> fst ` set e"
  shows "deserialize_any np cls (PDict e) = rbind (deserialize_fields False np cls e) (\<lambda>d. Inr (PDict d))"
proof -
  have "map_of e type_key = None" using assms(1) by (simp add: map_of_eq_None_iff)
  then show ?thesis using assms(2) by (simp add: has_key_def)
qed

lemma tagged_object:
  assumes "distinct (map fst fields)" and "type_key \<notin> fst ` set fields" and "c \<noteq> ''Tensor''"
    and "cls c = Some fs" and "map fst fs = map fst fields" and "map fst e = map fst fields"
    and "deserialize_fields True np cls e = Inr fields"
  shows "deserialize_any np cls (PDict ((type_key, PStr c) # e)) = Inr (PObj c fields)"
proof -
  have "type_key \<noteq> raw_dict_key" by (simp add: type_key_def raw_dict_key_def)
  then show ?thesis
    using assms by (simp add: has_key_def class_of_def construct_same)
qed

lemma tensor_roundtrip:
  "take 6 dtype = ''torch.'' \<Longrightarrow> np dtype \<Longrightarrow>
   deserialize_any np cls (PDict [(type_key, PStr ''Tensor''), (''buffer'', PBytes bytes), (''dtype'', PStr dtype)]) =
   Inr (PTensor 1 dtype bytes)"
proof -
  assume t: "take 6 dtype = ''torch.''" and n: "np dtype"
  have "''torch.'' @ strip_torch dtype = dtype" using t by (metis append_take_drop_id strip_torch_def)
  then show ?thesis using n by (simp add: decode_tensor_def type_key_def)
qed

lemma roundtrip_all:
  "wire_ok np cls v \<longrightarrow> (\<exists>w. serialize_any np v = Inr w \<and> deserialize_any np cls w = Inr v)"
  "wire_list_ok np cls xs \<longrightarrow> (\<exists>ys. serialize_list np xs = Inr ys \<and> deserialize_list np cls ys = Inr xs)"
  "wire_fields_ok np cls d \<longrightarrow> (\<exists>e. serialize_fields np d = Inr e \<and> map fst e = map fst d \<and>
     (\<forall>skip. (skip \<longrightarrow> type_key \<notin> fst ` set d) \<longrightarrow> deserialize_fields skip np cls e = Inr d))"
proof (induction np v and np xs and np d rule: serialize_any_serialize_list_serialize_fields.induct)
  case (1 np d)
  show ?case
  proof
    assume ok: "wire_ok np cls (PDict d)"
    then obtain e where e: "serialize_fields np d = Inr e" "map fst e = map fst d"
      "\<forall>skip. (skip \<longrightarrow> type_key \<notin> fst ` set d) \<longrightarrow> deserialize_fields skip np cls e = Inr d"
      using 1 by auto
    show "\<exists>w. serialize_any np (PDict d) = Inr w \<and> deserialize_any np cls w = Inr (PDict d)"
    proof (cases "has_key type_key e \<or> has_key raw_dict_key e")
      case True
      then show ?thesis using e by (simp add: has_key_def raw_dict_key_def)
    next
      case False
      then show ?thesis using e no_tag_dict [of e np cls] by (simp add: has_key_def)
    qed
  qed
next
  case (5 np c fields)
  show ?case
  proof
    assume ok: "wire_ok np cls (PObj c fields)"
    then obtain e where e: "serialize_fields np fields = Inr e" "map fst e = map fst fields"
      "deserialize_fields True np cls e = Inr fields"
      using 5 by auto
    moreover have "fold (\<lambda>(k, v) d. dict_put k v d) e [(type_key, PStr c)] = (type_key, PStr c) # e"
      using ok e(2) keys_of_map [OF e(2)] by (simp add: fold_dict_put)
    moreover obtain fs where "cls c = Some fs" "map fst fs = map fst fields" using ok by (auto split: option.splits)
    moreover have "distinct (map fst fields)" "type_key \<notin> fst ` set fields" "c \<noteq> ''Tensor''" using ok by simp_all
    ultimately show "\<exists>w. serialize_any np (PObj c fields) = Inr w \<and> deserialize_any np cls w = Inr (PObj c fields)"
      using tagged_object [of fields c cls fs e np] by (simp del: deserialize_any.simps(1))
  qed
next
  case (2 np xs) then show ?case by auto
next
  case (3 np xs) then show ?case by auto
next
  case (4 np dims dtype bytes)
  then show ?case using tensor_roundtrip [of dtype np cls bytes] by (auto simp: py_assert_def simp del: deserialize_any.simps(1))
next
  case (8 np x xs) then show ?case by auto
next
  case (10 np k v d) then show ?case by auto
qed simp_all

text \<open>C26. Every message survives the wire: a value whose tensors, classes and dictionaries are well formed
  is encoded, and decoding gives the same value back, also when a client's dictionary uses the tag of
  the format as one of its own keys.\<close>

theorem wire_roundtrip:
  assumes "wire_ok np cls v"
  shows "\<exists>w. serialize_type np v = Inr w \<and> deserialize_any np cls w = Inr v"
  using roundtrip_all(1) [of np cls v] assms by (simp add: serialize_type_def)

definition demo_message :: "unit pyval" where
  "demo_message = PObj ''UserMsg'' [(''uid'', PInt 7), (''input_ids'', PTensor 1 ''torch.int32'' [1, 0, 0, 0]),
     (''tools'', PList [PDict [(''__type__'', PStr ''object''), (''n'', PNone)]])]"

definition demo_classes :: "unit class_map" where
  "demo_classes = (\<lambda>c. if c = ''UserMsg'' then Some [(''uid'', None), (''input_ids'', None), (''tools'', Some PNone)] else None)"

lemma wire_roundtrip_witness:
  "\<exists>w. serialize_type (\<lambda>d. d = ''torch.int32'') demo_message = Inr w \<and>
     deserialize_any (\<lambda>d. d = ''torch.int32'') demo_classes w = Inr demo_message"
proof -
  have "wire_ok (\<lambda>d. d = ''torch.int32'') demo_classes demo_message" by code_simp
  from wire_roundtrip [OF this] show ?thesis .
qed

end
