(* ===== verification/Cache_Budget.thy ===== *)
theory Cache_Budget
  imports Prelude
begin

text \<open>
  The memory plan of the engine: \<open>engine/cache_budget.py\<close>, which splits the device memory between
  the expert cache and the KV pages, and the sizing templates of \<open>kvcache/base.py\<close> that startup and
  a runtime rebuild share. Byte counts are integers. \<open>int(memory_ratio * x)\<close>, a product of floats
  cut to an integer, is the argument \<open>scale\<close> applied to \<open>x\<close>.
\<close>

section \<open>Budgets\<close>

text \<open>A bank source is the list of its layers' tensors; of a tensor the code reads the elements of one
  row and the element size of the first layer.\<close>

definition expert_bytes_per_slot :: "(int \<times> int) list \<Rightarrow> int" where
  "expert_bytes_per_slot sources = sum_list (map (\<lambda>(row_numel, element_size). row_numel * element_size) sources)"

definition net_cache_budget_bytes :: "(int \<Rightarrow> int) \<Rightarrow> int \<Rightarrow> int \<Rightarrow> int \<Rightarrow> int" where
  "net_cache_budget_bytes scale baseline_free weights_bytes fixed_cache_size =
     scale baseline_free - weights_bytes - fixed_cache_size"

definition required_bytes :: "int \<Rightarrow> int \<Rightarrow> int \<Rightarrow> int \<Rightarrow> int" where
  "required_bytes moe_cache_size num_pages per_expert_bytes cache_per_page =
     moe_cache_size * per_expert_bytes + num_pages * cache_per_page"

definition plan_cache_budget ::
    "int \<Rightarrow> int \<Rightarrow> int \<Rightarrow> int \<Rightarrow> int \<Rightarrow> bool \<Rightarrow> int \<Rightarrow> int \<Rightarrow> (int \<times> int \<times> bool) result" where
  "plan_cache_budget budget per_expert per_page num_experts total_experts prefill_overlap kv_reserve max_slots =
     py_assert (0 < per_expert) (py_assert (0 < per_page)
       (let hi = min total_experts max_slots;
            overlap = (prefill_overlap \<and> 2 * num_experts \<le> hi);
            lo = (if overlap then 2 * num_experts else num_experts) in
        py_assert (lo \<le> hi)
          (let raw = (budget - kv_reserve * per_page) div per_expert;
               moe = max lo (min raw hi);
               overlap = (overlap \<and> 2 * num_experts \<le> moe);
               remaining = budget - moe * per_expert;
               pages = max (remaining div per_page) kv_reserve;
               tot = moe * per_expert + pages * per_page in
           py_assert (tot \<le> budget) (py_assert (1 < pages) (Inr (moe, pages, overlap))))))"

definition resolve_moe_cache_auto ::
    "(int \<Rightarrow> int) \<Rightarrow> int \<Rightarrow> int \<Rightarrow> int \<Rightarrow> int \<Rightarrow> int \<Rightarrow> int \<Rightarrow> int \<Rightarrow> bool \<Rightarrow> int \<Rightarrow> int \<Rightarrow> int option \<Rightarrow>
     (int \<times> int \<times> bool) result" where
  "resolve_moe_cache_auto scale baseline_free weights per_page fixed per_expert num_experts total_experts
       prefill_overlap kv_reserve_tokens ps max_slots =
     (let budget = net_cache_budget_bytes scale baseline_free weights fixed;
          slots = (case max_slots of None \<Rightarrow> total_experts | Some m \<Rightarrow> min m total_experts) in
      plan_cache_budget budget per_expert per_page num_experts total_experts prefill_overlap
        (div_ceil kv_reserve_tokens ps) slots)"

section \<open>Sizing templates of the pools\<close>

record kv_spec =
  ks_mla :: bool
  ks_head_dim :: int
  ks_num_kv_heads :: int
  ks_num_layers :: int
  ks_index_head_dim :: int
  ks_num_index_layers :: int
  ks_index_ratio :: int

definition spec_kv_bytes_per_token :: "kv_spec \<Rightarrow> int \<Rightarrow> int \<Rightarrow> int result" where
  "spec_kv_bytes_per_token sp tp itemsize =
     rbind (div_even (ks_num_kv_heads sp) tp True) (\<lambda>heads.
       Inr ((if ks_mla sp then 1 else 2) * ks_head_dim sp * heads * itemsize * ks_num_layers sp +
            (ks_index_head_dim sp * ks_num_index_layers sp * 2) div ks_index_ratio sp))"

text \<open>\<open>kv_cost\<close> of the pool family is its price per page and its fixed size. The override is a user's
  page count.\<close>

definition solve_num_pages :: "int \<times> int \<Rightarrow> int option \<Rightarrow> int \<Rightarrow> int result" where
  "solve_num_pages kv_cost override available_memory =
     (let (per_page, fixed) = kv_cost;
          num_pages = (case override of Some n \<Rightarrow> n | None \<Rightarrow> (available_memory - fixed) div per_page) in
      py_assert (1 < num_pages) (Inr num_pages))"

definition min_kv_tokens :: "nat \<Rightarrow> nat" where
  "min_kv_tokens ps = ps"

text \<open>The fit check of a runtime rebuild: \<open>True\<close> accepts, \<open>False\<close> stands for \<open>CacheRebuildRejected\<close>.
  \<open>kv_cost\<close> takes the target window only of the families whose signature declares it.\<close>

definition validate_rebuild ::
    "(int option \<Rightarrow> int \<times> int) \<Rightarrow> bool \<Rightarrow> (int \<Rightarrow> int) \<Rightarrow> int option \<Rightarrow> int \<Rightarrow> int \<Rightarrow> int \<Rightarrow> int \<Rightarrow> int \<Rightarrow> int \<Rightarrow> int option \<Rightarrow> bool" where
  "validate_rebuild kv_cost takes_window scale num_pages target_moe per_expert baseline_free weights current_pages
       extra_fixed window =
     (let target = (case num_pages of Some n \<Rightarrow> n | None \<Rightarrow> current_pages);
          (per_page, fixed) = kv_cost (if takes_window then window else None);
          budget = net_cache_budget_bytes scale baseline_free weights (fixed + extra_fixed) in
      \<not> budget < required_bytes target_moe target per_expert per_page)"

definition rebuild_footprint :: "(int option \<Rightarrow> int \<times> int) \<Rightarrow> bool \<Rightarrow> int \<Rightarrow> int option \<Rightarrow> int" where
  "rebuild_footprint kv_cost takes_window num_pages window =
     (let (per_page, fixed) = kv_cost (if takes_window then window else None) in num_pages * per_page + fixed)"

section \<open>Properties\<close>

lemma div_below: "0 < y \<Longrightarrow> (x div y) * y \<le> x" for x y :: int
  using pos_mod_sign [of y x] div_mult_mod_eq [of x y] by linarith

lemma div_above: "0 < y \<Longrightarrow> x < (x div y + 1) * y" for x y :: int
  using pos_mod_bound [of y x] div_mult_mod_eq [of x y] unfolding distrib_right by linarith

lemma plan_facts:
  assumes "plan_cache_budget budget e p n t ov kv ms = Inr (moe, pages, overlap)"
  shows "0 < e \<and> 0 < p \<and> (if ov \<and> 2 * n \<le> min t ms then 2 * n else n) \<le> min t ms \<and>
     moe = max (if ov \<and> 2 * n \<le> min t ms then 2 * n else n) (min ((budget - kv * p) div e) (min t ms)) \<and>
     pages = max ((budget - moe * e) div p) kv \<and> moe * e + pages * p \<le> budget \<and> 1 < pages \<and>
     overlap = ((ov \<and> 2 * n \<le> min t ms) \<and> 2 * n \<le> moe)"
  using assms unfolding plan_cache_budget_def Let_def py_assert_Inr_conv sum.inject prod.inject
  by clarify (intro conjI refl; assumption)

text \<open>C27. A memory plan fits the budget it was made for, keeps the KV reserve and more than one page,
  keeps the expert slots within the cap and above the floor, and enables the prefill overlap only with
  two layers of slots. It uses the budget up: one more page would not fit, and neither would one more
  expert slot next to the reserved pages unless the cap is reached.\<close>

theorem cache_plan_fits:
  assumes "plan_cache_budget budget e p n t ov kv ms = Inr (moe, pages, overlap)"
  shows "required_bytes moe pages e p \<le> budget \<and> kv \<le> pages \<and> 1 < pages \<and>
     moe \<le> min t ms \<and> (0 \<le> n \<longrightarrow> n \<le> moe) \<and> (overlap \<longrightarrow> ov \<and> 2 * n \<le> moe) \<and>
     budget < required_bytes moe (pages + 1) e p \<and>
     (moe < min t ms \<longrightarrow> budget < required_bytes (moe + 1) kv e p)"
proof -
  define cap where "cap = min t ms"
  define lo where "lo = (if ov \<and> 2 * n \<le> cap then 2 * n else n)"
  note c = plan_facts [OF assms, folded cap_def, folded lo_def]
  have e: "0 < e" and p: "0 < p" and lo: "lo \<le> cap" and moe: "moe = max lo (min ((budget - kv * p) div e) cap)"
    and pages: "pages = max ((budget - moe * e) div p) kv" and fit: "moe * e + pages * p \<le> budget"
    and one: "1 < pages" and ovl: "overlap = ((ov \<and> 2 * n \<le> cap) \<and> 2 * n \<le> moe)"
    using c by blast+
  have "(budget - moe * e) div p + 1 \<le> pages + 1" using pages by simp
  then have "((budget - moe * e) div p + 1) * p \<le> (pages + 1) * p" using p by (intro mult_right_mono) auto
  then have 1: "budget < required_bytes moe (pages + 1) e p"
    using div_above [OF p, of "budget - moe * e"] by (simp add: required_bytes_def)
  have 2: "budget < required_bytes (moe + 1) kv e p" if "moe < cap"
  proof -
    have "min ((budget - kv * p) div e) cap \<le> moe" and "moe < cap" using moe that by simp_all
    then have "(budget - kv * p) div e + 1 \<le> moe + 1" by (simp add: min_def split: if_splits)
    then have "((budget - kv * p) div e + 1) * e \<le> (moe + 1) * e" using e by (intro mult_right_mono) auto
    then show ?thesis using div_above [OF e, of "budget - kv * p"] by (simp add: required_bytes_def)
  qed
  have "lo \<le> moe" and "moe \<le> cap" and "kv \<le> pages" using moe pages lo by simp_all
  moreover have "0 \<le> n \<longrightarrow> n \<le> lo" by (simp add: lo_def)
  ultimately show ?thesis using 1 2 one fit ovl unfolding cap_def [symmetric] by (auto simp: required_bytes_def)
qed

lemma cache_plan_fits_witness:
  "plan_cache_budget 1000 10 7 8 64 True 20 100 = Inr (64, 51, True) \<and> required_bytes 64 51 10 7 \<le> 1000"
proof -
  have "plan_cache_budget 1000 10 7 8 64 True 20 100 = Inr (64, 51, True)" by code_simp
  from cache_plan_fits [OF this] this show ?thesis by simp
qed

text \<open>A rebuild that the fit check accepts fits the memory the startup plan was made from, and the
  page count that startup solves for is the largest one that such a check accepts.\<close>

theorem solved_pages_are_maximal:
  assumes "solve_num_pages (cost None) None (net_cache_budget_bytes scale free weights 0 - moe * e) = Inr n"
    and "0 < fst (cost None)"
  shows "validate_rebuild cost False scale (Some n) moe e free weights cur 0 w \<and>
     \<not> validate_rebuild cost False scale (Some (n + 1)) moe e free weights cur 0 w"
proof -
  obtain p f where c: "cost None = (p, f)" and p: "0 < p" using assms(2) by (cases "cost None") auto
  let ?B = "scale free - weights - moe * e - f"
  have n: "n = ?B div p"
    using assms(1) c by (simp add: solve_num_pages_def Let_def py_assert_Inr_conv net_cache_budget_bytes_def)
  have "n * p \<le> ?B" using div_below [OF p] n by simp
  moreover have "?B < (n + 1) * p" using div_above [OF p] n by simp
  ultimately show ?thesis
    by (simp add: validate_rebuild_def c net_cache_budget_bytes_def required_bytes_def algebra_simps)
qed

lemma solved_pages_are_maximal_witness:
  "validate_rebuild (\<lambda>_. (7, 5)) False (\<lambda>x. x) (Some 12) 1 10 120 18 0 0 None \<and>
   \<not> validate_rebuild (\<lambda>_. (7, 5)) False (\<lambda>x. x) (Some 13) 1 10 120 18 0 0 None"
  using solved_pages_are_maximal [where cost = "\<lambda>_. (7, 5)" and scale = "\<lambda>x. x" and free = 120 and weights = 18
      and moe = 1 and e = 10 and n = 12 and cur = 0 and w = None]
  by (simp add: solve_num_pages_def net_cache_budget_bytes_def py_assert_def)

end
