(* ===== verification/Replay_Rings.thy ===== *)
theory Replay_Rings
  imports Prelude
begin

text \<open>
  The bounded rings that clients poll with a cursor: \<open>RequestRing\<close> (\<open>server/request_ring.py\<close>) and
  \<open>LogRing\<close> (\<open>daemon/logring.py\<close>). A \<open>deque(maxlen=n)\<close> drops its oldest entries; the cursor counts
  all entries ever appended.
\<close>

section \<open>The request ring\<close>

record request_record =
  rq_ts :: string
  rq_method :: string
  rq_path :: string
  rq_status :: int
  rq_model :: "string option"
  duration_ms :: int
  ttft_ms :: "int option"
  prompt_tokens :: "int option"
  completion_tokens :: "int option"
  rq_stream :: "bool option"
  rq_error :: "string option"

record 'a ring =
  ring_cap :: nat
  ring_buf :: "(nat \<times> 'a) list"
  ring_next :: nat

definition new_ring :: "nat \<Rightarrow> 'a ring" where
  "new_ring cap = \<lparr>ring_cap = cap, ring_buf = [], ring_next = 0\<rparr>"

definition bounded :: "nat \<Rightarrow> 'a list \<Rightarrow> 'a list" where
  "bounded cap xs = drop (length xs - cap) xs"

definition ring_add :: "'a \<Rightarrow> 'a ring \<Rightarrow> 'a ring" where
  "ring_add x r =
     r\<lparr>ring_buf := bounded (ring_cap r) (ring_buf r @ [(ring_next r, x)]), ring_next := ring_next r + 1\<rparr>"

text \<open>\<open>xs[:limit]\<close>, where a negative limit counts from the end.\<close>

definition py_take :: "int \<Rightarrow> 'a list \<Rightarrow> 'a list" where
  "py_take n xs = (if 0 \<le> n then take (nat n) xs else take (length xs - nat (- n)) xs)"

definition matched_from :: "int \<Rightarrow> 'a ring \<Rightarrow> (nat \<times> 'a) list" where
  "matched_from cursor r = filter (\<lambda>(i, _). cursor \<le> int i) (ring_buf r)"

text \<open>\<open>matched[len(out) - 1]\<close> of an empty \<open>out\<close> is the last match.\<close>

definition ring_since :: "int \<Rightarrow> int \<Rightarrow> 'a ring \<Rightarrow> 'a list \<times> nat" where
  "ring_since cursor limit r =
     (let matched = matched_from cursor r; out = map snd (py_take limit matched) in
      (out, if length out < length matched
            then fst (if out = [] then last matched else matched ! (length out - 1)) + 1
            else ring_next r))"

text \<open>\<open>math.ceil(0.95 * n)\<close>: the float product is within a relative error of \<open>2 ^ -52\<close> of \<open>95 n / 100\<close>,
  which is at least 1/20 away from the next integer or an integer itself, so that for the sizes of a
  ring the ceiling is the exact one.\<close>

definition p95_ms :: "request_record ring \<Rightarrow> int" where
  "p95_ms r =
     (let durs = sort (map (\<lambda>(_, x). duration_ms x) (ring_buf r)) in
      if durs = [] then 0 else durs ! (div_ceil (95 * length durs) 100 - 1))"

text \<open>\<open>round\<close> rounds half to even.\<close>

definition round_half_even :: "int \<Rightarrow> int \<Rightarrow> int" where
  "round_half_even s n =
     (let q = s div n; r = s mod n in
      if 2 * r < n then q else if n < 2 * r then q + 1 else if even q then q else q + 1)"

definition ttft_mean_ms :: "request_record ring \<Rightarrow> int" where
  "ttft_mean_ms r =
     (let vals = List.map_filter (\<lambda>(_, x). ttft_ms x) (ring_buf r) in
      if vals = [] then 0 else round_half_even (sum_list vals) (int (length vals)))"

definition ring_count :: "'a ring \<Rightarrow> nat" where
  "ring_count r = ring_next r"

section \<open>The log ring\<close>

text \<open>A subscriber is a number; \<open>log_append\<close> gives the record and the subscribers it is pushed to.\<close>

record 't log_record =
  lr_seq :: nat
  lr_ts :: 't
  lr_kind :: string
  lr_text :: string

record 't log_ring =
  log_cap :: nat
  log_buf :: "'t log_record list"
  log_next :: nat
  log_subs :: "nat list"

definition log_append :: "string \<Rightarrow> string \<Rightarrow> 't \<Rightarrow> 't log_ring \<Rightarrow> 't log_record \<times> nat list \<times> 't log_ring" where
  "log_append txt kind ts r =
     (let x = \<lparr>lr_seq = log_next r, lr_ts = ts, lr_kind = kind, lr_text = txt\<rparr> in
      (x, log_subs r, r\<lparr>log_buf := bounded (log_cap r) (log_buf r @ [x]), log_next := log_next r + 1\<rparr>))"

definition log_since :: "int \<Rightarrow> 't log_ring \<Rightarrow> 't log_record list \<times> nat" where
  "log_since cursor r = (filter (\<lambda>x. cursor \<le> int (lr_seq x)) (log_buf r), log_next r)"

definition log_cursor :: "'t log_ring \<Rightarrow> nat" where
  "log_cursor r = log_next r"

definition log_subscribe :: "nat \<Rightarrow> 't log_ring \<Rightarrow> 't log_ring" where
  "log_subscribe k r = (if k \<in> set (log_subs r) then r else r\<lparr>log_subs := log_subs r @ [k]\<rparr>)"

definition log_unsubscribe :: "nat \<Rightarrow> 't log_ring \<Rightarrow> 't log_ring" where
  "log_unsubscribe k r = r\<lparr>log_subs := filter (\<lambda>x. x \<noteq> k) (log_subs r)\<rparr>"

definition log_subscriber_count :: "'t log_ring \<Rightarrow> nat" where
  "log_subscriber_count r = length (log_subs r)"

section \<open>The entries of a ring\<close>

text \<open>The entries are the most recent ones, numbered without a gap up to the cursor.\<close>

definition ring_ok :: "'a ring \<Rightarrow> bool" where
  "ring_ok r \<longleftrightarrow> map fst (ring_buf r) = [ring_next r - length (ring_buf r)..<ring_next r] \<and>
     length (ring_buf r) = min (ring_cap r) (ring_next r)"

lemma new_ring_ok: "ring_ok (new_ring cap)"
  by (simp add: ring_ok_def new_ring_def)

lemma drop_upt_minus: "n \<le> b - a \<Longrightarrow> drop n [a..<b] = [a + n..<b]"
  by simp

lemma ring_add_ok:
  assumes "ring_ok r"
  shows "ring_ok (ring_add x r)"
proof -
  let ?b = "ring_buf r @ [(ring_next r, x)]"
  have len: "length (ring_buf r) = min (ring_cap r) (ring_next r)" and
    ids: "map fst (ring_buf r) = [ring_next r - length (ring_buf r)..<ring_next r]"
    using assms by (auto simp: ring_ok_def)
  have all: "map fst ?b = [ring_next r - length (ring_buf r)..<Suc (ring_next r)]" using ids by simp
  have "map fst (bounded (ring_cap r) ?b) = drop (length ?b - ring_cap r) (map fst ?b)"
    unfolding bounded_def by (rule drop_map [symmetric])
  also have "\<dots> = [ring_next r - length (ring_buf r) + (length ?b - ring_cap r)..<Suc (ring_next r)]"
    unfolding all by simp
  also have "ring_next r - length (ring_buf r) + (length ?b - ring_cap r) =
      Suc (ring_next r) - length (bounded (ring_cap r) ?b)"
    using len by (auto simp: bounded_def min_def)
  finally show ?thesis using len by (auto simp: ring_ok_def ring_add_def bounded_def min_def)
qed

definition ring_of :: "nat \<Rightarrow> 'a list \<Rightarrow> 'a ring" where
  "ring_of cap xs = fold ring_add xs (new_ring cap)"

lemma ring_of_snoc: "ring_of cap (xs @ [x]) = ring_add x (ring_of cap xs)"
  by (simp add: ring_of_def)

lemma ring_of_facts:
  "ring_ok (ring_of cap xs) \<and> ring_cap (ring_of cap xs) = cap \<and> ring_next (ring_of cap xs) = length xs \<and>
   map snd (ring_buf (ring_of cap xs)) = bounded cap xs"
proof (induction xs rule: rev_induct)
  case Nil
  show ?case by (simp add: ring_of_def new_ring_ok) (simp add: new_ring_def bounded_def)
next
  case (snoc x xs)
  have again: "bounded cap (bounded cap xs @ [x]) = bounded cap (xs @ [x])"
    by (cases "length xs < cap") (auto simp: bounded_def Suc_diff_le)
  have "map snd (bounded cap (ys @ [(n, x)])) = bounded cap (map snd ys @ [x])" for ys :: "(nat \<times> 'a) list" and n
    by (simp add: bounded_def flip: drop_map)
  then show ?case
    using snoc again unfolding ring_of_snoc by (simp add: ring_add_ok) (simp add: ring_add_def)
qed

text \<open>The entries from a cursor on are an end of the buffer, for consecutive numbers.\<close>

lemma filter_numbered: "map fst buf = [a..<b] \<Longrightarrow> filter (\<lambda>p. c \<le> int (fst p)) buf = drop (nat c - a) buf"
proof (induction buf arbitrary: a)
  case (Cons p buf)
  have ab: "a < b" using Cons.prems by (cases "a < b") simp_all
  then have p: "fst p = a" "map fst buf = [Suc a..<b]" using Cons.prems by (simp_all add: upt_conv_Cons)
  show ?case
  proof (cases "c \<le> int a")
    case True
    then have "nat c - a = 0" "nat c - Suc a = 0" by linarith+
    then show ?thesis using Cons.IH [OF p(2)] True p(1) by simp
  next
    case False
    then have "nat c - a = Suc (nat c - Suc a)" by linarith
    then show ?thesis using Cons.IH [OF p(2)] False p(1) by simp
  qed
qed simp

lemma drop_bounded: "drop (k - (length xs - min cap (length xs))) (bounded cap xs) = drop (max k (length xs - cap)) xs"
proof -
  have "k - (length xs - min cap (length xs)) + (length xs - cap) = max k (length xs - cap)" by linarith
  then show ?thesis by (simp add: bounded_def)
qed

lemma matched_of_ring: "map snd (matched_from c (ring_of cap xs)) = drop (max (nat c) (length xs - cap)) xs"
proof -
  let ?r = "ring_of cap xs"
  have f: "map fst (ring_buf ?r) = [length xs - min cap (length xs)..<length xs]" "map snd (ring_buf ?r) = bounded cap xs"
    using ring_of_facts [of cap xs] by (auto simp: ring_ok_def)
  have "matched_from c ?r = drop (nat c - (length xs - min cap (length xs))) (ring_buf ?r)"
    using filter_numbered [OF f(1), of c] by (simp add: matched_from_def case_prod_unfold)
  then have "map snd (matched_from c ?r) = drop (nat c - (length xs - min cap (length xs))) (bounded cap xs)"
    by (simp add: f(2) flip: drop_map)
  then show ?thesis unfolding drop_bounded .
qed

lemma untruncated_poll:
  "int (length (matched_from c r)) \<le> limit \<Longrightarrow> ring_since c limit r = (map snd (matched_from c r), ring_next r)"
  by (simp add: ring_since_def py_take_def Let_def)

text \<open>The log ring after its entries, each a text with its kind and time.\<close>

definition log_of :: "nat \<Rightarrow> (string \<times> string \<times> 't) list \<Rightarrow> 't log_ring" where
  "log_of cap es = fold (\<lambda>(txt, kind, ts) r. snd (snd (log_append txt kind ts r))) es
     \<lparr>log_cap = cap, log_buf = [], log_next = 0, log_subs = []\<rparr>"

definition log_entry :: "'t log_record \<Rightarrow> string \<times> string \<times> 't" where
  "log_entry x = (lr_text x, lr_kind x, lr_ts x)"

text \<open>It is a ring of the other kind.\<close>

lemma map_bounded: "map f (bounded cap xs) = bounded cap (map f xs)"
  by (simp add: bounded_def drop_map)

lemma log_of_ring:
  "map (\<lambda>x. (lr_seq x, log_entry x)) (log_buf (log_of cap es)) = ring_buf (ring_of cap es) \<and>
   log_next (log_of cap es) = length es \<and> log_cap (log_of cap es) = cap"
proof (induction es rule: rev_induct)
  case Nil
  show ?case by (simp add: log_of_def ring_of_def new_ring_def)
next
  case (snoc e es)
  obtain tx kind ts where e: "e = (tx, kind, ts)" by (cases e) auto
  have "log_of cap (es @ [e]) = snd (snd (log_append tx kind ts (log_of cap es)))" by (simp add: log_of_def e)
  moreover have "length (ring_buf (ring_of cap es)) = length (log_buf (log_of cap es))" using snoc by (metis length_map)
  ultimately show ?case using snoc ring_of_facts [of cap es] unfolding ring_of_snoc
    by (simp add: log_append_def Let_def ring_add_def map_bounded log_entry_def e)
qed

lemma log_poll: "map log_entry (fst (log_since c (log_of cap es))) = drop (max (nat c) (length es - cap)) es"
proof -
  let ?f = "\<lambda>x. (lr_seq x, log_entry x)"
  have "map ?f (filter (\<lambda>x. c \<le> int (lr_seq x)) (log_buf (log_of cap es))) =
      filter (\<lambda>p. c \<le> int (fst p)) (map ?f (log_buf (log_of cap es)))" by (simp add: filter_map o_def)
  also have "\<dots> = matched_from c (ring_of cap es)"
    using log_of_ring [of cap es] by (simp add: matched_from_def case_prod_unfold)
  finally have "map snd (map ?f (filter (\<lambda>x. c \<le> int (lr_seq x)) (log_buf (log_of cap es)))) =
      drop (max (nat c) (length es - cap)) es" using matched_of_ring by metis
  then show ?thesis by (simp add: log_since_def o_def)
qed

text \<open>C28. Polling is exact, for both rings and every cursor. A poll that its limit does not cut short returns, of all that was
  ever added, exactly the entries from the cursor on that the capacity still keeps, with the count of all as the next cursor; and
  a poll with that cursor after more has been added returns exactly what was added, as far as the capacity keeps it: nothing
  is missed and nothing seen twice. The log ring, which has no limit, does the same.\<close>

theorem ring_poll_exact:
  assumes "int (length (matched_from cursor (ring_of cap xs))) \<le> limit"
    and "int (length (matched_from (int (length xs)) (ring_of cap (xs @ ys)))) \<le> limit'"
  shows "ring_since cursor limit (ring_of cap xs) = (drop (max (nat cursor) (length xs - cap)) xs, length xs) \<and>
    ring_since (int (length xs)) limit' (ring_of cap (xs @ ys)) = (drop (length ys - cap) ys, length xs + length ys) \<and>
    map log_entry (fst (log_since cursor (log_of cap es))) = drop (max (nat cursor) (length es - cap)) es \<and>
    snd (log_since cursor (log_of cap es)) = length es \<and>
    map log_entry (fst (log_since (int (length es)) (log_of cap (es @ fs)))) = drop (length fs - cap) fs"
proof -
  have later: "drop (max (nat (int (length zs))) (length (zs @ us) - cap)) (zs @ us) = drop (length us - cap) us" for zs us :: "'x list"
    by (cases "length us \<le> cap") (simp_all add: max_def)
  have n: "ring_next (ring_of cap zs) = length zs" for zs :: "'a list" using ring_of_facts [of cap zs] by simp
  show ?thesis
    unfolding untruncated_poll [OF assms(1)] untruncated_poll [OF assms(2)] n matched_of_ring log_poll later
    using log_of_ring [of cap es] by (simp add: log_since_def)
qed

lemma ring_poll_exact_witness:
  "ring_since 0 5 (ring_of 2 [''a'', ''b'', ''c'']) = ([''b'', ''c''], 3) \<and>
   ring_since 3 5 (ring_of 2 [''a'', ''b'', ''c'', ''d'']) = ([''d''], 4)"
proof -
  have m: "matched_from 0 (ring_of 2 [''a'', ''b'', ''c'']) = [(1, ''b''), (2, ''c'')]"
    "matched_from 3 (ring_of 2 ([''a'', ''b'', ''c''] @ [''d''])) = [(3, ''d'')]" by code_simp+
  have "ring_since 0 5 (ring_of 2 [''a'', ''b'', ''c'']) = (drop (max (nat 0) (length [''a'', ''b'', ''c''] - 2)) [''a'', ''b'', ''c''], length [''a'', ''b'', ''c'']) \<and>
    ring_since (int (length [''a'', ''b'', ''c''])) 5 (ring_of 2 ([''a'', ''b'', ''c''] @ [''d''])) = (drop (length [''d''] - 2) [''d''], length [''a'', ''b'', ''c''] + length [''d''])"
    using ring_poll_exact [of 0 2 "[''a'', ''b'', ''c'']" 5 "[''d'']" 5
        "[] :: (string \<times> string \<times> nat) list" "[]"] m by simp
  then show ?thesis by simp
qed

text \<open>A poll that is cut short hands out the number after the last entry it returned as the next cursor (the docstring of \<open>since\<close>
  says: its number), so that polling goes on without a gap or a repetition.\<close>

lemma ring_poll_continues:
  assumes "ring_ok r" and "0 < limit" and "cursor \<le> int (ring_next r)"
    and "ring_since cursor limit r = (out, c')"
  shows "map snd (matched_from cursor r) = out @ map snd (matched_from (int c') r) \<and>
     cursor \<le> int c' \<and> c' \<le> ring_next r \<and> (matched_from cursor r \<noteq> [] \<longrightarrow> cursor < int c')"
proof -
  let ?a = "ring_next r - length (ring_buf r)" and ?n = "ring_next r"
  let ?m = "matched_from cursor r"
  have ids: "map fst (ring_buf r) = [?a..<?n]" using assms(1) by (simp add: ring_ok_def)
  have sub: "filter (\<lambda>i. c \<le> int i) [a..<b] = [max a (nat c)..<b]" for c a b
    by (induction b) (auto simp: max_def)
  have mids: "map fst (matched_from c r) = [max ?a (nat c)..<?n]" for c
  proof -
    have "map fst (matched_from c r) = filter (\<lambda>i. c \<le> int i) (map fst (ring_buf r))"
      by (simp add: matched_from_def filter_map o_def case_prod_unfold)
    then show ?thesis by (simp add: ids sub)
  qed
  have split: "matched_from c' r = filter (\<lambda>p. c' \<le> int (fst p)) (matched_from c r)" if "c \<le> c'" for c c'
    using that by (auto simp: matched_from_def case_prod_unfold intro!: filter_cong)
  let ?s = "max ?a (nat cursor)"
  have nth: "fst (?m ! j) = ?s + j" if "j < length ?m" for j
    using that mids [of cursor] by (metis add.commute length_map length_upt less_diff_conv nth_map nth_upt add.left_commute)
  have len: "length ?m = ?n - ?s" using mids [of cursor] by (metis length_map length_upt)
  have cut: "?m = take k ?m @ matched_from (int (?s + k)) r" if "k \<le> length ?m" for k
  proof -
    have "filter (\<lambda>p. int (?s + k) \<le> int (fst p)) (take k ?m) = []"
    proof (rule filter_False, rule ballI)
      fix p assume "p \<in> set (take k ?m)"
      then obtain i where i: "i < k" "i < length ?m" "p = ?m ! i" by (auto simp: in_set_conv_nth)
      then show "\<not> int (?s + k) \<le> int (fst p)" using nth [of i] by simp
    qed
    moreover have "filter (\<lambda>p. int (?s + k) \<le> int (fst p)) (drop k ?m) = drop k ?m"
    proof (rule filter_True, rule ballI)
      fix p assume "p \<in> set (drop k ?m)"
      then obtain i where i: "k + i < length ?m" "p = ?m ! (k + i)"
        unfolding in_set_conv_nth by (auto simp: less_diff_conv add.commute [of k])
      then show "int (?s + k) \<le> int (fst p)" using nth [of "k + i"] by simp
    qed
    moreover have "matched_from (int (?s + k)) r = filter (\<lambda>p. int (?s + k) \<le> int (fst p)) (take k ?m @ drop k ?m)"
      using split [of cursor "int (?s + k)"] by simp
    ultimately show ?thesis unfolding filter_append by simp
  qed
  show ?thesis
  proof (cases "nat limit < length ?m")
    case True
    let ?k = "nat limit"
    have k: "0 < ?k" using assms(2) by simp
    have out: "out = map snd (take ?k ?m)" and c': "c' = ?s + ?k"
      using assms(2,4) True k nth [of "?k - 1"] by (auto simp: ring_since_def Let_def py_take_def)
    have "map snd ?m = out @ map snd (matched_from (int c') r)"
      using cut [of ?k] True unfolding out c' by (metis map_append less_imp_le)
    moreover have "cursor \<le> int ?s" by simp
    then have "cursor < int c'" using k unfolding c' by linarith
    moreover have "c' \<le> ?n" using len True unfolding c' by linarith
    ultimately show ?thesis by simp
  next
    case False
    have out: "out = map snd ?m" and c': "c' = ?n"
      using assms(2,4) False by (auto simp: ring_since_def Let_def py_take_def)
    have "matched_from (int ?n) r = []" using mids [of "int ?n"] by simp
    moreover have "cursor < int ?n" if "?m \<noteq> []"
    proof -
      have "0 < length ?m" using that by simp
      then have "nat cursor < ?n" unfolding len by linarith
      then show ?thesis by linarith
    qed
    ultimately show ?thesis using assms(3) unfolding out c' by simp
  qed
qed

end
