(* ===== verification/Detokenize.thy ===== *)
theory Detokenize
  imports Byte_Text
begin

text \<open>
  The incremental detokenizer (\<open>tokenizer/detokenize.py\<close>): tokens of a request arrive one by one, and
  it streams the text they add, holding back what could still become a stop string. A text is the
  list of its code points; \<open>decode\<close> is the tokenizer's decoder of one list of tokens, which
  \<open>batch_decode\<close> applies to each.
\<close>

section \<open>Texts\<close>

definition is_chinese_char :: "nat \<Rightarrow> bool" where
  "is_chinese_char cp \<longleftrightarrow>
     (0x4E00 \<le> cp \<and> cp \<le> 0x9FFF) \<or> (0x3400 \<le> cp \<and> cp \<le> 0x4DBF) \<or> (0x20000 \<le> cp \<and> cp \<le> 0x2A6DF) \<or>
     (0x2A700 \<le> cp \<and> cp \<le> 0x2B73F) \<or> (0x2B740 \<le> cp \<and> cp \<le> 0x2B81F) \<or> (0x2B820 \<le> cp \<and> cp \<le> 0x2CEAF) \<or>
     (0xF900 \<le> cp \<and> cp \<le> 0xFAFF) \<or> (0x2F800 \<le> cp \<and> cp \<le> 0x2FA1F)"

text \<open>\<open>text[: text.rfind(" ") + 1]\<close>\<close>

definition upto_last_space :: "utext \<Rightarrow> utext" where
  "upto_last_space t = rev (dropWhile (\<lambda>c. c \<noteq> 32) (rev t))"

definition find_printable_text :: "utext \<Rightarrow> utext" where
  "find_printable_text t =
     (if t \<noteq> [] \<and> last t = 10 then t
      else if 0 < length t \<and> is_chinese_char (last t) then t
      else if 1 < length t \<and> is_chinese_char (t ! (length t - 2)) then butlast t
      else upto_last_space t)"

definition stop_hold :: "utext \<Rightarrow> utext \<Rightarrow> nat" where
  "stop_hold t stop =
     (case find (\<lambda>i. suffix (take i stop) t) (rev [1..<Suc (min (length stop - 1) (length t))]) of
        Some i \<Rightarrow> i | None \<Rightarrow> 0)"

definition stop_prefix_holdback :: "utext \<Rightarrow> utext list \<Rightarrow> nat" where
  "stop_prefix_holdback t stops = fold (\<lambda>stop hold. max hold (stop_hold t stop)) stops 0"

section \<open>The manager\<close>

record dstatus =
  decoded_ids :: "int list"
  decoded_str :: utext
  read_offset :: nat
  surr_offset :: nat
  sent_offset :: nat

record dmsg =
  dg_uid :: nat
  dg_token :: int
  dg_finished :: bool
  dg_matched_stop :: "utext option"
  dg_stop_strs :: "utext list option"

type_synonym decode_map = "nat \<Rightarrow> dstatus option"

definition new_status :: dstatus where
  "new_status = \<lparr>decoded_ids = [], decoded_str = [], read_offset = 0, surr_offset = 0, sent_offset = 0\<rparr>"

definition discard :: "nat \<Rightarrow> decode_map \<Rightarrow> decode_map" where
  "discard u dm = dm(u := None)"

text \<open>The first loop: append the token and cut out what is to be decoded.\<close>

definition feed :: "int list \<Rightarrow> dmsg \<Rightarrow> decode_map \<Rightarrow> (int list \<times> int list) \<times> decode_map" where
  "feed eos m dm =
     (let s = (case dm (dg_uid m) of None \<Rightarrow> new_status | Some s \<Rightarrow> s);
          s1 = (if dg_finished m \<and> dg_token m \<in> set eos then s
                else s\<lparr>decoded_ids := decoded_ids s @ [dg_token m]\<rparr>) in
      ((drop (surr_offset s1) (decoded_ids s1), drop (surr_offset s1) (take (read_offset s1) (decoded_ids s1))),
       dm(dg_uid m \<mapsto> s1)))"

fun feed_all :: "int list \<Rightarrow> dmsg list \<Rightarrow> decode_map \<Rightarrow> (int list \<times> int list) list \<times> decode_map" where
  "feed_all eos [] dm = ([], dm)"
| "feed_all eos (m # ms) dm =
     (let (ids, dm1) = feed eos m dm; (rest, dm2) = feed_all eos ms dm1 in (ids # rest, dm2))"

text \<open>The second loop: the new text, how much of the output may be sent, and the new status.\<close>

definition output_of :: "utext \<Rightarrow> utext \<Rightarrow> dstatus \<Rightarrow> utext \<times> dstatus" where
  "output_of read_str surr_str s =
     (let new_text = drop (length surr_str) read_str in
      if new_text \<noteq> [] \<and> last new_text \<noteq> 0xFFFD
      then (decoded_str s @ new_text,
            s\<lparr>decoded_str := decoded_str s @ new_text, surr_offset := read_offset s, read_offset := length (decoded_ids s)\<rparr>)
      else (decoded_str s @ find_printable_text new_text, s))"

definition emit_end :: "dmsg \<Rightarrow> utext \<Rightarrow> nat" where
  "emit_end m outp =
     (if dg_finished m then
        (case dg_matched_stop m of
           Some stop \<Rightarrow> if stop = [] then length outp
                        else (case find_sub stop outp of Some c \<Rightarrow> c | None \<Rightarrow> length outp)
         | None \<Rightarrow> length outp)
      else case dg_stop_strs m of
        Some stops \<Rightarrow> length outp - stop_prefix_holdback outp stops
      | None \<Rightarrow> length outp)"

definition emit :: "(int list \<Rightarrow> utext) \<Rightarrow> dmsg \<Rightarrow> int list \<times> int list \<Rightarrow> decode_map \<Rightarrow> (utext \<times> decode_map) result" where
  "emit decode m ids dm =
     (case dm (dg_uid m) of
        None \<Rightarrow> Inl KeyError
      | Some s \<Rightarrow>
          let (outp, s1) = output_of (decode (fst ids)) (decode (snd ids)) s;
              prev = sent_offset s1; e = emit_end m outp;
              out = (if prev < e then drop prev (take e outp) else []) in
          Inr (out, dm(dg_uid m := (if dg_finished m then None else Some (s1\<lparr>sent_offset := max prev e\<rparr>)))))"

fun emit_all :: "(int list \<Rightarrow> utext) \<Rightarrow> (dmsg \<times> int list \<times> int list) list \<Rightarrow> decode_map \<Rightarrow> (utext list \<times> decode_map) result" where
  "emit_all decode [] dm = Inr ([], dm)"
| "emit_all decode ((m, ids) # rest) dm =
     rbind (emit decode m ids dm) (\<lambda>(out, dm1). rbind (emit_all decode rest dm1) (\<lambda>(outs, dm2). Inr (out # outs, dm2)))"

definition detokenize :: "(int list \<Rightarrow> utext) \<Rightarrow> int list \<Rightarrow> dmsg list \<Rightarrow> decode_map \<Rightarrow> (utext list \<times> decode_map) result" where
  "detokenize decode eos msgs dm = (let (ids, dm1) = feed_all eos msgs dm in emit_all decode (zip msgs ids) dm1)"

section \<open>Held-back text\<close>

lemma stop_hold_longest:
  assumes "i < length stop" and "0 < i" and "suffix (take i stop) t"
  shows "i \<le> stop_hold t stop"
proof -
  have "i \<le> length t" using assms suffix_length_le [OF assms(3)] by simp
  let ?xs = "[1..<Suc (min (length stop - 1) (length t))]"
  have mem: "i \<in> set ?xs" using assms(1,2) \<open>i \<le> length t\<close> by auto
  have *: "i \<le> (case find P (rev [1..<Suc n]) of Some j \<Rightarrow> j | None \<Rightarrow> 0)" if "1 \<le> i" "i \<le> n" "P i" for P n
    using that(2)
  proof (induction n)
    case (Suc n)
    have "rev [1..<Suc (Suc n)] = Suc n # rev [1..<Suc n]" by simp
    moreover have "i = Suc n \<or> i \<le> n" using Suc.prems by linarith
    ultimately show ?case using Suc.IH that(3) by (auto simp del: upt_Suc split: if_splits)
  qed (use that(1) in simp)
  show ?thesis unfolding stop_hold_def by (rule *) (use mem assms(3) in auto)
qed

lemma holdback_ge: "stop \<in> set stops \<Longrightarrow> stop_hold t stop \<le> stop_prefix_holdback t stops"
proof -
  let ?f = "\<lambda>stop hold. max hold (stop_hold t stop)"
  have mono: "h \<le> fold ?f xs h" for h xs
    by (induction xs arbitrary: h) (auto intro: order_trans [OF max.cobounded1])
  have "stop \<in> set xs \<Longrightarrow> stop_hold t stop \<le> fold ?f xs h" for h xs
  proof (induction xs arbitrary: h)
    case (Cons s xs)
    then show ?case using mono [of "max h (stop_hold t s)" xs] by auto
  qed simp
  then show "stop \<in> set stops \<Longrightarrow> ?thesis" by (simp add: stop_prefix_holdback_def)
qed

lemma emit_unfinished_safe:
  assumes "\<not> dg_finished m" and "dg_stop_strs m = (if stops = [] then None else Some stops)" and "stop \<in> set stops"
    and "p < emit_end m t" and "prefix (drop p t) stop"
  shows "length stop \<le> length (drop p t)"
proof (rule ccontr)
  assume "\<not> length stop \<le> length (drop p t)"
  then have lt: "length (drop p t) < length stop" by simp
  have e: "emit_end m t = length t - stop_prefix_holdback t stops"
    using assms(1,2,3) by (auto simp: emit_end_def)
  have "take (length (drop p t)) stop = drop p t" using assms(5) by (auto simp: prefix_def)
  then have "length (drop p t) \<le> stop_hold t stop"
    using lt assms(4) e by (intro stop_hold_longest) (auto simp: suffix_drop)
  then show False using holdback_ge [OF assms(3), of t] assms(4) e by simp
qed

section \<open>A stream\<close>

text \<open>The state of a stream after the tokens \<open>ids\<close>, with \<open>sent\<close> what was sent: the decoded part is the text of the tokens
  read, the window begins where the text was whole and holds some text, and no stop string can begin in what was sent and
  still be growing.\<close>

definition window_ok :: "(int list \<Rightarrow> utext) \<Rightarrow> int list \<Rightarrow> dstatus \<Rightarrow> bool" where
  "window_ok decode ids s \<longleftrightarrow>
     decoded_ids s = ids \<and> surr_offset s \<le> read_offset s \<and> read_offset s \<le> length ids \<and>
     decoded_str s = decode (take (read_offset s) ids) \<and>
     steady (decode (take (surr_offset s) ids)) \<and> steady (decode (take (read_offset s) ids)) \<and>
     (surr_offset s = 0 \<or> decode (take (read_offset s) ids) \<noteq> decode (take (surr_offset s) ids))"

definition stream_ok :: "(int list \<Rightarrow> utext) \<Rightarrow> utext list \<Rightarrow> int list \<Rightarrow> utext \<Rightarrow> dstatus \<Rightarrow> bool" where
  "stream_ok decode stops ids sent s \<longleftrightarrow>
     window_ok decode ids s \<and> sent_offset s = length sent \<and> prefix sent (whole (decode ids)) \<and>
     (\<forall>stop \<in> set stops. \<forall>p < length sent. prefix (drop p (whole (decode ids))) stop \<longrightarrow>
        length stop \<le> length (drop p (whole (decode ids))))"

lemma printable_prefix: "prefix (find_printable_text t) t"
proof -
  have "suffix (dropWhile (\<lambda>c. c \<noteq> 32) (rev t)) (rev t)" by (rule suffix_dropWhile)
  then have "prefix (upto_last_space t) t" by (simp add: upto_last_space_def suffix_to_prefix)
  moreover have "upto_last_space [] = []" by (simp add: upto_last_space_def)
  ultimately show ?thesis by (auto simp: find_printable_text_def butlast_conv_take take_is_prefix)
qed

text \<open>What is shown of a text that breaks off inside a character is whole.\<close>

lemma upto_last_space_steady: "steady (upto_last_space t)"
proof (cases "dropWhile (\<lambda>c. c \<noteq> 32) (rev t)")
  case (Cons c cs)
  then have "c = 32" using hd_dropWhile [of "\<lambda>c. c \<noteq> 32" "rev t"] by simp
  then show ?thesis by (simp add: steady_def upto_last_space_def Cons)
qed (simp add: steady_def upto_last_space_def)

lemma not_chinese_replacement: "\<not> is_chinese_char replacement"
  by (simp add: is_chinese_char_def)

lemma printable_steady:
  assumes "t = [] \<or> last t = replacement"
  shows "steady (find_printable_text t)"
proof (cases "1 < length t \<and> is_chinese_char (t ! (length t - 2))")
  case True
  then have len: "1 < length t" by simp
  then obtain u d where u: "t = u @ [d]" by (cases t rule: rev_cases) simp_all
  then obtain t' c where "u = t' @ [c]" using len by (cases u rule: rev_cases) simp_all
  then have t: "t = t' @ [c, d]" using u by simp
  have "is_chinese_char c" using conjunct2 [OF True] by (simp add: t nth_append)
  then have "c \<noteq> replacement" by (auto simp: is_chinese_char_def)
  moreover have "find_printable_text t = t' @ [c]"
    using assms \<open>is_chinese_char c\<close> unfolding t find_printable_text_def
    by (simp add: butlast_append nth_append not_chinese_replacement del: One_nat_def)
  ultimately show ?thesis by (simp add: steady_def)
next
  case False
  then have "find_printable_text t = t \<and> t = [] \<or> find_printable_text t = upto_last_space t"
    using assms not_chinese_replacement unfolding find_printable_text_def by force
  then show ?thesis using upto_last_space_steady [of t] by (auto simp: steady_def)
qed

text \<open>The output of a step is made of whole characters of the text so far, and is all of it unless the text breaks off inside
  a character.\<close>

context incremental_decoder
begin

lemma output_of_stream:
  assumes ok: "window_ok decode ids s"
    and out: "output_of (decode (drop (surr_offset s) ids)) (decode (drop (surr_offset s) (take (read_offset s) ids))) s = (outp, s')"
  shows "prefix outp (whole (decode ids)) \<and> window_ok decode ids s' \<and> sent_offset s' = sent_offset s \<and>
    (steady (decode ids) \<longrightarrow> outp = decode ids)"
proof -
  let ?a = "take (surr_offset s) ids" and ?r = "take (read_offset s) ids" and ?c = "drop (read_offset s) ids"
  let ?b = "drop (surr_offset s) ?r"
  note o = ok [unfolded window_ok_def]
  have ab: "?a @ ?b = ?r" using o by (metis append_take_drop_id min.absorb1 take_take)
  have bc: "?b @ ?c = drop (surr_offset s) ids" using o by (metis append_take_drop_id drop_append diff_is_0_eq drop0 length_take min.absorb2)
  define new where "new = drop (length (decode ?b)) (decode (drop (surr_offset s) ids))"
  have "decode (?a @ ?b @ ?c) = decode (?a @ ?b) @ new"
    unfolding new_def bc [symmetric] by (rule decode_window) (use o ab in auto)
  then have all: "decode ids = decode ?r @ new" unfolding ab bc by simp
  show ?thesis
  proof (cases "new \<noteq> [] \<and> last new \<noteq> replacement")
    case True
    then have "steady (decode ids)" by (simp add: all steady_def)
    then show ?thesis using out o all True by (auto simp: output_of_def new_def [symmetric] window_ok_def whole_steady)
  next
    case False
    have s': "outp = decode ?r @ find_printable_text new" "s' = s" using out o False by (auto simp: output_of_def new_def [symmetric])
    have "steady (find_printable_text new)" using False by (intro printable_steady) simp
    then have "steady outp" unfolding s'(1) using o by (intro steady_append) simp_all
    moreover have "prefix outp (decode ids)" unfolding s' all using printable_prefix by simp
    ultimately have "prefix outp (whole (decode ids))" by (intro prefix_whole)
    moreover have "outp = decode ids" if "steady (decode ids)"
    proof -
      have "new = []" using that False unfolding all steady_def by (cases "new = []") simp_all
      then show ?thesis using all printable_prefix [of new] by (simp add: s')
    qed
    ultimately show ?thesis using ok s'(2) by simp
  qed
qed

end

lemma detokenize_one:
  "detokenize decode eos [m] dm =
     (let (ids, dm1) = feed eos m dm in rbind (emit decode m ids dm1) (\<lambda>(out, dm2). Inr ([out], dm2)))"
  by (simp add: detokenize_def case_prod_unfold Let_def)

text \<open>Nothing sent has to be taken back: the first occurrence of a stop string that the last token
  completes begins after what was sent.\<close>

lemma sent_before_stop:
  assumes ok: "stream_ok decode stops ids sent s" and st: "stop \<in> set stops"
    and F: "prefix (whole (decode ids)) F" and none: "find_sub stop (decode ids) = None" and c: "find_sub stop F = Some c"
  shows "length sent \<le> c"
proof (rule ccontr)
  let ?D = "whole (decode ids)"
  assume "\<not> length sent \<le> c"
  then have lt: "c < length sent" by simp
  have sentD: "length sent \<le> length ?D" using ok prefix_length_le by (auto simp: stream_ok_def)
  have pre: "prefix stop (drop c F)" using find_sub_Some [OF c] by simp
  have dD: "prefix (drop c ?D) (drop c F)" using F lt sentD by (auto simp: prefix_def)
  show False
  proof (cases "length stop \<le> length (drop c ?D)")
    case True
    then have "prefix stop (drop c ?D)" using pre dD prefix_length_prefix by blast
    moreover have "prefix (drop c ?D) (drop c (decode ids))"
    proof -
      obtain z where "decode ids = ?D @ z" using whole_prefix [of "decode ids"] by (auto elim: prefixE)
      then show ?thesis by (metis drop_append prefixI)
    qed
    moreover have "c \<le> length (decode ids)" using whole_prefix [of "decode ids"] prefix_length_le lt sentD by fastforce
    ultimately show False using find_sub_None [OF none, of c] prefix_order.trans by blast
  next
    case False
    then have "prefix (drop c ?D) stop" using pre dD prefix_length_prefix by (metis nat_le_linear)
    then have "length stop \<le> length (drop c ?D)" using ok st lt by (auto simp: stream_ok_def)
    then show False using False by simp
  qed
qed

definition final_text :: "utext option \<Rightarrow> utext \<Rightarrow> utext" where
  "final_text matched F =
     (case matched of
        None \<Rightarrow> F
      | Some stop \<Rightarrow> (case find_sub stop F of Some c \<Rightarrow> take c F | None \<Rightarrow> F))"

context incremental_decoder
begin

text \<open>One step of a stream that goes on.\<close>

lemma stream_step:
  assumes ok: "stream_ok decode stops ids sent s"
    and dm: "(case dm (dg_uid m) of None \<Rightarrow> new_status | Some s \<Rightarrow> s) = s"
    and m: "\<not> dg_finished m" "dg_stop_strs m = (if stops = [] then None else Some stops)"
  shows "\<exists>out s'. detokenize decode eos [m] dm = Inr ([out], dm(dg_uid m \<mapsto> s')) \<and>
    stream_ok decode stops (ids @ [dg_token m]) (sent @ out) s'"
proof -
  let ?ids = "ids @ [dg_token m]"
  let ?s1 = "s\<lparr>decoded_ids := ?ids\<rparr>" and ?D = "whole (decode (ids @ [dg_token m]))"
  note o = ok [unfolded stream_ok_def window_ok_def]
  have feed: "feed eos m dm =
      ((drop (surr_offset s) ?ids, drop (surr_offset s) (take (read_offset s) ?ids)), dm(dg_uid m \<mapsto> ?s1))"
    using dm m o by (simp add: feed_def)
  have w1: "window_ok decode ?ids ?s1" using o by (simp add: window_ok_def)
  obtain outp s2 where out: "output_of (decode (drop (surr_offset s) ?ids))
      (decode (drop (surr_offset s) (take (read_offset s) ?ids))) ?s1 = (outp, s2)" by fastforce
  have f: "prefix outp ?D" "window_ok decode ?ids s2" "sent_offset s2 = length sent"
    using output_of_stream [OF w1, of outp s2] out o by auto
  let ?e = "emit_end m outp"
  let ?out = "if length sent < ?e then drop (length sent) (take ?e outp) else []"
  let ?s' = "s2\<lparr>sent_offset := max (length sent) ?e\<rparr>"
  have det: "detokenize decode eos [m] dm = Inr ([?out], dm(dg_uid m \<mapsto> ?s'))"
    using m out f(3) by (simp add: detokenize_one feed emit_def Let_def)
  have wg: "prefix (whole (decode ids)) ?D" by (rule whole_grows)
  have grow: "prefix sent ?D" using o wg prefix_order.trans by blast
  have e_le: "?e \<le> length outp" using m by (simp add: emit_end_def)
  have sent': "sent @ ?out = take (max (length sent) ?e) ?D"
  proof (cases "length sent < ?e")
    case True
    have "take ?e outp = take ?e ?D" using f(1) e_le by (auto simp: prefix_def)
    moreover have "sent = take (length sent) ?D" using grow by (auto simp: prefix_def)
    moreover have "take (length sent) ?D @ drop (length sent) (take ?e ?D) = take ?e ?D"
      using True by (metis append_take_drop_id less_imp_le min.absorb1 take_take)
    ultimately show ?thesis using True by (simp add: max_def)
  next
    case False
    then show ?thesis using grow by (auto simp: prefix_def max_def)
  qed
  have safe: "length stop \<le> length (drop p ?D)"
    if st: "stop \<in> set stops" and p: "p < max (length sent) ?e" and pre: "prefix (drop p ?D) stop" for stop p
  proof (cases "p < length sent")
    case True
    have "length sent \<le> length (whole (decode ids))" using o prefix_length_le by blast
    then have d: "prefix (drop p (whole (decode ids))) (drop p ?D)" using wg True by (auto simp: prefix_def)
    then have "prefix (drop p (whole (decode ids))) stop" using pre prefix_order.trans by blast
    then have "length stop \<le> length (drop p (whole (decode ids)))" using o st True by blast
    then show ?thesis using prefix_length_le [OF d] by simp
  next
    case False
    then have p': "p < ?e" using p by simp
    have "prefix (drop p outp) (drop p ?D)" using f(1) p' e_le by (auto simp: prefix_def)
    then have "prefix (drop p outp) stop" using pre prefix_order.trans by blast
    then have "length stop \<le> length (drop p outp)" using emit_unfinished_safe [OF m st p'] by blast
    then show ?thesis using f(1) prefix_length_le by fastforce
  qed
  have len: "length (sent @ ?out) = max (length sent) ?e"
    using sent' f(1) e_le grow prefix_length_le by (metis (no_types, lifting) length_take max.bounded_iff min.absorb2 order_trans)
  have "stream_ok decode stops ?ids (sent @ ?out) ?s'"
    unfolding stream_ok_def len using f(2) safe sent' by (auto simp: take_is_prefix window_ok_def)
  then show ?thesis using det by blast
qed

lemma stream_end:
  assumes ok: "stream_ok decode stops ids sent s"
    and dm: "(case dm (dg_uid m) of None \<Rightarrow> new_status | Some s \<Rightarrow> s) = s"
    and m: "dg_finished m" and ids': "ids' = ids @ (if dg_token m \<in> set eos then [] else [dg_token m])"
    and st: "steady (decode ids')"
    and stop: "\<And>stop. dg_matched_stop m = Some stop \<Longrightarrow> stop \<in> set stops \<and> find_sub stop (decode ids) = None"
  shows "\<exists>out. detokenize decode eos [m] dm = Inr ([out], dm(dg_uid m := None)) \<and>
    sent @ out = final_text (dg_matched_stop m) (decode ids')"
proof -
  let ?s1 = "s\<lparr>decoded_ids := ids'\<rparr>" and ?F = "decode ids'"
  note o = ok [unfolded stream_ok_def window_ok_def]
  have feed: "feed eos m dm =
      ((drop (surr_offset s) ids', drop (surr_offset s) (take (read_offset s) ids')), dm(dg_uid m \<mapsto> ?s1))"
    using dm m o ids' by (auto simp: feed_def)
  have w1: "window_ok decode ids' ?s1" using o ids' by (simp add: window_ok_def)
  obtain outp s2 where out: "output_of (decode (drop (surr_offset s) ids'))
      (decode (drop (surr_offset s) (take (read_offset s) ids'))) ?s1 = (outp, s2)" by fastforce
  have f: "outp = ?F" "sent_offset s2 = length sent"
    using output_of_stream [OF w1, of outp s2] out o st by auto
  have F: "prefix (whole (decode ids)) ?F" unfolding ids' by (rule decode_prefix)
  then have grow: "prefix sent ?F" using o prefix_order.trans by blast
  let ?e = "emit_end m ?F"
  have fin: "final_text (dg_matched_stop m) ?F = take ?e ?F" and le: "length sent \<le> ?e"
  proof -
    have "final_text (dg_matched_stop m) ?F = take ?e ?F \<and> length sent \<le> ?e"
    proof (cases "dg_matched_stop m")
      case None
      then show ?thesis using m prefix_length_le [OF grow] by (simp add: final_text_def emit_end_def)
    next
      case (Some stop)
      have "stop \<noteq> []" using find_sub_None [of stop "decode ids" 0] stop [OF Some] by auto
      then show ?thesis
        using Some m prefix_length_le [OF grow] sent_before_stop [OF ok _ F] stop [OF Some]
        by (auto simp: final_text_def emit_end_def split: option.splits)
    qed
    then show "final_text (dg_matched_stop m) ?F = take ?e ?F" and "length sent \<le> ?e" by blast+
  qed
  have "sent = take (length sent) ?F" using grow by (auto simp: prefix_def)
  then have "sent @ (if length sent < ?e then drop (length sent) (take ?e ?F) else []) = take ?e ?F"
  proof (cases "length sent < ?e")
    case True
    have "take (length sent) (take ?e ?F) = sent" using True \<open>sent = _\<close> by simp
    then show ?thesis using True append_take_drop_id [of "length sent" "take ?e ?F"] by simp
  next
    case False
    then show ?thesis using le \<open>sent = _\<close> by simp
  qed
  then show ?thesis using m out f fin by (simp add: detokenize_one feed emit_def Let_def split: if_splits)
qed

end

text \<open>A stream is a sequence of calls with one message each.\<close>

fun detok_run :: "(int list \<Rightarrow> utext) \<Rightarrow> int list \<Rightarrow> dmsg list \<Rightarrow> decode_map \<Rightarrow> (utext list \<times> decode_map) result" where
  "detok_run decode eos [] dm = Inr ([], dm)"
| "detok_run decode eos (m # ms) dm =
     rbind (detokenize decode eos [m] dm) (\<lambda>(out, dm1). rbind (detok_run decode eos ms dm1) (\<lambda>(outs, dm2). Inr (out @ outs, dm2)))"

context incremental_decoder
begin

lemma run_stream:
  assumes fin: "dg_finished fin" "dg_uid fin = u"
  shows "stream_ok decode stops ids sent s \<Longrightarrow> (case dm u of None \<Rightarrow> new_status | Some s \<Rightarrow> s) = s \<Longrightarrow>
    \<forall>m \<in> set ms. dg_uid m = u \<and> \<not> dg_finished m \<and> dg_stop_strs m = (if stops = [] then None else Some stops) \<Longrightarrow>
    before = ids @ map dg_token ms \<Longrightarrow>
    ids' = before @ (if dg_token fin \<in> set eos then [] else [dg_token fin]) \<Longrightarrow>
    steady (decode ids') \<Longrightarrow>
    (\<And>stop. dg_matched_stop fin = Some stop \<Longrightarrow> stop \<in> set stops \<and> find_sub stop (decode before) = None) \<Longrightarrow>
    \<exists>outs. detok_run decode eos (ms @ [fin]) dm = Inr (outs, dm(u := None)) \<and>
      sent @ concat outs = final_text (dg_matched_stop fin) (decode ids')"
proof (induction ms arbitrary: ids sent s dm)
  case Nil
  have "\<exists>out. detokenize decode eos [fin] dm = Inr ([out], dm(dg_uid fin := None)) \<and>
      sent @ out = final_text (dg_matched_stop fin) (decode ids')"
    by (rule stream_end [OF Nil.prems(1) _ fin(1)]) (use Nil.prems fin in auto)
  then show ?case using fin by (auto simp: fun_upd_def)
next
  case (Cons m ms)
  have m: "dg_uid m = u" "\<not> dg_finished m" "dg_stop_strs m = (if stops = [] then None else Some stops)"
    using Cons.prems(3) by auto
  obtain out s' where step: "detokenize decode eos [m] dm = Inr ([out], dm(u \<mapsto> s'))"
    and ok': "stream_ok decode stops (ids @ [dg_token m]) (sent @ out) s'"
    using stream_step [OF Cons.prems(1), of dm m eos] Cons.prems(2) m by auto
  have "\<exists>outs. detok_run decode eos (ms @ [fin]) (dm(u \<mapsto> s')) = Inr (outs, (dm(u \<mapsto> s'))(u := None)) \<and>
      (sent @ out) @ concat outs = final_text (dg_matched_stop fin) (decode ids')"
    by (rule Cons.IH [OF ok']) (use Cons.prems in auto)
  then show ?case using step by (auto simp: fun_upd_def fun_eq_iff)
qed

lemma stream_exact:
  assumes "dm u = None"
    and "\<forall>m \<in> set ms. dg_uid m = u \<and> \<not> dg_finished m \<and> dg_stop_strs m = (if stops = [] then None else Some stops)"
    and "dg_uid fin = u" and "dg_finished fin"
    and "ids = map dg_token ms @ (if dg_token fin \<in> set eos then [] else [dg_token fin])"
    and "steady (decode ids)"
    and "\<And>stop. dg_matched_stop fin = Some stop \<Longrightarrow>
      stop \<in> set stops \<and> find_sub stop (decode (map dg_token ms)) = None"
  shows "\<exists>outs. detok_run decode eos (ms @ [fin]) dm = Inr (outs, dm) \<and>
    concat outs = final_text (dg_matched_stop fin) (decode ids)"
proof -
  have ok: "stream_ok decode stops [] [] new_status"
    using decode_Nil by (simp add: stream_ok_def window_ok_def new_status_def steady_def)
  have "\<exists>outs. detok_run decode eos (ms @ [fin]) dm = Inr (outs, dm(u := None)) \<and>
      [] @ concat outs = final_text (dg_matched_stop fin) (decode ids)"
    by (rule run_stream [OF assms(4,3) ok, where before = "map dg_token ms"]) (use assms in auto)
  moreover have "dm(u := None) = dm" using assms(1) by auto
  ultimately show ?thesis by simp
qed

end

text \<open>C6. The detokenizer streams exactly the final text, for the decoder of a byte-level tokenizer: the text of a sequence of
  tokens is the UTF-8 text of their bytes, which split characters anywhere, with U+FFFD for what is no character, and
  possibly without one leading space; decoders that change the text otherwise (such as
  \<open>clean_up_tokenization_spaces\<close>) are excluded. The pieces sent for a request, put together, are the text of all its tokens, cut before the
  first occurrence of the stop string that ended it, when that text does not break off inside a character. No piece
  ever shows a part of that stop string or of a character, and the state of the request is dropped at the end.\<close>

theorem detokenize_streams_exactly:
  assumes "\<And>ids. decode ids = byte_text lead tok ids" and "dm u = None"
    and "\<forall>m \<in> set ms. dg_uid m = u \<and> \<not> dg_finished m \<and> dg_stop_strs m = (if stops = [] then None else Some stops)"
    and "dg_uid fin = u" and "dg_finished fin"
    and "ids = map dg_token ms @ (if dg_token fin \<in> set eos then [] else [dg_token fin])"
    and "steady (decode ids)"
    and "\<And>stop. dg_matched_stop fin = Some stop \<Longrightarrow>
      stop \<in> set stops \<and> find_sub stop (decode (map dg_token ms)) = None"
  shows "\<exists>outs. detok_run decode eos (ms @ [fin]) dm = Inr (outs, dm) \<and>
    concat outs = final_text (dg_matched_stop fin) (decode ids)"
proof -
  have d: "decode = byte_text lead tok" using assms(1) by (rule ext)
  show ?thesis unfolding d by (rule byte_decoder.stream_exact [where stops = stops]) (use assms(2-8) in \<open>simp_all add: d\<close>)
qed

text \<open>A concrete run: a word in two bytes that are one character, and a stop string.\<close>

definition demo_bytes :: "int \<Rightarrow> nat list" where
  "demo_bytes i = [nat i]"

lemma detokenize_streams_exactly_witness:
  "\<exists>outs. detok_run (byte_text True demo_bytes) []
     (map (\<lambda>t. \<lparr>dg_uid = 1, dg_token = t, dg_finished = False, dg_matched_stop = None, dg_stop_strs = Some [[98, 99]]\<rparr>)
        [32, 0xC3, 0xA9, 98] @
      [\<lparr>dg_uid = 1, dg_token = 99, dg_finished = True, dg_matched_stop = Some [98, 99], dg_stop_strs = Some [[98, 99]]\<rparr>])
     (\<lambda>_. None) = Inr (outs, \<lambda>_. None) \<and> concat outs = [0xE9]"
proof -
  have b: "byte_text True demo_bytes [32, 0xC3, 0xA9, 98] = [0xE9, 98]"
    "byte_text True demo_bytes [32, 0xC3, 0xA9, 98, 99] = [0xE9, 98, 99]"
    by (simp_all add: byte_text_def demo_bytes_def stripl_def utf8_def utf8_start_def utf8_flush_def)
  have e: "find_sub [98, 99] (byte_text True demo_bytes [32, 0xC3, 0xA9, 98]) = None"
    "steady (byte_text True demo_bytes [32, 0xC3, 0xA9, 98, 99])"
    "final_text (Some [98, 99]) (byte_text True demo_bytes [32, 0xC3, 0xA9, 98, 99]) = [0xE9]"
    unfolding b by (simp_all add: find_sub_code steady_def final_text_def)
  show ?thesis
    using detokenize_streams_exactly [where decode = "byte_text True demo_bytes" and lead = True and tok = demo_bytes
        and dm = "\<lambda>_. None" and u = 1 and stops = "[[98, 99]]"
        and ms = "map (\<lambda>t. \<lparr>dg_uid = 1, dg_token = t, dg_finished = False, dg_matched_stop = None, dg_stop_strs = Some [[98, 99]]\<rparr>)
          [32, 0xC3, 0xA9, 98]"
        and fin = "\<lparr>dg_uid = 1, dg_token = 99, dg_finished = True, dg_matched_stop = Some [98, 99], dg_stop_strs = Some [[98, 99]]\<rparr>"
        and ids = "[32, 0xC3, 0xA9, 98, 99]" and eos = "[]"] e
    by simp
qed

end
