(* ===== verification/Reasoning.thy ===== *)
theory Reasoning
  imports Py_Text
begin

text \<open>
  The reasoning parsers (\<open>server/reasoning_parser.py\<close>) of the \<open>think\<close> families: \<open>BaseReasoningParser\<close>
  with its subclasses, and the MiniMax-M3 parser on top of it. A parser separates the reasoning of a
  completion from its content, in one shot or from the chunks of a stream. The record \<open>think_cfg\<close>
  holds the arguments of the constructor, \<open>think_state\<close> what the stream changes.
\<close>

section \<open>Parsers and results\<close>

record think_cfg =
  think_start :: utext
  think_end :: utext
  tool_start :: "utext option"
  force_reasoning :: bool
  stream_reasoning :: bool

record think_state =
  in_reasoning :: bool
  rp_buffer :: utext
  stripped_start :: bool

record parsed =
  reasoning_text :: utext
  normal_text :: utext

definition nothing :: parsed where
  "nothing = \<lparr>reasoning_text = [], normal_text = []\<rparr>"

definition new_think :: "think_cfg \<Rightarrow> think_state" where
  "new_think c = \<lparr>in_reasoning = force_reasoning c, rp_buffer = [], stripped_start = False\<rparr>"

text \<open>The marker that a truthiness test of \<open>tool_start_token\<close> lets through.\<close>

definition tool_marker :: "think_cfg \<Rightarrow> utext option" where
  "tool_marker c = (case tool_start c of Some tk \<Rightarrow> if tk = [] then None else Some tk | None \<Rightarrow> None)"

definition strip_special_tokens :: "utext \<Rightarrow> utext list \<Rightarrow> utext" where
  "strip_special_tokens t toks = fold (\<lambda>tok t. if tok \<noteq> [] then remove_all tok t else t) toks t"

section \<open>One shot\<close>

definition detect_and_parse :: "think_cfg \<Rightarrow> think_state \<Rightarrow> utext \<Rightarrow> parsed" where
  "detect_and_parse c s t =
     (if \<not> (in_reasoning s \<or> contains (think_start c) t) then \<lparr>reasoning_text = [], normal_text = t\<rparr>
      else
        let processed = strip (remove_all (think_start c) t) in
        case partition (think_end c) processed of
          (reasoning, True, rest) \<Rightarrow> \<lparr>reasoning_text = reasoning, normal_text = strip rest\<rparr>
        | (_, False, _) \<Rightarrow>
            (case tool_start c of
               None \<Rightarrow> \<lparr>reasoning_text = processed, normal_text = []\<rparr>
             | Some tk \<Rightarrow>
                 (case find_sub tk processed of
                    None \<Rightarrow> \<lparr>reasoning_text = processed, normal_text = []\<rparr>
                  | Some i \<Rightarrow> \<lparr>reasoning_text = strip (take i processed), normal_text = drop i processed\<rparr>)))"

section \<open>Streaming\<close>

definition tool_hold_max :: nat where
  "tool_hold_max = 512"

definition tracked :: "think_cfg \<Rightarrow> think_state \<Rightarrow> utext list" where
  "tracked c s =
     [think_end c] @ (if stripped_start s then [] else [think_start c]) @
     (case tool_marker c of None \<Rightarrow> [] | Some tk \<Rightarrow> [tk])"

definition split_trailing_partial :: "think_cfg \<Rightarrow> think_state \<Rightarrow> utext \<Rightarrow> utext \<times> utext" where
  "split_trailing_partial c s t =
     (let best = longest_hold t (tracked c s) in if best = 0 then (t, []) else (but_last_n best t, last_n best t))"

text \<open>\<open>parse_streaming_increment\<close>: an opening marker, then the closing marker, then a tool marker,
  then the tail that could become one of them.\<close>

definition open_think :: "think_cfg \<Rightarrow> utext \<Rightarrow> think_state \<Rightarrow> utext \<times> think_state" where
  "open_think c cur s =
     (if \<not> stripped_start s \<and> contains (think_start c) cur
      then (remove_first (think_start c) cur, s\<lparr>stripped_start := True, in_reasoning := True\<rparr>)
      else (cur, s))"

definition hold_tool :: "utext \<Rightarrow> nat \<Rightarrow> think_state \<Rightarrow> parsed \<times> think_state" where
  "hold_tool cur i s =
     (if tool_hold_max < length (drop i cur)
      then (\<lparr>reasoning_text = take i cur, normal_text = drop i cur\<rparr>, s\<lparr>rp_buffer := [], in_reasoning := False\<rparr>)
      else (\<lparr>reasoning_text = take i cur, normal_text = []\<rparr>, s\<lparr>rp_buffer := drop i cur\<rparr>))"

definition emit_safe :: "think_cfg \<Rightarrow> utext \<Rightarrow> think_state \<Rightarrow> parsed \<times> think_state" where
  "emit_safe c cur s =
     (let (safe, held) = split_trailing_partial c s cur; s1 = s\<lparr>rp_buffer := held\<rparr> in
      if in_reasoning s \<and> \<not> stream_reasoning c then (nothing, s1\<lparr>rp_buffer := cur\<rparr>)
      else if in_reasoning s then (\<lparr>reasoning_text = safe, normal_text = []\<rparr>, s1)
      else (\<lparr>reasoning_text = [], normal_text = safe\<rparr>, s1))"

definition parse_streaming_increment :: "think_cfg \<Rightarrow> utext \<Rightarrow> think_state \<Rightarrow> parsed \<times> think_state" where
  "parse_streaming_increment c new s =
     (let (cur, s1) = open_think c (rp_buffer s @ new) (s\<lparr>rp_buffer := rp_buffer s @ new\<rparr>) in
      case (if in_reasoning s1 then find_sub (think_end c) cur else None) of
        Some i \<Rightarrow>
          (\<lparr>reasoning_text = rstrip (take i cur), normal_text = drop (i + length (think_end c)) cur\<rparr>,
           s1\<lparr>rp_buffer := [], in_reasoning := False\<rparr>)
      | None \<Rightarrow>
          (case (if in_reasoning s1 then Option.bind (tool_marker c) (\<lambda>tk. find_sub tk cur) else None) of
             Some i \<Rightarrow> hold_tool cur i s1
           | None \<Rightarrow> emit_safe c cur s1))"

definition flush_think :: "think_cfg \<Rightarrow> think_state \<Rightarrow> parsed \<times> think_state" where
  "flush_think c s =
     (let buf = rp_buffer s; s1 = s\<lparr>rp_buffer := []\<rparr> in
      if buf = [] then (nothing, s1)
      else if (case tool_marker c of None \<Rightarrow> False | Some tk \<Rightarrow> prefix tk (lstrip buf))
      then (\<lparr>reasoning_text = [], normal_text = buf\<rparr>, s1\<lparr>in_reasoning := False\<rparr>)
      else if in_reasoning s then (\<lparr>reasoning_text = buf, normal_text = []\<rparr>, s1)
      else (\<lparr>reasoning_text = [], normal_text = buf\<rparr>, s1))"

section \<open>The families\<close>

definition bos_token :: utext where
  "bos_token = asc ''<'' @ [0xFF5C] @ asc ''begin'' @ [0x2581] @ asc ''of'' @ [0x2581] @ asc ''sentence'' @ [0xFF5C] @ asc ''>''"

definition eos_token :: utext where
  "eos_token = asc ''<'' @ [0xFF5C] @ asc ''end'' @ [0x2581] @ asc ''of'' @ [0x2581] @ asc ''sentence'' @ [0xFF5C] @ asc ''>''"

definition think_start_token :: utext where
  "think_start_token = asc ''<think>''"

definition think_end_token :: utext where
  "think_end_token = asc ''</think>''"

definition dsml_token :: utext where
  "dsml_token = [0xFF5C] @ asc ''DSML'' @ [0xFF5C]"

definition dsv4_special_tokens :: "utext list" where
  "dsv4_special_tokens = [bos_token, eos_token, think_start_token, think_end_token]"

definition deepseek_cfg :: "bool \<Rightarrow> bool \<Rightarrow> think_cfg" where
  "deepseek_cfg force strm =
     \<lparr>think_start = think_start_token, think_end = think_end_token, tool_start = Some (asc ''<'' @ dsml_token),
      force_reasoning = force, stream_reasoning = strm\<rparr>"

definition think_family_cfg :: "bool \<Rightarrow> bool \<Rightarrow> think_cfg" where
  "think_family_cfg force strm =
     \<lparr>think_start = think_start_token, think_end = think_end_token, tool_start = None,
      force_reasoning = force, stream_reasoning = strm\<rparr>"

definition gemma_cfg :: "bool \<Rightarrow> bool \<Rightarrow> think_cfg" where
  "gemma_cfg force strm =
     \<lparr>think_start = asc ''<|channel>thought'' @ [10], think_end = asc ''<channel|>'', tool_start = None,
      force_reasoning = force, stream_reasoning = strm\<rparr>"

definition m3_cfg :: "bool \<Rightarrow> bool \<Rightarrow> think_cfg" where
  "m3_cfg force strm =
     \<lparr>think_start = asc ''<mm:think>'', think_end = asc ''</mm:think>'',
      tool_start = Some (asc '']<]minimax[>[<tool_call>''), force_reasoning = force, stream_reasoning = strm\<rparr>"

section \<open>MiniMax-M3\<close>

record m3_state =
  m3_base :: think_state
  leading_closer_pending :: bool
  head_buffer :: utext

definition new_m3 :: "think_cfg \<Rightarrow> m3_state" where
  "new_m3 c = \<lparr>m3_base = new_think c, leading_closer_pending = (\<not> force_reasoning c), head_buffer = []\<rparr>"

text \<open>\<open>detect_and_parse\<close>: the text after an opener, split at the closer or at a tool block; \<open>before\<close>
  is what stays content ahead of it.\<close>

definition m3_detect :: "think_cfg \<Rightarrow> utext \<Rightarrow> parsed" where
  "m3_detect c t =
     (let close = (\<lambda>before body.
            case partition (think_end c) body of
              (reasoning, True, rest) \<Rightarrow> \<lparr>reasoning_text = reasoning, normal_text = before @ rest\<rparr>
            | (_, False, _) \<Rightarrow>
                (case Option.bind (tool_start c) (\<lambda>tk. find_sub tk body) of
                   Some i \<Rightarrow> \<lparr>reasoning_text = take i body, normal_text = before @ drop i body\<rparr>
                 | None \<Rightarrow> \<lparr>reasoning_text = body, normal_text = []\<rparr>)) in
      if force_reasoning c then close [] t
      else if prefix (think_end c) (lstrip t)
      then \<lparr>reasoning_text = [], normal_text = drop (length (think_end c)) (lstrip t)\<rparr>
      else case find_sub (think_start c) t of
             None \<Rightarrow> \<lparr>reasoning_text = [], normal_text = t\<rparr>
           | Some i \<Rightarrow> close (take i t) (drop (i + length (think_start c)) t))"

definition m3_increment :: "think_cfg \<Rightarrow> utext \<Rightarrow> m3_state \<Rightarrow> parsed \<times> m3_state" where
  "m3_increment c new s =
     (if leading_closer_pending s then
        let buf = head_buffer s @ new; head = lstrip buf in
        if prefix (think_end c) head then
          let base = (m3_base s)\<lparr>in_reasoning := False\<rparr>; rest = drop (length (think_end c)) head;
              s1 = s\<lparr>leading_closer_pending := False, head_buffer := [], m3_base := base\<rparr> in
          if rest = [] then (nothing, s1)
          else let (r, b) = parse_streaming_increment c rest base in (r, s1\<lparr>m3_base := b\<rparr>)
        else if head = [] \<or> prefix head (think_end c) then (nothing, s\<lparr>head_buffer := buf\<rparr>)
        else let (r, b) = parse_streaming_increment c buf (m3_base s) in
             (r, s\<lparr>leading_closer_pending := False, head_buffer := [], m3_base := b\<rparr>)
      else let (r, b) = parse_streaming_increment c new (m3_base s) in (r, s\<lparr>m3_base := b\<rparr>))"

definition m3_flush :: "think_cfg \<Rightarrow> m3_state \<Rightarrow> parsed \<times> m3_state" where
  "m3_flush c s =
     (if leading_closer_pending s \<and> head_buffer s \<noteq> [] then
        let (r1, b1) = parse_streaming_increment c (head_buffer s) (m3_base s); (r2, b2) = flush_think c b1 in
        (\<lparr>reasoning_text = reasoning_text r1 @ reasoning_text r2, normal_text = normal_text r1 @ normal_text r2\<rparr>,
         s\<lparr>leading_closer_pending := False, head_buffer := [], m3_base := b2\<rparr>)
      else let (r, b) = flush_think c (m3_base s) in (r, s\<lparr>m3_base := b\<rparr>))"

end
