(* ===== verification/Reasoning_Stream.thy ===== *)
theory Reasoning_Stream
  imports Reasoning
begin

text \<open>
  Streaming a completion through a \<open>think\<close> parser: however the text is cut into chunks, the pieces put
  together are the same split of the text.
\<close>

section \<open>Feeding chunks\<close>

definition plus_parsed :: "parsed \<Rightarrow> parsed \<Rightarrow> parsed" where
  "plus_parsed a b = \<lparr>reasoning_text = reasoning_text a @ reasoning_text b, normal_text = normal_text a @ normal_text b\<rparr>"

fun feed_chunks :: "(utext \<Rightarrow> 's \<Rightarrow> parsed \<times> 's) \<Rightarrow> utext list \<Rightarrow> 's \<Rightarrow> parsed \<times> 's" where
  "feed_chunks step [] s = (nothing, s)"
| "feed_chunks step (x # xs) s =
     (let (a, s1) = step x s; (b, s2) = feed_chunks step xs s1 in (plus_parsed a b, s2))"

definition stream_all :: "(utext \<Rightarrow> 's \<Rightarrow> parsed \<times> 's) \<Rightarrow> ('s \<Rightarrow> parsed \<times> 's) \<Rightarrow> utext list \<Rightarrow> 's \<Rightarrow> parsed" where
  "stream_all step fl xs s = (let (a, s1) = feed_chunks step xs s in plus_parsed a (fst (fl s1)))"

lemma plus_parsed_simps [simp]:
  "reasoning_text (plus_parsed a b) = reasoning_text a @ reasoning_text b"
  "normal_text (plus_parsed a b) = normal_text a @ normal_text b"
  "reasoning_text nothing = []" "normal_text nothing = []"
  by (simp_all add: plus_parsed_def nothing_def)

lemma plus_nothing [simp]: "plus_parsed nothing a = a" "plus_parsed a nothing = a"
  by (cases a; simp add: plus_parsed_def nothing_def)+

lemma plus_parsed_assoc: "plus_parsed (plus_parsed a b) d = plus_parsed a (plus_parsed b d)"
  by (simp add: plus_parsed_def)

section \<open>A marker across chunks\<close>

text \<open>\<open>holds_back mk T b\<close>: no part of a marker at the end of the text reaches back beyond the last \<open>b\<close>
  characters.\<close>

definition holds_back :: "utext \<Rightarrow> utext \<Rightarrow> nat \<Rightarrow> bool" where
  "holds_back mk T b \<longleftrightarrow> (\<forall>p. strict_prefix p mk \<longrightarrow> suffix p T \<longrightarrow> length p \<le> b)"

lemma marker_after:
  assumes no: "\<not> contains mk (R @ B)" and hold: "holds_back mk (R @ B) (length B)" and at: "prefix mk (drop j (R @ B @ x))"
    and j: "j \<le> length (R @ B @ x)" and ne: "mk \<noteq> []"
  shows "length R \<le> j"
proof (rule ccontr)
  assume "\<not> length R \<le> j"
  then have jR: "j < length R" by simp
  let ?T = "R @ B"
  have d: "drop j (R @ B @ x) = drop j ?T @ x" using jR by simp
  show False
  proof (cases "length mk \<le> length (drop j ?T)")
    case True
    then have "prefix mk (drop j ?T)" using at unfolding d by (metis prefix_length_prefix prefixI)
    then have "sublist mk ?T" by (metis sublist_drop prefix_imp_sublist sublist_order.order.trans)
    then show False using no by (simp add: contains_iff)
  next
    case False
    then have "prefix (drop j ?T) mk" using at unfolding d by (metis prefix_length_prefix prefixI nat_le_linear)
    then have "strict_prefix (drop j ?T) mk" using False by (auto simp: strict_prefix_def)
    then have "length (drop j ?T) \<le> length B" using hold suffix_drop unfolding holds_back_def by blast
    then show False using jR by simp
  qed
qed

lemma find_in_buffer:
  assumes no: "\<not> contains mk (R @ B)" and hold: "holds_back mk (R @ B) (length B)" and ne: "mk \<noteq> []"
  shows "find_sub mk (R @ B @ x) = map_option ((+) (length R)) (find_sub mk (B @ x))"
proof (cases "find_sub mk (B @ x)")
  case None
  have "find_sub mk (R @ B @ x) = None"
  proof (rule ccontr)
    assume "find_sub mk (R @ B @ x) \<noteq> None"
    then obtain c where c: "find_sub mk (R @ B @ x) = Some c" by auto
    then have p: "prefix mk (drop c (R @ B @ x))" "c \<le> length (R @ B @ x)" using find_sub_Some by blast+
    then have "length R \<le> c" by (rule marker_after [OF no hold _ _ ne])
    then have "prefix mk (drop (c - length R) (B @ x))" "c - length R \<le> length (B @ x)" using p by auto
    then show False using find_sub_None [OF None] by blast
  qed
  then show ?thesis using None by simp
next
  case (Some i)
  note s = find_sub_split [OF Some]
  have "find_sub mk (R @ B @ x) = Some (length (R @ take i (B @ x)))"
  proof (rule find_sub_eqI)
    show "R @ B @ x = (R @ take i (B @ x)) @ mk @ drop (i + length mk) (B @ x)" using s by (metis append.assoc)
    fix j assume j: "j < length (R @ take i (B @ x))"
    have i: "i \<le> length (B @ x)" using find_sub_Some [OF Some] by blast
    show "\<not> prefix mk (drop j (R @ B @ x))"
    proof
      assume p: "prefix mk (drop j (R @ B @ x))"
      have "length R \<le> j" by (rule marker_after [OF no hold p _ ne]) (use j i in simp)
      then have "prefix mk (drop (j - length R) (B @ x))" using p by simp
      moreover have "j - length R < i" using j \<open>length R \<le> j\<close> by simp
      ultimately show False using find_sub_first [OF Some] by blast
    qed
  qed
  moreover have "length (take i (B @ x)) = i" using find_sub_Some [OF Some] by (simp del: take_append)
  ultimately show ?thesis using Some by (simp del: take_append)
qed

lemma find_sub_append:
  assumes "find_sub mk t = Some i"
  shows "find_sub mk (t @ x) = Some i"
proof -
  note s = find_sub_split [OF assms] and i = find_sub_Some [OF assms]
  have "find_sub mk (t @ x) = Some (length (take i t))"
  proof (rule find_sub_eqI)
    show "t @ x = take i t @ mk @ (drop (i + length mk) t @ x)" using s by (metis append.assoc)
    fix j assume j: "j < length (take i t)"
    show "\<not> prefix mk (drop j (t @ x))"
    proof
      assume p: "prefix mk (drop j (t @ x))"
      have "i + length mk \<le> length t" using arg_cong [OF s, of length] i by simp
      then have "length mk \<le> length (drop j t)" using j by simp
      moreover have "drop j (t @ x) = drop j t @ x" using j i by simp
      ultimately have "prefix mk (drop j t)" using p by (metis prefix_length_prefix prefixI)
      then show False using find_sub_first [OF assms] j by simp
    qed
  qed
  then show ?thesis using i by simp
qed

section \<open>The stream of a parser that starts in reasoning\<close>

definition chunk_inv :: "think_cfg \<Rightarrow> utext \<Rightarrow> parsed \<Rightarrow> think_state \<Rightarrow> bool" where
  "chunk_inv c T out s \<longleftrightarrow> \<not> stripped_start s \<and>
     (case find_sub (think_end c) T of
        None \<Rightarrow> in_reasoning s \<and> normal_text out = [] \<and> reasoning_text out @ rp_buffer s = T \<and>
          holds_back (think_end c) T (length (rp_buffer s))
      | Some i \<Rightarrow> \<not> in_reasoning s \<and> normal_text out @ rp_buffer s = drop (i + length (think_end c)) T \<and>
          (\<exists>ws. reasoning_text out @ ws = take i T \<and> list_all is_space ws))"

lemma sublist_of_buffer: "suffix (B @ x) t \<Longrightarrow> \<not> contains mk t \<Longrightarrow> \<not> contains mk (B @ x)"
  unfolding contains_iff by (metis suffix_imp_sublist sublist_order.order.trans)

lemma split_partial:
  assumes "split_trailing_partial c s t = (safe, held)"
  shows "safe @ held = t" and "tok \<in> set (tracked c s) \<Longrightarrow> strict_prefix p tok \<Longrightarrow> suffix p t \<Longrightarrow> length p \<le> length held"
proof -
  let ?b = "longest_hold t (tracked c s)"
  show "safe @ held = t" using assms by (auto simp: split_trailing_partial_def Let_def split: if_splits)
  have "length held = ?b"
    using assms longest_hold_le [of t "tracked c s"] by (auto simp: split_trailing_partial_def Let_def last_n_def split: if_splits)
  then show "tok \<in> set (tracked c s) \<Longrightarrow> strict_prefix p tok \<Longrightarrow> suffix p t \<Longrightarrow> length p \<le> length held"
    using longest_hold_covers by metis
qed

lemma chunk_step:
  assumes inv: "chunk_inv c T out s" and strm: "stream_reasoning c" and ne: "think_end c \<noteq> []"
    and nostart: "\<not> contains (think_start c) (T @ x)" and notool: "\<And>tk. tool_marker c = Some tk \<Longrightarrow> \<not> contains tk (T @ x)"
    and step: "parse_streaming_increment c x s = (r, s')"
  shows "chunk_inv c (T @ x) (plus_parsed out r) s'"
proof -
  let ?mk = "think_end c" and ?cur = "rp_buffer s @ x"
  have st: "\<not> stripped_start s" using inv by (simp add: chunk_inv_def)
  have suf: "suffix ?cur (T @ x)"
  proof (cases "find_sub ?mk T")
    case None
    then show ?thesis using inv by (auto simp: chunk_inv_def suffix_def)
  next
    case (Some i)
    then have "suffix (rp_buffer s) T" using inv by (auto simp: chunk_inv_def) (metis suffix_drop suffixI suffix_order.trans)
    then show ?thesis by (auto simp: suffix_def)
  qed
  have opn: "open_think c ?cur (s\<lparr>rp_buffer := ?cur\<rparr>) = (?cur, s\<lparr>rp_buffer := ?cur\<rparr>)"
    using sublist_of_buffer [OF suf nostart] by (simp add: open_think_def)
  have tool: "Option.bind (tool_marker c) (\<lambda>tk. find_sub tk ?cur) = None"
    using notool sublist_of_buffer [OF suf] by (cases "tool_marker c") (auto simp: contains_def)
  show ?thesis
  proof (cases "find_sub ?mk T")
    case None
    then have I: "in_reasoning s" "normal_text out = []" "reasoning_text out @ rp_buffer s = T" "holds_back ?mk T (length (rp_buffer s))"
      using inv by (simp_all add: chunk_inv_def)
    have no: "\<not> contains ?mk (reasoning_text out @ rp_buffer s)" using None I(3) by (simp add: contains_def)
    have find: "find_sub ?mk (T @ x) = map_option ((+) (length (reasoning_text out))) (find_sub ?mk ?cur)"
      using find_in_buffer [OF no _ ne, of x] I(3,4) by (metis append.assoc)
    show ?thesis
    proof (cases "find_sub ?mk ?cur")
      case n: None
      obtain safe held where sp: "split_trailing_partial c (s\<lparr>rp_buffer := ?cur\<rparr>) ?cur = (safe, held)" by fastforce
      have rs: "r = \<lparr>reasoning_text = safe, normal_text = []\<rparr>" "s' = s\<lparr>rp_buffer := held\<rparr>"
        using step n I(1) tool strm sp by (auto simp: parse_streaming_increment_def opn emit_safe_def)
      note sh = split_partial [OF sp]
      have whole: "(reasoning_text out @ safe) @ held = T @ x" using sh(1) I(3) by (metis append.assoc)
      have "holds_back ?mk (T @ x) (length held)" unfolding holds_back_def
      proof (intro allI impI)
        fix p assume p: "strict_prefix p ?mk" "suffix p (T @ x)"
        show "length p \<le> length held"
        proof (cases "suffix p ?cur")
          case True
          then show ?thesis using sh(2) [of ?mk p] p by (simp add: tracked_def)
        next
          case False
          then have long: "length ?cur < length p" using p(2) suf by (meson not_le_imp_less suffix_length_suffix)
          then obtain q where q: "p = q @ x" "suffix q T" using p(2)
            by (auto simp: suffix_def append_eq_append_conv2)
          have "strict_prefix q ?mk" using p(1) q(1) by (auto simp: strict_prefix_def prefix_def)
          then have "length q \<le> length (rp_buffer s)" using I(4) q(2) by (simp add: holds_back_def)
          then show ?thesis using long q(1) by simp
        qed
      qed
      then show ?thesis using find n rs I st whole by (simp add: chunk_inv_def)
    next
      case (Some i)
      have rs: "r = \<lparr>reasoning_text = rstrip (take i ?cur), normal_text = drop (i + length ?mk) ?cur\<rparr>"
        "s' = s\<lparr>rp_buffer := [], in_reasoning := False\<rparr>"
        using step Some I(1) by (simp_all add: parse_streaming_increment_def opn)
      let ?ws = "rev (takeWhile is_space (rev (take i ?cur)))"
      have "reasoning_text out @ rstrip (take i ?cur) @ ?ws = take (length (reasoning_text out) + i) (T @ x)"
        using rstrip_split [of "take i ?cur"] I(3) by (metis append.assoc take_add take_append append_eq_conv_conj)
      moreover have "list_all is_space ?ws" by (auto simp: list_all_iff dest: set_takeWhileD)
      moreover have "drop (i + length ?mk) ?cur = drop (length (reasoning_text out) + i + length ?mk) (T @ x)"
        using I(3) by (metis append.assoc append_eq_conv_conj drop_drop add.commute add.left_commute)
      ultimately show ?thesis using find Some rs I st by (auto simp: chunk_inv_def)
    qed
  next
    case (Some i)
    then have I: "\<not> in_reasoning s" "normal_text out @ rp_buffer s = drop (i + length ?mk) T"
      "\<exists>ws. reasoning_text out @ ws = take i T \<and> list_all is_space ws"
      using inv by (simp_all add: chunk_inv_def)
    obtain safe held where sp: "split_trailing_partial c (s\<lparr>rp_buffer := ?cur\<rparr>) ?cur = (safe, held)" by fastforce
    have rs: "r = \<lparr>reasoning_text = [], normal_text = safe\<rparr>" "s' = s\<lparr>rp_buffer := held\<rparr>"
      using step I(1) sp by (auto simp: parse_streaming_increment_def opn emit_safe_def)
    have i: "i + length ?mk \<le> length T" using arg_cong [OF find_sub_split [OF Some], of length] find_sub_Some [OF Some] by simp
    have "(normal_text out @ safe) @ held = drop (i + length ?mk) (T @ x)"
      using split_partial(1) [OF sp] I(2) i by (metis append.assoc drop_append diff_is_0_eq' drop_0)
    then show ?thesis using find_sub_append [OF Some, of x] rs I st i by (simp add: chunk_inv_def)
  qed
qed

lemma chunk_feed:
  assumes "chunk_inv c T out s" and strm: "stream_reasoning c" and ne: "think_end c \<noteq> []"
    and nostart: "\<not> contains (think_start c) (T @ concat xs)"
    and notool: "\<And>tk. tool_marker c = Some tk \<Longrightarrow> \<not> contains tk (T @ concat xs)"
    and run: "feed_chunks (parse_streaming_increment c) xs s = (r, s')"
  shows "chunk_inv c (T @ concat xs) (plus_parsed out r) s'"
  using assms(1,4-6)
proof (induction xs arbitrary: T out s r)
  case Nil
  then show ?case by simp
next
  case (Cons x xs)
  obtain a s1 b where a: "parse_streaming_increment c x s = (a, s1)" and b: "feed_chunks (parse_streaming_increment c) xs s1 = (b, s')"
    and r: "r = plus_parsed a b" using Cons.prems(4) by (auto split: prod.splits)
  have sub: "\<not> contains m (T @ x)" if "\<not> contains m (T @ concat (x # xs))" for m
    using that unfolding contains_iff by (metis append.assoc concat.simps(2) sublist_append_rightI sublist_order.order.trans)
  have "chunk_inv c (T @ x) (plus_parsed out a) s1"
    by (rule chunk_step [OF Cons.prems(1) strm ne sub [OF Cons.prems(2)] sub [OF Cons.prems(3)] a])
  from Cons.IH [OF this _ _ b] Cons.prems(2,3) show ?case by (simp add: r plus_parsed_assoc)
qed

text \<open>C30. A parser that starts inside the reasoning block splits a streamed completion the same way
  however it is cut into chunks: everything after the first closing marker is content, everything before
  it is reasoning, except white space right before the marker, and without a closing marker everything
  is reasoning. The text holds no opening marker and no tool marker.\<close>

theorem think_stream_any_chunks:
  assumes "force_reasoning c" and "stream_reasoning c" and "think_end c \<noteq> []"
    and "\<not> contains (think_start c) (concat chunks)"
    and "\<forall>tk. tool_marker c = Some tk \<longrightarrow> \<not> contains tk (concat chunks)"
  shows "let out = stream_all (parse_streaming_increment c) (flush_think c) chunks (new_think c) in
     case find_sub (think_end c) (concat chunks) of
       None \<Rightarrow> reasoning_text out = concat chunks \<and> normal_text out = []
     | Some i \<Rightarrow> normal_text out = drop (i + length (think_end c)) (concat chunks) \<and>
         (\<exists>ws. reasoning_text out @ ws = take i (concat chunks) \<and> list_all is_space ws)"
proof -
  let ?T = "concat chunks"
  obtain r s where run: "feed_chunks (parse_streaming_increment c) chunks (new_think c) = (r, s)" by fastforce
  have "find_sub (think_end c) [] = None" using assms(3) by (simp add: find_sub_def)
  then have "chunk_inv c [] nothing (new_think c)"
    using assms(1) by (simp add: chunk_inv_def new_think_def holds_back_def)
  from chunk_feed [OF this assms(2,3) _ _ run] assms(4,5)
  have inv: "chunk_inv c ?T r s" by simp
  let ?buf = "rp_buffer s"
  have suf: "suffix ?buf ?T"
  proof (cases "find_sub (think_end c) ?T")
    case None
    then have "reasoning_text r @ ?buf = ?T" using inv by (simp add: chunk_inv_def)
    then show ?thesis by (rule suffixI [OF sym])
  next
    case (Some i)
    then show ?thesis using inv by (auto simp: chunk_inv_def) (metis suffix_drop suffixI suffix_order.trans)
  qed
  have "\<not> prefix tk (lstrip ?buf)" if "tool_marker c = Some tk" for tk
  proof
    assume "prefix tk (lstrip ?buf)"
    then have "sublist tk ?buf" unfolding lstrip_def by (metis prefix_imp_sublist sublist_dropWhile sublist_order.order.trans)
    then have "sublist tk ?T" using suf by (metis suffix_imp_sublist sublist_order.order.trans)
    then show False using assms(5) that by (simp add: contains_iff)
  qed
  then have fl: "fst (flush_think c s) = (if in_reasoning s then \<lparr>reasoning_text = ?buf, normal_text = []\<rparr>
      else \<lparr>reasoning_text = [], normal_text = ?buf\<rparr>)"
    by (auto simp: flush_think_def Let_def nothing_def split: option.splits)
  show ?thesis
  proof (cases "find_sub (think_end c) ?T")
    case None
    then show ?thesis using inv fl run by (simp add: stream_all_def chunk_inv_def Let_def)
  next
    case (Some i)
    then show ?thesis using inv fl run by (simp add: stream_all_def chunk_inv_def Let_def)
  qed
qed

lemma think_stream_any_chunks_witness:
  "let out = stream_all (parse_streaming_increment (think_family_cfg True True)) (flush_think (think_family_cfg True True))
        [asc ''Yes.<'', asc ''/thi'', asc ''nk>Hi'', asc ''!''] (new_think (think_family_cfg True True)) in
   normal_text out = asc ''Hi!'' \<and> (\<exists>ws. reasoning_text out @ ws = asc ''Yes.'' \<and> list_all is_space ws)"
proof -
  let ?c = "think_family_cfg True True" and ?x = "[asc ''Yes.<'', asc ''/thi'', asc ''nk>Hi'', asc ''!'']"
  have "find_sub (think_end ?c) (concat ?x) = Some 4" by code_simp
  moreover have "drop (4 + length (think_end ?c)) (concat ?x) = asc ''Hi!''" by code_simp
  moreover have "take 4 (concat ?x) = asc ''Yes.''" "think_end ?c \<noteq> []" by code_simp+
  moreover have "\<not> contains (think_start ?c) (concat ?x)" by code_simp
  moreover have "force_reasoning ?c" "stream_reasoning ?c" "tool_marker ?c = None"
    by (simp_all add: think_family_cfg_def tool_marker_def)
  ultimately show ?thesis using think_stream_any_chunks [of ?c ?x] by (simp add: Let_def)
qed

end
