(* ===== verification/Harmony.thy ===== *)
theory Harmony
  imports Reasoning
begin

text \<open>
  The Harmony reasoning parser (\<open>GptOssHarmonyReasoningParser\<close> in \<open>server/reasoning_parser.py\<close>): a scan
  of the channel segments of the text so far, with the counts of characters already emitted.
\<close>

section \<open>Control tokens\<close>

definition harmony_channel :: utext where "harmony_channel = asc ''<|channel|>''"
definition harmony_message :: utext where "harmony_message = asc ''<|message|>''"

definition harmony_closing :: "utext list" where
  "harmony_closing = [asc ''<|end|>'', asc ''<|return|>'', asc ''<|call|>'']"

definition harmony_boundary :: "utext list" where
  "harmony_boundary = [asc ''<|end|>'', asc ''<|return|>'', asc ''<|call|>'', asc ''<|start|>'', asc ''<|channel|>'']"

definition harmony_tokens :: "utext list" where
  "harmony_tokens = [harmony_channel, harmony_message] @ harmony_boundary"

definition harmony_partial_suffix :: "utext \<Rightarrow> nat" where
  "harmony_partial_suffix t = longest_hold t harmony_tokens"

section \<open>The scan\<close>

text \<open>\<open>text[i:j]\<close>\<close>

definition text_slice :: "nat \<Rightarrow> nat \<Rightarrow> 'a list \<Rightarrow> 'a list" where
  "text_slice i j xs = drop i (take j xs)"

text \<open>\<open>_segment_end\<close>: the earliest boundary token from \<open>start\<close> on, the first of the table at a tie.\<close>

definition sooner :: "utext \<Rightarrow> nat \<Rightarrow> utext \<Rightarrow> (nat \<times> utext) option \<Rightarrow> (nat \<times> utext) option" where
  "sooner t start tok best =
     (case find_from tok start t of
        None \<Rightarrow> best
      | Some pos \<Rightarrow> if (case best of None \<Rightarrow> True | Some (p, _) \<Rightarrow> pos < p) then Some (pos, tok) else best)"

definition segment_end :: "utext \<Rightarrow> nat \<Rightarrow> nat \<times> utext option" where
  "segment_end t start =
     (case fold (sooner t start) harmony_boundary None of
        None \<Rightarrow> (length t, None)
      | Some (p, tok) \<Rightarrow> (p, Some tok))"

lemma sooner_bound:
  assumes "\<And>p k. best = Some (p, k) \<Longrightarrow> start \<le> p \<and> p + length k \<le> length t \<and> k \<in> K" and "tok \<in> K"
    and "sooner t start tok best = Some (p, k)"
  shows "start \<le> p \<and> p + length k \<le> length t \<and> k \<in> K"
  using assms find_from_ge [of tok start t] by (auto simp: sooner_def split: option.splits if_splits)

lemma sooner_fold_bound:
  assumes "fold (sooner t start) toks best = Some (p, k)"
    and "\<And>p k. best = Some (p, k) \<Longrightarrow> start \<le> p \<and> p + length k \<le> length t \<and> k \<in> K" and "set toks \<subseteq> K"
  shows "start \<le> p \<and> p + length k \<le> length t \<and> k \<in> K"
  using assms
proof (induction toks arbitrary: best)
  case (Cons a toks)
  have "start \<le> q \<and> q + length l \<le> length t \<and> l \<in> K" if "sooner t start a best = Some (q, l)" for q l
    using sooner_bound [of best start t K a q l] Cons.prems(2,3) that by simp
  with Cons.IH [of "sooner t start a best"] Cons.prems show ?case by simp
qed simp

lemma segment_end_bound:
  "segment_end t start = (p, Some k) \<Longrightarrow> start \<le> p \<and> p + length k \<le> length t \<and> k \<in> set harmony_boundary"
  unfolding segment_end_def
  using sooner_fold_bound [of t start harmony_boundary None p k "set harmony_boundary"]
  by (auto split: option.splits prod.splits)

text \<open>\<open>_scan\<close>: the loop over the segments from \<open>i\<close> on; \<open>is_tool_header\<close> is the test that keeps a block
  verbatim.\<close>

definition is_tool_header :: "utext \<Rightarrow> bool" where
  "is_tool_header header \<longleftrightarrow> first_word header = asc ''commentary'' \<and> contains (asc ''to=functions'') header"

definition segment_body :: "bool \<Rightarrow> utext \<Rightarrow> nat \<Rightarrow> nat \<Rightarrow> bool \<Rightarrow> utext" where
  "segment_body hold t body_start end_pos terminated =
     (let body = text_slice body_start end_pos t in
      if \<not> terminated \<and> hold
      then (let held = harmony_partial_suffix body in if held \<noteq> 0 then but_last_n held body else body)
      else body)"

definition segment_piece :: "bool \<Rightarrow> utext \<Rightarrow> nat \<Rightarrow> nat \<Rightarrow> parsed" where
  "segment_piece hold t ch msg =
     (let header = text_slice (ch + length harmony_channel) msg t; body_start = msg + length harmony_message;
          (end_pos, tok) = segment_end t body_start in
      if is_tool_header header then
        (let slice_end = (case tok of Some k \<Rightarrow> if k \<in> set harmony_closing then end_pos + length k else end_pos
                          | None \<Rightarrow> end_pos) in
         \<lparr>reasoning_text = [], normal_text = text_slice ch slice_end t\<rparr>)
      else
        (let body = segment_body hold t body_start end_pos (tok \<noteq> None) in
         if first_word header = asc ''analysis'' then \<lparr>reasoning_text = body, normal_text = []\<rparr>
         else \<lparr>reasoning_text = [], normal_text = body\<rparr>))"

definition next_segment :: "utext \<Rightarrow> nat \<Rightarrow> (nat \<times> nat) option" where
  "next_segment t i =
     (case find_from harmony_channel i t of
        None \<Rightarrow> None
      | Some ch \<Rightarrow> map_option (Pair ch) (find_from harmony_message (ch + length harmony_channel) t))"

lemma next_segment_bound:
  "next_segment t i = Some (ch, msg) \<Longrightarrow> i \<le> ch \<and> ch + length harmony_channel \<le> msg \<and> msg + length harmony_message \<le> length t"
  by (auto simp: next_segment_def split: option.splits dest: find_from_ge)

function scan_from :: "bool \<Rightarrow> utext \<Rightarrow> nat \<Rightarrow> parsed" where
  "scan_from hold t i =
     (case next_segment t i of
        None \<Rightarrow> nothing
      | Some (ch, msg) \<Rightarrow>
          (let piece = segment_piece hold t ch msg in
           case segment_end t (msg + length harmony_message) of
             (_, None) \<Rightarrow> piece
           | (end_pos, Some _) \<Rightarrow>
               (let rest = scan_from hold t end_pos in
                \<lparr>reasoning_text = reasoning_text piece @ reasoning_text rest,
                 normal_text = normal_text piece @ normal_text rest\<rparr>)))"
  by pat_completeness auto
termination
proof (relation "measure (\<lambda>(hold, t, i). length t - i)", goal_cases)
  case (2 hold t i seg ch msg piece p tok k)
  have "i \<le> ch \<and> ch + length harmony_channel \<le> msg \<and> msg + length harmony_message \<le> length t"
    by (rule next_segment_bound) (use 2 in simp)
  moreover have "msg + length harmony_message \<le> p \<and> p + length k \<le> length t"
    using segment_end_bound [of t "msg + length harmony_message" p k] 2 by simp
  moreover have "0 < length harmony_channel" by code_simp
  ultimately have "length t - p < length t - i" by linarith
  then show ?case by simp
qed simp

declare scan_from.simps [simp del]

definition harmony_scan :: "bool \<Rightarrow> utext \<Rightarrow> parsed" where
  "harmony_scan hold t = scan_from hold t 0"

section \<open>The parser\<close>

record harmony_state =
  h_buffer :: utext
  emitted_reasoning :: nat
  emitted_content :: nat

definition new_harmony :: harmony_state where
  "new_harmony = \<lparr>h_buffer = [], emitted_reasoning = 0, emitted_content = 0\<rparr>"

definition harmony_detect :: "utext \<Rightarrow> parsed" where
  "harmony_detect t =
     (if \<not> contains harmony_channel t then \<lparr>reasoning_text = [], normal_text = t\<rparr>
      else let r = harmony_scan False t in
           \<lparr>reasoning_text = strip (reasoning_text r), normal_text = strip (normal_text r)\<rparr>)"

text \<open>What the scan of the buffer holds beyond the counts.\<close>

definition emit_scan :: "bool \<Rightarrow> harmony_state \<Rightarrow> parsed \<times> harmony_state" where
  "emit_scan hold s =
     (let r = harmony_scan hold (h_buffer s) in
      (\<lparr>reasoning_text = drop (emitted_reasoning s) (reasoning_text r), normal_text = drop (emitted_content s) (normal_text r)\<rparr>,
       s\<lparr>emitted_reasoning := length (reasoning_text r), emitted_content := length (normal_text r)\<rparr>))"

definition harmony_increment :: "utext \<Rightarrow> harmony_state \<Rightarrow> parsed \<times> harmony_state" where
  "harmony_increment new s = emit_scan True (s\<lparr>h_buffer := h_buffer s @ new\<rparr>)"

definition harmony_flush :: "harmony_state \<Rightarrow> parsed \<times> harmony_state" where
  "harmony_flush s = emit_scan False s"

end
