(* ===== verification/Harmony_Stream.thy ===== *)
theory Harmony_Stream
  imports Harmony Reasoning_Stream "HOL-Library.Code_Target_Nat"
begin

text \<open>
  Streaming through the Harmony parser: what a scan emits never has to be taken back when more text
  arrives, so that the pieces of a stream put together are the scan of the whole text.
\<close>

section \<open>Growing texts\<close>

lemma find_from_append: "find_from sub i t = Some c \<Longrightarrow> find_from sub i (t @ x) = Some c"
  using find_sub_append by (auto simp: find_from_def split: if_splits)

lemma next_segment_append: "next_segment t i = Some seg \<Longrightarrow> next_segment (t @ x) i = Some seg"
  by (auto simp: next_segment_def find_from_append split: option.splits)

lemma find_from_iff:
  assumes "sub \<noteq> []"
  shows "find_from sub i t = Some c \<longleftrightarrow> i \<le> c \<and> prefix sub (drop c t) \<and> (\<forall>j. i \<le> j \<and> j < c \<longrightarrow> \<not> prefix sub (drop j t))"
    (is "_ \<longleftrightarrow> ?R")
proof
  assume "find_from sub i t = Some c"
  then obtain d where i: "i \<le> length t" and d: "find_sub sub (drop i t) = Some d" and c: "c = i + d"
    by (auto simp: find_from_def split: if_splits)
  have "\<not> prefix sub (drop j t)" if "i \<le> j" "j < c" for j
    using find_sub_first [OF d, of "j - i"] that c by simp
  then show ?R using find_sub_Some [OF d] c by (simp add: add.commute)
next
  assume R: ?R
  then have "drop c t \<noteq> []" using assms by auto
  then have c: "c < length t" by simp
  obtain z where z: "drop c t = sub @ z" using R by (auto simp: prefix_def)
  have "find_sub sub (drop i t) = Some (length (take (c - i) (drop i t)))"
  proof (rule find_sub_eqI)
    from z have "drop (c - i) (drop i t) = sub @ z" using R by simp
    then show "drop i t = take (c - i) (drop i t) @ sub @ z" by (metis append_take_drop_id)
    show "\<not> prefix sub (drop j (drop i t))" if "j < length (take (c - i) (drop i t))" for j
      using R that c by simp
  qed
  then show "find_from sub i t = Some c" using R c by (simp add: find_from_def)
qed

lemma find_from_None:
  assumes "find_from sub i t = None" and "i \<le> j" and "j \<le> length t"
  shows "\<not> prefix sub (drop j t)"
  using assms find_sub_None [of sub "drop i t" "j - i"] by (auto simp: find_from_def split: if_splits)

section \<open>The end of a segment\<close>

lemma fold_sooner_None: "fold (sooner t s) toks best = None \<longleftrightarrow> best = None \<and> (\<forall>tok \<in> set toks. find_from tok s t = None)"
proof (induction toks arbitrary: best)
  case (Cons a toks)
  have "sooner t s a best = None \<longleftrightarrow> best = None \<and> find_from a s t = None"
    by (auto simp: sooner_def split: option.splits if_splits)
  then show ?case using Cons by auto
qed simp

lemma sooner_le: "sooner t s tok best = Some (p, k) \<Longrightarrow>
    (\<forall>q l. best = Some (q, l) \<longrightarrow> p \<le> q) \<and> (\<forall>q. find_from tok s t = Some q \<longrightarrow> p \<le> q) \<and>
    (best = Some (p, k) \<or> k = tok \<and> find_from tok s t = Some p)"
  by (auto simp: sooner_def split: option.splits if_splits)

lemma fold_sooner_min:
  "fold (sooner t s) toks best = Some (p, k) \<Longrightarrow>
    (\<forall>q l. best = Some (q, l) \<longrightarrow> p \<le> q) \<and> (\<forall>tok \<in> set toks. \<forall>q. find_from tok s t = Some q \<longrightarrow> p \<le> q) \<and>
    (best = Some (p, k) \<or> k \<in> set toks \<and> find_from k s t = Some p)"
proof (induction toks arbitrary: best)
  case (Cons a toks)
  have run: "fold (sooner t s) toks (sooner t s a best) = Some (p, k)" using Cons.prems by simp
  note IH = Cons.IH [OF run]
  show ?case
  proof (cases "sooner t s a best")
    case None
    then show ?thesis using IH by (auto simp: sooner_def split: option.splits if_splits)
  next
    case (Some ql)
    obtain q l where ql: "ql = (q, l)" by (cases ql)
    have "p \<le> q" using IH Some ql by auto
    moreover note sooner_le [OF Some [unfolded ql]]
    ultimately show ?thesis using IH Some ql by (auto intro: order_trans) 
  qed
qed simp

lemma boundary_nonempty: "k \<in> set harmony_boundary \<Longrightarrow> k \<noteq> []"
  by (auto simp: harmony_boundary_def asc_def)

lemma boundary_one: "k \<in> set harmony_boundary \<Longrightarrow> k' \<in> set harmony_boundary \<Longrightarrow> prefix k k' \<Longrightarrow> k = k'"
proof -
  have "list_all (\<lambda>k. list_all (\<lambda>k'. prefix k k' \<longrightarrow> k = k') harmony_boundary) harmony_boundary" by code_simp
  then show "k \<in> set harmony_boundary \<Longrightarrow> k' \<in> set harmony_boundary \<Longrightarrow> prefix k k' \<Longrightarrow> k = k'"
    by (auto simp: list_all_iff)
qed

text \<open>No boundary token starts inside another one.\<close>

lemma boundary_apart:
  assumes "k \<in> set harmony_boundary" and "k' \<in> set harmony_boundary" and "0 < i" and "i < length k"
  shows "\<not> prefix (drop i k) k'" "\<not> prefix k' (drop i k)"
proof -
  have "list_all (\<lambda>k. list_all (\<lambda>k'. list_all (\<lambda>i. \<not> prefix (drop i k) k' \<and> \<not> prefix k' (drop i k)) [1..<length k])
      harmony_boundary) harmony_boundary" by code_simp
  then have "list_all (\<lambda>i. \<not> prefix (drop i k) k' \<and> \<not> prefix k' (drop i k)) [1..<length k]"
    using assms(1,2) by (simp only: list_all_iff) blast
  moreover have "i \<in> set [1..<length k]" using assms(3,4) by simp
  ultimately show "\<not> prefix (drop i k) k'" "\<not> prefix k' (drop i k)" unfolding list_all_iff by blast+
qed

lemma segment_end_None:
  assumes "segment_end t b = (e, None)"
  shows "e = length t" and "k \<in> set harmony_boundary \<Longrightarrow> b \<le> j \<Longrightarrow> j \<le> length t \<Longrightarrow> \<not> prefix k (drop j t)"
  using assms fold_sooner_None [of t b harmony_boundary None] find_from_None
  by (auto simp: segment_end_def split: option.splits prod.splits)

lemma segment_end_Some:
  "segment_end t b = (e, Some k) \<longleftrightarrow>
     k \<in> set harmony_boundary \<and> b \<le> e \<and> prefix k (drop e t) \<and>
     (\<forall>k' \<in> set harmony_boundary. \<forall>j. b \<le> j \<and> j < e \<longrightarrow> \<not> prefix k' (drop j t))" (is "_ \<longleftrightarrow> ?R")
proof
  assume "segment_end t b = (e, Some k)"
  then have "fold (sooner t b) harmony_boundary None = Some (e, k)"
    by (auto simp: segment_end_def split: option.splits prod.splits)
  note m = fold_sooner_min [OF this]
  have k: "k \<in> set harmony_boundary" "find_from k b t = Some e" using m by auto
  have "\<not> prefix k' (drop j t)" if "k' \<in> set harmony_boundary" "b \<le> j" "j < e" for k' j
  proof
    assume p: "prefix k' (drop j t)"
    then have "find_from k' b t \<noteq> None" using find_from_None [of k' b t j] that find_from_ge [OF k(2)] by auto
    then obtain q where q: "find_from k' b t = Some q" by auto
    then have "e \<le> q" using m that by auto
    moreover have "q \<le> j" using q p that unfolding find_from_iff [OF boundary_nonempty [OF that(1)]] by (meson not_le)
    ultimately show False using that by simp
  qed
  then show ?R using k find_from_iff [OF boundary_nonempty [OF k(1)]] by simp
next
  assume R: ?R
  then have f: "find_from k b t = Some e" using find_from_iff [OF boundary_nonempty] by auto
  then have "fold (sooner t b) harmony_boundary None \<noteq> None" using fold_sooner_None [of t b harmony_boundary None] R by auto
  then obtain p l where pl: "fold (sooner t b) harmony_boundary None = Some (p, l)" by auto
  note m = fold_sooner_min [OF pl]
  have l: "l \<in> set harmony_boundary" "find_from l b t = Some p" using m by auto
  have "p \<le> e" using m R f by auto
  moreover have "prefix l (drop p t)" "b \<le> p" using l find_from_iff [OF boundary_nonempty [OF l(1)]] by auto
  ultimately have "p = e" using R l(1) by (meson le_neq_implies_less)
  then have "prefix l k \<or> prefix k l" using R \<open>prefix l (drop p t)\<close> prefix_same_cases by blast
  then have "l = k" using boundary_one l(1) R by metis
  then show "segment_end t b = (e, Some k)" using pl \<open>p = e\<close> by (simp add: segment_end_def)
qed

lemma segment_end_append:
  assumes "segment_end t b = (e, Some k)"
  shows "segment_end (t @ x) b = (e, Some k)"
proof -
  note s = assms [unfolded segment_end_Some]
  have e: "e + length k \<le> length t" using segment_end_bound [OF assms] by simp
  have "prefix k (drop e (t @ x))" using s e by (auto simp: prefix_def)
  moreover have "\<not> prefix k' (drop j (t @ x))" if k': "k' \<in> set harmony_boundary" and j: "b \<le> j" "j < e" for k' j
  proof
    assume p: "prefix k' (drop j (t @ x))"
    have d: "drop j (t @ x) = drop j t @ x" using j e by simp
    have "\<not> length k' \<le> length (drop j t)"
      using p s k' j unfolding d by (metis prefix_length_prefix prefixI)
    then have "e - j < length k'" using j e by simp
    obtain z where z: "drop j (t @ x) = k' @ z" using p by (auto simp: prefix_def)
    have "drop e (t @ x) = drop (e - j) (drop j (t @ x))"
      unfolding drop_drop using j by (simp del: drop_append)
    then have "drop e (t @ x) = drop (e - j) k' @ z" unfolding z using \<open>e - j < length k'\<close> by simp
    then have "prefix (drop (e - j) k') k \<or> prefix k (drop (e - j) k')"
      using \<open>prefix k (drop e (t @ x))\<close> by (metis prefixI prefix_same_cases)
    then show False using boundary_apart [OF k' _ _ \<open>e - j < length k'\<close>] s j by auto
  qed
  ultimately show ?thesis using s by (simp add: segment_end_Some)
qed

section \<open>What is held back\<close>

lemma longest_hold_attained:
  "longest_hold t toks = 0 \<or> (\<exists>tok \<in> set toks. strict_prefix (take (longest_hold t toks) tok) tok \<and>
     suffix (take (longest_hold t toks) tok) t \<and> longest_hold t toks < length tok)"
proof -
  have "fold (hold_marker t) ts n = n \<or> (\<exists>tok \<in> set ts. let m = fold (hold_marker t) ts n in
      m < length tok \<and> suffix (take m tok) t)" for ts n
  proof (induction ts arbitrary: n)
    case (Cons a ts)
    have "hold_marker t a n < length a \<or> hold_marker t a n = n" using hold_marker_cases [of t a n] by linarith
    then show ?case using Cons.IH [of "hold_marker t a n"] hold_marker_cases [of t a n] by (auto simp: Let_def)
  qed simp
  then have "longest_hold t toks = 0 \<or> (\<exists>tok \<in> set toks. longest_hold t toks < length tok \<and> suffix (take (longest_hold t toks) tok) t)"
    unfolding longest_hold_def Let_def by blast
  moreover have "strict_prefix (take m tok) tok" if "m < length tok" for m and tok :: utext
    using that by (metis length_take min.absorb4 nat_neq_iff strict_prefixI take_is_prefix)
  ultimately show ?thesis by blast
qed

lemma longest_hold_append: "longest_hold (t @ x) toks \<le> longest_hold t toks + length x"
proof (cases "longest_hold (t @ x) toks \<le> length x")
  case False
  let ?m = "longest_hold (t @ x) toks"
  obtain tok where tok: "tok \<in> set toks" "suffix (take ?m tok) (t @ x)" "?m < length tok"
    using longest_hold_attained [of "t @ x" toks] False by auto
  have "suffix x (take ?m tok)" using tok False by (metis suffix_length_suffix suffixI length_take min.absorb4 nat_le_linear)
  then obtain p where p: "take ?m tok = p @ x" by (auto simp: suffix_def)
  then have "suffix p t" using tok(2) by simp
  moreover have "strict_prefix p tok"
    using p tok(3) by (metis append_take_drop_id append.assoc strict_prefixI' length_take min.absorb4 prefix_order.less_le prefixI
        length_append not_add_less1 nat_less_le)
  ultimately have "length p \<le> longest_hold t toks" using longest_hold_covers tok(1) by blast
  moreover have "?m = length p + length x" using arg_cong [OF p, of length] tok(3) by simp
  ultimately show ?thesis by simp
qed simp

section \<open>A scan grows\<close>

definition grows :: "parsed \<Rightarrow> parsed \<Rightarrow> bool" where
  "grows a b \<longleftrightarrow> prefix (reasoning_text a) (reasoning_text b) \<and> prefix (normal_text a) (normal_text b)"

lemma grows_nothing [simp]: "grows nothing a"
  by (simp add: grows_def)

lemma but_last_zero [simp]: "but_last_n 0 xs = xs"
  by (simp add: but_last_n_def)

lemma body_safe:
  "segment_body hold t b e terminated =
     but_last_n (if \<not> terminated \<and> hold then harmony_partial_suffix (text_slice b e t) else 0) (text_slice b e t)"
  by (auto simp: segment_body_def Let_def)

lemma text_slice_append: "e \<le> length t \<Longrightarrow> text_slice b e (t @ x) = text_slice b e t"
  by (simp add: text_slice_def)

text \<open>The body of a segment that is still streaming is a prefix of its body in any longer text.\<close>

lemma open_body_grows:
  assumes "segment_end t b = (e, None)" and b: "b \<le> length t" and "segment_end (t @ x) b = (e', tok')"
  shows "prefix (segment_body True t b e False) (segment_body hold (t @ x) b e' (tok' \<noteq> None))"
proof -
  let ?body = "drop b t" and ?h = "harmony_partial_suffix (drop b t)"
  note none = segment_end_None [OF assms(1)]
  have here: "segment_body True t b e False = take (length ?body - ?h) ?body"
    using none(1) by (simp add: body_safe but_last_n_def text_slice_def)
  have whole: "drop b (t @ x) = ?body @ x" using b by simp
  have "\<exists>n. length ?body - ?h \<le> n \<and> segment_body hold (t @ x) b e' (tok' \<noteq> None) = take n (?body @ x)"
  proof (cases tok')
    case None
    let ?h' = "if hold then harmony_partial_suffix (?body @ x) else 0"
    have "e' = length (t @ x)" using segment_end_None(1) assms(3) None by blast
    then have "segment_body hold (t @ x) b e' (tok' \<noteq> None) = take (length (?body @ x) - ?h') (?body @ x)"
      using None whole by (simp add: body_safe but_last_n_def text_slice_def)
    moreover have "?h' \<le> ?h + length x" using longest_hold_append [of ?body x harmony_tokens] by (simp add: harmony_partial_suffix_def)
    then have "length ?body - ?h \<le> length (?body @ x) - ?h'" by simp
    ultimately show ?thesis by blast
  next
    case (Some k)
    note s = assms(3) [unfolded Some segment_end_Some]
    have "text_slice b e' (t @ x) = take (e' - b) (?body @ x)" unfolding text_slice_def drop_take whole ..
    then have "segment_body hold (t @ x) b e' (tok' \<noteq> None) = take (e' - b) (?body @ x)"
      using Some by (simp add: body_safe)
    moreover have "length ?body - ?h \<le> e' - b"
    proof (cases "length t \<le> e'")
      case False
      have d: "drop e' (t @ x) = drop e' t @ x" using False by simp
      have "\<not> prefix k (drop e' t)" using none(2) s False by (meson nat_le_linear)
      then have "\<not> length k \<le> length (drop e' t)" using s unfolding d by (metis prefix_length_prefix prefixI)
      moreover from this have "prefix (drop e' t) k" using s unfolding d by (metis prefix_length_prefix prefixI nat_le_linear)
      ultimately have "strict_prefix (drop e' t) k" by (auto simp: strict_prefix_def)
      moreover have "suffix (drop e' t) ?body" using s by (metis drop_drop le_add_diff_inverse2 suffix_drop)
      moreover have "k \<in> set harmony_tokens" using s by (simp add: harmony_tokens_def)
      ultimately have "length (drop e' t) \<le> ?h" unfolding harmony_partial_suffix_def by (rule longest_hold_covers [rotated])
      then show ?thesis using s False by simp
    qed simp
    ultimately show ?thesis by blast
  qed
  then show ?thesis unfolding here by (metis append_Nil2 take_append take_is_prefix prefix_order.trans take_take min.absorb2
      prefix_def append_take_drop_id append.assoc)
qed

lemma header_in_text: "contains sub (text_slice i j t) \<Longrightarrow> contains sub (t @ x)"
  unfolding contains_iff text_slice_def
  by (meson sublist_append_rightI sublist_drop sublist_order.order.trans sublist_take)

lemma scan_grows:
  "\<not> contains (asc ''to=functions'') (t @ x) \<Longrightarrow> grows (scan_from True t i) (scan_from hold (t @ x) i)"
proof (induction "length t - i" arbitrary: i rule: less_induct)
  case less
  show ?case
  proof (cases "next_segment t i")
    case None
    then show ?thesis by (subst scan_from.simps) simp
  next
    case (Some seg)
    obtain ch msg where seg: "seg = (ch, msg)" by (cases seg)
    let ?b = "msg + length harmony_message"
    note bd = next_segment_bound [OF Some [unfolded seg]]
    have n: "next_segment (t @ x) i = Some (ch, msg)" using next_segment_append Some seg by blast
    have hd: "text_slice (ch + length harmony_channel) msg (t @ x) = text_slice (ch + length harmony_channel) msg t"
      using bd by (intro text_slice_append) simp
    have notool: "\<not> is_tool_header (text_slice (ch + length harmony_channel) msg t)"
      using less.prems header_in_text by (auto simp: is_tool_header_def)
    obtain e tok where e: "segment_end t ?b = (e, tok)" by fastforce
    obtain e' tok' where e': "segment_end (t @ x) ?b = (e', tok')" by fastforce
    show ?thesis
    proof (cases tok)
      case None
      then have "grows (segment_piece True t ch msg) (segment_piece hold (t @ x) ch msg)"
        using open_body_grows [of t ?b e x e' tok' hold] e e' bd notool hd
        by (simp add: segment_piece_def Let_def grows_def)
      moreover have "scan_from True t i = segment_piece True t ch msg"
        using Some seg e None by (subst scan_from.simps) (simp add: Let_def)
      moreover have "grows (segment_piece hold (t @ x) ch msg) (scan_from hold (t @ x) i)"
        using n e' by (subst scan_from.simps) (auto simp: Let_def grows_def split: option.splits)
      ultimately show ?thesis unfolding grows_def using prefix_order.trans by metis
    next
      case (Some k)
      note ek = e [unfolded Some]
      have e2: "segment_end (t @ x) ?b = (e, Some k)" by (rule segment_end_append [OF ek])
      have el: "e \<le> length t" using segment_end_bound [OF ek] by simp
      have "0 < length harmony_channel" by code_simp
      then have "length t - e < length t - i" using segment_end_bound [OF ek] bd by linarith
      from less.hyps [OF this less.prems] have IH: "grows (scan_from True t e) (scan_from hold (t @ x) e)" .
      have p: "segment_piece hold (t @ x) ch msg = segment_piece True t ch msg"
        using ek e2 notool hd text_slice_append [OF el] by (simp add: segment_piece_def Let_def body_safe)
      have "scan_from True t i = plus_parsed (segment_piece True t ch msg) (scan_from True t e)"
        using \<open>next_segment t i = Some seg\<close> seg ek by (subst scan_from.simps) (simp add: Let_def plus_parsed_def)
      moreover have "scan_from hold (t @ x) i = plus_parsed (segment_piece True t ch msg) (scan_from hold (t @ x) e)"
        using n e2 p by (subst scan_from.simps) (simp add: Let_def plus_parsed_def)
      ultimately show ?thesis using IH by (simp add: grows_def)
    qed
  qed
qed

section \<open>The stream\<close>

lemma contains_append: "contains m a \<Longrightarrow> contains m (a @ b)"
  unfolding contains_iff by (rule sublist_order.order.trans [OF _ sublist_append_rightI])

definition harmony_inv :: "utext \<Rightarrow> parsed \<Rightarrow> harmony_state \<Rightarrow> bool" where
  "harmony_inv t out s \<longleftrightarrow> h_buffer s = t \<and> out = harmony_scan True t \<and>
     emitted_reasoning s = length (reasoning_text out) \<and> emitted_content s = length (normal_text out)"

lemma emit_grows:
  assumes "grows out r"
  shows "plus_parsed out \<lparr>reasoning_text = drop (length (reasoning_text out)) (reasoning_text r),
     normal_text = drop (length (normal_text out)) (normal_text r)\<rparr> = r"
  using assms by (cases r) (auto simp: grows_def prefix_def plus_parsed_def)

lemma harmony_emit:
  assumes "h_buffer s = t @ x" and "out = harmony_scan True t"
    and "emitted_reasoning s = length (reasoning_text out)" and "emitted_content s = length (normal_text out)"
    and "\<not> contains (asc ''to=functions'') (t @ x)" and "emit_scan hold s = (r, s')"
  shows "plus_parsed out r = harmony_scan hold (t @ x)"
    and "hold \<Longrightarrow> harmony_inv (t @ x) (plus_parsed out r) s'"
proof -
  have "grows out (harmony_scan hold (t @ x))" using scan_grows [OF assms(5)] assms(2) by (simp add: harmony_scan_def)
  then show 1: "plus_parsed out r = harmony_scan hold (t @ x)"
    using emit_grows assms(1,3,4,6) by (auto simp: emit_scan_def Let_def)
  then show "hold \<Longrightarrow> harmony_inv (t @ x) (plus_parsed out r) s'"
    using assms(1,6) by (auto simp: emit_scan_def Let_def harmony_inv_def)
qed

lemma harmony_feed:
  assumes "harmony_inv t out s" and "\<not> contains (asc ''to=functions'') (t @ concat xs)"
    and "feed_chunks harmony_increment xs s = (r, s')"
  shows "harmony_inv (t @ concat xs) (plus_parsed out r) s'"
  using assms
proof (induction xs arbitrary: t out s r)
  case (Cons x xs)
  obtain a s1 b where a: "harmony_increment x s = (a, s1)" and b: "feed_chunks harmony_increment xs s1 = (b, s')"
    and r: "r = plus_parsed a b" using Cons.prems(3) by (auto split: prod.splits)
  have "\<not> contains (asc ''to=functions'') (t @ x)"
    using Cons.prems(2) contains_append [of _ "t @ x" "concat xs"] by auto
  then have "harmony_inv (t @ x) (plus_parsed out a) s1"
    by (rule harmony_emit(2) [of "s\<lparr>h_buffer := h_buffer s @ x\<rparr>" t x out True a s1, rotated 4])
      (use Cons.prems(1) a in \<open>simp_all add: harmony_increment_def harmony_inv_def\<close>)
  from Cons.IH [OF this _ b] Cons.prems(2) show ?case by (simp add: r plus_parsed_assoc)
qed simp

text \<open>C31. A Harmony completion without a tool call is split the same way however the stream is cut into
  chunks: the pieces put together are the scan of the whole text, which the one-shot parse returns
  stripped when the text has a channel marker at all.\<close>

theorem harmony_stream_any_chunks:
  assumes "\<not> contains (asc ''to=functions'') (concat chunks)"
  shows "let out = stream_all harmony_increment harmony_flush chunks new_harmony in
     out = harmony_scan False (concat chunks) \<and>
     (contains harmony_channel (concat chunks) \<longrightarrow>
        harmony_detect (concat chunks) = \<lparr>reasoning_text = strip (reasoning_text out), normal_text = strip (normal_text out)\<rparr>)"
proof -
  obtain r s where run: "feed_chunks harmony_increment chunks new_harmony = (r, s)" by fastforce
  have "harmony_scan True [] = nothing"
    unfolding harmony_scan_def by (subst scan_from.simps) (simp add: next_segment_def find_from_def find_sub_def harmony_channel_def asc_def)
  then have "harmony_inv [] nothing new_harmony" by (simp add: harmony_inv_def new_harmony_def)
  from harmony_feed [OF this _ run] assms have inv: "harmony_inv (concat chunks) r s" by simp
  obtain f s' where fl: "harmony_flush s = (f, s')" by fastforce
  have "plus_parsed r f = harmony_scan False (concat chunks)"
    using harmony_emit(1) [of s "concat chunks" "[]" r False f s'] inv assms fl by (simp add: harmony_inv_def harmony_flush_def)
  then show ?thesis using run fl by (simp add: stream_all_def harmony_detect_def Let_def)
qed

lemma harmony_stream_any_chunks_witness:
  "let chunks = [asc ''<|chan'', asc ''nel|>analysis<|message|>Hm.<|e'', asc ''nd|><|start|>assistant<|channel|>final<|mess'',
      asc ''age|>Hi<|ret'', asc ''urn|>''];
       out = stream_all harmony_increment harmony_flush chunks new_harmony in
   reasoning_text out = asc ''Hm.'' \<and> normal_text out = asc ''Hi''"
proof -
  let ?x = "[asc ''<|chan'', asc ''nel|>analysis<|message|>Hm.<|e'', asc ''nd|><|start|>assistant<|channel|>final<|mess'',
      asc ''age|>Hi<|ret'', asc ''urn|>'']"
  have 1: "\<not> contains (asc ''to=functions'') (concat ?x)" by code_simp
  have "stream_all harmony_increment harmony_flush ?x new_harmony = harmony_scan False (concat ?x)"
    using harmony_stream_any_chunks [OF 1] unfolding Let_def by (rule conjunct1)
  also have "\<dots> = \<lparr>reasoning_text = asc ''Hm.'', normal_text = asc ''Hi''\<rparr>" by code_simp
  finally show ?thesis by (simp only: Let_def parsed.simps simp_thms)
qed

section \<open>A tool call\<close>

text \<open>The scan does not hold back a partial control token after a tool block: the start of the token is
  emitted as part of the block, and when the token is complete the block is shorter than what was
  emitted, so that characters of the following segment are dropped. The text that follows the block
  loses its first characters.\<close>

definition tool_part :: utext where
  "tool_part = asc ''<|channel|>commentary to=functions.f<|message|>{}<|st''"

definition final_part :: utext where
  "final_part = asc ''art|>assistant<|channel|>final<|message|>Hello''"

lemma tool_part_scan: "harmony_scan True tool_part = \<lparr>reasoning_text = [], normal_text = tool_part\<rparr>"
  by code_simp

lemma whole_scan_held:
  "harmony_scan True (tool_part @ final_part) =
     \<lparr>reasoning_text = [], normal_text = asc ''<|channel|>commentary to=functions.f<|message|>{}Hello''\<rparr>"
  by code_simp

lemma whole_scan:
  "harmony_scan False (tool_part @ final_part) =
     \<lparr>reasoning_text = [], normal_text = asc ''<|channel|>commentary to=functions.f<|message|>{}Hello''\<rparr>"
  by code_simp

lemma harmony_tool_block_loses:
  "normal_text (stream_all harmony_increment harmony_flush [tool_part, final_part] new_harmony) =
     asc ''<|channel|>commentary to=functions.f<|message|>{}<|sto''"
  "normal_text (harmony_scan False (concat [tool_part, final_part])) =
     asc ''<|channel|>commentary to=functions.f<|message|>{}Hello''"
proof -
  let ?s = "asc ''<|channel|>commentary to=functions.f<|message|>{}Hello''"
  have "normal_text (stream_all harmony_increment harmony_flush [tool_part, final_part] new_harmony) =
      tool_part @ drop (length tool_part) ?s @ drop (length ?s) ?s"
    using tool_part_scan whole_scan_held whole_scan
    by (simp add: stream_all_def harmony_increment_def harmony_flush_def emit_scan_def new_harmony_def Let_def)
  also have "\<dots> = asc ''<|channel|>commentary to=functions.f<|message|>{}<|sto''" by code_simp
  finally show "normal_text (stream_all harmony_increment harmony_flush [tool_part, final_part] new_harmony) =
     asc ''<|channel|>commentary to=functions.f<|message|>{}<|sto''" .
qed (use whole_scan in simp)

text \<open>Without any channel marker the one-shot parse returns the text, the stream nothing.\<close>

lemma harmony_plain_text_dropped:
  "normal_text (stream_all harmony_increment harmony_flush [asc ''Hello''] new_harmony) = []"
  "normal_text (harmony_detect (asc ''Hello'')) = asc ''Hello''"
  by code_simp+

end
