(* ===== verification/Muse.thy ===== *)
theory Muse
  imports Harmony
begin

text \<open>
  The Muse Glimmer reasoning parser (\<open>MuseGlimmerReasoningParser\<close> in \<open>server/reasoning_parser.py\<close>): the
  channels of the ATEM protocol, consumed from a buffer as they are emitted. The regular expressions of
  the module are written out: a name is a run of characters that are neither white space nor \<open><\<close>.
\<close>

section \<open>Markers and headers\<close>

definition atem_start :: utext where "atem_start = asc ''<|start|>''"
definition atem_message :: utext where "atem_message = asc ''<|message|>''"
definition atem_eom :: utext where "atem_eom = asc ''<|eom|>''"

definition atem_closing :: "utext list" where
  "atem_closing = [asc ''<|eot|>'', atem_eom, asc ''<|end_of_text|>'']"

definition atem_tokens :: "utext list" where
  "atem_tokens = [atem_start, atem_message] @ atem_closing"

definition atem_header_span :: nat where "atem_header_span = 128"
definition atem_hold_window :: nat where "atem_hold_window = 96"
definition to_eq :: utext where "to_eq = asc ''to=''"

definition name_char :: "nat \<Rightarrow> bool" where
  "name_char c \<longleftrightarrow> \<not> is_space c \<and> c \<noteq> of_char (CHR ''<'')"

text \<open>The match of \<open>to=([^\s<]{1,64})<|message|>\<close> at the start of a text, as the name and the length of the
  match; and its leftmost match.\<close>

definition inline_here :: "utext \<Rightarrow> (utext \<times> nat) option" where
  "inline_here t =
     (let name = takeWhile name_char (drop (length to_eq) t); n = length name in
      if prefix to_eq t \<and> 1 \<le> n \<and> n \<le> 64 \<and> prefix atem_message (drop (length to_eq + n) t)
      then Some (name, length to_eq + n + length atem_message) else None)"

fun inline_search :: "utext \<Rightarrow> (nat \<times> nat \<times> utext) option" where
  "inline_search [] = None"
| "inline_search (c # cs) =
     (case inline_here (c # cs) of
        Some (name, len) \<Rightarrow> Some (0, len, name)
      | None \<Rightarrow> map_option (\<lambda>(i, e, name). (Suc i, Suc e, name)) (inline_search cs))"

text \<open>The group of the leftmost match of \<open>to=([^\s<]{1,64})\<close>.\<close>

fun recipient_search :: "utext \<Rightarrow> utext option" where
  "recipient_search [] = None"
| "recipient_search (c # cs) =
     (let name = takeWhile name_char (drop (length to_eq) (c # cs)) in
      if prefix to_eq (c # cs) \<and> name \<noteq> [] then Some (take 64 name) else recipient_search cs)"

text \<open>\<open>text.find(tok, start, end) != -1\<close> for one of the markers but \<open><|message|>\<close>\<close>

definition atem_marker_inside :: "utext \<Rightarrow> nat \<Rightarrow> nat \<Rightarrow> bool" where
  "atem_marker_inside t a b \<longleftrightarrow>
     list_ex (\<lambda>tok. tok \<noteq> atem_message \<and> find_from tok a (take b t) \<noteq> None) atem_tokens"

section \<open>The hold-back\<close>

definition atem_partial_suffix :: "utext \<Rightarrow> nat" where
  "atem_partial_suffix t = longest_hold t atem_tokens"

text \<open>The last occurrence, as the text from there on.\<close>

fun from_last :: "utext \<Rightarrow> utext \<Rightarrow> utext option" where
  "from_last sub [] = None"
| "from_last sub (c # cs) =
     (case from_last sub cs of
        Some t \<Rightarrow> Some t
      | None \<Rightarrow> if prefix sub (c # cs) then Some (c # cs) else None)"

definition switch_hold :: "utext \<Rightarrow> nat" where
  "switch_hold tail =
     (let name = takeWhile name_char (drop (length to_eq) tail); n = length name;
          rest = drop (length to_eq + min 64 n) tail in
      if rest = [] then length tail
      else if 1 \<le> n \<and> prefix rest atem_message then length tail
      else 0)"

definition hold_suffix :: "utext \<Rightarrow> utext \<Rightarrow> nat \<Rightarrow> nat" where
  "hold_suffix t p best = (if best < length p \<and> suffix p t then length p else best)"

definition atem_hold_len :: "utext \<Rightarrow> nat" where
  "atem_hold_len t =
     (let best = atem_partial_suffix t;
          best = (case from_last to_eq (last_n atem_hold_window t) of None \<Rightarrow> best | Some tail \<Rightarrow> max best (switch_hold tail)) in
      fold (hold_suffix t) [asc ''t'', asc ''to''] best)"

section \<open>The parser\<close>

datatype muse_mode = Body | Seek

record muse_state =
  m_buffer :: utext
  synthetic_open :: bool
  m_mode :: muse_mode
  recipient :: utext

definition new_muse :: "bool \<Rightarrow> muse_state" where
  "new_muse header_open =
     \<lparr>m_buffer = (if header_open then atem_start else []), synthetic_open = header_open, m_mode = Seek, recipient = asc ''user''\<rparr>"

text \<open>\<open>_segment_body_end\<close>\<close>

datatype body_boundary = Closer utext | Start | Inline nat utext

definition body_end_of :: "utext \<Rightarrow> utext \<Rightarrow> (nat \<times> body_boundary) option \<Rightarrow> (nat \<times> body_boundary) option" where
  "body_end_of buf tok best =
     (case find_sub tok buf of
        None \<Rightarrow> best
      | Some pos \<Rightarrow> if (case best of None \<Rightarrow> pos < length buf | Some (p, _) \<Rightarrow> pos < p)
                    then Some (pos, if tok = atem_start then Start else Closer tok) else best)"

definition segment_body_end :: "utext \<Rightarrow> (nat \<times> body_boundary) option" where
  "segment_body_end buf =
     (let best = fold (body_end_of buf) (atem_closing @ [atem_start]) None in
      case inline_search buf of
        None \<Rightarrow> best
      | Some (i, e, name) \<Rightarrow>
          if (case best of None \<Rightarrow> i < length buf | Some (p, _) \<Rightarrow> i < p) then Some (i, Inline e name) else best)"

definition own_channel :: "utext \<Rightarrow> bool" where
  "own_channel r \<longleftrightarrow> r \<in> {asc ''self'', asc ''user''}"

definition muse_emit :: "utext \<Rightarrow> utext \<Rightarrow> parsed" where
  "muse_emit r piece =
     (if r = asc ''self'' then \<lparr>reasoning_text = piece, normal_text = []\<rparr> else \<lparr>reasoning_text = [], normal_text = piece\<rparr>)"

text \<open>\<open>begin_body\<close>: what it emits and the state it leaves.\<close>

definition begin_body :: "utext \<Rightarrow> utext \<Rightarrow> muse_state \<Rightarrow> parsed \<times> muse_state" where
  "begin_body r header_text s =
     ((if own_channel r then nothing else muse_emit r header_text), s\<lparr>recipient := r, m_mode := Body\<rparr>)"

definition emit_seek :: "utext \<Rightarrow> utext" where
  "emit_seek piece = fold remove_all atem_closing piece"

definition content :: "utext \<Rightarrow> parsed" where
  "content t = \<lparr>reasoning_text = [], normal_text = t\<rparr>"

definition join_parsed :: "parsed \<Rightarrow> parsed \<Rightarrow> parsed" where
  "join_parsed a b = \<lparr>reasoning_text = reasoning_text a @ reasoning_text b, normal_text = normal_text a @ normal_text b\<rparr>"

text \<open>One turn of the loop of \<open>_drain\<close>: what it emits, the state, and whether the loop goes on. A start
  marker ruled literal is delivered unless it is the seed of the parser.\<close>

definition literal_start :: "utext \<Rightarrow> nat \<Rightarrow> muse_state \<Rightarrow> parsed \<times> muse_state \<times> bool" where
  "literal_start buf i s =
     (content (emit_seek (take i buf) @ (if synthetic_open s then [] else atem_start)),
      s\<lparr>synthetic_open := False, m_buffer := drop (i + length atem_start) buf\<rparr>, True)"

definition open_header :: "utext \<Rightarrow> nat \<Rightarrow> nat \<Rightarrow> muse_state \<Rightarrow> parsed \<times> muse_state \<times> bool" where
  "open_header buf i msg s =
     (let header = text_slice (i + length atem_start) msg buf; body_start = msg + length atem_message;
          r = (case recipient_search header of Some r \<Rightarrow> r | None \<Rightarrow> asc ''user'');
          (p, s1) = begin_body r (text_slice i body_start buf) (s\<lparr>m_buffer := drop body_start buf, synthetic_open := False\<rparr>) in
      (join_parsed (content (emit_seek (take i buf))) p, s1, True))"

definition wait_header :: "bool \<Rightarrow> utext \<Rightarrow> nat \<Rightarrow> muse_state \<Rightarrow> parsed \<times> muse_state \<times> bool" where
  "wait_header final buf i s =
     (let before = emit_seek (take i buf); rest = drop i buf in
      if atem_header_span + length atem_message < length rest - length atem_start
      then (content (before @ (if synthetic_open s then [] else atem_start)),
            s\<lparr>synthetic_open := False, m_buffer := drop (length atem_start) rest\<rparr>, True)
      else if final
      then (content (before @ emit_seek (drop (length atem_start) rest)), s\<lparr>synthetic_open := False, m_buffer := []\<rparr>, False)
      else (content before, s\<lparr>m_buffer := rest\<rparr>, False))"

definition stream_tail :: "bool \<Rightarrow> (utext \<Rightarrow> parsed) \<Rightarrow> utext \<Rightarrow> muse_state \<Rightarrow> parsed \<times> muse_state \<times> bool" where
  "stream_tail final emit buf s =
     (let hold = (if final then 0 else atem_hold_len buf);
          piece = (if hold \<noteq> 0 then take (length buf - hold) buf else buf) in
      (emit piece, s\<lparr>m_buffer := drop (length piece) buf\<rparr>, False))"

definition seek_start :: "bool \<Rightarrow> utext \<Rightarrow> nat \<Rightarrow> muse_state \<Rightarrow> parsed \<times> muse_state \<times> bool" where
  "seek_start final buf i s =
     (let after = i + length atem_start; msg = find_from atem_message after buf in
      if atem_marker_inside buf after (case msg of Some m \<Rightarrow> m | None \<Rightarrow> length buf) then literal_start buf i s
      else case msg of
        Some m \<Rightarrow> if atem_header_span < m - i - length atem_start then literal_start buf i s else open_header buf i m s
      | None \<Rightarrow> wait_header final buf i s)"

definition seek_turn :: "bool \<Rightarrow> muse_state \<Rightarrow> parsed \<times> muse_state \<times> bool" where
  "seek_turn final s =
     (let buf = m_buffer s; i = find_sub atem_start buf in
      case (case inline_search buf of
              Some (j, e, name) \<Rightarrow> if (case i of None \<Rightarrow> True | Some k \<Rightarrow> j < k) then Some (j, e, name) else None
            | None \<Rightarrow> None) of
        Some (j, e, name) \<Rightarrow>
          (let (p, s1) = begin_body name (text_slice j e buf) (s\<lparr>m_buffer := drop e buf\<rparr>) in
           (join_parsed (content (emit_seek (take j buf))) p, s1, True))
      | None \<Rightarrow>
          (case i of
             Some i \<Rightarrow> seek_start final buf i s
           | None \<Rightarrow> stream_tail final (\<lambda>piece. content (emit_seek piece)) buf s))"

definition body_turn :: "bool \<Rightarrow> muse_state \<Rightarrow> parsed \<times> muse_state \<times> bool" where
  "body_turn final s =
     (let buf = m_buffer s; r = recipient s in
      case segment_body_end buf of
        None \<Rightarrow> stream_tail final (muse_emit r) buf s
      | Some (e, kind) \<Rightarrow>
          (let body = take e buf @
                 (if own_channel r then [] else case kind of Closer tok \<Rightarrow> tok | _ \<Rightarrow> atem_eom) in
           case kind of
             Closer tok \<Rightarrow> (muse_emit r body, s\<lparr>m_buffer := drop (e + length tok) buf, m_mode := Seek\<rparr>, True)
           | Start \<Rightarrow> (muse_emit r body, s\<lparr>m_buffer := drop e buf, m_mode := Seek\<rparr>, True)
           | Inline e' name \<Rightarrow>
               (let (p, s1) = begin_body name (text_slice e e' buf) (s\<lparr>m_buffer := drop e' buf\<rparr>) in
                (join_parsed (muse_emit r body) p, s1, True))))"

definition drain_turn :: "bool \<Rightarrow> muse_state \<Rightarrow> parsed \<times> muse_state \<times> bool" where
  "drain_turn final s =
     (if m_buffer s = [] then (nothing, s, False)
      else case m_mode s of Seek \<Rightarrow> seek_turn final s | Body \<Rightarrow> body_turn final s)"

section \<open>The loop ends\<close>

definition drain_rank :: "muse_state \<Rightarrow> nat" where
  "drain_rank s = 2 * length (m_buffer s) + (case m_mode s of Body \<Rightarrow> 1 | Seek \<Rightarrow> 0)"

lemma marker_lengths [simp]:
  "length atem_start = 9" "length atem_message = 11" "length to_eq = 3" "length atem_eom = 7"
  by (simp_all add: atem_start_def atem_message_def to_eq_def atem_eom_def asc_def)

lemma find_sub_room: "find_sub sub t = Some i \<Longrightarrow> i + length sub \<le> length t"
  using find_from_ge [of sub 0 t i] by (simp add: find_from_def option.map_ident)

lemma inline_here_bound: "inline_here t = Some (name, n) \<Longrightarrow> 0 < n \<and> n \<le> length t"
proof -
  assume a: "inline_here t = Some (name, n)"
  let ?m = "takeWhile name_char (drop 3 t)"
  have p: "prefix atem_message (drop (3 + length ?m) t)" and n: "n = 3 + length ?m + 11"
    using a by (auto simp: inline_here_def Let_def split: if_splits)
  have "11 \<le> length (drop (3 + length ?m) t)" using prefix_length_le [OF p] by simp
  then show ?thesis using n by simp
qed

lemma inline_search_bound: "inline_search t = Some (i, e, name) \<Longrightarrow> i < e \<and> e \<le> length t"
  by (induction t arbitrary: i e) (auto split: option.splits dest!: inline_here_bound)

lemma begin_body_state [simp]: "snd (begin_body r h s) = s\<lparr>recipient := r, m_mode := Body\<rparr>"
  by (simp add: begin_body_def)

lemma body_end_of_bound:
  assumes "body_end_of buf tok best = Some (e, kind)" and "tok \<in> set (atem_closing @ [atem_start])"
    and "best = Some (e, kind) \<Longrightarrow> e < length buf \<and> (\<forall>t. kind = Closer t \<longrightarrow> t \<noteq> []) \<and> (\<forall>e' n. kind \<noteq> Inline e' n)"
  shows "e < length buf \<and> (\<forall>t. kind = Closer t \<longrightarrow> t \<noteq> []) \<and> (\<forall>e' n. kind \<noteq> Inline e' n)"
proof -
  have ne: "tok \<noteq> []" using assms(2) by (auto simp: atem_closing_def atem_start_def atem_eom_def asc_def)
  have "e < length buf" if "find_sub tok buf = Some e" using find_sub_room [OF that] ne by (cases tok) auto
  then show ?thesis using assms(1,3) ne
    by (auto simp: body_end_of_def split: option.splits if_splits)
qed

lemma segment_body_end_bound:
  assumes "segment_body_end buf = Some (e, kind)"
  shows "e < length buf" "kind = Closer t \<Longrightarrow> t \<noteq> []" "kind = Inline e' n \<Longrightarrow> e < e' \<and> e' \<le> length buf"
proof -
  have fold: "e < length buf \<and> (\<forall>t. kind = Closer t \<longrightarrow> t \<noteq> []) \<and> (\<forall>e' n. kind \<noteq> Inline e' n)"
    if "fold (body_end_of buf) toks best = Some (e, kind)" "set toks \<subseteq> set (atem_closing @ [atem_start])"
      "\<And>e kind. best = Some (e, kind) \<Longrightarrow> e < length buf \<and> (\<forall>t. kind = Closer t \<longrightarrow> t \<noteq> []) \<and> (\<forall>e' n. kind \<noteq> Inline e' n)"
    for toks best e kind
    using that
  proof (induction toks arbitrary: best)
    case (Cons a toks)
    have "f < length buf \<and> (\<forall>t. k = Closer t \<longrightarrow> t \<noteq> []) \<and> (\<forall>e' n. k \<noteq> Inline e' n)" if "body_end_of buf a best = Some (f, k)" for f k
      by (rule body_end_of_bound [OF that]) (use Cons.prems in auto)
    with Cons.IH [of "body_end_of buf a best"] Cons.prems show ?case by simp
  qed simp
  let ?best = "fold (body_end_of buf) (atem_closing @ [atem_start]) None"
  note b = fold [of "atem_closing @ [atem_start]" None e kind]
  have "?best = Some (e, kind) \<or> (\<exists>e' n. inline_search buf = Some (e, e', n) \<and> kind = Inline e' n)"
    using assms by (auto simp: segment_body_end_def Let_def split: option.splits prod.splits if_splits)
  then show "e < length buf" "kind = Closer t \<Longrightarrow> t \<noteq> []" "kind = Inline e' n \<Longrightarrow> e < e' \<and> e' \<le> length buf"
    using b inline_search_bound by fastforce+
qed

lemma seek_start_less:
  assumes "seek_start final buf i s = (p, s', True)" and "find_sub atem_start buf = Some i"
    and "m_buffer s = buf" and "m_mode s = Seek"
  shows "drain_rank s' < drain_rank s"
proof -
  have i: "i + 9 \<le> length buf" using find_sub_room [OF assms(2)] by simp
  have m: "i + 9 \<le> m \<and> m + 11 \<le> length buf" if "find_from atem_message (i + 9) buf = Some m" for m
    using find_from_ge [OF that] by simp
  show ?thesis using assms(1,3,4) i m
    by (auto simp: seek_start_def literal_start_def open_header_def wait_header_def begin_body_def Let_def drain_rank_def
        split: if_splits option.splits prod.splits)
qed

lemma drain_turn_less: "drain_turn final s = (p, s', True) \<Longrightarrow> drain_rank s' < drain_rank s"
proof -
  assume turn: "drain_turn final s = (p, s', True)"
  then have ne: "m_buffer s \<noteq> []" by (auto simp: drain_turn_def)
  show ?thesis
  proof (cases "m_mode s")
    case Seek
    then have t: "seek_turn final s = (p, s', True)" using turn ne by (simp add: drain_turn_def)
    show ?thesis
    proof (cases "\<exists>j e name. inline_search (m_buffer s) = Some (j, e, name) \<and>
        (case find_sub atem_start (m_buffer s) of None \<Rightarrow> True | Some k \<Rightarrow> j < k)")
      case True
      then show ?thesis using t Seek inline_search_bound
        by (fastforce simp: seek_turn_def begin_body_def Let_def drain_rank_def split: option.splits)
    next
      case False
      then have t': "(case find_sub atem_start (m_buffer s) of
             Some i \<Rightarrow> seek_start final (m_buffer s) i s
           | None \<Rightarrow> stream_tail final (\<lambda>piece. content (emit_seek piece)) (m_buffer s) s) = (p, s', True)"
        using t by (auto simp: seek_turn_def Let_def split: option.splits prod.splits if_splits)
      then obtain i where "find_sub atem_start (m_buffer s) = Some i" "seek_start final (m_buffer s) i s = (p, s', True)"
        by (auto simp: stream_tail_def Let_def split: option.splits)
      then show ?thesis using seek_start_less Seek by blast
    qed
  next
    case Body
    then have t: "body_turn final s = (p, s', True)" using turn ne by (simp add: drain_turn_def)
    then obtain e kind where e: "segment_body_end (m_buffer s) = Some (e, kind)"
      by (auto simp: body_turn_def stream_tail_def Let_def split: option.splits)
    note b = segment_body_end_bound [OF e]
    show ?thesis
    proof (cases kind)
      case (Closer tok)
      then have "tok \<noteq> []" using b(2) by blast
      then show ?thesis using t e b(1) Closer Body by (auto simp: body_turn_def drain_rank_def Let_def)
    next
      case Start
      then show ?thesis using t e b(1) Body by (auto simp: body_turn_def drain_rank_def Let_def)
    next
      case (Inline e' name)
      then show ?thesis using t e b(3) [OF Inline] Body by (auto simp: body_turn_def begin_body_def drain_rank_def Let_def)
    qed
  qed
qed

text \<open>\<open>_drain\<close>\<close>

function drain_muse :: "bool \<Rightarrow> muse_state \<Rightarrow> parsed \<times> muse_state" where
  "drain_muse final s =
     (case drain_turn final s of
        (p, s1, False) \<Rightarrow> (p, s1)
      | (p, s1, True) \<Rightarrow> (let (q, s2) = drain_muse final s1 in (join_parsed p q, s2)))"
  by pat_completeness auto
termination
  by (relation "measure (\<lambda>(final, s). drain_rank s)") (auto dest!: drain_turn_less [OF sym])

declare drain_muse.simps [simp del]

definition muse_increment :: "utext \<Rightarrow> muse_state \<Rightarrow> parsed \<times> muse_state" where
  "muse_increment new s = drain_muse False (s\<lparr>m_buffer := m_buffer s @ new\<rparr>)"

definition muse_flush :: "muse_state \<Rightarrow> parsed \<times> muse_state" where
  "muse_flush s = drain_muse True s"

definition muse_detect :: "bool \<Rightarrow> utext \<Rightarrow> parsed" where
  "muse_detect header_open t =
     (if \<not> list_ex (\<lambda>tok. contains tok t) atem_tokens then \<lparr>reasoning_text = [], normal_text = t\<rparr>
      else let (a, s) = muse_increment t (new_muse header_open); (b, _) = muse_flush s; r = join_parsed a b in
           \<lparr>reasoning_text = strip (reasoning_text r), normal_text = strip (normal_text r)\<rparr>)"

end
