(* ===== verification/Reasoning_Registry.thy ===== *)
theory Reasoning_Registry
  imports Muse Reasoning_Stream
begin

text \<open>
  What the Muse Glimmer parser may hold between two chunks, and \<open>ReasoningParser\<close> with
  \<open>build_reasoning_parser\<close>: the parsers of all families behind one interface.
\<close>

section \<open>The hold-back of the Muse Glimmer parser\<close>

lemma switch_hold_le: "switch_hold t \<le> length t"
  by (auto simp: switch_hold_def Let_def)

lemma from_last_suffix: "from_last sub t = Some u \<Longrightarrow> suffix u t"
  by (induction t) (auto split: option.splits if_splits simp: suffix_Cons)

lemma hold_suffix_le: "hold_suffix t p best \<le> max best (length p)"
  by (simp add: hold_suffix_def)

lemma atem_hold_bound: "atem_hold_len t \<le> 96"
proof -
  have "length tok \<le> Suc 14" if "tok \<in> set atem_tokens" for tok
    using that by (auto simp: atem_tokens_def atem_closing_def) (simp_all add: asc_def)
  then have "atem_partial_suffix t \<le> 14" unfolding atem_partial_suffix_def by (rule longest_hold_bound)
  moreover have "switch_hold u \<le> 96" if "from_last to_eq (last_n atem_hold_window t) = Some u" for u
    using switch_hold_le [of u] suffix_length_le [OF from_last_suffix [OF that]] by (simp add: last_n_def atem_hold_window_def)
  ultimately have "(case from_last to_eq (last_n atem_hold_window t) of None \<Rightarrow> atem_partial_suffix t
      | Some tail \<Rightarrow> max (atem_partial_suffix t) (switch_hold tail)) \<le> 96"
    by (auto split: option.splits)
  then show ?thesis
    using order_trans [OF hold_suffix_le] by (fastforce simp: atem_hold_len_def Let_def asc_def)
qed

lemma suffix_drop_of [simp]: "suffix (drop n t) t"
  by (rule suffix_drop)

lemma stream_tail_holds:
  assumes "stream_tail final emit (m_buffer s) s = (p, s', again)"
  shows "suffix (m_buffer s') (m_buffer s) \<and> \<not> again \<and> length (m_buffer s') \<le> (if final then 0 else 96)"
  using assms atem_hold_bound [of "m_buffer s"] by (auto simp: stream_tail_def Let_def split: if_splits)

lemma seek_start_holds:
  assumes "seek_start final (m_buffer s) i s = (p, s', again)"
  shows "suffix (m_buffer s') (m_buffer s) \<and> (\<not> again \<longrightarrow> length (m_buffer s') \<le> (if final then 0 else 148))"
  using assms
  by (auto simp: seek_start_def literal_start_def open_header_def wait_header_def begin_body_def Let_def atem_header_span_def
      split: if_splits option.splits intro: suffix_order.trans [OF suffix_drop suffix_drop])

lemma drain_turn_holds:
  assumes "drain_turn final s = (p, s', again)"
  shows "suffix (m_buffer s') (m_buffer s) \<and> (\<not> again \<longrightarrow> length (m_buffer s') \<le> (if final then 0 else 148))"
proof (cases "m_buffer s = []")
  case True
  then show ?thesis using assms by (simp add: drain_turn_def)
next
  case ne: False
  show ?thesis
  proof (cases "m_mode s")
    case Seek
    then have t: "seek_turn final s = (p, s', again)" using assms ne by (simp add: drain_turn_def)
    consider (inline) j e name where "s' = s\<lparr>m_buffer := drop e (m_buffer s), recipient := name, m_mode := Body\<rparr>" "again"
      | (start) i where "seek_start final (m_buffer s) i s = (p, s', again)"
      | (tail) emit where "stream_tail final emit (m_buffer s) s = (p, s', again)"
      using t by (auto simp: seek_turn_def begin_body_def Let_def split: option.splits prod.splits if_splits)
    then show ?thesis
    proof cases
      case start
      then show ?thesis by (rule seek_start_holds)
    next
      case tail
      from stream_tail_holds [OF tail] show ?thesis by (auto split: if_splits)
    qed simp
  next
    case Body
    then have t: "body_turn final s = (p, s', again)" using assms ne by (simp add: drain_turn_def)
    show ?thesis
    proof (cases "segment_body_end (m_buffer s)")
      case None
      then have "stream_tail final (muse_emit (recipient s)) (m_buffer s) s = (p, s', again)"
        using t by (simp add: body_turn_def Let_def)
      from stream_tail_holds [OF this] show ?thesis by (auto split: if_splits)
    next
      case (Some ek)
      then have "again \<and> (\<exists>n. m_buffer s' = drop n (m_buffer s))"
        using t by (auto simp: body_turn_def begin_body_def Let_def split: prod.splits body_boundary.splits)
      then show ?thesis by auto
    qed
  qed
qed

lemma drain_muse_holds:
  "drain_muse final s = (p, s') \<Longrightarrow> suffix (m_buffer s') (m_buffer s) \<and> length (m_buffer s') \<le> (if final then 0 else 148)"
proof (induction final s arbitrary: p s' rule: drain_muse.induct)
  case (1 final s)
  obtain q s1 again where turn: "drain_turn final s = (q, s1, again)" by (cases "drain_turn final s")
  note h = drain_turn_holds [OF turn]
  show ?case
  proof (cases again)
    case True
    then obtain r where r: "drain_muse final s1 = (r, s')"
      using "1.prems" turn by (subst (asm) drain_muse.simps) (auto split: prod.splits)
    have "suffix (m_buffer s') (m_buffer s1) \<and> length (m_buffer s') \<le> (if final then 0 else 148)"
      by (rule "1.IH" [OF turn [symmetric] refl _ r]) (use True in simp)
    then show ?thesis using h suffix_order.trans by blast
  next
    case False
    then have "s' = s1" using "1.prems" turn by (subst (asm) drain_muse.simps) simp
    then show ?thesis using h False by simp
  qed
qed

text \<open>C32. Whatever arrives, the Muse Glimmer parser holds back at most the longest header it may still have
  to wait for, 148 characters, and these are the last ones that arrived; at the end of the stream it
  holds nothing.\<close>

theorem muse_buffer_bounded:
  "suffix (m_buffer (snd (muse_increment new s))) (m_buffer s @ new) \<and>
   length (m_buffer (snd (muse_increment new s))) \<le> atem_header_span + length atem_message + length atem_start \<and>
   m_buffer (snd (muse_flush s)) = []"
proof -
  obtain p s' where 1: "muse_increment new s = (p, s')" by fastforce
  obtain q t where 2: "muse_flush s = (q, t)" by fastforce
  show ?thesis
    using drain_muse_holds [OF 1 [unfolded muse_increment_def]] drain_muse_holds [OF 2 [unfolded muse_flush_def]] 1 2
    by (simp add: atem_header_span_def)
qed

section \<open>The registry\<close>

datatype detector =
    Think think_cfg think_state
  | M3 think_cfg m3_state
  | Harmony harmony_state
  | Muse bool muse_state

definition parser_table :: "(string \<times> (bool \<Rightarrow> bool \<Rightarrow> detector)) list" where
  "parser_table =
     [(''deepseekv32'', \<lambda>force strm. Think (deepseek_cfg force strm) (new_think (deepseek_cfg force strm))),
      (''gpt_oss'', \<lambda>force strm. Harmony new_harmony),
      (''qwen3'', \<lambda>force strm. Think (think_family_cfg force strm) (new_think (think_family_cfg force strm))),
      (''glm'', \<lambda>force strm. Think (think_family_cfg force strm) (new_think (think_family_cfg force strm))),
      (''minimax'', \<lambda>force strm. Think (think_family_cfg force strm) (new_think (think_family_cfg force strm))),
      (''minimax_m3'', \<lambda>force strm. M3 (m3_cfg force strm) (new_m3 (m3_cfg force strm))),
      (''muse_glimmer'', \<lambda>force strm. Muse True (new_muse True)),
      (''gemma4'', \<lambda>force strm. Think (gemma_cfg force strm) (new_think (gemma_cfg force strm)))]"

definition new_reasoning_parser :: "string \<Rightarrow> bool \<Rightarrow> bool \<Rightarrow> string + detector" where
  "new_reasoning_parser name force strm =
     (case map_of parser_table name of
        None \<Rightarrow> Inl (''Unsupported reasoning_parser: '' @ name)
      | Some cls \<Rightarrow> Inr (cls force strm))"

definition parse_non_stream :: "detector \<Rightarrow> utext \<Rightarrow> parsed" where
  "parse_non_stream d t =
     (case d of
        Think c s \<Rightarrow> detect_and_parse c s t
      | M3 c s \<Rightarrow> m3_detect c t
      | Harmony s \<Rightarrow> harmony_detect t
      | Muse header_open s \<Rightarrow> muse_detect header_open t)"

definition parse_stream_chunk :: "utext \<Rightarrow> detector \<Rightarrow> parsed \<times> detector" where
  "parse_stream_chunk t d =
     (case d of
        Think c s \<Rightarrow> map_prod id (Think c) (parse_streaming_increment c t s)
      | M3 c s \<Rightarrow> map_prod id (M3 c) (m3_increment c t s)
      | Harmony s \<Rightarrow> map_prod id Harmony (harmony_increment t s)
      | Muse header_open s \<Rightarrow> map_prod id (Muse header_open) (muse_increment t s))"

definition flush_parser :: "detector \<Rightarrow> parsed \<times> detector" where
  "flush_parser d =
     (case d of
        Think c s \<Rightarrow> map_prod id (Think c) (flush_think c s)
      | M3 c s \<Rightarrow> map_prod id (M3 c) (m3_flush c s)
      | Harmony s \<Rightarrow> map_prod id Harmony (harmony_flush s)
      | Muse header_open s \<Rightarrow> map_prod id (Muse header_open) (muse_flush s))"

definition build_reasoning_parser :: "string option \<Rightarrow> bool \<Rightarrow> string + detector option" where
  "build_reasoning_parser name force =
     (case name of
        None \<Rightarrow> Inr None
      | Some n \<Rightarrow>
          if n = [] then Inr None
          else map_sum id Some (new_reasoning_parser n (if n = ''minimax'' then True else force) True))"

end
