(* ===== verification/Expert_Cache.thy ===== *)
theory Expert_Cache
  imports Prelude Complex_Main "HOL-Library.Product_Lexorder"
begin

text \<open>
  The expert cache of the MoE layers (\<open>moe/offload_cache.py\<close>, \<open>moe/offload_kernels.py\<close>): a fixed set of
  GPU slots holds expert rows of all layers, chosen least recently used first. This theory has the
  state, the capped ensure of the hybrid backend as the CPU reference and as the GPU kernel, the
  materialization of a whole layer and the reset. Tensors are lists, their integers \<open>int\<close>; the lanes of
  a kernel are the list of their indices.
\<close>

section \<open>State\<close>

text \<open>A bank holds one kind of expert rows: the host rows per layer, the rows of the GPU slots, the bytes
  of a row.\<close>

record 'r bank =
  bank_src :: "'r list list"
  bank_rows :: "'r list"
  feat_bytes :: nat

record 'r moe_cache =
  layers :: nat
  experts :: nat
  slots :: nat
  banks :: "'r bank list"
  slot_for_id :: "int list"
  id_of_slot :: "int list"
  slot_usage :: "int list"
  lru_step :: int
  active_mask :: "int list"
  evict_slots :: "int list"
  src_indices :: "int list"
  num_indices :: int
  num_missing_full :: int
  expert_recency :: "int list"
  pending_src_layer :: "nat option"
  pending_whole_layer :: bool
  unpinned_layers :: "nat list"
  prefill_overlap :: bool
  prefill_hit_d2d :: bool
  hit_device_ok :: bool
  buffer_layer :: "nat option list"
  buffer_released :: "bool list"
  hit_d2d_active :: bool
  slot_snapshot :: "int list"
  prefill_hit_rows :: nat
  prefill_total_rows :: nat

text \<open>The tensors of \<open>__post_init__\<close> and \<open>set_bank_sources\<close> for banks of empty slots.\<close>

definition flat_id :: "'r moe_cache \<Rightarrow> nat \<Rightarrow> int \<Rightarrow> int" where
  "flat_id c layer e = int (layer * experts c) + e"

definition slot_of :: "'r moe_cache \<Rightarrow> nat \<Rightarrow> int \<Rightarrow> int" where
  "slot_of c layer e = slot_for_id c ! nat (flat_id c layer e)"

definition put :: "int \<Rightarrow> 'a \<Rightarrow> 'a list \<Rightarrow> 'a list" where
  "put i v xs = xs[nat i := v]"

lemma length_put [simp]: "length (put i v xs) = length xs"
  by (simp add: put_def)

section \<open>The capped ensure: the CPU reference\<close>

text \<open>The experts of the routing in the order of their first occurrence.\<close>

definition seen_experts :: "int list \<Rightarrow> int list" where
  "seen_experts ids = fold (\<lambda>e seen. if e \<in> set seen then seen else seen @ [e]) ids []"

text \<open>The split of the misses between the PCIe fetch and the CPU.\<close>

definition q16 :: int where "q16 = 2 ^ 16"

definition split_cost :: "int \<Rightarrow> int \<Rightarrow> int \<Rightarrow> int" where
  "split_cost fq m f = max (f * (q16 - fq)) ((m - f) * fq)"

definition capped_fetch :: "int \<Rightarrow> int \<Rightarrow> int \<Rightarrow> int" where
  "capped_fetch max_fetch fq m =
     (if 0 < fq then
        let lo = (m * fq) div q16 in
        min m (if split_cost fq m lo \<le> split_cost fq m (lo + 1) then lo else lo + 1)
      else min m max_fetch)"

text \<open>\<open>min(range(n), key=lambda s: (usage[s], s))\<close>\<close>

definition oldest_slot :: "int list \<Rightarrow> nat \<Rightarrow> nat" where
  "oldest_slot usage n = hd (sort_key (\<lambda>s. (usage ! s, s)) [0..<n])"

text \<open>Giving one slot to an expert.\<close>

definition give_slot :: "nat \<Rightarrow> int \<Rightarrow> nat \<Rightarrow> int \<Rightarrow> int \<Rightarrow> 'r moe_cache \<Rightarrow> 'r moe_cache" where
  "give_slot layer step i victim e c =
     (let old_id = id_of_slot c ! nat victim;
          c = (if 0 \<le> old_id then c\<lparr>slot_for_id := put old_id (- 1) (slot_for_id c)\<rparr> else c) in
      c\<lparr>id_of_slot := put victim (flat_id c layer e) (id_of_slot c),
        slot_for_id := put (flat_id c layer e) victim (slot_for_id c),
        slot_usage := put victim step (slot_usage c),
        evict_slots := (evict_slots c)[i := victim],
        src_indices := (src_indices c)[i := e]\<rparr>)"

fun fetch_loop :: "nat \<Rightarrow> int \<Rightarrow> nat \<Rightarrow> int list \<Rightarrow> 'r moe_cache \<Rightarrow> 'r moe_cache" where
  "fetch_loop layer step i [] c = c"
| "fetch_loop layer step i (e # es) c =
     fetch_loop layer step (Suc i) es (give_slot layer step i (int (oldest_slot (slot_usage c) (slots c))) e c)"

definition touch_hits :: "nat \<Rightarrow> int \<Rightarrow> int list \<Rightarrow> 'r moe_cache \<Rightarrow> int list \<Rightarrow> int list" where
  "touch_hits layer step es c usage =
     fold (\<lambda>e u. if slot_of c layer e \<noteq> - 1 then put (slot_of c layer e) step u else u) es usage"

definition missing_experts :: "bool \<Rightarrow> nat \<Rightarrow> int list \<Rightarrow> 'r moe_cache \<Rightarrow> int list" where
  "missing_experts by_recency layer seen c =
     (let missing = filter (\<lambda>e. slot_of c layer e = - 1) seen in
      if by_recency then sort_key (\<lambda>e. (- (expert_recency c ! nat (flat_id c layer e)), e)) missing else sort missing)"

definition rewrite_ids :: "nat \<Rightarrow> 'r moe_cache \<Rightarrow> int list \<Rightarrow> int list" where
  "rewrite_ids layer c ids = map (slot_of c layer) ids"

definition ensure_hybrid_cpu :: "bool \<Rightarrow> nat \<Rightarrow> int list \<Rightarrow> int \<Rightarrow> int \<Rightarrow> 'r moe_cache \<Rightarrow> int list \<times> 'r moe_cache" where
  "ensure_hybrid_cpu by_recency layer ids max_fetch fq c =
     (let seen = seen_experts ids; step = lru_step c + 1;
          c = c\<lparr>lru_step := step,
                active_mask := fold (\<lambda>e. put e 1) seen (replicate (length (active_mask c)) 0),
                slot_usage := touch_hits layer step seen c (slot_usage c)\<rparr>;
          missing = missing_experts by_recency layer seen c;
          num_fetch = capped_fetch max_fetch fq (int (length missing));
          c = c\<lparr>num_missing_full := int (length missing), num_indices := num_fetch\<rparr>;
          c = fetch_loop layer step 0 (take (nat num_fetch) missing) c;
          c = (if by_recency
               then c\<lparr>expert_recency := fold (\<lambda>e. put (flat_id c layer e) step) seen (expert_recency c)\<rparr> else c) in
      (rewrite_ids layer c ids, c))"

section \<open>The capped ensure: the GPU kernel\<close>

fun next_power_of_2 :: "nat \<Rightarrow> nat" where
  "next_power_of_2 n = (if n \<le> 1 then 1 else 2 * next_power_of_2 ((n + 1) div 2))"

declare next_power_of_2.simps [simp del]

text \<open>\<open>tl.load(ptr + off, mask, other)\<close> and \<open>tl.store(ptr + off, value, mask)\<close> over the lanes.\<close>

definition load :: "int list \<Rightarrow> nat \<Rightarrow> (nat \<Rightarrow> nat) \<Rightarrow> (nat \<Rightarrow> bool) \<Rightarrow> int \<Rightarrow> int list" where
  "load ptr block off lane other = map (\<lambda>i. if lane i then ptr ! off i else other) [0..<block]"

definition store :: "nat \<Rightarrow> (nat \<Rightarrow> int) \<Rightarrow> (nat \<Rightarrow> int) \<Rightarrow> (nat \<Rightarrow> bool) \<Rightarrow> int list \<Rightarrow> int list" where
  "store block off val lane ptr = fold (\<lambda>i p. if lane i then put (off i) (val i) p else p) [0..<block] ptr"

text \<open>\<open>tl.argmin\<close> and \<open>tl.argmax\<close>: the first lane with the least, the greatest value.\<close>

definition argmin :: "int list \<Rightarrow> nat" where
  "argmin xs = fold (\<lambda>i b. if xs ! i < xs ! b then i else b) [0..<length xs] 0"

definition argmax :: "int list \<Rightarrow> nat" where
  "argmax xs = fold (\<lambda>i b. if xs ! b < xs ! i then i else b) [0..<length xs] 0"

definition max_int64 :: int where "max_int64 = 9223372036854775807"
definition no_score :: int where "no_score = - 1152921504606846976"

text \<open>Phase 2: the victim of the greatest age, the expert of the highest priority, for each fetch.\<close>

definition lane_value :: "nat \<Rightarrow> int list \<Rightarrow> int" where
  "lane_value i xs = sum_list (map (\<lambda>k. if k = i then xs ! k else 0) [0..<length xs])"

definition ranked_lane :: "int list \<Rightarrow> bool list \<Rightarrow> nat \<Rightarrow> int" where
  "ranked_lane rank is_missing i =
     sum_list (map (\<lambda>k. if rank ! k = int i \<and> is_missing ! k then int k else 0) [0..<length rank])"

fun kernel_fetch :: "bool \<Rightarrow> nat \<Rightarrow> int \<Rightarrow> int list \<Rightarrow> int list \<Rightarrow> bool list \<Rightarrow> nat \<Rightarrow> nat \<Rightarrow> int list \<Rightarrow> int list \<Rightarrow>
    'r moe_cache \<Rightarrow> 'r moe_cache" where
  "kernel_fetch by_recency layer step oid rank is_missing 0 i u score c = c"
| "kernel_fetch by_recency layer step oid rank is_missing (Suc n) i u score c =
     (let victim = argmin u;
          old_id = lane_value victim oid;
          slot_tab = (if 0 \<le> old_id then put old_id (- 1) (slot_for_id c) else slot_for_id c);
          e = (if by_recency then int (argmax score) else ranked_lane rank is_missing i);
          score = (if by_recency then score[nat e := no_score] else score);
          c = c\<lparr>id_of_slot := put (int victim) (flat_id c layer e) (id_of_slot c),
                slot_for_id := put (flat_id c layer e) (int victim) slot_tab,
                slot_usage := put (int victim) step (slot_usage c),
                evict_slots := (evict_slots c)[i := int victim],
                src_indices := (src_indices c)[i := e]\<rparr> in
      kernel_fetch by_recency layer step oid rank is_missing n (Suc i) (u[victim := max_int64]) score c)"

definition cumsum :: "int list \<Rightarrow> int list" where
  "cumsum xs = map (\<lambda>i. sum_list (take (Suc i) xs)) [0..<length xs]"

definition ensure_hybrid_gpu :: "bool \<Rightarrow> nat \<Rightarrow> int list \<Rightarrow> int \<Rightarrow> int \<Rightarrow> 'r moe_cache \<Rightarrow> int list \<times> 'r moe_cache" where
  "ensure_hybrid_gpu by_recency layer ids max_fetch fq c =
     (let step = lru_step c + 1; base = layer * experts c; E = experts c;
          block_e = next_power_of_2 E; block_c = next_power_of_2 (slots c);
          is_active = map (\<lambda>k. int k \<in> set ids) [0..<block_e];
          slot = load (slot_for_id c) block_e (\<lambda>k. base + k) (\<lambda>k. k < E) (- 1);
          is_missing = map (\<lambda>k. is_active ! k \<and> slot ! k = - 1 \<and> k < E) [0..<block_e];
          num_missing = int (length (filter id is_missing));
          num_fetch = capped_fetch max_fetch fq num_missing;
          rec = load (expert_recency c) block_e (\<lambda>k. base + k) (\<lambda>k. k < E) (- 1);
          score = map (\<lambda>k. if is_missing ! k then rec ! k * int E + (int E - 1 - int k) else no_score) [0..<block_e];
          rank = map (\<lambda>n. n - 1) (cumsum (map of_bool is_missing));
          c = c\<lparr>lru_step := step,
                active_mask := store block_e int (\<lambda>k. of_bool (is_active ! k)) (\<lambda>k. k < E) (active_mask c),
                num_missing_full := num_missing, num_indices := num_fetch,
                slot_usage := store block_e (\<lambda>k. slot ! k) (\<lambda>_. step) (\<lambda>k. is_active ! k \<and> 0 \<le> slot ! k) (slot_usage c)\<rparr>;
          oid = load (id_of_slot c) block_c id (\<lambda>k. k < slots c) (- 1);
          u0 = load (slot_usage c) block_c id (\<lambda>k. k < slots c) max_int64;
          owner_active = map (\<lambda>k. \<exists>e \<in> set ids. oid ! k = int base + e) [0..<block_c];
          u = map (\<lambda>k. if owner_active ! k \<or> \<not> k < slots c then max_int64 else u0 ! k) [0..<block_c];
          c = kernel_fetch by_recency layer step oid rank is_missing (nat num_fetch) 0 u score c;
          out = map (\<lambda>e. slot_for_id c ! nat (int base + e)) ids;
          c = (if by_recency
               then c\<lparr>expert_recency := store block_e (\<lambda>k. int (base + k)) (\<lambda>_. step) (\<lambda>k. is_active ! k \<and> k < E) (expert_recency c)\<rparr>
               else c) in
      (out, c))"

section \<open>Ensuring\<close>

text \<open>The fraction as Q16 fixed point; \<open>round\<close> of Python rounds halves to even.\<close>

definition round_even :: "rat \<Rightarrow> int" where
  "round_even x =
     (let n = \<lfloor>x\<rfloor>; d = x - of_int n in
      if d < 1 / 2 then n else if 1 / 2 < d then n + 1 else if even n then n else n + 1)"

definition fetch_q16 :: "rat \<Rightarrow> int" where
  "fetch_q16 fraction = min q16 (max 0 (round_even (fraction * of_int q16)))"

text \<open>\<open>OffloadMoeCache.ensure_experts_hybrid\<close> with the reference or the kernel as \<open>ens\<close>.\<close>

definition ensure_experts_hybrid ::
    "(int \<Rightarrow> int \<Rightarrow> 'r moe_cache \<Rightarrow> int list \<times> 'r moe_cache) \<Rightarrow> int \<Rightarrow> rat \<Rightarrow> nat \<Rightarrow> 'r moe_cache \<Rightarrow> int list \<times> 'r moe_cache" where
  "ensure_experts_hybrid ens max_fetch fraction layer c =
     ens max_fetch (fetch_q16 fraction) (c\<lparr>pending_src_layer := Some layer, pending_whole_layer := False\<rparr>)"

text \<open>The uncapped ensure is the slot cache of an external library: \<open>lru_ensure\<close> rewrites the ids it is
  given and the tables of the cache, with the flat id of the first expert of the layer as its base.\<close>

definition ensure_experts ::
    "(int \<Rightarrow> int list \<Rightarrow> 'r moe_cache \<Rightarrow> int list \<times> 'r moe_cache) \<Rightarrow> nat \<Rightarrow> int list \<Rightarrow> 'r moe_cache \<Rightarrow> int list \<times> 'r moe_cache" where
  "ensure_experts lru_ensure layer ids c =
     (let c = c\<lparr>pending_src_layer := Some layer, pending_whole_layer := False\<rparr> in
      lru_ensure (int (layer * experts c)) ids c)"

section \<open>Materializing a layer, resetting\<close>

definition materialize_kernel :: "nat \<Rightarrow> 'r moe_cache \<Rightarrow> 'r moe_cache" where
  "materialize_kernel layer c =
     (let E = experts c; base = layer * E; block = next_power_of_2 (max E (slots c));
          old_id = load (id_of_slot c) block id (\<lambda>k. k < slots c) (- 1);
          same_layer = map (\<lambda>k. k < slots c \<and> int base \<le> old_id ! k \<and> old_id ! k < int (base + E)) [0..<block];
          step = lru_step c + 1;
          ids = store block int (\<lambda>_. - 1) (\<lambda>k. same_layer ! k) (id_of_slot c);
          usage = store block int (\<lambda>_. 0) (\<lambda>k. same_layer ! k) (slot_usage c);
          tab = store block (\<lambda>k. old_id ! k) (\<lambda>_. - 1) (\<lambda>k. k < E \<and> 0 \<le> old_id ! k \<and> \<not> same_layer ! k) (slot_for_id c) in
      c\<lparr>lru_step := step,
        id_of_slot := store block int (\<lambda>k. int (base + k)) (\<lambda>k. k < E) ids,
        slot_for_id := store block (\<lambda>k. int (base + k)) int (\<lambda>k. k < E) tab,
        slot_usage := store block int (\<lambda>_. step) (\<lambda>k. k < E) usage,
        evict_slots := store block int int (\<lambda>k. k < E) (evict_slots c),
        src_indices := store block int int (\<lambda>k. k < E) (src_indices c),
        num_indices := int E\<rparr>)"

definition materialize_layer :: "nat \<Rightarrow> 'r moe_cache \<Rightarrow> 'r moe_cache" where
  "materialize_layer layer c =
     materialize_kernel layer (c\<lparr>pending_src_layer := Some layer, pending_whole_layer := True\<rparr>)"

text \<open>\<open>reset\<close>: the kernel runs over blocks of 256 lanes, enough for the ids and the slots.\<close>

definition reset_cache :: "'r moe_cache \<Rightarrow> 'r moe_cache" where
  "reset_cache c =
     (let total = layers c * experts c; n = div_ceil (max total (slots c)) 256 * 256 in
      c\<lparr>slot_for_id := store n int (\<lambda>_. - 1) (\<lambda>k. k < total) (slot_for_id c),
        id_of_slot := store n int (\<lambda>_. - 1) (\<lambda>k. k < slots c) (id_of_slot c),
        slot_usage := store n int (\<lambda>_. 0) (\<lambda>k. k < slots c) (slot_usage c),
        active_mask := store n int (\<lambda>_. 0) (\<lambda>k. k < experts c) (active_mask c),
        lru_step := 0, num_indices := 0\<rparr>)"

definition cache_reset :: "'r moe_cache \<Rightarrow> 'r moe_cache" where
  "cache_reset c = (let c = reset_cache c in c\<lparr>expert_recency := replicate (length (expert_recency c)) (- 1)\<rparr>)"

section \<open>Moving the rows\<close>

text \<open>\<open>copy_missing\<close>: the staged rows of the pending layer, or the whole layer when it has no device
  address. The copy of a bank skips what its bounds checks refuse, as \<open>copy_status\<close> would record.\<close>

definition in_rows :: "int \<Rightarrow> nat \<Rightarrow> bool" where
  "in_rows i n \<longleftrightarrow> 0 \<le> i \<and> i < int n"

definition copy_bank :: "nat \<Rightarrow> int list \<Rightarrow> int list \<Rightarrow> int \<Rightarrow> 'r bank \<Rightarrow> 'r bank" where
  "copy_bank layer dst src n b =
     b\<lparr>bank_rows := fold (\<lambda>j rows.
         if in_rows (dst ! j) (length rows) \<and> in_rows (src ! j) (length (bank_src b ! layer))
         then put (dst ! j) (bank_src b ! layer ! nat (src ! j)) rows else rows)
       (if in_rows n (Suc (length dst)) then [0..<nat n] else []) (bank_rows b)\<rparr>"

definition copy_missing :: "'r moe_cache \<Rightarrow> 'r moe_cache result" where
  "copy_missing c =
     py_assert (banks c \<noteq> [])
       (case pending_src_layer c of
          None \<Rightarrow> Inl AssertionError
        | Some layer \<Rightarrow>
            if layer \<in> set (unpinned_layers c) then
              (if \<not> pending_whole_layer c then Inl RuntimeError
               else Inr (c\<lparr>banks := map (\<lambda>b. b\<lparr>bank_rows := bank_src b ! layer @ drop (experts c) (bank_rows b)\<rparr>) (banks c)\<rparr>))
            else Inr (c\<lparr>banks := map (copy_bank layer (evict_slots c) (src_indices c) (num_indices c)) (banks c)\<rparr>))"

section \<open>Rebuilding\<close>

definition marlin_max_cache_size :: nat where "marlin_max_cache_size = 992"

definition validate_slots :: "nat option \<Rightarrow> bool \<Rightarrow> nat \<Rightarrow> 'r moe_cache \<Rightarrow> unit result" where
  "validate_slots max_slots marlin n c =
     (if n < experts c then Inl ValueError
      else if (case max_slots of Some m \<Rightarrow> m < n | None \<Rightarrow> False) then Inl ValueError
      else if marlin \<and> marlin_max_cache_size < n then Inl ValueError
      else Inr ())"

definition cold_cache :: "nat \<Rightarrow> 'r moe_cache \<Rightarrow> 'r moe_cache" where
  "cold_cache n c =
     c\<lparr>slots := n,
       slot_for_id := replicate (layers c * experts c) (- 1),
       id_of_slot := replicate n (- 1),
       slot_usage := replicate n 0,
       evict_slots := replicate (max (experts c) n) 0,
       src_indices := replicate (max (experts c) n) 0,
       lru_step := 0,
       active_mask := replicate (experts c) 0,
       num_indices := 0, num_missing_full := 0,
       expert_recency := replicate (layers c * experts c) (- 1),
       buffer_layer := [None, None], buffer_released := [True, True],
       prefill_hit_rows := 0, prefill_total_rows := 0,
       prefill_overlap := prefill_overlap c \<and> 2 * experts c \<le> n\<rparr>"

definition rebuild_experts :: "'r \<Rightarrow> nat option \<Rightarrow> bool \<Rightarrow> nat \<Rightarrow> 'r moe_cache \<Rightarrow> 'r moe_cache result" where
  "rebuild_experts zero max_slots marlin n c =
     py_assert (banks c \<noteq> [])
       (rbind (validate_slots max_slots marlin n c) (\<lambda>_.
          Inr ((cold_cache n c)\<lparr>banks := map (\<lambda>b. b\<lparr>bank_rows := replicate n zero\<rparr>) (banks c)\<rparr>)))"

end
