(* ===== verification/Expert_Lanes.thy ===== *)
theory Expert_Lanes
  imports Expert_Cache
begin

text \<open>
  What the lanes of a kernel compute: stores as pointwise updates, the first least and greatest lane,
  prefix sums as ranks; and the same for the loops of the CPU reference.
\<close>

section \<open>Stores\<close>

lemma nth_put: "j < length xs \<Longrightarrow> put i v xs ! j = (if nat i = j then v else xs ! j)"
  by (simp add: put_def nth_list_update)

lemma length_fold_put [simp]: "length (fold (\<lambda>i p. if on i then put (off i) (val i) p else p) is ptr) = length ptr"
  by (induction "is" arbitrary: ptr) auto

lemma length_fold_put_all [simp]: "length (fold (\<lambda>i. put (off i) (val i)) is ptr) = length ptr"
  by (induction "is" arbitrary: ptr) auto

lemma fold_put_nth:
  assumes "j < length ptr" and "\<And>i. i \<in> set is \<Longrightarrow> on i \<Longrightarrow> nat (off i) = j \<Longrightarrow> val i = v"
  shows "fold (\<lambda>i p. if on i then put (off i) (val i) p else p) is ptr ! j =
    (if \<exists>i \<in> set is. on i \<and> nat (off i) = j then v else ptr ! j)"
  using assms
proof (induction "is" arbitrary: ptr)
  case (Cons a as)
  let ?p = "if on a then put (off a) (val a) ptr else ptr"
  have "fold (\<lambda>i p. if on i then put (off i) (val i) p else p) as ?p ! j =
      (if \<exists>i \<in> set as. on i \<and> nat (off i) = j then v else ?p ! j)"
    by (rule Cons.IH) (use Cons.prems in auto)
  then show ?case using Cons.prems by (auto simp: nth_put)
qed simp

lemma fold_put_all_nth:
  assumes "j < length ptr" and "\<And>i. i \<in> set is \<Longrightarrow> nat (off i) = j \<Longrightarrow> val i = v"
  shows "fold (\<lambda>i. put (off i) (val i)) is ptr ! j = (if \<exists>i \<in> set is. nat (off i) = j then v else ptr ! j)"
  using fold_put_nth [of j ptr "is" "\<lambda>_. True" off val v] assms by simp

lemma length_store [simp]: "length (store block off val on ptr) = length ptr"
  by (simp add: store_def)

lemma store_nth:
  assumes "j < length ptr" and "\<And>i. i < block \<Longrightarrow> on i \<Longrightarrow> nat (off i) = j \<Longrightarrow> val i = v"
  shows "store block off val on ptr ! j = (if \<exists>i < block. on i \<and> nat (off i) = j then v else ptr ! j)"
  using fold_put_nth [of j ptr "[0..<block]" on off val v] assms by (auto simp: store_def)

lemma length_load [simp]: "length (load ptr block off on other) = block"
  by (simp add: load_def)

lemma load_nth [simp]: "i < block \<Longrightarrow> load ptr block off on other ! i = (if on i then ptr ! off i else other)"
  by (simp add: load_def)

lemma next_power_of_2_ge: "n \<le> next_power_of_2 n"
proof (induction n rule: next_power_of_2.induct)
  case (1 n)
  show ?case
  proof (cases "n \<le> 1")
    case False
    then have "(n + 1) div 2 \<le> next_power_of_2 ((n + 1) div 2)" using "1.IH" by simp
    then show ?thesis using False by (subst next_power_of_2.simps) simp
  qed (simp add: next_power_of_2.simps)
qed

section \<open>Least and greatest lanes\<close>

definition first_least :: "int list \<Rightarrow> nat \<Rightarrow> nat \<Rightarrow> bool" where
  "first_least xs n i \<longleftrightarrow> i < n \<and> (\<forall>k < n. xs ! i \<le> xs ! k) \<and> (\<forall>k < i. xs ! i < xs ! k)"

lemma first_least_unique: "first_least xs n i \<Longrightarrow> first_least xs n j \<Longrightarrow> i = j"
  unfolding first_least_def by (metis linorder_neqE_nat not_le order_less_le_trans)

lemma argmin_first_least:
  assumes "0 < length xs" shows "first_least xs (length xs) (argmin xs)"
proof -
  have "n \<le> length xs \<Longrightarrow> 0 < n \<Longrightarrow> first_least xs n (fold (\<lambda>i b. if xs ! i < xs ! b then i else b) [0..<n] 0)" for n
  proof (induction n)
    case (Suc n)
    show ?case
    proof (cases "n = 0")
      case True
      then show ?thesis by (simp add: first_least_def)
    next
      case False
      let ?b = "fold (\<lambda>i b. if xs ! i < xs ! b then i else b) [0..<n] 0"
      have "first_least xs n ?b" using Suc False by simp
      then show ?thesis by (auto simp: first_least_def less_Suc_eq intro: order_less_trans less_imp_le order_less_le_trans)
    qed
  qed simp
  from this [of "length xs"] assms show ?thesis by (simp add: argmin_def)
qed

lemma argmin_eqI: "first_least xs (length xs) i \<Longrightarrow> argmin xs = i"
  using argmin_first_least [of xs] first_least_unique by (metis first_least_def length_greater_0_conv list.size(3) not_less0)

lemma argmax_eqI:
  assumes "i < length xs" and "\<And>k. k < length xs \<Longrightarrow> k \<noteq> i \<Longrightarrow> xs ! k < xs ! i"
  shows "argmax xs = i"
proof -
  have "argmax xs = argmin (map uminus xs)"
  proof -
    have "fold (\<lambda>i b. if xs ! b < xs ! i then i else b) [0..<n] b =
        fold (\<lambda>i b. if map uminus xs ! i < map uminus xs ! b then i else b) [0..<n] b" if "n \<le> length xs" "b < length xs" for n b
      using that
    proof (induction n)
      case (Suc n)
      have "fold (\<lambda>i b. if map uminus xs ! i < map uminus xs ! b then i else b) [0..<n] b < length xs"
      proof -
        have "m \<le> length xs \<Longrightarrow> fold (\<lambda>i b. if ys ! i < ys ! b then i else b) [0..<m] b < length xs" for m and ys :: "int list"
          using Suc.prems(2) by (induction m) auto
        then show ?thesis using Suc.prems(1) by simp
      qed
      then show ?case using Suc by simp
    qed simp
    from this [of "length xs" 0] assms(1) show ?thesis by (cases xs) (simp_all add: argmax_def argmin_def)
  qed
  also have "\<dots> = i"
  proof (rule argmin_eqI)
    show "first_least (map uminus xs) (length (map uminus xs)) i"
      using assms unfolding first_least_def by (auto simp: less_imp_le) (metis less_imp_le order_refl)
  qed
  finally show ?thesis .
qed

lemma oldest_first_least:
  assumes "0 < n" shows "first_least usage n (oldest_slot usage n)"
proof -
  let ?f = "\<lambda>s. (usage ! s, s)" and ?xs = "sort_key (\<lambda>s. (usage ! s, s)) [0..<n]"
  have ne: "?xs \<noteq> []" using assms by (metis length_sort length_upt list.size(3) diff_zero less_irrefl)
  have mem: "set ?xs = {..<n}" by auto
  have i: "hd ?xs < n" using ne mem hd_in_set by blast
  have "sorted (map ?f ?xs)" by (rule sorted_sort_key)
  then have le: "?f (hd ?xs) \<le> ?f k" if "k < n" for k
  proof -
    obtain a l where al: "?xs = a # l" using ne list.exhaust by blast
    have "k \<in> set (a # l)" using that mem al by auto
    then show ?thesis using \<open>sorted (map ?f ?xs)\<close> unfolding al by auto
  qed
  have "usage ! hd ?xs \<le> usage ! k" if "k < n" for k using le [OF that] by auto
  moreover have "usage ! hd ?xs < usage ! k" if "k < hd ?xs" for k
    using le [of k] that i by auto
  ultimately show ?thesis using i unfolding first_least_def oldest_slot_def by blast
qed

section \<open>Ranks\<close>

lemma lane_value_nth: "i < length xs \<Longrightarrow> lane_value i xs = xs ! i"
  by (simp add: lane_value_def sum_list_map_eq_sum_count) (metis atLeastLessThan_iff interv_sum_list_conv_sum_set_nat le0
      sum.delta finite_atLeastLessThan set_upt)

lemma sum_of_bool_take:
  "m \<le> length bs \<Longrightarrow> sum_list (take m (map of_bool bs)) = int (length (filter ((!) bs) [0..<m]))"
  by (induction m) (auto simp: take_Suc_conv_app_nth)

lemma cumsum_rank:
  assumes "k < length bs" and "bs ! k"
  shows "cumsum (map of_bool bs) ! k - 1 = int (length (filter ((!) bs) [0..<k]))"
  using assms sum_of_bool_take [of "Suc k" bs] by (simp add: cumsum_def)

lemma filter_upt_split:
  assumes "k < n" and "P k"
  shows "filter P [0..<n] = filter P [0..<k] @ k # filter P [Suc k..<n]"
proof -
  have "[0..<n] = [0..<k] @ k # [Suc k..<n]" using assms(1)
    by (metis le0 less_imp_le_nat upt_add_eq_append upt_conv_Cons le_add_diff_inverse)
  then show ?thesis using assms(2) by simp
qed

text \<open>The lane of the \<open>i\<close>-th missing expert in the order of the ids.\<close>

lemma ranked_lane_nth:
  assumes "i < length (filter ((!) bs) [0..<length bs])"
  shows "ranked_lane (map (\<lambda>n. n - 1) (cumsum (map of_bool bs))) bs i = int (filter ((!) bs) [0..<length bs] ! i)"
proof -
  let ?xs = "filter ((!) bs) [0..<length bs]" and ?rank = "map (\<lambda>n. n - 1) (cumsum (map of_bool bs))"
  have len: "length ?rank = length bs" by (simp add: cumsum_def)
  have mem: "?xs ! i \<in> set ?xs" using assms by (rule nth_mem)
  have k: "?xs ! i < length bs" "bs ! (?xs ! i)"
    using mem unfolding set_filter mem_Collect_eq set_upt atLeastLessThan_iff by blast+
  have rank: "?rank ! j = int (length (filter ((!) bs) [0..<j]))" if "j < length bs" "bs ! j" for j
    using cumsum_rank [OF that] that by (simp add: cumsum_def)
  have "(?rank ! j = int i \<and> bs ! j) = (j = ?xs ! i)" if "j < length bs" for j
  proof
    assume j: "?rank ! j = int i \<and> bs ! j"
    then have "length (filter ((!) bs) [0..<j]) = i" using rank [OF that] by simp
    then show "j = ?xs ! i" using filter_upt_split [OF that, of "(!) bs"] j by (metis nth_append_length)
  next
    assume j: "j = ?xs ! i"
    have "i = length (filter ((!) bs) [0..<?xs ! i])"
    proof -
      have "distinct ?xs" by simp
      moreover have "?xs ! length (filter ((!) bs) [0..<?xs ! i]) = ?xs ! i"
        using filter_upt_split [OF k(1), of "(!) bs"] k(2) by (metis nth_append_length)
      moreover have "length (filter ((!) bs) [0..<?xs ! i]) < length ?xs"
        using arg_cong [OF filter_upt_split [OF k(1), of "(!) bs", OF k(2)], of length]
        unfolding length_append list.size by linarith
      ultimately show ?thesis using assms nth_eq_iff_index_eq by metis
    qed
    then show "?rank ! j = int i \<and> bs ! j" using rank [OF k] k(2) j by simp
  qed
  then have "ranked_lane ?rank bs i = sum_list (map (\<lambda>j. if j = ?xs ! i then int j else 0) [0..<length bs])"
    unfolding ranked_lane_def len by (intro arg_cong [of _ _ sum_list] map_cong refl) auto
  also have "\<dots> = int (?xs ! i)"
    using k(1) by (simp add: interv_sum_list_conv_sum_set_nat)
  finally show ?thesis .
qed

section \<open>The routing\<close>

lemma set_seen: "set (seen_experts ids) = set ids" and distinct_seen: "distinct (seen_experts ids)"
proof -
  have "set (fold (\<lambda>e seen. if e \<in> set seen then seen else seen @ [e]) ids acc) = set acc \<union> set ids \<and>
      (distinct acc \<longrightarrow> distinct (fold (\<lambda>e seen. if e \<in> set seen then seen else seen @ [e]) ids acc))" for acc :: "int list"
    by (induction ids arbitrary: acc) auto
  from this [of "[]"] show "set (seen_experts ids) = set ids" "distinct (seen_experts ids)"
    by (simp_all add: seen_experts_def)
qed

lemma set_missing: "set (missing_experts br layer es c) = {e \<in> set es. slot_of c layer e = - 1}"
  by (auto simp: missing_experts_def Let_def)

lemma distinct_missing: "distinct es \<Longrightarrow> distinct (missing_experts br layer es c)"
  by (simp add: missing_experts_def Let_def)

end
