(* ===== verification/Expert_Kernels.thy ===== *)
theory Expert_Kernels
  imports Expert_Lanes
begin

text \<open>
  The tables of the expert cache are inverse to each other, and the GPU kernel of the capped ensure
  makes the same decisions as the CPU reference, lane by lane.
\<close>

section \<open>The invariant\<close>

definition tables_ok :: "int list \<Rightarrow> int list \<Rightarrow> bool" where
  "tables_ok tab ids \<longleftrightarrow>
     (\<forall>i < length tab. tab ! i = - 1 \<or> 0 \<le> tab ! i \<and> tab ! i < int (length ids) \<and> ids ! nat (tab ! i) = int i) \<and>
     (\<forall>s < length ids. ids ! s = - 1 \<or> 0 \<le> ids ! s \<and> ids ! s < int (length tab) \<and> tab ! nat (ids ! s) = int s)"

definition moe_shape :: "'r moe_cache \<Rightarrow> bool" where
  "moe_shape c \<longleftrightarrow>
     length (slot_for_id c) = layers c * experts c \<and> length (expert_recency c) = layers c * experts c \<and>
     length (id_of_slot c) = slots c \<and> length (slot_usage c) = slots c \<and> length (active_mask c) = experts c \<and>
     length (evict_slots c) = max (experts c) (slots c) \<and> length (src_indices c) = max (experts c) (slots c) \<and>
     0 < experts c \<and> experts c \<le> slots c \<and> experts c < 2 ^ 31"

definition moe_ok :: "'r moe_cache \<Rightarrow> bool" where
  "moe_ok c \<longleftrightarrow> moe_shape c \<and> tables_ok (slot_for_id c) (id_of_slot c) \<and>
     (\<forall>u \<in> set (slot_usage c). 0 \<le> u \<and> u \<le> lru_step c) \<and> (\<forall>r \<in> set (expert_recency c). - 1 \<le> r \<and> r \<le> lru_step c) \<and>
     0 \<le> lru_step c"

definition routed :: "nat \<Rightarrow> int list \<Rightarrow> 'r moe_cache \<Rightarrow> bool" where
  "routed layer ids c \<longleftrightarrow> layer < layers c \<and> (\<forall>e \<in> set ids. 0 \<le> e \<and> e < int (experts c))"

lemma tables_tab: "tables_ok tab ids \<Longrightarrow> i < length tab \<Longrightarrow> tab ! i \<noteq> - 1 \<Longrightarrow>
    0 \<le> tab ! i \<and> tab ! i < int (length ids) \<and> ids ! nat (tab ! i) = int i"
  unfolding tables_ok_def by blast

lemma tables_ids: "tables_ok tab ids \<Longrightarrow> s < length ids \<Longrightarrow> ids ! s \<noteq> - 1 \<Longrightarrow>
    0 \<le> ids ! s \<and> ids ! s < int (length tab) \<and> tab ! nat (ids ! s) = int s"
  unfolding tables_ok_def by blast

lemma flat_id_bound:
  assumes "layer < layers c" and "0 \<le> e" and "e < int (experts c)"
  shows "0 \<le> flat_id c layer e" "nat (flat_id c layer e) < layers c * experts c"
    "flat_id c layer e < int (layers c * experts c)"
proof -
  have "layer * experts c + experts c \<le> layers c * experts c"
    using mult_le_mono1 [of "Suc layer" "layers c" "experts c"] assms(1) by simp
  then have "int (layer * experts c) + int (experts c) \<le> int (layers c * experts c)"
    unfolding of_nat_add [symmetric] of_nat_le_iff .
  then show less: "flat_id c layer e < int (layers c * experts c)" using assms(3) by (simp add: flat_id_def)
  show nonneg: "0 \<le> flat_id c layer e" using assms(2) by (simp add: flat_id_def)
  show "nat (flat_id c layer e) < layers c * experts c" using less unfolding nat_less_iff [OF nonneg] .
qed

lemma flat_id_inj: "flat_id c layer e = flat_id c layer e' \<longleftrightarrow> e = e'"
  by (simp add: flat_id_def)

text \<open>Moving a slot to an expert that has none keeps the tables inverse.\<close>

lemma tables_give:
  assumes ok: "tables_ok tab ids" and v: "v < length ids" and f: "0 \<le> f" "f < int (length tab)" "tab ! nat f = - 1"
  shows "tables_ok (put f (int v) (if 0 \<le> ids ! v then put (ids ! v) (- 1) tab else tab)) (put (int v) f ids)"
    (is "tables_ok (put f (int v) ?tab) ?ids")
proof -
  let ?T = "put f (int v) ?tab"
  have len: "length ?T = length tab" "length ?ids = length ids" by auto
  have tab: "?T ! i = (if i = nat f then int v else if 0 \<le> ids ! v \<and> i = nat (ids ! v) then - 1 else tab ! i)"
    if "i < length tab" for i using that f by (auto simp: nth_put)
  have ids: "?ids ! s = (if s = v then f else ids ! s)" if "s < length ids" for s using that by (simp add: nth_put)
  have "?T ! i = - 1 \<or> 0 \<le> ?T ! i \<and> ?T ! i < int (length ids) \<and> ?ids ! nat (?T ! i) = int i" if i: "i < length tab" for i
  proof (cases "i = nat f \<or> ?T ! i = - 1")
    case True
    then show ?thesis using tab [OF i] ids [OF v] v f by auto
  next
    case False
    then have t: "?T ! i = tab ! i" "tab ! i \<noteq> - 1" using tab [OF i] by (auto split: if_splits)
    note b = tables_tab [OF ok i t(2)]
    have "nat (tab ! i) \<noteq> v"
    proof
      assume "nat (tab ! i) = v"
      then have "ids ! v = int i" using b by simp
      then show False using False tab [OF i] by simp
    qed
    moreover have "nat (tab ! i) < length ids" using b by linarith
    ultimately show ?thesis using t b ids [of "nat (tab ! i)"] by simp
  qed
  moreover have "?ids ! s = - 1 \<or> 0 \<le> ?ids ! s \<and> ?ids ! s < int (length tab) \<and> ?T ! nat (?ids ! s) = int s"
    if s: "s < length ids" for s
  proof (cases "s = v")
    case True
    then show ?thesis using ids [OF v] f tab [of "nat f"] by simp
  next
    case False
    show ?thesis
    proof (cases "ids ! s = - 1")
      case nonempty: False
      note b = tables_ids [OF ok s nonempty]
      have "nat (ids ! s) \<noteq> nat f" using b f by auto
      moreover have "nat (ids ! s) \<noteq> nat (ids ! v) \<or> ids ! v < 0"
      proof (rule ccontr)
        assume "\<not> (nat (ids ! s) \<noteq> nat (ids ! v) \<or> ids ! v < 0)"
        then have eq: "nat (ids ! s) = nat (ids ! v)" and "0 \<le> ids ! v" by auto
        then have "tab ! nat (ids ! v) = int v" using tables_ids [OF ok v] by auto
        then show False using b eq False by simp
      qed
      ultimately show ?thesis using ids [OF s] tab [of "nat (ids ! s)"] b False by auto
    qed (use ids [OF s] False in simp)
  qed
  ultimately show ?thesis unfolding tables_ok_def len by blast
qed

section \<open>Hits\<close>

lemma hit_slot:
  assumes "moe_ok c" and "routed layer ids c" and "e \<in> set ids" and "slot_of c layer e \<noteq> - 1"
  shows "0 \<le> slot_of c layer e" "slot_of c layer e < int (slots c)"
    "id_of_slot c ! nat (slot_of c layer e) = flat_id c layer e"
proof -
  have fb: "0 \<le> flat_id c layer e" "nat (flat_id c layer e) < length (slot_for_id c)"
    using assms(1-3) flat_id_bound [of layer c e] by (auto simp: routed_def moe_ok_def moe_shape_def)
  have "tables_ok (slot_for_id c) (id_of_slot c)" and len: "length (id_of_slot c) = slots c"
    using assms(1) by (auto simp: moe_ok_def moe_shape_def)
  from tables_tab [OF this(1) fb(2)] assms(4) fb(1) len
  show "0 \<le> slot_of c layer e" "slot_of c layer e < int (slots c)"
    "id_of_slot c ! nat (slot_of c layer e) = flat_id c layer e"
    by (auto simp: slot_of_def)
qed

lemma touch_hits_nth:
  assumes "k < length usage"
  shows "touch_hits layer step es c usage ! k =
     (if \<exists>e \<in> set es. slot_of c layer e \<noteq> - 1 \<and> nat (slot_of c layer e) = k then step else usage ! k)"
  using fold_put_nth [OF assms, of es "\<lambda>e. slot_of c layer e \<noteq> - 1" "slot_of c layer" "\<lambda>_. step" step]
  by (simp add: touch_hits_def)

lemma length_touch_hits [simp]: "length (touch_hits layer step es c usage) = length usage"
  by (simp add: touch_hits_def)

lemma owner_is_hit:
  assumes "moe_ok c" and "routed layer ids c" and "k < slots c"
  shows "(\<exists>e \<in> set ids. id_of_slot c ! k = flat_id c layer e) \<longleftrightarrow>
     (\<exists>e \<in> set ids. slot_of c layer e \<noteq> - 1 \<and> nat (slot_of c layer e) = k)"
proof
  assume "\<exists>e \<in> set ids. id_of_slot c ! k = flat_id c layer e"
  then obtain e where e: "e \<in> set ids" "id_of_slot c ! k = flat_id c layer e" by blast
  then have "0 \<le> flat_id c layer e" using assms(2) flat_id_bound [of layer c e] by (auto simp: routed_def)
  then have "id_of_slot c ! k \<noteq> - 1" using e by simp
  then have "slot_of c layer e = int k" using assms e tables_ids [of "slot_for_id c" "id_of_slot c" k]
    by (auto simp: moe_ok_def moe_shape_def slot_of_def)
  then show "\<exists>e \<in> set ids. slot_of c layer e \<noteq> - 1 \<and> nat (slot_of c layer e) = k" using e by force
next
  assume "\<exists>e \<in> set ids. slot_of c layer e \<noteq> - 1 \<and> nat (slot_of c layer e) = k"
  then show "\<exists>e \<in> set ids. id_of_slot c ! k = flat_id c layer e" using hit_slot(3) [OF assms(1,2)] by blast
qed

section \<open>The lanes of the victims\<close>

definition lanes_rel :: "'r moe_cache \<Rightarrow> int \<Rightarrow> int list \<Rightarrow> bool" where
  "lanes_rel c step u \<longleftrightarrow> slots c \<le> length u \<and> length (slot_usage c) = slots c \<and>
     (\<forall>k < slots c. slot_usage c ! k \<le> step) \<and> step < max_int64 \<and>
     (\<forall>k < length u. u ! k = (if k < slots c \<and> slot_usage c ! k \<noteq> step then slot_usage c ! k else max_int64))"

definition taken :: "'r moe_cache \<Rightarrow> int \<Rightarrow> nat set" where
  "taken c step = {k. k < slots c \<and> slot_usage c ! k = step}"

lemma lanes_le: "lanes_rel c step u \<Longrightarrow> k < slots c \<Longrightarrow> slot_usage c ! k \<le> step"
  and lanes_nth: "lanes_rel c step u \<Longrightarrow> k < length u \<Longrightarrow>
    u ! k = (if k < slots c \<and> slot_usage c ! k \<noteq> step then slot_usage c ! k else max_int64)"
  and lanes_step: "lanes_rel c step u \<Longrightarrow> step < max_int64"
  and lanes_length: "lanes_rel c step u \<Longrightarrow> slots c \<le> length u"
  unfolding lanes_rel_def by blast+

lemma free_victim:
  assumes rel: "lanes_rel c step u" and room: "card (taken c step) < slots c"
  shows "argmin u = oldest_slot (slot_usage c) (slots c)" "oldest_slot (slot_usage c) (slots c) < slots c"
    "slot_usage c ! oldest_slot (slot_usage c) (slots c) \<noteq> step"
proof -
  let ?v = "oldest_slot (slot_usage c) (slots c)"
  have "0 < slots c" using room by simp
  from oldest_first_least [OF this] have fl: "first_least (slot_usage c) (slots c) ?v" .
  then show v: "?v < slots c" by (simp add: first_least_def)
  have "\<exists>k < slots c. slot_usage c ! k \<noteq> step"
  proof (rule ccontr)
    assume "\<not> (\<exists>k < slots c. slot_usage c ! k \<noteq> step)"
    then have "taken c step = {..<slots c}" unfolding taken_def by blast
    then show False using room by simp
  qed
  then obtain k where k: "k < slots c" "slot_usage c ! k \<noteq> step" by blast
  then have "slot_usage c ! k < step" using lanes_le [OF rel k(1)] by simp
  moreover have "slot_usage c ! ?v \<le> slot_usage c ! k" using fl k unfolding first_least_def by blast
  ultimately have less: "slot_usage c ! ?v < step" by simp
  then show "slot_usage c ! ?v \<noteq> step" by simp
  have len: "?v < length u" using v lanes_length [OF rel] by simp
  have here: "u ! ?v = slot_usage c ! ?v" using lanes_nth [OF rel len] v less by simp
  have "first_least u (length u) ?v" unfolding first_least_def
  proof (intro conjI allI impI)
    fix k assume k: "k < length u"
    show "u ! ?v \<le> u ! k"
      using lanes_nth [OF rel k] here less lanes_step [OF rel] fl unfolding first_least_def by (cases "k < slots c") auto
  next
    fix k assume k: "k < ?v"
    then have "slot_usage c ! ?v < slot_usage c ! k" using fl unfolding first_least_def by blast
    then show "u ! ?v < u ! k" using lanes_nth [OF rel, of k] here less lanes_step [OF rel] k v len by auto
  qed (rule len)
  then show "argmin u = ?v" by (rule argmin_eqI)
qed

lemma give_slot_fields [simp]:
  "slots (give_slot layer step i v e c) = slots c" "experts (give_slot layer step i v e c) = experts c"
  "layers (give_slot layer step i v e c) = layers c" "slot_usage (give_slot layer step i v e c) = put v step (slot_usage c)"
  "id_of_slot (give_slot layer step i v e c) = put v (flat_id c layer e) (id_of_slot c)"
  "expert_recency (give_slot layer step i v e c) = expert_recency c" "lru_step (give_slot layer step i v e c) = lru_step c"
  "active_mask (give_slot layer step i v e c) = active_mask c" "banks (give_slot layer step i v e c) = banks c"
  "num_indices (give_slot layer step i v e c) = num_indices c" "num_missing_full (give_slot layer step i v e c) = num_missing_full c"
  "evict_slots (give_slot layer step i v e c) = (evict_slots c)[i := v]"
  "src_indices (give_slot layer step i v e c) = (src_indices c)[i := e]"
  by (simp_all add: give_slot_def Let_def flat_id_def)

lemma give_slot_table:
  "slot_for_id (give_slot layer step i v e c) =
     put (flat_id c layer e) v (if 0 \<le> id_of_slot c ! nat v then put (id_of_slot c ! nat v) (- 1) (slot_for_id c) else slot_for_id c)"
  by (simp add: give_slot_def Let_def flat_id_def)

lemma give_slot_lanes:
  assumes "lanes_rel c step u" and "v < slots c"
  shows "lanes_rel (give_slot layer step i (int v) e c) step (u[v := max_int64])"
    and "card (taken (give_slot layer step i (int v) e c) step) \<le> Suc (card (taken c step))"
proof -
  show "lanes_rel (give_slot layer step i (int v) e c) step (u[v := max_int64])"
    using assms by (auto simp: lanes_rel_def nth_put nth_list_update)
  have "taken (give_slot layer step i (int v) e c) step = insert v (taken c step)"
    using assms by (auto simp: taken_def nth_put lanes_rel_def)
  moreover have "finite (taken c step)" by (simp add: taken_def)
  ultimately show "card (taken (give_slot layer step i (int v) e c) step) \<le> Suc (card (taken c step))"
    by (simp add: card_insert_if)
qed

section \<open>The lanes of the experts\<close>

definition prio :: "nat \<Rightarrow> 'r moe_cache \<Rightarrow> int \<Rightarrow> int" where
  "prio layer c e = expert_recency c ! nat (flat_id c layer e) * int (experts c) + (int (experts c) - 1 - e)"

definition score_rel :: "nat \<Rightarrow> 'r moe_cache \<Rightarrow> int list \<Rightarrow> int list \<Rightarrow> bool" where
  "score_rel layer c rest score \<longleftrightarrow> experts c \<le> length score \<and>
     (\<forall>k < length score. score ! k = (if int k \<in> set rest then prio layer c (int k) else no_score)) \<and>
     sorted_wrt (\<lambda>a b. prio layer c b < prio layer c a) rest \<and>
     (\<forall>e \<in> set rest. 0 \<le> e \<and> e < int (experts c) \<and> no_score < prio layer c e)"

lemma score_pick:
  assumes "score_rel layer c (e # es) score"
  shows "int (argmax score) = e" and "score_rel layer c es (score[nat e := no_score])"
proof -
  have e: "0 \<le> e" "nat e < length score" using assms by (auto simp: score_rel_def)
  have sc: "score ! k = (if int k \<in> set (e # es) then prio layer c (int k) else no_score)" if "k < length score" for k
    using assms that unfolding score_rel_def by blast
  have lt: "prio layer c b < prio layer c e" if "b \<in> set es" for b using assms that by (simp add: score_rel_def)
  have "argmax score = nat e"
  proof (rule argmax_eqI [OF e(2)])
    fix k assume k: "k < length score" "k \<noteq> nat e"
    then have "int k \<noteq> e" by auto
    moreover have "no_score < prio layer c e" using assms by (simp add: score_rel_def)
    ultimately show "score ! k < score ! nat e" using sc [OF k(1)] sc [OF e(2)] e lt by auto
  qed
  then show "int (argmax score) = e" using e by simp
  have "e \<notin> set es" using lt by blast
  then show "score_rel layer c es (score[nat e := no_score])"
    using assms e unfolding score_rel_def by (auto simp: nth_list_update)
qed

lemma score_rel_recency:
  "expert_recency c' = expert_recency c \<Longrightarrow> experts c' = experts c \<Longrightarrow> score_rel layer c' rest score = score_rel layer c rest score"
  by (simp add: score_rel_def prio_def flat_id_def)

lemma kernel_fetch_eq:
  assumes "n \<le> length rest" and "lanes_rel c step u" and "card (taken c step) + length rest \<le> slots c"
    and "slots c \<le> length oid" and "\<And>k. k < slots c \<Longrightarrow> slot_usage c ! k \<noteq> step \<Longrightarrow> id_of_slot c ! k = oid ! k"
    and "length (id_of_slot c) = slots c"
    and "br \<Longrightarrow> score_rel layer c rest score" and "\<not> br \<Longrightarrow> \<forall>j < length rest. ranked_lane rank miss (i + j) = rest ! j"
  shows "kernel_fetch br layer step oid rank miss n i u score c = fetch_loop layer step i (take n rest) c"
  using assms
proof (induction n arbitrary: rest c u score i)
  case (Suc n)
  obtain e es where rest: "rest = e # es" using Suc.prems(1) by (cases rest) auto
  let ?v = "oldest_slot (slot_usage c) (slots c)"
  have "card (taken c step) < slots c" using Suc.prems(3) rest by simp
  note v = free_victim [OF Suc.prems(2) this]
  have old: "lane_value (argmin u) oid = id_of_slot c ! ?v"
    using Suc.prems(4,5) v lane_value_nth [of ?v oid] by simp
  have pick: "(if br then int (argmax score) else ranked_lane rank miss i) = e"
    using score_pick(1) [of layer c e es score] Suc.prems(7,8) rest by (cases br) auto
  let ?c = "give_slot layer step i (int ?v) e c"
  have "kernel_fetch br layer step oid rank miss (Suc n) i u score c =
      kernel_fetch br layer step oid rank miss n (Suc i) (u[?v := max_int64]) (if br then score[nat e := no_score] else score) ?c"
    using old pick v(1) by (simp add: Let_def give_slot_def flat_id_def del: of_nat_mult)
  also have "\<dots> = fetch_loop layer step (Suc i) (take n es) ?c"
  proof (rule Suc.IH)
    show "n \<le> length es" using Suc.prems(1) rest by simp
    show "lanes_rel ?c step (u[?v := max_int64])" by (rule give_slot_lanes(1) [OF Suc.prems(2) v(2)])
    show "card (taken ?c step) + length es \<le> slots ?c"
      using give_slot_lanes(2) [OF Suc.prems(2) v(2), of layer i e] Suc.prems(3) rest by simp
    show "slots ?c \<le> length oid" using Suc.prems(4) by simp
    show "id_of_slot ?c ! k = oid ! k" if "k < slots ?c" "slot_usage ?c ! k \<noteq> step" for k
      using that Suc.prems(2,5,6) v(2) by (auto simp: nth_put lanes_rel_def split: if_splits)
    show "length (id_of_slot ?c) = slots ?c" using Suc.prems(6) by simp
    show "score_rel layer ?c es (if br then score[nat e := no_score] else score)" if br
      using score_pick(2) [of layer c e es score] Suc.prems(7) rest that score_rel_recency [of ?c c] by simp
    show "\<forall>j < length es. ranked_lane rank miss (Suc i + j) = es ! j" if "\<not> br"
      using Suc.prems(8) [OF that] rest by (metis add_Suc_shift length_Cons nat_add_left_cancel_less nth_Cons_Suc Suc_less_eq)
  qed
  finally show ?case using rest by simp
qed simp

lemma prio_order:
  assumes "(- rec a, a) < (- rec b, b :: int)" and "0 \<le> a" "a < E" "0 \<le> b" "b < E"
  shows "rec b * E + (E - 1 - b) < rec a * E + (E - 1 - a)"
proof (cases "rec a = rec b")
  case True
  then show ?thesis using assms(1) by simp
next
  case False
  then have "rec b + 1 \<le> rec a" using assms(1) by auto
  then have "(rec b + 1) * E \<le> rec a * E" using assms by (intro mult_right_mono) auto
  then show ?thesis using assms by (simp add: distrib_right)
qed

lemma sorted_by_prio:
  assumes "routed layer es c" and "distinct es"
  shows "sorted_wrt (\<lambda>a b. prio layer c b < prio layer c a) (missing_experts True layer es c)"
proof -
  let ?f = "\<lambda>e. (- (expert_recency c ! nat (flat_id c layer e)), e)" and ?xs = "missing_experts True layer es c"
  have "sorted (map ?f ?xs)" by (simp add: missing_experts_def Let_def)
  moreover have "distinct (map ?f ?xs)" using distinct_missing [OF assms(2)] by (simp add: distinct_map inj_on_def)
  ultimately have "sorted_wrt (<) (map ?f ?xs)" by (simp add: strict_sorted_iff)
  then have "sorted_wrt (\<lambda>a b. ?f a < ?f b) ?xs" by (simp add: sorted_wrt_map)
  then show ?thesis
  proof (rule sorted_wrt_mono_rel [rotated])
    fix a b assume "a \<in> set ?xs" "b \<in> set ?xs" "?f a < ?f b"
    then show "prio layer c b < prio layer c a"
      using prio_order [of "\<lambda>e. expert_recency c ! nat (flat_id c layer e)" a b "int (experts c)"] assms(1)
      by (simp add: set_missing routed_def prio_def)
  qed
qed

section \<open>The kernel and the reference\<close>

lemma shape:
  assumes ok: "moe_ok c"
  shows
  "length (slot_for_id c) = layers c * experts c" "length (expert_recency c) = layers c * experts c"
  "length (id_of_slot c) = slots c" "length (slot_usage c) = slots c" "length (active_mask c) = experts c"
  "0 < experts c" "experts c \<le> slots c" "experts c < 2 ^ 31"
  using ok by (auto simp: moe_ok_def moe_shape_def)

lemma usage_le: "moe_ok c \<Longrightarrow> k < slots c \<Longrightarrow> slot_usage c ! k \<le> lru_step c"
  by (auto simp: moe_ok_def moe_shape_def)

definition lane_slots :: "nat \<Rightarrow> 'r moe_cache \<Rightarrow> int list" where
  "lane_slots layer c =
     load (slot_for_id c) (next_power_of_2 (experts c)) (\<lambda>k. layer * experts c + k) (\<lambda>k. k < experts c) (- 1)"

definition active_lanes :: "int list \<Rightarrow> 'r moe_cache \<Rightarrow> bool list" where
  "active_lanes ids c = map (\<lambda>k. int k \<in> set ids) [0..<next_power_of_2 (experts c)]"

definition missing_lanes :: "nat \<Rightarrow> int list \<Rightarrow> 'r moe_cache \<Rightarrow> bool list" where
  "missing_lanes layer ids c =
     map (\<lambda>k. active_lanes ids c ! k \<and> lane_slots layer c ! k = - 1 \<and> k < experts c) [0..<next_power_of_2 (experts c)]"

lemma lane_slots_nth: "k < next_power_of_2 (experts c) \<Longrightarrow>
    lane_slots layer c ! k = (if k < experts c then slot_of c layer (int k) else - 1)"
  by (simp add: lane_slots_def slot_of_def flat_id_def nat_add_distrib flip: of_nat_add of_nat_mult)

lemma active_lanes_nth: "k < next_power_of_2 (experts c) \<Longrightarrow> active_lanes ids c ! k \<longleftrightarrow> int k \<in> set ids"
  by (simp add: active_lanes_def)

lemma lane_of: "routed layer ids c \<Longrightarrow> e \<in> set ids \<Longrightarrow> 0 \<le> e \<and> nat e < experts c \<and> nat e < next_power_of_2 (experts c)"
  using next_power_of_2_ge [of "experts c"] unfolding routed_def by (metis nat_less_iff order_less_le_trans)

lemma length_missing_lanes [simp]: "length (missing_lanes layer ids c) = next_power_of_2 (experts c)"
  by (simp add: missing_lanes_def)

lemma missing_lane: "routed layer ids c \<Longrightarrow> k < next_power_of_2 (experts c) \<Longrightarrow>
    missing_lanes layer ids c ! k \<longleftrightarrow> int k \<in> set ids \<and> slot_of c layer (int k) = - 1"
  using lane_of [of layer ids c "int k"] by (auto simp: missing_lanes_def lane_slots_nth active_lanes_nth)

lemma active_mask_same:
  assumes ok: "moe_ok c" and ids: "routed layer ids c"
  shows "store (next_power_of_2 (experts c)) int (\<lambda>k. of_bool (active_lanes ids c ! k)) (\<lambda>k. k < experts c) (active_mask c) =
   fold (\<lambda>e. put e 1) (seen_experts ids) (replicate (length (active_mask c)) 0)" (is "?l = ?r")
proof (rule nth_equalityI)
  fix j assume "j < length ?l"
  then have j: "j < experts c" using shape [OF ok] by simp
  then have jn: "j < next_power_of_2 (experts c)" using next_power_of_2_ge [of "experts c"] by simp
  have "?l ! j = of_bool (int j \<in> set ids)"
    using store_nth [of j "active_mask c" "next_power_of_2 (experts c)" "\<lambda>k. k < experts c" int
        "\<lambda>k. of_bool (active_lanes ids c ! k)" "of_bool (int j \<in> set ids)"] j jn shape [OF ok] by (auto simp: active_lanes_nth)
  also have "\<dots> = ?r ! j"
    using fold_put_all_nth [of j "replicate (length (active_mask c)) 0" "seen_experts ids" "\<lambda>e. e" "\<lambda>_. 1" "1 :: int"] j
      shape [OF ok] lane_of [OF ids] by (auto simp: set_seen)
  finally show "?l ! j = ?r ! j" .
qed simp

lemma usage_same:
  assumes ok: "moe_ok c" and ids: "routed layer ids c"
  shows "store (next_power_of_2 (experts c)) (\<lambda>k. lane_slots layer c ! k) (\<lambda>_. step)
     (\<lambda>k. active_lanes ids c ! k \<and> 0 \<le> lane_slots layer c ! k) (slot_usage c) =
   touch_hits layer step (seen_experts ids) c (slot_usage c)" (is "?l = ?r")
proof (rule nth_equalityI)
  fix j assume "j < length ?l"
  then have j: "j < length (slot_usage c)" by simp
  have "(\<exists>k < next_power_of_2 (experts c). (active_lanes ids c ! k \<and> 0 \<le> lane_slots layer c ! k) \<and> nat (lane_slots layer c ! k) = j) \<longleftrightarrow>
      (\<exists>e \<in> set ids. slot_of c layer e \<noteq> - 1 \<and> nat (slot_of c layer e) = j)" (is "?A \<longleftrightarrow> ?B")
  proof
    assume ?A
    then obtain k where k: "k < next_power_of_2 (experts c)" "int k \<in> set ids" "0 \<le> lane_slots layer c ! k" "nat (lane_slots layer c ! k) = j"
      by (auto simp: active_lanes_nth)
    then show ?B using lane_slots_nth [OF k(1), of layer] by (intro bexI [of _ "int k"]) (auto split: if_splits)
  next
    assume ?B
    then obtain e where e: "e \<in> set ids" "slot_of c layer e \<noteq> - 1" "nat (slot_of c layer e) = j" by blast
    note le = lane_of [OF ids e(1)]
    show ?A
      using le lane_slots_nth [of "nat e" c layer] hit_slot(1) [OF ok ids e(1,2)] e by (intro exI [of _ "nat e"]) (simp add: active_lanes_nth)
  qed
  then show "?l ! j = ?r ! j"
    using store_nth [OF j, of "next_power_of_2 (experts c)" "\<lambda>k. active_lanes ids c ! k \<and> 0 \<le> lane_slots layer c ! k"
        "\<lambda>k. lane_slots layer c ! k" "\<lambda>_. step" step]
      touch_hits_nth [OF j, of layer step "seen_experts ids" c] by (simp add: set_seen)
qed simp

lemma missing_sorted:
  assumes ids: "routed layer ids c"
  shows "sort (filter (\<lambda>e. slot_of c layer e = - 1) (seen_experts ids)) =
    map int (filter ((!) (missing_lanes layer ids c)) [0..<length (missing_lanes layer ids c)])" (is "?l = ?r")
proof (rule sorted_distinct_set_unique)
  show "sorted ?r" by (simp add: sorted_map sorted_wrt_filter)
  show "distinct ?r" by (simp add: distinct_map inj_on_def)
  show "set ?l = set ?r"
  proof (intro set_eqI iffI)
    fix e assume "e \<in> set ?l"
    then have e: "e \<in> set ids" "slot_of c layer e = - 1" by (auto simp: set_seen)
    then have "missing_lanes layer ids c ! nat e" using lane_of [OF ids e(1)] missing_lane [OF ids, of "nat e"] by simp
    then show "e \<in> set ?r" using lane_of [OF ids e(1)] by (auto simp: image_iff intro!: bexI [of _ "nat e"] exI [of _ "nat e"] simp del: nth_map)
  next
    fix e assume "e \<in> set ?r"
    then obtain k where "e = int k" "k < next_power_of_2 (experts c)" "missing_lanes layer ids c ! k" by (auto simp del: nth_map)
    then show "e \<in> set ?l" using missing_lane [OF ids, of k] by (simp add: set_seen del: nth_map)
  qed
qed (auto simp: distinct_seen)

lemma missing_count:
  assumes ids: "routed layer ids c"
  shows "length (filter id (missing_lanes layer ids c)) = length (missing_experts br layer (seen_experts ids) c)"
proof -
  have "length (filter id (map ((!) bs) xs)) = length (filter ((!) bs) xs)" for bs :: "bool list" and xs
    by (induction xs) auto
  then have "length (filter id (map ((!) (missing_lanes layer ids c)) [0..<length (missing_lanes layer ids c)])) =
      length (filter ((!) (missing_lanes layer ids c)) [0..<length (missing_lanes layer ids c)])" .
  then have "length (filter id (missing_lanes layer ids c)) =
      length (filter ((!) (missing_lanes layer ids c)) [0..<length (missing_lanes layer ids c)])" unfolding map_nth .
  also have "\<dots> = length (filter (\<lambda>e. slot_of c layer e = - 1) (seen_experts ids))"
    using arg_cong [OF missing_sorted [OF ids], of length] by (simp del: nth_map)
  finally show ?thesis by (simp add: missing_experts_def Let_def)
qed

lemma missing_room:
  assumes ok: "moe_ok c" and ids: "routed layer ids c"
  shows "card {k. k < slots c \<and> (\<exists>e \<in> set ids. slot_of c layer e \<noteq> - 1 \<and> nat (slot_of c layer e) = k)} +
     length (missing_experts br layer (seen_experts ids) c) \<le> slots c"
proof -
  let ?H = "{e \<in> set ids. slot_of c layer e \<noteq> - 1}" and ?M = "{e \<in> set ids. slot_of c layer e = - 1}"
  have "card {k. k < slots c \<and> (\<exists>e \<in> set ids. slot_of c layer e \<noteq> - 1 \<and> nat (slot_of c layer e) = k)} \<le> card ?H"
    by (rule surj_card_le [of _ _ "\<lambda>e. nat (slot_of c layer e)"]) auto
  moreover have "length (missing_experts br layer (seen_experts ids) c) = card ?M"
    using distinct_card [OF distinct_missing [OF distinct_seen, of br layer ids c]] by (simp add: set_missing set_seen)
  moreover have "card ?H + card ?M = card (?H \<union> ?M)" by (rule card_Un_disjoint [symmetric]) auto
  moreover have "?H \<union> ?M \<subseteq> {0..<int (experts c)}" using ids by (auto simp: routed_def)
  then have "card (?H \<union> ?M) \<le> experts c" using card_mono [of "{0..<int (experts c)}"] by fastforce
  ultimately show ?thesis using shape(7) [OF ok] by linarith
qed

definition touched :: "nat \<Rightarrow> int list \<Rightarrow> int \<Rightarrow> int \<Rightarrow> 'r moe_cache \<Rightarrow> 'r moe_cache" where
  "touched layer ids missing num_fetch c =
     c\<lparr>lru_step := lru_step c + 1,
       active_mask := fold (\<lambda>e. put e 1) (seen_experts ids) (replicate (length (active_mask c)) 0),
       slot_usage := touch_hits layer (lru_step c + 1) (seen_experts ids) c (slot_usage c),
       num_missing_full := missing, num_indices := num_fetch\<rparr>"

lemma touched_fields [simp]:
  "slots (touched layer ids m n c) = slots c" "experts (touched layer ids m n c) = experts c" "layers (touched layer ids m n c) = layers c"
  "slot_for_id (touched layer ids m n c) = slot_for_id c" "id_of_slot (touched layer ids m n c) = id_of_slot c"
  "expert_recency (touched layer ids m n c) = expert_recency c" "lru_step (touched layer ids m n c) = lru_step c + 1"
  "slot_usage (touched layer ids m n c) = touch_hits layer (lru_step c + 1) (seen_experts ids) c (slot_usage c)"
  "evict_slots (touched layer ids m n c) = evict_slots c" "src_indices (touched layer ids m n c) = src_indices c"
  "banks (touched layer ids m n c) = banks c" "num_indices (touched layer ids m n c) = n"
  "length (active_mask (touched layer ids m n c)) = length (active_mask c)"
  by (simp_all add: touched_def)

lemma slot_of_same: "slot_for_id d = slot_for_id c \<Longrightarrow> experts d = experts c \<Longrightarrow> slot_of d layer e = slot_of c layer e"
  by (simp add: slot_of_def flat_id_def)

lemma missing_same:
  "slot_for_id d = slot_for_id c \<Longrightarrow> experts d = experts c \<Longrightarrow> expert_recency d = expert_recency c \<Longrightarrow>
    missing_experts br layer es d = missing_experts br layer es c"
  by (simp add: missing_experts_def slot_of_def flat_id_def Let_def)

text \<open>The reference, with the two assignments of the state before the loop in one.\<close>

lemma ensure_cpu_unfold:
  "ensure_hybrid_cpu br layer ids max_fetch fq c =
     (let missing = missing_experts br layer (seen_experts ids) c;
          num_fetch = capped_fetch max_fetch fq (int (length missing));
          d = fetch_loop layer (lru_step c + 1) 0 (take (nat num_fetch) missing)
                (touched layer ids (int (length missing)) num_fetch c);
          d = (if br then d\<lparr>expert_recency := fold (\<lambda>e. put (flat_id d layer e) (lru_step c + 1)) (seen_experts ids) (expert_recency d)\<rparr> else d) in
      (rewrite_ids layer d ids, d))"
  unfolding ensure_hybrid_cpu_def Let_def
  using missing_same [of "c\<lparr>lru_step := lru_step c + 1, active_mask := am, slot_usage := u\<rparr>" c for am u]
  by (simp add: touched_def)

definition victim_lanes :: "nat \<Rightarrow> int list \<Rightarrow> 'r moe_cache \<Rightarrow> int list" where
  "victim_lanes layer ids c =
     map (\<lambda>k. if map (\<lambda>k. \<exists>e \<in> set ids. load (id_of_slot c) (next_power_of_2 (slots c)) id (\<lambda>k. k < slots c) (- 1) ! k = int (layer * experts c) + e)
           [0..<next_power_of_2 (slots c)] ! k \<or> \<not> k < slots c then max_int64
         else load (slot_usage c) (next_power_of_2 (slots c)) id (\<lambda>k. k < slots c) max_int64 ! k) [0..<next_power_of_2 (slots c)]"

definition score_lanes :: "nat \<Rightarrow> int list \<Rightarrow> 'r moe_cache \<Rightarrow> int list" where
  "score_lanes layer ids c =
     map (\<lambda>k. if missing_lanes layer ids c ! k
        then load (expert_recency c) (next_power_of_2 (experts c)) (\<lambda>k. layer * experts c + k) (\<lambda>k. k < experts c) (- 1) ! k * int (experts c) +
          (int (experts c) - 1 - int k) else no_score) [0..<next_power_of_2 (experts c)]"

lemma ensure_gpu_unfold:
  assumes ok: "moe_ok c" and ids: "routed layer ids c"
  shows "ensure_hybrid_gpu br layer ids max_fetch fq c =
     (let missing = int (length (missing_experts br layer (seen_experts ids) c));
          num_fetch = capped_fetch max_fetch fq missing; c1 = touched layer ids missing num_fetch c;
          d = kernel_fetch br layer (lru_step c + 1) (load (id_of_slot c) (next_power_of_2 (slots c)) id (\<lambda>k. k < slots c) (- 1))
                (map (\<lambda>n. n - 1) (cumsum (map of_bool (missing_lanes layer ids c)))) (missing_lanes layer ids c) (nat num_fetch) 0
                (victim_lanes layer ids c1) (score_lanes layer ids c) c1 in
      (map (\<lambda>e. slot_for_id d ! nat (int (layer * experts c) + e)) ids,
       if br then d\<lparr>expert_recency := store (next_power_of_2 (experts c)) (\<lambda>k. int (layer * experts c + k)) (\<lambda>_. lru_step c + 1)
         (\<lambda>k. active_lanes ids c ! k \<and> k < experts c) (expert_recency d)\<rparr> else d))"
proof -
  have c1: "touched layer ids m n c = c\<lparr>lru_step := lru_step c + 1,
        active_mask := store (next_power_of_2 (experts c)) int (\<lambda>k. of_bool (active_lanes ids c ! k)) (\<lambda>k. k < experts c) (active_mask c),
        num_missing_full := m, num_indices := n,
        slot_usage := store (next_power_of_2 (experts c)) (\<lambda>k. lane_slots layer c ! k) (\<lambda>_. lru_step c + 1)
          (\<lambda>k. active_lanes ids c ! k \<and> 0 \<le> lane_slots layer c ! k) (slot_usage c)\<rparr>" for m n
    unfolding touched_def active_mask_same [OF ok ids] usage_same [OF ok ids] by (cases c) simp
  show ?thesis
    unfolding ensure_hybrid_gpu_def Let_def lane_slots_def [symmetric] active_lanes_def [symmetric] missing_lanes_def [symmetric]
      missing_count [OF ids, of br] c1 victim_lanes_def score_lanes_def
    by (simp cong: if_cong split del: if_split)
qed

lemma capped_le: "capped_fetch max_fetch fq m \<le> m"
  by (simp add: capped_fetch_def Let_def)

lemma touched_lanes:
  assumes ok: "moe_ok c" and ids: "routed layer ids c" and small: "lru_step c + 1 < max_int64"
  shows "lanes_rel (touched layer ids m n c) (lru_step c + 1) (victim_lanes layer ids (touched layer ids m n c))"
    and "taken (touched layer ids m n c) (lru_step c + 1) =
      {k. k < slots c \<and> (\<exists>e \<in> set ids. slot_of c layer e \<noteq> - 1 \<and> nat (slot_of c layer e) = k)}"
proof -
  let ?c = "touched layer ids m n c" and ?hit = "\<lambda>k. \<exists>e \<in> set ids. slot_of c layer e \<noteq> - 1 \<and> nat (slot_of c layer e) = k"
  have usage: "slot_usage ?c ! k = (if ?hit k then lru_step c + 1 else slot_usage c ! k)" if "k < slots c" for k
    using touch_hits_nth [of k "slot_usage c" layer "lru_step c + 1" "seen_experts ids" c] that shape(4) [OF ok] by (simp add: set_seen)
  have le: "slot_usage c ! k < lru_step c + 1" if "k < slots c" for k using usage_le [OF ok that] by simp
  have is_hit: "slot_usage ?c ! k = lru_step c + 1 \<longleftrightarrow> ?hit k" if "k < slots c" for k using usage [OF that] le [OF that] by auto
  show "taken ?c (lru_step c + 1) = {k. k < slots c \<and> ?hit k}" using is_hit unfolding taken_def touched_fields by blast
  have lanes: "victim_lanes layer ids ?c ! k =
      (if k < slots c \<and> slot_usage ?c ! k \<noteq> lru_step c + 1 then slot_usage ?c ! k else max_int64)"
    if k: "k < next_power_of_2 (slots c)" for k
  proof (cases "k < slots c")
    case True
    have "(\<exists>e \<in> set ids. id_of_slot c ! k = int (layer * experts c) + e) \<longleftrightarrow> ?hit k"
      using owner_is_hit [OF ok ids True] by (simp add: flat_id_def)
    then show ?thesis using k True is_hit [OF True] by (auto simp: victim_lanes_def)
  qed (use k in \<open>simp add: victim_lanes_def\<close>)
  have "slot_usage ?c ! k \<le> lru_step c + 1" if "k < slots c" for k using usage [OF that] le [OF that] by simp
  then show "lanes_rel ?c (lru_step c + 1) (victim_lanes layer ids ?c)"
    unfolding lanes_rel_def using lanes small shape(4) [OF ok] next_power_of_2_ge [of "slots c"]
    by (simp add: victim_lanes_def del: nth_map)
qed

lemma score_lanes_rel:
  assumes ok: "moe_ok c" and ids: "routed layer ids c"
  shows "score_rel layer c (missing_experts True layer (seen_experts ids) c) (score_lanes layer ids c)"
  unfolding score_rel_def
proof (intro conjI allI impI ballI)
  let ?ms = "missing_experts True layer (seen_experts ids) c"
  have mem: "e \<in> set ?ms \<longleftrightarrow> e \<in> set ids \<and> slot_of c layer e = - 1" for e by (simp add: set_missing set_seen)
  show "experts c \<le> length (score_lanes layer ids c)" by (simp add: score_lanes_def next_power_of_2_ge)
  show "sorted_wrt (\<lambda>a b. prio layer c b < prio layer c a) ?ms"
    by (rule sorted_by_prio) (use ids in \<open>simp_all add: routed_def set_seen distinct_seen\<close>)
  fix k assume "k < length (score_lanes layer ids c)"
  then have k: "k < next_power_of_2 (experts c)" by (simp add: score_lanes_def)
  show "score_lanes layer ids c ! k = (if int k \<in> set ?ms then prio layer c (int k) else no_score)"
    using k missing_lane [OF ids k] mem [of "int k"] lane_of [OF ids, of "int k"]
    by (auto simp: score_lanes_def prio_def flat_id_def nat_add_distrib simp flip: of_nat_add of_nat_mult)
next
  fix e assume "e \<in> set (missing_experts True layer (seen_experts ids) c)"
  then have e: "e \<in> set ids" by (simp add: set_missing set_seen)
  then show re: "0 \<le> e" "e < int (experts c)" using ids by (auto simp: routed_def)
  have "nat (flat_id c layer e) < length (expert_recency c)" using flat_id_bound(2) [of layer c e] re ids shape(2) [OF ok] by (simp add: routed_def)
  then have "- 1 \<le> expert_recency c ! nat (flat_id c layer e)" using ok nth_mem unfolding moe_ok_def by blast
  then have "- int (experts c) \<le> expert_recency c ! nat (flat_id c layer e) * int (experts c)"
    using mult_right_mono [of "- 1" _ "int (experts c)"] by fastforce
  then show "no_score < prio layer c e" using re shape(8) [OF ok] by (simp add: prio_def no_score_def)
qed

lemma ranked_missing:
  assumes ids: "routed layer ids c" and "\<not> br" and "j < length (missing_experts br layer (seen_experts ids) c)"
  shows "ranked_lane (map (\<lambda>n. n - 1) (cumsum (map of_bool (missing_lanes layer ids c)))) (missing_lanes layer ids c) j =
     missing_experts br layer (seen_experts ids) c ! j"
proof -
  have m: "missing_experts br layer (seen_experts ids) c =
      map int (filter ((!) (missing_lanes layer ids c)) [0..<length (missing_lanes layer ids c)])"
    using assms(2) missing_sorted [OF ids] by (simp add: missing_experts_def)
  then have "j < length (filter ((!) (missing_lanes layer ids c)) [0..<length (missing_lanes layer ids c)])" using assms(3) by simp
  from ranked_lane_nth [OF this] m show ?thesis using assms(3) by simp
qed

lemma recency_same:
  assumes ok: "moe_ok c" and ids: "routed layer ids c" and len: "length rs = layers c * experts c"
  shows "store (next_power_of_2 (experts c)) (\<lambda>k. int (layer * experts c + k)) (\<lambda>_. step) (\<lambda>k. active_lanes ids c ! k \<and> k < experts c) rs =
    fold (\<lambda>e. put (flat_id c layer e) step) (seen_experts ids) rs" (is "?l = ?r")
proof (rule nth_equalityI)
  fix j assume "j < length ?l"
  then have j: "j < length rs" by simp
  have "(\<exists>k < next_power_of_2 (experts c). (active_lanes ids c ! k \<and> k < experts c) \<and> nat (int (layer * experts c + k)) = j) \<longleftrightarrow>
      (\<exists>e \<in> set ids. nat (flat_id c layer e) = j)" (is "?A \<longleftrightarrow> ?B")
  proof
    assume ?A
    then obtain k where k: "k < next_power_of_2 (experts c)" "int k \<in> set ids" "layer * experts c + k = j"
      by (auto simp: active_lanes_nth simp del: of_nat_add of_nat_mult)
    then show ?B by (intro bexI [of _ "int k"]) (simp_all add: flat_id_def nat_add_distrib flip: of_nat_add of_nat_mult)
  next
    assume ?B
    then obtain e where e: "e \<in> set ids" "nat (flat_id c layer e) = j" by blast
    note le = lane_of [OF ids e(1)]
    then show ?A using e by (intro exI [of _ "nat e"]) (simp add: active_lanes_nth flat_id_def)
  qed
  then show "?l ! j = ?r ! j"
    using store_nth [OF j, of "next_power_of_2 (experts c)" "\<lambda>k. active_lanes ids c ! k \<and> k < experts c" "\<lambda>k. int (layer * experts c + k)" "\<lambda>_. step" step]
      fold_put_all_nth [OF j, of "seen_experts ids" "flat_id c layer" "\<lambda>_. step" step] by (simp add: set_seen)
qed simp

lemma fetch_loop_fields [simp]:
  "slots (fetch_loop layer step i es c) = slots c" "experts (fetch_loop layer step i es c) = experts c"
  "layers (fetch_loop layer step i es c) = layers c" "expert_recency (fetch_loop layer step i es c) = expert_recency c"
  "lru_step (fetch_loop layer step i es c) = lru_step c" "banks (fetch_loop layer step i es c) = banks c"
  "num_indices (fetch_loop layer step i es c) = num_indices c" "length (active_mask (fetch_loop layer step i es c)) = length (active_mask c)"
  by (induction es arbitrary: i c) auto

lemma kernel_reference:
  assumes ok: "moe_ok c" and ids: "routed layer ids c" and small: "lru_step c + 1 < max_int64"
  shows "ensure_hybrid_gpu by_recency layer ids max_fetch fq c = ensure_hybrid_cpu by_recency layer ids max_fetch fq c"
proof -
  let ?ms = "missing_experts by_recency layer (seen_experts ids) c"
  let ?n = "capped_fetch max_fetch fq (int (length ?ms))" and ?oid = "load (id_of_slot c) (next_power_of_2 (slots c)) id (\<lambda>k. k < slots c) (- 1)"
  let ?c = "touched layer ids (int (length ?ms)) ?n c" and ?bits = "missing_lanes layer ids c"
  let ?d = "fetch_loop layer (lru_step c + 1) 0 (take (nat ?n) ?ms) ?c"
  have "kernel_fetch by_recency layer (lru_step c + 1) ?oid (map (\<lambda>n. n - 1) (cumsum (map of_bool ?bits))) ?bits (nat ?n) 0
      (victim_lanes layer ids ?c) (score_lanes layer ids c) ?c = ?d"
  proof (rule kernel_fetch_eq)
    show "nat ?n \<le> length ?ms" using capped_le [of max_fetch fq "int (length ?ms)"] by linarith
    show "lanes_rel ?c (lru_step c + 1) (victim_lanes layer ids ?c)" by (rule touched_lanes(1) [OF ok ids small])
    show "card (taken ?c (lru_step c + 1)) + length ?ms \<le> slots ?c"
      using missing_room [OF ok ids, of by_recency] touched_lanes(2) [OF ok ids small] by simp
    show "slots ?c \<le> length ?oid" by (simp add: next_power_of_2_ge)
    show "id_of_slot ?c ! k = ?oid ! k" if "k < slots ?c" for k
      using that next_power_of_2_ge [of "slots c"] by simp
    show "length (id_of_slot ?c) = slots ?c" using shape(3) [OF ok] by simp
    show "score_rel layer ?c ?ms (score_lanes layer ids c)" if by_recency
      using score_lanes_rel [OF ok ids] score_rel_recency [of ?c c] that by simp
    show "\<forall>j < length ?ms. ranked_lane (map (\<lambda>n. n - 1) (cumsum (map of_bool ?bits))) ?bits (0 + j) = ?ms ! j" if "\<not> by_recency"
      using ranked_missing [OF ids that] by simp
  qed
  moreover have "flat_id ?d = flat_id c" by (simp add: fun_eq_iff flat_id_def)
  ultimately show ?thesis
    unfolding ensure_gpu_unfold [OF ok ids] ensure_cpu_unfold Let_def
    using recency_same [OF ok ids shape(2) [OF ok], of "lru_step c + 1"]
    by (cases by_recency) (simp_all add: rewrite_ids_def slot_of_def flat_id_def)
qed

end
