(* ===== verification/Expert_Data.thy ===== *)
theory Expert_Data
  imports Expert_Kernels
begin

text \<open>
  What the slots hold: after a capped ensure and the copy of the misses every route that stays on the GPU
  reads the row of its expert, and every slot holds the row its table entry names.
\<close>

section \<open>The loop of the fetches\<close>

definition usage_ok :: "'r moe_cache \<Rightarrow> int \<Rightarrow> bool" where
  "usage_ok c step \<longleftrightarrow> length (slot_usage c) = slots c \<and> length (id_of_slot c) = slots c \<and> (\<forall>k < slots c. slot_usage c ! k \<le> step)"

lemma oldest_free:
  assumes "usage_ok c step" and "card (taken c step) < slots c"
  shows "oldest_slot (slot_usage c) (slots c) < slots c" "oldest_slot (slot_usage c) (slots c) \<notin> taken c step"
proof -
  let ?v = "oldest_slot (slot_usage c) (slots c)"
  have "0 < slots c" using assms(2) by simp
  from oldest_first_least [OF this] have fl: "first_least (slot_usage c) (slots c) ?v" .
  then show "?v < slots c" by (simp add: first_least_def)
  show "?v \<notin> taken c step"
  proof
    assume "?v \<in> taken c step"
    then have "step \<le> slot_usage c ! k" if "k < slots c" for k
      using fl that unfolding taken_def first_least_def by simp
    then have "taken c step = {..<slots c}" using assms(1) unfolding taken_def usage_ok_def by (auto intro: antisym)
    then show False using assms(2) by simp
  qed
qed

lemma give_slot_usage:
  assumes "usage_ok c step" and "v < slots c"
  shows "usage_ok (give_slot layer step i (int v) e c) step" "taken (give_slot layer step i (int v) e c) step = insert v (taken c step)"
  using assms by (auto simp: usage_ok_def taken_def nth_put)

text \<open>What the loop does, for experts without a slot and with enough slots that were not used in this
  step.\<close>

definition fetched :: "nat \<Rightarrow> int \<Rightarrow> nat \<Rightarrow> int list \<Rightarrow> 'r moe_cache \<Rightarrow> 'r moe_cache \<Rightarrow> bool" where
  "fetched layer step i es c d \<longleftrightarrow>
     tables_ok (slot_for_id d) (id_of_slot d) \<and> usage_ok d step \<and>
     length (slot_for_id d) = length (slot_for_id c) \<and>
     length (evict_slots d) = length (evict_slots c) \<and> length (src_indices d) = length (src_indices c) \<and>
     (\<forall>j < length es. src_indices d ! (i + j) = es ! j \<and> evict_slots d ! (i + j) = slot_of d layer (es ! j) \<and> slot_of d layer (es ! j) \<noteq> - 1) \<and>
     (\<forall>j. j < i \<longrightarrow> src_indices d ! j = src_indices c ! j \<and> evict_slots d ! j = evict_slots c ! j) \<and>
     (\<forall>k \<in> taken c step. id_of_slot d ! k = id_of_slot c ! k) \<and>
     (\<forall>k < slots c. id_of_slot d ! k = id_of_slot c ! k \<or> (\<exists>e \<in> set es. id_of_slot d ! k = flat_id c layer e)) \<and>
     (\<forall>f < length (slot_for_id c). slot_for_id c ! f = - 1 \<longrightarrow> int f \<notin> flat_id c layer ` set es \<longrightarrow> slot_for_id d ! f = - 1)"

lemma fetch_loop_spec:
  assumes "tables_ok (slot_for_id c) (id_of_slot c)" and "usage_ok c step" and "card (taken c step) + length es \<le> slots c"
    and "distinct es" and "\<forall>e \<in> set es. 0 \<le> flat_id c layer e \<and> flat_id c layer e < int (length (slot_for_id c)) \<and> slot_of c layer e = - 1"
    and "i + length es \<le> length (evict_slots c)" and "i + length es \<le> length (src_indices c)"
  shows "fetched layer step i es c (fetch_loop layer step i es c)"
  using assms
proof (induction es arbitrary: c i)
  case Nil
  then show ?case by (auto simp: fetched_def)
next
  case (Cons e es)
  let ?v = "oldest_slot (slot_usage c) (slots c)"
  let ?c = "give_slot layer step i (int ?v) e c" and ?d = "fetch_loop layer step i (e # es) c"
  have "card (taken c step) < slots c" using Cons.prems(3) by simp
  note v = oldest_free [OF Cons.prems(2) this]
  note u = give_slot_usage [OF Cons.prems(2) v(1), of layer i e]
  have lenid: "length (id_of_slot c) = slots c" using Cons.prems(2) by (simp add: usage_ok_def)
  have fe: "0 \<le> flat_id c layer e" "flat_id c layer e < int (length (slot_for_id c))" "slot_for_id c ! nat (flat_id c layer e) = - 1"
    using Cons.prems(5) by (auto simp: slot_of_def)
  have flat: "flat_id ?c = flat_id c" "flat_id ?d = flat_id c" by (simp_all add: fun_eq_iff flat_id_def)
  have tab: "slot_for_id ?c ! f = (if f = nat (flat_id c layer e) then int ?v
      else if 0 \<le> id_of_slot c ! ?v \<and> f = nat (id_of_slot c ! ?v) then - 1 else slot_for_id c ! f)" if "f < length (slot_for_id c)" for f
    using that by (auto simp: give_slot_table nth_put)
  have len: "length (slot_for_id ?c) = length (slot_for_id c)" by (simp add: give_slot_table)
  have F: "fetched layer step (Suc i) es ?c ?d" unfolding fetch_loop.simps
  proof (rule Cons.IH)
    show "tables_ok (slot_for_id ?c) (id_of_slot ?c)"
      using tables_give [OF Cons.prems(1), of ?v "flat_id c layer e"] fe v(1) lenid
      by (simp add: give_slot_table cong: if_cong split del: if_split)
    show "usage_ok ?c step" by (rule u(1))
    show "card (taken ?c step) + length es \<le> slots ?c"
      using Cons.prems(3) v(2) unfolding u(2) by (simp add: taken_def)
    show "\<forall>e' \<in> set es. 0 \<le> flat_id ?c layer e' \<and> flat_id ?c layer e' < int (length (slot_for_id ?c)) \<and> slot_of ?c layer e' = - 1"
    proof
      fix e' assume e': "e' \<in> set es"
      then have "e' \<noteq> e" using Cons.prems(4) by auto
      then have ne: "flat_id c layer e' \<noteq> flat_id c layer e" by (simp add: flat_id_inj)
      have b: "0 \<le> flat_id c layer e'" "flat_id c layer e' < int (length (slot_for_id c))" "slot_for_id c ! nat (flat_id c layer e') = - 1"
        using Cons.prems(5) e' by (auto simp: slot_of_def)
      have "nat (flat_id c layer e') \<noteq> nat (flat_id c layer e)" using ne b fe by simp
      then have "slot_for_id ?c ! nat (flat_id c layer e') = - 1" using tab [of "nat (flat_id c layer e')"] b by auto
      then show "0 \<le> flat_id ?c layer e' \<and> flat_id ?c layer e' < int (length (slot_for_id ?c)) \<and> slot_of ?c layer e' = - 1"
        using b len flat by (simp add: slot_of_def)
    qed
  qed (use Cons.prems in simp_all)
  note D = F [unfolded fetched_def flat]
  have keep: "id_of_slot ?d ! ?v = flat_id c layer e"
    using D u(2) v(1) lenid by (simp add: nth_put)
  have "slot_of ?d layer e = int ?v"
  proof -
    have "tables_ok (slot_for_id ?d) (id_of_slot ?d)" "?v < length (id_of_slot ?d)"
      using D v(1) by (auto simp: usage_ok_def)
    from tables_ids [OF this] keep fe(1) show ?thesis by (simp add: slot_of_def flat(2) del: fetch_loop.simps)
  qed
  then have first: "src_indices ?d ! i = e \<and> evict_slots ?d ! i = slot_of ?d layer e \<and> slot_of ?d layer e \<noteq> - 1"
    using D Cons.prems(6,7) by simp
  have all: "\<forall>j < length (e # es). src_indices ?d ! (i + j) = (e # es) ! j \<and>
      evict_slots ?d ! (i + j) = slot_of ?d layer ((e # es) ! j) \<and> slot_of ?d layer ((e # es) ! j) \<noteq> - 1"
  proof (intro allI impI)
    fix j assume "j < length (e # es)"
    then show "src_indices ?d ! (i + j) = (e # es) ! j \<and>
      evict_slots ?d ! (i + j) = slot_of ?d layer ((e # es) ! j) \<and> slot_of ?d layer ((e # es) ! j) \<noteq> - 1"
      using first D by (cases j) (auto simp del: fetch_loop.simps)
  qed
  have before: "\<forall>j. j < i \<longrightarrow> src_indices ?d ! j = src_indices c ! j \<and> evict_slots ?d ! j = evict_slots c ! j"
    using D by (simp del: fetch_loop.simps)
  have held: "\<forall>k \<in> taken c step. id_of_slot ?d ! k = id_of_slot c ! k"
  proof
    fix k assume k: "k \<in> taken c step"
    then have "id_of_slot ?d ! k = id_of_slot ?c ! k" using D u(2) by blast
    moreover have "k \<noteq> ?v" "k < slots c" using k v(2) by (auto simp: taken_def)
    ultimately show "id_of_slot ?d ! k = id_of_slot c ! k" using lenid by (simp add: nth_put del: fetch_loop.simps)
  qed
  have changed: "\<forall>k < slots c. id_of_slot ?d ! k = id_of_slot c ! k \<or> (\<exists>e' \<in> set (e # es). id_of_slot ?d ! k = flat_id c layer e')"
  proof (intro allI impI)
    fix k assume k: "k < slots c"
    show "id_of_slot ?d ! k = id_of_slot c ! k \<or> (\<exists>e' \<in> set (e # es). id_of_slot ?d ! k = flat_id c layer e')"
    proof (cases "k = ?v")
      case True
      then show ?thesis using keep by (auto simp del: fetch_loop.simps)
    next
      case False
      have "id_of_slot ?d ! k = id_of_slot ?c ! k \<or> (\<exists>e' \<in> set es. id_of_slot ?d ! k = flat_id c layer e')"
        using D k by (simp del: fetch_loop.simps)
      then show ?thesis using False k lenid by (auto simp: nth_put simp del: fetch_loop.simps)
    qed
  qed
  have empty: "\<forall>f < length (slot_for_id c). slot_for_id c ! f = - 1 \<longrightarrow> int f \<notin> flat_id c layer ` set (e # es) \<longrightarrow> slot_for_id ?d ! f = - 1"
  proof (intro allI impI)
    fix f assume f: "f < length (slot_for_id c)" "slot_for_id c ! f = - 1" "int f \<notin> flat_id c layer ` set (e # es)"
    then have "f \<noteq> nat (flat_id c layer e)" using fe(1) by auto
    then have "slot_for_id ?c ! f = - 1" using tab [OF f(1)] f(2) by simp
    then show "slot_for_id ?d ! f = - 1" using D f(1,3) len by (simp del: fetch_loop.simps)
  qed
  show ?case unfolding fetched_def using D all before held changed empty len by (simp del: fetch_loop.simps)
qed

section \<open>The rows\<close>

definition bank_ok :: "'r moe_cache \<Rightarrow> 'r bank \<Rightarrow> bool" where
  "bank_ok c b \<longleftrightarrow> length (bank_src b) = layers c \<and> (\<forall>rows \<in> set (bank_src b). length rows = experts c) \<and> length (bank_rows b) = slots c"

text \<open>The host row of a flat id, and the slots that hold what their table entry says.\<close>

definition host_row :: "'r moe_cache \<Rightarrow> 'r bank \<Rightarrow> int \<Rightarrow> 'r" where
  "host_row c b f = bank_src b ! (nat f div experts c) ! (nat f mod experts c)"

definition rows_ok :: "'r moe_cache \<Rightarrow> bool" where
  "rows_ok c \<longleftrightarrow> (\<forall>b \<in> set (banks c). bank_ok c b \<and>
     (\<forall>k < slots c. id_of_slot c ! k \<noteq> - 1 \<longrightarrow> bank_rows b ! k = host_row c b (id_of_slot c ! k)))"

lemma host_row_flat:
  assumes "0 \<le> e" and "e < int (experts c)"
  shows "host_row c b (flat_id c layer e) = bank_src b ! layer ! nat e"
proof -
  have n: "nat (flat_id c layer e) = nat e + layer * experts c" using assms by (simp add: flat_id_def nat_add_distrib flip: of_nat_mult)
  have "nat e < experts c" using assms by linarith
  then show ?thesis unfolding host_row_def n by simp
qed

lemma copy_bank_src [simp]: "bank_src (copy_bank layer dst src n b) = bank_src b"
  by (simp add: copy_bank_def)

lemma copy_bank_rows:
  assumes "0 \<le> n" "n \<le> int (length dst)" and "k < length (bank_rows b)"
    and "\<And>j. j < nat n \<Longrightarrow> in_rows (dst ! j) (length (bank_rows b)) \<and> in_rows (src ! j) (length (bank_src b ! layer))"
    and "\<And>j j'. j < nat n \<Longrightarrow> j' < nat n \<Longrightarrow> dst ! j = dst ! j' \<Longrightarrow> j = j'"
  shows "j < nat n \<Longrightarrow> nat (dst ! j) = k \<Longrightarrow> bank_rows (copy_bank layer dst src n b) ! k = bank_src b ! layer ! nat (src ! j)"
    and "(\<And>j. j < nat n \<Longrightarrow> nat (dst ! j) \<noteq> k) \<Longrightarrow> bank_rows (copy_bank layer dst src n b) ! k = bank_rows b ! k"
    and "length (bank_rows (copy_bank layer dst src n b)) = length (bank_rows b)"
proof -
  let ?on = "\<lambda>j. in_rows (dst ! j) (length (bank_rows b)) \<and> in_rows (src ! j) (length (bank_src b ! layer))"
  let ?val = "\<lambda>j. bank_src b ! layer ! nat (src ! j)"
  have "fold (\<lambda>j rows. if in_rows (dst ! j) (length rows) \<and> in_rows (src ! j) (length (bank_src b ! layer))
         then put (dst ! j) (?val j) rows else rows) js rows = fold (\<lambda>j rows. if ?on j then put (dst ! j) (?val j) rows else rows) js rows"
    if "length rows = length (bank_rows b)" for js rows
    using that by (induction js arbitrary: rows) auto
  then have rows: "bank_rows (copy_bank layer dst src n b) = fold (\<lambda>j rows. if ?on j then put (dst ! j) (?val j) rows else rows) [0..<nat n] (bank_rows b)"
    using assms(1,2) by (simp add: copy_bank_def in_rows_def)
  show "length (bank_rows (copy_bank layer dst src n b)) = length (bank_rows b)" unfolding rows by simp
  have eq: "j = j'" if "j < nat n" "j' < nat n" "nat (dst ! j) = k" "nat (dst ! j') = k" for j j'
    using assms(4) [OF that(1)] assms(4) [OF that(2)] assms(5) [OF that(1,2)] that(3,4) by (auto simp: in_rows_def)
  show "bank_rows (copy_bank layer dst src n b) ! k = ?val j" if j: "j < nat n" "nat (dst ! j) = k"
    unfolding rows
  proof (subst fold_put_nth [OF assms(3), of "[0..<nat n]" ?on "\<lambda>j. dst ! j" ?val "?val j"])
    fix i assume "i \<in> set [0..<nat n]" "nat (dst ! i) = k"
    then show "?val i = ?val j" using eq [of i j] j by simp
  next
    show "(if \<exists>i\<in>set [0..<nat n]. ?on i \<and> nat (dst ! i) = k then ?val j else bank_rows b ! k) = ?val j"
      using j assms(4) [OF j(1)] by auto
  qed
  show "bank_rows (copy_bank layer dst src n b) ! k = bank_rows b ! k" if no: "\<And>j. j < nat n \<Longrightarrow> nat (dst ! j) \<noteq> k"
    unfolding rows
  proof (subst fold_put_nth [OF assms(3), of "[0..<nat n]" ?on "\<lambda>j. dst ! j" ?val undefined])
    fix i assume "i \<in> set [0..<nat n]" "nat (dst ! i) = k"
    then show "?val i = undefined" using no [of i] by simp
  next
    show "(if \<exists>i\<in>set [0..<nat n]. ?on i \<and> nat (dst ! i) = k then undefined else bank_rows b ! k) = bank_rows b ! k"
      using no by auto
  qed
qed

section \<open>The state after an ensure\<close>

lemma set_put: "set (put i v xs) \<subseteq> insert v (set xs)"
  by (simp add: put_def set_update_subset_insert)

lemma set_fold_put: "set (fold (\<lambda>i. put (off i) v) is xs) \<subseteq> insert v (set xs)"
proof (induction "is" arbitrary: xs)
  case (Cons a as)
  have "set (fold (\<lambda>i. put (off i) v) as (put (off a) v xs)) \<subseteq> insert v (set (put (off a) v xs))" by (rule Cons.IH)
  then show ?case using set_put by fastforce
qed auto

lemma set_touch: "set (touch_hits layer step es c usage) \<subseteq> insert step (set usage)"
proof -
  have "set (fold (\<lambda>e u. if slot_of c layer e \<noteq> - 1 then put (slot_of c layer e) step u else u) es usage) \<subseteq> insert step (set usage)"
  proof (induction es arbitrary: usage)
    case (Cons a as)
    let ?u = "if slot_of c layer a \<noteq> - 1 then put (slot_of c layer a) step usage else usage"
    have "set ?u \<subseteq> insert step (set usage)"
      using set_put [of "slot_of c layer a" step usage] by (cases "slot_of c layer a \<noteq> - 1") auto
    then show ?case using Cons.IH [of ?u] by fastforce
  qed auto
  then show ?thesis by (simp add: touch_hits_def)
qed

lemma set_loop_usage: "set (slot_usage (fetch_loop layer step i es c)) \<subseteq> insert step (set (slot_usage c))"
proof (induction es arbitrary: i c)
  case (Cons e es)
  have "set (slot_usage (fetch_loop layer step i (e # es) c)) \<subseteq>
      insert step (set (put (int (oldest_slot (slot_usage c) (slots c))) step (slot_usage c)))"
    using Cons.IH [of "Suc i" "give_slot layer step i (int (oldest_slot (slot_usage c) (slots c))) e c"] by simp
  then show ?case using set_put by fastforce
qed auto

lemma capped_nonneg:
  assumes "0 \<le> max_fetch" and "0 \<le> m"
  shows "0 \<le> capped_fetch max_fetch fq m"
proof -
  have "0 \<le> m * fq div q16" if "0 < fq" using assms(2) that by (simp add: q16_def pos_imp_zdiv_nonneg_iff)
  then show ?thesis using assms by (auto simp: capped_fetch_def Let_def)
qed

lemma fetched_recency: "fetched layer step i es c (d\<lparr>expert_recency := r\<rparr>) = fetched layer step i es c d"
  by (simp add: fetched_def usage_ok_def slot_of_def flat_id_def)

text \<open>The fetched experts, and the reference as the loop over them.\<close>

definition fetched_experts :: "bool \<Rightarrow> nat \<Rightarrow> int list \<Rightarrow> int \<Rightarrow> int \<Rightarrow> 'r moe_cache \<Rightarrow> int list" where
  "fetched_experts br layer ids max_fetch fq c =
     (let ms = missing_experts br layer (seen_experts ids) c in take (nat (capped_fetch max_fetch fq (int (length ms)))) ms)"

lemma fetched_sub: "set (fetched_experts br layer ids max_fetch fq c) \<subseteq> {e \<in> set ids. slot_of c layer e = - 1}"
  unfolding fetched_experts_def Let_def
  by (rule order_trans [OF set_take_subset]) (simp add: set_missing set_seen)

lemma ensure_cpu_fetched:
  assumes ok: "moe_ok c" and ids: "routed layer ids c" and run: "ensure_hybrid_cpu br layer ids max_fetch fq c = (out, d)"
  defines "m \<equiv> int (length (missing_experts br layer (seen_experts ids) c))"
  shows "fetched layer (lru_step c + 1) 0 (fetched_experts br layer ids max_fetch fq c)
      (touched layer ids m (capped_fetch max_fetch fq m) c) d"
    and "out = map (slot_of d layer) ids" and "moe_ok d" and "banks d = banks c" and "layers d = layers c" and "experts d = experts c"
    and "slots d = slots c" and "num_indices d = capped_fetch max_fetch fq m" and "unpinned_layers d = unpinned_layers c"
    and "pending_src_layer d = pending_src_layer c" and "lru_step d = lru_step c + 1"
proof -
  let ?ms = "missing_experts br layer (seen_experts ids) c" and ?step = "lru_step c + 1"
  let ?n = "capped_fetch max_fetch fq m" and ?fs = "fetched_experts br layer ids max_fetch fq c"
  let ?c = "touched layer ids m ?n c"
  let ?d = "fetch_loop layer ?step 0 ?fs ?c"
  have fs: "?fs = take (nat ?n) ?ms" by (simp add: fetched_experts_def Let_def m_def)
  have d: "d = (if br then ?d\<lparr>expert_recency := fold (\<lambda>e. put (flat_id ?d layer e) ?step) (seen_experts ids) (expert_recency ?d)\<rparr> else ?d)"
    and out: "out = rewrite_ids layer d ids"
    using run unfolding ensure_cpu_unfold Let_def fs m_def by (auto split del: if_split)
  have usage: "slot_usage ?c ! k \<le> ?step" if "k < slots c" for k
    using touch_hits_nth [of k "slot_usage c" layer ?step "seen_experts ids" c] usage_le [OF ok that] shape(4) [OF ok] that by simp
  have "fetched layer ?step 0 ?fs ?c ?d"
  proof (rule fetch_loop_spec)
    show "tables_ok (slot_for_id ?c) (id_of_slot ?c)" using ok by (simp add: moe_ok_def)
    show "usage_ok ?c ?step" using usage shape(3,4) [OF ok] by (simp add: usage_ok_def)
    have "card (taken ?c ?step) \<le> card {k. k < slots c \<and> (\<exists>e \<in> set ids. slot_of c layer e \<noteq> - 1 \<and> nat (slot_of c layer e) = k)}"
    proof (rule card_mono)
      show "taken ?c ?step \<subseteq> {k. k < slots c \<and> (\<exists>e \<in> set ids. slot_of c layer e \<noteq> - 1 \<and> nat (slot_of c layer e) = k)}"
        using touch_hits_nth [of _ "slot_usage c" layer ?step "seen_experts ids" c] usage_le [OF ok] shape(4) [OF ok]
        by (fastforce simp: taken_def set_seen split: if_splits)
    qed simp
    moreover have "length ?fs \<le> length ?ms" unfolding fs by simp
    ultimately show "card (taken ?c ?step) + length ?fs \<le> slots ?c" using missing_room [OF ok ids, of br] by simp
    show "distinct ?fs" unfolding fs by (simp add: distinct_missing distinct_seen)
    have fl: "flat_id ?c = flat_id c" by (simp add: fun_eq_iff flat_id_def)
    show "\<forall>e \<in> set ?fs. 0 \<le> flat_id ?c layer e \<and> flat_id ?c layer e < int (length (slot_for_id ?c)) \<and> slot_of ?c layer e = - 1"
    proof
      fix e assume "e \<in> set ?fs"
      then have "e \<in> set ids" "slot_of c layer e = - 1" using fetched_sub by blast+
      then show "0 \<le> flat_id ?c layer e \<and> flat_id ?c layer e < int (length (slot_for_id ?c)) \<and> slot_of ?c layer e = - 1"
        using flat_id_bound [of layer c e] ids shape(1) [OF ok] by (simp add: routed_def slot_of_def fl)
    qed
    have "length ?fs \<le> slots c" using missing_room [OF ok ids, of br] \<open>length ?fs \<le> length ?ms\<close> by simp
    then show "0 + length ?fs \<le> length (evict_slots ?c)" "0 + length ?fs \<le> length (src_indices ?c)"
      using ok by (simp_all add: moe_ok_def moe_shape_def)
  qed
  then have F: "fetched layer ?step 0 ?fs ?c ?d" .
  have same: "fetched layer ?step 0 ?fs ?c d"
    using F unfolding d by (cases br) (simp_all add: fetched_recency)
  then show "fetched layer ?step 0 ?fs ?c d" .
  show "out = map (slot_of d layer) ids" by (simp add: out rewrite_ids_def)
  have "set (slot_usage ?d) \<subseteq> insert ?step (set (slot_usage c))"
    using set_loop_usage [of layer ?step 0 ?fs ?c] set_touch [of layer ?step "seen_experts ids" c "slot_usage c"] by fastforce
  moreover have "set (fold (\<lambda>e. put (flat_id ?d layer e) ?step) (seen_experts ids) (expert_recency ?d)) \<subseteq> insert ?step (set (expert_recency c))"
    using set_fold_put [of "flat_id ?d layer" ?step "seen_experts ids" "expert_recency ?d"] by simp
  moreover have "\<forall>u \<in> set (slot_usage c). 0 \<le> u \<and> u \<le> lru_step c" "\<forall>r \<in> set (expert_recency c). - 1 \<le> r \<and> r \<le> lru_step c" "0 \<le> lru_step c"
    using ok by (auto simp: moe_ok_def)
  ultimately have b: "\<forall>u \<in> set (slot_usage d). 0 \<le> u \<and> u \<le> ?step" "\<forall>r \<in> set (expert_recency d). - 1 \<le> r \<and> r \<le> ?step" "0 \<le> ?step"
    unfolding d by (cases br; fastforce)+
  have sh: "moe_shape d"
    using same ok unfolding d by (simp add: fetched_def usage_ok_def moe_ok_def moe_shape_def)
  show "lru_step d = ?step" unfolding d by simp
  then show "moe_ok d" using b sh same by (simp add: moe_ok_def fetched_def)
  show "banks d = banks c" "layers d = layers c" "experts d = experts c" "slots d = slots c" "num_indices d = ?n"
    unfolding d by simp_all
  have "unpinned_layers (fetch_loop layer s i es e) = unpinned_layers e \<and> pending_src_layer (fetch_loop layer s i es e) = pending_src_layer e"
    for s i es and e :: "'a moe_cache"
    by (induction es arbitrary: i e) (auto simp: give_slot_def Let_def)
  then show "unpinned_layers d = unpinned_layers c" "pending_src_layer d = pending_src_layer c"
    unfolding d by (simp_all add: touched_def)
qed

end
