(* ===== verification/Expert_Decode.thy ===== *)
theory Expert_Decode
  imports Expert_Data
begin

text \<open>
  The decode step of an offloaded MoE layer with the hybrid backend (\<open>OffloadMoELayer._decode_hybrid\<close> in
  \<open>layers/moe.py\<close>): the routes of resident and fetched experts are computed on the GPU from the slots, the
  others on the CPU from the host rows, and the two partial sums are added.
\<close>

section \<open>Where the routes go\<close>

lemma touched_taken:
  assumes ok: "moe_ok c" and ids: "routed layer ids c" and e: "e \<in> set ids" "slot_of c layer e \<noteq> - 1"
  shows "nat (slot_of c layer e) \<in> taken (touched layer ids m n c) (lru_step c + 1)"
proof -
  have k: "nat (slot_of c layer e) < slots c" using hit_slot(1,2) [OF ok ids e] by linarith
  then show ?thesis
    using touch_hits_nth [of "nat (slot_of c layer e)" "slot_usage c" layer "lru_step c + 1" "seen_experts ids" c]
      shape(4) [OF ok] e by (auto simp: taken_def set_seen)
qed

lemma routes_after:
  assumes ok: "moe_ok c" and ids: "routed layer ids c" and e: "e \<in> set ids"
    and run: "ensure_hybrid_cpu br layer ids max_fetch fq c = (out, d)"
  shows "slot_of c layer e \<noteq> - 1 \<Longrightarrow> slot_of d layer e = slot_of c layer e"
    and "e \<in> set (fetched_experts br layer ids max_fetch fq c) \<Longrightarrow> slot_of d layer e \<noteq> - 1"
    and "slot_of c layer e = - 1 \<Longrightarrow> e \<notin> set (fetched_experts br layer ids max_fetch fq c) \<Longrightarrow> slot_of d layer e = - 1"
proof -
  note R = ensure_cpu_fetched [OF ok ids run]
  note F = R(1) [unfolded fetched_def touched_fields]
  have flat: "flat_id d = flat_id c" "flat_id (touched layer ids m n c) = flat_id c" for m n using R(6) by (simp_all add: fun_eq_iff flat_id_def)
  have fb: "0 \<le> flat_id c layer e" "nat (flat_id c layer e) < length (slot_for_id c)"
    using flat_id_bound [of layer c e] ids e shape(1) [OF ok] by (auto simp: routed_def)
  show "slot_of d layer e = slot_of c layer e" if hit: "slot_of c layer e \<noteq> - 1"
  proof -
    note h = hit_slot [OF ok ids e hit]
    have "id_of_slot d ! nat (slot_of c layer e) = flat_id c layer e"
      using F touched_taken [OF ok ids e hit] h(3) by (simp add: taken_def)
    moreover have "nat (slot_of c layer e) < length (id_of_slot d)" using h(1,2) R(3,7) by (simp add: moe_ok_def moe_shape_def)
    moreover have "tables_ok (slot_for_id d) (id_of_slot d)" using R(3) by (simp add: moe_ok_def)
    ultimately show ?thesis using tables_ids [of "slot_for_id d" "id_of_slot d" "nat (slot_of c layer e)"] fb(1) h(1)
      by (auto simp: slot_of_def flat)
  qed
  show "slot_of d layer e \<noteq> - 1" if "e \<in> set (fetched_experts br layer ids max_fetch fq c)"
    using F that by (auto simp: in_set_conv_nth)
  show "slot_of d layer e = - 1" if "slot_of c layer e = - 1" "e \<notin> set (fetched_experts br layer ids max_fetch fq c)"
  proof -
    have "int (nat (flat_id c layer e)) \<notin> flat_id c layer ` set (fetched_experts br layer ids max_fetch fq c)"
      using that(2) fb(1) by (auto simp: image_iff flat_id_inj)
    then show ?thesis using F fb that(1) unfolding flat by (auto simp: slot_of_def flat)
  qed
qed

text \<open>The copy of the fetched rows restores that every slot holds what its entry names.\<close>

lemma copy_after_ensure:
  assumes ok: "moe_ok c" and ids: "routed layer ids c" and rows: "rows_ok c" and cap: "0 \<le> max_fetch"
    and run: "ensure_hybrid_cpu br layer ids max_fetch fq c = (out, d)"
    and pend: "pending_src_layer c = Some layer" and pinned: "layer \<notin> set (unpinned_layers c)" and banks: "banks c \<noteq> []"
  shows "\<exists>d'. copy_missing d = Inr d' \<and> rows_ok d' \<and> d' = d\<lparr>banks := banks d'\<rparr> \<and>
     map bank_src (banks d') = map bank_src (banks c)"
proof -
  note R = ensure_cpu_fetched [OF ok ids run]
  note F = R(1) [unfolded fetched_def touched_fields]
  let ?fs = "fetched_experts br layer ids max_fetch fq c" and ?ms = "missing_experts br layer (seen_experts ids) c"
  let ?cp = "copy_bank layer (evict_slots d) (src_indices d) (num_indices d)"
  define d' where "d' = d\<lparr>banks := map ?cp (banks d)\<rparr>"
  have run': "copy_missing d = Inr d'" using R(4,9,10) pend pinned banks by (simp add: copy_missing_def py_assert_def d'_def)
  have n: "num_indices d = int (length ?fs)"
    using R(8) capped_le [of max_fetch fq "int (length ?ms)"] capped_nonneg [OF cap, of "int (length ?ms)" fq]
    by (simp add: fetched_experts_def Let_def)
  have flat: "flat_id d = flat_id c" "flat_id (touched layer ids m n c) = flat_id c" for m n using R(6) by (simp_all add: fun_eq_iff flat_id_def)
  have okd: "moe_ok d" by (rule R(3))
  have fs: "e \<in> set ids \<and> 0 \<le> e \<and> e < int (experts c)" if "e \<in> set ?fs" for e
    using that fetched_sub [of br layer ids max_fetch fq c] ids by (auto simp: routed_def)
  have idsd: "routed layer ids d" using ids R(5,6) by (simp add: routed_def)
  have at: "src_indices d ! j = ?fs ! j" "evict_slots d ! j = slot_of d layer (?fs ! j)" "slot_of d layer (?fs ! j) \<noteq> - 1"
    if "j < length ?fs" for j using F that by auto
  have here: "?fs ! j \<in> set ids" if "j < length ?fs" for j using fs that nth_mem by blast
  have slot: "0 \<le> slot_of d layer (?fs ! j)" "slot_of d layer (?fs ! j) < int (slots c)"
    "id_of_slot d ! nat (slot_of d layer (?fs ! j)) = flat_id c layer (?fs ! j)" if "j < length ?fs" for j
    using hit_slot [OF okd idsd here [OF that] at(3) [OF that]] R(7) flat by auto
  have dist: "distinct ?fs" by (simp add: fetched_experts_def Let_def distinct_missing distinct_seen)
  have inj: "j = j'" if "j < length ?fs" "j' < length ?fs" "evict_slots d ! j = evict_slots d ! j'" for j j'
  proof -
    have "flat_id c layer (?fs ! j) = flat_id c layer (?fs ! j')" using slot(3) [OF that(1)] slot(3) [OF that(2)] that at(2) by simp
    then have "?fs ! j = ?fs ! j'" by (simp add: flat_id_inj)
    then show ?thesis using dist that by (simp add: nth_eq_iff_index_eq)
  qed
  have len: "int (length ?fs) \<le> int (length (evict_slots d))"
  proof -
    have "length ?fs \<le> length ?ms" by (simp add: fetched_experts_def Let_def)
    then have "length ?fs \<le> slots c" using missing_room [OF ok ids, of br] by simp
    then show ?thesis using okd R(7) by (simp add: moe_ok_def moe_shape_def)
  qed
  have "bank_ok d' (?cp b) \<and> (\<forall>k < slots d'. id_of_slot d' ! k \<noteq> - 1 \<longrightarrow> bank_rows (?cp b) ! k = host_row d' (?cp b) (id_of_slot d' ! k))"
    if b: "b \<in> set (banks c)" for b
  proof -
    have bok: "bank_ok c b" and old: "\<And>k. k < slots c \<Longrightarrow> id_of_slot c ! k \<noteq> - 1 \<Longrightarrow> bank_rows b ! k = host_row c b (id_of_slot c ! k)"
      using rows b by (auto simp: rows_ok_def)
    have srcl: "length (bank_src b ! layer) = experts c" using bok ids by (simp add: bank_ok_def routed_def)
    have range: "in_rows (evict_slots d ! j) (length (bank_rows b)) \<and> in_rows (src_indices d ! j) (length (bank_src b ! layer))"
      if "j < nat (num_indices d)" for j
      using that n slot [of j] at [of j] fs [of "?fs ! j"] bok srcl by (auto simp: in_rows_def bank_ok_def)
    have injn: "j = j'" if "j < nat (num_indices d)" "j' < nat (num_indices d)" "evict_slots d ! j = evict_slots d ! j'" for j j'
      using inj that n by simp
    have n0: "0 \<le> num_indices d" "num_indices d \<le> int (length (evict_slots d))" using n len by simp_all
    have krow: "k < length (bank_rows b)" if "k < slots c" for k using bok that by (simp add: bank_ok_def)
    have "0 < slots c" using shape(6,7) [OF ok] by simp
    have C1: "bank_rows (?cp b) ! k = bank_src b ! layer ! nat (src_indices d ! j)"
      if "k < slots c" "j < nat (num_indices d)" "nat (evict_slots d ! j) = k" for k j
      by (rule copy_bank_rows(1) [OF n0 krow [OF that(1)]], erule range, erule (2) injn, rule that(2), rule that(3))
    have C2: "bank_rows (?cp b) ! k = bank_rows b ! k"
      if "k < slots c" "\<And>j. j < nat (num_indices d) \<Longrightarrow> nat (evict_slots d ! j) \<noteq> k" for k
      by (rule copy_bank_rows(2) [OF n0 krow [OF that(1)]], erule range, erule (2) injn, erule that(2))
    have lenr: "length (bank_rows (?cp b)) = length (bank_rows b)"
      by (rule copy_bank_rows(3) [OF n0 krow [OF \<open>0 < slots c\<close>]], erule range, erule (2) injn)
    have "bank_rows (?cp b) ! k = host_row c b (id_of_slot d ! k)" if k: "k < slots c" "id_of_slot d ! k \<noteq> - 1" for k
    proof (cases "\<exists>j < length ?fs. nat (evict_slots d ! j) = k")
      case True
      then obtain j where j: "j < length ?fs" "nat (evict_slots d ! j) = k" by blast
      then have "j < nat (num_indices d)" using n by simp
      from C1 [OF k(1) this j(2)] have "bank_rows (?cp b) ! k = bank_src b ! layer ! nat (?fs ! j)"
        unfolding at(1) [OF j(1)] .
      moreover have "id_of_slot d ! k = flat_id c layer (?fs ! j)" using slot(3) [OF j(1)] at(2) [OF j(1)] j(2) by simp
      ultimately show ?thesis using host_row_flat [of "?fs ! j" c b layer] fs [OF nth_mem [OF j(1)]] by simp
    next
      case False
      have "id_of_slot d ! k = id_of_slot c ! k"
      proof (rule ccontr)
        assume "id_of_slot d ! k \<noteq> id_of_slot c ! k"
        then obtain e where e: "e \<in> set ?fs" "id_of_slot d ! k = flat_id c layer e" using F k(1) unfolding flat by blast
        then obtain j where j: "j < length ?fs" "?fs ! j = e" by (auto simp: in_set_conv_nth)
        have "k < length (id_of_slot d)" using k(1) okd R(7) by (simp add: moe_ok_def moe_shape_def)
        from tables_ids [OF _ this k(2)] okd e(2) have "slot_of d layer e = int k" by (simp add: moe_ok_def slot_of_def flat)
        then have "nat (evict_slots d ! j) = k" using at(2) [OF j(1)] j(2) by simp
        then show False using False j(1) by blast
      qed
      moreover have "bank_rows (?cp b) ! k = bank_rows b ! k"
        by (rule C2 [OF k(1)]) (use False n in auto)
      ultimately show ?thesis using old k by simp
    qed
    then show ?thesis using bok lenr R(5-7) by (simp add: bank_ok_def d'_def host_row_def)
  qed
  then have "rows_ok d'" using R(4) by (simp add: rows_ok_def d'_def)
  moreover have "map bank_src (banks d') = map bank_src (banks c)" using R(4) by (simp add: d'_def)
  ultimately show ?thesis using run' by (simp add: d'_def)
qed

section \<open>The decode step\<close>

text \<open>\<open>_decode_hybrid\<close>: \<open>expert\<close> is the expert network on the rows of all banks, a parameter like the kernels
  that compute it; the weights and the sums are exact.\<close>

definition bank_views :: "'r moe_cache \<Rightarrow> 'r list list" where
  "bank_views c = map bank_rows (banks c)"

definition gpu_part :: "('r list \<Rightarrow> rat) \<Rightarrow> rat list \<Rightarrow> int list \<Rightarrow> 'r list list \<Rightarrow> rat" where
  "gpu_part expert w slot_ids views = (\<Sum>(x, s) \<leftarrow> zip w slot_ids. x * expert (map (\<lambda>v. v ! nat s) views))"

definition cpu_part :: "('r list \<Rightarrow> rat) \<Rightarrow> rat list \<Rightarrow> int list \<Rightarrow> 'r list list \<Rightarrow> rat" where
  "cpu_part expert w expert_ids host =
     (\<Sum>(x, e) \<leftarrow> zip w expert_ids. if e < 0 then 0 else x * expert (map (\<lambda>v. v ! nat e) host))"

definition decode_hybrid ::
    "(int list \<Rightarrow> int \<Rightarrow> int \<Rightarrow> 'r moe_cache \<Rightarrow> int list \<times> 'r moe_cache) \<Rightarrow> int \<Rightarrow> rat \<Rightarrow> ('r list \<Rightarrow> rat) \<Rightarrow> nat \<Rightarrow>
     rat list \<Rightarrow> int list \<Rightarrow> 'r moe_cache \<Rightarrow> (rat \<times> 'r moe_cache) result" where
  "decode_hybrid ens max_fetch fraction expert layer w raw c =
     (let (topk_ids, d) = ensure_experts_hybrid (ens raw) max_fetch fraction layer c;
          on_gpu = map (\<lambda>s. 0 \<le> s) topk_ids;
          cpu_ids = map (\<lambda>(g, e). if g then - 1 else e) (zip on_gpu raw);
          gpu_slots = map (max 0) topk_ids;
          gpu_w = map (\<lambda>(g, x). if g then x else 0) (zip on_gpu w);
          cpu_routed = cpu_part expert w cpu_ids (map (\<lambda>b. bank_src b ! layer) (banks d)) in
      rbind (copy_missing d) (\<lambda>d.
        Inr (gpu_part expert gpu_w gpu_slots (bank_views d) + cpu_routed, d)))"

text \<open>The reference: every route on the row of its expert.\<close>

definition routed_sum :: "('r list \<Rightarrow> rat) \<Rightarrow> nat \<Rightarrow> rat list \<Rightarrow> int list \<Rightarrow> 'r moe_cache \<Rightarrow> rat" where
  "routed_sum expert layer w raw c =
     (\<Sum>(x, e) \<leftarrow> zip w raw. x * expert (map (\<lambda>b. bank_src b ! layer ! nat e) (banks c)))"

lemma parts_sum:
  assumes "length w = length ts" and "length ts = length raw"
    and "\<And>i. i < length ts \<Longrightarrow> 0 \<le> ts ! i \<Longrightarrow> map (\<lambda>v. v ! nat (ts ! i)) views = map (\<lambda>v. v ! nat (raw ! i)) host"
    and "\<forall>e \<in> set raw. 0 \<le> e"
  shows "gpu_part expert (map (\<lambda>(g, x). if g then x else 0) (zip (map (\<lambda>s. 0 \<le> s) ts) w)) (map (max 0) ts) views +
      cpu_part expert w (map (\<lambda>(g, e). if g then - 1 else e) (zip (map (\<lambda>s. 0 \<le> s) ts) raw)) host =
     (\<Sum>(x, e) \<leftarrow> zip w raw. x * expert (map (\<lambda>v. v ! nat e) host))"
  using assms
proof (induction w ts raw rule: list_induct3)
  case (Cons x w t ts e raw)
  have "map (\<lambda>v. v ! nat (ts ! i)) views = map (\<lambda>v. v ! nat (raw ! i)) host" if "i < length ts" "0 \<le> ts ! i" for i
    using Cons.prems(1) [of "Suc i"] that by simp
  note IH = Cons.IH [OF this] 
  have "map (\<lambda>v. v ! nat t) views = map (\<lambda>v. v ! nat e) host" if "0 \<le> t" using Cons.prems(1) [of 0] that by simp
  moreover have "0 \<le> e" "\<forall>e \<in> set raw. 0 \<le> e" using Cons.prems(2) by auto
  ultimately show ?case using IH by (cases "0 \<le> t") (simp_all add: gpu_part_def cpu_part_def)
qed (simp add: gpu_part_def cpu_part_def)

lemma rows_at_slot:
  assumes ok: "moe_ok c" and rows: "rows_ok c" and ids: "routed layer ids c" and e: "e \<in> set ids" "slot_of c layer e \<noteq> - 1"
  shows "map (\<lambda>v. v ! nat (slot_of c layer e)) (bank_views c) = map (\<lambda>b. bank_src b ! layer ! nat e) (banks c)"
proof -
  note h = hit_slot [OF ok ids e]
  have re: "0 \<le> e" "e < int (experts c)" using ids e(1) by (auto simp: routed_def)
  have "bank_rows b ! nat (slot_of c layer e) = bank_src b ! layer ! nat e" if "b \<in> set (banks c)" for b
  proof -
    have k: "nat (slot_of c layer e) < slots c" using h(1,2) by linarith
    have "id_of_slot c ! nat (slot_of c layer e) \<noteq> - 1" using h(3) flat_id_bound(1) [of layer c e] ids re by (simp add: routed_def)
    then have "bank_rows b ! nat (slot_of c layer e) = host_row c b (flat_id c layer e)"
      using rows that k h(3) unfolding rows_ok_def by metis
    then show ?thesis using host_row_flat [OF re] by metis
  qed
  then show ?thesis by (simp add: bank_views_def)
qed

lemma decode_hybrid_cpu:
  assumes ok: "moe_ok c" and rows: "rows_ok c" and ids: "routed layer raw c" and len: "length w = length raw" and cap: "0 \<le> max_fetch"
    and pinned: "layer \<notin> set (unpinned_layers c)" and banks: "banks c \<noteq> []"
  shows "\<exists>d. decode_hybrid (ensure_hybrid_cpu br layer) max_fetch fraction expert layer w raw c = Inr (routed_sum expert layer w raw c, d) \<and>
     moe_ok d \<and> rows_ok d \<and> map bank_src (banks d) = map bank_src (banks c) \<and> layers d = layers c \<and> experts d = experts c \<and>
     slots d = slots c \<and> lru_step d = lru_step c + 1 \<and> unpinned_layers d = unpinned_layers c"
proof -
  let ?c = "c\<lparr>pending_src_layer := Some layer, pending_whole_layer := False\<rparr>" and ?fq = "fetch_q16 fraction"
  have ok': "moe_ok ?c" and rows': "rows_ok ?c" and ids': "routed layer raw ?c" using ok rows ids
    by (simp_all add: moe_ok_def moe_shape_def rows_ok_def bank_ok_def host_row_def routed_def)
  obtain out d where run: "ensure_hybrid_cpu br layer raw max_fetch ?fq ?c = (out, d)" by fastforce
  note R = ensure_cpu_fetched [OF ok' ids' run]
  obtain d' where d': "copy_missing d = Inr d'" "rows_ok d'" "d' = d\<lparr>banks := banks d'\<rparr>" "map bank_src (banks d') = map bank_src (banks ?c)"
    using copy_after_ensure [OF ok' ids' rows' cap run] pinned banks by auto
  have okd: "moe_ok d'" using R(3) by (subst d'(3)) (simp add: moe_ok_def moe_shape_def)
  have idsd: "routed layer raw d'" using ids' R(5,6) by (subst d'(3)) (simp add: routed_def)
  have same: "slot_of d' layer e = slot_of d layer e" for e by (subst d'(3)) (simp add: slot_of_def flat_id_def)
  have src: "map (\<lambda>b. f (bank_src b)) (banks d') = map (\<lambda>b. f (bank_src b)) (banks c)" for f :: "'a list list \<Rightarrow> 'a"
    using arg_cong [OF d'(4), of "map f"] by (simp add: comp_def)
  let ?host = "map (\<lambda>b. bank_src b ! layer) (banks d)"
  have "gpu_part expert (map (\<lambda>(g, x). if g then x else 0) (zip (map (\<lambda>s. 0 \<le> s) out) w)) (map (max 0) out) (bank_views d') +
      cpu_part expert w (map (\<lambda>(g, e). if g then - 1 else e) (zip (map (\<lambda>s. 0 \<le> s) out) raw)) ?host =
     (\<Sum>(x, e) \<leftarrow> zip w raw. x * expert (map (\<lambda>v. v ! nat e) ?host))"
  proof (rule parts_sum)
    show "length w = length out" "length out = length raw" using R(2) len by simp_all
    show "\<forall>e \<in> set raw. 0 \<le> e" using ids by (simp add: routed_def)
    fix i assume i: "i < length out" "0 \<le> out ! i"
    then have out: "out ! i = slot_of d' layer (raw ! i)" "raw ! i \<in> set raw" using R(2) same by simp_all
    have "map (\<lambda>v. v ! nat (out ! i)) (bank_views d') = map (\<lambda>b. bank_src b ! layer ! nat (raw ! i)) (banks d')"
      unfolding out(1) by (rule rows_at_slot [OF okd d'(2) idsd out(2)]) (use i out in simp)
    also have "\<dots> = map (\<lambda>v. v ! nat (raw ! i)) ?host" using src R(4) by (simp add: comp_def)
    finally show "map (\<lambda>v. v ! nat (out ! i)) (bank_views d') = map (\<lambda>v. v ! nat (raw ! i)) ?host" .
  qed
  then have "decode_hybrid (ensure_hybrid_cpu br layer) max_fetch fraction expert layer w raw c = Inr (routed_sum expert layer w raw c, d')"
    using run d'(1) R(4) by (simp add: decode_hybrid_def ensure_experts_hybrid_def routed_sum_def comp_def)
  moreover have "lru_step d' = lru_step c + 1" "layers d' = layers c" "experts d' = experts c" "slots d' = slots c" "unpinned_layers d' = unpinned_layers c"
    using R(5-7,9,11) by (subst d'(3), simp)+
  ultimately show ?thesis using okd d'(2,4) by auto
qed

end
