(* ===== verification/Expert_Prefill.thy ===== *)
theory Expert_Prefill
  imports Expert_Decode
begin

text \<open>
  The double buffer of the prefill (\<open>begin_prefill\<close>, \<open>prefetch_prefill_layer\<close>, \<open>_prefetch_split\<close>,
  \<open>wait_prefill_layer\<close> and \<open>release_prefill_layer\<close> of \<open>moe/offload_cache.py\<close>): the first
  \<open>2 * num_experts\<close> slots hold two whole layers. The copies of the streams are done in the order in which
  they are enqueued.
\<close>

section \<open>The operations\<close>

definition invalidate_buffer :: "nat \<Rightarrow> 'r moe_cache \<Rightarrow> 'r moe_cache" where
  "invalidate_buffer buf c =
     (let a = buf * experts c; b = a + experts c; old_ids = drop a (take b (id_of_slot c)) in
      c\<lparr>slot_for_id := fold (\<lambda>f. put f (- 1)) (filter (\<lambda>f. 0 \<le> f) old_ids) (slot_for_id c),
        id_of_slot := take a (id_of_slot c) @ replicate (length old_ids) (- 1) @ drop b (id_of_slot c),
        slot_usage := take a (slot_usage c) @ replicate (length (drop a (take b (slot_usage c)))) 0 @ drop b (slot_usage c)\<rparr>)"

text \<open>The copy of a whole layer into a buffer.\<close>

definition copy_layer :: "nat \<Rightarrow> nat \<Rightarrow> 'r moe_cache \<Rightarrow> 'r moe_cache" where
  "copy_layer layer buf c =
     (let a = buf * experts c; b = a + experts c in
      c\<lparr>banks := map (\<lambda>x. x\<lparr>bank_rows := take a (bank_rows x) @ bank_src x ! layer @ drop b (bank_rows x)\<rparr>) (banks c)\<rparr>)"

definition small_bank_bytes :: nat where
  "small_bank_bytes = 256 * 1024"

text \<open>The kernel that compacts the resident experts: buffer rows and cache slots, by the prefix sum of the
  hits.\<close>

definition hit_compact :: "nat \<Rightarrow> nat \<Rightarrow> 'r moe_cache \<Rightarrow> (nat \<times> int) list" where
  "hit_compact layer buf c =
     (let E = experts c; row = map (\<lambda>k. slot_of c layer (int k)) [0..<E] in
      map (\<lambda>k. (buf * E + k, row ! k)) (filter (\<lambda>k. int (2 * E) \<le> row ! k) [0..<E]))"

definition gather_hits :: "(nat \<times> int) list \<Rightarrow> 'r bank \<Rightarrow> 'r bank" where
  "gather_hits hits x =
     (if small_bank_bytes \<le> feat_bytes x
      then x\<lparr>bank_rows := fold (\<lambda>(dst, src) rows. rows[dst := bank_rows x ! nat src]) hits (bank_rows x)\<rparr> else x)"

text \<open>The misses as runs of consecutive experts.\<close>

definition diffs :: "nat list \<Rightarrow> nat list" where
  "diffs xs = map (\<lambda>i. xs ! Suc i - xs ! i) [0..<length xs - 1]"

definition run_starts :: "nat list \<Rightarrow> nat list" where
  "run_starts miss = 0 # map Suc (filter (\<lambda>i. diffs miss ! i \<noteq> 1) [0..<length (diffs miss)])"

definition miss_runs :: "nat list \<Rightarrow> (nat \<times> nat) list" where
  "miss_runs miss =
     (if miss = [] then []
      else zip (map ((!) miss) (run_starts miss)) (diffs (run_starts miss @ [length miss])))"

definition copy_run :: "nat \<Rightarrow> nat \<Rightarrow> (nat \<times> nat) \<Rightarrow> 'r bank \<Rightarrow> 'r bank" where
  "copy_run layer base run x =
     (case run of (start, n) \<Rightarrow>
        x\<lparr>bank_rows := take (base + start) (bank_rows x) @ take n (drop start (bank_src x ! layer)) @ drop (base + start + n) (bank_rows x)\<rparr>)"

definition copy_misses :: "nat \<Rightarrow> nat \<Rightarrow> nat \<Rightarrow> nat list \<Rightarrow> 'r bank \<Rightarrow> 'r bank" where
  "copy_misses layer base E miss x =
     (if feat_bytes x < small_bank_bytes then copy_run layer base (0, E) x
      else fold (copy_run layer base) (miss_runs miss) x)"

definition prefetch_split :: "nat \<Rightarrow> nat \<Rightarrow> 'r moe_cache \<Rightarrow> 'r moe_cache" where
  "prefetch_split layer buf c =
     (let E = experts c; snap = map (\<lambda>k. slot_snapshot c ! nat (flat_id c layer (int k))) [0..<E];
          hit_mask = map (\<lambda>s. int (2 * E) \<le> s) snap;
          c = c\<lparr>prefill_hit_rows := prefill_hit_rows c + length (filter id hit_mask),
                prefill_total_rows := prefill_total_rows c + E,
                banks := map (gather_hits (hit_compact layer buf c)) (banks c)\<rparr>;
          miss = filter (\<lambda>k. \<not> hit_mask ! k) [0..<E];
          c = invalidate_buffer buf c in
      c\<lparr>banks := map (copy_misses layer (buf * E) E miss) (banks c)\<rparr>)"

definition hit_d2d_usable :: "'r moe_cache \<Rightarrow> bool" where
  "hit_d2d_usable c \<longleftrightarrow> hit_device_ok c \<and> 2 * experts c < slots c"

definition begin_prefill :: "'r moe_cache \<Rightarrow> 'r moe_cache" where
  "begin_prefill c =
     (if \<not> prefill_overlap c then c
      else let c = c\<lparr>buffer_layer := [None, None], buffer_released := [True, True], hit_d2d_active := prefill_hit_d2d c \<and> hit_d2d_usable c\<rparr> in
           if hit_d2d_active c then c\<lparr>slot_snapshot := slot_for_id c\<rparr> else c)"

definition prefetch_layer :: "int \<Rightarrow> 'r moe_cache \<Rightarrow> 'r moe_cache result" where
  "prefetch_layer layer c =
     (if \<not> prefill_overlap c \<or> int (layers c) \<le> layer then Inr c
      else if layer < 0 then Inl ValueError
      else let buf = nat layer mod 2 in
        py_assert (banks c \<noteq> [])
          (if buffer_layer c ! buf = Some (nat layer) then Inr c
           else py_assert (buffer_layer c ! buf \<noteq> None \<longrightarrow> buffer_released c ! buf)
             (let d = (if hit_d2d_active c then prefetch_split (nat layer) buf c
                       else copy_layer (nat layer) buf (invalidate_buffer buf c)) in
              Inr (d\<lparr>buffer_layer := (buffer_layer d)[buf := Some (nat layer)], buffer_released := (buffer_released d)[buf := False]\<rparr>))))"

text \<open>\<open>wait_prefill_layer\<close> returns the buffer of the layer in every bank.\<close>

definition wait_layer :: "nat \<Rightarrow> 'r moe_cache \<Rightarrow> ('r list list \<times> 'r moe_cache) result" where
  "wait_layer layer c =
     py_assert (prefill_overlap c \<and> banks c \<noteq> [])
       (rbind (prefetch_layer (int layer) c) (\<lambda>c.
          let buf = layer mod 2; a = buf * experts c in
          py_assert (buffer_layer c ! buf = Some layer)
            (Inr (map (\<lambda>x. take (experts c) (drop a (bank_rows x))) (banks c), c))))"

definition release_layer :: "nat \<Rightarrow> 'r moe_cache \<Rightarrow> 'r moe_cache" where
  "release_layer layer c =
     (if \<not> prefill_overlap c \<or> buffer_layer c ! (layer mod 2) \<noteq> Some layer then c
      else c\<lparr>buffer_released := (buffer_released c)[layer mod 2 := True]\<rparr>)"

text \<open>One layer of a prefill (\<open>_wait_prefill_overlap\<close> and the release of \<open>_prefill_routed\<close>), and all layers in
  order: the views every layer computes with.\<close>

definition prefill_layer :: "nat \<Rightarrow> 'r moe_cache \<Rightarrow> ('r list list \<times> 'r moe_cache) result" where
  "prefill_layer layer c =
     (let c = (if layer = 0 then begin_prefill c else c) in
      rbind (prefetch_layer (int layer) c) (\<lambda>c.
      rbind (prefetch_layer (int layer + 1) c) (\<lambda>c.
      rbind (wait_layer layer c) (\<lambda>(views, c). Inr (views, release_layer layer c)))))"

fun prefill_layers :: "nat list \<Rightarrow> 'r moe_cache \<Rightarrow> ('r list list list \<times> 'r moe_cache) result" where
  "prefill_layers [] c = Inr ([], c)"
| "prefill_layers (l # ls) c =
     rbind (prefill_layer l c) (\<lambda>(v, c). rbind (prefill_layers ls c) (\<lambda>(vs, c). Inr (v # vs, c)))"

definition prefill_pass :: "'r moe_cache \<Rightarrow> ('r list list list \<times> 'r moe_cache) result" where
  "prefill_pass c = prefill_layers [0..<layers c] c"

text \<open>The prefill of a layer without the overlap: the whole layer into the first slots.\<close>

definition prefill_materialized :: "nat \<Rightarrow> 'r moe_cache \<Rightarrow> ('r list list \<times> 'r moe_cache) result" where
  "prefill_materialized layer c =
     rbind (copy_missing (materialize_layer layer c)) (\<lambda>c. Inr (map (take (experts c)) (bank_views c), c))"

end
