(* ===== verification/Expert_Runs.thy ===== *)
theory Expert_Runs
  imports Expert_Prefill
begin

text \<open>
  The coalesced runs of the misses cover exactly the misses, so that the batched copy moves every missing
  row to its place and nothing else.
\<close>

section \<open>Runs\<close>

lemma diffs_nth [simp]: "i < length xs - 1 \<Longrightarrow> diffs xs ! i = xs ! Suc i - xs ! i"
  by (simp add: diffs_def)

lemma length_diffs [simp]: "length (diffs xs) = length xs - 1"
  by (simp add: diffs_def)

definition run_bounds :: "nat list \<Rightarrow> nat list" where
  "run_bounds miss = run_starts miss @ [length miss]"

lemma run_bounds_sorted:
  assumes "miss \<noteq> []"
  shows "sorted_wrt (<) (run_bounds miss)"
proof -
  have "sorted_wrt (<) (map Suc (filter (\<lambda>i. diffs miss ! i \<noteq> 1) [0..<length (diffs miss)]))"
    unfolding sorted_wrt_map by (simp add: sorted_wrt_filter)
  then show ?thesis using assms by (auto simp: run_bounds_def run_starts_def sorted_wrt_append)
qed

lemma bounds_gap:
  assumes "sorted_wrt (<) xs" and "Suc j < length xs" and "xs ! j < y" and "y < (xs ! Suc j :: nat)"
  shows "y \<notin> set xs"
proof
  assume "y \<in> set xs"
  then obtain k where k: "k < length xs" "xs ! k = y" by (auto simp: in_set_conv_nth)
  have "j < k" using assms k by (metis linorder_neqE_nat sorted_wrt_nth_less less_imp_le not_less order_less_irrefl Suc_lessD)
  then have "xs ! Suc j \<le> xs ! k"
    using sorted_wrt_nth_less [OF assms(1), of "Suc j" k] k(1) by (cases "Suc j = k") auto
  then show False using assms(4) k by simp
qed

lemma bounds_cover:
  assumes "(xs :: nat list) ! 0 = 0" and "i < last xs" and "xs \<noteq> []"
  shows "\<exists>j. Suc j < length xs \<and> xs ! j \<le> i \<and> i < xs ! Suc j"
proof (rule ccontr)
  assume no: "\<not> ?thesis"
  have "xs ! j \<le> i" if "j < length xs" for j
    using that
  proof (induction j)
    case (Suc j)
    then show ?case using no by (meson Suc_lessD not_le)
  qed (use assms in simp)
  from this [of "length xs - 1"] assms show False by (simp add: last_conv_nth)
qed

lemma run_consecutive:
  assumes sorted: "sorted_wrt (<) miss" and ne: "miss \<noteq> []" and j: "Suc j < length (run_bounds miss)"
  shows "t < run_bounds miss ! Suc j - run_bounds miss ! j \<Longrightarrow>
    run_bounds miss ! j + t < length miss \<and> miss ! (run_bounds miss ! j + t) = miss ! (run_bounds miss ! j) + t"
proof (induction t)
  case 0
  have "run_bounds miss ! Suc j \<le> length miss"
  proof (cases "Suc j = length (run_starts miss)")
    case False
    then have "run_bounds miss ! Suc j \<in> set (run_starts miss)" using j by (simp add: run_bounds_def nth_append)
    then show ?thesis using ne by (auto simp: run_starts_def)
  qed (simp add: run_bounds_def)
  then show ?case using 0 by simp
next
  case (Suc t)
  let ?b = "run_bounds miss"
  let ?i = "?b ! j + t"
  have IH: "?i < length miss" "miss ! ?i = miss ! (?b ! j) + t" using Suc by auto
  have le: "?b ! Suc j \<le> length miss"
  proof (cases "Suc j = length (run_starts miss)")
    case False
    then have "?b ! Suc j \<in> set (run_starts miss)" using j by (simp add: run_bounds_def nth_append)
    then show ?thesis using ne by (auto simp: run_starts_def)
  qed (simp add: run_bounds_def)
  have i: "Suc ?i < ?b ! Suc j" using Suc.prems by simp
  then have il: "?i < length miss - 1" using le by simp
  have "Suc ?i \<notin> set ?b" by (rule bounds_gap [OF run_bounds_sorted [OF ne] j]) (use i in simp_all)
  then have "diffs miss ! ?i = 1" using il by (auto simp: run_bounds_def run_starts_def)
  then have "miss ! Suc ?i = Suc (miss ! ?i)" using il by simp
  then show ?case using IH(2) il by simp
qed

text \<open>The rows the runs cover.\<close>

definition run_rows :: "(nat \<times> nat) list \<Rightarrow> nat set" where
  "run_rows runs = (\<Union>(s, n) \<in> set runs. {s..<s + n})"

lemma run_rows_misses:
  assumes sorted: "sorted_wrt (<) miss"
  shows "run_rows (miss_runs miss) = set miss"
proof (cases "miss = []")
  case ne: False
  let ?b = "run_bounds miss"
  have len: "length ?b = Suc (length (run_starts miss))" by (simp add: run_bounds_def)
  have runs: "set (miss_runs miss) = (\<lambda>j. (miss ! (?b ! j), ?b ! Suc j - ?b ! j)) ` {..<length (run_starts miss)}"
  proof -
    have "miss_runs miss = map (\<lambda>j. (miss ! (?b ! j), ?b ! Suc j - ?b ! j)) [0..<length (run_starts miss)]"
    proof (rule nth_equalityI)
      show "length (miss_runs miss) = length (map (\<lambda>j. (miss ! (?b ! j), ?b ! Suc j - ?b ! j)) [0..<length (run_starts miss)])"
        using ne by (simp add: miss_runs_def run_starts_def)
      fix j assume "j < length (miss_runs miss)"
      then have j: "j < length (run_starts miss)" using ne by (simp add: miss_runs_def)
      then show "miss_runs miss ! j = map (\<lambda>j. (miss ! (?b ! j), ?b ! Suc j - ?b ! j)) [0..<length (run_starts miss)] ! j"
        using ne by (simp add: miss_runs_def run_bounds_def nth_append)
    qed
    then show ?thesis by (simp add: lessThan_atLeast0)
  qed
  show ?thesis
  proof (intro set_eqI iffI)
    fix y assume "y \<in> run_rows (miss_runs miss)"
    then obtain j where j: "j < length (run_starts miss)" "miss ! (?b ! j) \<le> y" "y < miss ! (?b ! j) + (?b ! Suc j - ?b ! j)"
      unfolding run_rows_def runs by auto
    then show "y \<in> set miss"
      using run_consecutive [OF sorted ne, of j "y - miss ! (?b ! j)"] len
      by (metis Suc_less_eq add_diff_cancel_left' le_add_diff_inverse nat_add_left_cancel_less nth_mem)
  next
    fix y assume "y \<in> set miss"
    then obtain i where i: "i < length miss" "miss ! i = y" by (auto simp: in_set_conv_nth)
    have "?b ! 0 = 0" by (simp add: run_bounds_def run_starts_def)
    moreover have "last ?b = length miss" by (simp add: run_bounds_def)
    ultimately obtain j where j: "Suc j < length ?b" "?b ! j \<le> i" "i < ?b ! Suc j"
      using bounds_cover [of ?b i] i(1) by (auto simp: run_bounds_def)
    have "miss ! i = miss ! (?b ! j) + (i - ?b ! j)"
      using run_consecutive [OF sorted ne j(1), of "i - ?b ! j"] j by simp
    moreover have "j < length (run_starts miss)" using j(1) len by simp
    ultimately show "y \<in> run_rows (miss_runs miss)"
      unfolding run_rows_def runs using i(2) j by (intro UN_I [of "(miss ! (?b ! j), ?b ! Suc j - ?b ! j)"]) auto
  qed
qed (simp add: miss_runs_def run_rows_def)

section \<open>Copying runs\<close>

lemma copy_run_nth:
  assumes "start + n \<le> length (bank_src x ! layer)" and "base + start + n \<le> length (bank_rows x)"
  shows "length (bank_rows (copy_run layer base (start, n) x)) = length (bank_rows x)"
    and "i < length (bank_rows x) \<Longrightarrow> bank_rows (copy_run layer base (start, n) x) ! i =
      (if base + start \<le> i \<and> i < base + start + n then bank_src x ! layer ! (i - base) else bank_rows x ! i)"
    and "bank_src (copy_run layer base (start, n) x) = bank_src x"
    and "feat_bytes (copy_run layer base (start, n) x) = feat_bytes x"
proof -
  show "length (bank_rows (copy_run layer base (start, n) x)) = length (bank_rows x)" using assms by (simp add: copy_run_def)
  show "bank_src (copy_run layer base (start, n) x) = bank_src x" "feat_bytes (copy_run layer base (start, n) x) = feat_bytes x"
    by (simp_all add: copy_run_def)
  show "bank_rows (copy_run layer base (start, n) x) ! i =
      (if base + start \<le> i \<and> i < base + start + n then bank_src x ! layer ! (i - base) else bank_rows x ! i)"
    if "i < length (bank_rows x)"
    using assms that by (auto simp: copy_run_def nth_append)
qed

lemma copy_runs_nth:
  assumes "\<forall>(s, n) \<in> set runs. s + n \<le> E" and "E \<le> length (bank_src x ! layer)" and "base + E \<le> length (bank_rows x)"
  shows "length (bank_rows (fold (copy_run layer base) runs x)) = length (bank_rows x) \<and>
    bank_src (fold (copy_run layer base) runs x) = bank_src x \<and>
    (\<forall>i < length (bank_rows x). bank_rows (fold (copy_run layer base) runs x) ! i =
      (if base \<le> i \<and> i - base \<in> run_rows runs then bank_src x ! layer ! (i - base) else bank_rows x ! i))"
  using assms
proof (induction runs arbitrary: x)
  case Nil
  then show ?case by (simp add: run_rows_def)
next
  case (Cons r runs)
  obtain s n where r: "r = (s, n)" by (cases r)
  have fit: "s + n \<le> length (bank_src x ! layer)" "base + s + n \<le> length (bank_rows x)" using Cons.prems r by auto
  note C = copy_run_nth [OF fit]
  have "run_rows (r # runs) = {s..<s + n} \<union> run_rows runs" by (simp add: run_rows_def r)
  moreover have "length (bank_rows (fold (copy_run layer base) runs (copy_run layer base (s, n) x))) = length (bank_rows x) \<and>
    bank_src (fold (copy_run layer base) runs (copy_run layer base (s, n) x)) = bank_src x \<and>
    (\<forall>i < length (bank_rows x). bank_rows (fold (copy_run layer base) runs (copy_run layer base (s, n) x)) ! i =
      (if base \<le> i \<and> i - base \<in> run_rows runs then bank_src x ! layer ! (i - base) else bank_rows (copy_run layer base (s, n) x) ! i))"
    using Cons.IH [of "copy_run layer base (s, n) x"] Cons.prems C(1,3) by simp
  ultimately show ?case using C(2) by (auto simp: r)
qed

end
