(* ===== verification/Expert_Double.thy ===== *)
theory Expert_Double
  imports Expert_Runs
begin

text \<open>
  The prefill pass through the double buffer: no assertion fails, every layer computes with exactly its own
  rows, whether they are copied whole or gathered from resident slots, and the tables stay consistent.
\<close>

section \<open>Invalidating a buffer\<close>

lemma invalidate_fields [simp]:
  "layers (invalidate_buffer buf c) = layers c" "experts (invalidate_buffer buf c) = experts c" "slots (invalidate_buffer buf c) = slots c"
  "banks (invalidate_buffer buf c) = banks c" "lru_step (invalidate_buffer buf c) = lru_step c"
  "expert_recency (invalidate_buffer buf c) = expert_recency c" "active_mask (invalidate_buffer buf c) = active_mask c"
  "evict_slots (invalidate_buffer buf c) = evict_slots c" "src_indices (invalidate_buffer buf c) = src_indices c"
  "length (slot_for_id (invalidate_buffer buf c)) = length (slot_for_id c)"
  "prefill_overlap (invalidate_buffer buf c) = prefill_overlap c" "buffer_layer (invalidate_buffer buf c) = buffer_layer c"
  "buffer_released (invalidate_buffer buf c) = buffer_released c" "hit_d2d_active (invalidate_buffer buf c) = hit_d2d_active c"
  "slot_snapshot (invalidate_buffer buf c) = slot_snapshot c" "unpinned_layers (invalidate_buffer buf c) = unpinned_layers c"
  by (simp_all add: invalidate_buffer_def Let_def)

definition in_buffer :: "'r moe_cache \<Rightarrow> nat \<Rightarrow> nat \<Rightarrow> bool" where
  "in_buffer c buf k \<longleftrightarrow> buf * experts c \<le> k \<and> k < buf * experts c + experts c"

lemma buffer_fits: "buf < 2 \<Longrightarrow> 2 * experts c \<le> slots c \<Longrightarrow> buf * experts c + experts c \<le> slots c"
  by (auto simp: less_2_cases_iff)

lemma reset_region_nth:
  assumes "a + n \<le> length xs" and "k < length xs"
  shows "(take a xs @ replicate n v @ drop (a + n) xs) ! k = (if a \<le> k \<and> k < a + n then v else xs ! k)"
  using assms by (auto simp: nth_append)

lemma invalidate_nth:
  assumes "buf < 2" and "2 * experts c \<le> slots c" and "k < slots c"
  shows "length (id_of_slot c) = slots c \<Longrightarrow> id_of_slot (invalidate_buffer buf c) ! k = (if in_buffer c buf k then - 1 else id_of_slot c ! k)"
    and "length (slot_usage c) = slots c \<Longrightarrow> slot_usage (invalidate_buffer buf c) ! k = (if in_buffer c buf k then 0 else slot_usage c ! k)"
  using reset_region_nth [of "buf * experts c" "experts c" "id_of_slot c" k "- 1"]
    reset_region_nth [of "buf * experts c" "experts c" "slot_usage c" k 0] buffer_fits [OF assms(1,2)] assms(3)
  by (simp_all add: invalidate_buffer_def Let_def in_buffer_def)

lemma invalidate_lengths:
  assumes "buf < 2" and "2 * experts c \<le> slots c"
  shows "length (id_of_slot c) = slots c \<Longrightarrow> length (id_of_slot (invalidate_buffer buf c)) = slots c"
    and "length (slot_usage c) = slots c \<Longrightarrow> length (slot_usage (invalidate_buffer buf c)) = slots c"
  using buffer_fits [OF assms] by (simp_all add: invalidate_buffer_def Let_def)

lemma invalidate_table:
  assumes ok: "moe_ok c" and buf: "buf < 2" "2 * experts c \<le> slots c" and f: "f < layers c * experts c"
  shows "slot_for_id (invalidate_buffer buf c) ! f =
    (if slot_for_id c ! f \<noteq> - 1 \<and> in_buffer c buf (nat (slot_for_id c ! f)) then - 1 else slot_for_id c ! f)"
proof -
  let ?a = "buf * experts c"
  let ?old = "filter (\<lambda>f. 0 \<le> f) (drop ?a (take (?a + experts c) (id_of_slot c)))"
  have len: "length (id_of_slot c) = slots c" "length (slot_for_id c) = layers c * experts c" using shape [OF ok] by auto
  have tab: "tables_ok (slot_for_id c) (id_of_slot c)" using ok by (simp add: moe_ok_def)
  have fit: "?a + experts c \<le> slots c" by (rule buffer_fits [OF buf])
  have mem: "x \<in> set (drop ?a (take (?a + experts c) (id_of_slot c))) \<longleftrightarrow> (\<exists>k. in_buffer c buf k \<and> id_of_slot c ! k = x)" for x
  proof -
    have "drop ?a (take (?a + experts c) (id_of_slot c)) = map ((!) (id_of_slot c)) [?a..<?a + experts c]"
      using fit len by (simp add: drop_take list_eq_iff_nth_eq)
    then show ?thesis by (auto simp: in_buffer_def)
  qed
  have "(\<exists>x \<in> set ?old. nat x = f) \<longleftrightarrow> slot_for_id c ! f \<noteq> - 1 \<and> in_buffer c buf (nat (slot_for_id c ! f))" (is "?L \<longleftrightarrow> ?R")
  proof
    assume ?L
    then obtain k where k: "in_buffer c buf k" "0 \<le> id_of_slot c ! k" "nat (id_of_slot c ! k) = f" using mem by auto
    have "k < length (id_of_slot c)" using k(1) fit len by (simp add: in_buffer_def)
    from tables_ids [OF tab this] k(2,3) have "slot_for_id c ! f = int k" by auto
    then show ?R using k(1) by simp
  next
    assume R: ?R
    have "f < length (slot_for_id c)" using f len by simp
    from tables_tab [OF tab this] R have t: "id_of_slot c ! nat (slot_for_id c ! f) = int f" by blast
    then have "int f \<in> set ?old" using mem [of "int f"] R by auto
    then show ?L by (intro bexI [of _ "int f"]) auto
  qed
  moreover have "slot_for_id (invalidate_buffer buf c) ! f = (if \<exists>x \<in> set ?old. nat x = f then - 1 else slot_for_id c ! f)"
    using fold_put_all_nth [of f "slot_for_id c" ?old "\<lambda>x. x" "\<lambda>_. - 1" "- 1"] f len by (simp add: invalidate_buffer_def Let_def)
  ultimately show ?thesis by simp
qed

lemma invalidate_ok:
  assumes ok: "moe_ok c" and buf: "buf < 2" "2 * experts c \<le> slots c"
  shows "moe_ok (invalidate_buffer buf c)"
proof -
  let ?d = "invalidate_buffer buf c"
  have len: "length (id_of_slot c) = slots c" "length (slot_for_id c) = layers c * experts c" "length (slot_usage c) = slots c"
    using shape [OF ok] by auto
  have tab: "tables_ok (slot_for_id c) (id_of_slot c)" using ok by (simp add: moe_ok_def)
  have lend: "length (id_of_slot ?d) = slots c" "length (slot_usage ?d) = slots c" using invalidate_lengths [OF buf] len by auto
  have "tables_ok (slot_for_id ?d) (id_of_slot ?d)"
    unfolding tables_ok_def lend invalidate_fields len(2)
  proof (intro conjI allI impI)
    fix f assume f: "f < layers c * experts c"
    show "slot_for_id ?d ! f = - 1 \<or> 0 \<le> slot_for_id ?d ! f \<and> slot_for_id ?d ! f < int (slots c) \<and> id_of_slot ?d ! nat (slot_for_id ?d ! f) = int f"
    proof (cases "slot_for_id ?d ! f = - 1")
      case False
      note t = invalidate_table [OF ok buf f]
      have e: "slot_for_id ?d ! f = slot_for_id c ! f" "slot_for_id c ! f \<noteq> - 1" "\<not> in_buffer c buf (nat (slot_for_id c ! f))"
        using False t by (auto split: if_splits)
      have "f < length (slot_for_id c)" using f len by simp
      note b = tables_tab [OF tab this e(2)]
      have "nat (slot_for_id c ! f) < slots c" using b len by linarith
      then show ?thesis using b e invalidate_nth(1) [OF buf, of "nat (slot_for_id c ! f)"] len by simp
    qed simp
  next
    fix k assume k: "k < slots c"
    show "id_of_slot ?d ! k = - 1 \<or> 0 \<le> id_of_slot ?d ! k \<and> id_of_slot ?d ! k < int (layers c * experts c) \<and> slot_for_id ?d ! nat (id_of_slot ?d ! k) = int k"
    proof (cases "id_of_slot ?d ! k = - 1")
      case False
      have e: "id_of_slot ?d ! k = id_of_slot c ! k" "\<not> in_buffer c buf k"
        using False invalidate_nth(1) [OF buf k] len by (auto split: if_splits)
      have "k < length (id_of_slot c)" using k len by simp
      note b = tables_ids [OF tab this]
      have nb: "nat (id_of_slot c ! k) < layers c * experts c" using b False e len by (simp add: nat_less_iff)
      show ?thesis using invalidate_table [OF ok buf nb] b False e len by auto
    qed simp
  qed
  moreover have "\<forall>u \<in> set (slot_usage ?d). 0 \<le> u \<and> u \<le> lru_step c"
  proof
    fix u assume "u \<in> set (slot_usage ?d)"
    then obtain k where k: "k < slots c" "slot_usage ?d ! k = u" using lend by (auto simp: in_set_conv_nth)
    have "slot_usage c ! k \<in> set (slot_usage c)" using k(1) len by simp
    then have "0 \<le> slot_usage c ! k \<and> slot_usage c ! k \<le> lru_step c" "0 \<le> lru_step c" using ok by (auto simp: moe_ok_def)
    then show "0 \<le> u \<and> u \<le> lru_step c"
      using invalidate_nth(2) [OF buf k(1)] len k(2) by (auto split: if_splits)
  qed
  ultimately show ?thesis using ok lend by (simp add: moe_ok_def moe_shape_def)
qed

section \<open>Filling a buffer\<close>

definition holds_layer :: "'r moe_cache \<Rightarrow> nat \<Rightarrow> nat \<Rightarrow> bool" where
  "holds_layer c buf l \<longleftrightarrow> (\<forall>x \<in> set (banks c). \<forall>e < experts c. bank_rows x ! (buf * experts c + e) = bank_src x ! l ! e)"

text \<open>What both ways of filling a buffer have in common, bank by bank.\<close>

definition fills :: "'r moe_cache \<Rightarrow> nat \<Rightarrow> nat \<Rightarrow> 'r bank \<Rightarrow> 'r bank \<Rightarrow> bool" where
  "fills c buf l x y \<longleftrightarrow> bank_src y = bank_src x \<and> length (bank_rows y) = length (bank_rows x) \<and>
     (\<forall>k < slots c. bank_rows y ! k = (if in_buffer c buf k then bank_src x ! l ! (k - buf * experts c) else bank_rows x ! k))"

lemma copy_layer_fills:
  assumes "bank_ok c x" and "l < layers c" and "buf < 2" and "2 * experts c \<le> slots c"
  shows "fills c buf l x (x\<lparr>bank_rows := take (buf * experts c) (bank_rows x) @ bank_src x ! l @ drop (buf * experts c + experts c) (bank_rows x)\<rparr>)"
proof -
  have "length (bank_src x ! l) = experts c" using assms(1,2) by (simp add: bank_ok_def)
  then show ?thesis using assms(1) buffer_fits [OF assms(3,4)]
    by (auto simp: fills_def bank_ok_def in_buffer_def nth_append)
qed

text \<open>The gather of the hits reads slots beyond both buffers.\<close>

lemma fold_gather_nth:
  assumes "k < length rows" and "distinct (map fst hits)"
  shows "fold (\<lambda>(dst, src) rows. rows[dst := old ! nat src]) hits rows ! k =
     (case map_of hits k of Some src \<Rightarrow> old ! nat src | None \<Rightarrow> rows ! k)"
  using assms
proof (induction hits arbitrary: rows)
  case (Cons h hits)
  obtain d s where h: "h = (d, s)" by (cases h)
  show ?case
  proof (cases "k = d")
    case True
    have "d \<notin> fst ` set hits" using Cons.prems(2) h by simp
    then have "map_of hits k = None" using True by (simp add: map_of_eq_None_iff)
    then show ?thesis using Cons h True by simp
  next
    case False
    then show ?thesis using Cons h by (simp split: option.split)
  qed
qed simp

lemma length_fold_gather [simp]: "length (fold (\<lambda>(dst, src) rows. rows[dst := f src]) hits rows) = length rows"
  by (induction hits arbitrary: rows) auto

lemma hit_compact_map:
  "map_of (hit_compact l buf c) k =
     (if in_buffer c buf k \<and> int (2 * experts c) \<le> slot_of c l (int (k - buf * experts c)) then Some (slot_of c l (int (k - buf * experts c))) else None)"
proof -
  let ?E = "experts c"
  have "map_of (map (\<lambda>e. (buf * ?E + e, f e)) (filter P es)) k =
      (if buf * ?E \<le> k \<and> k - buf * ?E \<in> set es \<and> P (k - buf * ?E) then Some (f (k - buf * ?E)) else None)" for f :: "nat \<Rightarrow> int" and P es
    by (induction es) auto
  moreover have "hit_compact l buf c = map (\<lambda>e. (buf * ?E + e, slot_of c l (int e))) (filter (\<lambda>e. int (2 * ?E) \<le> slot_of c l (int e)) [0..<?E])"
  proof -
    let ?row = "map (\<lambda>k. slot_of c l (int k)) [0..<?E]"
    have "filter (\<lambda>k. int (2 * ?E) \<le> ?row ! k) [0..<?E] = filter (\<lambda>e. int (2 * ?E) \<le> slot_of c l (int e)) [0..<?E]"
      by (rule filter_cong) simp_all
    then show ?thesis unfolding hit_compact_def Let_def by (intro map_cong) simp_all
  qed
  ultimately show ?thesis by (auto simp: in_buffer_def)
qed

lemma hit_compact_distinct: "distinct (map fst (hit_compact l buf c))"
  by (simp add: hit_compact_def Let_def comp_def distinct_map inj_on_def)

text \<open>Gathered hits and copied misses together fill the buffer like a copy of the whole layer.\<close>

lemma split_fills:
  assumes ok: "moe_ok c" and rows: "bank_ok c x"
    and here: "\<And>k. k < slots c \<Longrightarrow> id_of_slot c ! k \<noteq> - 1 \<Longrightarrow> bank_rows x ! k = host_row c x (id_of_slot c ! k)"
    and l: "l < layers c" and buf: "buf < 2" "2 * experts c \<le> slots c"
    and miss: "\<And>e. e < experts c \<Longrightarrow> e \<in> set miss \<longleftrightarrow> \<not> int (2 * experts c) \<le> slot_of c l (int e)"
    and sorted: "sorted_wrt (<) miss" and bound: "\<forall>e \<in> set miss. e < experts c"
  shows "fills c buf l x (copy_misses l (buf * experts c) (experts c) miss (gather_hits (hit_compact l buf c) x))"
proof -
  let ?E = "experts c" and ?g = "gather_hits (hit_compact l buf c) x"
  have srcl: "length (bank_src x ! l) = ?E" and lenr: "length (bank_rows x) = slots c" using rows l by (auto simp: bank_ok_def)
  have fit: "buf * ?E + ?E \<le> slots c" by (rule buffer_fits [OF buf])
  show ?thesis
  proof (cases "feat_bytes x < small_bank_bytes")
    case True
    then have "copy_misses l (buf * ?E) ?E miss ?g = copy_run l (buf * ?E) (0, ?E) x" by (simp add: copy_misses_def gather_hits_def)
    then show ?thesis
      using copy_run_nth [of 0 ?E x l "buf * ?E"] srcl lenr fit by (auto simp: fills_def in_buffer_def)
  next
    case False
    have g: "bank_src ?g = bank_src x" "length (bank_rows ?g) = slots c" "feat_bytes ?g = feat_bytes x"
      "\<And>k. k < slots c \<Longrightarrow> bank_rows ?g ! k = (case map_of (hit_compact l buf c) k of Some s \<Rightarrow> bank_rows x ! nat s | None \<Rightarrow> bank_rows x ! k)"
      using False fold_gather_nth [of _ "bank_rows x" "hit_compact l buf c" "bank_rows x"] hit_compact_distinct [of l buf c] lenr
      by (simp_all add: gather_hits_def)
    have runs: "\<forall>(s, n) \<in> set (miss_runs miss). s + n \<le> ?E"
    proof (clarify)
      fix s n assume sn: "(s, n) \<in> set (miss_runs miss)"
      show "s + n \<le> ?E"
      proof (cases "n = 0")
        case False
        then have "s + n - 1 \<in> run_rows (miss_runs miss)" using sn by (auto simp: run_rows_def intro!: bexI [of _ "(s, n)"])
        then have "s + n - 1 < ?E" using run_rows_misses [OF sorted] bound by auto
        then show ?thesis using False by simp
      next
        case True
        have "s \<in> set miss" using sn
        proof -
          have "miss \<noteq> []" using sn by (auto simp: miss_runs_def)
          moreover have "s \<in> (!) miss ` set (run_starts miss)" using sn calculation by (auto simp: miss_runs_def dest: set_zip_leftD)
          ultimately show ?thesis by (auto simp: run_starts_def)
        qed
        then show ?thesis using True bound by fastforce
      qed
    qed
    have c: "copy_misses l (buf * ?E) ?E miss ?g = fold (copy_run l (buf * ?E)) (miss_runs miss) ?g"
      using False g(3) by (simp add: copy_misses_def)
    note C = copy_runs_nth [OF runs, of ?g l "buf * ?E"]
    have C': "length (bank_rows (fold (copy_run l (buf * ?E)) (miss_runs miss) ?g)) = slots c"
      "bank_src (fold (copy_run l (buf * ?E)) (miss_runs miss) ?g) = bank_src x"
      "\<And>k. k < slots c \<Longrightarrow> bank_rows (fold (copy_run l (buf * ?E)) (miss_runs miss) ?g) ! k =
        (if buf * ?E \<le> k \<and> k - buf * ?E \<in> set miss then bank_src x ! l ! (k - buf * ?E) else bank_rows ?g ! k)"
      using C g(1,2) srcl fit run_rows_misses [OF sorted] by auto
    have "bank_rows (fold (copy_run l (buf * ?E)) (miss_runs miss) ?g) ! k =
        (if in_buffer c buf k then bank_src x ! l ! (k - buf * ?E) else bank_rows x ! k)" if k: "k < slots c" for k
    proof (cases "in_buffer c buf k")
      case True
      define e where "e = k - buf * ?E"
      have e: "e < ?E" "buf * ?E \<le> k" "k - buf * ?E = e" using True by (auto simp: in_buffer_def e_def)
      show ?thesis
      proof (cases "e \<in> set miss")
        case False
        then have hit: "int (2 * ?E) \<le> slot_of c l (int e)" using miss [OF e(1)] by simp
        have ids: "routed l [int e] c" using e l by (simp add: routed_def)
        have ne: "slot_of c l (int e) \<noteq> - 1" using hit by simp
        note h = hit_slot [OF ok ids _ ne, simplified]
        have "bank_rows ?g ! k = bank_rows x ! nat (slot_of c l (int e))" using g(4) [OF k] hit_compact_map [of l buf c k] True hit e(3) by simp
        also have "\<dots> = host_row c x (flat_id c l (int e))"
        proof -
          have "nat (slot_of c l (int e)) < slots c" using h(1,2) by linarith
          moreover have "0 \<le> flat_id c l (int e)" by (simp add: flat_id_def)
          then have "id_of_slot c ! nat (slot_of c l (int e)) \<noteq> - 1" unfolding h(3) by linarith
          ultimately show ?thesis using here h(3) by metis
        qed
        also have "\<dots> = bank_src x ! l ! e" using host_row_flat [of "int e" c x l] e by simp
        finally show ?thesis using C'(3) [OF k] False True e(3) by simp
      qed (use C'(3) [OF k] e True in \<open>simp add: e(3)\<close>)
    next
      case False
      then have "map_of (hit_compact l buf c) k = None" by (simp add: hit_compact_map)
      moreover have out: "\<not> (buf * ?E \<le> k \<and> k - buf * ?E \<in> set miss)" using False bound by (auto simp: in_buffer_def)
      ultimately have "bank_rows (fold (copy_run l (buf * ?E)) (miss_runs miss) ?g) ! k = bank_rows x ! k"
        unfolding C'(3) [OF k] if_not_P [OF out] using g(4) [OF k] by simp
      then show ?thesis using False by simp
    qed
    then show ?thesis unfolding c fills_def using C'(1,2) lenr by simp
  qed
qed

section \<open>The prefetch\<close>

definition same_model :: "'r moe_cache \<Rightarrow> 'r moe_cache \<Rightarrow> bool" where
  "same_model c d \<longleftrightarrow> layers d = layers c \<and> experts d = experts c \<and> slots d = slots c \<and>
     map bank_src (banks d) = map bank_src (banks c) \<and> lru_step d = lru_step c \<and> unpinned_layers d = unpinned_layers c \<and>
     prefill_overlap d = prefill_overlap c"

text \<open>The tables and rows after a buffer was filled.\<close>

definition filled :: "'r moe_cache \<Rightarrow> nat \<Rightarrow> nat \<Rightarrow> 'r moe_cache \<Rightarrow> bool" where
  "filled c buf l d \<longleftrightarrow> slot_for_id d = slot_for_id (invalidate_buffer buf c) \<and> id_of_slot d = id_of_slot (invalidate_buffer buf c) \<and>
     slot_usage d = slot_usage (invalidate_buffer buf c) \<and> list_all2 (fills c buf l) (banks c) (banks d) \<and>
     layers d = layers c \<and> experts d = experts c \<and> slots d = slots c \<and> lru_step d = lru_step c \<and> unpinned_layers d = unpinned_layers c \<and>
     expert_recency d = expert_recency c \<and> active_mask d = active_mask c \<and> evict_slots d = evict_slots c \<and> src_indices d = src_indices c \<and>
     prefill_overlap d = prefill_overlap c \<and> buffer_layer d = buffer_layer c \<and> buffer_released d = buffer_released c \<and>
     hit_d2d_active d = hit_d2d_active c \<and> slot_snapshot d = slot_snapshot c"

definition snapshot_ok :: "'r moe_cache \<Rightarrow> bool" where
  "snapshot_ok c \<longleftrightarrow> (hit_d2d_active c \<longrightarrow> length (slot_snapshot c) = layers c * experts c \<and>
     (\<forall>f < layers c * experts c. int (2 * experts c) \<le> slot_snapshot c ! f \<longleftrightarrow> int (2 * experts c) \<le> slot_for_id c ! f))"

definition buffers_ok :: "'r moe_cache \<Rightarrow> bool" where
  "buffers_ok c \<longleftrightarrow> moe_ok c \<and> rows_ok c \<and> prefill_overlap c \<and> banks c \<noteq> [] \<and> 2 * experts c \<le> slots c \<and>
     length (buffer_layer c) = 2 \<and> length (buffer_released c) = 2 \<and> snapshot_ok c \<and>
     (\<forall>buf l. buf < 2 \<longrightarrow> buffer_layer c ! buf = Some l \<longrightarrow> holds_layer c buf l)"

lemma invalidate_tables_cong:
  assumes "experts d = experts c" "slot_for_id d = slot_for_id c" "id_of_slot d = id_of_slot c" "slot_usage d = slot_usage c"
  shows "slot_for_id (invalidate_buffer buf d) = slot_for_id (invalidate_buffer buf c)"
    "id_of_slot (invalidate_buffer buf d) = id_of_slot (invalidate_buffer buf c)"
    "slot_usage (invalidate_buffer buf d) = slot_usage (invalidate_buffer buf c)"
  using assms by (simp_all add: invalidate_buffer_def Let_def)

lemma fill_buffer:
  assumes ok: "buffers_ok c" and l: "l < layers c" and buf: "buf < 2"
  shows "filled c buf l (if hit_d2d_active c then prefetch_split l buf c else copy_layer l buf (invalidate_buffer buf c))"
proof -
  have room: "2 * experts c \<le> slots c" and moe: "moe_ok c" and rows: "rows_ok c" using ok by (auto simp: buffers_ok_def)
  have bank: "bank_ok c x" if "x \<in> set (banks c)" for x using rows that by (auto simp: rows_ok_def)
  show ?thesis
  proof (cases "hit_d2d_active c")
    case False
    have "list_all2 (fills c buf l) (banks c) (banks (copy_layer l buf (invalidate_buffer buf c)))"
      using copy_layer_fills [OF bank l buf room]
      by (auto simp: copy_layer_def Let_def list_all2_conv_all_nth)
    then show ?thesis using False by (simp add: filled_def copy_layer_def Let_def)
  next
    case True
    let ?E = "experts c"
    let ?hit = "map (\<lambda>s. int (2 * ?E) \<le> s) (map (\<lambda>k. slot_snapshot c ! nat (flat_id c l (int k))) [0..<?E])"
    let ?miss = "filter (\<lambda>k. \<not> ?hit ! k) [0..<?E]"
    have snap: "?hit ! e \<longleftrightarrow> int (2 * ?E) \<le> slot_of c l (int e)" if "e < ?E" for e
    proof -
      have "nat (flat_id c l (int e)) < layers c * ?E" using flat_id_bound(2) [OF l, of "int e"] that by simp
      then have "int (2 * ?E) \<le> slot_snapshot c ! nat (flat_id c l (int e)) \<longleftrightarrow> int (2 * ?E) \<le> slot_for_id c ! nat (flat_id c l (int e))"
        using ok True unfolding buffers_ok_def snapshot_ok_def by blast
      then show ?thesis using that by (simp add: slot_of_def)
    qed
    have each: "fills c buf l x (copy_misses l (buf * ?E) ?E ?miss (gather_hits (hit_compact l buf c) x))" if x: "x \<in> set (banks c)" for x
    proof (rule split_fills [OF moe bank [OF x] _ l buf room])
      show "bank_rows x ! k = host_row c x (id_of_slot c ! k)" if "k < slots c" "id_of_slot c ! k \<noteq> - 1" for k
        using rows x that by (auto simp: rows_ok_def)
      show "e \<in> set ?miss \<longleftrightarrow> \<not> int (2 * ?E) \<le> slot_of c l (int e)" if "e < ?E" for e using snap [OF that] that by simp
      show "sorted_wrt (<) ?miss" by (rule sorted_wrt_filter) simp
    qed simp
    let ?c1 = "c\<lparr>prefill_hit_rows := prefill_hit_rows c + length (filter id ?hit), prefill_total_rows := prefill_total_rows c + ?E,
       banks := map (gather_hits (hit_compact l buf c)) (banks c)\<rparr>"
    have split: "prefetch_split l buf c = (invalidate_buffer buf ?c1)\<lparr>banks := map (copy_misses l (buf * ?E) ?E ?miss) (banks (invalidate_buffer buf ?c1))\<rparr>"
      unfolding prefetch_split_def Let_def ..
    have "list_all2 (fills c buf l) (banks c) (banks (prefetch_split l buf c))"
      unfolding split using each by (simp add: list_all2_conv_all_nth del: nth_map) (simp add: comp_def)
    moreover have "slot_for_id (prefetch_split l buf c) = slot_for_id (invalidate_buffer buf c)"
      "id_of_slot (prefetch_split l buf c) = id_of_slot (invalidate_buffer buf c)"
      "slot_usage (prefetch_split l buf c) = slot_usage (invalidate_buffer buf c)"
      unfolding split using invalidate_tables_cong [of ?c1 c buf] by simp_all
    ultimately show ?thesis using True unfolding filled_def by (simp add: split)
  qed
qed

lemma filled_bank:
  assumes "filled c buf l d" and "y \<in> set (banks d)"
  obtains x where "x \<in> set (banks c)" "fills c buf l x y"
  using assms unfolding filled_def by (metis in_set_conv_nth list_all2_conv_all_nth)

lemma filled_ok:
  assumes ok: "buffers_ok c" and l: "l < layers c" and buf: "buf < 2" and f: "filled c buf l d"
  shows "moe_ok d" "rows_ok d" "snapshot_ok d" "holds_layer d buf l" "same_model c d"
    and "buf' < 2 \<Longrightarrow> buf' \<noteq> buf \<Longrightarrow> holds_layer c buf' l' \<Longrightarrow> holds_layer d buf' l'"
proof -
  have room: "2 * experts c \<le> slots c" and moe: "moe_ok c" and rows: "rows_ok c" using ok by (auto simp: buffers_ok_def)
  have lenid: "length (id_of_slot c) = slots c" using shape [OF moe] by simp
  have fit: "buf * experts c + experts c \<le> slots c" if "buf < 2" for buf by (rule buffer_fits [OF that room])
  note F = f [unfolded filled_def]
  show moed: "moe_ok d" using invalidate_ok [OF moe buf room] F by (simp add: moe_ok_def moe_shape_def)
  have ids: "id_of_slot d ! k = (if in_buffer c buf k then - 1 else id_of_slot c ! k)" if "k < slots c" for k
    using invalidate_nth(1) [OF buf room that lenid] F by simp
  show "rows_ok d" unfolding rows_ok_def
  proof (intro ballI conjI allI impI)
    fix y assume y: "y \<in> set (banks d)"
    obtain x where x: "x \<in> set (banks c)" "fills c buf l x y" using filled_bank [OF f y] .
    have bx: "bank_ok c x" using rows x by (simp add: rows_ok_def)
    show "bank_ok d y" using bx x(2) F by (simp add: bank_ok_def fills_def)
    fix k assume k: "k < slots d" "id_of_slot d ! k \<noteq> - 1"
    then have k': "k < slots c" "\<not> in_buffer c buf k" "id_of_slot d ! k = id_of_slot c ! k" using ids [of k] F by (auto split: if_splits)
    then have "bank_rows y ! k = bank_rows x ! k" using x(2) by (simp add: fills_def)
    also have "\<dots> = host_row c x (id_of_slot c ! k)" using rows x(1) k k' by (simp add: rows_ok_def)
    finally show "bank_rows y ! k = host_row d y (id_of_slot d ! k)" using k' x(2) F by (simp add: host_row_def fills_def)
  qed
  show "snapshot_ok d" unfolding snapshot_ok_def
  proof (intro impI conjI allI)
    assume act: "hit_d2d_active d"
    then have s: "length (slot_snapshot c) = layers c * experts c"
      "\<And>f. f < layers c * experts c \<Longrightarrow> int (2 * experts c) \<le> slot_snapshot c ! f \<longleftrightarrow> int (2 * experts c) \<le> slot_for_id c ! f"
      using ok F by (auto simp: buffers_ok_def snapshot_ok_def)
    show "length (slot_snapshot d) = layers d * experts d" using s(1) F by simp
    fix g assume "g < layers d * experts d"
    then have g: "g < layers c * experts c" using F by simp
    have "int (2 * experts c) \<le> slot_for_id d ! g \<longleftrightarrow> int (2 * experts c) \<le> slot_for_id c ! g"
      using invalidate_table [OF moe buf room g] F buf by (auto simp: in_buffer_def less_2_cases_iff split: if_splits)
    then show "int (2 * experts d) \<le> slot_snapshot d ! g \<longleftrightarrow> int (2 * experts d) \<le> slot_for_id d ! g" using s(2) [OF g] F by simp
  qed
  show "holds_layer d buf l" unfolding holds_layer_def
  proof (intro ballI allI impI)
    fix y e assume y: "y \<in> set (banks d)" and e: "e < experts d"
    obtain x where x: "x \<in> set (banks c)" "fills c buf l x y" using filled_bank [OF f y] .
    have "in_buffer c buf (buf * experts c + e)" "buf * experts c + e < slots c" using e F fit [OF buf] by (auto simp: in_buffer_def)
    then show "bank_rows y ! (buf * experts d + e) = bank_src y ! l ! e" using x(2) F by (simp add: fills_def)
  qed
  show "same_model c d"
  proof -
    have "map bank_src (banks d) = map bank_src (banks c)"
      using F by (auto simp: list_all2_conv_all_nth fills_def intro!: nth_equalityI)
    then show ?thesis using F by (simp add: same_model_def)
  qed
  show "holds_layer d buf' l'" if "buf' < 2" "buf' \<noteq> buf" "holds_layer c buf' l'"
    unfolding holds_layer_def
  proof (intro ballI allI impI)
    fix y e assume y: "y \<in> set (banks d)" and e: "e < experts d"
    obtain x where x: "x \<in> set (banks c)" "fills c buf l x y" using filled_bank [OF f y] .
    have "\<not> in_buffer c buf (buf' * experts c + e)" "buf' * experts c + e < slots c"
      using e F fit [OF that(1)] buf that(1,2) by (auto simp: in_buffer_def less_2_cases_iff)
    then have "bank_rows y ! (buf' * experts c + e) = bank_rows x ! (buf' * experts c + e)" using x(2) by (simp add: fills_def)
    also have "\<dots> = bank_src x ! l' ! e" using that(3) x(1) e F by (simp add: holds_layer_def)
    finally show "bank_rows y ! (buf' * experts d + e) = bank_src y ! l' ! e" using x(2) F by (simp add: fills_def)
  qed
qed

lemma prefetch_ok:
  assumes ok: "buffers_ok c" and l: "l < layers c"
    and free: "buffer_layer c ! (l mod 2) = Some l \<or> buffer_layer c ! (l mod 2) = None \<or> buffer_released c ! (l mod 2)"
  shows "\<exists>d. prefetch_layer (int l) c = Inr d \<and> buffers_ok d \<and> same_model c d \<and> buffer_layer d ! (l mod 2) = Some l \<and>
     (\<forall>b. b \<noteq> l mod 2 \<longrightarrow> buffer_layer d ! b = buffer_layer c ! b \<and> buffer_released d ! b = buffer_released c ! b)"
proof (cases "buffer_layer c ! (l mod 2) = Some l")
  case True
  then have "prefetch_layer (int l) c = Inr c" using ok l by (simp add: prefetch_layer_def py_assert_def buffers_ok_def)
  then show ?thesis using True ok by (auto simp: same_model_def)
next
  case False
  let ?buf = "l mod 2"
  have buf: "?buf < 2" by simp
  let ?f = "if hit_d2d_active c then prefetch_split l ?buf c else copy_layer l ?buf (invalidate_buffer ?buf c)"
  let ?d = "?f\<lparr>buffer_layer := (buffer_layer ?f)[?buf := Some l], buffer_released := (buffer_released ?f)[?buf := False]\<rparr>"
  have fill: "filled c ?buf l ?f" by (rule fill_buffer [OF ok l buf])
  note f = filled_ok [OF ok l buf fill]
  have F: "buffer_layer ?f = buffer_layer c" "buffer_released ?f = buffer_released c" "banks ?f \<noteq> []" "prefill_overlap ?f" "2 * experts ?f \<le> slots ?f"
    using fill ok by (auto simp: filled_def buffers_ok_def simp del: if_split)
  have "prefetch_layer (int l) c = Inr ?d"
    using False free ok l by (simp add: prefetch_layer_def py_assert_def buffers_ok_def Let_def)
  moreover have "buffers_ok ?d"
    unfolding buffers_ok_def
  proof (intro conjI allI impI)
    show "moe_ok ?d" using f(1) by (simp add: moe_ok_def moe_shape_def del: if_split)
    show "rows_ok ?d" using f(2) by (simp add: rows_ok_def bank_ok_def host_row_def del: if_split)
    show "snapshot_ok ?d" using f(3) by (simp add: snapshot_ok_def del: if_split)
    fix b l' assume b: "b < 2" "buffer_layer ?d ! b = Some l'"
    show "holds_layer ?d b l'"
    proof (cases "b = ?buf")
      case True
      then have "l' = l" using b F(1) ok by (simp add: buffers_ok_def del: if_split)
      then show ?thesis using f(4) True by (simp add: holds_layer_def del: if_split)
    next
      case False
      then have "buffer_layer c ! b = Some l'" using b F(1) by (simp del: if_split)
      then have "holds_layer c b l'" using ok b(1) by (simp add: buffers_ok_def)
      from f(6) [OF b(1) False this] show ?thesis by (simp add: holds_layer_def del: if_split)
    qed
  qed (use F ok in \<open>simp_all add: buffers_ok_def del: if_split\<close>)
  moreover have "same_model c ?d" using f(5) by (simp add: same_model_def del: if_split)
  moreover have "buffer_layer ?d ! ?buf = Some l" "\<forall>b. b \<noteq> ?buf \<longrightarrow> buffer_layer ?d ! b = buffer_layer c ! b \<and> buffer_released ?d ! b = buffer_released c ! b"
    using F(1,2) ok by (simp_all add: buffers_ok_def del: if_split)
  ultimately show ?thesis by blast
qed

section \<open>The pass\<close>

text \<open>Before layer \<open>l\<close>: its buffer is filled, unless it is the first, and the other one is free.\<close>

definition before_layer :: "nat \<Rightarrow> 'r moe_cache \<Rightarrow> bool" where
  "before_layer l c \<longleftrightarrow> buffers_ok c \<and>
     (l < layers c \<longrightarrow> buffer_layer c ! (l mod 2) = Some l \<or> buffer_layer c ! (l mod 2) = None) \<and>
     (buffer_layer c ! (Suc l mod 2) = None \<or> buffer_released c ! (Suc l mod 2))"

lemma same_model_trans: "same_model a b \<Longrightarrow> same_model b c \<Longrightarrow> same_model a c"
  by (simp add: same_model_def)

lemma layer_views:
  assumes ok: "buffers_ok c" and l: "l < layers c" and b: "b < 2" and holds: "holds_layer c b l"
  shows "map (\<lambda>x. take (experts c) (drop (b * experts c) (bank_rows x))) (banks c) = map (\<lambda>x. bank_src x ! l) (banks c)"
proof (rule map_cong)
  fix x assume x: "x \<in> set (banks c)"
  have bank: "bank_ok c x" using ok x by (simp add: buffers_ok_def rows_ok_def)
  have fit: "b * experts c + experts c \<le> slots c" using buffer_fits [OF b, of c] ok by (simp add: buffers_ok_def)
  show "take (experts c) (drop (b * experts c) (bank_rows x)) = bank_src x ! l"
  proof (rule nth_equalityI)
    show "length (take (experts c) (drop (b * experts c) (bank_rows x))) = length (bank_src x ! l)"
      using bank fit l by (simp add: bank_ok_def)
    fix e assume "e < length (take (experts c) (drop (b * experts c) (bank_rows x)))"
    then show "take (experts c) (drop (b * experts c) (bank_rows x)) ! e = bank_src x ! l ! e"
      using holds x fit bank by (simp add: holds_layer_def bank_ok_def)
  qed
qed simp

lemma run_layer:
  assumes b: "before_layer l c" and l: "l < layers c"
  shows "\<exists>d. rbind (prefetch_layer (int l) c) (\<lambda>c. rbind (prefetch_layer (int l + 1) c) (\<lambda>c.
      rbind (wait_layer l c) (\<lambda>(views, c). Inr (views, release_layer l c)))) =
      Inr (map (\<lambda>x. bank_src x ! l) (banks c), d) \<and> before_layer (Suc l) d \<and> same_model c d"
proof -
  have ok: "buffers_ok c" using b by (simp add: before_layer_def)
  obtain c1 where c1: "prefetch_layer (int l) c = Inr c1" "buffers_ok c1" "same_model c c1" "buffer_layer c1 ! (l mod 2) = Some l"
      "\<And>b. b \<noteq> l mod 2 \<Longrightarrow> buffer_layer c1 ! b = buffer_layer c ! b \<and> buffer_released c1 ! b = buffer_released c ! b"
    using prefetch_ok [OF ok l] b l by (auto simp: before_layer_def)
  have ne: "Suc l mod 2 \<noteq> l mod 2" by presburger
  have "\<exists>c2. prefetch_layer (int l + 1) c1 = Inr c2 \<and> buffers_ok c2 \<and> same_model c1 c2 \<and> buffer_layer c2 ! (l mod 2) = Some l \<and>
      (Suc l < layers c \<longrightarrow> buffer_layer c2 ! (Suc l mod 2) = Some (Suc l))"
  proof (cases "Suc l < layers c")
    case True
    then have l1: "Suc l < layers c1" using c1(3) by (simp add: same_model_def)
    have free: "buffer_layer c1 ! (Suc l mod 2) = Some (Suc l) \<or> buffer_layer c1 ! (Suc l mod 2) = None \<or> buffer_released c1 ! (Suc l mod 2)"
      using c1(5) [OF ne] b by (auto simp: before_layer_def)
    have i: "int l + 1 = int (Suc l)" by simp
    show ?thesis using prefetch_ok [OF c1(2) l1 free] ne c1(4) unfolding i by metis
  next
    case False
    then have "prefetch_layer (int l + 1) c1 = Inr c1" using c1(3) by (simp add: prefetch_layer_def same_model_def)
    then show ?thesis using c1(2,4) False by (auto simp: same_model_def)
  qed
  then obtain c2 where c2: "prefetch_layer (int l + 1) c1 = Inr c2" "buffers_ok c2" "same_model c1 c2" "buffer_layer c2 ! (l mod 2) = Some l"
      "Suc l < layers c \<Longrightarrow> buffer_layer c2 ! (Suc l mod 2) = Some (Suc l)" by blast
  have l2: "l < layers c2" using l c1(3) c2(3) by (simp add: same_model_def)
  have p2: "prefetch_layer (int l) c2 = Inr c2"
    using c2(2,4) l2 by (simp add: prefetch_layer_def py_assert_def buffers_ok_def)
  have holds: "holds_layer c2 (l mod 2) l" using c2(2,4) by (simp add: buffers_ok_def)
  have src: "map (\<lambda>x. bank_src x ! l) (banks c2) = map (\<lambda>x. bank_src x ! l) (banks c)"
  proof -
    have "map bank_src (banks c2) = map bank_src (banks c)" using c1(3) c2(3) by (simp add: same_model_def)
    from arg_cong [OF this, of "map (\<lambda>s. s ! l)"] show ?thesis by (simp add: comp_def)
  qed
  have wait: "wait_layer l c2 = Inr (map (\<lambda>x. bank_src x ! l) (banks c), c2)"
    using p2 c2(2,4) layer_views [OF c2(2) l2 _ holds] src by (simp add: wait_layer_def py_assert_def buffers_ok_def Let_def)
  let ?d = "release_layer l c2"
  have d: "?d = c2\<lparr>buffer_released := (buffer_released c2)[l mod 2 := True]\<rparr>"
    using c2(2,4) by (simp add: release_layer_def buffers_ok_def)
  have okd: "buffers_ok ?d" using c2(2) unfolding d
    by (simp add: buffers_ok_def moe_ok_def moe_shape_def rows_ok_def bank_ok_def host_row_def snapshot_ok_def holds_layer_def)
  have same: "same_model c ?d" using same_model_trans [OF c1(3) c2(3)] unfolding d by (simp add: same_model_def)
  have "Suc (Suc l) mod 2 = l mod 2" by presburger
  then have "before_layer (Suc l) ?d"
    using okd c2(2,5) same unfolding before_layer_def by (auto simp: d buffers_ok_def same_model_def)
  then show ?thesis using c1(1) c2(1) wait same by simp
qed

lemma run_layers:
  assumes "before_layer l c" and "0 < l" and "l + n = layers c"
  shows "\<exists>d. prefill_layers [l..<l + n] c = Inr (map (\<lambda>l. map (\<lambda>x. bank_src x ! l) (banks c)) [l..<l + n], d) \<and>
     before_layer (l + n) d \<and> same_model c d"
  using assms
proof (induction n arbitrary: l c)
  case 0
  then show ?case by (auto simp: same_model_def)
next
  case (Suc n)
  obtain d where d: "prefill_layer l c = Inr (map (\<lambda>x. bank_src x ! l) (banks c), d)" "before_layer (Suc l) d" "same_model c d"
    using run_layer [OF Suc.prems(1)] Suc.prems(2,3) by (auto simp: prefill_layer_def)
  have "Suc l + n = layers d" using Suc.prems(3) d(3) by (simp add: same_model_def)
  from Suc.IH [OF d(2) zero_less_Suc this]
  obtain e where e: "prefill_layers [Suc l..<Suc l + n] d = Inr (map (\<lambda>l. map (\<lambda>x. bank_src x ! l) (banks d)) [Suc l..<Suc l + n], e)"
      "before_layer (Suc l + n) e" "same_model d e" by blast
  have src: "map (\<lambda>x. bank_src x ! i) (banks d) = map (\<lambda>x. bank_src x ! i) (banks c)" for i
  proof -
    have "map bank_src (banks d) = map bank_src (banks c)" using d(3) by (simp add: same_model_def)
    from arg_cong [OF this, of "map (\<lambda>s. s ! i)"] show ?thesis by (simp add: comp_def)
  qed
  have up: "[l..<l + Suc n] = l # [Suc l..<Suc l + n]" by (simp add: upt_rec)
  show ?case
    unfolding up prefill_layers.simps d(1) using e src same_model_trans [OF d(3) e(3)] by (simp del: upt_Suc)
qed

lemma begin_ready:
  assumes "moe_ok c" and "rows_ok c" and "prefill_overlap c" and "banks c \<noteq> []" and "2 * experts c \<le> slots c"
  shows "before_layer 0 (begin_prefill c)" and "same_model c (begin_prefill c)"
proof -
  have "length (slot_for_id c) = layers c * experts c" using shape [OF assms(1)] by simp
  then show "before_layer 0 (begin_prefill c)" using assms
    by (auto simp: begin_prefill_def Let_def before_layer_def buffers_ok_def moe_ok_def moe_shape_def rows_ok_def bank_ok_def
        host_row_def snapshot_ok_def less_2_cases_iff)
  show "same_model c (begin_prefill c)" by (simp add: begin_prefill_def Let_def same_model_def)
qed

theorem pass_exact:
  assumes "moe_ok c" and "rows_ok c" and "prefill_overlap c" and "banks c \<noteq> []" and "2 * experts c \<le> slots c"
  shows "\<exists>d. prefill_pass c = Inr (map (\<lambda>l. map (\<lambda>x. bank_src x ! l) (banks c)) [0..<layers c], d) \<and>
     moe_ok d \<and> rows_ok d \<and> same_model c d"
proof (cases "layers c")
  case 0
  then show ?thesis using assms by (simp add: prefill_pass_def same_model_def)
next
  case (Suc n)
  note B = begin_ready [OF assms]
  have l0: "0 < layers (begin_prefill c)" using B(2) Suc by (simp add: same_model_def)
  have src: "map (\<lambda>x. bank_src x ! i) (banks e) = map (\<lambda>x. bank_src x ! i) (banks c)" if "same_model c e" for i e
  proof -
    have "map bank_src (banks e) = map bank_src (banks c)" using that by (simp add: same_model_def)
    from arg_cong [OF this, of "map (\<lambda>s. s ! i)"] show ?thesis by (simp add: comp_def)
  qed
  obtain d where d: "prefill_layer 0 c = Inr (map (\<lambda>x. bank_src x ! 0) (banks (begin_prefill c)), d)" "before_layer (Suc 0) d"
      "same_model (begin_prefill c) d"
    using run_layer [OF B(1) l0] by (auto simp: prefill_layer_def)
  note cd = same_model_trans [OF B(2) d(3)]
  have "Suc 0 + n = layers d" using Suc cd by (simp add: same_model_def)
  from run_layers [OF d(2) zero_less_Suc this]
  obtain e where e: "prefill_layers [Suc 0..<Suc 0 + n] d = Inr (map (\<lambda>l. map (\<lambda>x. bank_src x ! l) (banks d)) [Suc 0..<Suc 0 + n], e)"
      "before_layer (Suc 0 + n) e" "same_model d e" by blast
  have up: "[0..<layers c] = 0 # [Suc 0..<Suc 0 + n]" using Suc by (simp add: upt_rec)
  have "prefill_pass c = Inr (map (\<lambda>l. map (\<lambda>x. bank_src x ! l) (banks c)) [0..<layers c], e)"
    unfolding prefill_pass_def up prefill_layers.simps d(1) using e(1) src [OF cd] src [OF B(2)] by (simp del: upt_Suc)
  moreover have "moe_ok e" "rows_ok e" using e(2) by (simp_all add: before_layer_def buffers_ok_def)
  ultimately show ?thesis using same_model_trans [OF cd e(3)] by blast
qed

end
