(* ===== verification/Expert_Whole.thy ===== *)
theory Expert_Whole
  imports Expert_Double
begin

text \<open>
  Materializing a whole layer into the first slots, resetting and rebuilding: the tables stay inverse to each
  other and the slots hold the rows that the tables name.
\<close>

section \<open>The tables after a materialization\<close>

definition own_id :: "'r moe_cache \<Rightarrow> nat \<Rightarrow> int \<Rightarrow> bool" where
  "own_id c layer f \<longleftrightarrow> int (layer * experts c) \<le> f \<and> f < int (layer * experts c + experts c)"

lemma materialize_fields [simp]:
  "layers (materialize_kernel layer c) = layers c" "experts (materialize_kernel layer c) = experts c"
  "slots (materialize_kernel layer c) = slots c" "banks (materialize_kernel layer c) = banks c"
  "lru_step (materialize_kernel layer c) = lru_step c + 1" "num_indices (materialize_kernel layer c) = int (experts c)"
  "expert_recency (materialize_kernel layer c) = expert_recency c" "active_mask (materialize_kernel layer c) = active_mask c"
  "pending_src_layer (materialize_kernel layer c) = pending_src_layer c"
  "pending_whole_layer (materialize_kernel layer c) = pending_whole_layer c"
  "unpinned_layers (materialize_kernel layer c) = unpinned_layers c"
  "length (id_of_slot (materialize_kernel layer c)) = length (id_of_slot c)"
  "length (slot_for_id (materialize_kernel layer c)) = length (slot_for_id c)"
  "length (slot_usage (materialize_kernel layer c)) = length (slot_usage c)"
  "length (evict_slots (materialize_kernel layer c)) = length (evict_slots c)"
  "length (src_indices (materialize_kernel layer c)) = length (src_indices c)"
  by (simp_all add: materialize_kernel_def Let_def)

lemma lanes_cover: "k < experts c \<or> k < slots c \<Longrightarrow> k < next_power_of_2 (max (experts c) (slots c))"
  using next_power_of_2_ge [of "max (experts c) (slots c)"] by linarith

lemma materialize_ids:
  assumes ok: "moe_ok c" and k: "k < slots c"
  shows "id_of_slot (materialize_kernel layer c) ! k =
    (if k < experts c then flat_id c layer (int k) else if own_id c layer (id_of_slot c ! k) then - 1 else id_of_slot c ! k)"
proof -
  have len: "length (id_of_slot c) = slots c" using shape [OF ok] by simp
  let ?n = "next_power_of_2 (max (experts c) (slots c))"
  note kn = lanes_cover [OF disjI2 [OF k]]
  let ?same = "map (\<lambda>k. k < slots c \<and> int (layer * experts c) \<le> load (id_of_slot c) ?n id (\<lambda>k. k < slots c) (- 1) ! k \<and>
      load (id_of_slot c) ?n id (\<lambda>k. k < slots c) (- 1) ! k < int (layer * experts c + experts c)) [0..<?n]"
  have inner: "store ?n int (\<lambda>_. - 1) (\<lambda>k. ?same ! k) (id_of_slot c) ! k =
      (if own_id c layer (id_of_slot c ! k) then - 1 else id_of_slot c ! k)"
    using store_nth [of k "id_of_slot c" ?n "\<lambda>k. ?same ! k" int "\<lambda>_. - 1" "- 1"] k kn len by (auto simp: own_id_def)
  have "store ?n int (\<lambda>k. int (layer * experts c + k)) (\<lambda>k. k < experts c) (store ?n int (\<lambda>_. - 1) (\<lambda>k. ?same ! k) (id_of_slot c)) ! k =
      (if k < experts c then int (layer * experts c + k) else store ?n int (\<lambda>_. - 1) (\<lambda>k. ?same ! k) (id_of_slot c) ! k)"
    using store_nth [of k "store ?n int (\<lambda>_. - 1) (\<lambda>k. ?same ! k) (id_of_slot c)" ?n "\<lambda>k. k < experts c" int
        "\<lambda>k. int (layer * experts c + k)" "int (layer * experts c + k)"] k kn len by auto
  then show ?thesis unfolding inner by (simp add: materialize_kernel_def Let_def flat_id_def)
qed

lemma materialize_usage:
  assumes ok: "moe_ok c" and k: "k < slots c"
  shows "0 \<le> slot_usage (materialize_kernel layer c) ! k \<and> slot_usage (materialize_kernel layer c) ! k \<le> lru_step c + 1"
proof -
  have len: "length (slot_usage c) = slots c" using shape [OF ok] by simp
  let ?n = "next_power_of_2 (max (experts c) (slots c))"
  let ?same = "map (\<lambda>k. k < slots c \<and> int (layer * experts c) \<le> load (id_of_slot c) ?n id (\<lambda>k. k < slots c) (- 1) ! k \<and>
      load (id_of_slot c) ?n id (\<lambda>k. k < slots c) (- 1) ! k < int (layer * experts c + experts c)) [0..<?n]"
  let ?u = "store ?n int (\<lambda>_. 0) (\<lambda>k. ?same ! k) (slot_usage c)"
  have "slot_usage c ! k \<in> set (slot_usage c)" using k len by simp
  then have b: "0 \<le> slot_usage c ! k \<and> slot_usage c ! k \<le> lru_step c" "0 \<le> lru_step c" using ok by (auto simp: moe_ok_def)
  have "?u ! k = 0 \<or> ?u ! k = slot_usage c ! k"
    using store_nth [of k "slot_usage c" ?n "\<lambda>k. ?same ! k" int "\<lambda>_. 0" 0] k len by auto
  moreover have "store ?n int (\<lambda>_. lru_step c + 1) (\<lambda>k. k < experts c) ?u ! k = lru_step c + 1 \<or>
      store ?n int (\<lambda>_. lru_step c + 1) (\<lambda>k. k < experts c) ?u ! k = ?u ! k"
    using store_nth [of k ?u ?n "\<lambda>k. k < experts c" int "\<lambda>_. lru_step c + 1" "lru_step c + 1"] k len by auto
  ultimately show ?thesis using b by (auto simp: materialize_kernel_def Let_def)
qed

lemma materialize_table:
  assumes ok: "moe_ok c" and f: "f < layers c * experts c" and l: "layer < layers c"
  shows "slot_for_id (materialize_kernel layer c) ! f =
    (if own_id c layer (int f) then int f - int (layer * experts c)
     else if slot_for_id c ! f \<noteq> - 1 \<and> slot_for_id c ! f < int (experts c) then - 1 else slot_for_id c ! f)"
proof -
  have len: "length (id_of_slot c) = slots c" "length (slot_for_id c) = layers c * experts c" using shape [OF ok] by auto
  have tab: "tables_ok (slot_for_id c) (id_of_slot c)" using ok by (simp add: moe_ok_def)
  have E: "experts c \<le> slots c" using shape [OF ok] by simp
  have fl: "f < length (slot_for_id c)" using f len by simp
  let ?n = "next_power_of_2 (max (experts c) (slots c))"
  define old where "old = load (id_of_slot c) ?n id (\<lambda>k. k < slots c) (- 1)"
  define same where "same = map (\<lambda>k. k < slots c \<and> int (layer * experts c) \<le> old ! k \<and> old ! k < int (layer * experts c + experts c)) [0..<?n]"
  let ?on = "\<lambda>k. k < experts c \<and> 0 \<le> old ! k \<and> \<not> same ! k"
  let ?t = "store ?n (\<lambda>k. old ! k) (\<lambda>_. - 1) ?on (slot_for_id c)"
  have old: "old ! k = id_of_slot c ! k" "same ! k \<longleftrightarrow> own_id c layer (id_of_slot c ! k)" if "k < slots c" for k
    using that lanes_cover [OF disjI2 [OF that]] by (auto simp: old_def same_def own_id_def)
  have t: "?t ! f = (if \<exists>i < ?n. ?on i \<and> nat (old ! i) = f then - 1 else slot_for_id c ! f)"
    using store_nth [of f "slot_for_id c" ?n ?on "\<lambda>k. old ! k" "\<lambda>_. - 1" "- 1"] fl by auto
  have outer: "slot_for_id (materialize_kernel layer c) ! f = (if own_id c layer (int f) then int f - int (layer * experts c) else ?t ! f)"
  proof -
    have "store ?n (\<lambda>k. int (layer * experts c + k)) int (\<lambda>k. k < experts c) ?t ! f =
        (if \<exists>k < ?n. k < experts c \<and> nat (int (layer * experts c + k)) = f then int f - int (layer * experts c) else ?t ! f)"
    proof (rule store_nth)
      show "int i = int f - int (layer * experts c)" if "nat (int (layer * experts c + i)) = f" for i
        using arg_cong [OF that [unfolded nat_int], of int] by simp
    qed (use fl in simp)
    moreover have "(\<exists>k < ?n. k < experts c \<and> nat (int (layer * experts c + k)) = f) \<longleftrightarrow> own_id c layer (int f)"
    proof
      assume "own_id c layer (int f)"
      then have b: "layer * experts c \<le> f" "f - layer * experts c < experts c" unfolding own_id_def by linarith+
      then show "\<exists>k < ?n. k < experts c \<and> nat (int (layer * experts c + k)) = f"
        using lanes_cover [of "f - layer * experts c" c] by (intro exI [of _ "f - layer * experts c"]) simp
    qed (auto simp: own_id_def)
    ultimately show ?thesis by (simp add: materialize_kernel_def Let_def old_def same_def)
  qed
  have "(\<exists>i < ?n. ?on i \<and> nat (old ! i) = f) \<longleftrightarrow> slot_for_id c ! f \<noteq> - 1 \<and> slot_for_id c ! f < int (experts c)"
    if own: "\<not> own_id c layer (int f)"
  proof
    assume "\<exists>i < ?n. ?on i \<and> nat (old ! i) = f"
    then obtain i where i: "i < experts c" "0 \<le> id_of_slot c ! i" "nat (id_of_slot c ! i) = f" using old E by auto
    have "i < length (id_of_slot c)" using i(1) E len by simp
    from tables_ids [OF tab this] i show "slot_for_id c ! f \<noteq> - 1 \<and> slot_for_id c ! f < int (experts c)" by auto
  next
    assume R: "slot_for_id c ! f \<noteq> - 1 \<and> slot_for_id c ! f < int (experts c)"
    note b = tables_tab [OF tab fl conjunct1 [OF R]]
    let ?i = "nat (slot_for_id c ! f)"
    have i: "?i < experts c" "?i < slots c" using R b E by linarith+
    show "\<exists>i < ?n. ?on i \<and> nat (old ! i) = f"
      using lanes_cover [OF disjI2 [OF i(2)]] i(1) b own old [OF i(2)] by (intro exI [of _ ?i]) simp
  qed
  then show ?thesis unfolding outer t by simp
qed

lemma materialize_ok:
  assumes ok: "moe_ok c" and l: "layer < layers c"
  shows "moe_ok (materialize_kernel layer c)"
proof -
  let ?d = "materialize_kernel layer c" and ?E = "experts c"
  have len: "length (id_of_slot c) = slots c" "length (slot_for_id c) = layers c * ?E" "length (slot_usage c) = slots c"
    using shape [OF ok] by auto
  have tab: "tables_ok (slot_for_id c) (id_of_slot c)" using ok by (simp add: moe_ok_def)
  have E: "?E \<le> slots c" using shape [OF ok] by simp
  have top: "layer * ?E + ?E \<le> layers c * ?E" using mult_le_mono1 [of "Suc layer" "layers c" ?E] l by simp
  have "tables_ok (slot_for_id ?d) (id_of_slot ?d)"
    unfolding tables_ok_def materialize_fields len
  proof (intro conjI allI impI)
    fix f assume f: "f < layers c * ?E"
    note t = materialize_table [OF ok f l]
    show "slot_for_id ?d ! f = - 1 \<or> 0 \<le> slot_for_id ?d ! f \<and> slot_for_id ?d ! f < int (slots c) \<and> id_of_slot ?d ! nat (slot_for_id ?d ! f) = int f"
    proof (cases "own_id c layer (int f)")
      case True
      then have b: "layer * ?E \<le> f" "f - layer * ?E < ?E" unfolding own_id_def by linarith+
      then obtain e where e: "f = layer * ?E + e" "e < ?E" by (metis le_Suc_ex add_diff_cancel_left')
      then have "e < slots c" using E by simp
      from materialize_ids [OF ok this, of layer] e t True E show ?thesis by (simp add: flat_id_def)
    next
      case False
      show ?thesis
      proof (cases "slot_for_id c ! f \<noteq> - 1 \<and> \<not> slot_for_id c ! f < int ?E")
        case R: True
        have "f < length (slot_for_id c)" using f len by simp
        note b = tables_tab [OF tab this conjunct1 [OF R]]
        have "nat (slot_for_id c ! f) < slots c" "\<not> nat (slot_for_id c ! f) < ?E" using b R len by linarith+
        with materialize_ids [OF ok this(1), of layer] b t False R len show ?thesis by simp
      qed (use t False in auto)
    qed
  next
    fix k assume k: "k < slots c"
    note i = materialize_ids [OF ok k, of layer]
    show "id_of_slot ?d ! k = - 1 \<or> 0 \<le> id_of_slot ?d ! k \<and> id_of_slot ?d ! k < int (layers c * ?E) \<and> slot_for_id ?d ! nat (id_of_slot ?d ! k) = int k"
    proof (cases "k < ?E")
      case True
      have nf: "nat (flat_id c layer (int k)) = layer * ?E + k" by (simp add: flat_id_def nat_add_distrib flip: of_nat_mult)
      have "layer * ?E + k < layers c * ?E" using True top by simp
      from materialize_table [OF ok this l] True nf i flat_id_bound [OF l, of "int k"] show ?thesis by (simp add: own_id_def)
    next
      case False
      show ?thesis
      proof (cases "id_of_slot c ! k \<noteq> - 1 \<and> \<not> own_id c layer (id_of_slot c ! k)")
        case R: True
        have "k < length (id_of_slot c)" using k len by simp
        note b = tables_ids [OF tab this conjunct1 [OF R]]
        have "nat (id_of_slot c ! k) < layers c * ?E" using b len by (simp add: nat_less_iff)
        from materialize_table [OF ok this l] b R False i len show ?thesis by simp
      qed (use i False in auto)
    qed
  qed
  moreover have "\<forall>u \<in> set (slot_usage ?d). 0 \<le> u \<and> u \<le> lru_step c + 1"
    using materialize_usage [OF ok, of _ layer] len by (auto simp: in_set_conv_nth)
  ultimately show ?thesis using ok by (fastforce simp: moe_ok_def moe_shape_def)
qed

section \<open>The rows after a materialization\<close>

lemma materialize_lists:
  assumes ok: "moe_ok c" and j: "j < experts c"
  shows "evict_slots (materialize_kernel layer c) ! j = int j" "src_indices (materialize_kernel layer c) ! j = int j"
proof -
  have len: "length (evict_slots c) = max (experts c) (slots c)" "length (src_indices c) = max (experts c) (slots c)"
    using ok by (simp_all add: moe_ok_def moe_shape_def)
  have "store (next_power_of_2 (max (experts c) (slots c))) int int (\<lambda>k. k < experts c) xs ! j = int j" if "j < length xs" for xs
    using store_nth [of j xs "next_power_of_2 (max (experts c) (slots c))" "\<lambda>k. k < experts c" int int "int j"] that j
      lanes_cover [OF disjI1 [OF j]] by auto
  then show "evict_slots (materialize_kernel layer c) ! j = int j" "src_indices (materialize_kernel layer c) ! j = int j"
    using j len by (simp_all add: materialize_kernel_def Let_def less_max_iff_disj)
qed

definition overlaid :: "'r moe_cache \<Rightarrow> nat \<Rightarrow> 'r bank \<Rightarrow> 'r bank \<Rightarrow> bool" where
  "overlaid c layer x y \<longleftrightarrow> bank_src y = bank_src x \<and> length (bank_rows y) = length (bank_rows x) \<and>
     (\<forall>k < slots c. bank_rows y ! k = (if k < experts c then bank_src x ! layer ! k else bank_rows x ! k))"

text \<open>Both ways to copy the layer, with and without a device address.\<close>

lemma copy_whole:
  assumes ok: "moe_ok c" and rows: "rows_ok c" and l: "layer < layers c" and banks: "banks c \<noteq> []"
  defines "d \<equiv> materialize_layer layer c"
  shows "\<exists>d'. copy_missing d = Inr d' \<and> d' = d\<lparr>banks := banks d'\<rparr> \<and>
    list_all2 (overlaid c layer) (banks c) (banks d')"
proof -
  let ?c = "c\<lparr>pending_src_layer := Some layer, pending_whole_layer := True\<rparr>" and ?E = "experts c"
  have ok': "moe_ok ?c" using ok by (simp add: moe_ok_def moe_shape_def)
  have E: "?E \<le> slots c" "0 < ?E" using shape [OF ok] by simp_all
  have bank: "length (bank_src x ! layer) = ?E" "length (bank_rows x) = slots c" if "x \<in> set (banks c)" for x
    using rows that l by (auto simp: rows_ok_def bank_ok_def)
  have d: "banks d = banks c" "num_indices d = int ?E" "pending_src_layer d = Some layer" "pending_whole_layer d"
      "unpinned_layers d = unpinned_layers c" "length (evict_slots d) = max ?E (slots c)" "experts d = ?E"
    using ok by (simp_all add: d_def materialize_layer_def moe_ok_def moe_shape_def)
  have at: "evict_slots d ! j = int j" "src_indices d ! j = int j" if "j < ?E" for j
    using materialize_lists [OF ok', of j layer] that by (simp_all add: d_def materialize_layer_def)
  show ?thesis
  proof (cases "layer \<in> set (unpinned_layers c)")
    case True
    let ?bs = "map (\<lambda>b. b\<lparr>bank_rows := bank_src b ! layer @ drop ?E (bank_rows b)\<rparr>) (banks c)"
    have "copy_missing d = Inr (d\<lparr>banks := ?bs\<rparr>)" using d banks True by (simp add: copy_missing_def py_assert_def)
    moreover have "list_all2 (overlaid c layer) (banks c) ?bs"
      using bank E by (auto simp: list_all2_conv_all_nth nth_append overlaid_def)
    ultimately show ?thesis by simp
  next
    case False
    let ?cp = "copy_bank layer (evict_slots d) (src_indices d) (num_indices d)"
    have "copy_missing d = Inr (d\<lparr>banks := map ?cp (banks c)\<rparr>)" using d banks False by (simp add: copy_missing_def py_assert_def)
    moreover have each: "overlaid c layer x (?cp x)" if x: "x \<in> set (banks c)" for x
    proof -
      have n: "0 \<le> num_indices d" "num_indices d \<le> int (length (evict_slots d))" using d by simp_all
      have on: "in_rows (evict_slots d ! j) (length (bank_rows x)) \<and> in_rows (src_indices d ! j) (length (bank_src x ! layer))"
        if "j < nat (num_indices d)" for j using that d at [of j] bank [OF x] E by (simp add: in_rows_def)
      have inj: "j = j'" if "j < nat (num_indices d)" "j' < nat (num_indices d)" "evict_slots d ! j = evict_slots d ! j'" for j j'
        using that d at by simp
      have "bank_rows (?cp x) ! k = (if k < ?E then bank_src x ! layer ! k else bank_rows x ! k)" if k: "k < slots c" for k
      proof -
        have kr: "k < length (bank_rows x)" using k bank [OF x] by simp
        show ?thesis
        proof (cases "k < ?E")
          case True
          then have "k < nat (num_indices d)" "nat (evict_slots d ! k) = k" using d at by simp_all
          have "bank_rows (?cp x) ! k = bank_src x ! layer ! nat (src_indices d ! k)"
            by (rule copy_bank_rows(1) [OF n kr], erule on, erule (2) inj, fact+)
          then show ?thesis using True at by simp
        next
          case False
          have off: "nat (evict_slots d ! j) \<noteq> k" if "j < nat (num_indices d)" for j using that d at [of j] False by simp
          have "bank_rows (?cp x) ! k = bank_rows x ! k"
            by (rule copy_bank_rows(2) [OF n kr], erule on, erule (2) inj, erule off)
          then show ?thesis using False by simp
        qed
      qed
      moreover have pos: "0 < length (bank_rows x)" using bank [OF x] E by simp
      have "length (bank_rows (?cp x)) = length (bank_rows x)"
        by (rule copy_bank_rows(3) [OF n pos], erule on, erule (2) inj)
      ultimately show ?thesis unfolding overlaid_def by simp
    qed
    have "list_all2 (overlaid c layer) (banks c) (map ?cp (banks c))"
      unfolding list_all2_map2 by (intro list.rel_refl_strong each)
    ultimately show ?thesis by simp
  qed
qed

text \<open>The prefill of one layer without the double buffer.\<close>

lemma materialized_exact:
  assumes ok: "moe_ok c" and rows: "rows_ok c" and l: "layer < layers c" and banks: "banks c \<noteq> []"
  shows "\<exists>d. prefill_materialized layer c = Inr (map (\<lambda>x. bank_src x ! layer) (banks c), d) \<and> moe_ok d \<and> rows_ok d \<and>
    layers d = layers c \<and> experts d = experts c \<and> slots d = slots c \<and> map bank_src (banks d) = map bank_src (banks c) \<and>
    lru_step d = lru_step c + 1 \<and> unpinned_layers d = unpinned_layers c"
proof -
  let ?c = "c\<lparr>pending_src_layer := Some layer, pending_whole_layer := True\<rparr>" and ?E = "experts c" and ?m = "materialize_layer layer c"
  have ok': "moe_ok ?c" using ok by (simp add: moe_ok_def moe_shape_def)
  have okm: "moe_ok ?m" unfolding materialize_layer_def by (rule materialize_ok [OF ok']) (simp add: l)
  have E: "?E \<le> slots c" using shape [OF ok] by simp
  obtain d where d: "copy_missing ?m = Inr d" "d = ?m\<lparr>banks := banks d\<rparr>"
    "list_all2 (overlaid c layer) (banks c) (banks d)"
    using copy_whole [OF ok rows l banks] by blast
  have F: "layers d = layers c" "experts d = ?E" "slots d = slots c" "lru_step d = lru_step c + 1" "unpinned_layers d = unpinned_layers c"
    "id_of_slot d = id_of_slot ?m"
    by (subst d(2), simp add: materialize_layer_def)+
  have ids: "id_of_slot d ! k = (if k < ?E then flat_id c layer (int k) else if own_id c layer (id_of_slot c ! k) then - 1 else id_of_slot c ! k)"
    if "k < slots c" for k
    using materialize_ids [OF ok', of k layer] that by (simp add: F materialize_layer_def flat_id_def own_id_def)
  have bank: "\<exists>x \<in> set (banks c). overlaid c layer x y" if "y \<in> set (banks d)" for y
    using d(3) that nth_mem by (fastforce simp: list_all2_conv_all_nth in_set_conv_nth)
  have "rows_ok d" unfolding rows_ok_def
  proof (intro ballI conjI allI impI)
    fix y assume "y \<in> set (banks d)"
    then obtain x where x: "x \<in> set (banks c)" "bank_src y = bank_src x" "length (bank_rows y) = length (bank_rows x)"
      "\<And>k. k < slots c \<Longrightarrow> bank_rows y ! k = (if k < ?E then bank_src x ! layer ! k else bank_rows x ! k)" using bank unfolding overlaid_def by blast
    show "bank_ok d y" using rows x(1-3) F by (auto simp: rows_ok_def bank_ok_def)
    fix k assume k: "k < slots d" "id_of_slot d ! k \<noteq> - 1"
    then have k': "k < slots c" using F by simp
    show "bank_rows y ! k = host_row d y (id_of_slot d ! k)"
    proof (cases "k < ?E")
      case True
      have "host_row d y (flat_id d layer (int k)) = bank_src y ! layer ! nat (int k)" by (rule host_row_flat) (use True F in simp_all)
      moreover have "flat_id d layer (int k) = id_of_slot d ! k" using ids [OF k'] True F by (simp add: flat_id_def)
      ultimately show ?thesis using x(2) x(4) [OF k'] True by simp
    next
      case False
      then have i: "id_of_slot d ! k = id_of_slot c ! k" "id_of_slot c ! k \<noteq> - 1" using ids [OF k'] k(2) by (auto split: if_splits)
      have "bank_rows x ! k = host_row c x (id_of_slot c ! k)" using rows x(1) k' i(2) by (simp add: rows_ok_def)
      then show ?thesis using x(2) x(4) [OF k'] i(1) False F by (simp add: host_row_def)
    qed
  qed
  moreover have "moe_ok d" using okm by (subst d(2)) (simp add: moe_ok_def moe_shape_def)
  moreover have src: "map bank_src (banks d) = map bank_src (banks c)"
    using d(3) by (auto simp: list_all2_conv_all_nth overlaid_def intro!: nth_equalityI)
  moreover have "map (take (experts d)) (bank_views d) = map (\<lambda>x. bank_src x ! layer) (banks c)"
  proof (rule nth_equalityI)
    show "length (map (take (experts d)) (bank_views d)) = length (map (\<lambda>x. bank_src x ! layer) (banks c))"
      using arg_cong [OF src, of length] by (simp add: bank_views_def)
    fix i assume "i < length (map (take (experts d)) (bank_views d))"
    then have i: "i < length (banks d)" by (simp add: bank_views_def)
    then have x: "i < length (banks c)" "banks c ! i \<in> set (banks c)" using arg_cong [OF src, of length] by simp_all
    have bok: "bank_ok c (banks c ! i)" using rows x(2) by (simp add: rows_ok_def)
    have P: "length (bank_rows (banks d ! i)) = slots c"
      "\<And>k. k < ?E \<Longrightarrow> bank_rows (banks d ! i) ! k = bank_src (banks c ! i) ! layer ! k"
      using d(3) x bok E by (auto simp: list_all2_conv_all_nth overlaid_def bank_ok_def)
    have "length (bank_src (banks c ! i) ! layer) = ?E" using bok l by (simp add: bank_ok_def)
    then have "take ?E (bank_rows (banks d ! i)) = bank_src (banks c ! i) ! layer"
      using P E by (intro nth_equalityI) simp_all
    then show "map (take (experts d)) (bank_views d) ! i = map (\<lambda>x. bank_src x ! layer) (banks c) ! i"
      using i x F by (simp add: bank_views_def)
  qed
  ultimately show ?thesis using F d(1) by (simp add: prefill_materialized_def)
qed

section \<open>Reset and rebuild\<close>

lemma store_all:
  assumes "length xs = m" and "m \<le> n"
  shows "store n int (\<lambda>_. v) (\<lambda>k. k < m) xs = replicate m v"
proof (rule nth_equalityI)
  fix i assume "i < length (store n int (\<lambda>_. v) (\<lambda>k. k < m) xs)"
  then show "store n int (\<lambda>_. v) (\<lambda>k. k < m) xs ! i = replicate m v ! i"
    using store_nth [of i xs n "\<lambda>k. k < m" int "\<lambda>_. v" v] assms by auto
qed (simp add: assms)

lemma tables_cold: "tables_ok (replicate m (- 1)) (replicate n (- 1))"
  by (simp add: tables_ok_def)

lemma cold_ok:
  assumes "moe_shape c" and "slot_for_id c = replicate (layers c * experts c) (- 1)" and "id_of_slot c = replicate (slots c) (- 1)"
    and "slot_usage c = replicate (slots c) 0" and "lru_step c = 0" and "expert_recency c = replicate (layers c * experts c) (- 1)"
  shows "moe_ok c"
  using assms(1) tables_cold [of "layers c * experts c" "slots c"] unfolding moe_ok_def assms(2-6) by simp

lemma reset_ok:
  assumes ok: "moe_ok c"
  shows "moe_ok (cache_reset c)" "rows_ok c \<Longrightarrow> rows_ok (cache_reset c)" "id_of_slot (cache_reset c) = replicate (slots c) (- 1)"
    "slot_for_id (cache_reset c) = replicate (layers c * experts c) (- 1)" "lru_step (cache_reset c) = 0"
    "banks (cache_reset c) = banks c" "layers (cache_reset c) = layers c" "experts (cache_reset c) = experts c"
    "slots (cache_reset c) = slots c" "unpinned_layers (cache_reset c) = unpinned_layers c"
proof -
  let ?n = "div_ceil (max (layers c * experts c) (slots c)) 256 * 256"
  have n: "max (layers c * experts c) (slots c) \<le> ?n" by (rule div_ceil_ge) simp
  then have n1: "layers c * experts c \<le> ?n" "slots c \<le> ?n" "experts c \<le> ?n" using shape(7) [OF ok] by linarith+
  note s = shape [OF ok]
  have e: "slot_for_id (cache_reset c) = replicate (layers c * experts c) (- 1)" "id_of_slot (cache_reset c) = replicate (slots c) (- 1)"
    "slot_usage (cache_reset c) = replicate (slots c) 0" "expert_recency (cache_reset c) = replicate (layers c * experts c) (- 1)"
    "lru_step (cache_reset c) = 0" "active_mask (cache_reset c) = replicate (experts c) 0"
    "banks (cache_reset c) = banks c" "layers (cache_reset c) = layers c" "experts (cache_reset c) = experts c"
    "slots (cache_reset c) = slots c" "unpinned_layers (cache_reset c) = unpinned_layers c"
    "evict_slots (cache_reset c) = evict_slots c" "src_indices (cache_reset c) = src_indices c"
    using store_all [OF s(1) n1(1), of "- 1"] store_all [OF s(3) n1(2), of "- 1"] store_all [OF s(4) n1(2), of 0] store_all [OF s(5) n1(3), of 0] s(2)
    by (simp_all add: cache_reset_def reset_cache_def Let_def)
  show "moe_ok (cache_reset c)"
    by (rule cold_ok) (use ok in \<open>simp_all add: e moe_ok_def moe_shape_def\<close>)
  show "rows_ok c \<Longrightarrow> rows_ok (cache_reset c)" by (simp add: rows_ok_def bank_ok_def e)
  show "id_of_slot (cache_reset c) = replicate (slots c) (- 1)"
    "slot_for_id (cache_reset c) = replicate (layers c * experts c) (- 1)" "lru_step (cache_reset c) = 0"
    "banks (cache_reset c) = banks c" "layers (cache_reset c) = layers c" "experts (cache_reset c) = experts c"
    "slots (cache_reset c) = slots c" "unpinned_layers (cache_reset c) = unpinned_layers c"
    by (rule e)+
qed

lemma resize_cases:
  assumes "banks c \<noteq> []" and "0 < experts c" and "experts c < 2 ^ 31"
  shows "rebuild_experts zero m marlin n c = Inl ValueError \<and>
       (n < experts c \<or> (\<exists>k. m = Some k \<and> k < n) \<or> marlin \<and> marlin_max_cache_size < n) \<or>
     (\<exists>d. rebuild_experts zero m marlin n c = Inr d \<and> moe_ok d \<and> slots d = n \<and> id_of_slot d = replicate n (- 1) \<and>
       layers d = layers c \<and> experts d = experts c \<and> lru_step d = 0 \<and> unpinned_layers d = unpinned_layers c \<and>
       map bank_src (banks d) = map bank_src (banks c) \<and> (\<forall>b \<in> set (banks d). length (bank_rows b) = n) \<and>
       experts c \<le> n \<and> (\<forall>k. m = Some k \<longrightarrow> n \<le> k) \<and> (marlin \<longrightarrow> n \<le> marlin_max_cache_size))"
proof (cases "n < experts c \<or> (\<exists>k. m = Some k \<and> k < n) \<or> marlin \<and> marlin_max_cache_size < n")
  case True
  then have "validate_slots m marlin n c = Inl ValueError" by (auto simp: validate_slots_def)
  then have "rebuild_experts zero m marlin n c = Inl ValueError" using assms(1) by (simp add: rebuild_experts_def py_assert_def)
  then show ?thesis using True by blast
next
  case False
  let ?d = "(cold_cache n c)\<lparr>banks := map (\<lambda>b. b\<lparr>bank_rows := replicate n zero\<rparr>) (banks c)\<rparr>"
  have v: "experts c \<le> n" "\<forall>k. m = Some k \<longrightarrow> n \<le> k" "marlin \<longrightarrow> n \<le> marlin_max_cache_size" using False by auto
  have "validate_slots m marlin n c = Inr ()" using v by (cases m) (auto simp: validate_slots_def)
  then have run: "rebuild_experts zero m marlin n c = Inr ?d" using assms by (simp add: rebuild_experts_def py_assert_def)
  have ok: "moe_ok ?d" by (rule cold_ok) (use assms v in \<open>simp_all add: cold_cache_def moe_shape_def\<close>)
  show ?thesis
    by (rule disjI2, rule exI [of _ ?d]) (use run ok v in \<open>simp add: cold_cache_def comp_def\<close>)
qed

end
