(* ===== verification/Expert_Properties.thy ===== *)
theory Expert_Properties
  imports Expert_Whole "HOL-Library.Code_Target_Nat"
begin

text \<open>
  What the expert cache guarantees: the kernel is the reference, a layer computes with the rows of exactly
  the experts it was routed to, in decode and in prefill, the split of the misses is the cheapest one, and a
  rebuild refuses the sizes that do not fit.
\<close>

section \<open>A small cache\<close>

text \<open>Two layers of three experts, eight slots, one bank.\<close>

definition three_experts :: "int moe_cache" where
  "three_experts =
     \<lparr>layers = 2, experts = 3, slots = 8,
      banks = [\<lparr>bank_src = [[10, 11, 12], [20, 21, 22]], bank_rows = replicate 8 0, feat_bytes = 262144\<rparr>],
      slot_for_id = replicate 6 (- 1), id_of_slot = replicate 8 (- 1), slot_usage = replicate 8 0, lru_step = 0,
      active_mask = replicate 3 0, evict_slots = replicate 8 0, src_indices = replicate 8 0, num_indices = 0, num_missing_full = 0,
      expert_recency = replicate 6 (- 1), pending_src_layer = None, pending_whole_layer = False, unpinned_layers = [],
      prefill_overlap = True, prefill_hit_d2d = True, hit_device_ok = True, buffer_layer = [None, None],
      buffer_released = [True, True], hit_d2d_active = False, slot_snapshot = [], prefill_hit_rows = 0, prefill_total_rows = 0\<rparr>"

lemma three_experts_ok: "moe_ok three_experts" "rows_ok three_experts"
proof -
  show "moe_ok three_experts" by (rule cold_ok) (simp_all add: three_experts_def moe_shape_def)
  show "rows_ok three_experts" by (auto simp: three_experts_def rows_ok_def bank_ok_def)
qed

lemma three_experts_fields:
  "layers three_experts = 2" "experts three_experts = 3" "slots three_experts = 8" "lru_step three_experts = 0"
  "unpinned_layers three_experts = []" "banks three_experts \<noteq> []" "prefill_overlap three_experts"
  by (simp_all add: three_experts_def)

section \<open>The kernel and the reference\<close>

lemma pending_ok:
  "moe_ok (c\<lparr>pending_src_layer := l, pending_whole_layer := w\<rparr>) = moe_ok c"
  "routed layer ids (c\<lparr>pending_src_layer := l, pending_whole_layer := w\<rparr>) = routed layer ids c"
  by (simp_all add: moe_ok_def moe_shape_def routed_def)

lemma decode_gpu_cpu:
  assumes "moe_ok c" and "routed layer raw c" and "lru_step c + 1 < max_int64"
  shows "decode_hybrid (ensure_hybrid_gpu br layer) max_fetch fraction expert layer w raw c =
    decode_hybrid (ensure_hybrid_cpu br layer) max_fetch fraction expert layer w raw c"
  using kernel_reference [of "c\<lparr>pending_src_layer := Some layer, pending_whole_layer := False\<rparr>" layer raw br max_fetch "fetch_q16 fraction"]
    assms by (simp add: decode_hybrid_def ensure_experts_hybrid_def pending_ok)

text \<open>C33. The GPU kernel of the capped ensure and its CPU reference make the same decisions: on consistent
  tables they return the same slots and leave the same cache, for both policies, every cap and every
  fraction.\<close>

theorem hybrid_kernel_is_reference:
  assumes "moe_ok c" and "routed layer ids c" and "lru_step c + 1 < max_int64"
  shows "ensure_hybrid_gpu by_recency layer ids max_fetch fq c = ensure_hybrid_cpu by_recency layer ids max_fetch fq c"
  by (rule kernel_reference [OF assms])

theorem hybrid_kernel_is_reference_witness:
  "ensure_hybrid_gpu True 1 [2, 0, 2] 1 0 three_experts = ensure_hybrid_cpu True 1 [2, 0, 2] 1 0 three_experts"
  by (rule hybrid_kernel_is_reference [OF three_experts_ok(1)])
    (simp_all add: routed_def three_experts_fields max_int64_def)

lemma loop_missing_full: "num_missing_full (fetch_loop layer step i es c) = num_missing_full c"
  by (induction es arbitrary: i c) (simp_all add: give_slot_def Let_def)

lemma ensure_missing_full:
  assumes "ensure_hybrid_cpu br layer ids max_fetch fq c = (out, d)"
  shows "num_missing_full d = int (length (missing_experts br layer (seen_experts ids) c))"
  using assms unfolding ensure_cpu_unfold Let_def by (auto simp: loop_missing_full touched_def split del: if_split split: if_split_asm)

text \<open>C37. What the ensure returns is well typed: one entry per route, each \<open>-1\<close> or a slot of the cache, the
  same slot for two routes only when they name the same expert; the staged rows number at most the missing
  experts, and every staged row names a routed expert and the slot that the tables give it.\<close>

theorem hybrid_ensure_typed:
  assumes ok: "moe_ok c" and ids: "routed layer ids c" and small: "lru_step c + 1 < max_int64" and cap: "0 \<le> max_fetch"
    and run: "ensure_hybrid_gpu by_recency layer ids max_fetch fq c = (out, d)"
  shows "length out = length ids \<and> (\<forall>s \<in> set out. s = - 1 \<or> 0 \<le> s \<and> s < int (slots c)) \<and>
    (\<forall>i < length ids. \<forall>j < length ids. out ! i \<noteq> - 1 \<longrightarrow> out ! i = out ! j \<longrightarrow> ids ! i = ids ! j) \<and>
    0 \<le> num_indices d \<and> num_indices d \<le> num_missing_full d \<and>
    (\<forall>j < nat (num_indices d). src_indices d ! j \<in> set ids \<and> evict_slots d ! j = slot_of d layer (src_indices d ! j) \<and>
       0 \<le> evict_slots d ! j \<and> evict_slots d ! j < int (slots c))"
proof -
  have run': "ensure_hybrid_cpu by_recency layer ids max_fetch fq c = (out, d)"
    using run kernel_reference [OF ok ids small] by simp
  note R = ensure_cpu_fetched [OF ok ids run']
  let ?fs = "fetched_experts by_recency layer ids max_fetch fq c" and ?ms = "missing_experts by_recency layer (seen_experts ids) c"
  have idsd: "routed layer ids d" using ids R(5,6) by (simp add: routed_def)
  have slot: "0 \<le> slot_of d layer e \<and> slot_of d layer e < int (slots c) \<and> id_of_slot d ! nat (slot_of d layer e) = flat_id d layer e"
    if "e \<in> set ids" "slot_of d layer e \<noteq> - 1" for e using hit_slot [OF R(3) idsd that] R(7) by simp
  have out: "out = map (slot_of d layer) ids" by (rule R(2))
  have inj: "ids ! i = ids ! j" if "i < length ids" "j < length ids" "out ! i \<noteq> - 1" "out ! i = out ! j" for i j
  proof -
    have "flat_id d layer (ids ! i) = flat_id d layer (ids ! j)"
      using slot [of "ids ! i"] slot [of "ids ! j"] that out by simp
    then show ?thesis by (simp add: flat_id_inj)
  qed
  have n: "num_indices d = int (length ?fs)"
    using R(8) capped_le [of max_fetch fq "int (length ?ms)"] capped_nonneg [OF cap, of "int (length ?ms)" fq]
    by (simp add: fetched_experts_def Let_def)
  have full: "num_missing_full d = int (length ?ms)"
    by (rule ensure_missing_full [OF run'])
  have staged: "src_indices d ! j \<in> set ids \<and> evict_slots d ! j = slot_of d layer (src_indices d ! j) \<and>
      0 \<le> evict_slots d ! j \<and> evict_slots d ! j < int (slots c)" if j: "j < nat (num_indices d)" for j
  proof -
    have l: "j < length ?fs" using j n by simp
    have at: "src_indices d ! j = ?fs ! j" "evict_slots d ! j = slot_of d layer (?fs ! j)" "slot_of d layer (?fs ! j) \<noteq> - 1"
      using R(1) l unfolding fetched_def by auto
    have "?fs ! j \<in> set ids" using fetched_sub [of by_recency layer ids max_fetch fq c] nth_mem [OF l] by blast
    then show ?thesis using at slot by simp
  qed
  have range: "s = - 1 \<or> 0 \<le> s \<and> s < int (slots c)" if "s \<in> set out" for s using that out slot by auto
  have le: "num_indices d \<le> num_missing_full d" "0 \<le> num_indices d" "length out = length ids"
    using R(8) capped_le [of max_fetch fq "int (length ?ms)"] full n out by simp_all
  show ?thesis using inj staged range le by blast
qed

theorem hybrid_ensure_typed_witness:
  "length (fst (ensure_hybrid_gpu True 1 [2, 0, 2] 1 0 three_experts)) = 3 \<and>
   set (fst (ensure_hybrid_gpu True 1 [2, 0, 2] 1 0 three_experts)) \<subseteq> insert (- 1) {0..<8}"
  using hybrid_ensure_typed [OF three_experts_ok(1), of 1 "[2, 0, 2]" 1 True 0
      "fst (ensure_hybrid_gpu True 1 [2, 0, 2] 1 0 three_experts)" "snd (ensure_hybrid_gpu True 1 [2, 0, 2] 1 0 three_experts)"]
  by (auto simp: routed_def three_experts_fields max_int64_def subset_iff)

section \<open>Decode and prefill\<close>

text \<open>C34. A hybrid decode step computes exactly the weighted sum over its routes, each expert on its own host
  rows, whatever was resident and however the misses are split between the GPU and the CPU; and it leaves the
  cache consistent.\<close>

theorem hybrid_decode_exact:
  assumes "moe_ok c" and "rows_ok c" and "routed layer raw c" and "length w = length raw" and "0 \<le> max_fetch"
    and "layer \<notin> set (unpinned_layers c)" and "banks c \<noteq> []" and "lru_step c + 1 < max_int64"
  shows "\<exists>d. decode_hybrid (ensure_hybrid_gpu by_recency layer) max_fetch fraction expert layer w raw c =
      Inr (routed_sum expert layer w raw c, d) \<and> moe_ok d \<and> rows_ok d"
  using decode_hybrid_cpu [OF assms(1-7), of by_recency fraction expert] decode_gpu_cpu [OF assms(1,3,8)] by auto

theorem hybrid_decode_exact_witness:
  "\<exists>d. decode_hybrid (ensure_hybrid_gpu True 1) 1 0 (\<lambda>rows. of_int (hd rows)) 1 [1, 2, 3] [2, 0, 2] three_experts = Inr (128, d) \<and>
     moe_ok d \<and> rows_ok d"
proof -
  have "routed_sum (\<lambda>rows. of_int (hd rows)) 1 [1, 2, 3] [2, 0, 2] three_experts = 128"
    by (simp add: routed_sum_def three_experts_def)
  then show ?thesis
    using hybrid_decode_exact [OF three_experts_ok, of 1 "[2, 0, 2]" "[1, 2, 3]" 1 True 0 "\<lambda>rows. of_int (hd rows)"]
    by (simp add: routed_def three_experts_fields max_int64_def)
qed

text \<open>C35. A prefill pass over all layers through the double buffer raises no assertion, and every layer
  computes with exactly its own host rows in every bank, whether its buffer was filled by one copy or
  gathered from resident slots and completed by runs of misses; the cache is consistent afterwards.\<close>

theorem prefill_pass_serves:
  assumes "moe_ok c" and "rows_ok c" and "prefill_overlap c" and "banks c \<noteq> []" and "2 * experts c \<le> slots c"
  shows "\<exists>d. prefill_pass c = Inr (map (\<lambda>l. map (\<lambda>x. bank_src x ! l) (banks c)) [0..<layers c], d) \<and> moe_ok d \<and> rows_ok d"
  using pass_exact [OF assms] by blast

theorem prefill_pass_serves_witness:
  "\<exists>d. prefill_pass three_experts = Inr ([[[10, 11, 12]], [[20, 21, 22]]], d) \<and> moe_ok d \<and> rows_ok d"
proof -
  have "map (\<lambda>l. map (\<lambda>x. bank_src x ! l) (banks three_experts)) [0..<layers three_experts] = [[[10, 11, 12]], [[20, 21, 22]]]"
    by (simp add: three_experts_def numeral_2_eq_2)
  then show ?thesis using prefill_pass_serves [OF three_experts_ok] by (simp add: three_experts_fields)
qed

section \<open>The split of the misses\<close>

text \<open>With a fraction configured, the number of fetched misses is the cheapest split: no other number of
  fetches makes the slower of the PCIe and the CPU part faster, and it never exceeds the misses.\<close>

theorem capped_fetch_optimal:
  assumes "0 < fq" and "fq \<le> q16" and "0 \<le> m" and "0 \<le> f" and "f \<le> m"
  shows "split_cost fq m (capped_fetch max_fetch fq m) \<le> split_cost fq m f \<and> 0 \<le> capped_fetch max_fetch fq m \<and>
    capped_fetch max_fetch fq m \<le> m"
proof -
  let ?lo = "(m * fq) div q16"
  let ?k = "if split_cost fq m ?lo \<le> split_cost fq m (?lo + 1) then ?lo else ?lo + 1"
  have q: "0 < q16" by (simp add: q16_def)
  have lo: "?lo * q16 \<le> m * fq" "m * fq < (?lo + 1) * q16"
    using div_mult_mod_eq [of "m * fq" q16] pos_mod_sign [OF q, of "m * fq"] pos_mod_bound [OF q, of "m * fq"]
    unfolding distrib_right by linarith+
  have lo0: "0 \<le> ?lo" using q assms by (simp add: pos_imp_zdiv_nonneg_iff)
  have lom: "?lo \<le> m"
  proof -
    have "m * fq \<le> m * q16" using assms by (simp add: mult_left_mono)
    then have "?lo * q16 \<le> m * q16" using lo(1) by linarith
    then show ?thesis using q by simp
  qed
  have low: "split_cost fq m g = (m - g) * fq" if "g * q16 \<le> m * fq" for g
    using that by (simp add: split_cost_def max_def algebra_simps)
  have high: "split_cost fq m g = g * (q16 - fq)" if "m * fq \<le> g * q16" for g
    using that by (simp add: split_cost_def max_def algebra_simps)
  have "split_cost fq m ?lo \<le> split_cost fq m f \<or> split_cost fq m (?lo + 1) \<le> split_cost fq m f"
  proof (cases "f \<le> ?lo")
    case True
    then have "f * q16 \<le> ?lo * q16" using q by simp
    then have "f * q16 \<le> m * fq" using lo(1) by linarith
    moreover have "(m - ?lo) * fq \<le> (m - f) * fq" using True assms(1) by simp
    ultimately show ?thesis using low lo(1) by simp
  next
    case False
    then have "(?lo + 1) * q16 \<le> f * q16" using q by (intro mult_right_mono) linarith+
    then have "m * fq \<le> f * q16" using lo(2) by linarith
    moreover have "(?lo + 1) * (q16 - fq) \<le> f * (q16 - fq)" using False assms(2) by (intro mult_right_mono) linarith+
    ultimately show ?thesis using high [of f] high [of "?lo + 1"] lo(2) by simp
  qed
  then have best: "split_cost fq m ?k \<le> split_cost fq m f" by auto
  have "?k \<le> m"
  proof (cases "?lo = m")
    case True
    have "split_cost fq m ?lo = 0" using low [OF lo(1)] True by simp
    moreover have "0 \<le> split_cost fq m (?lo + 1)" using assms(2) lo0 by (simp add: split_cost_def le_max_iff_disj)
    ultimately show ?thesis using True by simp
  qed (use lom in auto)
  then have "capped_fetch max_fetch fq m = ?k" using assms(1) by (simp add: capped_fetch_def Let_def min_def)
  then show ?thesis using best \<open>?k \<le> m\<close> lo0 by simp
qed

theorem capped_fetch_optimal_witness:
  "split_cost 20000 7 (capped_fetch 0 20000 7) \<le> split_cost 20000 7 4 \<and> capped_fetch 0 20000 7 \<le> 7"
  using capped_fetch_optimal [of 20000 7 4 0] by (simp add: q16_def)

section \<open>Every sequence of operations\<close>

text \<open>The operations of a model runner between which the cache has to stay consistent.\<close>

inductive expert_step :: "int moe_cache \<Rightarrow> int moe_cache \<Rightarrow> bool" where
  decode: "routed layer raw c \<Longrightarrow> length w = length raw \<Longrightarrow> 0 \<le> max_fetch \<Longrightarrow> layer \<notin> set (unpinned_layers c) \<Longrightarrow>
    lru_step c + 1 < max_int64 \<Longrightarrow>
    decode_hybrid (ensure_hybrid_gpu by_recency layer) max_fetch fraction expert layer w raw c = Inr (y, d) \<Longrightarrow> expert_step c d"
| whole: "layer < layers c \<Longrightarrow> prefill_materialized layer c = Inr (views, d) \<Longrightarrow> expert_step c d"
| pass: "prefill_overlap c \<Longrightarrow> 2 * experts c \<le> slots c \<Longrightarrow> prefill_pass c = Inr (views, d) \<Longrightarrow> expert_step c d"
| reset: "expert_step c (cache_reset c)"
| rebuild: "rebuild_experts zero max_slots marlin n c = Inr d \<Longrightarrow> expert_step c d"

definition cache_consistent :: "'r moe_cache \<Rightarrow> bool" where
  "cache_consistent c \<longleftrightarrow> moe_ok c \<and> rows_ok c \<and> banks c \<noteq> []"

lemma sources_kept: "map bank_src xs = map bank_src ys \<Longrightarrow> xs \<noteq> [] \<longleftrightarrow> ys \<noteq> []"
  by auto

lemma step_consistent:
  assumes "expert_step c d" and inv: "cache_consistent c"
  shows "cache_consistent d \<and> map bank_src (banks d) = map bank_src (banks c) \<and> layers d = layers c \<and> experts d = experts c"
  using assms(1)
proof cases
  case (decode layer raw w max_fetch by_recency fraction expert y)
  then show ?thesis
    using inv decode_hybrid_cpu [of c layer raw w max_fetch by_recency fraction expert]
      decode_gpu_cpu [of c layer raw by_recency max_fetch fraction expert w] sources_kept [of "banks d" "banks c"]
    by (auto simp: cache_consistent_def)
next
  case (whole layer views)
  then show ?thesis using inv materialized_exact [of c layer] sources_kept [of "banks d" "banks c"] by (auto simp: cache_consistent_def)
next
  case (pass views)
  then show ?thesis using inv pass_exact [of c] sources_kept [of "banks d" "banks c"] by (auto simp: cache_consistent_def same_model_def)
next
  case reset
  then show ?thesis using inv reset_ok [of c] by (simp add: cache_consistent_def)
next
  case (rebuild zero max_slots marlin n)
  have c: "banks c \<noteq> []" "0 < experts c" "experts c < 2 ^ 31" using inv shape [of c] by (auto simp: cache_consistent_def)
  from resize_cases [OF c, of zero max_slots marlin n] rebuild
  have d: "moe_ok d" "slots d = n" "id_of_slot d = replicate n (- 1)" "layers d = layers c" "experts d = experts c"
    "map bank_src (banks d) = map bank_src (banks c)" "\<forall>b \<in> set (banks d). length (bank_rows b) = n" by auto
  have "bank_ok d b" if b: "b \<in> set (banks d)" for b
  proof -
    have "bank_src b \<in> bank_src ` set (banks c)" using d(6) b by (metis image_eqI set_map)
    then obtain x where "x \<in> set (banks c)" "bank_src b = bank_src x" by blast
    then show ?thesis using inv d b by (auto simp: cache_consistent_def rows_ok_def bank_ok_def)
  qed
  then show ?thesis using d sources_kept [OF d(6)] c by (auto simp: cache_consistent_def rows_ok_def)
qed

text \<open>C36. However decode steps, whole-layer prefills, overlapped prefill passes, resets and rebuilds follow each
  other, the two tables stay inverse to each other and every slot that the tables give to an expert holds the
  host row of that expert in every bank.\<close>

theorem expert_runs_consistent:
  assumes "expert_step\<^sup>*\<^sup>* c d" and "cache_consistent c"
  shows "cache_consistent d \<and> map bank_src (banks d) = map bank_src (banks c) \<and> layers d = layers c \<and> experts d = experts c"
  using assms by (induction rule: rtranclp_induct) (auto dest: step_consistent)

theorem expert_runs_consistent_witness:
  "cache_consistent (cache_reset three_experts)"
proof -
  have "expert_step\<^sup>*\<^sup>* three_experts (cache_reset three_experts)" by (rule r_into_rtranclp) (rule expert_step.reset)
  then show ?thesis
    using expert_runs_consistent three_experts_ok three_experts_fields unfolding cache_consistent_def by blast
qed

text \<open>C38. A rebuild to a size below one layer, above the configured limit, or above what the Marlin kernels
  address raises \<open>ValueError\<close>; every other size gives a cold consistent cache of exactly that size with the
  same host rows.\<close>

theorem rebuild_validates:
  assumes "banks c \<noteq> []" and "0 < experts c" and "experts c < 2 ^ 31"
  shows "if n < experts c \<or> (\<exists>k. limit = Some k \<and> k < n) \<or> marlin \<and> marlin_max_cache_size < n
    then rebuild_experts zero limit marlin n c = Inl ValueError
    else \<exists>d. rebuild_experts zero limit marlin n c = Inr d \<and> moe_ok d \<and> slots d = n \<and> id_of_slot d = replicate n (- 1) \<and>
      map bank_src (banks d) = map bank_src (banks c) \<and> (\<forall>b \<in> set (banks d). length (bank_rows b) = n)"
  using resize_cases [OF assms, of zero limit marlin n] by auto

theorem rebuild_validates_witness:
  "rebuild_experts 0 (Some 6) False 7 three_experts = Inl ValueError"
  using rebuild_validates [of three_experts 7 "Some 6" False 0] by (simp add: three_experts_fields)

end
