(* ===== verification/Tool_Stream.thy ===== *)
theory Tool_Stream
  imports Py_Text
begin

text \<open>
  Streaming tool calls of the invoke and parameter formats (\<open>InvokeParamStreamMixin\<close> of
  \<open>server/function_call_parser.py\<close> and the value conversion of \<open>BaseFormatDetector\<close>): text outside the
  blocks is passed on, a value of string type is passed on as the escaped characters of a JSON string while it
  arrives, every other value when its parameter closes.
\<close>

section \<open>JSON\<close>

text \<open>A float is carried as the text of its \<open>repr\<close>. \<open>JOpaque\<close> is a value that \<open>json.dumps\<close> refuses, as the set, the bytes and the
  complex number that \<open>ast.literal_eval\<close> can give; a tuple is written as a list, and a key as the text it is written as.\<close>

datatype json = JNull | JBool bool | JInt int | JFloat utext | JStr utext | JArr "json list" | JObj "(utext \<times> json) list" | JOpaque

text \<open>The escapes of \<open>json.dumps(text, ensure_ascii=False)\<close>.\<close>

definition hex_digit :: "nat \<Rightarrow> nat" where
  "hex_digit n = (if n < 10 then 48 + n else 87 + n)"

definition json_escape_char :: "nat \<Rightarrow> utext" where
  "json_escape_char c =
     (if c = 34 then [92, 34] else if c = 92 then [92, 92]
      else if c = 10 then [92, 110] else if c = 13 then [92, 114] else if c = 9 then [92, 116]
      else if c = 12 then [92, 102] else if c = 8 then [92, 98]
      else if c < 32 then [92, 117, 48, 48] @ [hex_digit (c div 16), hex_digit (c mod 16)]
      else [c])"

definition json_escape :: "utext \<Rightarrow> utext" where
  "json_escape t = concat (map json_escape_char t)"

definition json_string :: "utext \<Rightarrow> utext" where
  "json_string t = [34] @ json_escape t @ [34]"

fun nat_text :: "nat \<Rightarrow> utext" where
  "nat_text n = (if n < 10 then [48 + n] else nat_text (n div 10) @ [48 + n mod 10])"

declare nat_text.simps [simp del]

definition int_text :: "int \<Rightarrow> utext" where
  "int_text i = (if i < 0 then 45 # nat_text (nat (- i)) else nat_text (nat i))"

fun join_text :: "utext \<Rightarrow> utext list \<Rightarrow> utext" where
  "join_text sep [] = []"
| "join_text sep [x] = x"
| "join_text sep (x # y # xs) = x @ sep @ join_text sep (y # xs)"

text \<open>\<open>json.dumps(value, ensure_ascii=False)\<close> with its separators, which raises when there is something in the value that it
  cannot write.\<close>

fun serialisable :: "json \<Rightarrow> bool" where
  "serialisable (JArr xs) = list_all serialisable xs"
| "serialisable (JObj kvs) = list_all (\<lambda>(k, v). serialisable v) kvs"
| "serialisable JOpaque = False"
| "serialisable _ = True"

fun json_text :: "json \<Rightarrow> utext" where
  "json_text JNull = asc ''null''"
| "json_text (JBool b) = (if b then asc ''true'' else asc ''false'')"
| "json_text (JInt i) = int_text i"
| "json_text (JFloat r) = r"
| "json_text (JStr t) = json_string t"
| "json_text (JArr xs) = asc ''['' @ join_text (asc '', '') (map json_text xs) @ asc '']''"
| "json_text (JObj kvs) =
     asc ''{'' @ join_text (asc '', '') (map (\<lambda>(k, v). json_string k @ asc '': '' @ json_text v) kvs) @ asc ''}''"
| "json_text JOpaque = []"

definition json_dumps :: "json \<Rightarrow> utext result" where
  "json_dumps v = (if serialisable v then Inr (json_text v) else Inl TypeError)"

lemma dumps_string [simp]: "json_dumps (JStr t) = Inr (json_string t)"
  by (simp add: json_dumps_def)

section \<open>Tools and their schemas\<close>

text \<open>A tool with its name and its parameters, a JSON schema; its \<open>properties\<close>, when it has them, are an object.\<close>

record tool =
  tool_name :: utext
  tool_params :: "json option"

type_synonym config = "(utext \<times> json) list"

definition get_param_config :: "utext \<Rightarrow> tool list \<Rightarrow> config" where
  "get_param_config name tools =
     (case find (\<lambda>t. tool_name t = name \<and> (case tool_params t of Some (JObj (_ # _)) \<Rightarrow> True | _ \<Rightarrow> False)) tools of
        Some t \<Rightarrow> (case tool_params t of
            Some (JObj ps) \<Rightarrow> (case map_of ps (asc ''properties'') of Some (JObj qs) \<Rightarrow> qs | Some _ \<Rightarrow> [] | None \<Rightarrow> ps)
          | _ \<Rightarrow> [])
      | None \<Rightarrow> [])"

text \<open>\<open>str(...).strip().lower()\<close> as far as the comparisons with the names of types can tell; \<open>py_str\<close> gives
  the text of a schema type that is not a string.\<close>

definition lower_char :: "nat \<Rightarrow> nat" where
  "lower_char c = (if 65 \<le> c \<and> c \<le> 90 then c + 32 else c)"

definition lower :: "utext \<Rightarrow> utext" where
  "lower t = map lower_char t"

text \<open>What \<open>float\<close> reads: a whole number, another one with its \<open>repr\<close>, or one that is not finite.\<close>

datatype float_value = Whole int | Fractional utext | Infinity | NotANumber

text \<open>What the conversions take from the Python library. The parsers of \<open>int\<close>, \<open>float\<close> and \<open>json.loads\<close> give \<open>None\<close> where they
  raise \<open>ValueError\<close>, of which \<open>JSONDecodeError\<close> is a subclass; \<open>ast.literal_eval\<close> may raise anything. \<open>py_str\<close> is \<open>str\<close> of a
  JSON value.\<close>

record py_lib =
  py_int :: "utext \<Rightarrow> int option"
  py_float :: "utext \<Rightarrow> float_value option"
  json_loads :: "utext \<Rightarrow> json option"
  literal_eval :: "utext \<Rightarrow> json result"
  py_str :: "json \<Rightarrow> utext"

definition prop_type :: "py_lib \<Rightarrow> json \<Rightarrow> utext" where
  "prop_type L prop =
     (case prop of
        JObj kvs \<Rightarrow> lower (strip (case map_of kvs (asc ''type'') of
            None \<Rightarrow> asc ''string'' | Some (JStr s) \<Rightarrow> s | Some j \<Rightarrow> py_str L j))
      | _ \<Rightarrow> asc ''string'')"

definition schema_param_type :: "py_lib \<Rightarrow> utext \<Rightarrow> config \<Rightarrow> utext \<Rightarrow> utext" where
  "schema_param_type L key config missing = (case map_of config key of None \<Rightarrow> missing | Some prop \<Rightarrow> prop_type L prop)"

definition is_string_type :: "utext \<Rightarrow> bool" where
  "is_string_type t \<longleftrightarrow> t \<in> {asc ''string'', asc ''str'', asc ''enum''}"

text \<open>\<open>int(fv) if fv == int(fv) else fv\<close>: \<open>int\<close> raises \<open>OverflowError\<close> on an infinite float and \<open>ValueError\<close> on one that is
  not a number, and only the latter is caught.\<close>

definition convert_number :: "py_lib \<Rightarrow> utext \<Rightarrow> json result" where
  "convert_number L value =
     (case py_float L value of
        None \<Rightarrow> Inr (JStr value)
      | Some (Whole i) \<Rightarrow> Inr (JInt i)
      | Some (Fractional r) \<Rightarrow> Inr (JFloat r)
      | Some Infinity \<Rightarrow> Inl OverflowError
      | Some NotANumber \<Rightarrow> Inr (JStr value))"

definition convert_literal :: "py_lib \<Rightarrow> utext \<Rightarrow> json result" where
  "convert_literal L value =
     (case json_loads L value of
        Some j \<Rightarrow> Inr j
      | None \<Rightarrow> (case literal_eval L value of
          Inr j \<Rightarrow> Inr j
        | Inl e \<Rightarrow> if e \<in> {ValueError, SyntaxError, TypeError} then Inr (JStr value) else Inl e))"

definition convert_param_value :: "py_lib \<Rightarrow> utext \<Rightarrow> utext \<Rightarrow> config \<Rightarrow> json result" where
  "convert_param_value L value key config =
     (if lower value = asc ''null'' then Inr JNull
      else case map_of config key of
        None \<Rightarrow> Inr (JStr value)
      | Some prop \<Rightarrow>
          let t = prop_type L prop in
          if is_string_type t then Inr (JStr value)
          else if prefix (asc ''int'') t then Inr (case py_int L value of Some i \<Rightarrow> JInt i | None \<Rightarrow> JStr value)
          else if t \<in> {asc ''number'', asc ''float'', asc ''double''} then convert_number L value
          else if t \<in> {asc ''boolean'', asc ''bool''} then Inr (JBool (lower value = asc ''true''))
          else if t \<in> {asc ''object'', asc ''array''} then convert_literal L value
          else Inr (JStr value))"

definition parse_loose_json_value :: "py_lib \<Rightarrow> utext \<Rightarrow> json" where
  "parse_loose_json_value L value =
     (case json_loads L value of Some j \<Rightarrow> j
      | None \<Rightarrow> if lower value = asc ''true'' then JBool True else if lower value = asc ''false'' then JBool False
               else if lower value = asc ''null'' then JNull else JStr value)"

section \<open>The grammar of a format\<close>

text \<open>A tag is searched by an anchored match: the end of the match and its group.\<close>

type_synonym tag = "utext \<Rightarrow> (nat \<times> utext) option"

fun re_search :: "tag \<Rightarrow> tag" where
  "re_search m [] = m []"
| "re_search m (c # cs) = (case m (c # cs) of Some r \<Rightarrow> Some r | None \<Rightarrow> map_option (\<lambda>(e, g). (Suc e, g)) (re_search m cs))"

record grammar =
  outer_open :: utext
  outer_close :: utext
  invoke_prefix :: utext
  invoke_tag :: tag
  invoke_close :: utext
  param_prefix :: utext
  param_tag :: tag
  param_close :: utext
  trim_chars :: "nat set"
  trim_single :: bool
  missing_type :: utext
  canonical_name :: "utext \<Rightarrow> utext"

definition ends_with_partial_token :: "utext \<Rightarrow> utext \<Rightarrow> nat" where
  "ends_with_partial_token buffer tok =
     (case find (\<lambda>i. prefix (last_n i buffer) tok) [1..<min (length buffer + 1) (length tok)] of Some i \<Rightarrow> i | None \<Rightarrow> 0)"

definition ps_convert_value :: "py_lib \<Rightarrow> grammar \<Rightarrow> config \<Rightarrow> utext \<Rightarrow> utext \<Rightarrow> json result" where
  "ps_convert_value L g config key raw =
     (if map_of config key \<noteq> None \<or> missing_type g \<noteq> asc ''loose'' then convert_param_value L raw key config
      else Inr (parse_loose_json_value L raw))"

definition rstrip_chars :: "nat set \<Rightarrow> utext \<Rightarrow> utext" where
  "rstrip_chars cs t = rev (dropWhile (\<lambda>c. c \<in> cs) (rev t))"

definition trim_leading :: "grammar \<Rightarrow> utext \<Rightarrow> utext" where
  "trim_leading g t =
     (if trim_single g then (if t \<noteq> [] \<and> hd t \<in> trim_chars g then tl t else t) else dropWhile (\<lambda>c. c \<in> trim_chars g) t)"

definition trim_trailing :: "grammar \<Rightarrow> utext \<Rightarrow> utext" where
  "trim_trailing g t =
     (if trim_single g then (if t \<noteq> [] \<and> last t \<in> trim_chars g then butlast t else t) else rstrip_chars (trim_chars g) t)"

section \<open>The streaming state\<close>

datatype ps_mode = Idle | InBlock | Invoke | InvokeSkip | ParamStr | ParamBuf | ParamSkip

text \<open>An entry of \<open>prev_tool_call_arr\<close>: the name and the arguments parsed so far, or the empty dict.\<close>

record ps_state =
  ps_buffer :: utext
  ps_mode :: ps_mode
  ps_key :: utext
  ps_lead :: utext
  ps_lead_trimmed :: bool
  ps_args_started :: bool
  ps_config :: config
  tool_id :: int
  prev_calls :: "(utext \<times> json) option list"
  streamed_args :: "utext list"

datatype tool_item = ToolItem (item_index: int) (item_name: "utext option") (item_params: utext)

record ps_out =
  out_text :: utext
  out_calls :: "tool_item list"

definition no_out :: ps_out where
  "no_out = \<lparr>out_text = [], out_calls = []\<rparr>"

definition new_ps :: ps_state where
  "new_ps = \<lparr>ps_buffer = [], ps_mode = Idle, ps_key = [], ps_lead = asc ''{'', ps_lead_trimmed = False, ps_args_started = False,
     ps_config = [], tool_id = - 1, prev_calls = [], streamed_args = []\<rparr>"

definition pad_to :: "int \<Rightarrow> 'a \<Rightarrow> 'a list \<Rightarrow> 'a list" where
  "pad_to i v xs = xs @ replicate (nat (i + 1) - length xs) v"

definition emit_args :: "utext \<Rightarrow> ps_out \<times> ps_state \<Rightarrow> ps_out \<times> ps_state" where
  "emit_args f os =
     (case os of (out, s) \<Rightarrow>
        if f = [] then (out, s)
        else (out\<lparr>out_calls := out_calls out @ [ToolItem (tool_id s) None f]\<rparr>,
              s\<lparr>streamed_args := (streamed_args s)[nat (tool_id s) := streamed_args s ! nat (tool_id s) @ f]\<rparr>))"

text \<open>The arguments streamed so far, when they are a JSON object or become one with a closing brace.\<close>

definition update_prev :: "py_lib \<Rightarrow> ps_out \<times> ps_state \<Rightarrow> ps_out \<times> ps_state" where
  "update_prev L os =
     (case os of (out, s) \<Rightarrow>
        let i = nat (tool_id s); ledger = streamed_args s ! i;
            parsed = (case json_loads L ledger of Some j \<Rightarrow> Some j | None \<Rightarrow> json_loads L (ledger @ asc ''}'')) in
        (out, case parsed of
           Some (JObj kvs) \<Rightarrow> s\<lparr>prev_calls := (prev_calls s)[i := map_option (\<lambda>(n, _). (n, JObj kvs)) (prev_calls s ! i)]\<rparr>
         | _ \<Rightarrow> s))"

section \<open>One turn of the parsing loop\<close>

text \<open>How a turn ends: the loop goes on, or breaks to wait for more text, or an exception leaves it; with what has been put out so
  far, and the state.\<close>

datatype verdict = Again | Halt | Raised py_error

type_synonym turn = "verdict \<times> ps_out \<times> ps_state"

definition go :: "ps_out \<times> ps_state \<Rightarrow> turn" where
  "go os = (Again, os)"

definition stop :: "ps_out \<times> ps_state \<Rightarrow> turn" where
  "stop os = (Halt, os)"

definition fail_with :: "py_error \<Rightarrow> ps_out \<times> ps_state \<Rightarrow> turn" where
  "fail_with e os = (Raised e, os)"

definition put_text :: "utext \<Rightarrow> ps_out \<Rightarrow> ps_out" where
  "put_text t out = out\<lparr>out_text := out_text out @ t\<rparr>"

definition idle_turn :: "grammar \<Rightarrow> ps_out \<Rightarrow> ps_state \<Rightarrow> turn" where
  "idle_turn g out s =
     (let buf = ps_buffer s in
      if out_calls out \<noteq> [] then stop (out, s)
      else case find_sub (outer_open g) buf of
        None \<Rightarrow>
          let hold = ends_with_partial_token buf (outer_open g); release = take (length buf - hold) buf in
          stop (put_text release out, s\<lparr>ps_buffer := drop (length release) buf\<rparr>)
      | Some pos \<Rightarrow>
          if 0 < pos then go (put_text (take pos buf) out, s\<lparr>ps_buffer := drop pos buf\<rparr>)
          else go (out, s\<lparr>ps_buffer := drop (length (outer_open g)) buf, ps_mode := InBlock\<rparr>))"

definition known_tool :: "bool \<Rightarrow> tool list \<Rightarrow> utext \<Rightarrow> bool" where
  "known_tool forward tools name \<longleftrightarrow> (name \<noteq> [] \<and> name \<in> tool_name ` set tools) \<or> forward \<or> 58 \<in> set name"

definition block_turn :: "bool \<Rightarrow> grammar \<Rightarrow> tool list \<Rightarrow> ps_out \<Rightarrow> ps_state \<Rightarrow> turn" where
  "block_turn forward g tools out s =
     (let buf = ps_buffer s; inv = find_sub (invoke_prefix g) buf;
          close = (if outer_close g = [] then None else find_sub (outer_close g) buf) in
      if close \<noteq> None \<and> (inv = None \<or> the close < the inv)
      then go (out, s\<lparr>ps_buffer := drop (the close + length (outer_close g)) buf, ps_mode := Idle\<rparr>)
      else case inv of
        Some i \<Rightarrow>
          (case re_search (invoke_tag g) (drop i buf) of
             None \<Rightarrow> stop (out, s)
           | Some (e, raw) \<Rightarrow>
               let name = canonical_name g (strip raw); i0 = (if tool_id s = - 1 then 0 else tool_id s);
                   s = s\<lparr>tool_id := i0, prev_calls := pad_to i0 None (prev_calls s), streamed_args := pad_to i0 [] (streamed_args s),
                         ps_buffer := drop (i + e) buf\<rparr> in
               if known_tool forward tools name
               then go (out\<lparr>out_calls := out_calls out @ [ToolItem i0 (Some name) []]\<rparr>,
                        s\<lparr>prev_calls := (prev_calls s)[nat i0 := Some (name, JObj [])], ps_args_started := False,
                          ps_config := get_param_config name tools, ps_mode := Invoke\<rparr>)
               else go (out, s\<lparr>ps_mode := InvokeSkip\<rparr>))
      | None \<Rightarrow>
          let hold = max (ends_with_partial_token buf (invoke_prefix g))
                (if outer_close g = [] then 0 else ends_with_partial_token buf (outer_close g)) in
          stop (out, if 0 < length buf - hold then s\<lparr>ps_buffer := drop (length buf - hold) buf\<rparr> else s))"

definition invoke_turn :: "py_lib \<Rightarrow> grammar \<Rightarrow> ps_out \<Rightarrow> ps_state \<Rightarrow> turn" where
  "invoke_turn L g out s =
     (let buf = ps_buffer s; p = find_sub (param_prefix g) buf; e = find_sub (invoke_close g) buf; live = (ps_mode s = Invoke) in
      if e \<noteq> None \<and> (p = None \<or> the e < the p)
      then let (out, s) = (if live
             then let (out, s) = update_prev L (emit_args (if ps_args_started s then asc ''}'' else asc ''{}'') (out, s)) in
               (out, s\<lparr>tool_id := tool_id s + 1, streamed_args := pad_to (tool_id s + 1) [] (streamed_args s)\<rparr>)
             else (out, s)) in
           go (out, s\<lparr>ps_buffer := drop (the e + length (invoke_close g)) buf, ps_mode := InBlock\<rparr>)
      else case p of
        Some i \<Rightarrow>
          (case re_search (param_tag g) (drop i buf) of
             None \<Rightarrow> stop (out, s)
           | Some (m, raw) \<Rightarrow>
               let s = s\<lparr>ps_buffer := drop (i + m) buf\<rparr> in
               if \<not> live then go (out, s\<lparr>ps_mode := ParamSkip\<rparr>)
               else let key = strip raw; lead = (if ps_args_started s then asc '','' else asc ''{'');
                        s = s\<lparr>ps_key := key, ps_args_started := True\<rparr> in
                 if is_string_type (schema_param_type L key (ps_config s) (missing_type g))
                 then let (out, s) = emit_args (lead @ json_string key @ [58, 34]) (out, s) in
                   go (out, s\<lparr>ps_lead_trimmed := False, ps_mode := ParamStr\<rparr>)
                 else go (out, s\<lparr>ps_lead := lead, ps_mode := ParamBuf\<rparr>))
      | None \<Rightarrow>
          let hold = max (ends_with_partial_token buf (param_prefix g)) (ends_with_partial_token buf (invoke_close g)) in
          stop (out, if 0 < length buf - hold then s\<lparr>ps_buffer := drop (length buf - hold) buf\<rparr> else s))"

definition string_turn :: "py_lib \<Rightarrow> grammar \<Rightarrow> ps_out \<Rightarrow> ps_state \<Rightarrow> turn" where
  "string_turn L g out s =
     (let buf = ps_buffer s; trimmed = trim_leading g buf in
      if \<not> ps_lead_trimmed s \<and> trimmed \<noteq> buf
      then go (out, s\<lparr>ps_buffer := trimmed,
                      ps_lead_trimmed := (if trim_single g \<or> trimmed \<noteq> [] then trimmed \<noteq> [] \<or> trim_single g else ps_lead_trimmed s)\<rparr>)
      else let s = s\<lparr>ps_lead_trimmed := ps_lead_trimmed s \<or> buf \<noteq> []\<rparr> in
        case find_sub (param_close g) buf of
          None \<Rightarrow>
            let hold = ends_with_partial_token buf (param_close g); safe = take (length buf - hold) buf;
                keep = length safe - length (rstrip_chars (trim_chars g) safe); emit_now = take (length safe - keep) safe in
            if emit_now \<noteq> []
            then let (out, s) = emit_args (json_escape emit_now) (out, s) in stop (out, s\<lparr>ps_buffer := drop (length emit_now) buf\<rparr>)
            else stop (out, s)
        | Some e \<Rightarrow>
            let (out, s) = update_prev L (emit_args (json_escape (trim_trailing g (take e buf)) @ [34]) (out, s)) in
            go (out, s\<lparr>ps_buffer := drop (e + length (param_close g)) buf, ps_mode := Invoke\<rparr>))"

definition buffered_turn :: "py_lib \<Rightarrow> grammar \<Rightarrow> ps_out \<Rightarrow> ps_state \<Rightarrow> turn" where
  "buffered_turn L g out s =
     (let buf = ps_buffer s in
      case find_sub (param_close g) buf of
        None \<Rightarrow> stop (out, s)
      | Some e \<Rightarrow>
          let rest = drop (e + length (param_close g)) buf in
          if ps_mode s = ParamBuf
          then let raw = trim_trailing g (trim_leading g (take e buf)) in
            (case rbind (ps_convert_value L g (ps_config s) (ps_key s) raw) json_dumps of
               Inl err \<Rightarrow> fail_with err (out, s)
             | Inr v \<Rightarrow>
                 let (out, s) = update_prev L (emit_args (ps_lead s @ json_string (ps_key s) @ [58] @ v) (out, s)) in
                 go (out, s\<lparr>ps_buffer := rest, ps_mode := Invoke\<rparr>))
          else go (out, s\<lparr>ps_buffer := rest, ps_mode := InvokeSkip\<rparr>))"

definition ps_turn :: "py_lib \<Rightarrow> bool \<Rightarrow> grammar \<Rightarrow> tool list \<Rightarrow> ps_out \<Rightarrow> ps_state \<Rightarrow> turn" where
  "ps_turn L forward g tools out s =
     (if ps_buffer s = [] then stop (out, s)
      else case ps_mode s of
        Idle \<Rightarrow> idle_turn g out s
      | InBlock \<Rightarrow> block_turn forward g tools out s
      | Invoke \<Rightarrow> invoke_turn L g out s
      | InvokeSkip \<Rightarrow> invoke_turn L g out s
      | ParamStr \<Rightarrow> string_turn L g out s
      | ParamBuf \<Rightarrow> buffered_turn L g out s
      | ParamSkip \<Rightarrow> buffered_turn L g out s)"

section \<open>Feeding and finishing\<close>

text \<open>Every turn that goes on shortens the buffer, so one turn per character and one more are enough. What has been put out is
  lost when the loop is left by an exception.\<close>

fun ps_loop :: "py_lib \<Rightarrow> bool \<Rightarrow> grammar \<Rightarrow> tool list \<Rightarrow> nat \<Rightarrow> ps_out \<Rightarrow> ps_state \<Rightarrow> (ps_out \<times> ps_state) result" where
  "ps_loop L forward g tools 0 out s = Inr (out, s)"
| "ps_loop L forward g tools (Suc n) out s =
     (case ps_turn L forward g tools out s of
        (Again, out, s) \<Rightarrow> ps_loop L forward g tools n out s
      | (Halt, out, s) \<Rightarrow> Inr (out, s)
      | (Raised e, out, s) \<Rightarrow> Inl e)"

definition ps_increment :: "py_lib \<Rightarrow> bool \<Rightarrow> grammar \<Rightarrow> tool list \<Rightarrow> utext \<Rightarrow> ps_state \<Rightarrow> (ps_out \<times> ps_state) result" where
  "ps_increment L forward g tools new_text s =
     (let s = s\<lparr>ps_buffer := ps_buffer s @ new_text\<rparr> in ps_loop L forward g tools (Suc (length (ps_buffer s))) no_out s)"

definition ps_reset :: "ps_state \<Rightarrow> ps_state" where
  "ps_reset s = s\<lparr>ps_mode := Idle, ps_key := [], ps_lead := asc ''{'', ps_lead_trimmed := False, ps_config := []\<rparr>"

definition ps_finish :: "grammar \<Rightarrow> ps_state \<Rightarrow> utext \<times> ps_state" where
  "ps_finish g s =
     (let residual = ps_buffer s; s' = ps_reset (s\<lparr>ps_buffer := []\<rparr>) in
      if ps_mode s \<noteq> Idle \<or> (outer_open g \<noteq> [] \<and> contains (outer_open g) residual) then ([], s')
      else if prev_calls s \<noteq> [] \<and> strip residual = [] then ([], s')
      else (residual, s'))"

section \<open>The segments of a stream\<close>

text \<open>\<open>FunctionCallParser.parse_stream_events\<close>: an increment may leave part of its buffer behind, so it is
  repeated without new text, at most sixteen times in all.\<close>

datatype segment = TextSeg utext | CallSeg "tool_item list"

definition segments_of :: "ps_out \<Rightarrow> segment list" where
  "segments_of out = (if out_text out = [] then [] else [TextSeg (out_text out)]) @ (if out_calls out = [] then [] else [CallSeg (out_calls out)])"

fun drain_events :: "py_lib \<Rightarrow> bool \<Rightarrow> grammar \<Rightarrow> tool list \<Rightarrow> nat \<Rightarrow> utext \<Rightarrow> ps_state \<Rightarrow> (segment list \<times> ps_state) result" where
  "drain_events L forward g tools 0 new_text s = Inr ([], s)"
| "drain_events L forward g tools (Suc n) new_text s =
     rbind (ps_increment L forward g tools new_text s) (\<lambda>(out, s).
       if new_text = [] \<and> out = no_out then Inr ([], s)
       else rbind (drain_events L forward g tools n [] s) (\<lambda>(segs, s). Inr (segments_of out @ segs, s)))"

definition parse_stream_events :: "py_lib \<Rightarrow> bool \<Rightarrow> grammar \<Rightarrow> tool list \<Rightarrow> utext \<Rightarrow> ps_state \<Rightarrow> (segment list \<times> ps_state) result" where
  "parse_stream_events L forward g tools chunk s =
     (if tools = [] then Inr (if chunk = [] then [] else [TextSeg chunk], s) else drain_events L forward g tools 16 chunk s)"

definition tool_stream_chunk ::
    "py_lib \<Rightarrow> bool \<Rightarrow> grammar \<Rightarrow> tool list \<Rightarrow> utext \<Rightarrow> ps_state \<Rightarrow> ((utext \<times> tool_item list) \<times> ps_state) result" where
  "tool_stream_chunk L forward g tools chunk s =
     rbind (parse_stream_events L forward g tools chunk s) (\<lambda>(segs, s).
       Inr ((concat (map (\<lambda>x. case x of TextSeg t \<Rightarrow> t | CallSeg _ \<Rightarrow> []) segs),
             concat (map (\<lambda>x. case x of TextSeg _ \<Rightarrow> [] | CallSeg cs \<Rightarrow> cs) segs)), s))"

text \<open>The arguments of a call that was cut short, as far as they were parsed.\<close>

definition unstreamed_arguments :: "nat \<Rightarrow> ps_state \<Rightarrow> utext option result" where
  "unstreamed_arguments i s =
     (case (if i < length (prev_calls s) then prev_calls s ! i else None) of
        Some (_, args) \<Rightarrow> rbind (json_dumps args) (\<lambda>t. Inr (Some t))
      | None \<Rightarrow> Inr None)"

end
