(* ===== verification/Tool_Chunks.thy ===== *)
theory Tool_Chunks
  imports Tool_Stream Reasoning_Stream
begin

text \<open>
  Streaming tool calls chunk by chunk: the meaning of a state is the transcript that it would still complete,
  and neither a turn of the parsing loop nor the arrival of more text changes it.
\<close>

section \<open>Partial tokens\<close>

definition single_head :: "utext \<Rightarrow> bool" where
  "single_head tok \<longleftrightarrow> tok \<noteq> [] \<and> hd tok \<notin> set (tl tok)"

definition partial_at :: "utext \<Rightarrow> utext \<Rightarrow> nat \<Rightarrow> bool" where
  "partial_at tok t n \<longleftrightarrow> n \<le> length t \<and> n < length tok \<and> prefix (last_n n t) tok"

lemma last_n_last_n: "i \<le> j \<Longrightarrow> j \<le> length t \<Longrightarrow> last_n i (last_n j t) = last_n i t"
  by (simp add: last_n_def)

lemma length_last_n [simp]: "n \<le> length t \<Longrightarrow> length (last_n n t) = n"
  by (simp add: last_n_def)

lemma partial_unique:
  assumes one: "single_head tok" and i: "partial_at tok t i" "0 < i" and j: "partial_at tok t j" "i < j"
  shows False
proof -
  have at: "last_n n t = take n tok" if "partial_at tok t n" for n using that by (auto simp: partial_at_def prefix_def)
  note pi = at [OF i(1)] and pj = at [OF j(1)]
  have "last_n i t = drop (j - i) (last_n j t)" using i j by (simp add: partial_at_def last_n_def)
  then have "take i tok = drop (j - i) (take j tok)" unfolding pi pj .
  then have "take i tok ! 0 = drop (j - i) (take j tok) ! 0" by simp
  then have "tok ! 0 = tok ! (j - i)" using i j by (simp add: partial_at_def)
  moreover have "tok ! (j - i) \<in> set (tl tok)"
    using i j by (cases tok) (auto simp: partial_at_def nth_Cons split: nat.splits intro!: nth_mem)
  ultimately show False using one by (cases tok) (auto simp: single_head_def)
qed

lemma partial_token:
  assumes one: "single_head tok"
  shows "partial_at tok t (ends_with_partial_token t tok)" and "partial_at tok t n \<Longrightarrow> n \<le> ends_with_partial_token t tok"
proof -
  let ?is = "[1..<min (length t + 1) (length tok)]"
  have zero: "partial_at tok t 0" using one by (simp add: partial_at_def single_head_def last_n_def)
  have mem: "i \<in> set ?is \<and> prefix (last_n i t) tok \<longleftrightarrow> partial_at tok t i \<and> 0 < i" for i by (auto simp: partial_at_def)
  have "partial_at tok t (ends_with_partial_token t tok) \<and> (\<forall>n. partial_at tok t n \<longrightarrow> n \<le> ends_with_partial_token t tok)"
  proof (cases "find (\<lambda>i. prefix (last_n i t) tok) ?is")
    case None
    then have "\<not> (partial_at tok t i \<and> 0 < i)" for i using mem [of i] unfolding find_None_iff by blast
    then show ?thesis using None zero by (auto simp: ends_with_partial_token_def)
  next
    case (Some h)
    then have h: "partial_at tok t h" "0 < h" using mem [of h] find_mem [OF Some] by blast+
    have "n \<le> h" if "partial_at tok t n" for n
      using partial_unique [OF one h that] by (meson not_le)
    then show ?thesis using Some h by (simp add: ends_with_partial_token_def)
  qed
  then show "partial_at tok t (ends_with_partial_token t tok)" "partial_at tok t n \<Longrightarrow> n \<le> ends_with_partial_token t tok" by blast+
qed

lemma partial_at_suffix: "strict_prefix p tok \<Longrightarrow> suffix p t \<Longrightarrow> partial_at tok t (length p)"
  by (auto simp: partial_at_def last_n_def suffix_def strict_prefix_def prefix_def)

lemma partial_holds: "single_head tok \<Longrightarrow> ends_with_partial_token t tok \<le> n \<Longrightarrow> holds_back tok t n"
  using partial_token(2) partial_at_suffix unfolding holds_back_def by (meson order_trans)

lemma partial_le: "single_head tok \<Longrightarrow> ends_with_partial_token t tok \<le> length t"
  using partial_token(1) [of tok t] by (simp add: partial_at_def)

lemma holds_back_mono: "holds_back mk t n \<Longrightarrow> n \<le> m \<Longrightarrow> holds_back mk t m"
  unfolding holds_back_def by (meson order_trans)

text \<open>What was given out cannot be the start of a token.\<close>

lemma partial_after:
  assumes one: "single_head tok" and held: "holds_back tok (R @ B) (length B)"
  shows "ends_with_partial_token (R @ B @ x) tok = ends_with_partial_token (B @ x) tok"
proof -
  have same: "partial_at tok (R @ B @ x) n \<longleftrightarrow> partial_at tok (B @ x) n" for n
  proof (cases "n \<le> length (B @ x)")
    case True
    then show ?thesis by (simp add: partial_at_def last_n_def)
  next
    case False
    have "\<not> partial_at tok (R @ B @ x) n"
    proof
      assume p: "partial_at tok (R @ B @ x) n"
      define k where "k = length (R @ B @ x) - n"
      have k: "k < length R" using False p unfolding k_def partial_at_def length_append by linarith
      have "drop k (R @ B @ x) = drop k (R @ B) @ x" using k by simp
      then have l: "last_n n (R @ B @ x) = drop k (R @ B) @ x" unfolding last_n_def k_def .
      have "prefix (drop k (R @ B)) tok" using p unfolding partial_at_def l by (auto simp: prefix_def)
      moreover have "length (drop k (R @ B)) < length tok" using p False k unfolding partial_at_def k_def length_append length_drop by linarith
      ultimately have "strict_prefix (drop k (R @ B)) tok" by (auto simp: strict_prefix_def)
      then have "length (drop k (R @ B)) \<le> length B" using held suffix_drop unfolding holds_back_def by blast
      then show False using k by simp
    qed
    then show ?thesis using False by (simp add: partial_at_def)
  qed
  have "n = m" if "partial_at tok t n" "\<forall>i. partial_at tok t i \<longrightarrow> i \<le> n" "partial_at tok t m" "\<forall>i. partial_at tok t i \<longrightarrow> i \<le> m" for n m t
    using that by (meson le_antisym)
  then show ?thesis using partial_token [OF one, of "R @ B @ x"] partial_token [OF one, of "B @ x"] same by blast
qed

section \<open>Which token comes first\<close>

lemma find_none_late:
  assumes none: "find_sub t b = None" and late: "find_sub t (b @ x) = Some j"
  shows "length b < j + length t"
proof (rule ccontr)
  assume "\<not> length b < j + length t"
  then have j: "j + length t \<le> length b" by simp
  have "prefix t (drop j b @ x)" using find_sub_Some [OF late] j by simp
  then have "prefix t (drop j b)" using j by (metis prefix_length_prefix prefixI length_drop add_le_imp_le_diff add.commute)
  then show False using find_sub_None [OF none, of j] j by simp
qed

lemma stays_first:
  assumes a: "find_sub a b = Some c" and order: "\<And>j. find_sub t b = Some j \<Longrightarrow> c < j" and no: "\<not> sublist a t"
    and late: "find_sub t (b @ x) = Some j"
  shows "c < j"
proof (cases "find_sub t b")
  case (Some i)
  then show ?thesis using order find_sub_append [OF Some, of x] late by simp
next
  case None
  show ?thesis
  proof (rule ccontr)
    assume "\<not> c < j"
    then have jc: "j \<le> c" by simp
    have c: "prefix a (drop c b)" "c \<le> length b" using find_sub_Some [OF a] by blast+
    have over: "length b < j + length t" by (rule find_none_late [OF None late])
    have t: "prefix t (drop j b @ x)" using find_sub_Some [OF late] jc c(2) by simp
    have "prefix (drop (c - j) (drop j b)) (drop (c - j) t)"
    proof -
      have "length (drop j b) \<le> length t" using over by simp
      then have "prefix (drop j b) t" using t by (metis prefix_length_prefix prefixI)
      then show ?thesis by (auto simp: prefix_def)
    qed
    then have "prefix a (drop (c - j) t)" using c jc by (auto intro: prefix_order.trans)
    then have "sublist a t" by (metis sublist_drop prefix_imp_sublist sublist_order.order.trans)
    then show False using no by simp
  qed
qed

section \<open>Transcripts\<close>

text \<open>The text and the calls of a stream in order, the fragments of a call put together.\<close>

datatype piece = Txt utext | Call int utext utext

fun add_text :: "utext \<Rightarrow> piece list \<Rightarrow> piece list" where
  "add_text t acc = (if t = [] then acc else case acc of Txt u # r \<Rightarrow> Txt (u @ t) # r | _ \<Rightarrow> Txt t # acc)"

fun add_item :: "tool_item \<Rightarrow> piece list \<Rightarrow> piece list" where
  "add_item (ToolItem i (Some n) p) acc = Call i n p # acc"
| "add_item (ToolItem i None p) acc = (case acc of Call j n q # r \<Rightarrow> Call j n (q @ p) # r | _ \<Rightarrow> Call i [] p # acc)"

definition add_out :: "ps_out \<Rightarrow> piece list \<Rightarrow> piece list" where
  "add_out out acc = fold add_item (out_calls out) (add_text (out_text out) acc)"

definition plus_out :: "ps_out \<Rightarrow> ps_out \<Rightarrow> ps_out" where
  "plus_out a b = \<lparr>out_text = out_text a @ out_text b, out_calls = out_calls a @ out_calls b\<rparr>"

lemma add_text_simps [simp]: "add_text [] acc = acc" "add_text u (add_text t acc) = add_text (t @ u) acc"
  by (auto split: list.splits piece.splits)

declare add_text.simps [simp del]

lemma out_simps [simp]:
  "out_text no_out = []" "out_calls no_out = []" "add_out no_out acc = acc"
  "out_text (plus_out a b) = out_text a @ out_text b" "out_calls (plus_out a b) = out_calls a @ out_calls b"
  "plus_out no_out d = d" "plus_out d no_out = d"
  by (simp_all add: no_out_def plus_out_def add_out_def)

lemma add_plus: "out_calls a = [] \<or> out_text d = [] \<Longrightarrow> add_out (plus_out a d) acc = add_out d (add_out a acc)"
  by (auto simp: add_out_def)

section \<open>Emitting\<close>

definition put_args :: "int \<Rightarrow> utext \<Rightarrow> ps_out \<Rightarrow> ps_out" where
  "put_args i f out = (if f = [] then out else out\<lparr>out_calls := out_calls out @ [ToolItem i None f]\<rparr>)"

definition keep_args :: "utext \<Rightarrow> ps_state \<Rightarrow> ps_state" where
  "keep_args f s = (if f = [] then s
     else s\<lparr>streamed_args := (streamed_args s)[nat (tool_id s) := streamed_args s ! nat (tool_id s) @ f]\<rparr>)"

definition note_args :: "py_lib \<Rightarrow> ps_state \<Rightarrow> ps_state" where
  "note_args L s = snd (update_prev L (no_out, s))"

lemma emit_pair: "emit_args f (out, s) = (put_args (tool_id s) f out, keep_args f s)"
  by (simp add: emit_args_def put_args_def keep_args_def)

lemma update_pair: "update_prev L (out, s) = (out, note_args L s)"
  by (simp add: update_prev_def note_args_def Let_def)

lemma keep_fields [simp]:
  "ps_buffer (keep_args f s) = ps_buffer s" "ps_mode (keep_args f s) = ps_mode s" "tool_id (keep_args f s) = tool_id s"
  "ps_lead_trimmed (keep_args f s) = ps_lead_trimmed s" "prev_calls (keep_args f s) = prev_calls s" "ps_config (keep_args f s) = ps_config s"
  "ps_key (keep_args f s) = ps_key s" "ps_args_started (keep_args f s) = ps_args_started s"
  "keep_args f (s\<lparr>ps_buffer := b\<rparr>) = (keep_args f s)\<lparr>ps_buffer := b\<rparr>"
  "keep_args f (s\<lparr>ps_mode := m\<rparr>) = (keep_args f s)\<lparr>ps_mode := m\<rparr>"
  "keep_args f (s\<lparr>ps_lead_trimmed := t\<rparr>) = (keep_args f s)\<lparr>ps_lead_trimmed := t\<rparr>"
  "keep_args f (s\<lparr>ps_key := k\<rparr>) = (keep_args f s)\<lparr>ps_key := k\<rparr>"
  "keep_args f (s\<lparr>ps_args_started := a\<rparr>) = (keep_args f s)\<lparr>ps_args_started := a\<rparr>"
  by (simp_all add: keep_args_def)

lemma note_fields [simp]:
  "ps_buffer (note_args L s) = ps_buffer s" "ps_mode (note_args L s) = ps_mode s" "tool_id (note_args L s) = tool_id s"
  "ps_lead_trimmed (note_args L s) = ps_lead_trimmed s" "streamed_args (note_args L s) = streamed_args s"
  "ps_config (note_args L s) = ps_config s" "ps_key (note_args L s) = ps_key s" "ps_args_started (note_args L s) = ps_args_started s"
  "length (prev_calls (note_args L s)) = length (prev_calls s)"
  "note_args L (s\<lparr>ps_buffer := b\<rparr>) = (note_args L s)\<lparr>ps_buffer := b\<rparr>"
  "note_args L (s\<lparr>ps_mode := m\<rparr>) = (note_args L s)\<lparr>ps_mode := m\<rparr>"
  "note_args L (s\<lparr>ps_lead_trimmed := t\<rparr>) = (note_args L s)\<lparr>ps_lead_trimmed := t\<rparr>"
  by (simp_all add: note_args_def update_prev_def Let_def split: option.split json.split)

lemma keep_keep [simp]: "keep_args (a @ b) s = keep_args b (keep_args a s)" if "nat (tool_id s) < length (streamed_args s)"
  using that by (simp add: keep_args_def)

lemma put_frame: "put_args i f (plus_out out d) = plus_out out (put_args i f d)"
  by (simp add: put_args_def plus_out_def)

lemma put_add: "add_out (put_args i f no_out) acc = (if f = [] then acc else add_item (ToolItem i None f) acc)"
  by (simp add: put_args_def add_out_def no_out_def)

lemma turn_frame:
  assumes "ps_mode s \<noteq> Idle \<or> out_calls out = []"
  shows "ps_turn L fw g tools out s = (case ps_turn L fw g tools no_out s of (b, d, s') \<Rightarrow> (b, plus_out out d, s'))"
  using assms put_frame [of _ _ out no_out]
  by (cases "ps_mode s")
    (auto simp: ps_turn_def idle_turn_def block_turn_def invoke_turn_def string_turn_def buffered_turn_def go_def stop_def
      fail_with_def Let_def emit_pair update_pair put_text_def plus_out_def no_out_def put_args_def split: option.split sum.split)

end
