(* ===== verification/Tool_Meaning.thy ===== *)
theory Tool_Meaning
  imports Tool_Chunks
begin

text \<open>
  The transcript that a state of the tool-call parser would still complete does not change when a turn is done
  before more text arrives.
\<close>

section \<open>The meaning of a state\<close>

fun finish_turns :: "py_lib \<Rightarrow> bool \<Rightarrow> grammar \<Rightarrow> tool list \<Rightarrow> nat \<Rightarrow> ps_state \<Rightarrow> piece list \<Rightarrow> piece list result" where
  "finish_turns L fw g tools 0 s acc = Inr acc"
| "finish_turns L fw g tools (Suc n) s acc =
     (case ps_turn L fw g tools no_out s of
        (Again, d, s') \<Rightarrow> finish_turns L fw g tools n s' (add_out d acc)
      | (Halt, d, s') \<Rightarrow> Inr (add_text (fst (ps_finish g s')) (add_out d acc))
      | (Raised e, d, s') \<Rightarrow> Inl e)"

definition meaning :: "py_lib \<Rightarrow> bool \<Rightarrow> grammar \<Rightarrow> tool list \<Rightarrow> ps_state \<Rightarrow> piece list \<Rightarrow> piece list result" where
  "meaning L fw g tools s acc = finish_turns L fw g tools (Suc (length (ps_buffer s))) s acc"

definition arrive :: "utext \<Rightarrow> ps_state \<Rightarrow> ps_state" where
  "arrive x s = s\<lparr>ps_buffer := ps_buffer s @ x\<rparr>"

lemma arrive_simps [simp]:
  "ps_buffer (arrive x s) = ps_buffer s @ x" "ps_mode (arrive x s) = ps_mode s" "arrive [] s = s"
  "arrive y (arrive x s) = arrive (x @ y) s"
  by (simp_all add: arrive_def)

section \<open>What the tokens of a grammar promise\<close>

text \<open>A token starts with a character that it does not contain again, no closing token lies inside the opening
  tag that it competes with or the other way round, and a tag once found is found again when text arrives.\<close>

locale invoke_grammar =
  fixes g :: grammar
  assumes heads: "single_head (outer_open g)" "single_head (outer_close g)" "single_head (invoke_prefix g)"
      "single_head (invoke_close g)" "single_head (param_prefix g)" "single_head (param_close g)"
    and apart: "\<not> sublist (outer_close g) (invoke_prefix g)" "\<not> sublist (invoke_prefix g) (outer_close g)"
      "\<not> sublist (invoke_close g) (param_prefix g)" "\<not> sublist (param_prefix g) (invoke_close g)"
    and invoke_found: "re_search (invoke_tag g) t = Some r \<Longrightarrow> re_search (invoke_tag g) (t @ x) = Some r \<and> 0 < fst r \<and> fst r \<le> length t"
    and param_found: "re_search (param_tag g) t = Some r \<Longrightarrow> re_search (param_tag g) (t @ x) = Some r \<and> 0 < fst r \<and> fst r \<le> length t"
    and trim_apart: "hd (param_close g) \<notin> trim_chars g"
    and open_visible: "\<not> is_space (hd (outer_open g))"
begin

lemma nonempty: "outer_open g \<noteq> []" "outer_close g \<noteq> []" "invoke_prefix g \<noteq> []" "invoke_close g \<noteq> []" "param_prefix g \<noteq> []" "param_close g \<noteq> []"
  using heads by (auto simp: single_head_def)

lemma trim_shorter: "trim_leading g t \<noteq> t \<Longrightarrow> length (trim_leading g t) < length t"
  by (cases t) (auto simp: trim_leading_def less_Suc_eq_le length_dropWhile_le split: if_splits)

lemma turn_shrinks:
  assumes "ps_turn L fw g tools out s = (Again, d, s')"
  shows "length (ps_buffer s') < length (ps_buffer s)"
proof (cases "ps_buffer s = []")
  case True
  then show ?thesis using assms by (simp add: ps_turn_def stop_def)
next
  case False
  have inv: "0 < e \<and> e \<le> length (drop i (ps_buffer s))" if "re_search (invoke_tag g) (drop i (ps_buffer s)) = Some (e, r)" for i e r
    using invoke_found [OF that, of "[]"] by simp
  have par: "0 < e \<and> e \<le> length (drop i (ps_buffer s))" if "re_search (param_tag g) (drop i (ps_buffer s)) = Some (e, r)" for i e r
    using param_found [OF that, of "[]"] by simp
  show ?thesis
  proof (cases "ps_mode s")
    case Idle
    then show ?thesis using assms False nonempty by (auto simp: ps_turn_def idle_turn_def go_def stop_def fail_with_def Let_def split: option.splits if_splits)
  next
    case InBlock
    then show ?thesis using assms False nonempty
      by (auto simp: ps_turn_def block_turn_def go_def stop_def fail_with_def Let_def split: option.splits if_splits dest!: inv)
  next
    case Invoke
    then show ?thesis using assms False nonempty
      by (auto simp: ps_turn_def invoke_turn_def go_def stop_def fail_with_def Let_def emit_pair update_pair split: option.splits if_splits dest!: par)
  next
    case InvokeSkip
    then show ?thesis using assms False nonempty
      by (auto simp: ps_turn_def invoke_turn_def go_def stop_def fail_with_def Let_def emit_pair update_pair split: option.splits if_splits dest!: par)
  next
    case ParamStr
    then show ?thesis using assms False nonempty trim_shorter [of "ps_buffer s"]
      by (auto simp: ps_turn_def string_turn_def go_def stop_def fail_with_def Let_def emit_pair update_pair split: option.splits if_splits)
  next
    case ParamBuf
    then show ?thesis using assms False nonempty
      by (auto simp: ps_turn_def buffered_turn_def go_def stop_def fail_with_def Let_def emit_pair update_pair split: option.splits if_splits sum.splits)
  next
    case ParamSkip
    then show ?thesis using assms False nonempty
      by (auto simp: ps_turn_def buffered_turn_def go_def stop_def fail_with_def Let_def emit_pair update_pair split: option.splits if_splits sum.splits)
  qed
qed

lemma finish_fuel: "length (ps_buffer s) < n \<Longrightarrow> length (ps_buffer s) < m \<Longrightarrow>
    finish_turns L fw g tools n s acc = finish_turns L fw g tools m s acc"
proof (induction n arbitrary: m s acc)
  case (Suc n)
  obtain k where m: "m = Suc k" using Suc.prems(2) by (cases m) auto
  obtain v d s' where t: "ps_turn L fw g tools no_out s = (v, d, s')" by (cases "ps_turn L fw g tools no_out s")
  show ?case
  proof (cases v)
    case Again
    then have "length (ps_buffer s') < length (ps_buffer s)" using turn_shrinks [of L fw tools no_out s d s'] t by simp
    then have "length (ps_buffer s') < n" "length (ps_buffer s') < k" using Suc.prems m by simp_all
    from Suc.IH [OF this] show ?thesis using t Again m by simp
  qed (use t m in simp_all)
qed simp

lemma meaning_turn:
  assumes "ps_turn L fw g tools no_out s = (v, d, s')"
  shows "meaning L fw g tools s acc =
     (case v of
        Again \<Rightarrow> meaning L fw g tools s' (add_out d acc)
      | Halt \<Rightarrow> Inr (add_text (fst (ps_finish g s')) (add_out d acc))
      | Raised e \<Rightarrow> Inl e)"
  using assms turn_shrinks [of L fw tools no_out s d s'] finish_fuel [of s' "length (ps_buffer s)" "Suc (length (ps_buffer s'))"]
  by (auto simp: meaning_def split: verdict.split)

text \<open>A turn that goes on does the same when text has arrived behind its buffer.\<close>

lemma tag_drop:
  assumes "\<And>t r x. re_search m t = Some r \<Longrightarrow> re_search m (t @ x) = Some r \<and> 0 < fst r \<and> fst r \<le> length t"
    and "i \<le> length b" and "re_search m (drop i b) = Some (e, raw)"
  shows "re_search m (drop i (b @ x)) = Some (e, raw)" and "i + e \<le> length b"
proof -
  have "drop i (b @ x) = drop i b @ x" using assms(2) by simp
  then show "re_search m (drop i (b @ x)) = Some (e, raw)" using assms(1) [OF assms(3), of x] by simp
  have "e \<le> length (drop i b)" using assms(1) [OF assms(3), of "[]"] by simp
  then show "i + e \<le> length b" using assms(2) unfolding length_drop by linarith
qed

lemma found_at: "find_sub t b = Some i \<Longrightarrow> i + length t \<le> length b"
  using find_sub_split [of t b i] by (metis find_sub_Some append_take_drop_id length_append length_take min.absorb2 nat_add_left_cancel_le
      prefix_length_le length_drop le_add_diff_inverse)

lemma idle_arrives:
  assumes "idle_turn g no_out s = (Again, d, s')"
  shows "idle_turn g no_out (arrive x s) = (Again, d, arrive x s')"
proof -
  obtain pos where pos: "find_sub (outer_open g) (ps_buffer s) = Some pos"
    using assms by (auto simp: idle_turn_def go_def stop_def fail_with_def Let_def split: option.splits)
  note f = found_at [OF pos]
  show ?thesis using assms f find_sub_append [OF pos, of x] pos
    by (auto simp: idle_turn_def arrive_def go_def Let_def)
qed

lemma first_arrives:
  assumes "\<not> sublist a t" and "find_sub a b \<noteq> None \<and> (find_sub t b = None \<or> the (find_sub a b) < the (find_sub t b))"
  shows "find_sub a (b @ x) = find_sub a b" "find_sub t (b @ x) = None \<or> the (find_sub a b) < the (find_sub t (b @ x))"
proof -
  obtain c where c: "find_sub a b = Some c" using assms(2) by auto
  show "find_sub a (b @ x) = find_sub a b" using find_sub_append [OF c, of x] c by simp
  have "c < j" if "find_sub t b = Some j" for j using assms(2) c that by simp
  from stays_first [OF c this assms(1), of x] show "find_sub t (b @ x) = None \<or> the (find_sub a b) < the (find_sub t (b @ x))"
    using c by (cases "find_sub t (b @ x)") auto
qed

lemma not_same_place: "find_sub a b = Some i \<Longrightarrow> find_sub t b = Some i \<Longrightarrow> sublist a t \<or> sublist t a"
  by (metis find_sub_Some prefix_same_cases prefix_imp_sublist)

lemma block_arrives:
  assumes "block_turn fw g tools no_out s = (Again, d, s')"
  shows "block_turn fw g tools no_out (arrive x s) = (Again, d, arrive x s')"
proof -
  let ?b = "ps_buffer s" and ?cl = "find_sub (outer_close g)" and ?inv = "find_sub (invoke_prefix g)"
  show ?thesis
  proof (cases "?cl ?b \<noteq> None \<and> (?inv ?b = None \<or> the (?cl ?b) < the (?inv ?b))")
    case True
    note F = first_arrives [OF apart(1) True, of x]
    obtain c where c: "?cl ?b = Some c" using True by auto
    show ?thesis using assms True F c found_at [OF c] nonempty
      by (auto simp: block_turn_def arrive_def go_def Let_def)
  next
    case False
    obtain i where i: "?inv ?b = Some i" using assms False nonempty by (auto simp: block_turn_def stop_def Let_def split: option.splits)
    have "?inv ?b \<noteq> None \<and> (?cl ?b = None \<or> the (?inv ?b) < the (?cl ?b))"
      using False i not_same_place [OF i] apart by (cases "?cl ?b") (auto simp: not_less le_less)
    note F = first_arrives [OF apart(2) this, of x]
    have no: "\<not> (?cl (?b @ x) \<noteq> None \<and> (?inv (?b @ x) = None \<or> the (?cl (?b @ x)) < the (?inv (?b @ x))))" using F i by auto
    obtain e raw where e: "re_search (invoke_tag g) (drop i ?b) = Some (e, raw)"
      using assms False i nonempty by (auto simp: block_turn_def stop_def go_def Let_def split: option.splits)
    have il: "i \<le> length ?b" using found_at [OF i] by simp
    note T = tag_drop(1) [OF invoke_found il e, of x] tag_drop(2) [OF invoke_found il e]
    have "drop (i + e) (?b @ x) = drop (i + e) ?b @ x" using T(2) by simp
    then show ?thesis using assms False no i F(1) e T(1) nonempty
      by (auto simp: block_turn_def arrive_def go_def Let_def simp del: drop_append split: if_splits)
  qed
qed

lemma invoke_arrives:
  assumes "invoke_turn L g no_out s = (Again, d, s')"
  shows "invoke_turn L g no_out (arrive x s) = (Again, d, arrive x s')"
proof -
  let ?b = "ps_buffer s" and ?cl = "find_sub (invoke_close g)" and ?par = "find_sub (param_prefix g)"
  show ?thesis
  proof (cases "?cl ?b \<noteq> None \<and> (?par ?b = None \<or> the (?cl ?b) < the (?par ?b))")
    case True
    note F = first_arrives [OF apart(3) True, of x]
    obtain c where c: "?cl ?b = Some c" using True by auto
    show ?thesis using assms True F c found_at [OF c] nonempty
      by (auto simp: invoke_turn_def arrive_def go_def Let_def emit_pair update_pair)
  next
    case False
    obtain i where i: "?par ?b = Some i" using assms False by (auto simp: invoke_turn_def stop_def Let_def split: option.splits)
    have "?par ?b \<noteq> None \<and> (?cl ?b = None \<or> the (?par ?b) < the (?cl ?b))"
      using False i not_same_place [OF i] apart by (cases "?cl ?b") (auto simp: not_less le_less)
    note F = first_arrives [OF apart(4) this, of x]
    have no: "\<not> (?cl (?b @ x) \<noteq> None \<and> (?par (?b @ x) = None \<or> the (?cl (?b @ x)) < the (?par (?b @ x))))" using F i by auto
    obtain e raw where e: "re_search (param_tag g) (drop i ?b) = Some (e, raw)"
      using assms False i by (auto simp: invoke_turn_def stop_def go_def Let_def split: option.splits)
    have il: "i \<le> length ?b" using found_at [OF i] by simp
    note T = tag_drop(1) [OF param_found il e, of x] tag_drop(2) [OF param_found il e]
    have "drop (i + e) (?b @ x) = drop (i + e) ?b @ x" using T(2) by simp
    then show ?thesis using assms False no i F(1) e T(1)
      by (auto simp: invoke_turn_def arrive_def go_def Let_def emit_pair simp del: drop_append split: if_splits)
  qed
qed

lemma buffered_arrives:
  assumes "buffered_turn L g no_out s = (Again, d, s')"
  shows "buffered_turn L g no_out (arrive x s) = (Again, d, arrive x s')"
proof -
  obtain e where e: "find_sub (param_close g) (ps_buffer s) = Some e"
    using assms by (auto simp: buffered_turn_def stop_def Let_def split: option.splits)
  show ?thesis using assms e found_at [OF e] find_sub_append [OF e, of x]
    by (auto simp: buffered_turn_def arrive_def go_def fail_with_def Let_def emit_pair update_pair split: sum.splits if_splits)
qed

text \<open>An exception is raised by the value of a parameter that has closed, and the same value raises it later.\<close>

lemma raised_where:
  assumes "ps_turn L fw g tools out s = (Raised err, d, s')"
  obtains e where "ps_mode s = ParamBuf" "ps_buffer s \<noteq> []" "find_sub (param_close g) (ps_buffer s) = Some e"
    "rbind (ps_convert_value L g (ps_config s) (ps_key s) (trim_trailing g (trim_leading g (take e (ps_buffer s))))) json_dumps = Inl err"
  using assms
  by (cases "ps_mode s")
    (auto simp: ps_turn_def idle_turn_def block_turn_def invoke_turn_def string_turn_def buffered_turn_def go_def stop_def fail_with_def
      Let_def emit_pair update_pair split: option.splits if_splits sum.splits)

lemma raised_arrives:
  assumes "ps_turn L fw g tools no_out s = (Raised err, d, s')"
  shows "\<exists>d s'. ps_turn L fw g tools no_out (arrive x s) = (Raised err, d, s')"
proof -
  obtain e where e: "ps_mode s = ParamBuf" "ps_buffer s \<noteq> []" "find_sub (param_close g) (ps_buffer s) = Some e"
    "rbind (ps_convert_value L g (ps_config s) (ps_key s) (trim_trailing g (trim_leading g (take e (ps_buffer s))))) json_dumps = Inl err"
    using raised_where [OF assms] .
  then show ?thesis using found_at [OF e(3)] find_sub_append [OF e(3), of x]
    by (simp add: ps_turn_def buffered_turn_def Let_def fail_with_def arrive_def)
qed

end

end
