(* ===== verification/Tool_Confluence.thy ===== *)
theory Tool_Confluence
  imports Tool_Meaning
begin

text \<open>
  A turn of the tool-call parser, whether it goes on or stops to wait for more text, keeps the meaning of the
  state under every continuation of the text.
\<close>

section \<open>Trimming\<close>

lemma trim_leading_fixed: "b \<noteq> [] \<Longrightarrow> trim_leading g b = b \<longleftrightarrow> hd b \<notin> trim_chars g"
proof -
  have "dropWhile (\<lambda>c. c \<in> trim_chars g) b = b \<longleftrightarrow> hd b \<notin> trim_chars g" if "b \<noteq> []"
    using that hd_dropWhile [of "\<lambda>c. c \<in> trim_chars g" b] by (cases b) auto
  then show "b \<noteq> [] \<Longrightarrow> trim_leading g b = b \<longleftrightarrow> hd b \<notin> trim_chars g" by (cases b) (auto simp: trim_leading_def)
qed

lemma trim_leading_append:
  assumes "b \<noteq> []" and "trim_leading g b = b"
  shows "trim_leading g (b @ x) = b @ x"
  using assms trim_leading_fixed [of b g] trim_leading_fixed [of "b @ x" g] by simp

lemma rstrip_chars_append: "R \<noteq> [] \<Longrightarrow> last R \<notin> cs \<Longrightarrow> rstrip_chars cs (R @ t) = R @ rstrip_chars cs t"
  by (cases R rule: rev_cases) (auto simp: rstrip_chars_def dropWhile_append)

lemma rstrip_chars_last: "rstrip_chars cs t \<noteq> [] \<Longrightarrow> last (rstrip_chars cs t) \<notin> cs"
  using hd_dropWhile [of "\<lambda>c. c \<in> cs" "rev t"] by (auto simp: rstrip_chars_def last_rev)

lemma rstrip_chars_prefix: "take (length (rstrip_chars cs t)) t = rstrip_chars cs t"
proof -
  have "t = rstrip_chars cs t @ rev (takeWhile (\<lambda>c. c \<in> cs) (rev t))"
    unfolding rstrip_chars_def by (metis rev_append rev_rev_ident takeWhile_dropWhile_id)
  then show ?thesis by (metis append_eq_conv_conj)
qed

lemma rstrip_chars_le: "length (rstrip_chars cs t) \<le> length t"
  by (simp add: rstrip_chars_def) (metis length_dropWhile_le length_rev)

lemma trim_trailing_append: "R \<noteq> [] \<Longrightarrow> last R \<notin> trim_chars g \<Longrightarrow> trim_trailing g (R @ t) = R @ trim_trailing g t"
  by (auto simp: trim_trailing_def rstrip_chars_append butlast_append last_append)

section \<open>Fragments\<close>

lemma keep_args_append: "keep_args (a @ b) s = keep_args b (keep_args a s)"
  by (cases "nat (tool_id s) < length (streamed_args s)") (auto simp: keep_args_def list_update_beyond)

lemma put_args_append: "add_out (put_args i (a @ b) no_out) acc = add_out (put_args i b no_out) (add_out (put_args i a no_out) acc)"
  by (auto simp: put_add split: list.splits piece.splits)

lemma json_escape_append: "json_escape (a @ b) = json_escape a @ json_escape b"
  by (simp add: json_escape_def)

lemma json_escape_nil [simp]: "json_escape [] = []"
  by (simp add: json_escape_def)

lemma json_escape_empty: "json_escape t = [] \<longleftrightarrow> t = []"
  by (cases t) (auto simp: json_escape_def json_escape_char_def)

context invoke_grammar begin

lemma finish_busy: "ps_mode s \<noteq> Idle \<Longrightarrow> fst (ps_finish g s) = []"
  by (simp add: ps_finish_def Let_def)

lemma meaning_stop: "ps_turn L fw g tools no_out s = (Halt, d, s') \<Longrightarrow> ps_mode s' \<noteq> Idle \<Longrightarrow> meaning L fw g tools s acc = Inr (add_out d acc)"
  by (simp add: meaning_turn finish_busy)

lemma meaning_go: "ps_turn L fw g tools no_out s = (Again, d, s') \<Longrightarrow> meaning L fw g tools s acc = meaning L fw g tools s' (add_out d acc)"
  by (simp add: meaning_turn)

section \<open>Waiting outside the blocks\<close>

lemma found_in_rest:
  assumes one: "single_head tok" and none: "find_sub tok (R @ B) = None" and hold: "ends_with_partial_token (R @ B) tok \<le> length B"
  shows "find_sub tok (R @ B @ x) = map_option ((+) (length R)) (find_sub tok (B @ x))"
    and "ends_with_partial_token (R @ B @ x) tok = ends_with_partial_token (B @ x) tok"
proof -
  have h: "holds_back tok (R @ B) (length B)" by (rule partial_holds [OF one hold])
  show "find_sub tok (R @ B @ x) = map_option ((+) (length R)) (find_sub tok (B @ x))"
    by (rule find_in_buffer [OF _ h]) (use one none in \<open>simp_all add: contains_def single_head_def\<close>)
  show "ends_with_partial_token (R @ B @ x) tok = ends_with_partial_token (B @ x) tok" by (rule partial_after [OF one h])
qed

lemma idle_waits:
  assumes mode: "ps_mode s = Idle" and none: "find_sub (outer_open g) (R @ B) = None"
    and hold: "ends_with_partial_token (R @ B) (outer_open g) \<le> length B"
  shows "meaning L fw g tools (s\<lparr>ps_buffer := R @ B @ x\<rparr>) acc = meaning L fw g tools (s\<lparr>ps_buffer := B @ x\<rparr>) (add_text R acc)"
proof (cases "R = []")
  case False
  define T where "T = B @ x"
  note F = found_in_rest [OF heads(1) none hold, of x, folded T_def]
  let ?s = "\<lambda>b. s\<lparr>ps_buffer := b\<rparr>"
  have turn: "ps_turn L fw g tools no_out (?s b) = idle_turn g no_out (?s b)" if "b \<noteq> []" for b
    using mode that by (simp add: ps_turn_def)
  have "meaning L fw g tools (?s (R @ T)) acc = meaning L fw g tools (?s T) (add_text R acc)"
  proof (cases "find_sub (outer_open g) T")
    case None
    define h where "h = ends_with_partial_token T (outer_open g)"
    have le: "h \<le> length T" unfolding h_def by (rule partial_le [OF heads(1)])
    have cut: "take (length (R @ T) - h) (R @ T) = R @ take (length T - h) T" using le by (simp add: le_diff_conv2)
    have rest: "drop (length (R @ T) - h) (R @ T) = drop (length T - h) T" using le by (simp add: le_diff_conv2)
    have L: "ps_turn L fw g tools no_out (?s (R @ T)) =
        (Halt, put_text (R @ take (length T - h) T) no_out, ?s (drop (length T - h) T))"
      using turn [of "R @ T"] False F None cut rest unfolding h_def [symmetric]
      by (simp add: idle_turn_def stop_def Let_def h_def [symmetric])
    have "meaning L fw g tools (?s T) (add_text R acc) =
        Inr (add_text (fst (ps_finish g (?s (drop (length T - h) T)))) (add_text (take (length T - h) T) (add_text R acc)))"
    proof (cases "T = []")
      case True
      then have "ps_turn L fw g tools no_out (?s T) = (Halt, no_out, ?s T)" by (simp add: ps_turn_def stop_def)
      from meaning_turn [OF this] True show ?thesis by (simp add: h_def)
    next
      case ne: False
      have "ps_turn L fw g tools no_out (?s T) = (Halt, put_text (take (length T - h) T) no_out, ?s (drop (length T - h) T))"
        using turn [OF ne] None by (simp add: idle_turn_def stop_def Let_def h_def [symmetric])
      from meaning_turn [OF this] show ?thesis by (simp add: put_text_def add_out_def no_out_def)
    qed
    moreover note meaning_turn [OF L, of acc]
    ultimately show ?thesis by (simp add: put_text_def add_out_def no_out_def)
  next
    case (Some c)
    have c: "c + length (outer_open g) \<le> length T" by (rule found_at [OF Some])
    have ne: "T \<noteq> []" using c nonempty by auto
    have L: "ps_turn L fw g tools no_out (?s (R @ T)) = (Again, put_text (R @ take c T) no_out, ?s (drop c T))"
      using turn [of "R @ T"] False F Some by (simp add: idle_turn_def go_def Let_def)
    show ?thesis
    proof (cases "c = 0")
      case True
      then show ?thesis using meaning_go [OF L, of acc] by (simp add: put_text_def add_out_def no_out_def)
    next
      case pos: False
      have "ps_turn L fw g tools no_out (?s T) = (Again, put_text (take c T) no_out, ?s (drop c T))"
        using turn [OF ne] Some pos by (simp add: idle_turn_def go_def Let_def)
      from meaning_go [OF this] show ?thesis using meaning_go [OF L, of acc] by (simp add: put_text_def add_out_def no_out_def)
    qed
  qed
  then show ?thesis unfolding T_def .
qed simp

section \<open>Waiting inside the blocks\<close>

definition same_turn :: "turn \<Rightarrow> turn \<Rightarrow> bool" where
  "same_turn a b \<longleftrightarrow> (case a of (on, d, s) \<Rightarrow> case b of (on', d', s') \<Rightarrow>
     on = on' \<and> d = d' \<and> (if on = Again then s = s' else ps_mode s \<noteq> Idle \<and> ps_mode s' \<noteq> Idle))"

lemma meaning_same:
  assumes "same_turn (ps_turn L fw g tools no_out s) (ps_turn L fw g tools no_out t)"
  shows "meaning L fw g tools s acc = meaning L fw g tools t acc"
proof -
  obtain v d s' where v: "ps_turn L fw g tools no_out s = (v, d, s')" by (cases "ps_turn L fw g tools no_out s")
  obtain w e t' where w: "ps_turn L fw g tools no_out t = (w, e, t')" by (cases "ps_turn L fw g tools no_out t")
  show ?thesis using assms meaning_turn [OF v, of acc] meaning_turn [OF w, of acc] v w finish_busy [of s'] finish_busy [of t']
    by (cases v) (auto simp: same_turn_def)
qed

lemma block_waits:
  assumes mode: "ps_mode s = InBlock" and none: "find_sub (outer_close g) (R @ B) = None" "find_sub (invoke_prefix g) (R @ B) = None"
    and hold: "ends_with_partial_token (R @ B) (outer_close g) \<le> length B" "ends_with_partial_token (R @ B) (invoke_prefix g) \<le> length B"
  shows "meaning L fw g tools (s\<lparr>ps_buffer := R @ B @ x\<rparr>) acc = meaning L fw g tools (s\<lparr>ps_buffer := B @ x\<rparr>) acc"
proof -
  define T where "T = B @ x"
  note C = found_in_rest(1) [OF heads(2) none(1) hold(1), of x, folded T_def]
    and I = found_in_rest(1) [OF heads(3) none(2) hold(2), of x, folded T_def]
  have "same_turn (ps_turn L fw g tools no_out (s\<lparr>ps_buffer := R @ T\<rparr>)) (ps_turn L fw g tools no_out (s\<lparr>ps_buffer := T\<rparr>))"
  proof (cases "T = []")
    case True
    then have "find_sub (outer_close g) T = None" "find_sub (invoke_prefix g) T = None" using nonempty by (simp_all add: find_sub_def)
    then show ?thesis using mode C I True nonempty
      by (auto simp: same_turn_def ps_turn_def block_turn_def stop_def Let_def)
  next
    case False
    then show ?thesis using mode C I nonempty
      by (cases "find_sub (outer_close g) T"; cases "find_sub (invoke_prefix g) T")
        (auto simp: same_turn_def ps_turn_def block_turn_def stop_def go_def fail_with_def Let_def split: option.split)
  qed
  then show ?thesis unfolding T_def by (rule meaning_same)
qed

lemma invoke_waits:
  assumes mode: "ps_mode s = Invoke \<or> ps_mode s = InvokeSkip"
    and none: "find_sub (invoke_close g) (R @ B) = None" "find_sub (param_prefix g) (R @ B) = None"
    and hold: "ends_with_partial_token (R @ B) (invoke_close g) \<le> length B" "ends_with_partial_token (R @ B) (param_prefix g) \<le> length B"
  shows "meaning L fw g tools (s\<lparr>ps_buffer := R @ B @ x\<rparr>) acc = meaning L fw g tools (s\<lparr>ps_buffer := B @ x\<rparr>) acc"
proof -
  define T where "T = B @ x"
  note C = found_in_rest(1) [OF heads(4) none(1) hold(1), of x, folded T_def]
    and I = found_in_rest(1) [OF heads(5) none(2) hold(2), of x, folded T_def]
  have turn: "ps_turn L fw g tools no_out (s\<lparr>ps_buffer := b\<rparr>) = invoke_turn L g no_out (s\<lparr>ps_buffer := b\<rparr>)" if "b \<noteq> []" for b
    using mode that by (auto simp: ps_turn_def)
  have "same_turn (ps_turn L fw g tools no_out (s\<lparr>ps_buffer := R @ T\<rparr>)) (ps_turn L fw g tools no_out (s\<lparr>ps_buffer := T\<rparr>))"
  proof (cases "T = []")
    case True
    then have "find_sub (invoke_close g) T = None" "find_sub (param_prefix g) T = None" using nonempty by (simp_all add: find_sub_def)
    then have "same_turn (invoke_turn L g no_out (s\<lparr>ps_buffer := R @ T\<rparr>)) (Halt, no_out, s\<lparr>ps_buffer := T\<rparr>)"
      using mode C I by (auto simp: same_turn_def invoke_turn_def stop_def Let_def)
    then show ?thesis using True turn [of "R @ T"] mode
      by (cases "R = []") (auto simp: ps_turn_def stop_def same_turn_def)
  next
    case False
    have "same_turn (invoke_turn L g no_out (s\<lparr>ps_buffer := R @ T\<rparr>)) (invoke_turn L g no_out (s\<lparr>ps_buffer := T\<rparr>))"
      using mode C I
      by (cases "find_sub (invoke_close g) T"; cases "find_sub (param_prefix g) T")
        (auto simp: same_turn_def invoke_turn_def stop_def go_def fail_with_def Let_def emit_pair update_pair split: option.split)
    then show ?thesis using turn [of T] turn [of "R @ T"] False by simp
  qed
  then show ?thesis unfolding T_def by (rule meaning_same)
qed

section \<open>Waiting inside a string value\<close>

lemma string_flag:
  assumes "ps_mode s = ParamStr" and "ps_buffer s \<noteq> []" and "ps_lead_trimmed s \<or> trim_leading g (ps_buffer s) = ps_buffer s"
  shows "meaning L fw g tools s acc = meaning L fw g tools (s\<lparr>ps_lead_trimmed := True\<rparr>) acc"
proof -
  have "s\<lparr>ps_lead_trimmed := True\<rparr> = s" if "ps_lead_trimmed s" using that by (cases s) simp
  then have "string_turn L g no_out s = string_turn L g no_out (s\<lparr>ps_lead_trimmed := True\<rparr>)"
    using assms by (auto simp: string_turn_def Let_def)
  then have "ps_turn L fw g tools no_out s = ps_turn L fw g tools no_out (s\<lparr>ps_lead_trimmed := True\<rparr>)"
    using assms by (simp add: ps_turn_def)
  then show ?thesis using meaning_turn [of L fw tools s] meaning_turn [of L fw tools "s\<lparr>ps_lead_trimmed := True\<rparr>"]
    by (cases "ps_turn L fw g tools no_out s") metis
qed

lemma string_trims:
  assumes mode: "ps_mode s = ParamStr" and lead: "\<not> ps_lead_trimmed s" "trim_leading g b \<noteq> b"
  shows "meaning L fw g tools (s\<lparr>ps_buffer := b @ x\<rparr>) acc =
    meaning L fw g tools (s\<lparr>ps_buffer := trim_leading g b @ x,
      ps_lead_trimmed := (if trim_single g \<or> trim_leading g b \<noteq> [] then True else False)\<rparr>) acc"
proof -
  have ne: "b \<noteq> []" using lead(2) by (auto simp: trim_leading_def)
  have b: "b \<noteq> []" "hd b \<in> trim_chars g" using lead(2) trim_leading_fixed [OF ne, of g] ne by simp_all
  let ?fl = "\<lambda>t. if trim_single g \<or> t \<noteq> [] then True else False"
  have step: "meaning L fw g tools (s\<lparr>ps_buffer := c\<rparr>) acc =
      meaning L fw g tools (s\<lparr>ps_buffer := trim_leading g c, ps_lead_trimmed := ?fl (trim_leading g c)\<rparr>) acc"
    if c: "c \<noteq> []" "trim_leading g c \<noteq> c" for c
  proof -
    have "ps_turn L fw g tools no_out (s\<lparr>ps_buffer := c\<rparr>) =
        (Again, no_out, s\<lparr>ps_buffer := trim_leading g c, ps_lead_trimmed := ?fl (trim_leading g c)\<rparr>)"
      using mode lead(1) c by (auto simp: ps_turn_def string_turn_def go_def Let_def)
    from meaning_go [OF this] show ?thesis by simp
  qed
  have bx: "trim_leading g (b @ x) \<noteq> b @ x" using b trim_leading_fixed [of "b @ x" g] by simp
  show ?thesis
  proof (cases "trim_single g \<or> trim_leading g b \<noteq> []")
    case True
    have "trim_leading g (b @ x) = trim_leading g b @ x" 
      using b True by (auto simp: trim_leading_def dropWhile_append)
    then show ?thesis using step [OF _ bx] b True by auto
  next
    case False
    have e: "trim_leading g b = []" "trim_leading g (b @ x) = trim_leading g x" using False b by (auto simp: trim_leading_def dropWhile_append)
    have off: "s\<lparr>ps_buffer := t, ps_lead_trimmed := False\<rparr> = s\<lparr>ps_buffer := t\<rparr>" for t using lead(1) by (cases s) simp
    have "meaning L fw g tools (s\<lparr>ps_buffer := x\<rparr>) acc =
        meaning L fw g tools (s\<lparr>ps_buffer := trim_leading g x, ps_lead_trimmed := ?fl (trim_leading g x)\<rparr>) acc"
    proof (cases "x = []")
      case True
      then show ?thesis using off False by (simp add: trim_leading_def)
    next
      case ne: False
      show ?thesis
      proof (cases "trim_leading g x = x")
        case True
        then show ?thesis using string_flag [of "s\<lparr>ps_buffer := x\<rparr>"] mode ne by simp
      qed (rule step [OF ne])
    qed
    then show ?thesis using step [OF _ bx] b False e off by simp
  qed
qed

lemma string_arrives:
  assumes "string_turn L g no_out s = (Again, d, s')" and "ps_lead_trimmed s \<or> trim_leading g (ps_buffer s) = ps_buffer s"
  shows "string_turn L g no_out (arrive x s) = (Again, d, arrive x s')"
proof -
  obtain e where e: "find_sub (param_close g) (ps_buffer s) = Some e"
    using assms by (auto simp: string_turn_def stop_def Let_def emit_pair split: option.splits if_splits)
  have ne: "ps_buffer s \<noteq> []" using found_at [OF e] nonempty by auto
  have "ps_lead_trimmed s \<or> trim_leading g (ps_buffer s @ x) = ps_buffer s @ x"
    using assms(2) trim_leading_append [OF ne] by blast
  then show ?thesis using assms e found_at [OF e] find_sub_append [OF e, of x] ne
    by (auto simp: string_turn_def arrive_def go_def Let_def emit_pair update_pair)
qed

lemma string_none:
  assumes lead: "ps_lead_trimmed s" and none: "find_sub (param_close g) b = None" and b: "ps_buffer s = b"
    and safe: "rstrip_chars (trim_chars g) (take (length b - ends_with_partial_token b (param_close g)) b) = safe"
  shows "string_turn L g no_out s =
    (Halt, put_args (tool_id s) (json_escape safe) no_out, (keep_args (json_escape safe) s)\<lparr>ps_buffer := drop (length safe) b\<rparr>)"
proof -
  have now: "take (length t - (length t - length (rstrip_chars cs t))) t = rstrip_chars cs t" for t :: utext and cs
    using rstrip_chars_prefix [of cs t] rstrip_chars_le [of cs t] by simp
  have flag: "s\<lparr>ps_lead_trimmed := True\<rparr> = s" "s\<lparr>ps_buffer := b\<rparr> = s" using lead b by (cases s; simp)+
  have "string_turn L g no_out s =
      (if safe \<noteq> [] then stop (put_args (tool_id s) (json_escape safe) no_out, (keep_args (json_escape safe) s)\<lparr>ps_buffer := drop (length safe) b\<rparr>)
       else stop (no_out, s))"
    by (simp only: string_turn_def Let_def b none lead flag(1) option.case now safe emit_pair prod.case simp_thms if_False)
  then show ?thesis using flag(2) by (auto simp: stop_def put_args_def keep_args_def)
qed

lemma string_waits:
  assumes mode: "ps_mode s = ParamStr" and lead: "ps_lead_trimmed s" and R: "R \<noteq> []" "last R \<notin> trim_chars g"
    and none: "find_sub (param_close g) (R @ B) = None" and hold: "ends_with_partial_token (R @ B) (param_close g) \<le> length B"
  shows "meaning L fw g tools (s\<lparr>ps_buffer := R @ B @ x\<rparr>) acc =
    meaning L fw g tools ((keep_args (json_escape R) s)\<lparr>ps_buffer := B @ x\<rparr>) (add_out (put_args (tool_id s) (json_escape R) no_out) acc)"
proof -
  define T where "T = B @ x"
  note F = found_in_rest [OF heads(6) none hold, of x, folded T_def]
  let ?k = "keep_args (json_escape R) s" and ?acc = "add_out (put_args (tool_id s) (json_escape R) no_out) acc"
  have turn: "ps_turn L fw g tools no_out (t\<lparr>ps_buffer := b\<rparr>) = string_turn L g no_out (t\<lparr>ps_buffer := b\<rparr>)"
    if "ps_mode t = ParamStr" "b \<noteq> []" for t b using that by (simp add: ps_turn_def)
  have flag: "t\<lparr>ps_lead_trimmed := True\<rparr> = t" if "ps_lead_trimmed t" for t :: ps_state using that by (cases t) simp
  have "meaning L fw g tools (s\<lparr>ps_buffer := R @ T\<rparr>) acc = meaning L fw g tools (?k\<lparr>ps_buffer := T\<rparr>) ?acc"
  proof (cases "find_sub (param_close g) T")
    case None
    define h where "h = ends_with_partial_token T (param_close g)"
    have le: "h \<le> length T" unfolding h_def by (rule partial_le [OF heads(6)])
    define safe where "safe = rstrip_chars (trim_chars g) (take (length T - h) T)"
    have cut: "take (length (R @ T) - h) (R @ T) = R @ take (length T - h) T" using le by (simp add: le_diff_conv2)
    have strip: "rstrip_chars (trim_chars g) (R @ take (length T - h) T) = R @ safe" unfolding safe_def by (rule rstrip_chars_append [OF R])
    have holdR: "ends_with_partial_token (R @ T) (param_close g) = h" using F(2) h_def by simp
    have noneR: "find_sub (param_close g) (R @ T) = None" using F(1) None by simp
    have "string_turn L g no_out (s\<lparr>ps_buffer := R @ T\<rparr>) =
        (Halt, put_args (tool_id s) (json_escape (R @ safe)) no_out, (keep_args (json_escape (R @ safe)) s)\<lparr>ps_buffer := drop (length (R @ safe)) (R @ T)\<rparr>)"
      using string_none [of "s\<lparr>ps_buffer := R @ T\<rparr>" "R @ T" "R @ safe" L] lead noneR holdR cut strip
      by (simp del: take_append length_append drop_append)
    then have L: "meaning L fw g tools (s\<lparr>ps_buffer := R @ T\<rparr>) acc = Inr (add_out (put_args (tool_id s) (json_escape (R @ safe)) no_out) acc)"
      using meaning_stop [of L fw tools "s\<lparr>ps_buffer := R @ T\<rparr>"] turn [OF mode, of "R @ T"] R(1) mode by simp
    have "meaning L fw g tools (?k\<lparr>ps_buffer := T\<rparr>) ?acc = Inr (add_out (put_args (tool_id s) (json_escape safe) no_out) ?acc)"
    proof (cases "T = []")
      case True
      then have "ps_turn L fw g tools no_out (?k\<lparr>ps_buffer := T\<rparr>) = (Halt, no_out, ?k\<lparr>ps_buffer := T\<rparr>)" by (simp add: ps_turn_def stop_def)
      from meaning_stop [OF this] mode True show ?thesis by (simp add: safe_def rstrip_chars_def put_args_def)
    next
      case False
      have "string_turn L g no_out (?k\<lparr>ps_buffer := T\<rparr>) =
          (Halt, put_args (tool_id s) (json_escape safe) no_out, (keep_args (json_escape safe) ?k)\<lparr>ps_buffer := drop (length safe) T\<rparr>)"
        using string_none [of "?k\<lparr>ps_buffer := T\<rparr>" T safe L] lead None by (simp add: h_def [symmetric] safe_def)
      then show ?thesis
        using meaning_stop [of L fw tools "?k\<lparr>ps_buffer := T\<rparr>"] turn [of ?k T] False mode by simp
    qed
    then show ?thesis using L by (simp add: json_escape_append put_args_append)
  next
    case (Some c)
    have c: "c + length (param_close g) \<le> length T" by (rule found_at [OF Some])
    have ne: "T \<noteq> []" using c nonempty by auto
    define t where "t = json_escape (trim_trailing g (take c T)) @ [34]"
    have tail: "json_escape (trim_trailing g (take (length R + c) (R @ T))) @ [34] = json_escape R @ t"
      by (simp add: t_def trim_trailing_append [OF R] json_escape_append)
    have L: "string_turn L g no_out (s\<lparr>ps_buffer := R @ T\<rparr>) =
        (Again, put_args (tool_id s) (json_escape R @ t) no_out,
         (note_args L (keep_args (json_escape R @ t) s))\<lparr>ps_buffer := drop (c + length (param_close g)) T, ps_mode := Invoke\<rparr>)"
      using lead F(1) Some R(1) flag [of "s\<lparr>ps_buffer := R @ T\<rparr>"]
      by (simp add: string_turn_def Let_def tail go_def emit_pair update_pair del: take_append)
    have K: "string_turn L g no_out (?k\<lparr>ps_buffer := T\<rparr>) =
        (Again, put_args (tool_id s) t no_out,
         (note_args L (keep_args t ?k))\<lparr>ps_buffer := drop (c + length (param_close g)) T, ps_mode := Invoke\<rparr>)"
      using lead Some ne flag [of "?k\<lparr>ps_buffer := T\<rparr>"]
      by (simp add: string_turn_def Let_def t_def [symmetric] go_def emit_pair update_pair)
    show ?thesis
      using meaning_go [of L fw tools "s\<lparr>ps_buffer := R @ T\<rparr>"] meaning_go [of L fw tools "?k\<lparr>ps_buffer := T\<rparr>"]
        turn [OF mode, of "R @ T"] turn [of ?k T] ne R(1) mode L K
      by (simp add: keep_args_append put_args_append)
  qed
  then show ?thesis unfolding T_def .
qed

end

end
