(* ===== verification/Tool_Runs.thy ===== *)
theory Tool_Runs
  imports Tool_Confluence
begin

text \<open>
  Streams of chunks through the tool-call parser: the events of a stream, completed by what finishing gives, are
  the meaning of the whole text.
\<close>

context invoke_grammar begin

section \<open>A turn before and after the arrival of text\<close>

lemma turn_text: "ps_turn L fw g tools no_out s = (on, d, s') \<Longrightarrow> ps_mode s \<noteq> Idle \<Longrightarrow> out_text d = []"
  by (cases "ps_mode s")
    (auto simp: ps_turn_def block_turn_def invoke_turn_def string_turn_def buffered_turn_def go_def stop_def fail_with_def Let_def
      emit_pair update_pair no_out_def put_args_def split: option.splits if_splits sum.splits)

lemma go_keeps_meaning:
  assumes turn: "ps_turn L fw g tools no_out s = (Again, d, s')"
  shows "meaning L fw g tools (arrive x s) acc = meaning L fw g tools (arrive x s') (add_out d acc)"
proof -
  have ne: "ps_buffer s \<noteq> []" using turn by (auto simp: ps_turn_def stop_def)
  show ?thesis
  proof (cases "ps_mode s = ParamStr \<and> \<not> ps_lead_trimmed s \<and> trim_leading g (ps_buffer s) \<noteq> ps_buffer s")
    case True
    then have "d = no_out" "arrive x s' = s\<lparr>ps_buffer := trim_leading g (ps_buffer s) @ x,
        ps_lead_trimmed := (if trim_single g \<or> trim_leading g (ps_buffer s) \<noteq> [] then True else False)\<rparr>"
      using turn ne by (auto simp: ps_turn_def string_turn_def go_def Let_def arrive_def)
    moreover have "arrive x s = s\<lparr>ps_buffer := ps_buffer s @ x\<rparr>" by (simp add: arrive_def)
    ultimately show ?thesis using string_trims [of s "ps_buffer s" L fw tools x acc] True by simp
  next
    case False
    have "ps_turn L fw g tools no_out (arrive x s) = (Again, d, arrive x s')"
      using turn ne False idle_arrives [of s d s' x] block_arrives [of fw tools s d s' x] invoke_arrives [of L s d s' x]
        buffered_arrives [of L s d s' x] string_arrives [of L s d s' x]
      by (cases "ps_mode s") (auto simp: ps_turn_def)
    from meaning_go [OF this] show ?thesis .
  qed
qed

lemma junk_split: "drop (length b - n) b = B \<Longrightarrow> n \<le> length b \<Longrightarrow> \<exists>R. b = R @ B \<and> length B = n"
  by (intro exI [of _ "take (length b - n) b"]) auto

lemma invoke_stops:
  assumes turn: "ps_turn L fw g tools no_out s = (Halt, d, s')" and ne: "ps_buffer s \<noteq> []"
    and mode: "ps_mode s = Invoke \<or> ps_mode s = InvokeSkip"
  shows "meaning L fw g tools (arrive x s) acc = meaning L fw g tools (arrive x s') (add_out d acc)"
proof -
  let ?b = "ps_buffer s"
  let ?h = "max (ends_with_partial_token ?b (param_prefix g)) (ends_with_partial_token ?b (invoke_close g))"
  have le: "?h \<le> length ?b" using partial_le [OF heads(5), of ?b] partial_le [OF heads(4), of ?b] by simp
  have inv: "invoke_turn L g no_out s = (Halt, d, s')" using turn ne mode by (auto simp: ps_turn_def)
  have d: "d = no_out" using inv by (auto simp: invoke_turn_def go_def stop_def fail_with_def Let_def emit_pair update_pair split: option.splits if_splits)
  show ?thesis
  proof (cases "find_sub (param_prefix g) ?b = None \<and> 0 < length ?b - ?h")
    case True
    then have close: "find_sub (invoke_close g) ?b = None" using inv
      by (auto simp: invoke_turn_def go_def stop_def fail_with_def Let_def emit_pair update_pair split: option.splits if_splits)
    have s': "s' = s\<lparr>ps_buffer := drop (length ?b - ?h) ?b\<rparr>"
      using inv True close by (auto simp: invoke_turn_def stop_def Let_def)
    obtain R B where R: "?b = R @ B" "length B = ?h" "drop (length ?b - ?h) ?b = B" using junk_split [OF refl le] by metis
    have "meaning L fw g tools (s\<lparr>ps_buffer := R @ B @ x\<rparr>) acc = meaning L fw g tools (s\<lparr>ps_buffer := B @ x\<rparr>) acc"
      by (rule invoke_waits [OF mode]) (use close True R in \<open>simp_all del: length_append\<close>)
    then show ?thesis using R d s' by (simp add: arrive_def)
  next
    case False
    then have "s' = s" using inv by (auto simp: invoke_turn_def go_def stop_def fail_with_def Let_def emit_pair update_pair split: option.splits if_splits)
    then show ?thesis using d by simp
  qed
qed

lemma string_stops:
  assumes turn: "ps_turn L fw g tools no_out s = (Halt, d, s')" and ne: "ps_buffer s \<noteq> []" and mode: "ps_mode s = ParamStr"
  shows "meaning L fw g tools (arrive x s) acc = meaning L fw g tools (arrive x s') (add_out d acc)"
proof -
  let ?b = "ps_buffer s" and ?t = "s\<lparr>ps_lead_trimmed := True\<rparr>"
  have str: "string_turn L g no_out s = (Halt, d, s')" using turn ne mode by (simp add: ps_turn_def)
  have lead: "ps_lead_trimmed s \<or> trim_leading g ?b = ?b" and none: "find_sub (param_close g) ?b = None"
    using str by (auto simp: string_turn_def go_def Let_def emit_pair update_pair split: option.splits if_splits)
  have flag: "?t = s" if "ps_lead_trimmed s" using that by (cases s) simp
  have same: "string_turn L g no_out ?t = (Halt, d, s')" using str lead ne flag by (auto simp: string_turn_def Let_def)
  define h where "h = ends_with_partial_token ?b (param_close g)"
  have h: "h \<le> length ?b" unfolding h_def by (rule partial_le [OF heads(6)])
  define R where "R = rstrip_chars (trim_chars g) (take (length ?b - h) ?b)"
  define B where "B = drop (length R) ?b"
  have "take (length R) (take (length ?b - h) ?b) = R" unfolding R_def by (rule rstrip_chars_prefix)
  moreover have Rl: "length R \<le> length ?b - h" unfolding R_def using rstrip_chars_le [of "trim_chars g" "take (length ?b - h) ?b"] by simp
  ultimately have b: "?b = R @ B" unfolding B_def by (metis append_take_drop_id min.absorb1 take_take)
  have "h \<le> length B" using Rl h unfolding B_def length_drop by linarith
  then have hold: "ends_with_partial_token (R @ B) (param_close g) \<le> length B" unfolding h_def b [symmetric] .
  have d: "d = put_args (tool_id s) (json_escape R) no_out" "s' = (keep_args (json_escape R) ?t)\<lparr>ps_buffer := B\<rparr>"
    using string_none [of ?t ?b R L] none same by (simp_all add: R_def h_def B_def)
  have "meaning L fw g tools (arrive x s) acc = meaning L fw g tools (?t\<lparr>ps_buffer := ?b @ x\<rparr>) acc"
  proof -
    have eq: "(arrive x s)\<lparr>ps_lead_trimmed := True\<rparr> = ?t\<lparr>ps_buffer := ?b @ x\<rparr>" by (cases s) (simp add: arrive_def)
    have "ps_lead_trimmed (arrive x s) \<or> trim_leading g (ps_buffer (arrive x s)) = ps_buffer (arrive x s)"
      using lead trim_leading_append [OF ne, of g x] by (auto simp: arrive_def)
    from string_flag [OF _ _ this, unfolded eq] show ?thesis using mode ne by simp
  qed
  also have "\<dots> = meaning L fw g tools (arrive x s') (add_out d acc)"
  proof (cases "R = []")
    case True
    then show ?thesis using d b by (simp add: arrive_def put_args_def keep_args_def)
  next
    case False
    have "last R \<notin> trim_chars g" using rstrip_chars_last False unfolding R_def by blast
    from string_waits [of ?t, OF _ _ False this _ hold, of L fw tools x acc] show ?thesis
      using mode none b d by (simp add: arrive_def)
  qed
  finally show ?thesis .
qed

lemma stop_keeps_meaning:
  assumes turn: "ps_turn L fw g tools no_out s = (Halt, d, s')"
  shows "meaning L fw g tools (arrive x s) acc = meaning L fw g tools (arrive x s') (add_out d acc)"
proof (cases "ps_buffer s = []")
  case True
  then show ?thesis using turn by (auto simp: ps_turn_def stop_def)
next
  case ne: False
  let ?b = "ps_buffer s"
  have buf: "arrive x s = s\<lparr>ps_buffer := ?b @ x\<rparr>" by (simp add: arrive_def)
  have same: ?thesis if "d = no_out" "s' = s" using that by simp
  show ?thesis
  proof (cases "ps_mode s")
    case Idle
    then have none: "find_sub (outer_open g) ?b = None" using turn ne
      by (auto simp: ps_turn_def idle_turn_def go_def stop_def fail_with_def Let_def split: option.splits if_splits)
    define h where "h = ends_with_partial_token ?b (outer_open g)"
    have h: "h \<le> length ?b" unfolding h_def by (rule partial_le [OF heads(1)])
    define R where "R = take (length ?b - h) ?b"
    define B where "B = drop (length ?b - h) ?b"
    have b: "?b = R @ B" "length B = h" "length R = length ?b - h" using h by (simp_all add: R_def B_def)
    have "ps_turn L fw g tools no_out s = (Halt, put_text R no_out, s\<lparr>ps_buffer := drop (length R) ?b\<rparr>)"
      unfolding ps_turn_def using ne Idle none by (simp add: idle_turn_def stop_def Let_def h_def [symmetric] R_def del: length_take)
    moreover have "drop (length R) ?b = B" using b by simp
    ultimately have d: "d = put_text R no_out" "s' = s\<lparr>ps_buffer := B\<rparr>" using turn by simp_all
    have "meaning L fw g tools (s\<lparr>ps_buffer := R @ B @ x\<rparr>) acc = meaning L fw g tools (s\<lparr>ps_buffer := B @ x\<rparr>) (add_text R acc)"
      using idle_waits [OF Idle, of R B] none h_def b by simp
    then show ?thesis using buf b d by (simp add: arrive_def put_text_def add_out_def no_out_def)
  next
    case InBlock
    let ?h = "max (ends_with_partial_token ?b (invoke_prefix g)) (ends_with_partial_token ?b (outer_close g))"
    have le: "?h \<le> length ?b" using partial_le [OF heads(3), of ?b] partial_le [OF heads(2), of ?b] by simp
    have d: "d = no_out" using turn ne InBlock
      by (auto simp: ps_turn_def block_turn_def go_def stop_def fail_with_def Let_def split: option.splits if_splits)
    show ?thesis
    proof (cases "find_sub (invoke_prefix g) ?b = None \<and> 0 < length ?b - ?h")
      case True
      then have close: "find_sub (outer_close g) ?b = None" using turn ne InBlock nonempty
        by (auto simp: ps_turn_def block_turn_def go_def stop_def fail_with_def Let_def split: option.splits if_splits)
      have s': "s' = s\<lparr>ps_buffer := drop (length ?b - ?h) ?b\<rparr>"
        using turn ne InBlock True close nonempty by (auto simp: ps_turn_def block_turn_def stop_def Let_def)
      obtain R B where R: "?b = R @ B" "length B = ?h" "drop (length ?b - ?h) ?b = B" using junk_split [OF refl le] by metis
      have "meaning L fw g tools (s\<lparr>ps_buffer := R @ B @ x\<rparr>) acc = meaning L fw g tools (s\<lparr>ps_buffer := B @ x\<rparr>) acc"
        by (rule block_waits [OF InBlock]) (use close True R in \<open>simp_all del: length_append\<close>)
      then show ?thesis using R d s' buf by (simp add: arrive_def)
    next
      case False
      then have "s' = s" using turn ne InBlock nonempty
        by (auto simp: ps_turn_def block_turn_def go_def stop_def fail_with_def Let_def split: option.splits if_splits)
      then show ?thesis using d by (rule same [rotated])
    qed
  next
    case Invoke
    show ?thesis by (rule invoke_stops [OF turn ne]) (use Invoke in simp)
  next
    case InvokeSkip
    show ?thesis by (rule invoke_stops [OF turn ne]) (use InvokeSkip in simp)
  next
    case ParamStr
    show ?thesis by (rule string_stops [OF turn ne ParamStr])
  next
    case ParamBuf
    then show ?thesis using turn ne same
      by (auto simp: ps_turn_def buffered_turn_def go_def stop_def fail_with_def Let_def emit_pair update_pair split: option.splits sum.splits)
  next
    case ParamSkip
    then show ?thesis using turn ne same by (auto simp: ps_turn_def buffered_turn_def go_def stop_def fail_with_def Let_def split: option.splits)
  qed
qed

lemma turn_keeps_meaning:
  assumes "ps_turn L fw g tools no_out s = (v, d, s')"
  shows "meaning L fw g tools (arrive x s) acc = (case v of Raised e \<Rightarrow> Inl e | _ \<Rightarrow> meaning L fw g tools (arrive x s') (add_out d acc))"
proof (cases v)
  case (Raised e)
  obtain d' t where t: "ps_turn L fw g tools no_out (arrive x s) = (Raised e, d', t)" using raised_arrives assms Raised by blast
  show ?thesis using meaning_turn [OF t] Raised by simp
qed (use assms go_keeps_meaning stop_keeps_meaning in auto)

section \<open>Increments, events and streams\<close>

lemma add_frame:
  assumes "ps_mode s \<noteq> Idle \<or> out_calls out = []" and "ps_turn L fw g tools no_out s = (on, d, s')"
  shows "add_out (plus_out out d) acc = add_out d (add_out out acc)"
  using assms(1) turn_text [OF assms(2)] by (intro add_plus) auto

lemma loop_keeps_meaning:
  "meaning L fw g tools (arrive x s) (add_out out acc) =
    rbind (ps_loop L fw g tools n out s) (\<lambda>(out', s'). meaning L fw g tools (arrive x s') (add_out out' acc))"
proof (induction n arbitrary: out s)
  case (Suc n)
  show ?case
  proof (cases "ps_mode s = Idle \<and> out_calls out \<noteq> []")
    case True
    then have "ps_turn L fw g tools out s = (Halt, out, s)" by (simp add: ps_turn_def idle_turn_def stop_def Let_def)
    then show ?thesis by simp
  next
    case False
    obtain v d t where t: "ps_turn L fw g tools no_out s = (v, d, t)" by (cases "ps_turn L fw g tools no_out s")
    have "ps_turn L fw g tools out s = (v, plus_out out d, t)" using turn_frame [of s out L fw g tools] False t by auto
    moreover have "meaning L fw g tools (arrive x s) (add_out out acc) =
        (case v of Raised e \<Rightarrow> Inl e | _ \<Rightarrow> meaning L fw g tools (arrive x t) (add_out (plus_out out d) acc))"
      using turn_keeps_meaning [OF t] add_frame [OF _ t, of out] False by (auto split: verdict.split)
    ultimately show ?thesis using Suc.IH [of t "plus_out out d"] by (cases v) auto
  qed
qed simp

lemma increment_keeps_meaning:
  "meaning L fw g tools (arrive (y @ x) s) acc =
    rbind (ps_increment L fw g tools y s) (\<lambda>(out, s'). meaning L fw g tools (arrive x s') (add_out out acc))"
  using loop_keeps_meaning [of L fw tools x "arrive y s" no_out acc "Suc (length (ps_buffer (arrive y s)))"]
  by (simp add: ps_increment_def Let_def arrive_def [symmetric] del: ps_loop.simps)

end

fun add_seg :: "segment \<Rightarrow> piece list \<Rightarrow> piece list" where
  "add_seg (TextSeg t) acc = add_text t acc"
| "add_seg (CallSeg cs) acc = fold add_item cs acc"

lemma add_segments: "fold add_seg (segments_of out) acc = add_out out acc"
  by (simp add: segments_of_def add_out_def)

fun feed_events :: "py_lib \<Rightarrow> bool \<Rightarrow> grammar \<Rightarrow> tool list \<Rightarrow> utext list \<Rightarrow> ps_state \<Rightarrow> (segment list \<times> ps_state) result" where
  "feed_events L fw g tools [] s = Inr ([], s)"
| "feed_events L fw g tools (x # xs) s =
     rbind (parse_stream_events L fw g tools x s) (\<lambda>(a, s).
     rbind (feed_events L fw g tools xs s) (\<lambda>(b, s). Inr (a @ b, s)))"

text \<open>Nothing is left to do: one more drain would neither put anything out nor change the state.\<close>

definition settled :: "py_lib \<Rightarrow> bool \<Rightarrow> grammar \<Rightarrow> tool list \<Rightarrow> ps_state \<Rightarrow> bool" where
  "settled L fw g tools s \<longleftrightarrow> ps_increment L fw g tools [] s = Inr (no_out, s)"

text \<open>The sixteen drains were enough for the last chunk, or an exception has ended the stream.\<close>

definition drained :: "py_lib \<Rightarrow> bool \<Rightarrow> grammar \<Rightarrow> tool list \<Rightarrow> utext list \<Rightarrow> bool" where
  "drained L fw g tools chunks \<longleftrightarrow>
     (case feed_events L fw g tools chunks new_ps of Inl e \<Rightarrow> True | Inr (_, s) \<Rightarrow> settled L fw g tools s)"

text \<open>The transcript of a stream, with what finishing adds to its text, or the exception that ends it.\<close>

definition transcript :: "py_lib \<Rightarrow> bool \<Rightarrow> grammar \<Rightarrow> tool list \<Rightarrow> utext list \<Rightarrow> piece list result" where
  "transcript L fw g tools chunks =
     rbind (feed_events L fw g tools chunks new_ps) (\<lambda>(segs, s). Inr (rev (add_text (fst (ps_finish g s)) (fold add_seg segs []))))"

context invoke_grammar begin

lemma drain_keeps_meaning:
  "0 < n \<Longrightarrow> meaning L fw g tools (arrive (y @ x) s) acc =
    rbind (drain_events L fw g tools n y s) (\<lambda>(segs, s'). meaning L fw g tools (arrive x s') (fold add_seg segs acc))"
proof (induction n arbitrary: y s acc)
  case (Suc n)
  note I = increment_keeps_meaning [of L fw tools y x s acc]
  show ?case
  proof (cases "ps_increment L fw g tools y s")
    case (Inl e)
    then show ?thesis using I by simp
  next
    case (Inr r)
    obtain out t where r: "r = (out, t)" by (cases r)
    have more: "meaning L fw g tools (arrive x t) acc' =
        rbind (drain_events L fw g tools n [] t) (\<lambda>(segs, s'). meaning L fw g tools (arrive x s') (fold add_seg segs acc'))" for acc'
      using Suc.IH [of "[]" t acc'] by (cases n) simp_all
    show ?thesis
    proof (cases "y = [] \<and> out = no_out")
      case True
      then show ?thesis using I Inr r by simp
    next
      case False
      then show ?thesis using I Inr r more [of "add_out out acc"]
        by (cases "drain_events L fw g tools n [] t") (auto simp: add_segments)
    qed
  qed
qed simp

lemma events_keep_meaning:
  "tools \<noteq> [] \<Longrightarrow> meaning L fw g tools (arrive (y @ x) s) acc =
    rbind (parse_stream_events L fw g tools y s) (\<lambda>(segs, s'). meaning L fw g tools (arrive x s') (fold add_seg segs acc))"
  using drain_keeps_meaning [of 16 L fw tools y x s acc] by (simp add: parse_stream_events_def)

lemma feed_keeps_meaning:
  "tools \<noteq> [] \<Longrightarrow> meaning L fw g tools (arrive (concat xs) s) acc =
    rbind (feed_events L fw g tools xs s) (\<lambda>(segs, s'). meaning L fw g tools s' (fold add_seg segs acc))"
proof (induction xs arbitrary: s acc)
  case (Cons y ys)
  note E = events_keep_meaning [OF Cons.prems, of L fw y "concat ys" s acc]
  show ?case
  proof (cases "parse_stream_events L fw g tools y s")
    case (Inr r)
    obtain a t where r: "r = (a, t)" by (cases r)
    show ?thesis using E Inr r Cons.IH [OF Cons.prems, of t "fold add_seg a acc"]
      by (cases "feed_events L fw g tools ys t") auto
  qed (use E in simp)
qed simp

lemma loop_finishes:
  assumes "ps_loop L fw g tools n out s = Inr (out', s')" and "out_calls out' = []" and "length (ps_buffer s) < n"
  shows "meaning L fw g tools s (add_out out acc) = Inr (add_text (fst (ps_finish g s')) (add_out out' acc))"
  using assms
proof (induction n arbitrary: out s)
  case (Suc n)
  obtain v d t where t: "ps_turn L fw g tools no_out s = (v, d, t)" by (cases "ps_turn L fw g tools no_out s")
  have grow: "out_calls o2 = [] \<Longrightarrow> ps_loop L fw g tools m o1 u = Inr (o2, w) \<Longrightarrow> out_calls o1 = []" for m o1 u o2 w
  proof (induction m arbitrary: o1 u)
    case (Suc m)
    obtain v d t where t: "ps_turn L fw g tools o1 u = (v, d, t)" by (cases "ps_turn L fw g tools o1 u")
    have "out_calls d = [] \<Longrightarrow> out_calls o1 = []"
    proof (cases "ps_mode u = Idle \<and> out_calls o1 \<noteq> []")
      case True
      then have "ps_turn L fw g tools o1 u = (Halt, o1, u)" by (simp add: ps_turn_def idle_turn_def stop_def Let_def)
      then show "out_calls d = [] \<Longrightarrow> out_calls o1 = []" using t by simp
    next
      case False
      then show "out_calls d = [] \<Longrightarrow> out_calls o1 = []"
        using turn_frame [of u o1 L fw g tools] t by (auto split: prod.splits)
    qed
    then show ?case using Suc.IH [of d t] Suc.prems t by (cases v) auto
  qed simp
  have none: "out_calls out = []" using grow Suc.prems(1,2) by blast
  then have turn: "ps_turn L fw g tools out s = (v, plus_out out d, t)" using turn_frame [of s out L fw g tools] t by auto
  note A = add_frame [OF _ t, of out acc]
  show ?case
  proof (cases v)
    case Again
    then have "length (ps_buffer t) < n" using turn_shrinks [of L fw tools no_out s d t] t Suc.prems(3) by simp
    then show ?thesis using Suc.IH [of "plus_out out d" t] Suc.prems(1,2) Again turn A none meaning_turn [OF t, of "add_out out acc"] by simp
  next
    case Halt
    then show ?thesis using Suc.prems(1) turn A none meaning_turn [OF t, of "add_out out acc"] by simp
  next
    case (Raised e)
    then show ?thesis using Suc.prems(1) turn by simp
  qed
qed simp

lemma settled_finishes:
  assumes "settled L fw g tools s"
  shows "meaning L fw g tools s acc = Inr (add_text (fst (ps_finish g s)) acc)"
  using assms loop_finishes [of L fw tools "Suc (length (ps_buffer s))" no_out s no_out s acc]
  by (simp add: settled_def ps_increment_def Let_def del: ps_loop.simps)

lemma transcript_meaning:
  assumes "tools \<noteq> []" and "drained L fw g tools xs"
  shows "transcript L fw g tools xs = rbind (meaning L fw g tools (arrive (concat xs) new_ps) []) (\<lambda>ps. Inr (rev ps))"
proof (cases "feed_events L fw g tools xs new_ps")
  case (Inr r)
  obtain segs s where r: "r = (segs, s)" by (cases r)
  then show ?thesis
    using Inr assms(2) feed_keeps_meaning [OF assms(1), of L fw xs new_ps "[]"] settled_finishes [of L fw tools s "fold add_seg segs []"]
    by (simp add: transcript_def drained_def)
qed (use feed_keeps_meaning [OF assms(1), of L fw xs new_ps "[]"] in \<open>simp add: transcript_def\<close>)

end

end
