(* ===== verification/Tool_Drains.thy ===== *)
theory Tool_Drains
  imports Tool_Runs
begin

text \<open>
  How many drains a chunk needs: every drain that leaves something to do has closed a tool-call block, so that the sixteen of
  \<open>parse_stream_events\<close> are enough as long as the text opens at most fourteen blocks.
\<close>

section \<open>Occurrences of a token\<close>

fun occurrences :: "utext \<Rightarrow> utext \<Rightarrow> nat" where
  "occurrences tok [] = 0"
| "occurrences tok (c # cs) = (if prefix tok (c # cs) then 1 else 0) + occurrences tok cs"

lemma occurrences_suffix: "suffix s t \<Longrightarrow> occurrences tok s \<le> occurrences tok t"
proof -
  have "occurrences tok s \<le> occurrences tok (a @ s)" for a by (induction a) auto
  then show "suffix s t \<Longrightarrow> ?thesis" by (auto simp: suffix_def)
qed

lemma occurrences_prefix: "occurrences tok a \<le> occurrences tok (a @ b)"
proof (induction a)
  case (Cons c a)
  have "prefix tok (c # a) \<Longrightarrow> prefix tok (c # a @ b)" by (metis append_Cons prefix_append)
  then show ?case using Cons by auto
qed simp

lemma occurrence_dropped: "prefix tok t \<Longrightarrow> tok \<noteq> [] \<Longrightarrow> occurrences tok (drop (length tok) t) < occurrences tok t"
proof (cases t)
  case (Cons c cs)
  assume p: "prefix tok t" "tok \<noteq> []"
  have "drop (length tok) t = drop (length tok - 1) cs" using Cons p(2) by (cases tok) simp_all
  then show ?thesis using occurrences_suffix [OF suffix_drop [of "length tok - 1" cs], of tok] Cons p(1) by simp
qed simp

context invoke_grammar
begin

section \<open>A turn that waits\<close>

definition stuck :: "py_lib \<Rightarrow> bool \<Rightarrow> tool list \<Rightarrow> ps_state \<Rightarrow> bool" where
  "stuck L fw tools s \<longleftrightarrow> ps_turn L fw g tools no_out s = (Halt, no_out, s)"

lemma stuck_settled: "stuck L fw tools s \<Longrightarrow> settled L fw g tools s"
  by (simp add: stuck_def settled_def ps_increment_def)

lemma stuck_empty: "ps_buffer s = [] \<Longrightarrow> stuck L fw tools s"
  by (simp add: stuck_def ps_turn_def stop_def)

text \<open>What is held back holds nothing of what was looked for, and is held back as it is.\<close>

lemma held_again:
  assumes "single_head tok" and "find_sub tok b = None" and "ends_with_partial_token b tok \<le> n" and "n \<le> length b"
  shows "find_sub tok (drop (length b - n) b) = None"
    and "ends_with_partial_token (drop (length b - n) b) tok = ends_with_partial_token b tok"
proof -
  define R B where "R = take (length b - n) b" and "B = drop (length b - n) b"
  have b: "b = R @ B" "length B = n" using assms(4) by (simp_all add: R_def B_def)
  note F = found_in_rest [OF assms(1), of R B "[]"]
  show "find_sub tok (drop (length b - n) b) = None"
    using F(1) assms(2,3) b by (simp add: B_def [symmetric])
  show "ends_with_partial_token (drop (length b - n) b) tok = ends_with_partial_token b tok"
    using F(2) assms(2,3) b by (simp add: B_def [symmetric])
qed

lemma idle_halts:
  assumes turn: "ps_turn L fw g tools no_out s = (Halt, d, s')" and mode: "ps_mode s = Idle" and ne: "ps_buffer s \<noteq> []"
  shows "stuck L fw tools s'"
proof -
  let ?b = "ps_buffer s" let ?h = "ends_with_partial_token ?b (outer_open g)"
  have none: "find_sub (outer_open g) ?b = None" using turn mode ne
    by (auto simp: ps_turn_def idle_turn_def go_def stop_def no_out_def Let_def split: option.splits if_splits)
  have h: "?h \<le> length ?b" by (rule partial_le [OF heads(1)])
  have s': "s' = s\<lparr>ps_buffer := drop (length ?b - ?h) ?b\<rparr>"
    using turn mode ne none by (auto simp: ps_turn_def idle_turn_def stop_def no_out_def Let_def min_def)
  note H = held_again [OF heads(1) none order_refl h]
  show ?thesis
  proof (cases "ps_buffer s' = []")
    case False
    then show ?thesis unfolding stuck_def ps_turn_def using s' mode H h
      by (simp add: idle_turn_def stop_def no_out_def Let_def put_text_def)
  qed (rule stuck_empty)
qed

lemma block_halts:
  assumes turn: "ps_turn L fw g tools no_out s = (Halt, d, s')" and mode: "ps_mode s = InBlock" and ne: "ps_buffer s \<noteq> []"
  shows "stuck L fw tools s'"
proof -
  let ?b = "ps_buffer s"
  let ?h = "max (ends_with_partial_token ?b (invoke_prefix g)) (ends_with_partial_token ?b (outer_close g))"
  have d: "d = no_out" using turn mode ne by (auto simp: ps_turn_def block_turn_def go_def stop_def Let_def split: option.splits if_splits)
  show ?thesis
  proof (cases "find_sub (invoke_prefix g) ?b = None \<and> 0 < length ?b - ?h")
    case True
    then have close: "find_sub (outer_close g) ?b = None" using turn mode ne nonempty
      by (auto simp: ps_turn_def block_turn_def go_def stop_def Let_def split: option.splits if_splits)
    have h: "?h \<le> length ?b" using partial_le [OF heads(3), of ?b] partial_le [OF heads(2), of ?b] by simp
    have s': "s' = s\<lparr>ps_buffer := drop (length ?b - ?h) ?b\<rparr>"
      using turn mode ne True close nonempty by (auto simp: ps_turn_def block_turn_def stop_def Let_def)
    note I = held_again [OF heads(3), of ?b ?h] and C = held_again [OF heads(2), of ?b ?h]
    show ?thesis
    proof (cases "ps_buffer s' = []")
      case False
      have "stuck L fw tools (s\<lparr>ps_buffer := drop (length ?b - ?h) ?b\<rparr>)" 
        unfolding stuck_def ps_turn_def using False s' mode I C True close h nonempty
        by (simp add: block_turn_def stop_def Let_def)
      then show ?thesis unfolding s' .
    qed (rule stuck_empty)
  next
    case False
    then have "s' = s" using turn mode ne nonempty by (auto simp: ps_turn_def block_turn_def go_def stop_def Let_def split: option.splits if_splits)
    then show ?thesis using turn d by (simp add: stuck_def)
  qed
qed

lemma invoke_halts:
  assumes turn: "ps_turn L fw g tools no_out s = (Halt, d, s')" and mode: "ps_mode s = Invoke \<or> ps_mode s = InvokeSkip" and ne: "ps_buffer s \<noteq> []"
  shows "stuck L fw tools s'"
proof -
  let ?b = "ps_buffer s"
  let ?h = "max (ends_with_partial_token ?b (param_prefix g)) (ends_with_partial_token ?b (invoke_close g))"
  have inv: "invoke_turn L g no_out s = (Halt, d, s')" using turn ne mode by (auto simp: ps_turn_def)
  have d: "d = no_out" using inv by (auto simp: invoke_turn_def go_def stop_def Let_def emit_pair update_pair split: option.splits if_splits)
  show ?thesis
  proof (cases "find_sub (param_prefix g) ?b = None \<and> 0 < length ?b - ?h")
    case True
    then have close: "find_sub (invoke_close g) ?b = None" using inv
      by (auto simp: invoke_turn_def go_def stop_def Let_def emit_pair update_pair split: option.splits if_splits)
    have h: "?h \<le> length ?b" using partial_le [OF heads(5), of ?b] partial_le [OF heads(4), of ?b] by simp
    have s': "s' = s\<lparr>ps_buffer := drop (length ?b - ?h) ?b\<rparr>"
      using inv True close by (auto simp: invoke_turn_def stop_def Let_def)
    note P = held_again [OF heads(5), of ?b ?h] and C = held_again [OF heads(4), of ?b ?h]
    show ?thesis
    proof (cases "ps_buffer s' = []")
      case False
      have i: "invoke_turn L g no_out s' = (Halt, no_out, s')"
        unfolding s' using P C True close h by (simp add: invoke_turn_def stop_def Let_def)
      have "ps_mode s' = Invoke \<or> ps_mode s' = InvokeSkip" using mode s' by simp
      then show ?thesis unfolding stuck_def ps_turn_def using False i by auto
    qed (rule stuck_empty)
  next
    case False
    then have "s' = s" using inv by (auto simp: invoke_turn_def go_def stop_def Let_def emit_pair update_pair split: option.splits if_splits)
    then show ?thesis using turn d by (simp add: stuck_def)
  qed
qed

lemma rstrip_nothing: "\<forall>c \<in> set t. c \<in> cs \<Longrightarrow> rstrip_chars cs t = []"
  by (simp add: rstrip_chars_def)

lemma rstrip_rest: "\<forall>c \<in> set (drop (length (rstrip_chars cs t)) t). c \<in> cs"
proof -
  have "t = rstrip_chars cs t @ rev (takeWhile (\<lambda>c. c \<in> cs) (rev t))"
    unfolding rstrip_chars_def by (metis rev_append rev_rev_ident takeWhile_dropWhile_id)
  then have "drop (length (rstrip_chars cs t)) t = rev (takeWhile (\<lambda>c. c \<in> cs) (rev t))" by (metis append_eq_conv_conj)
  then show ?thesis by (auto dest: set_takeWhileD)
qed

lemma string_halts:
  assumes turn: "ps_turn L fw g tools no_out s = (Halt, d, s')" and mode: "ps_mode s = ParamStr" and ne: "ps_buffer s \<noteq> []"
  shows "stuck L fw tools s'"
proof -
  let ?b = "ps_buffer s" and ?t = "s\<lparr>ps_lead_trimmed := True\<rparr>"
  have str: "string_turn L g no_out s = (Halt, d, s')" using turn ne mode by (simp add: ps_turn_def)
  have lead: "ps_lead_trimmed s \<or> trim_leading g ?b = ?b" and none: "find_sub (param_close g) ?b = None"
    using str by (auto simp: string_turn_def go_def Let_def emit_pair update_pair split: option.splits if_splits)
  have flag: "?t = s" if "ps_lead_trimmed s" using that by (cases s) simp
  have same: "string_turn L g no_out ?t = (Halt, d, s')" using str lead ne flag by (auto simp: string_turn_def Let_def)
  define h where "h = ends_with_partial_token ?b (param_close g)"
  have h: "h \<le> length ?b" unfolding h_def by (rule partial_le [OF heads(6)])
  define R where "R = rstrip_chars (trim_chars g) (take (length ?b - h) ?b)"
  define B where "B = drop (length R) ?b"
  have Rl: "length R \<le> length ?b - h" unfolding R_def using rstrip_chars_le [of "trim_chars g" "take (length ?b - h) ?b"] by simp
  have s': "s' = (keep_args (json_escape R) ?t)\<lparr>ps_buffer := B\<rparr>"
    using string_none [of ?t ?b R L] none same by (simp add: R_def h_def B_def)
  have nB: "length B = length ?b - length R" "length B \<le> length ?b" "h \<le> length B" "length ?b - length B = length R"
    using Rl h by (auto simp: B_def)
  have dB: "drop (length ?b - length B) ?b = B" using nB by (simp add: B_def)
  note H = held_again [OF heads(6) none, folded h_def, OF nB(3,2), unfolded dB]
  have "take (length B - h) B = drop (length R) (take (length ?b - h) ?b)" using nB by (simp add: B_def drop_take add.commute)
  then have "\<forall>c \<in> set (take (length B - h) B). c \<in> trim_chars g" using rstrip_rest [of "trim_chars g" "take (length ?b - h) ?b"] by (simp add: R_def)
  from rstrip_nothing [OF this] have safe: "rstrip_chars (trim_chars g) (take (length B - ends_with_partial_token B (param_close g)) B) = []"
    by (simp add: H(2))
  show ?thesis
  proof (cases "B = []")
    case False
    have m: "ps_lead_trimmed s'" "ps_buffer s' = B" "ps_mode s' = ParamStr" using s' mode by simp_all
    have "string_turn L g no_out s' = (Halt, no_out, s')"
      using string_none [OF m(1) H(1) m(2) safe, of L] m(2) by (simp add: put_args_def keep_args_def)
    then show ?thesis using False m by (simp add: stuck_def ps_turn_def)
  qed (simp add: stuck_empty s')
qed

text \<open>Where a turn stops to wait, another one does nothing.\<close>

lemma halts_stuck:
  assumes turn: "ps_turn L fw g tools no_out s = (Halt, d, s')"
  shows "stuck L fw tools s'"
proof (cases "ps_buffer s = []")
  case True
  then show ?thesis using turn stuck_empty [of s L fw tools] by (simp add: stuck_def)
next
  case False
  have same: "d = no_out \<and> s' = s" if "ps_mode s = ParamBuf \<or> ps_mode s = ParamSkip" using turn False that
    by (auto simp: ps_turn_def buffered_turn_def go_def stop_def fail_with_def Let_def emit_pair update_pair split: option.splits sum.splits)
  show ?thesis using idle_halts [OF turn _ False] block_halts [OF turn _ False] invoke_halts [OF turn _ False] string_halts [OF turn _ False]
      same turn by (cases "ps_mode s") (auto simp: stuck_def)
qed

section \<open>Blocks that can still be closed\<close>

definition credit :: "ps_state \<Rightarrow> nat" where
  "credit s = occurrences (outer_open g) (ps_buffer s) + (if ps_mode s = Idle then 0 else 1)"

lemma turn_suffix:
  assumes "ps_turn L fw g tools out s = (v, d, s')"
  shows "suffix (ps_buffer s') (ps_buffer s)"
  using assms
  by (cases "ps_mode s")
    (auto simp: ps_turn_def idle_turn_def block_turn_def invoke_turn_def string_turn_def buffered_turn_def go_def stop_def fail_with_def
      Let_def emit_pair update_pair suffix_drop trim_leading_def suffix_dropWhile suffix_tl split: option.splits if_splits sum.splits)

lemma turn_credit:
  assumes turn: "ps_turn L fw g tools out s = (v, d, s')"
  shows "credit s' \<le> credit s" and "ps_mode s \<noteq> Idle \<Longrightarrow> ps_mode s' = Idle \<Longrightarrow> credit s' < credit s"
proof -
  note o = occurrences_suffix [OF turn_suffix [OF turn], of "outer_open g"]
  have opens: "occurrences (outer_open g) (ps_buffer s') < occurrences (outer_open g) (ps_buffer s)"
    if m: "ps_mode s = Idle" "ps_mode s' \<noteq> Idle"
  proof -
    have ne: "ps_buffer s \<noteq> []" using turn m by (auto simp: ps_turn_def stop_def)
    have "find_sub (outer_open g) (ps_buffer s) = Some 0 \<and> ps_buffer s' = drop (length (outer_open g)) (ps_buffer s)"
      using turn m ne by (auto simp: ps_turn_def idle_turn_def go_def stop_def Let_def split: option.splits if_splits)
    then show ?thesis using occurrence_dropped [of "outer_open g" "ps_buffer s"] find_sub_Some [of "outer_open g" "ps_buffer s" 0] nonempty by auto
  qed
  show "credit s' \<le> credit s" using o opens by (fastforce simp: credit_def)
  show "ps_mode s \<noteq> Idle \<Longrightarrow> ps_mode s' = Idle \<Longrightarrow> credit s' < credit s" using o by (simp add: credit_def)
qed

text \<open>An increment ends where nothing is left to do, or behind a block that it has closed.\<close>

lemma loop_ends:
  assumes "ps_loop L fw g tools n out s = Inr (out', s')" and "length (ps_buffer s) < n"
  shows "suffix (ps_buffer s') (ps_buffer s) \<and> credit s' \<le> credit s \<and>
    (stuck L fw tools s' \<or> ps_mode s' = Idle \<and> out_calls out' \<noteq> [] \<and> (out_calls out = [] \<or> ps_mode s \<noteq> Idle \<longrightarrow> credit s' < credit s))"
  using assms
proof (induction n arbitrary: out s)
  case (Suc n)
  show ?case
  proof (cases "ps_mode s = Idle \<and> out_calls out \<noteq> []")
    case True
    then have "ps_turn L fw g tools out s = (Halt, out, s)" by (simp add: ps_turn_def idle_turn_def stop_def Let_def)
    then show ?thesis using Suc.prems(1) True by simp
  next
    case False
    obtain v d t where t: "ps_turn L fw g tools no_out s = (v, d, t)" by (cases "ps_turn L fw g tools no_out s")
    have turn: "ps_turn L fw g tools out s = (v, plus_out out d, t)" using turn_frame [of s out L fw g tools] False t by auto
    have quiet: "ps_mode s = Idle \<Longrightarrow> out_calls d = []"
      using t by (auto simp: ps_turn_def idle_turn_def go_def stop_def put_text_def no_out_def Let_def split: option.splits if_splits)
    show ?thesis
    proof (cases v)
      case Again
      then have l: "length (ps_buffer t) < n" using turn_shrinks [of L fw tools no_out s d t] t Suc.prems(2) by simp
      have "ps_loop L fw g tools n (plus_out out d) t = Inr (out', s')" using Suc.prems(1) turn Again by simp
      from Suc.IH [OF this l] show ?thesis using turn_suffix [OF t] turn_credit [OF t] quiet False suffix_order.trans
        by (cases "ps_mode t = Idle") fastforce+
    next
      case Halt
      then show ?thesis using Suc.prems(1) turn turn_suffix [OF t] turn_credit [OF t] halts_stuck [of L fw tools s d t] t by simp
    next
      case (Raised e)
      then show ?thesis using Suc.prems(1) turn by simp
    qed
  qed
qed simp

lemma drains_settle:
  "drain_events L fw g tools n y s = Inr (segs, s') \<Longrightarrow> credit (arrive y s) < n \<Longrightarrow>
    settled L fw g tools s' \<and> suffix (ps_buffer s') (ps_buffer s @ y)"
proof (induction n arbitrary: y s segs)
  case (Suc n)
  obtain out t where t: "ps_increment L fw g tools y s = Inr (out, t)" using Suc.prems(1) by (auto simp: rbind_Inr_conv)
  have "ps_loop L fw g tools (Suc (length (ps_buffer (arrive y s)))) no_out (arrive y s) = Inr (out, t)"
    using t by (simp add: ps_increment_def Let_def arrive_def del: ps_loop.simps)
  from loop_ends [OF this] have E: "suffix (ps_buffer t) (ps_buffer s @ y)"
    "stuck L fw tools t \<or> ps_mode t = Idle \<and> out_calls out \<noteq> [] \<and> credit t < credit (arrive y s)" by auto
  have again: "drain_events L fw g tools m [] t = Inr ([], t)" if "stuck L fw tools t" for m
    using stuck_settled [OF that] by (cases m) (simp_all add: settled_def)
  show ?case
  proof (cases "y = [] \<and> out = no_out")
    case True
    then have "s' = t" using Suc.prems(1) t by simp
    then show ?thesis using E True stuck_settled by auto
  next
    case False
    then obtain more where m: "drain_events L fw g tools n [] t = Inr (more, s')" using Suc.prems(1) t by (auto simp: rbind_Inr_conv)
    show ?thesis
    proof (cases "stuck L fw tools t")
      case True
      then show ?thesis using again [OF True, of n] m E(1) stuck_settled [OF True] by simp
    next
      case False
      then have "credit (arrive [] t) < n" using E(2) Suc.prems(2) by simp
      from Suc.IH [OF m this] show ?thesis using E(1) by (auto intro: suffix_order.trans)
    qed
  qed
qed simp

lemma few_blocks_settle:
  "feed_events L fw g tools xs s = Inr (segs, s') \<Longrightarrow> tools \<noteq> [] \<Longrightarrow> settled L fw g tools s \<Longrightarrow> suffix (ps_buffer s) past \<Longrightarrow>
    occurrences (outer_open g) (past @ concat xs) \<le> 14 \<Longrightarrow> settled L fw g tools s'"
proof (induction xs arbitrary: s segs past)
  case (Cons y ys)
  obtain a t b where a: "drain_events L fw g tools 16 y s = Inr (a, t)" and b: "feed_events L fw g tools ys t = Inr (b, s')"
    using Cons.prems(1,2) by (auto simp: rbind_Inr_conv parse_stream_events_def simp del: drain_events.simps)
  have suf: "suffix (ps_buffer s @ y) (past @ y)" using Cons.prems(4) by simp
  have "occurrences (outer_open g) (ps_buffer s @ y) \<le> occurrences (outer_open g) ((past @ y) @ concat ys)"
    using occurrences_suffix [OF suf, of "outer_open g"] occurrences_prefix [of "outer_open g" "past @ y" "concat ys"] by linarith
  then have "credit (arrive y s) < 16" using Cons.prems(5) by (simp add: credit_def)
  from drains_settle [OF a this] have t: "settled L fw g tools t" "suffix (ps_buffer t) (past @ y)"
    using suffix_order.trans [OF _ suf] by blast+
  then show ?case using Cons.IH [OF b Cons.prems(2)] Cons.prems(5) by simp
qed simp

lemma few_blocks_drained:
  assumes "tools \<noteq> []" and "occurrences (outer_open g) (concat xs) \<le> 14"
  shows "drained L fw g tools xs"
proof -
  have "settled L fw g tools new_ps" by (rule stuck_settled, rule stuck_empty) (simp add: new_ps_def)
  then have "settled L fw g tools s'" if "feed_events L fw g tools xs new_ps = Inr (segs, s')" for segs s'
    using few_blocks_settle [OF that assms(1), of "[]"] assms(2) by (simp add: new_ps_def)
  then show ?thesis by (auto simp: drained_def split: sum.split)
qed

end

end
