(* ===== verification/Tool_Formats.thy ===== *)
theory Tool_Formats
  imports Tool_Drains
begin

text \<open>
  The formats that stream through the invoke and parameter parser: the grammars of Qwen3-Coder, MiniMax and
  Muse Glimmer, each with the promises of its tokens.
\<close>

section \<open>Tags\<close>

text \<open>\<open>pre([^>]*)>\<close>\<close>

definition tag_upto :: "utext \<Rightarrow> tag" where
  "tag_upto pre t =
     (if prefix pre t then
        let r = drop (length pre) t; v = takeWhile (\<lambda>c. c \<noteq> 62) r in
        if length v < length r then Some (length pre + length v + 1, v) else None
      else None)"

text \<open>\<open>pre\s+name="([^"]+)"\s*>\<close>, or the strict \<open>pre name="([^"]*)">\<close>\<close>

definition tag_named :: "bool \<Rightarrow> utext \<Rightarrow> tag" where
  "tag_named loose pre t =
     (if \<not> prefix pre t then None
      else let r = drop (length pre) t; gap = (if loose then takeWhile is_space r else takeWhile (\<lambda>c. c = 32) (take 1 r));
               r = drop (length gap) r; opening = asc ''name='' @ [34] in
        if gap = [] \<or> \<not> prefix opening r then None
        else let r = drop (length opening) r; v = takeWhile (\<lambda>c. c \<noteq> 34) r; r = drop (length v) r in
          if r = [] \<or> (loose \<and> v = []) then None
          else let r = tl r; gap2 = (if loose then takeWhile is_space r else []); r = drop (length gap2) r in
            if r \<noteq> [] \<and> hd r = 62
            then Some (length pre + length gap + length opening + length v + 1 + length gap2 + 1, v) else None)"

section \<open>The grammars\<close>

definition qwen3_coder_grammar :: grammar where
  "qwen3_coder_grammar =
     \<lparr>outer_open = asc ''<tool_call>'', outer_close = asc ''</tool_call>'',
      invoke_prefix = asc ''<function='', invoke_tag = tag_upto (asc ''<function=''), invoke_close = asc ''</function>'',
      param_prefix = asc ''<parameter='', param_tag = tag_upto (asc ''<parameter=''), param_close = asc ''</parameter>'',
      trim_chars = {10}, trim_single = True, missing_type = asc ''string'', canonical_name = id\<rparr>"

definition minimax_grammar :: grammar where
  "minimax_grammar =
     \<lparr>outer_open = asc ''<minimax:tool_call>'', outer_close = asc ''</minimax:tool_call>'',
      invoke_prefix = asc ''<invoke'', invoke_tag = tag_named True (asc ''<invoke''), invoke_close = asc ''</invoke>'',
      param_prefix = asc ''<parameter'', param_tag = tag_named True (asc ''<parameter''), param_close = asc ''</parameter>'',
      trim_chars = {10}, trim_single = False, missing_type = asc ''loose'', canonical_name = id\<rparr>"

text \<open>A name that the template doubled, \<open>name.name\<close>, is the registered tool.\<close>

definition muse_canonical_name :: "tool list \<Rightarrow> utext \<Rightarrow> utext" where
  "muse_canonical_name tools name =
     (let (head, dot, tail) = partition [46] name; names = {tool_name t | t. t \<in> set tools \<and> tool_name t \<noteq> []} in
      if dot \<and> head = tail \<and> head \<in> names \<and> name \<notin> names then head else name)"

definition muse_grammar :: "tool list \<Rightarrow> grammar" where
  "muse_grammar tools =
     \<lparr>outer_open = asc ''<atem:function_calls>'', outer_close = asc ''</atem:function_calls>'',
      invoke_prefix = asc ''<atem:invoke'', invoke_tag = tag_named False (asc ''<atem:invoke''), invoke_close = asc ''</atem:invoke>'',
      param_prefix = asc ''<atem:parameter'', param_tag = tag_named False (asc ''<atem:parameter''), param_close = asc ''</atem:parameter>'',
      trim_chars = {}, trim_single = False, missing_type = asc ''string'', canonical_name = muse_canonical_name tools\<rparr>"

section \<open>Searching a tag\<close>

definition settled_tag :: "tag \<Rightarrow> bool" where
  "settled_tag m \<longleftrightarrow>
     (\<forall>t e v x. m t = Some (e, v) \<longrightarrow> 0 < e \<and> e \<le> length t \<and> m (t @ x) = Some (e, v)) \<and>
     (\<forall>t i x. m t = None \<longrightarrow> 0 < i \<longrightarrow> i \<le> length t \<longrightarrow> m (drop i t) \<noteq> None \<longrightarrow> m (t @ x) = None)"

lemma search_some: "re_search m t = Some r \<Longrightarrow> \<exists>i \<le> length t. m (drop i t) \<noteq> None"
proof (induction t arbitrary: r)
  case (Cons c cs)
  show ?case
  proof (cases "m (c # cs)")
    case None
    then obtain r' where "re_search m cs = Some r'" using Cons.prems by auto
    from Cons.IH [OF this] obtain i where "i \<le> length cs" "m (drop i cs) \<noteq> None" by blast
    then show ?thesis by (intro exI [of _ "Suc i"]) simp
  next
    case (Some q)
    then show ?thesis by (intro exI [of _ 0]) simp
  qed
qed auto

lemma search_settled:
  assumes m: "settled_tag m" and "re_search m t = Some r"
  shows "re_search m (t @ x) = Some r \<and> 0 < fst r \<and> fst r \<le> length t"
  using assms(2)
proof (induction t arbitrary: r)
  case Nil
  obtain e v where "r = (e, v)" by (cases r)
  then show ?case using Nil m unfolding settled_tag_def by (metis le_zero_eq less_irrefl list.size(3) re_search.simps(1))
next
  case (Cons c cs)
  show ?case
  proof (cases "m (c # cs)")
    case (Some q)
    then obtain e v where "q = (e, v)" by (cases q)
    then have "0 < e \<and> e \<le> length (c # cs) \<and> m ((c # cs) @ x) = Some (e, v)" using Some m unfolding settled_tag_def by blast
    then show ?thesis using Cons.prems Some \<open>q = (e, v)\<close> by auto
  next
    case None
    then obtain r' where r': "re_search m cs = Some r'" "r = (Suc (fst r'), snd r')" using Cons.prems by auto
    obtain i where "i \<le> length cs" "m (drop i cs) \<noteq> None" using search_some [OF r'(1)] by blast
    then have "m (drop (Suc i) (c # cs)) \<noteq> None" "Suc i \<le> length (c # cs)" by simp_all
    then have "m ((c # cs) @ x) = None" using m None unfolding settled_tag_def by (metis zero_less_Suc)
    then show ?thesis using Cons.IH [OF r'(1)] r'(2) by (cases r') simp
  qed
qed

lemma tag_upto_eq:
  "tag_upto pre t = Some (e, v) \<longleftrightarrow> (\<exists>rest. t = pre @ v @ [62] @ rest \<and> 62 \<notin> set v \<and> e = length pre + length v + 1)"
proof
  assume "tag_upto pre t = Some (e, v)"
  then obtain r where r: "t = pre @ r" "v = takeWhile (\<lambda>c. c \<noteq> 62) r" "length v < length r" "e = length pre + length v + 1"
    by (auto simp: tag_upto_def Let_def prefix_def split: if_splits)
  have "r = v @ dropWhile (\<lambda>c. c \<noteq> 62) r" using r(2) by simp
  moreover have "dropWhile (\<lambda>c. c \<noteq> 62) r \<noteq> []" using r(3) calculation by (metis append_Nil2 less_irrefl)
  moreover have "hd (dropWhile (\<lambda>c. c \<noteq> 62) r) = 62" using hd_dropWhile [of "\<lambda>c. c \<noteq> 62" r] calculation(2) by simp
  ultimately have "r = v @ 62 # tl (dropWhile (\<lambda>c. c \<noteq> 62) r)" by (metis list.collapse)
  moreover have "62 \<notin> set v" using r(2) set_takeWhileD by fastforce
  ultimately show "\<exists>rest. t = pre @ v @ [62] @ rest \<and> 62 \<notin> set v \<and> e = length pre + length v + 1"
    using r by (intro exI [of _ "tl (dropWhile (\<lambda>c. c \<noteq> 62) r)"]) simp
next
  assume "\<exists>rest. t = pre @ v @ [62] @ rest \<and> 62 \<notin> set v \<and> e = length pre + length v + 1"
  then obtain rest where t: "t = pre @ v @ 62 # rest" "62 \<notin> set v" "e = length pre + length v + 1" by auto
  have "takeWhile (\<lambda>c. c \<noteq> 62) (v @ 62 # rest) = v" using t(2) by (subst takeWhile_append2) auto
  then show "tag_upto pre t = Some (e, v)" using t by (simp add: tag_upto_def Let_def)
qed

lemma tag_upto_settled: "settled_tag (tag_upto pre)"
  unfolding settled_tag_def
proof (intro conjI allI impI)
  fix t e v x assume "tag_upto pre t = Some (e, v)"
  then obtain rest where t: "t = pre @ v @ [62] @ rest" "62 \<notin> set v" "e = length pre + length v + 1" by (auto simp: tag_upto_eq)
  then show "0 < e" "e \<le> length t" "tag_upto pre (t @ x) = Some (e, v)" unfolding tag_upto_eq by auto
next
  fix t i x assume none: "tag_upto pre t = None" and i: "0 < i" "i \<le> length t" and later: "tag_upto pre (drop i t) \<noteq> None"
  obtain e v where "tag_upto pre (drop i t) = Some (e, v)" using later by auto
  then obtain rest where d: "drop i t = pre @ v @ [62] @ rest" by (auto simp: tag_upto_eq)
  show "tag_upto pre (t @ x) = None"
  proof (rule ccontr)
    assume "tag_upto pre (t @ x) \<noteq> None"
    then obtain e' v' where "tag_upto pre (t @ x) = Some (e', v')" by auto
    then obtain rest' where x: "t @ x = pre @ v' @ [62] @ rest'" "62 \<notin> set v'" by (auto simp: tag_upto_eq)
    have long: "length pre < length t" using arg_cong [OF d, of length] i by simp
    then have "prefix pre t" using x(1) by (metis append_eq_append_conv_if prefixI take_is_prefix less_imp_le_nat append_eq_conv_conj)
    then obtain r where r: "t = pre @ r" by (auto simp: prefix_def)
    have "62 \<in> set (drop (length pre) t)"
    proof -
      have "drop (length pre) t = drop (length pre - i) (drop i t)" if "i \<le> length pre" using that by simp
      moreover have "62 \<in> set (drop (length pre - i) (drop i t))" unfolding d by simp
      moreover have "62 \<in> set (drop (length pre) t)" if "length pre < i"
      proof -
        have "drop i t = drop (i - length pre) (drop (length pre) t)" using that by simp
        then show ?thesis using d by (metis in_set_conv_decomp in_set_dropD append.assoc append_Cons append_Nil)
      qed
      ultimately show ?thesis by (cases "i \<le> length pre") (metis, simp)
    qed
    then have "62 \<in> set r" using r by simp
    then have "length (takeWhile (\<lambda>c. c \<noteq> 62) r) < length r"
      by (metis (mono_tags, lifting) length_takeWhile_le le_neq_implies_less takeWhile_eq_all_conv takeWhile_eq_take take_all_iff order_refl)
    then show False using none r by (simp add: tag_upto_def Let_def)
  qed
qed

text \<open>What a named tag matches: the prefix, a gap, the quoted name and the rest up to the closing bracket.\<close>

definition gap_ok :: "bool \<Rightarrow> utext \<Rightarrow> bool" where
  "gap_ok loose w \<longleftrightarrow> (if loose then w \<noteq> [] \<and> (\<forall>c \<in> set w. is_space c) else w = [32])"

definition end_ok :: "bool \<Rightarrow> utext \<Rightarrow> bool" where
  "end_ok loose w \<longleftrightarrow> (if loose then \<forall>c \<in> set w. is_space c else w = [])"

definition named_parts :: "bool \<Rightarrow> utext \<Rightarrow> utext \<Rightarrow> utext \<Rightarrow> bool" where
  "named_parts loose w v w2 \<longleftrightarrow> gap_ok loose w \<and> 34 \<notin> set v \<and> (loose \<longrightarrow> v \<noteq> []) \<and> end_ok loose w2"

abbreviation name_eq :: utext where
  "name_eq \<equiv> asc ''name=''"

lemma quote_bracket_visible: "\<not> is_space 34" "\<not> is_space 62" "\<not> is_space 60" "\<not> is_space 110"
  by (simp_all add: is_space_def)

lemma name_eq_codes: "name_eq = [110, 97, 109, 101, 61]"
  by code_simp

lemma while_gap: "(\<forall>c \<in> set w. P c) \<Longrightarrow> \<not> P d \<Longrightarrow> takeWhile P (w @ d # r) = w"
  by (subst takeWhile_append2) auto

lemma while_parts: "takeWhile P r @ drop (length (takeWhile P r)) r = r"
  using takeWhile_dropWhile_id [of P r] unfolding dropWhile_eq_drop .

lemma while_split: "takeWhile P r = v \<Longrightarrow> v @ drop (length v) r = r \<and> (\<forall>c \<in> set v. P c)"
  using while_parts [of P r] set_takeWhileD [of _ P r] by blast

lemma while_stops: "drop (length (takeWhile P r)) r = d # r' \<Longrightarrow> \<not> P d"
proof (induction r)
qed (simp_all split: if_splits)

lemma tag_named_parts:
  assumes "named_parts loose w v w2"
  shows "tag_named loose pre (pre @ w @ name_eq @ 34 # v @ 34 # w2 @ 62 # rest) =
    Some (length pre + length w + 6 + length v + 1 + length w2 + 1, v)"
proof -
  let ?r4 = "w2 @ 62 # rest" and ?r3 = "v @ 34 # w2 @ 62 # rest"
  let ?r1 = "w @ name_eq @ 34 # ?r3"
  have gap: "(if loose then takeWhile is_space ?r1 else takeWhile (\<lambda>c. c = 32) (take 1 ?r1)) = w"
    using assms while_gap [of w is_space 110 "[97, 109, 101, 61] @ 34 # ?r3"] quote_bracket_visible
    by (auto simp: named_parts_def gap_ok_def name_eq_codes)
  have v: "takeWhile (\<lambda>c. c \<noteq> 34) ?r3 = v" using assms by (intro while_gap) (auto simp: named_parts_def)
  have gap2: "(if loose then takeWhile is_space ?r4 else []) = w2"
    using assms while_gap [of w2 is_space 62 rest] quote_bracket_visible by (auto simp: named_parts_def end_ok_def)
  have "w \<noteq> []" "\<not> (loose \<and> v = [])" using assms by (auto simp: named_parts_def gap_ok_def split: if_splits)
  moreover have "prefix (name_eq @ [34]) (name_eq @ 34 # ?r3)" "drop (length (name_eq @ [34])) (name_eq @ 34 # ?r3) = ?r3"
    "prefix pre (pre @ ?r1)" "drop (length pre) (pre @ ?r1) = ?r1" "drop (length w) ?r1 = name_eq @ 34 # ?r3"
    "drop (length v) ?r3 = 34 # ?r4" "drop (length w2) ?r4 = 62 # rest" "length (name_eq @ [34]) = 6"
    by (simp_all add: name_eq_codes)
  ultimately show ?thesis unfolding tag_named_def Let_def using gap v gap2
    by (simp only: HOL.simp_thms if_False if_True list.sel list.distinct not_True_eq_False if_cancel)
qed

lemma tag_named_some:
  assumes "tag_named loose pre t = Some (e, v)"
  obtains w w2 rest where "named_parts loose w v w2" "t = pre @ w @ name_eq @ 34 # v @ 34 # w2 @ 62 # rest"
proof -
  obtain r where r: "t = pre @ r" using assms by (auto simp: tag_named_def prefix_def split: if_splits)
  define w where "w = (if loose then takeWhile is_space r else takeWhile (\<lambda>c. c = 32) (take 1 r))"
  define r3 where "r3 = drop (length (name_eq @ [34])) (drop (length w) r)"
  define u where "u = takeWhile (\<lambda>c. c \<noteq> 34) r3"
  define r4 where "r4 = tl (drop (length u) r3)"
  define w2 where "w2 = (if loose then takeWhile is_space r4 else [])"
  have p: "prefix pre (pre @ r)" "drop (length pre) (pre @ r) = r" by simp_all
  note A = assms [unfolded tag_named_def Let_def r p not_True_eq_False if_False, folded w_def, folded r3_def, folded u_def,
      folded r4_def, folded w2_def]
  have w: "w \<noteq> []" and "prefix (name_eq @ [34]) (drop (length w) r)" and u: "drop (length u) r3 \<noteq> []" "\<not> (loose \<and> u = [])"
    and e: "drop (length w2) r4 \<noteq> []" "hd (drop (length w2) r4) = 62" and "v = u"
    using A by (simp_all only: p HOL.simp_thms de_Morgan_disj option.distinct option.inject prod.inject split: if_split_asm)
  then obtain zs where zs: "drop (length w) r = (name_eq @ [34]) @ zs" unfolding prefix_def by blast
  then have "r3 = zs" unfolding r3_def zs by simp
  then have r3: "drop (length w) r = name_eq @ 34 # r3" using zs by simp
  obtain q where q: "drop (length u) r3 = q # r4" using u(1) by (cases "drop (length u) r3") (simp_all add: r4_def)
  have "q = 34" using while_stops [of "\<lambda>c. c \<noteq> 34" r3 q r4] q u_def by simp
  obtain rest where rest: "drop (length w2) r4 = 62 # rest" using e by (cases "drop (length w2) r4") auto
  have r4: "r4 = w2 @ 62 # rest"
    using while_split [of is_space r4 w2] rest unfolding w2_def by (cases loose) simp_all
  have e2: "end_ok loose w2" using while_split [of is_space r4 w2] by (simp add: w2_def end_ok_def)
  have u3: "r3 = u @ 34 # r4" "34 \<notin> set u"
    using while_split [of "\<lambda>c. c \<noteq> 34" r3 u] q \<open>q = 34\<close> by (auto simp: u_def)
  have "w @ drop (length w) r = r \<and> gap_ok loose w"
  proof (cases loose)
    case True
    then show ?thesis using while_split [of is_space r w] w by (simp add: w_def gap_ok_def)
  next
    case False
    then show ?thesis using w by (cases r) (auto simp: w_def gap_ok_def split: if_splits)
  qed
  then have "r = w @ name_eq @ 34 # r3" "gap_ok loose w" unfolding r3 by simp_all
  then show thesis using that [of w w2 rest] u(2) u3 r4 e2 \<open>v = u\<close> r by (simp add: named_parts_def)
qed

lemma first_split:
  assumes "a @ q # b = c @ q # d" and "q \<notin> set a" and "q \<notin> set c"
  shows "a = c"
proof -
  have "takeWhile (\<lambda>x. x \<noteq> q) (a @ q # b) = a" "takeWhile (\<lambda>x. x \<noteq> q) (c @ q # d) = c"
    using assms(2,3) by (intro while_gap; fastforce)+
  then show ?thesis using assms(1) by simp
qed

lemma named_quotes:
  assumes "named_parts loose w v w2"
  shows "34 \<notin> set w" "34 \<notin> set w2" "60 \<notin> set w"
  using assms quote_bracket_visible by (auto simp: named_parts_def gap_ok_def end_ok_def split: if_splits)

lemma tag_named_settled:
  assumes pre: "hd pre = 60" "pre \<noteq> []" "60 \<notin> set (tl pre)" "34 \<notin> set pre"
  shows "settled_tag (tag_named loose pre)"
  unfolding settled_tag_def
proof (intro conjI allI impI)
  fix t e v x assume m: "tag_named loose pre t = Some (e, v)"
  obtain w w2 rest where P: "named_parts loose w v w2" "t = pre @ w @ name_eq @ 34 # v @ 34 # w2 @ 62 # rest"
    by (rule tag_named_some [OF m])
  from m have e: "e = length pre + length w + 6 + length v + 1 + length w2 + 1"
    using tag_named_parts [OF P(1), of pre rest] P(2) by simp
  then show "0 < e" "e \<le> length t" using P(2) by (simp_all add: name_eq_codes)
  show "tag_named loose pre (t @ x) = Some (e, v)" using tag_named_parts [OF P(1), of pre "rest @ x"] P(2) e by simp
next
  fix t i x assume none: "tag_named loose pre t = None" and i: "0 < i" "i \<le> length t" and later: "tag_named loose pre (drop i t) \<noteq> None"
  obtain e v where "tag_named loose pre (drop i t) = Some (e, v)" using later by auto
  then obtain w w2 rest where Q: "named_parts loose w v w2" "drop i t = pre @ w @ name_eq @ 34 # v @ 34 # w2 @ 62 # rest"
    by (rule tag_named_some)
  show "tag_named loose pre (t @ x) = None"
  proof (rule ccontr)
    assume "tag_named loose pre (t @ x) \<noteq> None"
    then obtain e' v' where "tag_named loose pre (t @ x) = Some (e', v')" by auto
    then obtain w' w2' rest' where R: "named_parts loose w' v' w2'" "t @ x = pre @ w' @ name_eq @ 34 # v' @ 34 # w2' @ 62 # rest'"
      by (rule tag_named_some)
    let ?M = "pre @ w' @ name_eq @ 34 # v' @ 34 # w2' @ [62]"
    have quote: "34 \<notin> set name_eq" "60 \<notin> set name_eq" by (simp_all add: name_eq_codes)
    have "t @ x = ?M @ rest'" using R(2) by simp
    then obtain y where y: "?M = t @ y \<or> t = ?M @ y" by (metis append_eq_append_conv2)
    have "t \<noteq> ?M @ y" using none tag_named_parts [OF R(1), of pre y] by auto
    then have "?M = take i t @ drop i t @ y" using y by simp
    then have M: "?M = take i t @ pre @ w @ name_eq @ 34 # v @ 34 # w2 @ 62 # rest @ y" unfolding Q(2) by simp
    have two: "count_list ?M 34 = 2" using R(1) named_quotes [OF R(1)] quote pre(4) by (simp add: named_parts_def count_list_0_iff)
    have "count_list ?M 34 \<ge> count_list (take i t) 34 + 2" unfolding M by simp
    then have "34 \<notin> set (take i t)" using two by (simp add: count_list_0_iff)
    then have "pre @ w' @ name_eq = take i t @ pre @ w @ name_eq"
      using M pre(4) quote named_quotes [OF R(1)] named_quotes [OF Q(1)]
        first_split [of "pre @ w' @ name_eq" 34 "v' @ 34 # w2' @ [62]" "take i t @ pre @ w @ name_eq" "v @ 34 # w2 @ 62 # rest @ y"] by simp
    then have "tl (pre @ w' @ name_eq) = tl (take i t @ pre @ w @ name_eq)" by (rule arg_cong)
    also have "\<dots> = tl (take i t) @ pre @ w @ name_eq" using i by (intro tl_append2) auto
    finally have "tl (pre @ w' @ name_eq) = tl (take i t) @ pre @ w @ name_eq" .
    then have "tl pre @ w' @ name_eq = tl (take i t) @ pre @ w @ name_eq" unfolding tl_append2 [OF pre(2)] .
    then have "set (tl pre @ w' @ name_eq) = set (tl (take i t) @ pre @ w @ name_eq)" by (rule arg_cong)
    then have "60 \<in> set (tl pre @ w' @ name_eq)" using hd_in_set [OF pre(2)] pre(1) by auto
    then show False using pre(3) quote named_quotes [OF R(1)] by auto
  qed
qed

section \<open>Every format keeps the promises\<close>

lemma markup_heads:
  "single_head (asc ''<tool_call>'')" "single_head (asc ''</tool_call>'')" "single_head (asc ''<function='')"
  "single_head (asc ''</function>'')" "single_head (asc ''<parameter='')" "single_head (asc ''</parameter>'')"
  "single_head (asc ''<minimax:tool_call>'')" "single_head (asc ''</minimax:tool_call>'')" "single_head (asc ''<invoke'')"
  "single_head (asc ''</invoke>'')" "single_head (asc ''<parameter'')"
  "single_head (asc ''<atem:function_calls>'')" "single_head (asc ''</atem:function_calls>'')" "single_head (asc ''<atem:invoke'')"
  "single_head (asc ''</atem:invoke>'')" "single_head (asc ''<atem:parameter'')" "single_head (asc ''</atem:parameter>'')"
  by code_simp+

lemma markup_apart:
  "\<not> sublist (asc ''</tool_call>'') (asc ''<function='')" "\<not> sublist (asc ''<function='') (asc ''</tool_call>'')"
  "\<not> sublist (asc ''</function>'') (asc ''<parameter='')" "\<not> sublist (asc ''<parameter='') (asc ''</function>'')"
  "\<not> sublist (asc ''</minimax:tool_call>'') (asc ''<invoke'')" "\<not> sublist (asc ''<invoke'') (asc ''</minimax:tool_call>'')"
  "\<not> sublist (asc ''</invoke>'') (asc ''<parameter'')" "\<not> sublist (asc ''<parameter'') (asc ''</invoke>'')"
  "\<not> sublist (asc ''</atem:function_calls>'') (asc ''<atem:invoke'')" "\<not> sublist (asc ''<atem:invoke'') (asc ''</atem:function_calls>'')"
  "\<not> sublist (asc ''</atem:invoke>'') (asc ''<atem:parameter'')" "\<not> sublist (asc ''<atem:parameter'') (asc ''</atem:invoke>'')"
  by code_simp+

lemma markup_hd:
  "hd (asc ''</parameter>'') = 60" "hd (asc ''</atem:parameter>'') = 60" "hd (asc ''<tool_call>'') = 60"
  "hd (asc ''<minimax:tool_call>'') = 60" "hd (asc ''<atem:function_calls>'') = 60"
  by code_simp+

lemma markup_prefix:
  "settled_tag (tag_named loose (asc ''<invoke''))" "settled_tag (tag_named loose (asc ''<parameter''))"
  "settled_tag (tag_named loose (asc ''<atem:invoke''))" "settled_tag (tag_named loose (asc ''<atem:parameter''))"
  by (rule tag_named_settled; code_simp)+

interpretation qwen: invoke_grammar qwen3_coder_grammar
  by unfold_locales
    (simp_all add: qwen3_coder_grammar_def markup_heads markup_apart markup_hd quote_bracket_visible search_settled [OF tag_upto_settled])

interpretation minimax: invoke_grammar minimax_grammar
  by unfold_locales
    (simp_all add: minimax_grammar_def markup_heads markup_apart markup_hd quote_bracket_visible markup_prefix [THEN search_settled])

interpretation muse: invoke_grammar "muse_grammar tools" for tools
  by unfold_locales
    (simp_all add: muse_grammar_def markup_heads markup_apart markup_hd quote_bracket_visible markup_prefix [THEN search_settled])

end
