(* ===== verification/Tool_Roundtrip.thy ===== *)
theory Tool_Roundtrip
  imports Tool_Formats "HOL-Library.While_Combinator"
begin

text \<open>
  What the parser makes of calls that were written the way the chat templates write them, and that its loop
  ends: the lemmas on one turn of a well-written text, the parameters of a call, the call, and the whole text.
\<close>

section \<open>Where a token is found\<close>

lemma find_here: "prefix tok t \<Longrightarrow> find_sub tok t = Some 0"
  by (intro find_sub_eqI [of t "[]" tok "drop (length tok) t", simplified]) (auto simp: prefix_def)

lemma find_later:
  assumes "tok \<noteq> []" and "hd tok \<notin> set gap"
  shows "find_sub tok (gap @ t) = map_option (\<lambda>i. length gap + i) (find_sub tok t)"
  using assms(2)
proof (induction gap)
  case (Cons c gap)
  have "\<not> prefix tok (c # gap @ t)" using Cons.prems assms(1) by (cases tok) auto
  then show ?case using Cons by (simp add: find_sub_code option.map_comp o_def)
next
  case Nil
  show ?case by (cases "find_sub tok t") simp_all
qed

lemma find_after_text:
  assumes one: "single_head tok" and no: "\<not> contains tok t"
  shows "find_sub tok (t @ tok @ r) = Some (length t)"
proof (rule find_sub_eqI)
  fix i assume i: "i < length t"
  show "\<not> prefix tok (drop i (t @ tok @ r))"
  proof
    assume p: "prefix tok (drop i (t @ tok @ r))"
    then have p: "prefix tok (drop i t @ tok @ r)" using i by simp
    show False
    proof (cases "length tok \<le> length t - i")
      case True
      then have "prefix tok (drop i t)" using p by (metis length_drop prefixI prefix_length_prefix)
      then have "sublist tok t" by (metis prefix_imp_sublist sublist_drop sublist_order.order.trans)
      then show False using no by (simp add: contains_iff)
    next
      case False
      define n where "n = length t - i"
      have n: "0 < n" "n < length tok" using False i by (simp_all add: n_def)
      obtain z where z: "drop i t @ tok @ r = tok @ z" using p by (auto simp: prefix_def)
      have "(drop i t @ tok @ r) ! n = (tok @ z) ! n" unfolding z ..
      moreover have "(drop i t @ tok @ r) ! n = (tok @ r) ! 0" by (simp add: n_def nth_append)
      moreover have "(tok @ r) ! 0 = tok ! 0" using n by (cases tok) simp_all
      moreover have "(tok @ z) ! n = tok ! n" using n by (simp only: nth_append) simp
      ultimately have "tok ! 0 = tok ! n" by simp
      moreover have "tok ! n \<in> set (tl tok)" using n by (cases tok) (auto simp: nth_Cons split: nat.splits)
      ultimately show False using one by (cases tok) (auto simp: single_head_def)
    qed
  qed
qed simp

text \<open>Behind a gap that starts no token, the token that stands there comes first.\<close>

lemma token_first:
  assumes tok: "tok \<noteq> []" "hd tok \<notin> set gap" "prefix tok t" and other: "other \<noteq> []" "hd other \<notin> set gap"
    and apart: "\<not> sublist tok other" "\<not> sublist other tok"
  shows "find_sub tok (gap @ t) = Some (length gap)"
    and "find_sub other (gap @ t) = None \<or> length gap < the (find_sub other (gap @ t))"
proof -
  show "find_sub tok (gap @ t) = Some (length gap)" using find_later [OF tok(1,2), of t] find_here [OF tok(3)] by simp
  have "find_sub other t \<noteq> Some 0"
    using find_sub_Some [of other t 0] tok(3) apart by (metis drop_0 prefix_imp_sublist prefix_same_cases)
  then show "find_sub other (gap @ t) = None \<or> length gap < the (find_sub other (gap @ t))"
    unfolding find_later [OF other] by (cases "find_sub other t") auto
qed

lemma search_here: "m t = Some r \<Longrightarrow> re_search m t = Some r"
  by (cases t) simp_all

section \<open>The loop ends\<close>

text \<open>What the loop gives when it is left after a turn.\<close>

fun left_with :: "turn \<Rightarrow> (ps_out \<times> ps_state) result" where
  "left_with (Raised e, os) = Inl e"
| "left_with (_, os) = Inr os"

text \<open>The loop as it is written, without a bound on its turns.\<close>

definition unbounded_loop :: "py_lib \<Rightarrow> bool \<Rightarrow> grammar \<Rightarrow> tool list \<Rightarrow> ps_state \<Rightarrow> (ps_out \<times> ps_state) result option" where
  "unbounded_loop L fw g tools s =
     map_option left_with (while_option (\<lambda>(v, _). v = Again) (\<lambda>(_, out, s). ps_turn L fw g tools out s) (Again, no_out, s))"

context invoke_grammar
begin

lemma loop_returns:
  "length (ps_buffer s) < n \<Longrightarrow>
    map_option left_with (while_option (\<lambda>(v, _). v = Again) (\<lambda>(_, out, s). ps_turn L fw g tools out s) (Again, out, s)) =
    Some (ps_loop L fw g tools n out s)"
proof (induction n arbitrary: out s)
  case (Suc n)
  obtain v d s' where t: "ps_turn L fw g tools out s = (v, d, s')" by (cases "ps_turn L fw g tools out s")
  show ?case
  proof (cases v)
    case Again
    then have "length (ps_buffer s') < n" using turn_shrinks [of L fw tools out s d s'] t Suc.prems by simp
    from Suc.IH [OF this] show ?thesis using t Again by (subst while_option_unfold) simp
  next
    case Halt
    then show ?thesis using t by (subst while_option_unfold, simp, subst while_option_unfold) simp
  next
    case (Raised e)
    then show ?thesis using t by (subst while_option_unfold, simp, subst while_option_unfold) simp
  qed
qed simp

lemma increment_returns:
  "unbounded_loop L fw g tools (s\<lparr>ps_buffer := ps_buffer s @ new_text\<rparr>) = Some (ps_increment L fw g tools new_text s)"
  unfolding unbounded_loop_def ps_increment_def Let_def by (rule loop_returns) simp

section \<open>One turn of a well-written text\<close>

lemma go_meaning: "ps_turn L fw g tools no_out s = (Again, d, s') \<Longrightarrow> meaning L fw g tools s acc = meaning L fw g tools s' (add_out d acc)"
  by (simp add: meaning_turn)

lemma text_meaning:
  assumes mode: "ps_mode s = Idle" and buf: "ps_buffer s = txt @ outer_open g @ r" and no: "\<not> contains (outer_open g) txt"
  shows "meaning L fw g tools s acc = meaning L fw g tools (s\<lparr>ps_buffer := r, ps_mode := InBlock\<rparr>) (add_text txt acc)"
proof -
  let ?s = "s\<lparr>ps_buffer := outer_open g @ r\<rparr>"
  have "ps_turn L fw g tools no_out ?s = (Again, no_out, s\<lparr>ps_buffer := r, ps_mode := InBlock\<rparr>)"
    using mode nonempty find_here [of "outer_open g" "outer_open g @ r"] by (simp add: ps_turn_def idle_turn_def go_def)
  from go_meaning [OF this, of "add_text txt acc"]
  have open': "meaning L fw g tools ?s (add_text txt acc) = meaning L fw g tools (s\<lparr>ps_buffer := r, ps_mode := InBlock\<rparr>) (add_text txt acc)"
    by simp
  show ?thesis
  proof (cases "txt = []")
    case True
    then have "?s = s" using buf by simp
    then show ?thesis using open' True by simp
  next
    case False
    have "ps_turn L fw g tools no_out s = (Again, put_text txt no_out, ?s)"
      using mode buf False find_after_text [OF heads(1) no, of r] by (simp add: ps_turn_def idle_turn_def go_def Let_def)
    from go_meaning [OF this, of acc] show ?thesis using open' by (simp add: add_out_def put_text_def no_out_def)
  qed
qed

lemma invoke_meaning:
  assumes mode: "ps_mode s = InBlock" and buf: "ps_buffer s = gap @ tagtext @ r"
    and gap: "hd (invoke_prefix g) \<notin> set gap" "hd (outer_close g) \<notin> set gap"
    and tag: "prefix (invoke_prefix g) tagtext" "\<And>r. invoke_tag g (tagtext @ r) = Some (length tagtext, raw)"
    and name: "canonical_name g (strip raw) = name" and known: "known_tool fw tools name" and id: "0 \<le> i" "i = (if tool_id s = - 1 then 0 else tool_id s)"
  shows "\<exists>s'. meaning L fw g tools s acc = meaning L fw g tools s' (Call i name [] # acc) \<and> ps_mode s' = Invoke \<and> ps_buffer s' = r \<and>
     tool_id s' = i \<and> nat i < length (streamed_args s') \<and> \<not> ps_args_started s' \<and> ps_config s' = get_param_config name tools"
proof -
  have p: "prefix (invoke_prefix g) (tagtext @ r)" using tag(1) by simp
  note F = token_first [OF nonempty(3) gap(1) p nonempty(2) gap(2) apart(2,1)]
  obtain s' where s': "s' = s\<lparr>tool_id := i, prev_calls := (pad_to i None (prev_calls s))[nat i := Some (name, JObj [])],
      streamed_args := pad_to i [] (streamed_args s), ps_buffer := r, ps_args_started := False,
      ps_config := get_param_config name tools, ps_mode := Invoke\<rparr>" by blast
  have se: "re_search (invoke_tag g) (tagtext @ r) = Some (length tagtext, raw)" by (rule search_here, rule tag(2))
  have ne: "tagtext \<noteq> []" using tag(1) nonempty(3) by auto
  have no: "\<not> (find_sub (outer_close g) (gap @ tagtext @ r) \<noteq> None \<and>
      (find_sub (invoke_prefix g) (gap @ tagtext @ r) = None \<or> the (find_sub (outer_close g) (gap @ tagtext @ r)) < the (find_sub (invoke_prefix g) (gap @ tagtext @ r))))"
    using F by auto
  have "ps_turn L fw g tools no_out s = (Again, no_out\<lparr>out_calls := [ToolItem i (Some name) []]\<rparr>, s')"
    unfolding ps_turn_def block_turn_def Let_def buf using no F(1) se mode nonempty name known id
    by (simp add: ne go_def s' no_out_def)
  from go_meaning [OF this, of acc] have "meaning L fw g tools s acc = meaning L fw g tools s' (Call i name [] # acc)"
    by (simp add: add_out_def no_out_def)
  moreover have "nat i < length (streamed_args s')" using id(1) by (simp add: s' pad_to_def)
  ultimately show ?thesis by (intro exI [of _ s']) (simp add: s')
qed

lemma close_call_meaning:
  assumes mode: "ps_mode s = Invoke" and buf: "ps_buffer s = gap @ invoke_close g @ r"
    and gap: "hd (invoke_close g) \<notin> set gap" "hd (param_prefix g) \<notin> set gap" and id: "tool_id s = i" "nat i < length (streamed_args s)"
  shows "\<exists>s'. meaning L fw g tools s (Call i name q # acc) =
       meaning L fw g tools s' (Call i name (q @ (if ps_args_started s then asc ''}'' else asc ''{}'')) # acc) \<and>
     ps_mode s' = InBlock \<and> ps_buffer s' = r \<and> tool_id s' = i + 1"
proof -
  have p: "prefix (invoke_close g) (invoke_close g @ r)" by simp
  note F = token_first [OF nonempty(4) gap(1) p nonempty(5) gap(2) apart(3,4)]
  let ?f = "if ps_args_started s then asc ''}'' else asc ''{}''"
  define t where "t = note_args L (keep_args ?f s)"
  define s' where "s' = t\<lparr>tool_id := i + 1, streamed_args := pad_to (i + 1) [] (streamed_args t), ps_buffer := r, ps_mode := InBlock\<rparr>"
  have yes: "find_sub (invoke_close g) (gap @ invoke_close g @ r) \<noteq> None \<and> (find_sub (param_prefix g) (gap @ invoke_close g @ r) = None \<or>
      the (find_sub (invoke_close g) (gap @ invoke_close g @ r)) < the (find_sub (param_prefix g) (gap @ invoke_close g @ r)))"
    using F by auto
  have f: "?f \<noteq> []" by (cases "ps_args_started s") (simp_all, code_simp+)
  have "ps_turn L fw g tools no_out s = (Again, put_args i ?f no_out, s')"
    unfolding ps_turn_def invoke_turn_def Let_def buf using yes F(1) mode nonempty id
    by (simp add: go_def s'_def t_def emit_pair update_pair)
  from go_meaning [OF this, of "Call i name q # acc"] show ?thesis using f by (intro exI [of _ s']) (simp add: put_add s'_def)
qed

lemma close_block_meaning:
  assumes mode: "ps_mode s = InBlock" and buf: "ps_buffer s = gap @ outer_close g @ r"
    and gap: "hd (outer_close g) \<notin> set gap" "hd (invoke_prefix g) \<notin> set gap"
  shows "meaning L fw g tools s acc = meaning L fw g tools (s\<lparr>ps_buffer := r, ps_mode := Idle\<rparr>) acc"
proof -
  have p: "prefix (outer_close g) (outer_close g @ r)" by simp
  note F = token_first [OF nonempty(2) gap(1) p nonempty(3) gap(2) apart(1,2)]
  have yes: "find_sub (outer_close g) (gap @ outer_close g @ r) \<noteq> None \<and> (find_sub (invoke_prefix g) (gap @ outer_close g @ r) = None \<or>
      the (find_sub (outer_close g) (gap @ outer_close g @ r)) < the (find_sub (invoke_prefix g) (gap @ outer_close g @ r)))"
    using F by auto
  have "ps_turn L fw g tools no_out s = (Again, no_out, s\<lparr>ps_buffer := r, ps_mode := Idle\<rparr>)"
    unfolding ps_turn_def block_turn_def Let_def buf using yes F(1) mode nonempty by (simp add: go_def)
  from go_meaning [OF this, of acc] show ?thesis by simp
qed

lemma trim_before_close: "trim_leading g (raw @ param_close g @ r) = trim_leading g raw @ param_close g @ r"
  using trim_apart nonempty(6) by (cases raw; cases "param_close g") (auto simp: trim_leading_def dropWhile_append3)

lemma trim_suffix: "suffix (trim_leading g raw) raw"
  by (cases raw) (auto simp: trim_leading_def suffix_dropWhile suffix_ConsI)

lemma trim_once: "\<not> trim_single g \<Longrightarrow> trim_leading g (trim_leading g t) = trim_leading g t"
  by (simp add: trim_leading_def dropWhile_idem)

definition value_text :: "py_lib \<Rightarrow> config \<Rightarrow> utext \<Rightarrow> utext \<Rightarrow> utext result" where
  "value_text L config key v =
     (if is_string_type (schema_param_type L key config (missing_type g)) then Inr (json_string v)
      else rbind (ps_convert_value L g config key v) json_dumps)"

lemma string_meaning:
  assumes mode: "ps_mode s = ParamStr" and flag: "\<not> ps_lead_trimmed s" and buf: "ps_buffer s = raw @ param_close g @ r"
    and no: "\<not> contains (param_close g) raw" and id: "tool_id s = i"
  shows "\<exists>s'. meaning L fw g tools s (Call i name q # acc) =
       meaning L fw g tools s' (Call i name (q @ json_escape (trim_trailing g (trim_leading g raw)) @ [34]) # acc) \<and>
     ps_mode s' = Invoke \<and> ps_buffer s' = r \<and> tool_id s' = i \<and> length (streamed_args s') = length (streamed_args s) \<and>
     ps_args_started s' = ps_args_started s \<and> ps_config s' = ps_config s"
proof -
  let ?raw = "trim_leading g raw" let ?b = "?raw @ param_close g @ r" let ?f = "json_escape (trim_trailing g ?raw) @ [34]"
  define u where "u = s\<lparr>ps_buffer := ?b, ps_lead_trimmed := (?b \<noteq> ps_buffer s) \<or> ps_lead_trimmed s\<rparr>"
  have first: "meaning L fw g tools s (Call i name q # acc) = meaning L fw g tools u (Call i name q # acc)"
  proof (cases "?b = ps_buffer s")
    case True
    then have "u = s" by (simp add: u_def)
    then show ?thesis by simp
  next
    case False
    have "ps_turn L fw g tools no_out s = (Again, no_out, u)"
      unfolding ps_turn_def string_turn_def Let_def buf trim_before_close using False mode flag nonempty buf
      by (simp add: go_def u_def)
    from go_meaning [OF this, of "Call i name q # acc"] show ?thesis by simp
  qed
  have still: "\<not> (\<not> ps_lead_trimmed u \<and> trim_leading g ?b \<noteq> ?b)"
    using flag buf trim_before_close [of raw r] by (auto simp: u_def)
  have "\<not> contains (param_close g) ?raw"
    using no trim_suffix [of raw] unfolding contains_iff by (meson suffix_imp_sublist sublist_order.order.trans)
  from find_after_text [OF heads(6) this] have f: "find_sub (param_close g) ?b = Some (length ?raw)" .
  define s' where "s' = (note_args L (keep_args ?f (u\<lparr>ps_lead_trimmed := True\<rparr>)))\<lparr>ps_buffer := r, ps_mode := Invoke\<rparr>"
  have fields: "ps_mode u = ParamStr" "ps_buffer u = ?b" "tool_id u = i" using mode id by (simp_all add: u_def)
  have "ps_turn L fw g tools no_out u = (Again, put_args i ?f no_out, s')"
    unfolding ps_turn_def string_turn_def Let_def fields if_not_P [OF still] using f fields nonempty
    by (simp add: go_def s'_def emit_pair update_pair)
  from go_meaning [OF this, of "Call i name q # acc"] show ?thesis
    using first by (intro exI [of _ s']) (simp add: put_add s'_def u_def keep_args_def id)
qed

lemma buffered_meaning:
  assumes mode: "ps_mode s = ParamBuf" and buf: "ps_buffer s = raw @ param_close g @ r"
    and no: "\<not> contains (param_close g) raw" and id: "tool_id s = i"
  shows "\<exists>s'. meaning L fw g tools s (Call i name q # acc) =
       rbind (rbind (ps_convert_value L g (ps_config s) (ps_key s) (trim_trailing g (trim_leading g raw))) json_dumps)
         (\<lambda>v. meaning L fw g tools s' (Call i name (q @ ps_lead s @ json_string (ps_key s) @ [58] @ v) # acc)) \<and>
     ps_mode s' = Invoke \<and> ps_buffer s' = r \<and> tool_id s' = i \<and> length (streamed_args s') = length (streamed_args s) \<and>
     ps_args_started s' = ps_args_started s \<and> ps_config s' = ps_config s"
proof -
  let ?v = "rbind (ps_convert_value L g (ps_config s) (ps_key s) (trim_trailing g (trim_leading g raw))) json_dumps"
  have f: "find_sub (param_close g) (raw @ param_close g @ r) = Some (length raw)" by (rule find_after_text [OF heads(6) no])
  show ?thesis
  proof (cases ?v)
    case (Inl e)
    have "ps_turn L fw g tools no_out s = (Raised e, no_out, s)"
      unfolding ps_turn_def buffered_turn_def Let_def buf using f mode id nonempty Inl by (simp add: fail_with_def)
    from meaning_turn [OF this, of "Call i name q # acc"] show ?thesis
      using Inl id by (intro exI [of _ "s\<lparr>ps_buffer := r, ps_mode := Invoke\<rparr>"]) simp
  next
    case (Inr v)
    let ?f = "ps_lead s @ json_string (ps_key s) @ [58] @ v"
    define s' where "s' = (note_args L (keep_args ?f s))\<lparr>ps_buffer := r, ps_mode := Invoke\<rparr>"
    have "ps_turn L fw g tools no_out s = (Again, put_args i ?f no_out, s')"
      unfolding ps_turn_def buffered_turn_def Let_def buf using f mode id nonempty Inr
      by (simp add: go_def s'_def emit_pair update_pair)
    from go_meaning [OF this, of "Call i name q # acc"] show ?thesis
      using Inr by (intro exI [of _ s']) (simp add: put_add s'_def keep_args_def id)
  qed
qed

lemma param_meaning:
  assumes mode: "ps_mode s = Invoke" and buf: "ps_buffer s = gap @ tagtext @ raw @ param_close g @ r"
    and gap: "hd (param_prefix g) \<notin> set gap" "hd (invoke_close g) \<notin> set gap"
    and tag: "prefix (param_prefix g) tagtext" "\<And>r. param_tag g (tagtext @ r) = Some (length tagtext, rawkey)"
    and no: "\<not> contains (param_close g) raw" and id: "tool_id s = i" "nat i < length (streamed_args s)"
  shows "\<exists>s'. meaning L fw g tools s (Call i name q # acc) =
       rbind (value_text L (ps_config s) (strip rawkey) (trim_trailing g (trim_leading g raw))) (\<lambda>v. meaning L fw g tools s'
         (Call i name (q @ (if ps_args_started s then asc '','' else asc ''{'') @ json_string (strip rawkey) @ [58] @ v) # acc)) \<and>
     ps_mode s' = Invoke \<and> ps_buffer s' = r \<and> tool_id s' = i \<and> nat i < length (streamed_args s') \<and>
     ps_args_started s' \<and> ps_config s' = ps_config s"
proof -
  let ?t = "tagtext @ raw @ param_close g @ r" let ?lead = "if ps_args_started s then asc '','' else asc ''{''"
  let ?key = "strip rawkey" let ?str = "is_string_type (schema_param_type L ?key (ps_config s) (missing_type g))"
  have p: "prefix (param_prefix g) ?t" using tag(1) by simp
  note F = token_first [OF nonempty(5) gap(1) p nonempty(4) gap(2) apart(4,3)]
  have no': "\<not> (find_sub (invoke_close g) (gap @ ?t) \<noteq> None \<and>
      (find_sub (param_prefix g) (gap @ ?t) = None \<or> the (find_sub (invoke_close g) (gap @ ?t)) < the (find_sub (param_prefix g) (gap @ ?t))))"
    using F by auto
  have se: "re_search (param_tag g) ?t = Some (length tagtext, rawkey)" by (rule search_here, rule tag(2))
  have ne: "tagtext \<noteq> []" using tag(1) nonempty(5) by auto
  let ?u = "s\<lparr>ps_buffer := raw @ param_close g @ r, ps_key := ?key, ps_args_started := True\<rparr>"
  show ?thesis
  proof (cases ?str)
    case True
    let ?f = "?lead @ json_string ?key @ [58, 34]"
    define u where "u = (keep_args ?f ?u)\<lparr>ps_lead_trimmed := False, ps_mode := ParamStr\<rparr>"
    have "ps_turn L fw g tools no_out s = (Again, put_args i ?f no_out, u)"
      unfolding ps_turn_def invoke_turn_def Let_def buf if_not_P [OF no'] using F(1) se mode id True
      by (simp add: ne go_def u_def emit_pair)
    from go_meaning [OF this, of "Call i name q # acc"]
    have A: "meaning L fw g tools s (Call i name q # acc) = meaning L fw g tools u (Call i name (q @ ?f) # acc)" by (simp add: put_add)
    have u: "ps_mode u = ParamStr" "\<not> ps_lead_trimmed u" "ps_buffer u = raw @ param_close g @ r" "tool_id u = i"
      "length (streamed_args u) = length (streamed_args s)" "ps_args_started u" "ps_config u = ps_config s"
      using id by (simp_all add: u_def keep_args_def)
    from string_meaning [OF u(1,2,3) no u(4), of L fw tools name "q @ ?f" acc] obtain s' where
      S: "meaning L fw g tools u (Call i name (q @ ?f) # acc) =
          meaning L fw g tools s' (Call i name ((q @ ?f) @ json_escape (trim_trailing g (trim_leading g raw)) @ [34]) # acc)"
        "ps_mode s' = Invoke" "ps_buffer s' = r" "tool_id s' = i" "length (streamed_args s') = length (streamed_args u)"
        "ps_args_started s' = ps_args_started u" "ps_config s' = ps_config u" by blast
    show ?thesis unfolding A S(1) using S(2-) u id True
      by (intro exI [of _ s']) (simp add: value_text_def json_string_def)
  next
    case False
    define u where "u = ?u\<lparr>ps_lead := ?lead, ps_mode := ParamBuf\<rparr>"
    have "ps_turn L fw g tools no_out s = (Again, no_out, u)"
      unfolding ps_turn_def invoke_turn_def Let_def buf if_not_P [OF no'] using F(1) se mode id False
      by (simp add: ne go_def u_def)
    from go_meaning [OF this, of "Call i name q # acc"]
    have A: "meaning L fw g tools s (Call i name q # acc) = meaning L fw g tools u (Call i name q # acc)" by simp
    have u: "ps_mode u = ParamBuf" "ps_buffer u = raw @ param_close g @ r" "tool_id u = i" "ps_lead u = ?lead" "ps_key u = ?key"
      "length (streamed_args u) = length (streamed_args s)" "ps_args_started u" "ps_config u = ps_config s"
      using id by (simp_all add: u_def)
    from buffered_meaning [OF u(1,2) no u(3), of L fw tools name q acc] obtain s' where
      S: "meaning L fw g tools u (Call i name q # acc) =
          rbind (rbind (ps_convert_value L g (ps_config u) (ps_key u) (trim_trailing g (trim_leading g raw))) json_dumps)
            (\<lambda>v. meaning L fw g tools s' (Call i name (q @ ps_lead u @ json_string (ps_key u) @ [58] @ v) # acc))"
        "ps_mode s' = Invoke" "ps_buffer s' = r" "tool_id s' = i" "length (streamed_args s') = length (streamed_args u)"
        "ps_args_started s' = ps_args_started u" "ps_config s' = ps_config u" by blast
    show ?thesis unfolding A S(1) using S(2-) u id False
      by (intro exI [of _ s']) (simp add: value_text_def)
  qed
qed

lemma tail_meaning:
  assumes mode: "ps_mode s = Idle" and no: "\<not> contains (outer_open g) (ps_buffer s)"
  shows "meaning L fw g tools s acc = Inr (add_text (ps_buffer s) acc)"
proof (cases "ps_buffer s = []")
  case True
  then have "ps_turn L fw g tools no_out s = (Halt, no_out, s)" by (simp add: ps_turn_def stop_def)
  from meaning_turn [OF this, of acc] show ?thesis using True by (simp add: ps_finish_def Let_def)
next
  case False
  let ?b = "ps_buffer s" let ?h = "ends_with_partial_token ?b (outer_open g)" let ?n = "length ?b - ?h"
  have "find_sub (outer_open g) ?b = None" using no by (simp add: contains_def)
  then have t: "ps_turn L fw g tools no_out s = (Halt, put_text (take ?n ?b) no_out, s\<lparr>ps_buffer := drop ?n ?b\<rparr>)"
    using mode False by (simp add: ps_turn_def idle_turn_def stop_def Let_def min_def)
  have "\<not> contains (outer_open g) (drop ?n ?b)"
    using no unfolding contains_iff by (meson sublist_drop sublist_order.order.trans)
  moreover have "drop ?n ?b = [] \<or> strip (drop ?n ?b) \<noteq> []"
  proof (rule disjCI)
    assume visible: "\<not> strip (drop ?n ?b) \<noteq> []"
    have "partial_at (outer_open g) ?b ?h" by (rule partial_token [OF heads(1)])
    then have "prefix (drop ?n ?b) (outer_open g)" by (simp add: partial_at_def last_n_def)
    moreover have "\<forall>c \<in> set (drop ?n ?b). is_space c"
      using visible rstrip_split [of "drop ?n ?b"] by (auto simp: strip_def lstrip_def dropWhile_eq_Nil_conv dest!: set_takeWhileD)
         (metis Un_iff set_append set_rev set_takeWhileD)
    ultimately show "drop ?n ?b = []" using open_visible by (cases "drop ?n ?b"; cases "outer_open g") auto
  qed
  ultimately have "fst (ps_finish g (s\<lparr>ps_buffer := drop ?n ?b\<rparr>)) = drop ?n ?b"
    using mode by (auto simp: ps_finish_def Let_def)
  then show ?thesis using meaning_turn [OF t, of acc] by (simp add: add_out_def put_text_def no_out_def)
qed

end

section \<open>Calls as the Qwen3-Coder template writes them\<close>

definition qwen_param :: "utext \<times> utext \<Rightarrow> utext" where
  "qwen_param kv = [10] @ asc ''<parameter='' @ fst kv @ [62, 10] @ snd kv @ [10] @ asc ''</parameter>''"

definition qwen_call :: "utext \<Rightarrow> (utext \<times> utext) list \<Rightarrow> utext" where
  "qwen_call name kvs = asc ''<tool_call>'' @ [10] @ asc ''<function='' @ name @ [62] @ concat (map qwen_param kvs) @
     [10] @ asc ''</function>'' @ [10] @ asc ''</tool_call>''"

type_synonym written = "utext \<times> utext \<times> (utext \<times> utext) list"

fun qwen_text :: "written list \<Rightarrow> utext \<Rightarrow> utext" where
  "qwen_text [] tail = tail"
| "qwen_text ((before, name, kvs) # cs) tail = before @ qwen_call name kvs @ qwen_text cs tail"

text \<open>The text of the JSON value that a schema makes of a written value, the members of a call's arguments, and the arguments. The
  first value that cannot be converted or written raises.\<close>

definition schema_value :: "py_lib \<Rightarrow> config \<Rightarrow> utext \<Rightarrow> utext \<Rightarrow> utext result" where
  "schema_value L config key v =
     (if is_string_type (schema_param_type L key config (asc ''string'')) then Inr (json_string v)
      else rbind (convert_param_value L v key config) json_dumps)"

fun members :: "py_lib \<Rightarrow> config \<Rightarrow> (utext \<times> utext) list \<Rightarrow> utext list result" where
  "members L config [] = Inr []"
| "members L config ((k, v) # kvs) =
     rbind (schema_value L config k v) (\<lambda>t. rbind (members L config kvs) (\<lambda>ms. Inr ((json_string k @ [58] @ t) # ms)))"

definition args_text :: "py_lib \<Rightarrow> config \<Rightarrow> (utext \<times> utext) list \<Rightarrow> utext result" where
  "args_text L config kvs = rbind (members L config kvs) (\<lambda>ms. Inr (asc ''{'' @ join_text (asc '','') ms @ asc ''}''))"

fun pieces_of :: "py_lib \<Rightarrow> tool list \<Rightarrow> int \<Rightarrow> written list \<Rightarrow> utext \<Rightarrow> piece list result" where
  "pieces_of L tools i [] tail = Inr (if tail = [] then [] else [Txt tail])"
| "pieces_of L tools i ((before, name, kvs) # cs) tail =
     rbind (args_text L (get_param_config name tools) kvs) (\<lambda>t. rbind (pieces_of L tools (i + 1) cs tail) (\<lambda>ps.
       Inr ((if before = [] then [] else [Txt before]) @ Call i name t # ps)))"

text \<open>A text without an opener, a name and keys without a bracket and without spaces around them, and values
  without the closing tag.\<close>

definition well_written :: "bool \<Rightarrow> tool list \<Rightarrow> written \<Rightarrow> bool" where
  "well_written fw tools c \<longleftrightarrow>
     (case c of (before, name, kvs) \<Rightarrow> \<not> contains (asc ''<tool_call>'') before \<and> 62 \<notin> set name \<and> strip name = name \<and> known_tool fw tools name \<and>
        list_all (\<lambda>(k, v). 62 \<notin> set k \<and> strip k = k \<and> \<not> contains (asc ''</parameter>'') v) kvs)"

lemma qwen_fields [simp]:
  "outer_open qwen3_coder_grammar = asc ''<tool_call>''" "outer_close qwen3_coder_grammar = asc ''</tool_call>''"
  "invoke_prefix qwen3_coder_grammar = asc ''<function=''" "invoke_tag qwen3_coder_grammar = tag_upto (asc ''<function='')"
  "invoke_close qwen3_coder_grammar = asc ''</function>''" "param_prefix qwen3_coder_grammar = asc ''<parameter=''"
  "param_tag qwen3_coder_grammar = tag_upto (asc ''<parameter='')" "param_close qwen3_coder_grammar = asc ''</parameter>''"
  "canonical_name qwen3_coder_grammar = id" "missing_type qwen3_coder_grammar = asc ''string''"
  by (simp_all add: qwen3_coder_grammar_def)

lemma newline_apart:
  "hd (asc ''</tool_call>'') \<notin> set [10]" "hd (asc ''<function='') \<notin> set [10]" "hd (asc ''</function>'') \<notin> set [10]" "hd (asc ''<parameter='') \<notin> set [10]"
  "asc ''loose'' \<noteq> asc ''string''" "last (asc ''</parameter>'') \<noteq> 10" "hd (asc ''</parameter>'') \<noteq> 10" "asc ''</parameter>'' \<noteq> []"
  by code_simp+

lemma qwen_tag: "62 \<notin> set v \<Longrightarrow> tag_upto pre ((pre @ v @ [62]) @ r) = Some (length (pre @ v @ [62]), v)"
  unfolding tag_upto_eq by (intro exI [of _ r]) simp

lemma qwen_trim: "trim_trailing qwen3_coder_grammar (trim_leading qwen3_coder_grammar ([10] @ v @ [10])) = v"
  by (simp add: trim_trailing_def trim_leading_def qwen3_coder_grammar_def)

lemma qwen_value_text: "qwen.value_text L config k v = schema_value L config k v"
  using newline_apart(5) by (simp add: qwen.value_text_def schema_value_def ps_convert_value_def)

lemma value_in_lines: "\<not> contains (asc ''</parameter>'') v \<Longrightarrow> \<not> contains (asc ''</parameter>'') ([10] @ v @ [10])"
proof
  let ?t = "asc ''</parameter>''"
  assume no: "\<not> contains ?t v" and "contains ?t ([10] @ v @ [10])"
  then obtain a b where ab: "[10] @ v @ [10] = a @ ?t @ b" unfolding contains_iff by (auto simp: sublist_def)
  have a: "a \<noteq> []" using ab newline_apart(7,8) by (cases ?t) auto
  have b: "b \<noteq> []"
  proof
    assume "b = []"
    then have "last (a @ ?t) = 10" using ab by (metis append.right_neutral last_snoc append_assoc)
    then show False using newline_apart(6,8) by simp
  qed
  obtain x a' where "a = x # a'" using a by (cases a) auto
  moreover obtain b' y where "b = b' @ [y]" using b by (cases b rule: rev_cases) auto
  ultimately have "v @ [10] = (a' @ ?t @ b') @ [y]" using ab by simp
  then have "v = a' @ ?t @ b'" unfolding append1_eq_conv ..
  then show False using no unfolding contains_iff by auto
qed

text \<open>The parameters that are still to come, behind the ones that have been read.\<close>

fun further_args :: "py_lib \<Rightarrow> config \<Rightarrow> bool \<Rightarrow> (utext \<times> utext) list \<Rightarrow> utext result" where
  "further_args L config started [] = Inr (if started then asc ''}'' else asc ''{}'')"
| "further_args L config started ((k, v) # kvs) =
     rbind (schema_value L config k v) (\<lambda>t. rbind (further_args L config True kvs) (\<lambda>r.
       Inr ((if started then asc '','' else asc ''{'') @ json_string k @ [58] @ t @ r)))"

lemma further_join:
  "kvs \<noteq> [] \<Longrightarrow> further_args L config True kvs =
     rbind (members L config kvs) (\<lambda>ms. Inr (asc '','' @ join_text (asc '','') ms @ asc ''}''))"
proof (induction kvs)
  case (Cons kv kvs)
  obtain k v where "kv = (k, v)" by (cases kv)
  then show ?case using Cons.IH
    by (cases kvs; cases "schema_value L config k v"; cases "members L config kvs") (auto simp: rbind_def split: sum.splits)
qed simp

lemma further_all: "further_args L config False kvs = args_text L config kvs"
proof (cases kvs)
  case Nil
  have "asc ''{}'' = asc ''{'' @ asc ''}''" by code_simp
  then show ?thesis using Nil by (simp add: args_text_def)
next
  case (Cons kv kvs')
  obtain k v where "kv = (k, v)" by (cases kv)
  then show ?thesis using Cons further_join [of kvs' L config]
    by (cases kvs'; cases "schema_value L config k v"; cases "members L config kvs'") (auto simp: args_text_def rbind_def split: sum.splits)
qed

lemma params_meaning:
  assumes "ps_mode s = Invoke" and "ps_buffer s = concat (map qwen_param kvs) @ [10] @ asc ''</function>'' @ r"
    and "list_all (\<lambda>(k, v). 62 \<notin> set k \<and> strip k = k \<and> \<not> contains (asc ''</parameter>'') v) kvs"
    and "tool_id s = i" and "nat i < length (streamed_args s)"
  shows "\<exists>s'. meaning L fw qwen3_coder_grammar tools s (Call i name q # acc) =
       rbind (further_args L (ps_config s) (ps_args_started s) kvs)
         (\<lambda>t. meaning L fw qwen3_coder_grammar tools s' (Call i name (q @ t) # acc)) \<and>
     ps_mode s' = InBlock \<and> ps_buffer s' = r \<and> tool_id s' = i + 1"
  using assms
proof (induction kvs arbitrary: s q)
  case Nil
  then show ?case using qwen.close_call_meaning [of s "[10]" r i L fw tools name q acc] newline_apart by simp
next
  case (Cons kv kvs)
  obtain k v where kv: "kv = (k, v)" by (cases kv)
  let ?r = "concat (map qwen_param kvs) @ [10] @ asc ''</function>'' @ r"
  have v: "62 \<notin> set k" "strip k = k" "\<not> contains (asc ''</parameter>'') v" using Cons.prems(3) kv by simp_all
  have buf: "ps_buffer s = [10] @ (asc ''<parameter='' @ k @ [62]) @ ([10] @ v @ [10]) @ param_close qwen3_coder_grammar @ ?r"
    using Cons.prems(2) kv by (simp add: qwen_param_def [of "(k, v)"])
  obtain s' where s': "meaning L fw qwen3_coder_grammar tools s (Call i name q # acc) =
        rbind (qwen.value_text L (ps_config s) (strip k) (trim_trailing qwen3_coder_grammar (trim_leading qwen3_coder_grammar ([10] @ v @ [10]))))
          (\<lambda>t. meaning L fw qwen3_coder_grammar tools s'
            (Call i name (q @ (if ps_args_started s then asc '','' else asc ''{'') @ json_string (strip k) @ [58] @ t) # acc))"
      "ps_mode s' = Invoke" "ps_buffer s' = ?r" "tool_id s' = i" "nat i < length (streamed_args s')" "ps_args_started s'" "ps_config s' = ps_config s"
    using qwen.param_meaning [OF Cons.prems(1) buf _ _ _ _ _ Cons.prems(4,5), of k L fw tools name q acc] newline_apart
      qwen_tag [OF v(1), of "asc ''<parameter=''"] value_in_lines [OF v(3)] by auto
  have rest: "list_all (\<lambda>(k, v). 62 \<notin> set k \<and> strip k = k \<and> \<not> contains (asc ''</parameter>'') v) kvs" using Cons.prems(3) by simp
  let ?q = "\<lambda>t. q @ (if ps_args_started s then asc '','' else asc ''{'') @ json_string k @ [58] @ t"
  have A: "meaning L fw qwen3_coder_grammar tools s (Call i name q # acc) =
      rbind (schema_value L (ps_config s) k v) (\<lambda>t. meaning L fw qwen3_coder_grammar tools s' (Call i name (?q t) # acc))"
    unfolding s'(1) qwen_trim qwen_value_text v(2) ..
  obtain t0 where t0: "schema_value L (ps_config s) k v = Inr t \<Longrightarrow> t0 = t" for t by (cases "schema_value L (ps_config s) k v") auto
  obtain u where u: "meaning L fw qwen3_coder_grammar tools s' (Call i name (?q t0) # acc) =
        rbind (further_args L (ps_config s') (ps_args_started s') kvs)
          (\<lambda>t. meaning L fw qwen3_coder_grammar tools u (Call i name (?q t0 @ t) # acc))"
      "ps_mode u = InBlock" "ps_buffer u = r" "tool_id u = i + 1"
    using Cons.IH [OF s'(2,3) rest s'(4,5), of "?q t0"] by blast
  have "meaning L fw qwen3_coder_grammar tools s (Call i name q # acc) =
      rbind (further_args L (ps_config s) (ps_args_started s) (kv # kvs)) (\<lambda>t. meaning L fw qwen3_coder_grammar tools u (Call i name (q @ t) # acc))"
    using A u(1) t0 s'(6,7) kv
    by (cases "schema_value L (ps_config s) k v"; cases "further_args L (ps_config s) True kvs") auto
  then show ?case using u(2-) by blast
qed

lemma call_meaning:
  assumes mode: "ps_mode s = Idle" and buf: "ps_buffer s = before @ qwen_call name kvs @ r" and ok: "well_written fw tools (before, name, kvs)"
    and id: "0 \<le> i" "i = (if tool_id s = - 1 then 0 else tool_id s)"
  shows "\<exists>s'. meaning L fw qwen3_coder_grammar tools s acc =
       rbind (args_text L (get_param_config name tools) kvs)
         (\<lambda>t. meaning L fw qwen3_coder_grammar tools s' (Call i name t # add_text before acc)) \<and>
     ps_mode s' = Idle \<and> ps_buffer s' = r \<and> tool_id s' = i + 1"
proof -
  let ?G = qwen3_coder_grammar
  let ?r3 = "[10] @ asc ''</tool_call>'' @ r"
  let ?r2 = "concat (map qwen_param kvs) @ [10] @ asc ''</function>'' @ ?r3"
  let ?r1 = "[10] @ (asc ''<function='' @ name @ [62]) @ ?r2"
  let ?s1 = "s\<lparr>ps_buffer := ?r1, ps_mode := InBlock\<rparr>"
  have w: "\<not> contains (asc ''<tool_call>'') before" "62 \<notin> set name" "strip name = name" "known_tool fw tools name"
    and l: "list_all (\<lambda>(k, v). 62 \<notin> set k \<and> strip k = k \<and> \<not> contains (asc ''</parameter>'') v) kvs" using ok by (simp_all add: well_written_def)
  have 1: "meaning L fw ?G tools s acc = meaning L fw ?G tools ?s1 (add_text before acc)"
    using qwen.text_meaning [OF mode, of before ?r1] buf w(1) by (simp add: qwen_call_def)
  obtain s2 where s2: "meaning L fw ?G tools ?s1 (add_text before acc) = meaning L fw ?G tools s2 (Call i name [] # add_text before acc)"
      "ps_mode s2 = Invoke" "ps_buffer s2 = ?r2" "tool_id s2 = i" "nat i < length (streamed_args s2)" "\<not> ps_args_started s2"
      "ps_config s2 = get_param_config name tools"
  proof -
    have "ps_mode ?s1 = InBlock" "ps_buffer ?s1 = [10] @ (asc ''<function='' @ name @ [62]) @ ?r2"
      "i = (if tool_id ?s1 = - 1 then 0 else tool_id ?s1)" using id by simp_all
    from qwen.invoke_meaning [OF this(1,2) _ _ _ _ _ w(4) id(1) this(3), of name L "add_text before acc"] show thesis
      using that newline_apart w qwen_tag [OF w(2), of "asc ''<function=''"] by auto
  qed
  obtain s3 where s3: "meaning L fw ?G tools s2 (Call i name [] # add_text before acc) =
        rbind (further_args L (ps_config s2) (ps_args_started s2) kvs) (\<lambda>t. meaning L fw ?G tools s3 (Call i name ([] @ t) # add_text before acc))"
      "ps_mode s3 = InBlock" "ps_buffer s3 = ?r3" "tool_id s3 = i + 1"
    using params_meaning [OF s2(2,3) l s2(4,5), of L fw tools name "[]" "add_text before acc"] by blast
  let ?s4 = "s3\<lparr>ps_buffer := r, ps_mode := Idle\<rparr>"
  have 4: "meaning L fw ?G tools s3 acc' = meaning L fw ?G tools ?s4 acc'" for acc'
    using qwen.close_block_meaning [of s3 "[10]" r L fw tools acc'] s3 newline_apart by simp
  show ?thesis using 1 s2 s3 4 by (intro exI [of _ ?s4]) (simp add: further_all)
qed

lemma text_pieces:
  assumes "ps_mode s = Idle" and "ps_buffer s = qwen_text cs tail" and "list_all (well_written fw tools) cs" and "\<not> contains (asc ''<tool_call>'') tail"
    and "0 \<le> i" and "i = (if tool_id s = - 1 then 0 else tool_id s)" and "\<forall>t r. acc \<noteq> Txt t # r"
  shows "meaning L fw qwen3_coder_grammar tools s acc = rbind (pieces_of L tools i cs tail) (\<lambda>ps. Inr (rev ps @ acc))"
  using assms
proof (induction cs arbitrary: s i acc)
  case Nil
  then show ?case using qwen.tail_meaning [of s L fw tools acc] by (auto simp: add_text.simps split: list.split piece.split)
next
  case (Cons c cs)
  obtain before name kvs where c: "c = (before, name, kvs)" by (cases c)
  obtain s' where s': "meaning L fw qwen3_coder_grammar tools s acc =
       rbind (args_text L (get_param_config name tools) kvs) (\<lambda>t. meaning L fw qwen3_coder_grammar tools s' (Call i name t # add_text before acc))"
     "ps_mode s' = Idle" "ps_buffer s' = qwen_text cs tail" "tool_id s' = i + 1"
    using call_meaning [of s before name kvs "qwen_text cs tail" fw tools i L acc] Cons.prems c by auto
  have "meaning L fw qwen3_coder_grammar tools s' (Call i name t # add_text before acc) =
      rbind (pieces_of L tools (i + 1) cs tail) (\<lambda>ps. Inr (rev ps @ Call i name t # add_text before acc))" for t
    using Cons.IH [OF s'(2,3), of "i + 1"] Cons.prems s'(4) by simp
  then show ?case using s'(1) c Cons.prems(7)
    by (cases "args_text L (get_param_config name tools) kvs"; cases "pieces_of L tools (i + 1) cs tail")
      (auto simp: add_text.simps split: list.split piece.split)
qed

end
