(* ===== verification/Tool_Ledger.thy ===== *)
theory Tool_Ledger
  imports Tool_Runs
begin

text \<open>
  The ledger of the streamed arguments: what the parser keeps for a call is exactly what it has put out for it,
  and every fragment belongs to a call that has been announced.
\<close>

section \<open>What has been put out for a call\<close>

definition params_of :: "int \<Rightarrow> tool_item list \<Rightarrow> utext" where
  "params_of i items = concat (map item_params (filter (\<lambda>x. item_index x = i) items))"

definition ledger_of :: "int \<Rightarrow> ps_state \<Rightarrow> utext" where
  "ledger_of i s = (if 0 \<le> i \<and> nat i < length (streamed_args s) then streamed_args s ! nat i else [])"

text \<open>A call is being read; its number is the one of the last entry.\<close>

definition live :: "ps_state \<Rightarrow> bool" where
  "live s \<longleftrightarrow> ps_mode s = Invoke \<or> ps_mode s = ParamStr \<or> ps_mode s = ParamBuf"

definition ledger_inv :: "ps_state \<Rightarrow> bool" where
  "ledger_inv s \<longleftrightarrow> - 1 \<le> tool_id s \<and> (live s \<longrightarrow> 0 \<le> tool_id s \<and> nat (tool_id s) < length (streamed_args s))"

lemma params_simps [simp]:
  "params_of i [] = []" "params_of i (a @ b) = params_of i a @ params_of i b"
  "params_of i [ToolItem j n p] = (if j = i then p else [])"
  by (simp_all add: params_of_def)

lemma put_params [simp]: "params_of i (out_calls (put_args j f out)) = params_of i (out_calls out) @ (if j = i then f else [])"
  by (simp add: put_args_def)

lemma ledger_fields [simp]:
  "ledger_of i (s\<lparr>ps_buffer := b\<rparr>) = ledger_of i s" "ledger_of i (s\<lparr>ps_mode := m\<rparr>) = ledger_of i s"
  "ledger_of i (s\<lparr>ps_lead_trimmed := t\<rparr>) = ledger_of i s" "ledger_of i (s\<lparr>ps_lead := l\<rparr>) = ledger_of i s"
  "ledger_of i (s\<lparr>ps_key := k\<rparr>) = ledger_of i s" "ledger_of i (s\<lparr>ps_args_started := a\<rparr>) = ledger_of i s"
  "ledger_of i (s\<lparr>ps_config := c\<rparr>) = ledger_of i s" "ledger_of i (s\<lparr>tool_id := d\<rparr>) = ledger_of i s"
  "ledger_of i (s\<lparr>prev_calls := p\<rparr>) = ledger_of i s" "ledger_of i (note_args L s) = ledger_of i s"
  "ledger_of i (s\<lparr>streamed_args := pad_to d [] (streamed_args s)\<rparr>) = ledger_of i s"
  by (auto simp: ledger_of_def pad_to_def nth_append)

lemma ledger_keep [simp]:
  "0 \<le> tool_id s \<Longrightarrow> nat (tool_id s) < length (streamed_args s) \<Longrightarrow>
    ledger_of i (keep_args f s) = ledger_of i s @ (if tool_id s = i then f else [])"
  by (auto simp: ledger_of_def keep_args_def nth_list_update eq_nat_nat_iff)

lemma keep_length [simp]: "length (streamed_args (keep_args f s)) = length (streamed_args s)"
  by (simp add: keep_args_def)

lemma ledger_dead: "\<not> live s \<Longrightarrow> - 1 \<le> tool_id s \<Longrightarrow> ledger_inv s"
  by (simp add: ledger_inv_def)

lemma ledger_live: "0 \<le> tool_id s \<Longrightarrow> nat (tool_id s) < length (streamed_args s) \<Longrightarrow> ledger_inv s"
  by (simp add: ledger_inv_def)

lemma ledger_inv_fields [simp]:
  "ledger_inv (s\<lparr>ps_buffer := b\<rparr>) = ledger_inv s" "ledger_inv (s\<lparr>ps_lead_trimmed := t\<rparr>) = ledger_inv s"
  by (simp_all add: ledger_inv_def live_def)

section \<open>The turns\<close>

lemma idle_ledger:
  assumes "idle_turn g no_out s = (b, d, s')" and "ledger_inv s" and "ps_mode s = Idle"
  shows "ledger_inv s' \<and> ledger_of i s' = ledger_of i s @ params_of i (out_calls d)"
proof -
  have "tool_id s' = tool_id s \<and> streamed_args s' = streamed_args s \<and> \<not> live s' \<and> out_calls d = []"
    using assms(1,3) by (auto simp: idle_turn_def go_def stop_def put_text_def Let_def live_def split: option.splits if_splits)
  then show ?thesis using assms(2) by (auto simp: ledger_of_def ledger_inv_def)
qed

lemma block_ledger:
  assumes "block_turn fw g tools no_out s = (b, d, s')" and "ledger_inv s" and "ps_mode s = InBlock"
  shows "ledger_inv s' \<and> ledger_of i s' = ledger_of i s @ params_of i (out_calls d)"
proof -
  define j where "j = (if tool_id s = - 1 then 0 else tool_id s)"
  have j: "0 \<le> j" "- 1 \<le> tool_id s" using assms(2) by (auto simp: ledger_inv_def j_def)
  have "(tool_id s' = tool_id s \<and> streamed_args s' = streamed_args s \<and> \<not> live s' \<and> out_calls d = []) \<or>
      (tool_id s' = j \<and> streamed_args s' = pad_to j [] (streamed_args s) \<and> params_of i (out_calls d) = [])"
    using assms(1,3) unfolding block_turn_def Let_def j_def [symmetric]
    by (auto simp: go_def stop_def live_def split: option.splits if_splits)
  then show ?thesis using j by (auto simp: ledger_of_def ledger_inv_def pad_to_def nth_append)
qed

text \<open>A fragment is put out for the current call, or nothing is.\<close>

definition one_fragment :: "ps_state \<Rightarrow> ps_out \<Rightarrow> ps_state \<Rightarrow> bool" where
  "one_fragment s d s' \<longleftrightarrow> (tool_id s' = tool_id s \<or> tool_id s' = tool_id s + 1) \<and>
     (\<forall>i. i \<noteq> tool_id s \<longrightarrow> params_of i (out_calls d) = []) \<and>
     streamed_args s' = pad_to (tool_id s') [] ((streamed_args s)[nat (tool_id s) :=
       streamed_args s ! nat (tool_id s) @ params_of (tool_id s) (out_calls d)])"

lemma streamed_keep [simp]:
  "nat (tool_id s) < length (streamed_args s) \<Longrightarrow>
    streamed_args (keep_args f s) = (streamed_args s)[nat (tool_id s) := streamed_args s ! nat (tool_id s) @ f]"
  by (simp add: keep_args_def)

lemma fragment_ledger:
  assumes "one_fragment s d s'" and "ledger_inv s" and "live s"
  shows "ledger_inv s' \<and> ledger_of i s' = ledger_of i s @ params_of i (out_calls d)"
proof -
  have s: "0 \<le> tool_id s" "nat (tool_id s) < length (streamed_args s)" using assms(2,3) by (simp_all add: ledger_inv_def)
  have "ledger_inv s'" using assms(1) s by (intro ledger_live) (auto simp: one_fragment_def pad_to_def)
  moreover have "ledger_of i s' = ledger_of i s @ params_of i (out_calls d)"
    using assms(1) s by (cases "i = tool_id s")
      (auto simp: one_fragment_def ledger_of_def pad_to_def nth_append nth_list_update eq_nat_nat_iff)
  ultimately show ?thesis by blast
qed

lemma pad_enough: "nat j < length xs \<Longrightarrow> pad_to j v xs = xs"
  by (simp add: pad_to_def)

lemma skip_ledger:
  assumes "\<not> live s'" and "tool_id s' = tool_id s" and "streamed_args s' = streamed_args s" and "d = no_out" and "ledger_inv s"
  shows "ledger_inv s' \<and> ledger_of i s' = ledger_of i s @ params_of i (out_calls d)"
  using assms by (simp add: ledger_inv_def ledger_of_def)

lemma invoke_ledger:
  assumes "invoke_turn L g no_out s = (b, d, s')" and "ledger_inv s" and "ps_mode s = Invoke \<or> ps_mode s = InvokeSkip"
  shows "ledger_inv s' \<and> ledger_of i s' = ledger_of i s @ params_of i (out_calls d)"
proof (cases "ps_mode s = Invoke")
  case True
  then have live: "live s" by (simp add: live_def)
  then have "nat (tool_id s) < length (streamed_args s)" using assms(2) by (simp add: ledger_inv_def)
  then have "one_fragment s d s'" using assms(1) True
    by (auto simp: invoke_turn_def go_def stop_def Let_def emit_pair update_pair one_fragment_def pad_enough
        split: option.splits if_splits)
  then show ?thesis using fragment_ledger [OF _ assms(2) live] by blast
next
  case False
  then show ?thesis using assms
    by (intro skip_ledger) (auto simp: invoke_turn_def go_def stop_def Let_def live_def split: option.splits if_splits)
qed

lemma string_ledger:
  assumes "string_turn L g no_out s = (b, d, s')" and "ledger_inv s" and "ps_mode s = ParamStr"
  shows "ledger_inv s' \<and> ledger_of i s' = ledger_of i s @ params_of i (out_calls d)"
proof -
  have live: "live s" using assms(3) by (simp add: live_def)
  then have "nat (tool_id s) < length (streamed_args s)" using assms(2) by (simp add: ledger_inv_def)
  then have "one_fragment s d s'" using assms(1,3)
    by (auto simp: string_turn_def go_def stop_def Let_def emit_pair update_pair one_fragment_def pad_enough
        split: option.splits if_splits)
  then show ?thesis using fragment_ledger [OF _ assms(2) live] by blast
qed

lemma buffered_ledger:
  assumes "buffered_turn L g no_out s = (b, d, s')" and "ledger_inv s" and "ps_mode s = ParamBuf \<or> ps_mode s = ParamSkip"
  shows "ledger_inv s' \<and> ledger_of i s' = ledger_of i s @ params_of i (out_calls d)"
proof (cases "ps_mode s = ParamBuf")
  case True
  then have live: "live s" by (simp add: live_def)
  then have "nat (tool_id s) < length (streamed_args s)" using assms(2) by (simp add: ledger_inv_def)
  then have "one_fragment s d s'" using assms(1) True
    by (auto simp: buffered_turn_def go_def stop_def fail_with_def Let_def emit_pair update_pair one_fragment_def pad_enough
        split: option.splits if_splits sum.splits)
  then show ?thesis using fragment_ledger [OF _ assms(2) live] by blast
next
  case False
  then show ?thesis using assms
    by (intro skip_ledger) (auto simp: buffered_turn_def go_def stop_def Let_def live_def split: option.splits if_splits)
qed

lemma turn_ledger:
  assumes "ps_turn L fw g tools no_out s = (b, d, s')" and "ledger_inv s"
  shows "ledger_inv s' \<and> ledger_of i s' = ledger_of i s @ params_of i (out_calls d)"
  using assms idle_ledger [of g s b d s' i] block_ledger [of fw g tools s b d s' i] invoke_ledger [of L g s b d s' i]
    string_ledger [of L g s b d s' i] buffered_ledger [of L g s b d s' i]
  by (cases "ps_mode s") (auto simp: ps_turn_def stop_def split: if_splits)

section \<open>The runs\<close>

lemma loop_ledger:
  "ps_loop L fw g tools n out s = Inr (out', s') \<Longrightarrow> ledger_inv s \<Longrightarrow> 
    \<exists>e. params_of i (out_calls out') = params_of i (out_calls out) @ e \<and> ledger_inv s' \<and> ledger_of i s' = ledger_of i s @ e"
proof (induction n arbitrary: out s)
  case (Suc n)
  obtain v d t where t: "ps_turn L fw g tools out s = (v, d, t)" by (cases "ps_turn L fw g tools out s")
  show ?case
  proof (cases "ps_mode s = Idle \<and> out_calls out \<noteq> []")
    case True
    then have "ps_turn L fw g tools out s = (Halt, out, s)" by (simp add: ps_turn_def idle_turn_def stop_def Let_def)
    then show ?thesis using Suc.prems by simp
  next
    case False
    obtain d' where d': "ps_turn L fw g tools no_out s = (v, d', t)" "d = plus_out out d'"
      using turn_frame [of s out L fw g tools] False t by (cases "ps_turn L fw g tools no_out s") auto
    note T = turn_ledger [OF d'(1) Suc.prems(2), of i]
    show ?thesis
    proof (cases v)
      case Again
      then have "ps_loop L fw g tools n d t = Inr (out', s')" using Suc.prems(1) t by simp
      from Suc.IH [OF this] T obtain e where
        "params_of i (out_calls out') = params_of i (out_calls d) @ e" "ledger_inv s'" "ledger_of i s' = ledger_of i t @ e" by auto
      then show ?thesis using T d'(2) by (intro exI [of _ "params_of i (out_calls d') @ e"]) simp
    next
      case Halt
      then show ?thesis using Suc.prems(1) t T d'(2) by (intro exI [of _ "params_of i (out_calls d')"]) auto
    next
      case (Raised e)
      then show ?thesis using Suc.prems(1) t by simp
    qed
  qed
qed auto

lemma increment_ledger:
  assumes "ps_increment L fw g tools y s = Inr (out, s')" and "ledger_inv s"
  shows "ledger_inv s' \<and> ledger_of i s' = ledger_of i s @ params_of i (out_calls out)"
  using assms loop_ledger [of L fw g tools _ no_out "s\<lparr>ps_buffer := ps_buffer s @ y\<rparr>" out s' i]
  by (auto simp: ps_increment_def Let_def simp del: ps_loop.simps)

definition items_of :: "segment list \<Rightarrow> tool_item list" where
  "items_of segs = concat (map (\<lambda>x. case x of TextSeg _ \<Rightarrow> [] | CallSeg cs \<Rightarrow> cs) segs)"

lemma items_simps [simp]: "items_of [] = []" "items_of (a @ b) = items_of a @ items_of b" "items_of (segments_of out) = out_calls out"
  by (simp_all add: items_of_def segments_of_def)

lemma drain_ledger:
  "drain_events L fw g tools n y s = Inr (segs, s') \<Longrightarrow> ledger_inv s \<Longrightarrow> ledger_inv s' \<and> ledger_of i s' = ledger_of i s @ params_of i (items_of segs)"
proof (induction n arbitrary: y s segs s')
  case (Suc n)
  obtain out t where t: "ps_increment L fw g tools y s = Inr (out, t)" using Suc.prems(1) by (auto simp: rbind_Inr_conv)
  note T = increment_ledger [OF t Suc.prems(2), of i]
  show ?case
  proof (cases "y = [] \<and> out = no_out")
    case False
    then obtain more where "drain_events L fw g tools n [] t = Inr (more, s')" "segs = segments_of out @ more"
      using Suc.prems(1) t by (auto simp: rbind_Inr_conv)
    then show ?thesis using Suc.IH [of "[]" t more s'] T by auto
  qed (use Suc.prems(1) t T in auto)
qed simp

lemma feed_ledger:
  "feed_events L fw g tools xs s = Inr (segs, s') \<Longrightarrow> ledger_inv s \<Longrightarrow>
    ledger_inv s' \<and> ledger_of i s' = ledger_of i s @ params_of i (items_of segs)"
proof (induction xs arbitrary: s segs s')
  case (Cons y ys)
  obtain a t b where a: "parse_stream_events L fw g tools y s = Inr (a, t)" and b: "feed_events L fw g tools ys t = Inr (b, s')" "segs = a @ b"
    using Cons.prems(1) by (auto simp: rbind_Inr_conv)
  have "ledger_inv t \<and> ledger_of i t = ledger_of i s @ params_of i (items_of a)"
    using a drain_ledger [of L fw g tools 16 y s a t i] Cons.prems(2) by (auto simp: parse_stream_events_def items_of_def split: if_splits)
  then show ?case using Cons.IH [OF b(1)] b(2) by auto
qed simp

end
