(* ===== verification/Tool_Properties.thy ===== *)
theory Tool_Properties
  imports Tool_Roundtrip Tool_Ledger "HOL-Library.Code_Target_Nat"
begin

text \<open>
  The properties of streamed tool calls.
\<close>

section \<open>Examples\<close>

text \<open>A library that reads two texts as numbers, and a tool with two declared parameters.\<close>

definition plain_lib :: py_lib where
  "plain_lib = \<lparr>py_int = (\<lambda>t. if t = asc ''7'' then Some 7 else None), py_float = (\<lambda>t. if t = asc ''inf'' then Some Infinity else None),
     json_loads = (\<lambda>_. None), literal_eval = (\<lambda>_. Inl ValueError), py_str = (\<lambda>_. asc ''string'')\<rparr>"

definition weather :: tool where
  "weather = \<lparr>tool_name = asc ''sky'',
     tool_params = Some (JObj [(asc ''properties'', JObj [
       (asc ''days'', JObj [(asc ''type'', JStr (asc ''integer''))]), (asc ''height'', JObj [(asc ''type'', JStr (asc ''number''))])])])\<rparr>"

definition asked :: written where
  "asked = (asc ''Ok. '', asc ''sky'', [(asc ''city'', asc ''Oslo''), (asc ''days'', asc ''7'')])"

definition too_high :: written where
  "too_high = ([], asc ''sky'', [(asc ''height'', asc ''inf'')])"

text \<open>A text in pieces of the given lengths.\<close>

fun pieces_by :: "nat list \<Rightarrow> utext \<Rightarrow> utext list" where
  "pieces_by [] t = [t]"
| "pieces_by (n # ns) t = take n t # pieces_by ns (drop n t)"

section \<open>Any chunks\<close>

text \<open>C7. Whatever the chunks in which a text of Qwen3-Coder or MiniMax calls arrives, the streaming parser ends with the
  same transcript: the same text and the same calls with the same arguments in the same order, or, when a value cannot be
  converted or written, the same exception. The text opens at most fourteen tool-call blocks, which the sixteen drains of a
  chunk always get through, or the drains were enough for the last chunk of each stream.\<close>

theorem tool_stream_any_chunks:
  assumes "g = qwen3_coder_grammar \<or> g = minimax_grammar" and "tools \<noteq> []" and "concat xs = concat ys"
    and "occurrences (outer_open g) (concat xs) \<le> 14 \<or> (drained L fw g tools xs \<and> drained L fw g tools ys)"
  shows "transcript L fw g tools xs = transcript L fw g tools ys"
proof -
  have d: "drained L fw g tools xs" "drained L fw g tools ys"
    using assms qwen.few_blocks_drained minimax.few_blocks_drained by metis+
  show ?thesis using assms(1) qwen.transcript_meaning [OF assms(2), of L fw] minimax.transcript_meaning [OF assms(2), of L fw] d assms(3) by auto
qed

theorem tool_stream_any_chunks_witness:
  "transcript plain_lib True qwen3_coder_grammar [weather] (pieces_by [3, 9, 17, 1, 20, 8] (qwen_text [asked] [33])) =
   transcript plain_lib True qwen3_coder_grammar [weather] [qwen_text [asked] [33]]"
proof (rule tool_stream_any_chunks)
  show "concat (pieces_by [3, 9, 17, 1, 20, 8] (qwen_text [asked] [33])) = concat [qwen_text [asked] [33]]" by (simp del: drop_drop)
  have "occurrences (outer_open qwen3_coder_grammar) (concat (pieces_by [3, 9, 17, 1, 20, 8] (qwen_text [asked] [33]))) \<le> 14" by code_simp
  then show "occurrences (outer_open qwen3_coder_grammar) (concat (pieces_by [3, 9, 17, 1, 20, 8] (qwen_text [asked] [33]))) \<le> 14 \<or>
      drained plain_lib True qwen3_coder_grammar [weather] (pieces_by [3, 9, 17, 1, 20, 8] (qwen_text [asked] [33])) \<and>
      drained plain_lib True qwen3_coder_grammar [weather] [qwen_text [asked] [33]]" ..
qed simp_all

section \<open>Calls are read back\<close>

text \<open>C8. Calls that are written as the Qwen3-Coder template writes them, with any text before each of them and behind the
  last, are read back from any chunks: the texts as they were, every call with its number, its name and, as its
  arguments, the JSON object that its keys and the values its schema makes of them give. The first value that cannot be
  converted or written ends the stream with its exception, as an infinite number does. The text opens at most fourteen
  tool-call blocks, or the sixteen drains were enough for the last chunk.\<close>

theorem qwen_calls_read_back:
  assumes "list_all (well_written fw tools) cs" and "\<not> contains (asc ''<tool_call>'') tail" and "tools \<noteq> []"
    and "concat xs = qwen_text cs tail"
    and "occurrences (asc ''<tool_call>'') (concat xs) \<le> 14 \<or> drained L fw qwen3_coder_grammar tools xs"
  shows "transcript L fw qwen3_coder_grammar tools xs = pieces_of L tools 0 cs tail"
proof -
  let ?s = "arrive (concat xs) new_ps"
  have "meaning L fw qwen3_coder_grammar tools ?s [] = rbind (pieces_of L tools 0 cs tail) (\<lambda>ps. Inr (rev ps))"
    using text_pieces [of ?s cs tail fw tools 0 "[]" L] assms(1,2,4) by (simp add: new_ps_def arrive_def)
  moreover have "drained L fw qwen3_coder_grammar tools xs" using assms(3,5) qwen.few_blocks_drained [of tools xs L fw] by auto
  ultimately show ?thesis using qwen.transcript_meaning [OF assms(3), of L fw xs] by (cases "pieces_of L tools 0 cs tail") simp_all
qed

theorem qwen_calls_read_back_witness:
  "transcript plain_lib False qwen3_coder_grammar [weather] (pieces_by [3, 9, 17, 1, 20, 8] (qwen_text [asked] [33])) =
     Inr [Txt (asc ''Ok. ''), Call 0 (asc ''sky'') (asc ''{\"city\":\"Oslo\",\"days\":7}''), Txt [33]] \<and>
   transcript plain_lib False qwen3_coder_grammar [weather] [qwen_text [asked, too_high] []] = Inl OverflowError"
proof -
  have "transcript plain_lib False qwen3_coder_grammar [weather] (pieces_by [3, 9, 17, 1, 20, 8] (qwen_text [asked] [33])) =
     pieces_of plain_lib [weather] 0 [asked] [33]"
    by (rule qwen_calls_read_back) (simp del: drop_drop | rule disjI1, code_simp | code_simp)+
  also have "\<dots> = Inr [Txt (asc ''Ok. ''), Call 0 (asc ''sky'') (asc ''{\"city\":\"Oslo\",\"days\":7}''), Txt [33]]" by code_simp
  finally have read: "transcript plain_lib False qwen3_coder_grammar [weather] (pieces_by [3, 9, 17, 1, 20, 8] (qwen_text [asked] [33])) = \<dots>" .
  have "transcript plain_lib False qwen3_coder_grammar [weather] [qwen_text [asked, too_high] []] = pieces_of plain_lib [weather] 0 [asked, too_high] []"
    by (rule qwen_calls_read_back) (simp | rule disjI1, code_simp | code_simp)+
  also have "\<dots> = Inl OverflowError" by code_simp
  finally show ?thesis using read by simp
qed

section \<open>The ledger\<close>

text \<open>C39. For every call, the ledger of streamed arguments is exactly what the parser has put out for it: whatever the
  format, the tools and the chunks, after every chunk that has not raised an exception no fragment is lost, doubled or booked
  under another call. (A chunk that raises puts out nothing, so that the ledger may then be ahead.)\<close>

theorem tool_ledger_exact:
  assumes "feed_events L fw g tools xs new_ps = Inr (segs, s)"
  shows "ledger_of i s = params_of i (items_of segs)"
proof -
  have "ledger_inv new_ps" "ledger_of i new_ps = []" by (simp_all add: ledger_inv_def live_def ledger_of_def new_ps_def)
  then show ?thesis using feed_ledger [OF assms, of i] by simp
qed

definition fed :: "segment list \<times> ps_state" where
  "fed = (case feed_events plain_lib False qwen3_coder_grammar [weather] (pieces_by [3, 9, 17, 1, 20, 8] (qwen_text [asked] [33])) new_ps of
     Inr r \<Rightarrow> r | Inl e \<Rightarrow> ([], new_ps))"

theorem tool_ledger_exact_witness:
  "ledger_of 0 (snd fed) = params_of 0 (items_of (fst fed)) \<and> ledger_of 0 (snd fed) = asc ''{\"city\":\"Oslo\",\"days\":7}''"
proof
  have "feed_events plain_lib False qwen3_coder_grammar [weather] (pieces_by [3, 9, 17, 1, 20, 8] (qwen_text [asked] [33])) new_ps =
      Inr (fst fed, snd fed)" by code_simp
  from tool_ledger_exact [OF this] show "ledger_of 0 (snd fed) = params_of 0 (items_of (fst fed))" .
  show "ledger_of 0 (snd fed) = asc ''{\"city\":\"Oslo\",\"days\":7}''" by code_simp
qed

section \<open>The loop returns\<close>

text \<open>C40. The parsing loop, run as it is written with no bound on its turns, is left after finitely many turns for every format,
  text and state, by its break or by an exception, and with what the bounded loop of the model computes.\<close>

theorem tool_loop_returns:
  "unbounded_loop L fw qwen3_coder_grammar tools (s\<lparr>ps_buffer := ps_buffer s @ new_text\<rparr>) =
     Some (ps_increment L fw qwen3_coder_grammar tools new_text s) \<and>
   unbounded_loop L fw minimax_grammar tools (s\<lparr>ps_buffer := ps_buffer s @ new_text\<rparr>) =
     Some (ps_increment L fw minimax_grammar tools new_text s) \<and>
   unbounded_loop L fw (muse_grammar tools) tools (s\<lparr>ps_buffer := ps_buffer s @ new_text\<rparr>) =
     Some (ps_increment L fw (muse_grammar tools) tools new_text s)"
  by (intro conjI qwen.increment_returns minimax.increment_returns muse.increment_returns)

end
