(* ===== verification/Daemon_Accounting.thy ===== *)
theory Daemon_Accounting
  imports Core
begin

text \<open>
  Final accounting of an engine that the daemon stops or loses (\<open>daemon/accounting.py\<close> and the receipts of
  \<open>daemon/serve_manager.py\<close>): what a snapshot of the engine's totals must hold, the receipts that are made of it,
  and the outbox, a directory with one file per receipt.
\<close>

section \<open>Documents and receipts\<close>

text \<open>A JSON document as Python reads it.\<close>

datatype doc = DNull | DBool bool | DInt int | DFloat py_float | DStr string | DList "doc list" | DObj "(string \<times> doc) list"

text \<open>A process is identified by its pid and its start time. The text of a name and its UUID are a parameter.\<close>

datatype proc_ident = Ident (id_pid: int) (id_start: "int option")

datatype receipt_name = InstanceName string | SnapshotName "string option" proc_ident string int int | CrashName proc_ident | LegacyName proc_ident

record receipt =
  receipt_id :: string
  created_at :: int
  instance_id :: "string option"
  model_id :: "string option"
  prompt_total :: "int option"
  completion_total :: "int option"
  uptime :: "int option"
  drain_complete :: bool
  degraded :: bool
  best_effort :: bool
  reason :: "string option"

datatype acct_error = PrepareError | OutboxError | StopUnavailable | InvalidId | OtherError

section \<open>Snapshots\<close>

definition doc_get :: "string \<Rightarrow> (string \<times> doc) list \<Rightarrow> doc" where
  "doc_get k kvs = (case map_of kvs k of Some v \<Rightarrow> v | None \<Rightarrow> DNull)"

text \<open>\<open>d.get(a, d.get(b))\<close>\<close>

definition doc_get2 :: "string \<Rightarrow> string \<Rightarrow> (string \<times> doc) list \<Rightarrow> doc" where
  "doc_get2 a b kvs = (case map_of kvs a of Some v \<Rightarrow> v | None \<Rightarrow> doc_get b kvs)"

fun truthy :: "doc \<Rightarrow> bool" where
  "truthy DNull = False"
| "truthy (DBool b) = b"
| "truthy (DInt i) = (i \<noteq> 0)"
| "truthy (DFloat f) = (f \<noteq> Finite 0)"
| "truthy (DStr s) = (s \<noteq> [])"
| "truthy (DList xs) = (xs \<noteq> [])"
| "truthy (DObj kvs) = (kvs \<noteq> [])"

fun as_obj :: "doc \<Rightarrow> (string \<times> doc) list" where
  "as_obj (DObj kvs) = kvs"
| "as_obj _ = []"

fun token_total :: "doc \<Rightarrow> int option" where
  "token_total (DInt i) = (if 0 \<le> i then Some i else None)"
| "token_total _ = None"

text \<open>A number that is not below zero, and \<open>int\<close> of it, which raises on what is not finite.\<close>

fun uptime_ok :: "doc \<Rightarrow> bool" where
  "uptime_ok (DInt i) = (0 \<le> i)"
| "uptime_ok (DFloat (Finite q)) = (0 \<le> q)"
| "uptime_ok (DFloat (Infinite positive)) = positive"
| "uptime_ok (DFloat NaN) = True"
| "uptime_ok _ = False"

fun int_of :: "doc \<Rightarrow> acct_error + int" where
  "int_of (DInt i) = Inr i"
| "int_of (DFloat (Finite q)) = Inr (if 0 \<le> q then \<lfloor>q\<rfloor> else \<lceil>q\<rceil>)"
| "int_of _ = Inl OtherError"

type_synonym totals = "string option \<times> string \<times> int \<times> int \<times> doc"

definition snapshot_values :: "doc \<Rightarrow> string option \<Rightarrow> bool \<Rightarrow> acct_error + totals" where
  "snapshot_values snapshot model require_instance =
     (case snapshot of
        DObj kvs \<Rightarrow>
          if doc_get ''reachable'' kvs = DBool False \<or> doc_get ''running'' kvs = DBool False then Inl PrepareError
          else
            let inst = doc_get2 ''instance_id'' ''instanceId'' kvs;
                mid = doc_get2 ''model_id'' ''modelId'' kvs;
                mid = (case doc_get ''model'' kvs of DObj ms \<Rightarrow> if mid = DNull then doc_get ''id'' ms else mid | _ \<Rightarrow> mid);
                mid = (if truthy mid then mid else case model of Some m \<Rightarrow> DStr m | None \<Rightarrow> DNull);
                requests = as_obj (doc_get ''requests'' kvs);
                p = doc_get2 ''prompt_tokens_total'' ''promptTokensTotal'' kvs;
                p = (if p = DNull then doc_get2 ''prompt_tokens_total'' ''promptTokensTotal'' requests else p);
                c = doc_get2 ''completion_tokens_total'' ''completionTokensTotal'' kvs;
                c = (if c = DNull then doc_get2 ''completion_tokens_total'' ''completionTokensTotal'' requests else c);
                up = doc_get2 ''uptime_s'' ''uptimeS'' kvs in
            (case (inst, mid, token_total p, token_total c) of
               (DNull, DStr m, Some pt, Some ct) \<Rightarrow>
                 if require_instance \<or> m = [] \<or> \<not> uptime_ok up then Inl PrepareError else Inr (None, m, pt, ct, up)
             | (DStr i, DStr m, Some pt, Some ct) \<Rightarrow>
                 if i = [] \<or> m = [] \<or> \<not> uptime_ok up then Inl PrepareError else Inr (Some i, m, pt, ct, up)
             | _ \<Rightarrow> Inl PrepareError)
      | _ \<Rightarrow> Inl PrepareError)"

section \<open>Receipts\<close>

text \<open>The names of receipts, the hooks that are there, and what the world answers to one call: the engine to its
  endpoints, the clock, and the disk.\<close>

record acct_cfg =
  stable_receipt_id :: "receipt_name \<Rightarrow> string"
  has_prepare :: bool
  has_stats :: bool

record answers =
  prepared :: "acct_error + doc"
  stats :: "acct_error + doc"
  wall_ms :: int
  disk_ok :: bool

definition sealed_receipt :: "acct_cfg \<Rightarrow> answers \<Rightarrow> doc \<Rightarrow> string option \<Rightarrow> acct_error + receipt" where
  "sealed_receipt C a prep model =
     (case snapshot_values prep model True of
        Inl e \<Rightarrow> Inl e
      | Inr (inst, m, p, c, up) \<Rightarrow>
          if doc_get2 ''drain_complete'' ''drainComplete'' (as_obj prep) \<noteq> DBool True then Inl PrepareError
          else case int_of up of
            Inl e \<Rightarrow> Inl e
          | Inr u \<Rightarrow> Inr \<lparr>receipt_id = stable_receipt_id C (InstanceName (the inst)), created_at = max 0 (wall_ms a), instance_id = inst,
                model_id = Some m, prompt_total = Some p, completion_total = Some c, uptime = Some u, drain_complete = True,
                degraded = False, best_effort = False, reason = None\<rparr>)"

definition degraded_receipt :: "acct_cfg \<Rightarrow> answers \<Rightarrow> proc_ident \<Rightarrow> string option \<Rightarrow> string \<Rightarrow> receipt" where
  "degraded_receipt C a i model why =
     \<lparr>receipt_id = stable_receipt_id C (LegacyName i), created_at = max 0 (wall_ms a), instance_id = None, model_id = model,
      prompt_total = None, completion_total = None, uptime = None, drain_complete = False, degraded = True, best_effort = True,
      reason = Some why\<rparr>"

definition stats_receipt :: "acct_cfg \<Rightarrow> answers \<Rightarrow> proc_ident \<Rightarrow> string option \<Rightarrow> string \<Rightarrow> doc \<Rightarrow> acct_error + receipt" where
  "stats_receipt C a i model why snapshot =
     (case snapshot_values snapshot model False of
        Inl e \<Rightarrow> Inl e
      | Inr (inst, m, p, c, up) \<Rightarrow>
          (case int_of up of
             Inl e \<Rightarrow> Inl e
           | Inr u \<Rightarrow> Inr \<lparr>receipt_id = stable_receipt_id C (SnapshotName inst i m p c), created_at = max 0 (wall_ms a), instance_id = inst,
                 model_id = Some m, prompt_total = Some p, completion_total = Some c, uptime = Some u, drain_complete = False,
                 degraded = True, best_effort = True, reason = Some why\<rparr>))"

definition best_effort_receipt :: "acct_cfg \<Rightarrow> answers \<Rightarrow> proc_ident \<Rightarrow> string option \<Rightarrow> int option \<Rightarrow> string \<Rightarrow> bool \<Rightarrow> acct_error + receipt" where
  "best_effort_receipt C a i model port why force =
     (let tried = (if \<not> has_stats C \<or> port = None then Inl PrepareError
                   else case stats a of Inl e \<Rightarrow> Inl e | Inr d \<Rightarrow> stats_receipt C a i model why d) in
      case tried of
        Inr r \<Rightarrow> Inr r
      | Inl _ \<Rightarrow> if force then Inr (degraded_receipt C a i model (why @ ''-stats-unavailable'')) else Inl PrepareError)"

text \<open>The receipt of a stop: the sealed one of the engine, or, for an engine that knows no such endpoint or by force, the best
  that can be had.\<close>

definition stop_receipt :: "acct_cfg \<Rightarrow> answers \<Rightarrow> proc_ident \<Rightarrow> string option \<Rightarrow> int option \<Rightarrow> bool \<Rightarrow> acct_error + receipt" where
  "stop_receipt C a i model port force =
     (let sealed = (if \<not> has_prepare C then Inl StopUnavailable
                    else if port = None then Inl PrepareError
                    else case prepared a of Inl e \<Rightarrow> Inl e | Inr d \<Rightarrow> sealed_receipt C a d model) in
      case sealed of
        Inr r \<Rightarrow> Inr r
      | Inl StopUnavailable \<Rightarrow> best_effort_receipt C a i model port ''legacy-engine'' force
      | Inl _ \<Rightarrow> if force then best_effort_receipt C a i model port ''prepare-stop-failed'' True else Inl PrepareError)"

section \<open>The outbox\<close>

text \<open>The files by their names, without the suffix; a file whose receipt has another id is refused when it is read.\<close>

type_synonym outbox = "(string \<times> receipt) list"

definition safe_id :: "string \<Rightarrow> bool" where
  "safe_id s \<longleftrightarrow> s \<noteq> [] \<and> length s \<le> 200 \<and>
     list_all (\<lambda>c. let n = of_char c in (n :: nat) \<in> {65..90} \<or> n \<in> {97..122} \<or> n \<in> {48..57} \<or> n = 46 \<or> n = 95 \<or> n = 45) s"

definition outbox_persist :: "bool \<Rightarrow> receipt \<Rightarrow> outbox \<Rightarrow> acct_error + (receipt \<times> outbox)" where
  "outbox_persist disk r box =
     (if \<not> safe_id (receipt_id r) then Inl InvalidId
      else case map_of box (receipt_id r) of
        Some old \<Rightarrow> if receipt_id old = receipt_id r then Inr (old, box) else Inl OutboxError
      | None \<Rightarrow> if disk then Inr (r, (receipt_id r, r) # box) else Inl OutboxError)"

definition outbox_ack :: "bool \<Rightarrow> string \<Rightarrow> outbox \<Rightarrow> acct_error + (bool \<times> outbox)" where
  "outbox_ack disk rid box =
     (if \<not> safe_id rid then Inl InvalidId
      else if map_of box rid = None then Inr (True, box)
      else if disk then Inr (False, filter (\<lambda>(k, _). k \<noteq> rid) box) else Inl OutboxError)"

fun text_le :: "string \<Rightarrow> string \<Rightarrow> bool" where
  "text_le [] _ = True"
| "text_le (_ # _) [] = False"
| "text_le (a # as) (b # bs) = ((of_char a :: nat) < of_char b \<or> (a = b \<and> text_le as bs))"

definition receipt_le :: "receipt \<Rightarrow> receipt \<Rightarrow> bool" where
  "receipt_le a b \<longleftrightarrow> created_at a < created_at b \<or> (created_at a = created_at b \<and> text_le (receipt_id a) (receipt_id b))"

fun put_receipt :: "receipt \<Rightarrow> receipt list \<Rightarrow> receipt list" where
  "put_receipt r [] = [r]"
| "put_receipt r (x # xs) = (if receipt_le r x then r # x # xs else x # put_receipt r xs)"

definition outbox_pending :: "outbox \<Rightarrow> acct_error + receipt list" where
  "outbox_pending box =
     (if list_all (\<lambda>(k, r). receipt_id r = k) box then Inr (foldr put_receipt (map snd box) []) else Inl OutboxError)"

section \<open>What the outbox promises\<close>

lemma persist_stored:
  assumes "outbox_persist disk r box = Inr (r', box')"
  shows "map_of box' (receipt_id r) = Some r' \<and> receipt_id r' = receipt_id r \<and> (\<forall>k v. map_of box k = Some v \<longrightarrow> map_of box' k = Some v)"
  using assms by (cases "map_of box (receipt_id r)") (auto simp: outbox_persist_def split: if_splits)

text \<open>A retry finds the receipt of the first attempt and writes nothing.\<close>

lemma persist_again:
  assumes "safe_id (receipt_id r)" and "map_of box (receipt_id r) = Some old" and "receipt_id old = receipt_id r"
  shows "outbox_persist disk r box = Inr (old, box)"
  using assms by (simp add: outbox_persist_def)

lemma map_of_without: "map_of (filter (\<lambda>(k, _). k \<noteq> rid) box) k = (if k = rid then None else map_of box k)"
  by (induction box) auto

lemma ack_removes: "outbox_ack disk rid box = Inr (b, box') \<Longrightarrow> map_of box' rid = None \<and> (\<forall>k. k \<noteq> rid \<longrightarrow> map_of box' k = map_of box k)"
  by (auto simp: outbox_ack_def map_of_without split: if_splits)

text \<open>What the manager relies on: a store of receipts by their ids, which are checked, where a receipt that is there is never
  written again.\<close>

locale receipt_store =
  fixes find_receipt :: "'box \<Rightarrow> string \<Rightarrow> receipt option"
    and persist :: "bool \<Rightarrow> receipt \<Rightarrow> 'box \<Rightarrow> acct_error + (receipt \<times> 'box)"
    and ack :: "bool \<Rightarrow> string \<Rightarrow> 'box \<Rightarrow> acct_error + (bool \<times> 'box)"
    and id_ok :: "string \<Rightarrow> bool"
  assumes checked: "persist disk r box = Inr (r', box') \<Longrightarrow> id_ok (receipt_id r)"
    and stored: "persist disk r box = Inr (r', box') \<Longrightarrow> find_receipt box' (receipt_id r) = Some r' \<and> receipt_id r' = receipt_id r"
    and grows: "persist disk r box = Inr (r', box') \<Longrightarrow> find_receipt box k = Some v \<Longrightarrow> find_receipt box' k = Some v"
    and again: "id_ok (receipt_id r) \<Longrightarrow> find_receipt box (receipt_id r) = Some old \<Longrightarrow> receipt_id old = receipt_id r \<Longrightarrow>
      persist disk r box = Inr (old, box)"
    and removed: "ack disk rid box = Inr (b, box') \<Longrightarrow> find_receipt box' rid = None"
    and others_stay: "ack disk rid box = Inr (b, box') \<Longrightarrow> k \<noteq> rid \<Longrightarrow> find_receipt box' k = find_receipt box k"
begin

text \<open>A stop that is retried, after other receipts were written and acknowledged, books nothing a second time.\<close>

lemma retry_books_once:
  assumes "persist disk r box = Inr (r', box1)" and "persist disk1 p box1 = Inr (p', box2)"
    and "ack disk2 rid box2 = Inr (b, box3)" and "rid \<noteq> receipt_id r" and "receipt_id q = receipt_id r"
  shows "persist disk3 q box3 = Inr (r', box3)"
proof -
  have "find_receipt box3 (receipt_id r) = Some r'"
    using grows [OF assms(2)] stored [OF assms(1)] others_stay [OF assms(3)] assms(4) by simp
  then show ?thesis using again [of q box3 r'] checked [OF assms(1)] stored [OF assms(1)] assms(5) by simp
qed

text \<open>A receipt stays until it is acknowledged.\<close>

lemma kept_until_acked:
  assumes "persist disk r box = Inr (r', box1)" and "ack disk1 rid box1 = Inr (b, box2)"
  shows "find_receipt box2 (receipt_id r) = (if rid = receipt_id r then None else Some r')"
  using removed [OF assms(2)] others_stay [OF assms(2)] stored [OF assms(1)] by auto

end

interpretation outbox_store: receipt_store map_of outbox_persist outbox_ack safe_id
proof unfold_locales
  show "outbox_persist disk r box = Inr (r', box') \<Longrightarrow> safe_id (receipt_id r)" for disk r box r' box'
    by (simp add: outbox_persist_def split: if_splits)
qed (use persist_stored persist_again ack_removes in \<open>blast+\<close>)

lemma put_receipt_set: "set (put_receipt r xs) = insert r (set xs)"
  by (induction xs) auto

lemma pending_set: "outbox_pending box = Inr rs \<Longrightarrow> set rs = snd ` set box"
proof -
  have "set (foldr put_receipt xs []) = set xs" for xs by (induction xs) (simp_all add: put_receipt_set)
  then show "outbox_pending box = Inr rs \<Longrightarrow> set rs = snd ` set box" by (simp add: outbox_pending_def split: if_splits) force
qed

lemma text_le_total: "text_le a b \<or> text_le b a"
proof (induction a b rule: text_le.induct)
  case (3 a as b bs)
  then show ?case by (metis nat_neq_iff of_char_eq_iff text_le.simps(3))
qed auto

lemma pending_sorted: "outbox_pending box = Inr rs \<Longrightarrow> sorted_wrt receipt_le rs"
proof -
  have trans: "text_le a b \<Longrightarrow> text_le b c \<Longrightarrow> text_le a c" for a b c
  proof (induction a b arbitrary: c rule: text_le.induct)
    case (3 a as b bs)
    then show ?case by (cases c) auto
  next
    case 1
    then show ?case by simp
  qed auto
  have total: "receipt_le a b \<or> receipt_le b a" for a b using text_le_total by (auto simp: receipt_le_def)
  have rtrans: "receipt_le a b \<Longrightarrow> receipt_le b c \<Longrightarrow> receipt_le a c" for a b c using trans by (auto simp: receipt_le_def)
  have "sorted_wrt receipt_le xs \<Longrightarrow> sorted_wrt receipt_le (put_receipt r xs)" for r xs
    using total rtrans by (induction xs) (auto simp: put_receipt_set)
  then have "sorted_wrt receipt_le (foldr put_receipt xs [])" for xs by (induction xs) simp_all
  then show "outbox_pending box = Inr rs \<Longrightarrow> sorted_wrt receipt_le rs" by (auto simp: outbox_pending_def split: if_splits)
qed

text \<open>A stop without force is refused, or its receipt is the sealed one of the engine or, for an engine without the endpoint, the
  one of its statistics: totals are never made up.\<close>

lemma unforced_receipt_has_totals:
  assumes "stop_receipt C a i model port False = Inr r"
  shows "prompt_total r \<noteq> None \<and> completion_total r \<noteq> None \<and> model_id r \<noteq> None \<and> (drain_complete r \<longleftrightarrow> \<not> best_effort r)"
  using assms
  by (auto simp: stop_receipt_def best_effort_receipt_def sealed_receipt_def stats_receipt_def Let_def
      split: if_splits sum.splits acct_error.splits prod.splits)

lemma forced_receipt: "\<exists>r. stop_receipt C a i model port True = Inr r"
  by (auto simp: stop_receipt_def best_effort_receipt_def Let_def split: if_splits sum.splits acct_error.splits)

end
