(* ===== verification/Daemon_Serve.thy ===== *)
theory Daemon_Serve
  imports Daemon_Accounting
begin

text \<open>
  The manager of the one \<open>ft serve\<close> child (\<open>ServeManager\<close> of \<open>daemon/serve_manager.py\<close>): its state and the sections of
  its operations, each of which is atomic because it holds the condition's lock or the accounting guard.
\<close>

section \<open>The state\<close>

record child =
  pid :: int
  starttime :: "int option"
  adopted :: bool

definition child_identity :: "child \<Rightarrow> proc_ident" where
  "child_identity c = Ident (pid c) (starttime c)"

datatype exit_source = Exited | Signalled | Stopped | AdoptedVanished | UnknownExit

datatype exit_info = ExitInfo (exit_code: "int option") (exit_kind: exit_source)

text \<open>What \<open>wait\<close> makes of the end of a process: the code of a child of its own, nothing of an adopted one.\<close>

definition wait_info :: "child \<Rightarrow> int option \<Rightarrow> exit_info" where
  "wait_info c code =
     (if adopted c then ExitInfo None AdoptedVanished
      else ExitInfo code (case code of Some n \<Rightarrow> if n < 0 then Signalled else Exited | None \<Rightarrow> Exited))"

text \<open>What a client asks for: the model, the port and the arguments.\<close>

datatype request = Request (rq_model: string) (rq_port: int) (rq_args: "string list")

record serve_state =
  st_request :: request
  st_pid :: int
  st_starttime :: "int option"

record snap =
  sn_instance :: "string option"
  sn_model :: string
  sn_prompt :: int
  sn_completion :: int
  sn_uptime :: int

record manager =
  m_child :: "child option"
  m_model :: "string option"
  m_port :: "int option"
  m_args :: "string list"
  m_last_exit :: "exit_info option"
  m_adopted :: bool
  m_stopping :: bool
  m_starting :: bool
  m_stop_requested :: bool
  m_shutdown_requested :: bool
  m_store :: "serve_state option"
  m_outbox :: outbox
  m_durable :: "proc_ident list"
  m_last :: "(proc_ident \<times> snap) list"

definition new_manager :: "serve_state option \<Rightarrow> outbox \<Rightarrow> manager" where
  "new_manager store box =
     \<lparr>m_child = None, m_model = None, m_port = None, m_args = [], m_last_exit = None, m_adopted = False, m_stopping = False,
      m_starting = False, m_stop_requested = False, m_shutdown_requested = False, m_store = store, m_outbox = box, m_durable = [],
      m_last = []\<rparr>"

section \<open>Starting\<close>

text \<open>The gate of \<open>_start\<close>: the child that is there already, a refusal, an aborted restart, a wait for the start in flight, or
  the right to spawn.\<close>

datatype gate = AlreadyRunning int | Conflict | Aborted | WaitStart | MaySpawn

definition start_gate :: "bool \<Rightarrow> request \<Rightarrow> manager \<Rightarrow> gate \<times> manager" where
  "start_gate auto_start r m =
     (if m_shutdown_requested m then (if auto_start then Aborted else Conflict, m)
      else if auto_start \<and> m_stop_requested m then (Aborted, m)
      else
        let m = (if auto_start then m else m\<lparr>m_stop_requested := False\<rparr>) in
        case (m_child m, m_stopping m) of
          (Some c, False) \<Rightarrow>
            (if (m_model m, m_port m, m_args m) = (Some (rq_model r), Some (rq_port r), rq_args r) then AlreadyRunning (pid c) else Conflict, m)
        | _ \<Rightarrow>
            if m_starting m then (WaitStart, m)
            else if auto_start \<and> m_stop_requested m then (Aborted, m)
            else (MaySpawn, m\<lparr>m_starting := True\<rparr>))"

definition start_failed :: "manager \<Rightarrow> manager" where
  "start_failed m = m\<lparr>m_starting := False\<rparr>"

definition start_install :: "child \<Rightarrow> request \<Rightarrow> manager \<Rightarrow> manager" where
  "start_install c r m =
     m\<lparr>m_child := Some c, m_model := Some (rq_model r), m_port := Some (rq_port r), m_args := rq_args r, m_last_exit := None,
       m_adopted := adopted c, m_stopping := False, m_starting := False\<rparr>"

text \<open>\<open>ServeStateStore.save\<close>, which raises when the disk fails.\<close>

definition persist_state :: "bool \<Rightarrow> child \<Rightarrow> request \<Rightarrow> manager \<Rightarrow> manager option" where
  "persist_state disk c r m =
     (if disk then Some (m\<lparr>m_store := Some \<lparr>st_request = r, st_pid = pid c, st_starttime = starttime c\<rparr>\<rparr>) else None)"

section \<open>Stopping\<close>

datatype stop_entry = NothingToStop | WaitSpawn | StopChild child

definition stop_latch :: "manager \<Rightarrow> stop_entry \<times> manager" where
  "stop_latch m =
     (let m = m\<lparr>m_stop_requested := True\<rparr> in
      if m_starting m then (WaitSpawn, m)
      else case m_child m of None \<Rightarrow> (NothingToStop, m) | Some c \<Rightarrow> (StopChild c, m\<lparr>m_stopping := True\<rparr>))"

definition stop_failed :: "child \<Rightarrow> manager \<Rightarrow> manager" where
  "stop_failed c m = (if m_child m = Some c then m\<lparr>m_stopping := False\<rparr> else m)"

definition seal :: "proc_ident \<Rightarrow> manager \<Rightarrow> manager" where
  "seal i m = m\<lparr>m_durable := i # m_durable m, m_last := filter (\<lambda>(k, _). k \<noteq> i) (m_last m)\<rparr>"

definition prepare_and_persist :: "acct_cfg \<Rightarrow> answers \<Rightarrow> child \<Rightarrow> bool \<Rightarrow> manager \<Rightarrow> acct_error + (receipt \<times> manager)" where
  "prepare_and_persist C a c force m =
     (let i = child_identity c in
      case stop_receipt C a i (m_model m) (m_port m) force of
        Inl e \<Rightarrow> Inl e
      | Inr r \<Rightarrow> (case outbox_persist (disk_ok a) r (m_outbox m) of
            Inl e \<Rightarrow> Inl e
          | Inr (stored, box) \<Rightarrow> Inr (stored, seal i (m\<lparr>m_outbox := box\<rparr>))))"

section \<open>Reaping\<close>

text \<open>The flags the monitor reads before it seals the accounting of a crash.\<close>

definition reap_enter :: "child \<Rightarrow> manager \<Rightarrow> bool \<times> bool \<times> string option" where
  "reap_enter c m = (m_stopping m \<or> m_stop_requested m, m_child m = Some c, m_model m)"

definition crash_receipt :: "acct_cfg \<Rightarrow> answers \<Rightarrow> proc_ident \<Rightarrow> string option \<Rightarrow> bool \<Rightarrow> snap option \<Rightarrow> receipt" where
  "crash_receipt C a i model was_stopping sn =
     \<lparr>receipt_id = stable_receipt_id C (CrashName i), created_at = max 0 (wall_ms a),
      instance_id = (case sn of Some x \<Rightarrow> sn_instance x | None \<Rightarrow> None),
      model_id = (case sn of Some x \<Rightarrow> Some (sn_model x) | None \<Rightarrow> model),
      prompt_total = map_option sn_prompt sn, completion_total = map_option sn_completion sn, uptime = map_option sn_uptime sn,
      drain_complete = False, degraded = True, best_effort = True,
      reason = Some (if was_stopping then ''engine-crashed-during-stop'' else ''engine-crashed'')\<rparr>"

definition persist_crash :: "acct_cfg \<Rightarrow> answers \<Rightarrow> child \<Rightarrow> string option \<Rightarrow> bool \<Rightarrow> manager \<Rightarrow> acct_error + manager" where
  "persist_crash C a c model was_stopping m =
     (let i = child_identity c in
      if i \<in> set (m_durable m) then Inr m
      else case outbox_persist (disk_ok a) (crash_receipt C a i model was_stopping (map_of (m_last m) i)) (m_outbox m) of
        Inl e \<Rightarrow> Inl e
      | Inr (_, box) \<Rightarrow> Inr (seal i (m\<lparr>m_outbox := box\<rparr>)))"

text \<open>The monitor clears the child when it is still the current one.\<close>

definition reap_clear :: "child \<Rightarrow> bool \<Rightarrow> exit_info \<Rightarrow> manager \<Rightarrow> bool \<times> manager" where
  "reap_clear c was_stopping info m =
     (if m_child m = Some c
      then (True, m\<lparr>m_child := None, m_stopping := False, m_last_exit := Some (if was_stopping then ExitInfo (exit_code info) Stopped else info)\<rparr>)
      else (False, m))"

section \<open>Accounting of a running child, adoption, introspection\<close>

definition observe_accounting :: "doc \<Rightarrow> manager \<Rightarrow> acct_error + manager" where
  "observe_accounting d m =
     (case m_child m of
        None \<Rightarrow> Inr m
      | Some c \<Rightarrow> (case snapshot_values d (m_model m) False of
            Inl _ \<Rightarrow> Inr m
          | Inr (inst, md, p, k, up) \<Rightarrow> (case int_of up of
                Inl e \<Rightarrow> Inl e
              | Inr u \<Rightarrow> Inr (m\<lparr>m_last := (child_identity c, \<lparr>sn_instance = inst, sn_model = md, sn_prompt = p, sn_completion = k, sn_uptime = u\<rparr>) #
                    filter (\<lambda>(x, _). x \<noteq> child_identity c) (m_last m)\<rparr>))))"

text \<open>At boot a recorded serve that still runs is adopted; a stale record is cleared.\<close>

definition readopt :: "bool \<Rightarrow> manager \<Rightarrow> child option \<times> manager" where
  "readopt still_runs m =
     (case m_store m of
        None \<Rightarrow> (None, m)
      | Some st \<Rightarrow>
          if still_runs
          then let c = \<lparr>pid = st_pid st, starttime = st_starttime st, adopted = True\<rparr>; r = st_request st in
            (Some c, m\<lparr>m_child := Some c, m_model := Some (rq_model r), m_port := Some (rq_port r), m_args := rq_args r, m_last_exit := None,
               m_adopted := True, m_stopping := False\<rparr>)
          else (None, m\<lparr>m_store := None\<rparr>))"

record status_doc =
  sd_running :: bool
  sd_starting :: bool
  sd_stopping :: bool
  sd_adopted :: bool
  sd_pid :: "int option"
  sd_model :: "string option"
  sd_port :: "int option"
  sd_last_exit :: "exit_info option"

definition status :: "manager \<Rightarrow> status_doc" where
  "status m =
     (let running = m_child m \<noteq> None \<and> \<not> m_stopping m in
      \<lparr>sd_running = running, sd_starting = m_starting m, sd_stopping = m_stopping m, sd_adopted = (running \<and> m_adopted m),
       sd_pid = map_option pid (m_child m), sd_model = m_model m, sd_port = m_port m, sd_last_exit = m_last_exit m\<rparr>)"

end
