(* ===== verification/Daemon_Steps.thy ===== *)
theory Daemon_Steps
  imports Daemon_Serve
begin

text \<open>
  The threads of the daemon as interleaved steps over its sections: the one holder of the lifecycle lock, which starts, stops,
  switches or shuts down, a monitor for every child, the restarts that wait for the lock, and the processes, which may end at any
  time. A scheduler picks the next action, with what the world answers; a run is a list of actions.
\<close>

section \<open>The threads\<close>

text \<open>What the holder does when a stop has come to its end.\<close>

datatype afterwards = JustStop | ThenStart request | ThenShutdown

text \<open>Where the holder of the lifecycle lock is.\<close>

datatype holder_phase =
    Free
  | Gate request
  | Spawning bool request
  | Installing request child
  | Saving request child
  | Watching child
  | Preparing child bool afterwards
  | Terminating child afterwards
  | AwaitTerm child afterwards
  | AwaitKill child afterwards

text \<open>Where a monitor is: it waits, has the exit, has read the flags, has sealed the accounting, has cleared the child, has
  cleared the record, has set \<open>reaped\<close>, has decided to restart. The Booleans are \<open>was_stopping\<close> and \<open>is_current\<close>.\<close>

datatype mphase =
    Waiting
  | Ended exit_info
  | Flagged exit_info bool bool "string option"
  | Accounted exit_info bool
  | ChildCleared bool bool
  | StoreCleared bool bool
  | Announced bool bool
  | Restarting

datatype event =
    StartRequested
  | StopRequested
  | Spawned bool child
  | Sealed proc_ident string
  | SealFailed proc_ident
  | Acked string
  | SignalSent child
  | Cleared child
  | StopDone
  | ShutdownDone

record sys =
  mgr :: manager
  alive :: "child list"
  used :: "proc_ident list"
  reaped :: "proc_ident list"
  holder :: holder_phase
  monitors :: "(child \<times> mphase) list"
  autos :: "request list"
  log :: "event list"

record daemon_cfg =
  acct :: acct_cfg
  auto_restart :: bool
  wait_may_raise :: bool

text \<open>What the world answers to one step: the spawned process or its failure, whether the record could be saved and the signal
  be sent, whether a wait has timed out or raised, and the exit code.\<close>

record world =
  w_acct :: answers
  w_spawn :: "child option"
  w_save :: bool
  w_signal :: bool
  w_timeout :: bool
  w_raise :: bool
  w_code :: "int option"

section \<open>The holder of the lifecycle lock\<close>

definition logged :: "event \<Rightarrow> sys \<Rightarrow> sys" where
  "logged e s = s\<lparr>log := e # log s\<rparr>"

definition enter_start :: "bool \<Rightarrow> request \<Rightarrow> sys \<Rightarrow> sys option" where
  "enter_start auto_start r s =
     (let s = (if auto_start then s else logged StartRequested s) in
      case start_gate auto_start r (mgr s) of
        (WaitStart, _) \<Rightarrow> None
      | (MaySpawn, m) \<Rightarrow> Some (s\<lparr>mgr := m, holder := Spawning auto_start r\<rparr>)
      | (_, m) \<Rightarrow> Some (s\<lparr>mgr := m, holder := Free\<rparr>))"

definition stop_ends :: "afterwards \<Rightarrow> sys \<Rightarrow> sys" where
  "stop_ends after s =
     (case after of
        JustStop \<Rightarrow> logged StopDone (s\<lparr>holder := Free\<rparr>)
      | ThenStart r \<Rightarrow> logged StopDone (s\<lparr>holder := Gate r\<rparr>)
      | ThenShutdown \<Rightarrow> logged ShutdownDone (logged StopDone (s\<lparr>holder := Free\<rparr>)))"

definition stop_raises :: "child \<Rightarrow> afterwards \<Rightarrow> sys \<Rightarrow> sys" where
  "stop_raises c after s =
     (let m = stop_failed c (mgr s) in
      s\<lparr>mgr := (if after = ThenShutdown then m\<lparr>m_shutdown_requested := False\<rparr> else m), holder := Free\<rparr>)"

definition enter_stop :: "bool \<Rightarrow> afterwards \<Rightarrow> sys \<Rightarrow> sys option" where
  "enter_stop force after s =
     (let s = logged StopRequested s; m = (if after = ThenShutdown then (mgr s)\<lparr>m_shutdown_requested := True\<rparr> else mgr s) in
      case stop_latch m of
        (WaitSpawn, _) \<Rightarrow> None
      | (NothingToStop, m) \<Rightarrow> Some (stop_ends after (s\<lparr>mgr := m\<rparr>))
      | (StopChild c, m) \<Rightarrow> Some (s\<lparr>mgr := m, holder := Preparing c force after\<rparr>))"

definition spawn_step :: "bool \<Rightarrow> request \<Rightarrow> world \<Rightarrow> sys \<Rightarrow> sys option" where
  "spawn_step auto_start r w s =
     (case w_spawn w of
        None \<Rightarrow> Some (s\<lparr>mgr := start_failed (mgr s), holder := Free\<rparr>)
      | Some c \<Rightarrow>
          if adopted c \<or> child_identity c \<in> set (used s) then None
          else Some (logged (Spawned auto_start c)
            (s\<lparr>alive := c # alive s, used := child_identity c # used s, holder := Installing r c\<rparr>)))"

definition save_step :: "request \<Rightarrow> child \<Rightarrow> world \<Rightarrow> sys \<Rightarrow> sys option" where
  "save_step r c w s =
     (case persist_state (w_save w) c r (mgr s) of
        None \<Rightarrow> Some (s\<lparr>holder := Free\<rparr>)
      | Some m \<Rightarrow> Some (s\<lparr>mgr := m, holder := Watching c\<rparr>))"

definition prepare_step :: "daemon_cfg \<Rightarrow> child \<Rightarrow> bool \<Rightarrow> afterwards \<Rightarrow> world \<Rightarrow> sys \<Rightarrow> sys option" where
  "prepare_step C c force after w s =
     (case prepare_and_persist (acct C) (w_acct w) c force (mgr s) of
        Inl _ \<Rightarrow> Some (stop_raises c after s)
      | Inr (r, m) \<Rightarrow> Some (logged (Sealed (child_identity c) (receipt_id r)) (s\<lparr>mgr := m, holder := Terminating c after\<rparr>)))"

definition signal_step :: "holder_phase \<Rightarrow> child \<Rightarrow> afterwards \<Rightarrow> world \<Rightarrow> sys \<Rightarrow> sys option" where
  "signal_step next_phase c after w s =
     (if w_signal w then Some (logged (SignalSent c) (s\<lparr>holder := next_phase\<rparr>)) else Some (stop_raises c after s))"

text \<open>One step of the holder. A wait that has neither been answered nor timed out is no step.\<close>

fun advance :: "daemon_cfg \<Rightarrow> world \<Rightarrow> holder_phase \<Rightarrow> sys \<Rightarrow> sys option" where
  "advance C w Free s = None"
| "advance C w (Gate r) s = enter_start False r s"
| "advance C w (Spawning a r) s = spawn_step a r w s"
| "advance C w (Installing r c) s = Some (s\<lparr>mgr := start_install c r (mgr s), holder := Saving r c\<rparr>)"
| "advance C w (Saving r c) s = save_step r c w s"
| "advance C w (Watching c) s = Some (s\<lparr>monitors := (c, Waiting) # monitors s, holder := Free\<rparr>)"
| "advance C w (Preparing c force after) s = prepare_step C c force after w s"
| "advance C w (Terminating c after) s =
     (if child_identity c \<in> set (reaped s) then Some (stop_ends after s) else signal_step (AwaitTerm c after) c after w s)"
| "advance C w (AwaitTerm c after) s =
     (if child_identity c \<in> set (reaped s) then Some (stop_ends after s)
      else if w_timeout w then signal_step (AwaitKill c after) c after w s else None)"
| "advance C w (AwaitKill c after) s =
     (if child_identity c \<in> set (reaped s) then Some (stop_ends after s)
      else if w_timeout w then Some (stop_raises c after s) else None)"

section \<open>The monitors\<close>

definition seal_crash :: "daemon_cfg \<Rightarrow> world \<Rightarrow> child \<Rightarrow> bool \<Rightarrow> bool \<Rightarrow> string option \<Rightarrow> sys \<Rightarrow> sys option" where
  "seal_crash C w c was cur model s =
     (if \<not> cur then Some s
      else case persist_crash (acct C) (w_acct w) c model was (mgr s) of
        Inr m \<Rightarrow> Some (let s' = s\<lparr>mgr := m\<rparr> in
          if child_identity c \<in> set (m_durable (mgr s)) then s'
          else logged (Sealed (child_identity c) (stable_receipt_id (acct C) (CrashName (child_identity c)))) s')
      | Inl OutboxError \<Rightarrow> Some (logged (SealFailed (child_identity c)) (s\<lparr>mgr := (mgr s)\<lparr>m_stop_requested := True\<rparr>\<rparr>))
      | Inl _ \<Rightarrow> None)"

text \<open>A step gives the next phase of the monitor, none when it is through.\<close>

fun monitor_step :: "daemon_cfg \<Rightarrow> world \<Rightarrow> child \<Rightarrow> mphase \<Rightarrow> sys \<Rightarrow> (mphase option \<times> sys) option" where
  "monitor_step C w c Waiting s =
     (if c \<notin> set (alive s) then Some (Some (Ended (wait_info c (w_code w))), s)
      else if wait_may_raise C \<and> w_raise w then Some (Some (Ended (ExitInfo None UnknownExit)), s) else None)"
| "monitor_step C w c (Ended info) s = (case reap_enter c (mgr s) of (was, cur, model) \<Rightarrow> Some (Some (Flagged info was cur model), s))"
| "monitor_step C w c (Flagged info was cur model) s = map_option (\<lambda>s'. (Some (Accounted info was), s')) (seal_crash C w c was cur model s)"
| "monitor_step C w c (Accounted info was) s =
     (case reap_clear c was info (mgr s) of (cur, m) \<Rightarrow>
        Some (Some (ChildCleared was cur), let s' = s\<lparr>mgr := m\<rparr> in if cur then logged (Cleared c) s' else s'))"
| "monitor_step C w c (ChildCleared was cur) s =
     Some (Some (StoreCleared was cur), if cur then s\<lparr>mgr := (mgr s)\<lparr>m_store := None\<rparr>\<rparr> else s)"
| "monitor_step C w c (StoreCleared was cur) s = Some (Some (Announced was cur), s\<lparr>reaped := child_identity c # reaped s\<rparr>)"
| "monitor_step C w c (Announced was cur) s =
     Some (if cur \<and> \<not> was \<and> auto_restart C \<and> \<not> m_stop_requested (mgr s) then Some Restarting else None, s)"
| "monitor_step C w c Restarting s =
     Some (None, case (m_model (mgr s), m_port (mgr s)) of (Some md, Some p) \<Rightarrow> s\<lparr>autos := autos s @ [Request md p (m_args (mgr s))]\<rparr> | _ \<Rightarrow> s)"

definition set_monitor :: "nat \<Rightarrow> mphase option \<Rightarrow> (child \<times> mphase) list \<Rightarrow> (child \<times> mphase) list" where
  "set_monitor k p ms = (case p of Some ph \<Rightarrow> ms[k := (fst (ms ! k), ph)] | None \<Rightarrow> take k ms @ drop (Suc k) ms)"

section \<open>Runs\<close>

datatype action =
    CallStart request
  | CallStop bool
  | CallSwitch request bool
  | CallShutdown bool
  | AutoStart nat
  | Advance world
  | Monitor nat world
  | Die child
  | Observe doc
  | Ack string bool

definition drop_at :: "nat \<Rightarrow> 'a list \<Rightarrow> 'a list" where
  "drop_at k xs = take k xs @ drop (Suc k) xs"

fun step :: "daemon_cfg \<Rightarrow> action \<Rightarrow> sys \<Rightarrow> sys option" where
  "step C (CallStart r) s = (if holder s = Free then enter_start False r s else None)"
| "step C (CallStop force) s = (if holder s = Free then enter_stop force JustStop s else None)"
| "step C (CallSwitch r force) s = (if holder s = Free then enter_stop force (ThenStart r) s else None)"
| "step C (CallShutdown force) s = (if holder s = Free then enter_stop force ThenShutdown s else None)"
| "step C (AutoStart k) s =
     (if holder s = Free \<and> k < length (autos s) then enter_start True (autos s ! k) (s\<lparr>autos := drop_at k (autos s)\<rparr>) else None)"
| "step C (Advance w) s = advance C w (holder s) s"
| "step C (Monitor k w) s =
     (if k < length (monitors s)
      then case monitor_step C w (fst (monitors s ! k)) (snd (monitors s ! k)) s of
             None \<Rightarrow> None
           | Some (p, s') \<Rightarrow> Some (s'\<lparr>monitors := set_monitor k p (monitors s')\<rparr>)
      else None)"
| "step C (Die c) s = (if c \<in> set (alive s) then Some (s\<lparr>alive := removeAll c (alive s)\<rparr>) else None)"
| "step C (Observe d) s = (case observe_accounting d (mgr s) of Inl _ \<Rightarrow> Some s | Inr m \<Rightarrow> Some (s\<lparr>mgr := m\<rparr>))"
| "step C (Ack rid disk) s =
     (case outbox_ack disk rid (m_outbox (mgr s)) of
        Inl _ \<Rightarrow> Some s
      | Inr (_, box) \<Rightarrow> Some (logged (Acked rid) (s\<lparr>mgr := (mgr s)\<lparr>m_outbox := box\<rparr>\<rparr>)))"

text \<open>The daemon boots with the record and the outbox of an earlier one, and adopts the recorded serve when it still runs.\<close>

definition boot :: "serve_state option \<Rightarrow> outbox \<Rightarrow> bool \<Rightarrow> sys" where
  "boot store box still_runs =
     (case readopt still_runs (new_manager store box) of (c, m) \<Rightarrow>
        let cs = (case c of Some c \<Rightarrow> [c] | None \<Rightarrow> []) in
        \<lparr>mgr = m, alive = cs, used = map child_identity cs, reaped = [], holder = Free, monitors = map (\<lambda>c. (c, Waiting)) cs,
         autos = [], log = []\<rparr>)"

fun run :: "daemon_cfg \<Rightarrow> action list \<Rightarrow> sys \<Rightarrow> sys option" where
  "run C [] s = Some s"
| "run C (a # as) s = (case step C a s of Some s' \<Rightarrow> run C as s' | None \<Rightarrow> None)"

lemma run_invariant:
  assumes "run C as s = Some s'" and "P s" and "\<And>a s s'. step C a s = Some s' \<Longrightarrow> P s \<Longrightarrow> P s'"
  shows "P s'"
  using assms(1,2)
proof (induction as arbitrary: s)
  case (Cons a as)
  then show ?case using assms(3) by (auto split: option.splits)
qed simp

end
