(* ===== verification/Daemon_Inv.thy ===== *)
theory Daemon_Inv
  imports Daemon_Steps
begin

text \<open>
  What holds in every state that the threads of the daemon can reach: the holder, the monitors and the state of the manager fit
  together.
\<close>

section \<open>The invariant\<close>

fun starting_phase :: "holder_phase \<Rightarrow> bool" where
  "starting_phase (Spawning _ _) = True"
| "starting_phase (Installing _ _) = True"
| "starting_phase _ = False"

text \<open>The child that is not watched yet, and the one that is being stopped.\<close>

fun unwatched :: "holder_phase \<Rightarrow> child option" where
  "unwatched (Installing _ c) = Some c"
| "unwatched (Saving _ c) = Some c"
| "unwatched (Watching c) = Some c"
| "unwatched _ = None"

fun stop_child :: "holder_phase \<Rightarrow> child option" where
  "stop_child (Preparing c _ _) = Some c"
| "stop_child (Terminating c _) = Some c"
| "stop_child (AwaitTerm c _) = Some c"
| "stop_child (AwaitKill c _) = Some c"
| "stop_child _ = None"

fun installed :: "holder_phase \<Rightarrow> child option" where
  "installed (Saving _ c) = Some c"
| "installed (Watching c) = Some c"
| "installed _ = None"

text \<open>A monitor in an early phase watches the current child; later its child is no longer the current one.\<close>

fun mon_ok :: "child option \<Rightarrow> child \<Rightarrow> mphase \<Rightarrow> bool" where
  "mon_ok cur c Waiting = (cur = Some c)"
| "mon_ok cur c (Ended _) = (cur = Some c)"
| "mon_ok cur c (Flagged _ _ is_cur _) = (cur = Some c \<and> is_cur)"
| "mon_ok cur c (Accounted _ _) = (cur = Some c)"
| "mon_ok cur c _ = (map_option child_identity cur \<noteq> Some (child_identity c))"

definition watch_ids :: "sys \<Rightarrow> proc_ident set" where
  "watch_ids s = child_identity ` fst ` set (monitors s)"

definition alive_ids :: "sys \<Rightarrow> proc_ident set" where
  "alive_ids s = child_identity ` set (alive s)"

definition mons_ok :: "child option \<Rightarrow> (child \<times> mphase) list \<Rightarrow> bool" where
  "mons_ok cur ms \<longleftrightarrow> distinct (map (\<lambda>x. child_identity (fst x)) ms) \<and> (\<forall>c ph. (c, ph) \<in> set ms \<longrightarrow> mon_ok cur c ph)"

definition threads_inv :: "sys \<Rightarrow> bool" where
  "threads_inv s \<longleftrightarrow>
     (m_starting (mgr s) \<longleftrightarrow> starting_phase (holder s)) \<and>
     (starting_phase (holder s) \<longrightarrow> m_child (mgr s) = None) \<and>
     (\<forall>c. installed (holder s) = Some c \<longrightarrow> m_child (mgr s) = Some c) \<and>
     (\<forall>c. stop_child (holder s) = Some c \<longrightarrow> m_child (mgr s) = None \<or> m_child (mgr s) = Some c) \<and>
     (m_stopping (mgr s) \<longrightarrow> m_child (mgr s) \<noteq> None \<and> stop_child (holder s) = m_child (mgr s))"

definition ids_inv :: "sys \<Rightarrow> bool" where
  "ids_inv s \<longleftrightarrow>
     (\<forall>c. unwatched (holder s) = Some c \<longrightarrow> child_identity c \<in> set (used s) \<and> child_identity c \<notin> watch_ids s \<and> child_identity c \<notin> set (reaped s)) \<and>
     (\<forall>c. m_child (mgr s) = Some c \<longrightarrow> child_identity c \<in> set (used s) \<and> child_identity c \<notin> set (reaped s)) \<and>
     watch_ids s \<subseteq> set (used s) \<and> set (reaped s) \<subseteq> set (used s) \<and> alive_ids s \<subseteq> set (used s)"

definition sys_inv :: "sys \<Rightarrow> bool" where
  "sys_inv s \<longleftrightarrow> threads_inv s \<and> ids_inv s \<and> mons_ok (m_child (mgr s)) (monitors s)"

lemma watch_simps [simp]:
  "watch_ids (s\<lparr>mgr := m\<rparr>) = watch_ids s" "watch_ids (s\<lparr>holder := h\<rparr>) = watch_ids s" "watch_ids (s\<lparr>alive := a\<rparr>) = watch_ids s"
  "watch_ids (s\<lparr>used := u\<rparr>) = watch_ids s" "watch_ids (s\<lparr>reaped := r\<rparr>) = watch_ids s" "watch_ids (s\<lparr>log := l\<rparr>) = watch_ids s"
  "watch_ids (s\<lparr>autos := q\<rparr>) = watch_ids s" "watch_ids (s\<lparr>monitors := (c, ph) # ms\<rparr>) = insert (child_identity c) (watch_ids (s\<lparr>monitors := ms\<rparr>))"
  "watch_ids (s\<lparr>monitors := monitors s\<rparr>) = watch_ids s"
  by (simp_all add: watch_ids_def)

lemma alive_simps [simp]:
  "alive_ids (s\<lparr>mgr := m\<rparr>) = alive_ids s" "alive_ids (s\<lparr>holder := h\<rparr>) = alive_ids s" "alive_ids (s\<lparr>monitors := ms\<rparr>) = alive_ids s"
  "alive_ids (s\<lparr>used := u\<rparr>) = alive_ids s" "alive_ids (s\<lparr>reaped := r\<rparr>) = alive_ids s" "alive_ids (s\<lparr>log := l\<rparr>) = alive_ids s"
  "alive_ids (s\<lparr>autos := q\<rparr>) = alive_ids s" "alive_ids (s\<lparr>alive := c # a\<rparr>) = insert (child_identity c) (alive_ids (s\<lparr>alive := a\<rparr>))"
  "alive_ids (s\<lparr>alive := alive s\<rparr>) = alive_ids s"
  by (simp_all add: alive_ids_def)

lemma logged_simps [simp]:
  "mgr (logged e s) = mgr s" "holder (logged e s) = holder s" "monitors (logged e s) = monitors s" "alive (logged e s) = alive s"
  "used (logged e s) = used s" "reaped (logged e s) = reaped s" "autos (logged e s) = autos s" "log (logged e s) = e # log s"
  "watch_ids (logged e s) = watch_ids s" "alive_ids (logged e s) = alive_ids s"
  by (simp_all add: logged_def)

lemmas inv_defs = sys_inv_def threads_inv_def ids_inv_def

lemma sys_inv_logged [simp]: "sys_inv (logged e s) = sys_inv s"
  by (simp add: inv_defs)

lemma sys_inv_autos [simp]: "sys_inv (s\<lparr>autos := q\<rparr>) = sys_inv s"
  by (simp add: inv_defs)

section \<open>Preservation\<close>

text \<open>Only the child, the two flags and the holder matter.\<close>

lemma sys_inv_cong:
  assumes "sys_inv s" and "m_child (mgr t) = m_child (mgr s)" and "m_stopping (mgr t) = m_stopping (mgr s)"
    and "m_starting (mgr t) = m_starting (mgr s)" and "holder t = holder s" and "monitors t = monitors s" and "used t = used s"
    and "reaped t = reaped s" and "set (alive t) \<subseteq> set (alive s)"
  shows "sys_inv t"
proof -
  have a: "alive_ids t \<subseteq> alive_ids s" using assms(9) by (auto simp: alive_ids_def)
  have w: "watch_ids t = watch_ids s" using assms(6) by (simp add: watch_ids_def)
  show ?thesis using assms(1) a unfolding inv_defs assms(2-8) w
    by (elim conjE, intro conjI) (assumption | erule (1) subset_trans)+
qed

lemma start_gate_keeps:
  assumes "start_gate a r m = (v, m')"
  shows "m_child m' = m_child m \<and> m_stopping m' = m_stopping m \<and> m_shutdown_requested m' = m_shutdown_requested m \<and>
    m_starting m' = (m_starting m \<or> v = MaySpawn) \<and> (v = MaySpawn \<longrightarrow> \<not> m_shutdown_requested m \<and> (m_child m = None \<or> m_stopping m))"
  using assms by (auto simp: start_gate_def Let_def split: option.splits bool.splits if_splits)

lemma enter_start_cases:
  assumes "enter_start a r s = Some t"
  obtains m' v where "start_gate a r (mgr s) = (v, m')" "v \<noteq> WaitStart" "mgr t = m'" "holder t = (if v = MaySpawn then Spawning a r else Free)"
    "monitors t = monitors s" "used t = used s" "reaped t = reaped s" "alive t = alive s" "autos t = autos s"
    "log t = (if a then log s else StartRequested # log s)"
proof -
  obtain v m' where g: "start_gate a r (mgr s) = (v, m')" by (cases "start_gate a r (mgr s)")
  show thesis using assms g that [of v m'] by (cases v; cases a) (auto simp: enter_start_def Let_def)
qed

lemma enter_start_inv:
  assumes "enter_start a r s = Some t" and "sys_inv s" and "stop_child (holder s) = None" and "unwatched (holder s) = None" and "\<not> starting_phase (holder s)"
  shows "sys_inv t"
  using assms(1)
proof (rule enter_start_cases)
  fix m' v
  assume t: "start_gate a r (mgr s) = (v, m')" "mgr t = m'" "holder t = (if v = MaySpawn then Spawning a r else Free)"
    "monitors t = monitors s" "used t = used s" "reaped t = reaped s" "alive t = alive s"
  have w: "watch_ids t = watch_ids s" "alive_ids t = alive_ids s" using t by (simp_all add: watch_ids_def alive_ids_def)
  have "\<not> m_stopping (mgr s)" using assms(2,3) by (auto simp: inv_defs)
  then show "sys_inv t" using assms(2-5) start_gate_keeps [OF t(1)] unfolding inv_defs t(2-) w by (cases "v = MaySpawn") simp_all
qed

lemma stop_ends_inv:
  assumes "sys_inv s" and "\<not> m_stopping (mgr s)" and "\<not> starting_phase (holder s)"
  shows "sys_inv (stop_ends after s)"
  using assms by (auto simp: stop_ends_def inv_defs split: afterwards.split)

lemma stop_raises_fields:
  "holder (stop_raises c after s) = Free" "monitors (stop_raises c after s) = monitors s" "used (stop_raises c after s) = used s"
  "reaped (stop_raises c after s) = reaped s" "alive (stop_raises c after s) = alive s" "log (stop_raises c after s) = log s"
  "m_child (mgr (stop_raises c after s)) = m_child (mgr s)" "m_starting (mgr (stop_raises c after s)) = m_starting (mgr s)"
  "m_stopping (mgr (stop_raises c after s)) = (m_stopping (mgr s) \<and> m_child (mgr s) \<noteq> Some c)"
  "m_stop_requested (mgr (stop_raises c after s)) = m_stop_requested (mgr s)"
  "m_shutdown_requested (mgr (stop_raises c after s)) = (m_shutdown_requested (mgr s) \<and> after \<noteq> ThenShutdown)"
  "m_outbox (mgr (stop_raises c after s)) = m_outbox (mgr s)" "m_durable (mgr (stop_raises c after s)) = m_durable (mgr s)"
  by (simp_all add: stop_raises_def stop_failed_def Let_def)

lemma stop_raises_inv:
  assumes "sys_inv s" and "stop_child (holder s) = Some c"
  shows "sys_inv (stop_raises c after s)"
proof -
  let ?t = "stop_raises c after s"
  have h: "\<not> starting_phase (holder s)" using assms(2) by (cases "holder s") auto
  have w: "watch_ids ?t = watch_ids s" "alive_ids ?t = alive_ids s" by (simp_all add: watch_ids_def alive_ids_def stop_raises_fields)
  have "\<not> (m_stopping (mgr s) \<and> m_child (mgr s) \<noteq> Some c)" using assms by (auto simp: inv_defs)
  then show ?thesis using assms(1) h unfolding inv_defs w stop_raises_fields by simp
qed

lemma enter_stop_cases:
  assumes "enter_stop force after s = Some t"
  obtains m where "m = (mgr s)\<lparr>m_shutdown_requested := (m_shutdown_requested (mgr s) \<or> after = ThenShutdown), m_stop_requested := True\<rparr>"
      "m_child m = None" "\<not> m_starting m" "t = stop_ends after ((logged StopRequested s)\<lparr>mgr := m\<rparr>)"
  | c m where "m = (mgr s)\<lparr>m_shutdown_requested := (m_shutdown_requested (mgr s) \<or> after = ThenShutdown), m_stop_requested := True, m_stopping := True\<rparr>"
      "m_child m = Some c" "\<not> m_starting m" "t = (logged StopRequested s)\<lparr>mgr := m, holder := Preparing c force after\<rparr>"
proof -
  have up: "(if after = ThenShutdown then (mgr s)\<lparr>m_shutdown_requested := True\<rparr> else mgr s) =
      (mgr s)\<lparr>m_shutdown_requested := (m_shutdown_requested (mgr s) \<or> after = ThenShutdown)\<rparr>" by simp
  show thesis using assms that unfolding enter_stop_def up Let_def stop_latch_def
    by (cases "m_child (mgr s)") (auto split: if_splits)
qed

lemma enter_stop_inv:
  assumes "enter_stop force after s = Some t" and "sys_inv s" and "holder s = Free"
  shows "sys_inv t"
  using assms(1)
proof (cases rule: enter_stop_cases)
  case (1 m)
  have free: "\<not> m_stopping (mgr s)" using assms(2,3) by (auto simp: inv_defs)
  have "sys_inv ((logged StopRequested s)\<lparr>mgr := m\<rparr>)" using sys_inv_cong [OF assms(2), of "(logged StopRequested s)\<lparr>mgr := m\<rparr>"] 1 by simp
  then show ?thesis using 1 free assms(3) stop_ends_inv by simp
next
  case (2 c m)
  then show ?thesis using assms(2,3) by (simp add: inv_defs)
qed

lemma holder_moves:
  assumes "sys_inv s" and "stop_child (holder s) = Some c" and "stop_child h = Some c"
  shows "sys_inv (s\<lparr>holder := h\<rparr>)"
proof -
  have "\<not> starting_phase (holder s)" "\<not> starting_phase h" "installed h = None" "unwatched h = None"
    using assms(2,3) by (cases "holder s"; cases h; auto)+
  then show ?thesis using assms by (auto simp: inv_defs)
qed

lemma reaped_not_stopping:
  assumes "sys_inv s" and "stop_child (holder s) = Some c" and "child_identity c \<in> set (reaped s)"
  shows "m_child (mgr s) = None" "\<not> m_stopping (mgr s)"
  using assms by (auto simp: sys_inv_def threads_inv_def ids_inv_def)

lemma signal_step_inv:
  assumes "signal_step h c after w s = Some t" and "sys_inv s" and "stop_child (holder s) = Some c" and "stop_child h = Some c"
  shows "sys_inv t"
  using assms(1) stop_raises_inv [OF assms(2,3), of after] holder_moves [OF assms(2,3,4)] by (auto simp: signal_step_def split: if_splits)

lemma prepare_keeps:
  "prepare_and_persist C a c force m = Inr (r, m') \<Longrightarrow>
    m_child m' = m_child m \<and> m_stopping m' = m_stopping m \<and> m_starting m' = m_starting m \<and> m_stop_requested m' = m_stop_requested m \<and>
    m_shutdown_requested m' = m_shutdown_requested m \<and> child_identity c \<in> set (m_durable m') \<and> set (m_durable m') = insert (child_identity c) (set (m_durable m))"
  by (auto simp: prepare_and_persist_def seal_def Let_def split: sum.splits prod.splits)

lemma prepare_step_inv:
  assumes "prepare_step C c force after w s = Some t" and "sys_inv s" and "stop_child (holder s) = Some c"
  shows "sys_inv t"
proof (cases "prepare_and_persist (acct C) (w_acct w) c force (mgr s)")
  case (Inl e)
  then show ?thesis using assms(1) stop_raises_inv [OF assms(2,3), of after] by (simp add: prepare_step_def)
next
  case (Inr rm)
  obtain r m where rm: "rm = (r, m)" by (cases rm)
  note K = prepare_keeps [OF Inr [unfolded rm]]
  have "sys_inv (s\<lparr>mgr := m\<rparr>)" by (rule sys_inv_cong [OF assms(2)]) (simp_all add: K)
  then have "sys_inv (s\<lparr>mgr := m, holder := Terminating c after\<rparr>)"
    using holder_moves [of "s\<lparr>mgr := m\<rparr>" c "Terminating c after"] assms(3) by simp
  then show ?thesis using assms(1) Inr rm by (auto simp: prepare_step_def)
qed

lemma spawn_step_inv:
  assumes "spawn_step a r w s = Some t" and "sys_inv s" and "holder s = Spawning a r"
  shows "sys_inv t"
proof (cases "w_spawn w")
  case None
  then show ?thesis using assms
    by (auto simp: spawn_step_def start_failed_def inv_defs)
next
  case (Some c)
  then show ?thesis using assms
    by (auto simp: spawn_step_def inv_defs split: if_splits)
qed

lemma install_inv:
  assumes "sys_inv s" and "holder s = Installing r c"
  shows "sys_inv (s\<lparr>mgr := start_install c r (mgr s), holder := Saving r c\<rparr>)"
proof -
  have late: "mon_ok (Some c) d ph" if "(d, ph) \<in> set (monitors s)" for d ph
  proof -
    have "m_child (mgr s) = None" "child_identity c \<notin> watch_ids s" using assms by (simp_all add: inv_defs)
    moreover have "mons_ok (m_child (mgr s)) (monitors s)" using assms(1) by (simp add: inv_defs)
    ultimately have "mon_ok None d ph" "child_identity c \<notin> child_identity ` fst ` set (monitors s)"
      using that unfolding mons_ok_def watch_ids_def by simp_all
    moreover have "child_identity d \<in> child_identity ` fst ` set (monitors s)" using that by (metis fst_conv image_eqI)
    ultimately have "mon_ok None d ph" "child_identity d \<noteq> child_identity c" by (blast, metis)
    then show ?thesis by (cases ph) simp_all
  qed
  show ?thesis using assms late
    by (simp add: start_install_def inv_defs mons_ok_def)
qed

lemma save_step_inv:
  assumes "save_step r c w s = Some t" and "sys_inv s" and "holder s = Saving r c"
  shows "sys_inv t"
  using assms
  by (auto simp: save_step_def persist_state_def inv_defs split: if_splits)

lemma watch_inv:
  assumes "sys_inv s" and "holder s = Watching c"
  shows "sys_inv (s\<lparr>monitors := (c, Waiting) # monitors s, holder := Free\<rparr>)"
  using assms by (auto simp: inv_defs mons_ok_def watch_ids_def)

lemma advance_inv:
  assumes "advance C w (holder s) s = Some t" and "sys_inv s"
  shows "sys_inv t"
proof (cases "holder s")
  case (Gate r)
  then show ?thesis using assms enter_start_inv [of False r s t] by simp
next
  case (Spawning a r)
  then show ?thesis using assms spawn_step_inv by simp
next
  case (Installing r c)
  then show ?thesis using assms install_inv [of s r c] by simp
next
  case (Saving r c)
  then show ?thesis using assms save_step_inv by simp
next
  case (Watching c)
  then show ?thesis using assms watch_inv [of s c] by simp
next
  case (Preparing c force after)
  then show ?thesis using assms prepare_step_inv [of C c force after w s t] by simp
next
  case (Terminating c after)
  then show ?thesis using assms signal_step_inv [of "AwaitTerm c after" c after w s t] reaped_not_stopping [of s c] stop_ends_inv [of s after]
    by (auto split: if_splits)
next
  case (AwaitTerm c after)
  then show ?thesis using assms signal_step_inv [of "AwaitKill c after" c after w s t] reaped_not_stopping [of s c] stop_ends_inv [of s after]
    by (auto split: if_splits)
next
  case (AwaitKill c after)
  then show ?thesis using assms stop_raises_inv [of s c after] reaped_not_stopping [of s c] stop_ends_inv [of s after]
    by (auto split: if_splits)
qed (use assms in simp)

section \<open>The monitors\<close>

lemma set_monitor_ids: "fst ` set (set_monitor k p ms) \<subseteq> fst ` set ms" if "k < length ms"
proof (cases p)
  case None
  then show ?thesis by (auto simp: set_monitor_def dest: in_set_takeD in_set_dropD)
next
  case (Some ph)
  have "map fst (ms[k := (fst (ms ! k), ph)]) = map fst ms" by (simp add: map_update list_update_same_conv that)
  then have "fst ` set (ms[k := (fst (ms ! k), ph)]) = fst ` set ms" by (metis set_map)
  then show ?thesis using Some by (simp add: set_monitor_def)
qed

lemma set_monitor_mem:
  assumes "k < length ms" and "x \<in> set (set_monitor k p ms)"
  shows "(\<exists>ph. p = Some ph \<and> x = (fst (ms ! k), ph)) \<or> (\<exists>j < length ms. j \<noteq> k \<and> x = ms ! j)"
proof (cases p)
  case None
  then have "x \<in> set (take k ms) \<or> x \<in> set (drop (Suc k) ms)" using assms(2) by (auto simp: set_monitor_def)
  then show ?thesis
  proof
    assume "x \<in> set (take k ms)"
    then obtain j where "j < k" "x = ms ! j" using assms(1) by (auto simp: in_set_conv_nth)
    then show ?thesis using assms(1) by (intro disjI2 exI [of _ j]) simp
  next
    assume "x \<in> set (drop (Suc k) ms)"
    then obtain j where "j < length ms - Suc k" "x = ms ! (Suc k + j)" by (auto simp: in_set_conv_nth)
    then show ?thesis by (intro disjI2 exI [of _ "Suc k + j"]) auto
  qed
next
  case (Some ph)
  then obtain j where "j < length ms" "x = ms[k := (fst (ms ! k), ph)] ! j"
    using assms(2) by (auto simp: set_monitor_def in_set_conv_nth)
  then show ?thesis using Some assms(1) by (cases "j = k") auto
qed

lemma set_monitor_distinct: "k < length ms \<Longrightarrow> distinct (map f (map fst ms)) \<Longrightarrow> distinct (map f (map fst (set_monitor k p ms)))"
proof (cases p)
  case None
  assume k: "k < length ms" and d: "distinct (map f (map fst ms))"
  have "map f (map fst ms) = map f (map fst (take k ms)) @ f (fst (ms ! k)) # map f (map fst (drop (Suc k) ms))"
    using id_take_nth_drop [OF k] by (metis map_append list.simps(9))
  then show ?thesis using d None by (auto simp: set_monitor_def)
next
  case (Some ph)
  assume k: "k < length ms" and d: "distinct (map f (map fst ms))"
  have "map fst (ms[k := (fst (ms ! k), ph)]) = map fst ms" using k by (simp add: map_update list_update_same_conv)
  then show ?thesis using d Some by (simp add: set_monitor_def)
qed

lemma set_monitor_ok:
  assumes ok: "mons_ok cur ms" and k: "k < length ms" "ms ! k = (c, ph)" and new: "\<And>ph'. p = Some ph' \<Longrightarrow> mon_ok cur' c ph'"
    and others: "\<And>d ph'. child_identity d \<noteq> child_identity c \<Longrightarrow> mon_ok cur d ph' \<Longrightarrow> mon_ok cur' d ph'"
  shows "mons_ok cur' (set_monitor k p ms)"
proof -
  have d: "distinct (map child_identity (map fst ms))" using ok by (simp add: mons_ok_def o_def)
  have "mon_ok cur' e q" if e: "(e, q) \<in> set (set_monitor k p ms)" for e q
    using set_monitor_mem [OF k(1) e]
  proof
    assume "\<exists>ph. p = Some ph \<and> (e, q) = (fst (ms ! k), ph)"
    then show ?thesis using new k(2) by auto
  next
    assume "\<exists>j < length ms. j \<noteq> k \<and> (e, q) = ms ! j"
    then obtain j where j: "j < length ms" "j \<noteq> k" "ms ! j = (e, q)" by auto
    then have "child_identity e \<noteq> child_identity c"
      using d k nth_eq_iff_index_eq [OF d, of j k] by simp
    moreover have "mon_ok cur e q" using ok j by (metis mons_ok_def nth_mem)
    ultimately show ?thesis using others by blast
  qed
  then show ?thesis using set_monitor_distinct [OF k(1) d, of p] by (simp add: mons_ok_def o_def)
qed

lemma persist_crash_keeps:
  "persist_crash C a c model was m = Inr m' \<Longrightarrow>
    m_child m' = m_child m \<and> m_stopping m' = m_stopping m \<and> m_starting m' = m_starting m \<and> m_stop_requested m' = m_stop_requested m \<and>
    m_shutdown_requested m' = m_shutdown_requested m \<and> set (m_durable m') = insert (child_identity c) (set (m_durable m))"
  by (auto simp: persist_crash_def seal_def Let_def split: sum.splits prod.splits if_splits)

lemma seal_crash_keeps:
  assumes "seal_crash C w c was cur model s = Some t"
  shows "m_child (mgr t) = m_child (mgr s)" "m_stopping (mgr t) = m_stopping (mgr s)" "m_starting (mgr t) = m_starting (mgr s)"
    "m_shutdown_requested (mgr t) = m_shutdown_requested (mgr s)" "m_stop_requested (mgr s) \<Longrightarrow> m_stop_requested (mgr t)"
    "holder t = holder s" "monitors t = monitors s" "used t = used s" "reaped t = reaped s" "alive t = alive s" "autos t = autos s"
  using assms persist_crash_keeps [of "acct C" "w_acct w" c model was "mgr s"]
  by (auto simp: seal_crash_def Let_def split: if_splits sum.splits acct_error.splits)

text \<open>What a monitor changes besides its own phase.\<close>

lemma monitor_keeps:
  assumes "monitor_step C w c ph s = Some (p, t)"
  shows "holder t = holder s" "monitors t = monitors s" "used t = used s" "alive t = alive s" "m_starting (mgr t) = m_starting (mgr s)"
    "m_shutdown_requested (mgr t) = m_shutdown_requested (mgr s)" "m_stop_requested (mgr s) \<Longrightarrow> m_stop_requested (mgr t)"
    "m_child (mgr t) = m_child (mgr s) \<and> m_stopping (mgr t) = m_stopping (mgr s) \<or>
     (\<exists>info was. ph = Accounted info was) \<and> m_child (mgr s) = Some c \<and> m_child (mgr t) = None \<and> \<not> m_stopping (mgr t)"
    "reaped t = reaped s \<or> (\<exists>was cur. ph = StoreCleared was cur) \<and> reaped t = child_identity c # reaped s"
proof (atomize (full), cases ph)
qed (use assms seal_crash_keeps in \<open>auto simp: reap_enter_def reap_clear_def Let_def split: if_splits option.splits prod.splits\<close>)

lemma monitor_next:
  assumes "monitor_step C w c ph s = Some (Some ph', t)" and "mon_ok (m_child (mgr s)) c ph"
  shows "mon_ok (m_child (mgr t)) c ph'"
proof (cases ph)
qed (use assms seal_crash_keeps in \<open>auto simp: reap_enter_def reap_clear_def Let_def split: if_splits option.splits prod.splits\<close>)

lemma monitor_inv:
  assumes st: "monitor_step C w c ph s = Some (p, t)" and inv: "sys_inv s" and k: "k < length (monitors s)" "monitors s ! k = (c, ph)"
  shows "sys_inv (t\<lparr>monitors := set_monitor k p (monitors t)\<rparr>)"
proof -
  note K = monitor_keeps [OF st]
  have mem: "(c, ph) \<in> set (monitors s)" using k by (metis nth_mem)
  then have cw: "child_identity c \<in> watch_ids s" unfolding watch_ids_def by force
  have ok: "mon_ok (m_child (mgr s)) c ph" using inv mem by (auto simp: sys_inv_def mons_ok_def)
  have others: "mon_ok (m_child (mgr t)) d ph'" if "child_identity d \<noteq> child_identity c" "mon_ok (m_child (mgr s)) d ph'" for d ph'
    using K(8)
  proof
    assume "(\<exists>info was. ph = Accounted info was) \<and> m_child (mgr s) = Some c \<and> m_child (mgr t) = None \<and> \<not> m_stopping (mgr t)"
    then show ?thesis using that by (cases ph') auto
  qed (use that in simp)
  have new: "mon_ok (m_child (mgr t)) c ph'" if "p = Some ph'" for ph' using monitor_next [of C w c ph s ph' t] st ok that by simp
  have mons: "mons_ok (m_child (mgr t)) (set_monitor k p (monitors t))"
    using set_monitor_ok [OF _ k, of "m_child (mgr s)" p] inv new others K(2) by (simp add: sys_inv_def)
  have w: "watch_ids (t\<lparr>monitors := set_monitor k p (monitors t)\<rparr>) \<subseteq> watch_ids s"
    using image_mono [OF set_monitor_ids [OF k(1), of p], of child_identity] K(2) by (simp add: watch_ids_def)
  have a: "alive_ids t = alive_ids s" using K(4) by (simp add: alive_ids_def)
  have not_new: "unwatched (holder s) = Some d \<Longrightarrow> child_identity d \<noteq> child_identity c" for d
    using inv cw by (auto simp: inv_defs)
  have "installed (holder s) = Some d \<Longrightarrow> unwatched (holder s) = Some d" for d by (cases "holder s") auto
  moreover have T: "threads_inv s" using inv by (simp add: sys_inv_def)
  ultimately have inst: "installed (holder s) = Some d \<Longrightarrow> m_child (mgr s) \<noteq> Some c" for d
    using not_new [of d] unfolding threads_inv_def by (metis option.inject)
  have threads: "threads_inv (t\<lparr>monitors := set_monitor k p (monitors t)\<rparr>)"
    using K(8)
  proof
    assume "m_child (mgr t) = m_child (mgr s) \<and> m_stopping (mgr t) = m_stopping (mgr s)"
    then show ?thesis using inv K(1,5) by (simp add: sys_inv_def threads_inv_def)
  next
    assume "(\<exists>info was. ph = Accounted info was) \<and> m_child (mgr s) = Some c \<and> m_child (mgr t) = None \<and> \<not> m_stopping (mgr t)"
    moreover from this have "\<not> starting_phase (holder s)" using T by (auto simp: threads_inv_def)
    moreover have "installed (holder s) = None" using inst calculation by (cases "installed (holder s)") blast+
    ultimately show ?thesis using T K(1,5) by (simp add: threads_inv_def)
  qed
  have late: "map_option child_identity (m_child (mgr t)) \<noteq> Some (child_identity c)" if "ph = StoreCleared was cur" for was cur
    using that K(8) ok by auto
  have used: "child_identity c \<in> set (used s)" using cw inv by (auto simp: inv_defs)
  have kids: "m_child (mgr t) = Some d \<Longrightarrow> m_child (mgr s) = Some d" for d using K(8) by auto
  have I: "ids_inv s" using inv by (simp add: sys_inv_def)
  have ids: "ids_inv (t\<lparr>monitors := set_monitor k p (monitors t)\<rparr>)"
    using K(9)
  proof
    assume "reaped t = reaped s"
    then show ?thesis using I w kids unfolding ids_inv_def by (simp add: K(1,3) a) blast
  next
    assume r: "(\<exists>was cur. ph = StoreCleared was cur) \<and> reaped t = child_identity c # reaped s"
    then have "m_child (mgr t) = Some d \<Longrightarrow> child_identity d \<noteq> child_identity c" for d using late by auto
    then show ?thesis using I w kids not_new used r unfolding ids_inv_def by (simp add: K(1,3) a) blast
  qed
  show ?thesis using threads ids mons by (simp add: sys_inv_def)
qed

section \<open>Every reachable state\<close>

lemma step_inv:
  assumes "step C a s = Some t" and "sys_inv s"
  shows "sys_inv t"
proof (cases a)
  case (CallStart r)
  then show ?thesis using assms enter_start_inv [of False r s t] by (simp split: if_splits)
next
  case (CallStop force)
  then show ?thesis using assms enter_stop_inv by (simp split: if_splits)
next
  case (CallSwitch r force)
  then show ?thesis using assms enter_stop_inv by (simp split: if_splits)
next
  case (CallShutdown force)
  then show ?thesis using assms enter_stop_inv by (simp split: if_splits)
next
  case (AutoStart k)
  then show ?thesis using assms enter_start_inv [of True "autos s ! k" "s\<lparr>autos := drop_at k (autos s)\<rparr>" t] by (simp split: if_splits)
next
  case (Advance w)
  then show ?thesis using assms advance_inv by simp
next
  case (Monitor k w)
  obtain c ph where k: "monitors s ! k = (c, ph)" by (cases "monitors s ! k")
  then show ?thesis using assms Monitor monitor_inv [of C w c ph s _ _ k] by (auto split: if_splits option.splits)
next
  case (Die c)
  then show ?thesis using assms(1) sys_inv_cong [OF assms(2), of t] by (auto split: if_splits)
next
  case (Observe d)
  then show ?thesis using assms(1) sys_inv_cong [OF assms(2), of t] assms(2)
    by (auto simp: observe_accounting_def split: option.splits sum.splits prod.splits)
next
  case (Ack rid disk)
  then show ?thesis using assms(1) sys_inv_cong [OF assms(2), of t] assms(2) by (auto split: sum.splits prod.splits)
qed

lemma boot_inv: "sys_inv (boot store box runs)"
  by (auto simp: boot_def readopt_def new_manager_def Let_def inv_defs mons_ok_def watch_ids_def alive_ids_def split: option.splits)

lemma daemon_run_inv: "run C as (boot store box runs) = Some s \<Longrightarrow> sys_inv s"
  by (erule run_invariant [where P = sys_inv]) (auto intro: boot_inv step_inv)

end
