(* ===== verification/Daemon_Properties.thy ===== *)
theory Daemon_Properties
  imports Daemon_Inv "HOL-Library.Code_Target_Nat"
begin

text \<open>
  What the daemon promises over every run of its threads: one serve at a time, accounting before every signal, a stop that no
  restart undoes, a shutdown that is final; and three runs in which it does less than it says.
\<close>

section \<open>One serve\<close>

definition alive_inv :: "sys \<Rightarrow> bool" where
  "alive_inv s \<longleftrightarrow> distinct (alive s) \<and> (\<forall>c \<in> set (alive s). m_child (mgr s) = Some c \<or> (\<exists>r. holder s = Installing r c)) \<and>
     (\<forall>c ph. (c, ph) \<in> set (monitors s) \<longrightarrow> ph \<noteq> Waiting \<longrightarrow> c \<notin> set (alive s))"

lemma alive_inv_cong:
  assumes "alive_inv s" and "m_child (mgr t) = m_child (mgr s)" and "monitors t = monitors s" and "alive t = alive s"
    and "\<forall>r c. holder s \<noteq> Installing r c"
  shows "alive_inv t"
  using assms by (auto simp: alive_inv_def)

lemma stop_ends_fields:
  "mgr (stop_ends after s) = mgr s" "monitors (stop_ends after s) = monitors s" "alive (stop_ends after s) = alive s"
  "used (stop_ends after s) = used s" "reaped (stop_ends after s) = reaped s"
  "holder (stop_ends after s) = (case after of ThenStart r \<Rightarrow> Gate r | _ \<Rightarrow> Free)"
  "log (stop_ends after s) = (if after = ThenShutdown then [ShutdownDone] else []) @ StopDone # log s"
  by (simp_all add: stop_ends_def split: afterwards.split)

lemma enter_stop_fields:
  assumes "enter_stop force after s = Some t"
  shows "m_child (mgr t) = m_child (mgr s)" "monitors t = monitors s" "alive t = alive s" "m_outbox (mgr t) = m_outbox (mgr s)"
    "m_durable (mgr t) = m_durable (mgr s)" "m_stop_requested (mgr t)"
    "m_shutdown_requested (mgr t) = (m_shutdown_requested (mgr s) \<or> after = ThenShutdown)"
    "(m_child (mgr s) = None \<and> holder t = (case after of ThenStart r \<Rightarrow> Gate r | _ \<Rightarrow> Free) \<and>
        log t = (if after = ThenShutdown then [ShutdownDone] else []) @ StopDone # StopRequested # log s) \<or>
     (\<exists>c. m_child (mgr s) = Some c \<and> holder t = Preparing c force after \<and> log t = StopRequested # log s)"
  using assms by (atomize (full), elim enter_stop_cases) (simp_all add: stop_ends_fields)

lemma signal_fields:
  assumes "signal_step h c after w s = Some t"
  shows "t = logged (SignalSent c) (s\<lparr>holder := h\<rparr>) \<or> t = stop_raises c after s"
  using assms by (auto simp: signal_step_def split: if_splits)

lemma prepare_fields:
  assumes "prepare_step C c force after w s = Some t"
  shows "t = stop_raises c after s \<or> (\<exists>r m. prepare_and_persist (acct C) (w_acct w) c force (mgr s) = Inr (r, m) \<and>
    t = logged (Sealed (child_identity c) (receipt_id r)) (s\<lparr>mgr := m, holder := Terminating c after\<rparr>))"
  using assms by (auto simp: prepare_step_def split: sum.splits)

lemma advance_alive:
  assumes "advance C w (holder s) s = Some t" and "alive_inv s" and "sys_inv s"
  shows "alive_inv t"
proof -
  have stop: "alive_inv t" if "signal_step h c after w s = Some t" "\<forall>r c. holder s \<noteq> Installing r c" for h c after
    using signal_fields [OF that(1)] alive_inv_cong [OF assms(2)] that(2) by (auto simp: stop_raises_fields)
  have ends: "alive_inv (stop_ends after s)" if "\<forall>r c. holder s \<noteq> Installing r c" for after
    by (rule alive_inv_cong [OF assms(2)]) (simp_all add: stop_ends_fields that)
  have raises: "alive_inv (stop_raises c after s)" if "\<forall>r c. holder s \<noteq> Installing r c" for c after
    by (rule alive_inv_cong [OF assms(2)]) (simp_all add: stop_raises_fields that)
  show ?thesis
  proof (cases "holder s")
    case (Gate r)
    then have "enter_start False r s = Some t" using assms(1) by simp
    then show ?thesis
    proof (rule enter_start_cases)
      fix m' v assume "start_gate False r (mgr s) = (v, m')" "mgr t = m'" "monitors t = monitors s" "alive t = alive s"
      then show ?thesis using alive_inv_cong [OF assms(2), of t] start_gate_keeps [of False r "mgr s" v m'] Gate by simp
    qed
  next
    case (Spawning a r)
    then have none: "m_child (mgr s) = None" using assms(3) by (simp add: inv_defs)
    then have "alive s = []" using assms(2) Spawning by (cases "alive s") (auto simp: alive_inv_def)
    moreover have "(c, ph) \<notin> set (monitors s)" if "child_identity c \<notin> set (used s)" for c ph
      using that assms(3) unfolding inv_defs watch_ids_def by force
    ultimately show ?thesis using assms(1) Spawning none by (auto simp: spawn_step_def start_failed_def alive_inv_def split: option.splits if_splits)
  next
    case (Installing r c)
    then have "m_child (mgr s) = None" using assms(3) by (simp add: inv_defs)
    then show ?thesis using assms(1,2) Installing by (auto simp: alive_inv_def start_install_def)
  next
    case (Saving r c)
    then show ?thesis using assms(1) alive_inv_cong [OF assms(2), of t] by (auto simp: save_step_def persist_state_def split: if_splits)
  next
    case (Watching c)
    then show ?thesis using assms(1,2) by (auto simp: alive_inv_def)
  next
    case (Preparing c force after)
    then have "prepare_step C c force after w s = Some t" using assms(1) by simp
    from prepare_fields [OF this] show ?thesis
    proof
      assume "\<exists>r m. prepare_and_persist (acct C) (w_acct w) c force (mgr s) = Inr (r, m) \<and>
        t = logged (Sealed (child_identity c) (receipt_id r)) (s\<lparr>mgr := m, holder := Terminating c after\<rparr>)"
      then obtain r m where m: "prepare_and_persist (acct C) (w_acct w) c force (mgr s) = Inr (r, m)"
        "t = logged (Sealed (child_identity c) (receipt_id r)) (s\<lparr>mgr := m, holder := Terminating c after\<rparr>)" by blast
      show ?thesis by (rule alive_inv_cong [OF assms(2)]) (simp_all add: m(2) prepare_keeps [OF m(1)] Preparing)
    qed (use raises Preparing in simp)
  next
    case (Terminating c after)
    then show ?thesis using assms(1) stop ends by (auto split: if_splits)
  next
    case (AwaitTerm c after)
    then show ?thesis using assms(1) stop ends by (auto split: if_splits)
  next
    case (AwaitKill c after)
    then show ?thesis using assms(1) raises ends by (auto split: if_splits)
  qed (use assms(1) in simp)
qed

lemma monitor_alive:
  assumes st: "monitor_step C w c ph s = Some (p, t)" and inv: "alive_inv s" "sys_inv s" and k: "k < length (monitors s)" "monitors s ! k = (c, ph)"
    and exact: "\<not> wait_may_raise C"
  shows "alive_inv (t\<lparr>monitors := set_monitor k p (monitors t)\<rparr>)"
proof -
  note K = monitor_keeps [OF st]
  have mem: "(c, ph) \<in> set (monitors s)" using k by (metis nth_mem)
  have dead: "c \<notin> set (alive s)"
  proof (cases "ph = Waiting")
    case True
    then show ?thesis using st exact by (simp split: if_splits)
  qed (use inv(1) mem in \<open>auto simp: alive_inv_def\<close>)
  have cur: "m_child (mgr t) = Some d \<or> (\<exists>r. holder s = Installing r d)" if d: "d \<in> set (alive s)" for d
    using K(8)
  proof
    assume "(\<exists>info was. ph = Accounted info was) \<and> m_child (mgr s) = Some c \<and> m_child (mgr t) = None \<and> \<not> m_stopping (mgr t)"
    then show ?thesis using inv(1) d dead by (auto simp: alive_inv_def)
  qed (use inv(1) d in \<open>simp add: alive_inv_def\<close>)
  have late: "d \<notin> set (alive s)" if d: "(d, q) \<in> set (set_monitor k p (monitors s))" "q \<noteq> Waiting" for d q
    using set_monitor_mem [OF k(1) d(1)]
  proof
    assume "\<exists>j < length (monitors s). j \<noteq> k \<and> (d, q) = monitors s ! j"
    then show ?thesis using inv(1) d(2) by (metis alive_inv_def nth_mem)
  qed (use dead k(2) in auto)
  show ?thesis using inv(1) cur late K(1,2,4) by (simp add: alive_inv_def)
qed

lemma step_alive:
  assumes "step C a s = Some t" and "alive_inv s" and "sys_inv s" and "\<not> wait_may_raise C"
  shows "alive_inv t"
proof (cases a)
  case (CallStart r)
  then have e: "enter_start False r s = Some t" and f: "holder s = Free" using assms(1) by (simp_all split: if_splits)
  from e show ?thesis
  proof (rule enter_start_cases)
    fix m' v assume "start_gate False r (mgr s) = (v, m')" "mgr t = m'" "monitors t = monitors s" "alive t = alive s"
    then show ?thesis using alive_inv_cong [OF assms(2), of t] start_gate_keeps [of False r "mgr s" v m'] f by simp
  qed
next
  case (CallStop force)
  then show ?thesis using assms(1) enter_stop_fields(1-3) [of force JustStop s t] alive_inv_cong [OF assms(2), of t] by (simp split: if_splits)
next
  case (CallSwitch r force)
  then show ?thesis using assms(1) enter_stop_fields(1-3) [of force "ThenStart r" s t] alive_inv_cong [OF assms(2), of t] by (simp split: if_splits)
next
  case (CallShutdown force)
  then show ?thesis using assms(1) enter_stop_fields(1-3) [of force ThenShutdown s t] alive_inv_cong [OF assms(2), of t] by (simp split: if_splits)
next
  case (AutoStart k)
  let ?s = "s\<lparr>autos := drop_at k (autos s)\<rparr>"
  have e: "enter_start True (autos s ! k) ?s = Some t" and f: "holder s = Free" using assms(1) AutoStart by (simp_all split: if_splits)
  from e show ?thesis
  proof (rule enter_start_cases)
    fix m' v assume "start_gate True (autos s ! k) (mgr ?s) = (v, m')" "mgr t = m'" "monitors t = monitors ?s" "alive t = alive ?s"
    then show ?thesis using alive_inv_cong [OF assms(2), of t] start_gate_keeps [of True "autos s ! k" "mgr s" v m'] f by simp
  qed
next
  case (Advance w)
  then show ?thesis using assms advance_alive by simp
next
  case (Monitor k w)
  obtain c ph where k: "monitors s ! k = (c, ph)" by (cases "monitors s ! k")
  then show ?thesis using assms Monitor monitor_alive [of C w c ph s _ _ k] by (auto split: if_splits option.splits)
next
  case (Die c)
  then show ?thesis using assms(1,2) by (auto simp: alive_inv_def distinct_removeAll split: if_splits)
next
  case (Observe d)
  then show ?thesis using assms(1,2)
    by (auto simp: observe_accounting_def alive_inv_def split: option.splits sum.splits prod.splits)
next
  case (Ack rid disk)
  then show ?thesis using assms(1,2) by (auto simp: alive_inv_def split: sum.splits prod.splits)
qed

lemma boot_alive: "alive_inv (boot store box runs)"
  by (auto simp: boot_def readopt_def new_manager_def Let_def alive_inv_def split: option.splits)

section \<open>What a step does\<close>

fun after_of :: "holder_phase \<Rightarrow> afterwards option" where
  "after_of (Preparing _ _ x) = Some x"
| "after_of (Terminating _ x) = Some x"
| "after_of (AwaitTerm _ x) = Some x"
| "after_of (AwaitKill _ x) = Some x"
| "after_of _ = None"

text \<open>The child whose accounting is sealed: it may be signalled.\<close>

fun sealed_child :: "holder_phase \<Rightarrow> child option" where
  "sealed_child (Terminating c _) = Some c"
| "sealed_child (AwaitTerm c _) = Some c"
| "sealed_child (AwaitKill c _) = Some c"
| "sealed_child _ = None"

lemma sealed_is_stopped: "sealed_child h = Some c \<Longrightarrow> stop_child h = Some c"
  by (cases h) auto

lemma advance_cases:
  assumes "advance C w (holder s) s = Some t"
  obtains (gate) r where "holder s = Gate r" "enter_start False r s = Some t"
  | (no_spawn) a r where "holder s = Spawning a r" "t = s\<lparr>mgr := start_failed (mgr s), holder := Free\<rparr>"
  | (spawned) a r c where "holder s = Spawning a r" "child_identity c \<notin> set (used s)"
      "t = logged (Spawned a c) (s\<lparr>alive := c # alive s, used := child_identity c # used s, holder := Installing r c\<rparr>)"
  | (install) r c where "holder s = Installing r c" "t = s\<lparr>mgr := start_install c r (mgr s), holder := Saving r c\<rparr>"
  | (unsaved) r c where "holder s = Saving r c" "t = s\<lparr>holder := Free\<rparr>"
  | (save) r c x where "holder s = Saving r c" "t = s\<lparr>mgr := (mgr s)\<lparr>m_store := x\<rparr>, holder := Watching c\<rparr>"
  | (watch) c where "holder s = Watching c" "t = s\<lparr>monitors := (c, Waiting) # monitors s, holder := Free\<rparr>"
  | (raises) c x where "stop_child (holder s) = Some c" "after_of (holder s) = Some x" "t = stop_raises c x s"
  | (ends) c x where "sealed_child (holder s) = Some c" "after_of (holder s) = Some x" "child_identity c \<in> set (reaped s)" "t = stop_ends x s"
  | (signal) c x h where "sealed_child (holder s) = Some c" "after_of (holder s) = Some x" "t = logged (SignalSent c) (s\<lparr>holder := h\<rparr>)"
      "h = AwaitTerm c x \<or> h = AwaitKill c x"
  | (seal) c x force r m where "holder s = Preparing c force x" "prepare_and_persist (acct C) (w_acct w) c force (mgr s) = Inr (r, m)"
      "t = logged (Sealed (child_identity c) (receipt_id r)) (s\<lparr>mgr := m, holder := Terminating c x\<rparr>)"
proof (cases "holder s")
  case (Gate r)
  then show thesis using assms gate by simp
next
  case (Spawning a r)
  then show thesis using assms no_spawn spawned by (auto simp: spawn_step_def split: option.splits if_splits)
next
  case (Installing r c)
  then show thesis using assms install by simp
next
  case (Saving r c)
  then show thesis using assms unsaved [OF Saving] save [OF Saving] by (cases "w_save w") (auto simp: save_step_def persist_state_def)
next
  case (Watching c)
  then show thesis using assms watch by simp
next
  case (Preparing c force x)
  then have "prepare_step C c force x w s = Some t" using assms by simp
  from prepare_fields [OF this] show thesis using raises [of c x] seal [OF Preparing] Preparing by auto
next
  case (Terminating c x)
  then have f: "sealed_child (holder s) = Some c" "stop_child (holder s) = Some c" "after_of (holder s) = Some x" by simp_all
  have "child_identity c \<in> set (reaped s) \<and> t = stop_ends x s \<or> signal_step (AwaitTerm c x) c x w s = Some t"
    using assms Terminating by (simp split: if_splits)
  then show thesis using raises [OF f(2,3)] ends [OF f(1,3)] signal [OF f(1,3)] signal_fields by blast
next
  case (AwaitTerm c x)
  then have f: "sealed_child (holder s) = Some c" "stop_child (holder s) = Some c" "after_of (holder s) = Some x" by simp_all
  have "child_identity c \<in> set (reaped s) \<and> t = stop_ends x s \<or> signal_step (AwaitKill c x) c x w s = Some t"
    using assms AwaitTerm by (simp split: if_splits)
  then show thesis using raises [OF f(2,3)] ends [OF f(1,3)] signal [OF f(1,3)] signal_fields by blast
next
  case (AwaitKill c x)
  then have f: "sealed_child (holder s) = Some c" "stop_child (holder s) = Some c" "after_of (holder s) = Some x" by simp_all
  have "child_identity c \<in> set (reaped s) \<and> t = stop_ends x s \<or> t = stop_raises c x s"
    using assms AwaitKill by (simp split: if_splits)
  then show thesis using raises [OF f(2,3)] ends [OF f(1,3)] by blast
next
  case Free
  have "advance C w (holder s) s = None" by (simp add: Free)
  then show thesis using assms by simp
qed

lemma monitor_cases:
  assumes "monitor_step C w c ph s = Some (p, t)"
  obtains (quiet) "log t = log s" "m_durable (mgr t) = m_durable (mgr s)" "m_outbox (mgr t) = m_outbox (mgr s)" "\<forall>info was. p \<noteq> Some (Accounted info was)"
  | (not_current) info was model where "ph = Flagged info was False model" "t = s"
  | (known) info was model where "ph = Flagged info was True model" "child_identity c \<in> set (m_durable (mgr s))" "log t = log s"
      "m_durable (mgr t) = m_durable (mgr s)" "m_outbox (mgr t) = m_outbox (mgr s)"
  | (crash) info was model box r old where "ph = Flagged info was True model"
      "r = crash_receipt (acct C) (w_acct w) (child_identity c) model was (map_of (m_last (mgr s)) (child_identity c))"
      "outbox_persist (disk_ok (w_acct w)) r (m_outbox (mgr s)) = Inr (old, box)"
      "log t = Sealed (child_identity c) (receipt_id r) # log s" "m_outbox (mgr t) = box" "m_durable (mgr t) = child_identity c # m_durable (mgr s)"
  | (lost) info was model where "ph = Flagged info was True model" "log t = SealFailed (child_identity c) # log s"
      "m_durable (mgr t) = m_durable (mgr s)" "m_outbox (mgr t) = m_outbox (mgr s)" "m_stop_requested (mgr t)"
  | (clear) info was where "ph = Accounted info was" "log t = Cleared c # log s" "m_durable (mgr t) = m_durable (mgr s)"
      "m_outbox (mgr t) = m_outbox (mgr s)" "\<forall>info was. p \<noteq> Some (Accounted info was)"
proof (cases ph)
  case (Flagged info was cur model)
  show thesis
  proof (cases cur)
    case False
    then have "t = s" using assms Flagged by (simp add: seal_crash_def)
    then show thesis using not_current [of info was model] Flagged False by simp
  next
    case True
    let ?i = "child_identity c" let ?r = "crash_receipt (acct C) (w_acct w) ?i model was (map_of (m_last (mgr s)) ?i)"
    show thesis
    proof (cases "?i \<in> set (m_durable (mgr s))")
      case durable: True
      then have "persist_crash (acct C) (w_acct w) c model was (mgr s) = Inr (mgr s)" by (simp add: persist_crash_def)
      then have "t = s" using assms Flagged True durable by (simp add: seal_crash_def)
      then show thesis using known [of info was model] Flagged True durable by simp
    next
      case False
      show thesis
      proof (cases "outbox_persist (disk_ok (w_acct w)) ?r (m_outbox (mgr s))")
        case (Inl e)
        then have "persist_crash (acct C) (w_acct w) c model was (mgr s) = Inl e" using False by (simp add: persist_crash_def Let_def)
        then have "t = logged (SealFailed ?i) (s\<lparr>mgr := (mgr s)\<lparr>m_stop_requested := True\<rparr>\<rparr>)"
          using assms Flagged True by (cases e) (simp_all add: seal_crash_def)
        then show thesis using lost [of info was model] Flagged True by simp
      next
        case (Inr q)
        obtain old box where q: "q = (old, box)" by (cases q)
        define r where "r = ?r"
        have r: "outbox_persist (disk_ok (w_acct w)) r (m_outbox (mgr s)) = Inr (old, box)" using Inr q by (simp add: r_def)
        have rid: "receipt_id r = stable_receipt_id (acct C) (CrashName ?i)" by (simp add: r_def crash_receipt_def)
        have "persist_crash (acct C) (w_acct w) c model was (mgr s) = Inr (seal ?i ((mgr s)\<lparr>m_outbox := box\<rparr>))"
          using False r by (simp add: persist_crash_def Let_def r_def)
        then have "t = logged (Sealed ?i (receipt_id r)) (s\<lparr>mgr := seal ?i ((mgr s)\<lparr>m_outbox := box\<rparr>)\<rparr>)"
          using assms Flagged True False rid by (simp add: seal_crash_def Let_def)
        then show thesis using crash [of info was model r old box] Flagged True r r_def by (simp add: seal_def)
      qed
    qed
  qed
next
  case (Accounted info was)
  then show thesis using assms quiet clear [of info was] by (auto simp: reap_clear_def split: if_splits)
qed (use assms quiet in \<open>auto simp: reap_enter_def split: if_splits option.splits\<close>)

section \<open>A stop is not undone\<close>

text \<open>The last word on stopping, newest event first.\<close>

fun latched :: "event list \<Rightarrow> bool" where
  "latched [] = False"
| "latched (StartRequested # _) = False"
| "latched (StopRequested # _) = True"
| "latched (SealFailed _ # _) = True"
| "latched (_ # es) = latched es"

fun restarts_ok :: "event list \<Rightarrow> bool" where
  "restarts_ok [] = True"
| "restarts_ok (Spawned a _ # es) = ((a \<longrightarrow> \<not> latched es) \<and> restarts_ok es)"
| "restarts_ok (_ # es) = restarts_ok es"

definition latch_inv :: "sys \<Rightarrow> bool" where
  "latch_inv s \<longleftrightarrow> (latched (log s) \<longrightarrow> m_stop_requested (mgr s)) \<and> (\<forall>r. holder s = Spawning True r \<longrightarrow> \<not> latched (log s)) \<and> restarts_ok (log s)"

lemma auto_gate:
  "start_gate True r m = (v, m') \<Longrightarrow> m_stop_requested m' = m_stop_requested m \<and> (v = MaySpawn \<longrightarrow> \<not> m_stop_requested m)"
  by (auto simp: start_gate_def Let_def split: option.splits bool.splits if_splits)

lemma enter_start_latch:
  assumes "enter_start a r s = Some t" and "latch_inv s"
  shows "latch_inv t"
  using assms(1)
proof (rule enter_start_cases)
  fix m' v
  assume "start_gate a r (mgr s) = (v, m')" "mgr t = m'" "holder t = (if v = MaySpawn then Spawning a r else Free)"
    "log t = (if a then log s else StartRequested # log s)"
  then show ?thesis using assms(2) auto_gate [of r "mgr s" v m'] by (cases a) (auto simp: latch_inv_def split: if_splits)
qed

lemma enter_stop_latch:
  assumes "enter_stop force after s = Some t" and "latch_inv s"
  shows "latch_inv t"
  using enter_stop_fields [OF assms(1)] assms(2) by (auto simp: latch_inv_def split: afterwards.splits)

lemma latch_inv_cong:
  "latch_inv s \<Longrightarrow> log t = log s \<Longrightarrow> m_stop_requested (mgr t) = m_stop_requested (mgr s) \<Longrightarrow> \<forall>r. holder t \<noteq> Spawning True r \<Longrightarrow> latch_inv t"
  by (simp add: latch_inv_def)

lemma advance_latch:
  assumes "advance C w (holder s) s = Some t" and "latch_inv s"
  shows "latch_inv t"
  using assms(1)
proof (cases rule: advance_cases)
  case (gate r)
  then show ?thesis using enter_start_latch assms(2) by blast
next
  case (spawned a r c)
  then show ?thesis using assms(2) by (cases a) (simp_all add: latch_inv_def)
next
  case (raises c x)
  then show ?thesis by (intro latch_inv_cong [OF assms(2)]) (simp_all add: stop_raises_fields)
next
  case (ends c x)
  then show ?thesis using assms(2) by (cases x) (auto simp: stop_ends_fields latch_inv_def)
next
  case (signal c x h)
  then show ?thesis using assms(2) by (auto simp: latch_inv_def)
next
  case (seal c x force r m)
  then show ?thesis using assms(2) prepare_keeps [OF seal(2)] by (simp add: latch_inv_def)
qed (use assms(2) in \<open>simp_all add: latch_inv_def start_failed_def start_install_def\<close>)

lemma monitor_latch:
  assumes st: "monitor_step C w c ph s = Some (p, t)" and inv: "latch_inv s" "sys_inv s" and mem: "(c, ph) \<in> set (monitors s)"
  shows "latch_inv (t\<lparr>monitors := ms\<rparr>)"
proof -
  note K = monitor_keeps [OF st]
  have no_spawn: "\<not> starting_phase (holder s)" if "ph = Flagged info was b model" for info was b model
  proof -
    have "mon_ok (m_child (mgr s)) c ph" using inv(2) mem by (auto simp: sys_inv_def mons_ok_def)
    then have "m_child (mgr s) = Some c" using that by simp
    then show ?thesis using inv(2) by (auto simp: inv_defs)
  qed
  from st show ?thesis
  proof (cases rule: monitor_cases)
    case (lost info was model)
    then show ?thesis using inv(1) no_spawn [OF lost(1)] K(1) by (auto simp: latch_inv_def)
  qed (use inv(1) K(1,7) in \<open>simp_all add: latch_inv_def\<close>)
qed

lemma step_latch:
  assumes "step C a s = Some t" and "latch_inv s" and "sys_inv s"
  shows "latch_inv t"
proof (cases a)
  case (AutoStart k)
  have "latch_inv (s\<lparr>autos := drop_at k (autos s)\<rparr>)" using assms(2) by (simp add: latch_inv_def)
  then show ?thesis using assms(1) AutoStart enter_start_latch by (auto split: if_splits)
next
  case (Monitor k w)
  obtain c ph where k: "monitors s ! k = (c, ph)" by (cases "monitors s ! k")
  have "(c, ph) \<in> set (monitors s)" if "k < length (monitors s)" using that k by (metis nth_mem)
  then show ?thesis using assms Monitor k monitor_latch [of C w c ph s] by (auto split: if_splits option.splits)
next
  case (Observe d)
  then show ?thesis using assms(1,2) by (auto simp: observe_accounting_def latch_inv_def split: option.splits sum.splits prod.splits)
next
  case (Ack rid disk)
  then show ?thesis using assms(1,2) by (auto simp: latch_inv_def split: sum.splits prod.splits)
qed (use assms enter_start_latch enter_stop_latch advance_latch in \<open>auto simp: latch_inv_def split: if_splits\<close>)

section \<open>A shutdown is final\<close>

fun no_spawn_after_shutdown :: "event list \<Rightarrow> bool" where
  "no_spawn_after_shutdown [] = True"
| "no_spawn_after_shutdown (Spawned _ _ # es) = (ShutdownDone \<notin> set es \<and> no_spawn_after_shutdown es)"
| "no_spawn_after_shutdown (_ # es) = no_spawn_after_shutdown es"

definition closed_inv :: "sys \<Rightarrow> bool" where
  "closed_inv s \<longleftrightarrow>
     (ShutdownDone \<in> set (log s) \<longrightarrow> m_shutdown_requested (mgr s) \<and> m_child (mgr s) = None \<and> (holder s = Free \<or> (\<exists>r. holder s = Gate r))) \<and>
     (after_of (holder s) = Some ThenShutdown \<longrightarrow> m_shutdown_requested (mgr s)) \<and> no_spawn_after_shutdown (log s)"

lemma enter_start_closed:
  assumes "enter_start a r s = Some t" and "closed_inv s"
  shows "closed_inv t"
  using assms(1)
proof (rule enter_start_cases)
  fix m' v
  assume t: "start_gate a r (mgr s) = (v, m')" "mgr t = m'" "holder t = (if v = MaySpawn then Spawning a r else Free)"
    "log t = (if a then log s else StartRequested # log s)"
  have "v \<noteq> MaySpawn" if "m_shutdown_requested (mgr s)" using start_gate_keeps [OF t(1)] that by blast
  then show ?thesis using t assms(2) start_gate_keeps [OF t(1)] by (auto simp: closed_inv_def)
qed

lemma enter_stop_closed:
  assumes "enter_stop force after s = Some t" and "closed_inv s"
  shows "closed_inv t"
  using enter_stop_fields [OF assms(1)] assms(2) by (auto simp: closed_inv_def split: afterwards.splits)

lemma advance_closed:
  assumes "advance C w (holder s) s = Some t" and "closed_inv s" and "sys_inv s"
  shows "closed_inv t"
  using assms(1)
proof (cases rule: advance_cases)
  case (gate r)
  then show ?thesis using enter_start_closed assms(2) by blast
next
  case (raises c x)
  have "ShutdownDone \<notin> set (log s)" using assms(2) raises(1) by (auto simp: closed_inv_def)
  then show ?thesis using assms(2) raises by (simp add: closed_inv_def stop_raises_fields)
next
  case (ends c x)
  have "m_child (mgr s) = None" using reaped_not_stopping(1) [OF assms(3) sealed_is_stopped [OF ends(1)] ends(3)] .
  then show ?thesis using assms(2) ends(2,4) by (cases x) (auto simp: stop_ends_fields closed_inv_def)
next
  case (signal c x h)
  then show ?thesis using assms(2) by (cases "holder s") (auto simp: closed_inv_def)
next
  case (seal c x force r m)
  then show ?thesis using assms(2) prepare_keeps [OF seal(2)] by (simp add: closed_inv_def)
qed (use assms(2) in \<open>simp_all add: closed_inv_def start_failed_def start_install_def\<close>)

lemma monitor_closed:
  assumes st: "monitor_step C w c ph s = Some (p, t)" and "closed_inv s"
  shows "closed_inv (t\<lparr>monitors := ms\<rparr>)"
proof -
  note K = monitor_keeps [OF st]
  have "m_child (mgr s) = None \<Longrightarrow> m_child (mgr t) = None" using K(8) by auto
  moreover have "log t = log s \<or> (\<exists>i r. log t = Sealed i r # log s) \<or> (\<exists>i. log t = SealFailed i # log s) \<or> log t = Cleared c # log s"
    using st by (cases rule: monitor_cases) simp_all
  ultimately show ?thesis using assms(2) K(1,6) by (auto simp: closed_inv_def)
qed

lemma step_closed:
  assumes "step C a s = Some t" and "closed_inv s" and "sys_inv s"
  shows "closed_inv t"
proof (cases a)
  case (AutoStart k)
  have "closed_inv (s\<lparr>autos := drop_at k (autos s)\<rparr>)" using assms(2) by (simp add: closed_inv_def)
  then show ?thesis using assms(1) AutoStart enter_start_closed by (auto split: if_splits)
next
  case (Monitor k w)
  obtain c ph where "monitors s ! k = (c, ph)" by (cases "monitors s ! k")
  then show ?thesis using assms Monitor monitor_closed [of C w c ph s] by (auto split: if_splits option.splits)
next
  case (Observe d)
  then show ?thesis using assms(1,2) by (auto simp: observe_accounting_def closed_inv_def split: option.splits sum.splits prod.splits)
next
  case (Ack rid disk)
  then show ?thesis using assms(1,2) by (auto simp: closed_inv_def split: sum.splits prod.splits)
qed (use assms enter_start_closed enter_stop_closed advance_closed in \<open>auto simp: closed_inv_def split: if_splits\<close>)

section \<open>Accounting comes first\<close>

definition sealed_in :: "proc_ident \<Rightarrow> event list \<Rightarrow> bool" where
  "sealed_in i es \<longleftrightarrow> list_ex (\<lambda>e. case e of Sealed j _ \<Rightarrow> j = i | _ \<Rightarrow> False) es"

fun sealed_first :: "event list \<Rightarrow> bool" where
  "sealed_first [] = True"
| "sealed_first (SignalSent c # es) = (sealed_in (child_identity c) es \<and> sealed_first es)"
| "sealed_first (Cleared c # es) = ((sealed_in (child_identity c) es \<or> SealFailed (child_identity c) \<in> set es) \<and> sealed_first es)"
| "sealed_first (_ # es) = sealed_first es"

text \<open>A sealed receipt is in the outbox until it is acknowledged.\<close>

definition receipts_kept :: "event list \<Rightarrow> outbox \<Rightarrow> bool" where
  "receipts_kept es box \<longleftrightarrow> list_all (\<lambda>e. case e of Sealed _ rid \<Rightarrow> map_of box rid \<noteq> None \<or> Acked rid \<in> set es | _ \<Rightarrow> True) es"

lemma kept_iff: "receipts_kept es box \<longleftrightarrow> (\<forall>i rid. Sealed i rid \<in> set es \<longrightarrow> map_of box rid \<noteq> None \<or> Acked rid \<in> set es)"
  unfolding receipts_kept_def list_all_iff by (force split: event.split)

text \<open>A monitor that has got past the accounting has sealed it, or has noted the failure.\<close>

definition accounts_ok :: "(child \<times> mphase) list \<Rightarrow> event list \<Rightarrow> bool" where
  "accounts_ok ms es \<longleftrightarrow> (\<forall>c info was. (c, Accounted info was) \<in> set ms \<longrightarrow> sealed_in (child_identity c) es \<or> SealFailed (child_identity c) \<in> set es)"

definition booked_inv :: "sys \<Rightarrow> bool" where
  "booked_inv s \<longleftrightarrow>
     (\<forall>i \<in> set (m_durable (mgr s)). sealed_in i (log s)) \<and>
     (\<forall>c. sealed_child (holder s) = Some c \<longrightarrow> sealed_in (child_identity c) (log s)) \<and>
     accounts_ok (monitors s) (log s) \<and>
     sealed_first (log s) \<and> receipts_kept (log s) (m_outbox (mgr s))"

lemma sealed_in_simps [simp]:
  "sealed_in i (Sealed j r # es) = (j = i \<or> sealed_in i es)" "sealed_in i (StopRequested # es) = sealed_in i es"
  "sealed_in i (StartRequested # es) = sealed_in i es" "sealed_in i (Spawned a c # es) = sealed_in i es"
  "sealed_in i (SealFailed j # es) = sealed_in i es" "sealed_in i (Acked q # es) = sealed_in i es"
  "sealed_in i (SignalSent c # es) = sealed_in i es" "sealed_in i (Cleared c # es) = sealed_in i es"
  "sealed_in i (StopDone # es) = sealed_in i es" "sealed_in i (ShutdownDone # es) = sealed_in i es"
  by (simp_all add: sealed_in_def)

lemma accounts_simps [simp]:
  "accounts_ok ((c, Waiting) # ms) es = accounts_ok ms es" "accounts_ok ms es \<Longrightarrow> accounts_ok ms (e # es)"
  by (auto simp: accounts_ok_def sealed_in_def)

lemma kept_simps [simp]:
  "receipts_kept (Sealed i r # es) box \<longleftrightarrow> receipts_kept es box \<and> (map_of box r \<noteq> None \<or> Acked r \<in> set es)"
  "receipts_kept (StopRequested # es) box = receipts_kept es box" "receipts_kept (StartRequested # es) box = receipts_kept es box"
  "receipts_kept (Spawned a c # es) box = receipts_kept es box" "receipts_kept (SealFailed i # es) box = receipts_kept es box"
  "receipts_kept (SignalSent c # es) box = receipts_kept es box" "receipts_kept (Cleared c # es) box = receipts_kept es box"
  "receipts_kept (StopDone # es) box = receipts_kept es box" "receipts_kept (ShutdownDone # es) box = receipts_kept es box"
  by (auto simp: kept_iff)

lemma kept_grows: "receipts_kept es box \<Longrightarrow> outbox_persist disk r box = Inr (r', box') \<Longrightarrow> receipts_kept es box'"
  using outbox_store.grows [of disk r box r' box'] unfolding kept_iff by (metis not_Some_eq)

lemma booked_cong:
  assumes "booked_inv s" and "log t = log s" and "m_durable (mgr t) = m_durable (mgr s)" and "m_outbox (mgr t) = m_outbox (mgr s)"
    and "monitors t = monitors s" and "sealed_child (holder t) = None"
  shows "booked_inv t"
  using assms by (simp add: booked_inv_def)

lemma gate_books: "start_gate a r m = (v, m') \<Longrightarrow> m_durable m' = m_durable m \<and> m_outbox m' = m_outbox m"
  by (auto simp: start_gate_def Let_def split: option.splits bool.splits if_splits)

lemma enter_start_booked:
  assumes "enter_start a r s = Some t" and "booked_inv s"
  shows "booked_inv t"
  using assms(1)
proof (rule enter_start_cases)
  fix m' v
  assume "start_gate a r (mgr s) = (v, m')" "mgr t = m'" "holder t = (if v = MaySpawn then Spawning a r else Free)"
    "monitors t = monitors s" "log t = (if a then log s else StartRequested # log s)"
  then show ?thesis using assms(2) gate_books [of a r "mgr s" v m'] by (auto simp: booked_inv_def)
qed

lemma enter_stop_booked:
  assumes "enter_stop force after s = Some t" and "booked_inv s"
  shows "booked_inv t"
  using enter_stop_fields [OF assms(1)] assms(2) by (auto simp: booked_inv_def split: afterwards.splits)

lemma advance_booked:
  assumes "advance C w (holder s) s = Some t" and "booked_inv s"
  shows "booked_inv t"
  using assms(1)
proof (cases rule: advance_cases)
  case (gate r)
  then show ?thesis using enter_start_booked assms(2) by blast
next
  case (watch c)
  then show ?thesis using assms(2) by (auto simp: booked_inv_def)
next
  case (raises c x)
  then show ?thesis by (intro booked_cong [OF assms(2)]) (simp_all add: stop_raises_fields)
next
  case (ends c x)
  then show ?thesis using assms(2) by (cases x) (auto simp: stop_ends_fields booked_inv_def)
next
  case (signal c x h)
  then show ?thesis using assms(2) by (auto simp: booked_inv_def)
next
  case (seal c x force r m)
  obtain r0 box where p: "outbox_persist (disk_ok (w_acct w)) r0 (m_outbox (mgr s)) = Inr (r, box)" "m = seal (child_identity c) ((mgr s)\<lparr>m_outbox := box\<rparr>)"
    using seal(2) by (auto simp: prepare_and_persist_def Let_def split: sum.splits prod.splits)
  have "receipts_kept (log s) box" "map_of box (receipt_id r) \<noteq> None"
    using kept_grows [OF _ p(1)] outbox_store.stored [OF p(1)] assms(2) by (auto simp: booked_inv_def)
  then show ?thesis using assms(2) seal(3) p(2) by (auto simp: booked_inv_def seal_def)
qed (use assms(2) in \<open>simp_all add: booked_inv_def start_failed_def start_install_def\<close>)

lemma monitor_booked:
  assumes st: "monitor_step C w c ph s = Some (p, t)" and inv: "booked_inv s" "sys_inv s" and k: "k < length (monitors s)" "monitors s ! k = (c, ph)"
  shows "booked_inv (t\<lparr>monitors := set_monitor k p (monitors t)\<rparr>)"
proof -
  note K = monitor_keeps [OF st]
  have mem: "(c, ph) \<in> set (monitors s)" using k by (metis nth_mem)
  then have ok: "mon_ok (m_child (mgr s)) c ph" using inv(2) by (auto simp: sys_inv_def mons_ok_def)
  have mons: "accounts_ok (set_monitor k p (monitors t)) es"
    if "accounts_ok (monitors s) es" "\<And>i b. p = Some (Accounted i b) \<Longrightarrow> sealed_in (child_identity c) es \<or> SealFailed (child_identity c) \<in> set es" for es
    unfolding accounts_ok_def
  proof (intro allI impI)
    fix d i b assume "(d, Accounted i b) \<in> set (set_monitor k p (monitors t))"
    then have "(d, Accounted i b) \<in> set (monitors s) \<or> (d = c \<and> p = Some (Accounted i b))"
      using set_monitor_mem [OF k(1), of "(d, Accounted i b)" p] k(2) K(2) by (metis fst_conv nth_mem prod.inject)
    then show "sealed_in (child_identity d) es \<or> SealFailed (child_identity d) \<in> set es" using that unfolding accounts_ok_def by blast
  qed
  from st show ?thesis
  proof (cases rule: monitor_cases)
    case quiet
    then show ?thesis using inv(1) K(1) mons [of "log t"] by (simp add: booked_inv_def)
  next
    case (not_current info was model)
    then show ?thesis using ok by simp
  next
    case (known info was model)
    then show ?thesis using inv(1) K(1) mons [of "log t"] by (simp add: booked_inv_def)
  next
    case (crash info was model box r q)
    have "receipts_kept (log s) box" "map_of box (receipt_id r) \<noteq> None"
      using kept_grows [OF _ crash(3)] outbox_store.stored [OF crash(3)] inv(1) by (auto simp: booked_inv_def)
    then show ?thesis using inv(1) K(1) mons [of "log t"] crash(4-6) by (simp add: booked_inv_def)
  next
    case (lost info was model)
    then show ?thesis using inv(1) K(1) mons [of "log t"] by (simp add: booked_inv_def)
  next
    case (clear info was)
    have "sealed_in (child_identity c) (log s) \<or> SealFailed (child_identity c) \<in> set (log s)"
      using inv(1) mem clear(1) unfolding booked_inv_def accounts_ok_def by blast
    then show ?thesis using inv(1) K(1) mons [of "log t"] clear(2-5) by (simp add: booked_inv_def)
  qed
qed

lemma step_booked:
  assumes "step C a s = Some t" and "booked_inv s" and "sys_inv s"
  shows "booked_inv t"
proof (cases a)
  case (AutoStart k)
  have "booked_inv (s\<lparr>autos := drop_at k (autos s)\<rparr>)" using assms(2) by (simp add: booked_inv_def)
  then show ?thesis using assms(1) AutoStart enter_start_booked by (auto split: if_splits)
next
  case (Monitor k w)
  obtain c ph where k: "monitors s ! k = (c, ph)" by (cases "monitors s ! k")
  then show ?thesis using assms Monitor monitor_booked [of C w c ph s _ _ k] by (auto split: if_splits option.splits)
next
  case (Observe d)
  then show ?thesis using assms(1,2) by (auto simp: observe_accounting_def booked_inv_def split: option.splits sum.splits prod.splits)
next
  case (Ack rid disk)
  show ?thesis
  proof (cases "outbox_ack disk rid (m_outbox (mgr s))")
    case (Inl e)
    then show ?thesis using assms(1,2) Ack by simp
  next
    case (Inr q)
    obtain b box where q: "q = (b, box)" by (cases q)
    have "receipts_kept (log s) (m_outbox (mgr s))" using assms(2) by (simp add: booked_inv_def)
    then have "receipts_kept (Acked rid # log s) box"
    proof (unfold kept_iff, intro allI impI)
      fix i rid' assume kept: "\<forall>i rid. Sealed i rid \<in> set (log s) \<longrightarrow> map_of (m_outbox (mgr s)) rid \<noteq> None \<or> Acked rid \<in> set (log s)"
        and "Sealed i rid' \<in> set (Acked rid # log s)"
      then have "map_of (m_outbox (mgr s)) rid' \<noteq> None \<or> Acked rid' \<in> set (log s)" by simp
      then show "map_of box rid' \<noteq> None \<or> Acked rid' \<in> set (Acked rid # log s)"
        using outbox_store.others_stay [OF Inr [unfolded q]] by (cases "rid' = rid") simp_all
    qed
    then show ?thesis using assms(1,2) Ack Inr q by (auto simp: booked_inv_def)
  qed
qed (use assms enter_start_booked enter_stop_booked advance_booked in \<open>auto simp: booked_inv_def split: if_splits\<close>)

section \<open>Over all runs\<close>

definition reach_inv :: "sys \<Rightarrow> bool" where
  "reach_inv s \<longleftrightarrow> sys_inv s \<and> latch_inv s \<and> closed_inv s \<and> booked_inv s"

lemma boot_logs: "latch_inv (boot store box runs)" "closed_inv (boot store box runs)" "booked_inv (boot store box runs)"
  by (auto simp: boot_def readopt_def new_manager_def Let_def latch_inv_def closed_inv_def booked_inv_def kept_iff accounts_ok_def split: option.splits)

lemma all_runs: "run C as (boot store box runs) = Some s \<Longrightarrow> reach_inv s"
proof (erule run_invariant [where P = reach_inv])
  show "reach_inv (boot store box runs)" using boot_inv boot_logs by (simp add: reach_inv_def)
next
  fix a s t assume "step C a s = Some t" "reach_inv s"
  then show "reach_inv t" using step_inv step_latch step_closed step_booked unfolding reach_inv_def by blast
qed

lemma all_runs_alive:
  assumes "\<not> wait_may_raise C" and "run C as (boot store box runs) = Some s"
  shows "sys_inv s \<and> alive_inv s"
  using assms(2)
proof (rule run_invariant [where P = "\<lambda>s. sys_inv s \<and> alive_inv s"])
  show "sys_inv (boot store box runs) \<and> alive_inv (boot store box runs)" using boot_inv boot_alive by blast
next
  fix a s t assume "step C a s = Some t" "sys_inv s \<and> alive_inv s"
  then show "sys_inv t \<and> alive_inv t" using step_inv step_alive assms(1) by blast
qed

section \<open>Examples\<close>

text \<open>An engine whose stop endpoint answers with its totals, a world without trouble, and two requests.\<close>

definition plain_daemon :: daemon_cfg where
  "plain_daemon = \<lparr>acct = \<lparr>stable_receipt_id = (\<lambda>n. case n of InstanceName i \<Rightarrow> i | _ \<Rightarrow> ''crash''), has_prepare = True, has_stats = True\<rparr>,
     auto_restart = True, wait_may_raise = False\<rparr>"

definition sealed_doc :: doc where
  "sealed_doc = DObj [(''instance_id'', DStr ''i1''), (''model_id'', DStr ''m''), (''prompt_tokens_total'', DInt 7),
     (''completion_tokens_total'', DInt 5), (''uptime_s'', DInt 60), (''drain_complete'', DBool True)]"

definition serve_child :: "int \<Rightarrow> child" where
  "serve_child n = \<lparr>pid = n, starttime = Some n, adopted = False\<rparr>"

definition fair :: "int \<Rightarrow> world" where
  "fair n = \<lparr>w_acct = \<lparr>prepared = Inr sealed_doc, stats = Inr sealed_doc, wall_ms = 1000, disk_ok = True\<rparr>, w_spawn = Some (serve_child n),
     w_save = True, w_signal = True, w_timeout = False, w_raise = False, w_code = Some 0\<rparr>"

definition first_serve :: request where
  "first_serve = Request ''m'' 8000 []"

definition second_serve :: request where
  "second_serve = Request ''k'' 8000 []"

definition start_run :: "request \<Rightarrow> int \<Rightarrow> action list" where
  "start_run r n = [CallStart r, Advance (fair n), Advance (fair n), Advance (fair n), Advance (fair n)]"

text \<open>The monitor of a child that has ended runs until it is through.\<close>

definition reap_run :: "nat \<Rightarrow> action list" where
  "reap_run n = replicate n (Monitor 0 (fair 0))"

text \<open>A serve is started, a shutdown seals its accounting and signals it, it ends, and its monitor reaps it.\<close>

definition shutdown_run :: "action list" where
  "shutdown_run = start_run first_serve 1 @ [CallShutdown False, Advance (fair 0), Advance (fair 0), Die (serve_child 1)] @ reap_run 7 @
     [Advance (fair 0), CallStart second_serve]"

text \<open>A serve crashes and its restart is stopped before it gets the lock.\<close>

definition crash_run :: "action list" where
  "crash_run = start_run first_serve 1 @ [Die (serve_child 1)] @ reap_run 8 @ [CallStop False, AutoStart 0]"

section \<open>The properties\<close>

text \<open>C9. The daemon never has two serves: over every run of its threads, with crashes, restarts, switches and stops at any time,
  at most one serve process of its own is alive, and it is the current child or the one that is just being installed, as
  long as waiting for a child does not raise.\<close>

theorem one_serve_at_a_time:
  assumes "\<not> wait_may_raise C" and "run C as (boot store box runs) = Some s"
  shows "length (alive s) \<le> 1 \<and> list_all (\<lambda>c. m_child (mgr s) = Some c \<or> (\<exists>r. holder s = Installing r c)) (alive s)"
proof -
  have inv: "sys_inv s" "alive_inv s" using all_runs_alive [OF assms] by simp_all
  have same: "c = d" if "c \<in> set (alive s)" "d \<in> set (alive s)" for c d
  proof (cases "m_child (mgr s)")
    case None
    then have "\<exists>r. holder s = Installing r c" "\<exists>r. holder s = Installing r d" using that inv(2) by (simp_all add: alive_inv_def)
    then show ?thesis by auto
  next
    case (Some e)
    then have "\<not> starting_phase (holder s)" using inv(1) by (auto simp: inv_defs)
    then have "holder s \<noteq> Installing r x" for r x by auto
    then have "m_child (mgr s) = Some c \<and> m_child (mgr s) = Some d" using that inv(2) unfolding alive_inv_def by blast
    then show ?thesis by auto
  qed
  have "length (alive s) = card (set (alive s))" using inv(2) by (simp add: alive_inv_def distinct_card)
  also have "\<dots> \<le> 1" using same by (simp add: card_le_Suc0_iff_eq)
  finally show ?thesis using inv(2) by (simp add: alive_inv_def list_all_iff)
qed

theorem one_serve_at_a_time_witness:
  "length (alive (the (run plain_daemon (start_run first_serve 1 @ [Die (serve_child 1)] @ reap_run 8 @
     [AutoStart 0, Advance (fair 2)]) (boot None [] False)))) \<le> 1"
proof -
  let ?as = "start_run first_serve 1 @ [Die (serve_child 1)] @ reap_run 8 @ [AutoStart 0, Advance (fair 2)]"
  have "run plain_daemon ?as (boot None [] False) = Some (the (run plain_daemon ?as (boot None [] False)))" by code_simp
  moreover have "\<not> wait_may_raise plain_daemon" by code_simp
  ultimately show ?thesis using one_serve_at_a_time by blast
qed

text \<open>C10. No serve is signalled before its final accounting is sealed, and none is forgotten before it is sealed or the failure to
  seal it is noted; and every sealed receipt stays in the outbox until it is acknowledged.\<close>

theorem accounting_comes_first:
  assumes "run C as (boot store box runs) = Some s"
  shows "sealed_first (log s) \<and> receipts_kept (log s) (m_outbox (mgr s))"
  using all_runs [OF assms] by (simp add: reach_inv_def booked_inv_def)

theorem accounting_comes_first_witness:
  "sealed_first (log (the (run plain_daemon shutdown_run (boot None [] False)))) \<and>
   log (the (run plain_daemon shutdown_run (boot None [] False))) =
     [StartRequested, ShutdownDone, StopDone, Cleared (serve_child 1), SignalSent (serve_child 1), Sealed (Ident 1 (Some 1)) ''i1'',
      StopRequested, Spawned False (serve_child 1), StartRequested]"
proof -
  have e: "run plain_daemon shutdown_run (boot None [] False) = Some (the (run plain_daemon shutdown_run (boot None [] False)))" by code_simp
  show ?thesis using accounting_comes_first [OF e] by (intro conjI) (blast, code_simp)
qed

text \<open>C20. A stop that a client asked for is never undone by an automatic restart, nor is one that a failed accounting forces: no
  restart spawns a serve after it until a client asks for a start.\<close>

theorem stop_is_not_undone:
  assumes "run C as (boot store box runs) = Some s"
  shows "restarts_ok (log s)"
  using all_runs [OF assms] by (simp add: reach_inv_def latch_inv_def)

theorem stop_is_not_undone_witness:
  "restarts_ok (log (the (run plain_daemon crash_run (boot None [] False)))) \<and>
   length (autos (the (run plain_daemon (take 14 crash_run) (boot None [] False)))) = 1 \<and>
   alive (the (run plain_daemon crash_run (boot None [] False))) = []"
proof -
  have e: "run plain_daemon crash_run (boot None [] False) = Some (the (run plain_daemon crash_run (boot None [] False)))" by code_simp
  show ?thesis using stop_is_not_undone [OF e] by (intro conjI) (blast, code_simp+)
qed

text \<open>C21. A shutdown that succeeds is final: in any run no serve is spawned after it and none is current. None of the daemon's
  own is alive either, provided that waiting for a child never raises: \<open>_monitor\<close> reaps a child whose \<open>wait()\<close> has failed
  although it may be living, so that without this proviso a serve can outlive the shutdown (\<open>shutdown_after_failed_wait\<close>). A wait
  that returns is taken to say the truth, for an adopted child too.\<close>

theorem shutdown_is_final:
  assumes "run C as (boot store box runs) = Some s" and "ShutdownDone \<in> set (log s)"
  shows "no_spawn_after_shutdown (log s) \<and> m_child (mgr s) = None \<and> (\<not> wait_may_raise C \<longrightarrow> alive s = [])"
proof -
  have c: "closed_inv s" using all_runs [OF assms(1)] by (simp add: reach_inv_def)
  then have "m_child (mgr s) = None" "\<forall>r c. holder s \<noteq> Installing r c" using assms(2) by (auto simp: closed_inv_def)
  moreover have "alive_inv s" if "\<not> wait_may_raise C" using all_runs_alive [OF that assms(1)] by blast
  ultimately have "set (alive s) = {}" if "\<not> wait_may_raise C"
    using that unfolding alive_inv_def by (metis all_not_in_conv option.distinct(1))
  then show ?thesis using c \<open>m_child (mgr s) = None\<close> by (simp add: closed_inv_def)
qed

theorem shutdown_is_final_witness:
  "no_spawn_after_shutdown (log (the (run plain_daemon shutdown_run (boot None [] False)))) \<and>
   alive (the (run plain_daemon shutdown_run (boot None [] False))) = []"
proof -
  have e: "run plain_daemon shutdown_run (boot None [] False) = Some (the (run plain_daemon shutdown_run (boot None [] False)))" by code_simp
  have "ShutdownDone \<in> set (log (the (run plain_daemon shutdown_run (boot None [] False))))" "\<not> wait_may_raise plain_daemon" by code_simp+
  then show ?thesis using shutdown_is_final [OF e] by blast
qed

section \<open>Where it does less than it says\<close>

text \<open>The wait for a serve raises while the serve is living: its monitor reaps it all the same, the shutdown then finds no current
  serve and succeeds, and the serve lives on.\<close>

definition failed_wait_run :: "action list" where
  "failed_wait_run = start_run first_serve 1 @ [Monitor 0 ((fair 0)\<lparr>w_raise := True\<rparr>)] @ reap_run 7 @ [CallShutdown False]"

lemma shutdown_after_failed_wait:
  "let s = the (run (plain_daemon\<lparr>wait_may_raise := True\<rparr>) failed_wait_run (boot None [] False)) in
   ShutdownDone \<in> set (log s) \<and> m_child (mgr s) = None \<and> alive s = [serve_child 1]"
  by code_simp

text \<open>A client starts a serve after the monitor of a crashed one has cleared the child and before it clears the record: the
  record of the new serve is removed, and a later daemon will not adopt it.\<close>

definition record_race :: "action list" where
  "record_race = start_run first_serve 1 @ [Die (serve_child 1)] @ reap_run 4 @ start_run second_serve 2 @ replicate 3 (Monitor 1 (fair 0))"

lemma record_of_running_serve_lost:
  "let s = the (run plain_daemon record_race (boot None [] False)) in
   holder s = Free \<and> monitors s = [(serve_child 2, Waiting), (serve_child 1, Restarting)] \<and> alive s = [serve_child 2] \<and> m_child (mgr s) = Some (serve_child 2) \<and> m_store (mgr s) = None"
  by code_simp

text \<open>When the record of a new serve cannot be saved, the serve is current and alive but has no monitor: a stop can signal it but never
  sees it end.\<close>

definition unsaved_run :: "action list" where
  "unsaved_run = [CallStart first_serve, Advance (fair 1), Advance (fair 1), Advance ((fair 1)\<lparr>w_save := False\<rparr>),
     CallStop False, Advance (fair 0), Advance (fair 0), Die (serve_child 1), Advance ((fair 0)\<lparr>w_timeout := True\<rparr>),
     Advance ((fair 0)\<lparr>w_timeout := True\<rparr>)]"

lemma unsaved_serve_never_reaped:
  "let s = the (run plain_daemon unsaved_run (boot None [] False)) in
   holder s = Free \<and> monitors s = [] \<and> alive s = [] \<and> m_child (mgr s) = Some (serve_child 1)"
  by code_simp

text \<open>A restart that waits for the lock may outlive a stop and the start of another serve: when that one crashes, the old serve
  comes back.\<close>

definition stale_restart :: "action list" where
  "stale_restart = start_run first_serve 1 @ [Die (serve_child 1)] @ reap_run 8 @ [CallStop False] @ start_run second_serve 2 @
     [Die (serve_child 2)] @ reap_run 8 @ [AutoStart 0, Advance (fair 3), Advance (fair 3)]"

lemma stopped_serve_comes_back:
  "let s = the (run plain_daemon stale_restart (boot None [] False)) in
   alive s = [serve_child 3] \<and> m_model (mgr s) = Some ''m''"
  by code_simp

end
