(* ===== verification/Spec2Isabelle.thy ===== *)
theory Spec2Isabelle
  imports Manager_Properties Prefill_Properties Hybrid_Properties Sched_Properties Swa_Termination Wire
    Cache_Budget Replay_Rings Detokenize
    Reasoning_Stream Harmony_Stream Reasoning_Registry Expert_Properties Tool_Properties Daemon_Properties
begin

text \<open>
  A verification development for FreeToken, a serving engine for mixture-of-experts language models. Paths are relative to
  \<open>src/python/freetoken\<close>.

  \<^bold>\<open>The program.\<close> A request comes in over HTTP, is tokenized and sent to the scheduler, whose loop admits prompts into
  prefill batches, decodes the running requests, and answers with tokens, which the detokenizer turns into text; the
  server splits the text of a completion into reasoning, content and tool calls while it streams. Under the scheduler a
  cache manager hands out pages of KV slots and keeps finished prefixes in a radix tree, so that a later request that
  starts the same way reuses them; models with recurrent layers or sliding windows add a second resource to every token.
  Experts that do not fit on the GPU stay in host memory, and a cache of slots on the GPU holds the recently used ones. A
  separate daemon supervises the serving process, restarts it after a crash, and books what it has generated.

  \<^bold>\<open>Theories.\<close> In the order of the layers:

  \<^item> \<open>Prelude\<close>, \<open>Py_Text\<close>: results that may be errors, the integer helpers of \<open>utils/misc.py\<close>, Python's string methods on lists of
    code points. \<open>Byte_Text\<close>: UTF-8 with replacement, the texts of byte-level tokens, and the locale \<open>incremental_decoder\<close> of
    what the detokenizer needs of a decoder, interpreted for them. \<open>Heap_Queue\<close>: the locale \<open>priority_queue\<close> and \<open>heapq\<close> as its instance.
  \<^item> \<open>Radix_Tree\<close>, \<open>Radix_Facts\<close>, \<open>Radix_Walk\<close>, \<open>Radix_Edit\<close>, \<open>Radix_Remove\<close>, \<open>Radix_Lock\<close>, \<open>Radix_Cache\<close>, \<open>Radix_Properties\<close>:
    \<open>kvcache/radix_cache.py\<close> with the key comparison of \<open>kernel/csrc/src/radix.cpp\<close>. The linked nodes are a tree of
    \<open>ndata\<close> with identities, parent pointers are paths. \<open>mtch\<close> is the abstract content of a tree, the longest
    cached prefix of a sequence; the operations are shown to refine it.
  \<^item> \<open>Prefix_Cache\<close>: the interface \<open>BasePrefixCache\<close> as a record of operations and the locale \<open>prefix_cache\<close> with its contract,
    interpreted for the naive and the radix cache. \<open>Pages\<close>, \<open>Cache_Manager\<close>, \<open>Page_Conservation\<close>, \<open>Manager_Properties\<close>: the
    plain paths of \<open>scheduler/cache.py\<close>; conservation of slots is proved once from the contract.
  \<^item> \<open>Hybrid_Radix\<close>, \<open>Hybrid_Facts\<close>, \<open>Hybrid_Evict\<close>, \<open>Hybrid_Properties\<close>, \<open>Hybrid_Manager\<close>: \<open>kvcache/hybrid_radix_cache.py\<close>, whose nodes may
    carry a snapshot of the recurrent state, and the manager over it. \<open>Swa_Radix\<close>, \<open>Swa_Manager\<close>, \<open>Swa_Termination\<close>:
    \<open>kvcache/swa_radix_cache.py\<close> and the managers with window slots. \<open>State_Pools\<close>: the slot pools of
    \<open>kvcache/linear_state_pool.py\<close> and \<open>kvcache/hybrid_swa_pool.py\<close>.
  \<^item> \<open>Core\<close>, \<open>Messages\<close>, \<open>Wire\<close>, \<open>Sched_Tables\<close>, \<open>Prefill\<close>, \<open>Prefill_Properties\<close>: requests and batches (\<open>core.py\<close>), the messages and
    their wire format (\<open>message/\<close>), the row table, the decode set and the admission (\<open>scheduler/table.py\<close>,
    \<open>decode.py\<close>, \<open>prefill.py\<close>).
  \<^item> \<open>Scheduler\<close>, \<open>Sched_Contract\<close>, \<open>Stream_Safety\<close>, \<open>Sched_Managers\<close>, \<open>Sched_Properties\<close>: \<open>scheduler/scheduler.py\<close> over a store
    of request objects. The locale \<open>sched_contract\<close> says what the scheduler relies on of a cache manager; it is
    interpreted for the four managers of the code; that no token follows a terminal reply is stated for each of them, that
    aborts are acknowledged for the plain one.
  \<^item> \<open>Cache_Budget\<close>, \<open>Replay_Rings\<close>: the memory plan (\<open>engine/cache_budget.py\<close> and the sizing templates of \<open>kvcache/base.py\<close>), the
    rings that clients poll (\<open>server/request_ring.py\<close>, \<open>daemon/logring.py\<close>).
  \<^item> \<open>Expert_Cache\<close>, \<open>Expert_Lanes\<close>, \<open>Expert_Kernels\<close>, \<open>Expert_Data\<close>, \<open>Expert_Decode\<close>, \<open>Expert_Prefill\<close>, \<open>Expert_Runs\<close>, \<open>Expert_Double\<close>,
    \<open>Expert_Whole\<close>, \<open>Expert_Properties\<close>: the slot cache of the experts (\<open>moe/offload_cache.py\<close>, \<open>moe/offload_kernels.py\<close>) and
    the layer steps that use it (\<open>layers/moe.py\<close>). A kernel is modelled lane by lane, as pointwise stores.
  \<^item> \<open>Detokenize\<close>: \<open>tokenizer/detokenize.py\<close>. \<open>Reasoning\<close>, \<open>Reasoning_Stream\<close>, \<open>Harmony\<close>, \<open>Harmony_Stream\<close>, \<open>Muse\<close>,
    \<open>Reasoning_Registry\<close>: all of \<open>server/reasoning_parser.py\<close>.
  \<^item> \<open>Tool_Stream\<close>, \<open>Tool_Meaning\<close>, \<open>Tool_Chunks\<close>, \<open>Tool_Confluence\<close>, \<open>Tool_Runs\<close>, \<open>Tool_Drains\<close>, \<open>Tool_Formats\<close>, \<open>Tool_Roundtrip\<close>, \<open>Tool_Ledger\<close>,
    \<open>Tool_Properties\<close>: the streaming tool-call parser of \<open>server/function_call_parser.py\<close> (\<open>InvokeParamStreamMixin\<close>). The locale
    \<open>invoke_grammar\<close> lists what its lemmas need of the tokens of a format; Qwen3-Coder, MiniMax and Muse Glimmer are its
    interpretations.
  \<^item> \<open>Daemon_Accounting\<close>, \<open>Daemon_Serve\<close>, \<open>Daemon_Steps\<close>, \<open>Daemon_Inv\<close>, \<open>Daemon_Properties\<close>: \<open>daemon/serve_manager.py\<close> and
    \<open>daemon/accounting.py\<close>. The sections between two releases of a lock are functions on the record \<open>manager\<close>; \<open>step\<close>
    interleaves the holder of the lifecycle lock, the monitors, the queued restarts and the processes, and a run is a list
    of such actions. The locale \<open>receipt_store\<close> is what the manager relies on of the outbox.

  \<^bold>\<open>What is shown.\<close>

  \<^item> Resources: every KV slot is accounted for exactly once when the manager over the naive or the radix cache allocates, commits
    and finishes, and when the hybrid cache evicts; eviction in the radix cache frees what it is asked for, oldest first, and
    never what is locked; unlocking undoes locking; a match
    returns the longest cached prefix, and in a hybrid cache the longest one a state can resume from.
  \<^item> Scheduling: no token of a request follows its terminal reply, in any run of the overlap loop (with fresh uids and at most
    65536 aborted ones, beyond which the source drops tombstones); with the plain manager, aborts are acknowledged in the
    iteration that receives them, when it returns; prompts are admitted in order and within the budget; an ASCII stop string
    in the text of a byte-level tokenizer is found, and others can be missed (\<open>stop_string_missed\<close>); the idle check of the plain
    managers rejects exactly the pools with a leak, a double free or a misaligned page.
  \<^item> Text: the detokenizer sends exactly the final text, whatever characters the tokens are split at; the think parsers, Harmony and
    the tool-call parser give the same result, or the same exception, for every way of cutting a text into chunks; tool
    calls that are written as the template writes them are read back; messages survive the wire.
  \<^item> Experts: the GPU kernel decides as the CPU reference does; decode and prefill compute with the rows of exactly the
    experts they were routed to, after every sequence of hybrid decodes, prefills, resets and rebuilds.
  \<^item> Daemon: at most one serve at a time, as long as waiting for a child does not raise; no signal before the final receipt is
    durable; no restart undoes a stop, and nothing a shutdown.
    Four executable runs show where it does less than its comments say: a child whose wait fails is reaped although it may
    live, so that it can outlive a shutdown; the record of a new serve is lost when its
    start overlaps the end of a reap, a serve whose record cannot be saved is never watched, and a queued restart may
    outlive a stop and a start.

  \<^bold>\<open>Errors.\<close> An exception is the left side of a sum (\<open>'a result\<close>, or a sum with the error datatype of its part), an assertion of the
  source a branch with an error value, so that every theorem that speaks of a right side says that nothing was raised.

  \<^bold>\<open>Bounds and loops.\<close> Loops of the source are recursive functions with a termination proof: the walks and evictions shrink what is
  left of the key, the heap or the tree; the scans of the parsers shrink the text. Two are not of this kind.
  \<open>ensure_swa_slots\<close> is a \<open>partial_function\<close>, and \<open>swa_allocation_returns\<close> shows that it returns. \<open>ps_loop\<close> of the tool-call parser is given
  one turn per character of its buffer and one more; a turn that goes on shortens the buffer, and \<open>tool_loop_returns\<close> shows that
  the loop without a bound stops there with the same result, by its break or by an exception. The 16 drains of
  \<open>parse_stream_events\<close> are the bound of the source; every drain that stops with an event has passed the opener of a block, so
  that they are enough for a text with at most fourteen of them (\<open>few_blocks_drained\<close>).
  Python's integers are \<open>int\<close> or \<open>nat\<close>; the 64-bit and fixed-point values of the kernels appear where they bound something
  (\<open>max_int64\<close>, \<open>q16\<close>), while the products \<open>rec * num_experts\<close> and \<open>num_missing * frac_q16\<close> are taken without the wrap-around that no
  size of a model reaches. The limits of the interpreter on recursion and memory are not modelled.

  \<^bold>\<open>Parameters.\<close> What the code calls and does not define is an argument: the tokenizer's decoder (of which \<open>detokenize_streams_exactly\<close> and \<open>stop_string_found\<close> assume that it gives the UTF-8 text of the
  bytes of the tokens, perhaps without one leading space, as decoders of byte-level tokenizers are documented to do: this
  excludes \<open>clean_up_tokenization_spaces\<close> and decoders that replace a whole run of byte tokens while it is incomplete), the sampler of the engine,
  the networks of the experts, the parsers \<open>int\<close>, \<open>float\<close>, \<open>json.loads\<close>, \<open>ast.literal_eval\<close> (with the values that JSON cannot write and the exceptions that
  the source catches or lets through), the floats of the wire format, and
  for the daemon the processes, the clock, the disk and the endpoints of the engine, which may answer anything. Its UUIDs
  are an arbitrary function of the name, and a process is known by pid and start time, which the model takes to be fresh; a wait that returns is taken to say the
  truth, for an adopted child too. The constructor call of the wire format does not check the sampling parameters again,
  which were checked when the message was made.
  \<open>observe_accounting\<close> is one step here, where the source reads the child and stores the totals under two locks.

  \<^bold>\<open>Not modelled.\<close> The networks and kernels (\<open>models/\<close>, \<open>attention/\<close>, \<open>kernel/\<close>, \<open>layers/\<close> besides the routing of \<open>moe.py\<close>), the
  CUDA graphs and streams of the engine (copies are done in the order they are enqueued), the checkpoint formats, the HTTP
  handlers and the adapters of the APIs, the one-shot tool-call parsers and the formats with a grammar of their own,
  the shell and the command lines: tensor arithmetic, input and output, or glue around the parts above.
\<close>

end
